(* ===== verification/GF_Prelude.thy ===== *)
theory GF_Prelude
  imports Main "HOL-Library.Word"
begin

text \<open>
  Vocabulary shared by every component: the machine types of the C++ sources, the
  outcomes a call can have besides returning (a fault stands for undefined behaviour,
  for leaving the process or for not returning), the byte order of the platform, and
  the ordered associative container \<open>MAP(K, V)\<close> of
  \<open>src/src/common/memory/mem_define.h\<close>.
\<close>

unbundle bit_operations_syntax

section \<open>Machine types\<close>

type_synonym byte = "8 word"
type_synonym u32 = "32 word"   \<comment> \<open>\<open>uint32\<close>, and the bit pattern of an \<open>int\<close>\<close>
type_synonym u64 = "64 word"   \<comment> \<open>\<open>uint64_t\<close>, \<open>size_t\<close> and addresses\<close>
type_synonym ptr = "64 word"   \<comment> \<open>a pointer; 0 is \<open>NULL\<close>\<close>

abbreviation NULLP :: ptr where "NULLP \<equiv> 0"

named_theorems wire_simps \<open>evaluation of the byte-level encoders and decoders\<close>
named_theorems net_simps \<open>field-wise effect of the operations of the network layer\<close>
named_theorems map_simps \<open>laws of the ordered containers\<close>

section \<open>Outcomes\<close>

text \<open>
  Every definition that can leave the defined behaviour of C++ returns
  \<open>fault + 'a\<close>: \<open>Inl\<close> names what goes wrong, \<open>Inr\<close> carries the result.
  \<open>Spin\<close> is a loop that never leaves its body, \<open>Exit_process\<close> a call of
  \<open>exit\<close>.
\<close>

datatype fault =
    Null_deref          \<comment> \<open>a null pointer is dereferenced or called\<close>
  | Dangling ptr        \<comment> \<open>an object that was deleted (or never existed) is used\<close>
  | Overrun             \<comment> \<open>a read outside the bytes a block holds\<close>
  | Alloc_null          \<comment> \<open>a failed allocation is written through\<close>
  | Int_overflow        \<comment> \<open>signed overflow\<close>
  | Div_zero            \<comment> \<open>remainder by zero\<close>
  | Spin                \<comment> \<open>the loop never ends\<close>
  | Exit_process u32    \<comment> \<open>\<open>exit(code)\<close>\<close>
  | Check_failed        \<comment> \<open>a fatal \<open>GOOGLE_CHECK\<close>\<close>

type_synonym 'a res = "fault + 'a"

fun bind_res :: "'a res \<Rightarrow> ('a \<Rightarrow> 'b res) \<Rightarrow> 'b res" where
  "bind_res (Inl f) k = Inl f"
| "bind_res (Inr x) k = k x"

lemma bind_res_Inr [simp]:
  "bind_res r k = Inr y \<longleftrightarrow> (\<exists>x. r = Inr x \<and> k x = Inr y)"
  by (cases r) auto

lemma bind_res_Inl:
  "bind_res r k = Inl f \<longleftrightarrow> r = Inl f \<or> (\<exists>x. r = Inr x \<and> k x = Inl f)"
  by (cases r) auto

text \<open>A loop over a list whose body may fault.\<close>

fun fold_res :: "('a \<Rightarrow> 's \<Rightarrow> 's res) \<Rightarrow> 'a list \<Rightarrow> 's \<Rightarrow> 's res" where
  "fold_res f [] s = Inr s"
| "fold_res f (x # xs) s = bind_res (f x s) (fold_res f xs)"

lemma fold_res_append:
  "fold_res f (xs @ ys) s = bind_res (fold_res f xs s) (fold_res f ys)"
proof (induction xs arbitrary: s)
  case (Cons x xs)
  then show ?case by (cases "f x s") simp_all
qed simp

lemma fold_res_invariant:
  assumes "fold_res f xs s = Inr t" and "P s"
    and "\<And>x u v. x \<in> set xs \<Longrightarrow> P u \<Longrightarrow> f x u = Inr v \<Longrightarrow> P v"
  shows "P t"
  using assms
proof (induction xs arbitrary: s)
  case (Cons x xs)
  from Cons.prems(1) obtain u where u: "f x s = Inr u" and t: "fold_res f xs u = Inr t"
    by auto
  have "P u" by (rule Cons.prems(3) [OF _ Cons.prems(2) u]) simp
  with t show ?case by (rule Cons.IH) (use Cons.prems(3) in auto)
qed simp

lemma fold_res_total:
  assumes "P s" and "\<And>x u. x \<in> set xs \<Longrightarrow> P u \<Longrightarrow> \<exists>v. f x u = Inr v \<and> P v"
  shows "\<exists>t. fold_res f xs s = Inr t \<and> P t"
  using assms
proof (induction xs arbitrary: s)
  case (Cons x xs)
  from Cons.prems obtain u where "f x s = Inr u" "P u" by (meson list.set_intros(1))
  with Cons.IH [of u] Cons.prems(2) show ?case by auto
qed simp

section \<open>Little-endian memory\<close>

text \<open>
  The sources are built for x86-64 Linux (\<open>src/build/linux/common.mk\<close>): storing an
  \<open>int\<close> or a \<open>uint64_t\<close> through a cast pointer writes its bytes lowest first.
\<close>

fun le_bytes :: "nat \<Rightarrow> 'a::len word \<Rightarrow> byte list" where
  "le_bytes 0 w = []"
| "le_bytes (Suc n) w = ucast w # le_bytes n (drop_bit 8 w)"

fun le_word :: "byte list \<Rightarrow> 'a::len word" where
  "le_word [] = 0"
| "le_word (b # bs) = ucast b OR push_bit 8 (le_word bs)"

abbreviation le32 :: "u32 \<Rightarrow> byte list" where "le32 \<equiv> le_bytes 4"
abbreviation le64 :: "u64 \<Rightarrow> byte list" where "le64 \<equiv> le_bytes 8"

lemma length_le_bytes [simp, wire_simps]: "length (le_bytes n w) = n"
  by (induction n arbitrary: w) auto

lemma le_step:
  fixes w :: "'a::len word"
  shows "ucast (ucast w :: byte) OR push_bit 8 (take_bit n (drop_bit 8 w)) = take_bit (8 + n) w"
proof (rule bit_word_eqI)
  fix k assume k: "k < LENGTH('a)"
  show "bit (ucast (ucast w :: byte) OR push_bit 8 (take_bit n (drop_bit 8 w))) k
      = bit (take_bit (8 + n) w) k"
    using k by (cases "k < 8") (auto simp: bit_simps)
qed

lemma le_word_bytes: "le_word (le_bytes n w) = take_bit (8 * n) w"
  by (induction n arbitrary: w) (simp_all add: le_step)

lemma le_word_le32 [simp, wire_simps]: "le_word (le32 w) = w"
  by (simp add: le_word_bytes take_bit_word_eq_self)

lemma le_word_le64 [simp, wire_simps]: "le_word (le64 w) = w"
  by (simp add: le_word_bytes take_bit_word_eq_self)

end
