(* ===== verification/GF_Wire.thy ===== *)
theory GF_Wire
  imports GF_Prelude
begin

text \<open>
  The varint layer of the protobuf runtime the servers are built with
  (\<open>src/include/google/protobuf/io/coded_stream.cc\<close>, \<open>.h\<close>). Reading works on
  the bytes between \<open>buffer_\<close> and \<open>buffer_end_\<close> of a \<open>CodedInputStream\<close> over a flat
  array; writing yields the bytes stored from \<open>target\<close> on.

  The unrolled fast paths are modelled next to the byte loops they replace, and shown
  equal to them; the byte loop is then shown to undo the writer.
\<close>

section \<open>Reading\<close>

text \<open>What an unrolled reader does: finish with the unread bytes, give up after the
  maximal length, or run off the end of the buffer.\<close>

datatype 'a vread = Vdone 'a "byte list" | Vnull | Voverrun

fun rv32_discard :: "nat \<Rightarrow> u32 \<Rightarrow> byte list \<Rightarrow> u32 vread" where
  "rv32_discard 0 result bs = Vnull"
| "rv32_discard (Suc i) result [] = Voverrun"
| "rv32_discard (Suc i) result (b # bs) =
     (if b AND 0x80 = 0 then Vdone result bs else rv32_discard i result bs)"

fun rv32_unrolled :: "nat \<Rightarrow> nat \<Rightarrow> u32 \<Rightarrow> byte list \<Rightarrow> u32 vread" where
  "rv32_unrolled 0 k result bs = rv32_discard 5 result bs"
| "rv32_unrolled (Suc n) k result [] = Voverrun"
| "rv32_unrolled (Suc n) k result (b # bs) =
     (let result' = result + push_bit k (ucast b)
      in if b AND 0x80 = 0 then Vdone result' bs
         else rv32_unrolled n (k + 7) (result' - push_bit k 0x80) bs)"

definition ReadVarint32FromArray :: "byte list \<Rightarrow> u32 vread" where
  "ReadVarint32FromArray buffer = rv32_unrolled 5 0 0 buffer"

datatype vpart = Pdone u32 "byte list" | Pmore u32 "byte list" | Poverrun

fun rv64_part :: "nat \<Rightarrow> nat \<Rightarrow> u32 \<Rightarrow> byte list \<Rightarrow> vpart" where
  "rv64_part 0 k part bs = Pmore part bs"
| "rv64_part (Suc n) k part [] = Poverrun"
| "rv64_part (Suc n) k part (b # bs) =
     (let part' = part + push_bit k (ucast b)
      in if b AND 0x80 = 0 then Pdone part' bs
         else rv64_part n (k + 7) (part' - push_bit k 0x80) bs)"

definition join_parts :: "u32 \<Rightarrow> u32 \<Rightarrow> u32 \<Rightarrow> u64" where
  "join_parts part0 part1 part2 =
     ucast part0 OR push_bit 28 (ucast part1) OR push_bit 56 (ucast part2)"

definition ReadVarint64FromArray :: "byte list \<Rightarrow> u64 vread" where
  "ReadVarint64FromArray buffer =
     (case rv64_part 4 0 0 buffer of
        Poverrun \<Rightarrow> Voverrun
      | Pdone part0 rest \<Rightarrow> Vdone (join_parts part0 0 0) rest
      | Pmore part0 rest0 \<Rightarrow>
         (case rv64_part 4 0 0 rest0 of
            Poverrun \<Rightarrow> Voverrun
          | Pdone part1 rest \<Rightarrow> Vdone (join_parts part0 part1 0) rest
          | Pmore part1 rest1 \<Rightarrow>
             (case rv64_part 2 0 0 rest1 of
                Poverrun \<Rightarrow> Voverrun
              | Pdone part2 rest \<Rightarrow> Vdone (join_parts part0 part1 part2) rest
              | Pmore part2 rest \<Rightarrow> Vnull)))"

text \<open>\<open>ReadVarint64Slow\<close>: \<open>n\<close> is \<open>kMaxVarintBytes - count\<close>. Over a flat array
  \<open>Refresh()\<close> fails, so an empty buffer ends the read; the bytes read stay consumed.\<close>

fun ReadVarint64Slow_loop :: "nat \<Rightarrow> nat \<Rightarrow> u64 \<Rightarrow> byte list \<Rightarrow> u64 option \<times> byte list" where
  "ReadVarint64Slow_loop 0 count result bs = (None, bs)"
| "ReadVarint64Slow_loop (Suc n) count result [] = (None, [])"
| "ReadVarint64Slow_loop (Suc n) count result (b # bs) =
     (let result' = result OR push_bit (7 * count) (ucast (b AND 0x7F))
      in if b AND 0x80 = 0 then (Some result', bs)
         else ReadVarint64Slow_loop n (Suc count) result' bs)"

definition ReadVarint64Slow :: "byte list \<Rightarrow> u64 option \<times> byte list" where
  "ReadVarint64Slow buffer = ReadVarint64Slow_loop 10 0 0 buffer"

text \<open>The test that allows the unrolled readers: ten bytes are left, or the last byte of
  the buffer ends a varint.\<close>

definition safe_unrolled :: "byte list \<Rightarrow> bool" where
  "safe_unrolled buffer =
     (10 \<le> length buffer \<or> (buffer \<noteq> [] \<and> last buffer AND 0x80 = 0))"

text \<open>When an unrolled reader fails the buffer stays where it was. The overrun case cannot
  happen behind \<open>safe_unrolled\<close> (\<open>safe_unrolled_no_overrun\<close> below).\<close>

definition ReadVarint64Fallback :: "byte list \<Rightarrow> u64 option \<times> byte list" where
  "ReadVarint64Fallback buffer =
     (if safe_unrolled buffer
      then (case ReadVarint64FromArray buffer of
              Vdone v rest \<Rightarrow> (Some v, rest)
            | Vnull \<Rightarrow> (None, buffer)
            | Voverrun \<Rightarrow> (None, buffer))
      else ReadVarint64Slow buffer)"

definition ReadVarint32Slow :: "byte list \<Rightarrow> u32 option \<times> byte list" where
  "ReadVarint32Slow buffer =
     (case ReadVarint64Fallback buffer of
        (Some result, rest) \<Rightarrow> (Some (ucast result), rest)
      | (None, rest) \<Rightarrow> (None, rest))"

definition ReadVarint32Fallback :: "byte list \<Rightarrow> u32 option \<times> byte list" where
  "ReadVarint32Fallback buffer =
     (if safe_unrolled buffer
      then (case ReadVarint32FromArray buffer of
              Vdone v rest \<Rightarrow> (Some v, rest)
            | Vnull \<Rightarrow> (None, buffer)
            | Voverrun \<Rightarrow> (None, buffer))
      else ReadVarint32Slow buffer)"

definition ReadVarint32 :: "byte list \<Rightarrow> u32 option \<times> byte list" where
  "ReadVarint32 buffer =
     (case buffer of
        b # rest \<Rightarrow> if b < 0x80 then (Some (ucast b), rest) else ReadVarint32Fallback buffer
      | [] \<Rightarrow> ReadVarint32Fallback buffer)"

definition ReadVarint64 :: "byte list \<Rightarrow> u64 option \<times> byte list" where
  "ReadVarint64 buffer =
     (case buffer of
        b # rest \<Rightarrow> if b < 0x80 then (Some (ucast b), rest) else ReadVarint64Fallback buffer
      | [] \<Rightarrow> ReadVarint64Fallback buffer)"

section \<open>Writing\<close>

text \<open>The byte loop of \<open>WriteVarint64\<close> (and, after the conversion of the argument, of
  \<open>WriteVarint32\<close>).\<close>

function WriteVarint_slow :: "u64 \<Rightarrow> byte list"
  where
  "WriteVarint_slow value =
     (if 0x7F < value
      then ((ucast value AND 0x7F) OR 0x80) # WriteVarint_slow (drop_bit 7 value)
      else [ucast value AND 0x7F])"
  by pat_completeness auto
termination
proof (relation "measure unat")
  fix v :: u64
  assume "0x7F < v"
  then have "0 < unat v" by (simp add: word_less_nat_alt)
  then have "unat (drop_bit 7 v) < unat v"
    unfolding unat_drop_bit_eq by (simp add: drop_bit_eq_div)
  then show "(drop_bit 7 v, v) \<in> measure unat" by simp
qed simp

declare WriteVarint_slow.simps [simp del]

definition WriteVarint32FallbackToArrayInline :: "u32 \<Rightarrow> byte list" where
  "WriteVarint32FallbackToArrayInline value =
     (let t0 = ucast (value OR 0x80); t1 = ucast (drop_bit 7 value OR 0x80);
          t2 = ucast (drop_bit 14 value OR 0x80); t3 = ucast (drop_bit 21 value OR 0x80)
      in if value \<ge> push_bit 7 1 then
           if value \<ge> push_bit 14 1 then
             if value \<ge> push_bit 21 1 then
               if value \<ge> push_bit 28 1 then [t0, t1, t2, t3, ucast (drop_bit 28 value)]
               else [t0, t1, t2, t3 AND 0x7F]
             else [t0, t1, t2 AND 0x7F]
           else [t0, t1 AND 0x7F]
         else [t0 AND 0x7F])"

definition WriteVarint32ToArray :: "u32 \<Rightarrow> byte list" where
  "WriteVarint32ToArray value =
     (if value < 0x80 then [ucast value] else WriteVarint32FallbackToArrayInline value)"

definition varint64_size :: "u32 \<Rightarrow> u32 \<Rightarrow> u32 \<Rightarrow> nat" where
  "varint64_size part0 part1 part2 =
     (if part2 = 0 then
        if part1 = 0 then
          if part0 < push_bit 14 1 then if part0 < push_bit 7 1 then 1 else 2
          else if part0 < push_bit 21 1 then 3 else 4
        else
          if part1 < push_bit 14 1 then if part1 < push_bit 7 1 then 5 else 6
          else if part1 < push_bit 21 1 then 7 else 8
      else if part2 < push_bit 7 1 then 9 else 10)"

text \<open>The labels \<open>size10\<close> to \<open>size1\<close> fall through, so the first \<open>size\<close> of the ten
  stores are made; the last one then loses its continuation bit.\<close>

definition WriteVarint64ToArrayInline :: "u64 \<Rightarrow> byte list" where
  "WriteVarint64ToArrayInline value =
     (let part0 = ucast value :: u32; part1 = ucast (drop_bit 28 value) :: u32;
          part2 = ucast (drop_bit 56 value) :: u32;
          size = varint64_size part0 part1 part2;
          stores = [ucast (part0 OR 0x80), ucast (drop_bit 7 part0 OR 0x80),
                    ucast (drop_bit 14 part0 OR 0x80), ucast (drop_bit 21 part0 OR 0x80),
                    ucast (part1 OR 0x80), ucast (drop_bit 7 part1 OR 0x80),
                    ucast (drop_bit 14 part1 OR 0x80), ucast (drop_bit 21 part1 OR 0x80),
                    ucast (part2 OR 0x80), ucast (drop_bit 7 part2 OR 0x80)];
          target = take size stores
      in target[size - 1 := target ! (size - 1) AND 0x7F])"

definition WriteVarint32SignExtendedToArray :: "u32 \<Rightarrow> byte list" where
  "WriteVarint32SignExtendedToArray value =
     (if sint value < 0 then WriteVarint64ToArrayInline (scast value)
      else WriteVarint32ToArray value)"

definition WriteTagToArray :: "u32 \<Rightarrow> byte list" where
  "WriteTagToArray value =
     (if value < push_bit 7 1 then [ucast value]
      else if value < push_bit 14 1 then [ucast (value OR 0x80), ucast (drop_bit 7 value)]
      else WriteVarint32FallbackToArrayInline value)"

section \<open>Sizes\<close>

definition VarintSize32Fallback :: "u32 \<Rightarrow> nat" where
  "VarintSize32Fallback value =
     (if value < push_bit 7 1 then 1 else if value < push_bit 14 1 then 2
      else if value < push_bit 21 1 then 3 else if value < push_bit 28 1 then 4 else 5)"

definition VarintSize32 :: "u32 \<Rightarrow> nat" where
  "VarintSize32 value = (if value < push_bit 7 1 then 1 else VarintSize32Fallback value)"

definition VarintSize32SignExtended :: "u32 \<Rightarrow> nat" where
  "VarintSize32SignExtended value = (if sint value < 0 then 10 else VarintSize32 value)"

definition VarintSize64 :: "u64 \<Rightarrow> nat" where
  "VarintSize64 value =
     (if value < push_bit 35 1 then
        if value < push_bit 7 1 then 1 else if value < push_bit 14 1 then 2
        else if value < push_bit 21 1 then 3 else if value < push_bit 28 1 then 4 else 5
      else
        if value < push_bit 42 1 then 6 else if value < push_bit 49 1 then 7
        else if value < push_bit 56 1 then 8 else if value < push_bit 63 1 then 9 else 10)"


section \<open>Word lemmas\<close>

lemma bit_0x80: "bit (0x80 :: byte) n \<longleftrightarrow> n = 7"
proof -
  have "(0x80 :: byte) = push_bit 7 1" by (simp add: push_bit_eq_mult)
  then show ?thesis by (simp only: bit_push_bit_iff bit_1_iff) auto
qed

lemma bit_0x7F: "bit (0x7F :: byte) n \<longleftrightarrow> n < 7"
proof -
  have "(0x7F :: byte) = mask 7" by (simp add: mask_eq_exp_minus_1)
  then show ?thesis by (simp only: bit_mask_iff) auto
qed

lemmas byte_bits = bit_and_iff bit_or_iff bit_0x80 bit_0x7F bit_0_eq

lemma less_8_cases: "(k::nat) < 8 \<longleftrightarrow> k < 7 \<or> k = 7" by arith

lemma cont_iff: "b AND 0x80 = 0 \<longleftrightarrow> \<not> bit b 7" for b :: byte
proof
  assume "b AND 0x80 = 0"
  then have "bit (b AND 0x80) 7 = bit (0::byte) 7" by simp
  then show "\<not> bit b 7" by (simp add: bit_and_iff)
next
  assume "\<not> bit b 7"
  then show "b AND 0x80 = 0" by (intro bit_word_eqI) (simp only: byte_bits, auto)
qed

lemma less_0x80_iff: "b < 0x80 \<longleftrightarrow> b AND 0x80 = 0" for b :: byte
proof -
  have "b < 0x80 \<longleftrightarrow> unat b div 2 ^ 7 = 0"
    by (simp add: word_less_nat_alt div_eq_0_iff)
  also have "\<dots> \<longleftrightarrow> \<not> odd (unat b div 2 ^ 7)"
  proof -
    have "unat b < 256" using unsigned_less [of b] by simp
    then have "unat b div 2 ^ 7 < 2" by simp
    then show ?thesis by (cases "unat b div 2 ^ 7") auto
  qed
  also have "odd (unat b div 2 ^ 7) \<longleftrightarrow> bit (unat b) 7"
    by (simp add: bit_iff_odd)
  also have "\<dots> \<longleftrightarrow> bit b 7" by (simp add: bit_unsigned_iff)
  finally show ?thesis by (simp add: cont_iff)
qed

lemma payload_id: "b AND 0x80 = 0 \<Longrightarrow> b AND 0x7F = b" for b :: byte
  by (rule bit_word_eqI) (simp only: byte_bits cont_iff, auto simp: less_8_cases)

lemma payload_cont: "b AND 0x80 \<noteq> 0 \<Longrightarrow> b = (b AND 0x7F) OR 0x80" for b :: byte
  by (rule bit_word_eqI) (simp only: byte_bits cont_iff, auto simp: less_8_cases)

lemma take_bit_self_bits: "take_bit k r = r \<Longrightarrow> bit r n \<Longrightarrow> n < k" for r :: "'a::len word"
  by (metis bit_take_bit_iff)

lemma add_push_bit: "take_bit k r = r \<Longrightarrow> r + push_bit k x = r OR push_bit k x"
  for r x :: "'a::len word"
  by (rule disjunctive_add) (auto simp: bit_push_bit_iff dest: take_bit_self_bits)

lemma ucast_cont: "b AND 0x80 \<noteq> 0 \<Longrightarrow> (ucast b :: 'a::len word) = ucast (b AND 0x7F) + 0x80"
  if "8 \<le> LENGTH('a)" for b :: byte
proof -
  assume b: "b AND 0x80 \<noteq> 0"
  have "(ucast b :: 'a word) = ucast (b AND 0x7F) OR ucast (0x80 :: byte)"
    by (subst payload_cont [OF b]) (rule bit_word_eqI, simp only: bit_ucast_iff byte_bits, auto)
  also have "\<dots> = ucast (b AND 0x7F) + ucast (0x80 :: byte)"
    by (rule disjunctive_add [symmetric]) (simp only: bit_ucast_iff byte_bits, auto)
  also have "(ucast (0x80 :: byte) :: 'a word) = 0x80"
    by simp
  finally show ?thesis .
qed

lemma unrolled_step:
  fixes r :: "'a::len word" and b :: byte
  assumes "8 \<le> LENGTH('a)" and "take_bit k r = r" and "b AND 0x80 \<noteq> 0"
  shows "r + push_bit k (ucast b) - push_bit k 0x80 = r OR push_bit k (ucast (b AND 0x7F))"
proof -
  have "r + push_bit k (ucast b) - push_bit k 0x80 = r + push_bit k (ucast (b AND 0x7F))"
    by (simp add: ucast_cont [OF assms(1,3)] push_bit_add)
  then show ?thesis by (simp add: add_push_bit [OF assms(2)])
qed

lemma unrolled_last:
  fixes r :: "'a::len word" and b :: byte
  assumes "take_bit k r = r" and "b AND 0x80 = 0"
  shows "r + push_bit k (ucast b) = r OR push_bit k (ucast (b AND 0x7F))"
  by (simp add: add_push_bit [OF assms(1)] payload_id [OF assms(2)])

lemma take_bit_or_push:
  "take_bit k r = r \<Longrightarrow> take_bit (k + 7) (r OR push_bit k (ucast (b AND 0x7F :: byte))) =
     r OR push_bit k (ucast (b AND 0x7F))" for r :: "'a::len word"
  apply (rule bit_word_eqI)
  apply (simp only: bit_take_bit_iff bit_or_iff bit_push_bit_iff bit_ucast_iff byte_bits)
  apply (auto dest: take_bit_self_bits)
  done

section \<open>The unrolled readers against the byte loop\<close>

lemma ucast_or_push:
  fixes p :: u32 and x :: byte
  assumes "k + 7 \<le> 32"
  shows "(ucast (p OR push_bit k (ucast (x AND 0x7F))) :: u64)
    = ucast p OR push_bit k (ucast (x AND 0x7F))"
  by (rule bit_word_eqI)
     (use assms in \<open>simp only: bit_ucast_iff bit_or_iff bit_push_bit_iff byte_bits, auto\<close>)

lemma push_or_assoc:
  "(base OR push_bit s q) OR push_bit (s + k) x = base OR push_bit s (q OR push_bit k x)"
  for base q x :: "'a::len word"
  by (simp add: push_bit_or ac_simps or.assoc)

lemma rv64_part_Pdone:
  assumes "rv64_part n k part bs = Pdone p rest" and "take_bit k part = part"
    and "k + 7 * n \<le> 28" and "7 * c = s + k"
  shows "ReadVarint64Slow_loop (n + m) c (base OR push_bit s (ucast part)) bs
    = (Some (base OR push_bit s (ucast p)), rest)"
  using assms
proof (induction n k part bs arbitrary: c rule: rv64_part.induct)
  case (3 n k part b bs)
  show ?case
  proof (cases "b AND 0x80 = 0")
    case True
    then show ?thesis
      using 3 by (auto simp: Let_def unrolled_last ucast_or_push push_or_assoc)
  next
    case False
    let ?q = "part OR push_bit k (ucast (b AND 0x7F))"
    have q: "part + push_bit k (ucast b) - push_bit k 0x80 = ?q"
      using unrolled_step [OF _ "3.prems"(2) False] by simp
    have tq: "take_bit (k + 7) ?q = ?q" by (rule take_bit_or_push [OF "3.prems"(2)])
    have "ReadVarint64Slow_loop (n + m) (Suc c) (base OR push_bit s (ucast ?q)) bs
        = (Some (base OR push_bit s (ucast p)), rest)"
      by (rule "3.IH" [OF refl False, unfolded q])
         (use "3.prems" False q in \<open>simp_all add: Let_def tq del: take_bit_or\<close>)
    then show ?thesis
      using 3 False by (auto simp: Let_def ucast_or_push push_or_assoc)
  qed
qed simp_all

lemma rv64_part_Pmore:
  assumes "rv64_part n k part bs = Pmore p rest" and "take_bit k part = part"
    and "k + 7 * n \<le> 28" and "7 * c = s + k"
  shows "ReadVarint64Slow_loop (n + m) c (base OR push_bit s (ucast part)) bs
    = ReadVarint64Slow_loop m (c + n) (base OR push_bit s (ucast p)) rest"
  using assms
proof (induction n k part bs arbitrary: c rule: rv64_part.induct)
  case (3 n k part b bs)
  show ?case
  proof (cases "b AND 0x80 = 0")
    case True
    then show ?thesis using 3 by (auto simp: Let_def)
  next
    case False
    let ?q = "part OR push_bit k (ucast (b AND 0x7F))"
    have q: "part + push_bit k (ucast b) - push_bit k 0x80 = ?q"
      using unrolled_step [OF _ "3.prems"(2) False] by simp
    have tq: "take_bit (k + 7) ?q = ?q" by (rule take_bit_or_push [OF "3.prems"(2)])
    have "ReadVarint64Slow_loop (n + m) (Suc c) (base OR push_bit s (ucast ?q)) bs
        = ReadVarint64Slow_loop m (Suc c + n) (base OR push_bit s (ucast p)) rest"
      by (rule "3.IH" [OF refl False, unfolded q])
         (use "3.prems" False q in \<open>simp_all add: Let_def tq del: take_bit_or\<close>)
    then show ?thesis
      using 3 False by (auto simp: Let_def ucast_or_push push_or_assoc)
  qed
qed simp_all

lemma rv64_part_overrun:
  "rv64_part n k part bs = Poverrun \<Longrightarrow> length bs < n \<and> (\<forall>b \<in> set bs. b AND 0x80 \<noteq> 0)"
  by (induction n k part bs rule: rv64_part.induct) (auto simp: Let_def split: if_splits)

lemma rv64_part_more_split:
  "rv64_part n k part bs = Pmore p rest \<Longrightarrow>
     \<exists>pre. bs = pre @ rest \<and> length pre = n \<and> (\<forall>b \<in> set pre. b AND 0x80 \<noteq> 0)"
proof (induction n k part bs arbitrary: p rest rule: rv64_part.induct)
  case (3 n k part b bs)
  then obtain pre where "bs = pre @ rest" "length pre = n" "\<forall>b \<in> set pre. b AND 0x80 \<noteq> 0"
    by (auto simp: Let_def split: if_splits)
  with 3 show ?case by (intro exI [of _ "b # pre"]) (auto simp: Let_def split: if_splits)
qed auto

lemma safe_unrolled_not_all_cont:
  "safe_unrolled bs \<Longrightarrow> length bs < 10 \<Longrightarrow> \<exists>b \<in> set bs. b AND 0x80 = 0"
  by (auto simp: safe_unrolled_def)

lemma safe_unrolled_no_overrun64:
  assumes "safe_unrolled bs"
  shows "ReadVarint64FromArray bs \<noteq> Voverrun"
proof
  assume "ReadVarint64FromArray bs = Voverrun"
  then have "length bs < 10 \<and> (\<forall>b \<in> set bs. b AND 0x80 \<noteq> 0)"
    by (auto simp: ReadVarint64FromArray_def split: vpart.splits
        dest!: rv64_part_overrun rv64_part_more_split)
  with assms safe_unrolled_not_all_cont show False by blast
qed

lemma rv64_part_more_len0: "rv64_part n k part bs = Pmore p rest \<Longrightarrow> take_bit k part = part \<Longrightarrow>
   k + 7 * n \<le> 32 \<Longrightarrow> take_bit (k + 7 * n) p = p"
proof (induction n k part bs arbitrary: p rest rule: rv64_part.induct)
  case (3 n k part b bs)
  then have nz: "b AND 0x80 \<noteq> 0" by (auto simp: Let_def split: if_splits)
  have tq: "take_bit (k + 7) (part OR push_bit k (ucast (b AND 0x7F)))
     = part OR push_bit k (ucast (b AND 0x7F))"
    by (rule take_bit_or_push [OF "3.prems"(2)])
  have q: "part + push_bit k (ucast b) - push_bit k 0x80 = part OR push_bit k (ucast (b AND 0x7F))"
    using unrolled_step [OF _ "3.prems"(2) nz] by simp
  have "take_bit (k + 7 + 7 * n) p = p"
    by (rule "3.IH" [OF refl nz, unfolded q])
       (use "3.prems" nz q in \<open>simp_all add: Let_def tq del: take_bit_or\<close>)
  then show ?case by (simp add: add.assoc)
qed auto

theorem ReadVarint64FromArray_slow:
  "ReadVarint64FromArray bs = Vdone v rest \<Longrightarrow> ReadVarint64Slow bs = (Some v, rest)"
  "ReadVarint64FromArray bs = Vnull \<Longrightarrow> fst (ReadVarint64Slow bs) = None"
proof -
  note more = rv64_part_Pmore [of _ 0 0, simplified]
  note dn = rv64_part_Pdone [of _ 0 0, simplified]
  show "ReadVarint64Slow bs = (Some v, rest)" if f: "ReadVarint64FromArray bs = Vdone v rest"
  proof (cases "rv64_part 4 0 0 bs")
    case (Pdone p0 r0)
    with f dn [OF Pdone, of 0 0 6 0] show ?thesis
      by (simp add: ReadVarint64FromArray_def ReadVarint64Slow_def join_parts_def)
  next
    case m0: (Pmore p0 r0)
    have s0: "ReadVarint64Slow bs = ReadVarint64Slow_loop 6 4 (ucast p0) r0"
      using more [OF m0, of 0 0 6 0] by (simp add: ReadVarint64Slow_def)
    show ?thesis
    proof (cases "rv64_part 4 0 0 r0")
      case (Pdone p1 r1)
      with f m0 s0 dn [OF Pdone, of 4 28 2 "ucast p0"] show ?thesis
        by (simp add: ReadVarint64FromArray_def join_parts_def)
    next
      case m1: (Pmore p1 r1)
      have s1: "ReadVarint64Slow bs = ReadVarint64Slow_loop 2 8 (ucast p0 OR push_bit 28 (ucast p1)) r1"
        using s0 more [OF m1, of 4 28 2 "ucast p0"] by simp
      show ?thesis
        using f m0 m1 s1 dn [of 2 r1 _ _ 8 56 0 "ucast p0 OR push_bit 28 (ucast p1)"]
        by (cases "rv64_part 2 0 0 r1")
           (auto simp: ReadVarint64FromArray_def join_parts_def or.assoc)
    qed (use f m0 in \<open>simp add: ReadVarint64FromArray_def\<close>)
  qed (use f in \<open>simp add: ReadVarint64FromArray_def\<close>)
  show "fst (ReadVarint64Slow bs) = None" if f: "ReadVarint64FromArray bs = Vnull"
  proof -
    from f obtain p0 r0 p1 r1 p2 r2 where m: "rv64_part 4 0 0 bs = Pmore p0 r0"
      "rv64_part 4 0 0 r0 = Pmore p1 r1" "rv64_part 2 0 0 r1 = Pmore p2 r2"
      by (auto simp: ReadVarint64FromArray_def split: vpart.splits)
    then show ?thesis
      using more [OF m(1), of 0 0 6 0] more [OF m(2), of 4 28 2 "ucast p0"]
        more [OF m(3), of 8 56 0 "ucast p0 OR push_bit 28 (ucast p1)"]
      by (simp add: ReadVarint64Slow_def)
  qed
qed

lemma rv32_discard_slow:
  assumes "5 \<le> c"
  shows "(rv32_discard i r bs = Vdone v rest \<longrightarrow>
      (\<exists>w. ReadVarint64Slow_loop i c R bs = (Some w, rest) \<and> ucast w = (ucast R :: u32) \<and> v = r)) \<and>
    (rv32_discard i r bs = Vnull \<longrightarrow> fst (ReadVarint64Slow_loop i c R bs) = None)"
  using assms
proof (induction i r bs arbitrary: c R rule: rv32_discard.induct)
  case (3 i r b bs)
  let ?R = "R OR push_bit (7 * c) (ucast (b AND 0x7F))"
  have low: "(ucast ?R :: u32) = ucast R"
    by (rule bit_word_eqI)
       (use "3.prems" in \<open>simp only: bit_ucast_iff bit_or_iff bit_push_bit_iff, auto\<close>)
  show ?case
  proof (cases "b AND 0x80 = 0")
    case False
    with "3.IH" [OF False, of "Suc c" ?R] "3.prems" low show ?thesis by (auto simp: Let_def)
  qed (use low in \<open>auto simp: Let_def\<close>)
qed auto

lemma ucast_byte32: "(ucast (ucast (b :: byte) :: u64) :: u32) = ucast b"
  by (rule bit_word_eqI) (auto simp: bit_ucast_iff)

lemma ucast_or_push32:
  "(ucast (R OR push_bit k (ucast (x AND 0x7F :: byte)) :: u64) :: u32)
     = ucast R OR push_bit k (ucast (x AND 0x7F))"
  by (rule bit_word_eqI) (simp only: bit_ucast_iff bit_or_iff bit_push_bit_iff byte_bits, auto)

lemma take_bit_ucast32: "take_bit k (R :: u64) = R \<Longrightarrow> take_bit k (ucast R :: u32) = ucast R"
  by (rule bit_word_eqI) (auto simp: bit_take_bit_iff bit_ucast_iff dest: take_bit_self_bits)

lemma rv32_unrolled_slow:
  assumes "m = n + 5" and "n + c = 5" and "k = 7 * c" and "take_bit k R = R"
  shows "rv32_unrolled n k (ucast R) bs = Vdone v rest \<Longrightarrow>
      \<exists>w. ReadVarint64Slow_loop m c R bs = (Some w, rest) \<and> ucast w = v"
    and "rv32_unrolled n k (ucast R) bs = Vnull \<Longrightarrow>
      fst (ReadVarint64Slow_loop m c R bs) = None"
proof -
  have "(rv32_unrolled n k (ucast R) bs = Vdone v rest \<longrightarrow>
      (\<exists>w. ReadVarint64Slow_loop m c R bs = (Some w, rest) \<and> ucast w = v)) \<and>
    (rv32_unrolled n k (ucast R) bs = Vnull \<longrightarrow>
      fst (ReadVarint64Slow_loop m c R bs) = None)"
    using assms
  proof (induction n k "ucast R :: u32" bs arbitrary: m c R rule: rv32_unrolled.induct)
    case (1 k bs)
    then have "5 \<le> c" by simp
    from rv32_discard_slow [OF this, of 5 "ucast R" bs v rest R] "1.prems"(1) show ?case by auto
  next
    case (3 n k b bs)
    let ?R = "R OR push_bit k (ucast (b AND 0x7F))"
    have t: "take_bit k (ucast R :: u32) = ucast R" using "3.prems" by (simp add: take_bit_ucast32)
    obtain m' where m: "m = Suc m'" "m' = n + 5" using "3.prems"(1) by (cases m) auto
    show ?case
    proof (cases "b AND 0x80 = 0")
      case True
      show ?thesis
        using True unrolled_last [OF t True] "3.prems"(2-) m(1)
        by (auto simp: Let_def ucast_or_push32)
    next
      case False
      have q: "ucast R + push_bit k (ucast b) - push_bit k 0x80 = (ucast ?R :: u32)"
        using unrolled_step [OF _ t False] by (simp add: ucast_or_push32)
      have tk: "take_bit (k + 7) ?R = ?R" by (rule take_bit_or_push [OF "3.prems"(4)])
      have l: "ReadVarint64Slow_loop m c R (b # bs) = ReadVarint64Slow_loop m' (Suc c) ?R bs"
        using False m(1) "3.prems"(3) by (simp add: Let_def)
      have u: "rv32_unrolled (Suc n) k (ucast R) (b # bs) = rv32_unrolled n (k + 7) (ucast ?R) bs"
        using False q by (simp add: Let_def)
      from "3.hyps" [OF refl False q, of m' "Suc c"] "3.prems"(2,3) m(2) tk show ?thesis
        unfolding l u by (simp del: take_bit_or)
    qed
  qed simp
  then show "rv32_unrolled n k (ucast R) bs = Vdone v rest \<Longrightarrow>
      \<exists>w. ReadVarint64Slow_loop m c R bs = (Some w, rest) \<and> ucast w = v"
    and "rv32_unrolled n k (ucast R) bs = Vnull \<Longrightarrow>
      fst (ReadVarint64Slow_loop m c R bs) = None" by auto
qed

lemma ReadVarint32FromArray_slow:
  "ReadVarint32FromArray bs = Vdone v rest \<Longrightarrow> \<exists>w. ReadVarint64Slow bs = (Some w, rest) \<and> ucast w = v"
  "ReadVarint32FromArray bs = Vnull \<Longrightarrow> fst (ReadVarint64Slow bs) = None"
  using rv32_unrolled_slow [of 10 5 0 0 0 bs]
  by (auto simp: ReadVarint32FromArray_def ReadVarint64Slow_def)

lemma rv32_discard_overrun:
  "rv32_discard i r bs = Voverrun \<Longrightarrow> length bs < i \<and> (\<forall>b \<in> set bs. b AND 0x80 \<noteq> 0)"
  by (induction i r bs rule: rv32_discard.induct) (auto split: if_splits)

lemma rv32_unrolled_overrun:
  "rv32_unrolled n k r bs = Voverrun \<Longrightarrow> length bs < n + 5 \<and> (\<forall>b \<in> set bs. b AND 0x80 \<noteq> 0)"
  by (induction n k r bs rule: rv32_unrolled.induct)
     (auto simp: Let_def split: if_splits dest!: rv32_discard_overrun)

lemma safe_unrolled_no_overrun32:
  assumes "safe_unrolled bs"
  shows "ReadVarint32FromArray bs \<noteq> Voverrun"
proof
  assume "ReadVarint32FromArray bs = Voverrun"
  then have "length bs < 10 \<and> (\<forall>b \<in> set bs. b AND 0x80 \<noteq> 0)"
    by (auto simp: ReadVarint32FromArray_def dest: rv32_unrolled_overrun)
  with assms safe_unrolled_not_all_cont show False by blast
qed

text \<open>The reference: the byte loop from the start, whatever the size of the buffer.\<close>

lemma ReadVarint64Slow_one: "b < 0x80 \<Longrightarrow> ReadVarint64Slow (b # bs) = (Some (ucast b), bs)"
  by (simp add: ReadVarint64Slow_def less_0x80_iff payload_id numeral_eq_Suc)

theorem ReadVarint64_slow:
  "fst (ReadVarint64 bs) = fst (ReadVarint64Slow bs)"
  "ReadVarint64 bs = (Some v, rest) \<longleftrightarrow> ReadVarint64Slow bs = (Some v, rest)"
proof -
  have fb: "fst (ReadVarint64Fallback bs) = fst (ReadVarint64Slow bs) \<and>
     (ReadVarint64Fallback bs = (Some v, rest) \<longleftrightarrow> ReadVarint64Slow bs = (Some v, rest))" for v rest
    using ReadVarint64FromArray_slow [of bs] safe_unrolled_no_overrun64 [of bs]
    by (auto simp: ReadVarint64Fallback_def split: vread.splits)
  then show "fst (ReadVarint64 bs) = fst (ReadVarint64Slow bs)"
    and "ReadVarint64 bs = (Some v, rest) \<longleftrightarrow> ReadVarint64Slow bs = (Some v, rest)"
    by (auto simp: ReadVarint64_def ReadVarint64Slow_one split: list.splits)
qed

theorem ReadVarint32_slow:
  "ReadVarint32 bs = (Some v, rest) \<longleftrightarrow> (\<exists>w. ReadVarint64Slow bs = (Some w, rest) \<and> v = ucast w)"
proof -
  have slow: "ReadVarint32Slow bs = (Some v, rest) \<longleftrightarrow>
      (\<exists>w. ReadVarint64Slow bs = (Some w, rest) \<and> v = ucast w)" for bs v rest
    using ReadVarint64FromArray_slow [of bs] safe_unrolled_no_overrun64 [of bs]
    by (auto simp: ReadVarint32Slow_def ReadVarint64Fallback_def split: vread.splits option.splits prod.splits)
  have fb: "ReadVarint32Fallback bs = (Some v, rest) \<longleftrightarrow>
      (\<exists>w. ReadVarint64Slow bs = (Some w, rest) \<and> v = ucast w)" for bs v rest
    using ReadVarint32FromArray_slow [of bs] safe_unrolled_no_overrun32 [of bs] slow [of bs]
    by (auto simp: ReadVarint32Fallback_def split: vread.splits) 
  show ?thesis
    by (auto simp: ReadVarint32_def fb ReadVarint64Slow_one ucast_byte32 split: list.splits)
qed

section \<open>The writers against the byte loop\<close>

lemma byte_or_and: "(x AND 0x7F) OR 0x80 = x OR (0x80 :: byte)"
  by (rule bit_word_eqI) (simp only: byte_bits, auto simp: less_8_cases)

lemma byte_or_and_7F: "(x OR 0x80) AND 0x7F = x AND (0x7F :: byte)"
  by (rule bit_word_eqI) (simp only: byte_bits, auto simp: less_8_cases)

lemma byte_and_and_7F: "(x AND 0x7F) AND 0x7F = x AND (0x7F :: byte)"
  by (simp add: and.assoc)

lemma byte_or_cont: "(x OR 0x80) AND 0x80 \<noteq> (0 :: byte)"
  by (simp only: cont_iff byte_bits) simp

lemma byte_and_last: "(x AND 0x7F) AND 0x80 = (0 :: byte)"
  by (simp only: cont_iff byte_bits) simp

lemma unat_less_2p: "unat v < 2 ^ LENGTH('a)" for v :: "'a::len word"
  by (rule unsigned_less)

lemma unat_drop_bit: "unat (drop_bit k v) = unat v div 2 ^ k" for v :: "'a::len word"
  unfolding unat_drop_bit_eq by (simp add: drop_bit_eq_div)

lemma unat_p2: "k < LENGTH('a) \<Longrightarrow> unat (2 ^ k :: 'a::len word) = 2 ^ k"
proof -
  assume "k < LENGTH('a)"
  then have "(2::nat) ^ k < 2 ^ LENGTH('a)" by (rule power_strict_increasing) simp
  then have "unat (of_nat (2 ^ k) :: 'a word) = 2 ^ k" by (simp only: unsigned_of_nat take_bit_nat_eq_self of_nat_id)
  then show ?thesis by (simp only: of_nat_power of_nat_numeral)
qed

lemma gt_7F_iff: "0x7F < v \<longleftrightarrow> 2 ^ 7 \<le> unat v" for v :: u64
  by (simp add: word_less_nat_alt Suc_le_eq [symmetric])

text \<open>The bytes of a varint, by their number: all but the last carry the continuation
  bit.\<close>

lemma WriteVarint_slow_bytes:
  assumes "unat v < 2 ^ (7 * Suc n)" and "n = 0 \<or> 2 ^ (7 * n) \<le> unat v"
  shows "WriteVarint_slow v =
    map (\<lambda>i. ucast (drop_bit (7 * i) v) OR 0x80) [0..<n] @ [ucast (drop_bit (7 * n) v) AND 0x7F]"
  using assms
proof (induction n arbitrary: v)
  case 0
  then show ?case by (simp add: WriteVarint_slow.simps [of v] gt_7F_iff)
next
  case (Suc n)
  let ?w = "drop_bit 7 v"
  have "(2::nat) ^ 7 \<le> 2 ^ (7 * Suc n)" by (rule power_increasing) auto
  with Suc.prems(2) have big: "0x7F < v" by (simp add: gt_7F_iff)
  have up: "unat ?w < 2 ^ (7 * Suc n)"
    using Suc.prems(1) by (simp add: unat_drop_bit less_mult_imp_div_less power_add)
  have lo: "n = 0 \<or> 2 ^ (7 * n) \<le> unat ?w"
    using Suc.prems(2) by (simp add: unat_drop_bit less_eq_div_iff_mult_less_eq power_add)
  have "map (\<lambda>i. ucast (drop_bit (7 * i) ?w) OR 0x80) [0..<n]
      = map (\<lambda>i. ucast (drop_bit (7 * i) v) OR (0x80 :: byte)) [Suc 0..<Suc n]"
    by (simp only: map_Suc_upt [symmetric] list.map_comp o_def drop_bit_drop_bit mult_Suc_right add.commute)
  then show ?case
    using Suc.IH [OF up lo] big
    by (subst WriteVarint_slow.simps)
       (simp add: byte_or_and upt_conv_Cons [of 0 "Suc n"] add.commute del: upt_Suc)
qed

lemma length_WriteVarint_slow:
  "unat v < 2 ^ (7 * Suc n) \<Longrightarrow> n = 0 \<or> 2 ^ (7 * n) \<le> unat v \<Longrightarrow>
     length (WriteVarint_slow v) = Suc n"
  by (simp only: WriteVarint_slow_bytes) simp

lemma varint_cases:
  fixes v :: u64
  obtains n where "n < 10" "unat v < 2 ^ (7 * Suc n)" "n = 0 \<or> 2 ^ (7 * n) \<le> unat v"
proof -
  let ?P = "\<lambda>n. unat v < 2 ^ (7 * Suc n)"
  have P9: "?P 9" using unat_less_2p [of v] by simp
  define n where "n = (LEAST n. ?P n)"
  have "?P n" unfolding n_def by (rule LeastI [of ?P, OF P9])
  moreover have "n \<le> 9" unfolding n_def by (rule Least_le [of ?P, OF P9])
  moreover have "n = 0 \<or> 2 ^ (7 * n) \<le> unat v"
  proof (cases n)
    case (Suc m)
    then have "\<not> ?P m" unfolding n_def by (metis lessI not_less_Least)
    with Suc show ?thesis by simp
  qed simp
  ultimately show thesis by (intro that [of n]) auto
qed

lemma length_WriteVarint_slow_le: "length (WriteVarint_slow v) \<le> 10"
proof (rule varint_cases [of v])
  fix n assume n: "n < 10" "unat v < 2 ^ (7 * Suc n)" "n = 0 \<or> 2 ^ (7 * n) \<le> unat v"
  with length_WriteVarint_slow [OF n(2,3)] show ?thesis by simp
qed

lemma length_WriteVarint_slow_pos: "0 < length (WriteVarint_slow v)"
  by (subst WriteVarint_slow.simps) simp

subsection \<open>Sizes\<close>

lemma VarintSize64_length: "VarintSize64 v = length (WriteVarint_slow v)"
proof (rule varint_cases [of v])
  fix n assume n: "n < 10" "unat v < 2 ^ (7 * Suc n)" "n = 0 \<or> 2 ^ (7 * n) \<le> unat v"
  then have "n \<in> {0,1,2,3,4,5,6,7,8,9}" by auto
  with n have "VarintSize64 v = Suc n"
    by (auto simp: VarintSize64_def word_less_nat_alt)
  then show ?thesis by (simp only: length_WriteVarint_slow [OF n(2,3)])
qed

lemma VarintSize32_length: "VarintSize32 v = length (WriteVarint_slow (ucast v))"
proof (rule varint_cases [of "ucast v"])
  fix n assume n: "n < 10" "unat (ucast v :: u64) < 2 ^ (7 * Suc n)"
    "n = 0 \<or> 2 ^ (7 * n) \<le> unat (ucast v :: u64)"
  have u: "unat (ucast v :: u64) = unat v"
    using unat_less_2p [of v] by (simp add: unsigned_ucast_eq take_bit_nat_eq_self_iff)
  then have v: "unat (ucast v :: u64) < 2 ^ 32" using unat_less_2p [of v] by simp
  from n(1) have "n \<in> {0,1,2,3,4,5,6,7,8,9}" by auto
  with n v have "VarintSize32 v = Suc n"
    unfolding u by (auto simp: VarintSize32_def VarintSize32Fallback_def word_less_nat_alt)
  then show ?thesis by (simp only: length_WriteVarint_slow [OF n(2,3)])
qed

lemma varint64_size_eq:
  "varint64_size (ucast v) (ucast (drop_bit 28 v)) (ucast (drop_bit 56 v)) = VarintSize64 v"
  for v :: u64
proof -
  have p0: "unat (ucast v :: u32) = unat v mod 2 ^ 32"
    by (simp add: unsigned_ucast_eq take_bit_eq_mod)
  have p1: "unat (ucast (drop_bit 28 v) :: u32) = unat v div 2 ^ 28 mod 2 ^ 32"
    by (simp add: unsigned_ucast_eq take_bit_eq_mod unat_drop_bit)
  have p2: "unat (ucast (drop_bit 56 v) :: u32) = unat v div 2 ^ 56 mod 2 ^ 32"
    by (simp add: unsigned_ucast_eq take_bit_eq_mod unat_drop_bit)
  have v: "unat v < 2 ^ 64" using unat_less_2p [of v] by simp
  then have "unat v div 2 ^ 56 < 2 ^ 8" by simp
  then have p2': "unat (ucast (drop_bit 56 v) :: u32) = unat v div 2 ^ 56"
    unfolding p2 by simp
  have p1': "unat (ucast (drop_bit 28 v) :: u32) = unat v div 2 ^ 28" if "unat v < 2 ^ 56"
    unfolding p1 using that by (simp add: less_mult_imp_div_less)
  have p0': "unat (ucast v :: u32) = unat v" if "unat v < 2 ^ 28"
    unfolding p0 using that by simp
  have z: "unat v div 2 ^ k = 0 \<longleftrightarrow> unat v < 2 ^ k" for k by (simp add: div_eq_0_iff)
  have d: "unat v div 2 ^ j < 2 ^ k \<longleftrightarrow> unat v < 2 ^ (j + k)" for j k
    by (simp add: div_less_iff_less_mult power_add mult.commute)
  have l32: "w < push_bit k 1 \<longleftrightarrow> unat w < 2 ^ k" if "k < 32" for w :: u32 and k
    using that by (simp add: word_less_nat_alt push_bit_eq_mult unat_p2)
  have l64: "w < push_bit k 1 \<longleftrightarrow> unat w < 2 ^ k" if "k < 64" for w :: u64 and k
    using that by (simp add: word_less_nat_alt push_bit_eq_mult unat_p2)
  note unf = varint64_size_def VarintSize64_def unat_eq_0 [symmetric] l32 l64 rel_simps if_True if_False
  consider "unat v < 2 ^ 28" | "2 ^ 28 \<le> unat v" "unat v < 2 ^ 56" | "2 ^ 56 \<le> unat v"
    by linarith
  then show ?thesis
  proof cases
    case 1
    then have "unat v < 2 ^ 56" by simp
    with 1 show ?thesis by (simp only: unf p2' p1' p0' z) simp
  next
    case 2
    then show ?thesis by (simp only: unf p2' p1' z d) simp
  next
    case 3
    then show ?thesis by (simp only: unf p2' z d) simp
  qed
qed

subsection \<open>The fast writers\<close>

lemma WriteVarint64ToArrayInline_slow: "WriteVarint64ToArrayInline v = WriteVarint_slow v"
proof (rule varint_cases [of v])
  fix n assume n: "n < 10" "unat v < 2 ^ (7 * Suc n)" "n = 0 \<or> 2 ^ (7 * n) \<le> unat v"
  let ?p0 = "ucast v :: u32" and ?p1 = "ucast (drop_bit 28 v) :: u32"
    and ?p2 = "ucast (drop_bit 56 v) :: u32"
  let ?stores = "[ucast (?p0 OR 0x80), ucast (drop_bit 7 ?p0 OR 0x80),
                    ucast (drop_bit 14 ?p0 OR 0x80), ucast (drop_bit 21 ?p0 OR 0x80),
                    ucast (?p1 OR 0x80), ucast (drop_bit 7 ?p1 OR 0x80),
                    ucast (drop_bit 14 ?p1 OR 0x80), ucast (drop_bit 21 ?p1 OR 0x80),
                    ucast (?p2 OR 0x80), ucast (drop_bit 7 ?p2 OR 0x80)] :: byte list"
  have u80: "(0x80 :: u32) = push_bit 7 1" by (simp add: push_bit_eq_mult)
  have byte: "ucast (drop_bit k (ucast (drop_bit s v) :: u32) OR 0x80) = (ucast (drop_bit (s + k) v) OR 0x80 :: byte)"
    if "k \<le> 24" for k s
    unfolding u80
    by (rule bit_word_eqI)
       (use that in \<open>simp only: bit_ucast_iff bit_or_iff bit_drop_bit_eq bit_push_bit_iff
          bit_1_iff byte_bits o_def, auto simp: ac_simps\<close>)
  have stores: "?stores = map (\<lambda>i. ucast (drop_bit (7 * i) v) OR 0x80) [0..<10]"
    using byte [of 0 0] byte [of 7 0] byte [of 14 0] byte [of 21 0]
      byte [of 0 28] byte [of 7 28] byte [of 14 28] byte [of 21 28] byte [of 0 56] byte [of 7 56]
    by (simp add: upt_rec)
  have "take (Suc n) ?stores = map (\<lambda>i. ucast (drop_bit (7 * i) v) OR 0x80) [0..<Suc n]"
    unfolding stores take_map using n(1) by (simp add: take_upt del: upt_Suc)
  moreover have "varint64_size ?p0 ?p1 ?p2 = Suc n"
    by (simp only: varint64_size_eq VarintSize64_length length_WriteVarint_slow [OF n(2,3)])
  ultimately show ?thesis
    by (simp add: WriteVarint64ToArrayInline_def WriteVarint_slow_bytes [OF n(2,3)] Let_def
        byte_or_and_7F nth_append list_update_append)
qed

lemma WriteVarint32FallbackToArrayInline_slow:
  "WriteVarint32FallbackToArrayInline v = WriteVarint_slow (ucast v)"
proof (rule varint_cases [of "ucast v"])
  have u: "unat (ucast v :: u64) = unat v"
    using unat_less_2p [of v] by (simp add: unsigned_ucast_eq take_bit_nat_eq_self_iff)
  have lim: "unat v < 2 ^ 32" using unat_less_2p [of v] by simp
  fix n assume n: "n < 10" "unat (ucast v :: u64) < 2 ^ (7 * Suc n)"
    "n = 0 \<or> 2 ^ (7 * n) \<le> unat (ucast v :: u64)"
  have "n < 5"
  proof (rule ccontr)
    assume "\<not> n < 5"
    then have "(2::nat) ^ 35 \<le> 2 ^ (7 * n)" by (intro power_increasing) auto
    with n(3) lim \<open>\<not> n < 5\<close> show False unfolding u by auto
  qed
  then have cases: "n \<in> {0,1,2,3,4}" by auto
  have u80: "(0x80 :: u32) = push_bit 7 1" by (simp add: push_bit_eq_mult)
  have byte: "ucast (drop_bit k v OR 0x80) = (ucast (drop_bit k (ucast v :: u64)) OR 0x80 :: byte)"
    if "k \<le> 24" for k
    unfolding u80
    by (rule bit_word_eqI)
       (use that in \<open>simp only: bit_ucast_iff bit_or_iff bit_drop_bit_eq bit_push_bit_iff
          bit_1_iff byte_bits o_def, auto simp: ac_simps\<close>)
  have top: "ucast (drop_bit 28 v) = (ucast (drop_bit 28 (ucast v :: u64)) AND 0x7F :: byte)"
    by (rule bit_word_eqI)
       (simp only: bit_ucast_iff bit_and_iff bit_drop_bit_eq byte_bits o_def, auto dest: bit_imp_le_length)
  have WV: "WriteVarint_slow (ucast v) =
    map (\<lambda>i. ucast (drop_bit (7 * i) (ucast v :: u64)) OR 0x80) [0..<n] @
      [ucast (drop_bit (7 * n) (ucast v :: u64)) AND 0x7F]"
    by (rule WriteVarint_slow_bytes [OF n(2,3)])
  have sel: "WriteVarint32FallbackToArrayInline v =
     map (\<lambda>i. ucast (drop_bit (7 * i) v OR 0x80)) [0..<n] @
       [if n = 4 then ucast (drop_bit 28 v) else ucast (drop_bit (7 * n) v OR 0x80) AND 0x7F]"
    using cases n(2,3) unfolding u WriteVarint32FallbackToArrayInline_def Let_def
    by (elim insertE emptyE) (simp_all add: word_le_nat_alt upt_rec)
  have tail: "(if n = 4 then ucast (drop_bit 28 v) else ucast (drop_bit (7 * n) v OR 0x80) AND 0x7F)
     = (ucast (drop_bit (7 * n) (ucast v :: u64)) AND 0x7F :: byte)"
    using byte [of "7 * n"] \<open>n < 5\<close> top by (auto simp: byte_or_and_7F)
  show ?thesis
    unfolding WV sel tail using byte \<open>n < 5\<close> by (auto intro!: map_cong)
qed

lemma WriteVarint32ToArray_slow: "WriteVarint32ToArray v = WriteVarint_slow (ucast v)"
proof (cases "v < 0x80")
  case True
  have u: "unat (ucast v :: u64) = unat v"
    using unat_less_2p [of v] by (simp add: unsigned_ucast_eq take_bit_nat_eq_self_iff)
  from True have lt: "unat (ucast v :: u64) < 2 ^ 7" unfolding u by (simp add: word_less_nat_alt)
  have "(ucast v :: byte) AND 0x80 = 0"
    using lt unfolding u less_0x80_iff [symmetric]
    by (simp add: word_less_nat_alt unsigned_ucast_eq take_bit_eq_mod)
  then have "(ucast v :: byte) AND 0x7F = ucast v" by (rule payload_id)
  moreover have "ucast (ucast v :: u64) = (ucast v :: byte)"
    by (rule bit_word_eqI) (auto simp: bit_ucast_iff)
  ultimately show ?thesis
    using True lt by (simp add: WriteVarint32ToArray_def WriteVarint_slow.simps [of "ucast v"] gt_7F_iff)
qed (simp add: WriteVarint32ToArray_def WriteVarint32FallbackToArrayInline_slow)

lemma WriteTagToArray_slow: "WriteTagToArray v = WriteVarint_slow (ucast v)"
proof (cases "v < push_bit 14 1")
  case False
  then have "\<not> v < push_bit 7 1" by (simp add: not_less word_le_nat_alt)
  with False show ?thesis
    by (simp only: WriteTagToArray_def if_False WriteVarint32FallbackToArrayInline_slow)
next
  case True
  have b7: "(ucast w :: byte) = ucast w AND 0x7F" if "unat w < 2 ^ 7" for w :: u32
  proof -
    have "(ucast w :: byte) AND 0x80 = 0"
      using that by (simp add: less_0x80_iff [symmetric] word_less_nat_alt unsigned_ucast_eq take_bit_eq_mod)
    then show ?thesis by (simp add: payload_id)
  qed
  have u: "unat (ucast v :: u64) = unat v"
    using unat_less_2p [of v] by (simp add: unsigned_ucast_eq take_bit_nat_eq_self_iff)
  have uu: "(ucast (drop_bit k (ucast v :: u64)) :: byte) = ucast (drop_bit k v)" for k
    by (rule bit_word_eqI) (auto simp: bit_ucast_iff bit_drop_bit_eq dest: bit_imp_le_length)
  have d7: "unat (drop_bit 7 v) < 2 ^ 7"
    using True by (simp add: unat_drop_bit word_less_nat_alt div_less_iff_less_mult)
  have c80: "(0x80 :: u32) = push_bit 7 1" by (simp add: push_bit_eq_mult)
  have u80: "(ucast (v OR 0x80) :: byte) = ucast v OR 0x80"
    unfolding c80
    by (rule bit_word_eqI)
       (simp only: bit_ucast_iff bit_or_iff bit_push_bit_iff bit_1_iff byte_bits, auto)
  show ?thesis
  proof (cases "v < push_bit 7 1")
    case True
    then have "unat v < 2 ^ 7" by (simp add: word_less_nat_alt)
    with True b7 [of v] WriteVarint_slow_bytes [of "ucast v" 0] uu [of 0] show ?thesis
      by (simp add: WriteTagToArray_def u)
  next
    case False
    with True have "2 ^ 7 \<le> unat v" "unat v < 2 ^ 14"
      by (simp_all add: not_less word_le_nat_alt word_less_nat_alt)
    with WriteVarint_slow_bytes [of "ucast v" 1] b7 [OF d7] uu [of 0] uu [of 7] u80 show ?thesis
      using True False unfolding u WriteTagToArray_def by (simp add: upt_rec)
  qed
qed
lemma VarintSize32SignExtended_length:
  "VarintSize32SignExtended v = length (WriteVarint32SignExtendedToArray v)"
proof -
  have "unat (scast v :: u64) \<ge> 2 ^ 63" if "sint v < 0"
  proof -
    have "bit v 31" using bit_last_iff [of v] that by simp
    then have "bit (scast v :: u64) 63" by (simp add: bit_signed_iff)
    then have "odd (unat (scast v :: u64) div 2 ^ 63)"
      by (simp only: bit_iff_odd [symmetric] bit_unsigned_iff) simp
    then have "unat (scast v :: u64) div 2 ^ 63 \<noteq> 0" by (metis even_zero)
    then show ?thesis by (metis div_less not_less)
  qed
  then have "length (WriteVarint_slow (scast v)) = 10" if "sint v < 0"
    using that length_WriteVarint_slow [of "scast v :: u64" 9] unat_less_2p [of "scast v :: u64"]
    by simp
  then show ?thesis
    by (simp add: VarintSize32SignExtended_def WriteVarint32SignExtendedToArray_def
        WriteVarint64ToArrayInline_slow WriteVarint32ToArray_slow VarintSize32_length)
qed

section \<open>Round trip\<close>

lemma ReadVarint64Slow_loop_write:
  "length (WriteVarint_slow v) \<le> n \<Longrightarrow>
     ReadVarint64Slow_loop n c r (WriteVarint_slow v @ rest) = (Some (r OR push_bit (7 * c) v), rest)"
proof (induction v arbitrary: n c r rule: WriteVarint_slow.induct)
  case (1 v)
  have ucast_low: "(ucast (ucast v AND 0x7F :: byte) :: u64) = take_bit 7 v"
    by (rule bit_word_eqI) (simp only: bit_ucast_iff bit_take_bit_iff byte_bits, auto)
  have split: "take_bit 7 v OR push_bit 7 (drop_bit 7 v) = v"
    by (rule bit_word_eqI) (simp add: bit_or_iff bit_take_bit_iff bit_push_bit_iff bit_drop_bit_eq, metis add_diff_inverse_nat not_less)
  obtain m where n: "n = Suc m"
    using "1.prems" length_WriteVarint_slow_pos [of v] by (cases n) auto
  show ?case
  proof (cases "0x7F < v")
    case True
    have join: "push_bit (7 * c) (take_bit 7 v) OR push_bit (7 + 7 * c) (drop_bit 7 v) = push_bit (7 * c) v"
      by (subst (3) split [symmetric]) (simp add: push_bit_or add.commute)
    have "length (WriteVarint_slow (drop_bit 7 v)) \<le> m"
      using "1.prems" True n by (simp add: WriteVarint_slow.simps [of v])
    from "1.IH" [OF True this] show ?thesis
      using True n
      by (simp add: WriteVarint_slow.simps [of v] Let_def byte_or_cont byte_or_and_7F byte_and_and_7F
          ucast_low or.assoc join)
  next
    case False
    then have "unat v < 2 ^ 7" by (simp add: gt_7F_iff not_le)
    then have "unat (take_bit 7 v) = unat v" by (simp add: unsigned_take_bit_eq take_bit_nat_eq_self)
    then have "take_bit 7 v = v" by (simp only: word_unat_eq_iff)
    with False n show ?thesis
      by (simp add: WriteVarint_slow.simps [of v] Let_def byte_and_last byte_and_and_7F ucast_low)
  qed
qed

lemma ReadVarint64Slow_write: "ReadVarint64Slow (WriteVarint_slow v @ rest) = (Some v, rest)"
  by (simp add: ReadVarint64Slow_def ReadVarint64Slow_loop_write length_WriteVarint_slow_le)

theorem ReadVarint64_write: "ReadVarint64 (WriteVarint64ToArrayInline v @ rest) = (Some v, rest)"
  by (simp add: ReadVarint64_slow WriteVarint64ToArrayInline_slow ReadVarint64Slow_write)

theorem ReadVarint32_write: "ReadVarint32 (WriteVarint32ToArray v @ rest) = (Some v, rest)"
proof -
  have "(ucast (ucast v :: u64) :: u32) = v" by (rule bit_word_eqI) (auto simp: bit_ucast_iff)
  then show ?thesis
    by (auto simp: ReadVarint32_slow WriteVarint32ToArray_slow ReadVarint64Slow_write)
qed

theorem ReadVarint32_write_tag: "ReadVarint32 (WriteTagToArray v @ rest) = (Some v, rest)"
  using ReadVarint32_write [of v rest]
  by (simp add: WriteTagToArray_slow WriteVarint32ToArray_slow)

text \<open>A negative \<open>int32\<close> takes ten bytes and reads back as its 32-bit pattern.\<close>

theorem ReadVarint32_write_int32:
  "ReadVarint32 (WriteVarint32SignExtendedToArray v @ rest) = (Some v, rest)"
proof (cases "sint v < 0")
  case True
  have "(ucast (scast v :: u64) :: u32) = v"
    by (rule bit_word_eqI) (auto simp: bit_ucast_iff bit_signed_iff)
  with True show ?thesis
    by (auto simp: ReadVarint32_slow WriteVarint32SignExtendedToArray_def
        WriteVarint64ToArrayInline_slow ReadVarint64Slow_write)
qed (simp add: WriteVarint32SignExtendedToArray_def ReadVarint32_write)

end
