(* ===== verification/GF_WireFormat.thy ===== *)
theory GF_WireFormat
  imports GF_Wire
begin

text \<open>
  The \<open>CodedInputStream\<close> over a flat array, tags, and the fields a message does not
  know: \<open>WireFormat::SkipField\<close>, \<open>SkipMessage\<close>, \<open>SerializeUnknownFields\<close>,
  \<open>SerializeUnknownFieldsToArray\<close> and \<open>ComputeUnknownFieldsSize\<close> of
  \<open>src/include/google/protobuf/wire_format.cc\<close>, with the reading of tags of
  \<open>io/coded_stream.{h,cc}\<close>.

  Shown: reading never lengthens the buffer, the recursion of \<open>SkipField\<close> and
  \<open>SkipMessage\<close> ends within a fuel linear in the buffer, the two serialisers agree, the
  computed size is the number of bytes written, and skipping the serialisation of a
  well-formed field set yields that field set.
\<close>

section \<open>The input stream\<close>

text \<open>\<open>cis_buf\<close> is what lies between \<open>buffer_\<close> and \<open>buffer_end_\<close>. A stream built over
  an array has \<open>input_ = NULL\<close> and \<open>total_bytes_read_ = current_limit_ = size\<close> for good;
  \<open>cis_size\<close> is that value.\<close>

record cis =
  cis_buf :: "byte list"
  cis_size :: nat
  last_tag :: u32
  legitimate_message_end :: bool
  recursion_depth :: nat

abbreviation kDefaultTotalBytesLimit :: nat where "kDefaultTotalBytesLimit \<equiv> 64 * 2 ^ 20"
abbreviation default_recursion_limit :: nat where "default_recursion_limit \<equiv> 100"

definition CodedInputStream :: "byte list \<Rightarrow> cis" where
  "CodedInputStream data =
     \<lparr> cis_buf = data, cis_size = length data, last_tag = 0,
       legitimate_message_end = False, recursion_depth = 0 \<rparr>"

definition cis_ReadVarint32 :: "cis \<Rightarrow> u32 option \<times> cis" where
  "cis_ReadVarint32 input =
     (let (r, rest) = ReadVarint32 (cis_buf input) in (r, input\<lparr> cis_buf := rest \<rparr>))"

definition cis_ReadVarint64 :: "cis \<Rightarrow> u64 option \<times> cis" where
  "cis_ReadVarint64 input =
     (let (r, rest) = ReadVarint64 (cis_buf input) in (r, input\<lparr> cis_buf := rest \<rparr>))"

text \<open>When fewer bytes are left than asked for, \<open>ReadRaw\<close> takes them all and fails.\<close>

definition ReadLittleEndian32 :: "cis \<Rightarrow> u32 option \<times> cis" where
  "ReadLittleEndian32 input =
     (if 4 \<le> length (cis_buf input)
      then (Some (le_word (take 4 (cis_buf input))), input\<lparr> cis_buf := drop 4 (cis_buf input) \<rparr>)
      else (None, input\<lparr> cis_buf := [] \<rparr>))"

definition ReadLittleEndian64 :: "cis \<Rightarrow> u64 option \<times> cis" where
  "ReadLittleEndian64 input =
     (if 8 \<le> length (cis_buf input)
      then (Some (le_word (take 8 (cis_buf input))), input\<lparr> cis_buf := drop 8 (cis_buf input) \<rparr>)
      else (None, input\<lparr> cis_buf := [] \<rparr>))"

text \<open>The second component is what the string holds afterwards, also after a failure.\<close>

definition ReadString :: "cis \<Rightarrow> u32 \<Rightarrow> bool \<times> byte list \<times> cis" where
  "ReadString input count =
     (if sint count < 0 then (False, [], input)
      else if unat count \<le> length (cis_buf input)
      then (True, take (unat count) (cis_buf input),
            input\<lparr> cis_buf := drop (unat count) (cis_buf input) \<rparr>)
      else (False, cis_buf input, input\<lparr> cis_buf := [] \<rparr>))"

definition ReadTagSlow :: "cis \<Rightarrow> u32 \<times> cis" where
  "ReadTagSlow input =
     (if cis_buf input = [] then
        (if kDefaultTotalBytesLimit \<le> cis_size input
         then (0, input\<lparr> legitimate_message_end := (cis_size input = kDefaultTotalBytesLimit) \<rparr>)
         else (0, input\<lparr> legitimate_message_end := True \<rparr>))
      else (case cis_ReadVarint64 input of
              (None, input') \<Rightarrow> (0, input')
            | (Some result, input') \<Rightarrow> (ucast result, input')))"

definition ReadTagFallback :: "cis \<Rightarrow> u32 \<times> cis" where
  "ReadTagFallback input =
     (if safe_unrolled (cis_buf input) then
        (case ReadVarint32FromArray (cis_buf input) of
           Vdone tag rest \<Rightarrow> (tag, input\<lparr> cis_buf := rest \<rparr>)
         | _ \<Rightarrow> (0, input))
      else if cis_buf input = [] \<and> cis_size input < kDefaultTotalBytesLimit
      then (0, input\<lparr> legitimate_message_end := True \<rparr>)
      else ReadTagSlow input)"

definition ReadTag :: "cis \<Rightarrow> u32 \<times> cis" where
  "ReadTag input =
     (case cis_buf input of
        b # rest \<Rightarrow>
          if b < 0x80 then (ucast b, input\<lparr> cis_buf := rest, last_tag := ucast b \<rparr>)
          else (let (tag, input') = ReadTagFallback input in (tag, input'\<lparr> last_tag := tag \<rparr>))
      | [] \<Rightarrow> (let (tag, input') = ReadTagFallback input in (tag, input'\<lparr> last_tag := tag \<rparr>)))"

text \<open>\<open>static_cast<int8>(buffer_[0]) > 0\<close>, and the two-byte case, taken only for a cutoff
  from \<open>0x80\<close> on.\<close>

definition ReadTagWithCutoff :: "cis \<Rightarrow> u32 \<Rightarrow> (u32 \<times> bool) \<times> cis" where
  "ReadTagWithCutoff input cutoff =
     (let slow = (let (tag, input') = ReadTagFallback input
                  in ((tag, tag - 1 < cutoff), input'\<lparr> last_tag := tag \<rparr>))
      in case cis_buf input of
        [] \<Rightarrow> slow
      | b # rest \<Rightarrow>
          if 0 < sint b then
            ((ucast b, 0x7F \<le> cutoff \<or> ucast b \<le> cutoff),
             input\<lparr> cis_buf := rest, last_tag := ucast b \<rparr>)
          else (case rest of
              [] \<Rightarrow> slow
            | b1 # rest1 \<Rightarrow>
                if 0x80 \<le> cutoff \<and> 0x80 \<le> (ucast b :: u32) AND NOT (ucast b1)
                then (let tag = 0x80 * ucast b1 + (ucast b - 0x80)
                      in ((tag, 0x3FFF \<le> cutoff \<or> tag \<le> cutoff),
                          input\<lparr> cis_buf := rest1, last_tag := tag \<rparr>))
                else slow))"

text \<open>\<open>total_bytes_read_ == current_limit_\<close> holds for good over an array.\<close>

definition ExpectAtEnd :: "cis \<Rightarrow> bool \<times> cis" where
  "ExpectAtEnd input =
     (if cis_buf input = []
      then (True, input\<lparr> last_tag := 0, legitimate_message_end := True \<rparr>)
      else (False, input))"

definition LastTagWas :: "cis \<Rightarrow> u32 \<Rightarrow> bool" where
  "LastTagWas input expected = (last_tag input = expected)"

definition ConsumedEntireMessage :: "cis \<Rightarrow> bool" where
  "ConsumedEntireMessage input = legitimate_message_end input"

definition IncrementRecursionDepth :: "cis \<Rightarrow> bool \<times> cis" where
  "IncrementRecursionDepth input =
     (let d = recursion_depth input + 1
      in (d \<le> default_recursion_limit, input\<lparr> recursion_depth := d \<rparr>))"

definition DecrementRecursionDepth :: "cis \<Rightarrow> cis" where
  "DecrementRecursionDepth input =
     (if 0 < recursion_depth input
      then input\<lparr> recursion_depth := recursion_depth input - 1 \<rparr> else input)"

section \<open>Tags\<close>

datatype WireType =
    WIRETYPE_VARINT | WIRETYPE_FIXED64 | WIRETYPE_LENGTH_DELIMITED
  | WIRETYPE_START_GROUP | WIRETYPE_END_GROUP | WIRETYPE_FIXED32

fun wire_type_value :: "WireType \<Rightarrow> u32" where
  "wire_type_value WIRETYPE_VARINT = 0"
| "wire_type_value WIRETYPE_FIXED64 = 1"
| "wire_type_value WIRETYPE_LENGTH_DELIMITED = 2"
| "wire_type_value WIRETYPE_START_GROUP = 3"
| "wire_type_value WIRETYPE_END_GROUP = 4"
| "wire_type_value WIRETYPE_FIXED32 = 5"

definition MakeTag :: "u32 \<Rightarrow> WireType \<Rightarrow> u32" where
  "MakeTag field_number ty = push_bit 3 field_number OR wire_type_value ty"

text \<open>The values 6 and 7 are cast to the enumeration too and fall to the \<open>default\<close> cases:
  the result \<open>None\<close>.\<close>

definition GetTagWireType :: "u32 \<Rightarrow> WireType option" where
  "GetTagWireType tag =
     (let t = tag AND 7
      in if t = 0 then Some WIRETYPE_VARINT
         else if t = 1 then Some WIRETYPE_FIXED64
         else if t = 2 then Some WIRETYPE_LENGTH_DELIMITED
         else if t = 3 then Some WIRETYPE_START_GROUP
         else if t = 4 then Some WIRETYPE_END_GROUP
         else if t = 5 then Some WIRETYPE_FIXED32
         else None)"

definition GetTagFieldNumber :: "u32 \<Rightarrow> u32" where
  "GetTagFieldNumber tag = drop_bit 3 tag"

section \<open>Unknown fields\<close>

datatype unknown_field =
    UF_varint u32 u64
  | UF_fixed32 u32 u32
  | UF_fixed64 u32 u64
  | UF_length_delimited u32 "byte list"
  | UF_group u32 "unknown_field list"

text \<open>\<open>fields_\<close> of an \<open>UnknownFieldSet\<close>; \<open>NULL\<close> and the empty vector behave alike.\<close>

type_synonym UnknownFieldSet = "unknown_field list"

text \<open>The mutual recursion of \<open>SkipField\<close> and \<open>SkipMessage\<close> carries a fuel; \<open>None\<close> is the
  fuel running out, which \<open>SkipField_total\<close> excludes. The result is the returned flag with the
  stream and the field set as the call leaves them. \<open>AddLengthDelimited\<close> and \<open>AddGroup\<close> put
  the new field in the set before it is read, so a failed read leaves it there.\<close>

fun SkipField_f :: "nat \<Rightarrow> cis \<Rightarrow> u32 \<Rightarrow> UnknownFieldSet \<Rightarrow> (bool \<times> cis \<times> UnknownFieldSet) option"
and SkipMessage_f :: "nat \<Rightarrow> cis \<Rightarrow> UnknownFieldSet \<Rightarrow> (bool \<times> cis \<times> UnknownFieldSet) option"
where
  "SkipField_f 0 input tag ufs = None"
| "SkipField_f (Suc n) input tag ufs =
     (let number = GetTagFieldNumber tag
      in case GetTagWireType tag of
        Some WIRETYPE_VARINT \<Rightarrow>
          (case cis_ReadVarint64 input of
             (None, input') \<Rightarrow> Some (False, input', ufs)
           | (Some value, input') \<Rightarrow> Some (True, input', ufs @ [UF_varint number value]))
      | Some WIRETYPE_FIXED64 \<Rightarrow>
          (case ReadLittleEndian64 input of
             (None, input') \<Rightarrow> Some (False, input', ufs)
           | (Some value, input') \<Rightarrow> Some (True, input', ufs @ [UF_fixed64 number value]))
      | Some WIRETYPE_LENGTH_DELIMITED \<Rightarrow>
          (case cis_ReadVarint32 input of
             (None, input') \<Rightarrow> Some (False, input', ufs)
           | (Some count, input') \<Rightarrow>
               (case ReadString input' count of
                  (ok, str, input'') \<Rightarrow> Some (ok, input'', ufs @ [UF_length_delimited number str])))
      | Some WIRETYPE_START_GROUP \<Rightarrow>
          (case IncrementRecursionDepth input of
             (False, input') \<Rightarrow> Some (False, input', ufs)
           | (True, input') \<Rightarrow>
               (case SkipMessage_f n input' [] of
                  None \<Rightarrow> None
                | Some (False, input'', grp) \<Rightarrow> Some (False, input'', ufs @ [UF_group number grp])
                | Some (True, input'', grp) \<Rightarrow>
                    (let input3 = DecrementRecursionDepth input''
                     in Some (LastTagWas input3 (MakeTag (GetTagFieldNumber tag) WIRETYPE_END_GROUP),
                              input3, ufs @ [UF_group number grp]))))
      | Some WIRETYPE_END_GROUP \<Rightarrow> Some (False, input, ufs)
      | Some WIRETYPE_FIXED32 \<Rightarrow>
          (case ReadLittleEndian32 input of
             (None, input') \<Rightarrow> Some (False, input', ufs)
           | (Some value, input') \<Rightarrow> Some (True, input', ufs @ [UF_fixed32 number value]))
      | None \<Rightarrow> Some (False, input, ufs))"
| "SkipMessage_f 0 input ufs = None"
| "SkipMessage_f (Suc n) input ufs =
     (case ReadTag input of
        (tag, input') \<Rightarrow>
          if tag = 0 then Some (True, input', ufs)
          else if GetTagWireType tag = Some WIRETYPE_END_GROUP then Some (True, input', ufs)
          else (case SkipField_f n input' tag ufs of
                  None \<Rightarrow> None
                | Some (False, input'', ufs') \<Rightarrow> Some (False, input'', ufs')
                | Some (True, input'', ufs') \<Rightarrow> SkipMessage_f n input'' ufs'))"

definition SkipField :: "cis \<Rightarrow> u32 \<Rightarrow> UnknownFieldSet \<Rightarrow> (bool \<times> cis \<times> UnknownFieldSet) option" where
  "SkipField input tag ufs = SkipField_f (2 * length (cis_buf input) + 2) input tag ufs"

definition WriteTagTypeToArray :: "u32 \<Rightarrow> WireType \<Rightarrow> byte list" where
  "WriteTagTypeToArray field_number ty = WriteTagToArray (MakeTag field_number ty)"

definition WriteBytesToArray :: "u32 \<Rightarrow> byte list \<Rightarrow> byte list" where
  "WriteBytesToArray field_number value =
     WriteTagTypeToArray field_number WIRETYPE_LENGTH_DELIMITED @
     WriteVarint32ToArray (of_nat (length value)) @ value"

definition WriteInt32ToArray :: "u32 \<Rightarrow> u32 \<Rightarrow> byte list" where
  "WriteInt32ToArray field_number value =
     WriteTagTypeToArray field_number WIRETYPE_VARINT @ WriteVarint32SignExtendedToArray value"

fun SerializeUnknownFieldsToArray :: "UnknownFieldSet \<Rightarrow> byte list"
and SerializeUnknownFieldToArray :: "unknown_field \<Rightarrow> byte list"
where
  "SerializeUnknownFieldsToArray [] = []"
| "SerializeUnknownFieldsToArray (f # fs) =
     SerializeUnknownFieldToArray f @ SerializeUnknownFieldsToArray fs"
| "SerializeUnknownFieldToArray (UF_varint number v) =
     WriteTagTypeToArray number WIRETYPE_VARINT @ WriteVarint64ToArrayInline v"
| "SerializeUnknownFieldToArray (UF_fixed32 number v) =
     WriteTagTypeToArray number WIRETYPE_FIXED32 @ le32 v"
| "SerializeUnknownFieldToArray (UF_fixed64 number v) =
     WriteTagTypeToArray number WIRETYPE_FIXED64 @ le64 v"
| "SerializeUnknownFieldToArray (UF_length_delimited number s) = WriteBytesToArray number s"
| "SerializeUnknownFieldToArray (UF_group number grp) =
     WriteTagTypeToArray number WIRETYPE_START_GROUP @
     SerializeUnknownFieldsToArray grp @
     WriteTagTypeToArray number WIRETYPE_END_GROUP"

text \<open>The same through a \<open>CodedOutputStream\<close>, here the bytes written to it so far. Its tags
  and lengths go through \<open>WriteVarint32\<close>.\<close>

fun SerializeUnknownFields :: "UnknownFieldSet \<Rightarrow> byte list \<Rightarrow> byte list"
and SerializeUnknownField :: "unknown_field \<Rightarrow> byte list \<Rightarrow> byte list"
where
  "SerializeUnknownFields [] output = output"
| "SerializeUnknownFields (f # fs) output =
     SerializeUnknownFields fs (SerializeUnknownField f output)"
| "SerializeUnknownField (UF_varint number v) output =
     output @ WriteVarint32FallbackToArrayInline (MakeTag number WIRETYPE_VARINT) @
     WriteVarint64ToArrayInline v"
| "SerializeUnknownField (UF_fixed32 number v) output =
     output @ WriteVarint32FallbackToArrayInline (MakeTag number WIRETYPE_FIXED32) @ le32 v"
| "SerializeUnknownField (UF_fixed64 number v) output =
     output @ WriteVarint32FallbackToArrayInline (MakeTag number WIRETYPE_FIXED64) @ le64 v"
| "SerializeUnknownField (UF_length_delimited number s) output =
     output @ WriteVarint32FallbackToArrayInline (MakeTag number WIRETYPE_LENGTH_DELIMITED) @
     WriteVarint32FallbackToArrayInline (of_nat (length s)) @ s"
| "SerializeUnknownField (UF_group number grp) output =
     SerializeUnknownFields grp
       (output @ WriteVarint32FallbackToArrayInline (MakeTag number WIRETYPE_START_GROUP)) @
     WriteVarint32FallbackToArrayInline (MakeTag number WIRETYPE_END_GROUP)"

fun ComputeUnknownFieldsSize :: "UnknownFieldSet \<Rightarrow> nat"
and ComputeUnknownFieldSize :: "unknown_field \<Rightarrow> nat"
where
  "ComputeUnknownFieldsSize [] = 0"
| "ComputeUnknownFieldsSize (f # fs) = ComputeUnknownFieldSize f + ComputeUnknownFieldsSize fs"
| "ComputeUnknownFieldSize (UF_varint number v) =
     VarintSize32 (MakeTag number WIRETYPE_VARINT) + VarintSize64 v"
| "ComputeUnknownFieldSize (UF_fixed32 number v) =
     VarintSize32 (MakeTag number WIRETYPE_FIXED32) + 4"
| "ComputeUnknownFieldSize (UF_fixed64 number v) =
     VarintSize32 (MakeTag number WIRETYPE_FIXED64) + 8"
| "ComputeUnknownFieldSize (UF_length_delimited number s) =
     VarintSize32 (MakeTag number WIRETYPE_LENGTH_DELIMITED) +
     VarintSize32 (of_nat (length s)) + length s"
| "ComputeUnknownFieldSize (UF_group number grp) =
     VarintSize32 (MakeTag number WIRETYPE_START_GROUP) + ComputeUnknownFieldsSize grp +
     VarintSize32 (MakeTag number WIRETYPE_END_GROUP)"

section \<open>Reading consumes\<close>

lemma ReadVarint64Slow_loop_length:
  "ReadVarint64Slow_loop n c r bs = (x, rest) \<Longrightarrow>
     length rest \<le> length bs \<and> (x \<noteq> None \<longrightarrow> length rest < length bs)"
  by (induction n c r bs rule: ReadVarint64Slow_loop.induct) (fastforce simp: Let_def split: if_splits)+

lemma ReadVarint64Slow_length:
  "ReadVarint64Slow bs = (x, rest) \<Longrightarrow>
     length rest \<le> length bs \<and> (x \<noteq> None \<longrightarrow> length rest < length bs)"
  unfolding ReadVarint64Slow_def by (rule ReadVarint64Slow_loop_length)

lemma ReadVarint64_length:
  "ReadVarint64 bs = (x, rest) \<Longrightarrow>
     length rest \<le> length bs \<and> (x \<noteq> None \<longrightarrow> length rest < length bs)"
  using ReadVarint64_slow(2) [of bs _ rest] ReadVarint64Slow_length [of bs x rest]
    ReadVarint64Slow_length [of bs]
  by (cases x) (auto simp: ReadVarint64_def ReadVarint64Fallback_def split: if_splits vread.splits list.splits)

lemma ReadVarint32_length:
  assumes "ReadVarint32 bs = (x, rest)"
  shows "length rest \<le> length bs \<and> (x \<noteq> None \<longrightarrow> length rest < length bs)"
proof (cases x)
  case None
  with assms have "rest = bs \<or> (\<exists>y. ReadVarint64Fallback bs = (y, rest))"
    by (auto simp: ReadVarint32_def ReadVarint32Fallback_def ReadVarint32Slow_def
        split: if_splits vread.splits list.splits prod.splits option.splits)
  with None show ?thesis using ReadVarint64Slow_length [of bs _ rest]
      ReadVarint64FromArray_slow(1) [of bs _ rest]
    by (auto simp: ReadVarint64Fallback_def less_imp_le split: if_splits vread.splits)
next
  case (Some v)
  with assms obtain w where "ReadVarint64Slow bs = (Some w, rest)" by (auto simp: ReadVarint32_slow)
  with ReadVarint64Slow_length [OF this] Some show ?thesis by simp
qed

text \<open>What reading may change: the buffer shrinks, the size stays.\<close>

definition shrinks :: "cis \<Rightarrow> cis \<Rightarrow> bool" where
  "shrinks input input' \<longleftrightarrow>
     length (cis_buf input') \<le> length (cis_buf input) \<and> cis_size input' = cis_size input"

lemma shrinks_refl: "shrinks a a"
  by (simp add: shrinks_def)

lemma shrinks_trans: "shrinks a b \<Longrightarrow> shrinks b c \<Longrightarrow> shrinks a c"
  by (simp add: shrinks_def)

lemma shrinks_reads:
  "cis_ReadVarint64 input = (x, input') \<Longrightarrow> shrinks input input'"
  "cis_ReadVarint32 input = (y, input') \<Longrightarrow> shrinks input input'"
  "ReadLittleEndian32 input = (y, input') \<Longrightarrow> shrinks input input'"
  "ReadLittleEndian64 input = (x, input') \<Longrightarrow> shrinks input input'"
  "ReadString input k = (b, s, input') \<Longrightarrow> shrinks input input'"
  "IncrementRecursionDepth input = (b, input') \<Longrightarrow> shrinks input input'"
  "shrinks input (DecrementRecursionDepth input)"
  by (auto simp: shrinks_def cis_ReadVarint64_def cis_ReadVarint32_def ReadLittleEndian32_def
      ReadLittleEndian64_def ReadString_def IncrementRecursionDepth_def DecrementRecursionDepth_def
      Let_def dest: ReadVarint64_length ReadVarint32_length split: prod.splits if_splits)

lemma ReadTagFallback_shrinks:
  assumes "ReadTagFallback input = (tag, input')"
  shows "shrinks input input' \<and> (tag \<noteq> 0 \<longrightarrow> length (cis_buf input') < length (cis_buf input))"
proof (cases "safe_unrolled (cis_buf input)")
  case True
  with assms show ?thesis
    using ReadVarint32FromArray_slow(1) [of "cis_buf input"] ReadVarint64Slow_length [of "cis_buf input"]
    by (fastforce simp: ReadTagFallback_def shrinks_def split: vread.splits)
next
  case False
  with assms show ?thesis
    using ReadVarint64_length [of "cis_buf input"]
    by (fastforce simp: ReadTagFallback_def ReadTagSlow_def shrinks_def cis_ReadVarint64_def
        split: if_splits option.splits prod.splits)
qed

lemma ReadTag_shrinks:
  "ReadTag input = (tag, input') \<Longrightarrow>
     shrinks input input' \<and> (tag \<noteq> 0 \<longrightarrow> length (cis_buf input') < length (cis_buf input))"
  using ReadTagFallback_shrinks [of input]
  by (fastforce simp: ReadTag_def shrinks_def split: list.splits if_splits prod.splits)

lemma ReadTagWithCutoff_shrinks:
  "ReadTagWithCutoff input k = ((tag, c), input') \<Longrightarrow>
     shrinks input input' \<and> (tag \<noteq> 0 \<longrightarrow> length (cis_buf input') < length (cis_buf input))"
  using ReadTagFallback_shrinks [of input]
  by (fastforce simp: ReadTagWithCutoff_def shrinks_def Let_def split: list.splits if_splits prod.splits)

section \<open>Skipping terminates\<close>

lemma Skip_total:
  "2 * length (cis_buf input) + 2 \<le> n \<Longrightarrow>
     \<exists>ok input' ufs'. SkipField_f n input tag ufs = Some (ok, input', ufs') \<and> shrinks input input'"
  "2 * length (cis_buf input) + 1 \<le> n \<Longrightarrow>
     \<exists>ok input' ufs'. SkipMessage_f n input ufs = Some (ok, input', ufs') \<and> shrinks input input'"
proof (induction n input tag ufs and n input ufs rule: SkipField_f_SkipMessage_f.induct)
  case (2 n input tag ufs)
  show ?case
  proof (cases "GetTagWireType tag = Some WIRETYPE_START_GROUP")
    case True
    obtain ok input1 where i: "IncrementRecursionDepth input = (ok, input1)" by fastforce
    have s1: "shrinks input input1" by (rule shrinks_reads(6) [OF i])
    show ?thesis
    proof (cases ok)
      case okT: True
      have "2 * length (cis_buf input1) + 1 \<le> n" using "2.prems" s1 by (simp add: shrinks_def)
      with "2.IH" [OF refl True refl i [symmetric]] okT obtain ok2 input2 g where
        "SkipMessage_f n input1 [] = Some (ok2, input2, g)" "shrinks input1 input2" by fastforce
      then show ?thesis
        using True i okT s1 shrinks_reads(7) [of input2]
        by (cases ok2) (auto simp: Let_def intro: shrinks_trans)
    qed (use True i s1 in \<open>auto simp: Let_def\<close>)
  qed (auto simp: Let_def shrinks_refl split: option.splits WireType.splits prod.splits
        dest: shrinks_reads(1-5) intro: shrinks_trans)
next
  case (4 n input ufs)
  obtain tag input1 where r: "ReadTag input = (tag, input1)" by fastforce
  note s1 = ReadTag_shrinks [OF r]
  show ?case
  proof (cases "tag = 0 \<or> GetTagWireType tag = Some WIRETYPE_END_GROUP")
    case True
    then show ?thesis using r s1 by auto
  next
    case False
    with s1 "4.prems" have l: "2 * length (cis_buf input1) + 2 \<le> n" by (auto simp: shrinks_def)
    with "4.IH"(1) [OF r [symmetric]] False obtain ok input2 ufs2 where
      f: "SkipField_f n input1 tag ufs = Some (ok, input2, ufs2)" "shrinks input1 input2" by fastforce
    show ?thesis
    proof (cases ok)
      case True
      from l f(2) have "2 * length (cis_buf input2) + 1 \<le> n" by (simp add: shrinks_def)
      with "4.IH"(2) [OF r [symmetric] _ _ f(1) refl _ refl] True False obtain ok3 input3 ufs3 where
        "SkipMessage_f n input2 ufs2 = Some (ok3, input3, ufs3)" "shrinks input2 input3" by fastforce
      then show ?thesis using False f s1 r True by (auto intro: shrinks_trans)
    qed (use False f s1 r in \<open>auto intro: shrinks_trans\<close>)
  qed
qed auto

lemma SkipField_total:
  "\<exists>ok input' ufs'. SkipField input tag ufs = Some (ok, input', ufs') \<and> shrinks input input'"
  unfolding SkipField_def by (rule Skip_total(1)) simp

section \<open>Writing\<close>

lemmas writer_slow = WriteVarint32FallbackToArrayInline_slow WriteTagToArray_slow
  WriteVarint32ToArray_slow WriteVarint64ToArrayInline_slow

lemma SerializeUnknownFields_array:
  "SerializeUnknownFields fs out = out @ SerializeUnknownFieldsToArray fs"
  "SerializeUnknownField f out' = out' @ SerializeUnknownFieldToArray f"
  by (induction fs out and f out' rule: SerializeUnknownFields_SerializeUnknownField.induct)
     (simp_all add: WriteTagTypeToArray_def WriteBytesToArray_def writer_slow)

lemma ComputeUnknownFieldsSize_length:
  "ComputeUnknownFieldsSize fs = length (SerializeUnknownFieldsToArray fs)"
  "ComputeUnknownFieldSize f = length (SerializeUnknownFieldToArray f)"
  by (induction fs and f rule: ComputeUnknownFieldsSize_ComputeUnknownFieldSize.induct)
     (simp_all add: WriteTagTypeToArray_def WriteBytesToArray_def writer_slow
        VarintSize32_length VarintSize64_length)

section \<open>Round trip\<close>

lemma ucast_ucast32 [simp]: "(ucast (ucast (t :: u32) :: u64) :: u32) = t"
  by (rule bit_word_eqI) (auto simp: bit_ucast_iff)

text \<open>Where the byte loop succeeds, every way of reading a tag returns its value.\<close>

lemma ReadTagFallback_slow:
  assumes "ReadVarint64Slow (cis_buf input) = (Some w, rest)"
  shows "ReadTagFallback input = (ucast w, input\<lparr> cis_buf := rest \<rparr>)"
proof (cases "safe_unrolled (cis_buf input)")
  case True
  show ?thesis
  proof (cases "ReadVarint32FromArray (cis_buf input)")
    case (Vdone v r)
    from ReadVarint32FromArray_slow(1) [OF this] assms Vdone True show ?thesis
      by (auto simp: ReadTagFallback_def)
  qed (use True assms ReadVarint32FromArray_slow(2) safe_unrolled_no_overrun32 in fastforce)+
next
  case False
  have "ReadVarint64 (cis_buf input) = (Some w, rest)" using assms by (simp add: ReadVarint64_slow)
  moreover have "cis_buf input \<noteq> []"
    using assms by (auto simp: ReadVarint64Slow_def numeral_eq_Suc)
  ultimately show ?thesis
    using False by (simp add: ReadTagFallback_def ReadTagSlow_def cis_ReadVarint64_def)
qed

lemma ReadTag_slow:
  assumes "ReadVarint64Slow (cis_buf input) = (Some w, rest)"
  shows "ReadTag input = (ucast w, input\<lparr> cis_buf := rest, last_tag := ucast w \<rparr>)"
  using assms ReadTagFallback_slow [OF assms]
  by (auto simp: ReadTag_def ReadVarint64Slow_one ucast_byte32 split: list.splits)

lemma sint_pos_iff: "0 < sint b \<longleftrightarrow> b < 0x80 \<and> b \<noteq> 0" for b :: byte
proof -
  have "sint b < 0 \<longleftrightarrow> \<not> b < 0x80"
    using bit_last_iff [of b] by (simp add: less_0x80_iff cont_iff)
  moreover have "sint b = 0 \<longleftrightarrow> b = 0"
    using signed_word_eqI [of b 0] by auto
  ultimately show ?thesis by linarith
qed

lemma ReadTagWithCutoff_slow:
  assumes "ReadVarint64Slow (cis_buf input) = (Some w, rest)"
  shows "ReadTagWithCutoff input 127 =
    ((ucast w, ucast w - 1 < (127 :: u32)), input\<lparr> cis_buf := rest, last_tag := ucast w \<rparr>)"
proof (cases "cis_buf input")
  case Nil
  with assms show ?thesis by (simp add: ReadVarint64Slow_def numeral_eq_Suc)
next
  case (Cons b bs)
  show ?thesis
  proof (cases "0 < sint b")
    case True
    then have b: "b < 0x80" "b \<noteq> 0" by (auto simp: sint_pos_iff)
    with assms Cons have w: "w = ucast b" "rest = bs" by (auto simp: ReadVarint64Slow_one)
    have "unat (ucast b :: u32) = unat b"
      using unat_less_2p [of b] by (simp add: unsigned_ucast_eq take_bit_nat_eq_self_iff)
    moreover from b have "unat b < 128" "0 < unat b"
      by (auto simp: word_less_nat_alt unat_gt_0)
    ultimately have "(ucast b :: u32) - 1 < 127"
      by (simp add: word_less_nat_alt unat_sub word_le_nat_alt)
    with True Cons w show ?thesis by (simp add: ReadTagWithCutoff_def Let_def ucast_byte32)
  next
    case False
    then show ?thesis
      using Cons ReadTagFallback_slow [OF assms]
      by (auto simp: ReadTagWithCutoff_def Let_def split: list.splits)
  qed
qed

lemma ReadVarint64Slow_tag:
  "ReadVarint64Slow (WriteTagToArray t @ rest) = (Some (ucast t), rest)"
  by (simp add: WriteTagToArray_slow ReadVarint64Slow_write)

subsection \<open>Tags\<close>

lemma tag_small:
  "wire_type_value ty < 8" "wire_type_value ty AND 7 = wire_type_value ty"
  by (cases ty; simp)+

lemma low3: "(push_bit 3 n OR t) AND 7 = t AND 7" for n t :: u32
proof -
  have m: "(7 :: u32) = mask 3" by (simp add: mask_eq_exp_minus_1)
  show ?thesis unfolding m
    by (rule bit_word_eqI) (auto simp: bit_and_iff bit_or_iff bit_push_bit_iff bit_mask_iff)
qed

lemma GetTagWireType_MakeTag [simp]: "GetTagWireType (MakeTag n ty) = Some ty"
  by (cases ty) (simp_all add: GetTagWireType_def MakeTag_def low3 low3 [of n 0, simplified] Let_def)

lemma GetTagFieldNumber_MakeTag:
  assumes "n < 2 ^ 29"
  shows "GetTagFieldNumber (MakeTag n ty) = n"
proof -
  have "drop_bit 3 (wire_type_value ty) = 0" by (cases ty) simp_all
  moreover have "drop_bit 3 (push_bit 3 n) = n"
  proof -
    have "unat n < 2 ^ 29" using assms by (simp add: word_less_nat_alt)
    then have "take_bit 29 n = n"
      by (simp add: word_unat_eq_iff unsigned_take_bit_eq take_bit_nat_eq_self)
    then show ?thesis
      by (intro bit_word_eqI) (auto simp: bit_drop_bit_eq bit_push_bit_iff dest: take_bit_self_bits)
  qed
  ultimately show ?thesis by (simp add: GetTagFieldNumber_def MakeTag_def drop_bit_or)
qed

lemma MakeTag_nonzero: "n < 2 ^ 29 \<Longrightarrow> n \<noteq> 0 \<Longrightarrow> MakeTag n ty \<noteq> 0"
  using GetTagFieldNumber_MakeTag [of n ty] by (auto simp: GetTagFieldNumber_def)

subsection \<open>Well-formed unknown fields\<close>

text \<open>What a parser can produce and a serialiser can write without loss: numbers of 29 bits
  other than 0, strings whose length is an \<open>int\<close>, and groups nested at most \<open>d\<close> deep.\<close>

definition uf_number_ok :: "u32 \<Rightarrow> bool" where
  "uf_number_ok n \<longleftrightarrow> n \<noteq> 0 \<and> n < 2 ^ 29"

fun uf_ok :: "nat \<Rightarrow> unknown_field \<Rightarrow> bool" where
  "uf_ok d (UF_varint n v) = uf_number_ok n"
| "uf_ok d (UF_fixed32 n v) = uf_number_ok n"
| "uf_ok d (UF_fixed64 n v) = uf_number_ok n"
| "uf_ok d (UF_length_delimited n s) = (uf_number_ok n \<and> length s < 2 ^ 31)"
| "uf_ok 0 (UF_group n g) = False"
| "uf_ok (Suc d) (UF_group n g) = (uf_number_ok n \<and> (\<forall>f \<in> set g. uf_ok d f))"

fun uf_tag :: "unknown_field \<Rightarrow> u32" where
  "uf_tag (UF_varint n v) = MakeTag n WIRETYPE_VARINT"
| "uf_tag (UF_fixed32 n v) = MakeTag n WIRETYPE_FIXED32"
| "uf_tag (UF_fixed64 n v) = MakeTag n WIRETYPE_FIXED64"
| "uf_tag (UF_length_delimited n s) = MakeTag n WIRETYPE_LENGTH_DELIMITED"
| "uf_tag (UF_group n g) = MakeTag n WIRETYPE_START_GROUP"

fun uf_payload :: "unknown_field \<Rightarrow> byte list" where
  "uf_payload (UF_varint n v) = WriteVarint64ToArrayInline v"
| "uf_payload (UF_fixed32 n v) = le32 v"
| "uf_payload (UF_fixed64 n v) = le64 v"
| "uf_payload (UF_length_delimited n s) = WriteVarint32ToArray (of_nat (length s)) @ s"
| "uf_payload (UF_group n g) =
     SerializeUnknownFieldsToArray g @ WriteTagTypeToArray n WIRETYPE_END_GROUP"

fun uf_last :: "unknown_field \<Rightarrow> u32 \<Rightarrow> u32" where
  "uf_last (UF_group n g) t = MakeTag n WIRETYPE_END_GROUP"
| "uf_last _ t = t"

lemma Serialize_split:
  "SerializeUnknownFieldToArray f = WriteTagToArray (uf_tag f) @ uf_payload f"
  by (cases f) (simp_all add: WriteTagTypeToArray_def WriteBytesToArray_def)

lemma uf_ok_number: "uf_ok d f \<Longrightarrow> uf_tag f \<noteq> 0 \<and> GetTagWireType (uf_tag f) \<noteq> Some WIRETYPE_END_GROUP"
  by (induction d f rule: uf_ok.induct) (auto simp: uf_number_ok_def MakeTag_nonzero)

lemma of_nat_small: "k < 2 ^ 31 \<Longrightarrow> unat (of_nat k :: u32) = k \<and> \<not> sint (of_nat k :: u32) < 0"
proof -
  assume k: "k < 2 ^ 31"
  then have "unat (of_nat k :: u32) = k" by (simp add: unsigned_of_nat take_bit_nat_eq_self)
  moreover have "sint (of_nat k :: u32) = int k"
    using k by (simp add: signed_of_nat signed_take_bit_int_eq_self)
  ultimately show ?thesis by simp
qed

text \<open>The statement for one field, and from it the loop over a field set.\<close>

definition skip_writes :: "unknown_field \<Rightarrow> bool" where
  "skip_writes f \<longleftrightarrow> (\<forall>n input rest ufs.
     uf_ok (100 - recursion_depth input) f \<longrightarrow> cis_buf input = uf_payload f @ rest \<longrightarrow>
     2 * length (cis_buf input) + 2 \<le> n \<longrightarrow>
     SkipField_f n input (uf_tag f) ufs =
       Some (True, input\<lparr> cis_buf := rest, last_tag := uf_last f (last_tag input) \<rparr>, ufs @ [f]))"

lemma length_WriteTagToArray_pos: "0 < length (WriteTagToArray t)"
  using length_WriteVarint_slow_pos by (simp add: WriteTagToArray_slow)

lemma SkipMessage_write:
  assumes "\<And>f. f \<in> set fs \<Longrightarrow> skip_writes f"
    and "\<And>f. f \<in> set fs \<Longrightarrow> uf_ok (100 - recursion_depth input) f" and "uf_number_ok k"
    and "cis_buf input = SerializeUnknownFieldsToArray fs @ WriteTagTypeToArray k WIRETYPE_END_GROUP @ rest"
    and "2 * length (cis_buf input) + 1 \<le> n"
  shows "SkipMessage_f n input ufs =
     Some (True, input\<lparr> cis_buf := rest, last_tag := MakeTag k WIRETYPE_END_GROUP \<rparr>, ufs @ fs)"
  using assms
proof (induction fs arbitrary: n input ufs)
  case Nil
  have "ReadVarint64Slow (cis_buf input) = (Some (ucast (MakeTag k WIRETYPE_END_GROUP)), rest)"
    using Nil.prems(4) by (simp add: WriteTagTypeToArray_def ReadVarint64Slow_tag)
  from ReadTag_slow [OF this] Nil.prems(3,5) show ?case
    by (cases n) (auto simp: MakeTag_nonzero uf_number_ok_def)
next
  case (Cons f fs)
  let ?t = "uf_tag f" and ?r = "SerializeUnknownFieldsToArray fs @ WriteTagTypeToArray k WIRETYPE_END_GROUP @ rest"
  have buf: "cis_buf input = WriteTagToArray ?t @ uf_payload f @ ?r"
    using Cons.prems(4) by (simp add: Serialize_split)
  then have "ReadVarint64Slow (cis_buf input) = (Some (ucast ?t), uf_payload f @ ?r)"
    by (simp only: ReadVarint64Slow_tag append_assoc)
  note r = ReadTag_slow [OF this, simplified]
  have ok: "uf_ok (100 - recursion_depth input) f" using Cons.prems(2) by simp
  note t = uf_ok_number [OF ok]
  obtain m where n: "n = Suc m" using Cons.prems(5) by (cases n) auto
  have len: "2 * length (uf_payload f @ ?r) + 2 \<le> m"
  proof -
    have "2 * (length (WriteTagToArray ?t) + length (uf_payload f @ ?r)) \<le> m"
      using Cons.prems(5) n unfolding buf by simp
    moreover obtain a where "length (WriteTagToArray ?t) = Suc a"
      using length_WriteTagToArray_pos [of ?t] by (cases "length (WriteTagToArray ?t)") auto
    ultimately show ?thesis by simp
  qed
  let ?i = "input\<lparr> cis_buf := uf_payload f @ ?r, last_tag := ?t \<rparr>"
  let ?j = "?i\<lparr> cis_buf := ?r, last_tag := uf_last f (last_tag ?i) \<rparr>"
  have "SkipField_f m ?i ?t ufs = Some (True, ?j, ufs @ [f])"
    using Cons.prems(1) [of f] ok len unfolding skip_writes_def by simp
  moreover have "SkipMessage_f m ?j (ufs @ [f]) =
      Some (True, ?j\<lparr> cis_buf := rest, last_tag := MakeTag k WIRETYPE_END_GROUP \<rparr>, (ufs @ [f]) @ fs)"
    by (rule Cons.IH) (use Cons.prems(1,2,3) len in \<open>auto\<close>)
  ultimately show ?case using n r t by simp
qed

lemma skip_writesI:
  assumes "\<And>m input rest ufs. uf_ok (100 - recursion_depth input) f \<Longrightarrow>
     cis_buf input = uf_payload f @ rest \<Longrightarrow> 2 * length (cis_buf input) + 1 \<le> m \<Longrightarrow>
     SkipField_f (Suc m) input (uf_tag f) ufs =
       Some (True, input\<lparr> cis_buf := rest, last_tag := uf_last f (last_tag input) \<rparr>, ufs @ [f])"
  shows "skip_writes f"
  unfolding skip_writes_def
proof (intro allI impI)
  fix n and input :: cis and rest ufs
  assume a: "uf_ok (100 - recursion_depth input) f" "cis_buf input = uf_payload f @ rest"
    "2 * length (cis_buf input) + 2 \<le> n"
  then obtain m where "n = Suc m" "2 * length (cis_buf input) + 1 \<le> m" by (cases n) auto
  with assms [OF a(1,2)] show "SkipField_f n input (uf_tag f) ufs =
       Some (True, input\<lparr> cis_buf := rest, last_tag := uf_last f (last_tag input) \<rparr>, ufs @ [f])"
    by simp
qed

lemma skip_writes_all: "skip_writes f"
proof (induction f)
  case (UF_varint k v)
  show ?case
    by (rule skip_writesI) (auto simp: cis_ReadVarint64_def ReadVarint64_write uf_number_ok_def
          GetTagFieldNumber_MakeTag Let_def)
next
  case (UF_fixed32 k v)
  show ?case
    by (rule skip_writesI) (auto simp: ReadLittleEndian32_def uf_number_ok_def
          GetTagFieldNumber_MakeTag Let_def simp del: le_bytes.simps)
next
  case (UF_fixed64 k v)
  show ?case
    by (rule skip_writesI) (auto simp: ReadLittleEndian64_def uf_number_ok_def
          GetTagFieldNumber_MakeTag Let_def simp del: le_bytes.simps)
next
  case (UF_length_delimited k s)
  show ?case
    by (rule skip_writesI) (auto simp: cis_ReadVarint32_def ReadVarint32_write ReadString_def
        uf_number_ok_def GetTagFieldNumber_MakeTag Let_def of_nat_small)
next
  case (UF_group k g)
  show ?case
  proof (rule skip_writesI)
    fix m and input :: cis and rest ufs
    assume ok: "uf_ok (100 - recursion_depth input) (UF_group k g)"
      and buf: "cis_buf input = uf_payload (UF_group k g) @ rest"
      and m: "2 * length (cis_buf input) + 1 \<le> m"
    from ok obtain d where d: "100 - recursion_depth input = Suc d"
      and k: "uf_number_ok k" and g: "\<And>f. f \<in> set g \<Longrightarrow> uf_ok d f"
      by (cases "100 - recursion_depth input") auto
    then have dep: "recursion_depth input + 1 \<le> 100" and d': "d = 100 - (recursion_depth input + 1)"
      by auto
    let ?i = "input\<lparr> recursion_depth := recursion_depth input + 1 \<rparr>"
    have "SkipMessage_f m ?i [] =
      Some (True, ?i\<lparr> cis_buf := rest, last_tag := MakeTag k WIRETYPE_END_GROUP \<rparr>, [] @ g)"
      by (rule SkipMessage_write) (use UF_group.IH g k buf m in \<open>auto simp: d'\<close>)
    with k dep show "SkipField_f (Suc m) input (uf_tag (UF_group k g)) ufs =
       Some (True, input\<lparr> cis_buf := rest, last_tag := uf_last (UF_group k g) (last_tag input) \<rparr>,
         ufs @ [UF_group k g])"
      by (simp add: IncrementRecursionDepth_def DecrementRecursionDepth_def LastTagWas_def Let_def
          uf_number_ok_def GetTagFieldNumber_MakeTag)
  qed
qed

theorem SkipField_write:
  assumes "uf_ok (100 - recursion_depth input) f" and "cis_buf input = uf_payload f @ rest"
  shows "SkipField input (uf_tag f) ufs =
    Some (True, input\<lparr> cis_buf := rest, last_tag := uf_last f (last_tag input) \<rparr>, ufs @ [f])"
  using skip_writes_all [of f] assms by (simp add: SkipField_def skip_writes_def del: SkipField_f.simps)

end
