(* ===== verification/GF_Message.thy ===== *)
theory GF_Message
  imports GF_WireFormat
begin

text \<open>
  What the generated message classes share: the members every class declares, the parse
  loop \<open>protoc\<close> emits in each \<open>MergePartialFromCodedStream\<close>, and the entry points of
  \<open>src/include/google/protobuf/message_lite.cc\<close> that the network layer calls through the
  virtual functions of a message (\<open>ParseFromArray\<close>, \<open>SerializeToArray\<close>).

  The contract of a message class is the locale \<open>pb_message\<close>; \<open>int32_message\<close> (one
  required \<open>int32\<close> field) and \<open>empty_message\<close> (no field) give it. The classes of
  \<open>Regist.pb.cpp\<close> and \<open>Shutdown.pb.cpp\<close> interpret these.
\<close>

section \<open>Members common to all classes\<close>

record pb_base =
  unknown_fields :: UnknownFieldSet
  has_bits :: u32
  cached_size :: nat

text \<open>\<open>memset(_has_bits_, 0, ...)\<close> and \<open>mutable_unknown_fields()->Clear()\<close>.\<close>

definition clear_base :: "'a pb_base_scheme \<Rightarrow> 'a pb_base_scheme" where
  "clear_base m = m\<lparr> has_bits := 0, unknown_fields := [] \<rparr>"

definition UnknownFieldSet_MergeFrom :: "UnknownFieldSet \<Rightarrow> UnknownFieldSet \<Rightarrow> UnknownFieldSet" where
  "UnknownFieldSet_MergeFrom other this = this @ other"

definition SetCachedSize :: "nat \<Rightarrow> 'a pb_base_scheme \<Rightarrow> 'a pb_base_scheme" where
  "SetCachedSize k m = m\<lparr> cached_size := k \<rparr>"

section \<open>The parse loop\<close>

text \<open>How the \<open>switch\<close> of a class leaves: to \<open>handle_unusual\<close>, to \<open>failure\<close>, or with a
  field read.\<close>

datatype 'm switch_exit = Handle_unusual | Failure cis 'm | Field_read cis 'm

text \<open>The \<open>for (;;)\<close> loop, with the \<open>switch\<close> of the class as an argument. The fuel counts
  iterations; every iteration that continues has read a tag.\<close>

fun parse_loop :: "(u32 \<Rightarrow> cis \<Rightarrow> 'a pb_base_scheme \<Rightarrow> 'a pb_base_scheme switch_exit) \<Rightarrow>
    nat \<Rightarrow> cis \<Rightarrow> 'a pb_base_scheme \<Rightarrow> (bool \<times> cis \<times> 'a pb_base_scheme) option" where
  "parse_loop switch 0 input m = None"
| "parse_loop switch (Suc n) input m =
     (case ReadTagWithCutoff input 127 of
        ((tag, below), input1) \<Rightarrow>
          (case (if below then switch tag input1 m else Handle_unusual) of
             Failure input2 m2 \<Rightarrow> Some (False, input2, m2)
           | Field_read input2 m2 \<Rightarrow>
               (case ExpectAtEnd input2 of
                  (True, input3) \<Rightarrow> Some (True, input3, m2)
                | (False, input3) \<Rightarrow> parse_loop switch n input3 m2)
           | Handle_unusual \<Rightarrow>
               if tag = 0 \<or> GetTagWireType tag = Some WIRETYPE_END_GROUP
               then Some (True, input1, m)
               else (case SkipField input1 tag (unknown_fields m) of
                       None \<Rightarrow> None
                     | Some (False, input2, ufs) \<Rightarrow> Some (False, input2, m\<lparr> unknown_fields := ufs \<rparr>)
                     | Some (True, input2, ufs) \<Rightarrow>
                         parse_loop switch n input2 (m\<lparr> unknown_fields := ufs \<rparr>))))"

definition run_parse_loop :: "(u32 \<Rightarrow> cis \<Rightarrow> 'a pb_base_scheme \<Rightarrow> 'a pb_base_scheme switch_exit) \<Rightarrow>
    cis \<Rightarrow> 'a pb_base_scheme \<Rightarrow> (bool \<times> cis \<times> 'a pb_base_scheme) option" where
  "run_parse_loop switch input m = parse_loop switch (length (cis_buf input) + 1) input m"

section \<open>The entry points of MessageLite\<close>

text \<open>The virtual functions the entry points call.\<close>

record 'm message_vtable =
  vt_Clear :: "'m \<Rightarrow> 'm"
  vt_MergePartialFromCodedStream :: "cis \<Rightarrow> 'm \<Rightarrow> (bool \<times> cis \<times> 'm) option"
  vt_IsInitialized :: "'m \<Rightarrow> bool"
  vt_ByteSize :: "'m \<Rightarrow> nat \<times> 'm"
  vt_SerializeWithCachedSizes :: "'m \<Rightarrow> byte list \<Rightarrow> byte list"
  vt_SerializeWithCachedSizesToArray :: "'m \<Rightarrow> byte list"

definition MergeFromCodedStream :: "'m message_vtable \<Rightarrow> cis \<Rightarrow> 'm \<Rightarrow> (bool \<times> cis \<times> 'm) res" where
  "MergeFromCodedStream vt input m =
     (case vt_MergePartialFromCodedStream vt input m of
        None \<Rightarrow> Inl Spin
      | Some (False, input', m') \<Rightarrow> Inr (False, input', m')
      | Some (True, input', m') \<Rightarrow> Inr (vt_IsInitialized vt m', input', m'))"

definition ParseFromCodedStream :: "'m message_vtable \<Rightarrow> cis \<Rightarrow> 'm \<Rightarrow> (bool \<times> cis \<times> 'm) res" where
  "ParseFromCodedStream vt input m = MergeFromCodedStream vt input (vt_Clear vt m)"

text \<open>The result is the returned flag and the message, which keeps what was read before a
  failure.\<close>

definition ParseFromArray :: "'m message_vtable \<Rightarrow> byte list \<Rightarrow> 'm \<Rightarrow> (bool \<times> 'm) res" where
  "ParseFromArray vt data m =
     bind_res (ParseFromCodedStream vt (CodedInputStream data) m)
       (\<lambda>(ok, input, m'). Inr (ok \<and> ConsumedEntireMessage input, m'))"

text \<open>\<open>None\<close> in the second component: the array is left as it was.\<close>

definition SerializePartialToArray ::
    "'m message_vtable \<Rightarrow> nat \<Rightarrow> 'm \<Rightarrow> (bool \<times> byte list option \<times> 'm) res" where
  "SerializePartialToArray vt count m =
     (case vt_ByteSize vt m of
        (byte_size, m') \<Rightarrow>
          if count < byte_size then Inr (False, None, m')
          else (let written = vt_SerializeWithCachedSizesToArray vt m'
                in if length written \<noteq> byte_size then Inl Check_failed
                   else Inr (True, Some written, m')))"

definition SerializeToArray ::
    "'m message_vtable \<Rightarrow> nat \<Rightarrow> 'm \<Rightarrow> (bool \<times> byte list option \<times> 'm) res" where
  "SerializeToArray vt count m = SerializePartialToArray vt count m"

section \<open>The parse loop terminates\<close>

text \<open>A \<open>switch\<close> only reads, and leaves the tag 0 to \<open>handle_unusual\<close>.\<close>

definition switch_ok :: "(u32 \<Rightarrow> cis \<Rightarrow> 'm \<Rightarrow> 'm switch_exit) \<Rightarrow> bool" where
  "switch_ok switch \<longleftrightarrow> (\<forall>tag i m i2 m2.
     switch tag i m = Failure i2 m2 \<or> switch tag i m = Field_read i2 m2 \<longrightarrow>
     shrinks i i2 \<and> tag \<noteq> 0)"

lemma switch_okD:
  "switch_ok switch \<Longrightarrow> switch tag i m = Failure i2 m2 \<Longrightarrow> shrinks i i2 \<and> tag \<noteq> 0"
  "switch_ok switch \<Longrightarrow> switch tag i m = Field_read i2 m2 \<Longrightarrow> shrinks i i2 \<and> tag \<noteq> 0"
  by (auto simp: switch_ok_def)

lemma parse_loop_total:
  assumes "switch_ok switch"
    and "length (cis_buf input) < n"
  shows "\<exists>ok input' m'. parse_loop switch n input m = Some (ok, input', m') \<and> shrinks input input'"
  using assms(2)
proof (induction n arbitrary: input m)
  case (Suc n)
  obtain tag below input1 where r: "ReadTagWithCutoff input 127 = ((tag, below), input1)"
    by (metis prod.exhaust)
  note s1 = ReadTagWithCutoff_shrinks [OF r]
  show ?case
  proof (cases "if below then switch tag input1 m else Handle_unusual")
    case Handle_unusual
    show ?thesis
    proof (cases "tag = 0 \<or> GetTagWireType tag = Some WIRETYPE_END_GROUP")
      case False
      obtain ok input2 ufs where f: "SkipField input1 tag (unknown_fields m) = Some (ok, input2, ufs)"
        "shrinks input1 input2" using SkipField_total by blast
      have s2: "shrinks input input2" using s1 f(2) shrinks_trans by blast
      have "length (cis_buf input2) < n"
        using s1 f(2) False Suc.prems by (auto simp: shrinks_def)
      from Suc.IH [OF this, of "m\<lparr> unknown_fields := ufs \<rparr>"] s2 show ?thesis
        using r Handle_unusual False f by (cases ok) (auto intro: shrinks_trans)
    qed (use r Handle_unusual s1 in auto)
  next
    case (Failure i2 m2)
    then have "shrinks input1 i2" using switch_okD(1) [OF assms(1)] by (auto split: if_splits)
    with s1 have "shrinks input i2" using shrinks_trans by blast
    with Failure r show ?thesis by auto
  next
    case (Field_read i2 m2)
    then have s2: "shrinks input1 i2" "tag \<noteq> 0"
      using switch_okD(2) [OF assms(1)] by (auto split: if_splits)
    show ?thesis
    proof (cases "cis_buf i2 = []")
      case True
      then show ?thesis using r Field_read s1 s2 by (auto simp: ExpectAtEnd_def shrinks_def)
    next
      case False
      have "length (cis_buf i2) < n" using s1 s2 Suc.prems by (auto simp: shrinks_def)
      moreover have "shrinks input i2" using s1 s2 shrinks_trans by blast
      ultimately show ?thesis
        using Suc.IH [of i2 m2] r Field_read False by (auto simp: ExpectAtEnd_def intro: shrinks_trans)
    qed
  qed
qed simp

lemma run_parse_loop_total:
  assumes "switch_ok switch"
  shows "\<exists>r. run_parse_loop switch input m = Some r"
  using parse_loop_total [OF assms, of input "length (cis_buf input) + 1" m]
  by (auto simp: run_parse_loop_def simp del: parse_loop.simps)

section \<open>The parse loop reads back what was written\<close>

text \<open>At the end of the data.\<close>

lemma ReadTagWithCutoff_end:
  "cis_buf input = [] \<Longrightarrow> cis_size input \<le> kDefaultTotalBytesLimit \<Longrightarrow>
   ReadTagWithCutoff input 127 =
     ((0, False), input\<lparr> last_tag := 0, legitimate_message_end := True \<rparr>)"
  by (auto simp: ReadTagWithCutoff_def ReadTagFallback_def ReadTagSlow_def safe_unrolled_def Let_def)

lemma Serialize_Nil_iff [simp]: "SerializeUnknownFieldsToArray fs = [] \<longleftrightarrow> fs = []"
proof (cases fs)
  case (Cons f gs)
  then show ?thesis using length_WriteTagToArray_pos [of "uf_tag f"] by (simp add: Serialize_split)
qed simp

lemma parse_loop_unknown:
  assumes "\<And>f i m. f \<in> set fs \<Longrightarrow> switch (uf_tag f) i m = Handle_unusual"
    and "\<And>f. f \<in> set fs \<Longrightarrow> uf_ok 100 f" and "cis_buf input = SerializeUnknownFieldsToArray fs"
    and "cis_size input \<le> kDefaultTotalBytesLimit" and "recursion_depth input = 0"
    and "length (cis_buf input) < n"
  shows "parse_loop switch n input m =
    Some (True, input\<lparr> cis_buf := [], last_tag := 0, legitimate_message_end := True \<rparr>,
      m\<lparr> unknown_fields := unknown_fields m @ fs \<rparr>)"
  using assms
proof (induction fs arbitrary: input m n)
  case Nil
  then obtain k where "n = Suc k" by (cases n) auto
  with Nil show ?case by (simp add: ReadTagWithCutoff_end)
next
  case (Cons f fs)
  let ?t = "uf_tag f" and ?r = "SerializeUnknownFieldsToArray fs"
  have buf: "cis_buf input = WriteTagToArray ?t @ uf_payload f @ ?r"
    using Cons.prems(3) by (simp add: Serialize_split)
  then have "ReadVarint64Slow (cis_buf input) = (Some (ucast ?t), uf_payload f @ ?r)"
    by (simp only: ReadVarint64Slow_tag append_assoc)
  note r = ReadTagWithCutoff_slow [OF this, simplified]
  have ok: "uf_ok 100 f" using Cons.prems(2) by simp
  note t = uf_ok_number [OF ok]
  obtain k where n: "n = Suc k" using Cons.prems(6) by (cases n) auto
  let ?i = "input\<lparr> cis_buf := uf_payload f @ ?r, last_tag := ?t \<rparr>"
  let ?j = "?i\<lparr> cis_buf := ?r, last_tag := uf_last f (last_tag ?i) \<rparr>"
  have "SkipField ?i ?t (unknown_fields m) = Some (True, ?j, unknown_fields m @ [f])"
    by (rule SkipField_write) (use ok Cons.prems(5) in auto)
  moreover have "parse_loop switch k ?j (m\<lparr> unknown_fields := unknown_fields m @ [f] \<rparr>) =
    Some (True, ?j\<lparr> cis_buf := [], last_tag := 0, legitimate_message_end := True \<rparr>,
      m\<lparr> unknown_fields := unknown_fields m @ f # fs \<rparr>)"
  proof (subst Cons.IH)
    have "length ?r < length (cis_buf input)"
      using length_WriteTagToArray_pos [of ?t] by (auto simp: buf)
    then show "length (cis_buf ?j) < k" using Cons.prems(6) n by simp
  qed (use Cons.prems in auto)
  moreover have "switch ?t ?i m = Handle_unusual" using Cons.prems(1) by simp
  ultimately show ?case using n t r by (simp del: uf_ok.simps)
qed

section \<open>The contract of a message class\<close>

text \<open>What the network layer relies on. \<open>wf\<close> are the messages a sender can build (the
  required field is set, the unknown fields are ones a parser can produce).\<close>

locale pb_message =
  fixes vt :: "'a pb_base_scheme message_vtable"
    and wf :: "'a pb_base_scheme \<Rightarrow> bool"
  assumes merge_total: "\<exists>r. vt_MergePartialFromCodedStream vt input m = Some r"
    and byte_size: "vt_ByteSize vt m =
      (length (vt_SerializeWithCachedSizesToArray vt m),
       m\<lparr> cached_size := length (vt_SerializeWithCachedSizesToArray vt m) \<rparr>)"
    and serialize_cached: "vt_SerializeWithCachedSizesToArray vt (m\<lparr> cached_size := k \<rparr>)
      = vt_SerializeWithCachedSizesToArray vt m"
    and serialize_stream: "vt_SerializeWithCachedSizes vt m output
      = output @ vt_SerializeWithCachedSizesToArray vt m"
    and merge_write: "wf m \<Longrightarrow> vt_SerializeWithCachedSizesToArray vt m = data \<Longrightarrow>
      length data \<le> kDefaultTotalBytesLimit \<Longrightarrow>
      \<exists>input. vt_MergePartialFromCodedStream vt (CodedInputStream data) (vt_Clear vt m0)
        = Some (True, input, m\<lparr> cached_size := cached_size m0 \<rparr>) \<and> ConsumedEntireMessage input"
    and wf_initialized: "wf m \<Longrightarrow> vt_IsInitialized vt (m\<lparr> cached_size := k \<rparr>)"
begin

lemma ParseFromArray_total: "\<exists>ok m'. ParseFromArray vt data m = Inr (ok, m')"
proof -
  obtain ok input m' where "vt_MergePartialFromCodedStream vt (CodedInputStream data) (vt_Clear vt m)
      = Some (ok, input, m')"
    using merge_total by (metis prod.exhaust)
  then show ?thesis
    by (cases ok) (auto simp: ParseFromArray_def ParseFromCodedStream_def MergeFromCodedStream_def)
qed

lemma ParseFromArray_write:
  assumes "wf m" and "length (vt_SerializeWithCachedSizesToArray vt m) \<le> kDefaultTotalBytesLimit"
  shows "ParseFromArray vt (vt_SerializeWithCachedSizesToArray vt m) m0
    = Inr (True, m\<lparr> cached_size := cached_size m0 \<rparr>)"
  using merge_write [OF assms(1) refl assms(2), of m0] wf_initialized [OF assms(1)]
  by (auto simp: ParseFromArray_def ParseFromCodedStream_def MergeFromCodedStream_def)

lemma SerializeToArray_fits:
  "length (vt_SerializeWithCachedSizesToArray vt m) \<le> count \<Longrightarrow>
   SerializeToArray vt count m = Inr (True, Some (vt_SerializeWithCachedSizesToArray vt m),
     m\<lparr> cached_size := length (vt_SerializeWithCachedSizesToArray vt m) \<rparr>)"
  by (simp add: SerializeToArray_def SerializePartialToArray_def byte_size serialize_cached Let_def)

lemma SerializeToArray_small:
  "count < length (vt_SerializeWithCachedSizesToArray vt m) \<Longrightarrow>
   SerializeToArray vt count m = Inr (False, None,
     m\<lparr> cached_size := length (vt_SerializeWithCachedSizesToArray vt m) \<rparr>)"
  by (simp add: SerializeToArray_def SerializePartialToArray_def byte_size)

lemma SerializeToArray_total: "\<exists>r. SerializeToArray vt count m = Inr r"
  by (cases "length (vt_SerializeWithCachedSizesToArray vt m) \<le> count")
     (auto simp: SerializeToArray_fits SerializeToArray_small not_le)

end

section \<open>Classes with one required int32 field, and with none\<close>

text \<open>The \<open>switch\<close> of a class whose only field is \<open>int32\<close> number 1: \<open>put\<close> stores the value
  read and sets its bit.\<close>

definition int32_switch :: "(u32 \<Rightarrow> 'm \<Rightarrow> 'm) \<Rightarrow> u32 \<Rightarrow> cis \<Rightarrow> 'm \<Rightarrow> 'm switch_exit" where
  "int32_switch put tag input m =
     (if GetTagFieldNumber tag = 1 then
        if tag = 8 then
          (case cis_ReadVarint32 input of
             (None, input') \<Rightarrow> Failure input' m
           | (Some v, input') \<Rightarrow> Field_read input' (put v m))
        else Handle_unusual
      else Handle_unusual)"

definition no_switch :: "u32 \<Rightarrow> cis \<Rightarrow> 'm \<Rightarrow> 'm switch_exit" where
  "no_switch tag input m = Handle_unusual"

lemma int32_switch_ok: "switch_ok (int32_switch put)"
  by (auto simp: switch_ok_def int32_switch_def split: if_splits prod.splits option.splits
      dest: shrinks_reads(2))

lemma no_switch_ok: "switch_ok no_switch"
  by (simp add: switch_ok_def no_switch_def)

text \<open>The messages that survive the wire: only the bit of the field is set, unknown fields are
  well-formed and none of them carries the tag of the field.\<close>

definition int32_wf :: "'a pb_base_scheme \<Rightarrow> bool" where
  "int32_wf m \<longleftrightarrow> has_bits m = 1 \<and> (\<forall>f \<in> set (unknown_fields m). uf_ok 100 f \<and> uf_tag f \<noteq> 8)"

definition empty_wf :: "'a pb_base_scheme \<Rightarrow> bool" where
  "empty_wf m \<longleftrightarrow> has_bits m = 0 \<and> (\<forall>f \<in> set (unknown_fields m). uf_ok 100 f)"

locale int32_message =
  fixes vt :: "'a pb_base_scheme message_vtable"
    and get :: "'a pb_base_scheme \<Rightarrow> u32"
    and put :: "u32 \<Rightarrow> 'a pb_base_scheme \<Rightarrow> 'a pb_base_scheme"
  assumes merge: "vt_MergePartialFromCodedStream vt = run_parse_loop (int32_switch put)"
    and array: "vt_SerializeWithCachedSizesToArray vt m =
      (if has_bits m AND 1 \<noteq> 0 then WriteInt32ToArray 1 (get m) else []) @
      SerializeUnknownFieldsToArray (unknown_fields m)"
    and stream: "vt_SerializeWithCachedSizes vt m output =
      output @ (if has_bits m AND 1 \<noteq> 0 then WriteInt32ToArray 1 (get m) else []) @
      SerializeUnknownFieldsToArray (unknown_fields m)"
    and sizes: "vt_ByteSize vt m =
      (let k = (if has_bits m AND 1 \<noteq> 0 then 1 + VarintSize32SignExtended (get m) else 0) +
         ComputeUnknownFieldsSize (unknown_fields m) in (k, m\<lparr> cached_size := k \<rparr>))"
    and initialized: "vt_IsInitialized vt m \<longleftrightarrow> has_bits m AND 1 = 1"
    and get_cached: "get (m\<lparr> cached_size := k \<rparr>) = get m"
    and put_unknown: "unknown_fields (put v m) = unknown_fields m"
    and put_clear: "has_bits m = 1 \<Longrightarrow>
      (put (get m) (vt_Clear vt m0))\<lparr> unknown_fields := unknown_fields m \<rparr>
        = m\<lparr> cached_size := cached_size m0 \<rparr>"
    and clear_unknown: "unknown_fields (vt_Clear vt m0) = []"
begin

lemma tag_array: "WriteTagTypeToArray 1 WIRETYPE_VARINT = [8]"
  by (simp add: WriteTagTypeToArray_def WriteTagToArray_def MakeTag_def)

lemma int32_merge_write:
  assumes "int32_wf m" and "vt_SerializeWithCachedSizesToArray vt m = data"
    and "length data \<le> kDefaultTotalBytesLimit"
  shows "\<exists>input. vt_MergePartialFromCodedStream vt (CodedInputStream data) (vt_Clear vt m0)
        = Some (True, input, m\<lparr> cached_size := cached_size m0 \<rparr>) \<and> ConsumedEntireMessage input"
proof -
  let ?u = "SerializeUnknownFieldsToArray (unknown_fields m)"
  let ?w = "WriteVarint32SignExtendedToArray (get m)"
  let ?m1 = "put (get m) (vt_Clear vt m0)"
  have data: "data = 8 # ?w @ ?u"
    using assms(1,2) by (simp add: array int32_wf_def WriteInt32ToArray_def tag_array)
  let ?i = "CodedInputStream data"
  let ?i1 = "?i\<lparr> cis_buf := ?w @ ?u, last_tag := 8 \<rparr>"
  let ?i2 = "?i1\<lparr> cis_buf := ?u \<rparr>"
  have tag: "ReadTagWithCutoff ?i 127 = ((8, True), ?i1)"
    by (simp add: ReadTagWithCutoff_def CodedInputStream_def data)
  have field: "int32_switch put 8 ?i1 (vt_Clear vt m0) = Field_read ?i2 ?m1"
    by (simp add: int32_switch_def GetTagFieldNumber_def cis_ReadVarint32_def ReadVarint32_write_int32)
  have fin: "m\<lparr> cached_size := cached_size m0 \<rparr> = ?m1\<lparr> unknown_fields := unknown_fields m \<rparr>"
    using assms(1) put_clear by (simp add: int32_wf_def)
  have unk: "parse_loop (int32_switch put) (length data) ?i2 ?m1 =
    Some (True, ?i2\<lparr> cis_buf := [], last_tag := 0, legitimate_message_end := True \<rparr>,
      ?m1\<lparr> unknown_fields := unknown_fields ?m1 @ unknown_fields m \<rparr>)"
    by (rule parse_loop_unknown)
       (use assms(1,3) in \<open>auto simp: int32_wf_def int32_switch_def CodedInputStream_def data\<close>)
  have "run_parse_loop (int32_switch put) ?i (vt_Clear vt m0) =
    (case ExpectAtEnd ?i2 of (True, i3) \<Rightarrow> Some (True, i3, ?m1)
     | (False, i3) \<Rightarrow> parse_loop (int32_switch put) (length data) i3 ?m1)"
    using tag field by (simp add: run_parse_loop_def CodedInputStream_def)
  moreover have "?m1\<lparr> unknown_fields := [] \<rparr> = ?m1"
  proof -
    have "unknown_fields ?m1 = []" by (simp add: put_unknown clear_unknown)
    then show ?thesis by (metis pb_base.surjective pb_base.update_convs(1))
  qed
  ultimately show ?thesis
    using unk fin
    by (cases "unknown_fields m = []")
       (auto simp: merge ExpectAtEnd_def ConsumedEntireMessage_def put_unknown clear_unknown)
qed

lemma one_field_size: "1 + VarintSize32SignExtended v = length (WriteInt32ToArray 1 v)"
  by (simp add: WriteInt32ToArray_def tag_array VarintSize32SignExtended_length)

end

sublocale int32_message \<subseteq> pb_message vt int32_wf
proof
  show "\<exists>r. vt_MergePartialFromCodedStream vt input m = Some r" for input m
    unfolding merge by (rule run_parse_loop_total) (rule int32_switch_ok)
  show "vt_ByteSize vt m =
      (length (vt_SerializeWithCachedSizesToArray vt m),
       m\<lparr> cached_size := length (vt_SerializeWithCachedSizesToArray vt m) \<rparr>)" for m
    by (simp add: sizes array one_field_size [simplified] ComputeUnknownFieldsSize_length Let_def)
qed (auto simp: array stream get_cached initialized int32_wf_def intro: int32_merge_write)

locale empty_message =
  fixes vt :: "'a pb_base_scheme message_vtable"
  assumes merge: "vt_MergePartialFromCodedStream vt = run_parse_loop no_switch"
    and array: "vt_SerializeWithCachedSizesToArray vt m =
      SerializeUnknownFieldsToArray (unknown_fields m)"
    and stream: "vt_SerializeWithCachedSizes vt m output =
      output @ SerializeUnknownFieldsToArray (unknown_fields m)"
    and sizes: "vt_ByteSize vt m =
      (ComputeUnknownFieldsSize (unknown_fields m),
       m\<lparr> cached_size := ComputeUnknownFieldsSize (unknown_fields m) \<rparr>)"
    and initialized: "vt_IsInitialized vt m"
    and cleared: "has_bits m = 0 \<Longrightarrow>
      (vt_Clear vt m0)\<lparr> unknown_fields := unknown_fields m \<rparr>
        = m\<lparr> cached_size := cached_size m0 \<rparr>"
    and clear_unknown: "unknown_fields (vt_Clear vt m0) = []"

sublocale empty_message \<subseteq> pb_message vt empty_wf
proof
  show "\<exists>r. vt_MergePartialFromCodedStream vt input m = Some r" for input m
    unfolding merge by (rule run_parse_loop_total) (rule no_switch_ok)
  show "\<exists>input. vt_MergePartialFromCodedStream vt (CodedInputStream data) (vt_Clear vt m0)
        = Some (True, input, m\<lparr> cached_size := cached_size m0 \<rparr>) \<and> ConsumedEntireMessage input"
    if "empty_wf m" "vt_SerializeWithCachedSizesToArray vt m = data"
      "length data \<le> kDefaultTotalBytesLimit" for m data m0
    unfolding merge run_parse_loop_def
    by (subst parse_loop_unknown [of "unknown_fields m"])
       (use that cleared in \<open>auto simp: empty_wf_def no_switch_def array CodedInputStream_def
          ConsumedEntireMessage_def clear_unknown\<close>)
qed (auto simp: array stream sizes initialized ComputeUnknownFieldsSize_length)

text \<open>Facts the classes with one field use to interpret \<open>int32_message\<close>.\<close>

lemma has_low_bits: "(w :: u32) AND 1 \<noteq> 0 \<Longrightarrow> w AND 0xff \<noteq> 0"
proof
  assume w: "w AND 1 \<noteq> 0" and z: "w AND 0xff = 0"
  have "w AND 1 = (w AND 0xff) AND 1" by (simp add: and.assoc)
  with w z show False by simp
qed

lemma and_one: "(w :: u32) AND 1 = 1 \<longleftrightarrow> w AND 1 \<noteq> 0"
  by (simp add: and_one_eq)

lemmas one_int32_simps = SerializeUnknownFields_array WriteInt32ToArray_def WriteTagTypeToArray_def
  writer_slow has_low_bits and_one

end
