(* ===== verification/GF_Regist.thy ===== *)
theory GF_Regist
  imports GF_Message
begin

text \<open>
  The classes protoc generated in \<open>src/src/protocol/msg/Regist.pb.{h,cpp}\<close>:
  \<open>Regist_Req\<close> and \<open>Regist_Res\<close>, each with one required \<open>int32\<close> field, and the field-less
  \<open>Regist\<close>. Each class interprets the contract of \<open>GF_Message\<close>.
\<close>

section \<open>Regist_Req\<close>

record Regist_Req = pb_base +
  my_id :: u32

text \<open>The constructors (\<open>SharedCtor\<close>) and the inline accessors of the header.\<close>

definition Regist_Req_SharedCtor :: Regist_Req where
  "Regist_Req_SharedCtor = \<lparr> unknown_fields = [], has_bits = 0, cached_size = 0, my_id = 0 \<rparr>"

definition Regist_Req_has_my_id :: "Regist_Req \<Rightarrow> bool" where
  "Regist_Req_has_my_id m = (has_bits m AND 0x00000001 \<noteq> 0)"

definition Regist_Req_set_has_my_id :: "Regist_Req \<Rightarrow> Regist_Req" where
  "Regist_Req_set_has_my_id m = m\<lparr> has_bits := has_bits m OR 0x00000001 \<rparr>"

definition Regist_Req_clear_has_my_id :: "Regist_Req \<Rightarrow> Regist_Req" where
  "Regist_Req_clear_has_my_id m = m\<lparr> has_bits := has_bits m AND NOT 0x00000001 \<rparr>"

definition Regist_Req_clear_my_id :: "Regist_Req \<Rightarrow> Regist_Req" where
  "Regist_Req_clear_my_id m = Regist_Req_clear_has_my_id (m\<lparr> my_id := 0 \<rparr>)"

definition Regist_Req_set_my_id :: "u32 \<Rightarrow> Regist_Req \<Rightarrow> Regist_Req" where
  "Regist_Req_set_my_id value m = (Regist_Req_set_has_my_id m)\<lparr> my_id := value \<rparr>"

definition Regist_Req_Clear :: "Regist_Req \<Rightarrow> Regist_Req" where
  "Regist_Req_Clear m = m\<lparr> my_id := 0, has_bits := 0, unknown_fields := [] \<rparr>"

definition Regist_Req_MergePartialFromCodedStream :: "cis \<Rightarrow> Regist_Req \<Rightarrow> (bool \<times> cis \<times> Regist_Req) option" where
  "Regist_Req_MergePartialFromCodedStream =
     run_parse_loop (\<lambda>tag input m.
       if GetTagFieldNumber tag = 1 then
         if tag = 8 then
           (case cis_ReadVarint32 input of
              (None, input') \<Rightarrow> Failure input' m
            | (Some v, input') \<Rightarrow> Field_read input' (Regist_Req_set_has_my_id (m\<lparr> my_id := v \<rparr>)))
         else Handle_unusual
       else Handle_unusual)"

definition Regist_Req_SerializeWithCachedSizes :: "Regist_Req \<Rightarrow> byte list \<Rightarrow> byte list" where
  "Regist_Req_SerializeWithCachedSizes m output =
     (let output1 = (if Regist_Req_has_my_id m
                     then output @ WriteVarint32FallbackToArrayInline (MakeTag 1 WIRETYPE_VARINT) @
                          WriteVarint32SignExtendedToArray (my_id m)
                     else output)
      in if unknown_fields m \<noteq> [] then SerializeUnknownFields (unknown_fields m) output1
         else output1)"

definition Regist_Req_SerializeWithCachedSizesToArray :: "Regist_Req \<Rightarrow> byte list" where
  "Regist_Req_SerializeWithCachedSizesToArray m =
     (if Regist_Req_has_my_id m then WriteInt32ToArray 1 (my_id m) else []) @
     (if unknown_fields m \<noteq> [] then SerializeUnknownFieldsToArray (unknown_fields m) else [])"

definition Regist_Req_ByteSize :: "Regist_Req \<Rightarrow> nat \<times> Regist_Req" where
  "Regist_Req_ByteSize m =
     (let total_size = (if has_bits m AND 0xff \<noteq> 0
                        then (if Regist_Req_has_my_id m then 1 + VarintSize32SignExtended (my_id m) else 0)
                        else 0);
          total_size = (if unknown_fields m \<noteq> []
                        then total_size + ComputeUnknownFieldsSize (unknown_fields m) else total_size)
      in (total_size, m\<lparr> cached_size := total_size \<rparr>))"

text \<open>\<open>same\<close>: \<open>from\<close> and \<open>this\<close> are one object.\<close>

definition Regist_Req_MergeFrom :: "bool \<Rightarrow> Regist_Req \<Rightarrow> Regist_Req \<Rightarrow> Regist_Req res" where
  "Regist_Req_MergeFrom same other this =
     (if same then Inl Check_failed
      else (let this1 = (if has_bits other AND 0xff \<noteq> 0
                         then (if Regist_Req_has_my_id other then Regist_Req_set_my_id (my_id other) this else this)
                         else this)
            in Inr (this1\<lparr> unknown_fields :=
                 UnknownFieldSet_MergeFrom (unknown_fields other) (unknown_fields this1) \<rparr>)))"

definition Regist_Req_CopyFrom :: "bool \<Rightarrow> Regist_Req \<Rightarrow> Regist_Req \<Rightarrow> Regist_Req res" where
  "Regist_Req_CopyFrom same other this =
     (if same then Inr this else Regist_Req_MergeFrom False other (Regist_Req_Clear this))"

definition Regist_Req_copy :: "Regist_Req \<Rightarrow> Regist_Req res" where
  "Regist_Req_copy other = Regist_Req_MergeFrom False other Regist_Req_SharedCtor"

definition Regist_Req_IsInitialized :: "Regist_Req \<Rightarrow> bool" where
  "Regist_Req_IsInitialized m = (has_bits m AND 0x00000001 = 0x00000001)"

definition Regist_Req_Swap :: "Regist_Req \<Rightarrow> Regist_Req \<Rightarrow> Regist_Req \<times> Regist_Req" where
  "Regist_Req_Swap this other =
     (this\<lparr> my_id := my_id other, has_bits := has_bits other,
           unknown_fields := unknown_fields other, cached_size := cached_size other \<rparr>,
      other\<lparr> my_id := my_id this, has_bits := has_bits this,
            unknown_fields := unknown_fields this, cached_size := cached_size this \<rparr>)"

definition Regist_Req_vtable :: "Regist_Req message_vtable" where
  "Regist_Req_vtable =
     \<lparr> vt_Clear = Regist_Req_Clear,
       vt_MergePartialFromCodedStream = Regist_Req_MergePartialFromCodedStream,
       vt_IsInitialized = Regist_Req_IsInitialized,
       vt_ByteSize = Regist_Req_ByteSize,
       vt_SerializeWithCachedSizes = Regist_Req_SerializeWithCachedSizes,
       vt_SerializeWithCachedSizesToArray = Regist_Req_SerializeWithCachedSizesToArray \<rparr>"

section \<open>Regist_Res\<close>

record Regist_Res = pb_base +
  regist_code :: u32

text \<open>The constructors (\<open>SharedCtor\<close>) and the inline accessors of the header.\<close>

definition Regist_Res_SharedCtor :: Regist_Res where
  "Regist_Res_SharedCtor = \<lparr> unknown_fields = [], has_bits = 0, cached_size = 0, regist_code = 0 \<rparr>"

definition Regist_Res_has_code :: "Regist_Res \<Rightarrow> bool" where
  "Regist_Res_has_code m = (has_bits m AND 0x00000001 \<noteq> 0)"

definition Regist_Res_set_has_code :: "Regist_Res \<Rightarrow> Regist_Res" where
  "Regist_Res_set_has_code m = m\<lparr> has_bits := has_bits m OR 0x00000001 \<rparr>"

definition Regist_Res_clear_has_code :: "Regist_Res \<Rightarrow> Regist_Res" where
  "Regist_Res_clear_has_code m = m\<lparr> has_bits := has_bits m AND NOT 0x00000001 \<rparr>"

definition Regist_Res_clear_code :: "Regist_Res \<Rightarrow> Regist_Res" where
  "Regist_Res_clear_code m = Regist_Res_clear_has_code (m\<lparr> regist_code := 0 \<rparr>)"

definition Regist_Res_set_code :: "u32 \<Rightarrow> Regist_Res \<Rightarrow> Regist_Res" where
  "Regist_Res_set_code value m = (Regist_Res_set_has_code m)\<lparr> regist_code := value \<rparr>"

definition Regist_Res_Clear :: "Regist_Res \<Rightarrow> Regist_Res" where
  "Regist_Res_Clear m = m\<lparr> regist_code := 0, has_bits := 0, unknown_fields := [] \<rparr>"

definition Regist_Res_MergePartialFromCodedStream :: "cis \<Rightarrow> Regist_Res \<Rightarrow> (bool \<times> cis \<times> Regist_Res) option" where
  "Regist_Res_MergePartialFromCodedStream =
     run_parse_loop (\<lambda>tag input m.
       if GetTagFieldNumber tag = 1 then
         if tag = 8 then
           (case cis_ReadVarint32 input of
              (None, input') \<Rightarrow> Failure input' m
            | (Some v, input') \<Rightarrow> Field_read input' (Regist_Res_set_has_code (m\<lparr> regist_code := v \<rparr>)))
         else Handle_unusual
       else Handle_unusual)"

definition Regist_Res_SerializeWithCachedSizes :: "Regist_Res \<Rightarrow> byte list \<Rightarrow> byte list" where
  "Regist_Res_SerializeWithCachedSizes m output =
     (let output1 = (if Regist_Res_has_code m
                     then output @ WriteVarint32FallbackToArrayInline (MakeTag 1 WIRETYPE_VARINT) @
                          WriteVarint32SignExtendedToArray (regist_code m)
                     else output)
      in if unknown_fields m \<noteq> [] then SerializeUnknownFields (unknown_fields m) output1
         else output1)"

definition Regist_Res_SerializeWithCachedSizesToArray :: "Regist_Res \<Rightarrow> byte list" where
  "Regist_Res_SerializeWithCachedSizesToArray m =
     (if Regist_Res_has_code m then WriteInt32ToArray 1 (regist_code m) else []) @
     (if unknown_fields m \<noteq> [] then SerializeUnknownFieldsToArray (unknown_fields m) else [])"

definition Regist_Res_ByteSize :: "Regist_Res \<Rightarrow> nat \<times> Regist_Res" where
  "Regist_Res_ByteSize m =
     (let total_size = (if has_bits m AND 0xff \<noteq> 0
                        then (if Regist_Res_has_code m then 1 + VarintSize32SignExtended (regist_code m) else 0)
                        else 0);
          total_size = (if unknown_fields m \<noteq> []
                        then total_size + ComputeUnknownFieldsSize (unknown_fields m) else total_size)
      in (total_size, m\<lparr> cached_size := total_size \<rparr>))"

text \<open>\<open>same\<close>: \<open>from\<close> and \<open>this\<close> are one object.\<close>

definition Regist_Res_MergeFrom :: "bool \<Rightarrow> Regist_Res \<Rightarrow> Regist_Res \<Rightarrow> Regist_Res res" where
  "Regist_Res_MergeFrom same other this =
     (if same then Inl Check_failed
      else (let this1 = (if has_bits other AND 0xff \<noteq> 0
                         then (if Regist_Res_has_code other then Regist_Res_set_code (regist_code other) this else this)
                         else this)
            in Inr (this1\<lparr> unknown_fields :=
                 UnknownFieldSet_MergeFrom (unknown_fields other) (unknown_fields this1) \<rparr>)))"

definition Regist_Res_CopyFrom :: "bool \<Rightarrow> Regist_Res \<Rightarrow> Regist_Res \<Rightarrow> Regist_Res res" where
  "Regist_Res_CopyFrom same other this =
     (if same then Inr this else Regist_Res_MergeFrom False other (Regist_Res_Clear this))"

definition Regist_Res_copy :: "Regist_Res \<Rightarrow> Regist_Res res" where
  "Regist_Res_copy other = Regist_Res_MergeFrom False other Regist_Res_SharedCtor"

definition Regist_Res_IsInitialized :: "Regist_Res \<Rightarrow> bool" where
  "Regist_Res_IsInitialized m = (has_bits m AND 0x00000001 = 0x00000001)"

definition Regist_Res_Swap :: "Regist_Res \<Rightarrow> Regist_Res \<Rightarrow> Regist_Res \<times> Regist_Res" where
  "Regist_Res_Swap this other =
     (this\<lparr> regist_code := regist_code other, has_bits := has_bits other,
           unknown_fields := unknown_fields other, cached_size := cached_size other \<rparr>,
      other\<lparr> regist_code := regist_code this, has_bits := has_bits this,
            unknown_fields := unknown_fields this, cached_size := cached_size this \<rparr>)"

definition Regist_Res_vtable :: "Regist_Res message_vtable" where
  "Regist_Res_vtable =
     \<lparr> vt_Clear = Regist_Res_Clear,
       vt_MergePartialFromCodedStream = Regist_Res_MergePartialFromCodedStream,
       vt_IsInitialized = Regist_Res_IsInitialized,
       vt_ByteSize = Regist_Res_ByteSize,
       vt_SerializeWithCachedSizes = Regist_Res_SerializeWithCachedSizes,
       vt_SerializeWithCachedSizesToArray = Regist_Res_SerializeWithCachedSizesToArray \<rparr>"

section \<open>Regist\<close>

text \<open>The outer message \<open>Regist\<close> only gives its name to the nested ones: no field.\<close>

type_synonym Regist = pb_base

definition Regist_SharedCtor :: Regist where
  "Regist_SharedCtor = \<lparr> unknown_fields = [], has_bits = 0, cached_size = 0 \<rparr>"

definition Regist_Clear :: "Regist \<Rightarrow> Regist" where
  "Regist_Clear m = m\<lparr> has_bits := 0, unknown_fields := [] \<rparr>"

definition Regist_MergePartialFromCodedStream :: "cis \<Rightarrow> Regist \<Rightarrow> (bool \<times> cis \<times> Regist) option" where
  "Regist_MergePartialFromCodedStream = run_parse_loop (\<lambda>tag input m. Handle_unusual)"

definition Regist_SerializeWithCachedSizes :: "Regist \<Rightarrow> byte list \<Rightarrow> byte list" where
  "Regist_SerializeWithCachedSizes m output =
     (if unknown_fields m \<noteq> [] then SerializeUnknownFields (unknown_fields m) output else output)"

definition Regist_SerializeWithCachedSizesToArray :: "Regist \<Rightarrow> byte list" where
  "Regist_SerializeWithCachedSizesToArray m =
     (if unknown_fields m \<noteq> [] then SerializeUnknownFieldsToArray (unknown_fields m) else [])"

definition Regist_ByteSize :: "Regist \<Rightarrow> nat \<times> Regist" where
  "Regist_ByteSize m =
     (let total_size = (if unknown_fields m \<noteq> []
                        then 0 + ComputeUnknownFieldsSize (unknown_fields m) else 0)
      in (total_size, m\<lparr> cached_size := total_size \<rparr>))"

definition Regist_MergeFrom :: "bool \<Rightarrow> Regist \<Rightarrow> Regist \<Rightarrow> Regist res" where
  "Regist_MergeFrom same other this =
     (if same then Inl Check_failed
      else Inr (this\<lparr> unknown_fields :=
             UnknownFieldSet_MergeFrom (unknown_fields other) (unknown_fields this) \<rparr>))"

definition Regist_CopyFrom :: "bool \<Rightarrow> Regist \<Rightarrow> Regist \<Rightarrow> Regist res" where
  "Regist_CopyFrom same other this =
     (if same then Inr this else Regist_MergeFrom False other (Regist_Clear this))"

definition Regist_IsInitialized :: "Regist \<Rightarrow> bool" where
  "Regist_IsInitialized m = True"

definition Regist_Swap :: "Regist \<Rightarrow> Regist \<Rightarrow> Regist \<times> Regist" where
  "Regist_Swap this other =
     (this\<lparr> unknown_fields := unknown_fields other, cached_size := cached_size other \<rparr>,
      other\<lparr> unknown_fields := unknown_fields this, cached_size := cached_size this \<rparr>)"

definition Regist_vtable :: "Regist message_vtable" where
  "Regist_vtable =
     \<lparr> vt_Clear = Regist_Clear,
       vt_MergePartialFromCodedStream = Regist_MergePartialFromCodedStream,
       vt_IsInitialized = Regist_IsInitialized,
       vt_ByteSize = Regist_ByteSize,
       vt_SerializeWithCachedSizes = Regist_SerializeWithCachedSizes,
       vt_SerializeWithCachedSizesToArray = Regist_SerializeWithCachedSizesToArray \<rparr>"

section \<open>The contracts\<close>

lemmas Regist_Req_defs = Regist_Req_SharedCtor_def Regist_Req_has_my_id_def Regist_Req_set_has_my_id_def
  Regist_Req_clear_has_my_id_def Regist_Req_clear_my_id_def Regist_Req_set_my_id_def Regist_Req_Clear_def
  Regist_Req_SerializeWithCachedSizes_def Regist_Req_SerializeWithCachedSizesToArray_def Regist_Req_ByteSize_def
  Regist_Req_IsInitialized_def Regist_Req_vtable_def

lemma Regist_Req_merge: "vt_MergePartialFromCodedStream Regist_Req_vtable =
    run_parse_loop (int32_switch (\<lambda>v m. Regist_Req_set_has_my_id (m\<lparr> my_id := v \<rparr>)))"
  by (simp add: Regist_Req_vtable_def Regist_Req_MergePartialFromCodedStream_def int32_switch_def [abs_def])

interpretation regist_req: int32_message Regist_Req_vtable my_id
  "\<lambda>v m. Regist_Req_set_has_my_id (m\<lparr> my_id := v \<rparr>)"
  by (unfold_locales, rule Regist_Req_merge) (auto simp: Regist_Req_defs one_int32_simps Let_def)

text \<open>\<open>Clear\<close>, then \<open>MergeFrom\<close>: everything but the cached size is copied.\<close>

lemma Regist_Req_CopyFrom_content:
  assumes "has_bits m = 1 \<or> has_bits m = 0 \<and> my_id m = 0"
  shows "Regist_Req_CopyFrom False m this = Inr (m\<lparr> cached_size := cached_size this \<rparr>)"
  using assms by (cases m) (auto simp: Regist_Req_CopyFrom_def Regist_Req_MergeFrom_def Regist_Req_defs
    UnknownFieldSet_MergeFrom_def Let_def)

lemma Regist_Req_Swap_swaps: "Regist_Req_Swap this other = (other, this)"
  by (simp add: Regist_Req_Swap_def)

lemmas Regist_Res_defs = Regist_Res_SharedCtor_def Regist_Res_has_code_def Regist_Res_set_has_code_def
  Regist_Res_clear_has_code_def Regist_Res_clear_code_def Regist_Res_set_code_def Regist_Res_Clear_def
  Regist_Res_SerializeWithCachedSizes_def Regist_Res_SerializeWithCachedSizesToArray_def Regist_Res_ByteSize_def
  Regist_Res_IsInitialized_def Regist_Res_vtable_def

lemma Regist_Res_merge: "vt_MergePartialFromCodedStream Regist_Res_vtable =
    run_parse_loop (int32_switch (\<lambda>v m. Regist_Res_set_has_code (m\<lparr> regist_code := v \<rparr>)))"
  by (simp add: Regist_Res_vtable_def Regist_Res_MergePartialFromCodedStream_def int32_switch_def [abs_def])

interpretation regist_res: int32_message Regist_Res_vtable regist_code
  "\<lambda>v m. Regist_Res_set_has_code (m\<lparr> regist_code := v \<rparr>)"
  by (unfold_locales, rule Regist_Res_merge) (auto simp: Regist_Res_defs one_int32_simps Let_def)

text \<open>\<open>Clear\<close>, then \<open>MergeFrom\<close>: everything but the cached size is copied.\<close>

lemma Regist_Res_CopyFrom_content:
  assumes "has_bits m = 1 \<or> has_bits m = 0 \<and> regist_code m = 0"
  shows "Regist_Res_CopyFrom False m this = Inr (m\<lparr> cached_size := cached_size this \<rparr>)"
  using assms by (cases m) (auto simp: Regist_Res_CopyFrom_def Regist_Res_MergeFrom_def Regist_Res_defs
    UnknownFieldSet_MergeFrom_def Let_def)

lemma Regist_Res_Swap_swaps: "Regist_Res_Swap this other = (other, this)"
  by (simp add: Regist_Res_Swap_def)

interpretation regist: empty_message Regist_vtable
  by unfold_locales
     (auto simp: Regist_vtable_def Regist_Clear_def Regist_SerializeWithCachedSizes_def
        Regist_SerializeWithCachedSizesToArray_def Regist_ByteSize_def Regist_IsInitialized_def
        Regist_MergePartialFromCodedStream_def no_switch_def [abs_def] SerializeUnknownFields_array Let_def)

end
