(* ===== verification/GF_Shutdown.thy ===== *)
theory GF_Shutdown
  imports GF_Message
begin

text \<open>
  The classes protoc generated in \<open>src/src/protocol/msg/Shutdown.pb.{h,cpp}\<close>:
  \<open>Shutdown_Req\<close> and \<open>Shutdown_Res\<close>, each with one required \<open>int32\<close> field, and the field-less
  \<open>Shutdown\<close>. Each class interprets the contract of \<open>GF_Message\<close>.
\<close>

section \<open>Shutdown_Req\<close>

record Shutdown_Req = pb_base +
  shutdown_req_code :: u32

text \<open>The constructors (\<open>SharedCtor\<close>) and the inline accessors of the header.\<close>

definition Shutdown_Req_SharedCtor :: Shutdown_Req where
  "Shutdown_Req_SharedCtor = \<lparr> unknown_fields = [], has_bits = 0, cached_size = 0, shutdown_req_code = 0 \<rparr>"

definition Shutdown_Req_has_code :: "Shutdown_Req \<Rightarrow> bool" where
  "Shutdown_Req_has_code m = (has_bits m AND 0x00000001 \<noteq> 0)"

definition Shutdown_Req_set_has_code :: "Shutdown_Req \<Rightarrow> Shutdown_Req" where
  "Shutdown_Req_set_has_code m = m\<lparr> has_bits := has_bits m OR 0x00000001 \<rparr>"

definition Shutdown_Req_clear_has_code :: "Shutdown_Req \<Rightarrow> Shutdown_Req" where
  "Shutdown_Req_clear_has_code m = m\<lparr> has_bits := has_bits m AND NOT 0x00000001 \<rparr>"

definition Shutdown_Req_clear_code :: "Shutdown_Req \<Rightarrow> Shutdown_Req" where
  "Shutdown_Req_clear_code m = Shutdown_Req_clear_has_code (m\<lparr> shutdown_req_code := 0 \<rparr>)"

definition Shutdown_Req_set_code :: "u32 \<Rightarrow> Shutdown_Req \<Rightarrow> Shutdown_Req" where
  "Shutdown_Req_set_code value m = (Shutdown_Req_set_has_code m)\<lparr> shutdown_req_code := value \<rparr>"

definition Shutdown_Req_Clear :: "Shutdown_Req \<Rightarrow> Shutdown_Req" where
  "Shutdown_Req_Clear m = m\<lparr> shutdown_req_code := 0, has_bits := 0, unknown_fields := [] \<rparr>"

definition Shutdown_Req_MergePartialFromCodedStream :: "cis \<Rightarrow> Shutdown_Req \<Rightarrow> (bool \<times> cis \<times> Shutdown_Req) option" where
  "Shutdown_Req_MergePartialFromCodedStream =
     run_parse_loop (\<lambda>tag input m.
       if GetTagFieldNumber tag = 1 then
         if tag = 8 then
           (case cis_ReadVarint32 input of
              (None, input') \<Rightarrow> Failure input' m
            | (Some v, input') \<Rightarrow> Field_read input' (Shutdown_Req_set_has_code (m\<lparr> shutdown_req_code := v \<rparr>)))
         else Handle_unusual
       else Handle_unusual)"

definition Shutdown_Req_SerializeWithCachedSizes :: "Shutdown_Req \<Rightarrow> byte list \<Rightarrow> byte list" where
  "Shutdown_Req_SerializeWithCachedSizes m output =
     (let output1 = (if Shutdown_Req_has_code m
                     then output @ WriteVarint32FallbackToArrayInline (MakeTag 1 WIRETYPE_VARINT) @
                          WriteVarint32SignExtendedToArray (shutdown_req_code m)
                     else output)
      in if unknown_fields m \<noteq> [] then SerializeUnknownFields (unknown_fields m) output1
         else output1)"

definition Shutdown_Req_SerializeWithCachedSizesToArray :: "Shutdown_Req \<Rightarrow> byte list" where
  "Shutdown_Req_SerializeWithCachedSizesToArray m =
     (if Shutdown_Req_has_code m then WriteInt32ToArray 1 (shutdown_req_code m) else []) @
     (if unknown_fields m \<noteq> [] then SerializeUnknownFieldsToArray (unknown_fields m) else [])"

definition Shutdown_Req_ByteSize :: "Shutdown_Req \<Rightarrow> nat \<times> Shutdown_Req" where
  "Shutdown_Req_ByteSize m =
     (let total_size = (if has_bits m AND 0xff \<noteq> 0
                        then (if Shutdown_Req_has_code m then 1 + VarintSize32SignExtended (shutdown_req_code m) else 0)
                        else 0);
          total_size = (if unknown_fields m \<noteq> []
                        then total_size + ComputeUnknownFieldsSize (unknown_fields m) else total_size)
      in (total_size, m\<lparr> cached_size := total_size \<rparr>))"

text \<open>\<open>same\<close>: \<open>from\<close> and \<open>this\<close> are one object.\<close>

definition Shutdown_Req_MergeFrom :: "bool \<Rightarrow> Shutdown_Req \<Rightarrow> Shutdown_Req \<Rightarrow> Shutdown_Req res" where
  "Shutdown_Req_MergeFrom same other this =
     (if same then Inl Check_failed
      else (let this1 = (if has_bits other AND 0xff \<noteq> 0
                         then (if Shutdown_Req_has_code other then Shutdown_Req_set_code (shutdown_req_code other) this else this)
                         else this)
            in Inr (this1\<lparr> unknown_fields :=
                 UnknownFieldSet_MergeFrom (unknown_fields other) (unknown_fields this1) \<rparr>)))"

definition Shutdown_Req_CopyFrom :: "bool \<Rightarrow> Shutdown_Req \<Rightarrow> Shutdown_Req \<Rightarrow> Shutdown_Req res" where
  "Shutdown_Req_CopyFrom same other this =
     (if same then Inr this else Shutdown_Req_MergeFrom False other (Shutdown_Req_Clear this))"

definition Shutdown_Req_copy :: "Shutdown_Req \<Rightarrow> Shutdown_Req res" where
  "Shutdown_Req_copy other = Shutdown_Req_MergeFrom False other Shutdown_Req_SharedCtor"

definition Shutdown_Req_IsInitialized :: "Shutdown_Req \<Rightarrow> bool" where
  "Shutdown_Req_IsInitialized m = (has_bits m AND 0x00000001 = 0x00000001)"

definition Shutdown_Req_Swap :: "Shutdown_Req \<Rightarrow> Shutdown_Req \<Rightarrow> Shutdown_Req \<times> Shutdown_Req" where
  "Shutdown_Req_Swap this other =
     (this\<lparr> shutdown_req_code := shutdown_req_code other, has_bits := has_bits other,
           unknown_fields := unknown_fields other, cached_size := cached_size other \<rparr>,
      other\<lparr> shutdown_req_code := shutdown_req_code this, has_bits := has_bits this,
            unknown_fields := unknown_fields this, cached_size := cached_size this \<rparr>)"

definition Shutdown_Req_vtable :: "Shutdown_Req message_vtable" where
  "Shutdown_Req_vtable =
     \<lparr> vt_Clear = Shutdown_Req_Clear,
       vt_MergePartialFromCodedStream = Shutdown_Req_MergePartialFromCodedStream,
       vt_IsInitialized = Shutdown_Req_IsInitialized,
       vt_ByteSize = Shutdown_Req_ByteSize,
       vt_SerializeWithCachedSizes = Shutdown_Req_SerializeWithCachedSizes,
       vt_SerializeWithCachedSizesToArray = Shutdown_Req_SerializeWithCachedSizesToArray \<rparr>"

section \<open>Shutdown_Res\<close>

record Shutdown_Res = pb_base +
  shutdown_res_code :: u32

text \<open>The constructors (\<open>SharedCtor\<close>) and the inline accessors of the header.\<close>

definition Shutdown_Res_SharedCtor :: Shutdown_Res where
  "Shutdown_Res_SharedCtor = \<lparr> unknown_fields = [], has_bits = 0, cached_size = 0, shutdown_res_code = 0 \<rparr>"

definition Shutdown_Res_has_code :: "Shutdown_Res \<Rightarrow> bool" where
  "Shutdown_Res_has_code m = (has_bits m AND 0x00000001 \<noteq> 0)"

definition Shutdown_Res_set_has_code :: "Shutdown_Res \<Rightarrow> Shutdown_Res" where
  "Shutdown_Res_set_has_code m = m\<lparr> has_bits := has_bits m OR 0x00000001 \<rparr>"

definition Shutdown_Res_clear_has_code :: "Shutdown_Res \<Rightarrow> Shutdown_Res" where
  "Shutdown_Res_clear_has_code m = m\<lparr> has_bits := has_bits m AND NOT 0x00000001 \<rparr>"

definition Shutdown_Res_clear_code :: "Shutdown_Res \<Rightarrow> Shutdown_Res" where
  "Shutdown_Res_clear_code m = Shutdown_Res_clear_has_code (m\<lparr> shutdown_res_code := 0 \<rparr>)"

definition Shutdown_Res_set_code :: "u32 \<Rightarrow> Shutdown_Res \<Rightarrow> Shutdown_Res" where
  "Shutdown_Res_set_code value m = (Shutdown_Res_set_has_code m)\<lparr> shutdown_res_code := value \<rparr>"

definition Shutdown_Res_Clear :: "Shutdown_Res \<Rightarrow> Shutdown_Res" where
  "Shutdown_Res_Clear m = m\<lparr> shutdown_res_code := 0, has_bits := 0, unknown_fields := [] \<rparr>"

definition Shutdown_Res_MergePartialFromCodedStream :: "cis \<Rightarrow> Shutdown_Res \<Rightarrow> (bool \<times> cis \<times> Shutdown_Res) option" where
  "Shutdown_Res_MergePartialFromCodedStream =
     run_parse_loop (\<lambda>tag input m.
       if GetTagFieldNumber tag = 1 then
         if tag = 8 then
           (case cis_ReadVarint32 input of
              (None, input') \<Rightarrow> Failure input' m
            | (Some v, input') \<Rightarrow> Field_read input' (Shutdown_Res_set_has_code (m\<lparr> shutdown_res_code := v \<rparr>)))
         else Handle_unusual
       else Handle_unusual)"

definition Shutdown_Res_SerializeWithCachedSizes :: "Shutdown_Res \<Rightarrow> byte list \<Rightarrow> byte list" where
  "Shutdown_Res_SerializeWithCachedSizes m output =
     (let output1 = (if Shutdown_Res_has_code m
                     then output @ WriteVarint32FallbackToArrayInline (MakeTag 1 WIRETYPE_VARINT) @
                          WriteVarint32SignExtendedToArray (shutdown_res_code m)
                     else output)
      in if unknown_fields m \<noteq> [] then SerializeUnknownFields (unknown_fields m) output1
         else output1)"

definition Shutdown_Res_SerializeWithCachedSizesToArray :: "Shutdown_Res \<Rightarrow> byte list" where
  "Shutdown_Res_SerializeWithCachedSizesToArray m =
     (if Shutdown_Res_has_code m then WriteInt32ToArray 1 (shutdown_res_code m) else []) @
     (if unknown_fields m \<noteq> [] then SerializeUnknownFieldsToArray (unknown_fields m) else [])"

definition Shutdown_Res_ByteSize :: "Shutdown_Res \<Rightarrow> nat \<times> Shutdown_Res" where
  "Shutdown_Res_ByteSize m =
     (let total_size = (if has_bits m AND 0xff \<noteq> 0
                        then (if Shutdown_Res_has_code m then 1 + VarintSize32SignExtended (shutdown_res_code m) else 0)
                        else 0);
          total_size = (if unknown_fields m \<noteq> []
                        then total_size + ComputeUnknownFieldsSize (unknown_fields m) else total_size)
      in (total_size, m\<lparr> cached_size := total_size \<rparr>))"

text \<open>\<open>same\<close>: \<open>from\<close> and \<open>this\<close> are one object.\<close>

definition Shutdown_Res_MergeFrom :: "bool \<Rightarrow> Shutdown_Res \<Rightarrow> Shutdown_Res \<Rightarrow> Shutdown_Res res" where
  "Shutdown_Res_MergeFrom same other this =
     (if same then Inl Check_failed
      else (let this1 = (if has_bits other AND 0xff \<noteq> 0
                         then (if Shutdown_Res_has_code other then Shutdown_Res_set_code (shutdown_res_code other) this else this)
                         else this)
            in Inr (this1\<lparr> unknown_fields :=
                 UnknownFieldSet_MergeFrom (unknown_fields other) (unknown_fields this1) \<rparr>)))"

definition Shutdown_Res_CopyFrom :: "bool \<Rightarrow> Shutdown_Res \<Rightarrow> Shutdown_Res \<Rightarrow> Shutdown_Res res" where
  "Shutdown_Res_CopyFrom same other this =
     (if same then Inr this else Shutdown_Res_MergeFrom False other (Shutdown_Res_Clear this))"

definition Shutdown_Res_copy :: "Shutdown_Res \<Rightarrow> Shutdown_Res res" where
  "Shutdown_Res_copy other = Shutdown_Res_MergeFrom False other Shutdown_Res_SharedCtor"

definition Shutdown_Res_IsInitialized :: "Shutdown_Res \<Rightarrow> bool" where
  "Shutdown_Res_IsInitialized m = (has_bits m AND 0x00000001 = 0x00000001)"

definition Shutdown_Res_Swap :: "Shutdown_Res \<Rightarrow> Shutdown_Res \<Rightarrow> Shutdown_Res \<times> Shutdown_Res" where
  "Shutdown_Res_Swap this other =
     (this\<lparr> shutdown_res_code := shutdown_res_code other, has_bits := has_bits other,
           unknown_fields := unknown_fields other, cached_size := cached_size other \<rparr>,
      other\<lparr> shutdown_res_code := shutdown_res_code this, has_bits := has_bits this,
            unknown_fields := unknown_fields this, cached_size := cached_size this \<rparr>)"

definition Shutdown_Res_vtable :: "Shutdown_Res message_vtable" where
  "Shutdown_Res_vtable =
     \<lparr> vt_Clear = Shutdown_Res_Clear,
       vt_MergePartialFromCodedStream = Shutdown_Res_MergePartialFromCodedStream,
       vt_IsInitialized = Shutdown_Res_IsInitialized,
       vt_ByteSize = Shutdown_Res_ByteSize,
       vt_SerializeWithCachedSizes = Shutdown_Res_SerializeWithCachedSizes,
       vt_SerializeWithCachedSizesToArray = Shutdown_Res_SerializeWithCachedSizesToArray \<rparr>"

section \<open>Shutdown\<close>

text \<open>The outer message \<open>Shutdown\<close> only gives its name to the nested ones: no field.\<close>

type_synonym Shutdown = pb_base

definition Shutdown_SharedCtor :: Shutdown where
  "Shutdown_SharedCtor = \<lparr> unknown_fields = [], has_bits = 0, cached_size = 0 \<rparr>"

definition Shutdown_Clear :: "Shutdown \<Rightarrow> Shutdown" where
  "Shutdown_Clear m = m\<lparr> has_bits := 0, unknown_fields := [] \<rparr>"

definition Shutdown_MergePartialFromCodedStream :: "cis \<Rightarrow> Shutdown \<Rightarrow> (bool \<times> cis \<times> Shutdown) option" where
  "Shutdown_MergePartialFromCodedStream = run_parse_loop (\<lambda>tag input m. Handle_unusual)"

definition Shutdown_SerializeWithCachedSizes :: "Shutdown \<Rightarrow> byte list \<Rightarrow> byte list" where
  "Shutdown_SerializeWithCachedSizes m output =
     (if unknown_fields m \<noteq> [] then SerializeUnknownFields (unknown_fields m) output else output)"

definition Shutdown_SerializeWithCachedSizesToArray :: "Shutdown \<Rightarrow> byte list" where
  "Shutdown_SerializeWithCachedSizesToArray m =
     (if unknown_fields m \<noteq> [] then SerializeUnknownFieldsToArray (unknown_fields m) else [])"

definition Shutdown_ByteSize :: "Shutdown \<Rightarrow> nat \<times> Shutdown" where
  "Shutdown_ByteSize m =
     (let total_size = (if unknown_fields m \<noteq> []
                        then 0 + ComputeUnknownFieldsSize (unknown_fields m) else 0)
      in (total_size, m\<lparr> cached_size := total_size \<rparr>))"

definition Shutdown_MergeFrom :: "bool \<Rightarrow> Shutdown \<Rightarrow> Shutdown \<Rightarrow> Shutdown res" where
  "Shutdown_MergeFrom same other this =
     (if same then Inl Check_failed
      else Inr (this\<lparr> unknown_fields :=
             UnknownFieldSet_MergeFrom (unknown_fields other) (unknown_fields this) \<rparr>))"

definition Shutdown_CopyFrom :: "bool \<Rightarrow> Shutdown \<Rightarrow> Shutdown \<Rightarrow> Shutdown res" where
  "Shutdown_CopyFrom same other this =
     (if same then Inr this else Shutdown_MergeFrom False other (Shutdown_Clear this))"

definition Shutdown_IsInitialized :: "Shutdown \<Rightarrow> bool" where
  "Shutdown_IsInitialized m = True"

definition Shutdown_Swap :: "Shutdown \<Rightarrow> Shutdown \<Rightarrow> Shutdown \<times> Shutdown" where
  "Shutdown_Swap this other =
     (this\<lparr> unknown_fields := unknown_fields other, cached_size := cached_size other \<rparr>,
      other\<lparr> unknown_fields := unknown_fields this, cached_size := cached_size this \<rparr>)"

definition Shutdown_vtable :: "Shutdown message_vtable" where
  "Shutdown_vtable =
     \<lparr> vt_Clear = Shutdown_Clear,
       vt_MergePartialFromCodedStream = Shutdown_MergePartialFromCodedStream,
       vt_IsInitialized = Shutdown_IsInitialized,
       vt_ByteSize = Shutdown_ByteSize,
       vt_SerializeWithCachedSizes = Shutdown_SerializeWithCachedSizes,
       vt_SerializeWithCachedSizesToArray = Shutdown_SerializeWithCachedSizesToArray \<rparr>"

section \<open>The contracts\<close>

lemmas Shutdown_Req_defs = Shutdown_Req_SharedCtor_def Shutdown_Req_has_code_def Shutdown_Req_set_has_code_def
  Shutdown_Req_clear_has_code_def Shutdown_Req_clear_code_def Shutdown_Req_set_code_def Shutdown_Req_Clear_def
  Shutdown_Req_SerializeWithCachedSizes_def Shutdown_Req_SerializeWithCachedSizesToArray_def Shutdown_Req_ByteSize_def
  Shutdown_Req_IsInitialized_def Shutdown_Req_vtable_def

lemma Shutdown_Req_merge: "vt_MergePartialFromCodedStream Shutdown_Req_vtable =
    run_parse_loop (int32_switch (\<lambda>v m. Shutdown_Req_set_has_code (m\<lparr> shutdown_req_code := v \<rparr>)))"
  by (simp add: Shutdown_Req_vtable_def Shutdown_Req_MergePartialFromCodedStream_def int32_switch_def [abs_def])

interpretation shutdown_req: int32_message Shutdown_Req_vtable shutdown_req_code
  "\<lambda>v m. Shutdown_Req_set_has_code (m\<lparr> shutdown_req_code := v \<rparr>)"
  by (unfold_locales, rule Shutdown_Req_merge) (auto simp: Shutdown_Req_defs one_int32_simps Let_def)

text \<open>\<open>Clear\<close>, then \<open>MergeFrom\<close>: everything but the cached size is copied.\<close>

lemma Shutdown_Req_CopyFrom_content:
  assumes "has_bits m = 1 \<or> has_bits m = 0 \<and> shutdown_req_code m = 0"
  shows "Shutdown_Req_CopyFrom False m this = Inr (m\<lparr> cached_size := cached_size this \<rparr>)"
  using assms by (cases m) (auto simp: Shutdown_Req_CopyFrom_def Shutdown_Req_MergeFrom_def Shutdown_Req_defs
    UnknownFieldSet_MergeFrom_def Let_def)

lemma Shutdown_Req_Swap_swaps: "Shutdown_Req_Swap this other = (other, this)"
  by (simp add: Shutdown_Req_Swap_def)

lemmas Shutdown_Res_defs = Shutdown_Res_SharedCtor_def Shutdown_Res_has_code_def Shutdown_Res_set_has_code_def
  Shutdown_Res_clear_has_code_def Shutdown_Res_clear_code_def Shutdown_Res_set_code_def Shutdown_Res_Clear_def
  Shutdown_Res_SerializeWithCachedSizes_def Shutdown_Res_SerializeWithCachedSizesToArray_def Shutdown_Res_ByteSize_def
  Shutdown_Res_IsInitialized_def Shutdown_Res_vtable_def

lemma Shutdown_Res_merge: "vt_MergePartialFromCodedStream Shutdown_Res_vtable =
    run_parse_loop (int32_switch (\<lambda>v m. Shutdown_Res_set_has_code (m\<lparr> shutdown_res_code := v \<rparr>)))"
  by (simp add: Shutdown_Res_vtable_def Shutdown_Res_MergePartialFromCodedStream_def int32_switch_def [abs_def])

interpretation shutdown_res: int32_message Shutdown_Res_vtable shutdown_res_code
  "\<lambda>v m. Shutdown_Res_set_has_code (m\<lparr> shutdown_res_code := v \<rparr>)"
  by (unfold_locales, rule Shutdown_Res_merge) (auto simp: Shutdown_Res_defs one_int32_simps Let_def)

text \<open>\<open>Clear\<close>, then \<open>MergeFrom\<close>: everything but the cached size is copied.\<close>

lemma Shutdown_Res_CopyFrom_content:
  assumes "has_bits m = 1 \<or> has_bits m = 0 \<and> shutdown_res_code m = 0"
  shows "Shutdown_Res_CopyFrom False m this = Inr (m\<lparr> cached_size := cached_size this \<rparr>)"
  using assms by (cases m) (auto simp: Shutdown_Res_CopyFrom_def Shutdown_Res_MergeFrom_def Shutdown_Res_defs
    UnknownFieldSet_MergeFrom_def Let_def)

lemma Shutdown_Res_Swap_swaps: "Shutdown_Res_Swap this other = (other, this)"
  by (simp add: Shutdown_Res_Swap_def)

interpretation shutdown: empty_message Shutdown_vtable
  by unfold_locales
     (auto simp: Shutdown_vtable_def Shutdown_Clear_def Shutdown_SerializeWithCachedSizes_def
        Shutdown_SerializeWithCachedSizesToArray_def Shutdown_ByteSize_def Shutdown_IsInitialized_def
        Shutdown_MergePartialFromCodedStream_def no_switch_def [abs_def] SerializeUnknownFields_array Let_def)

end
