(* ===== verification/GF_StdMap.thy ===== *)
theory GF_StdMap
  imports GF_Prelude
begin

text \<open>
  The container macros of \<open>src/src/common/memory/mem_define.h\<close>. \<open>MAP(K, V)\<close> is
  \<open>std::map\<close> with \<open>std::less\<close>: its elements are kept in the order of their keys, and
  the worker loops walk it from \<open>begin()\<close> to \<open>end()\<close>. It is modelled as the list of
  its pairs in iteration order, so that a loop over it is a recursion over that list.
  \<open>DEQUE\<close>, \<open>LIST\<close> and \<open>VECTOR\<close> are lists.

  The interface the clients rely on is the locale \<open>assoc_container\<close>; it is interpreted
  here on the model of \<open>MAP\<close>.
\<close>

section \<open>MAP(K, V)\<close>

type_synonym ('k, 'v) std_map = "('k \<times> 'v) list"

fun map_find :: "('k, 'v) std_map \<Rightarrow> 'k \<Rightarrow> 'v option" where
  "map_find [] k = None"
| "map_find ((k', v) # m) k = (if k = k' then Some v else map_find m k)"

text \<open>\<open>m[k] = v\<close>: overwrites, or inserts at the place the order of the keys gives.\<close>

fun map_put :: "'k::linorder \<Rightarrow> 'v \<Rightarrow> ('k, 'v) std_map \<Rightarrow> ('k, 'v) std_map" where
  "map_put k v [] = [(k, v)]"
| "map_put k v ((k', v') # m) =
     (if k = k' then (k, v) # m
      else if k < k' then (k, v) # (k', v') # m
      else (k', v') # map_put k v m)"

fun map_erase :: "'k \<Rightarrow> ('k, 'v) std_map \<Rightarrow> ('k, 'v) std_map" where
  "map_erase k [] = []"
| "map_erase k ((k', v) # m) = (if k = k' then m else (k', v) # map_erase k m)"

definition map_keys :: "('k, 'v) std_map \<Rightarrow> 'k list" where
  "map_keys m = map fst m"

definition map_ok :: "('k::linorder, 'v) std_map \<Rightarrow> bool" where
  "map_ok m = sorted_wrt (<) (map_keys m)"

section \<open>Laws\<close>

lemma map_keys_simps [simp]:
  "map_keys [] = []" "map_keys ((k, v) # m) = k # map_keys m"
  by (simp_all add: map_keys_def)

lemma map_ok_simps [simp]:
  "map_ok []"
  "map_ok ((k, v) # m) \<longleftrightarrow> (\<forall>k' \<in> set (map_keys m). k < k') \<and> map_ok m"
  by (simp_all add: map_ok_def)

lemma map_find_in: "map_find m k = Some v \<Longrightarrow> (k, v) \<in> set m"
  by (induction m k rule: map_find.induct) (auto split: if_splits)

lemma map_find_None_iff: "map_find m k = None \<longleftrightarrow> k \<notin> set (map_keys m)"
  by (induction m k rule: map_find.induct) auto

lemma map_find_Some_key: "map_find m k = Some v \<Longrightarrow> k \<in> set (map_keys m)"
  using map_find_None_iff [of m k] by auto

lemma map_find_put [simp, map_simps]:
  "map_find (map_put k v m) k' = (if k' = k then Some v else map_find m k')"
  by (induction k v m rule: map_put.induct) auto

lemma set_map_put [map_simps]: "set (map_keys (map_put k v m)) = insert k (set (map_keys m))"
  by (induction k v m rule: map_put.induct) auto

lemma map_ok_put [intro, simp]: "map_ok m \<Longrightarrow> map_ok (map_put k v m)"
  by (induction k v m rule: map_put.induct) (auto simp: set_map_put)

lemma set_map_erase: "map_ok m \<Longrightarrow> set (map_keys (map_erase k m)) = set (map_keys m) - {k}"
  by (induction k m rule: map_erase.induct) auto

lemma set_map_erase_subset: "set (map_erase k m) \<subseteq> set m"
  by (induction k m rule: map_erase.induct) auto

lemma map_ok_erase [intro, simp]: "map_ok m \<Longrightarrow> map_ok (map_erase k m)"
  by (induction k m rule: map_erase.induct) (auto simp: set_map_erase)

lemma map_find_erase [map_simps]:
  "map_ok m \<Longrightarrow> map_find (map_erase k m) k' = (if k' = k then None else map_find m k')"
  by (induction k m rule: map_erase.induct) (auto simp: map_find_None_iff)

lemma map_find_iff: "map_ok m \<Longrightarrow> (k, v) \<in> set m \<longleftrightarrow> map_find m k = Some v"
proof (induction m)
  case (Cons p m)
  obtain k' v' where p: "p = (k', v')" by fastforce
  show ?case using Cons by (auto simp: p map_keys_def image_iff dest: map_find_in)
qed simp

lemma map_ok_distinct: "map_ok m \<Longrightarrow> distinct (map_keys m)"
  by (induction m) auto

lemma map_find_erase_absent: "k \<notin> set (map_keys m) \<Longrightarrow> map_erase k m = m"
  by (induction k m rule: map_erase.induct) auto

lemma length_map_erase:
  "length (map_erase k m) = (if k \<in> set (map_keys m) then length m - 1 else length m)"
proof (induction k m rule: map_erase.induct)
  case (2 k k' v m)
  then show ?case by (cases m) auto
qed simp

lemma length_map_put:
  "length (map_put k v m) = (if map_find m k = None then Suc (length m) else length m)"
  if "map_ok m"
  using that
proof (induction k v m rule: map_put.induct)
  case (2 k v k' v' m)
  have "k < k' \<Longrightarrow> map_find m k = None"
    using "2.prems" by (auto simp: map_find_None_iff dest!: bspec)
  with 2 show ?case by auto
qed simp

section \<open>The interface\<close>

text \<open>
  What the sources assume of an associative container: \<open>find\<close> after an assignment or an
  \<open>erase\<close>. \<open>insert_once\<close> is the idiom "\<open>if (m.find(k) != m.end()) return false; m[k] =
  v; return true;\<close>" that four components use (\<open>regist_msg_processer\<close>,
  \<open>register_client\<close> and the two \<open>register_server\<close>).
\<close>

locale assoc_container =
  fixes find :: "'m \<Rightarrow> 'k \<Rightarrow> 'v option"
    and put :: "'k \<Rightarrow> 'v \<Rightarrow> 'm \<Rightarrow> 'm"
    and erase :: "'k \<Rightarrow> 'm \<Rightarrow> 'm"
    and ok :: "'m \<Rightarrow> bool"
  assumes find_put: "ok m \<Longrightarrow> find (put k v m) k' = (if k' = k then Some v else find m k')"
    and find_erase: "ok m \<Longrightarrow> find (erase k m) k' = (if k' = k then None else find m k')"
    and ok_put: "ok m \<Longrightarrow> ok (put k v m)"
    and ok_erase: "ok m \<Longrightarrow> ok (erase k m)"
begin

definition insert_once :: "'k \<Rightarrow> 'v \<Rightarrow> 'm \<Rightarrow> bool \<times> 'm" where
  "insert_once k v m = (if find m k \<noteq> None then (False, m) else (True, put k v m))"

lemma insert_once_ok: "ok m \<Longrightarrow> ok (snd (insert_once k v m))"
  by (simp add: insert_once_def ok_put)

lemma insert_once_keeps:
  "ok m \<Longrightarrow> find m k' = Some v' \<Longrightarrow> find (snd (insert_once k v m)) k' = Some v'"
  by (auto simp: insert_once_def find_put)

lemma insert_once_result: "fst (insert_once k v m) \<longleftrightarrow> find m k = None"
  by (auto simp: insert_once_def)

lemma insert_once_stores:
  "ok m \<Longrightarrow> fst (insert_once k v m) \<Longrightarrow> find (snd (insert_once k v m)) k = Some v"
  by (auto simp: insert_once_def find_put split: if_splits)

lemma insert_once_twice:
  "ok m \<Longrightarrow> \<not> fst (insert_once k v' (snd (insert_once k v m)))"
  by (auto simp: insert_once_def find_put)

lemma erase_insert_once:
  "ok m \<Longrightarrow> find m k = None \<Longrightarrow> find (erase k (snd (insert_once k v m))) k' = find m k'"
  by (auto simp: insert_once_def find_put find_erase ok_put)

end

interpretation stdmap:
  assoc_container "map_find" "map_put" "map_erase" "map_ok :: ('k::linorder, 'v) std_map \<Rightarrow> bool"
  by unfold_locales (auto simp: map_find_erase)

end
