(* ===== verification/GF_Protocol.thy ===== *)
theory GF_Protocol
  imports GF_Regist GF_Shutdown GF_StdMap
begin

text \<open>
  The protocol of the servers: the message numbers (\<open>src/src/protocol/def/define.pb.*\<close>),
  the factory and disposal functions of \<open>src/src/protocol/protocol.cpp\<close>, messages as the
  network layer sees them (\<open>typedef ::google::protobuf::Message MsgData\<close>: a pointer whose
  virtual functions dispatch on the class), the \<open>MsgNode\<close> that carries one, and the table of
  message processors of \<open>src/src/common/net/go_net.cpp\<close> with the functions that use it.
\<close>

section \<open>Message numbers\<close>

datatype MessageType =
    message_Shutdown_Req | message_Shutdown_Res | message_begin
  | message_Regist_Req | message_Regist_Res

fun message_type_value :: "MessageType \<Rightarrow> u32" where
  "message_type_value message_Shutdown_Req = 0"
| "message_type_value message_Shutdown_Res = 1"
| "message_type_value message_begin = 20000"
| "message_type_value message_Regist_Req = 20001"
| "message_type_value message_Regist_Res = 20002"

definition MessageType_IsValid :: "u32 \<Rightarrow> bool" where
  "MessageType_IsValid v =
     (if v = 0 then True else if v = 1 then True else if v = 20000 then True
      else if v = 20001 then True else if v = 20002 then True else False)"

text \<open>The classes the template \<open>get_type<T>()\<close> is specialised for; any other class gets 0,
  which is also the number of \<open>Shutdown::Req\<close>.\<close>

datatype msg_class = C_Shutdown_Req | C_Shutdown_Res | C_Regist_Req | C_Regist_Res | C_other

fun get_type :: "msg_class \<Rightarrow> u32" where
  "get_type C_Shutdown_Req = message_type_value message_Shutdown_Req"
| "get_type C_Shutdown_Res = message_type_value message_Shutdown_Res"
| "get_type C_Regist_Req = message_type_value message_Regist_Req"
| "get_type C_Regist_Res = message_type_value message_Regist_Res"
| "get_type C_other = 0"

section \<open>Messages behind a base-class pointer\<close>

datatype MsgData =
    MD_Shutdown_Req Shutdown_Req
  | MD_Shutdown_Res Shutdown_Res
  | MD_Regist_Req Regist_Req
  | MD_Regist_Res Regist_Res

fun MsgData_class :: "MsgData \<Rightarrow> msg_class" where
  "MsgData_class (MD_Shutdown_Req m) = C_Shutdown_Req"
| "MsgData_class (MD_Shutdown_Res m) = C_Shutdown_Res"
| "MsgData_class (MD_Regist_Req m) = C_Regist_Req"
| "MsgData_class (MD_Regist_Res m) = C_Regist_Res"

definition map_snd_res :: "('a \<Rightarrow> 'b) \<Rightarrow> ('c \<times> 'a) res \<Rightarrow> ('c \<times> 'b) res" where
  "map_snd_res f r = bind_res r (\<lambda>(c, a). Inr (c, f a))"

fun MsgData_ParseFromArray :: "byte list \<Rightarrow> MsgData \<Rightarrow> (bool \<times> MsgData) res" where
  "MsgData_ParseFromArray data (MD_Shutdown_Req m) =
     map_snd_res MD_Shutdown_Req (ParseFromArray Shutdown_Req_vtable data m)"
| "MsgData_ParseFromArray data (MD_Shutdown_Res m) =
     map_snd_res MD_Shutdown_Res (ParseFromArray Shutdown_Res_vtable data m)"
| "MsgData_ParseFromArray data (MD_Regist_Req m) =
     map_snd_res MD_Regist_Req (ParseFromArray Regist_Req_vtable data m)"
| "MsgData_ParseFromArray data (MD_Regist_Res m) =
     map_snd_res MD_Regist_Res (ParseFromArray Regist_Res_vtable data m)"

fun MsgData_ByteSize :: "MsgData \<Rightarrow> nat \<times> MsgData" where
  "MsgData_ByteSize (MD_Shutdown_Req m) = map_prod id MD_Shutdown_Req (Shutdown_Req_ByteSize m)"
| "MsgData_ByteSize (MD_Shutdown_Res m) = map_prod id MD_Shutdown_Res (Shutdown_Res_ByteSize m)"
| "MsgData_ByteSize (MD_Regist_Req m) = map_prod id MD_Regist_Req (Regist_Req_ByteSize m)"
| "MsgData_ByteSize (MD_Regist_Res m) = map_prod id MD_Regist_Res (Regist_Res_ByteSize m)"

fun MsgData_SerializeToArray :: "nat \<Rightarrow> MsgData \<Rightarrow> (bool \<times> byte list option) res" where
  "MsgData_SerializeToArray count (MD_Shutdown_Req m) =
     bind_res (SerializeToArray Shutdown_Req_vtable count m) (\<lambda>(ok, out, m'). Inr (ok, out))"
| "MsgData_SerializeToArray count (MD_Shutdown_Res m) =
     bind_res (SerializeToArray Shutdown_Res_vtable count m) (\<lambda>(ok, out, m'). Inr (ok, out))"
| "MsgData_SerializeToArray count (MD_Regist_Req m) =
     bind_res (SerializeToArray Regist_Req_vtable count m) (\<lambda>(ok, out, m'). Inr (ok, out))"
| "MsgData_SerializeToArray count (MD_Regist_Res m) =
     bind_res (SerializeToArray Regist_Res_vtable count m) (\<lambda>(ok, out, m'). Inr (ok, out))"

section \<open>Factories, disposal and processing functions\<close>

text \<open>The function pointers the table holds are the named functions of \<open>protocol.cpp\<close> and
  of the \<open>msg_process\<close> directories; they are modelled by their names.\<close>

datatype new_msg_data = new_Shutdown_req | new_Shutdown_res | new_Regist_req | new_Regist_res

datatype delete_msg_data =
  delete_Shutdown_req | delete_Shutdown_res | delete_Regist_req | delete_Regist_res

datatype msg_process =
  process_Shutdown_req | process_Shutdown_res | process_Regist_req | process_Regist_res

fun call_new :: "new_msg_data \<Rightarrow> MsgData" where
  "call_new new_Shutdown_req = MD_Shutdown_Req Shutdown_Req_SharedCtor"
| "call_new new_Shutdown_res = MD_Shutdown_Res Shutdown_Res_SharedCtor"
| "call_new new_Regist_req = MD_Regist_Req Regist_Req_SharedCtor"
| "call_new new_Regist_res = MD_Regist_Res Regist_Res_SharedCtor"

text \<open>The class a disposal function casts its argument to before it deletes it.\<close>

fun delete_class :: "delete_msg_data \<Rightarrow> msg_class" where
  "delete_class delete_Shutdown_req = C_Shutdown_Req"
| "delete_class delete_Shutdown_res = C_Shutdown_Res"
| "delete_class delete_Regist_req = C_Regist_Req"
| "delete_class delete_Regist_res = C_Regist_Res"

section \<open>MsgNode\<close>

record MsgNode =
  msg_type :: u32
  cli_conn :: u64
  msg_length :: u32
  msg_data :: "MsgData option"
  msg_conn :: ptr

text \<open>The constructor initialises only the two pointers; the other members keep what the
  memory held, here the argument.\<close>

type_synonym raw_node = "u32 \<times> u64 \<times> u32"

definition MsgNode_ctor :: "raw_node \<Rightarrow> MsgNode" where
  "MsgNode_ctor raw =
     \<lparr> msg_type = fst raw, cli_conn = fst (snd raw), msg_length = snd (snd raw),
       msg_data = None, msg_conn = NULLP \<rparr>"

section \<open>The table of message processors\<close>

record MsgProcesser =
  mp :: "msg_process option"
  nmd :: "new_msg_data option"
  dmd :: "delete_msg_data option"

definition MsgProcesser_ctor :: MsgProcesser where
  "MsgProcesser_ctor = \<lparr> mp = None, nmd = None, dmd = None \<rparr>"

type_synonym msg_processers = "(u32, MsgProcesser) std_map"

definition regist_msg_processer ::
    "u32 \<Rightarrow> new_msg_data option \<Rightarrow> delete_msg_data option \<Rightarrow> msg_process option \<Rightarrow>
     msg_processers \<Rightarrow> bool \<times> msg_processers" where
  "regist_msg_processer ty init deinit p procs =
     (if map_find procs ty \<noteq> None then (False, procs)
      else (True, map_put ty (MsgProcesser_ctor\<lparr> mp := p, nmd := init, dmd := deinit \<rparr>) procs))"

text \<open>Calling a null factory is undefined.\<close>

definition call_nmd :: "MsgProcesser \<Rightarrow> MsgData res" where
  "call_nmd p = (case nmd p of None \<Rightarrow> Inl Null_deref | Some f \<Rightarrow> Inr (call_new f))"

text \<open>\<open>None\<close> is the returned null pointer.\<close>

definition get_msgnode :: "raw_node \<Rightarrow> msg_processers \<Rightarrow> u32 \<Rightarrow> MsgNode option res" where
  "get_msgnode raw procs ty =
     (case map_find procs ty of
        None \<Rightarrow> Inr None
      | Some p \<Rightarrow>
          bind_res (call_nmd p) (\<lambda>d.
            Inr (Some ((MsgNode_ctor raw)\<lparr> msg_type := ty, msg_data := Some d \<rparr>))))"

definition get_res_node ::
    "raw_node \<Rightarrow> msg_processers \<Rightarrow> u32 \<Rightarrow> MsgNode option \<Rightarrow> MsgNode option res" where
  "get_res_node raw procs ty msg_req =
     (case msg_req of
        None \<Rightarrow> Inr None
      | Some req \<Rightarrow>
          (case map_find procs ty of
             None \<Rightarrow> Inr None
           | Some p \<Rightarrow>
               bind_res (call_nmd p) (\<lambda>d.
                 Inr (Some ((MsgNode_ctor raw)\<lparr> msg_type := ty, cli_conn := cli_conn req,
                              msg_conn := msg_conn req, msg_data := Some d \<rparr>)))))"

text \<open>What a call disposes of: the message data (by which function) and the node. A node of
  an unknown type is neither processed nor deleted.\<close>

datatype disposal = Del_data delete_msg_data MsgData | Del_node MsgNode

definition call_dmd :: "MsgProcesser \<Rightarrow> MsgData option \<Rightarrow> disposal list res" where
  "call_dmd p d =
     (case d of
        None \<Rightarrow> Inr []
      | Some x \<Rightarrow> (case dmd p of None \<Rightarrow> Inl Null_deref | Some f \<Rightarrow> Inr [Del_data f x]))"

definition message_free :: "msg_processers \<Rightarrow> MsgNode option \<Rightarrow> disposal list res" where
  "message_free procs mn =
     (case mn of
        None \<Rightarrow> Inr []
      | Some n \<Rightarrow>
          (case map_find procs (msg_type n) of
             None \<Rightarrow> Inr []
           | Some p \<Rightarrow> bind_res (call_dmd p (msg_data n)) (\<lambda>ds. Inr (ds @ [Del_node n]))))"

text \<open>\<open>run\<close> is what the processing functions do to the state of the program they belong to.\<close>

definition message_process ::
    "(msg_process \<Rightarrow> MsgNode \<Rightarrow> 's \<Rightarrow> 's res) \<Rightarrow> msg_processers \<Rightarrow> MsgNode option \<Rightarrow> 's \<Rightarrow>
     ('s \<times> disposal list) res" where
  "message_process run procs mn s =
     (case mn of
        None \<Rightarrow> Inr (s, [])
      | Some n \<Rightarrow>
          (case map_find procs (msg_type n) of
             None \<Rightarrow> Inr (s, [])
           | Some p \<Rightarrow>
               bind_res
                 (if (msg_data n \<noteq> None \<or> (msg_data n = None \<and> msg_type n = 0)) \<and> mp p \<noteq> None
                  then run (the (mp p)) n s else Inr s)
                 (\<lambda>s'. bind_res (call_dmd p (msg_data n)) (\<lambda>ds. Inr (s', ds @ [Del_node n])))))"

definition protocol_init :: "msg_processers \<Rightarrow> msg_processers" where
  "protocol_init procs =
     (let procs = snd (regist_msg_processer (get_type C_Shutdown_Req) (Some new_Shutdown_req)
            (Some delete_Shutdown_req) (Some process_Shutdown_req) procs);
          procs = snd (regist_msg_processer (get_type C_Shutdown_Res) (Some new_Shutdown_res)
            (Some delete_Shutdown_res) (Some process_Shutdown_res) procs);
          procs = snd (regist_msg_processer (get_type C_Regist_Req) (Some new_Regist_req)
            (Some delete_Regist_req) (Some process_Regist_req) procs);
          procs = snd (regist_msg_processer (get_type C_Regist_Res) (Some new_Regist_res)
            (Some delete_Regist_res) (Some process_Regist_res) procs)
      in procs)"

section \<open>Messages on the wire\<close>

text \<open>The bytes a message serialises to, the messages that survive them, and a message with the
  cached size of another: what the parser leaves untouched.\<close>

fun MsgData_bytes :: "MsgData \<Rightarrow> byte list" where
  "MsgData_bytes (MD_Shutdown_Req m) = Shutdown_Req_SerializeWithCachedSizesToArray m"
| "MsgData_bytes (MD_Shutdown_Res m) = Shutdown_Res_SerializeWithCachedSizesToArray m"
| "MsgData_bytes (MD_Regist_Req m) = Regist_Req_SerializeWithCachedSizesToArray m"
| "MsgData_bytes (MD_Regist_Res m) = Regist_Res_SerializeWithCachedSizesToArray m"

fun MsgData_wf :: "MsgData \<Rightarrow> bool" where
  "MsgData_wf (MD_Shutdown_Req m) = int32_wf m"
| "MsgData_wf (MD_Shutdown_Res m) = int32_wf m"
| "MsgData_wf (MD_Regist_Req m) = int32_wf m"
| "MsgData_wf (MD_Regist_Res m) = int32_wf m"

fun MsgData_set_cached :: "nat \<Rightarrow> MsgData \<Rightarrow> MsgData" where
  "MsgData_set_cached k (MD_Shutdown_Req m) = MD_Shutdown_Req (m\<lparr> cached_size := k \<rparr>)"
| "MsgData_set_cached k (MD_Shutdown_Res m) = MD_Shutdown_Res (m\<lparr> cached_size := k \<rparr>)"
| "MsgData_set_cached k (MD_Regist_Req m) = MD_Regist_Req (m\<lparr> cached_size := k \<rparr>)"
| "MsgData_set_cached k (MD_Regist_Res m) = MD_Regist_Res (m\<lparr> cached_size := k \<rparr>)"

fun MsgData_cached :: "MsgData \<Rightarrow> nat" where
  "MsgData_cached (MD_Shutdown_Req m) = cached_size m"
| "MsgData_cached (MD_Shutdown_Res m) = cached_size m"
| "MsgData_cached (MD_Regist_Req m) = cached_size m"
| "MsgData_cached (MD_Regist_Res m) = cached_size m"

lemmas vtable_arrays = Shutdown_Req_vtable_def Shutdown_Res_vtable_def Regist_Req_vtable_def
  Regist_Res_vtable_def

lemmas message_contracts =
  shutdown_req.byte_size [unfolded Shutdown_Req_vtable_def, simplified]
  shutdown_res.byte_size [unfolded Shutdown_Res_vtable_def, simplified]
  regist_req.byte_size [unfolded Regist_Req_vtable_def, simplified]
  regist_res.byte_size [unfolded Regist_Res_vtable_def, simplified]

lemma vt_arrays [simp]:
  "vt_SerializeWithCachedSizesToArray Shutdown_Req_vtable = Shutdown_Req_SerializeWithCachedSizesToArray"
  "vt_SerializeWithCachedSizesToArray Shutdown_Res_vtable = Shutdown_Res_SerializeWithCachedSizesToArray"
  "vt_SerializeWithCachedSizesToArray Regist_Req_vtable = Regist_Req_SerializeWithCachedSizesToArray"
  "vt_SerializeWithCachedSizesToArray Regist_Res_vtable = Regist_Res_SerializeWithCachedSizesToArray"
  by (simp_all add: vtable_arrays)

lemma MsgData_ByteSize_eq:
  "MsgData_ByteSize d = (length (MsgData_bytes d), MsgData_set_cached (length (MsgData_bytes d)) d)"
  by (cases d) (simp_all add: message_contracts)

lemma MsgData_set_cached_simps [simp]:
  "MsgData_bytes (MsgData_set_cached k d) = MsgData_bytes d"
  "MsgData_class (MsgData_set_cached k d) = MsgData_class d"
  "MsgData_wf (MsgData_set_cached k d) = MsgData_wf d"
  using shutdown_req.serialize_cached shutdown_res.serialize_cached
    regist_req.serialize_cached regist_res.serialize_cached
  by (cases d; simp add: int32_wf_def)+

lemma MsgData_SerializeToArray_fits:
  "length (MsgData_bytes d) \<le> count \<Longrightarrow>
     MsgData_SerializeToArray count d = Inr (True, Some (MsgData_bytes d))"
  using shutdown_req.SerializeToArray_fits shutdown_res.SerializeToArray_fits
    regist_req.SerializeToArray_fits regist_res.SerializeToArray_fits
  by (cases d) simp_all

lemma MsgData_ParseFromArray_total:
  "\<exists>ok d'. MsgData_ParseFromArray data d = Inr (ok, d') \<and> MsgData_class d' = MsgData_class d"
  using shutdown_req.ParseFromArray_total [of data] shutdown_res.ParseFromArray_total [of data]
    regist_req.ParseFromArray_total [of data] regist_res.ParseFromArray_total [of data]
  by (cases d) (fastforce simp: map_snd_res_def)+

lemma MsgData_roundtrip:
  assumes "MsgData_wf d" and "length (MsgData_bytes d) \<le> kDefaultTotalBytesLimit"
    and "MsgData_class d0 = MsgData_class d"
  shows "MsgData_ParseFromArray (MsgData_bytes d) d0 =
    Inr (True, MsgData_set_cached (MsgData_cached d0) d)"
  using assms shutdown_req.ParseFromArray_write shutdown_res.ParseFromArray_write
    regist_req.ParseFromArray_write regist_res.ParseFromArray_write
  by (cases d; cases d0) (simp_all add: map_snd_res_def)

lemma MsgData_wf_nonempty: "MsgData_wf d \<Longrightarrow> 2 \<le> length (MsgData_bytes d)"
proof -
  have "1 \<le> VarintSize32SignExtended v" for v
    using length_WriteVarint_slow_pos [of "ucast v"]
    by (auto simp: VarintSize32SignExtended_def VarintSize32_length Suc_le_eq)
  then have "2 \<le> length (WriteInt32ToArray 1 v)" for v
    unfolding regist_req.one_field_size [symmetric] by (metis add_le_mono le_refl one_add_one)
  then show "MsgData_wf d \<Longrightarrow> 2 \<le> length (MsgData_bytes d)"
    by (cases d)
       (auto simp: int32_wf_def Shutdown_Req_defs Shutdown_Res_defs Regist_Req_defs Regist_Res_defs
          intro: trans_le_add1)
qed

section \<open>The table\<close>

text \<open>\<open>regist_msg_processer\<close> is the insert-once idiom of the container interface.\<close>

lemma regist_msg_processer_insert_once:
  "regist_msg_processer ty i d p procs =
     stdmap.insert_once ty \<lparr> mp = p, nmd = i, dmd = d \<rparr> procs"
  by (simp add: regist_msg_processer_def stdmap.insert_once_def MsgProcesser_ctor_def)

text \<open>A table as \<open>protocol_init\<close> builds it: complete entries whose disposal function casts to
  the class its factory makes.\<close>

definition proc_ok :: "MsgProcesser \<Rightarrow> bool" where
  "proc_ok p \<longleftrightarrow> mp p \<noteq> None \<and>
     (\<exists>f g. nmd p = Some f \<and> dmd p = Some g \<and> MsgData_class (call_new f) = delete_class g)"

definition procs_ok :: "msg_processers \<Rightarrow> bool" where
  "procs_ok procs \<longleftrightarrow> map_ok procs \<and> (\<forall>ty p. map_find procs ty = Some p \<longrightarrow> proc_ok p)"

lemma regist_msg_processer_ok:
  assumes "procs_ok procs" and "MsgData_class (call_new f) = delete_class g"
  shows "procs_ok (snd (regist_msg_processer ty (Some f) (Some g) (Some h) procs))"
  using assms by (auto simp: procs_ok_def regist_msg_processer_def proc_ok_def MsgProcesser_ctor_def
      split: if_splits)

lemma protocol_init_ok: "procs_ok procs \<Longrightarrow> procs_ok (protocol_init procs)"
  unfolding protocol_init_def Let_def by (intro regist_msg_processer_ok) simp_all

lemma procs_ok_Nil [simp]: "procs_ok []"
  by (simp add: procs_ok_def)

text \<open>A node whose data has the class its type stands for.\<close>

definition node_ok :: "msg_processers \<Rightarrow> MsgNode \<Rightarrow> bool" where
  "node_ok procs n \<longleftrightarrow> (\<exists>p d g. map_find procs (msg_type n) = Some p \<and> msg_data n = Some d \<and>
     dmd p = Some g \<and> MsgData_class d = delete_class g)"

lemma node_ok_code [code]:
  "node_ok procs n \<longleftrightarrow> (case map_find procs (msg_type n) of None \<Rightarrow> False | Some p \<Rightarrow>
     (case (msg_data n, dmd p) of (Some d, Some g) \<Rightarrow> MsgData_class d = delete_class g | _ \<Rightarrow> False))"
  by (auto simp: node_ok_def split: option.split)

lemma get_msgnode_ok:
  assumes "procs_ok procs"
  shows "\<exists>r. get_msgnode raw procs ty = Inr r \<and>
    (case r of None \<Rightarrow> map_find procs ty = None
     | Some n \<Rightarrow> node_ok procs n \<and> msg_type n = ty \<and> msg_conn n = NULLP)"
proof (cases "map_find procs ty")
  case (Some p)
  with assms have "proc_ok p" by (auto simp: procs_ok_def)
  with Some show ?thesis
    by (auto simp: get_msgnode_def call_nmd_def proc_ok_def node_ok_def MsgNode_ctor_def)
qed (simp add: get_msgnode_def)

lemma get_res_node_ok:
  assumes "procs_ok procs"
  shows "\<exists>r. get_res_node raw procs ty (Some req) = Inr r \<and>
    (case r of None \<Rightarrow> map_find procs ty = None
     | Some n \<Rightarrow> node_ok procs n \<and> msg_type n = ty \<and> msg_conn n = msg_conn req \<and>
         cli_conn n = cli_conn req)"
proof (cases "map_find procs ty")
  case (Some p)
  with assms have "proc_ok p" by (auto simp: procs_ok_def)
  with Some show ?thesis
    by (auto simp: get_res_node_def call_nmd_def proc_ok_def node_ok_def MsgNode_ctor_def)
qed (simp add: get_res_node_def)

lemma message_free_ok:
  assumes "node_ok procs n"
  shows "\<exists>g d. message_free procs (Some n) = Inr [Del_data g d, Del_node n] \<and> msg_data n = Some d \<and>
     delete_class g = MsgData_class d"
  using assms by (auto simp: node_ok_def message_free_def call_dmd_def)

lemma message_process_ok:
  assumes "node_ok procs n" and "procs_ok procs"
  shows "\<exists>h g d. map_find procs (msg_type n) \<noteq> None \<and> msg_data n = Some d \<and>
     delete_class g = MsgData_class d \<and>
     message_process run procs (Some n) s =
       bind_res (run h n s) (\<lambda>s'. Inr (s', [Del_data g d, Del_node n]))"
  using assms by (fastforce simp: node_ok_def procs_ok_def proc_ok_def message_process_def call_dmd_def)

end
