(* ===== verification/GF_NetTypes.thy ===== *)
theory GF_NetTypes
  imports GF_Protocol
begin

text \<open>
  The data of the network layer (\<open>src/src/common/net/go_net.h\<close> and the file-level state of
  \<open>go_net.cpp\<close>), and the byte buffers of libevent it is built on.

  libevent is not part of the repository. Its \<open>evbuffer\<close> is the type parameter \<open>'b\<close> with the
  record of operations the code calls; \<open>evbuffer_laws\<close> states their documented behaviour over
  the bytes a buffer holds. A buffer kept as the list of its chunks satisfies them. Results
  of system calls are arguments of the operations that make the calls.
\<close>

section \<open>Buffers\<close>

text \<open>\<open>evb_peek b n\<close> are the extents that hold the first \<open>n\<close> bytes (or all, when there are
  fewer); an extent may reach beyond them. \<open>evb_add\<close> stands for every way of appending,
  \<open>evb_drain\<close> for what a write to a socket removes.\<close>

record 'b evbuffer_ops =
  evb_new :: 'b
  evb_get_length :: "'b \<Rightarrow> nat"
  evb_peek :: "'b \<Rightarrow> nat \<Rightarrow> byte list list"
  evb_remove :: "'b \<Rightarrow> nat \<Rightarrow> byte list \<times> 'b"
  evb_add :: "'b \<Rightarrow> byte list \<Rightarrow> 'b"
  evb_drain :: "'b \<Rightarrow> nat \<Rightarrow> 'b"

definition evbuffer_laws :: "'b evbuffer_ops \<Rightarrow> ('b \<Rightarrow> byte list) \<Rightarrow> bool" where
  "evbuffer_laws ops bytes \<longleftrightarrow>
     bytes (evb_new ops) = [] \<and>
     (\<forall>b. evb_get_length ops b = length (bytes b)) \<and>
     (\<forall>b n. \<exists>more. bytes b = concat (evb_peek ops b n) @ more \<and>
        (n \<le> length (bytes b) \<longrightarrow> n \<le> length (concat (evb_peek ops b n)))) \<and>
     (\<forall>b n. fst (evb_remove ops b n) = take n (bytes b) \<and>
        bytes (snd (evb_remove ops b n)) = drop n (bytes b)) \<and>
     (\<forall>b d. bytes (evb_add ops b d) = bytes b @ d) \<and>
     (\<forall>b n. bytes (evb_drain ops b n) = drop n (bytes b))"

lemma evbuffer_lawsD:
  assumes "evbuffer_laws ops bytes"
  shows "bytes (evb_new ops) = []"
    and "evb_get_length ops b = length (bytes b)"
    and "fst (evb_remove ops b n) = take n (bytes b)"
    and "bytes (snd (evb_remove ops b n)) = drop n (bytes b)"
    and "bytes (evb_add ops b d) = bytes b @ d"
    and "bytes (evb_drain ops b n) = drop n (bytes b)"
  using assms by (auto simp: evbuffer_laws_def)

text \<open>The chain of chunks.\<close>

fun chunks_take :: "nat \<Rightarrow> byte list list \<Rightarrow> byte list list" where
  "chunks_take n [] = []"
| "chunks_take n (c # cs) = (if n = 0 then [] else c # chunks_take (n - length c) cs)"

fun chunks_drop :: "nat \<Rightarrow> byte list list \<Rightarrow> byte list list" where
  "chunks_drop n [] = []"
| "chunks_drop n (c # cs) =
     (if length c \<le> n then chunks_drop (n - length c) cs else drop n c # cs)"

definition chunk_ops :: "byte list list evbuffer_ops" where
  "chunk_ops =
     \<lparr> evb_new = [], evb_get_length = (\<lambda>b. length (concat b)), evb_peek = (\<lambda>b n. chunks_take n b),
       evb_remove = (\<lambda>b n. (take n (concat b), chunks_drop n b)), evb_add = (\<lambda>b d. b @ [d]),
       evb_drain = (\<lambda>b n. chunks_drop n b) \<rparr>"

lemma concat_chunks_drop: "concat (chunks_drop n b) = drop n (concat b)"
  by (induction n b rule: chunks_drop.induct) auto

lemma chunks_take_prefix:
  "\<exists>more. concat b = concat (chunks_take n b) @ more \<and>
     (n \<le> length (concat b) \<longrightarrow> n \<le> length (concat (chunks_take n b)))"
proof (induction n b rule: chunks_take.induct)
  case (2 n c cs)
  show ?case
  proof (cases "n = 0")
    case False
    with 2 obtain more where "concat cs = concat (chunks_take (n - length c) cs) @ more"
      "n - length c \<le> length (concat cs) \<longrightarrow> n - length c \<le> length (concat (chunks_take (n - length c) cs))"
      by blast
    with False show ?thesis by (intro exI [of _ more]) auto
  qed simp
qed simp

lemma chunk_ops_laws: "evbuffer_laws chunk_ops concat"
  unfolding evbuffer_laws_def chunk_ops_def evbuffer_ops.simps
  by (intro conjI allI chunks_take_prefix) (simp_all add: concat_chunks_drop)

section \<open>Connections\<close>

datatype ConnState = CS_LISTEN | CS_WAITING | CS_WAITING_DATA | CS_CLOSE | CS_CONNECT

text \<open>What the code reads of an \<open>event\<close>: its base (null until \<open>event_base_set\<close>), its
  descriptor, and whether \<open>event_add\<close> has made it pending.\<close>

record event =
  ev_base :: ptr
  ev_fd :: int
  ev_pending :: bool

definition zero_event :: event where
  "zero_event = \<lparr> ev_base = NULLP, ev_fd = 0, ev_pending = False \<rparr>"

record PeerInfo =
  ip :: "byte list"
  port :: u32

text \<open>\<open>ConnStat\<close> and its mutexes are not read apart from \<open>close_time_\<close>. A released buffer keeps
  its (now dangling) pointer; \<open>buffers_freed\<close> records the release. \<open>td\<close> is the index of the
  \<open>ThreadData\<close> the pointer \<open>td_\<close> refers to.\<close>

record 'b connection =
  sfd :: int
  sfd_dup_for_write :: int
  state :: ConnState
  close_time :: int
  read_event :: event
  can_read :: bool
  write_event :: event
  can_write :: bool
  td :: "u64 option"
  info :: PeerInfo
  read_buffer :: "'b option"
  conn_read_msgs :: "MsgNode list"
  write_buffer :: "'b option"
  conn_write_msgs :: "MsgNode list"
  buffers_freed :: bool

text \<open>\<open>new Connection()\<close> zeroes the object: the class has no constructor of its own.\<close>

definition new_Connection :: "'b connection" where
  "new_Connection =
     \<lparr> sfd = 0, sfd_dup_for_write = 0, state = CS_LISTEN, close_time = 0, read_event = zero_event,
       can_read = False, write_event = zero_event, can_write = False, td = None,
       info = \<lparr> ip = replicate 32 0, port = 0 \<rparr>, read_buffer = None, conn_read_msgs = [],
       write_buffer = None, conn_write_msgs = [], buffers_freed = False \<rparr>"

record ConnInfo =
  ci_sfd :: int
  ci_event_flag :: u32
  ci_state :: ConnState
  ci_peer_info :: PeerInfo
  pre_new :: ptr

section \<open>Threads and the state of the module\<close>

record ThreadData =
  td_event :: ptr
  notify_event :: event
  notify_recv_fd :: int
  notify_send_fd :: int
  new_connections :: "ConnInfo list"
  for_delete_connections :: "(u64, ptr) std_map"
  thread_connections :: "(u64, ptr) std_map"
  td_read_msgs :: "MsgNode list"
  td_write_msgs :: "MsgNode list"

definition new_ThreadData :: ThreadData where
  "new_ThreadData =
     \<lparr> td_event = NULLP, notify_event = zero_event, notify_recv_fd = 0, notify_send_fd = 0,
       new_connections = [], for_delete_connections = [], thread_connections = [],
       td_read_msgs = [], td_write_msgs = [] \<rparr>"

record NetSetting =
  max_connections :: u32
  ip_addr :: "byte list"
  listen_port :: u32
  net_thread_num :: u32

definition NetSetting_ctor :: "u32 \<Rightarrow> NetSetting" where
  "NetSetting_ctor raw_port =
     \<lparr> max_connections = 0, ip_addr = [], listen_port = raw_port, net_thread_num = 4 \<rparr>"

text \<open>What the operations do outside the state: descriptors closed, objects deleted, calls of
  the connector callback, bytes written to a worker's pipe, threads started.\<close>

datatype effect =
    Close int
  | Callback ptr bool
  | Delete_conn ptr
  | Delete_info ConnInfo
  | Dispose "disposal list"
  | Notify u64
  | Start_worker u64
  | Start_accept

text \<open>\<open>conns\<close> are the \<open>Connection\<close> objects by address; a deleted one is gone from it.\<close>

record 'b net_state =
  s_msg_processers :: msg_processers
  s_last_thread_id :: u64
  curr_conns :: u64
  reject_conns :: u64
  s_conns_map :: "(int, ptr) std_map"
  s_connect_conns :: "ConnInfo list"
  s_cntor_callback :: bool
  s_threads_datas :: "(u64, ThreadData option) std_map"
  s_set_parameters :: bool
  s_net_setting :: NetSetting
  s_init_count :: u32
  s_main_base :: ptr
  s_cnt :: u32
  conns :: "ptr \<Rightarrow> 'b connection option"
  effects :: "effect list"

definition log_effect :: "effect \<Rightarrow> 'b net_state \<Rightarrow> 'b net_state" where
  "log_effect e s = s\<lparr> effects := effects s @ [e] \<rparr>"

definition get_conn :: "ptr \<Rightarrow> 'b net_state \<Rightarrow> 'b connection res" where
  "get_conn p s =
     (if p = NULLP then Inl Null_deref
      else case conns s p of None \<Rightarrow> Inl (Dangling p) | Some c \<Rightarrow> Inr c)"

definition put_conn :: "ptr \<Rightarrow> 'b connection \<Rightarrow> 'b net_state \<Rightarrow> 'b net_state" where
  "put_conn p c s = s\<lparr> conns := (conns s)(p := Some c) \<rparr>"

definition upd_conn :: "ptr \<Rightarrow> ('b connection \<Rightarrow> 'b connection) \<Rightarrow> 'b net_state \<Rightarrow> 'b net_state res" where
  "upd_conn p f s = bind_res (get_conn p s) (\<lambda>c. Inr (put_conn p (f c) s))"

definition del_conn :: "ptr \<Rightarrow> 'b net_state \<Rightarrow> 'b net_state" where
  "del_conn p s = log_effect (Delete_conn p) (s\<lparr> conns := (conns s)(p := None) \<rparr>)"

text \<open>The \<open>ThreadData\<close> of a worker, for the operations that hold a pointer to it.\<close>

definition get_td :: "u64 \<Rightarrow> 'b net_state \<Rightarrow> ThreadData res" where
  "get_td i s =
     (case map_find (s_threads_datas s) i of
        Some (Some t) \<Rightarrow> Inr t
      | _ \<Rightarrow> Inl Null_deref)"

definition put_td :: "u64 \<Rightarrow> ThreadData \<Rightarrow> 'b net_state \<Rightarrow> 'b net_state" where
  "put_td i t s = s\<lparr> s_threads_datas := map_put i (Some t) (s_threads_datas s) \<rparr>"

section \<open>Laws\<close>

lemma get_conn_Inr: "get_conn p s = Inr c \<longleftrightarrow> p \<noteq> NULLP \<and> conns s p = Some c"
  by (auto simp: get_conn_def split: option.splits)

lemma put_conn_simps [simp, net_simps]:
  "conns (put_conn p c s) = (conns s)(p := Some c)"
  "s_threads_datas (put_conn p c s) = s_threads_datas s"
  "s_msg_processers (put_conn p c s) = s_msg_processers s"
  "s_conns_map (put_conn p c s) = s_conns_map s"
  "s_connect_conns (put_conn p c s) = s_connect_conns s"
  "curr_conns (put_conn p c s) = curr_conns s"
  "effects (put_conn p c s) = effects s"
  "s_last_thread_id (put_conn p c s) = s_last_thread_id s"
  "s_cntor_callback (put_conn p c s) = s_cntor_callback s"
  "s_net_setting (put_conn p c s) = s_net_setting s"
  "s_cnt (put_conn p c s) = s_cnt s"
  by (simp_all add: put_conn_def)

lemma log_effect_simps [simp, net_simps]:
  "conns (log_effect e s) = conns s"
  "s_threads_datas (log_effect e s) = s_threads_datas s"
  "s_msg_processers (log_effect e s) = s_msg_processers s"
  "s_conns_map (log_effect e s) = s_conns_map s"
  "s_connect_conns (log_effect e s) = s_connect_conns s"
  "curr_conns (log_effect e s) = curr_conns s"
  "effects (log_effect e s) = effects s @ [e]"
  "s_last_thread_id (log_effect e s) = s_last_thread_id s"
  "s_cntor_callback (log_effect e s) = s_cntor_callback s"
  "s_net_setting (log_effect e s) = s_net_setting s"
  "s_cnt (log_effect e s) = s_cnt s"
  by (simp_all add: log_effect_def)

lemma del_conn_simps [simp, net_simps]:
  "conns (del_conn p s) = (conns s)(p := None)"
  "s_threads_datas (del_conn p s) = s_threads_datas s"
  "s_msg_processers (del_conn p s) = s_msg_processers s"
  "s_conns_map (del_conn p s) = s_conns_map s"
  "s_connect_conns (del_conn p s) = s_connect_conns s"
  "curr_conns (del_conn p s) = curr_conns s"
  "effects (del_conn p s) = effects s @ [Delete_conn p]"
  "s_last_thread_id (del_conn p s) = s_last_thread_id s"
  "s_cntor_callback (del_conn p s) = s_cntor_callback s"
  "s_net_setting (del_conn p s) = s_net_setting s"
  "s_cnt (del_conn p s) = s_cnt s"
  by (simp_all add: del_conn_def)

lemma put_td_simps [simp, net_simps]:
  "conns (put_td i t s) = conns s"
  "s_msg_processers (put_td i t s) = s_msg_processers s"
  "s_conns_map (put_td i t s) = s_conns_map s"
  "s_connect_conns (put_td i t s) = s_connect_conns s"
  "curr_conns (put_td i t s) = curr_conns s"
  "effects (put_td i t s) = effects s"
  "s_last_thread_id (put_td i t s) = s_last_thread_id s"
  "s_cntor_callback (put_td i t s) = s_cntor_callback s"
  "s_net_setting (put_td i t s) = s_net_setting s"
  "s_cnt (put_td i t s) = s_cnt s"
  "s_threads_datas (put_td i t s) = map_put i (Some t) (s_threads_datas s)"
  by (simp_all add: put_td_def)

lemma get_td_Inr: "get_td i s = Inr t \<longleftrightarrow> map_find (s_threads_datas s) i = Some (Some t)"
  by (auto simp: get_td_def split: option.splits)

lemma get_td_put_td [simp]: "get_td j (put_td i t s) = (if j = i then Inr t else get_td j s)"
  by (simp add: get_td_def)

lemma get_td_put_conn [simp]: "get_td j (put_conn p c s) = get_td j s"
  "get_td j (log_effect e s) = get_td j s" "get_td j (del_conn p s) = get_td j s"
  by (simp_all add: get_td_def)

end
