(* ===== verification/GF_Frame.thy ===== *)
theory GF_Frame
  imports GF_NetTypes
begin

text \<open>
  The framing of messages on a connection (\<open>message_format\<close> and the first half of \<open>on_write\<close>
  in \<open>src/src/common/net/go_net.cpp\<close>). A frame is the type (4 bytes), the client connection
  (8), the length of the message (4) and the message.

  Shown: \<open>message_format\<close> computes, whatever the extents of the buffer, the function \<open>decode\<close>
  of the bytes it holds; what it delivers does not depend on how the stream was cut into
  reads; and the frames of a list of well-formed messages decode to these messages.
\<close>

section \<open>Reading\<close>

text \<open>The scan for the bytes 13 to 16: \<open>sum\<close> (here \<open>cnt\<close>) counts the bytes seen, the flag is \<open>done\<close>.\<close>

fun scan_iov :: "byte list \<Rightarrow> nat \<Rightarrow> byte list \<Rightarrow> nat \<times> byte list \<times> bool" where
  "scan_iov [] cnt tmp_len = (cnt, tmp_len, False)"
| "scan_iov (b # bs) cnt tmp_len =
     (let cnt' = cnt + 1;
          tmp' = (if 12 < cnt' \<and> cnt' < 17 then tmp_len[cnt' - 13 := b] else tmp_len)
      in if 17 \<le> cnt' then (cnt', tmp', True) else scan_iov bs cnt' tmp')"

fun scan_vecs :: "byte list list \<Rightarrow> nat \<Rightarrow> byte list \<Rightarrow> byte list" where
  "scan_vecs [] cnt tmp_len = tmp_len"
| "scan_vecs (v # vs) cnt tmp_len =
     (case scan_iov v cnt tmp_len of
        (cnt', tmp', d) \<Rightarrow> if d then tmp' else scan_vecs vs cnt' tmp')"

definition peek_msg_len :: "byte list list \<Rightarrow> u32" where
  "peek_msg_len vecs = le_word (scan_vecs vecs 0 [0, 0, 0, 0])"

text \<open>The body of \<open>do { ... } while (false)\<close>: the node for one frame, \<open>None\<close> when its type is
  not in the table. \<open>msg\<close> are the \<open>msg_len + 16\<close> bytes taken from the buffer. Reading the
  type and the client connection needs twelve of them. The result of \<open>ParseFromArray\<close> is
  not looked at. A negative length makes \<open>ParseFromArray\<close> read past its end.\<close>

definition format_node ::
    "msg_processers \<Rightarrow> raw_node \<Rightarrow> ptr \<Rightarrow> byte list \<Rightarrow> int \<Rightarrow> MsgNode option res" where
  "format_node procs raw conn msg msg_len =
     (if length msg < 12 then Inl Overrun
      else (let node = (MsgNode_ctor raw)\<lparr> msg_type := le_word (take 4 msg),
                  cli_conn := le_word (take 8 (drop 4 msg)), msg_conn := conn \<rparr>
            in case map_find procs (msg_type node) of
                 None \<Rightarrow> Inr None
               | Some p \<Rightarrow>
                   bind_res (call_nmd p) (\<lambda>d.
                     if msg_len < 0 then Inl Overrun
                     else bind_res (MsgData_ParseFromArray (take (nat msg_len) (drop 16 msg)) d)
                       (\<lambda>(ok, d'). Inr (Some (node\<lparr> msg_data := Some d' \<rparr>))))))"

text \<open>The \<open>while (sum_size > 16)\<close> loop, over the buffer and the queue of read messages.
  \<open>malloc\<close> with a negative size fails. When the buffer holds fewer bytes than it was told,
  part of the block stays unwritten.\<close>

function message_format_loop ::
    "'b evbuffer_ops \<Rightarrow> msg_processers \<Rightarrow> raw_node \<Rightarrow> ptr \<Rightarrow> int \<Rightarrow> 'b \<Rightarrow> MsgNode list \<Rightarrow>
     ('b \<times> MsgNode list) res" where
  "message_format_loop ops procs raw conn sum_size buffer msgs =
     (if 16 < sum_size then
        (let vecs = evb_peek ops buffer 16
         in if vecs = [] then Inr (buffer, msgs)
            else (let msg_len = sint (peek_msg_len vecs)
                  in if 2 ^ 31 \<le> msg_len + 16 then Inl Int_overflow
                     else if sum_size < msg_len + 16 then Inr (buffer, msgs)
                     else if msg_len + 16 < 0 then Inl Alloc_null
                     else (case evb_remove ops buffer (nat (msg_len + 16)) of
                        (msg, buffer') \<Rightarrow>
                          if length msg < nat (msg_len + 16) then Inl Overrun
                          else if msg_len + 16 < 12 then Inl Overrun
                          else bind_res (format_node procs raw conn msg msg_len)
                            (\<lambda>node. message_format_loop ops procs raw conn (sum_size - (msg_len + 16))
                               buffer' (case node of None \<Rightarrow> msgs | Some n \<Rightarrow> msgs @ [n])))))
      else Inr (buffer, msgs))"
  by pat_completeness auto
termination
  by (relation "measure (\<lambda>(ops, procs, raw, conn, sum_size, buffer, msgs). nat sum_size)") auto

declare message_format_loop.simps [simp del]

text \<open>The callback libevent runs when the bytes of the buffer change. \<open>arg\<close> is the connection
  it was registered with, \<open>own\<close> whether the buffer is that connection's \<open>read_buffer_\<close>,
  \<open>orig_size\<close>, \<open>n_added\<close> and \<open>n_deleted\<close> the report of the change.\<close>

definition message_format ::
    "'b evbuffer_ops \<Rightarrow> msg_processers \<Rightarrow> raw_node \<Rightarrow> bool \<Rightarrow> nat \<Rightarrow> nat \<Rightarrow> nat \<Rightarrow> ptr \<Rightarrow>
     'b connection \<Rightarrow> 'b connection res" where
  "message_format ops procs raw own orig_size n_added n_deleted arg conn =
     (if arg = NULLP \<or> 0 < n_deleted then Inr conn
      else if \<not> own then Inr conn
      else case read_buffer conn of
        None \<Rightarrow> Inl Null_deref
      | Some buffer \<Rightarrow>
          bind_res (message_format_loop ops procs raw arg (sint (of_nat (orig_size + n_added) :: u32))
              buffer (conn_read_msgs conn))
            (\<lambda>(buffer', msgs). Inr (conn\<lparr> read_buffer := Some buffer', conn_read_msgs := msgs \<rparr>)))"

section \<open>Writing\<close>

text \<open>The block \<open>on_write\<close> builds for a node, and what it disposes of afterwards. The three
  stores overlap nothing: the client connection is written before the length.\<close>

definition frame_of :: "MsgNode \<Rightarrow> byte list res" where
  "frame_of msg_node =
     (case msg_data msg_node of
        None \<Rightarrow> Inl Null_deref
      | Some data \<Rightarrow>
          (case MsgData_ByteSize data of
             (msg_data_size, data') \<Rightarrow>
               bind_res (MsgData_SerializeToArray msg_data_size data')
                 (\<lambda>(ok, out). case out of
                    None \<Rightarrow> Inl Overrun
                  | Some payload \<Rightarrow>
                      Inr (le32 (msg_type msg_node) @ le64 (cli_conn msg_node) @
                           le32 (of_nat msg_data_size) @ payload))))"

fun fill_write_buffer ::
    "'b evbuffer_ops \<Rightarrow> msg_processers \<Rightarrow> MsgNode list \<Rightarrow> 'b \<Rightarrow> disposal list \<Rightarrow>
     ('b \<times> disposal list) res" where
  "fill_write_buffer ops procs [] buffer ds = Inr (buffer, ds)"
| "fill_write_buffer ops procs (msg_node # rest) buffer ds =
     bind_res (frame_of msg_node) (\<lambda>buf.
       bind_res (message_free procs (Some msg_node)) (\<lambda>d.
         fill_write_buffer ops procs rest (evb_add ops buffer buf) (ds @ d)))"

section \<open>The decoding of a byte stream\<close>

text \<open>The specification, on the bytes alone: one frame off the front, when more than sixteen
  bytes and the whole frame are there.\<close>

datatype frame_step = Wait | Bad fault | Frame nat int

definition next_frame :: "byte list \<Rightarrow> frame_step" where
  "next_frame bytes =
     (let msg_len = sint (le_word (take 4 (drop 12 bytes)) :: u32)
      in if length bytes \<le> 16 then Wait
         else if 2 ^ 31 \<le> msg_len + 16 then Bad Int_overflow
         else if int (length bytes) < msg_len + 16 then Wait
         else if msg_len + 16 < 0 then Bad Alloc_null
         else if msg_len + 16 < 12 then Bad Overrun
         else Frame (nat (msg_len + 16)) msg_len)"

lemma next_frame_size: "next_frame bytes = Frame k l \<Longrightarrow> 12 \<le> k \<and> k \<le> length bytes"
  by (auto simp: next_frame_def Let_def split: if_splits)

function decode :: "msg_processers \<Rightarrow> raw_node \<Rightarrow> ptr \<Rightarrow> byte list \<Rightarrow> (MsgNode list \<times> byte list) res" where
  "decode procs raw conn bytes =
     (case next_frame bytes of
        Wait \<Rightarrow> Inr ([], bytes)
      | Bad f \<Rightarrow> Inl f
      | Frame k msg_len \<Rightarrow>
          bind_res (format_node procs raw conn (take k bytes) msg_len) (\<lambda>node.
            bind_res (decode procs raw conn (drop k bytes)) (\<lambda>(msgs, rest).
              Inr ((case node of None \<Rightarrow> msgs | Some n \<Rightarrow> n # msgs), rest))))"
  by pat_completeness auto
termination
  by (relation "measure (\<lambda>(procs, raw, conn, bytes). length bytes)") (auto dest!: next_frame_size)

declare decode.simps [simp del]

section \<open>The loop computes the decoding\<close>

lemma scan_iov_append:
  "scan_iov (xs @ ys) cnt tmp =
     (case scan_iov xs cnt tmp of (c, t, d) \<Rightarrow> if d then (c, t, True) else scan_iov ys c t)"
  by (induction xs cnt tmp rule: scan_iov.induct) (simp_all add: Let_def)

lemma scan_vecs_concat: "scan_vecs vs cnt tmp = fst (snd (scan_iov (concat vs) cnt tmp))"
  by (induction vs cnt tmp rule: scan_vecs.induct)
     (auto simp: scan_iov_append split: prod.splits)

lemma scan_sixteen:
  assumes "16 \<le> length xs"
  shows "fst (snd (scan_iov xs 0 [0, 0, 0, 0])) = take 4 (drop 12 xs)"
proof -
  define hd where "hd = take 16 xs"
  define tl where "tl = drop 16 xs"
  have "length hd = 16" using assms by (simp add: hd_def)
  then obtain b0 b1 b2 b3 b4 b5 b6 b7 b8 b9 b10 b11 b12 b13 b14 b15 where
    h: "hd = [b0, b1, b2, b3, b4, b5, b6, b7, b8, b9, b10, b11, b12, b13, b14, b15]"
    by (auto simp: length_Suc_conv eval_nat_numeral)
  have xs: "xs = hd @ tl" by (simp add: hd_def tl_def)
  have "scan_iov hd 0 [0, 0, 0, 0] = (16, [b12, b13, b14, b15], False)"
    by (simp add: h Let_def)
  then show ?thesis
    by (cases tl) (simp_all add: xs scan_iov_append h)
qed

lemma peek_msg_len_bytes:
  assumes "evbuffer_laws ops bytes" and "16 < length (bytes buffer)"
  shows "peek_msg_len (evb_peek ops buffer 16) = le_word (take 4 (drop 12 (bytes buffer)))"
    and "evb_peek ops buffer 16 \<noteq> []"
proof -
  obtain more where m: "bytes buffer = concat (evb_peek ops buffer 16) @ more"
    "16 \<le> length (concat (evb_peek ops buffer 16))"
    using assms unfolding evbuffer_laws_def by (metis less_imp_le)
  from m(2) show "evb_peek ops buffer 16 \<noteq> []" by auto
  show "peek_msg_len (evb_peek ops buffer 16) = le_word (take 4 (drop 12 (bytes buffer)))"
    unfolding peek_msg_len_def scan_vecs_concat scan_sixteen [OF m(2)] using m by simp
qed

text \<open>The result of the loop, seen through the bytes of the buffer.\<close>

definition loop_view :: "('b \<Rightarrow> byte list) \<Rightarrow> ('b \<times> MsgNode list) res \<Rightarrow> (MsgNode list \<times> byte list) res" where
  "loop_view bytes r = bind_res r (\<lambda>(b, m). Inr (m, bytes b))"

lemma message_format_loop_decode:
  assumes "evbuffer_laws ops bytes" and "sum_size = int (length (bytes buffer))"
  shows "loop_view bytes (message_format_loop ops procs raw conn sum_size buffer msgs) =
    bind_res (decode procs raw conn (bytes buffer)) (\<lambda>(ms, r). Inr (msgs @ ms, r))"
  using assms(2)
proof (induction "length (bytes buffer)" arbitrary: sum_size buffer msgs rule: less_induct)
  case less
  note laws = assms(1)
  let ?b = "bytes buffer" and ?vecs = "evb_peek ops buffer 16"
  let ?len = "sint (le_word (take 4 (drop 12 (bytes buffer))) :: u32)"
  have step: "16 < length ?b \<Longrightarrow> peek_msg_len ?vecs = le_word (take 4 (drop 12 ?b)) \<and> ?vecs \<noteq> []"
    using peek_msg_len_bytes [OF laws] by blast
  show ?case
  proof (cases "next_frame ?b")
    case Wait
    then show ?thesis
      using step less.prems
      by (subst message_format_loop.simps, subst decode.simps)
         (auto simp: next_frame_def Let_def loop_view_def split: if_splits)
  next
    case (Bad f)
    then show ?thesis
      using step less.prems
      by (subst message_format_loop.simps, subst decode.simps)
         (auto simp: next_frame_def Let_def loop_view_def evbuffer_lawsD [OF laws]
            split: if_splits prod.splits)
  next
    case (Frame k l)
    then have big: "16 < length ?b" and l: "l = ?len" "k = nat (l + 16)" "12 \<le> l + 16"
      "l + 16 \<le> int (length ?b)" "l + 16 < 2 ^ 31"
      by (auto simp: next_frame_def Let_def split: if_splits)
    obtain msg buffer' where r: "evb_remove ops buffer k = (msg, buffer')" by fastforce
    have msg: "msg = take k ?b" and b': "bytes buffer' = drop k ?b"
      using evbuffer_lawsD(3,4) [OF laws, of buffer k] r by auto
    have unf: "message_format_loop ops procs raw conn sum_size buffer msgs =
      bind_res (format_node procs raw conn msg l)
        (\<lambda>node. message_format_loop ops procs raw conn (sum_size - (l + 16))
          buffer' (case node of None \<Rightarrow> msgs | Some n \<Rightarrow> msgs @ [n]))"
      using big l step [OF big] less.prems r msg
      by (subst message_format_loop.simps) (simp add: Let_def)
    show ?thesis
    proof (cases "format_node procs raw conn msg l")
      case (Inl f)
      then show ?thesis
        using Frame msg by (simp add: unf loop_view_def decode.simps [of procs raw conn ?b])
    next
      case (Inr node)
      let ?m = "case node of None \<Rightarrow> msgs | Some n \<Rightarrow> msgs @ [n]"
      have "loop_view bytes (message_format_loop ops procs raw conn (sum_size - (l + 16)) buffer' ?m) =
        bind_res (decode procs raw conn (drop k ?b)) (\<lambda>(ms, r). Inr (?m @ ms, r))"
        using less.hyps [of buffer' "sum_size - (l + 16)" ?m] l big less.prems by (simp add: b')
      then show ?thesis
        using Frame msg Inr
        by (cases "decode procs raw conn (drop k ?b)")
           (auto simp: unf loop_view_def decode.simps [of procs raw conn ?b] split: option.splits)
    qed
  qed
qed

section \<open>Cutting the stream\<close>

lemma next_frame_append:
  "next_frame xs = Frame k l \<Longrightarrow> next_frame (xs @ ys) = Frame k l"
  "next_frame xs = Bad f \<Longrightarrow> next_frame (xs @ ys) = Bad f"
  by (auto simp: next_frame_def Let_def split: if_splits)

lemma decode_append:
  "decode procs raw conn (xs @ ys) =
     bind_res (decode procs raw conn xs) (\<lambda>(ms, r).
       bind_res (decode procs raw conn (r @ ys)) (\<lambda>(ms', r'). Inr (ms @ ms', r')))"
proof (induction "length xs" arbitrary: xs rule: less_induct)
  case less
  show ?case
  proof (cases "next_frame xs")
    case Wait
    then have "decode procs raw conn xs = Inr ([], xs)" by (simp add: decode.simps)
    then show ?thesis by (cases "decode procs raw conn (xs @ ys)") auto
  next
    case (Bad f)
    then show ?thesis using next_frame_append(2) [OF Bad, of ys]
      by (simp add: decode.simps [of procs raw conn xs] decode.simps [of procs raw conn "xs @ ys"])
  next
    case (Frame k l)
    note k = next_frame_size [OF Frame]
    have IH: "decode procs raw conn (drop k xs @ ys) =
     bind_res (decode procs raw conn (drop k xs)) (\<lambda>(ms, r).
       bind_res (decode procs raw conn (r @ ys)) (\<lambda>(ms', r'). Inr (ms @ ms', r')))"
      by (rule less.hyps) (use k in auto)
    show ?thesis
    proof (cases "format_node procs raw conn (take k xs) l")
      case (Inr node)
      show ?thesis
      proof (cases "decode procs raw conn (drop k xs)")
        case (Inl f)
        with IH Inr Frame next_frame_append(1) [OF Frame, of ys] k show ?thesis
          by (simp add: decode.simps [of procs raw conn xs] decode.simps [of procs raw conn "xs @ ys"])
      next
        case d: (Inr r)
        obtain ms rest where r: "r = (ms, rest)" by fastforce
        show ?thesis
          using d r IH Inr Frame next_frame_append(1) [OF Frame, of ys] k
          by (cases "decode procs raw conn (rest @ ys)")
             (auto simp: decode.simps [of procs raw conn xs] decode.simps [of procs raw conn "xs @ ys"]
                split: option.splits)
      qed
    qed (use Frame next_frame_append(1) [OF Frame, of ys] k in
          \<open>simp add: decode.simps [of procs raw conn xs] decode.simps [of procs raw conn "xs @ ys"]\<close>)
  qed
qed

section \<open>Frames decode to their messages\<close>

text \<open>The messages that can be sent: registered, with data of their class, well-formed and of a
  size the parser accepts.\<close>

definition sendable :: "msg_processers \<Rightarrow> MsgNode \<Rightarrow> bool" where
  "sendable procs n \<longleftrightarrow> (\<exists>d. msg_data n = Some d \<and> MsgData_wf d \<and>
     length (MsgData_bytes d) \<le> kDefaultTotalBytesLimit \<and>
     (\<exists>p f. map_find procs (msg_type n) = Some p \<and> nmd p = Some f \<and>
        MsgData_class (call_new f) = MsgData_class d))"

text \<open>The node the receiver makes of it: the addresses are its own.\<close>

definition delivered :: "raw_node \<Rightarrow> ptr \<Rightarrow> MsgNode \<Rightarrow> MsgNode" where
  "delivered raw conn n = n\<lparr> msg_length := snd (snd raw), msg_conn := conn,
     msg_data := map_option (MsgData_set_cached 0) (msg_data n) \<rparr>"

definition frame_bytes :: "MsgNode \<Rightarrow> byte list" where
  "frame_bytes n = (case msg_data n of None \<Rightarrow> [] | Some d \<Rightarrow>
     le32 (msg_type n) @ le64 (cli_conn n) @ le32 (of_nat (length (MsgData_bytes d))) @ MsgData_bytes d)"

lemma frame_of_bytes: "msg_data n \<noteq> None \<Longrightarrow> frame_of n = Inr (frame_bytes n)"
  by (auto simp: frame_of_def frame_bytes_def MsgData_ByteSize_eq MsgData_SerializeToArray_fits)

lemma next_frame_frame:
  assumes "msg_data n = Some d" and "MsgData_wf d"
    and "length (MsgData_bytes d) \<le> kDefaultTotalBytesLimit"
  shows "next_frame (frame_bytes n @ rest) =
    Frame (length (frame_bytes n)) (int (length (MsgData_bytes d)))"
proof -
  let ?k = "length (MsgData_bytes d)"
  have lt: "?k < 2 ^ 31" using assms(3) by simp
  then have s: "sint (of_nat ?k :: u32) = int ?k"
    by (simp add: signed_of_nat signed_take_bit_int_eq_self)
  have f: "frame_bytes n @ rest = le32 (msg_type n) @ le64 (cli_conn n) @ le32 (of_nat ?k) @ MsgData_bytes d @ rest"
    using assms(1) by (simp add: frame_bytes_def)
  have "take 4 (drop 12 (frame_bytes n @ rest)) = le32 (of_nat ?k)"
    unfolding f by (simp del: le_bytes.simps)
  then have h: "sint (le_word (take 4 (drop 12 (frame_bytes n @ rest))) :: u32) = int ?k"
    using s by (simp del: le_bytes.simps)
  have len: "length (frame_bytes n) = ?k + 16"
    using assms(1) by (simp add: frame_bytes_def del: le_bytes.simps)
  show ?thesis
    unfolding next_frame_def Let_def h
    using MsgData_wf_nonempty [OF assms(2)] assms(3) len by auto
qed

lemma format_node_frame:
  assumes "sendable procs n" and "msg_data n = Some d"
  shows "format_node procs raw conn (frame_bytes n) (int (length (MsgData_bytes d))) =
    Inr (Some (delivered raw conn n))"
proof -
  let ?k = "length (MsgData_bytes d)"
  from assms obtain p f where s: "MsgData_wf d" "?k \<le> kDefaultTotalBytesLimit"
    "map_find procs (msg_type n) = Some p" "nmd p = Some f" "MsgData_class (call_new f) = MsgData_class d"
    by (auto simp: sendable_def)
  have f: "frame_bytes n = le32 (msg_type n) @ le64 (cli_conn n) @ le32 (of_nat ?k) @ MsgData_bytes d"
    using assms(2) by (simp add: frame_bytes_def)
  have t: "take 4 (frame_bytes n) = le32 (msg_type n)"
    "take 8 (drop 4 (frame_bytes n)) = le64 (cli_conn n)"
    "drop 16 (frame_bytes n) = MsgData_bytes d" "length (frame_bytes n) = ?k + 16"
    unfolding f by (simp_all del: le_bytes.simps)
  have c: "MsgData_cached (call_new f) = 0"
    by (cases f) (simp_all add: Shutdown_Req_SharedCtor_def Shutdown_Res_SharedCtor_def
        Regist_Req_SharedCtor_def Regist_Res_SharedCtor_def)
  show ?thesis
    using s t MsgData_roundtrip [OF s(1,2,5)] assms(2) c
    by (cases n) (simp add: format_node_def Let_def call_nmd_def delivered_def MsgNode_ctor_def
        del: le_bytes.simps)
qed

theorem decode_frames:
  assumes "\<And>n. n \<in> set ns \<Longrightarrow> sendable procs n"
  shows "decode procs raw conn (concat (map frame_bytes ns)) = Inr (map (delivered raw conn) ns, [])"
  using assms
proof (induction ns)
  case Nil
  then show ?case by (simp add: decode.simps next_frame_def)
next
  case (Cons n ns)
  then obtain d where d: "msg_data n = Some d" "MsgData_wf d"
    "length (MsgData_bytes d) \<le> kDefaultTotalBytesLimit"
    by (auto simp: sendable_def)
  show ?case
    using next_frame_frame [OF d, of "concat (map frame_bytes ns)"] Cons
      format_node_frame [OF _ d(1), of procs raw conn]
    by (simp add: decode.simps [of procs raw conn "frame_bytes n @ concat (map frame_bytes ns)"])
qed

section \<open>The send side\<close>

lemma fill_write_buffer_frames:
  assumes "evbuffer_laws ops bytes" and "\<And>n. n \<in> set ns \<Longrightarrow> node_ok procs n"
  shows "\<exists>b ds'. fill_write_buffer ops procs ns buffer ds = Inr (b, ds @ ds') \<and>
    bytes b = bytes buffer @ concat (map frame_bytes ns) \<and>
    [n. Del_node n \<leftarrow> ds'] = ns"
  using assms(2)
proof (induction ns arbitrary: buffer ds)
  case (Cons n ns)
  then have "node_ok procs n" by simp
  then obtain g d where m: "message_free procs (Some n) = Inr [Del_data g d, Del_node n]"
    "msg_data n = Some d" using message_free_ok by blast
  let ?b = "evb_add ops buffer (frame_bytes n)" and ?d = "[Del_data g d, Del_node n]"
  obtain b ds' where "fill_write_buffer ops procs ns ?b (ds @ ?d) = Inr (b, (ds @ ?d) @ ds')"
    "bytes b = bytes ?b @ concat (map frame_bytes ns)" "[n. Del_node n \<leftarrow> ds'] = ns"
    using Cons.IH [of ?b "ds @ ?d"] Cons.prems by auto
  then show ?case
    using m frame_of_bytes [of n] evbuffer_lawsD(5) [OF assms(1)]
    by (intro exI [of _ b] exI [of _ "?d @ ds'"]) simp
qed simp

section \<open>Receiving\<close>

text \<open>What \<open>evbuffer_read\<close> does with the bytes a socket delivers: they are appended to the read
  buffer, and the callback \<open>init_connection\<close> registered runs on the report of it.\<close>

definition receive ::
    "'b evbuffer_ops \<Rightarrow> msg_processers \<Rightarrow> raw_node \<Rightarrow> ptr \<Rightarrow> byte list \<Rightarrow> 'b connection \<Rightarrow>
     'b connection res" where
  "receive ops procs raw self data conn =
     (case read_buffer conn of
        None \<Rightarrow> Inl Null_deref
      | Some b \<Rightarrow>
          message_format ops procs raw True (evb_get_length ops b) (length data) 0 self
            (conn\<lparr> read_buffer := Some (evb_add ops b data) \<rparr>))"

text \<open>What matters of a connection here: the messages read and the bytes still held.\<close>

definition conn_view :: "('b \<Rightarrow> byte list) \<Rightarrow> 'b connection \<Rightarrow> MsgNode list \<times> byte list" where
  "conn_view bytes conn = (conn_read_msgs conn, bytes (the (read_buffer conn)))"

lemma receive_decode:
  assumes "evbuffer_laws ops bytes" and "self \<noteq> NULLP" and "read_buffer conn = Some b"
    and "length (bytes b) + length data < 2 ^ 31"
  shows "(case receive ops procs raw self data conn of
           Inl f \<Rightarrow> decode procs raw self (bytes b @ data) = Inl f
         | Inr conn' \<Rightarrow> \<exists>ms r. decode procs raw self (bytes b @ data) = Inr (ms, r) \<and>
             conn_view bytes conn' = (conn_read_msgs conn @ ms, r) \<and> read_buffer conn' \<noteq> None)"
proof -
  let ?b = "evb_add ops b data"
  have sz: "sint (of_nat (evb_get_length ops b + length data) :: u32) = int (length (bytes ?b))"
    using assms(4) evbuffer_lawsD(2,5) [OF assms(1)]
    by (simp only: signed_of_nat) (simp add: signed_take_bit_int_eq_self)
  have "loop_view bytes (message_format_loop ops procs raw self (int (length (bytes ?b))) ?b (conn_read_msgs conn))
     = bind_res (decode procs raw self (bytes b @ data)) (\<lambda>(ms, r). Inr (conn_read_msgs conn @ ms, r))"
    using message_format_loop_decode [OF assms(1) refl, of procs raw self ?b "conn_read_msgs conn"]
      evbuffer_lawsD(5) [OF assms(1)] by simp
  then show ?thesis
    using assms(2,3) sz
    by (cases "message_format_loop ops procs raw self (int (length (bytes ?b))) ?b (conn_read_msgs conn)";
        cases "decode procs raw self (bytes b @ data)")
       (auto simp: receive_def message_format_def loop_view_def conn_view_def)
qed

lemma decode_rest:
  "decode procs raw conn bs = Inr (ms, r) \<Longrightarrow> next_frame r = Wait \<and> length r \<le> length bs"
proof (induction procs raw conn bs arbitrary: ms rule: decode.induct)
  case (1 procs raw conn bs)
  show ?case
  proof (cases "next_frame bs")
    case (Frame k l)
    then obtain node ms' where "format_node procs raw conn (take k bs) l = Inr node"
      "decode procs raw conn (drop k bs) = Inr (ms', r)"
      using "1.prems" by (subst (asm) decode.simps) (auto split: option.splits)
    with "1.IH" [OF Frame] show ?thesis by fastforce
  qed (use "1.prems" in \<open>auto simp: decode.simps [of procs raw conn bs]\<close>)
qed

lemma decode_wait: "next_frame bs = Wait \<Longrightarrow> decode procs raw conn bs = Inr ([], bs)"
  by (simp add: decode.simps)

text \<open>However a stream is cut into reads, the messages delivered are those of the whole stream.\<close>

lemma receive_chunks:
  assumes "evbuffer_laws ops bytes" and "self \<noteq> NULLP"
    and "read_buffer conn = Some b" and "next_frame (bytes b) = Wait"
    and "length (bytes b) + length (concat chunks) < 2 ^ 31"
  shows "case fold_res (receive ops procs raw self) chunks conn of
           Inl f \<Rightarrow> decode procs raw self (bytes b @ concat chunks) = Inl f
         | Inr conn' \<Rightarrow> \<exists>ms r. decode procs raw self (bytes b @ concat chunks) = Inr (ms, r) \<and>
             conn_view bytes conn' = (conn_read_msgs conn @ ms, r) \<and> read_buffer conn' \<noteq> None"
  using assms(3-5)
proof (induction chunks arbitrary: conn b)
  case Nil
  then show ?case by (simp add: decode_wait conn_view_def)
next
  case (Cons c cs)
  have small: "length (bytes b) + length c < 2 ^ 31" using Cons.prems by simp
  note r = receive_decode [OF assms(1,2) Cons.prems(1) small, of procs raw]
  have app: "decode procs raw self (bytes b @ concat (c # cs)) =
     bind_res (decode procs raw self (bytes b @ c)) (\<lambda>(ms, r).
       bind_res (decode procs raw self (r @ concat cs)) (\<lambda>(ms', r'). Inr (ms @ ms', r')))"
    using decode_append [of procs raw self "bytes b @ c" "concat cs"] by simp
  show ?case
  proof (cases "receive ops procs raw self c conn")
    case (Inl f)
    with r app show ?thesis by simp
  next
    case (Inr conn1)
    with r obtain ms r1 b1 where d: "decode procs raw self (bytes b @ c) = Inr (ms, r1)"
      and v: "conn_view bytes conn1 = (conn_read_msgs conn @ ms, r1)" "read_buffer conn1 = Some b1"
      by auto
    then have b1: "bytes b1 = r1" "conn_read_msgs conn1 = conn_read_msgs conn @ ms"
      by (auto simp: conn_view_def)
    from decode_rest [OF d] have w: "next_frame (bytes b1) = Wait" "length r1 \<le> length (bytes b @ c)"
      using b1 by auto
    then have "length (bytes b1) + length (concat cs) < 2 ^ 31" using Cons.prems b1 by simp
    from Cons.IH [OF v(2) w(1) this] show ?thesis
      using Inr app d b1
      by (cases "decode procs raw self (r1 @ concat cs)") (auto split: sum.splits)
  qed
qed

text \<open>End to end: what one side queues is what the other side reads.\<close>

lemma transport:
  assumes "evbuffer_laws ops bytes" and "self \<noteq> NULLP"
    and "\<And>n. n \<in> set ns \<Longrightarrow> sendable procs n \<and> node_ok procs n"
    and "fill_write_buffer ops procs ns (evb_new ops) [] = Inr (out, ds)"
    and "concat chunks = bytes out" and "length (bytes out) < 2 ^ 31"
    and "read_buffer conn = Some b" and "bytes b = []"
  shows "\<exists>conn'. fold_res (receive ops procs raw self) chunks conn = Inr conn' \<and>
    conn_view bytes conn' = (conn_read_msgs conn @ map (delivered raw self) ns, [])"
proof -
  have out: "bytes out = concat (map frame_bytes ns)"
    using fill_write_buffer_frames [OF assms(1), of ns procs "evb_new ops" "[]"] assms(3,4)
      evbuffer_lawsD(1) [OF assms(1)] by auto
  have "decode procs raw self (bytes b @ concat chunks) = Inr (map (delivered raw self) ns, [])"
    using decode_frames [of ns procs raw self] assms(3,5,8) out by simp
  moreover have "next_frame (bytes b) = Wait" using assms(8) by (simp add: next_frame_def)
  ultimately show ?thesis
    using receive_chunks [OF assms(1,2,7), of chunks procs raw] assms(5,6,8)
    by (auto split: sum.splits)
qed

section \<open>Hostile lengths\<close>

text \<open>The length of a frame is used as it arrives.\<close>

lemma next_frame_negative:
  assumes "16 < length bs" and "sint (le_word (take 4 (drop 12 bs)) :: u32) < 0"
  shows "next_frame bs = Bad Alloc_null \<or> next_frame bs = Bad Overrun \<or>
    (\<exists>k l. next_frame bs = Frame k l \<and> 12 \<le> k \<and> k < 16 \<and> l = int k - 16)"
  using assms by (auto simp: next_frame_def Let_def)

lemma decode_total:
  assumes "procs_ok procs" and "decode procs raw conn bs = Inl f"
  shows "\<exists>xs ys. bs = xs @ ys \<and> 16 < length ys \<and>
    (sint (le_word (take 4 (drop 12 ys)) :: u32) < 0 \<or>
     2 ^ 31 \<le> sint (le_word (take 4 (drop 12 ys)) :: u32) + 16)"
  using assms
proof (induction procs raw conn bs rule: decode.induct)
  case (1 procs raw conn bs)
  show ?case
  proof (cases "next_frame bs")
    case Wait
    with "1.prems" show ?thesis by (simp add: decode_wait)
  next
    case (Bad g)
    then show ?thesis by (intro exI [of _ "[]"] exI [of _ bs]) (auto simp: next_frame_def Let_def split: if_splits)
  next
    case (Frame k l)
    show ?thesis
    proof (cases "l < 0")
      case True
      with Frame show ?thesis
        by (intro exI [of _ "[]"] exI [of _ bs]) (auto simp: next_frame_def Let_def split: if_splits)
    next
      case False
      have "\<exists>node. format_node procs raw conn (take k bs) l = Inr node"
      proof -
        have "\<not> length (take k bs) < 12" using next_frame_size [OF Frame] by simp
        moreover have "\<exists>r. MsgData_ParseFromArray data d = Inr r" for data d
          using MsgData_ParseFromArray_total [of data d] by blast
        ultimately show ?thesis
          using False "1.prems"(1)
          by (fastforce simp: format_node_def Let_def procs_ok_def proc_ok_def call_nmd_def
              split: option.splits)
      qed
      then obtain node where n: "format_node procs raw conn (take k bs) l = Inr node" by blast
      have "decode procs raw conn (drop k bs) = Inl f"
        using "1.prems"(2) Frame n by (subst (asm) decode.simps) (auto simp: bind_res_Inl)
      from "1.IH" [OF Frame "1.prems"(1) this] obtain xs ys where
        "drop k bs = xs @ ys" "16 < length ys \<and> (sint (le_word (take 4 (drop 12 ys)) :: u32) < 0 \<or>
         2 ^ 31 \<le> sint (le_word (take 4 (drop 12 ys)) :: u32) + 16)" by blast
      moreover have "bs = (take k bs @ xs) @ ys"
        using \<open>drop k bs = xs @ ys\<close> append_take_drop_id [of k bs] by simp
      ultimately show ?thesis by blast
    qed
  qed
qed

end
