(* ===== verification/GF_Conn.thy ===== *)
theory GF_Conn
  imports GF_Frame
begin

text \<open>
  The life of a \<open>Connection\<close> in \<open>src/src/common/net/go_net.cpp\<close>: creation
  (\<open>create_conn\<close>, \<open>init_connection\<close>), its state word, re-arming its events
  (\<open>update_event\<close>) and its disposal (\<open>clear_connection\<close>, \<open>conn_internal_close\<close>).

  The results of \<open>dup\<close>, \<open>event_add\<close> and \<open>event_del\<close> and the address \<open>new\<close> returns are
  arguments. Shown: the table of connections maps every descriptor to the connection that
  holds it and this survives creation and disposal; creation either enters the table and
  counts the connection, or leaves both alone; what is closed on each path.
\<close>

abbreviation EV_READ :: u32 where "EV_READ \<equiv> 0x02"
abbreviation EV_WRITE :: u32 where "EV_WRITE \<equiv> 0x04"
abbreviation EV_PERSIST :: u32 where "EV_PERSIST \<equiv> 0x10"

section \<open>Events\<close>

text \<open>\<open>event_set\<close> followed by \<open>event_base_set\<close>.\<close>

definition event_set :: "ptr \<Rightarrow> int \<Rightarrow> event" where
  "event_set base fd = \<lparr> ev_base = base, ev_fd = fd, ev_pending = False \<rparr>"

section \<open>State\<close>

text \<open>\<open>now\<close> is what \<open>get_s_time()\<close> returns.\<close>

definition conn_set_state :: "int \<Rightarrow> ptr \<Rightarrow> ConnState \<Rightarrow> 'b net_state \<Rightarrow> 'b net_state res" where
  "conn_set_state now p st s =
     upd_conn p (\<lambda>c. if state c \<noteq> st
                     then (if st = CS_CLOSE then c\<lparr> state := st, close_time := now \<rparr>
                           else c\<lparr> state := st \<rparr>)
                     else c) s"

definition conn_get_state :: "ptr \<Rightarrow> 'b net_state \<Rightarrow> ConnState res" where
  "conn_get_state p s = bind_res (get_conn p s) (\<lambda>c. Inr (state c))"

definition conn_close :: "int \<Rightarrow> ptr \<Rightarrow> 'b net_state \<Rightarrow> 'b net_state res" where
  "conn_close now p s = conn_set_state now p CS_CLOSE s"

section \<open>Creation and disposal\<close>

definition init_connection :: "'b evbuffer_ops \<Rightarrow> ptr \<Rightarrow> 'b net_state \<Rightarrow> 'b net_state res" where
  "init_connection ops p s =
     (if p = NULLP then Inr s
      else upd_conn p (\<lambda>c. c\<lparr> sfd := -1, sfd_dup_for_write := -1, can_read := False, can_write := False,
             read_buffer := Some (evb_new ops), write_buffer := Some (evb_new ops),
             buffers_freed := False \<rparr>) s)"

text \<open>The buffers are released but the pointers to them stay; releasing them again is undefined.\<close>

definition clear_connection :: "ptr \<Rightarrow> 'b net_state \<Rightarrow> 'b net_state res" where
  "clear_connection p s =
     (if p = NULLP then Inr s
      else bind_res (get_conn p s) (\<lambda>c.
        if (read_buffer c \<noteq> None \<or> write_buffer c \<noteq> None) \<and> buffers_freed c then Inl (Dangling p)
        else Inr (put_conn p (c\<lparr> buffers_freed := read_buffer c \<noteq> None \<or> write_buffer c \<noteq> None \<rparr>) s)))"

record create_env =
  ce_new :: ptr
  ce_dup :: int
  ce_add_read :: int
  ce_add_write :: int

text \<open>The part behind \<open>if (_ret)\<close>: everything acquired so far is given back.\<close>

definition create_conn_undo :: "ptr \<Rightarrow> ptr \<Rightarrow> 'b net_state \<Rightarrow> (ptr \<times> 'b net_state) res" where
  "create_conn_undo p pre s =
     bind_res (get_conn p s) (\<lambda>c.
       let s1 = (if sfd_dup_for_write c \<noteq> -1
                 then log_effect (Close (sfd_dup_for_write c)) (put_conn p (c\<lparr> sfd_dup_for_write := -1 \<rparr>) s)
                 else s)
       in bind_res (get_conn p s1) (\<lambda>c1.
            let s2 = (if sfd c1 \<noteq> -1
                      then log_effect (Close (sfd c1)) (put_conn p (c1\<lparr> sfd := -1 \<rparr>) s1)
                      else s1)
            in bind_res (clear_connection p s2) (\<lambda>s3.
                 Inr (NULLP, if pre = NULLP then del_conn p s3 else s3))))"

text \<open>The attributes and the events of the new connection.\<close>

definition create_conn_attributes ::
    "create_env \<Rightarrow> int \<Rightarrow> ConnState \<Rightarrow> ptr \<Rightarrow> 'b connection \<Rightarrow> 'b connection" where
  "create_conn_attributes env fd conn_state ebase c =
     (let c = c\<lparr> sfd := fd \<rparr>;
          c = (if conn_state \<noteq> CS_LISTEN
               then c\<lparr> sfd_dup_for_write := ce_dup env, state := conn_state \<rparr> else c);
          c = c\<lparr> read_event := event_set ebase fd \<rparr>
      in if conn_state \<noteq> CS_LISTEN then c\<lparr> write_event := event_set ebase (sfd_dup_for_write c) \<rparr>
         else c)"

definition create_conn ::
    "'b evbuffer_ops \<Rightarrow> create_env \<Rightarrow> int \<Rightarrow> ConnState \<Rightarrow> ptr \<Rightarrow> ptr \<Rightarrow> 'b net_state \<Rightarrow>
     (ptr \<times> 'b net_state) res" where
  "create_conn ops env fd conn_state ebase pre s =
     (if fd < 0 then Inr (NULLP, s)
      else if ebase = NULLP then Inr (NULLP, s)
      else if map_find (s_conns_map s) fd \<noteq> None then Inr (NULLP, s)
      else
        (let p = (if pre = NULLP then ce_new env else pre);
             s1 = (if pre = NULLP then put_conn p new_Connection s else s)
         in bind_res (init_connection ops p s1) (\<lambda>s2.
            bind_res (upd_conn p (create_conn_attributes env fd conn_state ebase) s2) (\<lambda>s3.
              if ce_add_read env = -1 then create_conn_undo p pre s3
              else bind_res (upd_conn p (\<lambda>c. c\<lparr> read_event := (read_event c)\<lparr> ev_pending := True \<rparr> \<rparr>) s3) (\<lambda>s4.
                if conn_state \<noteq> CS_LISTEN \<and> ce_add_write env = -1 then create_conn_undo p pre s4
                else bind_res
                  (if conn_state \<noteq> CS_LISTEN
                   then upd_conn p (\<lambda>c. c\<lparr> write_event := (write_event c)\<lparr> ev_pending := True \<rparr> \<rparr>) s4
                   else Inr s4)
                  (\<lambda>s5. Inr (p, s5\<lparr> s_conns_map := map_put fd p (s_conns_map s5),
                                    curr_conns := curr_conns s5 + 1 \<rparr>)))))))"

text \<open>\<open>del_result\<close> and \<open>add_result\<close> are what \<open>event_del\<close> and \<open>event_add\<close> return.\<close>

definition update_event ::
    "int \<Rightarrow> int \<Rightarrow> ptr \<Rightarrow> u32 \<Rightarrow> 'b net_state \<Rightarrow> (bool \<times> 'b net_state) res" where
  "update_event del_result add_result p evt s =
     (if p = NULLP then Inr (False, s)
      else bind_res (get_conn p s) (\<lambda>c.
        let base = (if evt = EV_READ then ev_base (read_event c)
                    else if evt = EV_WRITE then ev_base (write_event c) else NULLP);
            fd = (if evt = EV_READ then sfd c else if evt = EV_WRITE then sfd_dup_for_write c else -1);
            put = (\<lambda>e c. if evt = EV_READ then c\<lparr> read_event := e \<rparr> else c\<lparr> write_event := e \<rparr>)
        in if base = NULLP then Inr (False, s)
           else if del_result = -1 then Inr (False, s)
           else if add_result = -1 then Inr (False, put_conn p (put (event_set base fd) c) s)
           else Inr (True, put_conn p (put ((event_set base fd)\<lparr> ev_pending := True \<rparr>) c) s)))"

text \<open>The second test is on the duplicate again, not on \<open>sfd_\<close>.\<close>

definition conn_internal_close :: "ptr \<Rightarrow> 'b net_state \<Rightarrow> 'b net_state res" where
  "conn_internal_close p s =
     bind_res (get_conn p s) (\<lambda>c.
       let s1 = (if map_find (s_conns_map s) (sfd c) \<noteq> None
                 then s\<lparr> s_conns_map := map_erase (sfd c) (s_conns_map s) \<rparr> else s)
       in bind_res (clear_connection p s1) (\<lambda>s2.
          bind_res (upd_conn p (\<lambda>c. c\<lparr> read_event := (read_event c)\<lparr> ev_pending := False \<rparr>,
                                       write_event := (write_event c)\<lparr> ev_pending := False \<rparr> \<rparr>) s2) (\<lambda>s3.
            let s4 = (if sfd_dup_for_write c \<noteq> -1
                      then log_effect (Close (sfd_dup_for_write c)) s3 else s3);
                s5 = (if sfd_dup_for_write c \<noteq> -1 then log_effect (Close (sfd c)) s4 else s4)
            in Inr (s5\<lparr> curr_conns := curr_conns s5 - 1 \<rparr>))))"

section \<open>Lemmas\<close>

lemma upd_conn_Inr: "upd_conn p f s = Inr s' \<longleftrightarrow>
    p \<noteq> NULLP \<and> (\<exists>c. conns s p = Some c \<and> s' = put_conn p (f c) s)"
  by (auto simp: upd_conn_def get_conn_Inr)

lemma get_conn_put_conn [simp]:
  "p \<noteq> NULLP \<Longrightarrow> get_conn p (put_conn p c s) = Inr c"
  "q \<noteq> p \<Longrightarrow> get_conn q (put_conn p c s) = get_conn q s"
  "get_conn q (log_effect e s) = get_conn q s"
  "get_conn q (s\<lparr> s_conns_map := m \<rparr>) = get_conn q s"
  "get_conn q (s\<lparr> curr_conns := n \<rparr>) = get_conn q s"
  by (simp_all add: get_conn_def)

lemma put_conn_twice [simp]: "put_conn p c (put_conn p c' s) = put_conn p c s"
  by (simp add: put_conn_def)

text \<open>The table of connections: every descriptor leads to a live connection that holds it.\<close>

definition conns_map_ok :: "'b net_state \<Rightarrow> bool" where
  "conns_map_ok s \<longleftrightarrow> map_ok (s_conns_map s) \<and>
     (\<forall>fd p. map_find (s_conns_map s) fd = Some p \<longrightarrow>
        p \<noteq> NULLP \<and> (\<exists>c. conns s p = Some c \<and> sfd c = fd))"

text \<open>What \<open>create_conn\<close> leaves on success.\<close>

definition created :: "'b evbuffer_ops \<Rightarrow> create_env \<Rightarrow> int \<Rightarrow> ConnState \<Rightarrow> ptr \<Rightarrow> 'b connection \<Rightarrow> 'b connection" where
  "created ops env fd conn_state ebase c =
     c\<lparr> sfd := fd,
        sfd_dup_for_write := (if conn_state \<noteq> CS_LISTEN then ce_dup env else -1),
        state := (if conn_state \<noteq> CS_LISTEN then conn_state else state c),
        can_read := False, can_write := False,
        read_event := \<lparr> ev_base = ebase, ev_fd = fd, ev_pending = True \<rparr>,
        write_event := (if conn_state \<noteq> CS_LISTEN
          then \<lparr> ev_base = ebase, ev_fd = ce_dup env, ev_pending = True \<rparr> else write_event c),
        read_buffer := Some (evb_new ops), write_buffer := Some (evb_new ops),
        buffers_freed := False \<rparr>"

lemma create_conn_success:
  assumes "0 \<le> fd" and "ebase \<noteq> NULLP" and "map_find (s_conns_map s) fd = None"
    and "p = (if pre = NULLP then ce_new env else pre)" and "p \<noteq> NULLP"
    and "if pre = NULLP then c = new_Connection else conns s pre = Some c"
    and "ce_add_read env \<noteq> -1" and "conn_state = CS_LISTEN \<or> ce_add_write env \<noteq> -1"
  shows "create_conn ops env fd conn_state ebase pre s =
    Inr (p, put_conn p (created ops env fd conn_state ebase c) s
       \<lparr> s_conns_map := map_put fd p (s_conns_map s), curr_conns := curr_conns s + 1 \<rparr>)"
proof -
  define s1 where "s1 = (if pre = NULLP then put_conn p new_Connection s else s)"
  have c1: "get_conn p s1 = Inr c" using assms(4-6) by (auto simp: s1_def get_conn_Inr split: if_splits)
  have pc: "put_conn p x s1 = put_conn p x s" for x by (simp add: s1_def)
  show ?thesis
    using assms(1-3,5,7,8) c1
    by (cases c) (auto simp: create_conn_def assms(4) [symmetric] s1_def [symmetric] init_connection_def
        upd_conn_def pc created_def create_conn_attributes_def event_set_def Let_def)
qed

text \<open>What a failed creation leaves: the descriptors \<open>fds\<close> closed in this order, the object gone
  if it was created here, everything else as before.\<close>

definition backed_out :: "ptr \<Rightarrow> ptr \<Rightarrow> int list \<Rightarrow> 'b net_state \<Rightarrow> 'b net_state \<Rightarrow> bool" where
  "backed_out p pre fds s s' \<longleftrightarrow>
     s_conns_map s' = s_conns_map s \<and> curr_conns s' = curr_conns s \<and>
     s_threads_datas s' = s_threads_datas s \<and> s_connect_conns s' = s_connect_conns s \<and>
     s_cntor_callback s' = s_cntor_callback s \<and> s_msg_processers s' = s_msg_processers s \<and>
     s_net_setting s' = s_net_setting s \<and>
     (\<forall>q. q \<noteq> p \<longrightarrow> conns s' q = conns s q) \<and>
     (pre = NULLP \<longleftrightarrow> conns s' p = None) \<and>
     effects s' = effects s @ map Close fds @ (if pre = NULLP then [Delete_conn p] else [])"

lemma create_conn_undo_result:
  assumes "get_conn p s = Inr c" and "p \<noteq> NULLP" and "\<not> buffers_freed c" and "sfd c \<noteq> -1"
  shows "\<exists>s'. create_conn_undo p pre s = Inr (NULLP, s') \<and>
    backed_out p pre (filter (\<lambda>d. d \<noteq> -1) [sfd_dup_for_write c, sfd c]) s s'"
  using assms by (auto simp: create_conn_undo_def clear_connection_def backed_out_def Let_def)

text \<open>A failed \<open>event_add\<close>.\<close>

lemma create_conn_event_fails:
  assumes "0 \<le> fd" and "ebase \<noteq> NULLP" and "map_find (s_conns_map s) fd = None"
    and "p = (if pre = NULLP then ce_new env else pre)" and "p \<noteq> NULLP"
    and "pre = NULLP \<or> conns s pre \<noteq> None"
    and "ce_add_read env = -1 \<or> conn_state \<noteq> CS_LISTEN \<and> ce_add_write env = -1"
  shows "\<exists>s'. create_conn ops env fd conn_state ebase pre s = Inr (NULLP, s') \<and>
    backed_out p pre
      (filter (\<lambda>d. d \<noteq> -1) [if conn_state \<noteq> CS_LISTEN then ce_dup env else -1, fd]) s s'"
proof -
  define s1 where "s1 = (if pre = NULLP then put_conn p new_Connection s else s)"
  obtain c where c1: "get_conn p s1 = Inr c"
    using assms(4-6) by (cases "pre = NULLP") (auto simp: s1_def get_conn_Inr)
  have undo: "\<exists>s'. create_conn_undo p pre (put_conn p x s1) = Inr (NULLP, s') \<and>
      backed_out p pre (filter (\<lambda>d. d \<noteq> -1) [dp, fd]) s s'"
    if "sfd x = fd" "sfd_dup_for_write x = dp" "\<not> buffers_freed x" for x dp
  proof -
    have "sfd x \<noteq> -1" using that(1) assms(1) by simp
    with create_conn_undo_result [of p "put_conn p x s1" x pre] that assms(5) obtain s' where
      "create_conn_undo p pre (put_conn p x s1) = Inr (NULLP, s')"
      "backed_out p pre (filter (\<lambda>d. d \<noteq> -1) [dp, fd]) (put_conn p x s1) s'" by auto
    then show ?thesis by (intro exI [of _ s']) (auto simp: backed_out_def s1_def)
  qed
  show ?thesis
    using assms(1-3,5,7) c1
    unfolding create_conn_def Let_def assms(4) [symmetric] s1_def [symmetric]
    by (auto simp: init_connection_def upd_conn_def create_conn_attributes_def event_set_def Let_def
        simp del: filter.simps intro!: undo)
qed

text \<open>The three ways a creation ends, for an address \<open>p\<close> that is new or preallocated.\<close>

definition addr_ok :: "ptr \<Rightarrow> ptr \<Rightarrow> 'b net_state \<Rightarrow> bool" where
  "addr_ok new pre s \<longleftrightarrow>
     (if pre = NULLP then new \<noteq> NULLP \<and> conns s new = None
      else conns s pre \<noteq> None) \<and>
     (\<forall>fd. map_find (s_conns_map s) fd \<noteq> Some (if pre = NULLP then new else pre))"

lemma create_conn_result:
  assumes "addr_ok (ce_new env) pre s"
  obtains (refused) "fd < 0 \<or> ebase = NULLP \<or> map_find (s_conns_map s) fd \<noteq> None"
      "create_conn ops env fd conn_state ebase pre s = Inr (NULLP, s)"
  | (undone) s' p where "p = (if pre = NULLP then ce_new env else pre)"
      "create_conn ops env fd conn_state ebase pre s = Inr (NULLP, s')"
      "backed_out p pre (filter (\<lambda>d. d \<noteq> -1) [if conn_state \<noteq> CS_LISTEN then ce_dup env else -1, fd]) s s'"
  | (made) p c where "p = (if pre = NULLP then ce_new env else pre)" "p \<noteq> NULLP"
      "if pre = NULLP then c = new_Connection else conns s pre = Some c"
      "0 \<le> fd" "map_find (s_conns_map s) fd = None"
      "create_conn ops env fd conn_state ebase pre s =
        Inr (p, put_conn p (created ops env fd conn_state ebase c) s
          \<lparr> s_conns_map := map_put fd p (s_conns_map s), curr_conns := curr_conns s + 1 \<rparr>)"
proof (cases "fd < 0 \<or> ebase = NULLP \<or> map_find (s_conns_map s) fd \<noteq> None")
  case True
  then show thesis by (intro refused) (auto simp: create_conn_def)
next
  case False
  then have ok: "0 \<le> fd" "ebase \<noteq> NULLP" "map_find (s_conns_map s) fd = None" by auto
  define p where "p = (if pre = NULLP then ce_new env else pre)"
  have p: "p \<noteq> NULLP" "pre = NULLP \<or> conns s pre \<noteq> None"
    using assms by (auto simp: addr_ok_def p_def split: if_splits)
  show thesis
  proof (cases "ce_add_read env = -1 \<or> conn_state \<noteq> CS_LISTEN \<and> ce_add_write env = -1")
    case True
    from create_conn_event_fails [OF ok p_def p True] show thesis
      using undone [OF p_def] by blast
  next
    case add: False
    obtain c where c: "if pre = NULLP then c = new_Connection else conns s pre = Some c"
      using p(2) by (cases "pre = NULLP") auto
    show thesis
      using create_conn_success [OF ok p_def p(1) c] add made [OF p_def p(1) c ok(1,3)] by blast
  qed
qed

lemma conns_map_okD:
  "conns_map_ok s \<Longrightarrow> map_ok (s_conns_map s)"
  "conns_map_ok s \<Longrightarrow> map_find (s_conns_map s) fd = Some p \<Longrightarrow>
     p \<noteq> NULLP \<and> (\<exists>c. conns s p = Some c \<and> sfd c = fd)"
  by (auto simp: conns_map_ok_def)

lemma conns_map_okI:
  assumes "map_ok (s_conns_map s)"
    and "\<And>fd p. map_find (s_conns_map s) fd = Some p \<Longrightarrow>
       p \<noteq> NULLP \<and> (\<exists>c. conns s p = Some c \<and> sfd c = fd)"
  shows "conns_map_ok s"
  using assms by (auto simp: conns_map_ok_def)

lemma conns_map_ok_create:
  assumes "conns_map_ok s" and "addr_ok (ce_new env) pre s"
    and "create_conn ops env fd conn_state ebase pre s = Inr (r, s')"
  shows "conns_map_ok s'"
  using assms(2)
proof (cases rule: create_conn_result [where ops = ops and fd = fd and ebase = ebase
      and conn_state = conn_state, case_names refused undone made])
  case refused
  with assms show ?thesis by simp
next
  case (undone s'' p)
  with assms have s: "s' = s''" by simp
  have "map_find (s_conns_map s) fd' \<noteq> Some p" for fd'
    using assms(2) undone(1) by (auto simp: addr_ok_def)
  then have other: "q \<noteq> p" if "map_find (s_conns_map s) fd' = Some q" for fd' q using that by blast
  show ?thesis
  proof (rule conns_map_okI)
    fix fd' q assume "map_find (s_conns_map s') fd' = Some q"
    then have "map_find (s_conns_map s) fd' = Some q" using undone(3) by (simp add: s backed_out_def)
    with conns_map_okD(2) [OF assms(1) this] other [OF this] undone(3)
    show "q \<noteq> NULLP \<and> (\<exists>c. conns s' q = Some c \<and> sfd c = fd')" by (simp add: s backed_out_def)
  qed (use conns_map_okD(1) [OF assms(1)] undone(3) in \<open>simp add: s backed_out_def\<close>)
next
  case (made p c)
  from trans [OF assms(3) [symmetric] made(6)] have s: "s' = put_conn p (created ops env fd conn_state ebase c) s
          \<lparr> s_conns_map := map_put fd p (s_conns_map s), curr_conns := curr_conns s + 1 \<rparr>"
    by (simp only: sum.inject prod.inject)
  have "map_find (s_conns_map s) fd' \<noteq> Some p" for fd'
    using assms(2) made(1) by (auto simp: addr_ok_def)
  with assms(1) made(2) show ?thesis
    by (auto simp: s conns_map_ok_def created_def)
qed

text \<open>The count of connections moves with the table.\<close>

lemma create_conn_count:
  assumes "addr_ok (ce_new env) pre s" and "conns_map_ok s"
    and "create_conn ops env fd conn_state ebase pre s = Inr (r, s')"
  shows "curr_conns s' - of_nat (length (s_conns_map s')) = curr_conns s - of_nat (length (s_conns_map s))"
  using assms(1)
proof (cases rule: create_conn_result [where ops = ops and fd = fd and ebase = ebase
      and conn_state = conn_state, case_names refused undone made])
  case (made p c)
  with assms(2,3) show ?thesis by (auto simp: length_map_put conns_map_ok_def)
qed (use assms in \<open>auto simp: backed_out_def\<close>)

section \<open>Disposal\<close>

lemma conn_internal_close_result:
  assumes "get_conn p s = Inr c" and "p \<noteq> NULLP" and "\<not> buffers_freed c"
  shows "\<exists>s' c'. conn_internal_close p s = Inr s' \<and>
    s_conns_map s' = map_erase (sfd c) (s_conns_map s) \<and> curr_conns s' = curr_conns s - 1 \<and>
    s_threads_datas s' = s_threads_datas s \<and> s_msg_processers s' = s_msg_processers s \<and>
    conns s' = (conns s)(p := Some c') \<and>
    close_time c' = close_time c \<and> state c' = state c \<and> sfd c' = sfd c \<and>
    \<not> ev_pending (read_event c') \<and> \<not> ev_pending (write_event c') \<and>
    conn_read_msgs c' = conn_read_msgs c \<and> td c' = td c \<and>
    (read_buffer c \<noteq> None \<longrightarrow> buffers_freed c') \<and>
    effects s' = effects s @
      (if sfd_dup_for_write c \<noteq> -1 then [Close (sfd_dup_for_write c), Close (sfd c)] else [])"
proof -
  have e: "map_find m k = None \<Longrightarrow> map_erase k m = m" for m :: "(int, ptr) std_map" and k
    by (simp add: map_find_None_iff map_find_erase_absent)
  show ?thesis
    using assms
    by (auto simp: conn_internal_close_def clear_connection_def upd_conn_def e Let_def)
qed

lemma conns_map_ok_close:
  assumes "conns_map_ok s" and "get_conn p s = Inr c" and "\<not> buffers_freed c"
    and "conn_internal_close p s = Inr s'"
  shows "conns_map_ok s' \<and> map_find (s_conns_map s') (sfd c) = None"
proof -
  have p: "p \<noteq> NULLP" using assms(2) by (auto simp: get_conn_Inr)
  from conn_internal_close_result [OF assms(2) p assms(3)] assms(4) obtain c' where
    r: "s_conns_map s' = map_erase (sfd c) (s_conns_map s)" "conns s' = (conns s)(p := Some c')"
      "sfd c' = sfd c" by auto
  have "conns_map_ok s'"
  proof (rule conns_map_okI)
    fix fd q assume "map_find (s_conns_map s') fd = Some q"
    then have "fd \<noteq> sfd c" and "map_find (s_conns_map s) fd = Some q"
      using r(1) by (auto simp: map_find_erase conns_map_okD(1) [OF assms(1)] split: if_splits)
    with conns_map_okD(2) [OF assms(1) this(2)] assms(2) r(2)
    show "q \<noteq> NULLP \<and> (\<exists>c. conns s' q = Some c \<and> sfd c = fd)" by (auto simp: get_conn_Inr)
  qed (simp add: r conns_map_okD(1) [OF assms(1)] map_ok_erase)
  then show ?thesis by (simp add: r map_find_erase conns_map_okD(1) [OF assms(1)])
qed

end
