(* ===== verification/GF_Worker.thy ===== *)
theory GF_Worker
  imports GF_Conn
begin

text \<open>
  The threads of \<open>src/src/common/net/go_net.cpp\<close>: how a new connection is handed to a worker
  (\<open>push_worker_new_conn\<close>, \<open>give_worker_new_conn\<close>, \<open>thread_libevent_process\<close>), what a
  worker does on readiness (\<open>event_handler\<close> down to \<open>on_read\<close>, \<open>on_write\<close> and
  \<open>new_connection\<close>), and one round of \<open>data_thread_worker\<close>, phase by phase.

  The answers of the system (accepted descriptors, bytes read, results of writes, of
  \<open>event_add\<close> and \<open>event_del\<close>, the clock) come with the record \<open>io_env\<close>. A phase runs
  under the locks the code takes and is one step here.
\<close>

section \<open>Handing a connection to a worker\<close>

text \<open>\<open>(s_last_thread_id + 1) % net_thread_num_\<close> in unsigned 64-bit arithmetic, stored in an
  \<open>int\<close>; \<open>operator[]\<close> gives a null pointer for a key that is not there.\<close>

definition next_thread :: "'b net_state \<Rightarrow> (u64 \<times> 'b net_state) res" where
  "next_thread s =
     (let n = (scast (net_thread_num (s_net_setting s)) :: u64)
      in if n = 0 then Inl Div_zero
         else (let idx = (ucast ((s_last_thread_id s + 1) mod n) :: u32);
                   key = (scast idx :: u64)
               in Inr (key, s\<lparr> s_last_thread_id := key \<rparr>)))"

text \<open>\<open>written\<close> is the result of writing one byte to the pipe of the worker.\<close>

definition enqueue_conn :: "int \<Rightarrow> ConnInfo \<Rightarrow> 'b net_state \<Rightarrow> 'b net_state res" where
  "enqueue_conn written ci s =
     bind_res (next_thread s) (\<lambda>(key, s1).
       bind_res (get_td key s1) (\<lambda>t.
         let s2 = put_td key (t\<lparr> new_connections := new_connections t @ [ci] \<rparr>) s1
         in Inr (if written = 1 then log_effect (Notify key) s2 else s2)))"

definition push_worker_new_conn :: "int \<Rightarrow> ConnInfo \<Rightarrow> 'b net_state \<Rightarrow> (bool \<times> 'b net_state) res" where
  "push_worker_new_conn written ci s =
     (if pre_new ci = NULLP then Inr (False, s)
      else bind_res (enqueue_conn written ci s) (\<lambda>s'. Inr (True, s')))"

definition give_worker_new_conn ::
    "int \<Rightarrow> int \<Rightarrow> PeerInfo \<Rightarrow> ConnState \<Rightarrow> u32 \<Rightarrow> 'b net_state \<Rightarrow> (bool \<times> 'b net_state) res" where
  "give_worker_new_conn written fd addr conn_state evt_flag s =
     (let ci = \<lparr> ci_sfd = fd, ci_event_flag = evt_flag, ci_state = conn_state,
                 ci_peer_info = addr, pre_new = NULLP \<rparr>
      in bind_res (enqueue_conn written ci s) (\<lambda>s'. Inr (True, s')))"

section \<open>What the system answers\<close>

text \<open>\<open>Read_error b\<close> and \<open>Write_error b\<close>: \<open>b\<close> tells whether \<open>errno\<close> is \<open>EINTR\<close>,
  \<open>EAGAIN\<close> or \<open>EWOULDBLOCK\<close>.\<close>

datatype read_result = Read_data "byte list" | Read_eof | Read_error bool
datatype write_result = Wrote nat | Write_error bool

record accepted =
  ac_sfd :: int
  ac_fcntl :: int
  ac_peer :: PeerInfo
  ac_written :: int

record io_env =
  io_read :: read_result
  io_write :: write_result
  io_accepts :: "accepted list"
  io_del :: int
  io_add :: int
  io_now :: int
  io_raw :: raw_node

section \<open>Readiness\<close>

text \<open>\<open>accept\<close> answers the elements of the list and then fails. The connection is counted
  whether or not it was handed over.\<close>

fun accept_loop :: "accepted list \<Rightarrow> 'b net_state \<Rightarrow> 'b net_state res" where
  "accept_loop [] s = Inr s"
| "accept_loop (a # as) s =
     (if ac_sfd a < 0 then Inr s
      else if ac_fcntl a < 0 then accept_loop as (log_effect (Close (ac_sfd a)) s)
      else bind_res (give_worker_new_conn (ac_written a) (ac_sfd a) (ac_peer a) CS_WAITING
             (EV_READ OR EV_WRITE OR EV_PERSIST) s)
           (\<lambda>(ok, s'). accept_loop as (s'\<lparr> curr_conns := curr_conns s' + 1 \<rparr>)))"

definition new_connection :: "io_env \<Rightarrow> ptr \<Rightarrow> 'b net_state \<Rightarrow> 'b net_state res" where
  "new_connection env p s =
     bind_res (get_conn p s) (\<lambda>c.
       bind_res (accept_loop (io_accepts env) s) (\<lambda>s1.
         bind_res (update_event (io_del env) (io_add env) p EV_READ s1) (\<lambda>(ok, s2). Inr s2)))"

definition on_read :: "'b evbuffer_ops \<Rightarrow> io_env \<Rightarrow> ptr \<Rightarrow> 'b net_state \<Rightarrow> 'b net_state res" where
  "on_read ops env p s =
     (if p = NULLP then Inr s
      else bind_res (conn_get_state p s) (\<lambda>cs.
        if cs = CS_CLOSE then Inr s
        else (case io_read env of
            Read_eof \<Rightarrow>
              bind_res (conn_close (io_now env) p s) (upd_conn p (\<lambda>c. c\<lparr> can_read := False \<rparr>))
          | Read_error again \<Rightarrow>
              bind_res (upd_conn p (\<lambda>c. c\<lparr> can_read := False \<rparr>) s) (\<lambda>s1.
                if \<not> again then
                  bind_res (conn_close (io_now env) p s1) (upd_conn p (\<lambda>c. c\<lparr> can_read := False \<rparr>))
                else bind_res (update_event (io_del env) (io_add env) p EV_READ s1) (\<lambda>(ok, s2).
                  if \<not> ok then
                    bind_res (conn_close (io_now env) p s2) (upd_conn p (\<lambda>c. c\<lparr> can_read := False \<rparr>))
                  else Inr s2))
          | Read_data data \<Rightarrow>
              bind_res (get_conn p s) (\<lambda>c.
                bind_res (receive ops (s_msg_processers s) (io_raw env) p data c) (\<lambda>c'.
                  upd_conn p (\<lambda>c. c\<lparr> can_read := True \<rparr>) (put_conn p c' s))))))"

text \<open>A hard error only clears \<open>can_write_\<close>.\<close>

definition on_write :: "'b evbuffer_ops \<Rightarrow> io_env \<Rightarrow> ptr \<Rightarrow> 'b net_state \<Rightarrow> 'b net_state res" where
  "on_write ops env p s =
     (if p = NULLP then Inr s
      else bind_res (conn_get_state p s) (\<lambda>cs.
        if cs = CS_CLOSE then Inr s
        else bind_res (get_conn p s) (\<lambda>c.
          case write_buffer c of
            None \<Rightarrow> Inl Null_deref
          | Some wb \<Rightarrow>
              bind_res (fill_write_buffer ops (s_msg_processers s) (conn_write_msgs c) wb []) (\<lambda>(wb', ds).
                let c1 = c\<lparr> conn_write_msgs := [], write_buffer := Some wb' \<rparr>;
                    s1 = put_conn p c1 (if ds = [] then s else log_effect (Dispose ds) s)
                in if evb_get_length ops wb' = 0 then
                     upd_conn p (\<lambda>c. c\<lparr> can_write := True \<rparr>) s1
                   else (case io_write env of
                       Write_error again \<Rightarrow>
                         if again then
                           bind_res (update_event (io_del env) (io_add env) p EV_WRITE s1) (\<lambda>(ok, s2).
                             if \<not> ok then conn_close (io_now env) p s2 else Inr s2)
                         else upd_conn p (\<lambda>c. c\<lparr> can_write := False \<rparr>) s1
                     | Wrote n \<Rightarrow>
                         upd_conn p (\<lambda>c. c\<lparr> can_write := True, write_buffer := Some (evb_drain ops wb' n) \<rparr>) s1)))))"

definition process_event :: "'b evbuffer_ops \<Rightarrow> io_env \<Rightarrow> ptr \<Rightarrow> u32 \<Rightarrow> 'b net_state \<Rightarrow> 'b net_state res" where
  "process_event ops env p evt s =
     (if p = NULLP then Inr s
      else bind_res (conn_get_state p s) (\<lambda>cs.
        if cs = CS_LISTEN then new_connection env p s
        else if evt AND EV_READ = EV_READ then on_read ops env p s
        else if evt AND EV_WRITE = EV_WRITE then on_write ops env p s
        else Inr s))"

definition event_handler ::
    "'b evbuffer_ops \<Rightarrow> io_env \<Rightarrow> int \<Rightarrow> u32 \<Rightarrow> ptr \<Rightarrow> 'b net_state \<Rightarrow> 'b net_state res" where
  "event_handler ops env fd which arg s =
     (if arg = NULLP then Inr s
      else bind_res (get_conn arg s) (\<lambda>c.
        if which = EV_READ \<and> fd \<noteq> sfd c then conn_close (io_now env) arg s
        else if which = EV_WRITE \<and> fd \<noteq> sfd_dup_for_write c then conn_close (io_now env) arg s
        else process_event ops env arg which s))"

section \<open>The pipe of a worker\<close>

text \<open>\<open>byte\<close> is what one \<open>read\<close> of the pipe gives, \<open>None\<close> when it fails. The test against
  \<open>thread_connections_\<close> uses the descriptor, though its keys are addresses. A descriptor
  \<open>create_conn\<close> has closed is closed again.\<close>

definition pop_connection :: "u64 \<Rightarrow> 'b net_state \<Rightarrow> (ConnInfo option \<times> 'b net_state) res" where
  "pop_connection i s =
     bind_res (get_td i s) (\<lambda>t.
       case new_connections t of
         [] \<Rightarrow> Inr (None, s)
       | ci # rest \<Rightarrow> Inr (Some ci, put_td i (t\<lparr> new_connections := rest \<rparr>) s))"

definition reject_connection :: "ConnInfo \<Rightarrow> 'b net_state \<Rightarrow> 'b net_state res" where
  "reject_connection ci s =
     (let s1 = (if ci_sfd ci \<noteq> -1 then log_effect (Close (ci_sfd ci)) s else s);
          s2 = (if pre_new ci \<noteq> NULLP \<and> s_cntor_callback s1
                then log_effect (Callback (pre_new ci) False) s1 else s1)
      in bind_res
           (if pre_new ci = NULLP then Inr s2
            else bind_res (get_conn (pre_new ci) s2) (\<lambda>c. Inr (del_conn (pre_new ci) s2)))
           (\<lambda>s3. Inr (log_effect (Delete_info ci) s3)))"

definition thread_libevent_process ::
    "'b evbuffer_ops \<Rightarrow> create_env \<Rightarrow> byte option \<Rightarrow> u64 \<Rightarrow> 'b net_state \<Rightarrow> 'b net_state res" where
  "thread_libevent_process ops env byte i s =
     (case byte of
        None \<Rightarrow> Inr s
      | Some b \<Rightarrow>
          if b \<noteq> 0x63 then Inr s
          else bind_res (pop_connection i s) (\<lambda>(ci_opt, s1).
            case ci_opt of
              None \<Rightarrow> Inl Null_deref
            | Some ci \<Rightarrow>
                bind_res (get_td i s1) (\<lambda>t.
                  bind_res (create_conn ops env (ci_sfd ci) (ci_state ci) (td_event t) (pre_new ci) s1)
                    (\<lambda>(conn, s2).
                      if conn = NULLP then reject_connection ci s2
                      else if map_find (thread_connections t) (of_int (ci_sfd ci)) \<noteq> None
                      then reject_connection ci s2
                      else bind_res (get_td i s2) (\<lambda>t2.
                        let s3 = put_td i (t2\<lparr> thread_connections := map_put conn conn (thread_connections t2) \<rparr>) s2
                        in bind_res (upd_conn conn (\<lambda>c. c\<lparr> td := Some i, info := ci_peer_info ci \<rparr>) s3) (\<lambda>s4.
                          Inr (if pre_new ci \<noteq> NULLP \<and> s_cntor_callback s4
                               then log_effect (Callback (pre_new ci) True) s4 else s4)))))))"

section \<open>One round of a worker\<close>

text \<open>The queued messages go to their connections. A message whose connection this worker does
  not have is disposed of, its data through the table.\<close>

definition discard_node :: "msg_processers \<Rightarrow> MsgNode \<Rightarrow> disposal list res" where
  "discard_node procs n =
     (case map_find procs (msg_type n) of
        None \<Rightarrow> Inr [Del_node n]
      | Some p \<Rightarrow> bind_res (call_dmd p (msg_data n)) (\<lambda>ds. Inr (ds @ [Del_node n])))"

definition distribute_one :: "u64 \<Rightarrow> MsgNode \<Rightarrow> 'b net_state \<Rightarrow> 'b net_state res" where
  "distribute_one i n s =
     bind_res (get_td i s) (\<lambda>t.
       case map_find (thread_connections t) (msg_conn n) of
         None \<Rightarrow> bind_res (discard_node (s_msg_processers s) n) (\<lambda>ds. Inr (log_effect (Dispose ds) s))
       | Some p \<Rightarrow>
           if p = NULLP
           then bind_res (discard_node (s_msg_processers s) n) (\<lambda>ds. Inr (log_effect (Dispose ds) s))
           else upd_conn p (\<lambda>c. c\<lparr> conn_write_msgs := conn_write_msgs c @ [n] \<rparr>) s)"

definition distribute_writes :: "u64 \<Rightarrow> 'b net_state \<Rightarrow> 'b net_state res" where
  "distribute_writes i s =
     bind_res (get_td i s) (\<lambda>t.
       fold_res (distribute_one i) (td_write_msgs t) (put_td i (t\<lparr> td_write_msgs := [] \<rparr>) s))"

text \<open>The messages read go to the queue of the worker, connection after connection.\<close>

definition collect_one :: "u64 \<Rightarrow> u64 \<times> ptr \<Rightarrow> 'b net_state \<Rightarrow> 'b net_state res" where
  "collect_one i kp s =
     bind_res (get_conn (snd kp) s) (\<lambda>c.
       bind_res (get_td i s) (\<lambda>t.
         Inr (put_td i (t\<lparr> td_read_msgs := td_read_msgs t @ conn_read_msgs c \<rparr>)
               (put_conn (snd kp) (c\<lparr> conn_read_msgs := [] \<rparr>) s))))"

definition collect_reads :: "u64 \<Rightarrow> 'b net_state \<Rightarrow> 'b net_state res" where
  "collect_reads i s =
     bind_res (get_td i s) (\<lambda>t. fold_res (collect_one i) (thread_connections t) s)"

text \<open>The connections \<open>net_connect\<close> has queued are handed out. When that fails the code reads
  the \<open>ConnInfo\<close> it has just deleted.\<close>

fun hand_out_connectors :: "(ConnInfo \<Rightarrow> int) \<Rightarrow> ConnInfo list \<Rightarrow> 'b net_state \<Rightarrow> 'b net_state res" where
  "hand_out_connectors written [] s = Inr (s\<lparr> s_connect_conns := [] \<rparr>)"
| "hand_out_connectors written (ci # cis) s =
     bind_res (push_worker_new_conn (written ci) ci s) (\<lambda>(ok, s1).
       if \<not> ok then Inl (Dangling NULLP)
       else hand_out_connectors written cis (s1\<lparr> s_connect_conns := cis \<rparr>))"

definition connect_phase :: "(ConnInfo \<Rightarrow> int) \<Rightarrow> 'b net_state \<Rightarrow> 'b net_state res" where
  "connect_phase written s = hand_out_connectors written (s_connect_conns s) s"

text \<open>Connections that are still readable or writable. \<open>envs\<close> gives the answers for the read
  and for the write of each connection.\<close>

definition io_one ::
    "'b evbuffer_ops \<Rightarrow> (ptr \<Rightarrow> io_env \<times> io_env) \<Rightarrow> u64 \<times> ptr \<Rightarrow> 'b net_state \<Rightarrow> 'b net_state res" where
  "io_one ops envs kp s =
     (let p = snd kp
      in bind_res (conn_get_state p s) (\<lambda>cs.
         if cs = CS_CLOSE then Inr s
         else bind_res (get_conn p s) (\<lambda>c.
           bind_res (if can_read c then process_event ops (fst (envs p)) p EV_READ s else Inr s) (\<lambda>s1.
             bind_res (get_conn p s1) (\<lambda>c1.
               if can_write c1 then process_event ops (snd (envs p)) p EV_WRITE s1 else Inr s1)))))"

definition io_phase ::
    "'b evbuffer_ops \<Rightarrow> (ptr \<Rightarrow> io_env \<times> io_env) \<Rightarrow> u64 \<Rightarrow> 'b net_state \<Rightarrow> 'b net_state res" where
  "io_phase ops envs i s =
     bind_res (get_td i s) (\<lambda>t. fold_res (io_one ops envs) (thread_connections t) s)"

text \<open>What \<open>event_base_loop\<close> runs: callbacks for the pipe and for sockets, in the order of the
  list.\<close>

datatype callback = On_pipe create_env "byte option" | On_socket io_env int u32 ptr

fun run_callback :: "'b evbuffer_ops \<Rightarrow> u64 \<Rightarrow> callback \<Rightarrow> 'b net_state \<Rightarrow> 'b net_state res" where
  "run_callback ops i (On_pipe env byte) s = thread_libevent_process ops env byte i s"
| "run_callback ops i (On_socket env fd which arg) s = event_handler ops env fd which arg s"

definition event_loop :: "'b evbuffer_ops \<Rightarrow> u64 \<Rightarrow> callback list \<Rightarrow> 'b net_state \<Rightarrow> 'b net_state res" where
  "event_loop ops i cbs s = fold_res (run_callback ops i) cbs s"

text \<open>Closed connections: a shutdown message is queued for the logic, the connection is closed
  and kept for later deletion under its closing time. If no message can be made the loop
  does not advance.\<close>

definition reap_one :: "raw_node \<Rightarrow> u64 \<Rightarrow> u64 \<times> ptr \<Rightarrow> u64 list \<times> 'b net_state \<Rightarrow>
    (u64 list \<times> 'b net_state) res" where
  "reap_one raw i kp ids_s =
     (case ids_s of (ids, s) \<Rightarrow>
       bind_res (conn_get_state (snd kp) s) (\<lambda>cs.
         if cs \<noteq> CS_CLOSE then Inr (ids, s)
         else bind_res (get_msgnode raw (s_msg_processers s) (get_type C_Shutdown_Req)) (\<lambda>node.
           case node of
             None \<Rightarrow> Inl Spin
           | Some n \<Rightarrow>
               (case msg_data n of
                  Some (MD_Shutdown_Req req) \<Rightarrow>
                    (let n' = n\<lparr> msg_data := Some (MD_Shutdown_Req (Shutdown_Req_set_code 0 req)),
                                 msg_type := 0, msg_conn := snd kp \<rparr>
                     in bind_res (get_td i s) (\<lambda>t.
                        bind_res (conn_internal_close (snd kp)
                            (put_td i (t\<lparr> td_read_msgs := td_read_msgs t @ [n'] \<rparr>) s)) (\<lambda>s1.
                          bind_res (get_conn (snd kp) s1) (\<lambda>c.
                            bind_res (get_td i s1) (\<lambda>t1.
                              Inr (ids @ [fst kp],
                                   put_td i (t1\<lparr> for_delete_connections :=
                                     map_put (of_int (close_time c)) (snd kp)
                                       (for_delete_connections t1) \<rparr>) s1))))))
                | _ \<Rightarrow> Inl Null_deref))))"

definition reap_phase :: "raw_node \<Rightarrow> u64 \<Rightarrow> 'b net_state \<Rightarrow> 'b net_state res" where
  "reap_phase raw i s =
     bind_res (get_td i s) (\<lambda>t.
       bind_res (fold_res (reap_one raw i) (thread_connections t) ([], s)) (\<lambda>(ids, s1).
         bind_res (get_td i s1) (\<lambda>t1.
           Inr (put_td i (t1\<lparr> thread_connections :=
                  fold map_erase ids (thread_connections t1) \<rparr>) s1))))"

text \<open>Connections closed for more than two minutes are deleted, the oldest first.\<close>

fun purge_loop :: "int \<Rightarrow> (u64, ptr) std_map \<Rightarrow> 'b net_state \<Rightarrow> ((u64, ptr) std_map \<times> 'b net_state) res" where
  "purge_loop now [] s = Inr ([], s)"
| "purge_loop now ((k, p) # rest) s =
     bind_res (get_conn p s) (\<lambda>c.
       if 2 * 60 < now - close_time c then purge_loop now rest (del_conn p s)
       else Inr ((k, p) # rest, s))"

definition purge_phase :: "int \<Rightarrow> u64 \<Rightarrow> 'b net_state \<Rightarrow> 'b net_state res" where
  "purge_phase now i s =
     bind_res (get_td i s) (\<lambda>t.
       bind_res (purge_loop now (for_delete_connections t) s) (\<lambda>(m, s1).
         Inr (put_td i (t\<lparr> for_delete_connections := m \<rparr>) s1)))"

text \<open>The body of the \<open>while (true)\<close> loop.\<close>

record round_env =
  re_now :: int
  re_written :: "ConnInfo \<Rightarrow> int"
  re_io :: "ptr \<Rightarrow> io_env \<times> io_env"
  re_callbacks :: "callback list"
  re_raw :: raw_node

definition data_thread_round ::
    "'b evbuffer_ops \<Rightarrow> round_env \<Rightarrow> u64 \<Rightarrow> 'b net_state \<Rightarrow> 'b net_state res" where
  "data_thread_round ops env i s =
     bind_res (distribute_writes i s) (\<lambda>s1.
     bind_res (collect_reads i s1) (\<lambda>s2.
     bind_res (connect_phase (re_written env) s2) (\<lambda>s3.
     bind_res (io_phase ops (re_io env) i s3) (\<lambda>s4.
     bind_res (event_loop ops i (re_callbacks env) s4) (\<lambda>s5.
     bind_res (reap_phase (re_raw env) i s5) (\<lambda>s6.
     purge_phase (re_now env) i s6))))))"

end
