(* ===== verification/GF_WorkerLaws.thy ===== *)
theory GF_WorkerLaws
  imports GF_Worker
begin

text \<open>
  What one round of \<open>data_thread_worker\<close> does to the queues and tables of the worker: the
  distribution of the messages to send, the collection of the messages read, the removal of
  closed connections and the deletion of old ones. Each phase is given as an exact account
  of the state it leaves, for a worker whose tables are in order (\<open>tables_ok\<close>), and it
  leaves them in order.
\<close>

section \<open>What a worker owns\<close>

text \<open>The tables of a worker: a connection is kept under its own address, it is live, and its
  buffers are there as long as it is in the first table.\<close>

definition tables_ok :: "ThreadData \<Rightarrow> 'b net_state \<Rightarrow> bool" where
  "tables_ok t s \<longleftrightarrow> map_ok (thread_connections t) \<and> map_ok (for_delete_connections t) \<and>
     (\<forall>k p. map_find (thread_connections t) k = Some p \<longrightarrow>
        k = p \<and> p \<noteq> NULLP \<and> (\<exists>c. conns s p = Some c \<and> \<not> buffers_freed c)) \<and>
     (\<forall>k p. map_find (for_delete_connections t) k = Some p \<longrightarrow>
        p \<noteq> NULLP \<and> map_find (thread_connections t) p = None \<and>
        (\<exists>c. conns s p = Some c \<and> state c = CS_CLOSE \<and> k = of_int (close_time c)))"

lemma tables_okD:
  assumes "tables_ok t s"
  shows "map_ok (thread_connections t)" and "map_ok (for_delete_connections t)"
    and "map_find (thread_connections t) k = Some p \<Longrightarrow>
        k = p \<and> p \<noteq> NULLP \<and> (\<exists>c. conns s p = Some c \<and> \<not> buffers_freed c)"
    and "map_find (for_delete_connections t) k = Some p \<Longrightarrow>
        p \<noteq> NULLP \<and> map_find (thread_connections t) p = None \<and>
        (\<exists>c. conns s p = Some c \<and> state c = CS_CLOSE \<and> k = of_int (close_time c))"
  using assms by (auto simp: tables_ok_def)

text \<open>The connections a worker serves, in the order it visits them.\<close>

definition served :: "ThreadData \<Rightarrow> ptr list" where
  "served t = map snd (thread_connections t)"

lemma tables_ok_keys: "tables_ok t s \<Longrightarrow> map_keys (thread_connections t) = served t"
proof -
  assume ok: "tables_ok t s"
  have "fst x = snd x" if "x \<in> set (thread_connections t)" for x
    using that tables_okD(3) [OF ok] map_find_iff [OF tables_okD(1) [OF ok]]
    by (metis prod.collapse)
  then show ?thesis by (simp add: map_keys_def served_def)
qed

lemma served_live:
  assumes "tables_ok t s" and "p \<in> set (served t)"
  shows "p \<noteq> NULLP \<and> (\<exists>c. get_conn p s = Inr c \<and> \<not> buffers_freed c) \<and>
    map_find (thread_connections t) p = Some p"
proof -
  from assms(2) obtain k where "(k, p) \<in> set (thread_connections t)" by (auto simp: served_def)
  then have "map_find (thread_connections t) k = Some p"
    by (simp add: map_find_iff [OF tables_okD(1) [OF assms(1)]])
  with tables_okD(3) [OF assms(1) this] show ?thesis by (auto simp: get_conn_Inr)
qed

lemma served_distinct: "tables_ok t s \<Longrightarrow> distinct (served t)"
  using tables_ok_keys map_ok_distinct tables_okD(1) by metis

section \<open>Distribution of the messages to send\<close>

text \<open>The connections after the messages \<open>ns\<close> were distributed: each served one has, at the end
  of its queue and in order, those addressed to it.\<close>

definition with_writes :: "ThreadData \<Rightarrow> MsgNode list \<Rightarrow> 'b net_state \<Rightarrow> ptr \<Rightarrow> 'b connection option" where
  "with_writes t ns s p =
     (if p \<in> set (served t)
      then map_option (\<lambda>c. c\<lparr> conn_write_msgs := conn_write_msgs c @ [n\<leftarrow>ns. msg_conn n = p] \<rparr>) (conns s p)
      else conns s p)"

text \<open>Everything but the connections and the log.\<close>

definition same_tables :: "'b net_state \<Rightarrow> 'b net_state \<Rightarrow> bool" where
  "same_tables s s' \<longleftrightarrow>
     s_threads_datas s' = s_threads_datas s \<and> s_msg_processers s' = s_msg_processers s \<and>
     s_conns_map s' = s_conns_map s \<and> curr_conns s' = curr_conns s \<and>
     s_connect_conns s' = s_connect_conns s \<and> s_cntor_callback s' = s_cntor_callback s"

lemma same_tables_trans: "same_tables a b \<Longrightarrow> same_tables b c \<Longrightarrow> same_tables a c"
  by (simp add: same_tables_def)

lemma same_tables_get_td: "same_tables s s' \<Longrightarrow> get_td i s' = get_td i s"
  by (simp add: same_tables_def get_td_def)

lemma same_tables_simps [simp]: "same_tables s (put_conn p c s)" "same_tables s (log_effect e s)"
  by (simp_all add: same_tables_def)

lemma discard_node_ok: "procs_ok procs \<Longrightarrow> \<exists>ds. discard_node procs n = Inr ds"
  by (fastforce simp: discard_node_def call_dmd_def procs_ok_def proc_ok_def split: option.splits)

lemma map_option_ident: "(\<And>c. f c = c) \<Longrightarrow> map_option f x = x"
  by (cases x) simp_all

lemma distribute_one_step:
  assumes "get_td i s = Inr t" and "tables_ok t s" and "procs_ok (s_msg_processers s)"
  shows "\<exists>s'. distribute_one i n s = Inr s' \<and> same_tables s s' \<and> conns s' = with_writes t [n] s"
proof (cases "map_find (thread_connections t) (msg_conn n)")
  case None
  then have "msg_conn n \<noteq> p" if "p \<in> set (served t)" for p
    using served_live [OF assms(2) that] by auto
  then have "with_writes t [n] s = conns s"
    by (auto simp: with_writes_def fun_eq_iff intro!: map_option_ident)
  with None assms(1) discard_node_ok [OF assms(3), of n] show ?thesis
    by (auto simp: distribute_one_def)
next
  case (Some p)
  from tables_okD(3) [OF assms(2) Some] obtain c where p: "msg_conn n = p" "p \<noteq> NULLP" "conns s p = Some c"
    by auto
  have "p \<in> set (served t)"
    using Some map_find_in by (force simp: served_def)
  then have "with_writes t [n] s = (conns s)(p \<mapsto> c\<lparr> conn_write_msgs := conn_write_msgs c @ [n] \<rparr>)"
    using p by (auto simp: with_writes_def fun_eq_iff intro!: map_option_ident)
  then show ?thesis
    using Some p assms(1) by (simp add: distribute_one_def upd_conn_def get_conn_def)
qed

lemma with_writes_append:
  assumes "conns s1 = with_writes t xs s"
  shows "with_writes t ys s1 = with_writes t (xs @ ys) s"
  by (rule ext) (simp add: with_writes_def assms option.map_comp o_def)

lemma tables_ok_keep:
  assumes "tables_ok t s"
    and "\<And>p c. conns s p = Some c \<Longrightarrow> \<exists>c'. conns s' p = Some c' \<and>
      buffers_freed c' = buffers_freed c \<and> state c' = state c \<and> close_time c' = close_time c"
  shows "tables_ok t s'"
  unfolding tables_ok_def
proof (intro conjI allI impI)
  fix k p assume m: "map_find (thread_connections t) k = Some p"
  note d = tables_okD(3) [OF assms(1) m]
  then show "k = p" "p \<noteq> NULLP" by auto
  from d obtain c where "conns s p = Some c" "\<not> buffers_freed c" by blast
  with assms(2) show "\<exists>c. conns s' p = Some c \<and> \<not> buffers_freed c" by metis
next
  fix k p assume m: "map_find (for_delete_connections t) k = Some p"
  note d = tables_okD(4) [OF assms(1) m]
  then show "p \<noteq> NULLP" "map_find (thread_connections t) p = None" by auto
  from d obtain c where "conns s p = Some c" "state c = CS_CLOSE" "k = of_int (close_time c)" by blast
  with assms(2) show "\<exists>c. conns s' p = Some c \<and> state c = CS_CLOSE \<and> k = of_int (close_time c)" by metis
qed (use tables_okD(1,2) [OF assms(1)] in auto)

lemma tables_ok_writes:
  assumes "tables_ok t s" and "conns s' = with_writes t ns s"
  shows "tables_ok t s'"
proof (rule tables_ok_keep [OF assms(1)])
  fix p c assume "conns s p = Some c"
  then show "\<exists>c'. conns s' p = Some c' \<and> buffers_freed c' = buffers_freed c \<and> state c' = state c \<and>
     close_time c' = close_time c"
    by (auto simp: assms(2) with_writes_def)
qed

lemma distribute_fold:
  assumes "get_td i s = Inr t" and "tables_ok t s" and "procs_ok (s_msg_processers s)"
  shows "\<exists>s'. fold_res (distribute_one i) ns s = Inr s' \<and> same_tables s s' \<and> conns s' = with_writes t ns s"
  using assms
proof (induction ns arbitrary: s)
  case Nil
  then show ?case by (auto simp: with_writes_def same_tables_def fun_eq_iff map_option_ident)
next
  case (Cons n ns)
  from distribute_one_step [OF Cons.prems, of n] obtain s1 where
    s1: "distribute_one i n s = Inr s1" "same_tables s s1" "conns s1 = with_writes t [n] s" by blast
  have "get_td i s1 = Inr t" using same_tables_get_td [OF s1(2)] Cons.prems(1) by simp
  moreover have "procs_ok (s_msg_processers s1)" using s1(2) Cons.prems(3) by (simp add: same_tables_def)
  ultimately obtain s2 where "fold_res (distribute_one i) ns s1 = Inr s2" "same_tables s1 s2"
    "conns s2 = with_writes t ns s1"
    using Cons.IH tables_ok_writes [OF Cons.prems(2) s1(3)] by blast
  then show ?case
    using s1 same_tables_trans [OF s1(2)] with_writes_append [OF s1(3), of ns] by auto
qed

text \<open>The phase: the worker's queue is empty afterwards, every message is at the end of the queue
  of the connection it names, in order.\<close>

lemma distribute_writes_result:
  assumes "get_td i s = Inr t" and "tables_ok t s" and "procs_ok (s_msg_processers s)"
  shows "\<exists>s'. distribute_writes i s = Inr s' \<and> get_td i s' = Inr (t\<lparr> td_write_msgs := [] \<rparr>) \<and>
    conns s' = with_writes t (td_write_msgs t) s \<and> tables_ok (t\<lparr> td_write_msgs := [] \<rparr>) s' \<and>
    (\<forall>j. j \<noteq> i \<longrightarrow> get_td j s' = get_td j s) \<and> s_conns_map s' = s_conns_map s \<and>
    s_msg_processers s' = s_msg_processers s"
proof -
  let ?t = "t\<lparr> td_write_msgs := [] \<rparr>"
  let ?s = "put_td i ?t s"
  have ok: "tables_ok ?t ?s" using assms(2) by (simp add: tables_ok_def)
  have w: "with_writes ?t ns ?s = with_writes t ns s" for ns by (simp add: with_writes_def served_def fun_eq_iff)
  from distribute_fold [of i ?s ?t "td_write_msgs t"] ok assms(3) obtain s' where
    f: "fold_res (distribute_one i) (td_write_msgs t) ?s = Inr s'" "same_tables ?s s'"
      "conns s' = with_writes ?t (td_write_msgs t) ?s" by auto
  have td: "get_td j s' = get_td j ?s" for j by (rule same_tables_get_td [OF f(2)])
  have "tables_ok ?t s'" by (rule tables_ok_writes [OF ok f(3)])
  then show ?thesis
    using assms(1) f td w by (auto simp: distribute_writes_def same_tables_def)
qed

section \<open>Collection of the messages read\<close>

definition without_reads :: "ptr set \<Rightarrow> 'b net_state \<Rightarrow> ptr \<Rightarrow> 'b connection option" where
  "without_reads ps s p =
     (if p \<in> ps then map_option (\<lambda>c. c\<lparr> conn_read_msgs := [] \<rparr>) (conns s p) else conns s p)"

definition read_queue :: "'b net_state \<Rightarrow> ptr \<Rightarrow> MsgNode list" where
  "read_queue s p = (case conns s p of None \<Rightarrow> [] | Some c \<Rightarrow> conn_read_msgs c)"

lemma collect_fold:
  assumes "get_td i s = Inr t" and "distinct (map snd xs)"
    and "\<And>p. p \<in> set (map snd xs) \<Longrightarrow> p \<noteq> NULLP \<and> conns s p \<noteq> None"
  shows "\<exists>s'. fold_res (collect_one i) xs s = Inr s' \<and>
    get_td i s' = Inr (t\<lparr> td_read_msgs := td_read_msgs t @ concat (map (read_queue s) (map snd xs)) \<rparr>) \<and>
    conns s' = without_reads (set (map snd xs)) s \<and>
    (\<forall>j. j \<noteq> i \<longrightarrow> get_td j s' = get_td j s) \<and> s_conns_map s' = s_conns_map s \<and>
    s_msg_processers s' = s_msg_processers s"
  using assms
proof (induction xs arbitrary: s t)
  case Nil
  then show ?case by (simp add: without_reads_def fun_eq_iff)
next
  case (Cons x xs)
  obtain k p where x: "x = (k, p)" by fastforce
  from Cons.prems(3) [of p] x obtain c where c: "p \<noteq> NULLP" "conns s p = Some c" by auto
  let ?t = "t\<lparr> td_read_msgs := td_read_msgs t @ conn_read_msgs c \<rparr>"
  let ?s = "put_td i ?t (put_conn p (c\<lparr> conn_read_msgs := [] \<rparr>) s)"
  have one: "collect_one i x s = Inr ?s"
    using Cons.prems(1) c x by (simp add: collect_one_def get_conn_def)
  have others: "read_queue ?s q = read_queue s q" if "q \<in> set (map snd xs)" for q
    using that Cons.prems(2) x by (auto simp: read_queue_def)
  have pr: "get_td i ?s = Inr ?t" "distinct (map snd xs)"
    "\<And>q. q \<in> set (map snd xs) \<Longrightarrow> q \<noteq> NULLP \<and> conns ?s q \<noteq> None"
    using Cons.prems x by auto
  obtain s' where
    s': "fold_res (collect_one i) xs ?s = Inr s'"
    "get_td i s' = Inr (?t\<lparr> td_read_msgs := td_read_msgs ?t @ concat (map (read_queue ?s) (map snd xs)) \<rparr>)"
    "conns s' = without_reads (set (map snd xs)) ?s"
    "\<forall>j. j \<noteq> i \<longrightarrow> get_td j s' = get_td j ?s" "s_conns_map s' = s_conns_map ?s"
    "s_msg_processers s' = s_msg_processers ?s"
    using Cons.IH [OF pr] by blast
  have "concat (map (read_queue ?s) (map snd xs)) = concat (map (read_queue s) (map snd xs))"
    using others by (intro arg_cong [of _ _ concat] map_cong) auto
  moreover have "conns s' = without_reads (set (map snd (x # xs))) s"
    using s'(3) c x Cons.prems(2) by (auto simp: without_reads_def fun_eq_iff)
  moreover have "read_queue s p = conn_read_msgs c" using c by (simp add: read_queue_def)
  moreover have "get_td j s' = get_td j s" if "j \<noteq> i" for j using s'(4) that by simp
  ultimately show ?case using one s'(1,2,5,6) x by (intro exI [of _ s']) simp
qed

lemma collect_reads_result:
  assumes "get_td i s = Inr t" and "tables_ok t s"
  shows "\<exists>s'. collect_reads i s = Inr s' \<and>
    get_td i s' = Inr (t\<lparr> td_read_msgs := td_read_msgs t @ concat (map (read_queue s) (served t)) \<rparr>) \<and>
    conns s' = without_reads (set (served t)) s \<and> tables_ok t s' \<and>
    (\<forall>j. j \<noteq> i \<longrightarrow> get_td j s' = get_td j s) \<and> s_conns_map s' = s_conns_map s \<and>
    s_msg_processers s' = s_msg_processers s"
proof -
  have live: "p \<noteq> NULLP \<and> conns s p \<noteq> None" if "p \<in> set (map snd (thread_connections t))" for p
    using served_live [OF assms(2), of p] that by (auto simp: served_def get_conn_Inr)
  from collect_fold [OF assms(1), of "thread_connections t", OF _ live] served_distinct [OF assms(2)]
  obtain s' where s': "fold_res (collect_one i) (thread_connections t) s = Inr s'"
    "get_td i s' = Inr (t\<lparr> td_read_msgs := td_read_msgs t @ concat (map (read_queue s) (served t)) \<rparr>)"
    "conns s' = without_reads (set (served t)) s"
    "\<forall>j. j \<noteq> i \<longrightarrow> get_td j s' = get_td j s" "s_conns_map s' = s_conns_map s"
    "s_msg_processers s' = s_msg_processers s"
    by (auto simp: served_def)
  have "tables_ok t s'"
    by (rule tables_ok_keep [OF assms(2)]) (auto simp: s'(3) without_reads_def)
  then show ?thesis using assms(1) s' by (auto simp: collect_reads_def)
qed

section \<open>Closed connections\<close>

definition is_closed :: "'b net_state \<Rightarrow> ptr \<Rightarrow> bool" where
  "is_closed s p \<longleftrightarrow> (\<exists>c. conns s p = Some c \<and> state c = CS_CLOSE)"

definition shutdown_note :: "raw_node \<Rightarrow> ptr \<Rightarrow> MsgNode" where
  "shutdown_note raw p = (MsgNode_ctor raw)\<lparr> msg_type := 0,
     msg_data := Some (MD_Shutdown_Req (Shutdown_Req_set_code 0 Shutdown_Req_SharedCtor)), msg_conn := p \<rparr>"

text \<open>The table has the shutdown request, as \<open>protocol_init\<close> leaves it.\<close>

definition knows_shutdown :: "msg_processers \<Rightarrow> bool" where
  "knows_shutdown procs \<longleftrightarrow> (\<exists>q. map_find procs 0 = Some q \<and> nmd q = Some new_Shutdown_req)"

definition closing_time :: "'b net_state \<Rightarrow> ptr \<Rightarrow> int" where
  "closing_time s p = (case conns s p of None \<Rightarrow> 0 | Some c \<Rightarrow> close_time c)"

definition keep_for_deletion :: "'b net_state \<Rightarrow> ptr list \<Rightarrow> (u64, ptr) std_map \<Rightarrow> (u64, ptr) std_map" where
  "keep_for_deletion s ps m = fold (\<lambda>p. map_put (of_int (closing_time s p)) p) ps m"

text \<open>The shutdown request the table gives, and what becomes of it.\<close>

lemma shutdown_node:
  assumes "knows_shutdown procs"
  shows "\<exists>n. get_msgnode raw procs (get_type C_Shutdown_Req) = Inr (Some n) \<and>
    msg_data n = Some (MD_Shutdown_Req Shutdown_Req_SharedCtor) \<and>
    (\<forall>p. n\<lparr> msg_data := Some (MD_Shutdown_Req (Shutdown_Req_set_code 0 Shutdown_Req_SharedCtor)),
       msg_type := 0, msg_conn := p \<rparr> = shutdown_note raw p)"
proof -
  from assms obtain q where q: "map_find procs 0 = Some q" "nmd q = Some new_Shutdown_req"
    by (auto simp: knows_shutdown_def)
  have "m\<lparr> msg_data := d, msg_type := 0, msg_conn := p \<rparr>
      = m\<lparr> msg_type := 0, msg_data := d, msg_conn := p \<rparr>" for m :: MsgNode and d p
    by (cases m) simp
  with q show ?thesis
    by (simp add: get_msgnode_def call_nmd_def shutdown_note_def)
qed

lemma reap_one_closed:
  assumes "get_td i s = Inr t" and "knows_shutdown (s_msg_processers s)"
    and "p \<noteq> NULLP" and "conns s p = Some c" and "state c = CS_CLOSE" and "\<not> buffers_freed c"
  shows "\<exists>s' c'. reap_one raw i (k, p) (ids, s) = Inr (ids @ [k], s') \<and>
    get_td i s' = Inr (t\<lparr> td_read_msgs := td_read_msgs t @ [shutdown_note raw p],
      for_delete_connections := map_put (of_int (close_time c)) p (for_delete_connections t) \<rparr>) \<and>
    conns s' = (conns s)(p \<mapsto> c') \<and> state c' = CS_CLOSE \<and> close_time c' = close_time c \<and>
    (\<forall>j. j \<noteq> i \<longrightarrow> get_td j s' = get_td j s) \<and> s_msg_processers s' = s_msg_processers s \<and>
    s_conns_map s' = map_erase (sfd c) (s_conns_map s) \<and> curr_conns s' = curr_conns s - 1"
proof -
  from shutdown_node [OF assms(2), of raw] obtain n where
    n: "get_msgnode raw (s_msg_processers s) (get_type C_Shutdown_Req) = Inr (Some n)"
      "msg_data n = Some (MD_Shutdown_Req Shutdown_Req_SharedCtor)"
      "\<And>p. n\<lparr> msg_data := Some (MD_Shutdown_Req (Shutdown_Req_set_code 0 Shutdown_Req_SharedCtor)),
         msg_type := 0, msg_conn := p \<rparr> = shutdown_note raw p" by blast
  let ?t = "t\<lparr> td_read_msgs := td_read_msgs t @ [shutdown_note raw p] \<rparr>"
  let ?s = "put_td i ?t s"
  have "get_conn p ?s = Inr c" using assms(3,4) by (simp add: get_conn_def)
  from conn_internal_close_result [OF this assms(3,6)] obtain s1 c' where
    s1: "conn_internal_close p ?s = Inr s1" "s_conns_map s1 = map_erase (sfd c) (s_conns_map s)"
      "curr_conns s1 = curr_conns s - 1" "s_threads_datas s1 = s_threads_datas ?s"
      "s_msg_processers s1 = s_msg_processers s" "conns s1 = (conns s)(p \<mapsto> c')"
      "close_time c' = close_time c" "state c' = state c" by auto
  have td: "get_td j s1 = get_td j ?s" for j by (simp add: get_td_def s1(4))
  have cs: "conn_get_state p s = Inr CS_CLOSE"
    using assms(3-5) by (simp add: conn_get_state_def get_conn_def)
  have gc: "get_conn p s1 = Inr c'" using assms(3) s1(6) by (simp add: get_conn_def)
  have "reap_one raw i (k, p) (ids, s) =
    Inr (ids @ [k], put_td i (?t\<lparr> for_delete_connections :=
       map_put (of_int (close_time c)) p (for_delete_connections t) \<rparr>) s1)"
    unfolding reap_one_def using assms(1) cs n s1(1,7) gc td
    by simp
  then show ?thesis using assms(5) s1(2,3,5-8) td by auto
qed

lemma reap_one_open:
  assumes "p \<noteq> NULLP" and "conns s p = Some c" and "state c \<noteq> CS_CLOSE"
  shows "reap_one raw i (k, p) (ids, s) = Inr (ids, s)"
  using assms by (simp add: reap_one_def conn_get_state_def get_conn_def)

text \<open>What reaping the connections \<open>ps\<close>, all of them closed, leaves.\<close>

definition conn_fd :: "'b net_state \<Rightarrow> ptr \<Rightarrow> int" where
  "conn_fd s p = (case conns s p of None \<Rightarrow> -1 | Some c \<Rightarrow> sfd c)"

definition reaped :: "ptr list \<Rightarrow> 'b net_state \<Rightarrow> 'b net_state \<Rightarrow> bool" where
  "reaped ps s s' \<longleftrightarrow>
     (\<forall>q. q \<notin> set ps \<longrightarrow> conns s' q = conns s q) \<and>
     (\<forall>q \<in> set ps. is_closed s' q \<and> closing_time s' q = closing_time s q) \<and>
     s_msg_processers s' = s_msg_processers s \<and>
     s_conns_map s' = fold (\<lambda>q. map_erase (conn_fd s q)) ps (s_conns_map s) \<and>
     curr_conns s' = curr_conns s - of_nat (length ps)"

lemma closed_same:
  "conns s' q = conns s q \<Longrightarrow> is_closed s' q = is_closed s q"
  "conns s' q = conns s q \<Longrightarrow> closing_time s' q = closing_time s q"
  "conns s' q = conns s q \<Longrightarrow> conn_fd s' q = conn_fd s q"
  by (simp_all add: is_closed_def closing_time_def conn_fd_def)

lemma reaped_first:
  assumes "conns s1 = (conns s)(p \<mapsto> c')" and "state c' = CS_CLOSE" and "close_time c' = close_time c"
    and "conns s p = Some c" and "s_msg_processers s1 = s_msg_processers s"
    and "s_conns_map s1 = map_erase (sfd c) (s_conns_map s)" and "curr_conns s1 = curr_conns s - 1"
    and "reaped ps s1 s'" and "p \<notin> set ps"
  shows "reaped (p # ps) s s'"
proof -
  have same: "conns s1 q = conns s q" if "q \<in> set ps" for q using that assms(1,9) by auto
  have p: "conns s' p = Some c'" using assms(1,8,9) by (simp add: reaped_def)
  have "fold (\<lambda>q. map_erase (conn_fd s1 q)) ps m = fold (\<lambda>q. map_erase (conn_fd s q)) ps m" for m :: "(int, ptr) std_map"
    by (rule fold_cong) (simp_all add: conn_fd_def same)
  moreover have "conn_fd s p = sfd c" using assms(4) by (simp add: conn_fd_def)
  moreover have "is_closed s' p \<and> closing_time s' p = closing_time s p"
    using p assms(2-4) by (simp add: is_closed_def closing_time_def)
  moreover have "conns s' q = conns s q" if "q \<noteq> p" "q \<notin> set ps" for q
    using that assms(1,8) by (simp add: reaped_def)
  moreover have "is_closed s' q \<and> closing_time s' q = closing_time s q" if "q \<in> set ps" for q
    using assms(8) closed_same(2) [OF same [OF that]] that by (simp add: reaped_def)
  ultimately show ?thesis using assms(5-8) by (simp add: reaped_def)
qed

lemma keep_for_deletion_Cons:
  "keep_for_deletion s (p # ps) m = keep_for_deletion s ps (map_put (of_int (closing_time s p)) p m)"
  by (simp add: keep_for_deletion_def)

lemma keep_for_deletion_cong:
  "(\<And>q. q \<in> set ps \<Longrightarrow> conns s' q = conns s q) \<Longrightarrow> keep_for_deletion s' ps m = keep_for_deletion s ps m"
  unfolding keep_for_deletion_def by (rule fold_cong) (simp_all add: closing_time_def)

text \<open>The whole outcome, with the queue and the tables of the worker.\<close>

definition reap_outcome ::
    "raw_node \<Rightarrow> u64 \<Rightarrow> ThreadData \<Rightarrow> ptr list \<Rightarrow> 'b net_state \<Rightarrow> 'b net_state \<Rightarrow> bool" where
  "reap_outcome raw i t ps s s' \<longleftrightarrow>
     get_td i s' = Inr (t\<lparr> td_read_msgs := td_read_msgs t @ map (shutdown_note raw) ps,
       for_delete_connections := keep_for_deletion s ps (for_delete_connections t) \<rparr>) \<and>
     reaped ps s s' \<and> (\<forall>j. j \<noteq> i \<longrightarrow> get_td j s' = get_td j s)"

lemma reap_outcome_first:
  assumes "reap_outcome raw i (t\<lparr> td_read_msgs := td_read_msgs t @ [shutdown_note raw p],
      for_delete_connections := map_put (of_int (close_time c)) p (for_delete_connections t) \<rparr>) ps s1 s'"
    and "reaped (p # ps) s s'" and "\<And>q. q \<in> set ps \<Longrightarrow> conns s1 q = conns s q"
    and "conns s p = Some c" and "\<forall>j. j \<noteq> i \<longrightarrow> get_td j s1 = get_td j s"
  shows "reap_outcome raw i t (p # ps) s s'"
  using assms(1,2,5) keep_for_deletion_cong [OF assms(3), of ps]
  by (simp add: reap_outcome_def keep_for_deletion_Cons closing_time_def assms(4))

lemma reap_fold:
  assumes "get_td i s = Inr t" and "knows_shutdown (s_msg_processers s)" and "distinct ps"
    and "\<And>p. p \<in> set ps \<Longrightarrow> p \<noteq> NULLP \<and> (\<exists>c. conns s p = Some c \<and> \<not> buffers_freed c)"
  shows "\<exists>s'. fold_res (reap_one raw i) (map (\<lambda>p. (p, p)) ps) (ids, s) =
      Inr (ids @ filter (is_closed s) ps, s') \<and> reap_outcome raw i t (filter (is_closed s) ps) s s'"
  using assms
proof (induction ps arbitrary: s t ids)
  case Nil
  then show ?case by (simp add: reap_outcome_def reaped_def keep_for_deletion_def)
next
  case (Cons p ps)
  from Cons.prems(4) [of p] obtain c where c: "p \<noteq> NULLP" "conns s p = Some c" "\<not> buffers_freed c" by auto
  have ps: "p \<notin> set ps" "distinct ps" using Cons.prems(3) by auto
  show ?case
  proof (cases "state c = CS_CLOSE")
    case False
    then have "\<not> is_closed s p" using c by (simp add: is_closed_def)
    moreover have "q \<noteq> NULLP \<and> (\<exists>c. conns s q = Some c \<and> \<not> buffers_freed c)" if "q \<in> set ps" for q
      using Cons.prems(4) [of q] that by simp
    ultimately show ?thesis
      using Cons.IH [OF Cons.prems(1,2) ps(2), of ids] reap_one_open [OF c(1,2) False] by simp
  next
    case True
    let ?t = "t\<lparr> td_read_msgs := td_read_msgs t @ [shutdown_note raw p],
      for_delete_connections := map_put (of_int (close_time c)) p (for_delete_connections t) \<rparr>"
    from reap_one_closed [OF Cons.prems(1,2) c(1,2) True c(3), of raw p ids] obtain s1 c' where
      s1: "reap_one raw i (p, p) (ids, s) = Inr (ids @ [p], s1)" "get_td i s1 = Inr ?t"
        "conns s1 = (conns s)(p \<mapsto> c')" "state c' = CS_CLOSE" "close_time c' = close_time c"
        "\<forall>j. j \<noteq> i \<longrightarrow> get_td j s1 = get_td j s" "s_msg_processers s1 = s_msg_processers s"
        "s_conns_map s1 = map_erase (sfd c) (s_conns_map s)" "curr_conns s1 = curr_conns s - 1" by blast
    have same: "conns s1 q = conns s q" if "q \<in> set ps" for q using that s1(3) ps(1) by auto
    have fc: "filter (is_closed s1) ps = filter (is_closed s) ps"
      by (rule filter_cong) (simp_all add: closed_same(1) [OF same])
    have kn: "knows_shutdown (s_msg_processers s1)" using s1(7) Cons.prems(2) by simp
    have pr: "q \<noteq> NULLP \<and> (\<exists>c. conns s1 q = Some c \<and> \<not> buffers_freed c)" if "q \<in> set ps" for q
      using Cons.prems(4) [of q] that same [OF that] by simp
    let ?c = "filter (is_closed s) ps"
    from Cons.IH [OF s1(2) kn ps(2) pr, of "ids @ [p]"] obtain s' where
      s': "fold_res (reap_one raw i) (map (\<lambda>p. (p, p)) ps) (ids @ [p], s1) = Inr ((ids @ [p]) @ ?c, s')"
        "reap_outcome raw i ?t ?c s1 s'"
      unfolding fc by blast
    have "reaped ?c s1 s'" using s'(2) by (simp only: reap_outcome_def)
    moreover have "p \<notin> set ?c" using ps(1) by simp
    ultimately have "reaped (p # ?c) s s'"
      using reaped_first [OF s1(3-5) c(2) s1(7-9)] by blast
    then have o: "reap_outcome raw i t (p # ?c) s s'"
      using reap_outcome_first [OF s'(2) _ _ c(2) s1(6)] same by simp
    have "is_closed s p" using c(2) True by (simp add: is_closed_def)
    then have "filter (is_closed s) (p # ps) = p # ?c" by simp
    with s1(1) s'(1) o show ?thesis by (intro exI [of _ s']) simp
  qed
qed

lemma keep_for_deletion_ok: "map_ok m \<Longrightarrow> map_ok (keep_for_deletion s ps m)"
  unfolding keep_for_deletion_def by (induction ps arbitrary: m) auto

lemma keep_for_deletion_find:
  "map_find (keep_for_deletion s ps m) k = Some p \<Longrightarrow>
     map_find m k = Some p \<or> p \<in> set ps \<and> k = of_int (closing_time s p)"
proof (induction ps arbitrary: m)
  case (Cons q ps)
  from Cons.IH [OF Cons.prems [unfolded keep_for_deletion_Cons]] show ?case
    by (auto split: if_splits)
qed (simp add: keep_for_deletion_def)

text \<open>Every closing time of a connection reaped has an entry: the last one reaped with it.\<close>

lemma keep_for_deletion_last:
  "map_find (keep_for_deletion s (ps @ [p]) m) (of_int (closing_time s p)) = Some p"
  by (simp add: keep_for_deletion_def)

lemma keep_for_deletion_one_of:
  "distinct ps \<Longrightarrow> p \<in> set ps \<Longrightarrow>
   \<exists>q \<in> set ps. map_find (keep_for_deletion s ps m) (of_int (closing_time s p)) = Some q \<and>
     (of_int (closing_time s q) :: u64) = of_int (closing_time s p)"
proof (induction ps rule: rev_induct)
  case (snoc q ps)
  then show ?case
    by (auto simp: keep_for_deletion_def)
qed simp

lemma fold_erase_ok: "map_ok m \<Longrightarrow> map_ok (fold map_erase ks m)"
  by (induction ks arbitrary: m) auto

lemma fold_erase_find:
  "map_ok m \<Longrightarrow> map_find (fold map_erase ks m) k = (if k \<in> set ks then None else map_find m k)"
  by (induction ks arbitrary: m) (auto simp: map_find_erase)

text \<open>The phase. The closed connections leave the table, each after one shutdown message for the
  logic; the others are not touched.\<close>

lemma reap_phase_result:
  assumes "get_td i s = Inr t" and "tables_ok t s" and "knows_shutdown (s_msg_processers s)"
  shows "\<exists>s'. reap_phase raw i s = Inr s' \<and>
    get_td i s' = Inr (t\<lparr>
      td_read_msgs := td_read_msgs t @ map (shutdown_note raw) (filter (is_closed s) (served t)),
      for_delete_connections := keep_for_deletion s (filter (is_closed s) (served t)) (for_delete_connections t),
      thread_connections := fold map_erase (filter (is_closed s) (served t)) (thread_connections t) \<rparr>) \<and>
    reaped (filter (is_closed s) (served t)) s s' \<and> (\<forall>j. j \<noteq> i \<longrightarrow> get_td j s' = get_td j s)"
proof -
  have keys: "thread_connections t = map (\<lambda>p. (p, p)) (served t)"
  proof (rule nth_equalityI)
    fix n assume "n < length (thread_connections t)"
    then show "thread_connections t ! n = map (\<lambda>p. (p, p)) (served t) ! n"
      using arg_cong [OF tables_ok_keys [OF assms(2)], of "\<lambda>l. l ! n"]
      by (simp add: map_keys_def served_def prod_eq_iff)
  qed (simp add: served_def)
  have live: "p \<noteq> NULLP \<and> (\<exists>c. conns s p = Some c \<and> \<not> buffers_freed c)" if "p \<in> set (served t)" for p
    using served_live [OF assms(2) that] by (auto simp: get_conn_Inr)
  from reap_fold [OF assms(1,3) served_distinct [OF assms(2)] live, of raw "[]"] obtain s' where
    s': "fold_res (reap_one raw i) (map (\<lambda>p. (p, p)) (served t)) ([], s) =
        Inr (filter (is_closed s) (served t), s')"
      and o: "reap_outcome raw i t (filter (is_closed s) (served t)) s s'" by auto
  have put: "reaped ps s (put_td i x s') = reaped ps s s'" for ps x
    by (simp add: reaped_def is_closed_def closing_time_def)
  show ?thesis
    unfolding reap_phase_def using assms(1) s' o put by (simp add: keys [symmetric] reap_outcome_def)
qed

text \<open>It leaves the tables in order: what is served stays served unless it was closed.\<close>

lemma reap_tables:
  assumes "tables_ok t s" and "ps = filter (is_closed s) (served t)" and "reaped ps s s'"
    and "thread_connections t' = fold map_erase ps (thread_connections t)"
    and "for_delete_connections t' = keep_for_deletion s ps (for_delete_connections t)"
  shows "tables_ok t' s'"
proof -
  note ok = tables_okD [OF assms(1)]
  have find: "map_find (thread_connections t') k =
    (if k \<in> set ps then None else map_find (thread_connections t) k)" for k
    unfolding assms(4) by (rule fold_erase_find [OF ok(1)])
  have old: "p \<noteq> NULLP \<and> map_find (thread_connections t') p = None \<and> is_closed s' p \<and>
      k = of_int (closing_time s' p)" if m: "map_find (for_delete_connections t) k = Some p" for k :: u64 and p
  proof -
    note d = ok(4) [OF m]
    have "p \<notin> set ps"
    proof
      assume "p \<in> set ps"
      then have "p \<in> set (served t)" by (simp add: assms(2))
      from served_live [OF assms(1) this] d show False by simp
    qed
    then have same: "conns s' p = conns s p" using assms(3) by (simp add: reaped_def)
    have "is_closed s p" "k = of_int (closing_time s p)"
      using d by (auto simp: is_closed_def closing_time_def)
    with d show ?thesis by (simp add: find closed_same [OF same])
  qed
  have new: "p \<noteq> NULLP \<and> map_find (thread_connections t') p = None \<and> is_closed s' p \<and>
      k = of_int (closing_time s' p)" if "p \<in> set ps" "k = of_int (closing_time s p)" for k :: u64 and p
  proof -
    have "p \<in> set (served t)" using that(1) by (simp add: assms(2))
    from served_live [OF assms(1) this] have "p \<noteq> NULLP" by simp
    with that assms(3) show ?thesis by (simp add: find reaped_def)
  qed
  show ?thesis
    unfolding tables_ok_def
  proof (intro conjI allI impI)
    show "map_ok (thread_connections t')" by (simp add: assms(4) fold_erase_ok [OF ok(1)])
    show "map_ok (for_delete_connections t')" by (simp add: assms(5) keep_for_deletion_ok ok(2))
  next
    fix k p assume "map_find (thread_connections t') k = Some p"
    then have m: "k \<notin> set ps" "map_find (thread_connections t) k = Some p"
      by (simp_all add: find split: if_splits)
    from ok(3) [OF m(2)] show "k = p" "p \<noteq> NULLP" by auto
    then have "conns s' p = conns s p" using m(1) assms(3) by (simp add: reaped_def)
    with ok(3) [OF m(2)] show "\<exists>c. conns s' p = Some c \<and> \<not> buffers_freed c" by simp
  next
    fix k p assume "map_find (for_delete_connections t') k = Some p"
    then have "map_find (for_delete_connections t) k = Some p \<or> p \<in> set ps \<and> k = of_int (closing_time s p)"
      using keep_for_deletion_find by (simp add: assms(5))
    then have "p \<noteq> NULLP \<and> map_find (thread_connections t') p = None \<and> is_closed s' p \<and>
      k = of_int (closing_time s' p)" using old new by blast
    then show "p \<noteq> NULLP" "map_find (thread_connections t') p = None"
      "\<exists>c. conns s' p = Some c \<and> state c = CS_CLOSE \<and> k = of_int (close_time c)"
      by (auto simp: is_closed_def closing_time_def)
  qed
qed

lemma served_iff:
  assumes "tables_ok t s"
  shows "p \<in> set (served t) \<longleftrightarrow> map_find (thread_connections t) p = Some p"
  using served_live [OF assms, of p] map_find_in [of "thread_connections t" p p]
  by (force simp: served_def image_iff)

lemma reap_phase_tables:
  assumes "get_td i s = Inr t" and "tables_ok t s" and "knows_shutdown (s_msg_processers s)"
    and "reap_phase raw i s = Inr s'" and "get_td i s' = Inr t'"
  shows "tables_ok t' s' \<and> set (served t') = {p \<in> set (served t). \<not> is_closed s p}"
proof -
  define ps where "ps = filter (is_closed s) (served t)"
  from reap_phase_result [OF assms(1-3), of raw] assms(4,5) have
    t': "thread_connections t' = fold map_erase ps (thread_connections t)"
      "for_delete_connections t' = keep_for_deletion s ps (for_delete_connections t)"
    and r: "reaped ps s s'" by (auto simp: ps_def)
  have ok: "tables_ok t' s'" by (rule reap_tables [OF assms(2) ps_def r t'])
  have "p \<in> set (served t') \<longleftrightarrow> p \<in> set (served t) \<and> \<not> is_closed s p" for p
    unfolding served_iff [OF ok] served_iff [OF assms(2)]
    using fold_erase_find [OF tables_okD(1) [OF assms(2)], of ps p] served_iff [OF assms(2), of p]
    by (auto simp: t' ps_def)
  with ok show ?thesis by blast
qed

text \<open>Without the shutdown request in the table the loop over the closed connections never
  advances: \<open>net_init\<close> must not serve before \<open>protocol_init\<close>.\<close>

lemma reap_phase_spins:
  assumes "get_td i s = Inr t" and "tables_ok t s" and "p \<in> set (served t)" and "is_closed s p"
    and "map_find (s_msg_processers s) 0 = None"
  shows "reap_phase raw i s = Inl Spin"
proof -
  have node: "get_msgnode raw (s_msg_processers s) (get_type C_Shutdown_Req) = Inr None"
    using assms(5) by (simp add: get_msgnode_def)
  have "fold_res (reap_one raw i) xs (ids, s) = Inl Spin"
    if "\<exists>x \<in> set xs. is_closed s (snd x)"
      "\<And>x. x \<in> set xs \<Longrightarrow> snd x \<noteq> NULLP \<and> conns s (snd x) \<noteq> None" for xs ids
    using that
  proof (induction xs)
    case (Cons x xs)
    obtain k q where x: "x = (k, q)" by fastforce
    with Cons.prems(2) [of x] obtain c where c: "q \<noteq> NULLP" "conns s q = Some c" by auto
    show ?case
    proof (cases "state c = CS_CLOSE")
      case True
      then show ?thesis
        using c x node by (simp add: reap_one_def conn_get_state_def get_conn_def)
    next
      case False
      then have "\<not> is_closed s q" using c by (simp add: is_closed_def)
      with Cons x show ?thesis by (simp add: reap_one_open [OF c False])
    qed
  qed simp
  moreover have "\<exists>x \<in> set (thread_connections t). is_closed s (snd x)"
    using assms(3,4) by (auto simp: served_def)
  moreover have "snd x \<noteq> NULLP \<and> conns s (snd x) \<noteq> None" if "x \<in> set (thread_connections t)" for x
    using served_live [OF assms(2), of "snd x"] that by (auto simp: served_def get_conn_Inr)
  ultimately show ?thesis using assms(1) by (simp add: reap_phase_def)
qed

section \<open>Deletion\<close>

definition expired :: "int \<Rightarrow> 'b net_state \<Rightarrow> u64 \<times> ptr \<Rightarrow> bool" where
  "expired now s kp \<longleftrightarrow> 120 < now - closing_time s (snd kp)"

definition without_conns :: "ptr set \<Rightarrow> 'b net_state \<Rightarrow> ptr \<Rightarrow> 'b connection option" where
  "without_conns ps s p = (if p \<in> ps then None else conns s p)"

lemma purge_loop_result:
  assumes "distinct (map snd m)" and "\<And>x. x \<in> set m \<Longrightarrow> snd x \<noteq> NULLP \<and> conns s (snd x) \<noteq> None"
  shows "\<exists>s'. purge_loop now m s = Inr (dropWhile (expired now s) m, s') \<and>
    conns s' = without_conns (snd ` set (takeWhile (expired now s) m)) s \<and>
    effects s' = effects s @ map (Delete_conn \<circ> snd) (takeWhile (expired now s) m) \<and>
    s_threads_datas s' = s_threads_datas s \<and> s_conns_map s' = s_conns_map s \<and>
    curr_conns s' = curr_conns s \<and> s_msg_processers s' = s_msg_processers s"
  using assms
proof (induction m arbitrary: s)
  case Nil
  then show ?case by (simp add: without_conns_def fun_eq_iff)
next
  case (Cons x m)
  obtain k p where x: "x = (k, p)" by fastforce
  from Cons.prems(2) [of x] x obtain c where c: "p \<noteq> NULLP" "conns s p = Some c" by auto
  show ?case
  proof (cases "expired now s x")
    case False
    then show ?thesis
      using x c by (simp add: expired_def closing_time_def get_conn_def without_conns_def fun_eq_iff)
  next
    case True
    let ?s = "del_conn p s"
    have other: "expired now ?s y = expired now s y" if "y \<in> set m" for y
      using Cons.prems(1) x that by (force simp: expired_def closing_time_def)
    have tw: "takeWhile (expired now ?s) m = takeWhile (expired now s) m"
      "dropWhile (expired now ?s) m = dropWhile (expired now s) m"
      by (rule takeWhile_cong, simp, simp add: other, rule dropWhile_cong, simp, simp add: other)
    have pr: "distinct (map snd m)" "\<And>y. y \<in> set m \<Longrightarrow> snd y \<noteq> NULLP \<and> conns ?s (snd y) \<noteq> None"
      using Cons.prems x by (force, force)
    from Cons.IH [OF pr] obtain s' where
      s': "purge_loop now m ?s = Inr (dropWhile (expired now s) m, s')"
        "conns s' = without_conns (snd ` set (takeWhile (expired now s) m)) ?s"
        "effects s' = effects ?s @ map (Delete_conn \<circ> snd) (takeWhile (expired now s) m)"
        "s_threads_datas s' = s_threads_datas ?s" "s_conns_map s' = s_conns_map ?s"
        "curr_conns s' = curr_conns ?s" "s_msg_processers s' = s_msg_processers ?s"
      unfolding tw by blast
    have "purge_loop now (x # m) s = purge_loop now m ?s"
      using True x c by (simp add: expired_def closing_time_def get_conn_def)
    then show ?thesis
      using True s' x by (intro exI [of _ s']) (auto simp: without_conns_def fun_eq_iff)
  qed
qed

lemma for_delete_distinct:
  assumes "tables_ok t s"
  shows "distinct (map snd (for_delete_connections t))"
proof -
  note ok = tables_okD [OF assms]
  have "inj_on snd (set (for_delete_connections t))"
  proof (rule inj_onI)
    fix x y assume xy: "x \<in> set (for_delete_connections t)" "y \<in> set (for_delete_connections t)" "snd x = snd y"
    have "map_find (for_delete_connections t) (fst x) = Some (snd x)"
      using xy(1) map_find_iff [OF ok(2), of "fst x" "snd x"] by simp
    moreover have "map_find (for_delete_connections t) (fst y) = Some (snd y)"
      using xy(2) map_find_iff [OF ok(2), of "fst y" "snd y"] by simp
    ultimately show "x = y" using ok(4) [of "fst x" "snd x"] ok(4) [of "fst y" "snd y"] xy(3)
      by (auto simp: prod_eq_iff)
  qed
  moreover have "distinct (for_delete_connections t)"
    using map_ok_distinct [OF ok(2)] by (auto simp: map_keys_def distinct_map)
  ultimately show ?thesis by (simp add: distinct_map)
qed

lemma for_delete_live:
  assumes "tables_ok t s" and "x \<in> set (for_delete_connections t)"
  shows "snd x \<noteq> NULLP \<and> is_closed s (snd x) \<and> snd x \<notin> set (served t) \<and>
    fst x = of_int (closing_time s (snd x))"
proof -
  note ok = tables_okD [OF assms(1)]
  from assms(2) have "map_find (for_delete_connections t) (fst x) = Some (snd x)"
    by (simp add: map_find_iff [OF ok(2), symmetric])
  from ok(4) [OF this] show ?thesis
    using served_iff [OF assms(1), of "snd x"] by (auto simp: is_closed_def closing_time_def)
qed

text \<open>Two connections that close in the same second share one key: one of them is neither served
  nor kept for deletion, and its object stays.\<close>

lemma reap_phase_same_second:
  assumes "get_td i s = Inr t" and "tables_ok t s" and "knows_shutdown (s_msg_processers s)"
    and "p \<in> set (served t)" and "q \<in> set (served t)" and "is_closed s p" and "is_closed s q" and "p \<noteq> q"
    and "closing_time s p = closing_time s q" and "reap_phase raw i s = Inr s'" and "get_td i s' = Inr t'"
  shows "\<exists>x \<in> {p, q}. conns s' x \<noteq> None \<and> x \<notin> set (served t') \<and> x \<notin> snd ` set (for_delete_connections t')"
proof -
  let ?c = "filter (is_closed s) (served t)"
  from reap_phase_result [OF assms(1-3), of raw] assms(10) have r: "reaped ?c s s'" by auto
  have pq: "p \<in> set ?c" "q \<in> set ?c" using assms(4-7) by auto
  note tab = reap_phase_tables [OF assms(1-3,10,11)]
  have live: "conns s' x \<noteq> None \<and> x \<notin> set (served t')" if "x \<in> {p, q}" for x
    using that r pq tab assms(6,7) by (auto simp: reaped_def is_closed_def)
  have same: "closing_time s' p = closing_time s' q"
    using r pq assms(9) by (simp add: reaped_def)
  have "\<not> (p \<in> snd ` set (for_delete_connections t') \<and> q \<in> snd ` set (for_delete_connections t'))"
  proof
    assume "p \<in> snd ` set (for_delete_connections t') \<and> q \<in> snd ` set (for_delete_connections t')"
    then obtain j k where in_m: "(j, p) \<in> set (for_delete_connections t')" "(k, q) \<in> set (for_delete_connections t')"
      by auto
    with for_delete_live [OF conjunct1 [OF tab] in_m(1)] for_delete_live [OF conjunct1 [OF tab] in_m(2)] same
    have "j = k" by simp
    with in_m assms(8) show False
      using map_find_iff [OF tables_okD(2) [OF conjunct1 [OF tab]]] by (metis option.inject)
  qed
  with live show ?thesis by blast
qed

lemma map_ok_dropWhile: "map_ok m \<Longrightarrow> map_ok (dropWhile P m)"
  by (induction m) auto

text \<open>The phase deletes from the front; what it deletes was closed and is not served.\<close>

lemma purge_phase_result:
  assumes "get_td i s = Inr t" and "tables_ok t s"
  shows "\<exists>s'. purge_phase now i s = Inr s' \<and>
    get_td i s' = Inr (t\<lparr> for_delete_connections := dropWhile (expired now s) (for_delete_connections t) \<rparr>) \<and>
    conns s' = without_conns (snd ` set (takeWhile (expired now s) (for_delete_connections t))) s \<and>
    effects s' = effects s @ map (Delete_conn \<circ> snd) (takeWhile (expired now s) (for_delete_connections t)) \<and>
    tables_ok (t\<lparr> for_delete_connections := dropWhile (expired now s) (for_delete_connections t) \<rparr>) s' \<and>
    (\<forall>j. j \<noteq> i \<longrightarrow> get_td j s' = get_td j s) \<and> s_conns_map s' = s_conns_map s \<and>
    s_msg_processers s' = s_msg_processers s"
proof -
  let ?m = "for_delete_connections t"
  let ?t = "t\<lparr> for_delete_connections := dropWhile (expired now s) ?m \<rparr>"
  note ok = tables_okD [OF assms(2)]
  have live: "snd x \<noteq> NULLP \<and> conns s (snd x) \<noteq> None" if "x \<in> set ?m" for x
    using for_delete_live [OF assms(2) that] by (auto simp: is_closed_def)
  from purge_loop_result [OF for_delete_distinct [OF assms(2)] live, of now] obtain s1 where
    s1: "purge_loop now ?m s = Inr (dropWhile (expired now s) ?m, s1)"
      "conns s1 = without_conns (snd ` set (takeWhile (expired now s) ?m)) s"
      "effects s1 = effects s @ map (Delete_conn \<circ> snd) (takeWhile (expired now s) ?m)"
      "s_threads_datas s1 = s_threads_datas s" "s_conns_map s1 = s_conns_map s"
      "s_msg_processers s1 = s_msg_processers s" by auto
  let ?s = "put_td i ?t s1"
  have gone: "p \<in> snd ` set (takeWhile (expired now s) ?m) \<Longrightarrow> p \<notin> set (served t)" for p
    using for_delete_live [OF assms(2)] by (auto dest!: set_takeWhileD)
  have "tables_ok ?t ?s"
    unfolding tables_ok_def
  proof (intro conjI allI impI)
    fix k p assume "map_find (thread_connections ?t) k = Some p"
    then have m: "map_find (thread_connections t) k = Some p" by simp
    from ok(3) [OF m] have "k = p" by simp
    with m have "p \<in> set (served t)" by (simp add: served_iff [OF assms(2)])
    then have "conns ?s p = conns s p" using gone by (auto simp: s1(2) without_conns_def)
    with ok(3) [OF m] show "k = p" "p \<noteq> NULLP" "\<exists>c. conns ?s p = Some c \<and> \<not> buffers_freed c" by auto
  next
    fix k p assume "map_find (for_delete_connections ?t) k = Some p"
    then have in_d: "(k, p) \<in> set (dropWhile (expired now s) ?m)" by (auto dest: map_find_in)
    then have "(k, p) \<in> set ?m" by (rule set_dropWhileD)
    then have m: "map_find ?m k = Some p" by (simp add: map_find_iff [OF ok(2)])
    have "p \<in> snd ` set (dropWhile (expired now s) ?m)" using in_d by force
    then have "p \<notin> snd ` set (takeWhile (expired now s) ?m)"
      using for_delete_distinct [OF assms(2)] takeWhile_dropWhile_id [of "expired now s" ?m]
      by (metis (no_types, lifting) IntI distinct_append empty_iff list.set_map map_append)
    then have "conns ?s p = conns s p" by (simp add: s1(2) without_conns_def)
    with ok(4) [OF m] show "p \<noteq> NULLP" "map_find (thread_connections ?t) p = None"
      "\<exists>c. conns ?s p = Some c \<and> state c = CS_CLOSE \<and> k = of_int (close_time c)" by auto
  qed (use ok(1,2) in \<open>simp_all add: map_ok_dropWhile\<close>)
  then show ?thesis
    using assms(1) s1 by (auto simp: purge_phase_def get_td_def)
qed

text \<open>The table is ordered by closing time, so the front holds all that expired.\<close>

lemma expired_prefix:
  assumes "tables_ok t s"
    and "\<And>x. x \<in> set (for_delete_connections t) \<Longrightarrow> 0 \<le> closing_time s (snd x) \<and> closing_time s (snd x) < 2 ^ 63"
  shows "takeWhile (expired now s) (for_delete_connections t) = filter (expired now s) (for_delete_connections t)"
proof -
  have mono: "expired now s x" if "x \<in> set (for_delete_connections t)" "y \<in> set (for_delete_connections t)"
    "fst x < fst y" "expired now s y" for x y
  proof -
    have "closing_time s (snd x) < closing_time s (snd y)"
      using that(3) for_delete_live [OF assms(1) that(1)] for_delete_live [OF assms(1) that(2)]
        assms(2) [OF that(1)] assms(2) [OF that(2)]
      by (simp add: word_less_def uint_word_of_int)
    with that(4) show ?thesis by (simp add: expired_def)
  qed
  have "takeWhile (expired now s) m = filter (expired now s) m"
    if "set m \<subseteq> set (for_delete_connections t)" "map_ok m" for m
    using that
  proof (induction m)
    case (Cons x m)
    obtain k p where x: "x = (k, p)" by fastforce
    have "\<not> expired now s y" if "y \<in> set m" "\<not> expired now s x" for y
      using that mono [of x y] Cons.prems x by (fastforce simp: map_keys_def)
    moreover have "map_ok m" using Cons.prems x by simp
    ultimately show ?case using Cons by (auto simp: filter_empty_conv)
  qed simp
  then show ?thesis using tables_okD(2) [OF assms(1)] by blast
qed

text \<open>What the next round hands over after connections were reaped: the notes of their end, and
  the messages of the others only.\<close>

lemma reap_then_collect:
  assumes "get_td i s = Inr t" and "tables_ok t s" and "knows_shutdown (s_msg_processers s)"
  shows "\<exists>s1 s2 t2. reap_phase raw i s = Inr s1 \<and> collect_reads i s1 = Inr s2 \<and> get_td i s2 = Inr t2 \<and>
    td_read_msgs t2 = td_read_msgs t @ map (shutdown_note raw) (filter (is_closed s) (served t)) @
      concat (map (read_queue s) (filter (\<lambda>p. \<not> is_closed s p) (served t)))"
proof -
  from reap_phase_result [OF assms, of raw] obtain s1 t1 where r: "reap_phase raw i s = Inr s1"
    "get_td i s1 = Inr t1" "reaped (filter (is_closed s) (served t)) s s1"
    "td_read_msgs t1 = td_read_msgs t @ map (shutdown_note raw) (filter (is_closed s) (served t))" by auto
  from reap_phase_tables [OF assms r(1,2)] have
    t1: "tables_ok t1 s1" "set (served t1) = {p \<in> set (served t). \<not> is_closed s p}" by auto
  have "served t1 = filter (\<lambda>p. \<not> is_closed s p) (served t)"
  proof (rule sorted_distinct_set_unique)
    have "sorted_wrt (<) (served t)" "sorted_wrt (<) (served t1)"
      using tables_ok_keys [OF assms(2)] tables_ok_keys [OF t1(1)] tables_okD(1) [OF assms(2)] tables_okD(1) [OF t1(1)]
      by (simp_all add: map_ok_def)
    then show "sorted (served t1)" "distinct (served t1)"
      "sorted (filter (\<lambda>p. \<not> is_closed s p) (served t))" "distinct (filter (\<lambda>p. \<not> is_closed s p) (served t))"
      by (simp_all add: strict_sorted_iff sorted_filter [where f = id, simplified])
  qed (use t1(2) in auto)
  moreover have "read_queue s1 p = read_queue s p" if "\<not> is_closed s p" for p
    using r(3) that by (auto simp: reaped_def read_queue_def)
  ultimately have "concat (map (read_queue s1) (served t1)) =
      concat (map (read_queue s) (filter (\<lambda>p. \<not> is_closed s p) (served t)))"
    by (auto intro!: arg_cong [of _ _ concat])
  with collect_reads_result [OF r(2) t1(1)] r(1,4) show ?thesis by auto
qed

end
