(* ===== verification/GF_NetApi.thy ===== *)
theory GF_NetApi
  imports GF_WorkerLaws
begin

text \<open>
  The rest of \<open>src/src/common/net/go_net.cpp\<close>: how the network starts (\<open>net_pre_set_parameter\<close>,
  \<open>net_init\<close>, \<open>server_listen\<close>, \<open>accept_thread_worker\<close>, \<open>thread_init\<close>) and what the servers
  call (\<open>net_connect\<close>, \<open>net_send\<close>, \<open>get_net_msgs\<close>, \<open>conn_close\<close>).

  Shown: a started network has its workers numbered without gaps; new connections go round
  them in turn; what they read is handed over complete and in order; a message sent reaches
  the write queue of the connection it names.
\<close>

section \<open>Sockets\<close>

record socket_env =
  so_socket :: int
  so_getfl :: int
  so_setfl :: int
  so_bind :: int
  so_listen :: int
  so_connect :: int

definition new_socket_nonblock :: "socket_env \<Rightarrow> 'b net_state \<Rightarrow> int \<times> 'b net_state" where
  "new_socket_nonblock env s =
     (if so_socket env = -1 then (-1, s)
      else if so_getfl env < 0 \<or> so_setfl env < 0
      then (-1, log_effect (Close (so_socket env)) s)
      else (so_socket env, s))"

text \<open>The options set on the socket and the address it is bound to are seen by the kernel only.
  When \<open>create_conn\<close> fails after a failed \<open>event_add\<close> the descriptor is closed again.\<close>

definition server_listen ::
    "'b evbuffer_ops \<Rightarrow> socket_env \<Rightarrow> create_env \<Rightarrow> 'b net_state \<Rightarrow> (int \<times> 'b net_state) res" where
  "server_listen ops env cenv s =
     (case new_socket_nonblock env s of (fd, s1) \<Rightarrow>
        if fd = -1 then Inr (fd, s1)
        else if so_bind env = -1 then Inr (-1, log_effect (Close fd) s1)
        else if so_listen env \<noteq> 0 then Inr (-1, log_effect (Close fd) s1)
        else bind_res (create_conn ops cenv fd CS_LISTEN (s_main_base s1) NULLP s1) (\<lambda>(conn, s2).
          if conn = NULLP then Inr (-1, log_effect (Close fd) s2) else Inr (fd, s2)))"

section \<open>Threads\<close>

text \<open>What the system answers when a worker is set up: \<open>pipe\<close>, its two descriptors,
  \<open>event_init\<close>, \<open>event_add\<close> and \<open>pthread_create\<close>.\<close>

record thread_env =
  te_pipe :: int
  te_fd :: "int \<times> int"
  te_base :: ptr
  te_add :: int
  te_created :: bool

definition ES_INIT_FAIL :: u32 where "ES_INIT_FAIL = 1024"

definition setup_thread :: "thread_env \<Rightarrow> ThreadData \<Rightarrow> (bool \<times> ThreadData) res" where
  "setup_thread env t =
     (let t1 = t\<lparr> td_event := te_base env \<rparr>
      in if te_base env = NULLP then Inl (Exit_process ES_INIT_FAIL)
         else (let e = (event_set (te_base env) (notify_recv_fd t1))
               in if te_add env = -1 then Inr (False, t1\<lparr> notify_event := e \<rparr>)
                  else Inr (True, t1\<lparr> notify_event := e\<lparr> ev_pending := True \<rparr> \<rparr>)))"

text \<open>A failed \<open>pipe\<close> ends the process only when a log function is registered (\<open>has_log\<close>);
  otherwise the indeterminate descriptors (\<open>te_fd\<close>) are used. The worker is started before it
  is entered in the table.\<close>

definition thread_init_one :: "bool \<Rightarrow> (u64 \<Rightarrow> thread_env) \<Rightarrow> u64 \<Rightarrow> 'b net_state \<Rightarrow> 'b net_state res" where
  "thread_init_one has_log envs i s =
     (let env = envs i
      in if te_pipe env \<noteq> 0 \<and> has_log then Inl (Exit_process ES_INIT_FAIL)
         else bind_res (setup_thread env (new_ThreadData\<lparr> notify_recv_fd := fst (te_fd env),
                          notify_send_fd := snd (te_fd env) \<rparr>)) (\<lambda>(ok, t).
           if \<not> ok then Inl (Exit_process ES_INIT_FAIL)
           else if \<not> te_created env then Inl (Exit_process ES_INIT_FAIL)
           else Inr (put_td i t (log_effect (Start_worker i) s))))"

definition thread_init :: "bool \<Rightarrow> (u64 \<Rightarrow> thread_env) \<Rightarrow> u32 \<Rightarrow> 'b net_state \<Rightarrow> 'b net_state res" where
  "thread_init has_log envs num_thread s =
     fold_res (thread_init_one has_log envs) (map of_nat [0..<nat (sint num_thread)]) s"

definition register_thread_init :: "'b net_state \<Rightarrow> 'b net_state" where
  "register_thread_init s = s\<lparr> s_init_count := s_init_count s + 1 \<rparr>"

text \<open>The condition \<open>wait_for_thread_init\<close> waits for.\<close>

definition threads_ready :: "'b net_state \<Rightarrow> bool" where
  "threads_ready s \<longleftrightarrow> \<not> sint (s_init_count s) < sint (net_thread_num (s_net_setting s))"

text \<open>What the accept thread does before it waits.\<close>

definition accept_thread_worker ::
    "bool \<Rightarrow> (u64 \<Rightarrow> thread_env) \<Rightarrow> ptr \<Rightarrow> 'b net_state \<Rightarrow> 'b net_state res" where
  "accept_thread_worker has_log envs p s =
     (if p = NULLP then Inl (Exit_process ES_INIT_FAIL)
      else thread_init has_log envs (net_thread_num (s_net_setting s)) s)"

text \<open>What a worker does before its loop. \<open>None\<close> is a null argument, which ends the process only
  when a log function is registered.\<close>

definition data_thread_start :: "bool \<Rightarrow> ThreadData option \<Rightarrow> 'b net_state \<Rightarrow> 'b net_state res" where
  "data_thread_start has_log p s =
     (if p = None \<and> has_log then Inl (Exit_process ES_INIT_FAIL)
      else (let s1 = register_thread_init s
            in case p of
                 None \<Rightarrow> Inl Null_deref
               | Some t \<Rightarrow> if td_event t = NULLP then Inl (Exit_process ES_INIT_FAIL) else Inr s1))"

section \<open>Starting the network\<close>

definition net_pre_set_parameter :: "NetSetting \<Rightarrow> 'b net_state \<Rightarrow> bool \<times> 'b net_state" where
  "net_pre_set_parameter ns s =
     (if 0 < sint (max_connections ns)
      then (True, s\<lparr> s_net_setting := (s_net_setting s)\<lparr> max_connections := max_connections ns,
                       ip_addr := ip_addr ns, listen_port := listen_port ns,
                       net_thread_num := net_thread_num ns \<rparr>,
                     s_set_parameters := True \<rparr>)
      else (False, s))"

definition regist_connector_callback :: "bool \<Rightarrow> 'b net_state \<Rightarrow> 'b net_state" where
  "regist_connector_callback cb s = s\<lparr> s_cntor_callback := cb \<rparr>"

text \<open>\<open>base\<close> is what \<open>event_base_new\<close> returns, \<open>created\<close> tells whether the accept thread
  could be started.\<close>

definition net_init ::
    "'b evbuffer_ops \<Rightarrow> ptr \<Rightarrow> socket_env \<Rightarrow> create_env \<Rightarrow> bool \<Rightarrow> 'b net_state \<Rightarrow> (bool \<times> 'b net_state) res" where
  "net_init ops base env cenv started s =
     (if \<not> s_set_parameters s then Inr (False, s)
      else bind_res (server_listen ops env cenv (s\<lparr> s_main_base := base \<rparr>)) (\<lambda>(listen_fd, s1).
        if listen_fd = -1 then Inl (Exit_process ES_INIT_FAIL)
        else if \<not> started then Inr (False, s1)
        else Inr (True, log_effect Start_accept s1)))"

section \<open>What the servers call\<close>

text \<open>Neither the connection nor its worker is checked before they are used.\<close>

definition net_send :: "MsgNode option \<Rightarrow> 'b net_state \<Rightarrow> 'b net_state res" where
  "net_send md s =
     (case md of
        None \<Rightarrow> Inr s
      | Some n \<Rightarrow>
          if msg_conn n = NULLP then Inr s
          else bind_res (get_conn (msg_conn n) s) (\<lambda>c.
            case td c of
              None \<Rightarrow> Inl Null_deref
            | Some i \<Rightarrow> bind_res (get_td i s) (\<lambda>t.
                Inr (put_td i (t\<lparr> td_write_msgs := td_write_msgs t @ [n] \<rparr>) s))))"

definition net_send_to :: "u64 \<Rightarrow> MsgNode option \<Rightarrow> 'b net_state \<Rightarrow> 'b net_state res" where
  "net_send_to conn md s =
     (case md of
        None \<Rightarrow> Inr s
      | Some n \<Rightarrow>
          if msg_conn n = NULLP then Inr s
          else if conn = NULLP then Inr s
          else net_send (Some (n\<lparr> msg_conn := conn \<rparr>)) s)"

text \<open>\<open>peer\<close> is the address connected to, \<open>new\<close> the address of the new object. A failing
  \<open>fcntl\<close> gives -1 where the header promises 0.\<close>

definition net_connect ::
    "socket_env \<Rightarrow> PeerInfo \<Rightarrow> ptr \<Rightarrow> 'b net_state \<Rightarrow> u64 \<times> 'b net_state" where
  "net_connect env peer new s =
     (if \<not> s_cntor_callback s then (0, s)
      else if so_connect env \<noteq> 0 then (0, log_effect (Close (so_socket env)) s)
      else if so_getfl env < 0 \<or> so_setfl env < 0
      then (-1, log_effect (Close (so_socket env)) s)
      else (let ci = \<lparr> ci_sfd = so_socket env, ci_event_flag = EV_READ OR EV_WRITE OR EV_PERSIST,
                       ci_state = CS_CONNECT, ci_peer_info = peer, pre_new = new \<rparr>
            in (new, (put_conn new new_Connection s)\<lparr> s_connect_conns := s_connect_conns s @ [ci] \<rparr>)))"

text \<open>\<open>s_threads_datas[i]\<close> for a key that is missing gives a null pointer.\<close>

definition get_msgs_of :: "u64 \<Rightarrow> MsgNode list \<times> 'b net_state \<Rightarrow> (MsgNode list \<times> 'b net_state) res" where
  "get_msgs_of i out_s =
     (case out_s of (out, s) \<Rightarrow>
        bind_res (get_td i s) (\<lambda>t.
          Inr (out @ td_read_msgs t, put_td i (t\<lparr> td_read_msgs := [] \<rparr>) s)))"

definition get_net_msgs :: "MsgNode list \<Rightarrow> 'b net_state \<Rightarrow> (MsgNode list \<times> 'b net_state) res" where
  "get_net_msgs out s =
     (if s_cnt s = 0x7FFFFFFF then Inl Int_overflow
      else fold_res get_msgs_of (map of_nat [0..<length (s_threads_datas s)])
             (out, s\<lparr> s_cnt := s_cnt s + 1 \<rparr>))"

section \<open>Workers without gaps\<close>

text \<open>The table of workers \<open>thread_init\<close> builds: numbered from 0.\<close>

definition workers :: "nat \<Rightarrow> 'b net_state \<Rightarrow> bool" where
  "workers n s \<longleftrightarrow> n < 2 ^ 31 \<and> map_keys (s_threads_datas s) = map of_nat [0..<n] \<and>
     (\<forall>i < n. \<exists>t. get_td (of_nat i) s = Inr t)"

lemma of_nat_less_u64: "i < 2 ^ 31 \<Longrightarrow> j < 2 ^ 31 \<Longrightarrow> (of_nat i < (of_nat j :: u64)) = (i < j)"
  by (simp add: word_less_nat_alt unat_of_nat)

lemma of_nat_eq_u64: "i < 2 ^ 31 \<Longrightarrow> j < 2 ^ 31 \<Longrightarrow> (of_nat i = (of_nat j :: u64)) = (i = j)"
  by (metis (no_types, opaque_lifting) linorder_neqE_nat of_nat_less_u64 less_irrefl)

lemma workers_length: "workers n s \<Longrightarrow> length (s_threads_datas s) = n"
  by (metis diff_zero length_map length_upt map_keys_def workers_def)

lemma map_keys_put_present: "k \<in> set (map_keys m) \<Longrightarrow> map_ok m \<Longrightarrow> map_keys (map_put k v m) = map_keys m"
  by (induction k v m rule: map_put.induct) auto

lemma map_put_last: "(\<And>k'. k' \<in> set (map_keys m) \<Longrightarrow> k' < k) \<Longrightarrow> map_put k v m = m @ [(k, v)]"
proof (induction m)
  case (Cons x m)
  obtain k' v' where x: "x = (k', v')" by fastforce
  with Cons.prems [of k'] have "k' < k" "\<not> k < k'" "k \<noteq> k'" by (simp_all add: order.asym)
  with Cons x show ?case by simp
qed simp

lemma workers_sorted: "n < 2 ^ 31 \<Longrightarrow> sorted_wrt (<) (map of_nat [0..<n] :: u64 list)"
  unfolding sorted_wrt_map
  by (rule sorted_wrt_mono_rel [OF _ sorted_wrt_upt]) (simp add: of_nat_less_u64)

lemma workers_map_ok: "workers n s \<Longrightarrow> map_ok (s_threads_datas s)"
  by (simp add: workers_def map_ok_def workers_sorted)

lemma workers_put_td:
  assumes "workers n s" and "i < n"
  shows "workers n (put_td (of_nat i) t s)"
proof -
  have "of_nat i \<in> set (map_keys (s_threads_datas s))"
    using assms by (simp add: workers_def)
  then show ?thesis
    using assms workers_map_ok [OF assms(1)]
    by (auto simp: workers_def map_keys_put_present)
qed

lemma workers_cong: "s_threads_datas s' = s_threads_datas s \<Longrightarrow> workers n s' = workers n s"
  by (simp add: workers_def get_td_def)

section \<open>Starting the workers\<close>

definition started_worker :: "thread_env \<Rightarrow> ThreadData" where
  "started_worker env = new_ThreadData\<lparr> notify_recv_fd := fst (te_fd env), notify_send_fd := snd (te_fd env),
     td_event := te_base env,
     notify_event := (event_set (te_base env) (fst (te_fd env)))\<lparr> ev_pending := True \<rparr> \<rparr>"

definition thread_env_ok :: "bool \<Rightarrow> thread_env \<Rightarrow> bool" where
  "thread_env_ok has_log env \<longleftrightarrow> (te_pipe env = 0 \<or> \<not> has_log) \<and> te_base env \<noteq> NULLP \<and>
     te_add env \<noteq> -1 \<and> te_created env"

lemma thread_init_one_result:
  "thread_init_one has_log envs i s =
     (if thread_env_ok has_log (envs i)
      then Inr (put_td i (started_worker (envs i)) (log_effect (Start_worker i) s))
      else Inl (Exit_process ES_INIT_FAIL))"
  by (auto simp: thread_init_one_def thread_env_ok_def setup_thread_def started_worker_def Let_def)

lemma thread_init_result:
  assumes "s_threads_datas s = []" and "n < 2 ^ 31"
    and "\<And>i. i < n \<Longrightarrow> thread_env_ok has_log (envs (of_nat i))"
  shows "\<exists>s'. fold_res (thread_init_one has_log envs) (map of_nat [0..<n]) s = Inr s' \<and> workers n s' \<and>
    s_threads_datas s' = map (\<lambda>i. (of_nat i, Some (started_worker (envs (of_nat i))))) [0..<n] \<and>
    effects s' = effects s @ map (Start_worker \<circ> of_nat) [0..<n] \<and> conns s' = conns s \<and>
    s_last_thread_id s' = s_last_thread_id s"
  using assms(2,3)
proof (induction n)
  case 0
  then show ?case using assms(1) by (simp add: workers_def map_keys_def)
next
  case (Suc n)
  then obtain s1 where s1: "fold_res (thread_init_one has_log envs) (map of_nat [0..<n]) s = Inr s1"
    "workers n s1" "s_threads_datas s1 = map (\<lambda>i. (of_nat i, Some (started_worker (envs (of_nat i))))) [0..<n]"
    "effects s1 = effects s @ map (Start_worker \<circ> of_nat) [0..<n]" "conns s1 = conns s"
    "s_last_thread_id s1 = s_last_thread_id s" by auto
  let ?t = "started_worker (envs (of_nat n))"
  let ?s = "put_td (of_nat n) ?t (log_effect (Start_worker (of_nat n)) s1)"
  have ks: "map_keys (s_threads_datas s1) = map of_nat [0..<n]" using s1(2) by (simp add: workers_def)
  have lt: "k' < of_nat n" if "k' \<in> set (map_keys (s_threads_datas s1))" for k' :: u64
    using that Suc.prems(1) by (auto simp: ks of_nat_less_u64)
  have put: "s_threads_datas ?s = s_threads_datas s1 @ [(of_nat n, Some ?t)]"
    using map_put_last [OF lt] by simp
  have "\<exists>t. get_td (of_nat i) ?s = Inr t" if "i < Suc n" for i
    using that s1(2) by (cases "i = n") (auto simp: workers_def)
  then have "workers (Suc n) ?s"
    using Suc.prems(1) ks put by (simp add: workers_def map_keys_def)
  moreover have "fold_res (thread_init_one has_log envs) (map of_nat [0..<Suc n]) s = Inr ?s"
    using s1(1) Suc.prems(2) [of n] by (simp add: fold_res_append thread_init_one_result)
  ultimately show ?case using s1 put by (intro exI [of _ ?s]) simp
qed

section \<open>Handing connections out in turn\<close>

lemma next_thread_turn:
  assumes "workers n s" and "0 < n" and "net_thread_num (s_net_setting s) = of_nat n"
  shows "next_thread s = Inr (of_nat (unat (s_last_thread_id s + 1) mod n),
    s\<lparr> s_last_thread_id := of_nat (unat (s_last_thread_id s + 1) mod n) \<rparr>)"
proof -
  have n: "n < 2 ^ 31" using assms(1) by (simp add: workers_def)
  then have sn: "sint (of_nat n :: u32) = int n"
    by (simp add: signed_of_nat signed_take_bit_int_eq_self)
  have sc: "(scast (of_nat k :: u32) :: u64) = of_nat k" if "k < 2 ^ 31" for k
    using that by (simp add: scast_eq signed_of_nat signed_take_bit_int_eq_self)
  have nz: "(of_nat n :: u64) \<noteq> 0" using assms(2) n of_nat_eq_u64 [of n 0] by simp
  let ?k = "unat (s_last_thread_id s + 1) mod n"
  have k: "?k < n" using assms(2) by simp
  have "(s_last_thread_id s + 1) mod of_nat n = of_nat ?k"
  proof -
    have "unat (of_nat n :: u64) = n" using n by (simp add: unat_of_nat)
    then have "unat ((s_last_thread_id s + 1) mod of_nat n) = ?k" by (simp add: unat_mod_distrib)
    then show ?thesis by (metis of_nat_unat ucast_id)
  qed
  moreover have "(ucast (of_nat ?k :: u64) :: u32) = of_nat ?k"
    using k n by (simp add: word_unat_eq_iff unsigned_ucast_eq unat_of_nat take_bit_nat_eq_self)
  ultimately show ?thesis
    using sc [of ?k] sc [of n] k n nz by (simp add: next_thread_def assms(3) Let_def)
qed

lemma enqueue_conn_turn:
  assumes "workers n s" and "0 < n" and "net_thread_num (s_net_setting s) = of_nat n"
    and "k = unat (s_last_thread_id s + 1) mod n" and "get_td (of_nat k) s = Inr t"
  shows "\<exists>s'. enqueue_conn written ci s = Inr s' \<and> workers n s' \<and> s_last_thread_id s' = of_nat k \<and>
    net_thread_num (s_net_setting s') = of_nat n \<and>
    get_td (of_nat k) s' = Inr (t\<lparr> new_connections := new_connections t @ [ci] \<rparr>) \<and>
    (\<forall>j. j \<noteq> of_nat k \<longrightarrow> get_td j s' = get_td j s) \<and> conns s' = conns s"
proof -
  let ?s1 = "s\<lparr> s_last_thread_id := of_nat k \<rparr>"
  let ?s2 = "put_td (of_nat k) (t\<lparr> new_connections := new_connections t @ [ci] \<rparr>) ?s1"
  have k: "k < n" using assms(2,4) by simp
  have td: "get_td j ?s1 = get_td j s" for j by (simp add: get_td_def)
  have nt: "next_thread s = Inr (of_nat k, ?s1)" using next_thread_turn [OF assms(1-3)] assms(4) by simp
  have w: "workers n ?s2" by (rule workers_put_td [OF _ k]) (use assms(1) in \<open>simp add: workers_def td\<close>)
  have e: "enqueue_conn written ci s = Inr (if written = 1 then log_effect (Notify (of_nat k)) ?s2 else ?s2)"
    using assms(5) by (simp add: enqueue_conn_def nt td)
  have w': "workers n (log_effect (Notify (of_nat k)) ?s2)" using w by (simp add: workers_def)
  have ns: "s_net_setting (log_effect (Notify (of_nat k)) ?s2) = s_net_setting s"
    "s_net_setting ?s2 = s_net_setting s"
    "s_last_thread_id ?s2 = of_nat k" by (simp_all add: log_effect_def put_td_def)
  show ?thesis
    unfolding e using w w' td assms(3) ns by (cases "written = 1") auto
qed

text \<open>Connections go to the workers in turn: with \<open>n\<close> workers the one that comes \<open>m\<close>-th after the
  start goes to worker \<open>m mod n\<close>.\<close>

lemma enqueue_round_robin:
  assumes "workers n s" and "0 < n" and "net_thread_num (s_net_setting s) = of_nat n"
    and "s_last_thread_id s + 1 = of_nat m" and "m < 2 ^ 31"
  shows "\<exists>s'. fold_res (enqueue_conn written) cis s = Inr s' \<and> workers n s' \<and>
    (\<forall>j < n. \<exists>t. get_td (of_nat j) s = Inr t \<and>
       get_td (of_nat j) s' = Inr (t\<lparr> new_connections := new_connections t @
         [cis ! l. l \<leftarrow> [0..<length cis], (m + l) mod n = j] \<rparr>))"
  using assms
proof (induction cis arbitrary: s m)
  case Nil
  then show ?case by (auto simp: workers_def)
next
  case (Cons ci cis)
  note nb = \<open>workers n s\<close> [unfolded workers_def]
  let ?k = "m mod n"
  have um: "unat (s_last_thread_id s + 1) = m" using Cons.prems(4,5) by (simp add: unat_of_nat)
  have k: "?k < n" using Cons.prems(2) by simp
  then obtain t where t: "get_td (of_nat ?k) s = Inr t" using nb by blast
  from enqueue_conn_turn [OF Cons.prems(1-3) _ t, of written ci] um obtain s1 where
    s1: "enqueue_conn written ci s = Inr s1" "workers n s1" "s_last_thread_id s1 = of_nat ?k"
      "net_thread_num (s_net_setting s1) = of_nat n"
      "get_td (of_nat ?k) s1 = Inr (t\<lparr> new_connections := new_connections t @ [ci] \<rparr>)"
      "\<forall>j. j \<noteq> of_nat ?k \<longrightarrow> get_td j s1 = get_td j s" by auto
  have last1: "s_last_thread_id s1 + 1 = of_nat (?k + 1)" using s1(3) by simp
  have small: "?k + 1 < 2 ^ 31" using k nb by simp
  from Cons.IH [OF s1(2) Cons.prems(2) s1(4) last1 small] obtain s' where
    s': "fold_res (enqueue_conn written) cis s1 = Inr s'" "workers n s'"
      "\<And>j. j < n \<Longrightarrow> \<exists>t. get_td (of_nat j) s1 = Inr t \<and>
        get_td (of_nat j) s' = Inr (t\<lparr> new_connections := new_connections t @
          [cis ! l. l \<leftarrow> [0..<length cis], (?k + 1 + l) mod n = j] \<rparr>)" by blast
  have modk: "(?k + 1 + l) mod n = (m + Suc l) mod n" for l
    by (metis add.assoc add_Suc_shift mod_add_left_eq plus_1_eq_Suc)
  have list: "[(ci # cis) ! l. l \<leftarrow> [0..<length (ci # cis)], (m + l) mod n = j] =
      (if ?k = j then [ci] else []) @ [cis ! l. l \<leftarrow> [0..<length cis], (?k + 1 + l) mod n = j]" for j
    unfolding modk
    by (simp add: upt_conv_Cons map_Suc_upt [symmetric] o_def del: upt_Suc cong: if_cong)
  have "\<exists>t. get_td (of_nat j) s = Inr t \<and> get_td (of_nat j) s' = Inr (t\<lparr> new_connections :=
      new_connections t @ [(ci # cis) ! l. l \<leftarrow> [0..<length (ci # cis)], (m + l) mod n = j] \<rparr>)" if "j < n" for j
  proof (cases "j = ?k")
    case True
    with s'(3) [OF that] s1(5) t show ?thesis unfolding list by auto
  next
    case False
    note small2 = less_trans [OF that conjunct1 [OF nb]] less_trans [OF k conjunct1 [OF nb]]
    have "of_nat j \<noteq> (of_nat ?k :: u64)" using of_nat_eq_u64 [OF small2] False by blast
    with s'(3) [OF that] s1(6) False show ?thesis unfolding list by auto
  qed
  with s1(1) s'(1,2) show ?case by simp
qed

section \<open>Collecting what the workers read\<close>

definition td_reads :: "'b net_state \<Rightarrow> u64 \<Rightarrow> MsgNode list" where
  "td_reads s i = (case get_td i s of Inl f \<Rightarrow> [] | Inr t \<Rightarrow> td_read_msgs t)"

lemma get_msgs_fold:
  assumes "distinct is" and "\<And>i. i \<in> set is \<Longrightarrow> \<exists>t. get_td i s = Inr t"
  shows "\<exists>s'. fold_res get_msgs_of is (out, s) = Inr (out @ concat (map (td_reads s) is), s') \<and>
    (\<forall>i. get_td i s' = (if i \<in> set is then map_sum id (td_read_msgs_update (\<lambda>_. [])) (get_td i s) else get_td i s)) \<and>
    conns s' = conns s \<and> effects s' = effects s \<and> s_msg_processers s' = s_msg_processers s"
  using assms
proof (induction "is" arbitrary: s out)
  case Nil
  then show ?case by simp
next
  case (Cons i "is")
  from Cons.prems(2) [of i] obtain t where t: "get_td i s = Inr t" by auto
  let ?s = "put_td i (t\<lparr> td_read_msgs := [] \<rparr>) s"
  have d: "i \<notin> set is" "distinct is" using Cons.prems(1) by auto
  have pr: "\<exists>t. get_td j ?s = Inr t" if "j \<in> set is" for j using Cons.prems(2) that by auto
  from Cons.IH [OF d(2) pr, of "out @ td_read_msgs t"] obtain s' where
    s': "fold_res get_msgs_of is (out @ td_read_msgs t, ?s) =
        Inr ((out @ td_read_msgs t) @ concat (map (td_reads ?s) is), s')"
      "\<forall>j. get_td j s' = (if j \<in> set is then map_sum id (td_read_msgs_update (\<lambda>_. [])) (get_td j ?s) else get_td j ?s)"
      "conns s' = conns ?s" "effects s' = effects ?s" "s_msg_processers s' = s_msg_processers ?s" by blast
  have m: "map (td_reads ?s) is = map (td_reads s) is"
    using d(1) by (intro map_cong) (auto simp: td_reads_def)
  have one: "get_msgs_of i (out, s) = Inr (out @ td_read_msgs t, ?s)" using t by (simp add: get_msgs_of_def)
  have "td_reads s i = td_read_msgs t" using t by (simp add: td_reads_def)
  with one s' d t show ?case unfolding m by (intro exI [of _ s']) simp
qed

lemma get_net_msgs_result:
  assumes "workers n s" and "s_cnt s \<noteq> 0x7FFFFFFF"
  shows "\<exists>s'. get_net_msgs out s = Inr (out @ concat (map (\<lambda>i. td_reads s (of_nat i)) [0..<n]), s') \<and>
    (\<forall>i < n. \<exists>t. get_td (of_nat i) s = Inr t \<and> get_td (of_nat i) s' = Inr (t\<lparr> td_read_msgs := [] \<rparr>)) \<and>
    conns s' = conns s \<and> effects s' = effects s \<and> s_msg_processers s' = s_msg_processers s"
proof -
  let ?s = "s\<lparr> s_cnt := s_cnt s + 1 \<rparr>" and ?is = "map of_nat [0..<n] :: u64 list"
  have n: "n < 2 ^ 31" "\<And>i. i < n \<Longrightarrow> \<exists>t. get_td (of_nat i) s = Inr t" using assms(1) by (auto simp: workers_def)
  have td: "get_td j ?s = get_td j s" for j by (simp add: get_td_def)
  have d: "distinct ?is" using n(1) by (auto simp: distinct_map inj_on_def of_nat_eq_u64)
  have ex: "\<exists>t. get_td i ?s = Inr t" if "i \<in> set ?is" for i using that n(2) td by auto
  from get_msgs_fold [OF d ex, of out] obtain s' where
    s': "fold_res get_msgs_of ?is (out, ?s) = Inr (out @ concat (map (td_reads ?s) ?is), s')"
      "\<forall>i. get_td i s' = (if i \<in> set ?is then map_sum id (td_read_msgs_update (\<lambda>_. [])) (get_td i ?s) else get_td i ?s)"
      "conns s' = conns ?s" "effects s' = effects ?s" "s_msg_processers s' = s_msg_processers ?s" by blast
  have "td_reads ?s = td_reads s" by (rule ext) (simp add: td_reads_def td)
  then have "get_net_msgs out s = Inr (out @ concat (map (\<lambda>i. td_reads s (of_nat i)) [0..<n]), s')"
    using s'(1) assms by (simp add: get_net_msgs_def workers_length o_def)
  moreover have "\<exists>t. get_td (of_nat i) s = Inr t \<and> get_td (of_nat i) s' = Inr (t\<lparr> td_read_msgs := [] \<rparr>)"
    if i: "i < n" for i
  proof -
    obtain t where t: "get_td (of_nat i) s = Inr t" using n(2) [OF i] by blast
    have "(of_nat i :: u64) \<in> set ?is" using i by simp
    then show ?thesis using t s'(2) by (simp only: td) simp
  qed
  ultimately show ?thesis using s'(3-5) by auto
qed

section \<open>Sending\<close>

lemma net_send_result:
  assumes "get_conn (msg_conn n) s = Inr c" and "td c = Some i" and "get_td i s = Inr t"
  shows "net_send (Some n) s = Inr (put_td i (t\<lparr> td_write_msgs := td_write_msgs t @ [n] \<rparr>) s)"
  using assms by (auto simp: net_send_def get_conn_Inr)

lemma net_send_dangling:
  assumes "msg_conn n \<noteq> NULLP" and "conns s (msg_conn n) = None"
  shows "net_send (Some n) s = Inl (Dangling (msg_conn n))"
  using assms by (simp add: net_send_def get_conn_def)

lemma put_td_twice [simp]: "put_td i t (put_td i t' s) = put_td i t s"
proof -
  have "map_put i x (map_put i y m) = map_put i x m" for x y and m :: "(u64, ThreadData option) std_map"
    by (induction m) auto
  then show ?thesis by (simp add: put_td_def)
qed

lemma net_send_fold:
  assumes "\<And>n. n \<in> set ns \<Longrightarrow> msg_conn n = p" and "get_conn p s = Inr c" and "td c = Some i"
    and "get_td i s = Inr t" and "ns \<noteq> []"
  shows "fold_res (\<lambda>n. net_send (Some n)) ns s =
    Inr (put_td i (t\<lparr> td_write_msgs := td_write_msgs t @ ns \<rparr>) s)"
  using assms
proof (induction ns arbitrary: s t)
  case (Cons n ns)
  let ?t = "t\<lparr> td_write_msgs := td_write_msgs t @ [n] \<rparr>"
  have one: "net_send (Some n) s = Inr (put_td i ?t s)"
    by (rule net_send_result) (use Cons.prems in auto)
  show ?case
  proof (cases "ns = []")
    case True
    with one show ?thesis by simp
  next
    case False
    have "fold_res (\<lambda>n. net_send (Some n)) ns (put_td i ?t s) =
      Inr (put_td i (?t\<lparr> td_write_msgs := td_write_msgs ?t @ ns \<rparr>) (put_td i ?t s))"
      by (rule Cons.IH) (use Cons.prems False in \<open>auto simp: get_conn_def\<close>)
    with one show ?thesis by simp
  qed
qed simp

end
