(* ===== verification/GF_EndToEnd.thy ===== *)
theory GF_EndToEnd
  imports GF_NetApi
begin

text \<open>
  The whole way of a message through \<open>src/src/common/net/go_net.cpp\<close>: \<open>net_send\<close> on one side,
  the worker's round, the writes to the socket however the system cuts them, the reads on the
  other side, and \<open>get_net_msgs\<close> there. The bytes between are those \<open>on_write\<close> hands to the
  socket; TCP delivers them in order, cut anyhow.
\<close>

section \<open>What reaches the socket\<close>

text \<open>The bytes one call of \<open>on_write\<close> hands to the socket: \<open>evbuffer_write\<close> takes them off the
  front of the write buffer, after the queued messages were appended to it.\<close>

definition on_write_output :: "'b evbuffer_ops \<Rightarrow> io_env \<Rightarrow> ptr \<Rightarrow> 'b net_state \<Rightarrow> byte list" where
  "on_write_output ops env p s =
     (case get_conn p s of
        Inl f \<Rightarrow> []
      | Inr c \<Rightarrow>
          if state c = CS_CLOSE then []
          else case write_buffer c of
            None \<Rightarrow> []
          | Some wb \<Rightarrow>
              (case fill_write_buffer ops (s_msg_processers s) (conn_write_msgs c) wb [] of
                 Inl f \<Rightarrow> []
               | Inr (wb', ds) \<Rightarrow>
                   if evb_get_length ops wb' = 0 then []
                   else (case io_write env of
                       Write_error again \<Rightarrow> []
                     | Wrote n \<Rightarrow> fst (evb_remove ops wb' n))))"

fun write_rounds :: "'b evbuffer_ops \<Rightarrow> io_env list \<Rightarrow> ptr \<Rightarrow> 'b net_state \<Rightarrow> (byte list \<times> 'b net_state) res" where
  "write_rounds ops [] p s = Inr ([], s)"
| "write_rounds ops (env # envs) p s =
     bind_res (on_write ops env p s) (\<lambda>s1.
       bind_res (write_rounds ops envs p s1) (\<lambda>(w, s2). Inr (on_write_output ops env p s @ w, s2)))"

text \<open>What a connection still has to write.\<close>

definition unsent :: "('b \<Rightarrow> byte list) \<Rightarrow> 'b connection \<Rightarrow> byte list" where
  "unsent bytes c = bytes (the (write_buffer c)) @ concat (map frame_bytes (conn_write_msgs c))"

lemma update_event_keeps:
  assumes "update_event d a p evt s = Inr (ok, s')" and "get_conn p s = Inr c"
  shows "\<exists>c'. get_conn p s' = Inr c' \<and> write_buffer c' = write_buffer c \<and>
    conn_write_msgs c' = conn_write_msgs c \<and> s_msg_processers s' = s_msg_processers s"
  using assms by (auto simp: update_event_def get_conn_Inr Let_def split: if_splits)

lemma conn_close_keeps:
  assumes "conn_close now p s = Inr s'" and "get_conn p s = Inr c"
  shows "\<exists>c'. get_conn p s' = Inr c' \<and> write_buffer c' = write_buffer c \<and>
    conn_write_msgs c' = conn_write_msgs c \<and> s_msg_processers s' = s_msg_processers s"
  using assms by (auto simp: conn_close_def conn_set_state_def upd_conn_Inr get_conn_Inr)

lemma on_write_bytes:
  assumes "evbuffer_laws ops bytes" and "get_conn p s = Inr c" and "write_buffer c \<noteq> None"
    and "\<And>n. n \<in> set (conn_write_msgs c) \<Longrightarrow> node_ok (s_msg_processers s) n"
    and "on_write ops env p s = Inr s'"
  shows "\<exists>c'. get_conn p s' = Inr c' \<and> write_buffer c' \<noteq> None \<and>
    set (conn_write_msgs c') \<subseteq> set (conn_write_msgs c) \<and> s_msg_processers s' = s_msg_processers s \<and>
    on_write_output ops env p s @ unsent bytes c' = unsent bytes c"
proof (cases "state c = CS_CLOSE")
  case True
  with assms show ?thesis
    by (auto simp: on_write_def conn_get_state_def on_write_output_def get_conn_def split: if_splits)
next
  case False
  note laws = evbuffer_lawsD [OF assms(1)]
  from assms(3) obtain wb where wb: "write_buffer c = Some wb" by blast
  have p: "p \<noteq> NULLP" using assms(2) by (simp add: get_conn_Inr)
  from fill_write_buffer_frames [OF assms(1), of "conn_write_msgs c" "s_msg_processers s" wb "[]"] assms(4)
  obtain wb' ds where f: "fill_write_buffer ops (s_msg_processers s) (conn_write_msgs c) wb [] = Inr (wb', ds)"
    "bytes wb' = bytes wb @ concat (map frame_bytes (conn_write_msgs c))" by auto
  let ?c1 = "c\<lparr> conn_write_msgs := [], write_buffer := Some wb' \<rparr>"
  let ?s1 = "put_conn p ?c1 (if ds = [] then s else log_effect (Dispose ds) s)"
  have g1: "get_conn p ?s1 = Inr ?c1" using p by (simp add: get_conn_def)
  have m1: "s_msg_processers ?s1 = s_msg_processers s" by simp
  have un: "unsent bytes c = bytes wb'" using f(2) wb by (simp add: unsent_def)
  have out: "on_write_output ops env p s = (if evb_get_length ops wb' = 0 then []
     else (case io_write env of Write_error again \<Rightarrow> [] | Wrote n \<Rightarrow> take n (bytes wb')))"
    using assms(2) False wb f(1) laws(3) by (simp add: on_write_output_def split: write_result.splits)
  have run: "(if evb_get_length ops wb' = 0 then upd_conn p (\<lambda>c. c\<lparr> can_write := True \<rparr>) ?s1
     else (case io_write env of
         Write_error again \<Rightarrow>
           if again then
             bind_res (update_event (io_del env) (io_add env) p EV_WRITE ?s1) (\<lambda>(ok, s2).
               if \<not> ok then conn_close (io_now env) p s2 else Inr s2)
           else upd_conn p (\<lambda>c. c\<lparr> can_write := False \<rparr>) ?s1
       | Wrote n \<Rightarrow>
           upd_conn p (\<lambda>c. c\<lparr> can_write := True, write_buffer := Some (evb_drain ops wb' n) \<rparr>) ?s1)) = Inr s'"
    using assms(2,5) False wb f(1) p by (simp add: on_write_def conn_get_state_def Let_def)
  show ?thesis
  proof (cases "evb_get_length ops wb' = 0")
    case True
    then have "bytes wb' = []" using laws(2) by simp
    with True run p show ?thesis
      unfolding un out by (auto simp: unsent_def upd_conn_Inr get_conn_Inr)
  next
    case long: False
    show ?thesis
    proof (cases "io_write env")
      case (Wrote n)
      with long run p show ?thesis
        unfolding un out by (auto simp: unsent_def upd_conn_Inr get_conn_Inr laws(6))
    next
      case (Write_error again)
      show ?thesis
      proof (cases again)
        case True
        with Write_error long run obtain ok s2 where
          u: "update_event (io_del env) (io_add env) p EV_WRITE ?s1 = Inr (ok, s2)"
            "(if \<not> ok then conn_close (io_now env) p s2 else Inr s2) = Inr s'" by auto
        from update_event_keeps [OF u(1) g1] obtain c2 where
          c2: "get_conn p s2 = Inr c2" "write_buffer c2 = Some wb'" "conn_write_msgs c2 = []"
            "s_msg_processers s2 = s_msg_processers s" using m1 by auto
        have "\<exists>c'. get_conn p s' = Inr c' \<and> write_buffer c' = Some wb' \<and> conn_write_msgs c' = [] \<and>
            s_msg_processers s' = s_msg_processers s"
          using u(2) c2 conn_close_keeps [of "io_now env" p s2 s', OF _ c2(1)] by (cases ok) auto
        then show ?thesis using Write_error long unfolding un out by (auto simp: unsent_def)
      next
        case False
        with Write_error long run p show ?thesis
          unfolding un out by (auto simp: unsent_def upd_conn_Inr get_conn_Inr)
      qed
    qed
  qed
qed

text \<open>No byte is lost, repeated or reordered, whatever the system answers.\<close>

lemma write_rounds_bytes:
  assumes "evbuffer_laws ops bytes" and "get_conn p s = Inr c" and "write_buffer c \<noteq> None"
    and "\<And>n. n \<in> set (conn_write_msgs c) \<Longrightarrow> node_ok (s_msg_processers s) n"
    and "write_rounds ops envs p s = Inr (w, s')"
  shows "\<exists>c'. get_conn p s' = Inr c' \<and> w @ unsent bytes c' = unsent bytes c"
  using assms(2-5)
proof (induction envs arbitrary: s c w)
  case (Cons env envs)
  from Cons.prems(4) obtain s1 w1 where s1: "on_write ops env p s = Inr s1"
    "write_rounds ops envs p s1 = Inr (w1, s')" "w = on_write_output ops env p s @ w1" by auto
  from on_write_bytes [OF assms(1) Cons.prems(1-3) s1(1)] obtain c1 where
    c1: "get_conn p s1 = Inr c1" "write_buffer c1 \<noteq> None" "set (conn_write_msgs c1) \<subseteq> set (conn_write_msgs c)"
      "s_msg_processers s1 = s_msg_processers s"
      "on_write_output ops env p s @ unsent bytes c1 = unsent bytes c" by blast
  have ok: "node_ok (s_msg_processers s1) n" if "n \<in> set (conn_write_msgs c1)" for n
    using that c1(3,4) Cons.prems(3) by auto
  from Cons.IH [OF c1(1,2) ok s1(2)] obtain c' where "get_conn p s' = Inr c'"
    "w1 @ unsent bytes c' = unsent bytes c1" by blast
  then show ?case using s1(3) c1(5) by (intro exI [of _ c']) (simp flip: c1(5))
qed simp


section \<open>The sender\<close>

text \<open>From the calls of \<open>net_send\<close> to the socket.\<close>

lemma sender:
  assumes "evbuffer_laws ops bytes" and "procs_ok (s_msg_processers s)"
    and "get_conn p s = Inr c" and "td c = Some i" and "get_td i s = Inr t" and "tables_ok t s"
    and "p \<in> set (served t)" and "write_buffer c = Some wb" and "bytes wb = []"
    and "conn_write_msgs c = []" and "td_write_msgs t = []"
    and "\<And>n. n \<in> set ns \<Longrightarrow> msg_conn n = p \<and> node_ok (s_msg_processers s) n"
  shows "\<exists>s1 s2. fold_res (\<lambda>n. net_send (Some n)) ns s = Inr s1 \<and> distribute_writes i s1 = Inr s2 \<and>
    (\<forall>envs w s3. write_rounds ops envs p s2 = Inr (w, s3) \<longrightarrow>
       (\<exists>c3. get_conn p s3 = Inr c3 \<and> w @ unsent bytes c3 = concat (map frame_bytes ns)))"
proof -
  let ?t = "t\<lparr> td_write_msgs := ns \<rparr>"
  let ?s1 = "put_td i ?t s"
  have send: "\<exists>s1. fold_res (\<lambda>n. net_send (Some n)) ns s = Inr s1 \<and> get_td i s1 = Inr ?t \<and>
      tables_ok ?t s1 \<and> conns s1 = conns s \<and> s_msg_processers s1 = s_msg_processers s"
  proof (cases "ns = []")
    case True
    then show ?thesis using assms(5,6,11) by (cases t) auto
  next
    case False
    from net_send_fold [OF _ assms(3-5) False] assms(12) have
      "fold_res (\<lambda>n. net_send (Some n)) ns s = Inr ?s1" by (simp add: assms(11))
    moreover have "tables_ok ?t ?s1" using assms(6) by (simp add: tables_ok_def)
    ultimately show ?thesis by simp
  qed
  then obtain s1 where s1: "fold_res (\<lambda>n. net_send (Some n)) ns s = Inr s1" "get_td i s1 = Inr ?t"
    "tables_ok ?t s1" "conns s1 = conns s" "s_msg_processers s1 = s_msg_processers s" by blast
  from distribute_writes_result [OF s1(2,3)] s1(5) assms(2) obtain s2 where
    s2: "distribute_writes i s1 = Inr s2" "conns s2 = with_writes ?t ns s1"
      "s_msg_processers s2 = s_msg_processers s" by auto
  have sv: "served ?t = served t" by (simp add: served_def)
  have mine: "filter (\<lambda>n. msg_conn n = p) ns = ns" using assms(12) by simp
  have g2: "get_conn p s2 = Inr (c\<lparr> conn_write_msgs := ns \<rparr>)"
    using s2(2) assms(3,7,10) by (simp add: with_writes_def get_conn_Inr s1(4) sv mine)
  have un: "unsent bytes (c\<lparr> conn_write_msgs := ns \<rparr>) = concat (map frame_bytes ns)"
    using assms(8,9) by (simp add: unsent_def)
  have "\<exists>c3. get_conn p s3 = Inr c3 \<and> w @ unsent bytes c3 = concat (map frame_bytes ns)"
    if "write_rounds ops envs p s2 = Inr (w, s3)" for envs w s3
    using write_rounds_bytes [OF assms(1) g2 _ _ that] assms(8,12) s2(3) un by simp
  with s1(1) s2(1) show ?thesis by blast
qed

section \<open>The receiver\<close>

lemma receive_can_read:
  "receive ops procs raw p data (c\<lparr> can_read := x \<rparr>) =
     map_sum id (\<lambda>c. c\<lparr> can_read := x \<rparr>) (receive ops procs raw p data c)"
proof (cases "read_buffer c")
  case (Some b)
  then show ?thesis
    by (cases "message_format_loop ops procs raw p (sint (of_nat (evb_get_length ops b + length data) :: u32))
          (evb_add ops b data) (conn_read_msgs c)")
       (auto simp: receive_def message_format_def)
qed (simp add: receive_def)

lemma receive_keeps:
  "receive ops procs raw p data c = Inr c' \<Longrightarrow> state c' = state c \<and> buffers_freed c' = buffers_freed c \<and>
     close_time c' = close_time c \<and> td c' = td c"
  by (auto simp: receive_def message_format_def split: option.splits if_splits)

lemma on_read_data:
  assumes "get_conn q s = Inr c" and "state c \<noteq> CS_CLOSE" and "io_read env = Read_data data"
    and "receive ops (s_msg_processers s) (io_raw env) q data c = Inr c'"
  shows "on_read ops env q s = Inr (put_conn q (c'\<lparr> can_read := True \<rparr>) s)"
  using assms by (auto simp: on_read_def conn_get_state_def get_conn_Inr upd_conn_def get_conn_def)

lemma fold_receive_can_read:
  "fold_res (receive ops procs raw p) chunks (c\<lparr> can_read := x \<rparr>) =
     map_sum id (\<lambda>c. c\<lparr> can_read := x \<rparr>) (fold_res (receive ops procs raw p) chunks c)"
proof (induction chunks arbitrary: c)
  case (Cons d ds)
  then show ?case by (cases "receive ops procs raw p d c") (auto simp: receive_can_read)
qed simp

lemma can_read_id: "c\<lparr> can_read := can_read c \<rparr> = c"
  by (cases c) simp

text \<open>Reading leaves everything but the connection read as it is.\<close>

definition same_but :: "ptr \<Rightarrow> 'b net_state \<Rightarrow> 'b net_state \<Rightarrow> bool" where
  "same_but q s s' \<longleftrightarrow> (\<forall>x. x \<noteq> q \<longrightarrow> conns s' x = conns s x) \<and> s_threads_datas s' = s_threads_datas s \<and>
     s_msg_processers s' = s_msg_processers s \<and> s_cnt s' = s_cnt s"

lemma on_read_fold:
  assumes "get_conn q s = Inr c" and "state c \<noteq> CS_CLOSE"
    and "fold_res (receive ops (s_msg_processers s) raw q) chunks c = Inr d"
    and "map io_read envs = map Read_data chunks" and "\<And>env. env \<in> set envs \<Longrightarrow> io_raw env = raw"
  shows "\<exists>s' x. fold_res (\<lambda>env. on_read ops env q) envs s = Inr s' \<and> get_conn q s' = Inr (d\<lparr> can_read := x \<rparr>) \<and>
    same_but q s s' \<and> state d = state c \<and> buffers_freed d = buffers_freed c \<and> close_time d = close_time c"
  using assms
proof (induction chunks arbitrary: envs s c d)
  case Nil
  then show ?case
    by (intro exI [of _ s] exI [of _ "can_read c"]) (auto simp: same_but_def can_read_id)
next
  case (Cons chunk chunks)
  then obtain env envs' where e: "envs = env # envs'" "io_read env = Read_data chunk"
    "map io_read envs' = map Read_data chunks" by (cases envs) auto
  from Cons.prems(3) obtain c1 where c1: "receive ops (s_msg_processers s) raw q chunk c = Inr c1"
    "fold_res (receive ops (s_msg_processers s) raw q) chunks c1 = Inr d" by auto
  note k = receive_keeps [OF c1(1)]
  let ?s = "put_conn q (c1\<lparr> can_read := True \<rparr>) s"
  have q: "q \<noteq> NULLP" using Cons.prems(1) by (simp add: get_conn_Inr)
  have raw: "io_raw env = raw" using Cons.prems(5) e(1) by simp
  have one: "on_read ops env q s = Inr ?s"
    by (rule on_read_data [OF Cons.prems(1,2) e(2)]) (simp add: raw c1(1))
  have g: "get_conn q ?s = Inr (c1\<lparr> can_read := True \<rparr>)" using q by (simp add: get_conn_def)
  have f: "fold_res (receive ops (s_msg_processers ?s) raw q) chunks (c1\<lparr> can_read := True \<rparr>) =
      Inr (d\<lparr> can_read := True \<rparr>)"
    using c1(2) by (simp add: fold_receive_can_read)
  have st: "state (c1\<lparr> can_read := True \<rparr>) \<noteq> CS_CLOSE" using k Cons.prems(2) by simp
  from Cons.IH [OF g st f e(3)] Cons.prems(5) e(1) obtain s' x where
    s': "fold_res (\<lambda>env. on_read ops env q) envs' ?s = Inr s'"
      "get_conn q s' = Inr (d\<lparr> can_read := True \<rparr>\<lparr> can_read := x \<rparr>)" "same_but q ?s s'"
      "state d = state c1" "buffers_freed d = buffers_freed c1" "close_time d = close_time c1" by auto
  have "same_but q s s'" using s'(3) by (simp add: same_but_def put_conn_def)
  then show ?case using one s' e(1) k by (intro exI [of _ s'] exI [of _ x]) simp
qed

lemma concat_only:
  "distinct xs \<Longrightarrow> q \<in> set xs \<Longrightarrow> (\<And>x. x \<in> set xs \<Longrightarrow> x \<noteq> q \<Longrightarrow> f x = []) \<Longrightarrow> concat (map f xs) = f q"
proof (induction xs)
  case (Cons x xs)
  show ?case
  proof (cases "x = q")
    case True
    with Cons.prems have "concat (map f xs) = []" by (auto simp: concat_eq_Nil_conv)
    with True show ?thesis by simp
  next
    case False
    with Cons show ?thesis by simp
  qed
qed simp

lemma collect_reads_workers:
  fixes s :: "'b net_state"
  assumes "workers n s" and "i < n" and "collect_reads (of_nat i) s = Inr s'"
  shows "workers n s' \<and> s_cnt s' = s_cnt s"
proof -
  have one: "workers n b \<and> s_cnt b = s_cnt s"
    if "collect_one (of_nat i) x a = Inr b" "workers n a \<and> s_cnt a = s_cnt s" for a b :: "'b net_state" and x
  proof -
    from that(1) obtain c t where b: "b = put_td (of_nat i) t (put_conn (snd x) c a)"
      by (auto simp: collect_one_def)
    have "workers n (put_conn (snd x) c a)" using that(2) workers_cong [of "put_conn (snd x) c a" a] by simp
    then show ?thesis using that(2) assms(2) by (simp add: b workers_put_td)
  qed
  from assms(3) obtain t :: ThreadData where "fold_res (collect_one (of_nat i)) (thread_connections t) s = Inr s'"
    by (auto simp: collect_reads_def)
  from fold_res_invariant [OF this, of "\<lambda>a. workers n a \<and> s_cnt a = s_cnt s"] one assms(1)
  show ?thesis by blast
qed

lemma receiver:
  assumes "evbuffer_laws ops bytes" and "workers nb s" and "j < nb" and "s_cnt s \<noteq> 0x7FFFFFFF"
    and "get_td (of_nat j) s = Inr t" and "tables_ok t s" and "q \<in> set (served t)"
    and "get_conn q s = Inr c" and "state c \<noteq> CS_CLOSE" and "read_buffer c = Some rb" and "bytes rb = []"
    and "\<And>i. i < nb \<Longrightarrow> td_reads s (of_nat i) = []"
    and "\<And>p. p \<in> set (served t) \<Longrightarrow> read_queue s p = []"
    and "\<And>n. n \<in> set ns \<Longrightarrow> sendable (s_msg_processers s) n"
    and "concat chunks = concat (map frame_bytes ns)" and "length (concat chunks) < 2 ^ 31"
    and "map io_read envs = map Read_data chunks" and "\<And>env. env \<in> set envs \<Longrightarrow> io_raw env = raw"
  shows "\<exists>s1 s2 s3. fold_res (\<lambda>env. on_read ops env q) envs s = Inr s1 \<and>
    collect_reads (of_nat j) s1 = Inr s2 \<and> get_net_msgs [] s2 = Inr (map (delivered raw q) ns, s3)"
proof -
  let ?procs = "s_msg_processers s" and ?out = "map (delivered raw q) ns"
  have q: "q \<noteq> NULLP" "conns s q = Some c" using assms(8) by (simp_all add: get_conn_Inr)
  have "decode ?procs raw q (bytes rb @ concat chunks) = Inr (?out, [])"
    using decode_frames [of ns ?procs raw q] assms(11,14,15) by simp
  moreover have "next_frame (bytes rb) = Wait" using assms(11) by (simp add: next_frame_def)
  moreover have "conn_read_msgs c = []" using assms(13) [OF assms(7)] q by (simp add: read_queue_def)
  ultimately obtain d where d: "fold_res (receive ops ?procs raw q) chunks c = Inr d" "conn_read_msgs d = ?out"
    using receive_chunks [OF assms(1) q(1) assms(10), of chunks ?procs raw] assms(11,16)
    by (auto simp: conn_view_def split: sum.splits)
  from on_read_fold [OF assms(8,9) d(1) assms(17,18)] obtain s1 x where
    s1: "fold_res (\<lambda>env. on_read ops env q) envs s = Inr s1" "get_conn q s1 = Inr (d\<lparr> can_read := x \<rparr>)"
      "same_but q s s1" "state d = state c" "buffers_freed d = buffers_freed c" "close_time d = close_time c"
    by blast
  have td1: "get_td i s1 = get_td i s" for i using s1(3) by (simp add: get_td_def same_but_def)
  have other: "conns s1 p = conns s p" if "p \<noteq> q" for p using s1(3) that by (simp add: same_but_def)
  have t1: "tables_ok t s1"
  proof (rule tables_ok_keep [OF assms(6)])
    fix p c0 assume "conns s p = Some c0"
    then show "\<exists>c'. conns s1 p = Some c' \<and> buffers_freed c' = buffers_freed c0 \<and> state c' = state c0 \<and>
        close_time c' = close_time c0"
      using other [of p] q s1(2,4-6) by (cases "p = q") (auto simp: get_conn_Inr)
  qed
  have "read_queue s1 p = []" if "p \<in> set (served t)" "p \<noteq> q" for p
    using assms(13) [OF that(1)] other [OF that(2)] by (simp add: read_queue_def)
  moreover have "read_queue s1 q = ?out" using s1(2) d(2) by (simp add: read_queue_def get_conn_Inr)
  ultimately have all: "concat (map (read_queue s1) (served t)) = ?out"
    using concat_only [OF served_distinct [OF assms(6)] assms(7), of "read_queue s1"] by simp
  have t_empty: "td_read_msgs t = []" using assms(12) [OF assms(3)] assms(5) by (simp add: td_reads_def)
  have "get_td (of_nat j) s1 = Inr t" using td1 assms(5) by simp
  from collect_reads_result [OF this t1] obtain s2 where
    s2: "collect_reads (of_nat j) s1 = Inr s2" "get_td (of_nat j) s2 = Inr (t\<lparr> td_read_msgs := ?out \<rparr>)"
      "\<forall>i. i \<noteq> of_nat j \<longrightarrow> get_td i s2 = get_td i s1" using all t_empty by auto
  have "workers nb s1" using assms(2) s1(3) workers_cong [of s1 s] by (simp add: same_but_def)
  note s2' = collect_reads_workers [OF this assms(3) s2(1)]
  have r: "td_reads s2 (of_nat i) = []" if "i < nb" "i \<noteq> j" for i
  proof -
    have "i < 2 ^ 31" "j < 2 ^ 31" using that assms(2,3) by (auto simp: workers_def)
    then have "of_nat i \<noteq> (of_nat j :: u64)" using that(2) of_nat_eq_u64 by blast
    then show ?thesis using s2(3) td1 assms(12) [OF that(1)] by (simp add: td_reads_def)
  qed
  have rj: "td_reads s2 (of_nat j) = ?out" using s2(2) by (simp add: td_reads_def)
  have "concat (map (\<lambda>i. td_reads s2 (of_nat i)) [0..<nb]) = ?out"
    using concat_only [of "[0..<nb]" j "\<lambda>i. td_reads s2 (of_nat i)"] r rj assms(3) by simp
  moreover have "s_cnt s2 \<noteq> 0x7FFFFFFF" using s2' s1(3) assms(4) by (simp add: same_but_def)
  ultimately show ?thesis using get_net_msgs_result [OF conjunct1 [OF s2'], of "[]"] s1(1) s2(1) by fastforce
qed

section \<open>End to end\<close>

text \<open>Connection \<open>p\<close> is served by worker \<open>i\<close>, and nothing is queued or buffered on it.\<close>

definition link_idle :: "('b \<Rightarrow> byte list) \<Rightarrow> u64 \<Rightarrow> ptr \<Rightarrow> 'b net_state \<Rightarrow> bool" where
  "link_idle bytes i p s \<longleftrightarrow>
     (\<exists>c t rb wb. get_conn p s = Inr c \<and> td c = Some i \<and> state c \<noteq> CS_CLOSE \<and>
        read_buffer c = Some rb \<and> bytes rb = [] \<and> write_buffer c = Some wb \<and> bytes wb = [] \<and>
        conn_write_msgs c = [] \<and> get_td i s = Inr t \<and> tables_ok t s \<and> p \<in> set (served t) \<and>
        td_write_msgs t = [] \<and> (\<forall>x \<in> set (served t). read_queue s x = []))"

lemma end_to_end:
  assumes "evbuffer_laws ops bytes"
    and "link_idle bytes i p a" and "procs_ok (s_msg_processers a)"
    and "\<And>n. n \<in> set ns \<Longrightarrow> msg_conn n = p \<and> node_ok (s_msg_processers a) n \<and> sendable (s_msg_processers b) n"
    and "link_idle bytes (of_nat j) q b" and "workers nb b" and "j < nb" and "s_cnt b \<noteq> 0x7FFFFFFF"
    and "\<And>i. i < nb \<Longrightarrow> td_reads b (of_nat i) = []"
  shows "\<exists>a1 a2. fold_res (\<lambda>n. net_send (Some n)) ns a = Inr a1 \<and> distribute_writes i a1 = Inr a2 \<and>
    (\<forall>wenvs w a3 c3 chunks renvs raw.
       write_rounds ops wenvs p a2 = Inr (w, a3) \<and> get_conn p a3 = Inr c3 \<and> unsent bytes c3 = [] \<and>
       concat chunks = w \<and> length w < 2 ^ 31 \<and>
       map io_read renvs = map Read_data chunks \<and> (\<forall>env \<in> set renvs. io_raw env = raw) \<longrightarrow>
       (\<exists>b1 b2 b3. fold_res (\<lambda>env. on_read ops env q) renvs b = Inr b1 \<and>
          collect_reads (of_nat j) b1 = Inr b2 \<and>
          get_net_msgs [] b2 = Inr (map (delivered raw q) ns, b3)))"
proof -
  from assms(2) obtain c t wb where A: "get_conn p a = Inr c" "td c = Some i" "get_td i a = Inr t"
    "tables_ok t a" "p \<in> set (served t)" "write_buffer c = Some wb" "bytes wb = []"
    "conn_write_msgs c = []" "td_write_msgs t = []" unfolding link_idle_def by blast
  from assms(5) obtain d u rb where B: "get_td (of_nat j) b = Inr u" "tables_ok u b" "q \<in> set (served u)"
    "get_conn q b = Inr d" "state d \<noteq> CS_CLOSE" "read_buffer d = Some rb" "bytes rb = []"
    and B': "\<And>x. x \<in> set (served u) \<Longrightarrow> read_queue b x = []" unfolding link_idle_def by blast
  obtain a1 a2 where a: "fold_res (\<lambda>n. net_send (Some n)) ns a = Inr a1" "distribute_writes i a1 = Inr a2"
    and wr: "\<And>envs w s3. write_rounds ops envs p a2 = Inr (w, s3) \<Longrightarrow>
       \<exists>c3. get_conn p s3 = Inr c3 \<and> w @ unsent bytes c3 = concat (map frame_bytes ns)"
    using sender [OF assms(1,3) A, of ns] assms(4) by blast
  have "\<exists>b1 b2 b3. fold_res (\<lambda>env. on_read ops env q) renvs b = Inr b1 \<and>
      collect_reads (of_nat j) b1 = Inr b2 \<and> get_net_msgs [] b2 = Inr (map (delivered raw q) ns, b3)"
    if "write_rounds ops wenvs p a2 = Inr (w, a3)" "get_conn p a3 = Inr c3" "unsent bytes c3 = []"
      "concat chunks = w" "length w < 2 ^ 31"
      "map io_read renvs = map Read_data chunks" "\<forall>env \<in> set renvs. io_raw env = raw"
    for wenvs w a3 c3 chunks renvs raw
  proof -
    have "concat chunks = concat (map frame_bytes ns)" using wr [OF that(1)] that(2-4) by auto
    then show ?thesis
      using receiver [OF assms(1,6,7,8) B assms(9) B' _ _ _ that(6)] assms(4) that(4,5,7) by blast
  qed
  with a show ?thesis by blast
qed

end
