(* ===== verification/GF_System.thy ===== *)
theory GF_System
  imports GF_EndToEnd "HOL-Library.Multiset"
begin

text \<open>
  The threads of \<open>src/src/common/net/go_net.cpp\<close> together. The state is the state of the
  module, the bytes in the pipe of every worker, and where every worker stands in the loop of
  \<open>data_thread_worker\<close>; the steps are the critical sections of the logic thread, the accept
  thread and the workers, in any order the program allows (\<open>enabled\<close>, \<open>exec\<close>). A worker goes
  through its phases in the order of the source, the loop over its connections one connection
  at a time and its event loop one callback at a time, so that every other thread may run
  in between.

  \<open>enabled\<close> also says what is taken from the system: \<open>new\<close> gives addresses not in use that
  are no small integers, descriptors are \<open>int\<close>s, a pipe gives a byte only after one was
  written, libevent calls back for connections that were registered with it.
  Shown: \<open>system_ok\<close> holds in every reachable state, and a step faults only when a frame of
  the stream it reads has a bad length.
\<close>

section \<open>The state and the steps\<close>

datatype phase =
    At_distribute
  | At_collect
  | At_connect
  | At_io "(u64 \<times> ptr) list"   \<comment> \<open>the connections \<open>io_iter\<close> has not reached\<close>
  | At_purge

record 'b system =
  network :: "'b net_state"
  pipe :: "u64 \<Rightarrow> nat"
  at :: "u64 \<Rightarrow> phase"
  listener :: ptr

datatype action =
    Logic_send "MsgNode option"
  | Logic_get
  | Logic_close int ptr
  | Logic_connect socket_env PeerInfo ptr
  | Accept_ready io_env int
  | Distribute u64
  | Collect u64
  | Connect u64 "ConnInfo \<Rightarrow> int"
  | Io u64 io_env io_env
  | Callback_of u64 callback
  | Reap u64 raw_node
  | Purge u64 int

text \<open>How often the pipe of worker \<open>i\<close> was written to.\<close>

definition notified :: "'b net_state \<Rightarrow> u64 \<Rightarrow> nat" where
  "notified s i = length (filter (\<lambda>e. e = Notify i) (effects s))"

text \<open>An operation of the module, its bytes added to the pipes.\<close>

definition on_net :: "('b net_state \<Rightarrow> 'b net_state res) \<Rightarrow> 'b system \<Rightarrow> 'b system res" where
  "on_net f sy =
     bind_res (f (network sy)) (\<lambda>s'.
       Inr (sy\<lparr> network := s', pipe := (\<lambda>i. pipe sy i + (notified s' i - notified (network sy) i)) \<rparr>))"

definition goto :: "u64 \<Rightarrow> phase \<Rightarrow> 'b system res \<Rightarrow> 'b system res" where
  "goto i ph r = bind_res r (\<lambda>sy. Inr (sy\<lparr> at := (at sy)(i := ph) \<rparr>))"

definition connections_of :: "u64 \<Rightarrow> 'b net_state \<Rightarrow> (u64 \<times> ptr) list" where
  "connections_of i s = (case get_td i s of Inl f \<Rightarrow> [] | Inr t \<Rightarrow> thread_connections t)"

definition pending_io :: "phase \<Rightarrow> (u64 \<times> ptr) list" where
  "pending_io ph = (case ph of At_io kps \<Rightarrow> kps | _ \<Rightarrow> [])"

text \<open>Reading the pipe takes its byte.\<close>

definition take_byte :: "u64 \<Rightarrow> callback \<Rightarrow> 'b system \<Rightarrow> 'b system" where
  "take_byte i cb sy =
     (case cb of
        On_pipe env (Some b) \<Rightarrow> sy\<lparr> pipe := (pipe sy)(i := pipe sy i - 1) \<rparr>
      | _ \<Rightarrow> sy)"

fun exec :: "'b evbuffer_ops \<Rightarrow> action \<Rightarrow> 'b system \<Rightarrow> 'b system res" where
  "exec ops (Logic_send md) sy = on_net (net_send md) sy"
| "exec ops Logic_get sy = on_net (\<lambda>s. bind_res (get_net_msgs [] s) (\<lambda>(ms, s'). Inr s')) sy"
| "exec ops (Logic_close now p) sy = on_net (conn_close now p) sy"
| "exec ops (Logic_connect env peer new) sy = on_net (\<lambda>s. Inr (snd (net_connect env peer new s))) sy"
| "exec ops (Accept_ready env fd) sy = on_net (event_handler ops env fd EV_READ (listener sy)) sy"
| "exec ops (Distribute i) sy = goto i At_collect (on_net (distribute_writes i) sy)"
| "exec ops (Collect i) sy = goto i At_connect (on_net (collect_reads i) sy)"
| "exec ops (Connect i written) sy =
     goto i (At_io (connections_of i (network sy))) (on_net (connect_phase written) sy)"
| "exec ops (Io i renv wenv) sy =
     (case pending_io (at sy i) of
        [] \<Rightarrow> Inr sy
      | kp # kps \<Rightarrow> goto i (At_io kps) (on_net (io_one ops (\<lambda>p. (renv, wenv)) kp) sy))"
| "exec ops (Callback_of i cb) sy = on_net (run_callback ops i cb) (take_byte i cb sy)"
| "exec ops (Reap i raw) sy = goto i At_purge (on_net (reap_phase raw i) sy)"
| "exec ops (Purge i now) sy = goto i At_distribute (on_net (purge_phase now i) sy)"

text \<open>The guards.\<close>

definition int_fd :: "int \<Rightarrow> bool" where
  "int_fd fd \<longleftrightarrow> fd < 2 ^ 31"

definition fresh :: "ptr \<Rightarrow> 'b net_state \<Rightarrow> bool" where
  "fresh p s \<longleftrightarrow> 2 ^ 31 \<le> p \<and> conns s p = None"

definition room :: "'b evbuffer_ops \<Rightarrow> io_env \<Rightarrow> ptr \<Rightarrow> 'b net_state \<Rightarrow> bool" where
  "room ops env p s \<longleftrightarrow>
     (case (io_read env, conns s p) of
        (Read_data d, Some c) \<Rightarrow>
          (case read_buffer c of None \<Rightarrow> True | Some b \<Rightarrow> int (evb_get_length ops b) + int (length d) < 2 ^ 31)
      | _ \<Rightarrow> True)"

definition owned :: "u64 \<Rightarrow> ptr \<Rightarrow> 'b net_state \<Rightarrow> bool" where
  "owned i p s \<longleftrightarrow> (\<exists>c. conns s p = Some c \<and> td c = Some i)"

definition is_worker :: "u64 \<Rightarrow> 'b net_state \<Rightarrow> bool" where
  "is_worker i s \<longleftrightarrow> (\<exists>t. get_td i s = Inr t)"

text \<open>The same, by looking it up.\<close>

definition has_owner :: "ptr \<Rightarrow> 'b net_state \<Rightarrow> bool" where
  "has_owner p s \<longleftrightarrow> (case conns s p of None \<Rightarrow> False | Some c \<Rightarrow> td c \<noteq> None)"

definition io_ready :: "'b evbuffer_ops \<Rightarrow> io_env \<Rightarrow> phase \<Rightarrow> 'b net_state \<Rightarrow> bool" where
  "io_ready ops env ph s \<longleftrightarrow> (case pending_io ph of [] \<Rightarrow> False | kp # kps \<Rightarrow> room ops env (snd kp) s)"

lemma has_owner_iff [simp]: "has_owner p s \<longleftrightarrow> (\<exists>i. owned i p s)"
  by (auto simp: has_owner_def owned_def split: option.split)

lemma io_ready_iff [simp]:
  "io_ready ops env ph s \<longleftrightarrow> (\<exists>k p kps. ph = At_io ((k, p) # kps) \<and> room ops env p s)"
  by (auto simp: io_ready_def pending_io_def split: phase.splits list.splits)

lemma is_worker_code [code]: "is_worker i s \<longleftrightarrow> (case get_td i s of Inl f \<Rightarrow> False | Inr t \<Rightarrow> True)"
  by (auto simp: is_worker_def split: sum.split)

lemma owned_code [code]: "owned i p s \<longleftrightarrow> (case conns s p of None \<Rightarrow> False | Some c \<Rightarrow> td c = Some i)"
  by (auto simp: owned_def split: option.split)

definition callback_enabled :: "'b evbuffer_ops \<Rightarrow> u64 \<Rightarrow> callback \<Rightarrow> 'b system \<Rightarrow> bool" where
  "callback_enabled ops i cb sy \<longleftrightarrow>
     (case cb of
        On_pipe env byte \<Rightarrow>
          fresh (ce_new env) (network sy) \<and> (byte = None \<or> byte = Some 0x63 \<and> 0 < pipe sy i)
      | On_socket env fd which p \<Rightarrow> owned i p (network sy) \<and> room ops env p (network sy))"

fun enabled :: "'b evbuffer_ops \<Rightarrow> action \<Rightarrow> 'b system \<Rightarrow> bool" where
  "enabled ops (Logic_send md) sy =
     (case md of
        None \<Rightarrow> True
      | Some n \<Rightarrow> msg_conn n = NULLP \<or>
          node_ok (s_msg_processers (network sy)) n \<and> has_owner (msg_conn n) (network sy))"
| "enabled ops Logic_get sy = (s_cnt (network sy) \<noteq> 0x7FFFFFFF)"
| "enabled ops (Logic_close now p) sy = has_owner p (network sy)"
| "enabled ops (Logic_connect env peer new) sy = (fresh new (network sy) \<and> int_fd (so_socket env))"
| "enabled ops (Accept_ready env fd) sy = (\<forall>a \<in> set (io_accepts env). int_fd (ac_sfd a))"
| "enabled ops (Distribute i) sy = (is_worker i (network sy) \<and> at sy i = At_distribute)"
| "enabled ops (Collect i) sy = (is_worker i (network sy) \<and> at sy i = At_collect)"
| "enabled ops (Connect i written) sy = (is_worker i (network sy) \<and> at sy i = At_connect)"
| "enabled ops (Io i renv wenv) sy =
     (is_worker i (network sy) \<and> io_ready ops renv (at sy i) (network sy))"
| "enabled ops (Callback_of i cb) sy =
     (is_worker i (network sy) \<and> at sy i = At_io [] \<and> callback_enabled ops i cb sy)"
| "enabled ops (Reap i raw) sy = (is_worker i (network sy) \<and> at sy i = At_io [])"
| "enabled ops (Purge i now) sy = (is_worker i (network sy) \<and> at sy i = At_purge)"

text \<open>The network as \<open>net_init\<close> and the accept thread leave it, every worker before its loop.\<close>

definition blank :: "'b net_state \<Rightarrow> bool" where
  "blank s \<longleftrightarrow> (\<forall>p. conns s p = None) \<and> s_conns_map s = [] \<and> s_connect_conns s = [] \<and>
     s_threads_datas s = [] \<and> procs_ok (s_msg_processers s) \<and> knows_shutdown (s_msg_processers s)"

record boot_env =
  be_base :: ptr
  be_socket :: socket_env
  be_create :: create_env
  be_has_log :: bool
  be_threads :: "u64 \<Rightarrow> thread_env"

definition boot :: "'b evbuffer_ops \<Rightarrow> boot_env \<Rightarrow> 'b net_state \<Rightarrow> (bool \<times> 'b system) res" where
  "boot ops be s =
     bind_res (net_init ops (be_base be) (be_socket be) (be_create be) True s) (\<lambda>(ok, s1).
       bind_res (accept_thread_worker (be_has_log be) (be_threads be) (be_base be) s1) (\<lambda>s2.
         Inr (ok, \<lparr> network = s2, pipe = (\<lambda>i. 0), at = (\<lambda>i. At_distribute), listener = ce_new (be_create be) \<rparr>)))"

inductive reachable :: "'b evbuffer_ops \<Rightarrow> nat \<Rightarrow> 'b system \<Rightarrow> bool" for ops n where
  reachable_boot: "blank s \<Longrightarrow> net_thread_num (s_net_setting s) = of_nat n \<Longrightarrow> 0 < n \<Longrightarrow> n < 2 ^ 31 \<Longrightarrow>
    fresh (ce_new (be_create be)) s \<Longrightarrow> boot ops be s = Inr (True, sy) \<Longrightarrow> reachable ops n sy"
| reachable_step: "reachable ops n sy \<Longrightarrow> enabled ops a sy \<Longrightarrow> exec ops a sy = Inr sy' \<Longrightarrow> reachable ops n sy'"

section \<open>What a step that moves messages keeps\<close>

text \<open>The tables of a worker without its queues of messages.\<close>

definition td_core :: "ThreadData \<Rightarrow> ThreadData" where
  "td_core t = t\<lparr> td_read_msgs := [], td_write_msgs := [] \<rparr>"

definition core :: "'b net_state \<Rightarrow> (u64, ThreadData option) std_map" where
  "core s = map (map_prod id (map_option td_core)) (s_threads_datas s)"

text \<open>Every node queued anywhere has data of the class its type stands for.\<close>

definition typed_in :: "msg_processers \<Rightarrow> MsgNode list \<Rightarrow> bool" where
  "typed_in procs ns \<longleftrightarrow> (\<forall>n \<in> set ns. node_ok procs n)"

definition well_typed :: "'b net_state \<Rightarrow> bool" where
  "well_typed s \<longleftrightarrow>
     (\<forall>i t. get_td i s = Inr t \<longrightarrow> typed_in (s_msg_processers s) (td_read_msgs t @ td_write_msgs t)) \<and>
     (\<forall>p c. conns s p = Some c \<longrightarrow> typed_in (s_msg_processers s) (conn_read_msgs c @ conn_write_msgs c))"

definition conn_evolves :: "'b connection \<Rightarrow> 'b connection \<Rightarrow> bool" where
  "conn_evolves c c' \<longleftrightarrow> td c' = td c \<and> sfd c' = sfd c \<and> buffers_freed c' = buffers_freed c \<and>
     (state c' = state c \<and> close_time c' = close_time c \<or> state c \<noteq> CS_CLOSE \<and> state c' = CS_CLOSE) \<and>
     (read_buffer c' = None \<longleftrightarrow> read_buffer c = None) \<and> (write_buffer c' = None \<longleftrightarrow> write_buffer c = None) \<and>
     (td c = None \<longrightarrow> conn_write_msgs c = [] \<longrightarrow> conn_write_msgs c' = [])"

definition evolves :: "'b net_state \<Rightarrow> 'b net_state \<Rightarrow> bool" where
  "evolves s s' \<longleftrightarrow>
     s_msg_processers s' = s_msg_processers s \<and> s_conns_map s' = s_conns_map s \<and>
     s_connect_conns s' = s_connect_conns s \<and> s_net_setting s' = s_net_setting s \<and>
     core s' = core s \<and> notified s' = notified s \<and>
     (\<forall>p. rel_option conn_evolves (conns s p) (conns s' p)) \<and>
     (procs_ok (s_msg_processers s) \<longrightarrow> well_typed s \<longrightarrow> well_typed s')"

lemma conn_evolves_refl [simp]: "conn_evolves c c"
  by (simp add: conn_evolves_def)

lemma conn_evolves_trans:
  assumes "conn_evolves a b" and "conn_evolves b c"
  shows "conn_evolves a c"
proof -
  have "state c = state a \<and> close_time c = close_time a \<or> state a \<noteq> CS_CLOSE \<and> state c = CS_CLOSE"
    using assms unfolding conn_evolves_def by metis
  with assms show ?thesis unfolding conn_evolves_def by metis
qed

lemma evolves_refl [simp]: "evolves s s"
  by (simp add: evolves_def option.rel_refl)

lemma evolves_trans:
  assumes "evolves a b" and "evolves b c"
  shows "evolves a c"
proof -
  have "rel_option conn_evolves (conns a p) (conns c p)" for p
  proof -
    have "rel_option conn_evolves (conns a p) (conns b p)" "rel_option conn_evolves (conns b p) (conns c p)"
      using assms by (simp_all add: evolves_def)
    then show ?thesis
      by (cases "conns a p"; cases "conns b p"; cases "conns c p") (auto intro: conn_evolves_trans)
  qed
  with assms show ?thesis by (simp add: evolves_def)
qed

lemma typed_in_simps [simp]:
  "typed_in procs []" "typed_in procs (n # ns) \<longleftrightarrow> node_ok procs n \<and> typed_in procs ns"
  "typed_in procs (xs @ ys) \<longleftrightarrow> typed_in procs xs \<and> typed_in procs ys"
  by (auto simp: typed_in_def)

lemma well_typedD:
  assumes "well_typed s"
  shows "get_td i s = Inr t \<Longrightarrow> typed_in (s_msg_processers s) (td_read_msgs t)"
    and "get_td i s = Inr t \<Longrightarrow> typed_in (s_msg_processers s) (td_write_msgs t)"
    and "conns s p = Some c \<Longrightarrow> typed_in (s_msg_processers s) (conn_read_msgs c)"
    and "conns s p = Some c \<Longrightarrow> typed_in (s_msg_processers s) (conn_write_msgs c)"
  using assms by (auto simp: well_typed_def)

lemma well_typed_put_conn:
  "well_typed s \<Longrightarrow> typed_in (s_msg_processers s) (conn_read_msgs c @ conn_write_msgs c) \<Longrightarrow>
     well_typed (put_conn p c s)"
  by (auto simp: well_typed_def)

lemma well_typed_put_td:
  "well_typed s \<Longrightarrow> typed_in (s_msg_processers s) (td_read_msgs t @ td_write_msgs t) \<Longrightarrow>
     well_typed (put_td i t s)"
  by (auto simp: well_typed_def)

lemma notified_simps [simp]:
  "notified (put_conn p c s) = notified s" "notified (put_td i t s) = notified s"
  "notified (log_effect e s) j = notified s j + (if e = Notify j then 1 else 0)"
  "notified (del_conn p s) = notified s"
  by (simp_all add: notified_def fun_eq_iff)

lemma notified_cong: "effects s' = effects s \<Longrightarrow> notified s' = notified s"
  by (simp add: notified_def fun_eq_iff)

lemma core_simps [simp]:
  "core (put_conn p c s) = core s" "core (log_effect e s) = core s" "core (del_conn p s) = core s"
  by (simp_all add: core_def)

lemma core_find: "map_find (core s) i = map_option (map_option td_core) (map_find (s_threads_datas s) i)"
proof -
  have "map_find (map (map_prod id f) m) i = map_option f (map_find m i)" for f :: "'c \<Rightarrow> 'd" and m
    by (induction m) auto
  then show ?thesis by (simp add: core_def)
qed

lemma core_keys: "map_keys (core s) = map_keys (s_threads_datas s)"
  by (simp add: core_def map_keys_def o_def case_prod_beta)

lemma map_put_map: "map_put k (f v) (map (map_prod id f) m) = map (map_prod id f) (map_put k v m)"
  by (induction m) auto

lemma map_put_same: "map_ok m \<Longrightarrow> map_find m k = Some v \<Longrightarrow> map_put k v m = m"
proof (induction m)
  case (Cons x m)
  obtain k' v' where x: "x = (k', v')" by fastforce
  show ?case
  proof (cases "k = k'")
    case False
    then have f: "map_find m k = Some v" using Cons.prems(2) x by simp
    have "k' < k" using Cons.prems(1) x map_find_Some_key [OF f] by simp
    with False f Cons x show ?thesis by auto
  qed (use Cons.prems x in simp)
qed simp

lemma core_put_td:
  assumes "map_ok (s_threads_datas s)"
  shows "core (put_td i t s) = map_put i (Some (td_core t)) (core s)"
  using map_put_map [of i "map_option td_core" "Some t"] by (simp add: core_def)

lemma core_put_td_same:
  assumes "map_ok (s_threads_datas s)" and "get_td i s = Inr t" and "td_core t' = td_core t"
  shows "core (put_td i t' s) = core s"
  unfolding core_put_td [OF assms(1)]
  using assms by (intro map_put_same) (auto simp: get_td_Inr core_find map_ok_def core_keys)

lemma core_get_td:
  "core s' = core s \<Longrightarrow> get_td i s' = Inr t' \<Longrightarrow> \<exists>t. get_td i s = Inr t \<and> td_core t' = td_core t"
  using core_find [of s i] core_find [of s' i] by (auto simp: get_td_Inr)

lemma core_map_ok: "core s' = core s \<Longrightarrow> map_ok (s_threads_datas s') = map_ok (s_threads_datas s)"
  by (metis core_keys map_ok_def)

lemma evolves_put_conn:
  assumes "get_conn p s = Inr c" and "conn_evolves c c'"
    and "typed_in (s_msg_processers s) (conn_read_msgs c @ conn_write_msgs c) \<Longrightarrow>
      procs_ok (s_msg_processers s) \<Longrightarrow> well_typed s \<Longrightarrow>
      typed_in (s_msg_processers s) (conn_read_msgs c' @ conn_write_msgs c')"
  shows "evolves s (put_conn p c' s)"
proof -
  have p: "conns s p = Some c" using assms(1) by (simp add: get_conn_Inr)
  have s: "s_net_setting (put_conn p c' s) = s_net_setting s" by (simp add: put_conn_def)
  have "well_typed (put_conn p c' s)" if "procs_ok (s_msg_processers s)" "well_typed s"
    using assms(3) that well_typedD(3,4) [OF that(2) p] by (intro well_typed_put_conn) auto
  with p s assms(2) show ?thesis by (simp add: evolves_def option.rel_refl)
qed

lemma evolves_log:
  assumes "\<And>i. e \<noteq> Notify i"
  shows "evolves s (log_effect e s)"
proof -
  have "s_net_setting (log_effect e s) = s_net_setting s" by (simp add: log_effect_def)
  moreover have "notified (log_effect e s) = notified s" by (rule ext) (simp add: assms)
  moreover have "well_typed (log_effect e s) = well_typed s" by (simp add: well_typed_def)
  ultimately show ?thesis by (simp add: evolves_def option.rel_refl)
qed

lemma evolves_put_td:
  assumes "map_ok (s_threads_datas s)" and "get_td i s = Inr t" and "td_core t' = td_core t"
    and "procs_ok (s_msg_processers s) \<Longrightarrow> well_typed s \<Longrightarrow>
      typed_in (s_msg_processers s) (td_read_msgs t' @ td_write_msgs t')"
  shows "evolves s (put_td i t' s)"
proof -
  have s: "s_net_setting (put_td i t' s) = s_net_setting s" by (simp add: put_td_def)
  have "well_typed (put_td i t' s)" if "procs_ok (s_msg_processers s)" "well_typed s"
    using assms(4) [OF that] by (intro well_typed_put_td [OF that(2)])
  with s core_put_td_same [OF assms(1-3)] show ?thesis by (simp add: evolves_def option.rel_refl)
qed

lemma evolves_map_ok: "evolves s s' \<Longrightarrow> map_ok (s_threads_datas s') = map_ok (s_threads_datas s)"
  by (rule core_map_ok) (simp add: evolves_def)

lemma evolves_procs: "evolves s s' \<Longrightarrow> s_msg_processers s' = s_msg_processers s"
  by (simp add: evolves_def)

section \<open>The operations on one connection\<close>

lemma format_node_typed:
  assumes "format_node procs raw conn msg l = Inr (Some n)" and "procs_ok procs"
  shows "node_ok procs n"
proof -
  let ?ty = "le_word (take 4 msg) :: u32"
  from assms(1) obtain p d d' ok where
    p: "map_find procs ?ty = Some p" "call_nmd p = Inr d"
      "MsgData_ParseFromArray (take (nat l) (drop 16 msg)) d = Inr (ok, d')"
      "msg_type n = ?ty" "msg_data n = Some d'"
    by (auto simp: format_node_def Let_def split: if_splits option.splits)
  from assms(2) p(1) have "proc_ok p" by (auto simp: procs_ok_def)
  moreover have "MsgData_class d' = MsgData_class d"
    using MsgData_ParseFromArray_total [of "take (nat l) (drop 16 msg)" d] p(3) by auto
  ultimately show ?thesis using p by (auto simp: node_ok_def proc_ok_def call_nmd_def)
qed

lemma message_format_loop_typed:
  "message_format_loop ops procs raw conn k b msgs = Inr (b', msgs') \<Longrightarrow> procs_ok procs \<Longrightarrow>
     typed_in procs msgs \<Longrightarrow> typed_in procs msgs'"
proof (induction ops procs raw conn k b msgs arbitrary: b' msgs' rule: message_format_loop.induct)
  case (1 ops procs raw conn k b msgs)
  let ?l = "sint (peek_msg_len (evb_peek ops b 16))"
  show ?case
  proof (cases "16 < k \<and> evb_peek ops b 16 \<noteq> [] \<and> \<not> k < ?l + 16")
    case True
    obtain msg b1 where r: "evb_remove ops b (nat (?l + 16)) = (msg, b1)" by fastforce
    from "1.prems"(1) True r obtain node where
      n: "\<not> 2 ^ 31 \<le> ?l + 16" "\<not> ?l + 16 < 0" "\<not> length msg < nat (?l + 16)" "\<not> ?l + 16 < 12"
        "format_node procs raw conn msg ?l = Inr node"
        "message_format_loop ops procs raw conn (k - (?l + 16)) b1
          (case node of None \<Rightarrow> msgs | Some n \<Rightarrow> msgs @ [n]) = Inr (b', msgs')"
      by (subst (asm) message_format_loop.simps) (auto simp: Let_def split: if_splits)
    have ty: "typed_in procs (case node of None \<Rightarrow> msgs | Some n \<Rightarrow> msgs @ [n])"
      using "1.prems"(2,3) n(5) by (auto split: option.split intro: format_node_typed)
    have vs: "16 < k" "evb_peek ops b 16 \<noteq> []" "\<not> k < ?l + 16" using True by auto
    show ?thesis
      by (rule "1.IH" [OF vs(1) refl vs(2) refl n(1) vs(3) n(2) r [symmetric] n(3,4) n(6) "1.prems"(2) ty])
  next
    case False
    then show ?thesis
      using "1.prems" by (subst (asm) message_format_loop.simps) (auto simp: Let_def split: if_splits)
  qed
qed

lemma receive_evolves:
  assumes "receive ops procs raw p data c = Inr c'"
  shows "conn_evolves c c'" and "conn_write_msgs c' = conn_write_msgs c"
    and "procs_ok procs \<Longrightarrow> typed_in procs (conn_read_msgs c) \<Longrightarrow> typed_in procs (conn_read_msgs c')"
  using assms
  by (auto simp: receive_def message_format_def conn_evolves_def split: option.splits if_splits
      intro: message_format_loop_typed)

lemma conn_close_total:
  assumes "get_conn p s = Inr c"
  shows "\<exists>s'. conn_close now p s = Inr s' \<and> evolves s s'"
proof -
  let ?c = "if state c \<noteq> CS_CLOSE then c\<lparr> state := CS_CLOSE, close_time := now \<rparr> else c"
  have "evolves s (put_conn p ?c s)"
    by (rule evolves_put_conn [OF assms]) (auto simp: conn_evolves_def)
  then show ?thesis using assms by (auto simp: conn_close_def conn_set_state_def upd_conn_def)
qed

lemma upd_conn_total:
  assumes "get_conn p s = Inr c" and "conn_evolves c (f c)"
    and "conn_read_msgs (f c) = conn_read_msgs c" and "conn_write_msgs (f c) = conn_write_msgs c"
  shows "\<exists>s'. upd_conn p f s = Inr s' \<and> evolves s s'"
  using assms evolves_put_conn [OF assms(1,2)] by (auto simp: upd_conn_def)

lemma update_event_total:
  assumes "get_conn p s = Inr c"
  shows "\<exists>ok s'. update_event d a p evt s = Inr (ok, s') \<and> evolves s s'"
  using assms
  by (auto simp: update_event_def Let_def get_conn_Inr conn_evolves_def intro!: evolves_put_conn [of _ _ c])

lemma evolves_get_conn:
  "evolves s s' \<Longrightarrow> get_conn p s = Inr c \<Longrightarrow> \<exists>c'. get_conn p s' = Inr c' \<and> conn_evolves c c'"
  by (auto simp: evolves_def get_conn_Inr option_rel_Some1 dest!: spec [of _ p])

text \<open>What a connection with callbacks needs: its buffers, and queues it can write.\<close>

definition usable :: "msg_processers \<Rightarrow> 'b connection \<Rightarrow> bool" where
  "usable procs c \<longleftrightarrow> typed_in procs (conn_write_msgs c) \<and>
     (state c \<noteq> CS_CLOSE \<longrightarrow> read_buffer c \<noteq> None \<and> write_buffer c \<noteq> None)"

text \<open>The bytes read fault in \<open>message_format\<close>.\<close>

definition bad_read :: "'b evbuffer_ops \<Rightarrow> io_env \<Rightarrow> ptr \<Rightarrow> 'b net_state \<Rightarrow> fault \<Rightarrow> bool" where
  "bad_read ops env p s f \<longleftrightarrow>
     (\<exists>d c. io_read env = Read_data d \<and> conns s p = Some c \<and> read_buffer c \<noteq> None \<and>
        receive ops (s_msg_processers s) (io_raw env) p d c = Inl f)"

text \<open>A run that succeeds and keeps what \<open>evolves\<close> says.\<close>

definition runs :: "'b net_state \<Rightarrow> 'b net_state res \<Rightarrow> bool" where
  "runs s r \<longleftrightarrow> (\<exists>s'. r = Inr s' \<and> evolves s s')"

lemma runs_Inr [simp]: "runs s (Inr s') \<longleftrightarrow> evolves s s'"
  by (simp add: runs_def)

lemma runs_trans: "evolves a b \<Longrightarrow> runs b r \<Longrightarrow> runs a r"
  unfolding runs_def using evolves_trans by blast

lemma runs_bind:
  assumes "runs s r" and "\<And>s'. r = Inr s' \<Longrightarrow> evolves s s' \<Longrightarrow> runs s' (k s')"
  shows "runs s (bind_res r k)"
proof -
  from assms(1) obtain s' where "r = Inr s'" "evolves s s'" by (auto simp: runs_def)
  with runs_trans [OF this(2) assms(2)] show ?thesis by simp
qed

lemma runs_close: "get_conn p s = Inr c \<Longrightarrow> runs s (conn_close now p s)"
  using conn_close_total by (fastforce simp: runs_def)

lemma runs_upd:
  "get_conn p s = Inr c \<Longrightarrow> (\<And>c. conn_evolves c (f c)) \<Longrightarrow> (\<And>c. conn_read_msgs (f c) = conn_read_msgs c) \<Longrightarrow>
     (\<And>c. conn_write_msgs (f c) = conn_write_msgs c) \<Longrightarrow> runs s (upd_conn p f s)"
  using upd_conn_total by (fastforce simp: runs_def)

lemma conn_evolves_flags [simp]:
  "conn_evolves c (c\<lparr> can_read := x \<rparr>)" "conn_evolves c (c\<lparr> can_write := x \<rparr>)"
  by (simp_all add: conn_evolves_def)

lemma runs_close_unread:
  "get_conn p s = Inr c \<Longrightarrow> runs s (bind_res (conn_close now p s) (upd_conn p (\<lambda>c. c\<lparr> can_read := False \<rparr>)))"
  by (rule runs_bind [OF runs_close], assumption) (drule evolves_get_conn, auto intro!: runs_upd)

lemma runs_update_event:
  assumes "get_conn p s = Inr c"
    and "\<And>ok s' c'. get_conn p s' = Inr c' \<Longrightarrow> runs s' (k ok s')"
  shows "runs s (bind_res (update_event d a p evt s) (\<lambda>(ok, s'). k ok s'))"
proof -
  from update_event_total [OF assms(1), of d a evt] obtain ok s' where
    u: "update_event d a p evt s = Inr (ok, s')" "evolves s s'" by blast
  from evolves_get_conn [OF u(2) assms(1)] obtain c' where "get_conn p s' = Inr c'" by blast
  with runs_trans [OF u(2) assms(2)] u(1) show ?thesis by simp
qed

lemma on_read_open:
  assumes "get_conn p s = Inr c" and "state c \<noteq> CS_CLOSE"
  shows "on_read ops env p s = (case io_read env of
      Read_eof \<Rightarrow> bind_res (conn_close (io_now env) p s) (upd_conn p (\<lambda>c. c\<lparr> can_read := False \<rparr>))
    | Read_error again \<Rightarrow>
        bind_res (upd_conn p (\<lambda>c. c\<lparr> can_read := False \<rparr>) s) (\<lambda>s1.
          if \<not> again then
            bind_res (conn_close (io_now env) p s1) (upd_conn p (\<lambda>c. c\<lparr> can_read := False \<rparr>))
          else bind_res (update_event (io_del env) (io_add env) p EV_READ s1) (\<lambda>(ok, s2).
            if \<not> ok then
              bind_res (conn_close (io_now env) p s2) (upd_conn p (\<lambda>c. c\<lparr> can_read := False \<rparr>))
            else Inr s2))
    | Read_data data \<Rightarrow>
        bind_res (receive ops (s_msg_processers s) (io_raw env) p data c) (\<lambda>c'.
          upd_conn p (\<lambda>c. c\<lparr> can_read := True \<rparr>) (put_conn p c' s)))"
proof -
  have "p \<noteq> NULLP" using assms(1) by (simp add: get_conn_Inr)
  with assms show ?thesis by (simp add: on_read_def conn_get_state_def split: read_result.split)
qed

lemma on_read_total:
  assumes "get_conn p s = Inr c" and "usable (s_msg_processers s) c"
  shows "runs s (on_read ops env p s) \<or>
    (\<exists>f. on_read ops env p s = Inl f \<and> state c \<noteq> CS_CLOSE \<and> bad_read ops env p s f)"
proof (cases "state c = CS_CLOSE")
  case True
  then show ?thesis using assms by (simp add: on_read_def conn_get_state_def)
next
  case open_: False
  have p: "p \<noteq> NULLP" "conns s p = Some c" using assms(1) by (simp_all add: get_conn_Inr)
  note go = on_read_open [OF assms(1) open_, of ops env]
  show ?thesis
  proof (cases "io_read env")
    case Read_eof
    with go runs_close_unread [OF assms(1)] show ?thesis by simp
  next
    case (Read_error again)
    have "runs s (bind_res (upd_conn p (\<lambda>c. c\<lparr> can_read := False \<rparr>) s) (\<lambda>s1.
          if \<not> again then
            bind_res (conn_close (io_now env) p s1) (upd_conn p (\<lambda>c. c\<lparr> can_read := False \<rparr>))
          else bind_res (update_event (io_del env) (io_add env) p EV_READ s1) (\<lambda>(ok, s2).
            if \<not> ok then
              bind_res (conn_close (io_now env) p s2) (upd_conn p (\<lambda>c. c\<lparr> can_read := False \<rparr>))
            else Inr s2)))"
    proof (rule runs_bind)
      show "runs s (upd_conn p (\<lambda>c. c\<lparr> can_read := False \<rparr>) s)"
        by (rule runs_upd [OF assms(1)]) simp_all
    next
      fix s1 assume "evolves s s1"
      from evolves_get_conn [OF this assms(1)] obtain c1 where c1: "get_conn p s1 = Inr c1" by blast
      have "runs s1 (bind_res (update_event (io_del env) (io_add env) p EV_READ s1) (\<lambda>(ok, s2).
            if \<not> ok then
              bind_res (conn_close (io_now env) p s2) (upd_conn p (\<lambda>c. c\<lparr> can_read := False \<rparr>))
            else Inr s2))"
        by (rule runs_update_event [OF c1]) (auto intro: runs_close_unread)
      with runs_close_unread [OF c1] show "runs s1 (if \<not> again then
            bind_res (conn_close (io_now env) p s1) (upd_conn p (\<lambda>c. c\<lparr> can_read := False \<rparr>))
          else bind_res (update_event (io_del env) (io_add env) p EV_READ s1) (\<lambda>(ok, s2).
            if \<not> ok then
              bind_res (conn_close (io_now env) p s2) (upd_conn p (\<lambda>c. c\<lparr> can_read := False \<rparr>))
            else Inr s2))" by simp
    qed
    with go Read_error show ?thesis by simp
  next
    case (Read_data d)
    show ?thesis
    proof (cases "receive ops (s_msg_processers s) (io_raw env) p d c")
      case (Inl f)
      with go Read_data p open_ assms(2) show ?thesis by (auto simp: bad_read_def usable_def)
    next
      case (Inr c')
      note r = receive_evolves [OF Inr]
      have e: "evolves s (put_conn p c' s)"
        by (rule evolves_put_conn [OF assms(1) r(1)]) (use r in auto)
      have "runs (put_conn p c' s) (upd_conn p (\<lambda>c. c\<lparr> can_read := True \<rparr>) (put_conn p c' s))"
        by (rule runs_upd [of _ _ c']) (use p in simp_all)
      with runs_trans [OF e this] go Read_data Inr show ?thesis by simp
    qed
  qed
qed

lemma fill_write_buffer_total:
  "typed_in procs ns \<Longrightarrow> \<exists>b ds'. fill_write_buffer ops procs ns buffer ds = Inr (b, ds')"
proof (induction ns arbitrary: buffer ds)
  case (Cons n ns)
  then obtain g d where "message_free procs (Some n) = Inr [Del_data g d, Del_node n]" "msg_data n = Some d"
    using message_free_ok [of procs n] by auto
  with Cons frame_of_bytes [of n] show ?case by simp
qed simp

lemma on_write_total:
  assumes "get_conn p s = Inr c" and "usable (s_msg_processers s) c"
  shows "runs s (on_write ops env p s)"
proof (cases "state c = CS_CLOSE")
  case True
  then show ?thesis using assms by (simp add: on_write_def conn_get_state_def)
next
  case False
  with assms(2) obtain wb where wb: "write_buffer c = Some wb" by (auto simp: usable_def)
  have p: "p \<noteq> NULLP" using assms(1) by (simp add: get_conn_Inr)
  from assms(2) fill_write_buffer_total [of "s_msg_processers s" "conn_write_msgs c" ops wb "[]"]
  obtain wb' ds where f: "fill_write_buffer ops (s_msg_processers s) (conn_write_msgs c) wb [] = Inr (wb', ds)"
    by (auto simp: usable_def)
  let ?c1 = "c\<lparr> conn_write_msgs := [], write_buffer := Some wb' \<rparr>"
  let ?s0 = "if ds = [] then s else log_effect (Dispose ds) s"
  let ?s1 = "put_conn p ?c1 ?s0"
  have e0: "evolves s ?s0" using evolves_log [of "Dispose ds" s] by simp
  have g0: "get_conn p ?s0 = Inr c" using assms(1) by simp
  have e1: "evolves s ?s1"
    by (rule evolves_trans [OF e0 evolves_put_conn [OF g0]]) (auto simp: conn_evolves_def wb)
  have g1: "get_conn p ?s1 = Inr ?c1" using p by simp
  have go: "on_write ops env p s =
     (if evb_get_length ops wb' = 0 then upd_conn p (\<lambda>c. c\<lparr> can_write := True \<rparr>) ?s1
      else (case io_write env of
          Write_error again \<Rightarrow>
            if again then
              bind_res (update_event (io_del env) (io_add env) p EV_WRITE ?s1) (\<lambda>(ok, s2).
                if \<not> ok then conn_close (io_now env) p s2 else Inr s2)
            else upd_conn p (\<lambda>c. c\<lparr> can_write := False \<rparr>) ?s1
        | Wrote n \<Rightarrow>
            upd_conn p (\<lambda>c. c\<lparr> can_write := True, write_buffer := Some (evb_drain ops wb' n) \<rparr>) ?s1))"
    using assms(1) False wb f p by (simp add: on_write_def conn_get_state_def Let_def)
  have flag: "runs ?s1 (upd_conn p (\<lambda>c. c\<lparr> can_write := x \<rparr>) ?s1)" for x
    by (rule runs_upd [OF g1]) simp_all
  have drain: "runs ?s1 (upd_conn p (\<lambda>c. c\<lparr> can_write := True, write_buffer := Some (evb_drain ops wb' n) \<rparr>) ?s1)" for n
  proof -
    have "\<exists>s'. upd_conn p (\<lambda>c. c\<lparr> can_write := True, write_buffer := Some (evb_drain ops wb' n) \<rparr>) ?s1 = Inr s' \<and>
        evolves ?s1 s'"
      by (rule upd_conn_total [OF g1]) (simp_all add: conn_evolves_def)
    then show ?thesis by (simp add: runs_def)
  qed
  have again: "runs ?s1 (bind_res (update_event (io_del env) (io_add env) p EV_WRITE ?s1) (\<lambda>(ok, s2).
                if \<not> ok then conn_close (io_now env) p s2 else Inr s2))"
    by (rule runs_update_event [OF g1]) (auto intro: runs_close)
  have "runs ?s1 (on_write ops env p s)"
    unfolding go using flag drain again by (auto split: write_result.split)
  then show ?thesis by (rule runs_trans [OF e1])
qed

lemma evolves_usable:
  assumes "evolves s s'" and "get_conn p s = Inr c" and "usable (s_msg_processers s) c"
    and "procs_ok (s_msg_processers s)" and "well_typed s"
  shows "\<exists>c'. get_conn p s' = Inr c' \<and> conn_evolves c c' \<and> usable (s_msg_processers s') c'"
proof -
  from evolves_get_conn [OF assms(1,2)] obtain c' where c': "get_conn p s' = Inr c'" "conn_evolves c c'" by blast
  have "well_typed s'" using assms(1,4,5) by (simp add: evolves_def)
  from well_typedD(4) [OF this, of p c'] c' assms(3) show ?thesis
    by (auto simp: usable_def get_conn_Inr conn_evolves_def)
qed

text \<open>The outcome of a step that may read: it runs, or the stream is bad.\<close>

definition runs_or_bad :: "'b evbuffer_ops \<Rightarrow> io_env \<Rightarrow> ptr \<Rightarrow> 'b net_state \<Rightarrow> 'b net_state res \<Rightarrow> bool" where
  "runs_or_bad ops env p s r \<longleftrightarrow> runs s r \<or> (\<exists>f. r = Inl f \<and> bad_read ops env p s f)"

lemma process_event_total:
  assumes "get_conn p s = Inr c" and "usable (s_msg_processers s) c" and "state c \<noteq> CS_LISTEN"
  shows "runs_or_bad ops env p s (process_event ops env p evt s)"
    and "evt AND EV_READ \<noteq> EV_READ \<Longrightarrow> runs s (process_event ops env p evt s)"
  using assms on_read_total [OF assms(1,2), of ops env] on_write_total [OF assms(1,2), of ops env]
  by (auto simp: process_event_def conn_get_state_def get_conn_def runs_or_bad_def split: if_splits)

lemma event_handler_total:
  assumes "get_conn p s = Inr c" and "usable (s_msg_processers s) c" and "state c \<noteq> CS_LISTEN"
  shows "runs_or_bad ops env p s (event_handler ops env fd which p s)"
proof -
  have "p \<noteq> NULLP" using assms(1) by (simp add: get_conn_Inr)
  with assms(1) process_event_total(1) [OF assms, of ops env which] runs_close [OF assms(1), of "io_now env"]
  show ?thesis by (auto simp: event_handler_def runs_or_bad_def)
qed

lemma io_one_total:
  assumes "get_conn p s = Inr c" and "usable (s_msg_processers s) c" and "state c \<noteq> CS_LISTEN"
    and "procs_ok (s_msg_processers s)" and "well_typed s"
  shows "runs_or_bad ops (fst (envs p)) p s (io_one ops envs (k, p) s)"
proof (cases "state c = CS_CLOSE")
  case True
  then show ?thesis using assms(1) by (simp add: io_one_def conn_get_state_def runs_or_bad_def)
next
  case False
  let ?r1 = "if can_read c then process_event ops (fst (envs p)) p EV_READ s else Inr s"
  have go: "io_one ops envs (k, p) s = bind_res ?r1 (\<lambda>s1. bind_res (get_conn p s1) (\<lambda>c1.
      if can_write c1 then process_event ops (snd (envs p)) p EV_WRITE s1 else Inr s1))"
    using assms(1) False by (simp add: io_one_def conn_get_state_def)
  have r1: "runs_or_bad ops (fst (envs p)) p s ?r1"
    using process_event_total(1) [OF assms(1-3)] by (simp add: runs_or_bad_def)
  show ?thesis
  proof (cases "runs s ?r1")
    case True
    have "runs s (io_one ops envs (k, p) s)"
      unfolding go
    proof (rule runs_bind [OF True])
      fix s1 assume e: "evolves s s1"
      from evolves_usable [OF e assms(1,2,4,5)] obtain c1 where
        c1: "get_conn p s1 = Inr c1" "usable (s_msg_processers s1) c1" "conn_evolves c c1" by blast
      then have "state c1 \<noteq> CS_LISTEN" using assms(3) by (auto simp: conn_evolves_def)
      from process_event_total(2) [OF c1(1,2) this, of EV_WRITE] c1(1)
      show "runs s1 (bind_res (get_conn p s1) (\<lambda>c1.
          if can_write c1 then process_event ops (snd (envs p)) p EV_WRITE s1 else Inr s1))" by simp
    qed
    then show ?thesis by (simp add: runs_or_bad_def)
  next
    case False
    with r1 go show ?thesis by (auto simp: runs_or_bad_def)
  qed
qed

section \<open>The phases that move messages\<close>

lemma runs_fold:
  assumes "\<And>x s'. x \<in> set xs \<Longrightarrow> evolves s s' \<Longrightarrow> runs s' (f x s')"
  shows "runs s (fold_res f xs s)"
proof -
  have "\<exists>t. fold_res f xs s = Inr t \<and> evolves s t"
    using fold_res_total [of "evolves s" s xs f] assms evolves_trans by (fastforce simp: runs_def)
  then show ?thesis by (simp add: runs_def)
qed

lemma evolves_conns:
  "evolves s s' \<Longrightarrow> conns s p = Some c \<Longrightarrow> \<exists>c'. conns s' p = Some c' \<and> conn_evolves c c'"
  by (auto simp: evolves_def option_rel_Some1 dest!: spec [of _ p])

lemma evolves_conns_back:
  "evolves s s' \<Longrightarrow> conns s' p = Some c' \<Longrightarrow> \<exists>c. conns s p = Some c \<and> conn_evolves c c'"
  by (auto simp: evolves_def option_rel_Some2 dest!: spec [of _ p])

lemma evolves_conns_None: "evolves s s' \<Longrightarrow> conns s' p = None \<longleftrightarrow> conns s p = None"
  using evolves_conns [of s s' p] evolves_conns_back [of s s' p] by fastforce

lemma tables_ok_core: "td_core t' = td_core t \<Longrightarrow> tables_ok t' s = tables_ok t s"
  by (cases t; cases t') (simp add: tables_ok_def td_core_def)

lemma tables_ok_evolves:
  assumes "tables_ok t s" and "evolves s s'"
  shows "tables_ok t s'"
  unfolding tables_ok_def
proof (intro conjI allI impI)
  fix k p assume m: "map_find (thread_connections t) k = Some p"
  note d = tables_okD(3) [OF assms(1) m]
  then show "k = p" "p \<noteq> NULLP" by auto
  from d evolves_conns [OF assms(2), of p] show "\<exists>c. conns s' p = Some c \<and> \<not> buffers_freed c"
    by (auto simp: conn_evolves_def)
next
  fix k p assume m: "map_find (for_delete_connections t) k = Some p"
  note d = tables_okD(4) [OF assms(1) m]
  then show "p \<noteq> NULLP" "map_find (thread_connections t) p = None" by auto
  from d evolves_conns [OF assms(2), of p]
  show "\<exists>c. conns s' p = Some c \<and> state c = CS_CLOSE \<and> k = of_int (close_time c)"
    by (fastforce simp: conn_evolves_def)
qed (use tables_okD(1,2) [OF assms(1)] in auto)

lemma evolves_get_td:
  assumes "evolves s s'" and "get_td i s = Inr t"
  shows "\<exists>t'. get_td i s' = Inr t' \<and> td_core t' = td_core t"
proof -
  have "core s = core s'" using assms(1) by (simp add: evolves_def)
  from core_get_td [OF this assms(2)] show ?thesis by auto
qed

lemma td_core_simps:
  "td_core t' = td_core t \<longleftrightarrow> td_event t' = td_event t \<and> notify_event t' = notify_event t \<and>
     notify_recv_fd t' = notify_recv_fd t \<and> notify_send_fd t' = notify_send_fd t \<and>
     new_connections t' = new_connections t \<and> for_delete_connections t' = for_delete_connections t \<and>
     thread_connections t' = thread_connections t"
  by (cases t; cases t') (simp add: td_core_def)

lemma distribute_one_runs:
  assumes "get_td i s = Inr t" and "tables_ok t s" and "procs_ok (s_msg_processers s)"
    and "node_ok (s_msg_processers s) n" and "\<And>p. p \<in> set (served t) \<Longrightarrow> owned i p s"
  shows "runs s (distribute_one i n s)"
proof (cases "map_find (thread_connections t) (msg_conn n)")
  case None
  with assms(1) discard_node_ok [OF assms(3), of n] evolves_log [of "Dispose ds" s for ds]
  show ?thesis by (auto simp: distribute_one_def)
next
  case (Some p)
  from tables_okD(3) [OF assms(2) Some] obtain c where "p \<noteq> NULLP" "conns s p = Some c" by auto
  then have c: "get_conn p s = Inr c" by (simp add: get_conn_Inr)
  have "p \<in> set (served t)" using Some map_find_in by (force simp: served_def)
  from assms(5) [OF this] \<open>conns s p = Some c\<close> have "td c \<noteq> None" by (auto simp: owned_def)
  then have "evolves s (put_conn p (c\<lparr> conn_write_msgs := conn_write_msgs c @ [n] \<rparr>) s)"
    by (intro evolves_put_conn [OF c]) (auto simp: conn_evolves_def assms(4))
  with Some assms(1) c \<open>p \<noteq> NULLP\<close> show ?thesis by (simp add: distribute_one_def upd_conn_def)
qed

lemma distribute_writes_runs:
  assumes "get_td i s = Inr t" and "tables_ok t s" and "procs_ok (s_msg_processers s)"
    and "well_typed s" and "map_ok (s_threads_datas s)" and "\<And>p. p \<in> set (served t) \<Longrightarrow> owned i p s"
  shows "runs s (distribute_writes i s)"
proof -
  let ?s = "put_td i (t\<lparr> td_write_msgs := [] \<rparr>) s"
  have e: "evolves s ?s"
    by (rule evolves_put_td [OF assms(5,1)]) (use well_typedD(1) [OF assms(4,1)] in \<open>simp_all add: td_core_def\<close>)
  have "runs ?s (fold_res (distribute_one i) (td_write_msgs t) ?s)"
  proof (rule runs_fold)
    fix n s' assume n: "n \<in> set (td_write_msgs t)" and e': "evolves ?s s'"
    note e2 = evolves_trans [OF e e']
    from evolves_get_td [OF e2 assms(1)] obtain t' where t': "get_td i s' = Inr t'" "td_core t' = td_core t" by blast
    have "node_ok (s_msg_processers s) n" using well_typedD(2) [OF assms(4,1)] n by (simp add: typed_in_def)
    moreover have "tables_ok t' s'"
      using tables_ok_core [OF t'(2), of s'] tables_ok_evolves [OF assms(2) e2] by simp
    moreover have "owned i p s'" if "p \<in> set (served t')" for p
      using that assms(6) [of p] evolves_conns [OF e2, of p] t'(2)
      by (fastforce simp: served_def td_core_simps owned_def conn_evolves_def)
    ultimately show "runs s' (distribute_one i n s')"
      using distribute_one_runs [OF t'(1)] evolves_procs [OF e2] assms(3) by metis
  qed
  with runs_trans [OF e this] assms(1) show ?thesis by (simp add: distribute_writes_def)
qed

lemma collect_one_runs:
  assumes "get_td i s = Inr t" and "get_conn p s = Inr c" and "map_ok (s_threads_datas s)"
  shows "runs s (collect_one i (k, p) s)"
proof -
  let ?t = "t\<lparr> td_read_msgs := td_read_msgs t @ conn_read_msgs c \<rparr>" and ?c = "c\<lparr> conn_read_msgs := [] \<rparr>"
  have p: "conns s p = Some c" using assms(2) by (simp add: get_conn_Inr)
  have "evolves s (put_td i ?t s)"
  proof (rule evolves_put_td [OF assms(3,1)])
    assume "well_typed s"
    from well_typedD(1,2) [OF this assms(1)] well_typedD(3) [OF this p]
    show "typed_in (s_msg_processers s) (td_read_msgs ?t @ td_write_msgs ?t)" by simp
  qed (simp add: td_core_def)
  moreover have "evolves (put_td i ?t s) (put_conn p ?c (put_td i ?t s))"
    by (rule evolves_put_conn [of _ _ c]) (use assms(2) in \<open>auto simp: conn_evolves_def get_conn_Inr\<close>)
  moreover have "put_conn p ?c (put_td i ?t s) = put_td i ?t (put_conn p ?c s)"
    by (simp add: put_conn_def put_td_def)
  ultimately have "evolves s (put_td i ?t (put_conn p ?c s))" by (simp add: evolves_trans)
  then show ?thesis using assms(1,2) by (simp add: collect_one_def)
qed

lemma collect_reads_runs:
  assumes "get_td i s = Inr t" and "tables_ok t s" and "map_ok (s_threads_datas s)"
  shows "runs s (collect_reads i s)"
proof -
  have "runs s (fold_res (collect_one i) (thread_connections t) s)"
  proof (rule runs_fold)
    fix kp s' assume kp: "kp \<in> set (thread_connections t)" and e: "evolves s s'"
    obtain k p where x: "kp = (k, p)" by fastforce
    from kp x have "p \<in> set (served t)" by (force simp: served_def)
    from served_live [OF assms(2) this] obtain c where "get_conn p s = Inr c" by blast
    from evolves_get_conn [OF e this] evolves_get_td [OF e assms(1)] obtain c' t' where
      "get_conn p s' = Inr c'" "get_td i s' = Inr t'" by blast
    from collect_one_runs [OF this(2,1)] evolves_map_ok [OF e] assms(3) x
    show "runs s' (collect_one i kp s')" by simp
  qed
  with assms(1) show ?thesis by (simp add: collect_reads_def)
qed

lemma net_send_runs:
  assumes "get_conn (msg_conn n) s = Inr c" and "td c = Some i" and "get_td i s = Inr t"
    and "map_ok (s_threads_datas s)" and "node_ok (s_msg_processers s) n"
  shows "runs s (net_send (Some n) s)"
proof -
  let ?t = "t\<lparr> td_write_msgs := td_write_msgs t @ [n] \<rparr>"
  have "evolves s (put_td i ?t s)"
  proof (rule evolves_put_td [OF assms(4,3)])
    assume "well_typed s"
    from well_typedD(1,2) [OF this assms(3)] assms(5)
    show "typed_in (s_msg_processers s) (td_read_msgs ?t @ td_write_msgs ?t)" by simp
  qed (simp add: td_core_def)
  with net_send_result [OF assms(1-3)] show ?thesis by simp
qed

lemma get_net_msgs_runs:
  fixes s :: "'b net_state"
  assumes "workers n s" and "s_cnt s \<noteq> 0x7FFFFFFF" and "map_ok (s_threads_datas s)"
  shows "runs s (bind_res (get_net_msgs out s) (\<lambda>(ms, s'). Inr s'))"
proof -
  let ?s = "s\<lparr> s_cnt := s_cnt s + 1 \<rparr>"
  have e: "evolves s ?s"
    by (simp add: evolves_def option.rel_refl well_typed_def core_def notified_def get_td_def fun_eq_iff)
  have w: "get_td (of_nat j) s = Inr t \<Longrightarrow> get_td (of_nat j) ?s = Inr t" for j t by (simp add: get_td_def)
  have step: "\<exists>o' v. get_msgs_of i (fst u, snd u) = Inr (o', v) \<and> evolves s v"
    if i: "i \<in> set (map of_nat [0..<length (s_threads_datas s)])" and u: "evolves s (snd u)"
    for i :: u64 and u :: "MsgNode list \<times> 'b net_state"
  proof -
    from i workers_length [OF assms(1)] assms(1) obtain t where "get_td i s = Inr t" by (auto simp: workers_def)
    from evolves_get_td [OF u this] obtain t' where t': "get_td i (snd u) = Inr t'" by blast
    have "evolves (snd u) (put_td i (t'\<lparr> td_read_msgs := [] \<rparr>) (snd u))"
    proof (rule evolves_put_td [OF _ t'])
      show "map_ok (s_threads_datas (snd u))" using evolves_map_ok [OF u] assms(3) by simp
    next
      assume "well_typed (snd u)"
      from well_typedD(2) [OF this t']
      show "typed_in (s_msg_processers (snd u))
        (td_read_msgs (t'\<lparr> td_read_msgs := [] \<rparr>) @ td_write_msgs (t'\<lparr> td_read_msgs := [] \<rparr>))" by simp
    qed (simp add: td_core_def)
    with evolves_trans [OF u this] t' show ?thesis by (simp add: get_msgs_of_def case_prod_beta)
  qed
  have "\<exists>r. fold_res get_msgs_of (map of_nat [0..<length (s_threads_datas s)]) (out, ?s) = Inr r \<and> evolves s (snd r)"
  proof (rule fold_res_total)
    show "evolves s (snd (out, ?s))" using e by simp
  next
    fix i :: u64 and u :: "MsgNode list \<times> 'b net_state"
    assume "i \<in> set (map of_nat [0..<length (s_threads_datas s)])" and "evolves s (snd u)"
    from step [OF this] show "\<exists>v. get_msgs_of i u = Inr v \<and> evolves s (snd v)" by fastforce
  qed
  then show ?thesis using assms(2) by (auto simp: get_net_msgs_def runs_def)
qed

end
