(* ===== verification/GF_SystemInv.thy ===== *)
theory GF_SystemInv
  imports GF_System
begin

text \<open>
  The invariant of the threads of \<open>go_net.cpp\<close> together: it holds after the start and every
  step keeps it.
\<close>

section \<open>The invariant\<close>

text \<open>The addresses of the connections \<open>net_connect\<close> made that no worker has taken over: those in
  \<open>s_connect_conns\<close> and in the queues of the workers.\<close>

definition pres :: "ConnInfo list \<Rightarrow> ptr list" where
  "pres cis = filter (\<lambda>p. p \<noteq> NULLP) (map pre_new cis)"

fun queued_pres :: "u64 \<times> ThreadData option \<Rightarrow> ptr list" where
  "queued_pres (i, None) = []"
| "queued_pres (i, Some t) = pres (new_connections t)"

definition waiting :: "'b net_state \<Rightarrow> ptr multiset" where
  "waiting s = mset (pres (s_connect_conns s)) + mset (concat (map queued_pres (core s)))"

definition waits :: "ptr \<Rightarrow> 'b net_state \<Rightarrow> bool" where
  "waits p s \<longleftrightarrow> (\<exists>c. conns s p = Some c \<and> td c = None) \<and> (\<forall>fd. map_find (s_conns_map s) fd \<noteq> Some p)"

definition info_ok :: "ConnInfo \<Rightarrow> bool" where
  "info_ok ci \<longleftrightarrow> ci_state ci \<noteq> CS_LISTEN \<and> int_fd (ci_sfd ci)"

text \<open>A worker: its tables are in order and hold only its own connections, those kept for deletion
  are out of the table of descriptors, and it has an event base.\<close>

definition worker_ok :: "u64 \<Rightarrow> ThreadData \<Rightarrow> 'b net_state \<Rightarrow> bool" where
  "worker_ok i t s \<longleftrightarrow> tables_ok t s \<and> td_event t \<noteq> NULLP \<and>
     (\<forall>p \<in> set (served t) \<union> snd ` set (for_delete_connections t). owned i p s) \<and>
     (\<forall>p \<in> snd ` set (for_delete_connections t). \<forall>fd. map_find (s_conns_map s) fd \<noteq> Some p) \<and>
     (\<forall>ci \<in> set (new_connections t). info_ok ci)"

text \<open>A connection: its address is no small integer, and once it belongs to a worker it is one
  of a table's, with buffers as long as it is open.\<close>

definition conn_ok :: "ptr \<Rightarrow> 'b connection \<Rightarrow> 'b net_state \<Rightarrow> bool" where
  "conn_ok p c s \<longleftrightarrow> 2 ^ 31 \<le> p \<and>
     (\<forall>i. td c = Some i \<longrightarrow> is_worker i s \<and> state c \<noteq> CS_LISTEN \<and>
        (state c \<noteq> CS_CLOSE \<longrightarrow> read_buffer c \<noteq> None \<and> write_buffer c \<noteq> None))"

definition net_ok :: "nat \<Rightarrow> 'b net_state \<Rightarrow> bool" where
  "net_ok n s \<longleftrightarrow> 0 < n \<and> workers n s \<and> net_thread_num (s_net_setting s) = of_nat n \<and>
     procs_ok (s_msg_processers s) \<and> knows_shutdown (s_msg_processers s) \<and> well_typed s \<and> conns_map_ok s \<and>
     (\<forall>i t. get_td i s = Inr t \<longrightarrow> worker_ok i t s) \<and>
     (\<forall>p c. conns s p = Some c \<longrightarrow> conn_ok p c s) \<and>
     (\<forall>ci \<in> set (s_connect_conns s). pre_new ci \<noteq> NULLP \<and> info_ok ci) \<and>
     (\<forall>p. count (waiting s) p \<le> 1) \<and> (\<forall>p. p \<in># waiting s \<longrightarrow> waits p s)"

definition listening :: "ptr \<Rightarrow> 'b net_state \<Rightarrow> bool" where
  "listening p s \<longleftrightarrow> p \<notin># waiting s \<and>
     (\<exists>c. conns s p = Some c \<and> td c = None \<and> (state c = CS_LISTEN \<or> state c = CS_CLOSE))"

definition system_ok :: "nat \<Rightarrow> 'b system \<Rightarrow> bool" where
  "system_ok n sy \<longleftrightarrow> net_ok n (network sy) \<and> listening (listener sy) (network sy) \<and>
     (\<forall>i t. get_td i (network sy) = Inr t \<longrightarrow>
        pipe sy i \<le> length (new_connections t) \<and> set (pending_io (at sy i)) \<subseteq> set (thread_connections t))"

lemma net_okD:
  assumes "net_ok n s"
  shows "0 < n" "workers n s" "net_thread_num (s_net_setting s) = of_nat n" "procs_ok (s_msg_processers s)"
    and "knows_shutdown (s_msg_processers s)" "well_typed s" "conns_map_ok s"
    and "get_td i s = Inr t \<Longrightarrow> worker_ok i t s" and "conns s p = Some c \<Longrightarrow> conn_ok p c s"
    and "ci \<in> set (s_connect_conns s) \<Longrightarrow> pre_new ci \<noteq> NULLP \<and> info_ok ci"
    and "count (waiting s) p \<le> 1" and "p \<in># waiting s \<Longrightarrow> waits p s"
    and "map_ok (s_threads_datas s)"
  using assms workers_map_ok [of n s] by (simp_all add: net_ok_def)

lemma core_workers:
  assumes "core s' = core s"
  shows "workers n s' = workers n s"
proof -
  have "map_keys (s_threads_datas s') = map_keys (s_threads_datas s)" using core_keys assms by metis
  moreover have "(\<exists>t. get_td i s' = Inr t) = (\<exists>t. get_td i s = Inr t)" for i
    using core_get_td [OF assms] core_get_td [OF assms [symmetric]] by blast
  ultimately show ?thesis by (simp add: workers_def)
qed

lemma evolves_owned: "evolves s s' \<Longrightarrow> owned i p s' = owned i p s"
  using evolves_conns [of s s' p] evolves_conns_back [of s s' p] by (fastforce simp: owned_def conn_evolves_def)

lemma evolves_waiting: "evolves s s' \<Longrightarrow> waiting s' = waiting s"
  by (simp add: evolves_def waiting_def)

lemma evolves_waits: "evolves s s' \<Longrightarrow> waits p s \<Longrightarrow> waits p s'"
  using evolves_conns [of s s' p] by (fastforce simp: waits_def conn_evolves_def evolves_def)

lemma evolves_is_worker: "evolves s s' \<Longrightarrow> is_worker i s' = is_worker i s"
  using evolves_get_td [of s s' i] core_get_td [of s' s i] unfolding is_worker_def evolves_def by blast

lemma evolves_conns_map_ok: "evolves s s' \<Longrightarrow> conns_map_ok s \<Longrightarrow> conns_map_ok s'"
  using evolves_conns by (fastforce simp: conns_map_ok_def conn_evolves_def evolves_def)

lemma evolves_worker_ok:
  assumes "evolves s s'" and "worker_ok i t s" and "td_core t' = td_core t"
  shows "worker_ok i t' s'"
  using assms(2) tables_ok_evolves [OF _ assms(1), of t] tables_ok_core [OF assms(3), of s'] assms(3)
    evolves_owned [OF assms(1)] assms(1)
  by (simp add: worker_ok_def td_core_simps served_def evolves_def)

lemma evolves_conn_ok:
  assumes "evolves s s'" and "conn_ok p c s" and "conn_evolves c c'"
  shows "conn_ok p c' s'"
  using assms evolves_is_worker [OF assms(1)] by (auto simp: conn_ok_def conn_evolves_def)

lemma net_ok_evolves:
  assumes "net_ok n s" and "evolves s s'"
  shows "net_ok n s'"
proof -
  note ok = net_okD [OF assms(1)]
  have e: "core s' = core s" "s_msg_processers s' = s_msg_processers s" "s_net_setting s' = s_net_setting s"
    "s_connect_conns s' = s_connect_conns s" "well_typed s'"
    using assms(2) ok(4,6) by (simp_all add: evolves_def)
  have "worker_ok i t' s'" if t': "get_td i s' = Inr t'" for i t'
  proof -
    from core_get_td [OF e(1) t'] obtain t where "get_td i s = Inr t" "td_core t' = td_core t" by blast
    with evolves_worker_ok [OF assms(2) ok(8)] show ?thesis by blast
  qed
  moreover have "conn_ok p c' s'" if c': "conns s' p = Some c'" for p c'
    using evolves_conns_back [OF assms(2) c'] evolves_conn_ok [OF assms(2) ok(9)] by blast
  ultimately show ?thesis
    using ok core_workers [OF e(1)] evolves_conns_map_ok [OF assms(2) ok(7)] evolves_waiting [OF assms(2)]
      evolves_waits [OF assms(2)] e
    by (simp add: net_ok_def)
qed

lemma listening_evolves:
  assumes "listening p s" and "evolves s s'"
  shows "listening p s'"
  using assms evolves_waiting [OF assms(2)] evolves_conns [OF assms(2), of p]
  by (fastforce simp: listening_def conn_evolves_def)

lemma system_okD:
  assumes "system_ok n sy"
  shows "net_ok n (network sy)" "listening (listener sy) (network sy)"
    and "get_td i (network sy) = Inr t \<Longrightarrow> pipe sy i \<le> length (new_connections t)"
    and "get_td i (network sy) = Inr t \<Longrightarrow> set (pending_io (at sy i)) \<subseteq> set (thread_connections t)"
  using assms by (auto simp: system_ok_def)

text \<open>A step that moves messages keeps the invariant of the whole.\<close>

lemma system_ok_evolves:
  assumes "system_ok n sy" and "runs (network sy) (f (network sy))"
  shows "\<exists>sy'. on_net f sy = Inr sy' \<and> system_ok n sy' \<and> evolves (network sy) (network sy') \<and>
    at sy' = at sy \<and> listener sy' = listener sy \<and> pipe sy' = pipe sy"
proof -
  from assms(2) obtain s' where s': "f (network sy) = Inr s'" "evolves (network sy) s'" by (auto simp: runs_def)
  have e: "core s' = core (network sy)" "notified s' = notified (network sy)" using s'(2) by (simp_all add: evolves_def)
  have "pipe sy i \<le> length (new_connections t') \<and> set (pending_io (at sy i)) \<subseteq> set (thread_connections t')"
    if t': "get_td i s' = Inr t'" for i t'
  proof -
    from core_get_td [OF e(1) t'] obtain t where "get_td i (network sy) = Inr t" "td_core t' = td_core t" by blast
    with system_okD(3,4) [OF assms(1)] show ?thesis by (simp add: td_core_simps)
  qed
  then show ?thesis
    using s' e system_okD(1,2) [OF assms(1)] net_ok_evolves [OF _ s'(2)] listening_evolves [OF _ s'(2)]
    by (simp add: on_net_def system_ok_def)
qed

section \<open>Connections on their way to a worker\<close>

lemma mset_concat_put:
  "map_ok m \<Longrightarrow> map_find m k = Some v \<Longrightarrow>
     mset (concat (map f (map_put k v' m))) + mset (f (k, v)) = mset (concat (map f m)) + mset (f (k, v'))"
proof (induction m)
  case (Cons x m)
  obtain k1 v1 where x: "x = (k1, v1)" by fastforce
  show ?case
  proof (cases "k = k1")
    case True
    with Cons.prems x show ?thesis by simp
  next
    case False
    then have f: "map_find m k = Some v" using Cons.prems(2) x by simp
    have "k1 < k" using Cons.prems(1) x map_find_Some_key [OF f] by simp
    then have "\<not> k < k1" by simp
    with Cons.IH [OF _ f] Cons.prems(1) False x show ?thesis by (simp add: add.assoc)
  qed
qed simp

lemma waiting_put_td:
  assumes "map_ok (s_threads_datas s)" and "get_td i s = Inr t"
  shows "waiting (put_td i t' s) + mset (pres (new_connections t)) = waiting s + mset (pres (new_connections t'))"
proof -
  have m: "map_ok (core s)" using assms(1) by (simp add: map_ok_def core_keys)
  have f: "map_find (core s) i = Some (Some (td_core t))" using assms(2) by (simp add: core_find get_td_Inr)
  have q: "new_connections (td_core u) = new_connections u" for u by (simp add: td_core_def)
  show ?thesis
    using mset_concat_put [OF m f, of queued_pres "Some (td_core t')"]
    by (simp add: waiting_def core_put_td [OF assms(1)] q add.assoc)
qed

lemma worker_index:
  assumes "workers n s" and "get_td i s = Inr t"
  obtains k where "k < n" and "i = of_nat k"
proof -
  from assms(2) have "i \<in> set (map_keys (s_threads_datas s))"
    using map_find_Some_key by (fastforce simp: get_td_Inr)
  with assms(1) that show thesis by (auto simp: workers_def)
qed

lemma net_ok_cong:
  assumes "s_threads_datas s' = s_threads_datas s" and "conns s' = conns s" and "s_conns_map s' = s_conns_map s"
    and "s_connect_conns s' = s_connect_conns s" and "s_msg_processers s' = s_msg_processers s"
    and "s_net_setting s' = s_net_setting s"
  shows "net_ok n s' = net_ok n s"
proof -
  have td: "get_td i s' = get_td i s" for i by (simp add: get_td_def assms(1))
  have "workers n s' = workers n s" by (rule workers_cong [OF assms(1)])
  moreover have "waiting s' = waiting s" by (simp add: waiting_def core_def assms)
  moreover have "conns_map_ok s' = conns_map_ok s" by (simp add: conns_map_ok_def assms)
  moreover have "well_typed s' = well_typed s" by (simp add: well_typed_def assms td)
  moreover have "worker_ok i t s' = worker_ok i t s" for i t
    by (simp add: worker_ok_def tables_ok_def owned_def assms)
  moreover have "conn_ok p c s' = conn_ok p c s" for p c by (simp add: conn_ok_def is_worker_def td)
  moreover have "waits p s' = waits p s" for p by (simp add: waits_def assms)
  ultimately show ?thesis by (simp add: net_ok_def td assms)
qed

text \<open>A change to the tables of one worker.\<close>

lemma waiting_put_both:
  assumes "map_ok (s_threads_datas s)" and "get_td i s = Inr t"
  shows "waiting ((put_td i t' s)\<lparr> s_connect_conns := cs \<rparr>) +
      (mset (pres (s_connect_conns s)) + mset (pres (new_connections t))) =
    waiting s + (mset (pres cs) + mset (pres (new_connections t')))"
proof -
  let ?s1 = "put_td i t' s" and ?s = "(put_td i t' s)\<lparr> s_connect_conns := cs \<rparr>"
  have "core ?s = core ?s1" by (simp add: core_def)
  then have "waiting ?s + mset (pres (s_connect_conns s)) = waiting ?s1 + mset (pres cs)"
    by (simp add: waiting_def add.assoc add.commute add.left_commute)
  with waiting_put_td [OF assms, of t'] show ?thesis
    by (metis (no_types, lifting) add.assoc add.commute)
qed

lemma net_ok_put_td:
  assumes "net_ok n s" and "get_td i s = Inr t" and "worker_ok i t' s"
    and "td_read_msgs t' = td_read_msgs t" and "td_write_msgs t' = td_write_msgs t"
    and "\<And>ci. ci \<in> set cs \<Longrightarrow> pre_new ci \<noteq> NULLP \<and> info_ok ci"
    and "waiting ((put_td i t' s)\<lparr> s_connect_conns := cs \<rparr>) \<subseteq># waiting s"
  shows "net_ok n ((put_td i t' s)\<lparr> s_connect_conns := cs \<rparr>)"
proof -
  note ok = net_okD [OF assms(1)]
  let ?s1 = "put_td i t' s" and ?s = "(put_td i t' s)\<lparr> s_connect_conns := cs \<rparr>"
  from worker_index [OF ok(2) assms(2)] obtain k where k: "k < n" "i = of_nat k" by blast
  have td: "get_td j ?s = (if j = i then Inr t' else get_td j s)" for j
    using get_td_put_td [of j i t' s] by (simp add: get_td_def)
  have same: "conns ?s = conns s" "s_conns_map ?s = s_conns_map s" "s_msg_processers ?s = s_msg_processers s"
    "s_net_setting ?s = s_net_setting s" "s_connect_conns ?s = cs" by (simp_all add: put_td_def)
  have wk: "worker_ok j u ?s = worker_ok j u s" for j u
    by (simp add: worker_ok_def tables_ok_def owned_def same)
  have iw: "is_worker j ?s = is_worker j s" for j
    using assms(2) by (auto simp: is_worker_def td)
  have "workers n ?s"
    using workers_put_td [OF ok(2) k(1), of t'] k(2) workers_cong [of ?s ?s1] by simp
  moreover have "well_typed ?s"
  proof -
    have "typed_in (s_msg_processers s) (td_read_msgs t' @ td_write_msgs t')"
      using well_typedD(1,2) [OF ok(6) assms(2)] assms(4,5) by simp
    from well_typed_put_td [OF ok(6) this] show ?thesis by (simp add: well_typed_def get_td_def)
  qed
  moreover have "conns_map_ok ?s" using ok(7) by (simp add: conns_map_ok_def same)
  moreover have "worker_ok j u ?s" if "get_td j ?s = Inr u" for j u
    using that ok(8) [of j u] assms(3) by (auto simp: td wk split: if_splits)
  moreover have "conn_ok p c ?s" if "conns ?s p = Some c" for p c
    using that ok(9) [of p c] by (simp add: same conn_ok_def iw)
  moreover have "waits p ?s" if "p \<in># waiting ?s" for p
    using mset_subset_eqD [OF assms(7) that] ok(12) [of p] by (simp add: waits_def same)
  moreover have "count (waiting ?s) p \<le> 1" for p
    using mset_subset_eq_count [OF assms(7), of p] ok(11) [of p] by simp
  ultimately show ?thesis
    unfolding net_ok_def same using ok(1,3-5) assms(6) by simp
qed

text \<open>What handing out connections leaves as it is, and that the pipes do not run ahead of the
  queues.\<close>

definition hands :: "'b net_state \<Rightarrow> 'b net_state \<Rightarrow> bool" where
  "hands s u \<longleftrightarrow> s_msg_processers u = s_msg_processers s \<and> s_cnt u = s_cnt s \<and> conns u = conns s \<and> waiting u = waiting s \<and>
     (\<forall>i t. get_td i s = Inr t \<longrightarrow> (\<exists>t'. get_td i u = Inr t' \<and> thread_connections t' = thread_connections t \<and>
        td_write_msgs t' = td_write_msgs t \<and> td_read_msgs t' = td_read_msgs t \<and> notified s i \<le> notified u i \<and>
        length (new_connections t) + notified u i \<le> length (new_connections t') + notified s i))"

lemma hands_refl [simp]: "hands s s"
  by (simp add: hands_def)

lemma hands_trans:
  assumes "hands a b" and "hands b c"
  shows "hands a c"
  unfolding hands_def
proof (intro conjI allI impI)
  show "s_msg_processers c = s_msg_processers a" "s_cnt c = s_cnt a" "conns c = conns a" "waiting c = waiting a" using assms by (simp_all add: hands_def)
next
  fix i t assume "get_td i a = Inr t"
  with assms(1) obtain t1 where 1: "get_td i b = Inr t1" "thread_connections t1 = thread_connections t"
    "td_write_msgs t1 = td_write_msgs t" "td_read_msgs t1 = td_read_msgs t"
    "notified a i \<le> notified b i"
    "length (new_connections t) + notified b i \<le> length (new_connections t1) + notified a i"
    unfolding hands_def by blast
  with assms(2) obtain t2 where 2: "get_td i c = Inr t2" "thread_connections t2 = thread_connections t1"
    "td_write_msgs t2 = td_write_msgs t1" "td_read_msgs t2 = td_read_msgs t1"
    "notified b i \<le> notified c i"
    "length (new_connections t1) + notified c i \<le> length (new_connections t2) + notified b i"
    unfolding hands_def by blast
  show "\<exists>t'. get_td i c = Inr t' \<and> thread_connections t' = thread_connections t \<and>
      td_write_msgs t' = td_write_msgs t \<and> td_read_msgs t' = td_read_msgs t \<and> notified a i \<le> notified c i \<and>
      length (new_connections t) + notified c i \<le> length (new_connections t') + notified a i"
    by (rule exI [of _ t2]) (use 1 2 in simp)
qed

lemma enqueue_conn_hands:
  assumes "net_ok n s" and "info_ok ci" and "\<And>x. x \<in> set cs \<Longrightarrow> pre_new x \<noteq> NULLP \<and> info_ok x"
    and "mset (pres [ci]) + mset (pres cs) = mset (pres (s_connect_conns s))"
  shows "\<exists>s'. enqueue_conn w ci s = Inr s' \<and> s_connect_conns s' = s_connect_conns s \<and>
    net_ok n (s'\<lparr> s_connect_conns := cs \<rparr>) \<and> hands s (s'\<lparr> s_connect_conns := cs \<rparr>)"
proof -
  note ok = net_okD [OF assms(1)]
  define k where "k = unat (s_last_thread_id s + 1) mod n"
  have k: "k < n" using ok(1) by (simp add: k_def)
  then obtain t where t: "get_td (of_nat k) s = Inr t" using ok(2) by (auto simp: workers_def)
  let ?t = "t\<lparr> new_connections := new_connections t @ [ci] \<rparr>"
  let ?s1 = "s\<lparr> s_last_thread_id := of_nat k \<rparr>"
  let ?s2 = "put_td (of_nat k) ?t ?s1"
  let ?s' = "if w = 1 then log_effect (Notify (of_nat k)) ?s2 else ?s2"
  have nt: "next_thread s = Inr (of_nat k, ?s1)" unfolding k_def by (rule next_thread_turn [OF ok(2,1,3)])
  have t1: "get_td j ?s1 = get_td j s" for j by (simp add: get_td_def)
  have e: "enqueue_conn w ci s = Inr ?s'" using t by (simp add: enqueue_conn_def nt t1)
  have ok1: "net_ok n ?s1" using assms(1) net_ok_cong [of ?s1 s n] by simp
  have wk: "worker_ok (of_nat k) ?t ?s1"
    using ok(8) [OF t] assms(2) by (simp add: worker_ok_def tables_ok_def owned_def served_def)
  have gt: "get_td (of_nat k) ?s1 = Inr t" by (simp add: t1 t)
  have ws: "waiting ?s1 = waiting s" by (simp add: waiting_def core_def)
  have m: "mset (pres cs) + mset (pres (new_connections ?t)) =
      mset (pres (s_connect_conns ?s1)) + mset (pres (new_connections t))"
    using assms(4) by (cases "pre_new ci = NULLP") (simp_all add: pres_def)
  have w2: "waiting (?s2\<lparr> s_connect_conns := cs \<rparr>) = waiting ?s1"
    using waiting_put_both [OF net_okD(13) [OF ok1] gt, where t' = ?t and cs = cs] unfolding m by simp
  have n2: "net_ok n (?s2\<lparr> s_connect_conns := cs \<rparr>)" "waiting (?s2\<lparr> s_connect_conns := cs \<rparr>) = waiting s"
    using net_ok_put_td [OF ok1 gt wk _ _ assms(3)] w2 ws by simp_all
  have same: "s_threads_datas (?s'\<lparr> s_connect_conns := cs \<rparr>) = s_threads_datas (?s2\<lparr> s_connect_conns := cs \<rparr>)"
    by simp
  have "net_ok n (?s'\<lparr> s_connect_conns := cs \<rparr>)"
    using n2(1) net_ok_cong [of "?s'\<lparr> s_connect_conns := cs \<rparr>" "?s2\<lparr> s_connect_conns := cs \<rparr>" n]
    by (simp add: log_effect_def)
  moreover have "waiting (?s'\<lparr> s_connect_conns := cs \<rparr>) = waiting s"
    using n2(2) by (simp add: waiting_def core_def)
  moreover have td': "get_td j (?s'\<lparr> s_connect_conns := cs \<rparr>) = (if j = of_nat k then Inr ?t else get_td j s)" for j
    using get_td_put_td [of j "of_nat k" ?t ?s1] t1 by (simp add: get_td_def)
  moreover have "notified (?s'\<lparr> s_connect_conns := cs \<rparr>) j =
      notified s j + (if w = 1 \<and> j = of_nat k then 1 else 0)" for j
    by (simp add: notified_def log_effect_def put_td_def)
  ultimately show ?thesis
    using t by (intro exI [of _ ?s'] conjI) (simp_all add: e hands_def put_td_def)
qed

lemma accept_loop_hands:
  assumes "net_ok n s" and "\<And>a. a \<in> set as \<Longrightarrow> int_fd (ac_sfd a)"
  shows "\<exists>s'. accept_loop as s = Inr s' \<and> net_ok n s' \<and> hands s s'"
  using assms
proof (induction as arbitrary: s)
  case (Cons a as)
  have ih: "\<exists>s'. accept_loop as s1 = Inr s' \<and> net_ok n s' \<and> hands s s'" if "net_ok n s1" "hands s s1" for s1
    using Cons.IH [OF that(1)] Cons.prems(2) hands_trans [OF that(2)] by fastforce
  show ?case
  proof (cases "ac_sfd a < 0")
    case True
    with Cons.prems show ?thesis by simp
  next
    case pos: False
    show ?thesis
    proof (cases "ac_fcntl a < 0")
      case True
      let ?s = "log_effect (Close (ac_sfd a)) s"
      have "net_ok n ?s" using Cons.prems(1) net_ok_cong [of ?s s n] by (simp add: log_effect_def)
      moreover have "hands s ?s" by (simp add: hands_def waiting_def)
      ultimately show ?thesis using ih True pos by simp
    next
      case False
      let ?ci = "\<lparr> ci_sfd = ac_sfd a, ci_event_flag = EV_READ OR EV_WRITE OR EV_PERSIST,
        ci_state = CS_WAITING, ci_peer_info = ac_peer a, pre_new = NULLP \<rparr>"
      have "info_ok ?ci" using Cons.prems(2) [of a] by (simp add: info_ok_def)
      moreover have "mset (pres [?ci]) + mset (pres (s_connect_conns s)) = mset (pres (s_connect_conns s))"
        by (simp add: pres_def)
      ultimately obtain s1 where s1: "enqueue_conn (ac_written a) ?ci s = Inr s1"
        "s_connect_conns s1 = s_connect_conns s" "net_ok n (s1\<lparr> s_connect_conns := s_connect_conns s \<rparr>)"
        "hands s (s1\<lparr> s_connect_conns := s_connect_conns s \<rparr>)"
        using enqueue_conn_hands [OF Cons.prems(1), of ?ci "s_connect_conns s" "ac_written a"]
          net_okD(10) [OF Cons.prems(1)] by blast
      have id: "s1\<lparr> s_connect_conns := s_connect_conns s \<rparr> = s1" using s1(2) by (cases s1) simp
      let ?s1 = "s1\<lparr> curr_conns := curr_conns s1 + 1 \<rparr>"
      have "net_ok n ?s1" using s1(3) net_ok_cong [of ?s1 s1 n] id by simp
      moreover have "hands s ?s1"
        using s1(4) id by (simp add: hands_def waiting_def core_def notified_def get_td_def)
      ultimately have "\<exists>s'. accept_loop as ?s1 = Inr s' \<and> net_ok n s' \<and> hands s s'" by (rule ih)
      with pos False s1(1) show ?thesis by (simp add: give_worker_new_conn_def Let_def)
    qed
  qed
qed auto

lemma hand_out_hands:
  assumes "net_ok n s" and "s_connect_conns s = cis"
  shows "\<exists>s'. hand_out_connectors w cis s = Inr s' \<and> net_ok n s' \<and> hands s s'"
  using assms
proof (induction cis arbitrary: s)
  case Nil
  then have "s\<lparr> s_connect_conns := [] \<rparr> = s" by (cases s) simp
  then have "hand_out_connectors w [] s = Inr s" by (simp only: hand_out_connectors.simps)
  then show ?case by (intro exI [of _ s] conjI hands_refl Nil.prems(1))
next
  case (Cons ci cis)
  have ci: "pre_new ci \<noteq> NULLP" "info_ok ci" "\<And>x. x \<in> set cis \<Longrightarrow> pre_new x \<noteq> NULLP \<and> info_ok x"
    using net_okD(10) [OF Cons.prems(1)] Cons.prems(2) by simp_all
  have "mset (pres [ci]) + mset (pres cis) = mset (pres (s_connect_conns s))"
    by (simp add: Cons.prems(2) pres_def)
  from enqueue_conn_hands [OF Cons.prems(1) ci(2,3) this, of "w ci"] obtain s1 where
    s1: "enqueue_conn (w ci) ci s = Inr s1" "net_ok n (s1\<lparr> s_connect_conns := cis \<rparr>)"
      "hands s (s1\<lparr> s_connect_conns := cis \<rparr>)" by blast
  from Cons.IH [OF s1(2)] obtain s' where
    "hand_out_connectors w cis (s1\<lparr> s_connect_conns := cis \<rparr>) = Inr s'" "net_ok n s'"
    "hands (s1\<lparr> s_connect_conns := cis \<rparr>) s'" by auto
  with s1(1) ci(1) hands_trans [OF s1(3)] show ?case by (simp add: push_worker_new_conn_def)
qed

text \<open>Handing out keeps the invariant of the whole.\<close>

lemma system_ok_hands:
  assumes "system_ok n sy" and "f (network sy) = Inr s'" and "net_ok n v" and "hands (network sy) v" and "evolves v s'"
  shows "\<exists>sy'. on_net f sy = Inr sy' \<and> system_ok n sy' \<and> network sy' = s' \<and> at sy' = at sy \<and> listener sy' = listener sy"
proof -
  let ?s = "network sy" and ?pipe = "\<lambda>i. pipe sy i + (notified s' i - notified (network sy) i)"
  have e: "core s' = core v" "notified s' = notified v" using assms(5) by (simp_all add: evolves_def)
  have "?pipe i \<le> length (new_connections t') \<and> set (pending_io (at sy i)) \<subseteq> set (thread_connections t')"
    if t': "get_td i s' = Inr t'" for i t'
  proof -
    from core_get_td [OF e(1) t'] obtain t2 where t2: "get_td i v = Inr t2" "td_core t' = td_core t2" by blast
    from worker_index [OF net_okD(2) [OF assms(3)] t2(1)] obtain k where k: "k < n" "i = of_nat k" by blast
    then obtain t where t: "get_td i ?s = Inr t"
      using net_okD(2) [OF system_okD(1) [OF assms(1)]] by (auto simp: workers_def)
    with assms(4) obtain t1 where "get_td i v = Inr t1" "thread_connections t1 = thread_connections t"
      "notified ?s i \<le> notified v i"
      "length (new_connections t) + notified v i \<le> length (new_connections t1) + notified ?s i"
      unfolding hands_def by blast
    then have "thread_connections t' = thread_connections t" "notified ?s i \<le> notified s' i"
      "length (new_connections t) + notified s' i \<le> length (new_connections t') + notified ?s i"
      using t2 e(2) by (simp_all add: td_core_simps)
    with system_okD(3,4) [OF assms(1) t] show ?thesis by simp
  qed
  moreover have "listening (listener sy) v"
    using system_okD(2) [OF assms(1)] assms(4) by (simp add: listening_def hands_def)
  ultimately show ?thesis
    using assms(2) net_ok_evolves [OF assms(3,5)] listening_evolves [OF _ assms(5)]
    by (simp add: on_net_def system_ok_def)
qed

section \<open>Connections made and deleted\<close>

lemma not_owned_served:
  assumes "worker_ok i t s" and "\<And>j. \<not> owned j p s"
  shows "p \<notin> set (served t) \<union> snd ` set (for_delete_connections t)"
  using assms by (auto simp: worker_ok_def)

lemma tables_ok_elsewhere:
  assumes "tables_ok t s" and "\<And>q. q \<in> set (served t) \<union> snd ` set (for_delete_connections t) \<Longrightarrow> conns u q = conns s q"
  shows "tables_ok t u"
  unfolding tables_ok_def
proof (intro conjI allI impI)
  fix k q assume m: "map_find (thread_connections t) k = Some q"
  then have "q \<in> set (served t)" using map_find_in by (force simp: served_def)
  with assms(2) [of q] tables_okD(3) [OF assms(1) m]
  show "k = q" "q \<noteq> NULLP" "\<exists>c. conns u q = Some c \<and> \<not> buffers_freed c" by auto
next
  fix k q assume m: "map_find (for_delete_connections t) k = Some q"
  then have "q \<in> snd ` set (for_delete_connections t)" using map_find_in by force
  with assms(2) [of q] tables_okD(4) [OF assms(1) m]
  show "q \<noteq> NULLP" "map_find (thread_connections t) q = None"
    "\<exists>c. conns u q = Some c \<and> state c = CS_CLOSE \<and> k = of_int (close_time c)" by auto
qed (use tables_okD(1,2) [OF assms(1)] in auto)

text \<open>A change to a connection no worker has.\<close>

lemma net_ok_elsewhere:
  assumes "net_ok n s" and "s_threads_datas u = s_threads_datas s"
    and "s_msg_processers u = s_msg_processers s" and "s_net_setting u = s_net_setting s"
    and "conns u = (conns s)(p := x)" and "\<And>j. \<not> owned j p s"
    and "map_ok (s_conns_map u)"
    and "\<And>fd q. map_find (s_conns_map u) fd = Some q \<Longrightarrow> q \<noteq> p \<Longrightarrow> map_find (s_conns_map s) fd = Some q"
    and "\<And>fd. map_find (s_conns_map u) fd = Some p \<Longrightarrow> p \<noteq> NULLP \<and> (\<exists>c. x = Some c \<and> sfd c = fd)"
    and "\<And>c. x = Some c \<Longrightarrow> conn_ok p c s \<and> typed_in (s_msg_processers s) (conn_read_msgs c @ conn_write_msgs c)"
    and "\<And>ci. ci \<in> set (s_connect_conns u) \<Longrightarrow> pre_new ci \<noteq> NULLP \<and> info_ok ci"
    and "\<And>q. count (waiting u) q \<le> 1" and "\<And>q. q \<in># waiting u \<Longrightarrow> waits q u"
  shows "net_ok n u"
proof -
  note ok = net_okD [OF assms(1)]
  have td: "get_td i u = get_td i s" for i by (simp add: get_td_def assms(2))
  have iw: "is_worker i u = is_worker i s" for i by (simp add: is_worker_def td)
  have q: "conns u q = conns s q" if "q \<noteq> p" for q using that by (simp add: assms(5))
  have "workers n u" using ok(2) workers_cong [OF assms(2)] by simp
  moreover have "well_typed u"
    using ok(6) assms(10) by (auto simp: well_typed_def td assms(3,5))
  moreover have "conns_map_ok u"
  proof (rule conns_map_okI [OF assms(7)])
    fix fd r assume m: "map_find (s_conns_map u) fd = Some r"
    show "r \<noteq> NULLP \<and> (\<exists>c. conns u r = Some c \<and> sfd c = fd)"
    proof (cases "r = p")
      case True
      with assms(5,9) m show ?thesis by auto
    next
      case False
      with conns_map_okD(2) [OF ok(7) assms(8) [OF m]] q show ?thesis by simp
    qed
  qed
  moreover have "worker_ok i t u" if t: "get_td i u = Inr t" for i t
  proof -
    have w: "worker_ok i t s" using ok(8) t by (simp add: td)
    have same: "conns u r = conns s r" if "r \<in> set (served t) \<union> snd ` set (for_delete_connections t)" for r
      using that q [of r] not_owned_served [OF w assms(6)] by (cases "r = p") auto
    have "tables_ok t u" by (rule tables_ok_elsewhere [OF _ same]) (use w in \<open>simp_all add: worker_ok_def\<close>)
    moreover have "owned i r u" if "r \<in> set (served t) \<union> snd ` set (for_delete_connections t)" for r
      using w same [OF that] that by (auto simp: worker_ok_def owned_def)
    moreover have "map_find (s_conns_map u) fd \<noteq> Some r" if "r \<in> snd ` set (for_delete_connections t)" for r fd
      using w that not_owned_served [OF w assms(6)] assms(8) [of fd r] by (auto simp: worker_ok_def)
    ultimately show ?thesis using w by (simp add: worker_ok_def)
  qed
  moreover have "conn_ok r c u" if "conns u r = Some c" for r c
    using that ok(9) [of r c] assms(10) by (auto simp: conn_ok_def iw assms(5) split: if_splits)
  ultimately show ?thesis
    unfolding net_ok_def assms(3,4) using ok(1,3-5) assms(11-13) by simp
qed

lemma waits_not_owned: "waits p s \<Longrightarrow> \<not> owned j p s"
  by (auto simp: waits_def owned_def)

lemma fresh_not_waiting: "net_ok n s \<Longrightarrow> conns s p = None \<Longrightarrow> p \<notin># waiting s"
  using net_okD(12) by (fastforce simp: waits_def)

lemma fresh_not_mapped: "net_ok n s \<Longrightarrow> conns s p = None \<Longrightarrow> map_find (s_conns_map s) fd \<noteq> Some p"
  using conns_map_okD(2) [OF net_okD(7)] by fastforce

text \<open>A connection that no worker and no queue has is deleted.\<close>

lemma net_ok_drop:
  assumes "net_ok n s" and "s_threads_datas u = s_threads_datas s"
    and "s_msg_processers u = s_msg_processers s" and "s_net_setting u = s_net_setting s"
    and "s_conns_map u = s_conns_map s" and "s_connect_conns u = s_connect_conns s"
    and "conns u = (conns s)(p := None)" and "\<And>j. \<not> owned j p s" and "p \<notin># waiting s"
    and "\<And>fd. map_find (s_conns_map s) fd \<noteq> Some p"
  shows "net_ok n u" and "waiting u = waiting s"
proof -
  note ok = net_okD [OF assms(1)]
  show w: "waiting u = waiting s" by (simp add: waiting_def core_def assms(2,6))
  have "waits q u" if "q \<in># waiting u" for q
    using that ok(12) [of q] assms(9) by (auto simp: w waits_def assms(5,7))
  then show "net_ok n u"
    by (intro net_ok_elsewhere [OF assms(1-4,7,8)])
       (use ok(7,10,11) assms(5,6,10) in \<open>auto simp: w conns_map_ok_def\<close>)
qed

lemma net_connect_ok:
  assumes "net_ok n s" and "fresh new s" and "int_fd (so_socket env)"
    and s'_def: "s' = snd (net_connect env peer new s)"
  shows "net_ok n s'" and "notified s' = notified s" and "s_threads_datas s' = s_threads_datas s"
    and "listening p s \<Longrightarrow> listening p s'"
proof -
  note ok = net_okD [OF assms(1)]
  have n0: "new \<noteq> NULLP" "conns s new = None" using assms(2) by (auto simp: fresh_def)
  let ?ci = "\<lparr> ci_sfd = so_socket env, ci_event_flag = EV_READ OR EV_WRITE OR EV_PERSIST,
    ci_state = CS_CONNECT, ci_peer_info = peer, pre_new = new \<rparr>"
  let ?u = "(put_conn new new_Connection s)\<lparr> s_connect_conns := s_connect_conns s @ [?ci] \<rparr>"
  have "s' = s \<or> s' = log_effect (Close (so_socket env)) s \<or> s' = ?u"
    unfolding s'_def net_connect_def Let_def by simp
  then consider "s' = s" | "s' = log_effect (Close (so_socket env)) s" | "s' = ?u" by blast
  then have "net_ok n s' \<and> notified s' = notified s \<and> s_threads_datas s' = s_threads_datas s \<and>
    (listening p s \<longrightarrow> listening p s')"
  proof cases
    case 2
    then show ?thesis
      using assms(1) net_ok_cong [of s' s n]
      by (simp add: fun_eq_iff listening_def waiting_def)
  next
    case 3
    have w: "waiting ?u = add_mset new (waiting s)"
      using n0(1) by (simp add: waiting_def core_def pres_def put_conn_def)
    have nw: "new \<notin># waiting s" by (rule fresh_not_waiting [OF assms(1) n0(2)])
    have nm: "map_find (s_conns_map s) fd \<noteq> Some new" for fd by (rule fresh_not_mapped [OF assms(1) n0(2)])
    have fields: "s_threads_datas ?u = s_threads_datas s" "s_msg_processers ?u = s_msg_processers s"
      "s_net_setting ?u = s_net_setting s" "conns ?u = (conns s)(new := Some new_Connection)"
      "s_conns_map ?u = s_conns_map s" "s_connect_conns ?u = s_connect_conns s @ [?ci]"
      by (simp_all add: put_conn_def)
    have "net_ok n ?u"
    proof (rule net_ok_elsewhere [OF assms(1) fields(1-4)])
      show "\<not> owned j new s" for j using n0(2) by (simp add: owned_def)
      show "map_ok (s_conns_map ?u)" using conns_map_okD(1) [OF ok(7)] by (simp add: put_conn_def)
      show "conn_ok new c s \<and> typed_in (s_msg_processers s) (conn_read_msgs c @ conn_write_msgs c)"
        if "Some new_Connection = Some c" for c
        using that assms(2) by (auto simp: conn_ok_def new_Connection_def fresh_def)
      show "count (waiting ?u) q \<le> 1" for q
        unfolding w using ok(11) [of q] nw by (auto simp: not_in_iff)
      show "waits q ?u" if "q \<in># waiting ?u" for q
        using that [unfolded w] ok(12) [of q] nm by (auto simp: waits_def put_conn_def new_Connection_def)
      show "pre_new ci \<noteq> NULLP \<and> info_ok ci" if "ci \<in> set (s_connect_conns ?u)" for ci
        using that ok(10) [of ci] n0(1) assms(3) by (auto simp: info_ok_def)
    qed (use nm in \<open>simp_all add: put_conn_def\<close>)
    moreover have "listening p ?u" if "listening p s"
      using that n0(2) w by (auto simp: listening_def put_conn_def)
    moreover have "notified ?u = notified s" by (simp add: notified_def put_conn_def fun_eq_iff)
    ultimately show ?thesis using 3 by (simp add: put_conn_def)
  qed (simp add: assms(1))
  then show "net_ok n s'" and "notified s' = notified s" and "s_threads_datas s' = s_threads_datas s"
    and "listening p s \<Longrightarrow> listening p s'" by auto
qed

lemma net_ok_put_td_only:
  assumes "net_ok n s" and "get_td i s = Inr t" and "worker_ok i t' s"
    and "td_read_msgs t' = td_read_msgs t" and "td_write_msgs t' = td_write_msgs t"
    and "waiting (put_td i t' s) \<subseteq># waiting s"
  shows "net_ok n (put_td i t' s)"
proof -
  let ?s = "(put_td i t' s)\<lparr> s_connect_conns := s_connect_conns s \<rparr>"
  have "waiting ?s = waiting (put_td i t' s)" by (simp add: waiting_def core_def put_td_def)
  with net_ok_put_td [OF assms(1-5) net_okD(10) [OF assms(1)]] assms(6) have "net_ok n ?s" by simp
  then show ?thesis using net_ok_cong [of ?s "put_td i t' s" n] by (simp add: put_td_def)
qed

lemma listening_cong:
  "listening p s \<Longrightarrow> conns u p = conns s p \<Longrightarrow> waiting u \<subseteq># waiting s \<Longrightarrow> listening p u"
  by (auto simp: listening_def dest: mset_subset_eqD)

text \<open>The object a worker is about to take over: its address is new, or one that waited.\<close>

definition adoptable :: "ptr \<Rightarrow> ptr \<Rightarrow> 'b net_state \<Rightarrow> bool" where
  "adoptable p pre s \<longleftrightarrow> p \<noteq> NULLP \<and> p \<notin># waiting s \<and> (\<forall>fd. map_find (s_conns_map s) fd \<noteq> Some p) \<and>
     (if pre = NULLP then fresh p s else p = pre \<and> (\<exists>c. conns s p = Some c \<and> td c = None))"

lemma adoptable_not_owned: "adoptable p pre s \<Longrightarrow> \<not> owned j p s"
  by (auto simp: adoptable_def fresh_def owned_def split: if_splits)

lemma adoptable_not_listening:
  "adoptable p pre s \<Longrightarrow> listening l s \<Longrightarrow> l = p \<Longrightarrow> pre \<noteq> NULLP"
  by (auto simp: adoptable_def fresh_def listening_def)

text \<open>A worker takes the first of its new connections out of the queue.\<close>

lemma pop_ok:
  assumes "net_ok n s" and "get_td i s = Inr t" and "new_connections t = ci # rest" and "fresh new s"
  defines "s1 \<equiv> put_td i (t\<lparr> new_connections := rest \<rparr>) s"
  shows "net_ok n s1" and "waiting s1 \<subseteq># waiting s"
    and "adoptable (if pre_new ci = NULLP then new else pre_new ci) (pre_new ci) s1"
    and "pre_new ci \<noteq> NULLP \<Longrightarrow> pre_new ci \<in># waiting s"
proof -
  note ok = net_okD [OF assms(1)]
  have w: "waiting s1 + mset (pres [ci]) = waiting s"
  proof -
    have "waiting s1 + mset (pres [ci]) + mset (pres rest) = waiting s + mset (pres rest)"
      using waiting_put_td [OF ok(13) assms(2), of "t\<lparr> new_connections := rest \<rparr>"] assms(3)
      by (cases "pre_new ci = NULLP") (simp_all add: s1_def pres_def)
    then show ?thesis by simp
  qed
  then show sub: "waiting s1 \<subseteq># waiting s" by (metis mset_subset_eq_add_left)
  have wk: "worker_ok i (t\<lparr> new_connections := rest \<rparr>) s"
    using ok(8) [OF assms(2)] assms(3) by (simp add: worker_ok_def tables_ok_def served_def)
  show "net_ok n s1"
    unfolding s1_def by (rule net_ok_put_td_only [OF assms(1,2) wk]) (use sub in \<open>simp_all add: s1_def\<close>)
  have same: "conns s1 = conns s" "s_conns_map s1 = s_conns_map s" by (simp_all add: s1_def)
  have fr: "new \<noteq> NULLP" "conns s new = None" using assms(4) by (auto simp: fresh_def)
  show pre: "pre_new ci \<in># waiting s" if "pre_new ci \<noteq> NULLP"
    unfolding w [symmetric] using that by (simp add: pres_def)
  show "adoptable (if pre_new ci = NULLP then new else pre_new ci) (pre_new ci) s1"
  proof (cases "pre_new ci = NULLP")
    case True
    then show ?thesis
      using fr assms(4) fresh_not_waiting [OF assms(1) fr(2)] fresh_not_mapped [OF assms(1) fr(2)] sub
      by (auto simp: adoptable_def fresh_def same dest: mset_subset_eqD)
  next
    case False
    have "count (waiting s1) (pre_new ci) = 0"
      using ok(11) [of "pre_new ci"] arg_cong [OF w, of "\<lambda>m. count m (pre_new ci)"] False
      by (simp add: pres_def)
    with False ok(12) [OF pre [OF False]] show ?thesis
      by (simp add: adoptable_def waits_def same not_in_iff)
  qed
qed

lemma reject_connection_result:
  assumes "pre_new ci = NULLP \<or> conns s (pre_new ci) \<noteq> None"
  shows "\<exists>u. reject_connection ci s = Inr u \<and> s_threads_datas u = s_threads_datas s \<and>
    s_msg_processers u = s_msg_processers s \<and> s_net_setting u = s_net_setting s \<and>
    s_conns_map u = s_conns_map s \<and> s_connect_conns u = s_connect_conns s \<and> notified u = notified s \<and>
    conns u = (if pre_new ci = NULLP then conns s else (conns s)(pre_new ci := None))"
  using assms by (auto simp: reject_connection_def Let_def get_conn_def fun_eq_iff)

lemma backed_out_notified: "backed_out p pre fds s u \<Longrightarrow> notified u = notified s"
  by (simp add: backed_out_def notified_def filter_map o_def fun_eq_iff)

text \<open>The two ways the byte in the pipe is answered. Refused: the object, if it waited, is deleted.\<close>

lemma refuse_ok:
  assumes "net_ok n s1" and "adoptable p (pre_new ci) s1" and "p = (if pre_new ci = NULLP then new else pre_new ci)"
    and "s2 = s1 \<or> backed_out p (pre_new ci) fds s1 s2"
  shows "\<exists>u. reject_connection ci s2 = Inr u \<and> net_ok n u \<and> notified u = notified s1 \<and>
    s_threads_datas u = s_threads_datas s1 \<and> waiting u = waiting s1 \<and> conns u = (conns s1)(p := None) \<and>
    s_msg_processers u = s_msg_processers s1"
proof -
  have live: "pre_new ci = NULLP \<or> conns s2 (pre_new ci) \<noteq> None"
    using assms(2-4) by (cases "pre_new ci = NULLP") (auto simp: adoptable_def backed_out_def)
  have f: "s_threads_datas s2 = s_threads_datas s1" "s_msg_processers s2 = s_msg_processers s1"
    "s_net_setting s2 = s_net_setting s1" "s_conns_map s2 = s_conns_map s1" "s_connect_conns s2 = s_connect_conns s1"
    using assms(4) by (auto simp: backed_out_def)
  have nt: "notified s2 = notified s1" using assms(4) backed_out_notified by auto
  from reject_connection_result [OF live] obtain u where
    u: "reject_connection ci s2 = Inr u" "s_threads_datas u = s_threads_datas s1"
      "s_msg_processers u = s_msg_processers s1" "s_net_setting u = s_net_setting s1"
      "s_conns_map u = s_conns_map s1" "s_connect_conns u = s_connect_conns s1" "notified u = notified s1"
      "conns u = (if pre_new ci = NULLP then conns s2 else (conns s2)(pre_new ci := None))"
    using f nt by auto
  have c: "conns u = (conns s1)(p := None)"
  proof (rule ext)
    fix q show "conns u q = ((conns s1)(p := None)) q"
      using assms(2-4) u(8)
      by (cases "pre_new ci = NULLP") (auto simp: adoptable_def fresh_def backed_out_def)
  qed
  have p: "p \<notin># waiting s1" "map_find (s_conns_map s1) fd \<noteq> Some p" for fd
    using assms(2) by (auto simp: adoptable_def)
  note drop = net_ok_drop [OF assms(1) u(2-6) c adoptable_not_owned [OF assms(2)] p]
  show ?thesis using drop u(1-3,7) c by blast
qed

text \<open>Taken over: it enters the tables of the worker.\<close>

lemma take_over_ok:
  assumes "net_ok n s1" and "adoptable p pre s1" and "get_td i s1 = Inr t"
    and "if pre = NULLP then c = new_Connection else conns s1 pre = Some c" and "2 ^ 31 \<le> p"
    and "map_find (s_conns_map s1) fd = None" and "conn_state \<noteq> CS_LISTEN"
    and c4_def: "c4 = (created ops env fd conn_state ebase c)\<lparr> td := Some i, info := peer \<rparr>"
    and t4_def: "t4 = t\<lparr> thread_connections := map_put p p (thread_connections t) \<rparr>"
    and "s_threads_datas u = map_put i (Some t4) (s_threads_datas s1)"
    and "s_msg_processers u = s_msg_processers s1" and "s_net_setting u = s_net_setting s1"
    and "s_conns_map u = map_put fd p (s_conns_map s1)" and "s_connect_conns u = s_connect_conns s1"
    and "conns u = (conns s1)(p := Some c4)"
  shows "net_ok n u" and "waiting u = waiting s1"
proof -
  note ok = net_okD [OF assms(1)]
  let ?v = "s1\<lparr> conns := (conns s1)(p := Some c4), s_conns_map := map_put fd p (s_conns_map s1) \<rparr>"
  have p: "p \<noteq> NULLP" "p \<notin># waiting s1" "map_find (s_conns_map s1) x \<noteq> Some p" for x
    using assms(2) by (simp_all add: adoptable_def)
  have wv: "waiting ?v = waiting s1" by (simp add: waiting_def core_def)
  have tdv: "get_td j ?v = get_td j s1" for j by (simp add: get_td_def)
  have v: "net_ok n ?v"
  proof (rule net_ok_elsewhere [OF assms(1) _ _ _ _ adoptable_not_owned [OF assms(2)]])
    show "conn_ok p c' s1 \<and> typed_in (s_msg_processers s1) (conn_read_msgs c' @ conn_write_msgs c')"
      if "Some c4 = Some c'" for c'
    proof -
      have "is_worker i s1" using assms(3) by (simp add: is_worker_def)
      then have "conn_ok p c4 s1" using assms(5,7) by (simp add: conn_ok_def c4_def created_def)
      moreover have "typed_in (s_msg_processers s1) (conn_read_msgs c @ conn_write_msgs c)"
        using assms(4) well_typedD(3,4) [OF ok(6), of pre c]
        by (cases "pre = NULLP") (simp_all add: new_Connection_def)
      ultimately show ?thesis using that by (auto simp: c4_def created_def)
    qed
    show "waits q ?v" if "q \<in># waiting ?v" for q
      using that [unfolded wv] ok(12) [of q] p by (auto simp: waits_def split: if_splits)
    show "count (waiting ?v) q \<le> 1" for q unfolding wv by (rule ok(11))
    show "map_ok (s_conns_map ?v)" using conns_map_okD(1) [OF ok(7)] by simp
    show "p \<noteq> NULLP \<and> (\<exists>c. Some c4 = Some c \<and> sfd c = x)" if "map_find (s_conns_map ?v) x = Some p" for x
      using that p by (simp add: c4_def created_def split: if_splits)
    show "map_find (s_conns_map s1) x = Some q" if "map_find (s_conns_map ?v) x = Some q" "q \<noteq> p" for x q
      using that by (simp split: if_splits)
  qed (use ok(10) in simp_all)
  have iv: "get_td i ?v = Inr t" by (simp add: tdv assms(3))
  have wk: "worker_ok i t ?v" by (rule net_okD(8) [OF v iv])
  have np: "p \<notin> set (served t) \<union> snd ` set (for_delete_connections t)"
    by (rule not_owned_served [OF ok(8) [OF assms(3)] adoptable_not_owned [OF assms(2)]])
  have tb: "tables_ok t ?v" using wk by (simp add: worker_ok_def)
  have t4: "tables_ok t4 ?v"
    unfolding tables_ok_def
  proof (intro conjI allI impI)
    fix k q assume m: "map_find (thread_connections t4) k = Some q"
    have "k = q \<and> q \<noteq> NULLP \<and> (\<exists>c. conns ?v q = Some c \<and> \<not> buffers_freed c)"
    proof (cases "k = p")
      case True
      with m have "q = p" by (simp add: t4_def)
      with True p(1) show ?thesis by (simp add: c4_def created_def)
    next
      case False
      with m have "map_find (thread_connections t) k = Some q" by (simp add: t4_def)
      from tables_okD(3) [OF tb this] show ?thesis by simp
    qed
    then show "k = q" "q \<noteq> NULLP" "\<exists>c. conns ?v q = Some c \<and> \<not> buffers_freed c" by blast+
  next
    fix k q assume "map_find (for_delete_connections t4) k = Some q"
    then have m: "map_find (for_delete_connections t) k = Some q" by (simp add: t4_def)
    then have "q \<noteq> p" using np map_find_in by force
    with tables_okD(4) [OF tb m]
    show "q \<noteq> NULLP" "map_find (thread_connections t4) q = None"
      "\<exists>c. conns ?v q = Some c \<and> state c = CS_CLOSE \<and> k = of_int (close_time c)" by (auto simp: t4_def)
  qed (use tables_okD(1,2) [OF tb] in \<open>simp_all add: t4_def\<close>)
  have sv: "set (served t4) \<subseteq> insert p (set (served t))"
  proof -
    have "set (map_put k v m) \<subseteq> insert (k, v) (set m)" for k v and m :: "(u64, ptr) std_map"
      by (induction k v m rule: map_put.induct) auto
    then show ?thesis by (fastforce simp: served_def t4_def)
  qed
  have "owned i p ?v" by (simp add: owned_def c4_def)
  with wk t4 sv have wk4: "worker_ok i t4 ?v" by (auto simp: worker_ok_def t4_def)
  have w4: "waiting (put_td i t4 ?v) = waiting ?v"
    using waiting_put_td [OF net_okD(13) [OF v] iv, of t4] by (simp add: t4_def)
  have "net_ok n (put_td i t4 ?v)"
    by (rule net_ok_put_td_only [OF v iv wk4]) (simp add: t4_def, simp add: t4_def, simp add: w4)
  moreover have "net_ok n u = net_ok n (put_td i t4 ?v)"
    by (rule net_ok_cong) (simp_all add: assms put_td_def)
  ultimately show "net_ok n u" by simp
  have "waiting u = waiting (put_td i t4 ?v)" by (simp add: waiting_def core_def assms(10,14))
  with w4 wv show "waiting u = waiting s1" by simp
qed

text \<open>The callback of the pipe.\<close>

text \<open>Both events of a connection belong to an event loop.\<close>

definition based :: "'b connection \<Rightarrow> bool" where
  "based c \<longleftrightarrow> ev_base (read_event c) \<noteq> NULLP \<and> ev_base (write_event c) \<noteq> NULLP"

definition adopted :: "'b evbuffer_ops \<Rightarrow> u64 \<Rightarrow> ptr \<Rightarrow> 'b net_state \<Rightarrow> 'b net_state \<Rightarrow> bool" where
  "adopted ops i p s u \<longleftrightarrow> conns u p = None \<or>
     (\<exists>c t'. conns u p = Some c \<and> td c = Some i \<and> get_td i u = Inr t' \<and> p \<in> set (served t') \<and>
        write_buffer c = Some (evb_new ops) \<and> read_buffer c = Some (evb_new ops) \<and> based c \<and>
        (conn_write_msgs c = [] \<and> conn_read_msgs c = [] \<or>
         (\<exists>c0. conns s p = Some c0 \<and> conn_write_msgs c = conn_write_msgs c0 \<and> conn_read_msgs c = conn_read_msgs c0)))"

definition pipe_done ::
    "nat \<Rightarrow> 'b evbuffer_ops \<Rightarrow> u64 \<Rightarrow> ThreadData \<Rightarrow> ConnInfo list \<Rightarrow> 'b net_state \<Rightarrow> 'b net_state \<Rightarrow> bool" where
  "pipe_done n ops i t rest s u \<longleftrightarrow> net_ok n u \<and> notified u = notified s \<and> s_msg_processers u = s_msg_processers s \<and>
     (\<forall>l. listening l s \<longrightarrow> listening l u) \<and> (\<forall>j. j \<noteq> i \<longrightarrow> get_td j u = get_td j s) \<and>
     (\<exists>t'. get_td i u = Inr t' \<and> new_connections t' = rest \<and> td_write_msgs t' = td_write_msgs t \<and>
        td_read_msgs t' = td_read_msgs t \<and>
        set (thread_connections t) \<subseteq> set (thread_connections t')) \<and>
     (\<exists>p. (\<forall>j. \<not> owned j p s) \<and> (\<forall>q. q \<noteq> p \<longrightarrow> conns u q = conns s q) \<and> adopted ops i p s u)"

lemma thread_libevent_process_ok:
  assumes "net_ok n s" and "get_td i s = Inr t" and "new_connections t = ci # rest" and "fresh (ce_new env) s"
  shows "\<exists>u. thread_libevent_process ops env (Some 0x63) i s = Inr u \<and> pipe_done n ops i t rest s u"
proof -
  note ok = net_okD [OF assms(1)]
  let ?t1 = "t\<lparr> new_connections := rest \<rparr>" and ?pre = "pre_new ci"
  define s1 where "s1 = put_td i ?t1 s"
  define p where "p = (if ?pre = NULLP then ce_new env else ?pre)"
  note pop = pop_ok [OF assms(1-4), folded s1_def p_def]
  have td1: "get_td i s1 = Inr ?t1" "j \<noteq> i \<Longrightarrow> get_td j s1 = get_td j s" for j by (simp_all add: s1_def)
  have n1: "notified s1 = notified s" "conns s1 = conns s" "s_msg_processers s1 = s_msg_processers s"
    by (simp_all add: s1_def)
  have info: "info_ok ci" using ok(8) [OF assms(2)] assms(3) by (simp add: worker_ok_def)
  have base: "td_event t \<noteq> NULLP" using ok(8) [OF assms(2)] by (simp add: worker_ok_def)
  have addr: "addr_ok (ce_new env) ?pre s1"
    using pop(3) by (auto simp: addr_ok_def adoptable_def fresh_def p_def split: if_splits)
  have lst: "l \<noteq> p" if "listening l s" for l
    using that assms(4) pop(4) by (auto simp: listening_def p_def fresh_def)
  have nown: "\<not> owned j p s" for j
    using adoptable_not_owned [OF pop(3), of j] by (simp add: owned_def n1(2))
  have pr: "thread_libevent_process ops env (Some 0x63) i s =
    bind_res (create_conn ops env (ci_sfd ci) (ci_state ci) (td_event t) ?pre s1)
      (\<lambda>(conn, s2).
        if conn = NULLP then reject_connection ci s2
        else if map_find (thread_connections t) (of_int (ci_sfd ci)) \<noteq> None then reject_connection ci s2
        else bind_res (get_td i s2) (\<lambda>t2.
          let s3 = put_td i (t2\<lparr> thread_connections := map_put conn conn (thread_connections t2) \<rparr>) s2
          in bind_res (upd_conn conn (\<lambda>c. c\<lparr> td := Some i, info := ci_peer_info ci \<rparr>) s3) (\<lambda>s4.
            Inr (if ?pre \<noteq> NULLP \<and> s_cntor_callback s4 then log_effect (Callback ?pre True) s4 else s4))))"
    using assms(2,3) td1 by (simp add: thread_libevent_process_def pop_connection_def s1_def cong: if_cong)
  have reject: "\<exists>u. reject_connection ci s2 = Inr u \<and> pipe_done n ops i t rest s u"
    if s2: "s2 = s1 \<or> backed_out p ?pre fds s1 s2" for s2 fds
  proof -
    from refuse_ok [OF pop(1,3) p_def s2] obtain u where
      u: "reject_connection ci s2 = Inr u" "net_ok n u" "notified u = notified s1"
        "s_threads_datas u = s_threads_datas s1" "waiting u = waiting s1" "conns u = (conns s1)(p := None)"
        "s_msg_processers u = s_msg_processers s1" by blast
    have td: "get_td j u = get_td j s1" for j by (simp add: get_td_def u(4))
    have "listening l u" if "listening l s" for l
      by (rule listening_cong [OF that]) (use u(5,6) lst [OF that] n1(2) pop(2) in auto)
    moreover have "\<exists>t'. get_td i u = Inr t' \<and> new_connections t' = rest \<and> td_write_msgs t' = td_write_msgs t \<and>
        td_read_msgs t' = td_read_msgs t \<and>
        set (thread_connections t) \<subseteq> set (thread_connections t')" by (simp add: td td1(1))
    moreover have "\<exists>p. (\<forall>j. \<not> owned j p s) \<and> (\<forall>q. q \<noteq> p \<longrightarrow> conns u q = conns s q) \<and> adopted ops i p s u"
      using nown by (intro exI [of _ p]) (simp add: u(6) n1(2) adopted_def)
    ultimately show ?thesis using u td td1(2) n1(1,3) by (simp add: pipe_done_def)
  qed
  show ?thesis
    using addr
  proof (cases rule: create_conn_result [where ops = ops and fd = "ci_sfd ci" and ebase = "td_event t"
        and conn_state = "ci_state ci", case_names refused undone made])
    case refused
    with reject [of s1] show ?thesis by (simp add: pr)
  next
    case (undone s2 p')
    have "p' = p" using undone(1) by (simp add: p_def)
    with reject [OF disjI2, OF undone(3) [unfolded this]] undone(2) show ?thesis by (simp add: pr)
  next
    case (made p' c)
    have p': "p' = p" using made(1) by (simp add: p_def)
    have big: "2 ^ 31 \<le> p"
    proof (cases "?pre = NULLP")
      case True
      then show ?thesis using assms(4) by (simp add: p_def fresh_def)
    next
      case False
      with made(3) net_okD(9) [OF pop(1), of ?pre c] show ?thesis by (simp add: p_def conn_ok_def)
    qed
    let ?fd = "ci_sfd ci"
    let ?t4 = "?t1\<lparr> thread_connections := map_put p p (thread_connections ?t1) \<rparr>"
    let ?c3 = "created ops env ?fd (ci_state ci) (td_event t) c"
    let ?c4 = "?c3\<lparr> td := Some i, info := ci_peer_info ci \<rparr>"
    define s2 where "s2 = put_conn p ?c3 s1\<lparr> s_conns_map := map_put ?fd p (s_conns_map s1), curr_conns := curr_conns s1 + 1 \<rparr>"
    define u where "u = (let s4 = put_conn p ?c4 (put_td i ?t4 s2)
      in if ?pre \<noteq> NULLP \<and> s_cntor_callback s4 then log_effect (Callback ?pre True) s4 else s4)"
    have cr: "create_conn ops env ?fd (ci_state ci) (td_event t) ?pre s1 = Inr (p, s2)"
      using made(6) by (simp add: p' s2_def)
    have td2: "get_td j s2 = get_td j s1" for j by (simp add: get_td_def s2_def put_conn_def)
    have no: "map_find (thread_connections t) (of_int ?fd) = None"
    proof (rule ccontr)
      assume "map_find (thread_connections t) (of_int ?fd) \<noteq> None"
      then obtain q where m: "map_find (thread_connections t) (of_int ?fd) = Some q" by blast
      have tb: "tables_ok t s" using ok(8) [OF assms(2)] by (simp add: worker_ok_def)
      from tables_okD(3) [OF tb m] ok(9) have "2 ^ 31 \<le> (of_int ?fd :: u64)" by (auto simp: conn_ok_def)
      moreover have "uint (of_int ?fd :: u64) = ?fd"
        using made(4) info by (simp add: info_ok_def int_fd_def uint_word_of_int)
      ultimately show False using info by (simp add: info_ok_def int_fd_def word_le_def)
    qed
    have run: "thread_libevent_process ops env (Some 0x63) i s = Inr u"
    proof -
      have "conns s2 p = Some ?c3" by (simp add: s2_def)
      with made(2) no td1(1) p' show ?thesis
        by (simp add: pr cr td2 upd_conn_def u_def Let_def get_conn_def)
    qed
    have f: "s_threads_datas u = map_put i (Some ?t4) (s_threads_datas s1)"
      "s_msg_processers u = s_msg_processers s1" "s_net_setting u = s_net_setting s1"
      "s_conns_map u = map_put ?fd p (s_conns_map s1)" "s_connect_conns u = s_connect_conns s1"
      "conns u = (conns s1)(p := Some ?c4)"
      by (simp_all add: u_def s2_def put_conn_def put_td_def log_effect_def Let_def)
    have nl: "ci_state ci \<noteq> CS_LISTEN" using info by (simp add: info_ok_def)
    note take = take_over_ok [OF pop(1,3) td1(1) made(3) big made(5) nl refl refl f]
    have "notified u = notified s"
      using n1 by (auto simp: u_def s2_def Let_def fun_eq_iff notified_def put_conn_def put_td_def log_effect_def)
    moreover have "listening l u" if "listening l s" for l
      by (rule listening_cong [OF that]) (use take(2) f(6) lst [OF that] n1(2) pop(2) in auto)
    moreover have tdu: "get_td j u = (if j = i then Inr ?t4 else get_td j s)" for j
      using td1(2) by (simp add: get_td_def f(1))
    moreover have "set (thread_connections t) \<subseteq> set (thread_connections ?t4)"
    proof
      fix kq assume kq: "kq \<in> set (thread_connections t)"
      obtain k q where x: "kq = (k, q)" by fastforce
      have wk: "worker_ok i ?t1 s1" by (rule net_okD(8) [OF pop(1) td1(1)])
      then have m: "map_ok (thread_connections t)" by (simp add: worker_ok_def tables_ok_def)
      from kq x have mf: "map_find (thread_connections t) k = Some q" using map_find_iff [OF m] by blast
      have "q \<in> set (served ?t1)" using kq x by (force simp: served_def)
      then have "q \<noteq> p" using not_owned_served [OF wk adoptable_not_owned [OF pop(3)]] by blast
      moreover have "k = q" using tables_okD(3) [of ?t1 s1 k q] wk mf by (simp add: worker_ok_def)
      ultimately have "map_find (thread_connections ?t4) k = Some q" using mf by simp
      then show "kq \<in> set (thread_connections ?t4)" using x map_find_in by fastforce
    qed
    moreover have "adopted ops i p s u"
    proof -
      have m: "map_find (thread_connections ?t4) p = Some p" by simp
      have "(p, p) \<in> set (thread_connections ?t4)" by (rule map_find_in [OF m])
      then have "p \<in> set (served ?t4)" by (force simp: served_def)
      moreover have "conn_write_msgs ?c4 = [] \<and> conn_read_msgs ?c4 = [] \<or> (\<exists>c0. conns s p = Some c0 \<and>
          conn_write_msgs ?c4 = conn_write_msgs c0 \<and> conn_read_msgs ?c4 = conn_read_msgs c0)"
        using made(3) n1(2) by (cases "?pre = NULLP") (simp_all add: created_def new_Connection_def p_def)
      ultimately show ?thesis using base nl by (simp add: adopted_def f(6) tdu created_def based_def)
    qed
    then have "\<exists>p. (\<forall>j. \<not> owned j p s) \<and> (\<forall>q. q \<noteq> p \<longrightarrow> conns u q = conns s q) \<and> adopted ops i p s u"
      using nown by (intro exI [of _ p]) (simp add: f(6) n1(2))
    ultimately have "pipe_done n ops i t rest s u" using take(1) f(2) n1(3) by (auto simp: pipe_done_def)
    with run show ?thesis by blast
  qed
qed

section \<open>Closed connections\<close>

definition closes :: "'b connection \<Rightarrow> 'b connection \<Rightarrow> bool" where
  "closes c c' \<longleftrightarrow> td c' = td c \<and> sfd c' = sfd c \<and> state c' = state c \<and> close_time c' = close_time c \<and>
     conn_read_msgs c' = conn_read_msgs c \<and> conn_write_msgs c' = conn_write_msgs c \<and>
     read_buffer c' = read_buffer c \<and> write_buffer c' = write_buffer c \<and>
     ev_base (read_event c') = ev_base (read_event c) \<and> ev_base (write_event c') = ev_base (write_event c)"

definition disposes :: "'b net_state \<Rightarrow> 'b net_state \<Rightarrow> bool" where
  "disposes s u \<longleftrightarrow>
     s_msg_processers u = s_msg_processers s \<and> s_cnt u = s_cnt s \<and> s_connect_conns u = s_connect_conns s \<and>
     s_net_setting u = s_net_setting s \<and> notified u = notified s \<and> waiting u = waiting s \<and>
     map_keys (s_threads_datas u) = map_keys (s_threads_datas s) \<and>
     (map_ok (s_conns_map s) \<longrightarrow> map_ok (s_conns_map u) \<and>
        (\<forall>fd q. map_find (s_conns_map u) fd = Some q \<longrightarrow> map_find (s_conns_map s) fd = Some q)) \<and>
     (\<forall>q. rel_option closes (conns s q) (conns u q)) \<and>
     (\<forall>j t. get_td j s = Inr t \<longrightarrow> (\<exists>t'. get_td j u = Inr t' \<and> new_connections t' = new_connections t \<and>
        td_event t' = td_event t)) \<and>
     (procs_ok (s_msg_processers s) \<longrightarrow> well_typed s \<longrightarrow> well_typed u)"

lemma closes_refl [simp]: "closes c c"
  by (simp add: closes_def)

lemma disposes_refl [simp]: "disposes s s"
  by (simp add: disposes_def option.rel_refl)

lemma disposes_trans:
  assumes "disposes a b" and "disposes b c"
  shows "disposes a c"
proof -
  have cl: "rel_option closes (conns a q) (conns c q)" for q
  proof -
    have "rel_option closes (conns a q) (conns b q)" "rel_option closes (conns b q) (conns c q)"
      using assms by (simp_all add: disposes_def)
    then show ?thesis by (auto simp: closes_def option_rel_Some1 elim!: option.rel_cases)
  qed
  have td: "\<exists>t'. get_td j c = Inr t' \<and> new_connections t' = new_connections t \<and> td_event t' = td_event t"
    if "get_td j a = Inr t" for j t
  proof -
    from assms(1) that obtain t1 where "get_td j b = Inr t1" "new_connections t1 = new_connections t"
      "td_event t1 = td_event t" unfolding disposes_def by blast
    moreover from assms(2) this(1) obtain t2 where "get_td j c = Inr t2" "new_connections t2 = new_connections t1"
      "td_event t2 = td_event t1" unfolding disposes_def by blast
    ultimately show ?thesis by auto
  qed
  show ?thesis using assms cl td by (simp add: disposes_def)
qed

lemma put_td_keys:
  assumes "map_ok (s_threads_datas s)" and "get_td i s = Inr t"
  shows "map_keys (s_threads_datas (put_td i t' s)) = map_keys (s_threads_datas s)"
  using assms by (simp add: map_keys_put_present map_find_Some_key get_td_Inr)

lemma disposes_put_td:
  assumes "map_ok (s_threads_datas s)" and "get_td i s = Inr t"
    and "new_connections t' = new_connections t" and "td_event t' = td_event t"
    and "procs_ok (s_msg_processers s) \<Longrightarrow> well_typed s \<Longrightarrow>
      typed_in (s_msg_processers s) (td_read_msgs t' @ td_write_msgs t')"
  shows "disposes s (put_td i t' s)"
proof -
  have "waiting (put_td i t' s) = waiting s"
    using waiting_put_td [OF assms(1,2), of t'] assms(3) by simp
  moreover have "well_typed (put_td i t' s)" if "procs_ok (s_msg_processers s)" "well_typed s"
    using assms(5) [OF that] by (intro well_typed_put_td [OF that(2)])
  ultimately show ?thesis
    using put_td_keys [OF assms(1,2), of t'] assms(2-4) by (simp add: disposes_def option.rel_refl)
qed

lemma conn_internal_close_disposes:
  assumes "conn_internal_close p s = Inr u"
  shows "disposes s u \<and> s_threads_datas u = s_threads_datas s"
proof -
  from assms obtain c where g: "get_conn p s = Inr c" by (auto simp: conn_internal_close_def)
  define c' where "c' = c\<lparr> buffers_freed := read_buffer c \<noteq> None \<or> write_buffer c \<noteq> None,
    read_event := (read_event c)\<lparr> ev_pending := False \<rparr>, write_event := (write_event c)\<lparr> ev_pending := False \<rparr> \<rparr>"
  have c: "conns s p = Some c" "closes c c'" "p \<noteq> NULLP" using g by (simp_all add: c'_def closes_def get_conn_Inr)
  define s1 where "s1 = (if map_find (s_conns_map s) (sfd c) \<noteq> None
    then s\<lparr> s_conns_map := map_erase (sfd c) (s_conns_map s) \<rparr> else s)"
  have g1: "get_conn p s1 = Inr c" by (simp add: s1_def g)
  have run: "clear_connection p s1 = Inr s2 \<Longrightarrow> s2 = put_conn p
      (c\<lparr> buffers_freed := read_buffer c \<noteq> None \<or> write_buffer c \<noteq> None \<rparr>) s1" for s2
    using c(3) by (simp add: clear_connection_def g1 split: if_split_asm)
  have "u = (let s4 = (if sfd_dup_for_write c \<noteq> -1 then log_effect (Close (sfd_dup_for_write c)) (put_conn p c' s1)
        else put_conn p c' s1);
      s5 = (if sfd_dup_for_write c \<noteq> -1 then log_effect (Close (sfd c)) s4 else s4)
    in s5\<lparr> curr_conns := curr_conns s5 - 1 \<rparr>)"
    using assms c(3) unfolding conn_internal_close_def g bind_res.simps Let_def s1_def [symmetric]
    by (auto dest!: run simp: upd_conn_def c'_def)
  then have u: "conns u = (conns s)(p := Some c')"
    "s_conns_map u = (if map_find (s_conns_map s) (sfd c) \<noteq> None then map_erase (sfd c) (s_conns_map s) else s_conns_map s)"
    "s_threads_datas u = s_threads_datas s" "s_msg_processers u = s_msg_processers s"
    "s_connect_conns u = s_connect_conns s" "s_net_setting u = s_net_setting s" "notified u = notified s"
    "s_cnt u = s_cnt s"
    by (simp_all add: s1_def Let_def notified_def put_conn_def log_effect_def fun_eq_iff)
  have td: "get_td j u = get_td j s" for j by (simp add: get_td_def u(3))
  have typed: "well_typed u" if w: "well_typed s"
  proof -
    have "typed_in (s_msg_processers s) (conn_read_msgs c' @ conn_write_msgs c')"
      using well_typedD(3,4) [OF w c(1)] c(2) by (simp add: closes_def)
    from well_typed_put_conn [OF w this] show ?thesis by (simp add: well_typed_def td u(1,4))
  qed
  have mp: "map_ok (s_conns_map u) \<and>
      (\<forall>fd q. map_find (s_conns_map u) fd = Some q \<longrightarrow> map_find (s_conns_map s) fd = Some q)"
    if "map_ok (s_conns_map s)" using that by (auto simp: u(2) map_find_erase split: if_splits)
  have "rel_option closes (conns s q) (conns u q)" for q
    using c(1,2) by (cases "q = p") (simp_all add: u(1) option.rel_refl)
  moreover have "waiting u = waiting s" by (simp add: waiting_def core_def u(3,5))
  moreover have "\<forall>j t. get_td j s = Inr t \<longrightarrow> (\<exists>t'. get_td j u = Inr t' \<and> new_connections t' = new_connections t \<and>
      td_event t' = td_event t)" by (simp add: td)
  ultimately have "disposes s u" using typed mp unfolding disposes_def u(3-8) by blast
  with u(3) show ?thesis by blast
qed

lemma reap_one_disposes:
  fixes s :: "'b net_state"
  assumes "reap_one raw i (k, p) (ids, s) = Inr (ids', u)" and "map_ok (s_threads_datas s)"
  shows "disposes s u \<and> map_ok (s_threads_datas u)"
proof (cases "conn_get_state p s = Inr CS_CLOSE")
  case False
  with assms show ?thesis by (auto simp: reap_one_def split: if_splits)
next
  case True
  from assms(1) True obtain n where n1: "get_msgnode raw (s_msg_processers s) (get_type C_Shutdown_Req) = Inr (Some n)"
    by (auto simp: reap_one_def simp del: get_type.simps split: option.split_asm)
  with assms(1) True obtain req where n2: "msg_data n = Some (MD_Shutdown_Req req)"
    by (auto simp: reap_one_def simp del: get_type.simps split: option.split_asm MsgData.split_asm)
  note n = n1 n2
  from assms(1) True obtain t s1 t1 and c :: "'b connection" where t: "get_td i s = Inr t"
    and s1: "conn_internal_close p (put_td i (t\<lparr> td_read_msgs := td_read_msgs t @
        [n\<lparr> msg_data := Some (MD_Shutdown_Req (Shutdown_Req_set_code 0 req)), msg_type := 0, msg_conn := p \<rparr>] \<rparr>) s) = Inr s1"
    and t1: "get_td i s1 = Inr t1" and u: "ids' = ids @ [k]"
      "u = put_td i (t1\<lparr> for_delete_connections := map_put (of_int (close_time c)) p (for_delete_connections t1) \<rparr>) s1"
    by (auto simp: reap_one_def n Let_def simp del: get_type.simps)
  define t0 where "t0 = t\<lparr> td_read_msgs := td_read_msgs t @
      [n\<lparr> msg_data := Some (MD_Shutdown_Req (Shutdown_Req_set_code 0 req)), msg_type := 0, msg_conn := p \<rparr>] \<rparr>"
  have d0: "disposes s (put_td i t0 s)"
  proof (rule disposes_put_td [OF assms(2) t])
    assume p: "procs_ok (s_msg_processers s)" and w: "well_typed s"
    from get_msgnode_ok [OF p, of raw "get_type C_Shutdown_Req"] n(1) have
      "node_ok (s_msg_processers s) n" "msg_type n = get_type C_Shutdown_Req" by auto
    then have "node_ok (s_msg_processers s)
      (n\<lparr> msg_data := Some (MD_Shutdown_Req (Shutdown_Req_set_code 0 req)), msg_type := 0, msg_conn := p \<rparr>)"
      using n(2) by (auto simp: node_ok_def)
    with well_typedD(1,2) [OF w t]
    show "typed_in (s_msg_processers s) (td_read_msgs t0 @ td_write_msgs t0)" by (simp add: t0_def)
  qed (simp_all add: t0_def)
  note d1 = conn_internal_close_disposes [OF s1 [folded t0_def]]
  have k0: "map_ok (s_threads_datas (put_td i t0 s))" using assms(2) by simp
  then have k1: "map_ok (s_threads_datas s1)" using d1 by simp
  have d2: "disposes s1 u"
    unfolding u(2)
  proof (rule disposes_put_td [OF k1 t1])
    assume "well_typed s1"
    from well_typedD(1,2) [OF this t1] show "typed_in (s_msg_processers s1)
      (td_read_msgs (t1\<lparr> for_delete_connections := map_put (of_int (close_time c)) p (for_delete_connections t1) \<rparr>) @
       td_write_msgs (t1\<lparr> for_delete_connections := map_put (of_int (close_time c)) p (for_delete_connections t1) \<rparr>))"
      by simp
  qed simp_all
  have "disposes s u" using disposes_trans [OF d0 disposes_trans [OF conjunct1 [OF d1] d2]] .
  moreover have "map_ok (s_threads_datas u)" using k1 by (simp add: u(2))
  ultimately show ?thesis ..
qed

lemma disposesD:
  assumes "disposes s u" and "net_ok n s"
  shows "workers n u" and "map_ok (s_conns_map u)"
    and "map_find (s_conns_map u) fd = Some q \<Longrightarrow> map_find (s_conns_map s) fd = Some q"
    and "conns s q = Some c \<Longrightarrow> \<exists>c'. conns u q = Some c' \<and> closes c c'"
    and "conns u q = Some c' \<Longrightarrow> \<exists>c. conns s q = Some c \<and> closes c c'"
    and "get_td j u = Inr t' \<Longrightarrow> \<exists>t. get_td j s = Inr t \<and> new_connections t' = new_connections t \<and> td_event t' = td_event t"
    and "is_worker j u = is_worker j s" and "owned j q u = owned j q s"
proof -
  note ok = net_okD [OF assms(2)]
  have td: "\<exists>t'. get_td j u = Inr t' \<and> new_connections t' = new_connections t \<and> td_event t' = td_event t"
    if "get_td j s = Inr t" for j t using assms(1) that by (auto simp: disposes_def)
  show w: "workers n u" using ok(2) td assms(1) by (fastforce simp: workers_def disposes_def)
  have "map_ok (s_conns_map s)" by (rule conns_map_okD(1) [OF ok(7)])
  with assms(1) show "map_ok (s_conns_map u)"
    and "map_find (s_conns_map u) fd = Some q \<Longrightarrow> map_find (s_conns_map s) fd = Some q"
    by (auto simp: disposes_def)
  have cl: "rel_option closes (conns s q) (conns u q)" for q using assms(1) by (simp add: disposes_def)
  show fw: "\<exists>c'. conns u q = Some c' \<and> closes c c'" if "conns s q = Some c" for q c
    using cl [of q] that by (simp add: option_rel_Some1)
  show bw: "\<exists>c. conns s q = Some c \<and> closes c c'" if "conns u q = Some c'" for q c'
    using cl [of q] that by (simp add: option_rel_Some2)
  show bk: "\<exists>t. get_td j s = Inr t \<and> new_connections t' = new_connections t \<and> td_event t' = td_event t"
    if t': "get_td j u = Inr t'" for j t'
  proof -
    from worker_index [OF w t'] obtain k where "k < n" "j = of_nat k" .
    with ok(2) obtain t where "get_td j s = Inr t" by (auto simp: workers_def)
    with td [OF this] t' show ?thesis by auto
  qed
  show "is_worker j u = is_worker j s" using td bk by (fastforce simp: is_worker_def)
  show "owned j q u = owned j q s" using fw bw by (fastforce simp: owned_def closes_def)
qed

lemma net_ok_disposes:
  assumes "net_ok n s" and "disposes s u"
    and "\<And>i t. get_td i u = Inr t \<Longrightarrow> tables_ok t u \<and>
      (\<forall>p \<in> set (served t) \<union> snd ` set (for_delete_connections t). owned i p s) \<and>
      (\<forall>p \<in> snd ` set (for_delete_connections t). \<forall>fd. map_find (s_conns_map u) fd \<noteq> Some p)"
  shows "net_ok n u"
proof -
  note ok = net_okD [OF assms(1)] and d = disposesD [OF assms(2,1)]
  have "conns_map_ok u"
  proof (rule conns_map_okI [OF d(2)])
    fix fd q assume "map_find (s_conns_map u) fd = Some q"
    from conns_map_okD(2) [OF ok(7) d(3) [OF this]] d(4)
    show "q \<noteq> NULLP \<and> (\<exists>c. conns u q = Some c \<and> sfd c = fd)" by (fastforce simp: closes_def)
  qed
  moreover have "worker_ok i t u" if t: "get_td i u = Inr t" for i t
  proof -
    from d(6) [OF t] obtain t0 where "get_td i s = Inr t0" "new_connections t = new_connections t0"
      "td_event t = td_event t0" by blast
    with ok(8) [of i t0] assms(3) [OF t] show ?thesis by (simp add: worker_ok_def d(8))
  qed
  moreover have "conn_ok p c' u" if c': "conns u p = Some c'" for p c'
  proof -
    from d(5) [OF c'] obtain c where c: "conns s p = Some c" "closes c c'" by blast
    from ok(9) [OF c(1)] c(2) show ?thesis by (simp add: conn_ok_def closes_def d(7))
  qed
  moreover have "waits p u" if "p \<in># waiting s" for p
    using ok(12) [OF that] d(3,4) by (fastforce simp: waits_def closes_def)
  moreover have "s_msg_processers u = s_msg_processers s" "s_connect_conns u = s_connect_conns s"
    "s_net_setting u = s_net_setting s" "waiting u = waiting s" "well_typed u"
    using assms(2) ok(4,6) by (simp_all add: disposes_def)
  ultimately show ?thesis using ok d(1) by (simp add: net_ok_def)
qed

lemma listening_disposes: "listening p s \<Longrightarrow> disposes s u \<Longrightarrow> listening p u"
proof -
  assume l: "listening p s" and d: "disposes s u"
  from l obtain c where c: "conns s p = Some c" "td c = None" "state c = CS_LISTEN \<or> state c = CS_CLOSE"
    by (auto simp: listening_def)
  have "rel_option closes (conns s p) (conns u p)" using d by (simp add: disposes_def)
  with c l d show ?thesis by (auto simp: listening_def closes_def option_rel_Some1 disposes_def)
qed

text \<open>What the phases that remove connections leave to the other threads.\<close>

definition phase_done :: "nat \<Rightarrow> u64 \<Rightarrow> 'b net_state \<Rightarrow> 'b net_state \<Rightarrow> bool" where
  "phase_done n i s u \<longleftrightarrow> net_ok n u \<and> notified u = notified s \<and> s_msg_processers u = s_msg_processers s \<and>
     s_cnt u = s_cnt s \<and> (\<forall>l. listening l s \<longrightarrow> listening l u) \<and>
     (\<forall>j. j \<noteq> i \<longrightarrow> get_td j u = get_td j s) \<and>
     (\<forall>t t'. get_td i s = Inr t \<longrightarrow> get_td i u = Inr t' \<longrightarrow> new_connections t' = new_connections t \<and>
        td_write_msgs t' = td_write_msgs t \<and>
        (\<exists>notes. td_read_msgs t' = td_read_msgs t @ notes \<and> (\<forall>m \<in> set notes. is_closed s (msg_conn m))) \<and>
        (\<forall>p \<in> set (served t). \<not> is_closed s p \<longrightarrow> p \<in> set (served t'))) \<and>
     (\<forall>p c. td c = None \<or> state c \<noteq> CS_CLOSE \<longrightarrow> (conns u p = Some c \<longleftrightarrow> conns s p = Some c)) \<and>
     (\<forall>p c'. conns u p = Some c' \<longrightarrow> (\<exists>c. conns s p = Some c \<and> closes c c')) \<and>
     (\<forall>j p. j \<noteq> i \<longrightarrow> owned j p u = owned j p s)"

lemma fold_erase_conn_fd:
  assumes "conns_map_ok s" and "map_find (fold (\<lambda>q. map_erase (conn_fd s q)) ps (s_conns_map s)) fd = Some q"
  shows "q \<notin> set ps"
proof
  assume q: "q \<in> set ps"
  note m = conns_map_okD(1) [OF assms(1)]
  have "fold (\<lambda>q. map_erase (conn_fd s q)) ps (s_conns_map s) = fold map_erase (map (conn_fd s) ps) (s_conns_map s)"
    by (simp add: fold_map o_def)
  with assms(2) fold_erase_find [OF m, of "map (conn_fd s) ps" fd]
  have "fd \<notin> conn_fd s ` set ps" "map_find (s_conns_map s) fd = Some q" by (auto split: if_splits)
  moreover from conns_map_okD(2) [OF assms(1) this(2)] have "conn_fd s q = fd" by (auto simp: conn_fd_def)
  ultimately show False using q by blast
qed

lemma reap_phase_ok:
  fixes s :: "'b net_state"
  assumes "net_ok n s" and "get_td i s = Inr t"
  shows "\<exists>u. reap_phase raw i s = Inr u \<and> phase_done n i s u \<and> (\<forall>j p. owned j p u = owned j p s)"
proof -
  note ok = net_okD [OF assms(1)]
  have wk: "worker_ok i t s" by (rule ok(8) [OF assms(2)])
  then have tb: "tables_ok t s" by (simp add: worker_ok_def)
  define ps where "ps = filter (is_closed s) (served t)"
  from reap_phase_result [OF assms(2) tb ok(5), of raw, folded ps_def] obtain u where
    u: "reap_phase raw i s = Inr u"
      "get_td i u = Inr (t\<lparr> td_read_msgs := td_read_msgs t @ map (shutdown_note raw) ps,
         for_delete_connections := keep_for_deletion s ps (for_delete_connections t),
         thread_connections := fold map_erase ps (thread_connections t) \<rparr>)"
      "reaped ps s u" "\<forall>j. j \<noteq> i \<longrightarrow> get_td j u = get_td j s" by blast
  let ?t = "t\<lparr> td_read_msgs := td_read_msgs t @ map (shutdown_note raw) ps,
         for_delete_connections := keep_for_deletion s ps (for_delete_connections t),
         thread_connections := fold map_erase ps (thread_connections t) \<rparr>"
  have tu: "tables_ok ?t u" and sv: "set (served ?t) \<subseteq> set (served t)"
    using reap_phase_tables [OF assms(2) tb ok(5) u(1,2)] by auto
  from u(1) assms(2) obtain ids s1 t1 where
    f: "fold_res (reap_one raw i) (thread_connections t) ([], s) = Inr (ids, s1)" "get_td i s1 = Inr t1"
      "u = put_td i (t1\<lparr> thread_connections := fold map_erase ids (thread_connections t1) \<rparr>) s1"
    by (auto simp: reap_phase_def)
  have d1: "disposes s s1 \<and> map_ok (s_threads_datas s1)"
  proof -
    have "disposes s (snd (ids, s1)) \<and> map_ok (s_threads_datas (snd (ids, s1)))"
    proof (rule fold_res_invariant [OF f(1)])
      show "disposes s (snd ([] :: u64 list, s)) \<and> map_ok (s_threads_datas (snd ([] :: u64 list, s)))" using ok(13) by simp
    next
      fix x and a b :: "u64 list \<times> 'b net_state"
      assume a: "disposes s (snd a) \<and> map_ok (s_threads_datas (snd a))" and r: "reap_one raw i x a = Inr b"
      have "reap_one raw i (fst x, snd x) (fst a, snd a) = Inr (fst b, snd b)" using r by simp
      from reap_one_disposes [OF this] a disposes_trans
      show "disposes s (snd b) \<and> map_ok (s_threads_datas (snd b))" by blast
    qed
    then show ?thesis by simp
  qed
  have "disposes s1 u"
    unfolding f(3)
  proof (rule disposes_put_td [OF _ f(2)])
    assume "well_typed s1"
    from well_typedD(1,2) [OF this f(2)] show "typed_in (s_msg_processers s1)
      (td_read_msgs (t1\<lparr> thread_connections := fold map_erase ids (thread_connections t1) \<rparr>) @
       td_write_msgs (t1\<lparr> thread_connections := fold map_erase ids (thread_connections t1) \<rparr>))" by simp
  qed (use d1 in simp_all)
  with d1 have d: "disposes s u" using disposes_trans by blast
  have fdel: "p \<in> snd ` set (for_delete_connections t) \<or> p \<in> set ps"
    if "p \<in> snd ` set (for_delete_connections ?t)" for p
  proof -
    from that obtain k where kp: "(k, p) \<in> set (keep_for_deletion s ps (for_delete_connections t))" by auto
    have "map_find (keep_for_deletion s ps (for_delete_connections t)) k = Some p"
      using kp map_find_iff [OF tables_okD(2) [OF tu]] by simp
    from keep_for_deletion_find [OF this] show ?thesis using map_find_in by force
  qed
  have own: "owned i p s" if "p \<in> set (served t) \<union> snd ` set (for_delete_connections t)" for p
    using wk that by (simp add: worker_ok_def)
  have unm: "map_find (s_conns_map u) fd \<noteq> Some p" if p: "p \<in> snd ` set (for_delete_connections ?t)" for p fd
  proof
    assume m: "map_find (s_conns_map u) fd = Some p"
    have "s_conns_map u = fold (\<lambda>q. map_erase (conn_fd s q)) ps (s_conns_map s)"
      using u(3) by (simp add: reaped_def)
    with fold_erase_conn_fd [OF ok(7)] m have "p \<notin> set ps" by metis
    with fdel [OF p] have "p \<in> snd ` set (for_delete_connections t)" by blast
    with wk disposesD(3) [OF d assms(1) m] show False by (auto simp: worker_ok_def)
  qed
  have "net_ok n u"
  proof (rule net_ok_disposes [OF assms(1) d])
    fix j t' assume t': "get_td j u = Inr t'"
    show "tables_ok t' u \<and> (\<forall>p \<in> set (served t') \<union> snd ` set (for_delete_connections t'). owned j p s) \<and>
      (\<forall>p \<in> snd ` set (for_delete_connections t'). \<forall>fd. map_find (s_conns_map u) fd \<noteq> Some p)"
    proof (cases "j = i")
      case True
      then have "t' = ?t" using t' u(2) by simp
      moreover have "owned i p s" if "p \<in> set (served ?t) \<union> snd ` set (for_delete_connections ?t)" for p
      proof -
        have "set ps \<subseteq> set (served t)" by (simp add: ps_def)
        with that sv fdel [of p] have "p \<in> set (served t) \<union> snd ` set (for_delete_connections t)" by blast
        then show ?thesis by (rule own)
      qed
      ultimately show ?thesis using True tu unm by blast
    next
      case False
      with t' u(4) have t'': "get_td j s = Inr t'" by simp
      have w: "worker_ok j t' s" by (rule ok(8) [OF t''])
      have keep: "conns u q = conns s q" if q: "q \<in> set (served t') \<union> snd ` set (for_delete_connections t')" for q
      proof -
        have "owned j q s" using w q by (simp add: worker_ok_def)
        moreover have "owned i q s" if "q \<in> set ps" using own that by (simp add: ps_def)
        ultimately have "q \<notin> set ps" using False by (auto simp: owned_def)
        with u(3) show ?thesis by (simp add: reaped_def)
      qed
      have "tables_ok t' u" by (rule tables_ok_elsewhere [OF _ keep]) (use w in \<open>simp_all add: worker_ok_def\<close>)
      moreover have "map_find (s_conns_map u) fd \<noteq> Some p" if "p \<in> snd ` set (for_delete_connections t')" for p fd
        using w that disposesD(3) [OF d assms(1), of fd p] unfolding worker_ok_def by blast
      ultimately show ?thesis using w by (simp add: worker_ok_def)
    qed
  qed
  moreover have "notified u = notified s" using d by (simp add: disposes_def)
  moreover have "p \<in> set (served ?t)" if "p \<in> set (served t)" "\<not> is_closed s p" for p
    using reap_phase_tables [OF assms(2) tb ok(5) u(1,2)] that by auto
  moreover have "conns u p = Some c \<longleftrightarrow> conns s p = Some c" if c: "td c = None \<or> state c \<noteq> CS_CLOSE" for p c
  proof (cases "p \<in> set ps")
    case False
    then show ?thesis using u(3) by (simp add: reaped_def)
  next
    case True
    then have "owned i p s" "is_closed s p" using own by (simp_all add: ps_def)
    then obtain c0 where c0: "conns s p = Some c0" "td c0 = Some i" "state c0 = CS_CLOSE"
      by (auto simp: owned_def is_closed_def)
    from disposesD(4) [OF d assms(1) c0(1)] obtain c1 where "conns u p = Some c1" "closes c0 c1" by blast
    with c0 c show ?thesis by (auto simp: closes_def)
  qed
  moreover have "is_closed s (msg_conn m)" if "m \<in> set (map (shutdown_note raw) ps)" for m
    using that by (auto simp: shutdown_note_def ps_def)
  ultimately have "phase_done n i s u"
    using listening_disposes [OF _ d] u(2,4) assms(2) disposesD(5,8) [OF d assms(1)] d
    by (simp add: phase_done_def disposes_def)
  with u(1) disposesD(8) [OF d assms(1)] show ?thesis by blast
qed

section \<open>Old connections\<close>

lemma purge_loop_keeps:
  "purge_loop now m s = Inr (m', u) \<Longrightarrow> s_threads_datas u = s_threads_datas s \<and> s_conns_map u = s_conns_map s \<and>
     s_msg_processers u = s_msg_processers s \<and> s_connect_conns u = s_connect_conns s \<and>
     s_net_setting u = s_net_setting s \<and> notified u = notified s \<and> s_cnt u = s_cnt s"
proof (induction now m s arbitrary: m' rule: purge_loop.induct)
  case (2 now k p rest s)
  from 2(2) obtain c where c: "get_conn p s = Inr c" by auto
  show ?case
  proof (cases "2 * 60 < now - close_time c")
    case True
    with 2(2) c have "purge_loop now rest (del_conn p s) = Inr (m', u)" by simp
    from 2(1) [OF True this] show ?thesis by simp
  qed (use 2(2) c in simp)
qed simp

text \<open>Connections of one worker, in no table and in no queue any more, are deleted.\<close>

lemma net_ok_delete:
  assumes "net_ok n s" and "get_td i s = Inr t" and "worker_ok i t' u"
    and "conns u = without_conns D s" and "\<And>p. p \<in> D \<Longrightarrow> owned i p s \<and> (\<forall>fd. map_find (s_conns_map s) fd \<noteq> Some p)"
    and "s_threads_datas u = map_put i (Some t') (s_threads_datas s)"
    and "s_conns_map u = s_conns_map s" and "s_msg_processers u = s_msg_processers s"
    and "s_connect_conns u = s_connect_conns s" and "s_net_setting u = s_net_setting s"
    and "new_connections t' = new_connections t"
    and "td_read_msgs t' = td_read_msgs t" and "td_write_msgs t' = td_write_msgs t"
  shows "net_ok n u" and "waiting u = waiting s"
proof -
  note ok = net_okD [OF assms(1)]
  have td: "get_td j u = (if j = i then Inr t' else get_td j s)" for j by (simp add: get_td_def assms(6))
  have live: "conns u p = Some c \<longleftrightarrow> p \<notin> D \<and> conns s p = Some c" for p c by (auto simp: assms(4) without_conns_def)
  show w: "waiting u = waiting s"
  proof -
    have "waiting u = waiting (put_td i t' s)" by (simp add: waiting_def core_def assms(6,9) put_td_def)
    with waiting_put_td [OF ok(13) assms(2), of t'] assms(11) show ?thesis by simp
  qed
  have iw: "is_worker j u = is_worker j s" for j using assms(2) by (auto simp: is_worker_def td)
  from worker_index [OF ok(2) assms(2)] obtain k where "k < n" "i = of_nat k" .
  with workers_put_td [OF ok(2) this(1), of t'] have "workers n u"
    using workers_cong [of u "put_td i t' s"] assms(6) by (simp add: put_td_def)
  moreover have "well_typed u"
    using ok(6) well_typedD(1,2) [OF ok(6) assms(2)] assms(8,12,13) by (auto simp: well_typed_def td live)
  moreover have "conns_map_ok u"
  proof (rule conns_map_okI)
    show "map_ok (s_conns_map u)" using conns_map_okD(1) [OF ok(7)] assms(7) by simp
  next
    fix fd p assume "map_find (s_conns_map u) fd = Some p"
    then have m: "map_find (s_conns_map s) fd = Some p" by (simp add: assms(7))
    with assms(5) have "p \<notin> D" by blast
    with conns_map_okD(2) [OF ok(7) m] show "p \<noteq> NULLP \<and> (\<exists>c. conns u p = Some c \<and> sfd c = fd)"
      by (simp add: live)
  qed
  moreover have "worker_ok j x u" if x: "get_td j u = Inr x" for j x
  proof (cases "j = i")
    case True
    with x assms(3) show ?thesis by (simp add: td)
  next
    case False
    with x have "get_td j s = Inr x" by (simp add: td)
    then have wk: "worker_ok j x s" by (rule ok(8))
    have keep: "q \<notin> D" if "q \<in> set (served x) \<union> snd ` set (for_delete_connections x)" for q
    proof -
      have "owned j q s" using wk that by (simp add: worker_ok_def)
      with assms(5) [of q] False show ?thesis by (auto simp: owned_def)
    qed
    have "tables_ok x u"
      by (rule tables_ok_elsewhere) (use wk keep in \<open>auto simp: worker_ok_def assms(4) without_conns_def\<close>)
    moreover have "owned j q u" if "q \<in> set (served x) \<union> snd ` set (for_delete_connections x)" for q
      using wk keep [OF that] that by (auto simp: worker_ok_def owned_def live)
    ultimately show ?thesis using wk by (simp add: worker_ok_def assms(7))
  qed
  moreover have "conn_ok p c u" if "conns u p = Some c" for p c
    using ok(9) [of p c] that by (simp add: live conn_ok_def iw)
  moreover have "waits p u" if p: "p \<in># waiting s" for p
  proof -
    have wt: "waits p s" by (rule ok(12) [OF p])
    with assms(5) [of p] have "p \<notin> D" by (auto simp: waits_def owned_def)
    with wt show ?thesis by (simp add: waits_def live assms(7))
  qed
  ultimately show "net_ok n u"
    unfolding net_ok_def assms(8-10) w using ok(1,3-5,10,11) by simp
qed

lemma purge_phase_ok:
  assumes "net_ok n s" and "get_td i s = Inr t"
  shows "\<exists>u. purge_phase now i s = Inr u \<and> phase_done n i s u"
proof -
  note ok = net_okD [OF assms(1)]
  have wk: "worker_ok i t s" by (rule ok(8) [OF assms(2)])
  then have tb: "tables_ok t s" by (simp add: worker_ok_def)
  let ?m = "for_delete_connections t"
  define D where "D = snd ` set (takeWhile (expired now s) ?m)"
  define t' where "t' = t\<lparr> for_delete_connections := dropWhile (expired now s) ?m \<rparr>"
  from purge_phase_result [OF assms(2) tb, of now, folded D_def t'_def] obtain u where
    u: "purge_phase now i s = Inr u" "get_td i u = Inr t'" "conns u = without_conns D s"
      "tables_ok t' u" "\<forall>j. j \<noteq> i \<longrightarrow> get_td j u = get_td j s" by blast
  from u(1) assms(2) obtain m' s1 where l: "purge_loop now ?m s = Inr (m', s1)"
    "u = put_td i (t\<lparr> for_delete_connections := m' \<rparr>) s1" by (auto simp: purge_phase_def)
  note k = purge_loop_keeps [OF l(1)]
  have t'': "t\<lparr> for_delete_connections := m' \<rparr> = t'" using u(2) by (simp add: l(2))
  have f: "s_threads_datas u = map_put i (Some t') (s_threads_datas s)" "s_conns_map u = s_conns_map s"
    "s_msg_processers u = s_msg_processers s" "s_connect_conns u = s_connect_conns s"
    "s_net_setting u = s_net_setting s" "notified u = notified s"
    "s_cnt u = s_cnt s"
    using k by (simp_all add: l(2) t'')
  have sub: "snd ` set (dropWhile (expired now s) ?m) \<subseteq> snd ` set ?m" "D \<subseteq> snd ` set ?m"
    by (auto simp: D_def dest: set_dropWhileD set_takeWhileD)
  have D: "owned i p s \<and> (\<forall>fd. map_find (s_conns_map s) fd \<noteq> Some p)" if "p \<in> D" for p
    using wk sub(2) that by (auto simp: worker_ok_def)
  have "owned i p u" if p: "p \<in> set (served t') \<union> snd ` set (for_delete_connections t')" for p
  proof -
    have "p \<in> set (served t) \<union> snd ` set ?m" using p sub(1) by (auto simp: t'_def served_def)
    then have "owned i p s" using wk by (simp add: worker_ok_def)
    moreover have "p \<notin> D"
    proof
      assume "p \<in> D"
      then have "conns u p = None" by (simp add: u(3) without_conns_def)
      moreover have "conns u p \<noteq> None"
        using p served_live [OF u(4), of p] for_delete_live [OF u(4)]
        by (auto simp: get_conn_Inr is_closed_def)
      ultimately show False by simp
    qed
    ultimately show ?thesis by (auto simp: owned_def u(3) without_conns_def)
  qed
  moreover have "map_find (s_conns_map u) fd \<noteq> Some p" if "p \<in> snd ` set (for_delete_connections t')" for p fd
  proof -
    have "p \<in> snd ` set (dropWhile (expired now s) ?m)" using that by (simp add: t'_def)
    with sub(1) have "p \<in> snd ` set ?m" by blast
    with wk show ?thesis unfolding worker_ok_def f(2) by blast
  qed
  ultimately have wk': "worker_ok i t' u"
    using wk u(4) by (simp add: worker_ok_def t'_def)
  note del = net_ok_delete [OF assms(1,2) wk' u(3) D f(1-5)]
  have "net_ok n u" "waiting u = waiting s" by (rule del; simp add: t'_def)+
  moreover have "listening l u" if "listening l s" for l
  proof (rule listening_cong [OF that])
    show "conns u l = conns s l"
      using that D [of l] by (auto simp: u(3) without_conns_def listening_def owned_def)
  qed (simp add: \<open>waiting u = waiting s\<close>)
  moreover have "conns u p = Some c \<longleftrightarrow> conns s p = Some c" if c: "td c = None \<or> state c \<noteq> CS_CLOSE" for p c
  proof -
    have "p \<notin> D" if "conns s p = Some c"
    proof
      assume p: "p \<in> D"
      with sub(2) obtain x where "x \<in> set ?m" "snd x = p" by auto
      with for_delete_live [OF tb this(1)] D [OF p] that c show False by (auto simp: owned_def is_closed_def)
    qed
    then show ?thesis by (auto simp: u(3) without_conns_def)
  qed
  moreover have "owned j p u = owned j p s" if "j \<noteq> i" for j p
    using D [of p] that by (auto simp: owned_def u(3) without_conns_def)
  moreover have "\<exists>c. conns s p = Some c \<and> closes c c'" if "conns u p = Some c'" for p c'
    using that by (auto simp: u(3) without_conns_def split: if_splits)
  ultimately have "phase_done n i s u"
    using f(3,6,7) u(2,5) assms(2) by (simp add: phase_done_def t'_def served_def)
  with u(1) show ?thesis by blast
qed

section \<open>Every step\<close>

lemma goto_ok:
  assumes "system_ok n sy" and "\<And>t. get_td i (network sy) = Inr t \<Longrightarrow> set (pending_io ph) \<subseteq> set (thread_connections t)"
  shows "\<exists>sy'. goto i ph (Inr sy) = Inr sy' \<and> system_ok n sy'"
  using assms by (simp add: goto_def system_ok_def)

lemma system_ok_phase:
  assumes "system_ok n sy" and "f (network sy) = Inr u" and "phase_done n i (network sy) u" and "pending_io ph = []"
  shows "\<exists>sy'. goto i ph (on_net f sy) = Inr sy' \<and> system_ok n sy'"
proof -
  have "pipe sy j \<le> length (new_connections t')" "j \<noteq> i \<Longrightarrow> set (pending_io (at sy j)) \<subseteq> set (thread_connections t')"
    if t': "get_td j u = Inr t'" for j t'
  proof -
    have "net_ok n u" using assms(3) by (simp add: phase_done_def)
    from worker_index [OF net_okD(2) [OF this] t'] obtain k where "k < n" "j = of_nat k" .
    then obtain t where t: "get_td j (network sy) = Inr t"
      using net_okD(2) [OF system_okD(1) [OF assms(1)]] by (auto simp: workers_def)
    have "new_connections t' = new_connections t \<and> (j \<noteq> i \<longrightarrow> t' = t)"
      using assms(3) t t' by (cases "j = i") (auto simp: phase_done_def)
    with system_okD(3,4) [OF assms(1) t] show "pipe sy j \<le> length (new_connections t')"
      "j \<noteq> i \<Longrightarrow> set (pending_io (at sy j)) \<subseteq> set (thread_connections t')" by simp_all
  qed
  then show ?thesis
    using assms system_okD(2) [OF assms(1)]
    by (simp add: goto_def on_net_def system_ok_def phase_done_def)
qed

lemma owned_usable:
  assumes "net_ok n s" and "owned i p s"
  shows "\<exists>c. get_conn p s = Inr c \<and> usable (s_msg_processers s) c \<and> state c \<noteq> CS_LISTEN"
proof -
  from assms(2) obtain c where c: "conns s p = Some c" "td c = Some i" by (auto simp: owned_def)
  with net_okD(9) [OF assms(1) c(1)] well_typedD(4) [OF net_okD(6) [OF assms(1)] c(1)] show ?thesis
    by (auto simp: conn_ok_def usable_def get_conn_Inr)
qed

lemma served_owned:
  assumes "net_ok n s" and "get_td i s = Inr t" and "(k, p) \<in> set (thread_connections t)"
  shows "owned i p s" and "k = p"
proof -
  have wk: "worker_ok i t s" by (rule net_okD(8) [OF assms(1,2)])
  have "p \<in> set (served t)" using assms(3) by (force simp: served_def)
  with wk show "owned i p s" by (simp add: worker_ok_def)
  have tb: "tables_ok t s" using wk by (simp add: worker_ok_def)
  then have "map_find (thread_connections t) k = Some p"
    using assms(3) map_find_iff [OF tables_okD(1) [OF tb]] by blast
  from tables_okD(3) [OF tb this] show "k = p" by simp
qed

text \<open>A step that reads a stream with a bad frame.\<close>

definition bad_step :: "'b evbuffer_ops \<Rightarrow> action \<Rightarrow> 'b system \<Rightarrow> fault \<Rightarrow> bool" where
  "bad_step ops a sy f \<longleftrightarrow>
     (case a of
        Io i renv wenv \<Rightarrow> (case pending_io (at sy i) of [] \<Rightarrow> False | kp # kps \<Rightarrow> bad_read ops renv (snd kp) (network sy) f)
      | Callback_of i cb \<Rightarrow>
          (case cb of On_pipe env byte \<Rightarrow> False | On_socket env fd which p \<Rightarrow> bad_read ops env p (network sy) f)
      | _ \<Rightarrow> False)"

definition step_ok :: "nat \<Rightarrow> 'b evbuffer_ops \<Rightarrow> action \<Rightarrow> 'b system \<Rightarrow> 'b system res \<Rightarrow> bool" where
  "step_ok n ops a sy r \<longleftrightarrow>
     (\<exists>sy'. r = Inr sy' \<and> system_ok n sy') \<or> (\<exists>f. r = Inl f \<and> bad_step ops a sy f)"

lemma step_ok_runs:
  assumes "system_ok n sy" and "runs (network sy) (f (network sy))"
  shows "step_ok n ops a sy (on_net f sy)"
    and "pending_io ph = [] \<Longrightarrow> step_ok n ops a sy (goto i ph (on_net f sy))"
proof -
  from system_ok_evolves [of n sy f, OF assms] obtain sy' where
    sy': "on_net f sy = Inr sy'" "system_ok n sy'" by blast
  then show "step_ok n ops a sy (on_net f sy)" by (simp add: step_ok_def)
  assume "pending_io ph = []"
  with goto_ok [OF sy'(2), of i ph] sy'(1) show "step_ok n ops a sy (goto i ph (on_net f sy))"
    by (simp add: step_ok_def)
qed

text \<open>A step that changes one connection and no worker.\<close>

definition touches :: "ptr \<Rightarrow> 'b net_state \<Rightarrow> 'b net_state \<Rightarrow> bool" where
  "touches p s u \<longleftrightarrow> s_cnt u = s_cnt s \<and> (\<forall>q. q \<noteq> p \<longrightarrow> conns u q = conns s q) \<and> s_threads_datas u = s_threads_datas s"

lemma touches_refl [simp]: "touches p s s"
  by (simp add: touches_def)

lemma touches_trans: "touches p a b \<Longrightarrow> touches p b c \<Longrightarrow> touches p a c"
  by (simp add: touches_def)

lemma touches_put_on: "touches p s s1 \<Longrightarrow> touches p s (put_conn p c s1)" "touches p s s1 \<Longrightarrow> touches p s (log_effect e s1)"
  by (auto simp: touches_def)

lemma touches_conn_close: "conn_close now p s = Inr u \<Longrightarrow> touches p s u"
  by (auto simp: conn_close_def conn_set_state_def upd_conn_Inr touches_def)

lemma conn_close_reads:
  "conn_close now p s = Inr u \<Longrightarrow> map_option conn_read_msgs (conns u q) = map_option conn_read_msgs (conns s q)"
  by (auto simp: conn_close_def conn_set_state_def upd_conn_Inr get_conn_Inr)

lemma update_event_reads:
  "update_event d a p evt s = Inr (ok, u) \<Longrightarrow> map_option conn_read_msgs (conns u q) = map_option conn_read_msgs (conns s q)"
  by (auto simp: update_event_def get_conn_Inr Let_def split: if_splits)

lemma touches_update_event: "update_event d a p evt s = Inr (ok, u) \<Longrightarrow> touches p s u"
  by (auto simp: update_event_def touches_def Let_def split: if_splits)

text \<open>The event of the listener: it hands connections to the workers, then its own event is armed again.\<close>

lemma listener_event:
  assumes "net_ok n s" and "listening l s" and "\<And>a. a \<in> set (io_accepts env) \<Longrightarrow> int_fd (ac_sfd a)"
  shows "\<exists>v u. event_handler ops env fd EV_READ l s = Inr u \<and> net_ok n v \<and> hands s v \<and> evolves v u \<and> touches l v u \<and>
    map_option conn_read_msgs (conns u l) = map_option conn_read_msgs (conns v l)"
proof -
  from assms(2) obtain c where c: "conns s l = Some c"
    "state c = CS_LISTEN \<or> state c = CS_CLOSE" by (auto simp: listening_def)
  have l0: "l \<noteq> NULLP" using net_okD(9) [OF assms(1) c(1)] by (auto simp: conn_ok_def)
  have g: "get_conn l s = Inr c" using c(1) l0 by (simp add: get_conn_Inr)
  consider (wrong) "fd \<noteq> sfd c" | (closed) "fd = sfd c" "state c = CS_CLOSE" | (listen) "fd = sfd c" "state c = CS_LISTEN"
    using c(2) by blast
  then show ?thesis
  proof cases
    case wrong
    then have "event_handler ops env fd EV_READ l s = conn_close (io_now env) l s"
      using l0 g by (simp add: event_handler_def)
    moreover from runs_close [OF g, of "io_now env"] obtain u where
      "conn_close (io_now env) l s = Inr u" "evolves s u" by (auto simp: runs_def)
    ultimately show ?thesis
      using touches_conn_close [of "io_now env" l s u] conn_close_reads [of "io_now env" l s u l] assms(1) hands_refl [of s] by metis
  next
    case closed
    then have "event_handler ops env fd EV_READ l s = Inr s"
      using l0 g by (simp add: event_handler_def process_event_def conn_get_state_def on_read_def)
    with assms(1) hands_refl [of s] evolves_refl [of s] touches_refl [of l s] show ?thesis by blast
  next
    case listen
    from accept_loop_hands [OF assms(1,3)] obtain s1 where
      s1: "accept_loop (io_accepts env) s = Inr s1" "net_ok n s1" "hands s s1" by blast
    have g1: "get_conn l s1 = Inr c" using c(1) l0 s1(3) by (simp add: get_conn_Inr hands_def)
    from update_event_total [OF g1, of "io_del env" "io_add env" EV_READ] obtain ok s2 where
      s2: "update_event (io_del env) (io_add env) l EV_READ s1 = Inr (ok, s2)" "evolves s1 s2" by blast
    have "event_handler ops env fd EV_READ l s = Inr s2"
      using listen l0 g s1(1) s2(1)
      by (simp add: event_handler_def process_event_def conn_get_state_def new_connection_def)
    with s1(2,3) s2(2) touches_update_event [OF s2(1)] update_event_reads [OF s2(1), of l] show ?thesis by blast
  qed
qed

lemma accept_ready_ok:
  assumes "system_ok n sy" and "\<And>a. a \<in> set (io_accepts env) \<Longrightarrow> int_fd (ac_sfd a)"
  shows "\<exists>sy'. on_net (event_handler ops env fd EV_READ (listener sy)) sy = Inr sy' \<and> system_ok n sy'"
proof -
  from listener_event [OF system_okD(1,2) [OF assms(1)] assms(2)] obtain v u where
    u: "event_handler ops env fd EV_READ (listener sy) (network sy) = Inr u" "net_ok n v" "hands (network sy) v" "evolves v u"
    by blast
  from system_ok_hands [OF assms(1), of "event_handler ops env fd EV_READ (listener sy)", OF this] show ?thesis by blast
qed

lemma connect_ready_ok:
  assumes "system_ok n sy"
  shows "\<exists>sy'. goto i (At_io (connections_of i (network sy))) (on_net (connect_phase w) sy) = Inr sy' \<and> system_ok n sy'"
proof -
  let ?s = "network sy"
  note nok = system_okD(1) [OF assms]
  from hand_out_hands [OF nok refl, of w] obtain s1 where
    s1: "hand_out_connectors w (s_connect_conns ?s) ?s = Inr s1" "net_ok n s1" "hands ?s s1" by blast
  have "connect_phase w ?s = Inr s1" using s1(1) by (simp add: connect_phase_def)
  from system_ok_hands [OF assms, of "connect_phase w", OF this s1(2,3) evolves_refl] obtain sy' where
    sy': "on_net (connect_phase w) sy = Inr sy'" "system_ok n sy'" "network sy' = s1" by blast
  have same: "set (connections_of i ?s) \<subseteq> set (thread_connections t)" if t: "get_td i s1 = Inr t" for t
  proof -
    from worker_index [OF net_okD(2) [OF s1(2)] t] obtain k where "k < n" "i = of_nat k" .
    then obtain t0 where t0: "get_td i ?s = Inr t0" using net_okD(2) [OF nok] by (auto simp: workers_def)
    with s1(3) t have "thread_connections t = thread_connections t0" by (force simp: hands_def)
    with t0 show ?thesis by (simp add: connections_of_def)
  qed
  from goto_ok [OF sy'(2), of i "At_io (connections_of i ?s)"] same sy' show ?thesis
    by (simp add: pending_io_def)
qed

lemma step_ok_bad:
  assumes "system_ok n sy" and "runs_or_bad ops env p (network sy) (f (network sy))"
    and "\<And>g. bad_read ops env p (network sy) g \<Longrightarrow> bad_step ops a sy g"
    and "\<And>t. get_td i (network sy) = Inr t \<Longrightarrow> set (pending_io ph) \<subseteq> set (thread_connections t)"
  shows "step_ok n ops a sy (goto i ph (on_net f sy))" and "step_ok n ops a sy (on_net f sy)"
proof -
  have "step_ok n ops a sy (goto i ph (on_net f sy)) \<and> step_ok n ops a sy (on_net f sy)"
  proof (cases "runs (network sy) (f (network sy))")
    case True
    from system_ok_evolves [of n sy f, OF assms(1) True] obtain sy' where
      sy': "on_net f sy = Inr sy'" "system_ok n sy'" "evolves (network sy) (network sy')" by blast
    have "set (pending_io ph) \<subseteq> set (thread_connections t)" if t: "get_td i (network sy') = Inr t" for t
    proof -
      from core_get_td [OF _ t, of "network sy"] sy'(3) obtain t0 where
        "get_td i (network sy) = Inr t0" "td_core t = td_core t0" by (auto simp: evolves_def)
      with assms(4) show ?thesis by (simp add: td_core_simps)
    qed
    from goto_ok [OF sy'(2) this] sy' show ?thesis by (simp add: step_ok_def)
  next
    case False
    with assms(2) obtain g where "f (network sy) = Inl g" "bad_read ops env p (network sy) g"
      by (auto simp: runs_or_bad_def)
    with assms(3) show ?thesis by (simp add: step_ok_def goto_def on_net_def)
  qed
  then show "step_ok n ops a sy (goto i ph (on_net f sy))" and "step_ok n ops a sy (on_net f sy)" by blast+
qed

lemma callback_ok:
  assumes "system_ok n sy" and "get_td i (network sy) = Inr t" and "callback_enabled ops i cb sy"
  shows "step_ok n ops (Callback_of i cb) sy (on_net (run_callback ops i cb) (take_byte i cb sy))"
proof (cases cb)
  case (On_pipe env byte)
  show ?thesis
  proof (cases byte)
    case None
    have "runs (network sy) (run_callback ops i cb (network sy))"
      using On_pipe None by (simp add: thread_libevent_process_def)
    from step_ok_runs(1) [OF assms(1), of "run_callback ops i cb", OF this] On_pipe None show ?thesis
      by (simp add: take_byte_def)
  next
    case (Some b)
    with assms(3) On_pipe have b: "b = 0x63" "0 < pipe sy i" "fresh (ce_new env) (network sy)"
      by (auto simp: callback_enabled_def)
    with system_okD(3) [OF assms(1,2)] obtain ci rest where ci: "new_connections t = ci # rest"
      by (cases "new_connections t") auto
    from thread_libevent_process_ok [OF system_okD(1) [OF assms(1)] assms(2) ci b(3), of ops] obtain u where
      u: "thread_libevent_process ops env (Some 0x63) i (network sy) = Inr u" "pipe_done n ops i t rest (network sy) u" by blast
    let ?pipe = "(pipe sy)(i := pipe sy i - 1)"
    have "?pipe j \<le> length (new_connections t') \<and> set (pending_io (at sy j)) \<subseteq> set (thread_connections t')"
      if t': "get_td j u = Inr t'" for j t'
    proof (cases "j = i")
      case True
      with t' u(2) have "new_connections t' = rest" "set (thread_connections t) \<subseteq> set (thread_connections t')"
        by (auto simp: pipe_done_def)
      with True ci system_okD(3,4) [OF assms(1,2)] show ?thesis by auto
    next
      case False
      with t' u(2) have "get_td j (network sy) = Inr t'" by (simp add: pipe_done_def)
      with False system_okD(3,4) [OF assms(1), of j] show ?thesis by simp
    qed
    with u b On_pipe Some system_okD(2) [OF assms(1)] show ?thesis
      by (simp add: step_ok_def on_net_def take_byte_def system_ok_def pipe_done_def fun_upd_def)
  qed
next
  case (On_socket env fd which p)
  with assms(3) have "owned i p (network sy)" by (simp add: callback_enabled_def)
  from owned_usable [OF system_okD(1) [OF assms(1)] this] obtain c where
    c: "get_conn p (network sy) = Inr c" "usable (s_msg_processers (network sy)) c" "state c \<noteq> CS_LISTEN" by blast
  from event_handler_total [OF c, of ops env fd which] On_socket
  have r: "runs_or_bad ops env p (network sy) (run_callback ops i cb (network sy))" by simp
  have "step_ok n ops (Callback_of i cb) sy (on_net (run_callback ops i cb) sy)"
    by (rule step_ok_bad(2) [where f = "run_callback ops i cb" and i = i and ph = "At_io []", OF assms(1) r])
       (simp_all add: On_socket bad_step_def pending_io_def)
  then show ?thesis by (simp add: On_socket take_byte_def)
qed

theorem exec_ok:
  assumes "system_ok n sy" and "enabled ops a sy"
  shows "step_ok n ops a sy (exec ops a sy)"
proof -
  note nok = system_okD(1) [OF assms(1)]
  note ok = net_okD [OF nok]
  have worker: "\<exists>t. get_td i (network sy) = Inr t \<and> tables_ok t (network sy)" if "is_worker i (network sy)" for i
    using that ok(8) by (auto simp: is_worker_def worker_ok_def)
  show ?thesis
  proof (cases a)
    case (Logic_send md)
    have "runs (network sy) (net_send md (network sy))"
    proof (cases "\<exists>n. md = Some n \<and> msg_conn n \<noteq> NULLP")
      case False
      then show ?thesis by (auto simp: net_send_def split: option.split)
    next
      case True
      with assms(2) Logic_send obtain m i c where m: "md = Some m" "msg_conn m \<noteq> NULLP"
        "node_ok (s_msg_processers (network sy)) m" "conns (network sy) (msg_conn m) = Some c" "td c = Some i"
        by (auto simp: owned_def)
      from ok(9) [OF m(4)] m(5) obtain t where t: "get_td i (network sy) = Inr t"
        by (auto simp: conn_ok_def is_worker_def)
      have "get_conn (msg_conn m) (network sy) = Inr c" using m by (simp add: get_conn_Inr)
      from net_send_runs [OF this m(5) t ok(13) m(3)] m(1) show ?thesis by simp
    qed
    with step_ok_runs(1) [OF assms(1), of "net_send md"] Logic_send show ?thesis by simp
  next
    case Logic_get
    with get_net_msgs_runs [OF ok(2) _ ok(13), of "[]"] assms(2)
      step_ok_runs(1) [OF assms(1), of "\<lambda>s. bind_res (get_net_msgs [] s) (\<lambda>(ms, s'). Inr s')"]
    show ?thesis by simp
  next
    case (Logic_close now p)
    with assms(2) obtain i where "owned i p (network sy)" by auto
    from owned_usable [OF nok this] obtain c where "get_conn p (network sy) = Inr c" by blast
    from step_ok_runs(1) [OF assms(1), of "conn_close now p", OF runs_close [OF this]] Logic_close
    show ?thesis by simp
  next
    case (Logic_connect env peer new)
    with assms(2) have "fresh new (network sy)" "int_fd (so_socket env)" by auto
    note u = net_connect_ok [OF nok this, of "snd (net_connect env peer new (network sy))" peer, OF refl]
    have "on_net (\<lambda>s. Inr (snd (net_connect env peer new s))) sy =
        Inr (sy\<lparr> network := snd (net_connect env peer new (network sy)), pipe := pipe sy \<rparr>)"
      using u(2) by (simp add: on_net_def)
    moreover have "get_td i (snd (net_connect env peer new (network sy))) = get_td i (network sy)" for i
      by (simp add: get_td_def u(3))
    ultimately show ?thesis
      using Logic_connect u(1,4) assms(1) by (simp add: step_ok_def system_ok_def)
  next
    case (Accept_ready env fd)
    with accept_ready_ok [OF assms(1), where env = env and fd = fd and ops = ops] assms(2) show ?thesis by (simp add: step_ok_def)
  next
    case (Distribute i)
    with assms(2) worker [of i] obtain t where t: "get_td i (network sy) = Inr t" "tables_ok t (network sy)" by auto
    from distribute_writes_runs [OF t ok(4,6,13)] ok(8) [OF t(1)]
    have "runs (network sy) (distribute_writes i (network sy))" by (simp add: worker_ok_def)
    from step_ok_runs(2) [OF assms(1), of "distribute_writes i", OF this] Distribute
    show ?thesis by (simp add: pending_io_def)
  next
    case (Collect i)
    with assms(2) worker [of i] obtain t where "get_td i (network sy) = Inr t" "tables_ok t (network sy)" by auto
    from collect_reads_runs [OF this ok(13)] have "runs (network sy) (collect_reads i (network sy))" .
    from step_ok_runs(2) [OF assms(1), of "collect_reads i", OF this] Collect
    show ?thesis by (simp add: pending_io_def)
  next
    case (Connect i w)
    with connect_ready_ok [OF assms(1), where i = i and w = w] show ?thesis by (simp add: step_ok_def)
  next
    case (Io i renv wenv)
    with assms(2) worker [of i] obtain t k p kps where t: "get_td i (network sy) = Inr t"
      and at: "at sy i = At_io ((k, p) # kps)" by auto
    have sub: "set ((k, p) # kps) \<subseteq> set (thread_connections t)"
      using system_okD(4) [OF assms(1) t] at by (simp add: pending_io_def)
    have "owned i p (network sy)" by (rule served_owned(1) [OF nok t]) (use sub in auto)
    from owned_usable [OF nok this] obtain c where
      c: "get_conn p (network sy) = Inr c" "usable (s_msg_processers (network sy)) c" "state c \<noteq> CS_LISTEN" by blast
    have r: "runs_or_bad ops renv p (network sy) (io_one ops (\<lambda>p. (renv, wenv)) (k, p) (network sy))"
      using io_one_total [OF c ok(4,6), of ops "\<lambda>p. (renv, wenv)" k] by simp
    have "step_ok n ops (Io i renv wenv) sy (goto i (At_io kps) (on_net (io_one ops (\<lambda>p. (renv, wenv)) (k, p)) sy))"
      by (rule step_ok_bad(1) [where f = "io_one ops (\<lambda>p. (renv, wenv)) (k, p)", OF assms(1) r])
         (use sub t at in \<open>auto simp: bad_step_def pending_io_def\<close>)
    with Io at show ?thesis by (simp add: pending_io_def)
  next
    case (Callback_of i cb)
    with assms(2) worker [of i] obtain t where "get_td i (network sy) = Inr t" by auto
    from callback_ok [OF assms(1) this] Callback_of assms(2) show ?thesis by simp
  next
    case (Reap i raw)
    with assms(2) worker [of i] obtain t where t: "get_td i (network sy) = Inr t" by auto
    from reap_phase_ok [OF nok t, of raw] obtain u where
      "reap_phase raw i (network sy) = Inr u" "phase_done n i (network sy) u" by blast
    from system_ok_phase [OF assms(1), of "reap_phase raw i", OF this, of At_purge] Reap
    show ?thesis by (simp add: step_ok_def pending_io_def)
  next
    case (Purge i now)
    with assms(2) worker [of i] obtain t where t: "get_td i (network sy) = Inr t" by auto
    from purge_phase_ok [OF nok t, of now] obtain u where
      "purge_phase now i (network sy) = Inr u" "phase_done n i (network sy) u" by blast
    from system_ok_phase [OF assms(1), of "purge_phase now i", OF this, of At_distribute] Purge
    show ?thesis by (simp add: step_ok_def pending_io_def)
  qed
qed

section \<open>The start\<close>

lemma threads_started:
  fixes s :: "'b net_state"
  assumes "thread_init has_log envs (of_nat n) s = Inr s'" and "s_threads_datas s = []" and "n < 2 ^ 31"
  shows "workers n s' \<and> s_threads_datas s' = map (\<lambda>i. (of_nat i, Some (started_worker (envs (of_nat i))))) [0..<n] \<and>
    conns s' = conns s \<and> s_conns_map s' = s_conns_map s \<and> s_connect_conns s' = s_connect_conns s \<and>
    s_msg_processers s' = s_msg_processers s \<and> s_net_setting s' = s_net_setting s \<and>
    (\<forall>i < n. te_base (envs (of_nat i)) \<noteq> NULLP)"
proof -
  have sn: "sint (of_nat n :: u32) = int n"
    using assms(3) by (simp add: signed_of_nat signed_take_bit_int_eq_self)
  then have f: "fold_res (thread_init_one has_log envs) (map of_nat [0..<n]) s = Inr s'"
    using assms(1) by (simp add: thread_init_def)
  have every: "\<forall>i \<in> set is. thread_env_ok has_log (envs i)"
    if "fold_res (thread_init_one has_log envs) is a = Inr b" for "is" and a b :: "'b net_state"
    using that by (induction "is" arbitrary: a) (auto simp: thread_init_one_result split: if_splits)
  from every [OF f] have env: "thread_env_ok has_log (envs (of_nat i))" if "i < n" for i using that by simp
  from thread_init_result [of s n has_log envs, OF assms(2,3) env] f have
    w: "workers n s'" "s_threads_datas s' = map (\<lambda>i. (of_nat i, Some (started_worker (envs (of_nat i))))) [0..<n]"
      "conns s' = conns s" by auto
  have "s_conns_map s' = s_conns_map s \<and> s_connect_conns s' = s_connect_conns s \<and>
      s_msg_processers s' = s_msg_processers s \<and> s_net_setting s' = s_net_setting s"
    by (rule fold_res_invariant [OF f]) (auto simp: thread_init_one_result split: if_splits)
  with w env show ?thesis by (simp add: thread_env_ok_def)
qed

lemma server_listen_made:
  assumes "server_listen ops senv cenv s = Inr (fd, s')" and "fd \<noteq> -1" and "conns s (ce_new cenv) = None"
    and "s_conns_map s = []" and "ce_new cenv \<noteq> NULLP"
  shows "\<exists>base. conns s' = (conns s)(ce_new cenv := Some (created ops cenv fd CS_LISTEN base new_Connection)) \<and>
    s_conns_map s' = [(fd, ce_new cenv)] \<and> s_threads_datas s' = s_threads_datas s \<and>
    s_connect_conns s' = s_connect_conns s \<and> s_msg_processers s' = s_msg_processers s \<and>
    s_net_setting s' = s_net_setting s"
proof -
  from assms(1,2) obtain s1 where so: "new_socket_nonblock senv s = (fd, s1)"
    by (auto simp: server_listen_def split: prod.splits if_splits)
  then have s1: "s1 = s" using assms(2) by (auto simp: new_socket_nonblock_def split: if_splits)
  from assms(1,2) so s1 obtain conn where
    cr: "create_conn ops cenv fd CS_LISTEN (s_main_base s) NULLP s = Inr (conn, s')" "conn \<noteq> NULLP"
    by (auto simp: server_listen_def split: if_splits)
  have "addr_ok (ce_new cenv) NULLP s" using assms(3-5) by (simp add: addr_ok_def)
  then show ?thesis
  proof (cases rule: create_conn_result [where ops = ops and fd = fd and ebase = "s_main_base s"
        and conn_state = CS_LISTEN, case_names refused undone made])
    case (made p c)
    with cr show ?thesis by (auto simp: assms(4) put_conn_def intro!: exI [of _ "s_main_base s"])
  qed (use cr in simp_all)
qed

lemma boot_made:
  fixes s :: "'b net_state"
  assumes "boot ops be s = Inr (True, sy)" and "blank s" and "net_thread_num (s_net_setting s) = of_nat n"
    and "n < 2 ^ 31" and "fresh (ce_new (be_create be)) s"
  shows "\<exists>fd base. workers n (network sy) \<and>
    s_threads_datas (network sy) = map (\<lambda>i. (of_nat i, Some (started_worker (be_threads be (of_nat i))))) [0..<n] \<and>
    conns (network sy) = (\<lambda>p. if p = ce_new (be_create be)
      then Some (created ops (be_create be) fd CS_LISTEN base new_Connection) else None) \<and>
    s_conns_map (network sy) = [(fd, ce_new (be_create be))] \<and> s_connect_conns (network sy) = [] \<and>
    s_msg_processers (network sy) = s_msg_processers s \<and> s_net_setting (network sy) = s_net_setting s \<and>
    (\<forall>i < n. te_base (be_threads be (of_nat i)) \<noteq> NULLP) \<and>
    pipe sy = (\<lambda>i. 0) \<and> at sy = (\<lambda>i. At_distribute) \<and> listener sy = ce_new (be_create be)"
proof -
  let ?l = "ce_new (be_create be)"
  have l: "?l \<noteq> NULLP" using assms(5) by (auto simp: fresh_def)
  from assms(1) obtain s1 s2 where s1: "net_init ops (be_base be) (be_socket be) (be_create be) True s = Inr (True, s1)"
    and s2: "accept_thread_worker (be_has_log be) (be_threads be) (be_base be) s1 = Inr s2"
    and sy: "sy = \<lparr> network = s2, pipe = (\<lambda>i. 0), at = (\<lambda>i. At_distribute), listener = ?l \<rparr>"
    by (auto simp: boot_def)
  let ?s = "s\<lparr> s_main_base := be_base be \<rparr>"
  from s1 obtain fd s0 where s0: "server_listen ops (be_socket be) (be_create be) ?s = Inr (fd, s0)" "fd \<noteq> -1"
    "s1 = log_effect Start_accept s0"
    by (auto simp: net_init_def split: if_splits)
  from server_listen_made [OF s0(1,2)] assms(2) l obtain base where
    m: "conns s0 = (conns s)(?l := Some (created ops (be_create be) fd CS_LISTEN base new_Connection))"
      "s_conns_map s0 = [(fd, ?l)]" "s_threads_datas s0 = []" "s_connect_conns s0 = []"
      "s_msg_processers s0 = s_msg_processers s" "s_net_setting s0 = s_net_setting s"
    by (auto simp: blank_def)
  from s2 assms(3) m(6) have "thread_init (be_has_log be) (be_threads be) (of_nat n) s1 = Inr s2"
    by (simp add: accept_thread_worker_def s0(3) split: if_splits)
  note t = threads_started [OF this _ assms(4)]
  have none: "conns s p = None" for p using assms(2) by (simp add: blank_def)
  show ?thesis
    by (intro exI [of _ fd] exI [of _ base]) (use t m s0(3) in \<open>simp add: sy fun_eq_iff none\<close>)
qed

theorem boot_ok:
  fixes s :: "'b net_state"
  assumes "boot ops be s = Inr (True, sy)" and "blank s" and "net_thread_num (s_net_setting s) = of_nat n"
    and "0 < n" and "n < 2 ^ 31" and "fresh (ce_new (be_create be)) s"
  shows "system_ok n sy"
proof -
  let ?l = "ce_new (be_create be)"
  define s2 where "s2 = network sy"
  have l: "?l \<noteq> NULLP" "2 ^ 31 \<le> ?l" using assms(6) by (auto simp: fresh_def)
  from boot_made [OF assms(1-3,5,6), folded s2_def] obtain fd base where
    t: "workers n s2" "s_threads_datas s2 = map (\<lambda>i. (of_nat i, Some (started_worker (be_threads be (of_nat i))))) [0..<n]"
      "conns s2 = (\<lambda>p. if p = ?l then Some (created ops (be_create be) fd CS_LISTEN base new_Connection) else None)"
      "s_conns_map s2 = [(fd, ?l)]" "s_connect_conns s2 = []"
      "s_msg_processers s2 = s_msg_processers s" "s_net_setting s2 = s_net_setting s"
      "\<forall>i < n. te_base (be_threads be (of_nat i)) \<noteq> NULLP"
    and sy: "pipe sy = (\<lambda>i. 0)" "at sy = (\<lambda>i. At_distribute)" "listener sy = ?l" by blast
  have td: "\<exists>k < n. u = started_worker (be_threads be (of_nat k))" if "get_td i s2 = Inr u" for i u
  proof -
    from that have "(i, Some u) \<in> set (s_threads_datas s2)" by (simp add: get_td_Inr map_find_in)
    then show ?thesis by (auto simp: t(2))
  qed
  have cn: "conns s2 p = (if p = ?l then Some (created ops (be_create be) fd CS_LISTEN base new_Connection) else None)" for p
    by (simp add: t(3))
  have w: "waiting s2 = {#}"
  proof -
    have "concat (map queued_pres (core s2)) = []"
      by (auto simp: core_def t(2) concat_eq_Nil_conv td_core_def started_worker_def new_ThreadData_def pres_def)
    then show ?thesis by (simp add: waiting_def t(5) pres_def)
  qed
  have "worker_ok i u s2" if u: "get_td i s2 = Inr u" for i u
  proof -
    from td [OF u] obtain k where "k < n" "u = started_worker (be_threads be (of_nat k))" by blast
    with t(8) show ?thesis
      by (simp add: worker_ok_def tables_ok_def served_def started_worker_def new_ThreadData_def)
  qed
  moreover have "well_typed s2"
    using td by (fastforce simp: well_typed_def cn started_worker_def new_ThreadData_def created_def new_Connection_def)
  moreover have "conns_map_ok s2" using l(1) by (simp add: conns_map_ok_def t(4) cn created_def)
  moreover have "conn_ok p c s2" if "conns s2 p = Some c" for p c
    using that l(2) by (auto simp: conn_ok_def cn created_def new_Connection_def split: if_splits)
  ultimately have "net_ok n s2"
    using t(1,5-7) assms(2-4) w by (simp add: net_ok_def blank_def)
  moreover have "listening ?l s2" by (simp add: listening_def w cn created_def new_Connection_def)
  ultimately show ?thesis by (simp add: system_ok_def sy pending_io_def flip: s2_def)
qed

section \<open>Every reachable state\<close>

theorem reachable_ok: "reachable ops n sy \<Longrightarrow> system_ok n sy"
proof (induction rule: reachable.induct)
  case (reachable_boot s be sy)
  then show ?case by (intro boot_ok)
next
  case (reachable_step sy a sy')
  from exec_ok [OF reachable_step.IH reachable_step.hyps(2)] reachable_step.hyps(3) show ?case
    by (simp add: step_ok_def)
qed

end
