(* ===== verification/GF_Fifo.thy ===== *)
theory GF_Fifo
  imports GF_Prelude
begin

text \<open>
  Runs of labelled systems, and three contracts such a system can meet: it keeps an invariant,
  it implements an abstract labelled system, and it moves the items of its queues first in, first
  out. The threads of the network (\<open>GF_Refine\<close>, \<open>GF_Inbox\<close>) are shown to meet them, once for the
  bytes that leave on a connection and once for the messages that arrive.
\<close>

section \<open>Runs\<close>

text \<open>A run, with the state before every step.\<close>

inductive trace :: "('a \<Rightarrow> 's \<Rightarrow> 's \<Rightarrow> bool) \<Rightarrow> 's \<Rightarrow> ('a \<times> 's) list \<Rightarrow> 's \<Rightarrow> bool" for step where
  trace_done: "trace step s [] s"
| trace_more: "step a s s1 \<Longrightarrow> trace step s1 tr s' \<Longrightarrow> trace step s ((a, s) # tr) s'"

inductive_simps trace_Nil [simp]: "trace step s [] s'"
inductive_cases trace_ConsE: "trace step s (x # tr) s'"

lemma trace_append: "trace step s tr s1 \<Longrightarrow> trace step s1 tr' s' \<Longrightarrow> trace step s (tr @ tr') s'"
  by (induction rule: trace.induct) (auto intro: trace.trace_more)

text \<open>The state a run is in after the first of its steps.\<close>

lemma trace_next:
  assumes "trace step s1 tr s'" and "\<forall>x \<in> set tr. P (snd x)" and "P s'"
  shows "P s1"
  using assms(1) by (cases rule: trace.cases) (use assms(2,3) in auto)

text \<open>A run of which only the labels are seen.\<close>

inductive lrun :: "('l \<Rightarrow> 't \<Rightarrow> 't \<Rightarrow> bool) \<Rightarrow> 'l list \<Rightarrow> 't \<Rightarrow> 't \<Rightarrow> bool" for step where
  lrun_nil: "lrun step [] c c"
| lrun_cons: "step l c c1 \<Longrightarrow> lrun step ls c1 c' \<Longrightarrow> lrun step (l # ls) c c'"

inductive_simps lrun_Nil [simp]: "lrun step [] c c'"

text \<open>What the steps of a run do together.\<close>

abbreviation along :: "('a \<Rightarrow> 's \<Rightarrow> 'p \<Rightarrow> 'c list) \<Rightarrow> ('a \<times> 's) list \<Rightarrow> 'p \<Rightarrow> 'c list" where
  "along f tr p \<equiv> concat (map (\<lambda>(a, s). f a s p) tr)"

section \<open>The contracts\<close>

locale labelled_system =
  fixes step :: "'a \<Rightarrow> 's \<Rightarrow> 's \<Rightarrow> bool" and ok :: "'s \<Rightarrow> bool"
  assumes ok_step: "ok s \<Longrightarrow> step a s s' \<Longrightarrow> ok s'"
begin

lemma trace_ok: "trace step s tr s' \<Longrightarrow> ok s \<Longrightarrow> ok s'"
  by (induction rule: trace.induct) (auto intro: ok_step)

lemma trace_all_ok: "trace step s tr s' \<Longrightarrow> ok s \<Longrightarrow> x \<in> set tr \<Longrightarrow> ok (snd x)"
  by (induction rule: trace.induct) (auto intro: ok_step)

end

text \<open>Every step is one of an abstract system, under a label it is related to.\<close>

locale simulation_system = labelled_system step ok
  for step :: "'a \<Rightarrow> 's \<Rightarrow> 's \<Rightarrow> bool" and ok +
  fixes astep :: "'l \<Rightarrow> 't \<Rightarrow> 't \<Rightarrow> bool" and abs :: "'s \<Rightarrow> 't" and seen :: "'a \<times> 's \<Rightarrow> 'l \<Rightarrow> bool"
  assumes simulates_step: "ok s \<Longrightarrow> step a s s' \<Longrightarrow> \<exists>l. astep l (abs s) (abs s') \<and> seen (a, s) l"
begin

lemma trace_refines: "trace step s tr s' \<Longrightarrow> ok s \<Longrightarrow> \<exists>ls. lrun astep ls (abs s) (abs s') \<and> list_all2 seen tr ls"
proof (induction rule: trace.induct)
  case (trace_more a s s1 tr s')
  from simulates_step [OF trace_more.prems trace_more.hyps(1)] obtain l where
    "astep l (abs s) (abs s1)" "seen (a, s) l" by blast
  moreover from trace_more.IH [OF ok_step [OF trace_more.prems trace_more.hyps(1)]] obtain ls where
    "lrun astep ls (abs s1) (abs s')" "list_all2 seen tr ls" by blast
  ultimately show ?case by (intro exI [of _ "l # ls"]) (auto intro: lrun.lrun_cons)
qed (intro exI [of _ "[]"], simp)

end

text \<open>A step takes the items \<open>outs\<close> from the front of a queue and puts the items \<open>ins\<close> at its end. A
  queue may be closed (\<open>None\<close>), and the law is about those open before and after.\<close>

locale fifo_system = labelled_system step ok
  for step :: "'a \<Rightarrow> 's \<Rightarrow> 's \<Rightarrow> bool" and ok +
  fixes queue :: "'s \<Rightarrow> 'p \<Rightarrow> 'c list option" and ins outs :: "'a \<Rightarrow> 's \<Rightarrow> 'p \<Rightarrow> 'c list"
  assumes moves: "ok s \<Longrightarrow> step a s s' \<Longrightarrow> queue s p = Some q \<Longrightarrow> queue s' p = Some q' \<Longrightarrow>
    q @ ins a s p = outs a s p @ q'"
begin

lemma trace_fifo:
  "trace step s tr s' \<Longrightarrow> ok s \<Longrightarrow> \<forall>x \<in> set tr. queue (snd x) p \<noteq> None \<Longrightarrow> queue s p = Some q \<Longrightarrow>
     queue s' p = Some q' \<Longrightarrow>
     q @ along ins tr p = along outs tr p @ q'"
proof (induction arbitrary: q rule: trace.induct)
  case (trace_more a s s1 tr s')
  have "queue s1 p \<noteq> None"
    by (rule trace_next [OF trace_more.hyps(2)]) (use trace_more.prems(2,4) in auto)
  then obtain q1 where q1: "queue s1 p = Some q1" by blast
  from moves [OF trace_more.prems(1) trace_more.hyps(1) trace_more.prems(3) q1]
  have one: "q @ ins a s p = outs a s p @ q1" .
  from trace_more.IH [OF ok_step [OF trace_more.prems(1) trace_more.hyps(1)] _ q1 trace_more.prems(4)] trace_more.prems(2)
  have "q1 @ along ins tr p = along outs tr p @ q'" by simp
  with arg_cong [OF one, of "\<lambda>b. b @ along ins tr p"] show ?case by simp
qed simp

text \<open>A queue that starts and ends empty gave what it took.\<close>

lemma trace_drained:
  assumes "trace step s tr s'" and "ok s" and "\<forall>x \<in> set tr. queue (snd x) p \<noteq> None"
    and "queue s p = Some []" and "queue s' p = Some []"
  shows "along outs tr p = along ins tr p"
  using trace_fifo [OF assms] by simp

end

end
