(* ===== verification/GF_Channel.thy ===== *)
theory GF_Channel
  imports GF_SystemInv GF_Fifo
begin

text \<open>
  What \<open>go_net.cpp\<close> promises its callers: a connection is a channel of bytes. The abstract
  channels know nothing of workers, queues, buffers or pipes: a channel is opened empty, takes
  the frame of a message at its end, gives bytes from its front to the socket, and is shut.
  Every step of the threads together is a step of the channels (\<open>exec_channel_step\<close>), with the
  message \<open>net_send\<close> was given and the bytes the socket took on its label. So what is written
  to the socket of a connection, over any run and any interleaving, is what was sent on it.
\<close>

section \<open>Channels\<close>

type_synonym channels = "ptr \<Rightarrow> byte list option"

datatype chan_label =
    Put ptr "byte list"
  | Emit ptr "byte list"
  | Open ptr
  | Shut ptr
  | Quiet

inductive chan_step :: "chan_label \<Rightarrow> channels \<Rightarrow> channels \<Rightarrow> bool" where
  put: "c p = Some q \<Longrightarrow> chan_step (Put p bs) c (c(p \<mapsto> q @ bs))"
| emit: "c p = Some (bs @ q) \<Longrightarrow> chan_step (Emit p bs) c (c(p \<mapsto> q))"
| open_: "c p = None \<Longrightarrow> chan_step (Open p) c (c(p \<mapsto> []))"
| shut: "chan_step (Shut p) c (c(p := None))"
| quiet: "chan_step Quiet c c"

inductive_cases put_stepE: "chan_step (Put p bs) c c'"
inductive_cases emit_stepE: "chan_step (Emit p bs) c c'"
inductive_cases open_stepE: "chan_step (Open p) c c'"
inductive_cases shut_stepE: "chan_step (Shut p) c c'"
inductive_cases quiet_stepE: "chan_step Quiet c c'"

lemmas chan_stepEs = put_stepE emit_stepE open_stepE shut_stepE quiet_stepE

abbreviation chan_run :: "chan_label list \<Rightarrow> channels \<Rightarrow> channels \<Rightarrow> bool" where
  "chan_run \<equiv> lrun chan_step"

fun put_on :: "ptr \<Rightarrow> chan_label \<Rightarrow> byte list" where
  "put_on p (Put q bs) = (if q = p then bs else [])"
| "put_on p _ = []"

fun emitted_on :: "ptr \<Rightarrow> chan_label \<Rightarrow> byte list" where
  "emitted_on p (Emit q bs) = (if q = p then bs else [])"
| "emitted_on p _ = []"

fun ends :: "ptr \<Rightarrow> chan_label \<Rightarrow> bool" where
  "ends p (Open q) = (q = p)"
| "ends p (Shut q) = (q = p)"
| "ends p _ = False"

text \<open>First in, first out.\<close>

lemma chan_step_fifo:
  assumes "chan_step l c c'" and "c p = Some q" and "\<not> ends p l"
  shows "\<exists>q'. c' p = Some q' \<and> q @ put_on p l = emitted_on p l @ q'"
  using assms by (cases rule: chan_step.cases) auto

lemma chan_run_fifo:
  "chan_run ls c c' \<Longrightarrow> c p = Some q \<Longrightarrow> (\<And>l. l \<in> set ls \<Longrightarrow> \<not> ends p l) \<Longrightarrow>
     \<exists>q'. c' p = Some q' \<and> q @ concat (map (put_on p) ls) = concat (map (emitted_on p) ls) @ q'"
proof (induction arbitrary: q rule: lrun.induct)
  case (lrun_cons l c c1 ls c')
  from chan_step_fifo [OF lrun_cons.hyps(1) lrun_cons.prems(1)] lrun_cons.prems(2) [of l] obtain q1 where
    q1: "c1 p = Some q1" "q @ put_on p l = emitted_on p l @ q1" by auto
  from lrun_cons.IH [OF q1(1)] lrun_cons.prems(2) obtain q' where
    q': "c' p = Some q'" "q1 @ concat (map (put_on p) ls) = concat (map (emitted_on p) ls) @ q'" by auto
  have "q @ concat (map (put_on p) (l # ls)) = emitted_on p l @ q1 @ concat (map (put_on p) ls)"
    using arg_cong [OF q1(2), of "\<lambda>b. b @ concat (map (put_on p) ls)"] by simp
  also have "\<dots> = concat (map (emitted_on p) (l # ls)) @ q'" by (simp add: q'(2))
  finally show ?case using q'(1) by blast
qed simp

section \<open>The channels of a state\<close>

text \<open>What is still to be written on an open connection of a worker: its write buffer, its queue,
  and what the queue of the worker holds for it.\<close>

definition addressed :: "u64 \<Rightarrow> ptr \<Rightarrow> 'b net_state \<Rightarrow> MsgNode list" where
  "addressed i p s = (case get_td i s of Inl f \<Rightarrow> [] | Inr t \<Rightarrow> filter (\<lambda>n. msg_conn n = p) (td_write_msgs t))"

definition channel :: "('b \<Rightarrow> byte list) \<Rightarrow> 'b net_state \<Rightarrow> channels" where
  "channel bytes s p =
     (case conns s p of
        None \<Rightarrow> None
      | Some c \<Rightarrow> (case td c of
          None \<Rightarrow> None
        | Some i \<Rightarrow> if state c = CS_CLOSE then None
                   else Some (unsent bytes c @ concat (map frame_bytes (addressed i p s)))))"

text \<open>An open connection is in the table of its worker, one without a worker has nothing to write,
  and a worker that has distributed its messages holds only messages for its own connections.\<close>

definition homed :: "'b net_state \<Rightarrow> bool" where
  "homed s \<longleftrightarrow>
     (\<forall>p c i. conns s p = Some c \<longrightarrow> td c = Some i \<longrightarrow> state c \<noteq> CS_CLOSE \<longrightarrow>
        (\<exists>t. get_td i s = Inr t \<and> p \<in> set (served t))) \<and>
     (\<forall>p c. conns s p = Some c \<longrightarrow> td c = None \<longrightarrow> conn_write_msgs c = [])"

definition none_stale :: "u64 \<Rightarrow> 'b net_state \<Rightarrow> bool" where
  "none_stale i s \<longleftrightarrow> (\<forall>t. get_td i s = Inr t \<longrightarrow> (\<forall>n \<in> set (td_write_msgs t). owned i (msg_conn n) s))"

definition channels_ok :: "'b system \<Rightarrow> bool" where
  "channels_ok sy \<longleftrightarrow> homed (network sy) \<and> (\<forall>i. at sy i \<noteq> At_distribute \<longrightarrow> none_stale i (network sy))"

section \<open>Steps on one connection\<close>

text \<open>A run that touches one connection only.\<close>

definition within :: "ptr \<Rightarrow> 'b net_state \<Rightarrow> 'b net_state res \<Rightarrow> bool" where
  "within p s r \<longleftrightarrow> (\<forall>u. r = Inr u \<longrightarrow> touches p s u)"

lemma within_Inl: "within p s (Inl f)"
  by (simp add: within_def)

lemma within_Inr: "touches p s u \<Longrightarrow> within p s (Inr u)"
  by (simp add: within_def)

lemma within_upd: "touches p s s1 \<Longrightarrow> within p s (upd_conn p f s1)"
  by (auto simp: within_def upd_conn_Inr touches_def)

lemma within_close: "touches p s s1 \<Longrightarrow> within p s (conn_close now p s1)"
  by (simp add: conn_close_def conn_set_state_def within_upd)

lemma within_bind: "within p s r \<Longrightarrow> (\<And>s'. touches p s s' \<Longrightarrow> within p s (k s')) \<Longrightarrow> within p s (bind_res r k)"
  by (auto simp: within_def)

lemma within_update_event:
  assumes "touches p s s1" and "\<And>ok s'. touches p s s' \<Longrightarrow> within p s (k ok s')"
  shows "within p s (bind_res (update_event d a p evt s1) (\<lambda>(ok, s'). k ok s'))"
proof -
  have "touches p s u" if "update_event d a p evt s1 = Inr (ok, u)" for ok u
    using that assms(1) by (auto simp: update_event_def touches_def Let_def split: if_splits)
  with assms(2) show ?thesis by (auto simp: within_def)
qed

lemma within_value:
  "(\<And>c. within p s (k c)) \<Longrightarrow> within p s (bind_res (get_conn q s1) k)"
  "(\<And>st. within p s (k' st)) \<Longrightarrow> within p s (bind_res (conn_get_state q s1) k')"
  "(\<And>c. within p s (k c)) \<Longrightarrow> within p s (bind_res (receive ops procs raw q d c0) k)"
  "(\<And>b ds. within p s (h b ds)) \<Longrightarrow>
     within p s (bind_res (fill_write_buffer ops procs ns wb ds0) (\<lambda>(b, ds). h b ds))"
  by (auto simp: within_def)

lemma within_split:
  "(b \<Longrightarrow> within p s x) \<Longrightarrow> (\<not> b \<Longrightarrow> within p s y) \<Longrightarrow> within p s (if b then x else y)"
  "(\<And>d. within p s (f1 d)) \<Longrightarrow> within p s f2 \<Longrightarrow> (\<And>a. within p s (f3 a)) \<Longrightarrow>
     within p s (case rr of Read_data d \<Rightarrow> f1 d | Read_eof \<Rightarrow> f2 | Read_error a \<Rightarrow> f3 a)"
  "(\<And>m. within p s (g1 m)) \<Longrightarrow> (\<And>a. within p s (g2 a)) \<Longrightarrow>
     within p s (case wr of Wrote m \<Rightarrow> g1 m | Write_error a \<Rightarrow> g2 a)"
  "within p s z \<Longrightarrow> (\<And>wb. within p s (g3 wb)) \<Longrightarrow> within p s (case ob of None \<Rightarrow> z | Some wb \<Rightarrow> g3 wb)"
  by (simp_all split: read_result.split write_result.split option.split)

lemmas within_intros = within_Inl within_Inr within_upd within_close within_update_event within_value
  within_split touches_refl touches_put_on

lemma within_on_read: "touches p s s1 \<Longrightarrow> within p s (on_read ops env p s1)"
  unfolding on_read_def by (intro within_intros within_bind; assumption)

lemma within_on_write: "touches p s s1 \<Longrightarrow> within p s (on_write ops env p s1)"
  unfolding on_write_def Let_def by (intro within_intros within_bind; simp add: touches_def)

lemma within_touches: "within p s r \<Longrightarrow> r = Inr u \<Longrightarrow> touches p s u"
  by (simp add: within_def)

lemma process_event_open:
  assumes "get_conn p s = Inr c" and "state c \<noteq> CS_LISTEN"
  shows "process_event ops env p evt s =
    (if evt AND EV_READ = EV_READ then on_read ops env p s
     else if evt AND EV_WRITE = EV_WRITE then on_write ops env p s else Inr s)"
proof -
  have "p \<noteq> NULLP" using assms(1) by (simp add: get_conn_Inr)
  with assms show ?thesis by (simp add: process_event_def conn_get_state_def)
qed

text \<open>What one step of a worker writes to the socket of the connection it handles.\<close>

definition io_output ::
    "'b evbuffer_ops \<Rightarrow> (ptr \<Rightarrow> io_env \<times> io_env) \<Rightarrow> u64 \<times> ptr \<Rightarrow> 'b net_state \<Rightarrow> byte list" where
  "io_output ops envs kp s =
     (let p = snd kp
      in case get_conn p s of
           Inl f \<Rightarrow> []
         | Inr c \<Rightarrow>
             if state c = CS_CLOSE then []
             else (case (if can_read c then process_event ops (fst (envs p)) p EV_READ s else Inr s) of
                 Inl f \<Rightarrow> []
               | Inr s1 \<Rightarrow>
                   (case get_conn p s1 of
                      Inl f \<Rightarrow> []
                    | Inr c1 \<Rightarrow> if can_write c1 then on_write_output ops (snd (envs p)) p s1 else [])))"

definition handler_output :: "'b evbuffer_ops \<Rightarrow> io_env \<Rightarrow> int \<Rightarrow> u32 \<Rightarrow> ptr \<Rightarrow> 'b net_state \<Rightarrow> byte list" where
  "handler_output ops env fd which p s =
     (case get_conn p s of
        Inl f \<Rightarrow> []
      | Inr c \<Rightarrow>
          if which = EV_READ \<and> fd \<noteq> sfd c \<or> which = EV_WRITE \<and> fd \<noteq> sfd_dup_for_write c then []
          else if which AND EV_READ = EV_READ then []
          else if which AND EV_WRITE = EV_WRITE then on_write_output ops env p s else [])"

text \<open>The write side of one connection: \<open>w\<close> was taken off the front of what it had to write.\<close>

definition writes :: "('b \<Rightarrow> byte list) \<Rightarrow> ptr \<Rightarrow> byte list \<Rightarrow> 'b net_state \<Rightarrow> 'b net_state \<Rightarrow> bool" where
  "writes bytes p w s u \<longleftrightarrow> evolves s u \<and> touches p s u \<and>
     (\<forall>c c'. conns s p = Some c \<longrightarrow> conns u p = Some c' \<longrightarrow> w @ unsent bytes c' = unsent bytes c) \<and>
     (is_closed s p \<longrightarrow> w = []) \<and> (is_closed u p \<longrightarrow> w = [])"

lemma is_closed_evolves: "evolves s u \<Longrightarrow> is_closed s p \<Longrightarrow> is_closed u p"
  using evolves_conns [of s u p] by (fastforce simp: is_closed_def conn_evolves_def)

lemma writes_refl [simp]: "writes bytes p [] s s"
  by (simp add: writes_def)

lemma writes_trans:
  assumes "writes bytes p [] a b" and "writes bytes p w b c"
  shows "writes bytes p w a c"
proof -
  have e: "evolves a b" "evolves b c" using assms by (simp_all add: writes_def)
  have u: "w @ unsent bytes z = unsent bytes x" if x: "conns a p = Some x" and z: "conns c p = Some z" for x z
  proof -
    from evolves_conns [OF e(1) x] obtain y where "conns b p = Some y" by blast
    with x z assms show ?thesis by (simp add: writes_def)
  qed
  have cl: "is_closed a p \<Longrightarrow> w = []" "is_closed c p \<Longrightarrow> w = []"
    using is_closed_evolves [OF e(1)] assms(2) by (auto simp: writes_def)
  have t: "touches p a c" using assms touches_trans by (fastforce simp: writes_def)
  show ?thesis unfolding writes_def
    by (intro conjI allI impI evolves_trans [OF e] t) (simp_all add: u cl)
qed

text \<open>Reading, closing and re-arming leave the write side alone.\<close>

definition keeps_out :: "'b connection \<Rightarrow> ptr \<Rightarrow> 'b net_state \<Rightarrow> bool" where
  "keeps_out c p u \<longleftrightarrow> (\<exists>c'. get_conn p u = Inr c' \<and> write_buffer c' = write_buffer c \<and>
     conn_write_msgs c' = conn_write_msgs c)"

lemma keeps_out_close: "conn_close now p s = Inr u \<Longrightarrow> keeps_out c p s \<Longrightarrow> keeps_out c p u"
  unfolding keeps_out_def using conn_close_keeps by fastforce

lemma keeps_out_update_event: "update_event d a p evt s = Inr (ok, u) \<Longrightarrow> keeps_out c p s \<Longrightarrow> keeps_out c p u"
  unfolding keeps_out_def using update_event_keeps by fastforce

lemma keeps_out_flag: "upd_conn p (\<lambda>c. c\<lparr> can_read := x \<rparr>) s = Inr u \<Longrightarrow> keeps_out c p s \<Longrightarrow> keeps_out c p u"
  by (auto simp: keeps_out_def upd_conn_Inr get_conn_Inr)

lemmas keeps_out_steps = keeps_out_close keeps_out_update_event keeps_out_flag

lemma on_read_keeps_out:
  assumes "on_read ops env p s = Inr u" and "get_conn p s = Inr c"
  shows "keeps_out c p u"
proof (cases "state c = CS_CLOSE")
  case True
  with assms show ?thesis by (auto simp: on_read_def conn_get_state_def keeps_out_def split: if_split_asm)
next
  case False
  have p: "p \<noteq> NULLP" and k: "keeps_out c p s" using assms(2) by (simp_all add: keeps_out_def get_conn_Inr)
  note open_ = assms(1) [unfolded on_read_open [OF assms(2) False]]
  show ?thesis
  proof (cases "io_read env")
    case Read_eof
    with open_ k show ?thesis by (auto intro: keeps_out_steps)
  next
    case (Read_error again)
    with open_ obtain s1 where s1: "upd_conn p (\<lambda>c. c\<lparr> can_read := False \<rparr>) s = Inr s1"
      and r: "(if \<not> again then bind_res (conn_close (io_now env) p s1) (upd_conn p (\<lambda>c. c\<lparr> can_read := False \<rparr>))
        else bind_res (update_event (io_del env) (io_add env) p EV_READ s1) (\<lambda>(ok, s2).
          if \<not> ok then bind_res (conn_close (io_now env) p s2) (upd_conn p (\<lambda>c. c\<lparr> can_read := False \<rparr>))
          else Inr s2)) = Inr u" by auto
    have "keeps_out c p s1" by (rule keeps_out_flag [OF s1 k])
    with r show ?thesis by (auto split: if_split_asm) (blast intro: keeps_out_steps)+
  next
    case (Read_data d)
    with open_ obtain c' where c': "receive ops (s_msg_processers s) (io_raw env) p d c = Inr c'"
      "upd_conn p (\<lambda>c. c\<lparr> can_read := True \<rparr>) (put_conn p c' s) = Inr u" by auto
    have "write_buffer c' = write_buffer c \<and> conn_write_msgs c' = conn_write_msgs c"
      using c'(1) by (auto simp: receive_def message_format_def split: option.splits if_splits)
    then have "keeps_out c p (put_conn p c' s)" using p by (simp add: keeps_out_def)
    with c'(2) show ?thesis by (rule keeps_out_flag)
  qed
qed

lemma keeps_out_writes:
  assumes "keeps_out c p u" and "get_conn p s = Inr c" and "evolves s u" and "touches p s u"
  shows "writes bytes p [] s u"
  using assms by (auto simp: keeps_out_def writes_def unsent_def get_conn_Inr)

lemma on_read_writes:
  assumes "on_read ops env p s = Inr u" and "get_conn p s = Inr c" and "usable (s_msg_processers s) c"
  shows "writes bytes p [] s u"
proof (rule keeps_out_writes [OF on_read_keeps_out [OF assms(1,2)] assms(2)])
  show "evolves s u" using on_read_total [OF assms(2,3), of ops env] assms(1) by (auto simp: runs_def)
  show "touches p s u" by (rule within_touches [OF within_on_read [OF touches_refl] assms(1)])
qed

lemma conn_close_writes:
  assumes "conn_close now p s = Inr u" and "get_conn p s = Inr c"
  shows "writes bytes p [] s u"
proof (rule keeps_out_writes [OF keeps_out_close [OF assms(1)] assms(2)])
  show "keeps_out c p s" using assms(2) by (simp add: keeps_out_def)
  show "evolves s u" using runs_close [OF assms(2), of now] assms(1) by (simp add: runs_def)
  show "touches p s u" by (rule within_touches [OF within_close [OF touches_refl] assms(1)])
qed

lemma on_write_output_closed: "is_closed s p \<Longrightarrow> on_write_output ops env p s = []"
  by (auto simp: on_write_output_def is_closed_def get_conn_def)

text \<open>A write after which the connection is closed wrote nothing.\<close>

lemma on_write_closes:
  assumes "on_write ops env p s = Inr u" and "get_conn p s = Inr c" and "is_closed u p"
  shows "on_write_output ops env p s = []"
proof (cases "state c = CS_CLOSE")
  case True
  with assms(2) show ?thesis by (simp add: on_write_output_def)
next
  case False
  show ?thesis
  proof (rule ccontr)
    assume "on_write_output ops env p s \<noteq> []"
    then obtain wb wb' ds m where w: "write_buffer c = Some wb"
      "fill_write_buffer ops (s_msg_processers s) (conn_write_msgs c) wb [] = Inr (wb', ds)"
      "evb_get_length ops wb' \<noteq> 0" "io_write env = Wrote m"
      using assms(2) False
      by (auto simp: on_write_output_def split: option.split_asm sum.split_asm prod.split_asm if_split_asm
          write_result.split_asm)
    have "p \<noteq> NULLP" using assms(2) by (simp add: get_conn_Inr)
    with assms(1,2) False w have "conns u p = Some (c\<lparr> conn_write_msgs := [], can_write := True,
        write_buffer := Some (evb_drain ops wb' m) \<rparr>)"
      by (auto simp: on_write_def conn_get_state_def Let_def upd_conn_Inr)
    with assms(3) False show False by (simp add: is_closed_def)
  qed
qed

lemma on_write_writes:
  assumes "evbuffer_laws ops bytes" and "on_write ops env p s = Inr u" and "get_conn p s = Inr c"
    and "usable (s_msg_processers s) c"
  shows "writes bytes p (on_write_output ops env p s) s u"
proof -
  have e: "evolves s u" using on_write_total [OF assms(3,4), of ops env] assms(2) by (simp add: runs_def)
  have t: "touches p s u" by (rule within_touches [OF within_on_write [OF touches_refl] assms(2)])
  have typed: "node_ok (s_msg_processers s) n" if "n \<in> set (conn_write_msgs c)" for n
    using assms(4) that by (simp add: usable_def typed_in_def)
  have b: "on_write_output ops env p s @ unsent bytes c' = unsent bytes c" if "conns u p = Some c'" for c'
  proof (cases "write_buffer c = None")
    case False
    from on_write_bytes [OF assms(1,3) False typed assms(2)] that show ?thesis by (auto simp: get_conn_Inr)
  next
    case True
    with assms(4) have "state c = CS_CLOSE" by (auto simp: usable_def)
    with assms(2,3) have "u = s" and "on_write_output ops env p s = []"
      by (auto simp: on_write_def conn_get_state_def on_write_output_def split: if_split_asm)
    with assms(3) that show ?thesis by (simp add: get_conn_Inr)
  qed
  show ?thesis
    using e t b assms(3) on_write_output_closed on_write_closes [OF assms(2,3)]
    by (auto simp: writes_def get_conn_Inr)
qed

lemma process_event_writes:
  assumes "evbuffer_laws ops bytes" and "process_event ops env p evt s = Inr u" and "get_conn p s = Inr c"
    and "usable (s_msg_processers s) c" and "state c \<noteq> CS_LISTEN"
  shows "writes bytes p (if evt AND EV_READ = EV_READ then []
    else if evt AND EV_WRITE = EV_WRITE then on_write_output ops env p s else []) s u"
  using assms(2) on_read_writes [OF _ assms(3,4)] on_write_writes [OF assms(1) _ assms(3,4)]
  by (auto simp: process_event_open [OF assms(3,5)] split: if_split_asm)

lemma event_handler_writes:
  assumes "evbuffer_laws ops bytes" and "event_handler ops env fd which p s = Inr u" and "get_conn p s = Inr c"
    and "usable (s_msg_processers s) c" and "state c \<noteq> CS_LISTEN"
  shows "writes bytes p (handler_output ops env fd which p s) s u"
proof -
  have p: "p \<noteq> NULLP" using assms(3) by (simp add: get_conn_Inr)
  show ?thesis
  proof (cases "which = EV_READ \<and> fd \<noteq> sfd c \<or> which = EV_WRITE \<and> fd \<noteq> sfd_dup_for_write c")
    case True
    then have "conn_close (io_now env) p s = Inr u" and "handler_output ops env fd which p s = []"
      using assms(2,3) p by (auto simp: event_handler_def handler_output_def split: if_split_asm)
    with conn_close_writes [OF _ assms(3)] show ?thesis by simp
  next
    case False
    then have "process_event ops env p which s = Inr u"
      using assms(2,3) p by (auto simp: event_handler_def split: if_split_asm)
    from process_event_writes [OF assms(1) this assms(3-5)] False assms(3) show ?thesis
      unfolding handler_output_def by (simp only: sum.case if_False)
  qed
qed

lemma io_one_writes:
  assumes "evbuffer_laws ops bytes" and "io_one ops envs (k, p) s = Inr u" and "get_conn p s = Inr c"
    and "usable (s_msg_processers s) c" and "state c \<noteq> CS_LISTEN" and "procs_ok (s_msg_processers s)" and "well_typed s"
  shows "writes bytes p (io_output ops envs (k, p) s) s u"
proof (cases "state c = CS_CLOSE")
  case True
  with assms(2,3) have "u = s" by (simp add: io_one_def conn_get_state_def)
  with True assms(3) show ?thesis by (simp add: io_output_def)
next
  case False
  let ?r1 = "if can_read c then process_event ops (fst (envs p)) p EV_READ s else Inr s"
  from assms(2,3) False obtain s1 c1 where s1: "?r1 = Inr s1" "get_conn p s1 = Inr c1"
    and r: "(if can_write c1 then process_event ops (snd (envs p)) p EV_WRITE s1 else Inr s1) = Inr u"
    by (auto simp: io_one_def conn_get_state_def)
  have w1: "writes bytes p [] s s1"
    using s1(1) process_event_writes [OF assms(1) _ assms(3-5), of "fst (envs p)" EV_READ s1]
    by (auto split: if_split_asm)
  then have "evolves s s1" by (simp add: writes_def)
  from evolves_usable [OF this assms(3,4,6,7)] s1(2) have
    c1: "usable (s_msg_processers s1) c1" "conn_evolves c c1" by auto
  then have "state c1 \<noteq> CS_LISTEN" using assms(5) by (auto simp: conn_evolves_def)
  from process_event_writes [OF assms(1) _ s1(2) c1(1) this, of "snd (envs p)" EV_WRITE u] r
  have "writes bytes p (if can_write c1 then on_write_output ops (snd (envs p)) p s1 else []) s1 u"
    by (auto split: if_split_asm)
  from writes_trans [OF w1 this] False assms(3) s1 show ?thesis
    by (simp add: io_output_def)
qed

section \<open>Steps of the channels\<close>

text \<open>What of a connection its channel depends on.\<close>

definition out_view :: "'b net_state \<Rightarrow> ptr \<Rightarrow> (u64 \<times> 'b option \<times> MsgNode list) option" where
  "out_view s p =
     (case conns s p of
        None \<Rightarrow> None
      | Some c \<Rightarrow> (case td c of
          None \<Rightarrow> None
        | Some i \<Rightarrow> if state c = CS_CLOSE then None else Some (i, write_buffer c, conn_write_msgs c)))"

lemma channel_view:
  "channel bytes s p = map_option (\<lambda>(i, wb, ms). bytes (the wb) @ concat (map frame_bytes ms) @
     concat (map frame_bytes (addressed i p s))) (out_view s p)"
  by (simp add: channel_def out_view_def unsent_def split: option.split)

lemma out_view_Some:
  "out_view s p = Some (i, wb, ms) \<longleftrightarrow> (\<exists>c. conns s p = Some c \<and> td c = Some i \<and> state c \<noteq> CS_CLOSE \<and>
     wb = write_buffer c \<and> ms = conn_write_msgs c)"
  by (auto simp: out_view_def split: option.split)

definition unowned_empty :: "'b net_state \<Rightarrow> bool" where
  "unowned_empty s \<longleftrightarrow> (\<forall>p c. conns s p = Some c \<longrightarrow> td c = None \<longrightarrow> conn_write_msgs c = [])"

lemma homed_view:
  "homed s \<longleftrightarrow> (\<forall>p i wb ms. out_view s p = Some (i, wb, ms) \<longrightarrow> (\<exists>t. get_td i s = Inr t \<and> p \<in> set (served t))) \<and>
     unowned_empty s"
  by (auto simp: homed_def out_view_Some unowned_empty_def)

lemma homedD: "homed s \<Longrightarrow> out_view s p = Some (i, wb, ms) \<Longrightarrow> \<exists>t. get_td i s = Inr t \<and> p \<in> set (served t)"
  by (auto simp: homed_view)

definition is_open :: "ptr \<Rightarrow> 'b net_state \<Rightarrow> bool" where
  "is_open p s \<longleftrightarrow> out_view s p \<noteq> None"

lemma channel_open: "is_open p s \<longleftrightarrow> channel bytes s p \<noteq> None"
  by (simp add: is_open_def channel_view)

text \<open>The simulation of one step: the label carries what was put and what was emitted.\<close>

definition simulates ::
    "('b \<Rightarrow> byte list) \<Rightarrow> (ptr \<Rightarrow> byte list) \<Rightarrow> (ptr \<Rightarrow> byte list) \<Rightarrow> 'b net_state \<Rightarrow> 'b net_state \<Rightarrow> bool" where
  "simulates bytes puts emits s u \<longleftrightarrow> homed u \<and>
     (\<exists>l. chan_step l (channel bytes s) (channel bytes u) \<and> (\<forall>q. put_on q l = puts q) \<and> (\<forall>q. emitted_on q l = emits q))"

lemma simulates_quiet:
  assumes "homed s" and "out_view u = out_view s" and "unowned_empty u"
    and "\<And>i t. get_td i s = Inr t \<Longrightarrow> \<exists>t'. get_td i u = Inr t' \<and> td_write_msgs t' = td_write_msgs t \<and>
      (\<forall>p \<in> set (served t). is_open p s \<longrightarrow> p \<in> set (served t'))"
  shows "simulates bytes (\<lambda>q. []) (\<lambda>q. []) s u"
proof -
  have "channel bytes u p = channel bytes s p" for p
  proof (cases "out_view s p")
    case None
    then show ?thesis by (simp add: channel_view assms(2))
  next
    case (Some v)
    obtain i wb ms where v: "out_view s p = Some (i, wb, ms)" using Some by (cases v) auto
    from homedD [OF assms(1) v] obtain t where t: "get_td i s = Inr t" by blast
    with assms(4) [OF t] have "addressed i p u = addressed i p s" by (auto simp: addressed_def)
    with v show ?thesis by (simp add: channel_view assms(2))
  qed
  then have "channel bytes u = channel bytes s" by (rule ext)
  then have "chan_step Quiet (channel bytes s) (channel bytes u)" by (simp add: chan_step.quiet)
  moreover have "homed u"
    unfolding homed_view
  proof (intro conjI allI impI assms(3))
    fix p i wb ms assume v: "out_view u p = Some (i, wb, ms)"
    then have "out_view s p = Some (i, wb, ms)" by (simp add: assms(2))
    from homedD [OF assms(1) this] obtain t where "get_td i s = Inr t" "p \<in> set (served t)" by blast
    with assms(2) v show "\<exists>t. get_td i u = Inr t \<and> p \<in> set (served t)"
      using assms(4) by (fastforce simp: is_open_def)
  qed
  ultimately show ?thesis by (auto simp: simulates_def intro!: exI [of _ Quiet])
qed

lemma unowned_empty_evolves: "evolves s u \<Longrightarrow> unowned_empty s \<Longrightarrow> unowned_empty u"
  using evolves_conns_back [of s u] by (fastforce simp: unowned_empty_def conn_evolves_def)

lemma simulates_writes:
  assumes "homed s" and "writes bytes p w s u" and "owned i p s"
  shows "simulates bytes (\<lambda>q. []) (\<lambda>q. if q = p then w else []) s u"
proof -
  have e: "evolves s u" and t: "touches p s u" using assms(2) by (simp_all add: writes_def)
  have td: "get_td j u = get_td j s" for j using t by (simp add: touches_def get_td_def)
  have other: "out_view u q = out_view s q" if "q \<noteq> p" for q
    using t that by (simp add: touches_def out_view_def)
  have ad: "addressed j q u = addressed j q s" for j q by (simp add: addressed_def td)
  have chan: "channel bytes u q = channel bytes s q" if "q \<noteq> p" for q
    using other [OF that] by (simp add: channel_view ad)
  from assms(3) obtain c where c: "conns s p = Some c" "td c = Some i" by (auto simp: owned_def)
  from evolves_conns [OF e c(1)] obtain c' where c': "conns u p = Some c'" "conn_evolves c c'" by blast
  have td': "td c' = Some i" using c c' by (simp add: conn_evolves_def)
  have at_p: "channel bytes s p = (if state c = CS_CLOSE then None
      else Some (unsent bytes c @ concat (map frame_bytes (addressed i p s))))"
    "channel bytes u p = (if state c' = CS_CLOSE then None
      else Some (unsent bytes c' @ concat (map frame_bytes (addressed i p s))))"
    by (simp_all add: channel_def c c' td' ad)
  have upd: "channel bytes u = (channel bytes s)(p := x)" if "channel bytes u p = x" for x
    using that chan by (simp add: fun_eq_iff)
  have "homed u"
    unfolding homed_view
  proof (intro conjI allI impI)
    show "unowned_empty u" using unowned_empty_evolves [OF e] assms(1) by (simp add: homed_view)
    fix q j wb ms assume v: "out_view u q = Some (j, wb, ms)"
    have "\<exists>wb ms. out_view s q = Some (j, wb, ms)"
    proof (cases "q = p")
      case True
      with v c c' td' show ?thesis by (auto simp: out_view_Some conn_evolves_def)
    qed (use v other in simp)
    with homedD [OF assms(1)] show "\<exists>t. get_td j u = Inr t \<and> q \<in> set (served t)" by (auto simp: td)
  qed
  moreover have "\<exists>l. chan_step l (channel bytes s) (channel bytes u) \<and> (\<forall>q. put_on q l = []) \<and>
      (\<forall>q. emitted_on q l = (if q = p then w else []))"
  proof (cases "state c = CS_CLOSE")
    case True
    then have "is_closed s p" "state c' = CS_CLOSE" using c(1) c'(2) by (auto simp: is_closed_def conn_evolves_def)
    then have "w = []" using assms(2) by (simp add: writes_def)
    moreover have "channel bytes u = channel bytes s"
      using upd [of None] at_p True \<open>state c' = CS_CLOSE\<close> by (simp add: fun_upd_idem)
    ultimately show ?thesis using chan_step.quiet by (intro exI [of _ Quiet]) simp
  next
    case open_: False
    show ?thesis
    proof (cases "state c' = CS_CLOSE")
      case True
      then have "w = []" using assms(2) c'(1) by (simp add: writes_def is_closed_def)
      moreover have "channel bytes u = (channel bytes s)(p := None)"
        by (rule upd) (simp add: at_p True)
      ultimately show ?thesis using chan_step.shut by (intro exI [of _ "Shut p"]) simp
    next
      case False
      let ?q = "unsent bytes c' @ concat (map frame_bytes (addressed i p s))"
      have "channel bytes s p = Some (w @ ?q)"
        using open_ assms(2) c(1) c'(1) by (simp add: at_p writes_def)
      moreover have "channel bytes u = (channel bytes s)(p \<mapsto> ?q)"
        by (rule upd) (simp add: at_p False)
      ultimately show ?thesis using chan_step.emit by (intro exI [of _ "Emit p w"]) auto
    qed
  qed
  ultimately show ?thesis by (simp add: simulates_def)
qed

text \<open>The steps that move messages inside the program are not seen from outside.\<close>

lemma simulates_distribute:
  assumes "net_ok n s" and "homed s" and "get_td i s = Inr t" and "distribute_writes i s = Inr u"
  shows "simulates bytes (\<lambda>q. []) (\<lambda>q. []) s u"
proof -
  note ok = net_okD [OF assms(1)]
  have wk: "worker_ok i t s" by (rule ok(8) [OF assms(3)])
  then have tb: "tables_ok t s" by (simp add: worker_ok_def)
  from distribute_writes_result [OF assms(3) tb ok(4)] assms(4) have
    u: "get_td i u = Inr (t\<lparr> td_write_msgs := [] \<rparr>)" "conns u = with_writes t (td_write_msgs t) s"
      "\<forall>j. j \<noteq> i \<longrightarrow> get_td j u = get_td j s" by auto
  have own: "owned i p s" if "p \<in> set (served t)" for p using wk that by (simp add: worker_ok_def)
  have served: "conns u p = map_option (\<lambda>c. c\<lparr> conn_write_msgs := conn_write_msgs c @ addressed i p s \<rparr>) (conns s p)"
    if "p \<in> set (served t)" for p
    using that by (simp add: u(2) with_writes_def addressed_def assms(3))
  have apart: "conns u p = conns s p" if "p \<notin> set (served t)" for p using that by (simp add: u(2) with_writes_def)
  have ad: "addressed i p u = []" "j \<noteq> i \<Longrightarrow> addressed j p u = addressed j p s" for j p
    by (simp_all add: addressed_def u(1,3))
  have view: "out_view u p = (case out_view s p of None \<Rightarrow> None
      | Some (j, wb, ms) \<Rightarrow> Some (j, wb, ms @ (if j = i then addressed i p s else [])))" for p
  proof (cases "p \<in> set (served t)")
    case True
    from own [OF this] obtain c where "conns s p = Some c" "td c = Some i" by (auto simp: owned_def)
    with served [OF True] show ?thesis by (simp add: out_view_def)
  next
    case False
    have "j \<noteq> i" if v: "out_view s p = Some (j, wb, ms)" for j wb ms
      using homedD [OF assms(2) v] False assms(3) by auto
    with apart [OF False] show ?thesis by (auto simp: out_view_def split: option.split)
  qed
  have "channel bytes u p = channel bytes s p" for p
    by (cases "out_view s p") (auto simp: channel_view view ad)
  then have "channel bytes u = channel bytes s" by (rule ext)
  then have "chan_step Quiet (channel bytes s) (channel bytes u)" by (simp add: chan_step.quiet)
  moreover have "homed u"
    unfolding homed_view
  proof (intro conjI allI impI)
    show "unowned_empty u"
      unfolding unowned_empty_def
    proof (intro allI impI)
      fix p c assume c: "conns u p = Some c" "td c = None"
      show "conn_write_msgs c = []"
      proof (cases "p \<in> set (served t)")
        case True
        with own [OF True] served [OF True] c show ?thesis by (auto simp: owned_def)
      next
        case False
        with apart [OF False] c assms(2) show ?thesis by (simp add: homed_view unowned_empty_def)
      qed
    qed
    fix p j wb ms assume "out_view u p = Some (j, wb, ms)"
    then obtain ms' where "out_view s p = Some (j, wb, ms')" by (auto simp: view split: option.split_asm)
    from homedD [OF assms(2) this] obtain t' where "get_td j s = Inr t'" "p \<in> set (served t')" by blast
    with u(1,3) assms(3) show "\<exists>t. get_td j u = Inr t \<and> p \<in> set (served t)"
      by (cases "j = i") (auto simp: served_def)
  qed
  ultimately show ?thesis by (auto simp: simulates_def intro!: exI [of _ Quiet])
qed

lemma simulates_collect:
  assumes "net_ok n s" and "homed s" and "get_td i s = Inr t" and "collect_reads i s = Inr u"
  shows "simulates bytes (\<lambda>q. []) (\<lambda>q. []) s u"
proof -
  have tb: "tables_ok t s" using net_okD(8) [OF assms(1,3)] by (simp add: worker_ok_def)
  have r: "runs s u'" if "u' = collect_reads i s" for u'
    using collect_reads_runs [OF assms(3) tb net_okD(13) [OF assms(1)]] that by simp
  then have e: "evolves s u" using assms(4) by (simp add: runs_def)
  from collect_reads_result [OF assms(3) tb] assms(4) have
    u: "get_td i u = Inr (t\<lparr> td_read_msgs := td_read_msgs t @ concat (map (read_queue s) (served t)) \<rparr>)"
      "conns u = without_reads (set (served t)) s" "\<forall>j. j \<noteq> i \<longrightarrow> get_td j u = get_td j s" by auto
  show ?thesis
  proof (rule simulates_quiet [OF assms(2)])
    show "out_view u = out_view s"
      by (rule ext) (simp add: out_view_def u(2) without_reads_def split: option.split)
    show "unowned_empty u" using unowned_empty_evolves [OF e] assms(2) by (simp add: homed_view)
    fix j t' assume "get_td j s = Inr t'"
    then show "\<exists>t2. get_td j u = Inr t2 \<and> td_write_msgs t2 = td_write_msgs t' \<and>
        (\<forall>p \<in> set (served t'). is_open p s \<longrightarrow> p \<in> set (served t2))"
      using u(1,3) assms(3) by (cases "j = i") (auto simp: served_def)
  qed
qed

lemma simulates_hands:
  assumes "homed s" and "hands s u"
  shows "simulates bytes (\<lambda>q. []) (\<lambda>q. []) s u"
proof (rule simulates_quiet [OF assms(1)])
  show "out_view u = out_view s" using assms(2) by (simp add: hands_def out_view_def fun_eq_iff)
  show "unowned_empty u" using assms by (simp add: homed_view unowned_empty_def hands_def)
  fix i t assume "get_td i s = Inr t"
  with assms(2) obtain t' where "get_td i u = Inr t'" "thread_connections t' = thread_connections t"
    "td_write_msgs t' = td_write_msgs t" unfolding hands_def by blast
  then show "\<exists>t'. get_td i u = Inr t' \<and> td_write_msgs t' = td_write_msgs t \<and>
      (\<forall>p \<in> set (served t). is_open p s \<longrightarrow> p \<in> set (served t'))" by (auto simp: served_def)
qed

lemma simulates_phase:
  assumes "net_ok n s" and "homed s" and "phase_done n i s u" and "get_td i s = Inr t"
  shows "simulates bytes (\<lambda>q. []) (\<lambda>q. []) s u"
proof (rule simulates_quiet [OF assms(2)])
  have same: "td c = None \<or> state c \<noteq> CS_CLOSE \<Longrightarrow> conns u p = Some c \<longleftrightarrow> conns s p = Some c" for p c
    using assms(3) unfolding phase_done_def by blast
  show "out_view u = out_view s"
  proof
    fix p
    have "state c \<noteq> CS_CLOSE \<Longrightarrow> conns u p = Some c \<longleftrightarrow> conns s p = Some c" for c by (rule same) simp
    then have "out_view u p = Some (j, wb, ms) \<longleftrightarrow> out_view s p = Some (j, wb, ms)" for j wb ms
      unfolding out_view_Some by blast
    then have "out_view u p = Some v \<longleftrightarrow> out_view s p = Some v" for v by (cases v) auto
    then show "out_view u p = out_view s p" by (metis option.exhaust)
  qed
  show "unowned_empty u" using assms(2) same by (auto simp: homed_view unowned_empty_def)
  fix j t1 assume t1: "get_td j s = Inr t1"
  show "\<exists>t'. get_td j u = Inr t' \<and> td_write_msgs t' = td_write_msgs t1 \<and>
      (\<forall>p \<in> set (served t1). is_open p s \<longrightarrow> p \<in> set (served t'))"
  proof (cases "j = i")
    case True
    have nu: "net_ok n u" using assms(3) by (simp add: phase_done_def)
    from worker_index [OF net_okD(2) [OF assms(1)] assms(4)] obtain k where "k < n" "i = of_nat k" .
    then obtain t' where t': "get_td i u = Inr t'" using net_okD(2) [OF nu] by (auto simp: workers_def)
    have "\<not> is_closed s p" if "is_open p s" for p
      using that by (auto simp: is_open_def out_view_def is_closed_def split: option.split_asm if_split_asm)
    with assms(3) t1 t' True show ?thesis by (auto simp: phase_done_def)
  next
    case False
    with assms(3) t1 show ?thesis by (simp add: phase_done_def)
  qed
qed

lemma simulates_get:
  assumes "net_ok n s" and "homed s" and "get_net_msgs out s = Inr (ms, u)"
  shows "simulates bytes (\<lambda>q. []) (\<lambda>q. []) s u"
proof -
  note ok = net_okD [OF assms(1)]
  have "s_cnt s \<noteq> 0x7FFFFFFF" using assms(3) by (auto simp: get_net_msgs_def)
  from get_net_msgs_result [OF ok(2) this, of out] assms(3) have
    u: "\<forall>i < n. \<exists>t. get_td (of_nat i) s = Inr t \<and> get_td (of_nat i) u = Inr (t\<lparr> td_read_msgs := [] \<rparr>)"
      "conns u = conns s" by auto
  show ?thesis
  proof (rule simulates_quiet [OF assms(2)])
    show "out_view u = out_view s" by (rule ext) (simp add: out_view_def u(2))
    show "unowned_empty u" using assms(2) by (simp add: homed_view unowned_empty_def u(2))
    fix i t assume t: "get_td i s = Inr t"
    from worker_index [OF ok(2) t] obtain k where "k < n" "i = of_nat k" .
    with u(1) t show "\<exists>t'. get_td i u = Inr t' \<and> td_write_msgs t' = td_write_msgs t \<and>
      (\<forall>p \<in> set (served t). is_open p s \<longrightarrow> p \<in> set (served t'))" by (fastforce simp: served_def)
  qed
qed

lemma simulates_net_connect:
  assumes "net_ok n s" and "homed s" and "fresh new s" and "u = snd (net_connect env peer new s)"
  shows "simulates bytes (\<lambda>q. []) (\<lambda>q. []) s u"
proof -
  have c: "conns u = conns s \<or> conns u = (conns s)(new := Some new_Connection)" and th: "s_threads_datas u = s_threads_datas s"
    using assms(4) by (auto simp: net_connect_def Let_def)
  have none: "conns s new = None" using assms(3) by (simp add: fresh_def)
  show ?thesis
  proof (rule simulates_quiet [OF assms(2)])
    show "out_view u = out_view s"
      using c none by (auto simp: out_view_def fun_eq_iff new_Connection_def)
    show "unowned_empty u"
      using c assms(2) by (auto simp: homed_view unowned_empty_def new_Connection_def split: if_split_asm)
    show "\<exists>t'. get_td i u = Inr t' \<and> td_write_msgs t' = td_write_msgs t \<and>
      (\<forall>p \<in> set (served t). is_open p s \<longrightarrow> p \<in> set (served t'))" if "get_td i s = Inr t" for i t
      using that by (simp add: get_td_def th)
  qed
qed

lemma simulates_send:
  assumes "net_ok n s" and "homed s" and "conns s p = Some c" and "td c = Some i" and "msg_conn m = p"
    and "net_send (Some m) s = Inr u"
  shows "simulates bytes (\<lambda>q. if q = p \<and> is_open p s then frame_bytes m else []) (\<lambda>q. []) s u"
    and "get_td i s = Inr t \<Longrightarrow> u = put_td i (t\<lparr> td_write_msgs := td_write_msgs t @ [m] \<rparr>) s"
proof -
  have ck: "conn_ok p c s" by (rule net_okD(9) [OF assms(1,3)])
  with assms(4) obtain t where t: "get_td i s = Inr t" by (auto simp: conn_ok_def is_worker_def)
  have "p \<noteq> NULLP" using ck by (auto simp: conn_ok_def)
  with assms(3,5) have g: "get_conn (msg_conn m) s = Inr c" by (simp add: get_conn_Inr)
  let ?t = "t\<lparr> td_write_msgs := td_write_msgs t @ [m] \<rparr>"
  have u: "u = put_td i ?t s" using net_send_result [OF g assms(4) t] assms(6) by simp
  then show "get_td i s = Inr t' \<Longrightarrow> u = put_td i (t'\<lparr> td_write_msgs := td_write_msgs t' @ [m] \<rparr>) s" for t'
    using t by simp
  have view: "out_view u q = out_view s q" for q by (simp add: u out_view_def)
  have ad: "addressed j q u = addressed j q s @ (if j = i \<and> q = p then [m] else [])" for j q
    using t assms(5) by (simp add: addressed_def u)
  have "homed u"
    unfolding homed_view view
  proof (intro conjI allI impI)
    show "unowned_empty u" using assms(2) by (simp add: homed_view unowned_empty_def u)
    fix q j wb ms assume "out_view s q = Some (j, wb, ms)"
    from homedD [OF assms(2) this] obtain t1 where "get_td j s = Inr t1" "q \<in> set (served t1)" by blast
    with t show "\<exists>t. get_td j u = Inr t \<and> q \<in> set (served t)"
      by (cases "j = i") (simp_all add: u served_def)
  qed
  moreover have "\<exists>l. chan_step l (channel bytes s) (channel bytes u) \<and>
      (\<forall>q. put_on q l = (if q = p \<and> is_open p s then frame_bytes m else [])) \<and> (\<forall>q. emitted_on q l = [])"
  proof (cases "is_open p s")
    case False
    then have none: "out_view s p = None" unfolding is_open_def by (rule notnotD)
    have "channel bytes u = channel bytes s"
    proof
      fix x show "channel bytes u x = channel bytes s x"
        using none by (cases "x = p") (simp_all add: channel_view view ad)
    qed
    with False show ?thesis using chan_step.quiet by (intro exI [of _ Quiet]) simp
  next
    case True
    then obtain wb ms where v: "out_view s p = Some (i, wb, ms)"
      using assms(3,4) by (auto simp: is_open_def out_view_def split: if_split_asm)
    define q where "q = bytes (the wb) @ concat (map frame_bytes ms) @ concat (map frame_bytes (addressed i p s))"
    have "channel bytes s p = Some q" using v by (simp add: channel_view q_def)
    moreover have "channel bytes u = (channel bytes s)(p \<mapsto> q @ frame_bytes m)"
    proof
      fix x show "channel bytes u x = ((channel bytes s)(p \<mapsto> q @ frame_bytes m)) x"
        using v by (cases "x = p") (auto simp: channel_view view ad q_def split: option.split)
    qed
    ultimately show ?thesis
      using chan_step.put [of "channel bytes s" p q "frame_bytes m"] True by (intro exI [of _ "Put p (frame_bytes m)"]) simp
  qed
  ultimately show "simulates bytes (\<lambda>q. if q = p \<and> is_open p s then frame_bytes m else []) (\<lambda>q. []) s u"
    by (simp add: simulates_def)
qed

lemma unowned_view: "(\<And>j. \<not> owned j p s) \<Longrightarrow> out_view s p = None"
  by (auto simp: out_view_def owned_def split: option.split)

lemma simulates_touch_unowned:
  assumes "homed s" and "evolves s u" and "touches p s u" and "\<And>j. \<not> owned j p s"
  shows "simulates bytes (\<lambda>q. []) (\<lambda>q. []) s u"
proof (rule simulates_quiet [OF assms(1)])
  show "out_view u = out_view s"
  proof
    fix q show "out_view u q = out_view s q"
    proof (cases "q = p")
      case False
      with assms(3) show ?thesis by (simp add: touches_def out_view_def)
    next
      case True
      have "out_view s p = None" by (rule unowned_view [OF assms(4)])
      moreover have "out_view u p = None"
        by (rule unowned_view) (simp add: evolves_owned [OF assms(2)] assms(4))
      ultimately show ?thesis using True by simp
    qed
  qed
  show "unowned_empty u" using unowned_empty_evolves [OF assms(2)] assms(1) by (simp add: homed_view)
  show "\<exists>t'. get_td i u = Inr t' \<and> td_write_msgs t' = td_write_msgs t \<and>
      (\<forall>p \<in> set (served t). is_open p s \<longrightarrow> p \<in> set (served t'))" if "get_td i s = Inr t" for i t
    using that assms(3) by (simp add: get_td_def touches_def)
qed

lemma simulates_trans_quiet:
  assumes "simulates bytes (\<lambda>q. []) (\<lambda>q. []) a b" and "simulates bytes (\<lambda>q. []) (\<lambda>q. []) b c"
    and "channel bytes b = channel bytes a"
  shows "simulates bytes (\<lambda>q. []) (\<lambda>q. []) a c"
  using assms by (simp add: simulates_def)

lemma hands_channel:
  assumes "net_ok n s" and "homed s" and "hands s u"
  shows "channel bytes u = channel bytes s"
proof
  fix p
  have view: "out_view u p = out_view s p" using assms(3) by (simp add: hands_def out_view_def)
  show "channel bytes u p = channel bytes s p"
  proof (cases "out_view s p")
    case None
    with view show ?thesis by (simp add: channel_view)
  next
    case (Some v)
    obtain i wb ms where v: "out_view s p = Some (i, wb, ms)" using Some by (cases v) auto
    from homedD [OF assms(2) v] obtain t where t: "get_td i s = Inr t" by blast
    with assms(3) obtain t' where "get_td i u = Inr t'" "td_write_msgs t' = td_write_msgs t"
      unfolding hands_def by blast
    with t have "addressed i p u = addressed i p s" by (simp add: addressed_def)
    with v view show ?thesis by (simp add: channel_view)
  qed
qed

text \<open>A connection that is taken over starts with an empty channel: its buffer is new, and no
  message for its address is left in the queue of the worker.\<close>

lemma simulates_pipe:
  assumes "net_ok n s" and "homed s" and "evbuffer_laws ops bytes" and "get_td i s = Inr t"
    and "pipe_done n ops i t rest s u" and "none_stale i s"
  shows "simulates bytes (\<lambda>q. []) (\<lambda>q. []) s u"
proof -
  from assms(5) obtain p t' where p: "\<forall>j. \<not> owned j p s" "\<forall>q. q \<noteq> p \<longrightarrow> conns u q = conns s q" "adopted ops i p s u"
    and t': "get_td i u = Inr t'" "td_write_msgs t' = td_write_msgs t"
      "set (thread_connections t) \<subseteq> set (thread_connections t')"
    and other: "\<forall>j. j \<noteq> i \<longrightarrow> get_td j u = get_td j s"
    unfolding pipe_done_def by blast
  have ad: "addressed j q u = addressed j q s" for j q
    using t' other assms(4) by (cases "j = i") (simp_all add: addressed_def)
  have sv: "\<exists>t2. get_td j u = Inr t2 \<and> q \<in> set (served t2)" if "get_td j s = Inr t1" "q \<in> set (served t1)" for j t1 q
    using that t'(1,3) other assms(4) by (cases "j = i") (auto simp: served_def)
  have vs: "out_view s p = None" using p(1) by (intro unowned_view) simp
  have vq: "out_view u q = out_view s q" if "q \<noteq> p" for q using p(2) that by (simp add: out_view_def)
  have empty: "conn_write_msgs c = [] \<and> addressed i p s = []" if "conns u p = Some c" for c
  proof -
    have "conn_write_msgs c = []"
    proof (cases "\<exists>c0. conns s p = Some c0 \<and> conn_write_msgs c = conn_write_msgs c0")
      case True
      then obtain c0 where "conns s p = Some c0" "conn_write_msgs c = conn_write_msgs c0" by blast
      moreover have "td c0 = None" using p(1) calculation(1) by (cases "td c0") (auto simp: owned_def)
      ultimately show ?thesis using assms(2) by (simp add: homed_view unowned_empty_def)
    next
      case False
      with p(3) that show ?thesis by (auto simp: adopted_def)
    qed
    moreover have "addressed i p s = []"
      using assms(4,6) p(1) by (auto simp: addressed_def none_stale_def filter_empty_conv)
    ultimately show ?thesis by blast
  qed
  have "homed u"
    unfolding homed_view
  proof (intro conjI allI impI)
    show "unowned_empty u"
      unfolding unowned_empty_def
    proof (intro allI impI)
      fix q c assume c: "conns u q = Some c" "td c = None"
      show "conn_write_msgs c = []"
      proof (cases "q = p")
        case False
        with p(2) c assms(2) show ?thesis by (simp add: homed_view unowned_empty_def)
      qed (use empty c in auto)
    qed
    fix q j wb ms assume v: "out_view u q = Some (j, wb, ms)"
    show "\<exists>t. get_td j u = Inr t \<and> q \<in> set (served t)"
    proof (cases "q = p")
      case True
      with v p(3) show ?thesis by (auto simp: out_view_Some adopted_def)
    next
      case False
      with v vq have "out_view s q = Some (j, wb, ms)" by simp
      from homedD [OF assms(2) this] sv show ?thesis by blast
    qed
  qed
  moreover have "\<exists>l. chan_step l (channel bytes s) (channel bytes u) \<and> (\<forall>q. put_on q l = []) \<and> (\<forall>q. emitted_on q l = [])"
  proof (cases "out_view u p")
    case None
    have "out_view u q = out_view s q" for q using vq [of q] vs None by (cases "q = p") simp_all
    then have "channel bytes u = channel bytes s" by (auto simp: channel_view ad fun_eq_iff)
    then show ?thesis using chan_step.quiet by (intro exI [of _ Quiet]) simp
  next
    case (Some v)
    then obtain c where c: "conns u p = Some c" by (auto simp: out_view_def split: option.split_asm)
    with p(3) have td: "td c = Some i" "write_buffer c = Some (evb_new ops)" by (auto simp: adopted_def)
    have "out_view u p = Some (i, Some (evb_new ops), [])"
      using Some c td empty [OF c] by (auto simp: out_view_def split: if_split_asm)
    then have "channel bytes u p = Some []"
      using empty [OF c] evbuffer_lawsD(1) [OF assms(3)] by (simp add: channel_view ad)
    moreover have "channel bytes u q = channel bytes s q" if "q \<noteq> p" for q
      using vq [OF that] by (simp add: channel_view ad)
    ultimately have "channel bytes u = (channel bytes s)(p \<mapsto> [])" by (auto simp: fun_eq_iff)
    moreover have "channel bytes s p = None" by (simp add: channel_view vs)
    ultimately show ?thesis using chan_step.open_ by (intro exI [of _ "Open p"]) simp
  qed
  ultimately show ?thesis by (simp add: simulates_def)
qed

end
