(* ===== verification/GF_Refine.thy ===== *)
theory GF_Refine
  imports GF_Channel
begin

text \<open>
  The refinement: every step of the threads of \<open>go_net.cpp\<close> is a step of the channels, every run
  of them a run of the channels, and what a run writes on a connection is what it was given to
  send there, first in first out.
\<close>

section \<open>Messages on their way\<close>

text \<open>A step leaves the queues of the workers to be written, and the owners, as they are.\<close>

definition keeps_queues :: "'b net_state \<Rightarrow> 'b net_state \<Rightarrow> bool" where
  "keeps_queues s u \<longleftrightarrow>
     (\<forall>i t'. get_td i u = Inr t' \<longrightarrow> (\<exists>t. get_td i s = Inr t \<and> td_write_msgs t' = td_write_msgs t)) \<and>
     (\<forall>i p. owned i p s \<longrightarrow> owned i p u)"

lemma none_stale_keeps:
  assumes "none_stale i s"
    and "\<And>t'. get_td i u = Inr t' \<Longrightarrow> \<exists>t. get_td i s = Inr t \<and> td_write_msgs t' = td_write_msgs t"
    and "\<And>p. owned i p s \<Longrightarrow> owned i p u"
  shows "none_stale i u"
  unfolding none_stale_def
proof (intro allI impI ballI)
  fix t' m assume "get_td i u = Inr t'" and m: "m \<in> set (td_write_msgs t')"
  from assms(2) [OF this(1)] obtain t where "get_td i s = Inr t" "td_write_msgs t' = td_write_msgs t" by blast
  with assms(1) m have "owned i (msg_conn m) s" by (simp add: none_stale_def)
  then show "owned i (msg_conn m) u" by (rule assms(3))
qed

lemma keeps_queues_refl [simp]: "keeps_queues s s"
  by (simp add: keeps_queues_def)

lemma keeps_queues_trans: "keeps_queues a b \<Longrightarrow> keeps_queues b c \<Longrightarrow> keeps_queues a c"
  unfolding keeps_queues_def by metis

lemma keeps_queues_touches: "evolves s u \<Longrightarrow> touches p s u \<Longrightarrow> keeps_queues s u"
  by (simp add: keeps_queues_def evolves_owned touches_def get_td_def)

lemma workers_both:
  assumes "net_ok n s" and "net_ok n u" and "get_td i u = Inr t'"
  shows "\<exists>t. get_td i s = Inr t"
proof -
  from worker_index [OF net_okD(2) [OF assms(2)] assms(3)] obtain k where "k < n" "i = of_nat k" .
  with net_okD(2) [OF assms(1)] show ?thesis by (auto simp: workers_def)
qed

lemma keeps_queues_hands:
  assumes "net_ok n s" and "net_ok n u" and "hands s u"
  shows "keeps_queues s u"
  unfolding keeps_queues_def
proof (intro conjI allI impI)
  fix i t' assume t': "get_td i u = Inr t'"
  from workers_both [OF assms(1,2) t'] obtain t where "get_td i s = Inr t" by blast
  with assms(3) t' show "\<exists>t. get_td i s = Inr t \<and> td_write_msgs t' = td_write_msgs t"
    unfolding hands_def by fastforce
next
  fix i p assume "owned i p s"
  with assms(3) show "owned i p u" by (simp add: hands_def owned_def)
qed

lemma keeps_queues_collect:
  assumes "net_ok n s" and "get_td i s = Inr t" and "collect_reads i s = Inr u"
  shows "keeps_queues s u"
proof -
  have tb: "tables_ok t s" using net_okD(8) [OF assms(1,2)] by (simp add: worker_ok_def)
  from collect_reads_runs [OF assms(2) tb net_okD(13) [OF assms(1)]] assms(3)
  have e: "evolves s u" by (simp add: runs_def)
  from collect_reads_result [OF assms(2) tb] assms(3) have
    u: "get_td i u = Inr (t\<lparr> td_read_msgs := td_read_msgs t @ concat (map (read_queue s) (served t)) \<rparr>)"
      "\<forall>j. j \<noteq> i \<longrightarrow> get_td j u = get_td j s" by auto
  have "\<exists>t1. get_td j s = Inr t1 \<and> td_write_msgs t' = td_write_msgs t1" if "get_td j u = Inr t'" for j t'
    using that u assms(2) by (cases "j = i") auto
  then show ?thesis by (simp add: keeps_queues_def evolves_owned [OF e])
qed

lemma keeps_queues_get:
  assumes "net_ok n s" and "get_net_msgs out s = Inr (ms, u)"
  shows "keeps_queues s u"
proof -
  note ok = net_okD [OF assms(1)]
  have c: "s_cnt s \<noteq> 0x7FFFFFFF" using assms(2) by (auto simp: get_net_msgs_def)
  from get_net_msgs_result [OF ok(2) c, of out] assms(2) have
    u: "\<forall>i < n. \<exists>t. get_td (of_nat i) s = Inr t \<and> get_td (of_nat i) u = Inr (t\<lparr> td_read_msgs := [] \<rparr>)"
      "conns u = conns s" by auto
  have nu: "net_ok n u"
    using get_net_msgs_runs [OF ok(2) c ok(13), of out] assms(2) net_ok_evolves [OF assms(1)]
    by (auto simp: runs_def)
  have "\<exists>t1. get_td j s = Inr t1 \<and> td_write_msgs t' = td_write_msgs t1" if t': "get_td j u = Inr t'" for j t'
  proof -
    from worker_index [OF net_okD(2) [OF nu] t'] obtain k where "k < n" "j = of_nat k" .
    with u(1) t' show ?thesis by fastforce
  qed
  then show ?thesis by (simp add: keeps_queues_def owned_def u(2))
qed

lemma keeps_queues_net_connect:
  assumes "fresh new s" and "u = snd (net_connect env peer new s)"
  shows "keeps_queues s u"
proof -
  have "conns u = conns s \<or> conns u = (conns s)(new := Some new_Connection)" "s_threads_datas u = s_threads_datas s"
    using assms(2) by (auto simp: net_connect_def Let_def)
  with assms(1) show ?thesis by (auto simp: keeps_queues_def owned_def get_td_def fresh_def)
qed

lemma keeps_queues_pipe:
  assumes "get_td i s = Inr t" and "pipe_done n ops i t rest s u"
  shows "keeps_queues s u"
proof -
  from assms(2) obtain p t' where p: "\<forall>j. \<not> owned j p s" "\<forall>q. q \<noteq> p \<longrightarrow> conns u q = conns s q"
    and t': "get_td i u = Inr t'" "td_write_msgs t' = td_write_msgs t" "\<forall>j. j \<noteq> i \<longrightarrow> get_td j u = get_td j s"
    unfolding pipe_done_def by blast
  have "owned j q u" if "owned j q s" for j q
    using p that by (cases "q = p") (auto simp: owned_def)
  moreover have "\<exists>t1. get_td j s = Inr t1 \<and> td_write_msgs v = td_write_msgs t1" if "get_td j u = Inr v" for j v
    using that t' assms(1) by (cases "j = i") auto
  ultimately show ?thesis by (simp add: keeps_queues_def)
qed

lemma phase_done_queues:
  assumes "net_ok n s" and "phase_done n i s u"
  shows "get_td j u = Inr t' \<Longrightarrow> \<exists>t. get_td j s = Inr t \<and> td_write_msgs t' = td_write_msgs t"
proof -
  assume t': "get_td j u = Inr t'"
  have "net_ok n u" using assms(2) by (simp add: phase_done_def)
  from workers_both [OF assms(1) this t'] obtain t where "get_td j s = Inr t" by blast
  with assms(2) t' show ?thesis by (cases "j = i") (auto simp: phase_done_def)
qed

section \<open>Every step is a step of the channels\<close>

text \<open>What a step is given to send on a connection, and what it writes to its socket.\<close>

definition accepted :: "action \<Rightarrow> 'b system \<Rightarrow> ptr \<Rightarrow> byte list" where
  "accepted a sy p =
     (case a of
        Logic_send (Some m) \<Rightarrow> if p = msg_conn m \<and> is_open (msg_conn m) (network sy) then frame_bytes m else []
      | _ \<Rightarrow> [])"

definition written_out :: "'b evbuffer_ops \<Rightarrow> action \<Rightarrow> 'b system \<Rightarrow> ptr \<Rightarrow> byte list" where
  "written_out ops a sy p =
     (case a of
        Io i renv wenv \<Rightarrow>
          (case pending_io (at sy i) of
             [] \<Rightarrow> []
           | kp # kps \<Rightarrow> if p = snd kp then io_output ops (\<lambda>p. (renv, wenv)) kp (network sy) else [])
      | Callback_of i (On_socket env fd which q) \<Rightarrow>
          if p = q then handler_output ops env fd which q (network sy) else []
      | _ \<Rightarrow> [])"

lemma on_net_Inr:
  "on_net f sy = Inr sy' \<longleftrightarrow>
     (\<exists>u. f (network sy) = Inr u \<and> sy' = sy\<lparr> network := u, pipe := (\<lambda>i. pipe sy i + (notified u i - notified (network sy) i)) \<rparr>)"
  by (auto simp: on_net_def)

lemma goto_Inr: "goto i ph r = Inr sy' \<longleftrightarrow> (\<exists>sy1. r = Inr sy1 \<and> sy' = sy1\<lparr> at := (at sy1)(i := ph) \<rparr>)"
  by (auto simp: goto_def)

lemma channels_okD:
  assumes "channels_ok sy"
  shows "homed (network sy)" and "at sy i \<noteq> At_distribute \<Longrightarrow> none_stale i (network sy)"
  using assms by (simp_all add: channels_ok_def)

lemma channels_ok_keeps:
  assumes "channels_ok sy" and "homed (network sy')" and "keeps_queues (network sy) (network sy')"
    and "\<And>j. at sy' j \<noteq> At_distribute \<Longrightarrow> at sy j \<noteq> At_distribute"
  shows "channels_ok sy'"
proof -
  have "none_stale j (network sy')" if "at sy' j \<noteq> At_distribute" for j
  proof -
    note old = channels_okD(2) [OF assms(1) assms(4) [OF that]]
    show ?thesis using assms(3) by (intro none_stale_keeps [OF old]) (simp_all add: keeps_queues_def)
  qed
  with assms(2) show ?thesis by (simp add: channels_ok_def)
qed

text \<open>The logic thread.\<close>

lemma send_step:
  assumes "system_ok n sy" and "channels_ok sy" and "enabled ops (Logic_send md) sy"
    and "exec ops (Logic_send md) sy = Inr sy'"
  shows "simulates bytes (accepted (Logic_send md) sy) (\<lambda>q. []) (network sy) (network sy') \<and> channels_ok sy'"
proof -
  let ?s = "network sy"
  note nok = system_okD(1) [OF assms(1)]
  note hm = channels_okD(1) [OF assms(2)]
  from assms(4) obtain u where u: "net_send md ?s = Inr u" "network sy' = u" "at sy' = at sy"
    by (auto simp: on_net_Inr)
  have shut: "\<not> is_open NULLP ?s"
    using net_okD(9) [OF nok, of NULLP] by (auto simp: is_open_def out_view_def conn_ok_def split: option.split)
  show ?thesis
  proof (cases "\<exists>m. md = Some m \<and> msg_conn m \<noteq> NULLP")
    case False
    then have "u = ?s" using u(1) by (auto simp: net_send_def split: option.splits if_splits)
    moreover have "accepted (Logic_send md) sy = (\<lambda>q. [])"
      using False shut by (auto simp: accepted_def fun_eq_iff split: option.split)
    moreover have "simulates bytes (\<lambda>q. []) (\<lambda>q. []) ?s ?s"
      by (rule simulates_hands [OF hm hands_refl])
    ultimately show ?thesis using u(2,3) assms(2) by (simp add: channels_ok_def)
  next
    case True
    with assms(3) obtain m i c where m: "md = Some m" "conns ?s (msg_conn m) = Some c" "td c = Some i"
      by (auto simp: owned_def)
    from net_okD(9) [OF nok m(2)] m(3) obtain t where t: "get_td i ?s = Inr t"
      by (auto simp: conn_ok_def is_worker_def)
    have s1: "net_send (Some m) ?s = Inr u" using u(1) m(1) by simp
    note sim = simulates_send(1) [OF nok hm m(2,3) refl s1, of bytes]
    have "accepted (Logic_send md) sy = (\<lambda>q. if q = msg_conn m \<and> is_open (msg_conn m) ?s then frame_bytes m else [])"
      by (simp add: accepted_def m(1) fun_eq_iff)
    moreover have "none_stale j u" if "at sy j \<noteq> At_distribute" for j
    proof -
      note old = channels_okD(2) [OF assms(2) that]
      have ow: "owned j p u \<longleftrightarrow> owned j p ?s" for j p
        by (simp add: simulates_send(2) [OF nok hm m(2,3) refl s1 t] owned_def)
      have "owned i (msg_conn m) ?s" using m(2,3) by (simp add: owned_def)
      with old t show ?thesis
        unfolding none_stale_def ow
        by (auto simp: simulates_send(2) [OF nok hm m(2,3) refl s1 t] split: if_split_asm)
    qed
    moreover have "homed u" using sim by (simp add: simulates_def)
    ultimately show ?thesis using sim u(2,3) by (simp add: channels_ok_def)
  qed
qed

lemma quiet_step:
  assumes "channels_ok sy" and "simulates bytes (\<lambda>q. []) (\<lambda>q. []) (network sy) (network sy')"
    and "keeps_queues (network sy) (network sy')" and "\<And>j. at sy' j \<noteq> At_distribute \<Longrightarrow> at sy j \<noteq> At_distribute"
  shows "simulates bytes (\<lambda>q. []) (\<lambda>q. []) (network sy) (network sy') \<and> channels_ok sy'"
  using assms channels_ok_keeps [OF assms(1) _ assms(3,4)] by (simp add: simulates_def)

text \<open>A step of a worker on one of its connections.\<close>

lemma socket_step:
  assumes "channels_ok sy" and "writes bytes p w (network sy) (network sy')" and "owned i p (network sy)"
    and "\<And>j. at sy' j \<noteq> At_distribute \<Longrightarrow> at sy j \<noteq> At_distribute"
  shows "simulates bytes (\<lambda>q. []) (\<lambda>q. if q = p then w else []) (network sy) (network sy') \<and> channels_ok sy'"
proof -
  note sim = simulates_writes [OF channels_okD(1) [OF assms(1)] assms(2,3)]
  have "keeps_queues (network sy) (network sy')"
    using assms(2) keeps_queues_touches [of "network sy" "network sy'" p] by (simp add: writes_def)
  from channels_ok_keeps [OF assms(1) _ this assms(4)] sim show ?thesis by (simp add: simulates_def)
qed

lemma listener_not_owned: "listening l s \<Longrightarrow> \<not> owned j l s"
  by (auto simp: listening_def owned_def)

lemma accept_step:
  assumes "system_ok n sy" and "channels_ok sy" and "enabled ops (Accept_ready env fd) sy"
    and "exec ops (Accept_ready env fd) sy = Inr sy'"
  shows "simulates bytes (\<lambda>q. []) (\<lambda>q. []) (network sy) (network sy') \<and> channels_ok sy'"
proof -
  let ?s = "network sy" and ?l = "listener sy"
  note nok = system_okD(1) [OF assms(1)]
  note hm = channels_okD(1) [OF assms(2)]
  have "\<And>a. a \<in> set (io_accepts env) \<Longrightarrow> int_fd (ac_sfd a)" using assms(3) by simp
  from listener_event [where env = env and ops = ops and fd = fd, OF nok system_okD(2) [OF assms(1)] this]
  obtain v u where e: "event_handler ops env fd EV_READ ?l ?s = Inr u"
    and v: "net_ok n v" "hands ?s v" "evolves v u" "touches ?l v u" by blast
  have u: "network sy' = u" "at sy' = at sy" using e assms(4) by (auto simp: on_net_Inr)
  note sim = simulates_hands [OF hm v(2), of bytes]
  have own: "\<not> owned j ?l v" for j
    using listener_not_owned [OF system_okD(2) [OF assms(1)], of j] v(2) by (simp add: owned_def hands_def)
  have "homed v" using sim by (simp add: simulates_def)
  note sim2 = simulates_touch_unowned [OF this v(3,4) own, of bytes]
  note chan = hands_channel [OF nok hm v(2), of bytes]
  have "keeps_queues ?s u"
    by (rule keeps_queues_trans [OF keeps_queues_hands [OF nok v(1,2)] keeps_queues_touches [OF v(3,4)]])
  with quiet_step [OF assms(2), where sy' = sy' and bytes = bytes] simulates_trans_quiet [OF sim sim2 chan] u
  show ?thesis by simp
qed

text \<open>The phases of a worker.\<close>

lemma distribute_step:
  assumes "system_ok n sy" and "channels_ok sy" and "enabled ops (Distribute i) sy"
    and "exec ops (Distribute i) sy = Inr sy'"
  shows "simulates bytes (\<lambda>q. []) (\<lambda>q. []) (network sy) (network sy') \<and> channels_ok sy'"
proof -
  let ?s = "network sy"
  note nok = system_okD(1) [OF assms(1)]
  from assms(3) obtain t where t: "get_td i ?s = Inr t" by (auto simp: is_worker_def)
  have tb: "tables_ok t ?s" using net_okD(8) [OF nok t] by (simp add: worker_ok_def)
  from assms(4) have u: "distribute_writes i ?s = Inr (network sy')" "at sy' = (at sy)(i := At_collect)"
    by (auto simp: on_net_Inr goto_Inr)
  have own: "p \<in> set (served t) \<Longrightarrow> owned i p ?s" for p using net_okD(8) [OF nok t] by (simp add: worker_ok_def)
  have e: "evolves ?s (network sy')"
    using distribute_writes_runs [OF t tb net_okD(4,6,13) [OF nok] own] u(1) by (simp add: runs_def)
  from distribute_writes_result [OF t tb net_okD(4) [OF nok]] u(1) have
    td: "get_td i (network sy') = Inr (t\<lparr> td_write_msgs := [] \<rparr>)" "\<forall>j. j \<noteq> i \<longrightarrow> get_td j (network sy') = get_td j ?s"
    by auto
  note sim = simulates_distribute [OF nok channels_okD(1) [OF assms(2)] t u(1), of bytes]
  have "none_stale j (network sy')" if at: "at sy' j \<noteq> At_distribute" for j
  proof (cases "j = i")
    case True
    with td show ?thesis by (simp add: none_stale_def)
  next
    case False
    with at u(2) have "none_stale j ?s" using channels_okD(2) [OF assms(2)] by simp
    then show ?thesis
      by (rule none_stale_keeps) (use td False in \<open>simp_all add: evolves_owned [OF e]\<close>)
  qed
  with sim show ?thesis by (simp add: simulates_def channels_ok_def)
qed

lemma collect_step:
  assumes "system_ok n sy" and "channels_ok sy" and "enabled ops (Collect i) sy"
    and "exec ops (Collect i) sy = Inr sy'"
  shows "simulates bytes (\<lambda>q. []) (\<lambda>q. []) (network sy) (network sy') \<and> channels_ok sy'"
proof (rule quiet_step [OF assms(2)])
  note nok = system_okD(1) [OF assms(1)]
  from assms(3) obtain t where t: "get_td i (network sy) = Inr t" and at: "at sy i = At_collect"
    by (auto simp: is_worker_def)
  from assms(4) have u: "collect_reads i (network sy) = Inr (network sy')" "at sy' = (at sy)(i := At_connect)"
    by (auto simp: on_net_Inr goto_Inr)
  show "simulates bytes (\<lambda>q. []) (\<lambda>q. []) (network sy) (network sy')"
    by (rule simulates_collect [OF nok channels_okD(1) [OF assms(2)] t u(1)])
  show "keeps_queues (network sy) (network sy')" by (rule keeps_queues_collect [OF nok t u(1)])
  show "at sy' j \<noteq> At_distribute \<Longrightarrow> at sy j \<noteq> At_distribute" for j
    using u(2) at by (cases "j = i") simp_all
qed

lemma connect_step:
  assumes "system_ok n sy" and "channels_ok sy" and "enabled ops (Connect i w) sy"
    and "exec ops (Connect i w) sy = Inr sy'"
  shows "simulates bytes (\<lambda>q. []) (\<lambda>q. []) (network sy) (network sy') \<and> channels_ok sy'"
proof (rule quiet_step [OF assms(2)])
  note nok = system_okD(1) [OF assms(1)]
  from assms(4) have u: "connect_phase w (network sy) = Inr (network sy')"
    "at sy' = (at sy)(i := At_io (connections_of i (network sy)))" by (auto simp: on_net_Inr goto_Inr)
  from hand_out_hands [OF nok refl, of w] u(1) have h: "net_ok n (network sy')" "hands (network sy) (network sy')"
    by (auto simp: connect_phase_def)
  show "simulates bytes (\<lambda>q. []) (\<lambda>q. []) (network sy) (network sy')"
    by (rule simulates_hands [OF channels_okD(1) [OF assms(2)] h(2)])
  show "keeps_queues (network sy) (network sy')" by (rule keeps_queues_hands [OF nok h])
  show "at sy' j \<noteq> At_distribute \<Longrightarrow> at sy j \<noteq> At_distribute" for j
    using u(2) assms(3) by (cases "j = i") simp_all
qed

lemma io_step:
  assumes "system_ok n sy" and "channels_ok sy" and "enabled ops (Io i renv wenv) sy"
    and "exec ops (Io i renv wenv) sy = Inr sy'" and "evbuffer_laws ops bytes"
  shows "simulates bytes (\<lambda>q. []) (written_out ops (Io i renv wenv) sy) (network sy) (network sy') \<and> channels_ok sy'"
proof -
  let ?s = "network sy" and ?envs = "\<lambda>p :: ptr. (renv, wenv)"
  note nok = system_okD(1) [OF assms(1)]
  from assms(3) obtain t k p kps where t: "get_td i ?s = Inr t" and at: "at sy i = At_io ((k, p) # kps)"
    by (auto simp: is_worker_def)
  from assms(4) at have u: "io_one ops ?envs (k, p) ?s = Inr (network sy')" "at sy' = (at sy)(i := At_io kps)"
    by (auto simp: on_net_Inr goto_Inr pending_io_def)
  have "(k, p) \<in> set (thread_connections t)"
    using system_okD(4) [OF assms(1) t] at by (simp add: pending_io_def)
  note own = served_owned(1) [OF nok t this]
  from owned_usable [OF nok own] obtain c where
    c: "get_conn p ?s = Inr c" "usable (s_msg_processers ?s) c" "state c \<noteq> CS_LISTEN" by blast
  note w = io_one_writes [OF assms(5) u(1) c net_okD(4,6) [OF nok]]
  have "written_out ops (Io i renv wenv) sy = (\<lambda>q. if q = p then io_output ops ?envs (k, p) ?s else [])"
    by (simp add: written_out_def at pending_io_def fun_eq_iff)
  moreover have "at sy' j \<noteq> At_distribute \<Longrightarrow> at sy j \<noteq> At_distribute" for j
    using u(2) at by (cases "j = i") simp_all
  ultimately show ?thesis using socket_step [OF assms(2) w own] by simp
qed

lemma callback_step:
  assumes "system_ok n sy" and "channels_ok sy" and "enabled ops (Callback_of i cb) sy"
    and "exec ops (Callback_of i cb) sy = Inr sy'" and "evbuffer_laws ops bytes"
  shows "simulates bytes (\<lambda>q. []) (written_out ops (Callback_of i cb) sy) (network sy) (network sy') \<and> channels_ok sy'"
proof (cases cb)
  case (On_socket env fd which p)
  note nok = system_okD(1) [OF assms(1)]
  from assms(4) On_socket have u: "event_handler ops env fd which p (network sy) = Inr (network sy')" "at sy' = at sy"
    by (auto simp: on_net_Inr take_byte_def)
  have own: "owned i p (network sy)" using assms(3) On_socket by (simp add: callback_enabled_def)
  from owned_usable [OF nok this] obtain c where
    c: "get_conn p (network sy) = Inr c" "usable (s_msg_processers (network sy)) c" "state c \<noteq> CS_LISTEN" by blast
  note w = event_handler_writes [OF assms(5) u(1) c]
  have "written_out ops (Callback_of i cb) sy = (\<lambda>q. if q = p then handler_output ops env fd which p (network sy) else [])"
    by (simp add: written_out_def On_socket fun_eq_iff)
  with socket_step [OF assms(2) w own] u(2) show ?thesis by simp
next
  case (On_pipe env byte)
  note nok = system_okD(1) [OF assms(1)]
  have none: "written_out ops (Callback_of i cb) sy = (\<lambda>q. [])" by (simp add: written_out_def On_pipe fun_eq_iff)
  from assms(3) obtain t where t: "get_td i (network sy) = Inr t" and at: "at sy i \<noteq> At_distribute"
    by (auto simp: is_worker_def)
  show ?thesis
    unfolding none
  proof (rule quiet_step [OF assms(2)])
    from assms(4) On_pipe have u: "thread_libevent_process ops env byte i (network sy) = Inr (network sy')" "at sy' = at sy"
      by (auto simp: on_net_Inr take_byte_def split: option.split_asm)
    have "simulates bytes (\<lambda>q. []) (\<lambda>q. []) (network sy) (network sy') \<and> keeps_queues (network sy) (network sy')"
    proof (cases byte)
      case None
      with u(1) simulates_hands [OF channels_okD(1) [OF assms(2)] hands_refl, of bytes] show ?thesis
        by (simp add: thread_libevent_process_def)
    next
      case (Some b)
      with assms(3) On_pipe have b: "b = 0x63" "0 < pipe sy i" "fresh (ce_new env) (network sy)"
        by (auto simp: callback_enabled_def)
      with system_okD(3) [OF assms(1) t] obtain ci rest where ci: "new_connections t = ci # rest"
        by (cases "new_connections t") auto
      from thread_libevent_process_ok [OF nok t ci b(3), of ops] u(1) Some b(1) have
        d: "pipe_done n ops i t rest (network sy) (network sy')" by auto
      from simulates_pipe [OF nok channels_okD(1) [OF assms(2)] assms(5) t d channels_okD(2) [OF assms(2) at]]
        keeps_queues_pipe [OF t d] show ?thesis by blast
    qed
    then show "simulates bytes (\<lambda>q. []) (\<lambda>q. []) (network sy) (network sy')" "keeps_queues (network sy) (network sy')" by blast+
    show "at sy' j \<noteq> At_distribute \<Longrightarrow> at sy j \<noteq> At_distribute" for j using u(2) by simp
  qed
qed

lemma reap_step:
  assumes "system_ok n sy" and "channels_ok sy" and "enabled ops (Reap i raw) sy"
    and "exec ops (Reap i raw) sy = Inr sy'"
  shows "simulates bytes (\<lambda>q. []) (\<lambda>q. []) (network sy) (network sy') \<and> channels_ok sy'"
proof (rule quiet_step [OF assms(2)])
  note nok = system_okD(1) [OF assms(1)]
  from assms(3) obtain t where t: "get_td i (network sy) = Inr t" and at: "at sy i = At_io []"
    by (auto simp: is_worker_def)
  from assms(4) have u: "reap_phase raw i (network sy) = Inr (network sy')" "at sy' = (at sy)(i := At_purge)"
    by (auto simp: on_net_Inr goto_Inr)
  from reap_phase_ok [OF nok t, of raw] u(1) have d: "phase_done n i (network sy) (network sy')"
    and own: "\<forall>j p. owned j p (network sy') = owned j p (network sy)" by auto
  show "simulates bytes (\<lambda>q. []) (\<lambda>q. []) (network sy) (network sy')"
    by (rule simulates_phase [OF nok channels_okD(1) [OF assms(2)] d t])
  show "keeps_queues (network sy) (network sy')"
    unfolding keeps_queues_def using phase_done_queues [OF nok d] own by blast
  show "at sy' j \<noteq> At_distribute \<Longrightarrow> at sy j \<noteq> At_distribute" for j
    using u(2) at by (cases "j = i") simp_all
qed

lemma purge_step:
  assumes "system_ok n sy" and "channels_ok sy" and "enabled ops (Purge i now) sy"
    and "exec ops (Purge i now) sy = Inr sy'"
  shows "simulates bytes (\<lambda>q. []) (\<lambda>q. []) (network sy) (network sy') \<and> channels_ok sy'"
proof -
  note nok = system_okD(1) [OF assms(1)]
  from assms(3) obtain t where t: "get_td i (network sy) = Inr t" by (auto simp: is_worker_def)
  from assms(4) have u: "purge_phase now i (network sy) = Inr (network sy')" "at sy' = (at sy)(i := At_distribute)"
    by (auto simp: on_net_Inr goto_Inr)
  from purge_phase_ok [OF nok t, of now] u(1) have d: "phase_done n i (network sy) (network sy')" by auto
  note sim = simulates_phase [OF nok channels_okD(1) [OF assms(2)] d t, of bytes]
  have "none_stale j (network sy')" if at: "at sy' j \<noteq> At_distribute" for j
  proof -
    have j: "j \<noteq> i" using at u(2) by auto
    with at u(2) have "none_stale j (network sy)" using channels_okD(2) [OF assms(2)] by simp
    then show ?thesis
      by (rule none_stale_keeps [OF _ phase_done_queues [OF nok d]])
         (use d j in \<open>simp_all add: phase_done_def\<close>)
  qed
  with sim show ?thesis by (simp add: simulates_def channels_ok_def)
qed

text \<open>All of them.\<close>

theorem exec_channel_step:
  assumes "evbuffer_laws ops bytes" and "system_ok n sy" and "channels_ok sy" and "enabled ops a sy"
    and "exec ops a sy = Inr sy'"
  shows "simulates bytes (accepted a sy) (written_out ops a sy) (network sy) (network sy') \<and> channels_ok sy'"
proof -
  note ok = assms(2,3)
  have none: "accepted a sy = (\<lambda>q. [])" if "\<nexists>md. a = Logic_send md"
    using that by (cases a) (simp_all add: accepted_def fun_eq_iff)
  have dry: "written_out ops a sy = (\<lambda>q. [])" if "\<nexists>i r w. a = Io i r w" "\<nexists>i cb. a = Callback_of i cb"
    using that by (cases a) (simp_all add: written_out_def fun_eq_iff)
  show ?thesis
  proof (cases a)
    case (Logic_send md)
    with send_step [OF ok, where md = md and sy' = sy' and ops = ops and bytes = bytes] assms(4,5) dry
    show ?thesis by simp
  next
    case Logic_get
    then obtain ms where u: "get_net_msgs [] (network sy) = Inr (ms, network sy')" "at sy' = at sy"
      using assms(5) by (auto simp: on_net_Inr)
    note nok = system_okD(1) [OF assms(2)]
    from quiet_step [OF assms(3) simulates_get [OF nok channels_okD(1) [OF assms(3)] u(1)]
        keeps_queues_get [OF nok u(1)]] u(2) Logic_get none dry
    show ?thesis by simp
  next
    case (Logic_close now p)
    then obtain i where own: "owned i p (network sy)" using assms(4) by auto
    from Logic_close have u: "conn_close now p (network sy) = Inr (network sy')" "at sy' = at sy"
      using assms(5) by (auto simp: on_net_Inr)
    from owned_usable [OF system_okD(1) [OF assms(2)] own] obtain c where "get_conn p (network sy) = Inr c" by blast
    from socket_step [OF assms(3) conn_close_writes [OF u(1) this] own, of bytes] u(2) Logic_close none dry
    show ?thesis by simp
  next
    case (Logic_connect env peer new)
    then have f: "fresh new (network sy)" using assms(4) by simp
    have u: "network sy' = snd (net_connect env peer new (network sy))" "at sy' = at sy"
      using Logic_connect assms(5) by (auto simp: on_net_Inr)
    from quiet_step [OF assms(3)
        simulates_net_connect [OF system_okD(1) [OF assms(2)] channels_okD(1) [OF assms(3)] f u(1)]
        keeps_queues_net_connect [OF f u(1)]] u(2) Logic_connect none dry
    show ?thesis by simp
  next
    case (Accept_ready env fd)
    with accept_step [OF ok, of ops env fd sy' bytes] assms(4,5) none dry show ?thesis by simp
  next
    case (Distribute i)
    with distribute_step [OF ok, of ops i sy' bytes] assms(4,5) none dry show ?thesis by simp
  next
    case (Collect i)
    with collect_step [OF ok, of ops i sy' bytes] assms(4,5) none dry show ?thesis by simp
  next
    case (Connect i w)
    with connect_step [OF ok, of ops i w sy' bytes] assms(4,5) none dry show ?thesis by simp
  next
    case (Io i renv wenv)
    have "enabled ops (Io i renv wenv) sy" "exec ops (Io i renv wenv) sy = Inr sy'"
      using assms(4,5) by (simp_all only: Io)
    from io_step [OF ok this assms(1)] none show ?thesis by (simp add: Io)
  next
    case (Callback_of i cb)
    have "enabled ops (Callback_of i cb) sy" "exec ops (Callback_of i cb) sy = Inr sy'"
      using assms(4,5) by (simp_all only: Callback_of)
    from callback_step [OF ok this assms(1)] none show ?thesis by (simp add: Callback_of)
  next
    case (Reap i raw)
    with reap_step [OF ok, of ops i raw sy' bytes] assms(4,5) none dry show ?thesis by simp
  next
    case (Purge i now)
    with purge_step [OF ok, of ops i now sy' bytes] assms(4,5) none dry show ?thesis by simp
  qed
qed

section \<open>Every run is a run of the channels\<close>

definition sys_step :: "'b evbuffer_ops \<Rightarrow> action \<Rightarrow> 'b system \<Rightarrow> 'b system \<Rightarrow> bool" where
  "sys_step ops a sy sy' \<longleftrightarrow> enabled ops a sy \<and> exec ops a sy = Inr sy'"

abbreviation run :: "'b evbuffer_ops \<Rightarrow> 'b system \<Rightarrow> (action \<times> 'b system) list \<Rightarrow> 'b system \<Rightarrow> bool" where
  "run ops \<equiv> trace (sys_step ops)"

text \<open>A run by evaluation: the given actions one after the other.\<close>

fun play :: "'b evbuffer_ops \<Rightarrow> action list \<Rightarrow> 'b system \<Rightarrow> ((action \<times> 'b system) list \<times> 'b system) option" where
  "play ops [] sy = Some ([], sy)"
| "play ops (a # as) sy =
     (if enabled ops a sy
      then case exec ops a sy of
             Inl f \<Rightarrow> None
           | Inr sy1 \<Rightarrow> map_option (\<lambda>(tr, sy'). ((a, sy) # tr, sy')) (play ops as sy1)
      else None)"

lemma play_run: "play ops as sy = Some (tr, sy') \<Longrightarrow> run ops sy tr sy'"
proof (induction "as" arbitrary: sy tr)
  case (Cons a "as")
  from Cons.prems obtain sy1 tr1 where "enabled ops a sy" "exec ops a sy = Inr sy1"
    "play ops as sy1 = Some (tr1, sy')" "tr = (a, sy) # tr1"
    by (auto split: if_split_asm sum.split_asm)
  with Cons.IH show ?case by (auto simp: sys_step_def intro: trace.trace_more)
qed simp

lemma run_reachable: "run ops sy tr sy' \<Longrightarrow> reachable ops n sy \<Longrightarrow> reachable ops n sy'"
  by (induction rule: trace.induct) (auto simp: sys_step_def intro: reachable.reachable_step)

lemma sys_step_ok: "system_ok n sy \<Longrightarrow> sys_step ops a sy sy' \<Longrightarrow> system_ok n sy'"
  using exec_ok [of n sy ops a] by (auto simp: sys_step_def step_ok_def)

text \<open>The threads meet the contracts for the bytes that leave.\<close>

definition out_ok :: "'b evbuffer_ops \<Rightarrow> ('b \<Rightarrow> byte list) \<Rightarrow> nat \<Rightarrow> 'b system \<Rightarrow> bool" where
  "out_ok ops bytes n sy \<longleftrightarrow> evbuffer_laws ops bytes \<and> system_ok n sy \<and> channels_ok sy"

lemma out_step:
  assumes "out_ok ops bytes n sy" and "sys_step ops a sy sy'"
  shows "out_ok ops bytes n sy'"
    and "\<exists>l. chan_step l (channel bytes (network sy)) (channel bytes (network sy')) \<and>
      (\<forall>p. put_on p l = accepted a sy p) \<and> (\<forall>p. emitted_on p l = written_out ops a sy p)"
  using assms exec_channel_step [of ops bytes n sy a sy'] sys_step_ok [of n sy ops a sy']
  by (auto simp: out_ok_def sys_step_def simulates_def)

interpretation outbound: simulation_system "sys_step ops" "out_ok ops bytes n" chan_step
    "\<lambda>sy. channel bytes (network sy)"
    "\<lambda>(a, s) l. (\<forall>p. put_on p l = accepted a s p) \<and> (\<forall>p. emitted_on p l = written_out ops a s p)"
  for ops :: "'b evbuffer_ops" and bytes n
  by unfold_locales (auto intro: out_step(1) dest: out_step(2))

interpretation out_queue: fifo_system "sys_step ops" "out_ok ops bytes n"
    "\<lambda>sy. channel bytes (network sy)" accepted "written_out ops"
  for ops :: "'b evbuffer_ops" and bytes n
proof unfold_locales
  fix s s' :: "'b system" and a p q q'
  assume "out_ok ops bytes n s" and "sys_step ops a s s'"
    and q: "channel bytes (network s) p = Some q" "channel bytes (network s') p = Some q'"
  from out_step(2) [OF this(1,2)] obtain l where
    l: "chan_step l (channel bytes (network s)) (channel bytes (network s'))"
      "put_on p l = accepted a s p" "emitted_on p l = written_out ops a s p" by blast
  have "\<not> ends p l" using l(1) q by (cases rule: chan_step.cases) auto
  from chan_step_fifo [OF l(1) q(1) this] l(2,3) q(2) show "q @ accepted a s p = written_out ops a s p @ q'" by simp
qed

section \<open>Faults\<close>

text \<open>What a step reads from a socket.\<close>

definition incoming :: "action \<Rightarrow> byte list" where
  "incoming a =
     (case a of
        Io i renv wenv \<Rightarrow> (case io_read renv of Read_data d \<Rightarrow> d | _ \<Rightarrow> [])
      | Callback_of i (On_socket env fd which p) \<Rightarrow> (case io_read env of Read_data d \<Rightarrow> d | _ \<Rightarrow> [])
      | _ \<Rightarrow> [])"

theorem step_faults:
  assumes "evbuffer_laws ops bytes" and "system_ok n sy" and "enabled ops a sy" and "exec ops a sy = Inl f"
  shows "\<exists>p c b xs ys. conns (network sy) p = Some c \<and> read_buffer c = Some b \<and> bytes b @ incoming a = xs @ ys \<and>
    16 < length ys \<and> (sint (le_word (take 4 (drop 12 ys)) :: u32) < 0 \<or>
     2 ^ 31 \<le> sint (le_word (take 4 (drop 12 ys)) :: u32) + 16)"
proof -
  let ?s = "network sy"
  from exec_ok [OF assms(2,3)] assms(4) have "bad_step ops a sy f" by (auto simp: step_ok_def)
  then obtain env p where e: "bad_read ops env p ?s f" "room ops env p ?s"
    "\<And>d. io_read env = Read_data d \<Longrightarrow> incoming a = d"
    using assms(3)
    by (cases a)
       (auto simp: bad_step_def incoming_def pending_io_def callback_enabled_def
          split: callback.splits phase.splits list.splits)
  then obtain d c b where c: "io_read env = Read_data d" "conns ?s p = Some c" "read_buffer c = Some b"
    "receive ops (s_msg_processers ?s) (io_raw env) p d c = Inl f" by (auto simp: bad_read_def)
  note ok = net_okD [OF system_okD(1) [OF assms(2)]]
  have "p \<noteq> NULLP" using ok(9) [OF c(2)] by (auto simp: conn_ok_def)
  moreover have "length (bytes b) + length d < 2 ^ 31"
    using e(2) c evbuffer_lawsD(2) [OF assms(1)] by (simp add: room_def)
  ultimately have "decode (s_msg_processers ?s) (io_raw env) p (bytes b @ d) = Inl f"
    using receive_decode [OF assms(1) _ c(3), of p d "s_msg_processers ?s" "io_raw env"] c(4) by simp
  from decode_total [OF ok(4) this] c(2,3) e(3) [OF c(1)] show ?thesis by blast
qed

section \<open>From the start\<close>

lemma boot_channels_ok:
  assumes "boot ops be s = Inr (True, sy)" and "blank s" and "net_thread_num (s_net_setting s) = of_nat n"
    and "n < 2 ^ 31" and "fresh (ce_new (be_create be)) s"
  shows "channels_ok sy"
proof -
  from boot_made [OF assms] obtain fd base where
    b: "conns (network sy) = (\<lambda>p. if p = ce_new (be_create be)
      then Some (created ops (be_create be) fd CS_LISTEN base new_Connection) else None)"
      "at sy = (\<lambda>i. At_distribute)" by blast
  then show ?thesis
    by (simp add: channels_ok_def homed_def created_def new_Connection_def)
qed

theorem reachable_channels_ok:
  assumes "reachable ops n sy" and "evbuffer_laws ops bytes"
  shows "channels_ok sy"
  using assms
proof (induction rule: reachable.induct)
  case (reachable_boot s be sy)
  then show ?case by (intro boot_channels_ok [of ops be s sy n])
next
  case (reachable_step sy a sy')
  from exec_channel_step [OF reachable_step.prems reachable_ok [OF reachable_step.hyps(1)] reachable_step.IH
      reachable_step.hyps(2,3)] reachable_step.prems show ?case by blast
qed

lemma reachable_out_ok: "reachable ops n sy \<Longrightarrow> evbuffer_laws ops bytes \<Longrightarrow> out_ok ops bytes n sy"
  by (simp add: out_ok_def reachable_ok reachable_channels_ok)

text \<open>What a run writes on a connection that stays open, and what it leaves unwritten.\<close>

theorem run_fifo:
  assumes "run ops sy tr sy'" and "reachable ops n sy" and "evbuffer_laws ops bytes"
    and "\<forall>x \<in> set tr. is_open p (network (snd x))" and "is_open p (network sy')"
    and "channel bytes (network sy) p = Some q"
  shows "\<exists>q'. channel bytes (network sy') p = Some q' \<and>
    q @ along accepted tr p = along (written_out ops) tr p @ q'"
proof -
  have open_: "is_open p s \<Longrightarrow> channel bytes s p \<noteq> None" for s using channel_open [of p s bytes] by blast
  from open_ [OF assms(5)] obtain q' where q': "channel bytes (network sy') p = Some q'" by blast
  have "\<forall>x \<in> set tr. channel bytes (network (snd x)) p \<noteq> None" using assms(4) open_ by blast
  from out_queue.trace_fifo [OF assms(1) reachable_out_ok [OF assms(2,3)] this assms(6) q'] q' show ?thesis by blast
qed

end
