(* ===== verification/GF_Inbox.thy ===== *)
theory GF_Inbox
  imports GF_Refine
begin

text \<open>
  The other direction: what \<open>go_net.cpp\<close> promises about the bytes that arrive. A connection is a
  queue of messages: reading puts the messages its bytes complete at the end, \<open>get_net_msgs\<close> takes
  messages from the front, and the buffer keeps the incomplete rest. Shown for every step of the
  threads together, and by the contract of \<open>GF_Fifo\<close> for every run.
\<close>

section \<open>Messages without what their constructor leaves open\<close>

text \<open>The constructor of \<open>MsgNode\<close> leaves \<open>msg_length_\<close> indeterminate, and nothing reads it.\<close>

definition settle :: "MsgNode \<Rightarrow> MsgNode" where
  "settle m = m\<lparr> msg_length := 0 \<rparr>"

lemma settle_simps [simp]:
  "msg_conn (settle m) = msg_conn m" "settle (settle m) = settle m"
  by (simp_all add: settle_def)

abbreviation parse :: "msg_processers \<Rightarrow> ptr \<Rightarrow> byte list \<Rightarrow> (MsgNode list \<times> byte list) res" where
  "parse procs p \<equiv> decode procs (0, 0, 0) p"

lemma format_node_settled:
  "format_node procs raw p msg len = Inr node \<Longrightarrow> format_node procs (0, 0, 0) p msg len = Inr (map_option settle node)"
  by (auto simp: format_node_def Let_def MsgNode_ctor_def settle_def split: option.splits if_splits)

lemma decode_settled:
  "decode procs raw p bs = Inr (ms, r) \<Longrightarrow> parse procs p bs = Inr (map settle ms, r)"
proof (induction procs raw p bs arbitrary: ms rule: decode.induct)
  case (1 procs raw p bs)
  show ?case
  proof (cases "next_frame bs")
    case (Frame k l)
    with "1.prems" obtain node ms1 where n: "format_node procs raw p (take k bs) l = Inr node"
      "decode procs raw p (drop k bs) = Inr (ms1, r)" "ms = (case node of None \<Rightarrow> ms1 | Some x \<Rightarrow> x # ms1)"
      by (subst (asm) decode.simps) auto
    from "1.IH" [OF Frame n(2)] format_node_settled [OF n(1)] Frame n(3) show ?thesis
      by (subst decode.simps) (auto split: option.split)
  qed (use "1.prems" in \<open>simp_all add: decode.simps\<close>)
qed

text \<open>What is delivered names the connection it came from.\<close>

lemma decode_conn: "decode procs raw p bs = Inr (ms, r) \<Longrightarrow> m \<in> set ms \<Longrightarrow> msg_conn m = p"
proof (induction procs raw p bs arbitrary: ms rule: decode.induct)
  case (1 procs raw p bs)
  show ?case
  proof (cases "next_frame bs")
    case (Frame k l)
    with "1.prems" obtain node ms1 where n: "format_node procs raw p (take k bs) l = Inr node"
      "decode procs raw p (drop k bs) = Inr (ms1, r)" "ms = (case node of None \<Rightarrow> ms1 | Some x \<Rightarrow> x # ms1)"
      by (subst (asm) decode.simps) auto
    have "msg_conn x = p" if "node = Some x" for x
      using n(1) that by (auto simp: format_node_def Let_def split: if_splits option.splits)
    with "1.IH" [OF Frame n(2)] "1.prems"(2) n(3) show ?thesis by (auto split: option.splits)
  qed (use "1.prems" in \<open>simp_all add: decode.simps\<close>)
qed

section \<open>The queue of a connection\<close>

text \<open>What was read on an open connection of a worker and not yet given to the logic, and the bytes
  that are no message yet.\<close>

definition inbox :: "'b net_state \<Rightarrow> ptr \<Rightarrow> MsgNode list option" where
  "inbox s p =
     (case conns s p of
        None \<Rightarrow> None
      | Some c \<Rightarrow> (case td c of
          None \<Rightarrow> None
        | Some i \<Rightarrow> if state c = CS_CLOSE then None
                   else Some (map settle (filter (\<lambda>m. msg_conn m = p) (td_reads s i) @ conn_read_msgs c))))"

definition rest_bytes :: "('b \<Rightarrow> byte list) \<Rightarrow> 'b connection \<Rightarrow> byte list" where
  "rest_bytes bytes c = (case read_buffer c of None \<Rightarrow> [] | Some b \<Rightarrow> bytes b)"

definition rest_of :: "('b \<Rightarrow> byte list) \<Rightarrow> 'b net_state \<Rightarrow> ptr \<Rightarrow> byte list" where
  "rest_of bytes s p = (case conns s p of None \<Rightarrow> [] | Some c \<Rightarrow> rest_bytes bytes c)"

text \<open>A connection without a worker has read nothing, the events of one with a worker belong to an event
  loop, every connection holds its own messages only, and the buffer of an open one no complete frame.\<close>

lemma based_simps [simp]:
  "based (c\<lparr> conn_read_msgs := ms \<rparr>) = based c" "based (c\<lparr> conn_write_msgs := ms \<rparr>) = based c"
  "based (c\<lparr> can_read := b \<rparr>) = based c" "based (c\<lparr> can_write := b \<rparr>) = based c"
  "based (c\<lparr> state := st \<rparr>) = based c" "based (c\<lparr> close_time := t \<rparr>) = based c"
  "based (c\<lparr> read_buffer := rb \<rparr>) = based c" "based (c\<lparr> write_buffer := rb \<rparr>) = based c"
  by (simp_all add: based_def)

definition read_ok :: "('b \<Rightarrow> byte list) \<Rightarrow> ptr \<Rightarrow> 'b connection \<Rightarrow> bool" where
  "read_ok bytes p c \<longleftrightarrow>
     (if td c = None then conn_read_msgs c = [] else based c) \<and> (\<forall>m \<in> set (conn_read_msgs c). msg_conn m = p) \<and>
     (td c \<noteq> None \<longrightarrow> state c \<noteq> CS_CLOSE \<longrightarrow> next_frame (rest_bytes bytes c) = Wait)"

definition reads_ok :: "('b \<Rightarrow> byte list) \<Rightarrow> 'b net_state \<Rightarrow> bool" where
  "reads_ok bytes s \<longleftrightarrow> (\<forall>p c. conns s p = Some c \<longrightarrow> read_ok bytes p c)"

lemma reads_okD: "reads_ok bytes s \<Longrightarrow> conns s p = Some c \<Longrightarrow> read_ok bytes p c"
  by (simp add: reads_ok_def)

lemma inbox_Some:
  "inbox s p = Some q \<longleftrightarrow> (\<exists>c i. conns s p = Some c \<and> td c = Some i \<and> state c \<noteq> CS_CLOSE \<and>
     q = map settle (filter (\<lambda>m. msg_conn m = p) (td_reads s i) @ conn_read_msgs c))"
  by (auto simp: inbox_def split: option.split)

lemma inbox_open: "inbox s p \<noteq> None \<longleftrightarrow> is_open p s"
  by (auto simp: inbox_def is_open_def out_view_def split: option.split)

text \<open>One step: \<open>data\<close> was read from the sockets, \<open>out\<close> was given to the logic.\<close>

definition in_moves ::
    "('b \<Rightarrow> byte list) \<Rightarrow> (ptr \<Rightarrow> byte list) \<Rightarrow> (ptr \<Rightarrow> MsgNode list) \<Rightarrow> 'b net_state \<Rightarrow> 'b net_state \<Rightarrow> bool" where
  "in_moves bytes data out s u \<longleftrightarrow> reads_ok bytes u \<and> s_msg_processers u = s_msg_processers s \<and>
     (\<forall>p q q'. inbox s p = Some q \<longrightarrow> inbox u p = Some q' \<longrightarrow>
        (\<exists>ms. parse (s_msg_processers s) p (rest_of bytes s p @ data p) = Inr (ms, rest_of bytes u p) \<and>
              q @ ms = out p @ q'))"

lemma rest_waits:
  assumes "reads_ok bytes s" and "inbox s p = Some q"
  shows "parse procs p (rest_of bytes s p) = Inr ([], rest_of bytes s p)"
proof -
  from assms(2) obtain c where "conns s p = Some c" "td c \<noteq> None" "state c \<noteq> CS_CLOSE" by (auto simp: inbox_Some)
  with assms(1) have "next_frame (rest_of bytes s p) = Wait" by (auto simp: reads_ok_def read_ok_def rest_of_def)
  then show ?thesis by (rule decode_wait)
qed

text \<open>The read side of the connections is as before.\<close>

definition same_reads :: "ptr \<Rightarrow> 'b connection \<Rightarrow> 'b connection \<Rightarrow> bool" where
  "same_reads p c c' \<longleftrightarrow> td c' = td c \<and> (based c \<longrightarrow> based c') \<and> conn_read_msgs c' = conn_read_msgs c \<and> read_buffer c' = read_buffer c \<and>
     (state c = CS_CLOSE \<longrightarrow> state c' = CS_CLOSE)"

lemma same_reads_refl [simp]: "same_reads p c c"
  by (simp add: same_reads_def)

lemma same_reads_ok: "same_reads p c c' \<Longrightarrow> read_ok bytes p c \<Longrightarrow> read_ok bytes p c'"
  by (auto simp: same_reads_def read_ok_def rest_bytes_def)

lemma in_quiet:
  assumes "reads_ok bytes s" and "s_msg_processers u = s_msg_processers s"
    and "\<And>p c'. conns u p = Some c' \<Longrightarrow> (\<exists>c. conns s p = Some c \<and> same_reads p c c') \<or> \<not> is_open p s \<and> read_ok bytes p c'"
    and "\<And>p i. is_open p s \<Longrightarrow> owned i p s \<Longrightarrow>
      filter (\<lambda>m. msg_conn m = p) (td_reads u i) = filter (\<lambda>m. msg_conn m = p) (td_reads s i)"
  shows "in_moves bytes (\<lambda>p. []) (\<lambda>p. []) s u"
  unfolding in_moves_def
proof (intro conjI allI impI assms(2))
  show "reads_ok bytes u"
    unfolding reads_ok_def using assms(1,3) same_reads_ok by (metis reads_ok_def)
next
  fix p q q' assume q: "inbox s p = Some q" and q': "inbox u p = Some q'"
  from q have op: "is_open p s" using inbox_open [of s p] by simp
  from q' obtain c' i' where c': "conns u p = Some c'" "td c' = Some i'"
    "q' = map settle (filter (\<lambda>m. msg_conn m = p) (td_reads u i') @ conn_read_msgs c')" by (auto simp: inbox_Some)
  with assms(3) op obtain c where c: "conns s p = Some c" "same_reads p c c'" by blast
  with c'(2) have "owned i' p s" by (simp add: owned_def same_reads_def)
  from assms(4) [OF op this] q c c' have "q' = q" by (auto simp: inbox_Some same_reads_def)
  moreover have "rest_of bytes u p = rest_of bytes s p"
    using c c' by (simp add: rest_of_def rest_bytes_def same_reads_def)
  ultimately show "\<exists>ms. parse (s_msg_processers s) p (rest_of bytes s p @ []) = Inr (ms, rest_of bytes u p) \<and> q @ ms = [] @ q'"
    using rest_waits [OF assms(1) q] by simp
qed

section \<open>Reading from a socket\<close>

definition socket_data :: "io_env \<Rightarrow> byte list" where
  "socket_data env = (case io_read env of Read_data d \<Rightarrow> d | _ \<Rightarrow> [])"

text \<open>What one step of a worker reads from the socket of the connection it handles.\<close>

definition on_read_input :: "io_env \<Rightarrow> 'b connection \<Rightarrow> byte list" where
  "on_read_input env c = (if state c = CS_CLOSE then [] else socket_data env)"

definition io_input :: "io_env \<Rightarrow> ptr \<Rightarrow> 'b net_state \<Rightarrow> byte list" where
  "io_input env p s = (case get_conn p s of Inl f \<Rightarrow> [] | Inr c \<Rightarrow> if can_read c then on_read_input env c else [])"

definition handler_input :: "io_env \<Rightarrow> int \<Rightarrow> u32 \<Rightarrow> ptr \<Rightarrow> 'b net_state \<Rightarrow> byte list" where
  "handler_input env fd which p s =
     (case get_conn p s of
        Inl f \<Rightarrow> []
      | Inr c \<Rightarrow>
          if which = EV_READ \<and> fd \<noteq> sfd c \<or> which = EV_WRITE \<and> fd \<noteq> sfd_dup_for_write c then []
          else if which AND EV_READ = EV_READ then on_read_input env c else [])"

text \<open>The read side of one connection: \<open>d\<close> came after the bytes it held.\<close>

definition reads_in :: "('b \<Rightarrow> byte list) \<Rightarrow> ptr \<Rightarrow> byte list \<Rightarrow> 'b net_state \<Rightarrow> 'b net_state \<Rightarrow> bool" where
  "reads_in bytes p d s u \<longleftrightarrow> evolves s u \<and> touches p s u \<and>
     (\<forall>c c'. conns s p = Some c \<longrightarrow> conns u p = Some c' \<longrightarrow> read_ok bytes p c \<longrightarrow> td c \<noteq> None \<longrightarrow>
        read_ok bytes p c' \<and>
        (state c' \<noteq> CS_CLOSE \<longrightarrow> (\<exists>ms. parse (s_msg_processers s) p (rest_bytes bytes c @ d) = Inr (ms, rest_bytes bytes c') \<and>
           map settle (conn_read_msgs c') = map settle (conn_read_msgs c) @ ms)))"

definition keeps_in :: "'b connection \<Rightarrow> ptr \<Rightarrow> 'b net_state \<Rightarrow> bool" where
  "keeps_in c p u \<longleftrightarrow> (\<exists>c'. get_conn p u = Inr c' \<and> (based c \<longrightarrow> based c') \<and> read_buffer c' = read_buffer c \<and>
     conn_read_msgs c' = conn_read_msgs c)"

lemma keeps_in_close: "conn_close now p s = Inr u \<Longrightarrow> keeps_in c p s \<Longrightarrow> keeps_in c p u"
  by (auto simp: keeps_in_def conn_close_def conn_set_state_def upd_conn_Inr get_conn_Inr)

lemma keeps_in_update_event: "update_event d a p evt s = Inr (ok, u) \<Longrightarrow> keeps_in c p s \<Longrightarrow> keeps_in c p u"
  by (auto simp: keeps_in_def based_def event_set_def update_event_def get_conn_Inr Let_def split: if_splits)

lemma keeps_in_upd:
  "upd_conn p f s = Inr u \<Longrightarrow> (\<And>x. read_buffer (f x) = read_buffer x \<and> conn_read_msgs (f x) = conn_read_msgs x \<and> based (f x) = based x) \<Longrightarrow>
     keeps_in c p s \<Longrightarrow> keeps_in c p u"
  by (auto simp: keeps_in_def upd_conn_Inr get_conn_Inr)

lemma reads_in_keeps:
  assumes "keeps_in c p u" and "get_conn p s = Inr c" and "evolves s u" and "touches p s u"
  shows "reads_in bytes p [] s u"
proof -
  from assms(1,2) obtain c' where c': "conns u p = Some c'" "read_buffer c' = read_buffer c"
    "conn_read_msgs c' = conn_read_msgs c" "based c \<longrightarrow> based c'" and c: "conns s p = Some c" by (auto simp: keeps_in_def get_conn_Inr)
  from evolves_conns [OF assms(3) c] c'(1) have e: "conn_evolves c c'" by auto
  have "rest_bytes bytes c' = rest_bytes bytes c" using c'(2) by (simp add: rest_bytes_def)
  with c' c e have "same_reads p c c'" by (auto simp: same_reads_def conn_evolves_def)
  note ok = same_reads_ok [OF this, of bytes]
  have "\<exists>ms. parse (s_msg_processers s) p (rest_bytes bytes c @ []) = Inr (ms, rest_bytes bytes c') \<and>
      map settle (conn_read_msgs c') = map settle (conn_read_msgs c) @ ms"
    if "read_ok bytes p c" "td c \<noteq> None" "state c' \<noteq> CS_CLOSE"
    using e decode_wait [of "rest_bytes bytes c"] that c' \<open>rest_bytes bytes c' = rest_bytes bytes c\<close>
    by (auto simp: read_ok_def conn_evolves_def)
  with ok c' c assms(3,4) show ?thesis by (auto simp: reads_in_def)
qed

lemma reads_in_refl [simp]: "get_conn p s = Inr c \<Longrightarrow> reads_in bytes p [] s s"
  by (rule reads_in_keeps) (simp_all add: keeps_in_def)

lemma on_write_keeps_in:
  assumes "on_write ops env p s = Inr u" and "get_conn p s = Inr c"
  shows "keeps_in c p u"
proof (cases "state c = CS_CLOSE")
  case True
  with assms show ?thesis by (auto simp: on_write_def conn_get_state_def keeps_in_def split: if_split_asm)
next
  case False
  have p: "p \<noteq> NULLP" using assms(2) by (simp add: get_conn_Inr)
  from assms False p obtain wb' ds where
    r: "(if evb_get_length ops wb' = 0 then upd_conn p (\<lambda>c. c\<lparr> can_write := True \<rparr>)
          (put_conn p (c\<lparr> conn_write_msgs := [], write_buffer := Some wb' \<rparr>) (if ds = [] then s else log_effect (Dispose ds) s))
        else (case io_write env of
            Write_error again \<Rightarrow>
              if again then
                bind_res (update_event (io_del env) (io_add env) p EV_WRITE
                  (put_conn p (c\<lparr> conn_write_msgs := [], write_buffer := Some wb' \<rparr>) (if ds = [] then s else log_effect (Dispose ds) s)))
                  (\<lambda>(ok, s2). if \<not> ok then conn_close (io_now env) p s2 else Inr s2)
              else upd_conn p (\<lambda>c. c\<lparr> can_write := False \<rparr>)
                (put_conn p (c\<lparr> conn_write_msgs := [], write_buffer := Some wb' \<rparr>) (if ds = [] then s else log_effect (Dispose ds) s))
          | Wrote n \<Rightarrow> upd_conn p (\<lambda>c. c\<lparr> can_write := True, write_buffer := Some (evb_drain ops wb' n) \<rparr>)
                (put_conn p (c\<lparr> conn_write_msgs := [], write_buffer := Some wb' \<rparr>) (if ds = [] then s else log_effect (Dispose ds) s)))) = Inr u"
    by (auto simp: on_write_def conn_get_state_def Let_def split: option.split_asm)
  define s1 where "s1 = put_conn p (c\<lparr> conn_write_msgs := [], write_buffer := Some wb' \<rparr>) (if ds = [] then s else log_effect (Dispose ds) s)"
  have k: "keeps_in c p s1" using p by (simp add: keeps_in_def s1_def based_def)
  have w: "upd_conn p (\<lambda>c. c\<lparr> can_write := x \<rparr>) s1 = Inr u \<Longrightarrow> keeps_in c p u"
    "upd_conn p (\<lambda>c. c\<lparr> can_write := True, write_buffer := b \<rparr>) s1 = Inr u \<Longrightarrow> keeps_in c p u" for x b
    by (erule keeps_in_upd [OF _ _ k], simp add: based_def)+
  have e: "keeps_in c p u" if "update_event d a p EV_WRITE s1 = Inr (ok, s2)"
    "(if \<not> ok then conn_close (io_now env) p s2 else Inr s2) = Inr u" for d a ok s2
    using keeps_in_update_event [OF that(1) k] that(2) by (auto intro: keeps_in_close split: if_split_asm)
  from r [folded s1_def] show ?thesis
    by (auto intro: w e split: if_split_asm write_result.split_asm)
qed

lemma on_read_reads_in:
  assumes "evbuffer_laws ops bytes" and "on_read ops env p s = Inr u" and "get_conn p s = Inr c"
    and "usable (s_msg_processers s) c" and "room ops env p s"
  shows "reads_in bytes p (on_read_input env c) s u"
proof -
  have e: "evolves s u" using on_read_total [OF assms(3,4), of ops env] assms(2) by (auto simp: runs_def)
  have t: "touches p s u" by (rule within_touches [OF within_on_read [OF touches_refl] assms(2)])
  have p: "p \<noteq> NULLP" and cs: "conns s p = Some c" using assms(3) by (simp_all add: get_conn_Inr)
  have k: "keeps_in c p s" using assms(3) by (simp add: keeps_in_def)
  show ?thesis
  proof (cases "state c = CS_CLOSE")
    case True
    with assms(2,3) have "u = s" by (auto simp: on_read_def conn_get_state_def split: if_split_asm)
    with True assms(3) show ?thesis by (simp add: on_read_input_def)
  next
    case False
    note open_ = assms(2) [unfolded on_read_open [OF assms(3) False]]
    show ?thesis
    proof (cases "\<exists>d. io_read env = Read_data d")
      case quiet: False
      have f: "upd_conn p (\<lambda>c. c\<lparr> can_read := x \<rparr>) a = Inr b \<Longrightarrow> keeps_in c p a \<Longrightarrow> keeps_in c p b" for x a b
        by (erule keeps_in_upd) (simp_all add: based_def)
      have "keeps_in c p u"
        using open_ quiet k
        by (auto split: read_result.split_asm if_split_asm)
          (blast intro: f keeps_in_close keeps_in_update_event)+
      moreover have "on_read_input env c = []"
        using quiet False by (simp add: on_read_input_def socket_data_def split: read_result.split)
      ultimately show ?thesis using reads_in_keeps [OF _ assms(3) e t] by simp
    next
      case True
      then obtain d where d: "io_read env = Read_data d" by blast
      with open_ obtain c' where c': "receive ops (s_msg_processers s) (io_raw env) p d c = Inr c'"
        "conns u p = Some (c'\<lparr> can_read := True \<rparr>)" by (auto simp: upd_conn_Inr)
      from assms(4) False obtain b where b: "read_buffer c = Some b" by (auto simp: usable_def)
      have "length (bytes b) + length d < 2 ^ 31"
        using assms(5) cs b d evbuffer_lawsD(2) [OF assms(1)] by (simp add: room_def)
      from receive_decode [OF assms(1) p b this, of "s_msg_processers s" "io_raw env"] c'(1) obtain ms r where
        dec: "decode (s_msg_processers s) (io_raw env) p (bytes b @ d) = Inr (ms, r)"
          "conn_view bytes c' = (conn_read_msgs c @ ms, r)" "read_buffer c' \<noteq> None" by auto
      from dec(2,3) have v: "conn_read_msgs c' = conn_read_msgs c @ ms" "rest_bytes bytes c' = r"
        by (auto simp: conn_view_def rest_bytes_def)
      have ba: "based c' = based c"
        using c'(1) by (auto simp: receive_def message_format_def based_def split: option.splits if_splits)
      have rb: "rest_bytes bytes c = bytes b" using b by (simp add: rest_bytes_def)
      from evolves_conns [OF e cs] c'(2) have td: "td c' = td c" by (auto simp: conn_evolves_def)
      have "read_ok bytes p (c'\<lparr> can_read := True \<rparr>)" if "read_ok bytes p c" "td c \<noteq> None"
        using that v ba decode_conn [OF dec(1)] decode_rest [OF dec(1)] td by (auto simp: read_ok_def rest_bytes_def based_def)
      moreover have "on_read_input env c = d" using d False by (simp add: on_read_input_def socket_data_def)
      ultimately show ?thesis
        using e t c'(2) cs v decode_settled [OF dec(1)] rb by (auto simp: reads_in_def rest_bytes_def)
    qed
  qed
qed

lemma process_event_reads_in:
  assumes "evbuffer_laws ops bytes" and "process_event ops env p evt s = Inr u" and "get_conn p s = Inr c"
    and "usable (s_msg_processers s) c" and "state c \<noteq> CS_LISTEN" and "room ops env p s"
  shows "reads_in bytes p (if evt AND EV_READ = EV_READ then on_read_input env c else []) s u"
proof -
  have w: "reads_in bytes p [] s u" if "on_write ops env p s = Inr u"
  proof (rule reads_in_keeps [OF on_write_keeps_in [OF that assms(3)] assms(3)])
    show "evolves s u" using on_write_total [OF assms(3,4), of ops env] that by (simp add: runs_def)
    show "touches p s u" by (rule within_touches [OF within_on_write [OF touches_refl] that])
  qed
  show ?thesis
    using assms(2) on_read_reads_in [OF assms(1) _ assms(3,4,6)] w assms(3)
    by (auto simp: process_event_open [OF assms(3,5)] split: if_split_asm)
qed

lemma conn_close_reads_in:
  assumes "conn_close now p s = Inr u" and "get_conn p s = Inr c"
  shows "reads_in bytes p [] s u"
proof (rule reads_in_keeps [OF keeps_in_close [OF assms(1)] assms(2)])
  show "keeps_in c p s" using assms(2) by (simp add: keeps_in_def)
  show "evolves s u" using runs_close [OF assms(2), of now] assms(1) by (simp add: runs_def)
  show "touches p s u" by (rule within_touches [OF within_close [OF touches_refl] assms(1)])
qed

lemma event_handler_reads_in:
  assumes "evbuffer_laws ops bytes" and "event_handler ops env fd which p s = Inr u" and "get_conn p s = Inr c"
    and "usable (s_msg_processers s) c" and "state c \<noteq> CS_LISTEN" and "room ops env p s"
  shows "reads_in bytes p (handler_input env fd which p s) s u"
proof -
  have p: "p \<noteq> NULLP" using assms(3) by (simp add: get_conn_Inr)
  show ?thesis
  proof (cases "which = EV_READ \<and> fd \<noteq> sfd c \<or> which = EV_WRITE \<and> fd \<noteq> sfd_dup_for_write c")
    case True
    then have "conn_close (io_now env) p s = Inr u" and "handler_input env fd which p s = []"
      using assms(2,3) p by (auto simp: event_handler_def handler_input_def split: if_split_asm)
    with conn_close_reads_in [OF _ assms(3)] show ?thesis by simp
  next
    case False
    then have "process_event ops env p which s = Inr u"
      using assms(2,3) p by (auto simp: event_handler_def split: if_split_asm)
    from process_event_reads_in [OF assms(1) this assms(3-6)] False assms(3) show ?thesis
      unfolding handler_input_def by (simp only: sum.case if_False)
  qed
qed

lemma reads_in_trans:
  assumes "reads_in bytes p d a b" and "reads_in bytes p [] b c"
  shows "reads_in bytes p d a c"
proof -
  have e: "evolves a b" "evolves b c" and t: "touches p a b" "touches p b c"
    using assms by (simp_all add: reads_in_def)
  show ?thesis
    unfolding reads_in_def
  proof (intro conjI evolves_trans [OF e] touches_trans [OF t] allI impI)
    fix x z assume x: "conns a p = Some x" and z: "conns c p = Some z" and ok: "read_ok bytes p x" "td x \<noteq> None"
    from evolves_conns [OF e(1) x] obtain y where y: "conns b p = Some y" "conn_evolves x y" by blast
    with assms(1) x ok have y1: "read_ok bytes p y" by (simp add: reads_in_def)
    have "td y \<noteq> None" using y(2) ok(2) by (simp add: conn_evolves_def)
    note 2 = assms(2) [unfolded reads_in_def, THEN conjunct2, THEN conjunct2, rule_format, OF y(1) z y1 this]
    note 1 = assms(1) [unfolded reads_in_def, THEN conjunct2, THEN conjunct2, rule_format, OF x y(1) ok]
    show "read_ok bytes p z" by (rule conjunct1 [OF 2])
    assume open_: "state z \<noteq> CS_CLOSE"
    from evolves_conns [OF e(2) y(1)] z have "conn_evolves y z" by auto
    with open_ have oy: "state y \<noteq> CS_CLOSE" by (auto simp: conn_evolves_def)
    with y1 \<open>td y \<noteq> None\<close> have "next_frame (rest_bytes bytes y) = Wait" by (simp add: read_ok_def)
    from decode_wait [OF this] conjunct2 [OF 2] open_
    have "rest_bytes bytes z = rest_bytes bytes y" "map settle (conn_read_msgs z) = map settle (conn_read_msgs y)" by auto
    with conjunct2 [OF 1] oy show "\<exists>ms. parse (s_msg_processers a) p (rest_bytes bytes x @ d) = Inr (ms, rest_bytes bytes z) \<and>
        map settle (conn_read_msgs z) = map settle (conn_read_msgs x) @ ms" by auto
  qed
qed

lemma io_one_reads_in:
  assumes "evbuffer_laws ops bytes" and "io_one ops envs (k, p) s = Inr u" and "get_conn p s = Inr c"
    and "usable (s_msg_processers s) c" and "state c \<noteq> CS_LISTEN" and "procs_ok (s_msg_processers s)" and "well_typed s"
    and "room ops (fst (envs p)) p s"
  shows "reads_in bytes p (io_input (fst (envs p)) p s) s u"
proof (cases "state c = CS_CLOSE")
  case True
  with assms(2,3) have "u = s" by (simp add: io_one_def conn_get_state_def)
  with True assms(3) show ?thesis by (simp add: io_input_def on_read_input_def)
next
  case False
  let ?r1 = "if can_read c then process_event ops (fst (envs p)) p EV_READ s else Inr s"
  from assms(2,3) False obtain s1 c1 where s1: "?r1 = Inr s1" "get_conn p s1 = Inr c1"
    and r: "(if can_write c1 then process_event ops (snd (envs p)) p EV_WRITE s1 else Inr s1) = Inr u"
    by (auto simp: io_one_def conn_get_state_def)
  have r1: "reads_in bytes p (io_input (fst (envs p)) p s) s s1"
    using s1(1) process_event_reads_in [OF assms(1) _ assms(3-5,8), of EV_READ s1] assms(3)
    by (auto simp: io_input_def split: if_split_asm)
  then have "evolves s s1" by (simp add: reads_in_def)
  from evolves_usable [OF this assms(3,4,6,7)] s1(2) have
    c1: "usable (s_msg_processers s1) c1" "conn_evolves c c1" by auto
  then have nl: "state c1 \<noteq> CS_LISTEN" using assms(5) by (auto simp: conn_evolves_def)
  have "reads_in bytes p [] s1 u"
  proof (cases "can_write c1")
    case True
    with r process_event_open [OF s1(2) nl, of ops "snd (envs p)" EV_WRITE] have
      w: "on_write ops (snd (envs p)) p s1 = Inr u" by (auto simp: split: if_split_asm)
    show ?thesis
    proof (rule reads_in_keeps [OF on_write_keeps_in [OF w s1(2)] s1(2)])
      show "evolves s1 u" using on_write_total [OF s1(2) c1(1), of ops "snd (envs p)"] w by (simp add: runs_def)
      show "touches p s1 u" by (rule within_touches [OF within_on_write [OF touches_refl] w])
    qed
  qed (use r s1(2) in simp)
  from reads_in_trans [OF r1 this] show ?thesis .
qed

text \<open>So the queue of the connection takes what the bytes complete.\<close>

lemma in_moves_socket:
  assumes "reads_in bytes p d s u" and "owned i p s" and "reads_ok bytes s"
  shows "in_moves bytes (\<lambda>q. if q = p then d else []) (\<lambda>q. []) s u"
proof -
  have e: "evolves s u" and t: "touches p s u" using assms(1) by (simp_all add: reads_in_def)
  from assms(2) obtain c where c: "conns s p = Some c" "td c = Some i" by (auto simp: owned_def)
  from evolves_conns [OF e c(1)] obtain c' where c': "conns u p = Some c'" "conn_evolves c c'" by auto
  note ok = reads_okD [OF assms(3) c(1)]
  from assms(1) c c' ok have r: "read_ok bytes p c'"
    "state c' \<noteq> CS_CLOSE \<Longrightarrow> \<exists>ms. parse (s_msg_processers s) p (rest_bytes bytes c @ d) = Inr (ms, rest_bytes bytes c') \<and>
       map settle (conn_read_msgs c') = map settle (conn_read_msgs c) @ ms"
    by (auto simp: reads_in_def)
  have td: "td_reads u = td_reads s" using t by (simp add: td_reads_def get_td_def touches_def fun_eq_iff)
  have other: "q \<noteq> p \<Longrightarrow> conns u q = conns s q" for q using t by (simp add: touches_def)
  show ?thesis
    unfolding in_moves_def
  proof (intro conjI allI impI)
    show "reads_ok bytes u"
      unfolding reads_ok_def using r(1) c'(1) other assms(3) by (metis option.inject reads_ok_def)
    show "s_msg_processers u = s_msg_processers s" using e by (simp add: evolves_def)
  next
    fix q b b' assume b: "inbox s q = Some b" "inbox u q = Some b'"
    show "\<exists>ms. parse (s_msg_processers s) q (rest_of bytes s q @ (if q = p then d else [])) = Inr (ms, rest_of bytes u q) \<and>
        b @ ms = [] @ b'"
    proof (cases "q = p")
      case True
      with b(2) c' c have open_: "state c' \<noteq> CS_CLOSE" and
        b': "b' = map settle (filter (\<lambda>m. msg_conn m = p) (td_reads u i) @ conn_read_msgs c')"
        by (auto simp: inbox_Some conn_evolves_def)
      from b(1) True c have "b = map settle (filter (\<lambda>m. msg_conn m = p) (td_reads s i) @ conn_read_msgs c)"
        by (auto simp: inbox_Some)
      with r(2) [OF open_] b' c(1) c'(1) True td show ?thesis by (auto simp: rest_of_def)
    next
      case False
      have "inbox u q = inbox s q" "rest_of bytes u q = rest_of bytes s q"
        unfolding inbox_def rest_of_def other [OF False] td by (rule refl)+
      with b have "b' = b" "rest_of bytes u q = rest_of bytes s q" by simp_all
      with rest_waits [OF assms(3) b(1)] False show ?thesis by simp
    qed
  qed
qed

section \<open>The other steps\<close>

text \<open>Steps after which the queues of read messages are as before.\<close>

lemma in_same:
  assumes "reads_ok bytes s" and "s_msg_processers u = s_msg_processers s"
    and "\<And>p c'. conns u p = Some c' \<Longrightarrow> \<exists>c. conns s p = Some c \<and> same_reads p c c'" and "td_reads u = td_reads s"
  shows "in_moves bytes (\<lambda>p. []) (\<lambda>p. []) s u"
  by (rule in_quiet [OF assms(1,2)]) (use assms(3,4) in auto)

lemma in_hands:
  assumes "reads_ok bytes s" and "net_ok n s" and "net_ok n u" and "hands s u" and "s_msg_processers u = s_msg_processers s"
  shows "in_moves bytes (\<lambda>p. []) (\<lambda>p. []) s u"
proof (rule in_same [OF assms(1,5)])
  show "\<exists>c. conns s p = Some c \<and> same_reads p c c'" if "conns u p = Some c'" for p c'
    using that assms(4) by (simp add: hands_def)
  show "td_reads u = td_reads s"
  proof
    fix i show "td_reads u i = td_reads s i"
    proof (cases "is_worker i s")
      case True
      then obtain t where "get_td i s = Inr t" by (auto simp: is_worker_def)
      with assms(4) show ?thesis unfolding hands_def by (fastforce simp: td_reads_def)
    next
      case False
      with workers_both [OF assms(2,3), of i] have "\<not> is_worker i u" by (auto simp: is_worker_def)
      with False show ?thesis by (auto simp: td_reads_def is_worker_def split: sum.split)
    qed
  qed
qed

lemma in_send:
  assumes "reads_ok bytes s" and "net_send (Some m) s = Inr u" and "get_conn (msg_conn m) s = Inr c"
    and "td c = Some i" and "get_td i s = Inr t"
  shows "in_moves bytes (\<lambda>p. []) (\<lambda>p. []) s u"
proof -
  have u: "u = put_td i (t\<lparr> td_write_msgs := td_write_msgs t @ [m] \<rparr>) s"
    using net_send_result [OF assms(3-5)] assms(2) by simp
  show ?thesis
  proof (rule in_same [OF assms(1)])
    show "td_reads u = td_reads s" using assms(5) by (auto simp: u td_reads_def fun_eq_iff)
  qed (simp_all add: u)
qed

lemma in_net_connect:
  assumes "reads_ok bytes s" and "fresh new s" and "u = snd (net_connect env peer new s)"
  shows "in_moves bytes (\<lambda>p. []) (\<lambda>p. []) s u"
proof (rule in_quiet [OF assms(1)])
  have c: "conns u = conns s \<or> conns u = (conns s)(new := Some new_Connection)" and th: "s_threads_datas u = s_threads_datas s"
    and m: "s_msg_processers u = s_msg_processers s"
    using assms(3) by (auto simp: net_connect_def Let_def)
  show "s_msg_processers u = s_msg_processers s" by (rule m)
  have none: "conns s new = None" using assms(2) by (simp add: fresh_def)
  then have shut: "\<not> is_open new s" by (simp add: is_open_def out_view_def)
  have new: "read_ok bytes new new_Connection" by (simp add: read_ok_def new_Connection_def)
  show "(\<exists>c. conns s p = Some c \<and> same_reads p c c') \<or> \<not> is_open p s \<and> read_ok bytes p c'"
    if "conns u p = Some c'" for p c'
    using that c shut new by (cases "p = new") auto
qed (use assms(3) in \<open>auto simp: td_reads_def get_td_def net_connect_def Let_def\<close>)

lemma in_distribute:
  assumes "reads_ok bytes s" and "distribute_writes i s = Inr u" and "get_td i s = Inr t" and "tables_ok t s"
    and "procs_ok (s_msg_processers s)"
  shows "in_moves bytes (\<lambda>p. []) (\<lambda>p. []) s u"
proof -
  from distribute_writes_result [OF assms(3-5)] assms(2) have
    u: "get_td i u = Inr (t\<lparr> td_write_msgs := [] \<rparr>)" "conns u = with_writes t (td_write_msgs t) s"
      "\<forall>j. j \<noteq> i \<longrightarrow> get_td j u = get_td j s" "s_msg_processers u = s_msg_processers s" by auto
  show ?thesis
  proof (rule in_same [OF assms(1) u(4)])
    show "\<exists>c. conns s p = Some c \<and> same_reads p c c'" if "conns u p = Some c'" for p c'
      using that by (auto simp: u(2) with_writes_def same_reads_def split: if_split_asm)
    have "td_reads u j = td_reads s j" for j
      using u(1,3) assms(3) by (cases "j = i") (simp_all add: td_reads_def)
    then show "td_reads u = td_reads s" by blast
  qed
qed

lemma in_pipe:
  assumes "reads_ok bytes s" and "evbuffer_laws ops bytes" and "get_td i s = Inr t" and "pipe_done n ops i t rest s u"
    and "s_msg_processers u = s_msg_processers s"
  shows "in_moves bytes (\<lambda>p. []) (\<lambda>p. []) s u"
proof -
  from assms(4) obtain p t' where p: "\<forall>j. \<not> owned j p s" "\<forall>q. q \<noteq> p \<longrightarrow> conns u q = conns s q" "adopted ops i p s u"
    and t': "get_td i u = Inr t'" "td_read_msgs t' = td_read_msgs t"
    and other: "\<forall>j. j \<noteq> i \<longrightarrow> get_td j u = get_td j s"
    unfolding pipe_done_def by blast
  have shut: "\<not> is_open p s" using unowned_view [of p s] p(1) by (simp add: is_open_def)
  have new: "read_ok bytes p c" if "conns u p = Some c" for c
  proof -
    from p(3) that have c: "td c = Some i" "based c" "read_buffer c = Some (evb_new ops)"
      "conn_read_msgs c = [] \<or> (\<exists>c0. conns s p = Some c0 \<and> conn_read_msgs c = conn_read_msgs c0)"
      by (auto simp: adopted_def)
    have "conn_read_msgs c0 = []" if "conns s p = Some c0" for c0
    proof -
      have "td c0 = None" using p(1) that by (cases "td c0") (auto simp: owned_def)
      with reads_okD [OF assms(1) that] show ?thesis by (simp add: read_ok_def)
    qed
    with c(4) have "conn_read_msgs c = []" by auto
    moreover have "next_frame (rest_bytes bytes c) = Wait"
      using c(3) evbuffer_lawsD(1) [OF assms(2)] by (simp add: rest_bytes_def next_frame_def)
    ultimately show ?thesis using c(1,2) by (simp add: read_ok_def)
  qed
  have td: "td_reads u j = td_reads s j" for j
    using t' other assms(3) by (cases "j = i") (simp_all add: td_reads_def)
  show ?thesis
  proof (rule in_quiet [OF assms(1,5)])
    show "(\<exists>c. conns s q = Some c \<and> same_reads q c c') \<or> \<not> is_open q s \<and> read_ok bytes q c'"
      if "conns u q = Some c'" for q c'
      using that p(2) shut new by (cases "q = p") auto
  qed (simp add: td)
qed

lemma in_phase:
  assumes "reads_ok bytes s" and "phase_done n i s u" and "get_td i s = Inr t" and "net_ok n s"
    and "s_msg_processers u = s_msg_processers s"
  shows "in_moves bytes (\<lambda>p. []) (\<lambda>p. []) s u"
proof (rule in_quiet [OF assms(1,5)])
  show "(\<exists>c. conns s p = Some c \<and> same_reads p c c') \<or> \<not> is_open p s \<and> read_ok bytes p c'"
    if "conns u p = Some c'" for p c'
  proof -
    from assms(2) that obtain c where "conns s p = Some c" "closes c c'" unfolding phase_done_def by blast
    then show ?thesis by (auto simp: closes_def same_reads_def based_def)
  qed
next
  fix p j assume p: "is_open p s" "owned j p s"
  have "net_ok n u" using assms(2) by (simp add: phase_done_def)
  from worker_index [OF net_okD(2) [OF assms(4)] assms(3)] obtain k where "k < n" "i = of_nat k" .
  with net_okD(2) [OF \<open>net_ok n u\<close>] obtain t' where t': "get_td i u = Inr t'" by (auto simp: workers_def)
  with assms(2,3) obtain told where told: "td_read_msgs t' = td_read_msgs t @ told"
    "\<forall>m \<in> set told. is_closed s (msg_conn m)" by (auto simp: phase_done_def)
  have "\<not> is_closed s p"
    using p(1) by (auto simp: is_open_def out_view_def is_closed_def split: option.split_asm if_split_asm)
  with told(2) have "filter (\<lambda>m. msg_conn m = p) told = []" by (auto simp: filter_empty_conv)
  with told(1) t' assms(2,3) show "filter (\<lambda>m. msg_conn m = p) (td_reads u j) = filter (\<lambda>m. msg_conn m = p) (td_reads s j)"
    by (cases "j = i") (simp_all add: td_reads_def phase_done_def)
qed

text \<open>Collecting moves the messages of a connection to its worker, taking them gives them to the
  logic.\<close>

lemma filter_own_queue:
  assumes "distinct ps" and "\<And>q m. q \<in> set ps \<Longrightarrow> m \<in> set (f q) \<Longrightarrow> msg_conn m = q"
  shows "filter (\<lambda>m. msg_conn m = p) (concat (map f ps)) = (if p \<in> set ps then f p else [])"
  using assms
proof (induction ps)
  case (Cons q ps)
  have "filter (\<lambda>m. msg_conn m = p) (f q) = (if q = p then f q else [])"
    using Cons.prems(2) [of q] by (auto simp: filter_id_conv filter_empty_conv)
  with Cons show ?case by auto
qed simp

lemma in_collect:
  assumes "reads_ok bytes s" and "net_ok n s" and "homed s" and "get_td i s = Inr t" and "collect_reads i s = Inr u"
  shows "in_moves bytes (\<lambda>p. []) (\<lambda>p. []) s u"
proof -
  have wk: "worker_ok i t s" by (rule net_okD(8) [OF assms(2,4)])
  then have tb: "tables_ok t s" by (simp add: worker_ok_def)
  from collect_reads_result [OF assms(4) tb] assms(5) have
    u: "get_td i u = Inr (t\<lparr> td_read_msgs := td_read_msgs t @ concat (map (read_queue s) (served t)) \<rparr>)"
      "conns u = without_reads (set (served t)) s" "\<forall>j. j \<noteq> i \<longrightarrow> get_td j u = get_td j s"
      "s_msg_processers u = s_msg_processers s" by auto
  have own: "msg_conn m = q" if "q \<in> set (served t)" "m \<in> set (read_queue s q)" for q m
  proof -
    from that(2) obtain c where "conns s q = Some c" "m \<in> set (conn_read_msgs c)"
      by (cases "conns s q") (simp_all add: read_queue_def)
    with reads_okD [OF assms(1) this(1)] show ?thesis by (simp add: read_ok_def)
  qed
  have col: "filter (\<lambda>m. msg_conn m = p) (td_reads u i) =
      filter (\<lambda>m. msg_conn m = p) (td_reads s i) @ (if p \<in> set (served t) then read_queue s p else [])" for p
    using filter_own_queue [where p = p, OF served_distinct [OF tb] own] u(1) assms(4) by (simp add: td_reads_def)
  have td: "td_reads u j = td_reads s j" if "j \<noteq> i" for j using u(3) that by (simp add: td_reads_def)
  have cs: "conns u p = (if p \<in> set (served t) then map_option (\<lambda>c. c\<lparr> conn_read_msgs := [] \<rparr>) (conns s p) else conns s p)" for p
    by (simp add: u(2) without_reads_def)
  have rest: "rest_of bytes u p = rest_of bytes s p" for p
    by (auto simp: rest_of_def rest_bytes_def cs split: option.split)
  show ?thesis
    unfolding in_moves_def
  proof (intro conjI allI impI)
    show "reads_ok bytes u"
      unfolding reads_ok_def
    proof (intro allI impI)
      fix p c' assume "conns u p = Some c'"
      then obtain c where "conns s p = Some c" "c' = c \<or> c' = c\<lparr> conn_read_msgs := [] \<rparr>" by (auto simp: cs split: if_split_asm)
      with reads_okD [OF assms(1) this(1)] show "read_ok bytes p c'" by (auto simp: read_ok_def rest_bytes_def)
    qed
    show "s_msg_processers u = s_msg_processers s" by (rule u(4))
  next
    fix p q q' assume q: "inbox s p = Some q" "inbox u p = Some q'"
    from q(1) obtain c j where c: "conns s p = Some c" "td c = Some j" "state c \<noteq> CS_CLOSE"
      "q = map settle (filter (\<lambda>m. msg_conn m = p) (td_reads s j) @ conn_read_msgs c)" by (auto simp: inbox_Some)
    have "q' = q"
    proof (cases "j = i")
      case True
      with assms(3) c(1-3) obtain t1 where "get_td i s = Inr t1" "p \<in> set (served t1)" unfolding homed_def by blast
      with assms(4) have "p \<in> set (served t)" by simp
      with q(2) c True col [of p] show ?thesis by (simp add: inbox_def cs read_queue_def)
    next
      case False
      have "\<not> owned i p s" using c(1,2) False by (simp add: owned_def)
      with wk have "p \<notin> set (served t)" by (auto simp: worker_ok_def)
      with q(2) c td [OF False] show ?thesis by (simp add: inbox_def cs)
    qed
    with rest_waits [OF assms(1) q(1)] rest
    show "\<exists>ms. parse (s_msg_processers s) p (rest_of bytes s p @ []) = Inr (ms, rest_of bytes u p) \<and> q @ ms = [] @ q'"
      by simp
  qed
qed

text \<open>What the logic is given of a connection: the messages its worker holds.\<close>

definition handed :: "'b net_state \<Rightarrow> ptr \<Rightarrow> MsgNode list" where
  "handed s p =
     (case conns s p of
        None \<Rightarrow> []
      | Some c \<Rightarrow> (case td c of None \<Rightarrow> [] | Some i \<Rightarrow> map settle (filter (\<lambda>m. msg_conn m = p) (td_reads s i))))"

lemma in_get:
  assumes "reads_ok bytes s" and "net_ok n s" and "get_net_msgs out s = Inr (ms, u)"
  shows "in_moves bytes (\<lambda>p. []) (handed s) s u"
proof -
  note ok = net_okD [OF assms(2)]
  have "s_cnt s \<noteq> 0x7FFFFFFF" using assms(3) by (auto simp: get_net_msgs_def)
  from get_net_msgs_result [OF ok(2) this, of out] assms(3) have
    u: "\<forall>i < n. \<exists>t. get_td (of_nat i) s = Inr t \<and> get_td (of_nat i) u = Inr (t\<lparr> td_read_msgs := [] \<rparr>)"
      "conns u = conns s" "s_msg_processers u = s_msg_processers s" by auto
  show ?thesis
    unfolding in_moves_def
  proof (intro conjI allI impI)
    show "reads_ok bytes u" using assms(1) by (simp add: reads_ok_def u(2))
    show "s_msg_processers u = s_msg_processers s" by (rule u(3))
  next
    fix p q q' assume q: "inbox s p = Some q" "inbox u p = Some q'"
    from q(1) obtain c i where c: "conns s p = Some c" "td c = Some i" "state c \<noteq> CS_CLOSE"
      "q = map settle (filter (\<lambda>m. msg_conn m = p) (td_reads s i) @ conn_read_msgs c)" by (auto simp: inbox_Some)
    from ok(9) [OF c(1)] c(2) obtain t where "get_td i s = Inr t" by (auto simp: conn_ok_def is_worker_def)
    from worker_index [OF ok(2) this] obtain k where "k < n" "i = of_nat k" .
    with u(1) have "td_reads u i = []" by (auto simp: td_reads_def)
    with q(2) c have "q' = map settle (conn_read_msgs c)" "handed s p @ q' = q" by (simp_all add: inbox_def u(2) handed_def)
    moreover have "rest_of bytes u p = rest_of bytes s p" by (simp add: rest_of_def u(2))
    ultimately show "\<exists>ms. parse (s_msg_processers s) p (rest_of bytes s p @ []) = Inr (ms, rest_of bytes u p) \<and>
        q @ ms = handed s p @ q'"
      using rest_waits [OF assms(1) q(1)] by simp
  qed
qed

section \<open>Every step\<close>

text \<open>What a step reads from the socket of a connection, and what it gives to the logic.\<close>

definition data_read :: "action \<Rightarrow> 'b system \<Rightarrow> ptr \<Rightarrow> byte list" where
  "data_read a sy p =
     (case a of
        Io i renv wenv \<Rightarrow>
          (case pending_io (at sy i) of
             [] \<Rightarrow> []
           | kp # kps \<Rightarrow> if p = snd kp then io_input renv (snd kp) (network sy) else [])
      | Callback_of i (On_socket env fd which q) \<Rightarrow>
          if p = q then handler_input env fd which q (network sy) else []
      | _ \<Rightarrow> [])"

definition taken :: "action \<Rightarrow> 'b system \<Rightarrow> ptr \<Rightarrow> MsgNode list" where
  "taken a sy p = (case a of Logic_get \<Rightarrow> handed (network sy) p | _ \<Rightarrow> [])"

lemma exec_in_step:
  assumes "evbuffer_laws ops bytes" and "system_ok n sy" and "homed (network sy)" and "reads_ok bytes (network sy)"
    and "enabled ops a sy" and "exec ops a sy = Inr sy'"
  shows "in_moves bytes (data_read a sy) (taken a sy) (network sy) (network sy')"
proof -
  let ?s = "network sy" and ?u = "network sy'"
  note nok = system_okD(1) [OF assms(2)]
  note ok = net_okD [OF nok]
  have dry: "data_read a sy = (\<lambda>p. [])" if "\<nexists>i r w. a = Io i r w" "\<nexists>i cb. a = Callback_of i cb"
    using that by (cases a) (simp_all add: data_read_def fun_eq_iff)
  have none: "taken a sy = (\<lambda>p. [])" if "a \<noteq> Logic_get"
    using that by (cases a) (simp_all add: taken_def fun_eq_iff)
  have worker: "\<exists>t. get_td i ?s = Inr t \<and> tables_ok t ?s" if "is_worker i ?s" for i
    using that ok(8) by (auto simp: is_worker_def worker_ok_def)
  show ?thesis
  proof (cases a)
    case (Logic_send md)
    then have u: "net_send md ?s = Inr ?u" using assms(6) by (auto simp: on_net_Inr)
    have "in_moves bytes (\<lambda>p. []) (\<lambda>p. []) ?s ?u"
    proof (cases "\<exists>m. md = Some m \<and> msg_conn m \<noteq> NULLP")
      case False
      then have "?u = ?s" using u by (auto simp: net_send_def split: option.splits if_splits)
      with in_same [OF assms(4), of ?s] show ?thesis by simp
    next
      case True
      with assms(5) Logic_send obtain m i c where m: "md = Some m" "conns ?s (msg_conn m) = Some c" "td c = Some i"
        "msg_conn m \<noteq> NULLP" by (auto simp: owned_def)
      from ok(9) [OF m(2)] m(3) obtain t where "get_td i ?s = Inr t" by (auto simp: conn_ok_def is_worker_def)
      moreover have "get_conn (msg_conn m) ?s = Inr c" using m by (simp add: get_conn_Inr)
      ultimately show ?thesis using in_send [OF assms(4) u [unfolded m(1)] _ m(3)] by blast
    qed
    with Logic_send dry none show ?thesis by simp
  next
    case Logic_get
    then obtain ms where "get_net_msgs [] ?s = Inr (ms, ?u)" using assms(6) by (auto simp: on_net_Inr)
    moreover have "taken Logic_get sy = handed ?s" by (simp add: taken_def fun_eq_iff)
    ultimately show ?thesis using in_get [OF assms(4) nok] Logic_get dry by simp
  next
    case (Logic_close now p)
    then obtain i where own: "owned i p ?s" using assms(5) by auto
    have u: "conn_close now p ?s = Inr ?u" using Logic_close assms(6) by (auto simp: on_net_Inr)
    from owned_usable [OF nok own] obtain c where "get_conn p ?s = Inr c" by blast
    from in_moves_socket [OF conn_close_reads_in [OF u this] own assms(4)] Logic_close dry none show ?thesis by simp
  next
    case (Logic_connect env peer new)
    with in_net_connect [OF assms(4), of new ?u env peer] assms(5,6) dry none show ?thesis by (auto simp: on_net_Inr)
  next
    case (Accept_ready env fd)
    with assms(5,6) have u: "event_handler ops env fd EV_READ (listener sy) ?s = Inr ?u"
      "\<And>a. a \<in> set (io_accepts env) \<Longrightarrow> int_fd (ac_sfd a)" by (auto simp: on_net_Inr)
    from listener_event [where env = env and ops = ops and fd = fd, OF nok system_okD(2) [OF assms(2)] u(2)] u(1)
    obtain v where v: "net_ok n v" "hands ?s v" "evolves v ?u" "touches (listener sy) v ?u"
      "map_option conn_read_msgs (conns ?u (listener sy)) = map_option conn_read_msgs (conns v (listener sy))" by auto
    have "in_moves bytes (\<lambda>p. []) (\<lambda>p. []) ?s ?u"
    proof (rule in_quiet [OF assms(4)])
      from v(2,3) show "s_msg_processers ?u = s_msg_processers ?s" by (simp add: hands_def evolves_def)
      have l: "listening (listener sy) ?s" by (rule system_okD(2) [OF assms(2)])
      then have shut: "\<not> is_open (listener sy) ?s"
        by (auto simp: is_open_def out_view_def listening_def)
      show "(\<exists>c. conns ?s p = Some c \<and> same_reads p c c') \<or> \<not> is_open p ?s \<and> read_ok bytes p c'"
        if c': "conns ?u p = Some c'" for p c'
      proof (cases "p = listener sy")
        case False
        with v(2,4) c' show ?thesis by (simp add: hands_def touches_def)
      next
        case True
        with c' v(2,3,5) obtain c where c: "conns ?s p = Some c" "conn_evolves c c'" "conn_read_msgs c' = conn_read_msgs c"
          using evolves_conns_back [OF v(3) c'] by (auto simp: hands_def)
        with l True have "td c = None" by (auto simp: listening_def)
        with reads_okD [OF assms(4) c(1)] c(2,3) have "read_ok bytes p c'" by (simp add: read_ok_def conn_evolves_def)
        with shut True show ?thesis by blast
      qed
      show "filter (\<lambda>m. msg_conn m = p) (td_reads ?u i) = filter (\<lambda>m. msg_conn m = p) (td_reads ?s i)"
        if "owned i p ?s" for p i
      proof -
        from that ok(9) obtain t where "get_td i ?s = Inr t" by (fastforce simp: owned_def conn_ok_def is_worker_def)
        with v(2) obtain t' where "get_td i v = Inr t'" "td_read_msgs t' = td_read_msgs t" unfolding hands_def by blast
        moreover have "get_td i ?u = get_td i v" using v(4) by (simp add: get_td_def touches_def)
        ultimately show ?thesis using \<open>get_td i ?s = Inr t\<close> by (simp add: td_reads_def)
      qed
    qed
    with Accept_ready dry none show ?thesis by simp
  next
    case (Distribute i)
    with assms(5) worker [of i] obtain t where t: "get_td i ?s = Inr t" "tables_ok t ?s" by auto
    from Distribute assms(6) have "distribute_writes i ?s = Inr ?u" by (auto simp: on_net_Inr goto_Inr)
    from in_distribute [OF assms(4) this t ok(4)] Distribute dry none show ?thesis by simp
  next
    case (Collect i)
    with assms(5) worker [of i] obtain t where t: "get_td i ?s = Inr t" by auto
    from Collect assms(6) have "collect_reads i ?s = Inr ?u" by (auto simp: on_net_Inr goto_Inr)
    from in_collect [OF assms(4) nok assms(3) t this] Collect dry none show ?thesis by simp
  next
    case (Connect i w)
    with assms(6) have u: "connect_phase w ?s = Inr ?u" by (auto simp: on_net_Inr goto_Inr)
    from hand_out_hands [OF nok refl, of w] u have "net_ok n ?u" "hands ?s ?u" by (auto simp: connect_phase_def)
    with in_hands [OF assms(4) nok this] Connect dry none show ?thesis by (simp add: hands_def)
  next
    case (Io i renv wenv)
    with assms(5) worker [of i] obtain t k p kps where t: "get_td i ?s = Inr t"
      and at: "at sy i = At_io ((k, p) # kps)" and rm: "room ops renv p ?s" by auto
    from Io assms(6) at have u: "io_one ops (\<lambda>p. (renv, wenv)) (k, p) ?s = Inr ?u"
      by (auto simp: on_net_Inr goto_Inr pending_io_def)
    have "(k, p) \<in> set (thread_connections t)"
      using system_okD(4) [OF assms(2) t] at by (simp add: pending_io_def)
    note own = served_owned(1) [OF nok t this]
    from owned_usable [OF nok own] obtain c where
      c: "get_conn p ?s = Inr c" "usable (s_msg_processers ?s) c" "state c \<noteq> CS_LISTEN" by blast
    have "reads_in bytes p (io_input renv p ?s) ?s ?u"
      using io_one_reads_in [OF assms(1) u c ok(4,6)] rm by simp
    note m = in_moves_socket [OF this own assms(4)]
    have "data_read a sy = (\<lambda>q. if q = p then io_input renv p ?s else [])"
      by (simp add: data_read_def Io at pending_io_def fun_eq_iff)
    with m none Io show ?thesis by simp
  next
    case (Callback_of i cb)
    with assms(5) worker [of i] obtain t where t: "get_td i ?s = Inr t" by auto
    show ?thesis
    proof (cases cb)
      case (On_socket env fd which p)
      from assms(6) Callback_of On_socket have u: "event_handler ops env fd which p ?s = Inr ?u"
        by (auto simp: on_net_Inr take_byte_def)
      have own: "owned i p ?s" and rm: "room ops env p ?s"
        using assms(5) Callback_of On_socket by (simp_all add: callback_enabled_def)
      from owned_usable [OF nok own] obtain c where
        c: "get_conn p ?s = Inr c" "usable (s_msg_processers ?s) c" "state c \<noteq> CS_LISTEN" by blast
      note m = in_moves_socket [OF event_handler_reads_in [OF assms(1) u c rm] own assms(4)]
      have "data_read a sy = (\<lambda>q. if q = p then handler_input env fd which p ?s else [])"
        by (simp add: data_read_def Callback_of On_socket fun_eq_iff)
      with m none Callback_of show ?thesis by simp
    next
      case (On_pipe env byte)
      from assms(6) Callback_of On_pipe have u: "thread_libevent_process ops env byte i ?s = Inr ?u"
        by (auto simp: on_net_Inr take_byte_def split: option.split_asm)
      have "in_moves bytes (\<lambda>p. []) (\<lambda>p. []) ?s ?u"
      proof (cases byte)
        case None
        with u have "?u = ?s" by (simp add: thread_libevent_process_def)
        with in_same [OF assms(4), of ?s] show ?thesis by simp
      next
        case (Some b)
        with assms(5) Callback_of On_pipe have b: "b = 0x63" "0 < pipe sy i" "fresh (ce_new env) ?s"
          by (auto simp: callback_enabled_def)
        with system_okD(3) [OF assms(2) t] obtain ci rest where ci: "new_connections t = ci # rest"
          by (cases "new_connections t") auto
        from thread_libevent_process_ok [OF nok t ci b(3), of ops] u Some b(1) have
          d: "pipe_done n ops i t rest ?s ?u" by auto
        then have "s_msg_processers ?u = s_msg_processers ?s" by (simp add: pipe_done_def)
        from in_pipe [OF assms(4,1) t d this] show ?thesis .
      qed
      moreover have "data_read a sy = (\<lambda>p. [])" by (simp add: data_read_def Callback_of On_pipe fun_eq_iff)
      ultimately show ?thesis using none Callback_of by simp
    qed
  next
    case (Reap i raw)
    with assms(5) worker [of i] obtain t where t: "get_td i ?s = Inr t" by auto
    from Reap assms(6) have u: "reap_phase raw i ?s = Inr ?u" by (auto simp: on_net_Inr goto_Inr)
    from reap_phase_ok [OF nok t, of raw] u have d: "phase_done n i ?s ?u" by auto
    with in_phase [OF assms(4) d t nok] Reap dry none show ?thesis by (simp add: phase_done_def)
  next
    case (Purge i now)
    with assms(5) worker [of i] obtain t where t: "get_td i ?s = Inr t" by auto
    from Purge assms(6) have u: "purge_phase now i ?s = Inr ?u" by (auto simp: on_net_Inr goto_Inr)
    from purge_phase_ok [OF nok t, of now] u have d: "phase_done n i ?s ?u" by auto
    with in_phase [OF assms(4) d t nok] Purge dry none show ?thesis by (simp add: phase_done_def)
  qed
qed

section \<open>Every run\<close>

text \<open>The invariant of the read side holds from the start.\<close>

definition in_ok :: "'b evbuffer_ops \<Rightarrow> ('b \<Rightarrow> byte list) \<Rightarrow> nat \<Rightarrow> 'b system \<Rightarrow> bool" where
  "in_ok ops bytes n sy \<longleftrightarrow> out_ok ops bytes n sy \<and> reads_ok bytes (network sy)"

lemma in_step:
  assumes "in_ok ops bytes n sy" and "sys_step ops a sy sy'"
  shows "in_ok ops bytes n sy'"
    and "in_moves bytes (data_read a sy) (taken a sy) (network sy) (network sy')"
proof -
  show m: "in_moves bytes (data_read a sy) (taken a sy) (network sy) (network sy')"
    using exec_in_step [of ops bytes n sy a sy'] assms by (simp add: in_ok_def out_ok_def sys_step_def channels_ok_def)
  with out_step(1) [of ops bytes n sy a sy'] assms show "in_ok ops bytes n sy'"
    by (simp add: in_ok_def in_moves_def)
qed

lemma boot_reads_ok:
  assumes "boot ops be s = Inr (True, sy)" and "blank s" and "net_thread_num (s_net_setting s) = of_nat n"
    and "n < 2 ^ 31" and "fresh (ce_new (be_create be)) s"
  shows "reads_ok bytes (network sy)"
proof -
  from boot_made [OF assms] obtain fd base where
    "conns (network sy) = (\<lambda>p. if p = ce_new (be_create be)
      then Some (created ops (be_create be) fd CS_LISTEN base new_Connection) else None)" by blast
  then show ?thesis by (simp add: reads_ok_def read_ok_def created_def new_Connection_def)
qed

lemma reachable_in_ok:
  assumes "reachable ops n sy" and "evbuffer_laws ops bytes"
  shows "in_ok ops bytes n sy"
  using assms
proof (induction rule: reachable.induct)
  case (reachable_boot s be sy)
  have "reachable ops n sy" using reachable_boot.hyps by (rule reachable.reachable_boot)
  with reachable_out_ok reachable_boot.prems boot_reads_ok [of ops be s sy n bytes] reachable_boot.hyps
  show ?case by (simp add: in_ok_def)
next
  case (reachable_step sy a sy')
  with in_step(1) [of ops bytes n sy a sy'] show ?case by (simp add: sys_step_def)
qed

text \<open>The messages that the bytes a step reads complete.\<close>

definition completed :: "('b \<Rightarrow> byte list) \<Rightarrow> action \<Rightarrow> 'b system \<Rightarrow> ptr \<Rightarrow> MsgNode list" where
  "completed bytes a sy p =
     (case parse (s_msg_processers (network sy)) p (rest_of bytes (network sy) p @ data_read a sy p) of
        Inl f \<Rightarrow> []
      | Inr (ms, r) \<Rightarrow> ms)"

interpretation in_queue: fifo_system "sys_step ops" "in_ok ops bytes n" "\<lambda>sy. inbox (network sy)" "completed bytes" taken
  for ops :: "'b evbuffer_ops" and bytes n
proof unfold_locales
  fix s s' :: "'b system" and a p q q'
  assume "in_ok ops bytes n s" and "sys_step ops a s s'"
    and "inbox (network s) p = Some q" "inbox (network s') p = Some q'"
  with in_step(2) [OF this(1,2)] show "q @ completed bytes a s p = taken a s p @ q'"
    by (fastforce simp: in_moves_def completed_def)
qed (rule in_step(1))

text \<open>Over a run the messages are those of the whole stream.\<close>

lemma run_parses:
  assumes "run ops sy tr sy'" and "in_ok ops bytes n sy"
    and "\<forall>x \<in> set tr. is_open p (network (snd x))" and "is_open p (network sy')"
  shows "s_msg_processers (network sy') = s_msg_processers (network sy) \<and>
    parse (s_msg_processers (network sy)) p
      (rest_of bytes (network sy) p @ along data_read tr p) =
    Inr (along (completed bytes) tr p, rest_of bytes (network sy') p)"
  using assms
proof (induction rule: trace.induct)
  case (trace_done sy)
  then obtain q where "inbox (network sy) p = Some q" using inbox_open by blast
  from rest_waits [OF _ this] trace_done show ?case by (simp add: in_ok_def)
next
  case (trace_more a sy sy1 tr sy')
  let ?procs = "s_msg_processers (network sy)" and ?d = "data_read a sy p"
  have op: "is_open p (network sy)" "is_open p (network sy1)"
    using trace_more.prems(2) trace_next [OF trace_more.hyps(2), of "\<lambda>s. is_open p (network s)"] trace_more.prems(3) by auto
  then obtain q q1 where "inbox (network sy) p = Some q" "inbox (network sy1) p = Some q1" using inbox_open by blast
  with in_step(2) [OF trace_more.prems(1) trace_more.hyps(1)] obtain ms where
    one: "parse ?procs p (rest_of bytes (network sy) p @ ?d) = Inr (ms, rest_of bytes (network sy1) p)"
      "s_msg_processers (network sy1) = ?procs"
    unfolding in_moves_def by blast
  then have c: "completed bytes a sy p = ms" by (simp add: completed_def)
  from trace_more.IH [OF in_step(1) [OF trace_more.prems(1) trace_more.hyps(1)] _ trace_more.prems(3)] trace_more.prems(2) one(2)
  have ih: "s_msg_processers (network sy') = ?procs"
    "parse ?procs p (rest_of bytes (network sy1) p @ along data_read tr p) =
     Inr (along (completed bytes) tr p, rest_of bytes (network sy') p)" by simp_all
  have "parse ?procs p ((rest_of bytes (network sy) p @ ?d) @ along data_read tr p) =
    Inr (ms @ along (completed bytes) tr p, rest_of bytes (network sy') p)"
    by (subst decode_append) (simp only: one(1) ih(2) bind_res.simps prod.case)
  with ih(1) c show ?case by simp
qed

text \<open>What the logic is given of a connection, over a run in which it stays open, is what the bytes
  that were read stand for.\<close>

theorem run_receives:
  assumes "run ops sy tr sy'" and "reachable ops n sy" and "evbuffer_laws ops bytes"
    and "\<forall>x \<in> set tr. is_open p (network (snd x))" and "is_open p (network sy')"
    and "inbox (network sy) p = Some q"
  shows "\<exists>ms q'. inbox (network sy') p = Some q' \<and>
    parse (s_msg_processers (network sy)) p
      (rest_of bytes (network sy) p @ along data_read tr p) = Inr (ms, rest_of bytes (network sy') p) \<and>
    q @ ms = along taken tr p @ q'"
proof -
  note ok = reachable_in_ok [OF assms(2,3)]
  from assms(5) obtain q' where q': "inbox (network sy') p = Some q'" using inbox_open by blast
  have "\<forall>x \<in> set tr. inbox (network (snd x)) p \<noteq> None" using assms(4) inbox_open by blast
  from in_queue.trace_fifo [OF assms(1) ok this assms(6) q'] run_parses [OF assms(1) ok assms(4,5)] q'
  show ?thesis by blast
qed

end
