(* ===== verification/GF_Link.thy ===== *)
theory GF_Link
  imports GF_Inbox "HOL-Library.Sublist"
begin

text \<open>
  Two processes of the program joined by a connection: one end sends, the kernels carry the bytes,
  the other end reads. Over any run of the threads of either end, what the logic of the receiver is
  given is a prefix of what was sent, and all of it once nothing is under way.
\<close>

section \<open>Two ends\<close>

text \<open>The messages \<open>net_send\<close> takes for a connection.\<close>

definition sent_on :: "action \<Rightarrow> 'b system \<Rightarrow> ptr \<Rightarrow> MsgNode list" where
  "sent_on a sy p =
     (case a of
        Logic_send (Some m) \<Rightarrow> if p = msg_conn m \<and> is_open (msg_conn m) (network sy) then [m] else []
      | _ \<Rightarrow> [])"

lemma accepted_sent: "accepted a sy p = concat (map frame_bytes (sent_on a sy p))"
  by (auto simp: accepted_def sent_on_def split: action.split option.split)

lemma along_accepted: "along accepted tr p = concat (map frame_bytes (along sent_on tr p))"
  by (induction tr) (auto simp: accepted_sent)

text \<open>A run of one end in which its end of the connection stays open, from a state in which
  nothing is under way on it.\<close>

definition sends :: "'b evbuffer_ops \<Rightarrow> ('b \<Rightarrow> byte list) \<Rightarrow> ptr \<Rightarrow> 'b system \<Rightarrow> (action \<times> 'b system) list \<Rightarrow> 'b system \<Rightarrow> bool" where
  "sends ops bytes p sy tr sy' \<longleftrightarrow> (\<exists>n. reachable ops n sy) \<and> evbuffer_laws ops bytes \<and> run ops sy tr sy' \<and>
     (\<forall>x \<in> set tr. is_open p (network (snd x))) \<and> is_open p (network sy') \<and>
     channel bytes (network sy) p = Some []"

definition receives :: "'b evbuffer_ops \<Rightarrow> ('b \<Rightarrow> byte list) \<Rightarrow> ptr \<Rightarrow> 'b system \<Rightarrow> (action \<times> 'b system) list \<Rightarrow> 'b system \<Rightarrow> bool" where
  "receives ops bytes p sy tr sy' \<longleftrightarrow> (\<exists>n. reachable ops n sy) \<and> evbuffer_laws ops bytes \<and> run ops sy tr sy' \<and>
     (\<forall>x \<in> set tr. is_open p (network (snd x))) \<and> is_open p (network sy') \<and>
     inbox (network sy) p = Some [] \<and> rest_of bytes (network sy) p = []"

lemma sends_bytes:
  assumes "sends ops bytes p sy tr sy'"
  shows "\<exists>q. channel bytes (network sy') p = Some q \<and>
    concat (map frame_bytes (along sent_on tr p)) = along (written_out ops) tr p @ q"
proof -
  from assms obtain n where a: "reachable ops n sy" "evbuffer_laws ops bytes" "run ops sy tr sy'"
    "\<forall>x \<in> set tr. is_open p (network (snd x))" "is_open p (network sy')"
    "channel bytes (network sy) p = Some []" by (auto simp: sends_def)
  from run_fifo [OF a(3,1,2,4-6)] show ?thesis by (simp add: along_accepted)
qed

lemma receives_messages:
  assumes "receives ops bytes p sy tr sy'"
  shows "\<exists>ms q. inbox (network sy') p = Some q \<and>
    parse (s_msg_processers (network sy)) p (along data_read tr p) = Inr (ms, rest_of bytes (network sy') p) \<and>
    ms = along taken tr p @ q"
proof -
  from assms obtain n where a: "reachable ops n sy" "evbuffer_laws ops bytes" "run ops sy tr sy'"
    "\<forall>x \<in> set tr. is_open p (network (snd x))" "is_open p (network sy')"
    "inbox (network sy) p = Some []" and r: "rest_of bytes (network sy) p = []" by (auto simp: receives_def)
  from run_receives [OF a(3,1,2,4-6)] r show ?thesis by auto
qed

text \<open>The bytes of the frames, cut anywhere.\<close>

lemma parse_prefix:
  assumes "\<And>n. n \<in> set ns \<Longrightarrow> sendable procs n" and "prefix d (concat (map frame_bytes ns))"
    and "parse procs p d = Inr (ms, r)"
  shows "prefix ms (map (delivered (0, 0, 0) p) ns)"
proof -
  from assms(2) obtain e where e: "concat (map frame_bytes ns) = d @ e" by (auto simp: prefix_def)
  have "parse procs p (d @ e) = Inr (map (delivered (0, 0, 0) p) ns, [])"
    using decode_frames [of ns procs "(0, 0, 0)" p, OF assms(1)] e by simp
  then obtain ms' where "ms @ ms' = map (delivered (0, 0, 0) p) ns"
    by (auto simp: decode_append [of procs "(0, 0, 0)" p d e] assms(3))
  then show ?thesis unfolding prefix_def by metis
qed

theorem link_prefix:
  assumes "sends ops_a bytes_a p a tr_a a'" and "receives ops_b bytes_b q b tr_b b'"
    and "prefix (along data_read tr_b q) (along (written_out ops_a) tr_a p)"
    and "\<And>m. m \<in> set (along sent_on tr_a p) \<Longrightarrow> sendable (s_msg_processers (network b)) m"
  shows "prefix (along taken tr_b q) (map (delivered (0, 0, 0) q) (along sent_on tr_a p))"
proof -
  from sends_bytes [OF assms(1)] assms(3) have "prefix (along data_read tr_b q) (concat (map frame_bytes (along sent_on tr_a p)))"
    by (auto simp: prefix_def)
  moreover from receives_messages [OF assms(2)] obtain w ms where
    "parse (s_msg_processers (network b)) q (along data_read tr_b q) = Inr (ms, rest_of bytes_b (network b') q)"
    "ms = along taken tr_b q @ w" by blast
  ultimately have "prefix ms (map (delivered (0, 0, 0) q) (along sent_on tr_a p))"
    using parse_prefix [OF assms(4)] by blast
  with \<open>ms = along taken tr_b q @ w\<close> show ?thesis using prefix_order.trans [of "along taken tr_b q" ms] by auto
qed

theorem link_complete:
  assumes "sends ops_a bytes_a p a tr_a a'" and "receives ops_b bytes_b q b tr_b b'"
    and "along data_read tr_b q = along (written_out ops_a) tr_a p"
    and "\<And>m. m \<in> set (along sent_on tr_a p) \<Longrightarrow> sendable (s_msg_processers (network b)) m"
    and "channel bytes_a (network a') p = Some []" and "inbox (network b') q = Some []"
  shows "along taken tr_b q = map (delivered (0, 0, 0) q) (along sent_on tr_a p)"
proof -
  from sends_bytes [OF assms(1)] assms(3,5) have "concat (map frame_bytes (along sent_on tr_a p)) = along data_read tr_b q"
    by simp
  moreover from receives_messages [OF assms(2)] assms(6) have
    "parse (s_msg_processers (network b)) q (along data_read tr_b q) =
      Inr (along taken tr_b q, rest_of bytes_b (network b') q)" by auto
  ultimately show ?thesis
    using decode_frames [of "along sent_on tr_a p" "s_msg_processers (network b)" "(0, 0, 0)" q, OF assms(4)] by simp
qed

end
