(* ===== verification/GF_Progress.thy ===== *)
theory GF_Progress
  imports GF_Link
begin

text \<open>
  What the threads can always do. From every reachable state every worker can take its next turn of
  \<open>data_thread_worker\<close>, and from every reachable state of two processes whose ends of a connection
  are open, messages that are sent on one end can be brought to the logic of the other: no order in
  which the threads ran before makes that impossible.
\<close>

section \<open>The turn of a worker\<close>

text \<open>The environment of a turn in which the sockets have nothing to read and take nothing.\<close>

definition quiet_env :: io_env where
  "quiet_env = \<lparr> io_read = Read_error True, io_write = Write_error True, io_accepts = [], io_del = 0,
     io_add = 0, io_now = 0, io_raw = (0, 0, 0) \<rparr>"

lemma quiet_env_simps [simp]:
  "io_read quiet_env = Read_error True" "io_write quiet_env = Write_error True"
  "io_del quiet_env = 0" "io_add quiet_env = 0"
  by (simp_all add: quiet_env_def)

fun turn :: "u64 \<Rightarrow> phase \<Rightarrow> action" where
  "turn i At_distribute = Distribute i"
| "turn i At_collect = Collect i"
| "turn i At_connect = Connect i (\<lambda>ci. 1)"
| "turn i (At_io []) = Reap i (0, 0, 0)"
| "turn i (At_io (kp # kps)) = Io i quiet_env quiet_env"
| "turn i At_purge = Purge i 0"

fun next_phase :: "(u64 \<times> ptr) list \<Rightarrow> phase \<Rightarrow> phase" where
  "next_phase kps At_distribute = At_collect"
| "next_phase kps At_collect = At_connect"
| "next_phase kps At_connect = At_io kps"
| "next_phase kps (At_io []) = At_purge"
| "next_phase kps (At_io (x # xs)) = At_io xs"
| "next_phase kps At_purge = At_distribute"

text \<open>An open connection of a worker, and a worker that has nothing to distribute.\<close>

definition serves :: "u64 \<Rightarrow> ptr \<Rightarrow> 'b net_state \<Rightarrow> bool" where
  "serves i p s \<longleftrightarrow> (\<exists>c. conns s p = Some c \<and> td c = Some i \<and> state c \<noteq> CS_CLOSE)"

definition emptied :: "u64 \<Rightarrow> 'b net_state \<Rightarrow> bool" where
  "emptied i s \<longleftrightarrow> (\<forall>t. get_td i s = Inr t \<longrightarrow> td_write_msgs t = [])"

definition collected :: "u64 \<Rightarrow> 'b net_state \<Rightarrow> bool" where
  "collected i s \<longleftrightarrow> (\<forall>p c. serves i p s \<longrightarrow> conns s p = Some c \<longrightarrow> conn_read_msgs c = [])"

lemma serves_open: "serves i p s \<Longrightarrow> is_open p s"
  by (auto simp: serves_def is_open_def out_view_def)

lemma open_serves: "is_open p s \<Longrightarrow> \<exists>i. serves i p s"
  by (auto simp: serves_def is_open_def out_view_def split: option.split_asm if_split_asm)

lemma serves_owned: "serves i p s \<Longrightarrow> owned i p s"
  by (auto simp: serves_def owned_def)

text \<open>What a turn keeps.\<close>

definition turned :: "u64 \<Rightarrow> 'b net_state \<Rightarrow> 'b net_state \<Rightarrow> bool" where
  "turned i s u \<longleftrightarrow> (\<forall>p. serves i p s \<longrightarrow> serves i p u) \<and> (emptied i s \<longrightarrow> emptied i u) \<and> s_cnt u = s_cnt s"

lemma turned_refl [simp]: "turned i s s"
  by (simp add: turned_def)

lemma turned_trans: "turned i a b \<Longrightarrow> turned i b c \<Longrightarrow> turned i a c"
  by (auto simp: turned_def)

subsection \<open>The phases\<close>

lemma distribute_cnt: "distribute_writes i s = Inr u \<Longrightarrow> s_cnt u = s_cnt s"
proof -
  assume a: "distribute_writes i s = Inr u"
  then obtain t where f: "fold_res (distribute_one i) (td_write_msgs t) (put_td i (t\<lparr> td_write_msgs := [] \<rparr>) s) = Inr u"
    by (auto simp: distribute_writes_def)
  show ?thesis
    by (rule fold_res_invariant [OF f, of "\<lambda>u. s_cnt u = s_cnt s"])
      (auto simp: distribute_one_def upd_conn_Inr split: option.split_asm if_split_asm)
qed

lemma turned_distribute:
  assumes "net_ok n s" and "get_td i s = Inr t" and "distribute_writes i s = Inr u"
  shows "turned i s u" and "emptied i u"
proof -
  note ok = net_okD [OF assms(1)]
  have "tables_ok t s" using ok(8) [OF assms(2)] by (simp add: worker_ok_def)
  from distribute_writes_result [OF assms(2) this ok(4)] assms(3) have
    u: "get_td i u = Inr (t\<lparr> td_write_msgs := [] \<rparr>)" "conns u = with_writes t (td_write_msgs t) s" by auto
  show "emptied i u" by (simp add: emptied_def u(1))
  then show "turned i s u" using distribute_cnt [OF assms(3)]
    by (auto simp: turned_def serves_def u(2) with_writes_def)
qed

lemma turned_collect:
  assumes "net_ok n s" and "homed s" and "get_td i s = Inr t" and "collect_reads i s = Inr u"
  shows "turned i s u" and "collected i u"
proof -
  note ok = net_okD [OF assms(1)]
  have "tables_ok t s" using ok(8) [OF assms(3)] by (simp add: worker_ok_def)
  from collect_reads_result [OF assms(3) this] assms(4) obtain ms where
    u: "get_td i u = Inr (t\<lparr> td_read_msgs := ms \<rparr>)" "conns u = without_reads (set (served t)) s" by auto
  from worker_index [OF ok(2) assms(3)] obtain k where k: "k < n" "i = of_nat k" .
  from collect_reads_workers [OF ok(2) k(1), of u] assms(4) k(2) have "s_cnt u = s_cnt s" by simp
  then show "turned i s u" using assms(3)
    by (auto simp: turned_def serves_def u without_reads_def emptied_def)
  have "p \<in> set (served t)" if "conns s p = Some c" "td c = Some i" "state c \<noteq> CS_CLOSE" for p c
    using assms(2,3) that unfolding homed_def by fastforce
  then show "collected i u"
    by (auto simp: collected_def serves_def u(2) without_reads_def split: if_split_asm)
qed

lemma turned_connect:
  assumes "net_ok n s" and "get_td i s = Inr t" and "connect_phase w s = Inr u"
  shows "turned i s u"
proof -
  from hand_out_hands [OF assms(1) refl, of w] assms(3) have h: "hands s u" by (auto simp: connect_phase_def)
  then have "\<exists>t'. get_td i u = Inr t' \<and> td_write_msgs t' = td_write_msgs t"
    using assms(2) unfolding hands_def by blast
  with h assms(2) show ?thesis by (auto simp: turned_def serves_def hands_def emptied_def)
qed

lemma turned_phase:
  assumes "net_ok n s" and "get_td i s = Inr t" and "phase_done n i s u"
  shows "turned i s u"
proof -
  have c: "\<And>p c. state c \<noteq> CS_CLOSE \<Longrightarrow> conns u p = Some c \<longleftrightarrow> conns s p = Some c"
    and w: "\<And>t'. get_td i u = Inr t' \<Longrightarrow> td_write_msgs t' = td_write_msgs t" and "s_cnt u = s_cnt s"
    using assms(2,3) unfolding phase_done_def by blast+
  then show ?thesis using assms(2) by (auto simp: turned_def serves_def emptied_def)
qed

text \<open>A socket with nothing to read and no room is left open.\<close>

definition stays :: "ptr \<Rightarrow> 'b net_state \<Rightarrow> bool" where
  "stays p s \<longleftrightarrow> (\<exists>c. get_conn p s = Inr c \<and> state c \<noteq> CS_CLOSE \<and> state c \<noteq> CS_LISTEN \<and> based c)"

lemma stays_update_event:
  assumes "stays p s" and "evt = EV_READ \<or> evt = EV_WRITE"
  shows "\<exists>u. update_event 0 0 p evt s = Inr (True, u) \<and> stays p u"
proof -
  from assms(1) obtain c where c: "get_conn p s = Inr c" "p \<noteq> NULLP" "state c \<noteq> CS_CLOSE" "state c \<noteq> CS_LISTEN" "based c"
    by (auto simp: stays_def get_conn_Inr)
  show ?thesis
    using assms(2) c by (auto simp: stays_def update_event_def based_def Let_def event_set_def get_conn_def)
qed

lemma stays_upd: "stays p s \<Longrightarrow> (\<And>c. state (f c) = state c \<and> based (f c) = based c) \<Longrightarrow>
    \<exists>u. upd_conn p f s = Inr u \<and> stays p u"
  by (auto simp: stays_def upd_conn_def get_conn_Inr get_conn_def)

lemma stays_on_read:
  assumes "stays p s"
  shows "\<exists>u. on_read ops quiet_env p s = Inr u \<and> stays p u"
proof -
  from stays_upd [OF assms, of "\<lambda>c. c\<lparr> can_read := False \<rparr>"] obtain s1 where
    s1: "upd_conn p (\<lambda>c. c\<lparr> can_read := False \<rparr>) s = Inr s1" "stays p s1" by auto
  from stays_update_event [OF s1(2), of EV_READ] obtain s2 where
    "update_event 0 0 p EV_READ s1 = Inr (True, s2)" "stays p s2" by auto
  with s1 assms show ?thesis by (auto simp: on_read_def conn_get_state_def stays_def get_conn_Inr)
qed

lemma stays_on_write:
  assumes "stays p s" and "get_conn p s = Inr c" and "usable (s_msg_processers s) c"
  shows "\<exists>u. on_write ops quiet_env p s = Inr u \<and> stays p u"
proof -
  from assms(1,2) have p: "p \<noteq> NULLP" and st: "state c \<noteq> CS_CLOSE" "state c \<noteq> CS_LISTEN" "based c"
    by (auto simp: stays_def get_conn_Inr)
  from assms(3) st(1) obtain wb where wb: "write_buffer c = Some wb" by (auto simp: usable_def)
  from fill_write_buffer_total [of "s_msg_processers s" "conn_write_msgs c" ops wb "[]"] assms(3) obtain wb' ds where
    f: "fill_write_buffer ops (s_msg_processers s) (conn_write_msgs c) wb [] = Inr (wb', ds)" by (auto simp: usable_def)
  let ?s1 = "put_conn p (c\<lparr> conn_write_msgs := [], write_buffer := Some wb' \<rparr>) (if ds = [] then s else log_effect (Dispose ds) s)"
  have s1: "stays p ?s1" using p st by (auto simp: stays_def get_conn_Inr)
  from stays_upd [OF s1, of "\<lambda>c. c\<lparr> can_write := True \<rparr>"] stays_update_event [OF s1, of EV_WRITE]
  obtain u1 u2 where "upd_conn p (\<lambda>c. c\<lparr> can_write := True \<rparr>) ?s1 = Inr u1" "stays p u1"
    "update_event 0 0 p EV_WRITE ?s1 = Inr (True, u2)" "stays p u2" by auto
  with p assms(2) st(1) wb f show ?thesis by (auto simp: on_write_def conn_get_state_def Let_def)
qed

text \<open>The loop over the connections, one connection at a time.\<close>

lemma stays_io_one:
  assumes "stays p s" and "get_conn p s = Inr c" and "usable (s_msg_processers s) c"
    and "procs_ok (s_msg_processers s)" and "well_typed s"
  shows "\<exists>u. io_one ops (\<lambda>p. (quiet_env, quiet_env)) (k, p) s = Inr u \<and> stays p u"
proof -
  from assms(1,2) have st: "state c \<noteq> CS_CLOSE" "state c \<noteq> CS_LISTEN" by (auto simp: stays_def)
  have open_event: "process_event ops quiet_env p e s = (if e = EV_READ then on_read ops quiet_env p s else on_write ops quiet_env p s)"
    if "get_conn p s = Inr c" "state c \<noteq> CS_LISTEN" "e = EV_READ \<or> e = EV_WRITE" for s :: "'a net_state" and c e
    using process_event_open [OF that(1,2), of ops quiet_env e] that(3) by auto
  have "\<exists>s1. (if can_read c then process_event ops quiet_env p EV_READ s else Inr s) = Inr s1 \<and> stays p s1 \<and> evolves s s1"
  proof (cases "can_read c")
    case True
    from stays_on_read [OF assms(1), of ops] obtain s1 where s1: "on_read ops quiet_env p s = Inr s1" "stays p s1" by blast
    with on_read_total [OF assms(2,3), of ops quiet_env] have "evolves s s1" by (auto simp: runs_def)
    with True s1 open_event [OF assms(2) st(2), of EV_READ] show ?thesis by simp
  qed (use assms(1) in simp)
  then obtain s1 where s1: "(if can_read c then process_event ops quiet_env p EV_READ s else Inr s) = Inr s1"
    "stays p s1" "evolves s s1" by blast
  from evolves_usable [OF s1(3) assms(2-5)] obtain c1 where
    c1: "get_conn p s1 = Inr c1" "usable (s_msg_processers s1) c1" by blast
  with s1(2) have "state c1 \<noteq> CS_LISTEN" by (auto simp: stays_def)
  from stays_on_write [OF s1(2) c1, of ops] open_event [OF c1(1) this, of EV_WRITE] s1(2)
  obtain u where u: "(if can_write c1 then process_event ops quiet_env p EV_WRITE s1 else Inr s1) = Inr u" "stays p u"
    by (cases "can_write c1") auto
  have "io_one ops (\<lambda>p. (quiet_env, quiet_env)) (k, p) s =
      bind_res (if can_read c then process_event ops quiet_env p EV_READ s else Inr s) (\<lambda>s1.
        bind_res (get_conn p s1) (\<lambda>c1. if can_write c1 then process_event ops quiet_env p EV_WRITE s1 else Inr s1))"
    unfolding io_one_def conn_get_state_def Let_def snd_conv fst_conv using assms(2) st(1) by simp
  also have "\<dots> = Inr u" unfolding s1(1) bind_res.simps c1(1) u(1) ..
  finally show ?thesis using u(2) by blast
qed

lemma turned_io:
  assumes "net_ok n s" and "reads_ok bytes s" and "evbuffer_laws ops bytes" and "get_td i s = Inr t"
    and "(k, p) \<in> set (thread_connections t)" and "io_one ops (\<lambda>p. (quiet_env, quiet_env)) (k, p) s = Inr u"
  shows "turned i s u"
proof -
  note ok = net_okD [OF assms(1)]
  from served_owned(1) [OF assms(1,4,5)] have own: "owned i p s" .
  from owned_usable [OF assms(1) own] obtain c where
    c: "get_conn p s = Inr c" "usable (s_msg_processers s) c" "state c \<noteq> CS_LISTEN" by blast
  have "room ops (fst (quiet_env, quiet_env)) p s" by (simp add: room_def)
  from io_one_reads_in [OF assms(3,6) c ok(4,6)] this have "reads_in bytes p (io_input quiet_env p s) s u" by simp
  then have e: "evolves s u" and t: "touches p s u" by (simp_all add: reads_in_def)
  have "serves i q u" if "serves i q s" for q
  proof (cases "q = p")
    case False
    with t that show ?thesis by (simp add: touches_def serves_def)
  next
    case True
    with that c(1) have st: "td c = Some i" "state c \<noteq> CS_CLOSE" by (auto simp: serves_def get_conn_Inr)
    from reads_okD [OF assms(2), of p c] c(1) st(1) have "based c" by (simp add: read_ok_def get_conn_Inr)
    with c st have "stays p s" by (auto simp: stays_def)
    from stays_io_one [OF this c(1,2) ok(4,6), of ops k] assms(6) have "stays p u" by auto
    then obtain c' where c': "conns u p = Some c'" "state c' \<noteq> CS_CLOSE" by (auto simp: stays_def get_conn_Inr)
    from evolves_conns [OF e, of p c] c(1) c'(1) have "td c' = td c" by (auto simp: get_conn_Inr conn_evolves_def)
    with c' st True show ?thesis by (simp add: serves_def)
  qed
  with t show ?thesis by (simp add: turned_def touches_def emptied_def get_td_def)
qed

section \<open>Every worker can take its turn\<close>

lemma exec_turn:
  assumes "system_ok n sy" and "is_worker i (network sy)"
  shows "\<exists>sy'. sys_step ops (turn i (at sy i)) sy sy'"
proof -
  have en: "enabled ops (turn i (at sy i)) sy"
  proof (cases "at sy i")
    case (At_io kps)
    with assms(2) show ?thesis
      by (cases kps) (auto simp: io_ready_def pending_io_def room_def simp del: io_ready_iff)
  qed (use assms(2) in simp_all)
  have "\<not> bad_step ops (turn i (at sy i)) sy f" for f
  proof (cases "at sy i")
    case (At_io kps)
    then show ?thesis by (cases kps) (simp_all add: bad_step_def bad_read_def pending_io_def)
  qed (simp_all add: bad_step_def)
  with exec_ok [OF assms(1) en] en show ?thesis by (auto simp: step_ok_def sys_step_def)
qed

lemma turn_step:
  assumes "in_ok ops bytes n sy" and "is_worker i (network sy)" and "sys_step ops (turn i (at sy i)) sy sy'"
  shows "turned i (network sy) (network sy')"
    and "at sy' i = next_phase (connections_of i (network sy)) (at sy i)"
    and "at sy i = At_distribute \<Longrightarrow> emptied i (network sy')"
    and "at sy i = At_collect \<Longrightarrow> collected i (network sy')"
proof -
  let ?s = "network sy" and ?u = "network sy'"
  from assms(1) have sok: "system_ok n sy" and hm: "homed ?s" and rd: "reads_ok bytes ?s" and laws: "evbuffer_laws ops bytes"
    by (simp_all add: in_ok_def out_ok_def channels_ok_def)
  note nok = system_okD(1) [OF sok]
  from assms(2) obtain t where t: "get_td i ?s = Inr t" by (auto simp: is_worker_def)
  from assms(3) have ex: "exec ops (turn i (at sy i)) sy = Inr sy'" by (simp add: sys_step_def)
  have "turned i ?s ?u \<and> at sy' i = next_phase (connections_of i ?s) (at sy i) \<and>
    (at sy i = At_distribute \<longrightarrow> emptied i ?u) \<and> (at sy i = At_collect \<longrightarrow> collected i ?u)"
  proof (cases "at sy i")
    case At_distribute
    with ex have u: "distribute_writes i ?s = Inr ?u" "at sy' i = At_collect" by (auto simp: goto_Inr on_net_Inr)
    with turned_distribute [OF nok t u(1)] At_distribute show ?thesis by simp
  next
    case At_collect
    with ex have u: "collect_reads i ?s = Inr ?u" "at sy' i = At_connect" by (auto simp: goto_Inr on_net_Inr)
    with turned_collect [OF nok hm t u(1)] At_collect show ?thesis by simp
  next
    case At_connect
    with ex have u: "connect_phase (\<lambda>ci. 1) ?s = Inr ?u" "at sy' i = At_io (connections_of i ?s)"
      by (auto simp: goto_Inr on_net_Inr)
    with turned_connect [OF nok t u(1)] At_connect show ?thesis by simp
  next
    case (At_io kps)
    show ?thesis
    proof (cases kps)
      case Nil
      with At_io ex have u: "reap_phase (0, 0, 0) i ?s = Inr ?u" "at sy' i = At_purge" by (auto simp: goto_Inr on_net_Inr)
      with reap_phase_ok [OF nok t, of "(0, 0, 0)"] turned_phase [OF nok t] At_io Nil show ?thesis by auto
    next
      case (Cons kp rest)
      obtain k p where kp: "kp = (k, p)" by fastforce
      with At_io Cons ex have u: "io_one ops (\<lambda>p. (quiet_env, quiet_env)) (k, p) ?s = Inr ?u" "at sy' i = At_io rest"
        by (auto simp: goto_Inr on_net_Inr pending_io_def)
      have "(k, p) \<in> set (thread_connections t)"
        using system_okD(4) [OF sok t] At_io Cons kp by (simp add: pending_io_def)
      from turned_io [OF nok rd laws t this u(1)] u(2) At_io Cons show ?thesis by simp
    qed
  next
    case At_purge
    with ex have u: "purge_phase 0 i ?s = Inr ?u" "at sy' i = At_distribute" by (auto simp: goto_Inr on_net_Inr)
    with purge_phase_ok [OF nok t, of 0] turned_phase [OF nok t] At_purge show ?thesis by auto
  qed
  then show "turned i ?s ?u" "at sy' i = next_phase (connections_of i ?s) (at sy i)"
    "at sy i = At_distribute \<Longrightarrow> emptied i ?u" "at sy i = At_collect \<Longrightarrow> collected i ?u" by simp_all
qed

subsection \<open>Several turns\<close>

text \<open>A run in which worker \<open>i\<close> takes turns and no other thread runs.\<close>

definition goes :: "'b evbuffer_ops \<Rightarrow> u64 \<Rightarrow> 'b system \<Rightarrow> (action \<times> 'b system) list \<Rightarrow> 'b system \<Rightarrow> bool" where
  "goes ops i sy tr sy' \<longleftrightarrow> run ops sy tr sy' \<and> turned i (network sy) (network sy') \<and>
     (\<forall>x \<in> set tr. fst x = turn i (at (snd x) i) \<and> turned i (network sy) (network (snd x)))"

lemma goes_refl [simp]: "goes ops i sy [] sy"
  by (simp add: goes_def)

lemma goes_append: "goes ops i a tr b \<Longrightarrow> goes ops i b tr' c \<Longrightarrow> goes ops i a (tr @ tr') c"
  by (fastforce simp: goes_def intro: trace_append turned_trans)

lemma goes_one:
  assumes "in_ok ops bytes n sy" and "is_worker i (network sy)"
  shows "\<exists>sy'. goes ops i sy [(turn i (at sy i), sy)] sy' \<and> in_ok ops bytes n sy' \<and> is_worker i (network sy') \<and>
    at sy' i = next_phase (connections_of i (network sy)) (at sy i) \<and>
    (at sy i = At_distribute \<longrightarrow> emptied i (network sy')) \<and> (at sy i = At_collect \<longrightarrow> collected i (network sy'))"
proof -
  have sok: "system_ok n sy" using assms(1) by (simp add: in_ok_def out_ok_def)
  from exec_turn [OF sok assms(2), of ops] obtain sy' where st: "sys_step ops (turn i (at sy i)) sy sy'" by blast
  note ok' = in_step(1) [OF assms(1) st]
  have "net_ok n (network sy)" "net_ok n (network sy')"
    using sok ok' system_okD(1) by (auto simp: in_ok_def out_ok_def)
  with assms(2) have "is_worker i (network sy')"
    using workers_both [of n "network sy'" "network sy" i] by (auto simp: is_worker_def)
  moreover have "goes ops i sy [(turn i (at sy i), sy)] sy'"
    using turn_step(1) [OF assms st] st by (auto simp: goes_def intro: trace.intros)
  ultimately show ?thesis using ok' turn_step(2-4) [OF assms st] by blast
qed

text \<open>Nothing is read, written, sent or taken in it.\<close>

lemma turn_silent:
  "data_read (turn i (at sy i)) sy p = []" "written_out ops (turn i (at sy i)) sy p = []"
  "sent_on (turn i (at sy i)) sy p = []" "taken (turn i (at sy i)) sy p = []"
proof -
  have io: "io_input quiet_env q s = []" "io_output ops (\<lambda>p. (quiet_env, quiet_env)) kp s = []" for q kp and s :: "'a net_state"
    by (auto simp: io_input_def on_read_input_def socket_data_def io_output_def on_write_output_def Let_def
        split: sum.split option.split)
  have "data_read a sy p = [] \<and> written_out ops a sy p = [] \<and> sent_on a sy p = [] \<and> taken a sy p = []"
    if "a = turn i (at sy i)" for a
  proof (cases "at sy i")
    case (At_io kps)
    with that io show ?thesis
      by (cases kps) (auto simp: data_read_def written_out_def sent_on_def taken_def split: list.split)
  qed (use that in \<open>simp_all add: data_read_def written_out_def sent_on_def taken_def\<close>)
  then show "data_read (turn i (at sy i)) sy p = []" "written_out ops (turn i (at sy i)) sy p = []"
    "sent_on (turn i (at sy i)) sy p = []" "taken (turn i (at sy i)) sy p = []" by simp_all
qed

lemma goes_silent:
  assumes "goes ops i sy tr sy'"
  shows "along data_read tr p = []" and "along (written_out ops) tr p = []" and "along sent_on tr p = []" and "along taken tr p = []"
proof -
  have "x = turn i (at s i)" if "(x, s) \<in> set tr" for x s using assms that by (auto simp: goes_def)
  then have "data_read x s p = [] \<and> written_out ops x s p = [] \<and> sent_on x s p = [] \<and> taken x s p = []" if "(x, s) \<in> set tr" for x s
    using that turn_silent [where i = i and sy = s and p = p] by metis
  then show "along data_read tr p = []" "along (written_out ops) tr p = []" "along sent_on tr p = []" "along taken tr p = []"
    by auto
qed

lemma goes_serves:
  assumes "goes ops i sy tr sy'" and "serves i p (network sy)"
  shows "\<forall>x \<in> set tr. is_open p (network (snd x))" and "serves i p (network sy')"
proof -
  have "turned i (network sy) (network (snd x))" if "x \<in> set tr" for x using assms(1) that by (auto simp: goes_def)
  then have "serves i p (network (snd x))" if "x \<in> set tr" for x using assms(2) that by (auto simp: turned_def)
  then show "\<forall>x \<in> set tr. is_open p (network (snd x))" using serves_open by blast
  show "serves i p (network sy')" using assms by (auto simp: goes_def turned_def)
qed

text \<open>Worker \<open>i\<close> can go to a state with \<open>P\<close>.\<close>

definition walks :: "'b evbuffer_ops \<Rightarrow> ('b \<Rightarrow> byte list) \<Rightarrow> nat \<Rightarrow> u64 \<Rightarrow> 'b system \<Rightarrow> ('b system \<Rightarrow> bool) \<Rightarrow> bool" where
  "walks ops bytes n i sy P \<longleftrightarrow> (\<exists>tr sy'. goes ops i sy tr sy' \<and> in_ok ops bytes n sy' \<and> is_worker i (network sy') \<and> P sy')"

lemma walks_here: "in_ok ops bytes n sy \<Longrightarrow> is_worker i (network sy) \<Longrightarrow> P sy \<Longrightarrow> walks ops bytes n i sy P"
  unfolding walks_def by (intro exI [of _ "[]"] exI [of _ sy]) simp

lemma walks_on:
  assumes "walks ops bytes n i sy P"
    and "\<And>sy'. in_ok ops bytes n sy' \<Longrightarrow> is_worker i (network sy') \<Longrightarrow> P sy' \<Longrightarrow> walks ops bytes n i sy' Q"
  shows "walks ops bytes n i sy Q"
proof -
  from assms(1) obtain tr sy' where g: "goes ops i sy tr sy'" "in_ok ops bytes n sy'" "is_worker i (network sy')" "P sy'"
    by (auto simp: walks_def)
  from assms(2) [OF g(2-4)] obtain tr' sy'' where
    "goes ops i sy' tr' sy''" "in_ok ops bytes n sy''" "is_worker i (network sy'')" "Q sy''" by (auto simp: walks_def)
  with goes_append [OF g(1)] show ?thesis unfolding walks_def by blast
qed

lemma walks_turn:
  assumes "in_ok ops bytes n sy" and "is_worker i (network sy)"
  shows "walks ops bytes n i sy (\<lambda>sy'. at sy' i = next_phase (connections_of i (network sy)) (at sy i) \<and>
    (at sy i = At_distribute \<or> emptied i (network sy) \<longrightarrow> emptied i (network sy')) \<and>
    (at sy i = At_collect \<longrightarrow> collected i (network sy')))"
proof -
  from goes_one [OF assms] obtain sy' where g: "goes ops i sy [(turn i (at sy i), sy)] sy'" "in_ok ops bytes n sy'"
    "is_worker i (network sy')" "at sy' i = next_phase (connections_of i (network sy)) (at sy i)"
    "at sy i = At_distribute \<longrightarrow> emptied i (network sy')" "at sy i = At_collect \<longrightarrow> collected i (network sy')" by blast
  moreover have "emptied i (network sy) \<longrightarrow> emptied i (network sy')" using g(1) by (simp add: goes_def turned_def)
  ultimately show ?thesis unfolding walks_def by blast
qed

lemma walk_io:
  "in_ok ops bytes n sy \<Longrightarrow> is_worker i (network sy) \<Longrightarrow> at sy i = At_io kps \<Longrightarrow>
     walks ops bytes n i sy (\<lambda>sy'. at sy' i = At_io [] \<and> (emptied i (network sy) \<longrightarrow> emptied i (network sy')))"
proof (induction kps arbitrary: sy)
  case Nil
  then show ?case by (intro walks_here) simp_all
next
  case (Cons kp kps)
  show ?case
  proof (rule walks_on [OF walks_turn [OF Cons.prems(1,2)]])
    fix sy1 assume o: "in_ok ops bytes n sy1" "is_worker i (network sy1)"
      and "at sy1 i = next_phase (connections_of i (network sy)) (at sy i) \<and>
        (at sy i = At_distribute \<or> emptied i (network sy) \<longrightarrow> emptied i (network sy1)) \<and>
        (at sy i = At_collect \<longrightarrow> collected i (network sy1))"
    with Cons.prems(3) have a: "at sy1 i = At_io kps" "emptied i (network sy) \<longrightarrow> emptied i (network sy1)" by simp_all
    show "walks ops bytes n i sy1 (\<lambda>sy'. at sy' i = At_io [] \<and> (emptied i (network sy) \<longrightarrow> emptied i (network sy')))"
      by (rule walks_on [OF Cons.IH [OF o a(1)]]) (use a(2) in \<open>auto intro: walks_here\<close>)
  qed
qed

lemma walks_next:
  assumes "walks ops bytes n i sy (\<lambda>s. at s i = ph \<and> (e \<longrightarrow> emptied i (network s)))"
  shows "walks ops bytes n i sy (\<lambda>s. (\<exists>kps. at s i = next_phase kps ph) \<and> (e \<or> ph = At_distribute \<longrightarrow> emptied i (network s)) \<and>
    (ph = At_collect \<longrightarrow> collected i (network s)))"
proof (rule walks_on [OF assms])
  fix s assume o: "in_ok ops bytes n s" "is_worker i (network s)" and "at s i = ph \<and> (e \<longrightarrow> emptied i (network s))"
  then show "walks ops bytes n i s (\<lambda>s. (\<exists>kps. at s i = next_phase kps ph) \<and> (e \<or> ph = At_distribute \<longrightarrow> emptied i (network s)) \<and>
    (ph = At_collect \<longrightarrow> collected i (network s)))"
    by (intro walks_on [OF walks_turn [OF o]]) (auto intro: walks_here)
qed

text \<open>From everywhere to the event loop, from there to the top of the loop, and on to where the messages
  are collected.\<close>

lemma walk_to_io:
  assumes "walks ops bytes n i sy (\<lambda>s. (\<exists>kps. at s i = next_phase kps At_connect) \<and> (e \<longrightarrow> emptied i (network s)))"
  shows "walks ops bytes n i sy (\<lambda>s. at s i = At_io [] \<and> (e \<longrightarrow> emptied i (network s)))"
proof (rule walks_on [OF assms])
  fix s assume o: "in_ok ops bytes n s" "is_worker i (network s)"
    and "(\<exists>kps. at s i = next_phase kps At_connect) \<and> (e \<longrightarrow> emptied i (network s))"
  then obtain kps where a: "at s i = At_io kps" "e \<longrightarrow> emptied i (network s)" by auto
  show "walks ops bytes n i s (\<lambda>s. at s i = At_io [] \<and> (e \<longrightarrow> emptied i (network s)))"
    by (rule walks_on [OF walk_io [OF o a(1)]]) (use a(2) in \<open>auto intro: walks_here\<close>)
qed

lemma walk_down:
  assumes "walks ops bytes n i sy (\<lambda>s. at s i = At_distribute)"
  shows "walks ops bytes n i sy (\<lambda>s. at s i = At_connect \<and> emptied i (network s) \<and> collected i (network s))"
    and "walks ops bytes n i sy (\<lambda>s. at s i = At_io [] \<and> emptied i (network s))"
proof -
  from walks_next [of ops bytes n i sy At_distribute False] assms
  have "walks ops bytes n i sy (\<lambda>s. at s i = At_collect \<and> (True \<longrightarrow> emptied i (network s)))" by simp
  from walks_next [OF this]
  show c: "walks ops bytes n i sy (\<lambda>s. at s i = At_connect \<and> emptied i (network s) \<and> collected i (network s))" by simp
  have "walks ops bytes n i sy (\<lambda>s. at s i = At_connect \<and> (True \<longrightarrow> emptied i (network s)))"
    by (rule walks_on [OF c]) (auto intro: walks_here)
  from walk_to_io [of ops bytes n i sy True] walks_next [OF this]
  show "walks ops bytes n i sy (\<lambda>s. at s i = At_io [] \<and> emptied i (network s))" by simp
qed

lemma walk_up:
  assumes "walks ops bytes n i sy (\<lambda>s. at s i = At_io [])"
  shows "walks ops bytes n i sy (\<lambda>s. at s i = At_distribute)"
proof -
  from walks_next [of ops bytes n i sy "At_io []" False] assms
  have "walks ops bytes n i sy (\<lambda>s. at s i = At_purge)" by simp
  from walks_next [of ops bytes n i sy At_purge False] this show ?thesis by simp
qed

lemma walk_anywhere:
  assumes "in_ok ops bytes n sy" and "is_worker i (network sy)"
  shows "walks ops bytes n i sy (\<lambda>s. at s i = At_io [])"
proof -
  have here: "walks ops bytes n i sy (\<lambda>s. at s i = at sy i)" by (rule walks_here [OF assms]) simp
  have con: "walks ops bytes n i sy (\<lambda>s. at s i = At_io [])" if "walks ops bytes n i sy (\<lambda>s. at s i = At_connect)"
    using walk_to_io [of ops bytes n i sy False] walks_next [of ops bytes n i sy At_connect False] that by simp
  have down: "walks ops bytes n i sy (\<lambda>s. at s i = At_io [])" if "walks ops bytes n i sy (\<lambda>s. at s i = At_distribute)"
    by (rule walks_on [OF walk_down(2) [OF that]]) (auto intro: walks_here)
  show ?thesis
  proof (cases "at sy i")
    case At_distribute
    with here down show ?thesis by simp
  next
    case At_collect
    with walks_next [of ops bytes n i sy At_collect False] here
    have "walks ops bytes n i sy (\<lambda>s. at s i = At_connect \<and> collected i (network s))" by simp
    then have "walks ops bytes n i sy (\<lambda>s. at s i = At_connect)" by (rule walks_on) (auto intro: walks_here)
    then show ?thesis by (rule con)
  next
    case At_connect
    with here con show ?thesis by simp
  next
    case (At_io kps)
    show ?thesis by (rule walks_on [OF walk_io [OF assms At_io]]) (auto intro: walks_here)
  next
    case At_purge
    with walks_next [of ops bytes n i sy At_purge False] here down show ?thesis by simp
  qed
qed

section \<open>Sending\<close>

text \<open>The logic thread hands messages to the worker of their connection.\<close>

lemma send_one:
  assumes "in_ok ops bytes n sy" and "serves i p (network sy)" and "msg_conn m = p"
    and "node_ok (s_msg_processers (network sy)) m"
  shows "\<exists>sy'. sys_step ops (Logic_send (Some m)) sy sy' \<and> serves i p (network sy')"
proof -
  let ?s = "network sy"
  have sok: "system_ok n sy" using assms(1) by (simp add: in_ok_def out_ok_def)
  have "has_owner p ?s" using serves_owned [OF assms(2)] by auto
  then have en: "enabled ops (Logic_send (Some m)) sy" using assms(3,4) by simp
  from exec_ok [OF sok en] obtain sy' where ex: "exec ops (Logic_send (Some m)) sy = Inr sy'"
    by (auto simp: step_ok_def bad_step_def)
  from assms(2) obtain c where c: "conns ?s p = Some c" "td c = Some i" by (auto simp: serves_def)
  from ex have u: "net_send (Some m) ?s = Inr (network sy')" by (auto simp: on_net_Inr)
  have hm: "homed ?s" using assms(1) by (simp add: in_ok_def out_ok_def channels_ok_def)
  have "is_worker i ?s"
    using net_okD(9) [OF system_okD(1) [OF sok] c(1)] c(2) by (simp add: conn_ok_def)
  then obtain t where "get_td i ?s = Inr t" by (auto simp: is_worker_def)
  from simulates_send(2) [OF system_okD(1) [OF sok] hm c assms(3) u this]
  have "serves i p (network sy')" using assms(2) by (simp add: serves_def)
  with en ex show ?thesis by (auto simp: sys_step_def)
qed

lemma sys_step_procs:
  assumes "in_ok ops bytes n sy" and "sys_step ops a sy sy'"
  shows "s_msg_processers (network sy') = s_msg_processers (network sy)"
  using in_step(2) [OF assms] by (simp add: in_moves_def)

lemma send_all:
  "in_ok ops bytes n sy \<Longrightarrow> serves i p (network sy) \<Longrightarrow>
     (\<And>m. m \<in> set ms \<Longrightarrow> msg_conn m = p \<and> node_ok (s_msg_processers (network sy)) m) \<Longrightarrow>
     \<exists>tr sy'. run ops sy tr sy' \<and> in_ok ops bytes n sy' \<and> serves i p (network sy') \<and>
       (\<forall>x \<in> set tr. is_open p (network (snd x))) \<and> along sent_on tr p = ms \<and> along (written_out ops) tr p = []"
proof (induction ms arbitrary: sy)
  case Nil
  then show ?case by (intro exI [of _ "[]"] exI [of _ sy]) simp
next
  case (Cons m ms)
  from Cons.prems(3) [of m] have m: "msg_conn m = p" "node_ok (s_msg_processers (network sy)) m" by simp_all
  from send_one [OF Cons.prems(1,2) m] obtain sy1 where st: "sys_step ops (Logic_send (Some m)) sy sy1"
    and sv: "serves i p (network sy1)" by blast
  note ok1 = in_step(1) [OF Cons.prems(1) st]
  have "m' \<in> set ms \<Longrightarrow> msg_conn m' = p \<and> node_ok (s_msg_processers (network sy1)) m'" for m'
    using Cons.prems(3) [of m'] sys_step_procs [OF Cons.prems(1) st] by simp
  from Cons.IH [OF ok1 sv this] obtain tr sy' where r: "run ops sy1 tr sy'" "in_ok ops bytes n sy'" "serves i p (network sy')"
    "\<forall>x \<in> set tr. is_open p (network (snd x))" "along sent_on tr p = ms" "along (written_out ops) tr p = []" by blast
  have op: "is_open p (network sy)" by (rule serves_open [OF Cons.prems(2)])
  have "sent_on (Logic_send (Some m)) sy p = [m]" using m(1) op by (simp add: sent_on_def)
  moreover have "written_out ops (Logic_send (Some m)) sy p = []" by (simp add: written_out_def)
  ultimately show ?case
    using r op trace.trace_more [of "sys_step ops", OF st r(1)]
    by (intro exI [of _ "(Logic_send (Some m), sy) # tr"] exI [of _ sy']) simp
qed

text \<open>The socket takes everything the connection has to write.\<close>

definition drain_env :: "nat \<Rightarrow> io_env" where
  "drain_env k = quiet_env\<lparr> io_write := Wrote k \<rparr>"

lemma on_write_output_all:
  assumes "evbuffer_laws ops bytes" and "get_conn p s = Inr c" and "usable (s_msg_processers s) c"
    and "state c \<noteq> CS_CLOSE" and "io_write env = Wrote (length (unsent bytes c))"
  shows "on_write_output ops env p s = unsent bytes c"
proof -
  note laws = evbuffer_lawsD [OF assms(1)]
  from assms(3,4) obtain wb where wb: "write_buffer c = Some wb" by (auto simp: usable_def)
  have "node_ok (s_msg_processers s) m" if "m \<in> set (conn_write_msgs c)" for m
    using assms(3) that by (simp add: usable_def typed_in_def)
  from fill_write_buffer_frames [OF assms(1) this, of "conn_write_msgs c" wb "[]"] obtain wb' ds where
    f: "fill_write_buffer ops (s_msg_processers s) (conn_write_msgs c) wb [] = Inr (wb', ds)"
      "bytes wb' = bytes wb @ concat (map frame_bytes (conn_write_msgs c))" by auto
  then have un: "unsent bytes c = bytes wb'" using wb by (simp add: unsent_def)
  show ?thesis
    using assms(2,4,5) wb f(1) laws(2,3) un by (simp add: on_write_output_def)
qed

lemma flush_one:
  assumes "in_ok ops bytes n sy" and "is_worker i (network sy)" and "at sy i = At_io []" and "serves i p (network sy)"
    and "conns (network sy) p = Some c" and "unsent bytes c \<noteq> []"
  shows "\<exists>a sy'. sys_step ops a sy sy' \<and> written_out ops a sy p = unsent bytes c \<and> sent_on a sy p = [] \<and>
    is_open p (network sy')"
proof -
  let ?s = "network sy" and ?env = "drain_env (length (unsent bytes c))"
  let ?a = "Callback_of i (On_socket ?env (sfd_dup_for_write c) EV_WRITE p)"
  have sok: "system_ok n sy" and laws: "evbuffer_laws ops bytes" using assms(1) by (simp_all add: in_ok_def out_ok_def)
  note own = serves_owned [OF assms(4)]
  have en: "enabled ops ?a sy"
    using assms(2,3) own by (simp add: callback_enabled_def room_def drain_env_def)
  have "\<not> bad_step ops ?a sy f" for f by (simp add: bad_step_def bad_read_def drain_env_def)
  with exec_ok [OF sok en] obtain sy' where ex: "exec ops ?a sy = Inr sy'" unfolding step_ok_def by blast
  from owned_usable [OF system_okD(1) [OF sok] own] assms(5) have
    g: "get_conn p ?s = Inr c" and us: "usable (s_msg_processers ?s) c" and nl: "state c \<noteq> CS_LISTEN"
    by (auto simp: get_conn_Inr)
  have st: "state c \<noteq> CS_CLOSE" and td: "td c = Some i" using assms(4,5) by (auto simp: serves_def)
  have out: "handler_output ops ?env (sfd_dup_for_write c) EV_WRITE p ?s = unsent bytes c"
    using on_write_output_all [OF laws g us st, of ?env] g by (simp add: handler_output_def drain_env_def)
  from ex have u: "event_handler ops ?env (sfd_dup_for_write c) EV_WRITE p ?s = Inr (network sy')"
    by (auto simp: on_net_Inr take_byte_def)
  from event_handler_writes [OF laws u g us nl] have
    "writes bytes p (unsent bytes c) ?s (network sy')" unfolding out .
  then have "evolves ?s (network sy')" "\<not> is_closed (network sy') p" using assms(6) by (auto simp: writes_def)
  from evolves_conns [OF this(1) assms(5)] this(2) td have "is_open p (network sy')"
    by (auto simp: is_open_def out_view_def is_closed_def conn_evolves_def)
  moreover have "written_out ops ?a sy p = unsent bytes c" using out by (simp add: written_out_def)
  moreover have "sent_on ?a sy p = []" by (simp add: sent_on_def)
  ultimately show ?thesis using en ex by (blast intro: sys_step_def [THEN iffD2])
qed

lemma worker_of_open:
  assumes "in_ok ops bytes n sy" and "serves i p (network sy)"
  shows "is_worker i (network sy)"
proof -
  from assms(2) obtain c where c: "conns (network sy) p = Some c" "td c = Some i" by (auto simp: serves_def)
  have "net_ok n (network sy)" using assms(1) system_okD(1) by (auto simp: in_ok_def out_ok_def)
  from net_okD(9) [OF this c(1)] c(2) show ?thesis by (simp add: conn_ok_def)
qed

lemma frame_bytes_not_Nil: "node_ok procs m \<Longrightarrow> frame_bytes m \<noteq> []"
proof -
  assume "node_ok procs m"
  then obtain d where "msg_data m = Some d" by (auto simp: node_ok_def)
  then have "length (frame_bytes m) = 16 + length (MsgData_bytes d)" by (simp add: frame_bytes_def)
  then show ?thesis by auto
qed

theorem sending_possible:
  assumes "reachable ops n sy" and "evbuffer_laws ops bytes" and "is_open p (network sy)"
    and "channel bytes (network sy) p = Some []" and "ms \<noteq> []"
    and "\<And>m. m \<in> set ms \<Longrightarrow> msg_conn m = p \<and> node_ok (s_msg_processers (network sy)) m"
  shows "\<exists>tr sy'. sends ops bytes p sy tr sy' \<and> along sent_on tr p = ms \<and>
    along (written_out ops) tr p = concat (map frame_bytes ms)"
proof -
  note ok = reachable_in_ok [OF assms(1,2)]
  from open_serves [OF assms(3)] obtain i where sv: "serves i p (network sy)" by blast
  from send_all [OF ok sv assms(6)] obtain tr1 sy1 where r1: "run ops sy tr1 sy1" "in_ok ops bytes n sy1"
    "serves i p (network sy1)" "\<forall>x \<in> set tr1. is_open p (network (snd x))" "along sent_on tr1 p = ms"
    "along (written_out ops) tr1 p = []" by blast
  from walk_down(2) [OF walk_up [OF walk_anywhere [OF r1(2) worker_of_open [OF r1(2,3)]]]]
  obtain tr2 sy2 where g: "goes ops i sy1 tr2 sy2" and ok2: "in_ok ops bytes n sy2" and w2: "is_worker i (network sy2)"
    and a2: "at sy2 i = At_io []" "emptied i (network sy2)" by (auto simp: walks_def)
  note quiet = goes_silent [OF g, of p] and sv2 = goes_serves [OF g r1(3)]
  from g have r2: "run ops sy1 tr2 sy2" by (simp add: goes_def)
  note r12 = trace_append [OF r1(1) r2]
  have op12: "\<forall>x \<in> set (tr1 @ tr2). is_open p (network (snd x))" using r1(4) sv2(1) by auto
  from run_fifo [OF r12 assms(1,2) op12 serves_open [OF sv2(2)] assms(4)] r1(5,6) quiet
  have ch: "channel bytes (network sy2) p = Some (concat (map frame_bytes ms))"
    by (auto simp: along_accepted)
  from sv2(2) obtain c where c: "conns (network sy2) p = Some c" "td c = Some i" "state c \<noteq> CS_CLOSE" by (auto simp: serves_def)
  have "addressed i p (network sy2) = []" using a2(2) by (auto simp: addressed_def emptied_def split: sum.split)
  with ch c have un: "unsent bytes c = concat (map frame_bytes ms)" by (simp add: channel_def)
  moreover have "concat (map frame_bytes ms) \<noteq> []"
    using assms(5,6) frame_bytes_not_Nil by (cases ms) fastforce+
  ultimately obtain a sy3 where st: "sys_step ops a sy2 sy3" "written_out ops a sy2 p = concat (map frame_bytes ms)"
    "sent_on a sy2 p = []" "is_open p (network sy3)"
    using flush_one [OF ok2 w2 a2(1) sv2(2) c(1)] by auto
  have r3: "run ops sy ((tr1 @ tr2) @ [(a, sy2)]) sy3"
    by (rule trace_append [OF r12]) (auto intro: trace.intros st(1))
  have "\<forall>x \<in> set ((tr1 @ tr2) @ [(a, sy2)]). is_open p (network (snd x))" using op12 serves_open [OF sv2(2)] by auto
  with r3 st(4) assms(1,2,4) have "sends ops bytes p sy ((tr1 @ tr2) @ [(a, sy2)]) sy3" by (auto simp: sends_def)
  with r1(5,6) quiet st(2,3) show ?thesis by (intro exI [of _ "(tr1 @ tr2) @ [(a, sy2)]"] exI [of _ sy3]) simp
qed

section \<open>Receiving\<close>

definition fill_env :: "byte list \<Rightarrow> io_env" where
  "fill_env d = quiet_env\<lparr> io_read := Read_data d \<rparr>"

text \<open>The worker reads what arrived.\<close>

lemma read_one:
  assumes "in_ok ops bytes n sy" and "is_worker i (network sy)" and "at sy i = At_io []" and "serves i p (network sy)"
    and "rest_of bytes (network sy) p = []" and "length d < 2 ^ 31"
    and "parse (s_msg_processers (network sy)) p d = Inr (ms, r)"
  shows "\<exists>a sy'. sys_step ops a sy sy' \<and> data_read a sy p = d \<and> taken a sy p = [] \<and> serves i p (network sy') \<and>
    s_cnt (network sy') = s_cnt (network sy) \<and> at sy' i = At_io []"
proof -
  let ?s = "network sy" and ?env = "fill_env d"
  from assms(4) obtain c where c: "conns ?s p = Some c" "td c = Some i" "state c \<noteq> CS_CLOSE" by (auto simp: serves_def)
  let ?a = "Callback_of i (On_socket ?env (sfd c) EV_READ p)"
  have sok: "system_ok n sy" and laws: "evbuffer_laws ops bytes" using assms(1) by (simp_all add: in_ok_def out_ok_def)
  note own = serves_owned [OF assms(4)]
  from owned_usable [OF system_okD(1) [OF sok] own] c(1) have
    g: "get_conn p ?s = Inr c" and us: "usable (s_msg_processers ?s) c" and nl: "state c \<noteq> CS_LISTEN"
    by (auto simp: get_conn_Inr)
  from us c(3) obtain b where b: "read_buffer c = Some b" by (auto simp: usable_def)
  have empty: "bytes b = []" using assms(5) c(1) b by (simp add: rest_of_def rest_bytes_def)
  have len: "evb_get_length ops b = 0" using evbuffer_lawsD(2) [OF laws] empty by simp
  have en: "enabled ops ?a sy"
    using assms(2,3,6) own c(1) b len by (simp add: callback_enabled_def room_def fill_env_def)
  have p: "p \<noteq> NULLP" using g by (simp add: get_conn_Inr)
  have dec: "decode (s_msg_processers ?s) (io_raw ?env) p (bytes b @ d) = Inr (ms, r)"
    using assms(7) empty by (simp add: fill_env_def quiet_env_def)
  obtain c' where rc: "receive ops (s_msg_processers ?s) (io_raw ?env) p d c = Inr c'"
  proof (cases "receive ops (s_msg_processers ?s) (io_raw ?env) p d c")
    case (Inl f)
    with receive_decode [OF laws p b, of d "s_msg_processers ?s" "io_raw ?env"] empty assms(6) dec show ?thesis by simp
  qed
  have u: "event_handler ops ?env (sfd c) EV_READ p ?s = Inr (put_conn p (c'\<lparr> can_read := True \<rparr>) ?s)"
    using on_read_data [OF g c(3) _ rc] process_event_open [OF g nl, of ops ?env EV_READ] g p
    by (simp add: event_handler_def fill_env_def)
  with en obtain sy' where sy': "exec ops ?a sy = Inr sy'" "network sy' = put_conn p (c'\<lparr> can_read := True \<rparr>) ?s"
    "at sy' = at sy"
    by (simp add: on_net_def take_byte_def)
  have "serves i p (network sy')" "s_cnt (network sy') = s_cnt ?s" "at sy' i = At_io []"
    using sy'(2,3) assms(3) receive_keeps [OF rc] c by (simp_all add: serves_def)
  moreover have "data_read ?a sy p = d"
    using g c(3) by (simp add: data_read_def handler_input_def on_read_input_def socket_data_def fill_env_def)
  moreover have "taken ?a sy p = []" by (simp add: taken_def)
  ultimately show ?thesis using en sy'(1) by (blast intro: sys_step_def [THEN iffD2])
qed

text \<open>The logic takes what its workers hold.\<close>

lemma take_one:
  assumes "in_ok ops bytes n sy" and "serves i p (network sy)" and "collected i (network sy)"
    and "s_cnt (network sy) \<noteq> 0x7FFFFFFF"
  shows "\<exists>sy'. sys_step ops Logic_get sy sy' \<and> serves i p (network sy') \<and> inbox (network sy') p = Some []"
proof -
  let ?s = "network sy"
  have sok: "system_ok n sy" using assms(1) by (simp add: in_ok_def out_ok_def)
  have en: "enabled ops Logic_get sy" using assms(4) by simp
  from exec_ok [OF sok en] obtain sy' where ex: "exec ops Logic_get sy = Inr sy'" by (auto simp: step_ok_def bad_step_def)
  with en have st: "sys_step ops Logic_get sy sy'" by (simp add: sys_step_def)
  from ex obtain ms where g: "get_net_msgs [] ?s = Inr (ms, network sy')" by (auto simp: on_net_Inr)
  from get_net_msgs_result [OF net_okD(2) [OF system_okD(1) [OF sok]] assms(4), of "[]"] g
  have cs: "conns (network sy') = conns ?s" by auto
  with assms(2) have sv: "serves i p (network sy')" by (simp add: serves_def)
  from assms(2) obtain c where c: "conns ?s p = Some c" "td c = Some i" "state c \<noteq> CS_CLOSE" by (auto simp: serves_def)
  then have "conn_read_msgs c = []" using assms(2,3) by (simp add: collected_def)
  with c have q: "inbox ?s p = Some (handed ?s p)" by (simp add: inbox_def handed_def)
  from serves_open [OF sv] obtain q' where q': "inbox (network sy') p = Some q'" using inbox_open [of "network sy'" p] by auto
  have rd: "reads_ok bytes ?s" using assms(1) by (simp add: in_ok_def)
  from in_step(2) [OF assms(1) st] q q' obtain ms' where
    m: "parse (s_msg_processers ?s) p (rest_of bytes ?s p) = Inr (ms', rest_of bytes (network sy') p)"
      "handed ?s p @ ms' = handed ?s p @ q'"
    by (auto simp: in_moves_def data_read_def taken_def)
  with rest_waits [OF rd q] have "q' = []" by simp
  with q' st sv show ?thesis by auto
qed

theorem receiving_possible:
  assumes "reachable ops n sy" and "evbuffer_laws ops bytes" and "is_open p (network sy)"
    and "inbox (network sy) p = Some []" and "rest_of bytes (network sy) p = []"
    and "s_cnt (network sy) \<noteq> 0x7FFFFFFF" and "length d < 2 ^ 31"
    and "parse (s_msg_processers (network sy)) p d = Inr (ms, r)"
  shows "\<exists>tr sy'. receives ops bytes p sy tr sy' \<and> along data_read tr p = d \<and> inbox (network sy') p = Some []"
proof -
  note ok = reachable_in_ok [OF assms(1,2)]
  from open_serves [OF assms(3)] obtain i where sv: "serves i p (network sy)" by blast
  from walk_anywhere [OF ok worker_of_open [OF ok sv]] obtain tr1 sy1 where
    g1: "goes ops i sy tr1 sy1" and ok1: "in_ok ops bytes n sy1" and w1: "is_worker i (network sy1)" "at sy1 i = At_io []"
    by (auto simp: walks_def)
  note quiet1 = goes_silent [OF g1, of p] and sv1 = goes_serves [OF g1 sv]
  from g1 have r1: "run ops sy tr1 sy1" and c1: "s_cnt (network sy1) = s_cnt (network sy)" by (simp_all add: goes_def turned_def)
  from run_parses [OF r1 ok sv1(1) serves_open [OF sv1(2)]] assms(5) quiet1
  have p1: "s_msg_processers (network sy1) = s_msg_processers (network sy)" "rest_of bytes (network sy1) p = []"
    by (auto simp: decode_wait next_frame_def)
  from read_one [OF ok1 w1 sv1(2) p1(2) assms(7)] assms(8) p1(1) obtain a sy2 where
    st: "sys_step ops a sy1 sy2" and a: "data_read a sy1 p = d" "taken a sy1 p = []" and sv2: "serves i p (network sy2)"
      and c2: "s_cnt (network sy2) = s_cnt (network sy1)" and a2: "at sy2 i = At_io []" by auto
  note ok2 = in_step(1) [OF ok1 st]
  note w2 = worker_of_open [OF ok2 sv2]
  from walk_down(1) [OF walk_up [OF walks_here [OF ok2 w2, of "\<lambda>s. at s i = At_io []"]]] a2 obtain tr3 sy3 where
    g3: "goes ops i sy2 tr3 sy3" and ok3: "in_ok ops bytes n sy3" and col: "collected i (network sy3)"
    by (auto simp: walks_def)
  note quiet3 = goes_silent [OF g3, of p] and sv3 = goes_serves [OF g3 sv2]
  from g3 have r3: "run ops sy2 tr3 sy3" and c3: "s_cnt (network sy3) = s_cnt (network sy2)" by (simp_all add: goes_def turned_def)
  from take_one [OF ok3 sv3(2) col] assms(6) c1 c2 c3 obtain sy4 where
    g4: "sys_step ops Logic_get sy3 sy4" "serves i p (network sy4)" "inbox (network sy4) p = Some []" by auto
  let ?tr = "(tr1 @ [(a, sy1)]) @ tr3 @ [(Logic_get, sy3)]"
  have "run ops sy (tr1 @ [(a, sy1)]) sy2" by (rule trace_append [OF r1]) (auto intro: trace.intros st)
  moreover have "run ops sy2 (tr3 @ [(Logic_get, sy3)]) sy4" by (rule trace_append [OF r3]) (auto intro: trace.intros g4(1))
  ultimately have "run ops sy ?tr sy4" by (rule trace_append)
  moreover have "\<forall>x \<in> set ?tr. is_open p (network (snd x))"
    using sv1 sv3 serves_open [OF sv1(2)] serves_open [OF sv3(2)] by auto
  ultimately have "receives ops bytes p sy ?tr sy4"
    using assms(1,2,4,5) serves_open [OF g4(2)] by (auto simp: receives_def)
  moreover have "data_read Logic_get sy3 p = []" by (simp add: data_read_def)
  then have "along data_read ?tr p = d"
    by (simp only: map_append concat_append quiet1(1) quiet3(1) list.map concat.simps prod.case a(1) append.simps append_Nil2)
  ultimately show ?thesis using g4(3) by blast
qed

section \<open>From one end to the other\<close>

theorem delivering_possible:
  assumes "reachable ops_a n_a a" and "evbuffer_laws ops_a bytes_a" and "is_open p (network a)"
    and "channel bytes_a (network a) p = Some []"
    and "reachable ops_b n_b b" and "evbuffer_laws ops_b bytes_b" and "is_open q (network b)"
    and "inbox (network b) q = Some []" and "rest_of bytes_b (network b) q = []" and "s_cnt (network b) \<noteq> 0x7FFFFFFF"
    and "ms \<noteq> []" and "length (concat (map frame_bytes ms)) < 2 ^ 31"
    and "\<And>m. m \<in> set ms \<Longrightarrow> msg_conn m = p \<and> node_ok (s_msg_processers (network a)) m \<and>
      sendable (s_msg_processers (network b)) m"
  shows "\<exists>tr_a a' tr_b b'. sends ops_a bytes_a p a tr_a a' \<and> receives ops_b bytes_b q b tr_b b' \<and>
    along sent_on tr_a p = ms \<and> along data_read tr_b q = along (written_out ops_a) tr_a p \<and>
    along taken tr_b q = map (delivered (0, 0, 0) q) ms"
proof -
  from sending_possible [OF assms(1-4,11)] assms(13) obtain tr_a a' where
    sa: "sends ops_a bytes_a p a tr_a a'" "along sent_on tr_a p = ms"
      "along (written_out ops_a) tr_a p = concat (map frame_bytes ms)" by blast
  have "parse (s_msg_processers (network b)) q (concat (map frame_bytes ms)) = Inr (map (delivered (0, 0, 0) q) ms, [])"
    using decode_frames assms(13) by blast
  from receiving_possible [OF assms(5-10,12) this] obtain tr_b b' where
    rb: "receives ops_b bytes_b q b tr_b b'" "along data_read tr_b q = concat (map frame_bytes ms)"
      "inbox (network b') q = Some []" by blast
  from sends_bytes [OF sa(1)] sa(2,3) have "channel bytes_a (network a') p = Some []" by auto
  from link_complete [OF sa(1) rb(1) _ _ this rb(3)] sa(2,3) rb(2) assms(13)
  have "along taken tr_b q = map (delivered (0, 0, 0) q) ms" by simp
  with sa rb show ?thesis by metis
qed

end
