(* ===== verification/GF_Locks.thy ===== *)
theory GF_Locks
  imports GF_NetApi
begin

text \<open>
  The locks of the network threads: \<open>thread/thread_sync.h\<close> and what every function of \<open>go_net.cpp\<close>
  does with its locks and with the data the threads share. A function is the sequence of its lock
  operations and of its uses of shared data; the threads run these sequences in any interleaving,
  with the mutexes of pthread. Shown once for every disciplined program (the locale
  \<open>lock_discipline\<close>) and interpreted on the code: data with a lock is used by one thread at a time,
  and the threads never wait for each other in a circle. That makes the sections of \<open>GF_System\<close>
  atomic. Three pieces of shared data have no lock in the code, and are raced for.
\<close>

section \<open>Locks and shared data\<close>

datatype lock =
    S_init_lock
  | S_conns_map_lock
  | S_connect_conns_lock
  | Gns_mutex
  | Td_read_msgs_lock u64
  | Write_msgs_lock u64
  | Conn_mutex u64
  | State_mutex ptr

datatype shared =
    Init_count
  | Conns_map
  | Connect_conns
  | Curr_conns
  | Td_read_msgs u64
  | Td_write_msgs u64
  | New_connections u64
  | Conn_state ptr
  | Last_thread_id
  | Thread_connections u64
  | Conn_td ptr

datatype ('l, 'v) instr = Hold 'l | Release 'l | Read 'v | Write 'v

type_synonym code = "(lock, shared) instr list"

text \<open>\<open>AutoLockMutex\<close>: its constructor holds the lock, its destructor releases it.\<close>

definition AutoLockMutex :: "lock \<Rightarrow> code \<Rightarrow> code" where
  "AutoLockMutex l body = Hold l # body @ [Release l]"

text \<open>A section between \<open>Hold\<close> and \<open>Release\<close>.\<close>

definition locked :: "lock \<Rightarrow> code \<Rightarrow> code" where
  "locked l body = Hold l # body @ [Release l]"

section \<open>What the functions do with them\<close>

definition conn_set_state_locks :: "ptr \<Rightarrow> code" where
  "conn_set_state_locks p = locked (State_mutex p) [Read (Conn_state p), Write (Conn_state p)]"

definition conn_get_state_locks :: "ptr \<Rightarrow> code" where
  "conn_get_state_locks p = locked (State_mutex p) [Read (Conn_state p)]"

definition ConnQueue_Pop_locks :: "u64 \<Rightarrow> code" where
  "ConnQueue_Pop_locks i = locked (Conn_mutex i) [Read (New_connections i), Write (New_connections i)]"

definition ConnQueue_Push_locks :: "u64 \<Rightarrow> code" where
  "ConnQueue_Push_locks i = locked (Conn_mutex i) [Write (New_connections i)]"

definition register_thread_init_locks :: "code" where
  "register_thread_init_locks = locked S_init_lock [Read Init_count, Write Init_count]"

definition push_worker_new_conn_locks :: "u64 \<Rightarrow> code" where
  "push_worker_new_conn_locks k = Read Last_thread_id # Write Last_thread_id # ConnQueue_Push_locks k"

definition give_worker_new_conn_locks :: "u64 \<Rightarrow> code" where
  "give_worker_new_conn_locks k = Read Last_thread_id # Write Last_thread_id # ConnQueue_Push_locks k"

text \<open>Accepting: every connection to the worker \<open>k\<close> whose turn it is.\<close>

definition accept_locks :: "u64 list \<Rightarrow> code" where
  "accept_locks ks = concat (map (\<lambda>k. give_worker_new_conn_locks k @ locked Gns_mutex [Read Curr_conns, Write Curr_conns]) ks)"

text \<open>\<open>create_conn\<close> up to the test for a duplicate, or to the end.\<close>

definition create_conn_locks :: "bool \<Rightarrow> code" where
  "create_conn_locks made =
     AutoLockMutex S_conns_map_lock [Read Conns_map] @
     (if made then locked S_conns_map_lock [Write Conns_map] @ locked Gns_mutex [Read Curr_conns, Write Curr_conns] else [])"

definition conn_internal_close_locks :: "code" where
  "conn_internal_close_locks = locked S_conns_map_lock [Read Conns_map, Write Conns_map] @ locked Gns_mutex [Read Curr_conns, Write Curr_conns]"

text \<open>A socket that is read or written: the state is asked for, and may be set to closed.\<close>

definition process_event_locks :: "ptr \<Rightarrow> bool \<Rightarrow> code" where
  "process_event_locks p closes =
     conn_get_state_locks p @ (if closes then conn_set_state_locks p else [])"

definition thread_libevent_process_locks :: "u64 \<Rightarrow> ptr \<Rightarrow> bool \<Rightarrow> code" where
  "thread_libevent_process_locks i p made =
     ConnQueue_Pop_locks i @ create_conn_locks made @
     (if made then [Read (Thread_connections i), Write (Thread_connections i), Write (Conn_td p)] else [])"

text \<open>The loop of \<open>data_thread_worker\<close>: \<open>n\<close> messages to distribute, \<open>m\<close> read messages to collect.\<close>

definition distribute_locks :: "u64 \<Rightarrow> nat \<Rightarrow> code" where
  "distribute_locks i n =
     locked (Write_msgs_lock i)
       (concat (replicate n [Read (Td_write_msgs i), Write (Td_write_msgs i), Read (Thread_connections i)]) @ [Read (Td_write_msgs i)])"

definition collect_locks :: "u64 \<Rightarrow> nat \<Rightarrow> code" where
  "collect_locks i m =
     Read (Thread_connections i) # concat (replicate m (locked (Td_read_msgs_lock i) [Write (Td_read_msgs i)]))"

definition connect_locks :: "u64 list \<Rightarrow> code" where
  "connect_locks ks =
     AutoLockMutex S_connect_conns_lock
       (concat (map (\<lambda>k. Read Connect_conns # push_worker_new_conn_locks k @ [Write Connect_conns]) ks) @ [Read Connect_conns])"

definition io_locks :: "u64 \<Rightarrow> (ptr \<times> bool \<times> bool) list \<Rightarrow> code" where
  "io_locks i cs =
     Read (Thread_connections i) #
     concat (map (\<lambda>(p, r, w). conn_get_state_locks p @ process_event_locks p r @ process_event_locks p w) cs)"

definition reap_locks :: "u64 \<Rightarrow> (ptr \<times> bool) list \<Rightarrow> code" where
  "reap_locks i cs =
     Read (Thread_connections i) #
     concat (map (\<lambda>(p, closed). conn_get_state_locks p @
       (if closed then locked (Td_read_msgs_lock i) [Write (Td_read_msgs i)] @ conn_internal_close_locks else [])) cs) @
     (if \<exists>c \<in> set cs. snd c then [Write (Thread_connections i)] else [])"

definition net_send_locks :: "ptr \<Rightarrow> u64 \<Rightarrow> code" where
  "net_send_locks p i = Read (Conn_td p) # AutoLockMutex (Write_msgs_lock i) [Write (Td_write_msgs i)]"

text \<open>\<open>get_net_msgs\<close> reads the size of \<open>thread_connections_\<close> of every worker, then its messages.\<close>

definition get_net_msgs_locks :: "nat \<Rightarrow> (u64 \<Rightarrow> nat) \<Rightarrow> code" where
  "get_net_msgs_locks n sizes =
     concat (map (\<lambda>i. locked (Td_read_msgs_lock (of_nat i))
       (Read (Thread_connections (of_nat i)) # replicate (sizes (of_nat i)) (Write (Td_read_msgs (of_nat i))))) [0..<n])"

definition net_connect_locks :: "code" where
  "net_connect_locks = AutoLockMutex S_connect_conns_lock [Write Connect_conns]"

text \<open>Waiting for the workers: \<open>pthread_cond_wait\<close> releases the lock and takes it again.\<close>

definition wait_for_thread_init_locks :: "nat \<Rightarrow> code" where
  "wait_for_thread_init_locks m = concat (replicate (Suc m) (locked S_init_lock [Read Init_count]))"

text \<open>Which thread runs which of them.\<close>

datatype thread = Logic | Acceptor | Worker u64

inductive program :: "thread \<Rightarrow> code \<Rightarrow> bool" where
  "program Logic (net_send_locks p i)"
| "program Logic (get_net_msgs_locks n sizes)"
| "program Logic (conn_set_state_locks p)"
| "program Logic net_connect_locks"
| "program Acceptor (wait_for_thread_init_locks m)"
| "program Acceptor (accept_locks ks)"
| "program (Worker i) register_thread_init_locks"
| "program (Worker i) (distribute_locks i n)"
| "program (Worker i) (collect_locks i n)"
| "program (Worker i) (connect_locks ks)"
| "program (Worker i) (io_locks i cs)"
| "program (Worker i) (thread_libevent_process_locks i p made)"
| "program (Worker i) (reap_locks i ds)"

section \<open>Threads with locks\<close>

text \<open>A mutex has at most one holder; a thread that finds it held waits. \<open>todo\<close> is what a thread has
  still to do of the program it runs.\<close>

record ('t, 'l, 'v) lock_state =
  holder :: "'l \<Rightarrow> 't option"
  todo :: "'t \<Rightarrow> ('l, 'v) instr list"

inductive lock_step ::
    "('t \<Rightarrow> ('l, 'v) instr list \<Rightarrow> bool) \<Rightarrow> 't \<Rightarrow> ('t, 'l, 'v) lock_state \<Rightarrow> ('t, 'l, 'v) lock_state \<Rightarrow> bool"
  for program where
  begins: "todo s t = [] \<Longrightarrow> program t is \<Longrightarrow> lock_step program t s (s\<lparr> todo := (todo s)(t := is) \<rparr>)"
| holds: "todo s t = Hold l # is \<Longrightarrow> holder s l = None \<Longrightarrow>
    lock_step program t s (s\<lparr> holder := (holder s)(l := Some t), todo := (todo s)(t := is) \<rparr>)"
| releases: "todo s t = Release l # is \<Longrightarrow>
    lock_step program t s (s\<lparr> holder := (holder s)(l := None), todo := (todo s)(t := is) \<rparr>)"
| reads: "todo s t = Read v # is \<Longrightarrow> lock_step program t s (s\<lparr> todo := (todo s)(t := is) \<rparr>)"
| writes: "todo s t = Write v # is \<Longrightarrow> lock_step program t s (s\<lparr> todo := (todo s)(t := is) \<rparr>)"

definition idle :: "('t, 'l, 'v) lock_state" where
  "idle = \<lparr> holder = (\<lambda>l. None), todo = (\<lambda>t. []) \<rparr>"

inductive lock_reach :: "('t \<Rightarrow> ('l, 'v) instr list \<Rightarrow> bool) \<Rightarrow> ('t, 'l, 'v) lock_state \<Rightarrow> bool" for program where
  reach_idle: "lock_reach program idle"
| reach_step: "lock_reach program s \<Longrightarrow> lock_step program t s s' \<Longrightarrow> lock_reach program s'"

text \<open>A thread is about to use \<open>v\<close>, or to write it.\<close>

definition writes_now :: "('t, 'l, 'v) lock_state \<Rightarrow> 't \<Rightarrow> 'v \<Rightarrow> bool" where
  "writes_now s t v \<longleftrightarrow> (case todo s t of Write x # is \<Rightarrow> x = v | _ \<Rightarrow> False)"

definition uses_now :: "('t, 'l, 'v) lock_state \<Rightarrow> 't \<Rightarrow> 'v \<Rightarrow> bool" where
  "uses_now s t v \<longleftrightarrow> (case todo s t of Read x # is \<Rightarrow> x = v | Write x # is \<Rightarrow> x = v | _ \<Rightarrow> False)"

text \<open>Two threads at the same data, one of them to write it.\<close>

definition race :: "('t, 'l, 'v) lock_state \<Rightarrow> 't \<Rightarrow> 't \<Rightarrow> 'v \<Rightarrow> bool" where
  "race s t u v \<longleftrightarrow> t \<noteq> u \<and> uses_now s t v \<and> writes_now s u v"

text \<open>What a thread can do now, if anything: only holding a held lock makes it wait.\<close>

definition can_run :: "('t, 'l, 'v) lock_state \<Rightarrow> 't \<Rightarrow> bool" where
  "can_run s t \<longleftrightarrow> (case todo s t of
       [] \<Rightarrow> False
     | Hold l # is \<Rightarrow> holder s l = None
     | _ # is \<Rightarrow> True)"

lemma can_run_step:
  assumes "can_run s t"
  shows "\<exists>s'. lock_step prog t s s' \<and> todo s' = (todo s)(t := tl (todo s t))"
proof (cases "todo s t")
  case Nil
  with assms show ?thesis by (simp add: can_run_def)
next
  case (Cons x xs)
  with assms show ?thesis
    by (cases x) (force simp: can_run_def intro: lock_step.intros)+
qed

text \<open>Only finitely many threads are at something.\<close>

lemma lock_step_todo: "lock_step prog t s s' \<Longrightarrow> u \<noteq> t \<Longrightarrow> todo s' u = todo s u"
  by (auto elim: lock_step.cases)

lemma finite_busy: "lock_reach prog s \<Longrightarrow> finite {t. todo s t \<noteq> []}"
proof (induction rule: lock_reach.induct)
  case reach_idle
  then show ?case by (simp add: idle_def)
next
  case (reach_step s t s')
  have "{u. todo s' u \<noteq> []} \<subseteq> insert t {u. todo s u \<noteq> []}"
    using lock_step_todo [OF reach_step.hyps(2)] by auto
  with reach_step.IH show ?case by (meson finite_insert finite_subset)
qed

section \<open>Discipline\<close>

text \<open>A program in order, when the locks \<open>held\<close> are held: a lock is taken only below none of a higher or the
  same rank, only held locks are released, data is used under its lock, and at the end none is held.\<close>

fun orderly :: "('l \<Rightarrow> nat) \<Rightarrow> ('v \<Rightarrow> 'l option) \<Rightarrow> 'l set \<Rightarrow> ('l, 'v) instr list \<Rightarrow> bool" where
  "orderly rank guard held [] \<longleftrightarrow> held = {}"
| "orderly rank guard held (Hold l # is) \<longleftrightarrow>
     (\<forall>h \<in> held. rank h < rank l) \<and> orderly rank guard (insert l held) is"
| "orderly rank guard held (Release l # is) \<longleftrightarrow> l \<in> held \<and> orderly rank guard (held - {l}) is"
| "orderly rank guard held (Read v # is) \<longleftrightarrow> (\<forall>l. guard v = Some l \<longrightarrow> l \<in> held) \<and> orderly rank guard held is"
| "orderly rank guard held (Write v # is) \<longleftrightarrow> (\<forall>l. guard v = Some l \<longrightarrow> l \<in> held) \<and> orderly rank guard held is"

locale lock_discipline =
  fixes rank :: "'l \<Rightarrow> nat" and top :: nat and guard :: "'v \<Rightarrow> 'l option"
    and program :: "'t \<Rightarrow> ('l, 'v) instr list \<Rightarrow> bool"
  assumes in_order: "program t is \<Longrightarrow> orderly rank guard {} is" and bounded: "rank l \<le> top"
begin

lemma holds_what_it_should:
  "lock_reach program s \<Longrightarrow> orderly rank guard {l. holder s l = Some t} (todo s t)"
proof (induction arbitrary: t rule: lock_reach.induct)
  case reach_idle
  then show ?case by (simp add: idle_def)
next
  case (reach_step s u s')
  from reach_step.hyps(2) show ?case
  proof (cases rule: lock_step.cases)
    case (begins "is")
    with reach_step.IH [of t] in_order [of u "is"] show ?thesis by (cases "t = u") auto
  next
    case (holds l "is")
    have "{k. ((holder s)(l := Some u)) k = Some t} = (if t = u then insert l {k. holder s k = Some t} else {k. holder s k = Some t})"
      using holds(3) by auto
    with holds reach_step.IH [of t] show ?thesis by (cases "t = u") simp_all
  next
    case (releases l "is")
    with reach_step.IH [of u] have "holder s l = Some u" by simp
    then have "{k. ((holder s)(l := None)) k = Some t} = {k. holder s k = Some t} - (if t = u then {l} else {})" by auto
    with releases reach_step.IH [of t] show ?thesis by (cases "t = u") simp_all
  next
    case (reads v "is")
    with reach_step.IH [of t] show ?thesis by (cases "t = u") auto
  next
    case (writes v "is")
    with reach_step.IH [of t] show ?thesis by (cases "t = u") auto
  qed
qed

text \<open>Data with a lock is used by one thread at a time.\<close>

lemma exclusive:
  assumes "lock_reach program s" and "uses_now s t v" and "uses_now s u v" and "guard v = Some l"
  shows "t = u"
  using holds_what_it_should [OF assms(1), of t] holds_what_it_should [OF assms(1), of u] assms(2-4)
  by (auto simp: uses_now_def split: list.split_asm instr.split_asm)

lemma race_free:
  assumes "lock_reach program s" and "guard v \<noteq> None"
  shows "\<not> race s t u v"
proof
  assume r: "race s t u v"
  then have "uses_now s u v" by (auto simp: race_def writes_now_def uses_now_def split: list.split_asm instr.split_asm)
  with r assms exclusive show False by (auto simp: race_def)
qed

text \<open>A thread that waits for a lock waits, in the end, for one that can run.\<close>

lemma no_deadlock:
  assumes "lock_reach program s" and "todo s t \<noteq> []"
  shows "\<exists>u. todo s u \<noteq> [] \<and> can_run s u"
proof -
  have "\<exists>u. todo s u \<noteq> [] \<and> can_run s u" if "todo s t = Hold l # is" for t l "is"
    using that
  proof (induction "top - rank l" arbitrary: t l "is" rule: less_induct)
    case less
    show ?case
    proof (cases "holder s l")
      case None
      with less.prems show ?thesis by (intro exI [of _ t]) (simp add: can_run_def)
    next
      case (Some u)
      have o: "orderly rank guard {k. holder s k = Some u} (todo s u)" by (rule holds_what_it_should [OF assms(1)])
      with Some have ne: "todo s u \<noteq> []" by auto
      show ?thesis
      proof (cases "can_run s u")
        case False
        with ne obtain k js where k: "todo s u = Hold k # js"
          by (auto simp: can_run_def split: list.split_asm instr.split_asm)
        with o Some have "rank l < rank k" by simp
        with bounded [of k] have "top - rank k < top - rank l" by simp
        from less.hyps [OF this k] show ?thesis .
      qed (use ne in blast)
    qed
  qed
  moreover have "\<exists>l is. todo s t = Hold l # is" if "\<not> can_run s t"
    using that assms(2) by (auto simp: can_run_def split: list.split_asm instr.split_asm)
  ultimately show ?thesis using assms(2) by blast
qed

text \<open>So all of them can come to the end of what they do.\<close>

lemma all_can_finish:
  assumes "lock_reach program s"
  shows "\<exists>s'. (\<lambda>a b. \<exists>t. lock_step program t a b)\<^sup>*\<^sup>* s s' \<and> (\<forall>t. todo s' t = [])"
proof -
  define A where "A = {t. todo s t \<noteq> []}"
  have fin: "finite A" using finite_busy [OF assms] by (simp add: A_def)
  have "\<exists>s'. (\<lambda>a b. \<exists>t. lock_step program t a b)\<^sup>*\<^sup>* s s' \<and> (\<forall>t. todo s' t = [])"
    if "lock_reach program s" "\<And>t. todo s t \<noteq> [] \<Longrightarrow> t \<in> A" for s
    using that
  proof (induction "\<Sum>t\<in>A. length (todo s t)" arbitrary: s rule: less_induct)
    case less
    show ?case
    proof (cases "\<exists>t. todo s t \<noteq> []")
      case True
      with no_deadlock [OF less.prems(1)] obtain u where u: "todo s u \<noteq> []" "can_run s u" by blast
      from can_run_step [OF u(2), of program] obtain s1 where
        s1: "lock_step program u s s1" "todo s1 = (todo s)(u := tl (todo s u))" by blast
      have "(\<Sum>t\<in>A. length (todo s1 t)) < (\<Sum>t\<in>A. length (todo s t))"
        by (rule sum_strict_mono_ex1 [OF fin]) (use u less.prems(2) [OF u(1)] in \<open>auto simp: s1(2) intro: bexI [of _ u]\<close>)
      moreover have "lock_reach program s1" using less.prems(1) s1(1) by (rule lock_reach.reach_step)
      moreover have "t \<in> A" if "todo s1 t \<noteq> []" for t
        using that less.prems(2) [of t] less.prems(2) [OF u(1)] by (cases "t = u") (auto simp: s1(2))
      ultimately obtain s' where s': "(\<lambda>a b. \<exists>t. lock_step program t a b)\<^sup>*\<^sup>* s1 s'" "\<forall>t. todo s' t = []"
        using less.hyps by blast
      have "(\<lambda>a b. \<exists>t. lock_step program t a b)\<^sup>*\<^sup>* s s'"
        by (rule converse_rtranclp_into_rtranclp [OF _ s'(1)]) (use s1(1) in blast)
      with s'(2) show ?thesis by blast
    qed (intro exI [of _ s], simp)
  qed
  from this [OF assms] show ?thesis by (simp add: A_def)
qed

end

section \<open>The discipline of the code\<close>

text \<open>The lock every piece of data has; the last three have none.\<close>

fun guard :: "shared \<Rightarrow> lock option" where
  "guard Init_count = Some S_init_lock"
| "guard Conns_map = Some S_conns_map_lock"
| "guard Connect_conns = Some S_connect_conns_lock"
| "guard Curr_conns = Some Gns_mutex"
| "guard (Td_read_msgs i) = Some (Td_read_msgs_lock i)"
| "guard (Td_write_msgs i) = Some (Write_msgs_lock i)"
| "guard (New_connections i) = Some (Conn_mutex i)"
| "guard (Conn_state p) = Some (State_mutex p)"
| "guard Last_thread_id = None"
| "guard (Thread_connections i) = None"
| "guard (Conn_td p) = None"

text \<open>Only the queue of new connections is locked while another lock is held.\<close>

fun rank :: "lock \<Rightarrow> nat" where
  "rank (Conn_mutex i) = 1"
| "rank l = 0"

text \<open>Parts of a program that leave the held locks as they are.\<close>

definition steady :: "lock set \<Rightarrow> code \<Rightarrow> bool" where
  "steady held xs \<longleftrightarrow> (\<forall>ys. orderly rank guard held ys \<longrightarrow> orderly rank guard held (xs @ ys))"

named_theorems steady_intros

lemma steady_Nil [steady_intros]: "steady held []"
  by (simp add: steady_def)

lemma steady_append [steady_intros]: "steady held xs \<Longrightarrow> steady held ys \<Longrightarrow> steady held (xs @ ys)"
  by (simp add: steady_def)

lemma steady_access [steady_intros]:
  "(\<And>l. guard v = Some l \<Longrightarrow> l \<in> held) \<Longrightarrow> steady held xs \<Longrightarrow> steady held (Read v # xs)"
  "(\<And>l. guard v = Some l \<Longrightarrow> l \<in> held) \<Longrightarrow> steady held xs \<Longrightarrow> steady held (Write v # xs)"
  by (simp_all add: steady_def)

lemma steady_locked [steady_intros]:
  assumes "\<And>h. h \<in> held \<Longrightarrow> rank h < rank l" and "steady (insert l held) body"
  shows "steady held (locked l body)"
proof -
  have "l \<notin> held" using assms(1) by blast
  with assms show ?thesis by (simp add: steady_def locked_def)
qed

lemma steady_AutoLockMutex [steady_intros]:
  "(\<And>h. h \<in> held \<Longrightarrow> rank h < rank l) \<Longrightarrow> steady (insert l held) body \<Longrightarrow> steady held (AutoLockMutex l body)"
  using steady_locked by (simp add: AutoLockMutex_def locked_def)

lemma steady_concat [steady_intros]: "(\<And>x. x \<in> set xss \<Longrightarrow> steady held x) \<Longrightarrow> steady held (concat xss)"
  by (induction xss) (auto intro: steady_Nil steady_append)

lemma steady_concat_map [steady_intros]: "(\<And>x. steady held (f x)) \<Longrightarrow> steady held (concat (map f xs))"
  by (rule steady_concat) auto

lemma steady_replicate [steady_intros]: "steady held x \<Longrightarrow> steady held (concat (replicate n x))"
  by (rule steady_concat) simp

lemma steady_writes [steady_intros]: "steady held [Write v] \<Longrightarrow> steady held (replicate n (Write v))"
  by (induction n) (auto simp: steady_def)

lemma steady_if [steady_intros]: "(b \<Longrightarrow> steady held xs) \<Longrightarrow> (\<not> b \<Longrightarrow> steady held ys) \<Longrightarrow> steady held (if b then xs else ys)"
  by simp

lemmas functions_locks =
  conn_set_state_locks_def conn_get_state_locks_def ConnQueue_Pop_locks_def ConnQueue_Push_locks_def
  register_thread_init_locks_def push_worker_new_conn_locks_def give_worker_new_conn_locks_def accept_locks_def
  create_conn_locks_def conn_internal_close_locks_def process_event_locks_def thread_libevent_process_locks_def
  distribute_locks_def collect_locks_def connect_locks_def io_locks_def reap_locks_def net_send_locks_def
  get_net_msgs_locks_def net_connect_locks_def wait_for_thread_init_locks_def

lemma program_steady: "program t is \<Longrightarrow> steady {} is"
  by (cases rule: program.cases, assumption)
    (auto simp: functions_locks intro!: steady_intros)

interpretation net_locks: lock_discipline rank 1 guard program
proof
  show "orderly rank guard {} is" if "program t is" for t "is"
    using program_steady [OF that] by (auto simp: steady_def dest: spec [of _ "[]"])
  show "rank l \<le> 1" for l by (cases l) simp_all
qed

section \<open>The races\<close>

text \<open>A thread on its own: through accesses, and through a section whose lock is free.\<close>

definition accesses :: "('l, 'v) instr list \<Rightarrow> bool" where
  "accesses xs \<longleftrightarrow> (\<forall>x \<in> set xs. case x of Hold l \<Rightarrow> False | Release l \<Rightarrow> False | _ \<Rightarrow> True)"

lemma run_accesses:
  "lock_reach prog s \<Longrightarrow> accesses xs \<Longrightarrow> todo s t = xs @ ys \<Longrightarrow>
     \<exists>s'. lock_reach prog s' \<and> todo s' = (todo s)(t := ys) \<and> holder s' = holder s"
proof (induction xs arbitrary: s)
  case Nil
  then show ?case by (intro exI [of _ s]) auto
next
  case (Cons x xs)
  then obtain v where x: "x = Read v \<or> x = Write v" by (cases x) (auto simp: accesses_def)
  let ?s = "s\<lparr> todo := (todo s)(t := xs @ ys) \<rparr>"
  have "lock_reach prog ?s"
    using x Cons.prems by (auto intro: lock_reach.reach_step [OF Cons.prems(1)] lock_step.reads lock_step.writes)
  moreover have "accesses xs" using Cons.prems(2) by (simp add: accesses_def)
  moreover have "todo ?s t = xs @ ys" by simp
  ultimately have "\<exists>s'. lock_reach prog s' \<and> todo s' = (todo ?s)(t := ys) \<and> holder s' = holder ?s" by (rule Cons.IH)
  moreover have "(todo ?s)(t := ys) = (todo s)(t := ys)" "holder ?s = holder s" by (simp_all add: fun_eq_iff)
  ultimately show ?case by (simp only:)
qed

lemma run_locked:
  assumes "lock_reach prog s" and "todo s t = locked l xs @ ys" and "holder s l = None" and "accesses xs"
  shows "\<exists>s'. lock_reach prog s' \<and> todo s' = (todo s)(t := ys) \<and> holder s' = holder s"
proof -
  let ?s1 = "s\<lparr> holder := (holder s)(l := Some t), todo := (todo s)(t := xs @ Release l # ys) \<rparr>"
  have "lock_reach prog ?s1"
    by (rule lock_reach.reach_step [OF assms(1) lock_step.holds]) (use assms(2,3) in \<open>simp_all add: locked_def\<close>)
  from run_accesses [OF this assms(4), of t "Release l # ys"] obtain s2 where
    s2: "lock_reach prog s2" "todo s2 = (todo s)(t := Release l # ys)" "holder s2 = (holder s)(l := Some t)" by auto
  let ?s3 = "s2\<lparr> holder := (holder s2)(l := None), todo := (todo s2)(t := ys) \<rparr>"
  have "lock_reach prog ?s3"
    by (rule lock_reach.reach_step [OF s2(1) lock_step.releases]) (simp add: s2(2))
  with s2(2,3) assms(3) show ?thesis by (intro exI [of _ ?s3]) auto
qed

lemma run_begin:
  "lock_reach prog s \<Longrightarrow> todo s t = [] \<Longrightarrow> prog t xs \<Longrightarrow>
     \<exists>s'. lock_reach prog s' \<and> todo s' = (todo s)(t := xs) \<and> holder s' = holder s"
  by (intro exI conjI, rule lock_reach.reach_step [OF _ lock_step.begins]) auto

lemma first_begin: "prog t xs \<Longrightarrow> \<exists>s. lock_reach prog s \<and> todo s t = xs \<and> holder s = (\<lambda>l. None)"
proof -
  assume p: "prog t xs"
  have "lock_step prog t idle (idle\<lparr> todo := (todo idle)(t := xs) \<rparr>)" by (rule lock_step.begins) (simp_all add: idle_def p)
  from lock_reach.reach_step [OF lock_reach.reach_idle this] show ?thesis
    by (intro exI conjI) (assumption, simp_all add: idle_def)
qed

lemma adopting:
  assumes "lock_reach program s" and "todo s (Worker i) = []" and "\<And>l. holder s l = None"
  shows "\<exists>s'. lock_reach program s' \<and>
    todo s' = (todo s)(Worker i := [Read (Thread_connections i), Write (Thread_connections i), Write (Conn_td p)]) \<and>
    holder s' = holder s"
proof -
  let ?fin = "[Read (Thread_connections i), Write (Thread_connections i), Write (Conn_td p)]"
  let ?c = "locked Gns_mutex [Read Curr_conns, Write Curr_conns] @ ?fin"
  let ?b = "locked S_conns_map_lock [Write Conns_map] @ ?c"
  let ?a = "locked S_conns_map_lock [Read Conns_map] @ ?b"
  have code: "thread_libevent_process_locks i p True = locked (Conn_mutex i) [Read (New_connections i), Write (New_connections i)] @ ?a"
    by (simp add: thread_libevent_process_locks_def ConnQueue_Pop_locks_def create_conn_locks_def AutoLockMutex_def locked_def)
  from run_begin [OF assms(1,2) program.intros(12) [of i p True]] obtain s1 where
    s1: "lock_reach program s1" "todo s1 = (todo s)(Worker i := thread_libevent_process_locks i p True)" "holder s1 = holder s" by blast
  from run_locked [OF s1(1), of "Worker i" "Conn_mutex i" "[Read (New_connections i), Write (New_connections i)]" ?a] s1(2,3) assms(3) obtain s2 where
    s2: "lock_reach program s2" "todo s2 = (todo s)(Worker i := ?a)" "holder s2 = holder s" by (auto simp: code accesses_def)
  from run_locked [OF s2(1), of "Worker i" S_conns_map_lock "[Read Conns_map]" ?b] s2(2,3) assms(3) obtain s3 where
    s3: "lock_reach program s3" "todo s3 = (todo s)(Worker i := ?b)" "holder s3 = holder s" by (auto simp: accesses_def)
  from run_locked [OF s3(1), of "Worker i" S_conns_map_lock "[Write Conns_map]" ?c] s3(2,3) assms(3) obtain s4 where
    s4: "lock_reach program s4" "todo s4 = (todo s)(Worker i := ?c)" "holder s4 = holder s" by (auto simp: accesses_def)
  from run_locked [OF s4(1), of "Worker i" Gns_mutex "[Read Curr_conns, Write Curr_conns]" ?fin] s4(2,3) assms(3) show ?thesis by (auto simp: accesses_def)
qed

text \<open>\<open>get_net_msgs\<close> asks a table for its size while its worker inserts into it; \<open>net_send\<close> reads the
  \<open>td_\<close> of a connection while its worker sets it; the accept thread and a worker count
  \<open>s_last_thread_id\<close> up at the same time.\<close>

lemma size_race: "\<exists>s. lock_reach program s \<and> race s Logic (Worker 0) (Thread_connections 0)"
proof -
  from adopting [OF lock_reach.reach_idle, of 0 p] obtain s1 where s1: "lock_reach program s1" "holder s1 = (\<lambda>l. None)"
    "todo s1 = (\<lambda>t. [])(Worker 0 := [Read (Thread_connections 0), Write (Thread_connections 0), Write (Conn_td p)])"
    by (auto simp: idle_def)
  from run_accesses [OF s1(1), of "[Read (Thread_connections 0)]" "Worker 0"] s1(2,3) obtain s2 where
    s2: "lock_reach program s2" "holder s2 = (\<lambda>l. None)"
      "todo s2 = (\<lambda>t. [])(Worker 0 := [Write (Thread_connections 0), Write (Conn_td p)])"
    by (auto simp: accesses_def)
  have code: "get_net_msgs_locks 1 (\<lambda>i. 0) =
      [Hold (Td_read_msgs_lock 0), Read (Thread_connections 0), Release (Td_read_msgs_lock 0)]"
    by (simp add: get_net_msgs_locks_def locked_def)
  from run_begin [OF s2(1) _ program.intros(2) [of 1 "\<lambda>i. 0", unfolded code]] s2(2,3) obtain s3 where
    s3: "lock_reach program s3" "holder s3 = (\<lambda>l. None)"
      "todo s3 = (\<lambda>t. [])(Worker 0 := [Write (Thread_connections 0), Write (Conn_td p)],
         Logic := [Hold (Td_read_msgs_lock 0), Read (Thread_connections 0), Release (Td_read_msgs_lock 0)])"
    by auto
  have "lock_reach program (s3\<lparr> holder := (holder s3)(Td_read_msgs_lock 0 := Some Logic),
      todo := (todo s3)(Logic := [Read (Thread_connections 0), Release (Td_read_msgs_lock 0)]) \<rparr>)"
    by (rule lock_reach.reach_step [OF s3(1) lock_step.holds]) (simp_all add: s3(2,3))
  then show ?thesis
    by (intro exI conjI) (assumption, simp add: race_def uses_now_def writes_now_def s3(3))
qed

lemma td_race: "\<exists>s. lock_reach program s \<and> race s Logic (Worker i) (Conn_td p)"
proof -
  from adopting [OF lock_reach.reach_idle, of i p] obtain s1 where s1: "lock_reach program s1"
    "todo s1 = (\<lambda>t. [])(Worker i := [Read (Thread_connections i), Write (Thread_connections i), Write (Conn_td p)])"
    by (auto simp: idle_def)
  from run_accesses [OF s1(1), of "[Read (Thread_connections i), Write (Thread_connections i)]" "Worker i"] s1(2) obtain s2 where
    s2: "lock_reach program s2" "todo s2 = (\<lambda>t. [])(Worker i := [Write (Conn_td p)])" by (auto simp: accesses_def)
  from run_begin [OF s2(1), of Logic "net_send_locks p j"] program.intros(1) s2(2) obtain s3 where
    "lock_reach program s3" "todo s3 = (\<lambda>t. [])(Worker i := [Write (Conn_td p)], Logic := net_send_locks p j)" by auto
  then show ?thesis
    by (intro exI [of _ s3]) (simp add: race_def uses_now_def writes_now_def net_send_locks_def)
qed

lemma turn_race: "\<exists>s. lock_reach program s \<and> race s Acceptor (Worker i) Last_thread_id"
proof -
  let ?rest = "Write Last_thread_id # ConnQueue_Push_locks 0 @ [Write Connect_conns, Read Connect_conns, Release S_connect_conns_lock]"
  from run_begin [where prog = program and s = idle and t = "Worker i" and xs = "connect_locks [0]"]
    lock_reach.reach_idle program.intros(10) [of i "[0]"] obtain s1 where
    s1: "lock_reach program s1" "holder s1 = (\<lambda>l. None)"
      "todo s1 = (\<lambda>t. [])(Worker i := Hold S_connect_conns_lock # Read Connect_conns # Read Last_thread_id # ?rest)"
    by (auto simp: idle_def connect_locks_def AutoLockMutex_def push_worker_new_conn_locks_def)
  have "lock_reach program (s1\<lparr> holder := (holder s1)(S_connect_conns_lock := Some (Worker i)),
      todo := (todo s1)(Worker i := [Read Connect_conns, Read Last_thread_id] @ ?rest) \<rparr>)"
    by (rule lock_reach.reach_step [OF s1(1) lock_step.holds]) (simp_all add: s1(2,3))
  from run_accesses [OF this, of "[Read Connect_conns, Read Last_thread_id]" "Worker i" ?rest] s1(3) obtain s2 where
    s2: "lock_reach program s2" "todo s2 = (\<lambda>t. [])(Worker i := ?rest)" by (auto simp: accesses_def)
  from run_begin [OF s2(1), of Acceptor "accept_locks [0]"] program.intros s2(2) obtain s3 where
    "lock_reach program s3" "todo s3 = (\<lambda>t. [])(Worker i := ?rest, Acceptor := accept_locks [0])" by auto
  then show ?thesis
    by (intro exI [of _ s3]) (simp add: race_def uses_now_def writes_now_def accept_locks_def give_worker_new_conn_locks_def)
qed

section \<open>Waiting for the workers\<close>

text \<open>The accept thread tests and waits under \<open>s_init_lock\<close>, every worker counts up and signals under it;
  a signal wakes the waiting thread, which may also wake on its own, and then tests again.\<close>

datatype waiter = Checks | Waits | Ready

record 'b start_state =
  st_net :: "'b net_state"
  st_waiter :: waiter
  st_left :: nat   \<comment> \<open>workers that have not registered\<close>

inductive start_step :: "'b start_state \<Rightarrow> 'b start_state \<Rightarrow> bool" where
  registers: "st_left x = Suc k \<Longrightarrow>
    start_step x (x\<lparr> st_net := register_thread_init (st_net x), st_left := k,
      st_waiter := (if st_waiter x = Waits then Checks else st_waiter x) \<rparr>)"
| checks: "st_waiter x = Checks \<Longrightarrow>
    start_step x (x\<lparr> st_waiter := (if threads_ready (st_net x) then Ready else Waits) \<rparr>)"
| wakes: "st_waiter x = Waits \<Longrightarrow> start_step x (x\<lparr> st_waiter := Checks \<rparr>)"

inductive started :: "nat \<Rightarrow> 'b start_state \<Rightarrow> bool" for n where
  started_init: "s_init_count (st_net x) = 0 \<Longrightarrow> net_thread_num (s_net_setting (st_net x)) = of_nat n \<Longrightarrow>
    n < 2 ^ 31 \<Longrightarrow> st_left x = n \<Longrightarrow> st_waiter x = Checks \<Longrightarrow> started n x"
| started_step: "started n x \<Longrightarrow> start_step x y \<Longrightarrow> started n y"

definition start_ok :: "nat \<Rightarrow> 'b start_state \<Rightarrow> bool" where
  "start_ok n x \<longleftrightarrow> n < 2 ^ 31 \<and> net_thread_num (s_net_setting (st_net x)) = of_nat n \<and> st_left x \<le> n \<and>
     s_init_count (st_net x) = of_nat (n - st_left x) \<and>
     (st_waiter x = Waits \<longrightarrow> 0 < st_left x) \<and> (st_waiter x = Ready \<longrightarrow> st_left x = 0)"

lemma threads_ready_iff: "start_ok n x \<Longrightarrow> threads_ready (st_net x) \<longleftrightarrow> st_left x = 0"
proof -
  assume o: "start_ok n x"
  have i: "sint (of_nat k :: u32) = int k" if "k < 2 ^ 31" for k
    using that by (simp add: signed_of_nat signed_take_bit_int_eq_self)
  from o have c: "sint (s_init_count (st_net x)) = int (n - st_left x)" "sint (net_thread_num (s_net_setting (st_net x))) = int n"
    "st_left x \<le> n"
    using i [of "n - st_left x"] i [of n] by (simp_all only: start_ok_def less_imp_diff_less)
  then show ?thesis unfolding threads_ready_def c(1,2) by auto
qed

lemma started_ok: "started n x \<Longrightarrow> start_ok n x"
proof (induction rule: started.induct)
  case (started_init x)
  then show ?case by (simp add: start_ok_def)
next
  case (started_step x y)
  from started_step.hyps(2) show ?case
  proof (cases rule: start_step.cases)
    case (registers k)
    have "n - k = Suc (n - Suc k)" if "Suc k \<le> n" using that by simp
    with started_step.IH registers show ?thesis by (auto simp: start_ok_def register_thread_init_def)
  next
    case checks
    with started_step.IH threads_ready_iff [OF started_step.IH] show ?thesis by (auto simp: start_ok_def)
  next
    case wakes
    with started_step.IH show ?thesis by (auto simp: start_ok_def)
  qed
qed

text \<open>From everywhere the accept thread gets ready, when the remaining workers register.\<close>

lemma start_finishes:
  fixes x :: "'b start_state"
  assumes "started n x"
  shows "\<exists>y. start_step\<^sup>*\<^sup>* x y \<and> st_waiter y = Ready"
proof -
  have all: "\<exists>y. start_step\<^sup>*\<^sup>* x y \<and> started n y \<and> st_left y = 0" if "started n x" for x :: "'b start_state"
    using that
  proof (induction "st_left x" arbitrary: x)
    case 0
    then show ?case by auto
  next
    case (Suc k)
    let ?y = "x\<lparr> st_net := register_thread_init (st_net x), st_left := k,
      st_waiter := (if st_waiter x = Waits then Checks else st_waiter x) \<rparr>"
    have st: "start_step x ?y" using Suc.hyps(2) by (intro start_step.registers) simp
    with Suc.prems have "started n ?y" by (blast intro: started.started_step)
    from Suc.hyps(1) [OF _ this] obtain z where "start_step\<^sup>*\<^sup>* ?y z" "started n z" "st_left z = 0" by auto
    with st show ?case by (meson converse_rtranclp_into_rtranclp)
  qed
  from all [OF assms] obtain y where y: "start_step\<^sup>*\<^sup>* x y" "started n y" "st_left y = 0" by blast
  note ok = started_ok [OF y(2)]
  have r: "threads_ready (st_net y)" using threads_ready_iff [OF ok] y(3) by simp
  have "st_waiter y \<noteq> Waits" using ok y(3) by (auto simp: start_ok_def)
  then consider "st_waiter y = Ready" | "st_waiter y = Checks" by (cases "st_waiter y") auto
  then show ?thesis
  proof cases
    case 1
    with y(1) show ?thesis by blast
  next
    case 2
    from start_step.checks [OF this] r have "start_step y (y\<lparr> st_waiter := Ready \<rparr>)" by simp
    with y(1) have "start_step\<^sup>*\<^sup>* x (y\<lparr> st_waiter := Ready \<rparr>)" by (rule rtranclp.rtrancl_into_rtrancl)
    then show ?thesis by (intro exI [of _ "y\<lparr> st_waiter := Ready \<rparr>"]) simp
  qed
qed

end
