(* ===== verification/GF_Utils.thy ===== *)
theory GF_Utils
  imports GF_Prelude "HOL-Library.Char_ord"
begin

text \<open>
  \<open>src/src/common/utils\<close>: conversions between numbers and text (\<open>str_util.cpp\<close>), the clock
  (\<open>time_util.cpp\<close>), \<open>is_file_exist\<close> (\<open>file_util.cpp\<close>) and \<open>gen_uuid\<close> (\<open>id_util.cpp\<close>). Text is
  a list of bytes. Shown: text made by \<open>int_to_str\<close> reads back through \<open>str_to_int\<close>.
\<close>

section \<open>Text\<close>

definition bytes_of :: "string \<Rightarrow> byte list" where
  "bytes_of s = map (\<lambda>c. of_nat (of_char c)) s"

definition BlankStr :: "byte list" where
  "BlankStr = []"

text \<open>What a \<open>const char*\<close> shows of a string: the bytes before the first zero.\<close>

definition c_str :: "byte list \<Rightarrow> byte list" where
  "c_str s = takeWhile (\<lambda>b. b \<noteq> 0) s"

section \<open>str_util\<close>

function digits :: "nat \<Rightarrow> byte list" where
  "digits n = (if n < 10 then [of_nat (48 + n)] else digits (n div 10) @ [of_nat (48 + n mod 10)])"
  by auto
termination by (relation "measure id") auto

declare digits.simps [simp del]

text \<open>\<open>operator<<\<close> of a stream for an \<open>int64_t\<close>.\<close>

definition int_to_str :: "u64 \<Rightarrow> byte list" where
  "int_to_str val = (if sint val < 0 then 0x2D # digits (nat (- sint val)) else digits (nat (sint val)))"

definition isspace :: "byte \<Rightarrow> bool" where
  "isspace b \<longleftrightarrow> b = 32 \<or> 9 \<le> b \<and> b \<le> 13"

definition isdigit :: "byte \<Rightarrow> bool" where
  "isdigit b \<longleftrightarrow> 48 \<le> b \<and> b \<le> 57"

definition digits_val :: "byte list \<Rightarrow> int" where
  "digits_val ds = foldl (\<lambda>acc d. 10 * acc + (uint d - 48)) 0 ds"

text \<open>\<open>atoi\<close> and \<open>atoll\<close>: white space, a sign, digits; the number they stand for.\<close>

definition ato_number :: "byte list \<Rightarrow> int" where
  "ato_number s =
     (let t = dropWhile isspace (c_str s);
          neg = (t \<noteq> [] \<and> hd t = 0x2D);
          u = (if t \<noteq> [] \<and> (hd t = 0x2D \<or> hd t = 0x2B) then tl t else t);
          v = digits_val (takeWhile isdigit u)
      in if neg then - v else v)"

text \<open>A number that does not fit the type is undefined behaviour.\<close>

definition str_to_int :: "byte list \<Rightarrow> u32 res" where
  "str_to_int str =
     (let v = ato_number str
      in if - (2 ^ 31) \<le> v \<and> v < 2 ^ 31 then Inr (word_of_int v) else Inl Int_overflow)"

definition atoll :: "byte list \<Rightarrow> u64 res" where
  "atoll str =
     (let v = ato_number str
      in if - (2 ^ 63) \<le> v \<and> v < 2 ^ 63 then Inr (word_of_int v) else Inl Int_overflow)"

section \<open>time_util\<close>

text \<open>The result of \<open>gettimeofday\<close>: \<open>None\<close> for -1, else seconds and microseconds.\<close>

definition get_u_time :: "(u64 \<times> u64) option \<Rightarrow> u64" where
  "get_u_time tv = (case tv of None \<Rightarrow> -1 | Some (s, u) \<Rightarrow> s * 1000000 + u)"

definition get_m_time :: "(u64 \<times> u64) option \<Rightarrow> u64" where
  "get_m_time tv = (case tv of None \<Rightarrow> -1 | Some (s, u) \<Rightarrow> s * 1000 + u div 1000)"

section \<open>file_util and id_util\<close>

definition ENOENT :: int where "ENOENT = 2"

text \<open>\<open>ret\<close> is what \<open>stat\<close> returns: 0, or -1 with the reason in \<open>errno\<close>.\<close>

definition is_file_exist :: "int \<Rightarrow> bool" where
  "is_file_exist ret = (if ret = ENOENT then False else True)"

text \<open>\<open>uuid_unparse\<close> writes the text and its terminating zero into 36 bytes.\<close>

definition gen_uuid :: "('u \<Rightarrow> byte list) \<Rightarrow> 'u \<Rightarrow> byte list res" where
  "gen_uuid uuid_unparse uuid =
     (let str = uuid_unparse uuid in if 36 < length str + 1 then Inl Overrun else Inr str)"

section \<open>Laws\<close>

lemma digits_isdigit: "b \<in> set (digits n) \<Longrightarrow> isdigit b"
proof (induction n rule: digits.induct)
  case (1 n)
  have d: "isdigit (of_nat (48 + k))" if "k < 10" for k
  proof -
    from that have "k \<in> {0,1,2,3,4,5,6,7,8,9}" by auto
    then show ?thesis by (auto simp: isdigit_def)
  qed
  have m: "n mod 10 < 10" by simp
  show ?case
  proof (cases "n < 10")
    case True
    with "1.prems" d show ?thesis by (simp add: digits.simps [of n])
  next
    case False
    with "1.prems" have "b \<in> set (digits (n div 10)) \<or> b = of_nat (48 + n mod 10)"
      by (auto simp: digits.simps [of n])
    with "1.IH" [OF False] d [OF m] show ?thesis by blast
  qed
qed

lemma digits_nonempty: "digits n \<noteq> []"
  by (simp add: digits.simps [of n])

lemma uint_digit: "k < 10 \<Longrightarrow> uint (of_nat (48 + k) :: byte) = 48 + int k"
proof -
  assume "k < 10"
  then have "k \<in> {0,1,2,3,4,5,6,7,8,9}" by auto
  then show ?thesis by auto
qed

lemma digits_val_digits: "digits_val (digits n) = int n"
proof (induction n rule: digits.induct)
  case (1 n)
  show ?case
  proof (cases "n < 10")
    case True
    then show ?thesis using uint_digit [OF True] by (simp add: digits.simps [of n] digits_val_def)
  next
    case False
    have "digits_val (digits n) = 10 * digits_val (digits (n div 10)) + int (n mod 10)"
      using False uint_digit [of "n mod 10"] by (simp add: digits.simps [of n] digits_val_def)
    moreover have "10 * int (n div 10) + int (n mod 10) = int n"
    proof -
      have "int (10 * (n div 10) + n mod 10) = int n" by simp
      then show ?thesis by (simp only: of_nat_add of_nat_mult of_nat_numeral)
    qed
    ultimately show ?thesis using "1.IH" [OF False] by simp
  qed
qed

lemma isdigit_props: "isdigit b \<Longrightarrow> b \<noteq> 0 \<and> \<not> isspace b \<and> b \<noteq> 0x2D \<and> b \<noteq> 0x2B"
  by (auto simp: isdigit_def isspace_def word_le_nat_alt)

lemma takeWhile_all: "(\<And>x. x \<in> set xs \<Longrightarrow> P x) \<Longrightarrow> takeWhile P xs = xs"
  by (simp add: takeWhile_eq_all_conv)

lemma ato_number_digits: "ato_number (digits n) = int n" "ato_number (0x2D # digits n) = - int n"
proof -
  have c: "c_str (digits n) = digits n" "c_str (0x2D # digits n) = 0x2D # digits n"
    unfolding c_str_def by (auto intro!: takeWhile_all dest: digits_isdigit isdigit_props)
  obtain d ds where d: "digits n = d # ds" using digits_nonempty by (cases "digits n") auto
  then have dp: "d \<noteq> 0 \<and> \<not> isspace d \<and> d \<noteq> 0x2D \<and> d \<noteq> 0x2B"
    using digits_isdigit [of d n] isdigit_props by simp
  have t: "takeWhile isdigit (digits n) = digits n" by (rule takeWhile_all) (rule digits_isdigit)
  show "ato_number (digits n) = int n"
    using c dp t by (simp add: ato_number_def Let_def d digits_val_digits [of n, unfolded d])
  have "\<not> isspace 0x2D" by (simp add: isspace_def)
  then show "ato_number (0x2D # digits n) = - int n"
    using c t by (simp add: ato_number_def Let_def digits_val_digits del: takeWhile_eq_all_conv)
qed

lemma ato_number_int_to_str: "ato_number (int_to_str v) = sint v"
  by (auto simp: int_to_str_def ato_number_digits)

lemma str_to_int_int_to_str: "str_to_int (int_to_str (scast v)) = Inr v"
proof -
  have "sint (scast v :: u64) = sint (v :: u32)"
    using sint_greater_eq [of v] sint_less [of v]
    by (simp add: signed_scast_eq signed_take_bit_int_eq_self)
  then show ?thesis
    using sint_greater_eq [of v] sint_less [of v] by (simp add: str_to_int_def ato_number_int_to_str)
qed

lemma atoll_int_to_str: "atoll (int_to_str v) = Inr v"
  using sint_greater_eq [of v] sint_less [of v] by (simp add: atoll_def ato_number_int_to_str)

lemma digits_no_zero: "0 \<notin> set (int_to_str v)"
  by (auto simp: int_to_str_def dest: digits_isdigit isdigit_props)

end
