(* ===== verification/GF_Db.thy ===== *)
theory GF_Db
  imports GF_StdMap GF_Utils
begin

text \<open>
  The MySQL client of \<open>src/src/common/database/mysql/go_db.cpp\<close>: running a command and copying
  the rows of its first result into messages through reflection.

  The MySQL library is not in the repository: what it answers to a command is the record
  \<open>mysql_answer\<close>. A message seen through reflection is its fields by name; its descriptor gives
  the type of each field. \<open>atof\<close>, on an abstract type of floating point numbers, is an argument.
\<close>

section \<open>Messages through reflection\<close>

datatype CppType =
    CPPTYPE_INT32 | CPPTYPE_INT64 | CPPTYPE_UINT32 | CPPTYPE_UINT64 | CPPTYPE_DOUBLE
  | CPPTYPE_FLOAT | CPPTYPE_BOOL | CPPTYPE_ENUM | CPPTYPE_STRING | CPPTYPE_MESSAGE

datatype 'f field_val =
    V_int32 u32 | V_int64 u64 | V_uint32 u32 | V_uint64 u64 | V_double 'f | V_float 'f
  | V_bool bool | V_string "byte list"

type_synonym 'f proto_item = "byte list \<Rightarrow> 'f field_val option"
type_synonym descriptor = "byte list \<Rightarrow> CppType option"

definition set_proto_data ::
    "(byte list \<Rightarrow> 'f) \<Rightarrow> CppType \<Rightarrow> byte list \<Rightarrow> byte list \<Rightarrow> 'f proto_item \<Rightarrow> 'f proto_item res" where
  "set_proto_data atof ty name val pd =
     (case ty of
        CPPTYPE_INT32 \<Rightarrow> bind_res (str_to_int val) (\<lambda>v. Inr (pd(name \<mapsto> V_int32 v)))
      | CPPTYPE_INT64 \<Rightarrow> bind_res (atoll val) (\<lambda>v. Inr (pd(name \<mapsto> V_int64 v)))
      | CPPTYPE_UINT32 \<Rightarrow> bind_res (str_to_int val) (\<lambda>v. Inr (pd(name \<mapsto> V_uint32 v)))
      | CPPTYPE_UINT64 \<Rightarrow> bind_res (atoll val) (\<lambda>v. Inr (pd(name \<mapsto> V_uint64 v)))
      | CPPTYPE_FLOAT \<Rightarrow> Inr (pd(name \<mapsto> V_float (atof val)))
      | CPPTYPE_DOUBLE \<Rightarrow> Inr (pd(name \<mapsto> V_double (atof val)))
      | CPPTYPE_BOOL \<Rightarrow> bind_res (str_to_int val) (\<lambda>v. Inr (pd(name \<mapsto> V_bool (0 < sint v))))
      | CPPTYPE_STRING \<Rightarrow> Inr (pd(name \<mapsto> V_string (c_str val)))
      | _ \<Rightarrow> Inr pd)"

section \<open>The library\<close>

text \<open>A result set: the names of its columns and its rows, one value (or a null pointer) for
  each column.\<close>

record mysql_res =
  mr_fields :: "byte list list"
  mr_rows :: "byte list option list list"

text \<open>What \<open>mysql_query\<close> returns and what \<open>mysql_store_result\<close> gives for each statement of the
  command in turn.\<close>

record mysql_answer =
  my_ret :: int
  my_first :: "mysql_res option"
  my_next :: "mysql_res option list"

section \<open>go_db\<close>

definition db_init :: bool where "db_init = True"
definition db_deinit :: bool where "db_deinit = True"

text \<open>\<open>connected\<close> tells whether \<open>mysql_real_connect\<close> succeeds; the result is whether a handle is
  returned. The handle of a failed attempt is closed.\<close>

definition db_connect :: "bool \<Rightarrow> bool" where
  "db_connect connected = (if \<not> connected then False else True)"

text \<open>What \<open>db_close\<close> gives back to the library: the handle, if there is one.\<close>

definition db_close :: "'h option \<Rightarrow> 'h list" where
  "db_close handle = (case handle of None \<Rightarrow> [] | Some h \<Rightarrow> [h])"

text \<open>The result comes with the result sets that were freed.\<close>

definition db_exe :: "bool \<Rightarrow> byte list option \<Rightarrow> (byte list \<Rightarrow> mysql_answer) \<Rightarrow> bool \<times> mysql_res list" where
  "db_exe handle cmd server =
     (case cmd of
        None \<Rightarrow> (False, [])
      | Some q \<Rightarrow>
          if \<not> handle then (False, [])
          else (let a = server q
                in if my_ret a \<noteq> 0 then (False, [])
                   else (True, List.map_filter id (my_first a # my_next a))))"

text \<open>One row into one message. An unknown column ends the whole copy: the flag is false then.\<close>

fun fill_row ::
    "(byte list \<Rightarrow> 'f) \<Rightarrow> descriptor \<Rightarrow> (byte list \<times> byte list option) list \<Rightarrow> 'f proto_item \<Rightarrow>
     ('f proto_item \<times> bool) res" where
  "fill_row atof des [] item = Inr (item, True)"
| "fill_row atof des ((name, v) # rest) item =
     (case des name of
        None \<Rightarrow> Inr (item, False)
      | Some ty \<Rightarrow>
          bind_res (set_proto_data atof ty name (case v of None \<Rightarrow> [] | Some s \<Rightarrow> s) item)
            (\<lambda>item'. fill_row atof des rest item'))"

fun fill_items ::
    "(byte list \<Rightarrow> 'f) \<Rightarrow> descriptor \<Rightarrow> byte list list \<Rightarrow> byte list option list list \<Rightarrow>
     'f proto_item list \<Rightarrow> 'f proto_item list res" where
  "fill_items atof des cols [] items = Inr items"
| "fill_items atof des cols (row # rows) items =
     bind_res (fill_row atof des (zip cols row) (\<lambda>n. None)) (\<lambda>(item, ok).
       if ok then fill_items atof des cols rows (items @ [item]) else Inr (items @ [item]))"

fun fill_lite ::
    "(byte list \<Rightarrow> 'f) \<Rightarrow> descriptor \<Rightarrow> byte list list \<Rightarrow> byte list option list list \<Rightarrow>
     'f proto_item \<Rightarrow> 'f proto_item res" where
  "fill_lite atof des cols [] item = Inr item"
| "fill_lite atof des cols (row # rows) item =
     bind_res (fill_row atof des (zip cols row) item) (\<lambda>(item', ok).
       if ok then fill_lite atof des cols rows item' else Inr item')"

text \<open>A container: whether its class has the repeated field \<open>id\<close>, the class of the items, the
  items.\<close>

record 'f container =
  ct_has_id :: bool
  ct_item_des :: descriptor
  ct_items :: "'f proto_item list"

text \<open>A failed query is only logged. Further results are freed only when there are none, so all
  of them are leaked: the last component.\<close>

definition db_get_data ::
    "(byte list \<Rightarrow> 'f) \<Rightarrow> bool \<Rightarrow> byte list option \<Rightarrow> (byte list \<Rightarrow> mysql_answer) \<Rightarrow> 'f container option \<Rightarrow>
     (bool \<times> 'f container option \<times> mysql_res list) res" where
  "db_get_data atof handle cmd server data =
     (case (cmd, data) of
        (Some q, Some d) \<Rightarrow>
          if \<not> handle then Inr (False, data, [])
          else if \<not> ct_has_id d then Inr (False, data, [])
          else (let a = server q; leaked = List.map_filter id (my_next a)
                in (case my_first a of
                      None \<Rightarrow> Inr (True, data, leaked)
                    | Some r \<Rightarrow>
                        bind_res (fill_items atof (ct_item_des d) (mr_fields r) (mr_rows r) (ct_items d))
                          (\<lambda>items. Inr (True, Some (d\<lparr> ct_items := items \<rparr>), leaked))))
      | _ \<Rightarrow> Inr (False, data, []))"

definition db_get_data_lite ::
    "(byte list \<Rightarrow> 'f) \<Rightarrow> descriptor \<Rightarrow> bool \<Rightarrow> byte list option \<Rightarrow> (byte list \<Rightarrow> mysql_answer) \<Rightarrow>
     'f proto_item option \<Rightarrow> (bool \<times> 'f proto_item option \<times> mysql_res list) res" where
  "db_get_data_lite atof des handle cmd server data =
     (case (cmd, data) of
        (Some q, Some d) \<Rightarrow>
          if \<not> handle then Inr (False, data, [])
          else (let a = server q; leaked = List.map_filter id (my_next a)
                in (case my_first a of
                      None \<Rightarrow> Inr (True, data, leaked)
                    | Some r \<Rightarrow>
                        bind_res (fill_lite atof des (mr_fields r) (mr_rows r) d)
                          (\<lambda>d'. Inr (True, Some d', leaked))))
      | _ \<Rightarrow> Inr (False, data, []))"

section \<open>Laws\<close>

text \<open>The text of a value of a type, as the server would send it.\<close>

fun val_text :: "'f field_val \<Rightarrow> byte list" where
  "val_text (V_int32 v) = int_to_str (scast v)"
| "val_text (V_int64 v) = int_to_str v"
| "val_text (V_uint32 v) = int_to_str (scast v)"
| "val_text (V_uint64 v) = int_to_str v"
| "val_text (V_bool b) = int_to_str (if b then 1 else 0)"
| "val_text (V_string s) = s"
| "val_text _ = []"

fun val_type :: "'f field_val \<Rightarrow> CppType" where
  "val_type (V_int32 v) = CPPTYPE_INT32"
| "val_type (V_int64 v) = CPPTYPE_INT64"
| "val_type (V_uint32 v) = CPPTYPE_UINT32"
| "val_type (V_uint64 v) = CPPTYPE_UINT64"
| "val_type (V_double v) = CPPTYPE_DOUBLE"
| "val_type (V_float v) = CPPTYPE_FLOAT"
| "val_type (V_bool b) = CPPTYPE_BOOL"
| "val_type (V_string s) = CPPTYPE_STRING"

fun val_exact :: "'f field_val \<Rightarrow> bool" where
  "val_exact (V_double v) = False"
| "val_exact (V_float v) = False"
| "val_exact (V_string s) = (0 \<notin> set s)"
| "val_exact _ = True"

lemma set_proto_data_val:
  assumes "val_exact v"
  shows "set_proto_data atof (val_type v) name (val_text v) pd = Inr (pd(name \<mapsto> v))"
proof (cases v)
  case (V_bool b)
  have "(if b then 1 else 0 :: u64) = scast (if b then 1 else 0 :: u32)" by simp
  then have "str_to_int (val_text v) = Inr (if b then 1 else 0)"
    unfolding V_bool val_text.simps by (metis str_to_int_int_to_str)
  then show ?thesis by (simp add: set_proto_data_def V_bool)
next
  case (V_string s)
  with assms show ?thesis by (auto simp: set_proto_data_def c_str_def intro!: takeWhile_all)
qed (use assms in \<open>simp_all add: set_proto_data_def str_to_int_int_to_str atoll_int_to_str\<close>)

text \<open>A row that spells the values of a message fills in exactly those.\<close>

fun item_of :: "(byte list \<times> 'f field_val) list \<Rightarrow> 'f proto_item \<Rightarrow> 'f proto_item" where
  "item_of [] item = item"
| "item_of ((n, v) # vals) item = item_of vals (item(n \<mapsto> v))"

definition spells :: "descriptor \<Rightarrow> (byte list \<times> 'f field_val) list \<Rightarrow> bool" where
  "spells des vals \<longleftrightarrow> (\<forall>(n, v) \<in> set vals. val_exact v \<and> des n = Some (val_type v))"

lemma fill_row_vals:
  "spells des vals \<Longrightarrow>
   fill_row atof des (map (\<lambda>(n, v). (n, Some (val_text v))) vals) item = Inr (item_of vals item, True)"
  by (induction vals item rule: item_of.induct) (auto simp: spells_def set_proto_data_val)

lemma fill_items_vals:
  assumes "\<And>row. row \<in> set rows \<Longrightarrow> spells des (zip cols row)"
  shows "fill_items atof des cols (map (map (\<lambda>v. Some (val_text v))) rows) items =
    Inr (items @ map (\<lambda>row. item_of (zip cols row) (\<lambda>n. None)) rows)"
  using assms
proof (induction rows arbitrary: items)
  case (Cons row rows)
  have z: "zip cols (map (\<lambda>v. Some (val_text v)) row) =
      map (\<lambda>(n, v). (n, Some (val_text v))) (zip cols row)"
    by (simp add: zip_map2)
  have "spells des (zip cols row)" using Cons.prems by simp
  then show ?case using Cons by (simp only: list.map fill_items.simps z fill_row_vals) simp
qed simp

text \<open>The first unknown column ends the copy; what was copied before stays.\<close>

lemma fill_row_unknown:
  "fill_row atof des xs item = Inr (item', False) \<Longrightarrow> \<exists>n \<in> fst ` set xs. des n = None"
  by (induction atof des xs item rule: fill_row.induct) (auto split: option.splits)

end
