(* ===== verification/GF_Lua.thy ===== *)
theory GF_Lua
  imports GF_Db
begin

text \<open>
  Calls into Lua (\<open>src/src/common/script/lua_script.h\<close>): the list of arguments and the three
  functions \<open>call_lua_func\<close>, which push a message handler, the function and its arguments, call it
  protected and take the stack down again.

  The interpreter is not in the repository. The stack its C interface works on is a list with the
  top first; what a function does when it is called, the globals and the conversions are the
  record \<open>lua_api\<close>. Shown: the stack is as before after every outcome but one (a global that is
  no function leaves the message handler behind), and a function gets the arguments in order.
\<close>

section \<open>Values and the stack\<close>

datatype 'f lua_val =
    L_nil | L_boolean bool | L_number 'f | L_string "byte list" | L_function "byte list"
  | L_cfunction "byte list" | L_table "('f lua_val \<times> 'f lua_val) list"

type_synonym 'f lua_stack = "'f lua_val list"

record 'f lua_api =
  la_of_int :: "int \<Rightarrow> 'f"
  la_isnumber :: "'f lua_val \<Rightarrow> bool"
  la_tointeger :: "'f lua_val \<Rightarrow> u32"
  la_isstring :: "'f lua_val \<Rightarrow> bool"
  la_tostring :: "'f lua_val \<Rightarrow> byte list"
  la_global :: "byte list \<Rightarrow> 'f lua_val"
  la_call :: "'f lua_val \<Rightarrow> 'f lua_val list \<Rightarrow> 'f lua_val + 'f lua_val"

definition lua_traceback :: "'f lua_val" where
  "lua_traceback = L_cfunction (bytes_of ''lua_traceback'')"

definition is_function :: "'f lua_val \<Rightarrow> bool" where
  "is_function v = (case v of L_function n \<Rightarrow> True | L_cfunction n \<Rightarrow> True | _ \<Rightarrow> False)"

text \<open>\<open>lua_pcall\<close> takes the function and its arguments off the stack and pushes one result, or the
  error value; the flag tells which.\<close>

definition lua_pcall :: "'f lua_api \<Rightarrow> nat \<Rightarrow> 'f lua_stack \<Rightarrow> (bool \<times> 'f lua_stack) res" where
  "lua_pcall api count st =
     (if length st \<le> count then Inl Overrun
      else (case la_call api (st ! count) (rev (take count st)) of
          Inr v \<Rightarrow> Inr (True, v # drop (Suc count) st)
        | Inl e \<Rightarrow> Inr (False, e # drop (Suc count) st)))"

section \<open>Arguments\<close>

record 'f LuaArg =
  arg_type :: CppType
  int_val :: u32
  float_val :: 'f
  bool_val :: bool
  str_val :: "byte list"

text \<open>The three overloads; \<open>blank\<close> is the argument before its members are set.\<close>

definition AddArgument_string :: "'f LuaArg \<Rightarrow> byte list \<Rightarrow> 'f LuaArg list \<Rightarrow> 'f LuaArg list" where
  "AddArgument_string blank val args = args @ [blank\<lparr> arg_type := CPPTYPE_STRING, str_val := val \<rparr>]"

definition AddArgument_int :: "'f LuaArg \<Rightarrow> u32 \<Rightarrow> 'f LuaArg list \<Rightarrow> 'f LuaArg list" where
  "AddArgument_int blank val args = args @ [blank\<lparr> arg_type := CPPTYPE_INT32, int_val := val \<rparr>]"

definition AddArgument_float :: "'f LuaArg \<Rightarrow> 'f \<Rightarrow> 'f LuaArg list \<Rightarrow> 'f LuaArg list" where
  "AddArgument_float blank val args = args @ [blank\<lparr> arg_type := CPPTYPE_FLOAT, float_val := val \<rparr>]"

definition AddArgument_bool :: "'f LuaArg \<Rightarrow> bool \<Rightarrow> 'f LuaArg list \<Rightarrow> 'f LuaArg list" where
  "AddArgument_bool blank val args = args @ [blank\<lparr> arg_type := CPPTYPE_BOOL, bool_val := val \<rparr>]"

definition ClearArgument :: "'f LuaArg list \<Rightarrow> 'f LuaArg list" where
  "ClearArgument args = []"

text \<open>The \<open>switch\<close> has no default: an argument of another type pushes nothing.\<close>

definition push_arg :: "'f lua_api \<Rightarrow> 'f LuaArg \<Rightarrow> 'f lua_stack \<Rightarrow> 'f lua_stack" where
  "push_arg api a st =
     (case arg_type a of
        CPPTYPE_STRING \<Rightarrow> L_string (c_str (str_val a)) # st
      | CPPTYPE_INT32 \<Rightarrow> L_number (la_of_int api (sint (int_val a))) # st
      | CPPTYPE_FLOAT \<Rightarrow> L_number (float_val a) # st
      | CPPTYPE_BOOL \<Rightarrow> L_boolean (bool_val a) # st
      | _ \<Rightarrow> st)"

section \<open>Calls\<close>

text \<open>What follows the arguments: the call and the test of its result. \<open>ok\<close> is \<open>lua_isnumber\<close> or
  \<open>lua_isstring\<close>, \<open>conv\<close> the conversion.\<close>

definition finish_call ::
    "'f lua_api \<Rightarrow> nat \<Rightarrow> ('f lua_val \<Rightarrow> bool) \<Rightarrow> ('f lua_val \<Rightarrow> 'a) \<Rightarrow> 'a \<Rightarrow> 'f lua_stack \<Rightarrow>
     (bool \<times> 'a \<times> 'f lua_stack) res" where
  "finish_call api count ok conv ret st =
     bind_res (lua_pcall api count st) (\<lambda>(called, st1).
       if \<not> called then Inr (False, ret, drop 2 st1)
       else if \<not> ok (hd st1) then Inr (False, ret, drop 2 st1)
       else Inr (True, conv (hd st1), drop 2 st1))"

definition call_lua_func_int ::
    "'f lua_api \<Rightarrow> byte list \<Rightarrow> 'f LuaArg list \<Rightarrow> u32 \<Rightarrow> 'f lua_stack \<Rightarrow> (bool \<times> u32 \<times> 'f lua_stack) res" where
  "call_lua_func_int api func args ret st =
     (let st1 = lua_traceback # st; f = la_global api func; st2 = f # st1
      in if \<not> is_function f then Inr (False, ret, drop 1 st2)
         else finish_call api (length args) (la_isnumber api) (la_tointeger api) ret
                (fold (push_arg api) args st2))"

definition call_lua_func_str ::
    "'f lua_api \<Rightarrow> byte list \<Rightarrow> 'f LuaArg list \<Rightarrow> byte list \<Rightarrow> 'f lua_stack \<Rightarrow>
     (bool \<times> byte list \<times> 'f lua_stack) res" where
  "call_lua_func_str api func args ret st =
     (let st1 = lua_traceback # st; f = la_global api func; st2 = f # st1
      in if \<not> is_function f then Inr (False, ret, drop 1 st2)
         else finish_call api (length args) (la_isstring api) (la_tostring api) ret
                (fold (push_arg api) args st2))"

text \<open>\<open>lua_settable(state, -3)\<close>: key and value go from the top into the table below them.\<close>

definition lua_settable :: "'f lua_stack \<Rightarrow> 'f lua_stack res" where
  "lua_settable st =
     (case st of
        v # k # L_table t # rest \<Rightarrow> Inr (L_table (t @ [(k, v)]) # rest)
      | _ \<Rightarrow> Inl Overrun)"

definition call_lua_func_table ::
    "'f lua_api \<Rightarrow> byte list \<Rightarrow> (byte list \<times> 'f LuaArg) list \<Rightarrow> byte list \<Rightarrow> 'f lua_stack \<Rightarrow>
     (bool \<times> byte list \<times> 'f lua_stack) res" where
  "call_lua_func_table api func tbl ret st =
     (let st1 = lua_traceback # st; f = la_global api func; st2 = f # st1
      in if \<not> is_function f then Inr (False, ret, drop 1 st2)
         else bind_res
           (fold_res (\<lambda>(k, a) st. lua_settable (push_arg api a (L_string (c_str k) # st))) tbl (L_table [] # st2))
           (finish_call api 1 (la_isstring api) (la_tostring api) ret))"

section \<open>Laws\<close>

definition passable :: "'f LuaArg \<Rightarrow> bool" where
  "passable a \<longleftrightarrow> arg_type a \<in> {CPPTYPE_STRING, CPPTYPE_INT32, CPPTYPE_FLOAT, CPPTYPE_BOOL}"

definition arg_val :: "'f lua_api \<Rightarrow> 'f LuaArg \<Rightarrow> 'f lua_val" where
  "arg_val api a = hd (push_arg api a [])"

lemma push_arg_val: "passable a \<Longrightarrow> push_arg api a st = arg_val api a # st"
  by (auto simp: passable_def arg_val_def push_arg_def)

lemma push_args_val:
  "(\<And>a. a \<in> set args \<Longrightarrow> passable a) \<Longrightarrow>
   fold (push_arg api) args st = rev (map (arg_val api) args) @ st"
  by (induction args arbitrary: st) (simp_all add: push_arg_val)

lemma finish_call_result:
  assumes "length vs = count"
  shows "finish_call api count ok conv ret (rev vs @ f # h # st) =
    Inr (case la_call api f vs of
        Inl e \<Rightarrow> (False, ret, st)
      | Inr v \<Rightarrow> if ok v then (True, conv v, st) else (False, ret, st))"
  using assms
  by (cases "la_call api f vs")
     (auto simp: finish_call_def lua_pcall_def nth_append simp del: bind_res_Inr)

text \<open>A call passes the arguments in order and leaves the stack as it was.\<close>

lemma call_lua_func_int_result:
  assumes "\<And>a. a \<in> set args \<Longrightarrow> passable a" and "is_function (la_global api func)"
  shows "call_lua_func_int api func args ret st =
    Inr (case la_call api (la_global api func) (map (arg_val api) args) of
        Inl e \<Rightarrow> (False, ret, st)
      | Inr v \<Rightarrow> if la_isnumber api v then (True, la_tointeger api v, st) else (False, ret, st))"
  using assms finish_call_result [of "map (arg_val api) args" "length args" api]
  by (simp add: call_lua_func_int_def Let_def push_args_val)

lemma call_lua_func_str_result:
  assumes "\<And>a. a \<in> set args \<Longrightarrow> passable a" and "is_function (la_global api func)"
  shows "call_lua_func_str api func args ret st =
    Inr (case la_call api (la_global api func) (map (arg_val api) args) of
        Inl e \<Rightarrow> (False, ret, st)
      | Inr v \<Rightarrow> if la_isstring api v then (True, la_tostring api v, st) else (False, ret, st))"
  using assms finish_call_result [of "map (arg_val api) args" "length args" api]
  by (simp add: call_lua_func_str_def Let_def push_args_val)

lemma lua_settable_simp: "lua_settable (v # k # L_table t # rest) = Inr (L_table (t @ [(k, v)]) # rest)"
  by (simp add: lua_settable_def)

lemma fill_table:
  assumes "\<And>k a. (k, a) \<in> set tbl \<Longrightarrow> passable a"
  shows "fold_res (\<lambda>(k, a) st. lua_settable (push_arg api a (L_string (c_str k) # st))) tbl (L_table t # st) =
    Inr (L_table (t @ map (\<lambda>(k, a). (L_string (c_str k), arg_val api a)) tbl) # st)"
  using assms
proof (induction tbl arbitrary: t)
  case (Cons x tbl)
  obtain k a where x: "x = (k, a)" by fastforce
  with Cons.prems have a: "passable a" by auto
  have "passable b" if "(l, b) \<in> set tbl" for l b using Cons.prems [of l b] that by simp
  note ih = Cons.IH [OF this]
  from a ih show ?case using x by (simp add: push_arg_val lua_settable_simp)
qed simp

lemma call_lua_func_table_result:
  assumes "\<And>k a. (k, a) \<in> set tbl \<Longrightarrow> passable a" and "is_function (la_global api func)"
  shows "call_lua_func_table api func tbl ret st =
    Inr (case la_call api (la_global api func)
          [L_table (map (\<lambda>(k, a). (L_string (c_str k), arg_val api a)) tbl)] of
        Inl e \<Rightarrow> (False, ret, st)
      | Inr v \<Rightarrow> if la_isstring api v then (True, la_tostring api v, st) else (False, ret, st))"
proof -
  let ?t = "L_table (map (\<lambda>(k, a). (L_string (c_str k), arg_val api a)) tbl)"
  have "finish_call api 1 (la_isstring api) (la_tostring api) ret
      (rev [?t] @ la_global api func # lua_traceback # st) =
    Inr (case la_call api (la_global api func) [?t] of
        Inl e \<Rightarrow> (False, ret, st)
      | Inr v \<Rightarrow> if la_isstring api v then (True, la_tostring api v, st) else (False, ret, st))"
    by (rule finish_call_result) simp
  then show ?thesis
    using fill_table [where tbl = tbl and api = api and t = "[]" and st = "la_global api func # lua_traceback # st"] assms
    by (simp add: call_lua_func_table_def Let_def)
qed

text \<open>A missing function leaves the handler on the stack, each time.\<close>

lemma call_lua_func_int_missing:
  "\<not> is_function (la_global api func) \<Longrightarrow>
   call_lua_func_int api func args ret st = Inr (False, ret, lua_traceback # st)"
  by (simp add: call_lua_func_int_def)

lemma call_lua_func_str_missing:
  "\<not> is_function (la_global api func) \<Longrightarrow>
   call_lua_func_str api func args ret st = Inr (False, ret, lua_traceback # st)"
  by (simp add: call_lua_func_str_def)

lemma call_lua_func_table_missing:
  "\<not> is_function (la_global api func) \<Longrightarrow>
   call_lua_func_table api func tbl ret st = Inr (False, ret, lua_traceback # st)"
  by (simp add: call_lua_func_table_def)

section \<open>Printing the stack\<close>

text \<open>The lines \<open>lua_stack_dump\<close> logs, from the bottom of the stack, which has the index 1.\<close>

datatype 'f dump_line =
    Dump_string nat "byte list" | Dump_boolean nat bool | Dump_number nat 'f | Dump_function nat | Dump_other nat int

fun lua_type :: "'f lua_val \<Rightarrow> int" where
  "lua_type L_nil = 0"
| "lua_type (L_boolean b) = 1"
| "lua_type (L_number x) = 3"
| "lua_type (L_string s) = 4"
| "lua_type (L_table kvs) = 5"
| "lua_type (L_function n) = 6"
| "lua_type (L_cfunction n) = 6"

definition dump_line :: "nat \<Rightarrow> 'f lua_val \<Rightarrow> 'f dump_line" where
  "dump_line i v =
     (case v of
        L_string s \<Rightarrow> Dump_string i (c_str s)
      | L_boolean b \<Rightarrow> Dump_boolean i b
      | L_number x \<Rightarrow> Dump_number i x
      | L_function n \<Rightarrow> Dump_function i
      | L_cfunction n \<Rightarrow> Dump_function i
      | _ \<Rightarrow> Dump_other i (lua_type v))"

definition lua_stack_dump :: "'f lua_stack \<Rightarrow> 'f dump_line list" where
  "lua_stack_dump state = map (\<lambda>(i, v). dump_line i v) (enumerate 1 (rev state))"

text \<open>One line for every slot; below what a call pushes they are the same.\<close>

lemma lua_stack_dump_length: "length (lua_stack_dump st) = length st"
  by (simp add: lua_stack_dump_def)

lemma lua_stack_dump_push: "lua_stack_dump (v # st) = lua_stack_dump st @ [dump_line (Suc (length st)) v]"
  by (simp add: lua_stack_dump_def enumerate_append_eq)

end
