(* ===== verification/GF_Redis.thy ===== *)
theory GF_Redis
  imports GF_Protocol GF_Utils
begin

text \<open>
  The redis client functions of \<open>src/src/common/database/redis/go_redis.cpp\<close>, the queue of
  \<open>src/src/game/game_tool/game_redis.cpp\<close> and the lookups of
  \<open>src/src/data/data_tool/data_redis.cpp\<close>.

  hiredis and the server behind it are not in the repository: they are the record
  \<open>redis_ops\<close> of the three kinds of command the code sends, acting on a state \<open>'r\<close>;
  \<open>redis_laws\<close> states what the documentation of \<open>SET\<close> and \<open>GET\<close> promises about the keys a
  server holds. A server that is a map satisfies them. What a call does not release is the
  list of \<open>leak\<close>s it returns.
\<close>

section \<open>Replies\<close>

datatype reply =
    R_string "byte list"
  | R_status "byte list"
  | R_integer u64
  | R_nil
  | R_error "byte list"
  | R_array "reply list"
  | R_other nat

text \<open>The member \<open>str\<close> with its length; \<open>None\<close> is a null pointer.\<close>

fun reply_str :: "reply \<Rightarrow> byte list option" where
  "reply_str (R_string s) = Some s"
| "reply_str (R_status s) = Some s"
| "reply_str (R_error s) = Some s"
| "reply_str _ = None"

record 'r redis_ops =
  rd_set :: "byte list \<Rightarrow> byte list \<Rightarrow> 'r \<Rightarrow> reply option \<times> 'r"
  rd_get :: "byte list \<Rightarrow> 'r \<Rightarrow> reply option \<times> 'r"
  rd_command :: "byte list \<Rightarrow> 'r \<Rightarrow> reply option \<times> 'r"

definition is_error :: "reply option \<Rightarrow> bool" where
  "is_error rep = (case rep of None \<Rightarrow> True | Some (R_error e) \<Rightarrow> True | Some _ \<Rightarrow> False)"

text \<open>A \<open>SET\<close> that is answered otherwise than with an error has stored the value; a \<open>GET\<close> that
  is answered otherwise than with an error gives what is stored, and changes nothing.\<close>

definition redis_laws :: "'r redis_ops \<Rightarrow> ('r \<Rightarrow> byte list \<Rightarrow> byte list option) \<Rightarrow> bool" where
  "redis_laws ops store \<longleftrightarrow>
     (\<forall>k v r. \<not> is_error (fst (rd_set ops k v r)) \<longrightarrow>
        store (snd (rd_set ops k v r)) = (store r)(k \<mapsto> v)) \<and>
     (\<forall>k r. store (snd (rd_get ops k r)) = store r) \<and>
     (\<forall>k r. \<not> is_error (fst (rd_get ops k r)) \<longrightarrow>
        fst (rd_get ops k r) = Some (case store r k of None \<Rightarrow> R_nil | Some v \<Rightarrow> R_string v))"

text \<open>A server that never fails and answers every other command with a status.\<close>

definition map_server :: "(byte list \<Rightarrow> byte list option) redis_ops" where
  "map_server =
     \<lparr> rd_set = (\<lambda>k v r. (Some (R_status (bytes_of ''OK'')), r(k \<mapsto> v))),
       rd_get = (\<lambda>k r. (Some (case r k of None \<Rightarrow> R_nil | Some v \<Rightarrow> R_string v), r)),
       rd_command = (\<lambda>cmd r. (Some (R_status (bytes_of ''OK'')), r)) \<rparr>"

lemma map_server_laws: "redis_laws map_server id"
  by (auto simp: redis_laws_def map_server_def is_error_def split: option.splits)

datatype leak = Leak_buffer "byte list" | Leak_reply reply | Leak_context | Leak_value MsgData

section \<open>go_redis\<close>

text \<open>\<open>conn\<close> is what \<open>redisConnectWithTimeout\<close> returns: \<open>None\<close> for a null pointer, else whether
  \<open>err\<close> is set. The result tells whether there is a handle.\<close>

definition redis_connect :: "bool option \<Rightarrow> bool \<times> leak list" where
  "redis_connect conn =
     (case conn of
        None \<Rightarrow> (False, [])
      | Some err \<Rightarrow> if err then (False, [Leak_context]) else (True, []))"

text \<open>The buffer is never deleted; a reply is not freed when it is an error.\<close>

definition redis_set_data ::
    "'r redis_ops \<Rightarrow> byte list \<Rightarrow> MsgData \<Rightarrow> 'r \<Rightarrow> ((bool \<times> leak list) \<times> 'r) res" where
  "redis_set_data ops key pd r =
     (case MsgData_ByteSize pd of
        (byte_size, pd1) \<Rightarrow>
          bind_res (MsgData_SerializeToArray byte_size pd1) (\<lambda>(ok, out).
            let buf = (case out of None \<Rightarrow> replicate byte_size 0 | Some b \<Rightarrow> b)
            in (case rd_set ops key buf r of
                  (redis_ret, r1) \<Rightarrow>
                    Inr (case redis_ret of
                        None \<Rightarrow> ((False, [Leak_buffer buf]), r1)
                      | Some (R_error e) \<Rightarrow> ((False, [Leak_buffer buf, Leak_reply (R_error e)]), r1)
                      | Some _ \<Rightarrow> ((True, [Leak_buffer buf]), r1)))))"

text \<open>\<open>parse\<close> is the \<open>ParseFromArray\<close> of the message; its result is not looked at. The key goes
  through \<open>%s\<close>, so it ends at its first zero byte.\<close>

definition redis_get_data ::
    "'r redis_ops \<Rightarrow> (byte list \<Rightarrow> 'm \<Rightarrow> (bool \<times> 'm) res) \<Rightarrow> byte list \<Rightarrow> 'm \<Rightarrow> 'r \<Rightarrow>
     ((bool \<times> 'm \<times> leak list) \<times> 'r) res" where
  "redis_get_data ops parse key pd r =
     (case rd_get ops (c_str key) r of
        (redis_ret, r1) \<Rightarrow>
          (case redis_ret of
             None \<Rightarrow> Inr ((False, pd, []), r1)
           | Some (R_error e) \<Rightarrow> Inr ((False, pd, [Leak_reply (R_error e)]), r1)
           | Some R_nil \<Rightarrow> Inr ((False, pd, [Leak_reply R_nil]), r1)
           | Some rep \<Rightarrow>
               bind_res (parse (case reply_str rep of None \<Rightarrow> [] | Some s \<Rightarrow> s) pd)
                 (\<lambda>(ok, pd1). Inr ((True, pd1, []), r1))))"

text \<open>The command is used as a format: a conversion in it reads an argument that is not there.\<close>

fun reads_args :: "byte list \<Rightarrow> bool" where
  "reads_args (x # y # zs) =
     (if x = 0x25 then (if y = 0x25 then reads_args zs else True) else reads_args (y # zs))"
| "reads_args _ = False"

definition redis_cmd ::
    "'r redis_ops \<Rightarrow> byte list \<Rightarrow> byte list \<Rightarrow> 'r \<Rightarrow> ((bool \<times> byte list) \<times> 'r) res" where
  "redis_cmd ops cmd response r =
     (if reads_args (c_str cmd) then Inl Overrun
      else (case rd_command ops (c_str cmd) r of
        (reply, r1) \<Rightarrow>
          (case reply of
             None \<Rightarrow> Inr ((False, response), r1)
           | Some (R_integer i) \<Rightarrow> Inr ((True, int_to_str i), r1)
           | Some (R_string s) \<Rightarrow> Inr ((True, c_str s), r1)
           | Some (R_status s) \<Rightarrow> Inr ((True, c_str s), r1)
           | Some R_nil \<Rightarrow> Inr ((True, []), r1)
           | Some (R_array []) \<Rightarrow> Inr ((True, response), r1)
           | Some (R_array (e # es)) \<Rightarrow>
               (case reply_str e of
                  None \<Rightarrow> Inl Null_deref
                | Some s \<Rightarrow> Inr ((True, c_str s), r1))
           | Some (R_error e) \<Rightarrow> Inr ((False, c_str e), r1)
           | Some (R_other n) \<Rightarrow> Inr ((False, bytes_of ''Undefine Reply Type''), r1))))"

section \<open>The queue of the game server\<close>

record RedisData =
  rd_key :: "byte list"
  rd_type :: u32
  rd_value :: "MsgData option"

definition add_redis_data :: "RedisData \<Rightarrow> RedisData list \<Rightarrow> RedisData list" where
  "add_redis_data d q = q @ [d]"

text \<open>One pass of \<open>process_redis_list\<close> takes at most \<open>NUM_RECORD\<close> entries. A failed write is
  logged and the entry dropped; the destructor of \<open>RedisData\<close> does not delete the value.\<close>

definition NUM_RECORD :: nat where "NUM_RECORD = 300"

fun drain_list ::
    "'r redis_ops \<Rightarrow> nat \<Rightarrow> RedisData list \<Rightarrow> 'r \<Rightarrow> ((RedisData list \<times> leak list) \<times> 'r) res" where
  "drain_list ops 0 q r = Inr ((q, []), r)"
| "drain_list ops (Suc n) [] r = Inr (([], []), r)"
| "drain_list ops (Suc n) (d # q) r =
     (case rd_value d of
        None \<Rightarrow> Inl Null_deref
      | Some v \<Rightarrow>
          bind_res (redis_set_data ops (rd_key d) v r) (\<lambda>((ok, ls), r1).
            bind_res (drain_list ops n q r1) (\<lambda>((q', ls'), r2).
              Inr ((q', ls @ Leak_value v # ls'), r2))))"

definition process_redis_list ::
    "'r redis_ops \<Rightarrow> RedisData list \<Rightarrow> 'r \<Rightarrow> ((RedisData list \<times> leak list) \<times> 'r) res" where
  "process_redis_list ops q r = drain_list ops NUM_RECORD q r"

text \<open>The functions of both \<open>redis.cpp\<close> files on their handle: connecting to the local server without a
  password, and for the game server the functions of \<open>go_redis.cpp\<close>.\<close>

definition redis_init :: "bool option \<Rightarrow> bool" where
  "redis_init conn = fst (redis_connect conn)"

definition set_redis_data ::
    "'r redis_ops \<Rightarrow> byte list \<Rightarrow> MsgData \<Rightarrow> 'r \<Rightarrow> ((bool \<times> leak list) \<times> 'r) res" where
  "set_redis_data ops key pd r = redis_set_data ops key pd r"

definition game_get_redis_data ::
    "'r redis_ops \<Rightarrow> (byte list \<Rightarrow> 'm \<Rightarrow> (bool \<times> 'm) res) \<Rightarrow> byte list \<Rightarrow> 'm \<Rightarrow> 'r \<Rightarrow>
     ((bool \<times> 'm \<times> leak list) \<times> 'r) res" where
  "game_get_redis_data ops parse key pd r = redis_get_data ops parse key pd r"

definition game_redis_cmd ::
    "'r redis_ops \<Rightarrow> byte list \<Rightarrow> byte list \<Rightarrow> 'r \<Rightarrow> ((bool \<times> byte list) \<times> 'r) res" where
  "game_redis_cmd ops cmd response r = redis_cmd ops cmd response r"

text \<open>The queue and the server over the passes of the writing thread, entries coming in between.\<close>

fun process_redis_thread ::
    "'r redis_ops \<Rightarrow> RedisData list list \<Rightarrow> RedisData list \<Rightarrow> 'r \<Rightarrow> ((RedisData list \<times> leak list) \<times> 'r) res" where
  "process_redis_thread ops [] q r = Inr ((q, []), r)"
| "process_redis_thread ops (new # news) q r =
     bind_res (process_redis_list ops q r) (\<lambda>((q1, ls), r1).
       bind_res (process_redis_thread ops news (fold add_redis_data new q1) r1) (\<lambda>((q2, ls'), r2).
         Inr ((q2, ls @ ls'), r2)))"

section \<open>Laws\<close>

lemma redis_set_data_bytes:
  "redis_set_data ops key pd r =
     (case rd_set ops key (MsgData_bytes pd) r of
        (None, r1) \<Rightarrow> Inr ((False, [Leak_buffer (MsgData_bytes pd)]), r1)
      | (Some (R_error e), r1) \<Rightarrow> Inr ((False, [Leak_buffer (MsgData_bytes pd), Leak_reply (R_error e)]), r1)
      | (Some _, r1) \<Rightarrow> Inr ((True, [Leak_buffer (MsgData_bytes pd)]), r1))"
  by (simp add: redis_set_data_def MsgData_ByteSize_eq MsgData_SerializeToArray_fits Let_def
      split: option.splits reply.splits prod.splits)

lemma redis_lawsD:
  assumes "redis_laws ops store"
  shows "\<not> is_error (fst (rd_set ops k v r)) \<Longrightarrow> store (snd (rd_set ops k v r)) = (store r)(k \<mapsto> v)"
    and "store (snd (rd_get ops k r)) = store r"
    and "\<not> is_error (fst (rd_get ops k r)) \<Longrightarrow>
        fst (rd_get ops k r) = Some (case store r k of None \<Rightarrow> R_nil | Some v \<Rightarrow> R_string v)"
  using assms unfolding redis_laws_def by blast+

lemma redis_set_data_total: "\<exists>ok ls r1. redis_set_data ops key pd r = Inr ((ok, ls), r1)"
proof -
  obtain rep r1 where "rd_set ops key (MsgData_bytes pd) r = (rep, r1)" by fastforce
  then show ?thesis by (cases rep) (auto simp: redis_set_data_bytes split: reply.splits)
qed

lemma redis_set_data_stores:
  assumes "redis_laws ops store" and "redis_set_data ops key pd r = Inr ((True, ls), r1)"
  shows "store r1 = (store r)(key \<mapsto> MsgData_bytes pd)"
proof -
  have "\<not> is_error (fst (rd_set ops key (MsgData_bytes pd) r)) \<and> r1 = snd (rd_set ops key (MsgData_bytes pd) r)"
    using assms(2) by (auto simp: redis_set_data_bytes is_error_def split: prod.splits option.splits reply.splits)
  then show ?thesis using redis_lawsD(1) [OF assms(1)] by blast
qed

lemma c_str_id: "0 \<notin> set k \<Longrightarrow> c_str k = k"
  by (auto simp: c_str_def intro!: takeWhile_all)

text \<open>What was stored comes back.\<close>

lemma redis_roundtrip:
  assumes "redis_laws ops store" and "0 \<notin> set key" and "MsgData_wf pd"
    and "length (MsgData_bytes pd) \<le> kDefaultTotalBytesLimit" and "MsgData_class pd0 = MsgData_class pd"
    and "redis_set_data ops key pd r = Inr ((True, ls), r1)" and "\<not> is_error (fst (rd_get ops key r1))"
  shows "redis_get_data ops MsgData_ParseFromArray key pd0 r1 =
    Inr ((True, MsgData_set_cached (MsgData_cached pd0) pd, []), snd (rd_get ops key r1))"
proof -
  have "store r1 key = Some (MsgData_bytes pd)"
    using redis_set_data_stores [OF assms(1,6)] by simp
  with redis_lawsD(3) [OF assms(1,7)] have "fst (rd_get ops key r1) = Some (R_string (MsgData_bytes pd))"
    by simp
  then show ?thesis
    using MsgData_roundtrip [OF assms(3-5)] c_str_id [OF assms(2)]
    by (cases "rd_get ops key r1") (simp add: redis_get_data_def)
qed

text \<open>The entries a pass writes, and those it leaves.\<close>

lemma drain_list_result:
  assumes "\<And>d. d \<in> set q \<Longrightarrow> rd_value d \<noteq> None"
  shows "\<exists>ls r1. drain_list ops n q r = Inr ((drop n q, ls), r1)"
  using assms
proof (induction ops n q r rule: drain_list.induct)
  case (3 ops n d q r)
  then obtain v where v: "rd_value d = Some v" by fastforce
  obtain ok ls r1 where s: "redis_set_data ops (rd_key d) v r = Inr ((ok, ls), r1)"
    using redis_set_data_total [of ops "rd_key d" v r] by blast
  with "3.IH" [OF v] "3.prems" v show ?case by fastforce
qed auto

lemma drain_list_store:
  assumes "redis_laws ops store" and "\<And>k v r. \<not> is_error (fst (rd_set ops k v r))"
    and "drain_list ops n q r = Inr ((q', ls), r1)"
  shows "store r1 = fold (\<lambda>d s. s(rd_key d \<mapsto> MsgData_bytes (the (rd_value d)))) (take n q) (store r)"
  using assms
proof (induction ops n q r arbitrary: q' ls rule: drain_list.induct)
  case (3 ops n d q r)
  then obtain v ok ls1 r2 ls2 where v: "rd_value d = Some v"
    "redis_set_data ops (rd_key d) v r = Inr ((ok, ls1), r2)"
    "drain_list ops n q r2 = Inr ((q', ls2), r1)" by (auto split: option.splits)
  have "ok" using v(2) "3.prems"(2) [of "rd_key d" "MsgData_bytes v" r]
    by (auto simp: redis_set_data_bytes is_error_def split: prod.splits option.splits reply.splits)
  then have "store r2 = (store r)(rd_key d \<mapsto> MsgData_bytes v)"
    using redis_set_data_stores [OF "3.prems"(1)] v(2) by simp
  then show ?case using "3.IH" [OF v(1) "3.prems"(1,2) v(3)] v(1) by (simp cong: if_cong)
qed auto

text \<open>Every write leaks its buffer.\<close>

lemma redis_set_data_leaks:
  "redis_set_data ops key pd r = Inr ((ok, ls), r1) \<Longrightarrow> Leak_buffer (MsgData_bytes pd) \<in> set ls"
  by (auto simp: redis_set_data_bytes split: prod.splits option.splits reply.splits)

text \<open>Over any number of passes, whatever comes in between: what was written is the front of all that was
  ever put into the queue, in its order, and the rest is still there.\<close>

lemma fold_add_redis_data: "fold add_redis_data ds q = q @ ds"
  by (induction ds arbitrary: q) (simp_all add: add_redis_data_def)

lemma process_redis_thread_result:
  assumes "redis_laws ops store" and "\<And>k v r. \<not> is_error (fst (rd_set ops k v r))"
    and "\<And>d. d \<in> set (q @ concat news) \<Longrightarrow> rd_value d \<noteq> None"
  shows "\<exists>k ls r1. process_redis_thread ops news q r = Inr ((drop k (q @ concat news), ls), r1) \<and>
    store r1 = fold (\<lambda>d s. s(rd_key d \<mapsto> MsgData_bytes (the (rd_value d)))) (take k (q @ concat news)) (store r) \<and>
    min (length q) (300 * length news) \<le> k"
  using assms(3)
proof (induction news arbitrary: q r)
  case Nil
  then show ?case by (intro exI [of _ 0]) simp
next
  case (Cons new news)
  let ?w = "\<lambda>d s. s(rd_key d \<mapsto> MsgData_bytes (the (rd_value d)))"
  from drain_list_result [of q ops 300 r] Cons.prems obtain ls r1 where
    d: "drain_list ops 300 q r = Inr ((drop 300 q, ls), r1)" by auto
  note st = drain_list_store [OF assms(1,2) d]
  let ?q = "drop 300 q @ new"
  have "rd_value d \<noteq> None" if "d \<in> set (?q @ concat news)" for d
    using that Cons.prems [of d] by (auto dest: in_set_dropD)
  from Cons.IH [where r = r1, OF this] obtain k ls' r2 where
    p: "process_redis_thread ops news ?q r1 = Inr ((drop k (?q @ concat news), ls'), r2)"
      "store r2 = fold ?w (take k (?q @ concat news)) (store r1)" "min (length ?q) (300 * length news) \<le> k" by blast
  let ?m = "min 300 (length q)"
  have split: "q @ concat (new # news) = take ?m q @ (?q @ concat news)" by (cases "300 \<le> length q") simp_all
  have len: "length (take ?m q) = ?m" by simp
  have dr: "drop (?m + k) (q @ concat (new # news)) = drop k (?q @ concat news)"
    and tk: "take (?m + k) (q @ concat (new # news)) = take ?m q @ take k (?q @ concat news)"
    unfolding split by simp_all
  have t: "take 300 q = take ?m q" by (cases "300 \<le> length q") simp_all
  have "process_redis_thread ops (new # news) q r = Inr ((drop (?m + k) (q @ concat (new # news)), ls @ ls'), r2)"
    unfolding dr using d p(1) by (simp add: process_redis_list_def NUM_RECORD_def fold_add_redis_data del: drop_append)
  moreover have "store r2 = fold ?w (take (?m + k) (q @ concat (new # news))) (store r)"
    unfolding tk p(2) st t by (simp only: fold_append o_apply)
  moreover have "min (length q) (300 * length (new # news)) \<le> ?m + k" using p(3) by auto
  ultimately show ?case by blast
qed

end
