(* ===== verification/GF_Server.thy ===== *)
theory GF_Server
  imports GF_EndToEnd GF_Redis
begin

text \<open>
  What the three servers share: the main loop (\<open>main.cpp\<close> of \<open>src/src/gate\<close>, \<open>src/src/game\<close> and
  \<open>src/src/data\<close>, which differ in their messages only), the table of registered peers, and the
  reading of their settings from redis.
\<close>

section \<open>State\<close>

text \<open>The flags of \<open>main.cpp\<close>, the network, and the two containers each \<open>*_logic.cpp\<close> declares.
  \<open>spawned\<close> counts the threads a server has started itself.\<close>

record 'b server_state =
  running :: bool
  s_init_ok :: bool
  s_last_frame :: u64
  net :: "'b net_state"
  s_connections_to_me :: "(int, u64) std_map"
  s_recv_msgs :: "MsgNode list"
  spawned :: nat

section \<open>The main loop\<close>

definition set_init_ok :: "bool \<Rightarrow> ('b, 'x) server_state_scheme \<Rightarrow> ('b, 'x) server_state_scheme" where
  "set_init_ok val s = s\<lparr> s_init_ok := val \<rparr>"

definition is_init_ok :: "('b, 'x) server_state_scheme \<Rightarrow> bool" where
  "is_init_ok s = s_init_ok s"

definition stop_run :: "('b, 'x) server_state_scheme \<Rightarrow> ('b, 'x) server_state_scheme" where
  "stop_run s = s\<lparr> running := False \<rparr>"

definition is_running :: "('b, 'x) server_state_scheme \<Rightarrow> bool" where
  "is_running s = running s"

definition go_running :: "('b, 'x) server_state_scheme \<Rightarrow> ('b, 'x) server_state_scheme" where
  "go_running s = s\<lparr> running := True \<rparr>"

text \<open>One pass of the loop at time \<open>now\<close>; \<open>update\<close> is \<open>logic_update\<close>.\<close>

definition main_pass ::
    "(u64 \<Rightarrow> u64 \<Rightarrow> ('b, 'x) server_state_scheme \<Rightarrow> ('b, 'x) server_state_scheme res) \<Rightarrow> u64 \<Rightarrow>
     ('b, 'x) server_state_scheme \<Rightarrow> ('b, 'x) server_state_scheme res" where
  "main_pass update now s =
     (let delta = (if s_last_frame s = 0 then 0 else now - s_last_frame s)
      in if is_init_ok s
         then bind_res (update now delta s) (\<lambda>s'. Inr (s'\<lparr> s_last_frame := now \<rparr>))
         else Inr s)"

text \<open>The loop over the times of its passes; the flag tells whether it was left.\<close>

fun main_loop ::
    "(u64 \<Rightarrow> u64 \<Rightarrow> ('b, 'x) server_state_scheme \<Rightarrow> ('b, 'x) server_state_scheme res) \<Rightarrow> u64 list \<Rightarrow>
     ('b, 'x) server_state_scheme \<Rightarrow> (bool \<times> ('b, 'x) server_state_scheme) res" where
  "main_loop update [] s = Inr (\<not> is_running s, s)"
| "main_loop update (now # nows) s =
     (if \<not> is_running s then Inr (True, s)
      else bind_res (main_pass update now s) (main_loop update nows))"

text \<open>\<open>main\<close>: the exit code, when the initialisation fails or the loop is left.\<close>

definition main ::
    "(('b, 'x) server_state_scheme \<Rightarrow> (bool \<times> ('b, 'x) server_state_scheme) res) \<Rightarrow>
     (('b, 'x) server_state_scheme \<Rightarrow> (bool \<times> ('b, 'x) server_state_scheme) res) \<Rightarrow>
     (u64 \<Rightarrow> u64 \<Rightarrow> ('b, 'x) server_state_scheme \<Rightarrow> ('b, 'x) server_state_scheme res) \<Rightarrow> u64 list \<Rightarrow>
     ('b, 'x) server_state_scheme \<Rightarrow> (u32 option \<times> ('b, 'x) server_state_scheme) res" where
  "main init_system init_config update nows s =
     bind_res (init_system s) (\<lambda>(ok, s1).
       if \<not> ok then Inr (Some (- 1), s1)
       else bind_res (init_config s1) (\<lambda>(ok, s2).
         if \<not> ok then Inr (Some (- 1), s2)
         else bind_res (main_loop update nows s2) (\<lambda>(left, s3).
           Inr (if left then Some 0 else None, s3))))"

section \<open>Registered peers\<close>

definition find_peer :: "int \<Rightarrow> ('b, 'x) server_state_scheme \<Rightarrow> u64 option" where
  "find_peer sid s = map_find (s_connections_to_me s) sid"

text \<open>The body of \<open>register_client\<close> and of both \<open>register_server\<close>.\<close>

definition register_peer ::
    "int \<Rightarrow> u64 \<Rightarrow> ('b, 'x) server_state_scheme \<Rightarrow> bool \<times> ('b, 'x) server_state_scheme" where
  "register_peer sid conn s =
     (if find_peer sid s \<noteq> None then (False, s)
      else (True, s\<lparr> s_connections_to_me := map_put sid conn (s_connections_to_me s) \<rparr>))"

definition disconnect_peer :: "int \<Rightarrow> ('b, 'x) server_state_scheme \<Rightarrow> ('b, 'x) server_state_scheme" where
  "disconnect_peer sid s =
     (if find_peer sid s \<noteq> None
      then s\<lparr> s_connections_to_me := map_erase sid (s_connections_to_me s) \<rparr> else s)"

section \<open>Settings\<close>

text \<open>A reply the code takes for a value: neither null nor nil nor an error. A reply it does not
  take is not freed. A reply without text is used as a string all the same.\<close>

definition hget_str ::
    "'r redis_ops \<Rightarrow> byte list \<Rightarrow> string \<Rightarrow> 'r \<Rightarrow> ((byte list option \<times> leak list) \<times> 'r) res" where
  "hget_str ops prefix name r =
     (case rd_command ops (prefix @ bytes_of name) r of
        (rep, r1) \<Rightarrow>
          (case rep of
             None \<Rightarrow> Inr ((None, []), r1)
           | Some R_nil \<Rightarrow> Inr ((None, [Leak_reply R_nil]), r1)
           | Some (R_error e) \<Rightarrow> Inr ((None, [Leak_reply (R_error e)]), r1)
           | Some v \<Rightarrow>
               (case reply_str v of
                  None \<Rightarrow> Inl Null_deref
                | Some s \<Rightarrow> Inr ((Some (c_str s), []), r1))))"

definition hget_int ::
    "'r redis_ops \<Rightarrow> byte list \<Rightarrow> string \<Rightarrow> 'r \<Rightarrow> ((u32 option \<times> leak list) \<times> 'r) res" where
  "hget_int ops prefix name r =
     bind_res (hget_str ops prefix name r) (\<lambda>((v, ls), r1).
       case v of
         None \<Rightarrow> Inr ((None, ls), r1)
       | Some s \<Rightarrow> bind_res (str_to_int s) (\<lambda>i. Inr ((Some i, ls), r1)))"

text \<open>\<open>"hget " << kind << server_id << ":net "\<close>.\<close>

definition net_prefix :: "string \<Rightarrow> u32 \<Rightarrow> byte list" where
  "net_prefix kind server_id =
     bytes_of ''hget '' @ bytes_of kind @ int_to_str (scast server_id) @ bytes_of '':net ''"

text \<open>What the servers give \<open>net_pre_set_parameter\<close>, and the start of the network.\<close>

record net_start =
  st_base :: ptr
  st_socket :: socket_env
  st_create :: create_env
  st_started :: bool
  st_raw_port :: u32

definition init_net_with ::
    "'b evbuffer_ops \<Rightarrow> net_start \<Rightarrow> byte list \<Rightarrow> u32 \<Rightarrow> u32 \<Rightarrow> ('b, 'x) server_state_scheme \<Rightarrow>
     (bool \<times> ('b, 'x) server_state_scheme) res" where
  "init_net_with ops env addr port_no threads s =
     (let ns = (NetSetting_ctor (st_raw_port env))\<lparr> max_connections := 1024 * 4, ip_addr := addr,
                 listen_port := port_no, net_thread_num := threads \<rparr>
      in case net_pre_set_parameter ns (net s) of
           (ok, n1) \<Rightarrow>
             if \<not> ok then Inr (False, s\<lparr> net := n1 \<rparr>)
             else bind_res (net_init ops (st_base env) (st_socket env) (st_create env) (st_started env) n1)
               (\<lambda>(ok, n2). Inr (ok, s\<lparr> net := n2 \<rparr>)))"

section \<open>Laws\<close>

text \<open>The times of the passes add up: the deltas handed to \<open>logic_update\<close> are the distances
  between passes.\<close>

definition frames :: "u64 \<Rightarrow> u64 list \<Rightarrow> u64 list" where
  "frames prev nows = map (\<lambda>(a, b). if a = 0 then 0 else b - a) (zip (prev # nows) nows)"

lemma frames_Cons [simp]: "frames prev [] = []"
  "frames prev (now # nows) = (if prev = 0 then 0 else now - prev) # frames now nows"
  by (simp_all add: frames_def)

text \<open>The peers are the insert-once container.\<close>

lemma register_peer_insert_once:
  "register_peer sid conn s =
     (case stdmap.insert_once sid conn (s_connections_to_me s) of
        (ok, m) \<Rightarrow> (ok, s\<lparr> s_connections_to_me := m \<rparr>))"
  by (simp add: register_peer_def find_peer_def stdmap.insert_once_def)

lemma register_peer_find:
  assumes "map_ok (s_connections_to_me s)"
  shows "fst (register_peer sid conn s) = (find_peer sid s = None) \<and>
    find_peer k (snd (register_peer sid conn s)) =
      (if k = sid \<and> find_peer sid s = None then Some conn else find_peer k s) \<and>
    map_ok (s_connections_to_me (snd (register_peer sid conn s)))"
  using assms by (auto simp: register_peer_def find_peer_def)

lemma disconnect_peer_find:
  assumes "map_ok (s_connections_to_me s)"
  shows "find_peer k (disconnect_peer sid s) = (if k = sid then None else find_peer k s) \<and>
    map_ok (s_connections_to_me (disconnect_peer sid s))"
  using assms by (auto simp: disconnect_peer_def find_peer_def map_find_erase)

text \<open>A running server that is initialised calls \<open>logic_update\<close> in every pass, with the time since
  the last one.\<close>

lemma main_loop_updates:
  assumes "is_running s" and "is_init_ok s"
    and "\<And>now d s s'. update now d s = Inr s' \<Longrightarrow> is_running s \<Longrightarrow> is_init_ok s \<Longrightarrow>
      is_running s' \<and> is_init_ok s'"
  shows "main_loop update nows s =
    bind_res (fold_res (\<lambda>(now, d) s. bind_res (update now d s) (\<lambda>s'. Inr (s'\<lparr> s_last_frame := now \<rparr>)))
      (zip nows (frames (s_last_frame s) nows)) s) (\<lambda>s'. Inr (False, s'))"
  using assms(1,2)
proof (induction nows arbitrary: s)
  case Nil
  then show ?case by (simp add: is_running_def)
next
  case (Cons now nows)
  show ?case
  proof (cases "update now (if s_last_frame s = 0 then 0 else now - s_last_frame s) s")
    case (Inl f)
    with Cons.prems show ?thesis by (simp add: main_pass_def is_running_def Let_def)
  next
    case (Inr s')
    with assms(3) [OF Inr Cons.prems] have "is_running (s'\<lparr> s_last_frame := now \<rparr>)" "is_init_ok (s'\<lparr> s_last_frame := now \<rparr>)"
      by (simp_all add: is_running_def is_init_ok_def)
    from Cons.IH [OF this] Inr Cons.prems show ?thesis by (simp add: main_pass_def Let_def)
  qed
qed

end
