(* ===== verification/GF_Gate.thy ===== *)
theory GF_Gate
  imports GF_Server
begin

text \<open>
  The gate server (\<open>src/src/gate\<close>): it passes the messages of its clients on to the game server
  and the answers back. A client is known to the game server by the address of its connection in
  the gate, which the gate writes into \<open>cli_conn_\<close>.

  Shown: what a pass of \<open>logic_update\<close> does with each kind of message, and that an answer finds
  its way back to the client that asked.
\<close>

section \<open>State and settings\<close>

record GateConfig =
  server_id :: u32
  redis_addr :: "byte list"
  redis_port :: u32

record GameSerInfo =
  gs_ip :: "byte list"
  gs_port :: u32

record 'b gate_state = "'b server_state" +
  s_gate_config :: GateConfig
  s_server_net_ip :: "byte list"
  s_server_port :: u32
  s_net_thread_num :: u32
  s_gameser_info :: GameSerInfo
  s_game_conn :: u64

text \<open>\<open>config\<close> is what running the script leaves in \<open>s_gate_config\<close>, \<open>None\<close> when it fails.\<close>

definition gate_init_lua_config :: "GateConfig option \<Rightarrow> 'b gate_state \<Rightarrow> bool \<times> 'b gate_state" where
  "gate_init_lua_config config s =
     (case config of None \<Rightarrow> (False, s) | Some c \<Rightarrow> (True, s\<lparr> s_gate_config := c \<rparr>))"

text \<open>Each setting is stored as it comes; the result is whether all five came. \<open>conn\<close> is what
  \<open>redisConnectWithTimeout\<close> returns.\<close>

definition gate_init_net_config ::
    "'r redis_ops \<Rightarrow> bool option \<Rightarrow> 'r \<Rightarrow> 'b gate_state \<Rightarrow> ((bool \<times> leak list) \<times> 'b gate_state \<times> 'r) res" where
  "gate_init_net_config ops conn r s =
     (if conn = None then Inr ((False, []), s, r)
      else if conn = Some True then Inr ((False, [Leak_context]), s, r)
      else (let prefix = net_prefix ''gate_'' (server_id (s_gate_config s));
                s0 = s\<lparr> s_server_net_ip := BlankStr, s_server_port := 0 \<rparr>
            in bind_res (hget_str ops prefix ''ip'' r) (\<lambda>((v1, l1), r1).
               bind_res (hget_int ops prefix ''port'' r1) (\<lambda>((v2, l2), r2).
               bind_res (hget_int ops prefix ''net_thread_num'' r2) (\<lambda>((v3, l3), r3).
               bind_res (hget_str ops prefix ''gs_ip'' r3) (\<lambda>((v4, l4), r4).
               bind_res (hget_int ops prefix ''gs_port'' r4) (\<lambda>((v5, l5), r5).
                 let s1 = (case v1 of None \<Rightarrow> s0 | Some v \<Rightarrow> s0\<lparr> s_server_net_ip := v \<rparr>);
                     s2 = (case v2 of None \<Rightarrow> s1 | Some v \<Rightarrow> s1\<lparr> s_server_port := v \<rparr>);
                     s3 = (case v3 of None \<Rightarrow> s2 | Some v \<Rightarrow> s2\<lparr> s_net_thread_num := v \<rparr>);
                     s4 = (case v4 of None \<Rightarrow> s3 | Some v \<Rightarrow>
                             s3\<lparr> s_gameser_info := (s_gameser_info s3)\<lparr> gs_ip := v \<rparr> \<rparr>);
                     s5 = (case v5 of None \<Rightarrow> s4 | Some v \<Rightarrow>
                             s4\<lparr> s_gameser_info := (s_gameser_info s4)\<lparr> gs_port := v \<rparr> \<rparr>)
                 in Inr ((v1 \<noteq> None \<and> v2 \<noteq> None \<and> v3 \<noteq> None \<and> v4 \<noteq> None \<and> v5 \<noteq> None,
                          l1 @ l2 @ l3 @ l4 @ l5), s5, r5))))))))"

definition gate_init_net ::
    "'b evbuffer_ops \<Rightarrow> net_start \<Rightarrow> 'b gate_state \<Rightarrow> (bool \<times> 'b gate_state) res" where
  "gate_init_net ops env s = init_net_with ops env (s_server_net_ip s) (s_server_port s) (s_net_thread_num s) s"

section \<open>Clients\<close>

definition register_client :: "int \<Rightarrow> u64 \<Rightarrow> 'b gate_state \<Rightarrow> bool \<times> 'b gate_state" where
  "register_client sid conn s = register_peer sid conn s"

definition disconnect_client :: "int \<Rightarrow> 'b gate_state \<Rightarrow> 'b gate_state" where
  "disconnect_client sid s = disconnect_peer sid s"

section \<open>The connection to the game server\<close>

text \<open>The thread \<open>connect_gs\<close> starts. It tries until \<open>s_game_conn\<close> is not zero; the environments
  are those of its attempts, with the address a new connection would get.\<close>

definition connect_gs :: "'b gate_state \<Rightarrow> 'b gate_state" where
  "connect_gs s = s\<lparr> spawned := spawned s + 1 \<rparr>"

fun connect_to_gs :: "(socket_env \<times> PeerInfo \<times> ptr) list \<Rightarrow> 'b gate_state \<Rightarrow> 'b gate_state" where
  "connect_to_gs [] s = s"
| "connect_to_gs ((env, peer, new) # envs) s =
     (if s_game_conn s \<noteq> 0 then s
      else (case net_connect env peer new (net s) of
              (conn, n) \<Rightarrow> connect_to_gs envs (s\<lparr> s_game_conn := conn, net := n \<rparr>)))"

text \<open>\<open>GATE_SERVER + 1\<close> is the number the gate registers with.\<close>

definition GATE_SERVER :: u32 where "GATE_SERVER = 32"

definition regist_to_game :: "raw_node \<Rightarrow> 'b gate_state \<Rightarrow> 'b gate_state res" where
  "regist_to_game raw s =
     bind_res (get_msgnode raw (s_msg_processers (net s)) (get_type C_Regist_Req)) (\<lambda>node.
       case node of
         None \<Rightarrow> Inr s
       | Some n \<Rightarrow>
           (case msg_data n of
              Some (MD_Regist_Req req) \<Rightarrow>
                bind_res (net_send (Some (n\<lparr>
                    msg_data := Some (MD_Regist_Req (Regist_Req_set_my_id (GATE_SERVER + 1) req)),
                    msg_conn := s_game_conn s \<rparr>)) (net s))
                  (\<lambda>n'. Inr (s\<lparr> net := n' \<rparr>))
            | _ \<Rightarrow> Inl Null_deref))"

definition gate_connector_callback :: "raw_node \<Rightarrow> u64 \<Rightarrow> bool \<Rightarrow> 'b gate_state \<Rightarrow> 'b gate_state res" where
  "gate_connector_callback raw conn is_ok s =
     (if conn = s_game_conn s
      then (if is_ok then regist_to_game raw (set_init_ok True s) else Inr (connect_gs s))
      else Inr s)"

section \<open>Processing\<close>

text \<open>The four \<open>process_*\<close> functions of the gate are empty.\<close>

definition gate_process :: "msg_process \<Rightarrow> MsgNode \<Rightarrow> 'b gate_state \<Rightarrow> 'b gate_state res" where
  "gate_process h n s = Inr s"

text \<open>What \<open>message_process\<close> disposes of goes to the log.\<close>

definition process_node ::
    "(msg_process \<Rightarrow> MsgNode \<Rightarrow> ('b, 'x) server_state_scheme \<Rightarrow> ('b, 'x) server_state_scheme res) \<Rightarrow>
     MsgNode \<Rightarrow> ('b, 'x) server_state_scheme \<Rightarrow> ('b, 'x) server_state_scheme res" where
  "process_node run n s =
     bind_res (message_process run (s_msg_processers (net s)) (Some n) s) (\<lambda>(s1, ds).
       Inr (if ds = [] then s1 else s1\<lparr> net := log_effect (Dispose ds) (net s1) \<rparr>))"

definition gate_forward :: "MsgNode \<Rightarrow> 'b gate_state \<Rightarrow> 'b gate_state res" where
  "gate_forward n s =
     (if msg_conn n = s_game_conn s
      then (if msg_type n \<noteq> 0
            then bind_res (net_send_to (cli_conn n) (Some n) (net s)) (\<lambda>n'. Inr (s\<lparr> net := n' \<rparr>))
            else process_node gate_process n (s\<lparr> s_game_conn := 0 \<rparr>))
      else bind_res (net_send_to (s_game_conn s) (Some (n\<lparr> cli_conn := msg_conn n \<rparr>)) (net s))
             (\<lambda>n'. Inr (s\<lparr> net := n' \<rparr>)))"

fun gate_process_msgs :: "MsgNode list \<Rightarrow> 'b gate_state \<Rightarrow> 'b gate_state res" where
  "gate_process_msgs [] s = Inr (s\<lparr> s_recv_msgs := [] \<rparr>)"
| "gate_process_msgs (n # ns) s =
     bind_res (gate_forward n (s\<lparr> s_recv_msgs := ns \<rparr>)) (gate_process_msgs ns)"

definition gate_logic_update :: "u64 \<Rightarrow> u64 \<Rightarrow> 'b gate_state \<Rightarrow> 'b gate_state res" where
  "gate_logic_update now delta s =
     bind_res (get_net_msgs (s_recv_msgs s) (net s)) (\<lambda>(msgs, n1).
       gate_process_msgs msgs (s\<lparr> s_recv_msgs := msgs, net := n1 \<rparr>))"

text \<open>The order of the initialisation: the network runs before the table of messages is filled and
  before the callback is registered.\<close>

definition gate_init_config ::
    "'b evbuffer_ops \<Rightarrow> 'r redis_ops \<Rightarrow> GateConfig option \<Rightarrow> bool option \<Rightarrow> net_start \<Rightarrow> 'r \<Rightarrow> 'b gate_state \<Rightarrow>
     (bool \<times> 'b gate_state) res" where
  "gate_init_config ops rops config conn env r s =
     (case gate_init_lua_config config s of
        (ok, s1) \<Rightarrow>
          if \<not> ok then Inr (False, s1)
          else bind_res (gate_init_net_config rops conn r s1) (\<lambda>((ok, ls), s2, r1).
            if \<not> ok then Inr (False, s2)
            else bind_res (gate_init_net ops env s2) (\<lambda>(ok, s3).
              if \<not> ok then Inr (False, s3)
              else Inr (True, connect_gs (s3\<lparr> net := regist_connector_callback True
                ((net s3)\<lparr> s_msg_processers := protocol_init (s_msg_processers (net s3)) \<rparr>) \<rparr>)))))"

section \<open>Laws\<close>

lemma net_send_to_result:
  assumes "msg_conn n \<noteq> NULLP" and "get_conn p s = Inr c" and "td c = Some i" and "get_td i s = Inr t"
  shows "net_send_to p (Some n) s =
    Inr (put_td i (t\<lparr> td_write_msgs := td_write_msgs t @ [n\<lparr> msg_conn := p \<rparr>] \<rparr>) s)"
proof -
  have "p \<noteq> NULLP" using assms(2) by (simp add: get_conn_Inr)
  moreover have "net_send (Some (n\<lparr> msg_conn := p \<rparr>)) s =
    Inr (put_td i (t\<lparr> td_write_msgs := td_write_msgs t @ [n\<lparr> msg_conn := p \<rparr>] \<rparr>) s)"
    by (rule net_send_result) (use assms in simp_all)
  ultimately show ?thesis using assms(1) by (simp add: net_send_to_def)
qed

text \<open>A message of a client goes to the worker that serves the game server, naming the client.\<close>

lemma gate_forward_to_gs:
  assumes "msg_conn n \<noteq> s_game_conn s" and "msg_conn n \<noteq> NULLP"
    and "get_conn (s_game_conn s) (net s) = Inr c" and "td c = Some i" and "get_td i (net s) = Inr t"
  shows "gate_forward n s = Inr (s\<lparr> net := put_td i (t\<lparr> td_write_msgs := td_write_msgs t @
    [n\<lparr> cli_conn := msg_conn n, msg_conn := s_game_conn s \<rparr>] \<rparr>) (net s) \<rparr>)"
  using net_send_to_result [of "n\<lparr> cli_conn := msg_conn n \<rparr>", OF _ assms(3-5)] assms(1,2)
  by (simp add: gate_forward_def)

text \<open>A message of the game server goes to the client it names.\<close>

lemma gate_forward_to_client:
  assumes "msg_conn n = s_game_conn s" and "msg_conn n \<noteq> NULLP" and "msg_type n \<noteq> 0"
    and "get_conn (cli_conn n) (net s) = Inr c" and "td c = Some i" and "get_td i (net s) = Inr t"
  shows "gate_forward n s = Inr (s\<lparr> net := put_td i (t\<lparr> td_write_msgs := td_write_msgs t @
    [n\<lparr> msg_conn := cli_conn n \<rparr>] \<rparr>) (net s) \<rparr>)"
  using net_send_to_result [OF assms(2) assms(4-6)] assms(1,3) by (simp add: gate_forward_def)

text \<open>A client that has been deleted since is used all the same.\<close>

lemma gate_forward_dangling:
  assumes "msg_conn n = s_game_conn s" and "msg_conn n \<noteq> NULLP" and "msg_type n \<noteq> 0"
    and "cli_conn n \<noteq> NULLP" and "conns (net s) (cli_conn n) = None"
  shows "gate_forward n s = Inl (Dangling (cli_conn n))"
  using assms by (auto simp: gate_forward_def net_send_to_def net_send_def get_conn_def)

text \<open>Without a game server the messages of clients are dropped, and neither sent nor disposed of.\<close>

lemma gate_forward_no_gs:
  assumes "s_game_conn s = 0" and "msg_conn n \<noteq> 0"
  shows "gate_forward n s = Inr s"
proof -
  have "s\<lparr> net := net s \<rparr> = s" by (cases s) simp
  then show ?thesis using assms by (simp add: gate_forward_def net_send_to_def)
qed

text \<open>A failed connection is not tried again: \<open>s_game_conn\<close> still holds its address, so the new
  thread has nothing to do.\<close>

lemma gate_no_reconnect:
  assumes "s_game_conn s = conn" and "conn \<noteq> 0"
  shows "gate_connector_callback raw conn False s = Inr (connect_gs s) \<and>
    connect_to_gs envs (connect_gs s) = connect_gs s"
  using assms by (cases "(envs, connect_gs s)" rule: connect_to_gs.cases)
    (auto simp: gate_connector_callback_def connect_gs_def)

text \<open>The way of a request and its answer: what the gate sends for a client, received and answered
  in the game server, and received back, goes to that client.\<close>

lemma gate_answer_finds_client:
  assumes "procs_ok procs" and "map_find procs ty \<noteq> None"
    and "n1 = n\<lparr> cli_conn := msg_conn n, msg_conn := g \<rparr>" and "n2 = delivered raw1 q n1"
    and "get_res_node raw2 procs ty (Some n2) = Inr (Some n3)" and "n4 = delivered raw3 g n3"
  shows "cli_conn n4 = msg_conn n \<and> msg_conn n4 = g \<and> msg_conn n3 = q \<and> msg_type n4 = ty"
  using get_res_node_ok [OF assms(1), of raw2 ty n2] assms(2-6)
  by (auto simp: delivered_def)

section \<open>A pass of the gate\<close>

text \<open>Where a message of a pass goes, in what form, and which worker serves a connection.\<close>

definition gate_target :: "u64 \<Rightarrow> MsgNode \<Rightarrow> u64" where
  "gate_target gs n = (if msg_conn n = gs then cli_conn n else gs)"

definition gate_routed :: "u64 \<Rightarrow> MsgNode \<Rightarrow> MsgNode" where
  "gate_routed gs n =
     (if msg_conn n = gs then n\<lparr> msg_conn := cli_conn n \<rparr> else n\<lparr> cli_conn := msg_conn n, msg_conn := gs \<rparr>)"

definition worker_of :: "'b net_state \<Rightarrow> ptr \<Rightarrow> u64 option" where
  "worker_of s p = (case get_conn p s of Inl f \<Rightarrow> None | Inr c \<Rightarrow> td c)"

lemma worker_of_cong: "conns s' = conns s \<Longrightarrow> worker_of s' = worker_of s"
  by (rule ext) (simp add: worker_of_def get_conn_def)

lemma worker_of_put_td [simp]: "worker_of (put_td i t s) = worker_of s"
  by (rule worker_of_cong) simp

definition routable :: "'b gate_state \<Rightarrow> MsgNode \<Rightarrow> bool" where
  "routable s n \<longleftrightarrow> msg_conn n \<noteq> NULLP \<and> (msg_conn n = s_game_conn s \<longrightarrow> msg_type n \<noteq> 0) \<and>
     (\<exists>i t. worker_of (net s) (gate_target (s_game_conn s) n) = Some i \<and> get_td i (net s) = Inr t)"

definition queue_on :: "MsgNode list \<Rightarrow> ThreadData \<Rightarrow> ThreadData" where
  "queue_on ns t = t\<lparr> td_write_msgs := td_write_msgs t @ ns \<rparr>"

lemma queue_on_simps [simp]: "queue_on [] t = t" "queue_on ms (queue_on ns t) = queue_on (ns @ ms) t"
  by (cases t; simp add: queue_on_def)+

lemma gate_forward_routes:
  assumes "routable s n"
  shows "\<exists>i t. worker_of (net s) (gate_target (s_game_conn s) n) = Some i \<and> get_td i (net s) = Inr t \<and>
    gate_forward n s = Inr (s\<lparr> net := put_td i (queue_on [gate_routed (s_game_conn s) n] t) (net s) \<rparr>)"
proof -
  from assms obtain i t where it: "msg_conn n \<noteq> NULLP" "msg_conn n = s_game_conn s \<longrightarrow> msg_type n \<noteq> 0"
    "worker_of (net s) (gate_target (s_game_conn s) n) = Some i" "get_td i (net s) = Inr t"
    unfolding routable_def by blast
  then obtain c where c: "get_conn (gate_target (s_game_conn s) n) (net s) = Inr c" "td c = Some i"
    by (auto simp: worker_of_def split: sum.splits)
  have "gate_forward n s = Inr (s\<lparr> net := put_td i (queue_on [gate_routed (s_game_conn s) n] t) (net s) \<rparr>)"
  proof (cases "msg_conn n = s_game_conn s")
    case True
    with it c gate_forward_to_client [OF True it(1) _ _ c(2) it(4)] show ?thesis
      by (simp add: gate_target_def gate_routed_def queue_on_def)
  next
    case False
    with c gate_forward_to_gs [OF False it(1) _ c(2) it(4)] show ?thesis
      by (simp add: gate_target_def gate_routed_def queue_on_def)
  qed
  with it show ?thesis by blast
qed

text \<open>Every message of a pass is queued on the worker that serves its target, in the order the
  messages came.\<close>

definition routed_to :: "'b gate_state \<Rightarrow> u64 \<Rightarrow> MsgNode list \<Rightarrow> MsgNode list" where
  "routed_to s j ns = map (gate_routed (s_game_conn s))
     (filter (\<lambda>n. worker_of (net s) (gate_target (s_game_conn s) n) = Some j) ns)"

lemma gate_process_msgs_routes:
  assumes "\<And>n. n \<in> set ns \<Longrightarrow> routable s n"
  shows "\<exists>s'. gate_process_msgs ns s = Inr s' \<and> s_recv_msgs s' = [] \<and> s_game_conn s' = s_game_conn s \<and>
    conns (net s') = conns (net s) \<and>
    (\<forall>j. get_td j (net s') = map_sum id (queue_on (routed_to s j ns)) (get_td j (net s)))"
  using assms
proof (induction ns arbitrary: s)
  case Nil
  have "map_sum (\<lambda>a. a) (\<lambda>a. a) r = r" for r :: "ThreadData res" by (cases r) simp_all
  then show ?case by (simp add: routed_to_def id_def)
next
  case (Cons n ns)
  let ?g = "s_game_conn s" and ?s = "s\<lparr> s_recv_msgs := ns \<rparr>"
  have "routable ?s n" using Cons.prems [of n] by (simp add: routable_def)
  from gate_forward_routes [OF this] obtain i t where
    it: "worker_of (net s) (gate_target ?g n) = Some i" "get_td i (net s) = Inr t"
      "gate_forward n ?s = Inr (?s\<lparr> net := put_td i (queue_on [gate_routed ?g n] t) (net s) \<rparr>)" by auto
  let ?s1 = "?s\<lparr> net := put_td i (queue_on [gate_routed ?g n] t) (net s) \<rparr>"
  have r: "routable ?s1 m" if "m \<in> set ns" for m
    using Cons.prems [of m] that by (auto simp: routable_def)
  from Cons.IH [OF r] obtain s' where s': "gate_process_msgs ns ?s1 = Inr s'" "s_recv_msgs s' = []"
    "s_game_conn s' = s_game_conn ?s1" "conns (net s') = conns (net ?s1)"
    "\<And>j. get_td j (net s') = map_sum id (queue_on (routed_to ?s1 j ns)) (get_td j (net ?s1))" by blast
  have "get_td j (net s') = map_sum id (queue_on (routed_to s j (n # ns))) (get_td j (net s))" for j
    using it(1,2) by (auto simp: s'(5) routed_to_def)
  with it(3) s'(1-4) show ?case by (intro exI [of _ s'] conjI allI) (simp_all add: id_def)
qed

lemma gate_logic_update_routes:
  assumes "workers k (net s)" and "s_cnt (net s) \<noteq> 0x7FFFFFFF"
    and "ns = s_recv_msgs s @ concat (map (\<lambda>i. td_reads (net s) (of_nat i)) [0..<k])"
    and "\<And>n. n \<in> set ns \<Longrightarrow> msg_conn n \<noteq> NULLP \<and> (msg_conn n = s_game_conn s \<longrightarrow> msg_type n \<noteq> 0) \<and>
       (\<exists>i < k. worker_of (net s) (gate_target (s_game_conn s) n) = Some (of_nat i))"
  shows "\<exists>s'. gate_logic_update now delta s = Inr s' \<and> s_recv_msgs s' = [] \<and> conns (net s') = conns (net s) \<and>
    (\<forall>i < k. \<exists>t. get_td (of_nat i) (net s) = Inr t \<and>
       get_td (of_nat i) (net s') = Inr (t\<lparr> td_read_msgs := [],
         td_write_msgs := td_write_msgs t @ routed_to s (of_nat i) ns \<rparr>))"
proof -
  from get_net_msgs_result [OF assms(1,2), of "s_recv_msgs s"] obtain n1 where
    n1: "get_net_msgs (s_recv_msgs s) (net s) = Inr (ns, n1)"
      "\<And>i. i < k \<Longrightarrow> \<exists>t. get_td (of_nat i) (net s) = Inr t \<and> get_td (of_nat i) n1 = Inr (t\<lparr> td_read_msgs := [] \<rparr>)"
      "conns n1 = conns (net s)" unfolding assms(3) by blast
  let ?s = "s\<lparr> s_recv_msgs := ns, net := n1 \<rparr>"
  have w: "worker_of n1 = worker_of (net s)" by (rule worker_of_cong) (rule n1(3))
  have r: "routable ?s n" if "n \<in> set ns" for n
  proof -
    from assms(4) [OF that] obtain i where i: "i < k"
      "worker_of (net s) (gate_target (s_game_conn s) n) = Some (of_nat i)" by blast
    from n1(2) [OF i(1)] obtain t where "get_td (of_nat i) n1 = Inr t" by blast
    with i assms(4) [OF that] show ?thesis by (simp add: routable_def w)
  qed
  have rt: "routed_to ?s j ns = routed_to s j ns" for j by (simp add: routed_to_def w)
  from gate_process_msgs_routes [of ns ?s, OF r] obtain s' where
    s': "gate_process_msgs ns ?s = Inr s'" "s_recv_msgs s' = []" "conns (net s') = conns n1"
      "\<And>j. get_td j (net s') = map_sum id (queue_on (routed_to s j ns)) (get_td j n1)"
    unfolding rt by auto
  have "\<exists>t. get_td (of_nat i) (net s) = Inr t \<and> get_td (of_nat i) (net s') =
      Inr (t\<lparr> td_read_msgs := [], td_write_msgs := td_write_msgs t @ routed_to s (of_nat i) ns \<rparr>)" if i: "i < k" for i
    using n1(2) [OF i] by (auto simp: s'(4) queue_on_def)
  with n1(1,3) s'(1-3) show ?thesis by (simp add: gate_logic_update_def)
qed

text \<open>When the game server is gone the gate forgets its connection.\<close>

lemma gate_forward_shutdown:
  assumes "msg_conn n = s_game_conn s" and "msg_type n = 0" and "node_ok (s_msg_processers (net s)) n"
    and "procs_ok (s_msg_processers (net s))"
  shows "\<exists>s'. gate_forward n s = Inr s' \<and> s_game_conn s' = 0 \<and> conns (net s') = conns (net s) \<and>
    s_connections_to_me s' = s_connections_to_me s"
proof -
  from message_process_ok [OF assms(3,4), of gate_process "s\<lparr> s_game_conn := 0 \<rparr>"] obtain ds where
    "message_process gate_process (s_msg_processers (net s)) (Some n) (s\<lparr> s_game_conn := 0 \<rparr>) =
      Inr (s\<lparr> s_game_conn := 0 \<rparr>, ds)" by (auto simp: gate_process_def)
  then show ?thesis using assms(1,2) by (simp add: gate_forward_def process_node_def)
qed

end
