(* ===== verification/GF_Game.thy ===== *)
theory GF_Game
  imports GF_Gate
begin

text \<open>
  The game server (\<open>src/src/game\<close>): it accepts the registration of gates, refuses others, and
  keeps a connection to the data server. The processing functions are those of
  \<open>msg_process/Regist.cpp\<close> and \<open>msg_process/Shutdown.cpp\<close>.

  Shown: what a registration does, and that a pass of \<open>logic_update\<close> processes and disposes of
  every message received, in order.
\<close>

section \<open>State and settings\<close>

record GameConfig =
  gc_server_id :: u32
  gc_redis_addr :: "byte list"
  gc_port :: u32

record DataSerInfo =
  ds_ip :: "byte list"
  ds_port :: u32

record GameInternalConfig =
  game_ip :: "byte list"
  game_port :: u32

record 'b game_state = "'b server_state" +
  s_game_config :: GameConfig
  s_game_internal_config :: GameInternalConfig
  s_dataser_info :: DataSerInfo
  s_data_conn :: u64
  s_redis_list :: "RedisData list"
  s_redis_handle :: bool

definition game_init_lua_config :: "GameConfig option \<Rightarrow> 'b game_state \<Rightarrow> bool \<times> 'b game_state" where
  "game_init_lua_config config s =
     (case config of None \<Rightarrow> (False, s) | Some c \<Rightarrow> (True, s\<lparr> s_game_config := c \<rparr>))"

definition game_init_net_config ::
    "'r redis_ops \<Rightarrow> bool option \<Rightarrow> 'r \<Rightarrow> 'b game_state \<Rightarrow> ((bool \<times> leak list) \<times> 'b game_state \<times> 'r) res" where
  "game_init_net_config ops conn r s =
     (if conn = None then Inr ((False, []), s, r)
      else if conn = Some True then Inr ((False, [Leak_context]), s, r)
      else (let prefix = net_prefix ''game_'' (gc_server_id (s_game_config s));
                s0 = s\<lparr> s_game_internal_config := \<lparr> game_ip = BlankStr, game_port = 0 \<rparr> \<rparr>
            in bind_res (hget_str ops prefix ''ip'' r) (\<lambda>((v1, l1), r1).
               bind_res (hget_int ops prefix ''port'' r1) (\<lambda>((v2, l2), r2).
               bind_res (hget_str ops prefix ''ds_ip'' r2) (\<lambda>((v3, l3), r3).
               bind_res (hget_int ops prefix ''ds_port'' r3) (\<lambda>((v4, l4), r4).
                 let s1 = (case v1 of None \<Rightarrow> s0 | Some v \<Rightarrow>
                             s0\<lparr> s_game_internal_config := (s_game_internal_config s0)\<lparr> game_ip := v \<rparr> \<rparr>);
                     s2 = (case v2 of None \<Rightarrow> s1 | Some v \<Rightarrow>
                             s1\<lparr> s_game_internal_config := (s_game_internal_config s1)\<lparr> game_port := v \<rparr> \<rparr>);
                     s3 = (case v3 of None \<Rightarrow> s2 | Some v \<Rightarrow>
                             s2\<lparr> s_dataser_info := (s_dataser_info s2)\<lparr> ds_ip := v \<rparr> \<rparr>);
                     s4 = (case v4 of None \<Rightarrow> s3 | Some v \<Rightarrow>
                             s3\<lparr> s_dataser_info := (s_dataser_info s3)\<lparr> ds_port := v \<rparr> \<rparr>)
                 in Inr ((v1 \<noteq> None \<and> v2 \<noteq> None \<and> v3 \<noteq> None \<and> v4 \<noteq> None, l1 @ l2 @ l3 @ l4), s4, r4)))))))"

definition game_init_net ::
    "'b evbuffer_ops \<Rightarrow> net_start \<Rightarrow> 'b game_state \<Rightarrow> (bool \<times> 'b game_state) res" where
  "game_init_net ops env s =
     init_net_with ops env (game_ip (s_game_internal_config s)) (game_port (s_game_internal_config s)) 1 s"

section \<open>Registered servers\<close>

definition register_server :: "int \<Rightarrow> u64 \<Rightarrow> 'b game_state \<Rightarrow> bool \<times> 'b game_state" where
  "register_server sid conn s = register_peer sid conn s"

definition disconnect_server :: "int \<Rightarrow> 'b game_state \<Rightarrow> 'b game_state" where
  "disconnect_server sid s = disconnect_peer sid s"

section \<open>The connection to the data server\<close>

definition connect_to_ds :: "socket_env \<Rightarrow> PeerInfo \<Rightarrow> ptr \<Rightarrow> 'b game_state \<Rightarrow> 'b game_state" where
  "connect_to_ds env peer new s =
     (case net_connect env peer new (net s) of (conn, n) \<Rightarrow> s\<lparr> s_data_conn := conn, net := n \<rparr>)"

definition GAME_SERVER :: u32 where "GAME_SERVER = 16"

definition regist_to_data :: "raw_node \<Rightarrow> 'b game_state \<Rightarrow> 'b game_state res" where
  "regist_to_data raw s =
     bind_res (get_msgnode raw (s_msg_processers (net s)) (get_type C_Regist_Req)) (\<lambda>node.
       case node of
         None \<Rightarrow> Inr s
       | Some n \<Rightarrow>
           (case msg_data n of
              Some (MD_Regist_Req req) \<Rightarrow>
                bind_res (net_send (Some (n\<lparr>
                    msg_data := Some (MD_Regist_Req (Regist_Req_set_my_id (GAME_SERVER + 1) req)),
                    msg_conn := s_data_conn s \<rparr>)) (net s))
                  (\<lambda>n'. Inr (s\<lparr> net := n' \<rparr>))
            | _ \<Rightarrow> Inl Null_deref))"

definition game_connector_callback :: "raw_node \<Rightarrow> u64 \<Rightarrow> bool \<Rightarrow> 'b game_state \<Rightarrow> 'b game_state res" where
  "game_connector_callback raw conn is_ok s =
     (if conn = s_data_conn s
      then (if is_ok then regist_to_data raw (set_init_ok True s)
            else Inr (s\<lparr> spawned := spawned s + 1 \<rparr>))
      else Inr s)"

section \<open>Processing\<close>

text \<open>\<open>static_cast\<close> to \<open>Regist::Req\<close>: data of another class is undefined behaviour.\<close>

definition game_process_Regist_req :: "int \<Rightarrow> MsgNode \<Rightarrow> 'b game_state \<Rightarrow> 'b game_state res" where
  "game_process_Regist_req now n s =
     (case msg_data n of
        Some (MD_Regist_Req req) \<Rightarrow>
          if my_id req AND GATE_SERVER = GATE_SERVER
          then Inr (snd (register_server (sint (my_id req)) (msg_conn n) s))
          else bind_res (conn_close now (msg_conn n) (net s)) (\<lambda>n'. Inr (s\<lparr> net := n' \<rparr>))
      | _ \<Rightarrow> Inl Null_deref)"

fun game_process :: "int \<Rightarrow> msg_process \<Rightarrow> MsgNode \<Rightarrow> 'b game_state \<Rightarrow> 'b game_state res" where
  "game_process now process_Regist_req n s = game_process_Regist_req now n s"
| "game_process now process_Regist_res n s = Inr s"
| "game_process now process_Shutdown_req n s = Inr s"
| "game_process now process_Shutdown_res n s = Inr s"

fun game_process_msgs :: "int \<Rightarrow> MsgNode list \<Rightarrow> 'b game_state \<Rightarrow> 'b game_state res" where
  "game_process_msgs now [] s = Inr (s\<lparr> s_recv_msgs := [] \<rparr>)"
| "game_process_msgs now (n # ns) s =
     bind_res (process_node (game_process now) n (s\<lparr> s_recv_msgs := ns \<rparr>)) (game_process_msgs now ns)"

text \<open>\<open>secs\<close> is what \<open>get_s_time()\<close> gives when a connection is closed.\<close>

definition game_logic_update :: "int \<Rightarrow> u64 \<Rightarrow> u64 \<Rightarrow> 'b game_state \<Rightarrow> 'b game_state res" where
  "game_logic_update secs now delta s =
     bind_res (get_net_msgs (s_recv_msgs s) (net s)) (\<lambda>(msgs, n1).
       game_process_msgs secs msgs (s\<lparr> s_recv_msgs := msgs, net := n1 \<rparr>))"

text \<open>Two threads are started: the one that writes the redis list and the one that connects.\<close>

definition game_init_config ::
    "'b evbuffer_ops \<Rightarrow> 'r redis_ops \<Rightarrow> GameConfig option \<Rightarrow> bool option \<Rightarrow> net_start \<Rightarrow> 'r \<Rightarrow> 'b game_state \<Rightarrow>
     (bool \<times> 'b game_state) res" where
  "game_init_config ops rops config conn env r s =
     (case game_init_lua_config config s of
        (ok, s1) \<Rightarrow>
          if \<not> ok then Inr (False, s1)
          else bind_res (game_init_net_config rops conn r s1) (\<lambda>((ok, ls), s2, r1).
            if \<not> ok then Inr (False, s2)
            else bind_res (game_init_net ops env s2) (\<lambda>(ok, s3).
              if \<not> ok then Inr (False, s3)
              else Inr (True, set_init_ok True (s3\<lparr> spawned := spawned s3 + 2,
                net := regist_connector_callback True
                  ((net s3)\<lparr> s_msg_processers := protocol_init (s_msg_processers (net s3)) \<rparr>) \<rparr>)))))"

text \<open>\<open>logger_ok\<close> is the result of \<open>init_logger\<close>, \<open>conn\<close> what \<open>redisConnectWithTimeout\<close> returns.\<close>

definition game_init_system :: "bool \<Rightarrow> bool option \<Rightarrow> 'b game_state \<Rightarrow> bool \<times> 'b game_state" where
  "game_init_system logger_ok conn s =
     (if \<not> logger_ok then (False, s)
      else (let h = fst (redis_connect conn)
            in if \<not> h then (False, s\<lparr> s_redis_handle := False \<rparr>) else (True, s\<lparr> s_redis_handle := True \<rparr>)))"

section \<open>Laws\<close>

lemma process_Regist_req_gate:
  assumes "msg_data n = Some (MD_Regist_Req req)" and "my_id req AND 32 = 32"
    and "map_ok (s_connections_to_me s)"
  shows "\<exists>s'. game_process_Regist_req now n s = Inr s' \<and> net s' = net s \<and>
    find_peer (sint (my_id req)) s' =
      Some (case find_peer (sint (my_id req)) s of None \<Rightarrow> msg_conn n | Some old \<Rightarrow> old)"
  using assms register_peer_find [OF assms(3), of "sint (my_id req)" "msg_conn n" "sint (my_id req)"]
  by (auto simp: game_process_Regist_req_def GATE_SERVER_def register_server_def register_peer_def
      split: option.splits)

lemma process_Regist_req_other:
  assumes "msg_data n = Some (MD_Regist_Req req)" and "my_id req AND 32 \<noteq> 32"
    and "get_conn (msg_conn n) (net s) = Inr c" and "state c \<noteq> CS_CLOSE"
  shows "game_process_Regist_req now n s = Inr (s\<lparr> net :=
    put_conn (msg_conn n) (c\<lparr> state := CS_CLOSE, close_time := now \<rparr>) (net s) \<rparr>)"
  using assms
  by (simp add: game_process_Regist_req_def GATE_SERVER_def conn_close_def conn_set_state_def upd_conn_def)

text \<open>A gate registers with a number the game server accepts.\<close>

lemma gate_number_accepted: "(GATE_SERVER + 1) AND GATE_SERVER = GATE_SERVER"
  by (simp add: GATE_SERVER_def)

lemma game_number_refused: "(GAME_SERVER + 1) AND GATE_SERVER \<noteq> GATE_SERVER"
  by (simp add: GAME_SERVER_def GATE_SERVER_def)

section \<open>A pass of the game server\<close>

text \<open>The table as \<open>protocol_init\<close> fills it: registrations are processed as such.\<close>

definition typed_procs :: "msg_processers \<Rightarrow> bool" where
  "typed_procs procs \<longleftrightarrow> procs_ok procs \<and>
     (\<forall>ty p. map_find procs ty = Some p \<longrightarrow> mp p = Some process_Regist_req \<longrightarrow> dmd p = Some delete_Regist_req)"

definition disposal_of :: "msg_processers \<Rightarrow> MsgNode \<Rightarrow> disposal list" where
  "disposal_of procs n =
     (case map_find procs (msg_type n) of
        None \<Rightarrow> []
      | Some p \<Rightarrow> [Del_data (the (dmd p)) (the (msg_data n)), Del_node n])"

definition receivable :: "'b game_state \<Rightarrow> MsgNode \<Rightarrow> bool" where
  "receivable s n \<longleftrightarrow> node_ok (s_msg_processers (net s)) n \<and> msg_conn n \<noteq> NULLP \<and>
     conns (net s) (msg_conn n) \<noteq> None"

lemma game_process_total:
  assumes "typed_procs (s_msg_processers (net s))" and "receivable s n"
    and "map_find (s_msg_processers (net s)) (msg_type n) = Some p" and "mp p = Some h"
  shows "\<exists>s'. game_process now h n s = Inr s' \<and> effects (net s') = effects (net s) \<and>
    s_msg_processers (net s') = s_msg_processers (net s) \<and> s_recv_msgs s' = s_recv_msgs s \<and>
    (\<forall>q. conns (net s) q \<noteq> None \<longrightarrow> conns (net s') q \<noteq> None)"
proof (cases "h = process_Regist_req")
  case True
  with assms have "dmd p = Some delete_Regist_req" by (auto simp: typed_procs_def)
  with assms(2,3) obtain d where d: "msg_data n = Some d" "MsgData_class d = C_Regist_Req"
    by (auto simp: receivable_def node_ok_def)
  then obtain req where req: "msg_data n = Some (MD_Regist_Req req)" by (cases d) auto
  from assms(2) obtain c where c: "msg_conn n \<noteq> NULLP" "conns (net s) (msg_conn n) = Some c"
    by (auto simp: receivable_def)
  show ?thesis
    using True req c
    by (simp add: game_process_Regist_req_def register_server_def register_peer_def conn_close_def
        conn_set_state_def upd_conn_def get_conn_def)
next
  case False
  then show ?thesis by (cases h) auto
qed

lemma process_node_result:
  assumes "typed_procs (s_msg_processers (net s))" and "receivable s n"
  shows "\<exists>s'. process_node (game_process now) n s = Inr s' \<and>
    effects (net s') = effects (net s) @ [Dispose (disposal_of (s_msg_processers (net s)) n)] \<and>
    s_msg_processers (net s') = s_msg_processers (net s) \<and> s_recv_msgs s' = s_recv_msgs s \<and>
    (\<forall>q. conns (net s) q \<noteq> None \<longrightarrow> conns (net s') q \<noteq> None)"
proof -
  from assms obtain p d g where p: "map_find (s_msg_processers (net s)) (msg_type n) = Some p"
    "msg_data n = Some d" "dmd p = Some g" by (auto simp: receivable_def node_ok_def)
  with assms(1) obtain h where h: "mp p = Some h" by (fastforce simp: typed_procs_def procs_ok_def proc_ok_def)
  from game_process_total [OF assms p(1) h, of now] obtain s' where
    s': "game_process now h n s = Inr s'" "effects (net s') = effects (net s)"
      "s_msg_processers (net s') = s_msg_processers (net s)" "s_recv_msgs s' = s_recv_msgs s"
      "\<forall>q. conns (net s) q \<noteq> None \<longrightarrow> conns (net s') q \<noteq> None" by blast
  have "process_node (game_process now) n s =
      Inr (s'\<lparr> net := log_effect (Dispose [Del_data g d, Del_node n]) (net s') \<rparr>)"
    using p h s'(1) by (simp add: process_node_def message_process_def call_dmd_def)
  then show ?thesis using s' p by (simp add: disposal_of_def)
qed

text \<open>Every message of a pass is processed and disposed of, in order.\<close>

lemma game_process_msgs_result:
  assumes "typed_procs (s_msg_processers (net s))" and "\<And>n. n \<in> set ns \<Longrightarrow> receivable s n"
  shows "\<exists>s'. game_process_msgs now ns s = Inr s' \<and> s_recv_msgs s' = [] \<and>
    effects (net s') = effects (net s) @ map (Dispose \<circ> disposal_of (s_msg_processers (net s))) ns"
  using assms
proof (induction ns arbitrary: s)
  case (Cons n ns)
  let ?s = "s\<lparr> s_recv_msgs := ns \<rparr>"
  have "receivable ?s n" using Cons.prems(2) [of n] by (simp add: receivable_def)
  moreover have "typed_procs (s_msg_processers (net ?s))" using Cons.prems(1) by simp
  ultimately obtain s1 where s1: "process_node (game_process now) n ?s = Inr s1"
    "effects (net s1) = effects (net s) @ [Dispose (disposal_of (s_msg_processers (net s)) n)]"
    "s_msg_processers (net s1) = s_msg_processers (net s)"
    "\<forall>q. conns (net s) q \<noteq> None \<longrightarrow> conns (net s1) q \<noteq> None"
    using process_node_result [of ?s n now] by auto
  have t1: "typed_procs (s_msg_processers (net s1))" using Cons.prems(1) s1(3) by simp
  have r1: "receivable s1 m" if "m \<in> set ns" for m
    using Cons.prems(2) [of m] that s1(3,4) by (auto simp: receivable_def)
  from Cons.IH [OF t1 r1] obtain s' where "game_process_msgs now ns s1 = Inr s'" "s_recv_msgs s' = []"
    "effects (net s') = effects (net s1) @ map (Dispose \<circ> disposal_of (s_msg_processers (net s1))) ns" by blast
  with s1(1-3) show ?case by simp
qed simp

text \<open>The same from the network on.\<close>

lemma game_logic_update_result:
  assumes "workers k (net s)" and "s_cnt (net s) \<noteq> 0x7FFFFFFF"
    and "ns = s_recv_msgs s @ concat (map (\<lambda>i. td_reads (net s) (of_nat i)) [0..<k])"
    and "typed_procs (s_msg_processers (net s))" and "\<And>n. n \<in> set ns \<Longrightarrow> receivable s n"
  shows "\<exists>s'. game_logic_update secs now delta s = Inr s' \<and> s_recv_msgs s' = [] \<and>
    effects (net s') = effects (net s) @ map (Dispose \<circ> disposal_of (s_msg_processers (net s))) ns"
proof -
  from get_net_msgs_result [OF assms(1,2), of "s_recv_msgs s"] obtain n1 where
    n1: "get_net_msgs (s_recv_msgs s) (net s) = Inr (ns, n1)" "conns n1 = conns (net s)"
      "effects n1 = effects (net s)" "s_msg_processers n1 = s_msg_processers (net s)"
    unfolding assms(3) by blast
  let ?s = "s\<lparr> s_recv_msgs := ns, net := n1 \<rparr>"
  have r: "receivable ?s n" if "n \<in> set ns" for n
    using assms(5) [OF that] by (simp add: receivable_def n1)
  have "typed_procs (s_msg_processers (net ?s))" using assms(4) n1(4) by simp
  from game_process_msgs_result [OF this r, of ns secs] n1 show ?thesis
    by (auto simp: game_logic_update_def)
qed

end
