(* ===== verification/GF_Data.thy ===== *)
theory GF_Data
  imports GF_Game GF_Db
begin

text \<open>
  The data server (\<open>src/src/data\<close>): its settings, its message loop, and the thread that moves
  roles from redis to MySQL (\<open>data_tool/data_redis.cpp\<close>).

  The class \<open>Role\<close> is generated from \<open>Role.proto\<close> by a step that is not in the repository:
  what the code calls of it is an argument, the record \<open>role_class\<close>.
\<close>

section \<open>State and settings\<close>

record DataConfig =
  dc_server_id :: u32
  dc_redis_addr :: "byte list"
  dc_port :: u32

record DataInternalConfig =
  data_ip :: "byte list"
  data_port :: u32
  db_ip :: "byte list"
  db_port :: u32
  db_user :: "byte list"
  db_passwd :: "byte list"
  db_name :: "byte list"

record 'b data_state = "'b server_state" +
  s_data_config :: DataConfig
  s_data_internal_config :: DataInternalConfig
  g_mysql_handle :: bool
  ds_redis_handle :: bool

definition data_init_lua_config :: "DataConfig option \<Rightarrow> 'b data_state \<Rightarrow> bool \<times> 'b data_state" where
  "data_init_lua_config config s =
     (case config of None \<Rightarrow> (False, s) | Some c \<Rightarrow> (True, s\<lparr> s_data_config := c \<rparr>))"

definition keep :: "('v \<Rightarrow> 'c \<Rightarrow> 'c) \<Rightarrow> 'v option \<Rightarrow> 'c \<Rightarrow> 'c" where
  "keep f v c = (case v of None \<Rightarrow> c | Some x \<Rightarrow> f x c)"

definition data_init_net_config ::
    "'r redis_ops \<Rightarrow> bool option \<Rightarrow> 'r \<Rightarrow> 'b data_state \<Rightarrow> ((bool \<times> leak list) \<times> 'b data_state \<times> 'r) res" where
  "data_init_net_config ops conn r s =
     (if conn = None then Inr ((False, []), s, r)
      else if conn = Some True then Inr ((False, [Leak_context]), s, r)
      else (let prefix = net_prefix ''data_'' (dc_server_id (s_data_config s));
                c0 = (s_data_internal_config s)\<lparr> data_ip := BlankStr, data_port := - 1 \<rparr>
            in bind_res (hget_str ops prefix ''ip'' r) (\<lambda>((v1, l1), r1).
               bind_res (hget_int ops prefix ''port'' r1) (\<lambda>((v2, l2), r2).
               bind_res (hget_str ops prefix ''db_ip'' r2) (\<lambda>((v3, l3), r3).
               bind_res (hget_int ops prefix ''db_port'' r3) (\<lambda>((v4, l4), r4).
               bind_res (hget_str ops prefix ''db_user'' r4) (\<lambda>((v5, l5), r5).
               bind_res (hget_str ops prefix ''db_passwd'' r5) (\<lambda>((v6, l6), r6).
               bind_res (hget_str ops prefix ''db'' r6) (\<lambda>((v7, l7), r7).
                 let c = keep (\<lambda>v c. c\<lparr> db_name := v \<rparr>) v7 (keep (\<lambda>v c. c\<lparr> db_passwd := v \<rparr>) v6
                       (keep (\<lambda>v c. c\<lparr> db_user := v \<rparr>) v5 (keep (\<lambda>v c. c\<lparr> db_port := v \<rparr>) v4
                       (keep (\<lambda>v c. c\<lparr> db_ip := v \<rparr>) v3 (keep (\<lambda>v c. c\<lparr> data_port := v \<rparr>) v2
                       (keep (\<lambda>v c. c\<lparr> data_ip := v \<rparr>) v1 c0))))))
                 in Inr ((v1 \<noteq> None \<and> v2 \<noteq> None \<and> v3 \<noteq> None \<and> v4 \<noteq> None \<and> v5 \<noteq> None \<and> v6 \<noteq> None \<and> v7 \<noteq> None,
                          l1 @ l2 @ l3 @ l4 @ l5 @ l6 @ l7), s\<lparr> s_data_internal_config := c \<rparr>, r7))))))))))"

definition data_init_net ::
    "'b evbuffer_ops \<Rightarrow> net_start \<Rightarrow> 'b data_state \<Rightarrow> (bool \<times> 'b data_state) res" where
  "data_init_net ops env s =
     init_net_with ops env (data_ip (s_data_internal_config s)) (data_port (s_data_internal_config s)) 1 s"

text \<open>\<open>connected\<close> tells whether the database accepts the connection.\<close>

definition init_db :: "bool \<Rightarrow> 'b data_state \<Rightarrow> bool \<times> 'b data_state" where
  "init_db connected s =
     (let h = db_connect connected in if h then (True, s\<lparr> g_mysql_handle := True \<rparr>)
      else (False, s\<lparr> g_mysql_handle := False \<rparr>))"

definition data_register_server :: "int \<Rightarrow> u64 \<Rightarrow> 'b data_state \<Rightarrow> bool \<times> 'b data_state" where
  "data_register_server sid conn s = register_peer sid conn s"

definition data_disconnect_server :: "int \<Rightarrow> 'b data_state \<Rightarrow> 'b data_state" where
  "data_disconnect_server sid s = disconnect_peer sid s"

section \<open>Messages\<close>

text \<open>The processing functions of the data server are not in the repository: \<open>run\<close>.\<close>

fun data_process_msgs ::
    "(msg_process \<Rightarrow> MsgNode \<Rightarrow> 'b data_state \<Rightarrow> 'b data_state res) \<Rightarrow> MsgNode list \<Rightarrow> 'b data_state \<Rightarrow>
     'b data_state res" where
  "data_process_msgs run [] s = Inr (s\<lparr> s_recv_msgs := [] \<rparr>)"
| "data_process_msgs run (n # ns) s =
     bind_res (process_node run n (s\<lparr> s_recv_msgs := ns \<rparr>)) (data_process_msgs run ns)"

definition data_logic_update ::
    "(msg_process \<Rightarrow> MsgNode \<Rightarrow> 'b data_state \<Rightarrow> 'b data_state res) \<Rightarrow> u64 \<Rightarrow> u64 \<Rightarrow> 'b data_state \<Rightarrow>
     'b data_state res" where
  "data_logic_update run now delta s =
     bind_res (get_net_msgs (s_recv_msgs s) (net s)) (\<lambda>(msgs, n1).
       data_process_msgs run msgs (s\<lparr> s_recv_msgs := msgs, net := n1 \<rparr>))"

definition data_init_config ::
    "'b evbuffer_ops \<Rightarrow> 'r redis_ops \<Rightarrow> DataConfig option \<Rightarrow> bool option \<Rightarrow> net_start \<Rightarrow> bool \<Rightarrow> 'r \<Rightarrow>
     'b data_state \<Rightarrow> (bool \<times> 'b data_state) res" where
  "data_init_config ops rops config conn env connected r s =
     (case data_init_lua_config config s of
        (ok, s1) \<Rightarrow>
          if \<not> ok then Inr (False, s1)
          else bind_res (data_init_net_config rops conn r s1) (\<lambda>((ok, ls), s2, r1).
            if \<not> ok then Inr (False, s2)
            else bind_res (data_init_net ops env s2) (\<lambda>(ok, s3).
              if \<not> ok then Inr (False, s3)
              else (case init_db connected s3 of
                (ok, s4) \<Rightarrow>
                  if \<not> ok then Inr (False, s4)
                  else Inr (True, set_init_ok True (s4\<lparr> spawned := spawned s4 + 1,
                    net := (net s4)\<lparr> s_msg_processers := protocol_init (s_msg_processers (net s4)) \<rparr> \<rparr>))))))"

definition data_init_system :: "bool \<Rightarrow> bool option \<Rightarrow> 'b data_state \<Rightarrow> bool \<times> 'b data_state" where
  "data_init_system logger_ok conn s =
     (if \<not> logger_ok then (False, s)
      else (let h = fst (redis_connect conn)
            in if \<not> h then (False, s\<lparr> ds_redis_handle := False \<rparr>) else (True, s\<lparr> ds_redis_handle := True \<rparr>)))"

section \<open>Saving roles\<close>

text \<open>What the code uses of the generated class \<open>Role\<close>: its constructor, \<open>ParseFromArray\<close> and the
  three accessors.\<close>

record 'm role_class =
  rc_new :: 'm
  rc_parse :: "byte list \<Rightarrow> 'm \<Rightarrow> (bool \<times> 'm) res"
  rc_id :: "'m \<Rightarrow> byte list"
  rc_name :: "'m \<Rightarrow> byte list"
  rc_user :: "'m \<Rightarrow> byte list"

text \<open>The result of \<open>redis_get_data\<close> is thrown away.\<close>

definition get_redis_data ::
    "'r redis_ops \<Rightarrow> (byte list \<Rightarrow> 'm \<Rightarrow> (bool \<times> 'm) res) \<Rightarrow> byte list \<Rightarrow> 'm \<Rightarrow> 'r \<Rightarrow>
     ((bool \<times> 'm) \<times> 'r) res" where
  "get_redis_data ops parse key pd r =
     bind_res (redis_get_data ops parse key pd r) (\<lambda>((ok, pd1, ls), r1). Inr ((True, pd1), r1))"

text \<open>\<open>snprintf\<close> into 2048 bytes; the texts go in as they are.\<close>

definition role_sql :: "'m role_class \<Rightarrow> 'm \<Rightarrow> byte list" where
  "role_sql rc role =
     take 2047 (bytes_of ''REPLACE INTO `role` (`id`, `name`, `user`) VALUES ('' @
       [0x27] @ c_str (rc_id rc role) @ [0x27] @ bytes_of '', '' @
       [0x27] @ c_str (rc_name rc role) @ [0x27] @ bytes_of '', '' @
       [0x27] @ c_str (rc_user rc role) @ [0x27] @ bytes_of '');'')"

definition cmd_first :: "byte list" where "cmd_first = bytes_of ''ZRANGE role_sets 0 0''"
definition cmd_del :: "byte list" where "cmd_del = bytes_of ''ZREMRANGEBYRANK  role_sets 0 0''"

text \<open>One pass of the loop. \<open>response\<close> is kept from pass to pass; it is cleared only after a role
  was handled. The commands sent to the database are collected.\<close>

definition save_roles_pass ::
    "'r redis_ops \<Rightarrow> 'm role_class \<Rightarrow> bool \<Rightarrow> (byte list \<Rightarrow> mysql_answer) \<Rightarrow>
     byte list \<Rightarrow> byte list \<Rightarrow> 'r \<Rightarrow> ((byte list \<times> byte list \<times> byte list list) \<times> 'r) res" where
  "save_roles_pass ops rc handle server response response_del r =
     bind_res (redis_cmd ops cmd_first response r) (\<lambda>((ok, resp), r1).
       if \<not> ok then Inr ((resp, response_del, []), r1)
       else if resp = [] then Inr ((resp, response_del, []), r1)
       else bind_res (get_redis_data ops (rc_parse rc) resp (rc_new rc) r1) (\<lambda>((got, role), r2).
         if \<not> got then Inr (([], response_del, []), r2)
         else (let sql = role_sql rc role
               in if fst (db_exe handle (Some sql) server)
                  then bind_res (redis_cmd ops cmd_del response_del r2) (\<lambda>((d, resp_del), r3).
                    Inr (([], resp_del, [sql]), r3))
                  else Inr (([], response_del, [sql]), r2))))"

section \<open>Laws\<close>

lemma commands_plain: "reads_args cmd_first = False" "c_str cmd_first = cmd_first"
    "reads_args cmd_del = False" "c_str cmd_del = cmd_del"
  by code_simp+

text \<open>A role that is there is written to the database, and its entry removed when that succeeds.\<close>

lemma save_roles_pass_saves:
  assumes "rd_command ops cmd_first r = (Some (R_array (R_string key # es)), r1)"
    and "0 \<notin> set key" and "key \<noteq> []" and "rd_get ops key r1 = (Some (R_string v), r2)"
    and "rc_parse rc v (rc_new rc) = Inr (ok, role)" and "fst (db_exe handle (Some (role_sql rc role)) server)"
    and "rd_command ops cmd_del r2 = (Some (R_integer k), r3)"
  shows "save_roles_pass ops rc handle server response response_del r =
    Inr (([], int_to_str k, [role_sql rc role]), r3)"
  using assms
  by (simp add: save_roles_pass_def redis_cmd_def commands_plain c_str_id get_redis_data_def
      redis_get_data_def)

text \<open>A role that is gone from redis, or that redis fails to give, overwrites the row of the empty
  role, and its entry is removed.\<close>

lemma save_roles_pass_blank:
  assumes "rd_command ops cmd_first r = (Some (R_array (R_string key # es)), r1)"
    and "0 \<notin> set key" and "key \<noteq> []" and "rd_get ops key r1 = (Some R_nil, r2)"
    and "fst (db_exe handle (Some (role_sql rc (rc_new rc))) server)"
    and "rd_command ops cmd_del r2 = (Some (R_integer k), r3)"
  shows "save_roles_pass ops rc handle server response response_del r =
    Inr (([], int_to_str k, [role_sql rc (rc_new rc)]), r3)"
  using assms
  by (simp add: save_roles_pass_def redis_cmd_def commands_plain c_str_id get_redis_data_def
      redis_get_data_def)

text \<open>After an error the text of the error stays in \<open>response\<close>; an empty queue in the next pass
  leaves it there, and it is taken for the key of a role.\<close>

lemma save_roles_pass_stale:
  assumes "rd_command ops cmd_first r = (Some (R_error e), r1)"
    and "rd_command ops cmd_first r1 = (Some (R_array []), r2)" and "e \<noteq> []" and "0 \<notin> set e"
    and "rd_get ops e r2 = (Some R_nil, r3)"
    and "fst (db_exe handle (Some (role_sql rc (rc_new rc))) server)"
    and "rd_command ops cmd_del r3 = (Some (R_integer k), r4)"
  shows "save_roles_pass ops rc handle server response response_del r = Inr ((e, response_del, []), r1) \<and>
    save_roles_pass ops rc handle server e response_del r1 =
      Inr (([], int_to_str k, [role_sql rc (rc_new rc)]), r4)"
  using assms
  by (simp add: save_roles_pass_def redis_cmd_def commands_plain c_str_id get_redis_data_def
      redis_get_data_def)

end
