(* ===== verification/GF_Logger.thy ===== *)
theory GF_Logger
  imports GF_Utils
begin

text \<open>
  \<open>src/src/common/logger/logger.cpp\<close> and \<open>src/src/common/thread/thread_uitl.cpp\<close>. log4cplus is not
  in the repository: which levels are enabled is an argument, the lines it is given are a list.
  Formatted text is the result of \<open>vsnprintf\<close> before it is cut to its buffer.
\<close>

section \<open>The logger\<close>

datatype LogLevel = DEBUG_LOG_LEVEL | ERROR_LOG_LEVEL | INFO_LOG_LEVEL | TRACE_LOG_LEVEL

record log_line =
  ll_level :: LogLevel
  ll_text :: "byte list"
  ll_file :: "byte list"
  ll_line :: int

record logger_state =
  log_sys_init_ok :: bool
  isEnabledFor :: "LogLevel \<Rightarrow> bool"
  forced_log :: "log_line list"

definition s_log_max_length :: nat where "s_log_max_length = 1024 * 4"

text \<open>\<open>buf\<close> is cleared, and \<open>vsnprintf\<close> leaves room for the terminating zero.\<close>

definition DO_LOGGER :: "LogLevel \<Rightarrow> byte list \<Rightarrow> int \<Rightarrow> byte list \<Rightarrow> nat \<Rightarrow> logger_state \<Rightarrow> logger_state" where
  "DO_LOGGER loglevel filename fileline msg bufsize s =
     (if log_sys_init_ok s \<and> isEnabledFor s loglevel
      then s\<lparr> forced_log := forced_log s @
        [\<lparr> ll_level = loglevel, ll_text = take (bufsize - 1) (c_str msg), ll_file = filename, ll_line = fileline \<rparr>] \<rparr>
      else s)"

definition debug_log :: "byte list \<Rightarrow> int \<Rightarrow> byte list \<Rightarrow> logger_state \<Rightarrow> logger_state" where
  "debug_log filename fileline msg s = DO_LOGGER DEBUG_LOG_LEVEL filename fileline msg s_log_max_length s"

definition error_log :: "byte list \<Rightarrow> int \<Rightarrow> byte list \<Rightarrow> logger_state \<Rightarrow> logger_state" where
  "error_log filename fileline msg s = DO_LOGGER ERROR_LOG_LEVEL filename fileline msg s_log_max_length s"

definition info_log :: "byte list \<Rightarrow> int \<Rightarrow> byte list \<Rightarrow> logger_state \<Rightarrow> logger_state" where
  "info_log filename fileline msg s = DO_LOGGER INFO_LOG_LEVEL filename fileline msg s_log_max_length s"

definition trace_log :: "byte list \<Rightarrow> int \<Rightarrow> byte list \<Rightarrow> logger_state \<Rightarrow> logger_state" where
  "trace_log filename fileline msg s = DO_LOGGER TRACE_LOG_LEVEL filename fileline msg s_log_max_length s"

text \<open>\<open>ret\<close> is what \<open>stat\<close> of the configuration returns, \<open>levels\<close> what \<open>doConfigure\<close> enables.\<close>

definition init_logger :: "int \<Rightarrow> (LogLevel \<Rightarrow> bool) \<Rightarrow> logger_state \<Rightarrow> bool \<times> logger_state" where
  "init_logger ret levels s =
     (if is_file_exist ret = False then (False, s)
      else (True, s\<lparr> isEnabledFor := levels, log_sys_init_ok := True \<rparr>))"

text \<open>A configuration that is not there is not noticed.\<close>

lemma init_logger_always:
  "ret = 0 \<or> ret = -1 \<Longrightarrow> init_logger ret levels s = (True, s\<lparr> isEnabledFor := levels, log_sys_init_ok := True \<rparr>)"
  by (auto simp: init_logger_def is_file_exist_def ENOENT_def)

text \<open>What is logged fits its buffer, and nothing is logged before the logger is there.\<close>

definition lines_ok :: "logger_state \<Rightarrow> bool" where
  "lines_ok s \<longleftrightarrow> (\<forall>l \<in> set (forced_log s). length (ll_text l) < s_log_max_length \<and> 0 \<notin> set (ll_text l))"

lemma c_str_no_zero: "0 \<notin> set (c_str bs)"
  by (auto simp: c_str_def dest: set_takeWhileD)

lemma DO_LOGGER_ok: "lines_ok s \<Longrightarrow> lines_ok (DO_LOGGER lv f l msg s_log_max_length s)"
  using c_str_no_zero [of msg] by (auto simp: lines_ok_def DO_LOGGER_def s_log_max_length_def dest: in_set_takeD)

lemma logs_ok:
  assumes "lines_ok s"
  shows "lines_ok (debug_log f l msg s)" "lines_ok (error_log f l msg s)"
    and "lines_ok (info_log f l msg s)" "lines_ok (trace_log f l msg s)"
  using DO_LOGGER_ok [OF assms] by (simp_all add: debug_log_def error_log_def info_log_def trace_log_def)

lemma DO_LOGGER_early: "\<not> log_sys_init_ok s \<Longrightarrow> DO_LOGGER lv f l msg n s = s"
  by (simp add: DO_LOGGER_def)

section \<open>Threads\<close>

text \<open>\<open>created\<close> is the id \<open>pthread_create\<close> gives, \<open>None\<close> when it fails; then the local \<open>thread\<close>, which
  holds no value yet (\<open>raw\<close>), is copied to \<open>id\<close>. The two log functions are never set.\<close>

definition create_worker :: "'t option \<Rightarrow> 't \<Rightarrow> bool \<times> 't" where
  "create_worker created raw = (case created of None \<Rightarrow> (False, raw) | Some thread \<Rightarrow> (True, thread))"

end
