(* ===== verification/GF_OutStream.thy ===== *)
theory GF_OutStream
  imports GF_WireFormat "HOL-Library.Monad_Syntax"
begin

text \<open>
  \<open>CodedOutputStream\<close> over a \<open>ZeroCopyOutputStream\<close>
  (\<open>src/include/google/protobuf/io/coded_stream.cc\<close>, \<open>.h\<close>, \<open>zero_copy_stream.h\<close>): the stream
  hands out buffers of its own choosing, the writer fills them through a pointer and gives back what
  it did not use. The writers of \<open>GF_Wire\<close> give the bytes; here it is shown where they go.

  The stream is an argument: the locale \<open>zero_copy_output\<close> states what the comments of
  \<open>zero_copy_stream.h\<close> promise. \<open>None\<close> is a call that does not return: a loop that never ends, a
  fatal \<open>GOOGLE_CHECK\<close>, a write through \<open>NULL\<close>; the lemmas exclude it. The C++ \<open>int\<close>s are
  unbounded here: \<open>total_bytes_\<close> counts without a check in the code, so the model is that of an
  output below 2 GiB.
\<close>

section \<open>The interface of the underlying stream\<close>

text \<open>\<open>Next\<close> gives the size of a buffer; \<open>zo_store\<close> is a write into the buffer last given, from
  an offset on.\<close>

record 's zc_output =
  zo_Next :: "'s \<Rightarrow> (int option \<times> 's) option"
  zo_store :: "nat \<Rightarrow> byte list \<Rightarrow> 's \<Rightarrow> 's"
  zo_BackUp :: "int \<Rightarrow> 's \<Rightarrow> 's option"
  zo_ByteCount :: "'s \<Rightarrow> int"
  zo_WriteAliasedRaw :: "byte list \<Rightarrow> 's \<Rightarrow> (bool \<times> 's) option"
  zo_AllowsAliasing :: bool

text \<open>The default \<open>WriteAliasedRaw\<close> is a fatal log message (\<open>zero_copy_stream.cc\<close>).\<close>

definition default_WriteAliasedRaw :: "byte list \<Rightarrow> 's \<Rightarrow> (bool \<times> 's) option" where
  "default_WriteAliasedRaw data s = None"

section \<open>The writer\<close>

text \<open>\<open>cw_buffer\<close> is the offset of \<open>buffer_\<close> in the buffer last given, \<open>None\<close> for \<open>NULL\<close>.\<close>

record 's coded_out =
  cw_output :: 's
  cw_buffer :: "nat option"
  cw_size :: int        \<comment> \<open>\<open>buffer_size_\<close>\<close>
  cw_total :: int       \<comment> \<open>\<open>total_bytes_\<close>\<close>
  cw_error :: bool      \<comment> \<open>\<open>had_error_\<close>\<close>
  cw_aliasing :: bool   \<comment> \<open>\<open>aliasing_enabled_\<close>\<close>

definition cw_Refresh :: "'s zc_output \<Rightarrow> 's coded_out \<Rightarrow> (bool \<times> 's coded_out) option" where
  "cw_Refresh zo c = do {
     (given, output') \<leftarrow> zo_Next zo (cw_output c);
     Some (case given of
         Some n \<Rightarrow> (True, c\<lparr> cw_output := output', cw_buffer := Some 0, cw_size := n,
                              cw_total := cw_total c + n \<rparr>)
       | None \<Rightarrow> (False, c\<lparr> cw_output := output', cw_buffer := None, cw_size := 0, cw_error := True \<rparr>))
   }"

definition cw_create :: "'s zc_output \<Rightarrow> 's \<Rightarrow> 's coded_out option" where
  "cw_create zo output = do {
     (ok, c) \<leftarrow> cw_Refresh zo
       \<lparr> cw_output = output, cw_buffer = None, cw_size = 0, cw_total = 0, cw_error = False,
         cw_aliasing = False \<rparr>;
     Some (c\<lparr> cw_error := False \<rparr>)
   }"

definition cw_destroy :: "'s zc_output \<Rightarrow> 's coded_out \<Rightarrow> 's option" where
  "cw_destroy zo c =
     (if 0 < cw_size c then zo_BackUp zo (cw_size c) (cw_output c) else Some (cw_output c))"

definition cw_EnableAliasing :: "'s zc_output \<Rightarrow> bool \<Rightarrow> 's coded_out \<Rightarrow> 's coded_out" where
  "cw_EnableAliasing zo enabled c =
     c\<lparr> cw_aliasing := enabled \<and> zo_AllowsAliasing zo \<rparr>"

definition cw_Advance :: "int \<Rightarrow> 's coded_out \<Rightarrow> 's coded_out" where
  "cw_Advance amount c =
     c\<lparr> cw_buffer := map_option (\<lambda>p. p + nat amount) (cw_buffer c), cw_size := cw_size c - amount \<rparr>"

definition cw_HadError :: "'s coded_out \<Rightarrow> bool" where
  "cw_HadError c = cw_error c"

definition cw_ByteCount :: "'s coded_out \<Rightarrow> int" where
  "cw_ByteCount c = cw_total c - cw_size c"

text \<open>A \<open>memcpy\<close> to \<open>buffer_\<close>; none of no bytes.\<close>

definition cw_copy :: "'s zc_output \<Rightarrow> byte list \<Rightarrow> 's coded_out \<Rightarrow> 's coded_out option" where
  "cw_copy zo data c =
     (if data = [] then Some c
      else case cw_buffer c of
             None \<Rightarrow> None
           | Some p \<Rightarrow> Some (c\<lparr> cw_output := zo_store zo p data (cw_output c) \<rparr>))"

text \<open>The loop of \<open>Skip\<close>, and \<open>Skip\<close>: the bytes passed over keep what the buffer had.\<close>

partial_function (option) cw_Skip_loop :: "'s zc_output \<Rightarrow> int \<Rightarrow> 's coded_out \<Rightarrow> (bool \<times> 's coded_out) option" where
  "cw_Skip_loop zo count c =
     (if cw_size c < count
      then do {
        (ok, c') \<leftarrow> cw_Refresh zo c;
        if ok then cw_Skip_loop zo (count - cw_size c) c' else Some (False, c')
      }
      else Some (True, cw_Advance count c))"

definition cw_Skip :: "'s zc_output \<Rightarrow> int \<Rightarrow> 's coded_out \<Rightarrow> (bool \<times> 's coded_out) option" where
  "cw_Skip zo count c = (if count < 0 then Some (False, c) else cw_Skip_loop zo count c)"

text \<open>The result is the pointer and the size, as in \<open>*data\<close> and \<open>*size\<close>.\<close>

definition cw_GetDirectBufferPointer ::
    "'s zc_output \<Rightarrow> 's coded_out \<Rightarrow> ((nat option \<times> int) option \<times> 's coded_out) option" where
  "cw_GetDirectBufferPointer zo c =
     (if cw_size c = 0
      then do {
        (ok, c') \<leftarrow> cw_Refresh zo c;
        Some (if ok then Some (cw_buffer c', cw_size c') else None, c')
      }
      else Some (Some (cw_buffer c, cw_size c), c))"

text \<open>\<open>None\<close> is \<open>NULL\<close>.\<close>

definition cw_GetDirectBufferForNBytesAndAdvance :: "int \<Rightarrow> 's coded_out \<Rightarrow> nat option \<times> 's coded_out" where
  "cw_GetDirectBufferForNBytesAndAdvance n c =
     (if cw_size c < n then (None, c) else (cw_buffer c, cw_Advance n c))"

partial_function (option) cw_WriteRaw :: "'s zc_output \<Rightarrow> byte list \<Rightarrow> 's coded_out \<Rightarrow> 's coded_out option" where
  "cw_WriteRaw zo data c =
     (if cw_size c < int (length data)
      then do {
        c1 \<leftarrow> cw_copy zo (take (nat (cw_size c)) data) c;
        (ok, c2) \<leftarrow> cw_Refresh zo c1;
        if ok then cw_WriteRaw zo (drop (nat (cw_size c)) data) c2 else Some c2
      }
      else do {
        c1 \<leftarrow> cw_copy zo data c;
        Some (cw_Advance (int (length data)) c1)
      })"

definition cw_WriteString :: "'s zc_output \<Rightarrow> byte list \<Rightarrow> 's coded_out \<Rightarrow> 's coded_out option" where
  "cw_WriteString zo str c = cw_WriteRaw zo str c"

definition cw_WriteAliasedRaw :: "'s zc_output \<Rightarrow> byte list \<Rightarrow> 's coded_out \<Rightarrow> 's coded_out option" where
  "cw_WriteAliasedRaw zo data c =
     (if int (length data) < cw_size c then cw_WriteRaw zo data c
      else do {
        c1 \<leftarrow> (if 0 < cw_size c
               then do {
                 output' \<leftarrow> zo_BackUp zo (cw_size c) (cw_output c);
                 Some (c\<lparr> cw_output := output', cw_total := cw_total c - cw_size c, cw_buffer := None,
                          cw_size := 0 \<rparr>)
               }
               else Some c);
        (ok, output') \<leftarrow> zo_WriteAliasedRaw zo data (cw_output c1);
        Some (c1\<lparr> cw_total := cw_total c1 + int (length data), cw_output := output',
                  cw_error := (cw_error c1 \<or> \<not> ok) \<rparr>)
      })"

definition cw_WriteRawMaybeAliased :: "'s zc_output \<Rightarrow> byte list \<Rightarrow> 's coded_out \<Rightarrow> 's coded_out option" where
  "cw_WriteRawMaybeAliased zo data c =
     (if cw_aliasing c then cw_WriteAliasedRaw zo data c else cw_WriteRaw zo data c)"

text \<open>A value written straight to the buffer when that is large enough, else through \<open>WriteRaw\<close>.\<close>

definition cw_direct :: "'s zc_output \<Rightarrow> byte list \<Rightarrow> 's coded_out \<Rightarrow> 's coded_out option" where
  "cw_direct zo bytes c = do {
     c1 \<leftarrow> cw_copy zo bytes c;
     Some (cw_Advance (int (length bytes)) c1)
   }"

definition cw_WriteLittleEndian32 :: "'s zc_output \<Rightarrow> u32 \<Rightarrow> 's coded_out \<Rightarrow> 's coded_out option" where
  "cw_WriteLittleEndian32 zo value c =
     (if 4 \<le> cw_size c then cw_direct zo (le32 value) c else cw_WriteRaw zo (le32 value) c)"

definition cw_WriteLittleEndian64 :: "'s zc_output \<Rightarrow> u64 \<Rightarrow> 's coded_out \<Rightarrow> 's coded_out option" where
  "cw_WriteLittleEndian64 zo value c =
     (if 8 \<le> cw_size c then cw_direct zo (le64 value) c else cw_WriteRaw zo (le64 value) c)"

definition cw_WriteVarint32 :: "'s zc_output \<Rightarrow> u32 \<Rightarrow> 's coded_out \<Rightarrow> 's coded_out option" where
  "cw_WriteVarint32 zo value c =
     (if 5 \<le> cw_size c then cw_direct zo (WriteVarint32FallbackToArrayInline value) c
      else cw_WriteRaw zo (WriteVarint_slow (ucast value)) c)"

definition cw_WriteVarint64 :: "'s zc_output \<Rightarrow> u64 \<Rightarrow> 's coded_out \<Rightarrow> 's coded_out option" where
  "cw_WriteVarint64 zo value c =
     (if 10 \<le> cw_size c then cw_direct zo (WriteVarint64ToArrayInline value) c
      else cw_WriteRaw zo (WriteVarint_slow value) c)"

definition cw_WriteVarint32SignExtended :: "'s zc_output \<Rightarrow> u32 \<Rightarrow> 's coded_out \<Rightarrow> 's coded_out option" where
  "cw_WriteVarint32SignExtended zo value c =
     (if sint value < 0 then cw_WriteVarint64 zo (scast value) c else cw_WriteVarint32 zo value c)"

definition cw_WriteTag :: "'s zc_output \<Rightarrow> u32 \<Rightarrow> 's coded_out \<Rightarrow> 's coded_out option" where
  "cw_WriteTag zo value c = cw_WriteVarint32 zo value c"

text \<open>\<open>WireFormatLite::WriteInt32\<close>, and \<open>WireFormat::SerializeUnknownFields\<close>.\<close>

definition cw_WriteInt32 :: "'s zc_output \<Rightarrow> u32 \<Rightarrow> u32 \<Rightarrow> 's coded_out \<Rightarrow> 's coded_out option" where
  "cw_WriteInt32 zo field_number value c = do {
     c1 \<leftarrow> cw_WriteTag zo (MakeTag field_number WIRETYPE_VARINT) c;
     cw_WriteVarint32SignExtended zo value c1
   }"

fun cw_SerializeUnknownFields :: "'s zc_output \<Rightarrow> UnknownFieldSet \<Rightarrow> 's coded_out \<Rightarrow> 's coded_out option"
and cw_SerializeUnknownField :: "'s zc_output \<Rightarrow> unknown_field \<Rightarrow> 's coded_out \<Rightarrow> 's coded_out option"
where
  "cw_SerializeUnknownFields zo [] c = Some c"
| "cw_SerializeUnknownFields zo (f # fs) c = do {
     c1 \<leftarrow> cw_SerializeUnknownField zo f c;
     cw_SerializeUnknownFields zo fs c1
   }"
| "cw_SerializeUnknownField zo (UF_varint number v) c = do {
     c1 \<leftarrow> cw_WriteVarint32 zo (MakeTag number WIRETYPE_VARINT) c;
     cw_WriteVarint64 zo v c1
   }"
| "cw_SerializeUnknownField zo (UF_fixed32 number v) c = do {
     c1 \<leftarrow> cw_WriteVarint32 zo (MakeTag number WIRETYPE_FIXED32) c;
     cw_WriteLittleEndian32 zo v c1
   }"
| "cw_SerializeUnknownField zo (UF_fixed64 number v) c = do {
     c1 \<leftarrow> cw_WriteVarint32 zo (MakeTag number WIRETYPE_FIXED64) c;
     cw_WriteLittleEndian64 zo v c1
   }"
| "cw_SerializeUnknownField zo (UF_length_delimited number s) c = do {
     c1 \<leftarrow> cw_WriteVarint32 zo (MakeTag number WIRETYPE_LENGTH_DELIMITED) c;
     c2 \<leftarrow> cw_WriteVarint32 zo (of_nat (length s)) c1;
     cw_WriteRawMaybeAliased zo s c2
   }"
| "cw_SerializeUnknownField zo (UF_group number grp) c = do {
     c1 \<leftarrow> cw_WriteVarint32 zo (MakeTag number WIRETYPE_START_GROUP) c;
     c2 \<leftarrow> cw_SerializeUnknownFields zo grp c1;
     cw_WriteVarint32 zo (MakeTag number WIRETYPE_END_GROUP) c2
   }"

section \<open>What the stream promises\<close>

text \<open>\<open>zw_text\<close> is all the stream outputs if nothing is given back; its end is the buffer last
  given, of which \<open>zw_last\<close> bytes can be given back. Errors are permanent and lose nothing
  (\<open>zw_failed\<close>). \<open>zw_empties\<close> bounds the empty buffers to come.\<close>

record 's zc_sink =
  zw_wf :: "'s \<Rightarrow> bool"
  zw_text :: "'s \<Rightarrow> byte list"
  zw_last :: "'s \<Rightarrow> nat"
  zw_failed :: "'s \<Rightarrow> bool"
  zw_empties :: "'s \<Rightarrow> nat"

definition overwrite :: "nat \<Rightarrow> byte list \<Rightarrow> byte list \<Rightarrow> byte list" where
  "overwrite p data xs = take p xs @ data @ drop (p + length data) xs"

locale zero_copy_output =
  fixes zo :: "'s zc_output" and vw :: "'s zc_sink"
  assumes next_returns: "zw_wf vw s \<Longrightarrow> \<exists>r. zo_Next zo s = Some r"
    and next_buffer: "zw_wf vw s \<Longrightarrow> zo_Next zo s = Some (Some n, s') \<Longrightarrow>
      zw_wf vw s' \<and> \<not> zw_failed vw s \<and> \<not> zw_failed vw s' \<and> 0 \<le> n \<and> zw_last vw s' = nat n \<and>
      (\<exists>junk. length junk = nat n \<and> zw_text vw s' = zw_text vw s @ junk) \<and>
      (n = 0 \<longrightarrow> zw_empties vw s' < zw_empties vw s)"
    and next_error: "zw_wf vw s \<Longrightarrow> zo_Next zo s = Some (None, s') \<Longrightarrow>
      zw_wf vw s' \<and> zw_failed vw s' \<and> zw_text vw s' = zw_text vw s"
    and last_length: "zw_wf vw s \<Longrightarrow> zw_last vw s \<le> length (zw_text vw s)"
    and store: "zw_wf vw s \<Longrightarrow> \<not> zw_failed vw s \<Longrightarrow> p + length data \<le> zw_last vw s \<Longrightarrow> data \<noteq> [] \<Longrightarrow>
      zw_wf vw (zo_store zo p data s) \<and> \<not> zw_failed vw (zo_store zo p data s) \<and>
      zw_last vw (zo_store zo p data s) = zw_last vw s \<and>
      zw_text vw (zo_store zo p data s) =
        overwrite (length (zw_text vw s) - zw_last vw s + p) data (zw_text vw s) \<and>
      zw_empties vw (zo_store zo p data s) = zw_empties vw s"
    and backup: "zw_wf vw s \<Longrightarrow> \<not> zw_failed vw s \<Longrightarrow> 0 < n \<Longrightarrow> nat n \<le> zw_last vw s \<Longrightarrow>
      \<exists>s'. zo_BackUp zo n s = Some s' \<and> zw_wf vw s' \<and> \<not> zw_failed vw s' \<and>
        zw_text vw s' = take (length (zw_text vw s) - nat n) (zw_text vw s)"
    and aliased: "zw_wf vw s \<Longrightarrow> zo_AllowsAliasing zo \<Longrightarrow>
      \<exists>ok s'. zo_WriteAliasedRaw zo data s = Some (ok, s') \<and> zw_wf vw s' \<and>
        (if ok then \<not> zw_failed vw s \<and> \<not> zw_failed vw s' \<and> zw_text vw s' = zw_text vw s @ data
         else zw_failed vw s' \<and> (\<exists>k \<le> length data. zw_text vw s' = zw_text vw s @ take k data) \<and>
           (zw_failed vw s \<longrightarrow> zw_text vw s' = zw_text vw s))"

section \<open>What has been written\<close>

definition cw_ok :: "'s zc_output \<Rightarrow> 's zc_sink \<Rightarrow> 's coded_out \<Rightarrow> bool" where
  "cw_ok zo vw c \<longleftrightarrow> zw_wf vw (cw_output c) \<and> 0 \<le> cw_size c \<and> nat (cw_size c) \<le> zw_last vw (cw_output c) \<and>
     (zw_failed vw (cw_output c) \<longrightarrow> cw_size c = 0) \<and> (cw_error c \<longrightarrow> zw_failed vw (cw_output c)) \<and>
     (0 < cw_size c \<longrightarrow> cw_buffer c = Some (zw_last vw (cw_output c) - nat (cw_size c))) \<and>
     (cw_aliasing c \<longrightarrow> zo_AllowsAliasing zo)"

text \<open>The output up to the place of \<open>buffer_\<close>.\<close>

definition cw_text :: "'s zc_sink \<Rightarrow> 's coded_out \<Rightarrow> byte list" where
  "cw_text vw c = take (length (zw_text vw (cw_output c)) - nat (cw_size c)) (zw_text vw (cw_output c))"

text \<open>A call that writes \<open>bytes\<close>: it wrote all of them, or a part and failed.\<close>

definition cw_wrote :: "'s zc_output \<Rightarrow> 's zc_sink \<Rightarrow> byte list \<Rightarrow> 's coded_out \<Rightarrow> 's coded_out \<Rightarrow> bool" where
  "cw_wrote zo vw bytes c c' \<longleftrightarrow> cw_ok zo vw c' \<and> cw_aliasing c' = cw_aliasing c \<and>
     (\<exists>k \<le> length bytes. cw_text vw c' = cw_text vw c @ take k bytes \<and>
       (\<not> cw_error c' \<longrightarrow> k = length bytes) \<and> (cw_error c \<longrightarrow> cw_error c' \<and> k = 0) \<and>
       (cw_error c' \<longrightarrow> cw_error c \<or> cw_aliasing c \<or> k < length bytes)) \<and>
     (\<not> cw_error c' \<longrightarrow> cw_ByteCount c' = cw_ByteCount c + int (length bytes))"

lemma wrote_nothing: "cw_ok zo vw c \<Longrightarrow> cw_wrote zo vw [] c c"
  by (simp add: cw_wrote_def)

lemma wrote_append:
  assumes "cw_wrote zo vw bytes c c'" and "cw_wrote zo vw bytes' c' c''"
  shows "cw_wrote zo vw (bytes @ bytes') c c''"
proof -
  obtain k where k: "k \<le> length bytes" "cw_text vw c' = cw_text vw c @ take k bytes"
    "\<not> cw_error c' \<longrightarrow> k = length bytes" "cw_error c \<longrightarrow> cw_error c' \<and> k = 0"
    "cw_error c' \<longrightarrow> cw_error c \<or> cw_aliasing c \<or> k < length bytes"
    using assms(1) unfolding cw_wrote_def by blast
  obtain j where j: "j \<le> length bytes'" "cw_text vw c'' = cw_text vw c' @ take j bytes'"
    "\<not> cw_error c'' \<longrightarrow> j = length bytes'" "cw_error c' \<longrightarrow> cw_error c'' \<and> j = 0"
    "cw_error c'' \<longrightarrow> cw_error c' \<or> cw_aliasing c' \<or> j < length bytes'"
    using assms(2) unfolding cw_wrote_def by blast
  have "\<exists>n \<le> length (bytes @ bytes'). cw_text vw c'' = cw_text vw c @ take n (bytes @ bytes') \<and>
      (\<not> cw_error c'' \<longrightarrow> n = length (bytes @ bytes')) \<and> (cw_error c \<longrightarrow> cw_error c'' \<and> n = 0) \<and>
      (cw_error c'' \<longrightarrow> cw_error c \<or> cw_aliasing c \<or> n < length (bytes @ bytes'))"
  proof (cases "cw_error c'")
    case True
    then show ?thesis using k j by (intro exI [of _ k]) auto
  next
    case False
    moreover have "cw_aliasing c' = cw_aliasing c" using assms(1) by (simp add: cw_wrote_def)
    ultimately show ?thesis using k j by (intro exI [of _ "length bytes + j"]) auto
  qed
  moreover have "cw_error c' \<longrightarrow> cw_error c''" using j(4) by blast
  ultimately show ?thesis using assms unfolding cw_wrote_def by auto
qed

lemma wrote_bind:
  assumes "\<exists>c'. x = Some c' \<and> cw_wrote zo vw bytes c c'"
    and "\<And>c'. cw_ok zo vw c' \<Longrightarrow> \<exists>c''. g c' = Some c'' \<and> cw_wrote zo vw bytes' c' c''"
  shows "\<exists>c''. x \<bind> g = Some c'' \<and> cw_wrote zo vw (bytes @ bytes') c c''"
proof -
  obtain c' where c': "x = Some c'" "cw_wrote zo vw bytes c c'" using assms(1) by blast
  then have "cw_ok zo vw c'" by (simp add: cw_wrote_def)
  from assms(2) [OF this] obtain c'' where "g c' = Some c''" "cw_wrote zo vw bytes' c' c''" by blast
  then show ?thesis using c' wrote_append by fastforce
qed

context zero_copy_output begin

lemma failed_next:
  "zw_wf vw s \<Longrightarrow> zw_failed vw s \<Longrightarrow>
     \<exists>s'. zo_Next zo s = Some (None, s') \<and> zw_wf vw s' \<and> zw_failed vw s' \<and> zw_text vw s' = zw_text vw s"
  using next_returns [of s] next_buffer [of s] next_error [of s] by (metis not_Some_eq prod.collapse)

text \<open>\<open>Refresh\<close>, when the buffer at hand is full or was never there.\<close>

lemma Refresh_ok:
  assumes wf: "zw_wf vw (cw_output c)" and e: "cw_error c \<longrightarrow> zw_failed vw (cw_output c)"
    and a: "cw_aliasing c \<longrightarrow> zo_AllowsAliasing zo"
  shows "\<exists>b c'. cw_Refresh zo c = Some (b, c') \<and> cw_ok zo vw c' \<and> cw_text vw c' = zw_text vw (cw_output c) \<and>
    cw_aliasing c' = cw_aliasing c \<and>
    (if b then \<not> cw_error c \<and> \<not> cw_error c' \<and> cw_ByteCount c' = cw_total c \<and>
       (cw_size c' = 0 \<longrightarrow> zw_empties vw (cw_output c') < zw_empties vw (cw_output c))
     else cw_error c' \<and> cw_size c' = 0)"
proof -
  obtain given s' where n: "zo_Next zo (cw_output c) = Some (given, s')"
    using next_returns [OF wf] by fastforce
  show ?thesis
  proof (cases given)
    case None
    with next_error [OF wf] n a show ?thesis
      by (intro exI [of _ False]) (simp add: cw_Refresh_def cw_ok_def cw_text_def)
  next
    case (Some k)
    from next_buffer [OF wf n [unfolded Some]] obtain junk where
      x: "zw_wf vw s'" "\<not> zw_failed vw (cw_output c)" "\<not> zw_failed vw s'" "0 \<le> k"
        "zw_last vw s' = nat k" "k = 0 \<longrightarrow> zw_empties vw s' < zw_empties vw (cw_output c)"
        "length junk = nat k" "zw_text vw s' = zw_text vw (cw_output c) @ junk" by blast
    then show ?thesis using n Some a e
      by (intro exI [of _ True]) (simp add: cw_Refresh_def cw_ok_def cw_text_def cw_ByteCount_def)
  qed
qed

text \<open>A copy into the buffer at hand.\<close>

lemma copy_ok:
  assumes ok: "cw_ok zo vw c" and fits: "int (length data) \<le> cw_size c"
  shows "\<exists>s'. cw_copy zo data c = Some (c\<lparr> cw_output := s' \<rparr>) \<and> zw_wf vw s' \<and>
    zw_last vw s' = zw_last vw (cw_output c) \<and> zw_empties vw s' = zw_empties vw (cw_output c) \<and>
    zw_failed vw s' = zw_failed vw (cw_output c) \<and>
    zw_text vw s' = overwrite (length (zw_text vw (cw_output c)) - nat (cw_size c)) data (zw_text vw (cw_output c))"
proof (cases "data = []")
  case True
  then show ?thesis using ok
    by (intro exI [of _ "cw_output c"]) (simp add: cw_copy_def overwrite_def cw_ok_def)
next
  case False
  let ?s = "cw_output c" and ?p = "zw_last vw (cw_output c) - nat (cw_size c)"
  have pos: "0 < cw_size c" using fits False by (cases data) auto
  then have c: "zw_wf vw ?s" "\<not> zw_failed vw ?s" "nat (cw_size c) \<le> zw_last vw ?s"
    "cw_buffer c = Some ?p" using ok by (auto simp: cw_ok_def)
  have le: "?p + length data \<le> zw_last vw ?s" using fits pos c(3) by linarith
  have at: "length (zw_text vw ?s) - zw_last vw ?s + ?p = length (zw_text vw ?s) - nat (cw_size c)"
    using last_length [OF c(1)] c(3) by linarith
  from store [OF c(1,2) le False] at c(2,4) False show ?thesis
    by (intro exI [of _ "zo_store zo ?p data ?s"]) (simp add: cw_copy_def)
qed

lemma overwrite_split:
  assumes "k \<le> length xs" and "length data \<le> k"
  shows "take (length xs - (k - length data)) (overwrite (length xs - k) data xs) =
      take (length xs - k) xs @ data"
    and "length (overwrite (length xs - k) data xs) = length xs"
proof -
  have "length xs - (k - length data) = length (take (length xs - k) xs @ data)" using assms by simp
  then show "take (length xs - (k - length data)) (overwrite (length xs - k) data xs) =
      take (length xs - k) xs @ data"
    unfolding overwrite_def by (simp only: append_assoc [symmetric] append_eq_conv_conj) simp
  show "length (overwrite (length xs - k) data xs) = length xs"
    using assms by (simp add: overwrite_def)
qed

lemma ok_length: "cw_ok zo vw c \<Longrightarrow> nat (cw_size c) \<le> length (zw_text vw (cw_output c))"
  using last_length [of "cw_output c"] by (simp add: cw_ok_def)

lemma direct_ok:
  assumes ok: "cw_ok zo vw c" and fits: "int (length bytes) \<le> cw_size c"
  shows "\<exists>c'. cw_direct zo bytes c = Some c' \<and> cw_wrote zo vw bytes c c' \<and>
    (cw_error c' \<longrightarrow> bytes = [])"
proof -
  from copy_ok [OF ok fits] obtain s' where
    s: "cw_copy zo bytes c = Some (c\<lparr> cw_output := s' \<rparr>)" "zw_wf vw s'"
      "zw_last vw s' = zw_last vw (cw_output c)" "zw_failed vw s' = zw_failed vw (cw_output c)"
      "zw_text vw s' = overwrite (length (zw_text vw (cw_output c)) - nat (cw_size c)) bytes
        (zw_text vw (cw_output c))" by blast
  have le: "nat (cw_size c) \<le> length (zw_text vw (cw_output c))" "length bytes \<le> nat (cw_size c)"
    using ok_length [OF ok] fits by auto
  let ?c = "cw_Advance (int (length bytes)) (c\<lparr> cw_output := s' \<rparr>)"
  have e: "cw_error c \<longrightarrow> bytes = []" using ok fits by (auto simp: cw_ok_def)
  have "cw_ok zo vw ?c" using ok s fits by (auto simp: cw_ok_def cw_Advance_def)
  moreover have "cw_text vw ?c = cw_text vw c @ bytes"
  proof -
    have "nat (cw_size c - int (length bytes)) = nat (cw_size c) - length bytes" by simp
    moreover have "cw_output ?c = s'" "cw_size ?c = cw_size c - int (length bytes)"
      by (simp_all add: cw_Advance_def)
    ultimately show ?thesis using overwrite_split [OF le] unfolding cw_text_def by (simp only: s(5))
  qed
  ultimately have "cw_wrote zo vw bytes c ?c"
    using e by (auto simp: cw_wrote_def cw_Advance_def cw_ByteCount_def)
  then show ?thesis using s(1) e by (simp add: cw_direct_def cw_Advance_def)
qed

lemma WriteRaw_ok:
  assumes "cw_ok zo vw c"
  shows "\<exists>c'. cw_WriteRaw zo data c = Some c' \<and> cw_wrote zo vw data c c'"
  using assms
proof (induction "(data, c)" arbitrary: data c
    rule: wf_induct_rule [OF wf_measures [of "[\<lambda>(d, c). length d, \<lambda>(d, c). if cw_size c = 0 then 1 else 0,
        \<lambda>(d, c). zw_empties vw (cw_output c)]"]])
  case less: (1 data c)
  note ok = less.prems
  show ?case
  proof (cases "cw_size c < int (length data)")
    case False
    then have "cw_WriteRaw zo data c = cw_direct zo data c"
      by (subst cw_WriteRaw.simps) (simp add: cw_direct_def)
    with direct_ok [OF ok, of data] False show ?thesis by auto
  next
    case True
    let ?k = "nat (cw_size c)"
    have k: "0 \<le> cw_size c" "length (take ?k data) = ?k" using ok True by (auto simp: cw_ok_def)
    then have fits: "int (length (take ?k data)) \<le> cw_size c" by simp
    from copy_ok [OF ok fits] obtain s' where
      s: "cw_copy zo (take ?k data) c = Some (c\<lparr> cw_output := s' \<rparr>)" "zw_wf vw s'"
        "zw_empties vw s' = zw_empties vw (cw_output c)" "zw_failed vw s' = zw_failed vw (cw_output c)"
        "zw_text vw s' = overwrite (length (zw_text vw (cw_output c)) - ?k) (take ?k data)
          (zw_text vw (cw_output c))" by blast
    let ?c1 = "c\<lparr> cw_output := s' \<rparr>"
    have len: "length (zw_text vw s') = length (zw_text vw (cw_output c))"
      using overwrite_split(2) [OF ok_length [OF ok], of "take ?k data"] k(2) s(5) by simp
    have out: "zw_text vw s' = cw_text vw c @ take ?k data"
    proof -
      have "take (length (zw_text vw s')) (zw_text vw s') = cw_text vw c @ take ?k data"
        using overwrite_split(1) [OF ok_length [OF ok], of "take ?k data"] k(2)
        unfolding s(5) [symmetric] len cw_text_def by simp
      then show ?thesis by simp
    qed
    have "zw_wf vw (cw_output ?c1)" "cw_error ?c1 \<longrightarrow> zw_failed vw (cw_output ?c1)"
      "cw_aliasing ?c1 \<longrightarrow> zo_AllowsAliasing zo" using ok s(2,4) by (auto simp: cw_ok_def)
    from Refresh_ok [OF this] obtain b c2 where
      r: "cw_Refresh zo ?c1 = Some (b, c2)" "cw_ok zo vw c2" "cw_text vw c2 = zw_text vw s'"
        "cw_aliasing c2 = cw_aliasing c"
        "if b then \<not> cw_error c \<and> \<not> cw_error c2 \<and> cw_ByteCount c2 = cw_total c \<and>
           (cw_size c2 = 0 \<longrightarrow> zw_empties vw (cw_output c2) < zw_empties vw (cw_output c))
         else cw_error c2 \<and> cw_size c2 = 0" by (auto simp: s(3) split: if_splits)
    have unf: "cw_WriteRaw zo data c = (if b then cw_WriteRaw zo (drop ?k data) c2 else Some c2)"
      using True s(1) r(1) by (subst cw_WriteRaw.simps) simp
    have err: "cw_error c \<longrightarrow> ?k = 0" using ok by (auto simp: cw_ok_def)
    have w: "cw_wrote zo vw (take ?k data) c c2 \<or> \<not> b"
      using r k by (auto simp: cw_wrote_def cw_ByteCount_def out)
    show ?thesis
    proof (cases b)
      case False
      have "cw_wrote zo vw data c c2" unfolding cw_wrote_def
        using r False out err k True by (intro conjI exI [of _ ?k]) auto
      then show ?thesis using unf False by simp
    next
      case b: True
      have "((drop ?k data, c2), (data, c)) \<in> measures [\<lambda>(d, c). length d,
          \<lambda>(d, c). if cw_size c = 0 then 1 else 0, \<lambda>(d, c). zw_empties vw (cw_output c)]"
        using True k(1) r(5) b by (cases "cw_size c = 0") auto
      from less.hyps [OF this r(2)] obtain c' where
        "cw_WriteRaw zo (drop ?k data) c2 = Some c'" "cw_wrote zo vw (drop ?k data) c2 c'" by blast
      then show ?thesis using unf b w wrote_append [of zo vw "take ?k data" c c2 "drop ?k data" c'] by simp
    qed
  qed
qed

lemma WriteAliasedRaw_ok:
  assumes ok: "cw_ok zo vw c" and al: "cw_aliasing c"
  shows "\<exists>c'. cw_WriteAliasedRaw zo data c = Some c' \<and> cw_wrote zo vw data c c'"
proof (cases "int (length data) < cw_size c")
  case True
  with WriteRaw_ok [OF ok, of data] show ?thesis by (simp add: cw_WriteAliasedRaw_def)
next
  case False
  have a: "zo_AllowsAliasing zo" using ok al by (simp add: cw_ok_def)
  have "\<exists>c1. (if 0 < cw_size c
               then do {
                 output' \<leftarrow> zo_BackUp zo (cw_size c) (cw_output c);
                 Some (c\<lparr> cw_output := output', cw_total := cw_total c - cw_size c, cw_buffer := None,
                          cw_size := 0 \<rparr>)
               }
               else Some c) = Some c1 \<and> zw_wf vw (cw_output c1) \<and>
      (zw_failed vw (cw_output c1) \<longleftrightarrow> zw_failed vw (cw_output c)) \<and> zw_text vw (cw_output c1) = cw_text vw c \<and>
      cw_size c1 = 0 \<and> cw_total c1 = cw_ByteCount c \<and> cw_error c1 = cw_error c \<and> cw_aliasing c1 = cw_aliasing c"
  proof (cases "0 < cw_size c")
    case True
    then have "zw_wf vw (cw_output c)" "\<not> zw_failed vw (cw_output c)"
      "nat (cw_size c) \<le> zw_last vw (cw_output c)" using ok by (auto simp: cw_ok_def)
    from backup [OF this(1,2) True this(3)] \<open>\<not> zw_failed vw (cw_output c)\<close> True show ?thesis
      by (auto simp: cw_text_def cw_ByteCount_def)
  next
    case False
    then have "cw_size c = 0" using ok by (simp add: cw_ok_def)
    then show ?thesis using ok by (simp add: cw_text_def cw_ByteCount_def cw_ok_def)
  qed
  then obtain c1 where c1: "(if 0 < cw_size c
               then do {
                 output' \<leftarrow> zo_BackUp zo (cw_size c) (cw_output c);
                 Some (c\<lparr> cw_output := output', cw_total := cw_total c - cw_size c, cw_buffer := None,
                          cw_size := 0 \<rparr>)
               }
               else Some c) = Some c1" "zw_wf vw (cw_output c1)"
      "zw_failed vw (cw_output c1) \<longleftrightarrow> zw_failed vw (cw_output c)" "zw_text vw (cw_output c1) = cw_text vw c"
      "cw_size c1 = 0" "cw_total c1 = cw_ByteCount c" "cw_error c1 = cw_error c" "cw_aliasing c1 = cw_aliasing c"
    by blast
  from aliased [OF c1(2) a, of data] obtain b s' where
    s: "zo_WriteAliasedRaw zo data (cw_output c1) = Some (b, s')" "zw_wf vw s'"
      "if b then \<not> zw_failed vw (cw_output c1) \<and> \<not> zw_failed vw s' \<and>
         zw_text vw s' = zw_text vw (cw_output c1) @ data
       else zw_failed vw s' \<and> (\<exists>k \<le> length data. zw_text vw s' = zw_text vw (cw_output c1) @ take k data) \<and>
         (zw_failed vw (cw_output c1) \<longrightarrow> zw_text vw s' = zw_text vw (cw_output c1))" by blast
  let ?c = "c1\<lparr> cw_total := cw_total c1 + int (length data), cw_output := s',
      cw_error := (cw_error c1 \<or> \<not> b) \<rparr>"
  have "cw_WriteAliasedRaw zo data c = Some ?c"
    unfolding cw_WriteAliasedRaw_def using False c1(1) s(1) by (simp del: not_less)
  moreover have e: "cw_error c \<longrightarrow> zw_failed vw (cw_output c)" using ok by (simp add: cw_ok_def)
  have "cw_ok zo vw ?c" using s a c1(5) e c1(3,7) by (cases b) (auto simp: cw_ok_def)
  moreover have "\<exists>k \<le> length data. cw_text vw ?c = cw_text vw c @ take k data \<and>
       (\<not> cw_error ?c \<longrightarrow> k = length data) \<and> (cw_error c \<longrightarrow> cw_error ?c \<and> k = 0) \<and>
       (cw_error ?c \<longrightarrow> cw_error c \<or> cw_aliasing c \<or> k < length data)"
  proof (cases b)
    case True
    then show ?thesis using s(3) c1(3,4,5) e al by (intro exI [of _ "length data"]) (auto simp: cw_text_def)
  next
    case b: False
    show ?thesis
    proof (cases "zw_failed vw (cw_output c)")
      case True
      then show ?thesis using b s(3) c1(3,4,5) al by (intro exI [of _ 0]) (simp add: cw_text_def)
    next
      case False
      then show ?thesis using b s(3) c1(3,4,5) e al by (auto simp: cw_text_def)
    qed
  qed
  moreover have "cw_ByteCount ?c = cw_ByteCount c + int (length data)"
    using c1(5,6) by (simp add: cw_ByteCount_def)
  moreover have "cw_aliasing ?c = cw_aliasing c" using c1(8) by simp
  ultimately show ?thesis unfolding cw_wrote_def by blast
qed

lemma WriteRawMaybeAliased_ok:
  "cw_ok zo vw c \<Longrightarrow> \<exists>c'. cw_WriteRawMaybeAliased zo data c = Some c' \<and> cw_wrote zo vw data c c'"
  using WriteRaw_ok WriteAliasedRaw_ok by (simp add: cw_WriteRawMaybeAliased_def cw_ok_def)

lemma direct_or_raw:
  assumes "cw_ok zo vw c" and "length bytes \<le> n"
  shows "\<exists>c'. (if int n \<le> cw_size c then cw_direct zo bytes c else cw_WriteRaw zo bytes c) = Some c' \<and>
    cw_wrote zo vw bytes c c'"
  using direct_ok [OF assms(1), of bytes] WriteRaw_ok [OF assms(1), of bytes] assms(2) by auto

lemma WriteLittleEndian_ok:
  assumes "cw_ok zo vw c"
  shows "\<exists>c'. cw_WriteLittleEndian32 zo v c = Some c' \<and> cw_wrote zo vw (le32 v) c c'"
    and "\<exists>c'. cw_WriteLittleEndian64 zo w c = Some c' \<and> cw_wrote zo vw (le64 w) c c'"
  using direct_or_raw [OF assms, of "le32 v" 4] direct_or_raw [OF assms, of "le64 w" 8]
  unfolding cw_WriteLittleEndian32_def cw_WriteLittleEndian64_def by simp_all

lemma WriteVarint_ok:
  assumes "cw_ok zo vw c"
  shows "\<exists>c'. cw_WriteVarint32 zo v c = Some c' \<and> cw_wrote zo vw (WriteVarint_slow (ucast v)) c c'"
    and "\<exists>c'. cw_WriteVarint64 zo w c = Some c' \<and> cw_wrote zo vw (WriteVarint_slow w) c c'"
proof -
  have "VarintSize32 v \<le> 5" by (simp add: VarintSize32_def VarintSize32Fallback_def)
  then have le: "length (WriteVarint_slow (ucast v)) \<le> 5" "length (WriteVarint_slow w) \<le> 10"
    using length_WriteVarint_slow_le by (simp_all add: VarintSize32_length)
  show "\<exists>c'. cw_WriteVarint32 zo v c = Some c' \<and> cw_wrote zo vw (WriteVarint_slow (ucast v)) c c'"
    using direct_or_raw [OF assms le(1)]
    by (simp only: cw_WriteVarint32_def WriteVarint32FallbackToArrayInline_slow of_nat_numeral)
  show "\<exists>c'. cw_WriteVarint64 zo w c = Some c' \<and> cw_wrote zo vw (WriteVarint_slow w) c c'"
    using direct_or_raw [OF assms le(2)]
    by (simp only: cw_WriteVarint64_def WriteVarint64ToArrayInline_slow of_nat_numeral)
qed

lemma WriteVarint32SignExtended_ok:
  assumes "cw_ok zo vw c"
  shows "\<exists>c'. cw_WriteVarint32SignExtended zo v c = Some c' \<and>
    cw_wrote zo vw (WriteVarint32SignExtendedToArray v) c c'"
  using WriteVarint_ok(1) [OF assms, of v] WriteVarint_ok(2) [OF assms, of "scast v"]
  by (simp add: cw_WriteVarint32SignExtended_def WriteVarint32SignExtendedToArray_def
      WriteVarint32ToArray_slow WriteVarint64ToArrayInline_slow)

text \<open>The stream gets the bytes the array would.\<close>

lemma WriteInt32_ok:
  assumes "cw_ok zo vw c"
  shows "\<exists>c'. cw_WriteInt32 zo n v c = Some c' \<and> cw_wrote zo vw (WriteInt32ToArray n v) c c'"
  unfolding cw_WriteInt32_def WriteInt32ToArray_def
proof (rule wrote_bind)
  show "\<exists>c'. cw_WriteTag zo (MakeTag n WIRETYPE_VARINT) c = Some c' \<and>
      cw_wrote zo vw (WriteTagTypeToArray n WIRETYPE_VARINT) c c'"
    using WriteVarint_ok(1) [OF assms] by (simp add: cw_WriteTag_def WriteTagTypeToArray_def WriteTagToArray_slow)
qed (rule WriteVarint32SignExtended_ok)

lemma tag_ok:
  "cw_ok zo vw c \<Longrightarrow>
     \<exists>c'. cw_WriteVarint32 zo (MakeTag n ty) c = Some c' \<and> cw_wrote zo vw (WriteTagTypeToArray n ty) c c'"
  using WriteVarint_ok(1) by (simp add: WriteTagTypeToArray_def WriteTagToArray_slow)

theorem SerializeUnknownFields_ok:
  "cw_ok zo vw c \<Longrightarrow>
     \<exists>c'. cw_SerializeUnknownFields zo fs c = Some c' \<and> cw_wrote zo vw (SerializeUnknownFieldsToArray fs) c c'"
  "cw_ok zo vw d \<Longrightarrow>
     \<exists>d'. cw_SerializeUnknownField zo f d = Some d' \<and> cw_wrote zo vw (SerializeUnknownFieldToArray f) d d'"
proof (induction fs and f arbitrary: c and d
    rule: SerializeUnknownFieldsToArray_SerializeUnknownFieldToArray.induct)
  case 1
  then show ?case by (simp add: wrote_nothing)
next
  case (2 f fs)
  show ?case unfolding cw_SerializeUnknownFields.simps SerializeUnknownFieldsToArray.simps
    by (rule wrote_bind [OF "2.IH"(1) [OF "2.prems"] "2.IH"(2)])
next
  case (3 n v)
  show ?case unfolding cw_SerializeUnknownField.simps SerializeUnknownFieldToArray.simps
    by (rule wrote_bind [OF tag_ok [OF "3.prems"]])
      (use WriteVarint_ok(2) in \<open>simp add: WriteVarint64ToArrayInline_slow\<close>)
next
  case (4 n v)
  show ?case unfolding cw_SerializeUnknownField.simps SerializeUnknownFieldToArray.simps
    by (rule wrote_bind [OF tag_ok [OF "4.prems"] WriteLittleEndian_ok(1)])
next
  case (5 n v)
  show ?case unfolding cw_SerializeUnknownField.simps SerializeUnknownFieldToArray.simps
    by (rule wrote_bind [OF tag_ok [OF "5.prems"] WriteLittleEndian_ok(2)])
next
  case (6 n s)
  show ?case unfolding cw_SerializeUnknownField.simps SerializeUnknownFieldToArray.simps WriteBytesToArray_def
    by (rule wrote_bind [OF tag_ok [OF "6.prems"]], rule wrote_bind)
      (use WriteVarint_ok(1) WriteRawMaybeAliased_ok in \<open>simp_all add: WriteVarint32ToArray_slow\<close>)
next
  case (7 n g)
  show ?case unfolding cw_SerializeUnknownField.simps SerializeUnknownFieldToArray.simps
    by (rule wrote_bind [OF tag_ok [OF "7.prems"]], rule wrote_bind [OF "7.IH" tag_ok])
qed

text \<open>A new writer, and what it leaves.\<close>

lemma create_ok:
  assumes "zw_wf vw s"
  shows "\<exists>c. cw_create zo s = Some c \<and> cw_ok zo vw c \<and> cw_text vw c = zw_text vw s \<and>
    \<not> cw_error c \<and> \<not> cw_aliasing c"
proof -
  let ?c = "\<lparr> cw_output = s, cw_buffer = None, cw_size = 0, cw_total = 0, cw_error = False,
      cw_aliasing = False \<rparr>"
  from Refresh_ok [of ?c] assms obtain b c where
    "cw_Refresh zo ?c = Some (b, c)" "cw_ok zo vw c" "cw_text vw c = zw_text vw s" "\<not> cw_aliasing c"
    by auto
  then show ?thesis by (auto simp: cw_create_def cw_ok_def cw_text_def)
qed

lemma destroy_ok:
  assumes "cw_ok zo vw c"
  shows "\<exists>s'. cw_destroy zo c = Some s' \<and> zw_wf vw s' \<and> zw_text vw s' = cw_text vw c \<and>
    (zw_failed vw s' = zw_failed vw (cw_output c))"
proof (cases "0 < cw_size c")
  case True
  then have "zw_wf vw (cw_output c)" "\<not> zw_failed vw (cw_output c)"
    "nat (cw_size c) \<le> zw_last vw (cw_output c)" using assms by (auto simp: cw_ok_def)
  from backup [OF this(1,2) True this(3)] \<open>\<not> zw_failed vw (cw_output c)\<close> True show ?thesis
    by (auto simp: cw_destroy_def cw_text_def)
next
  case False
  then show ?thesis using assms by (auto simp: cw_destroy_def cw_text_def cw_ok_def)
qed

end

end
