(* ===== verification/GF_OutStreams.thy ===== *)
theory GF_OutStreams
  imports GF_OutStream
begin

text \<open>
  Output streams of \<open>src/include/google/protobuf/io/zero_copy_stream_impl_lite.cc\<close>: an array
  handed out in blocks and a growing string. Both keep the contract \<open>zero_copy_output\<close>.
\<close>

section \<open>ArrayOutputStream\<close>

record array_output =
  ao_data :: "byte list"
  ao_block_size :: int
  ao_position :: int
  ao_last :: int      \<comment> \<open>\<open>last_returned_size_\<close>\<close>

definition ArrayOutputStream :: "byte list \<Rightarrow> int \<Rightarrow> array_output" where
  "ArrayOutputStream data block_size =
     \<lparr> ao_data = data,
       ao_block_size = (if 0 < block_size then block_size else int (length data)),
       ao_position = 0, ao_last = 0 \<rparr>"

definition ao_Next :: "array_output \<Rightarrow> (int option \<times> array_output) option" where
  "ao_Next a =
     (if ao_position a < int (length (ao_data a))
      then let n = min (ao_block_size a) (int (length (ao_data a)) - ao_position a)
           in Some (Some n, a\<lparr> ao_last := n, ao_position := ao_position a + n \<rparr>)
      else Some (None, a\<lparr> ao_last := 0 \<rparr>))"

definition ao_BackUp :: "int \<Rightarrow> array_output \<Rightarrow> array_output option" where
  "ao_BackUp count a =
     (if 0 < ao_last a \<and> count \<le> ao_last a \<and> 0 \<le> count
      then Some (a\<lparr> ao_position := ao_position a - count, ao_last := 0 \<rparr>) else None)"

text \<open>\<open>*data\<close> of the last \<open>Next\<close> is \<open>ao_last\<close> bytes before the position.\<close>

definition ao_store :: "nat \<Rightarrow> byte list \<Rightarrow> array_output \<Rightarrow> array_output" where
  "ao_store p data a = a\<lparr> ao_data := overwrite (nat (ao_position a - ao_last a) + p) data (ao_data a) \<rparr>"

definition array_output_stream :: "array_output zc_output" where
  "array_output_stream =
     \<lparr> zo_Next = ao_Next, zo_store = ao_store, zo_BackUp = ao_BackUp, zo_ByteCount = ao_position,
       zo_WriteAliasedRaw = default_WriteAliasedRaw, zo_AllowsAliasing = False \<rparr>"

text \<open>An array of \<open>n\<close> bytes.\<close>

definition array_sink :: "nat \<Rightarrow> array_output zc_sink" where
  "array_sink n =
     \<lparr> zw_wf = (\<lambda>a. length (ao_data a) = n \<and> 0 \<le> ao_last a \<and> ao_last a \<le> ao_position a \<and>
           ao_position a \<le> int (length (ao_data a)) \<and> (ao_data a \<noteq> [] \<longrightarrow> 0 < ao_block_size a)),
       zw_text = (\<lambda>a. take (nat (ao_position a)) (ao_data a)),
       zw_last = (\<lambda>a. nat (ao_last a)),
       zw_failed = (\<lambda>a. ao_last a = 0 \<and> ao_position a = int (length (ao_data a))),
       zw_empties = (\<lambda>a. 0) \<rparr>"

section \<open>StringOutputStream\<close>

text \<open>A \<open>string\<close> has a capacity; when \<open>resize\<close> asks for more, the allocation is the library's
  choice, here \<open>grow\<close>. New bytes are zero. \<open>so_given\<close> is where \<open>*data\<close> points.\<close>

record string_output =
  so_target :: "byte list"
  so_capacity :: nat
  so_given :: nat

definition StringOutputStream :: "byte list \<Rightarrow> nat \<Rightarrow> string_output" where
  "StringOutputStream target capacity =
     \<lparr> so_target = target, so_capacity = capacity, so_given = length target \<rparr>"

definition so_resize :: "(nat \<Rightarrow> nat \<Rightarrow> nat) \<Rightarrow> nat \<Rightarrow> string_output \<Rightarrow> string_output" where
  "so_resize grow n s =
     s\<lparr> so_target := take n (so_target s) @ replicate (n - length (so_target s)) 0,
       so_capacity := (if n \<le> so_capacity s then so_capacity s else grow (so_capacity s) n) \<rparr>"

definition so_Next :: "(nat \<Rightarrow> nat \<Rightarrow> nat) \<Rightarrow> string_output \<Rightarrow> (int option \<times> string_output) option" where
  "so_Next grow s =
     (let old_size = length (so_target s)
      in if old_size < so_capacity s
         then Some (Some (int (so_capacity s) - int old_size),
                    (so_resize grow (so_capacity s) s)\<lparr> so_given := old_size \<rparr>)
         else if 1073741823 < old_size then Some (None, s\<lparr> so_given := old_size \<rparr>)
         else Some (Some (int (max (old_size * 2) 16) - int old_size),
                    (so_resize grow (max (old_size * 2) 16) s)\<lparr> so_given := old_size \<rparr>))"

definition so_BackUp :: "int \<Rightarrow> string_output \<Rightarrow> string_output option" where
  "so_BackUp count s =
     (if 0 \<le> count \<and> count \<le> int (length (so_target s))
      then Some (s\<lparr> so_target := take (length (so_target s) - nat count) (so_target s) \<rparr>) else None)"

definition so_store :: "nat \<Rightarrow> byte list \<Rightarrow> string_output \<Rightarrow> string_output" where
  "so_store p data s = s\<lparr> so_target := overwrite (so_given s + p) data (so_target s) \<rparr>"

definition string_output_stream :: "(nat \<Rightarrow> nat \<Rightarrow> nat) \<Rightarrow> string_output zc_output" where
  "string_output_stream grow =
     \<lparr> zo_Next = so_Next grow, zo_store = so_store, zo_BackUp = so_BackUp,
       zo_ByteCount = (\<lambda>s. int (length (so_target s))),
       zo_WriteAliasedRaw = default_WriteAliasedRaw, zo_AllowsAliasing = False \<rparr>"

definition string_sink :: "string_output zc_sink" where
  "string_sink =
     \<lparr> zw_wf = (\<lambda>s. length (so_target s) \<le> so_capacity s \<and> so_capacity s < 2147483648),
       zw_text = so_target,
       zw_last = (\<lambda>s. length (so_target s) - so_given s),
       zw_failed = (\<lambda>s. so_given s = length (so_target s) \<and> length (so_target s) = so_capacity s \<and>
           1073741823 < so_capacity s),
       zw_empties = (\<lambda>s. 0) \<rparr>"

text \<open>What an allocation gives: enough, and less than 2 GiB as long as it need not be more.\<close>

locale string_allocation =
  fixes grow :: "nat \<Rightarrow> nat \<Rightarrow> nat"
  assumes enough: "n \<le> grow cap n"
    and bounded: "cap \<le> 1073741823 \<Longrightarrow> n < 2147483648 \<Longrightarrow> grow cap n < 2147483648"

section \<open>They keep the contract\<close>

lemma overwrite_length: "p + length data \<le> length xs \<Longrightarrow> length (overwrite p data xs) = length xs"
  by (simp add: overwrite_def)

lemma take_overwrite:
  "p + length data \<le> n \<Longrightarrow> take n (overwrite p data xs) = overwrite p data (take n xs)"
  by (cases "n = p") (auto simp: overwrite_def min_def drop_take)

interpretation array_output: zero_copy_output array_output_stream "array_sink N" for N
proof
  fix a assume "zw_wf (array_sink N) a"
  then have wf: "0 \<le> ao_last a" "ao_last a \<le> ao_position a"
    "ao_position a \<le> int (length (ao_data a))" "ao_data a \<noteq> [] \<Longrightarrow> 0 < ao_block_size a"
    and N: "length (ao_data a) = N"
    by (auto simp: array_sink_def)
  show "\<exists>r. zo_Next array_output_stream a = Some r"
    by (simp add: array_output_stream_def ao_Next_def Let_def)
  show "zw_last (array_sink N) a \<le> length (zw_text (array_sink N) a)"
    using wf by (simp add: array_sink_def)
  { fix n a' assume n: "zo_Next array_output_stream a = Some (Some n, a')"
    then have lt: "ao_position a < int (length (ao_data a))"
      by (auto simp: array_output_stream_def ao_Next_def split: if_splits)
    then have a': "n = min (ao_block_size a) (int (length (ao_data a)) - ao_position a)"
      "a' = a\<lparr> ao_last := n, ao_position := ao_position a + n \<rparr>"
      using n by (auto simp: array_output_stream_def ao_Next_def Let_def)
    have "ao_data a \<noteq> []" using lt wf(1,2) by auto
    then have pos: "0 < n" "ao_position a + n \<le> int (length (ao_data a))"
      using lt wf(4) by (auto simp: a'(1))
    let ?junk = "take (nat n) (drop (nat (ao_position a)) (ao_data a))"
    have "length ?junk = nat n" using pos wf by simp
    moreover have "take (nat (ao_position a + n)) (ao_data a) = take (nat (ao_position a)) (ao_data a) @ ?junk"
      using pos wf by (simp add: nat_add_distrib take_add)
    ultimately show "zw_wf (array_sink N) a' \<and> \<not> zw_failed (array_sink N) a \<and> \<not> zw_failed (array_sink N) a' \<and> 0 \<le> n \<and>
        zw_last (array_sink N) a' = nat n \<and>
        (\<exists>junk. length junk = nat n \<and> zw_text (array_sink N) a' = zw_text (array_sink N) a @ junk) \<and>
        (n = 0 \<longrightarrow> zw_empties (array_sink N) a' < zw_empties (array_sink N) a)"
      using pos wf N lt a'(2) by (auto simp: array_sink_def) }
  { fix a' assume n: "zo_Next array_output_stream a = Some (None, a')"
    then have "\<not> ao_position a < int (length (ao_data a))" "a' = a\<lparr> ao_last := 0 \<rparr>"
      by (auto simp: array_output_stream_def ao_Next_def Let_def split: if_splits)
    with wf N show "zw_wf (array_sink N) a' \<and> zw_failed (array_sink N) a' \<and> zw_text (array_sink N) a' = zw_text (array_sink N) a"
      by (auto simp: array_sink_def) }
  { fix p and data :: "byte list"
    assume s: "p + length data \<le> zw_last (array_sink N) a" "data \<noteq> []"
    then have le: "int p + int (length data) \<le> ao_last a" using wf(1) by (simp add: array_sink_def)
    let ?p = "nat (ao_position a - ao_last a) + p"
    have len: "?p + length data \<le> nat (ao_position a)" using le wf(1,2) by linarith
    then have len2: "?p + length data \<le> length (ao_data a)" using wf(3) by linarith
    have last: "0 < ao_last a" using le s(2) by (cases data) auto
    then have "ao_data a \<noteq> []" using wf(2,3) by auto
    have at: "length (take (nat (ao_position a)) (ao_data a)) - nat (ao_last a) + p = ?p"
      using wf by (simp add: nat_diff_distrib)
    show "zw_wf (array_sink N) (zo_store array_output_stream p data a) \<and>
        \<not> zw_failed (array_sink N) (zo_store array_output_stream p data a) \<and>
        zw_last (array_sink N) (zo_store array_output_stream p data a) = zw_last (array_sink N) a \<and>
        zw_text (array_sink N) (zo_store array_output_stream p data a) =
          overwrite (length (zw_text (array_sink N) a) - zw_last (array_sink N) a + p) data (zw_text (array_sink N) a) \<and>
        zw_empties (array_sink N) (zo_store array_output_stream p data a) = zw_empties (array_sink N) a"
      using wf N overwrite_length [OF len2] take_overwrite [OF len] at last \<open>ao_data a \<noteq> []\<close>
      by (auto simp: array_output_stream_def array_sink_def ao_store_def) }
  { fix n :: int assume n: "0 < n" "nat n \<le> zw_last (array_sink N) a"
    then have "n \<le> ao_last a" by (simp add: array_sink_def)
    moreover have "length (take (nat (ao_position a)) (ao_data a)) = nat (ao_position a)" using wf by simp
    ultimately show "\<exists>a'. zo_BackUp array_output_stream n a = Some a' \<and> zw_wf (array_sink N) a' \<and>
        \<not> zw_failed (array_sink N) a' \<and>
        zw_text (array_sink N) a' = take (length (zw_text (array_sink N) a) - nat n) (zw_text (array_sink N) a)"
      using n(1) wf N
      by (simp add: array_output_stream_def array_sink_def ao_BackUp_def nat_diff_distrib take_take) }
qed (simp add: array_output_stream_def)

context string_allocation begin

lemma string_output: "zero_copy_output (string_output_stream grow) string_sink"
proof
  let ?zo = "string_output_stream grow"
  fix s assume "zw_wf string_sink s"
  then have wf: "length (so_target s) \<le> so_capacity s" "so_capacity s < 2147483648"
    by (auto simp: string_sink_def)
  have ops: "zo_Next ?zo = so_Next grow" "zo_store ?zo = so_store" "zo_BackUp ?zo = so_BackUp"
    by (simp_all add: string_output_stream_def)
  show "\<exists>r. zo_Next ?zo s = Some r" by (simp add: ops so_Next_def Let_def)
  show "zw_last string_sink s \<le> length (zw_text string_sink s)" by (simp add: string_sink_def)
  let ?m = "max (length (so_target s) * 2) 16"
  { fix n s' assume n: "zo_Next ?zo s = Some (Some n, s')"
    consider "length (so_target s) < so_capacity s" | "length (so_target s) = so_capacity s"
      using wf(1) by linarith
    then have "\<exists>k. length (so_target s) < k \<and> n = int k - int (length (so_target s)) \<and>
        s' = (so_resize grow k s)\<lparr> so_given := length (so_target s) \<rparr> \<and>
        so_capacity s' < 2147483648 \<and> k \<le> so_capacity s' \<and>
        (length (so_target s) < so_capacity s \<or> so_capacity s \<le> 1073741823)"
    proof cases
      case 1
      then show ?thesis using n wf
        by (intro exI [of _ "so_capacity s"]) (auto simp: ops so_Next_def so_resize_def Let_def)
    next
      case 2
      then have small: "so_capacity s \<le> 1073741823" and
        e: "n = int ?m - int (length (so_target s))" "s' = (so_resize grow ?m s)\<lparr> so_given := length (so_target s) \<rparr>"
        using n by (auto simp: ops so_Next_def Let_def split: if_splits)
      obtain k where k: "k = ?m" by blast
      have m: "so_capacity s < k" "k < 2147483648" using 2 small by (auto simp: k)
      then have "so_capacity s' = grow (so_capacity s) k"
        unfolding e(2) so_resize_def k [symmetric] by simp
      then show ?thesis using e [folded k] m 2 small enough bounded [OF small m(2)]
        by (intro exI [of _ k]) simp
    qed
    then obtain k where k: "length (so_target s) < k" "n = int k - int (length (so_target s))"
      "s' = (so_resize grow k s)\<lparr> so_given := length (so_target s) \<rparr>"
      "so_capacity s' < 2147483648" "k \<le> so_capacity s'"
      "length (so_target s) < so_capacity s \<or> so_capacity s \<le> 1073741823" by blast
    have t: "so_target s' = so_target s @ replicate (k - length (so_target s)) 0" "so_given s' = length (so_target s)"
      using k(1,3) by (simp_all add: so_resize_def)
    show "zw_wf string_sink s' \<and> \<not> zw_failed string_sink s \<and> \<not> zw_failed string_sink s' \<and> 0 \<le> n \<and>
        zw_last string_sink s' = nat n \<and>
        (\<exists>junk. length junk = nat n \<and> zw_text string_sink s' = zw_text string_sink s @ junk) \<and>
        (n = 0 \<longrightarrow> zw_empties string_sink s' < zw_empties string_sink s)"
      using k(1,2,4,5,6) t by (auto simp: string_sink_def) }
  { fix s' assume n: "zo_Next ?zo s = Some (None, s')"
    with wf show "zw_wf string_sink s' \<and> zw_failed string_sink s' \<and> zw_text string_sink s' = zw_text string_sink s"
      by (auto simp: ops so_Next_def string_sink_def Let_def split: if_splits) }
  { fix p and data :: "byte list"
    assume s: "p + length data \<le> zw_last string_sink s" "data \<noteq> []"
    then have "p + length data \<le> length (so_target s) - so_given s" "0 < length data"
      by (simp_all add: string_sink_def)
    then have len: "so_given s + p + length data \<le> length (so_target s)" "0 < length data" by linarith+
    then have at: "length (so_target s) - (length (so_target s) - so_given s) + p = so_given s + p" by simp
    show "zw_wf string_sink (zo_store ?zo p data s) \<and> \<not> zw_failed string_sink (zo_store ?zo p data s) \<and>
        zw_last string_sink (zo_store ?zo p data s) = zw_last string_sink s \<and>
        zw_text string_sink (zo_store ?zo p data s) =
          overwrite (length (zw_text string_sink s) - zw_last string_sink s + p) data (zw_text string_sink s) \<and>
        zw_empties string_sink (zo_store ?zo p data s) = zw_empties string_sink s"
      using wf overwrite_length [OF len(1)] at len
      by (auto simp: ops string_sink_def so_store_def) }
  { fix n :: int assume n: "0 < n" "nat n \<le> zw_last string_sink s"
    with wf show "\<exists>s'. zo_BackUp ?zo n s = Some s' \<and> zw_wf string_sink s' \<and> \<not> zw_failed string_sink s' \<and>
        zw_text string_sink s' = take (length (zw_text string_sink s) - nat n) (zw_text string_sink s)"
      by (auto simp: ops string_sink_def so_BackUp_def) }
qed (simp add: string_output_stream_def)

end

text \<open>The usual library doubles.\<close>

definition doubling :: "nat \<Rightarrow> nat \<Rightarrow> nat" where
  "doubling cap n = max n (2 * cap)"

interpretation doubling: string_allocation doubling
  by unfold_locales (auto simp: doubling_def)

interpretation string_output: zero_copy_output "string_output_stream doubling" string_sink
  by (rule doubling.string_output)

end
