(* ===== verification/GF_CopyOut.thy ===== *)
theory GF_CopyOut
  imports GF_OutStreams
begin

text \<open>
  Output streams over a sink that is written by copying
  (\<open>src/include/google/protobuf/io/zero_copy_stream_impl_lite.cc\<close>, \<open>zero_copy_stream_impl.cc\<close>): the
  buffer of \<open>CopyingOutputStreamAdaptor\<close> and the file descriptor behind \<open>FileOutputStream\<close>, whose
  system call is a parameter. Over a sink that takes everything the adaptor keeps the contract
  \<open>zero_copy_output\<close>; over one that fails it does not, since \<open>Next\<close> succeeds again after an error.
\<close>

section \<open>CopyingOutputStreamAdaptor\<close>

text \<open>The \<open>Write\<close> of a \<open>CopyingOutputStream\<close> says whether it took all of the bytes.\<close>

type_synonym 'w copying_output = "byte list \<Rightarrow> 'w \<Rightarrow> (bool \<times> 'w) option"

record 'w out_adaptor =
  oa_sink :: 'w
  oa_failed :: bool
  oa_position :: int
  oa_memory :: "byte list option"    \<comment> \<open>\<open>buffer_\<close>\<close>
  oa_size :: int                     \<comment> \<open>\<open>buffer_size_\<close>\<close>
  oa_used :: int                     \<comment> \<open>\<open>buffer_used_\<close>\<close>
  oa_given :: nat                    \<comment> \<open>where \<open>*data\<close> points\<close>

definition CopyingOutputStreamAdaptor :: "'w \<Rightarrow> int \<Rightarrow> 'w out_adaptor" where
  "CopyingOutputStreamAdaptor sink block_size =
     \<lparr> oa_sink = sink, oa_failed = False, oa_position = 0, oa_memory = None,
       oa_size = (if 0 < block_size then block_size else 8192), oa_used = 0, oa_given = 0 \<rparr>"

definition oa_buffered :: "'w out_adaptor \<Rightarrow> byte list" where
  "oa_buffered a = (case oa_memory a of None \<Rightarrow> [] | Some m \<Rightarrow> take (nat (oa_used a)) m)"

definition oa_FreeBuffer :: "'w out_adaptor \<Rightarrow> 'w out_adaptor" where
  "oa_FreeBuffer a = a\<lparr> oa_used := 0, oa_memory := None \<rparr>"

definition oa_WriteBuffer :: "'w copying_output \<Rightarrow> 'w out_adaptor \<Rightarrow> (bool \<times> 'w out_adaptor) option" where
  "oa_WriteBuffer wr a =
     (if oa_failed a then Some (False, a)
      else if oa_used a = 0 then Some (True, a)
      else do {
        (ok, sink') \<leftarrow> wr (oa_buffered a) (oa_sink a);
        Some (if ok
              then (True, a\<lparr> oa_sink := sink', oa_position := oa_position a + oa_used a, oa_used := 0 \<rparr>)
              else (False, oa_FreeBuffer (a\<lparr> oa_sink := sink', oa_failed := True \<rparr>)))
      })"

definition oa_Flush :: "'w copying_output \<Rightarrow> 'w out_adaptor \<Rightarrow> (bool \<times> 'w out_adaptor) option" where
  "oa_Flush wr a = oa_WriteBuffer wr a"

definition oa_AllocateBufferIfNeeded :: "'w out_adaptor \<Rightarrow> 'w out_adaptor" where
  "oa_AllocateBufferIfNeeded a =
     (case oa_memory a of
        None \<Rightarrow> a\<lparr> oa_memory := Some (replicate (nat (oa_size a)) 0) \<rparr>
      | Some m \<Rightarrow> a)"

definition oa_Next :: "'w copying_output \<Rightarrow> 'w out_adaptor \<Rightarrow> (int option \<times> 'w out_adaptor) option" where
  "oa_Next wr a = do {
     (ok, a1) \<leftarrow> (if oa_used a = oa_size a then oa_WriteBuffer wr a else Some (True, a));
     if \<not> ok then Some (None, a1)
     else let a2 = oa_AllocateBufferIfNeeded a1
          in Some (Some (oa_size a2 - oa_used a2),
                   a2\<lparr> oa_given := nat (oa_used a2), oa_used := oa_size a2 \<rparr>)
   }"

definition oa_BackUp :: "int \<Rightarrow> 'w out_adaptor \<Rightarrow> 'w out_adaptor option" where
  "oa_BackUp count a =
     (if 0 \<le> count \<and> oa_used a = oa_size a \<and> count \<le> oa_used a
      then Some (a\<lparr> oa_used := oa_used a - count \<rparr>) else None)"

definition oa_store :: "nat \<Rightarrow> byte list \<Rightarrow> 'w out_adaptor \<Rightarrow> 'w out_adaptor" where
  "oa_store p data a = a\<lparr> oa_memory := map_option (overwrite (oa_given a + p) data) (oa_memory a) \<rparr>"

definition oa_ByteCount :: "'w out_adaptor \<Rightarrow> int" where
  "oa_ByteCount a = oa_position a + oa_used a"

definition oa_destroy :: "'w copying_output \<Rightarrow> 'w out_adaptor \<Rightarrow> 'w option" where
  "oa_destroy wr a = do { (ok, a') \<leftarrow> oa_WriteBuffer wr a; Some (oa_sink a') }"

definition adaptor_output :: "'w copying_output \<Rightarrow> 'w out_adaptor zc_output" where
  "adaptor_output wr =
     \<lparr> zo_Next = oa_Next wr, zo_store = oa_store, zo_BackUp = oa_BackUp, zo_ByteCount = oa_ByteCount,
       zo_WriteAliasedRaw = default_WriteAliasedRaw, zo_AllowsAliasing = False \<rparr>"

definition adaptor_sink :: "('w \<Rightarrow> bool) \<Rightarrow> ('w \<Rightarrow> byte list) \<Rightarrow> 'w out_adaptor zc_sink" where
  "adaptor_sink good taken =
     \<lparr> zw_wf = (\<lambda>a. good (oa_sink a) \<and> \<not> oa_failed a \<and> 0 < oa_size a \<and> int (oa_given a) \<le> oa_size a \<and>
         0 \<le> oa_used a \<and> oa_used a \<le> oa_size a \<and>
         (case oa_memory a of None \<Rightarrow> oa_used a = 0 | Some m \<Rightarrow> int (length m) = oa_size a)),
       zw_text = (\<lambda>a. taken (oa_sink a) @ oa_buffered a),
       zw_last = (\<lambda>a. if oa_used a = oa_size a then nat (oa_size a) - oa_given a else 0),
       zw_failed = (\<lambda>a. False),
       zw_empties = (\<lambda>a. 0) \<rparr>"

section \<open>CopyingFileOutputStream\<close>

text \<open>The system call is a parameter: how many bytes it took, or \<open>errno\<close>.\<close>

datatype write_result = Wr_bytes int | Wr_error nat

record 'f write_calls =
  sys_write :: "byte list \<Rightarrow> 'f \<Rightarrow> write_result \<times> 'f"
  sys_close :: "'f \<Rightarrow> nat option \<times> 'f"

record 'f file_output =
  fo_file :: 'f
  fo_closed :: bool
  fo_errno :: nat

text \<open>\<open>do ... while (bytes < 0 && errno == EINTR)\<close>; \<open>EINTR\<close> is 4.\<close>

partial_function (option) fo_write_retry :: "'f write_calls \<Rightarrow> byte list \<Rightarrow> 'f \<Rightarrow> (write_result \<times> 'f) option" where
  "fo_write_retry sys data f =
     (case sys_write sys data f of (r, f') \<Rightarrow>
        if r = Wr_error 4 then fo_write_retry sys data f' else Some (r, f'))"

partial_function (option) fo_Write_loop ::
    "'f write_calls \<Rightarrow> byte list \<Rightarrow> int \<Rightarrow> 'f file_output \<Rightarrow> (bool \<times> 'f file_output) option" where
  "fo_Write_loop sys data total_written o' =
     (if total_written < int (length data)
      then do {
        (r, f') \<leftarrow> fo_write_retry sys (drop (nat total_written) data) (fo_file o');
        case r of
          Wr_error e \<Rightarrow> Some (False, o'\<lparr> fo_file := f', fo_errno := e \<rparr>)
        | Wr_bytes n \<Rightarrow>
            if n \<le> 0 then Some (False, o'\<lparr> fo_file := f' \<rparr>)
            else fo_Write_loop sys data (total_written + n) (o'\<lparr> fo_file := f' \<rparr>)
      }
      else Some (True, o'))"

definition fo_Write :: "'f write_calls \<Rightarrow> 'f file_output copying_output" where
  "fo_Write sys data o' = (if fo_closed o' then None else fo_Write_loop sys data 0 o')"

text \<open>\<open>close_no_eintr\<close>, and \<open>Close\<close>.\<close>

partial_function (option) close_no_eintr :: "'f write_calls \<Rightarrow> 'f \<Rightarrow> (nat option \<times> 'f) option" where
  "close_no_eintr sys f =
     (case sys_close sys f of (r, f') \<Rightarrow>
        if r = Some 4 then close_no_eintr sys f' else Some (r, f'))"

definition fo_Close :: "'f write_calls \<Rightarrow> 'f file_output \<Rightarrow> (bool \<times> 'f file_output) option" where
  "fo_Close sys o' =
     (if fo_closed o' then None
      else do {
        (r, f') \<leftarrow> close_no_eintr sys (fo_file o');
        Some (case r of
            None \<Rightarrow> (True, o'\<lparr> fo_closed := True, fo_file := f' \<rparr>)
          | Some e \<Rightarrow> (False, o'\<lparr> fo_closed := True, fo_file := f', fo_errno := e \<rparr>))
      })"

section \<open>FileOutputStream\<close>

definition FileOutputStream :: "'f \<Rightarrow> int \<Rightarrow> 'f file_output out_adaptor" where
  "FileOutputStream descriptor block_size =
     CopyingOutputStreamAdaptor \<lparr> fo_file = descriptor, fo_closed = False, fo_errno = 0 \<rparr> block_size"

definition FileOutputStream_Flush ::
    "'f write_calls \<Rightarrow> 'f file_output out_adaptor \<Rightarrow> (bool \<times> 'f file_output out_adaptor) option" where
  "FileOutputStream_Flush sys a = oa_Flush (fo_Write sys) a"

definition FileOutputStream_Close ::
    "'f write_calls \<Rightarrow> 'f file_output out_adaptor \<Rightarrow> (bool \<times> 'f file_output out_adaptor) option" where
  "FileOutputStream_Close sys a = do {
     (flush_succeeded, a1) \<leftarrow> oa_Flush (fo_Write sys) a;
     (closed, o') \<leftarrow> fo_Close sys (oa_sink a1);
     Some (closed \<and> flush_succeeded, a1\<lparr> oa_sink := o' \<rparr>)
   }"

text \<open>The destructor flushes, then the adaptor's own destructor writes what is still buffered.\<close>

definition FileOutputStream_destroy :: "'f write_calls \<Rightarrow> 'f file_output out_adaptor \<Rightarrow> 'f option" where
  "FileOutputStream_destroy sys a = do {
     (ok, a1) \<leftarrow> oa_Flush (fo_Write sys) a;
     o' \<leftarrow> oa_destroy (fo_Write sys) a1;
     Some (fo_file o')
   }"

section \<open>A sink that takes everything\<close>

lemma overwrite_append: "overwrite (length xs + k) data (xs @ ys) = xs @ overwrite k data ys"
  by (simp add: overwrite_def add.assoc)

locale copying_sink =
  fixes wr :: "'w copying_output" and good :: "'w \<Rightarrow> bool" and taken :: "'w \<Rightarrow> byte list"
  assumes takes_all: "good w \<Longrightarrow> \<exists>w'. wr data w = Some (True, w') \<and> good w' \<and> taken w' = taken w @ data"
begin

lemma WriteBuffer_ok:
  assumes "zw_wf (adaptor_sink good taken) a"
  shows "\<exists>a'. oa_WriteBuffer wr a = Some (True, a') \<and> zw_wf (adaptor_sink good taken) a' \<and> oa_used a' = 0 \<and>
    taken (oa_sink a') = zw_text (adaptor_sink good taken) a \<and> oa_size a' = oa_size a"
proof (cases "oa_used a = 0")
  case True
  then show ?thesis using assms
    by (auto simp: oa_WriteBuffer_def adaptor_sink_def oa_buffered_def split: option.splits)
next
  case False
  from takes_all [of "oa_sink a" "oa_buffered a"] assms obtain w where
    "wr (oa_buffered a) (oa_sink a) = Some (True, w)" "good w" "taken w = taken (oa_sink a) @ oa_buffered a"
    by (auto simp: adaptor_sink_def)
  then show ?thesis using assms False
    by (auto simp: oa_WriteBuffer_def adaptor_sink_def split: option.splits)
qed

lemma adaptor_Next:
  assumes "zw_wf (adaptor_sink good taken) a"
  shows "\<exists>a1 m. oa_Next wr a = Some (Some (oa_size a1 - oa_used a1),
      a1\<lparr> oa_memory := Some m, oa_given := nat (oa_used a1), oa_used := oa_size a1 \<rparr>) \<and>
    zw_wf (adaptor_sink good taken) a1 \<and> zw_text (adaptor_sink good taken) a1 = zw_text (adaptor_sink good taken) a \<and>
    oa_used a1 < oa_size a1 \<and> int (length m) = oa_size a1 \<and> take (nat (oa_used a1)) m = oa_buffered a1"
proof -
  have "\<exists>a1. (if oa_used a = oa_size a then oa_WriteBuffer wr a else Some (True, a)) = Some (True, a1) \<and>
      zw_wf (adaptor_sink good taken) a1 \<and>
      zw_text (adaptor_sink good taken) a1 = zw_text (adaptor_sink good taken) a \<and> oa_used a1 < oa_size a1"
  proof (cases "oa_used a = oa_size a")
    case True
    from WriteBuffer_ok [OF assms] obtain a1 where a1: "oa_WriteBuffer wr a = Some (True, a1)"
      "zw_wf (adaptor_sink good taken) a1" "oa_used a1 = 0"
      "taken (oa_sink a1) = zw_text (adaptor_sink good taken) a" "oa_size a1 = oa_size a" by blast
    then have "zw_text (adaptor_sink good taken) a1 = zw_text (adaptor_sink good taken) a"
      by (simp add: adaptor_sink_def oa_buffered_def split: option.split)
    moreover have "oa_used a1 < oa_size a1" using a1(2,3) by (simp add: adaptor_sink_def)
    ultimately show ?thesis using a1 True by simp
  next
    case False
    then show ?thesis using assms by (simp add: adaptor_sink_def)
  qed
  then obtain a1 where a1: "(if oa_used a = oa_size a then oa_WriteBuffer wr a else Some (True, a)) = Some (True, a1)"
      "zw_wf (adaptor_sink good taken) a1"
      "zw_text (adaptor_sink good taken) a1 = zw_text (adaptor_sink good taken) a" "oa_used a1 < oa_size a1"
    by blast
  show ?thesis
  proof (cases "oa_memory a1")
    case None
    then have "oa_used a1 = 0" "0 < oa_size a1" using a1(2) by (auto simp: adaptor_sink_def)
    then show ?thesis using a1 None
      by (intro exI [of _ a1] exI [of _ "replicate (nat (oa_size a1)) 0"])
        (simp add: oa_Next_def oa_AllocateBufferIfNeeded_def oa_buffered_def)
  next
    case (Some m)
    then have "a1\<lparr> oa_memory := Some m \<rparr> = a1" by simp
    then show ?thesis using a1 Some
      by (intro exI [of _ a1] exI [of _ m])
        (simp add: oa_Next_def oa_AllocateBufferIfNeeded_def oa_buffered_def adaptor_sink_def)
  qed
qed

theorem adaptor: "zero_copy_output (adaptor_output wr) (adaptor_sink good taken)"
proof
  let ?zo = "adaptor_output wr" and ?vw = "adaptor_sink good taken"
  fix a assume v: "zw_wf ?vw a"
  then have wf: "good (oa_sink a)" "\<not> oa_failed a" "0 < oa_size a" "int (oa_given a) \<le> oa_size a"
    "0 \<le> oa_used a" "oa_used a \<le> oa_size a"
    "case oa_memory a of None \<Rightarrow> oa_used a = 0 | Some m \<Rightarrow> int (length m) = oa_size a"
    by (auto simp: adaptor_sink_def)
  have ops: "zo_Next ?zo = oa_Next wr" "zo_store ?zo = oa_store" "zo_BackUp ?zo = oa_BackUp"
    by (simp_all add: adaptor_output_def)
  show "\<exists>r. zo_Next ?zo a = Some r" using adaptor_Next [OF v] unfolding ops by blast
  have full: "\<exists>m. oa_memory a = Some m \<and> int (length m) = oa_size a \<and> oa_buffered a = m"
    if "oa_used a = oa_size a"
    using wf(3,7) that by (cases "oa_memory a") (auto simp: oa_buffered_def)
  show "zw_last ?vw a \<le> length (zw_text ?vw a)"
    using full by (auto simp: adaptor_sink_def)
  { fix n a' assume n: "zo_Next ?zo a = Some (Some n, a')"
    from adaptor_Next [OF v] n obtain a1 m where a1:
      "n = oa_size a1 - oa_used a1"
      "a' = a1\<lparr> oa_memory := Some m, oa_given := nat (oa_used a1), oa_used := oa_size a1 \<rparr>"
      "zw_wf ?vw a1" "zw_text ?vw a1 = zw_text ?vw a" "oa_used a1 < oa_size a1"
      "int (length m) = oa_size a1" "take (nat (oa_used a1)) m = oa_buffered a1" unfolding ops by auto
    have u: "0 \<le> oa_used a1" using a1(3) by (simp add: adaptor_sink_def)
    have "zw_text ?vw a' = zw_text ?vw a1 @ drop (nat (oa_used a1)) m"
      using a1(2,6,7) append_take_drop_id [of "nat (oa_used a1)" m]
      by (simp add: adaptor_sink_def oa_buffered_def)
    moreover have "length (drop (nat (oa_used a1)) m) = nat n" using a1(1,5,6) u by simp
    ultimately have "\<exists>junk. length junk = nat n \<and> zw_text ?vw a' = zw_text ?vw a @ junk"
      unfolding a1(4) by blast
    moreover have "zw_wf ?vw a' \<and> zw_last ?vw a' = nat n \<and> 0 < n"
      using a1 u by (auto simp: adaptor_sink_def)
    moreover have "\<not> zw_failed ?vw a" "\<not> zw_failed ?vw a'" by (simp_all add: adaptor_sink_def)
    ultimately show "zw_wf ?vw a' \<and> \<not> zw_failed ?vw a \<and> \<not> zw_failed ?vw a' \<and> 0 \<le> n \<and>
        zw_last ?vw a' = nat n \<and> (\<exists>junk. length junk = nat n \<and> zw_text ?vw a' = zw_text ?vw a @ junk) \<and>
        (n = 0 \<longrightarrow> zw_empties ?vw a' < zw_empties ?vw a)" by simp }
  { fix a' assume "zo_Next ?zo a = Some (None, a')"
    with adaptor_Next [OF v] show "zw_wf ?vw a' \<and> zw_failed ?vw a' \<and> zw_text ?vw a' = zw_text ?vw a"
      unfolding ops by auto }
  { fix p and data :: "byte list" assume s: "p + length data \<le> zw_last ?vw a" "data \<noteq> []"
    then have u: "oa_used a = oa_size a" by (auto simp: adaptor_sink_def split: if_splits)
    from full [OF u] obtain m where m: "oa_memory a = Some m" "int (length m) = oa_size a" "oa_buffered a = m"
      by blast
    have le: "oa_given a + p + length data \<le> length m"
      using s u wf(4) m(2) by (simp add: adaptor_sink_def)
    have at: "length (taken (oa_sink a) @ m) - (nat (oa_size a) - oa_given a) + p =
        length (taken (oa_sink a)) + (oa_given a + p)" using wf(4) m(2) by simp
    show "zw_wf ?vw (zo_store ?zo p data a) \<and> \<not> zw_failed ?vw (zo_store ?zo p data a) \<and>
        zw_last ?vw (zo_store ?zo p data a) = zw_last ?vw a \<and>
        zw_text ?vw (zo_store ?zo p data a) =
          overwrite (length (zw_text ?vw a) - zw_last ?vw a + p) data (zw_text ?vw a) \<and>
        zw_empties ?vw (zo_store ?zo p data a) = zw_empties ?vw a"
      using wf m u overwrite_length [OF le] overwrite_append [of "taken (oa_sink a)" "oa_given a + p" data m]
      unfolding at [symmetric] by (simp add: ops oa_store_def adaptor_sink_def oa_buffered_def add.assoc) }
  { fix n :: int assume n: "0 < n" "nat n \<le> zw_last ?vw a"
    then have u: "oa_used a = oa_size a" by (auto simp: adaptor_sink_def split: if_splits)
    from full [OF u] obtain m where m: "oa_memory a = Some m" "int (length m) = oa_size a" "oa_buffered a = m"
      by blast
    have le: "n \<le> oa_size a" using n u by (simp add: adaptor_sink_def)
    then have "nat (oa_size a - n) = length m - nat n" using m(2) n(1) by linarith
    then show "\<exists>a'. zo_BackUp ?zo n a = Some a' \<and> zw_wf ?vw a' \<and> \<not> zw_failed ?vw a' \<and>
        zw_text ?vw a' = take (length (zw_text ?vw a) - nat n) (zw_text ?vw a)"
      using n(1) u le wf m by (simp add: ops oa_BackUp_def adaptor_sink_def oa_buffered_def) }
qed (simp add: adaptor_output_def)

end

section \<open>After an error\<close>

text \<open>Once a write has failed the buffer is dropped and nothing is ever written again, but \<open>Next\<close>
  hands out a buffer as if nothing had happened.\<close>

lemma WriteBuffer_failed: "oa_failed a \<Longrightarrow> oa_WriteBuffer wr a = Some (False, a)"
  by (simp add: oa_WriteBuffer_def)

lemma failing_write:
  assumes "wr (oa_buffered a) (oa_sink a) = Some (False, w)" and "\<not> oa_failed a" and "oa_used a \<noteq> 0"
  shows "oa_WriteBuffer wr a =
    Some (False, a\<lparr> oa_sink := w, oa_failed := True, oa_used := 0, oa_memory := None \<rparr>)"
  using assms by (simp add: oa_WriteBuffer_def oa_FreeBuffer_def)

lemma Next_after_error:
  assumes "oa_failed a" and "oa_used a = 0" and "0 < oa_size a"
  shows "\<exists>a'. oa_Next wr a = Some (Some (oa_size a), a') \<and> oa_failed a' \<and> oa_sink a' = oa_sink a"
  using assms by (cases "oa_memory a") (simp_all add: oa_Next_def oa_AllocateBufferIfNeeded_def)

lemma destroy_after_error:
  assumes "oa_failed a"
  shows "oa_destroy wr a = Some (oa_sink a)"
  using assms by (simp add: oa_destroy_def oa_WriteBuffer_def)

section \<open>A descriptor that takes everything\<close>

text \<open>What \<open>write\<close> does on a descriptor without errors: it takes a part of the bytes, one at least,
  or is interrupted a number of times.\<close>

locale writable_file =
  fixes sys :: "'f write_calls" and ok :: "'f \<Rightarrow> bool" and taken :: "'f \<Rightarrow> byte list"
    and interrupts :: "'f \<Rightarrow> nat"
  assumes sys_takes: "ok f \<Longrightarrow> data \<noteq> [] \<Longrightarrow> sys_write sys data f = (Wr_bytes n, f') \<Longrightarrow>
      ok f' \<and> 0 < n \<and> nat n \<le> length data \<and> taken f' = taken f @ take (nat n) data"
    and sys_error: "ok f \<Longrightarrow> data \<noteq> [] \<Longrightarrow> sys_write sys data f = (Wr_error e, f') \<Longrightarrow>
      e = 4 \<and> ok f' \<and> taken f' = taken f \<and> interrupts f' < interrupts f"
begin

lemma retry:
  assumes "ok f" and "data \<noteq> []"
  shows "\<exists>n f'. fo_write_retry sys data f = Some (Wr_bytes n, f') \<and> ok f' \<and> 0 < n \<and>
    nat n \<le> length data \<and> taken f' = taken f @ take (nat n) data"
  using assms(1)
proof (induction "interrupts f" arbitrary: f rule: less_induct)
  case less
  obtain r f' where s: "sys_write sys data f = (r, f')" by fastforce
  show ?case
  proof (cases r)
    case (Wr_bytes n)
    with sys_takes [OF less.prems assms(2)] s show ?thesis
      by (subst fo_write_retry.simps) simp
  next
    case (Wr_error e)
    from sys_error [OF less.prems assms(2) s [unfolded Wr_error]] have
      i: "e = 4" "ok f'" "taken f' = taken f" "interrupts f' < interrupts f" by auto
    have "fo_write_retry sys data f = fo_write_retry sys data f'"
      using s Wr_error i(1) by (subst fo_write_retry.simps) simp
    then show ?thesis using less.hyps [OF i(4,2)] unfolding i(3) by simp
  qed
qed

lemma Write_loop:
  assumes "ok (fo_file o')" and "\<not> fo_closed o'" and "k \<le> length data"
  shows "\<exists>o2. fo_Write_loop sys data (int k) o' = Some (True, o2) \<and> ok (fo_file o2) \<and> \<not> fo_closed o2 \<and>
    taken (fo_file o2) = taken (fo_file o') @ drop k data"
  using assms
proof (induction "length data - k" arbitrary: k o' rule: less_induct)
  case less
  show ?case
  proof (cases "k < length data")
    case False
    then show ?thesis using less.prems by (subst fo_Write_loop.simps) simp
  next
    case True
    then have "drop k data \<noteq> []" by simp
    from retry [OF less.prems(1) this] obtain n f' where
      r: "fo_write_retry sys (drop k data) (fo_file o') = Some (Wr_bytes n, f')" "ok f'" "0 < n"
        "nat n \<le> length (drop k data)" "taken f' = taken (fo_file o') @ take (nat n) (drop k data)" by blast
    have le: "k + nat n \<le> length data" "length data - (k + nat n) < length data - k"
      using r(3,4) True by simp_all
    have unf: "fo_Write_loop sys data (int k) o' = fo_Write_loop sys data (int (k + nat n)) (o'\<lparr> fo_file := f' \<rparr>)"
      using True r(1,3) by (subst fo_Write_loop.simps) simp
    have split: "drop k data = take (nat n) (drop k data) @ drop (k + nat n) data"
      by (metis append_take_drop_id drop_drop add.commute)
    have "\<exists>o2. fo_Write_loop sys data (int (k + nat n)) (o'\<lparr> fo_file := f' \<rparr>) = Some (True, o2) \<and>
        ok (fo_file o2) \<and> \<not> fo_closed o2 \<and>
        taken (fo_file o2) = taken (fo_file (o'\<lparr> fo_file := f' \<rparr>)) @ drop (k + nat n) data"
      by (rule less.hyps [OF le(2)]) (use r(2) less.prems(2) le(1) in simp_all)
    then show ?thesis unfolding unf using r(5) split by auto
  qed
qed

end

sublocale writable_file \<subseteq> descriptor: copying_sink "fo_Write sys"
  "\<lambda>o'. ok (fo_file o') \<and> \<not> fo_closed o'" "\<lambda>o'. taken (fo_file o')"
proof
  fix o' :: "'f file_output" and data assume "ok (fo_file o') \<and> \<not> fo_closed o'"
  with Write_loop [of o' 0 data] show "\<exists>w'. fo_Write sys data o' = Some (True, w') \<and>
      (ok (fo_file w') \<and> \<not> fo_closed w') \<and> taken (fo_file w') = taken (fo_file o') @ data"
    by (simp add: fo_Write_def)
qed

text \<open>A pipe with a reader. The script says how the next calls go: an interrupt, or at most so many
  bytes (one at least); after the script each call takes everything.\<close>

datatype sink_event = Se_interrupt | Se_up_to nat

record pipe_sink =
  ps_taken :: "byte list"
  ps_script :: "sink_event list"

fun pipe_write :: "byte list \<Rightarrow> pipe_sink \<Rightarrow> write_result \<times> pipe_sink" where
  "pipe_write data p =
     (case ps_script p of
        [] \<Rightarrow> (Wr_bytes (int (length data)), p\<lparr> ps_taken := ps_taken p @ data \<rparr>)
      | Se_interrupt # es \<Rightarrow> (Wr_error 4, p\<lparr> ps_script := es \<rparr>)
      | Se_up_to k # es \<Rightarrow>
          (Wr_bytes (int (min (length data) (Suc k))),
           p\<lparr> ps_taken := ps_taken p @ take (Suc k) data, ps_script := es \<rparr>))"

definition pipe_sink_calls :: "pipe_sink write_calls" where
  "pipe_sink_calls = \<lparr> sys_write = pipe_write, sys_close = (\<lambda>p. (None, p)) \<rparr>"

interpretation pipe_sink: writable_file pipe_sink_calls "\<lambda>p. True" ps_taken "\<lambda>p. length (ps_script p)"
proof
  fix p p' :: pipe_sink and data :: "byte list" assume d: "data \<noteq> []"
  show "True \<and> 0 < n \<and> nat n \<le> length data \<and> ps_taken p' = ps_taken p @ take (nat n) data"
    if "sys_write pipe_sink_calls data p = (Wr_bytes n, p')" for n
    using that d by (auto simp: pipe_sink_calls_def min_def split: list.splits sink_event.splits)
  show "e = 4 \<and> True \<and> ps_taken p' = ps_taken p \<and> length (ps_script p') < length (ps_script p)"
    if "sys_write pipe_sink_calls data p = (Wr_error e, p')" for e
    using that by (auto simp: pipe_sink_calls_def split: list.splits sink_event.splits)
qed

interpretation pipe_output: zero_copy_output "adaptor_output (fo_Write pipe_sink_calls)"
  "adaptor_sink (\<lambda>o'. True \<and> \<not> fo_closed o') (\<lambda>o'. ps_taken (fo_file o'))"
  by (rule pipe_sink.descriptor.adaptor)

end
