(* ===== verification/GF_StreamWrite.thy ===== *)
theory GF_StreamWrite
  imports GF_CopyOut GF_Regist GF_Shutdown
begin

text \<open>
  Messages written to a stream of buffers: \<open>SerializeWithCachedSizes\<close> of the classes of
  \<open>Regist.pb.cpp\<close> and \<open>Shutdown.pb.cpp\<close>, and the entry points of
  \<open>src/include/google/protobuf/message_lite.cc\<close> for streams and strings. Through every stream that keeps
  the contract \<open>zero_copy_output\<close> goes what \<open>SerializeToArray\<close> puts in an array.
\<close>

section \<open>The classes\<close>

definition Regist_Req_SerializeToStream ::
    "'s zc_output \<Rightarrow> Regist_Req \<Rightarrow> 's coded_out \<Rightarrow> 's coded_out option" where
  "Regist_Req_SerializeToStream zo m c = do {
     c1 \<leftarrow> (if Regist_Req_has_my_id m then cw_WriteInt32 zo 1 (my_id m) c else Some c);
     if unknown_fields m \<noteq> [] then cw_SerializeUnknownFields zo (unknown_fields m) c1 else Some c1
   }"

definition Regist_Res_SerializeToStream ::
    "'s zc_output \<Rightarrow> Regist_Res \<Rightarrow> 's coded_out \<Rightarrow> 's coded_out option" where
  "Regist_Res_SerializeToStream zo m c = do {
     c1 \<leftarrow> (if Regist_Res_has_code m then cw_WriteInt32 zo 1 (regist_code m) c else Some c);
     if unknown_fields m \<noteq> [] then cw_SerializeUnknownFields zo (unknown_fields m) c1 else Some c1
   }"

definition Regist_SerializeToStream :: "'s zc_output \<Rightarrow> Regist \<Rightarrow> 's coded_out \<Rightarrow> 's coded_out option" where
  "Regist_SerializeToStream zo m c =
     (if unknown_fields m \<noteq> [] then cw_SerializeUnknownFields zo (unknown_fields m) c else Some c)"

definition Shutdown_Req_SerializeToStream ::
    "'s zc_output \<Rightarrow> Shutdown_Req \<Rightarrow> 's coded_out \<Rightarrow> 's coded_out option" where
  "Shutdown_Req_SerializeToStream zo m c = do {
     c1 \<leftarrow> (if Shutdown_Req_has_code m then cw_WriteInt32 zo 1 (shutdown_req_code m) c else Some c);
     if unknown_fields m \<noteq> [] then cw_SerializeUnknownFields zo (unknown_fields m) c1 else Some c1
   }"

definition Shutdown_Res_SerializeToStream ::
    "'s zc_output \<Rightarrow> Shutdown_Res \<Rightarrow> 's coded_out \<Rightarrow> 's coded_out option" where
  "Shutdown_Res_SerializeToStream zo m c = do {
     c1 \<leftarrow> (if Shutdown_Res_has_code m then cw_WriteInt32 zo 1 (shutdown_res_code m) c else Some c);
     if unknown_fields m \<noteq> [] then cw_SerializeUnknownFields zo (unknown_fields m) c1 else Some c1
   }"

definition Shutdown_SerializeToStream :: "'s zc_output \<Rightarrow> Shutdown \<Rightarrow> 's coded_out \<Rightarrow> 's coded_out option" where
  "Shutdown_SerializeToStream zo m c =
     (if unknown_fields m \<noteq> [] then cw_SerializeUnknownFields zo (unknown_fields m) c else Some c)"

section \<open>The entry points over a stream\<close>

text \<open>\<open>ser\<close> is the virtual function \<open>SerializeWithCachedSizes\<close> on a writer over \<open>zo\<close>. A size
  that is not the one computed before is a fatal \<open>ByteSizeConsistencyError\<close>, here \<open>None\<close>.\<close>

definition SerializePartialToCodedStream :: "'s zc_output \<Rightarrow> 'm message_vtable \<Rightarrow>
    ('m \<Rightarrow> 's coded_out \<Rightarrow> 's coded_out option) \<Rightarrow> 's coded_out \<Rightarrow> 'm \<Rightarrow>
    (bool \<times> 's coded_out \<times> 'm) option" where
  "SerializePartialToCodedStream zo vt ser c m =
     (case vt_ByteSize vt m of
        (byte_size, m') \<Rightarrow>
          (case cw_GetDirectBufferForNBytesAndAdvance (int byte_size) c of
             (Some buffer, c1) \<Rightarrow>
               let bytes = vt_SerializeWithCachedSizesToArray vt m';
                   c2 = (if bytes = [] then c1
                         else c1\<lparr> cw_output := zo_store zo buffer bytes (cw_output c1) \<rparr>)
               in if length bytes \<noteq> byte_size then None else Some (True, c2, m')
           | (None, c1) \<Rightarrow> do {
               c2 \<leftarrow> ser m' c1;
               if cw_HadError c2 then Some (False, c2, m')
               else if cw_ByteCount c2 - cw_ByteCount c1 \<noteq> int byte_size then None
               else Some (True, c2, m')
             }))"

definition SerializeToCodedStream :: "'s zc_output \<Rightarrow> 'm message_vtable \<Rightarrow>
    ('m \<Rightarrow> 's coded_out \<Rightarrow> 's coded_out option) \<Rightarrow> 's coded_out \<Rightarrow> 'm \<Rightarrow>
    (bool \<times> 's coded_out \<times> 'm) option" where
  "SerializeToCodedStream zo vt ser c m = SerializePartialToCodedStream zo vt ser c m"

text \<open>The encoder is a local object, destroyed on return.\<close>

definition SerializeToZeroCopyStream :: "'s zc_output \<Rightarrow> 'm message_vtable \<Rightarrow>
    ('m \<Rightarrow> 's coded_out \<Rightarrow> 's coded_out option) \<Rightarrow> 's \<Rightarrow> 'm \<Rightarrow> (bool \<times> 'm \<times> 's) option" where
  "SerializeToZeroCopyStream zo vt ser output m = do {
     encoder \<leftarrow> cw_create zo output;
     (ok, encoder', m') \<leftarrow> SerializeToCodedStream zo vt ser encoder m;
     output' \<leftarrow> cw_destroy zo encoder';
     Some (ok, m', output')
   }"

definition SerializePartialToZeroCopyStream :: "'s zc_output \<Rightarrow> 'm message_vtable \<Rightarrow>
    ('m \<Rightarrow> 's coded_out \<Rightarrow> 's coded_out option) \<Rightarrow> 's \<Rightarrow> 'm \<Rightarrow> (bool \<times> 'm \<times> 's) option" where
  "SerializePartialToZeroCopyStream zo vt ser output m = do {
     encoder \<leftarrow> cw_create zo output;
     (ok, encoder', m') \<leftarrow> SerializePartialToCodedStream zo vt ser encoder m;
     output' \<leftarrow> cw_destroy zo encoder';
     Some (ok, m', output')
   }"

text \<open>\<open>MessageLite::SerializeWithCachedSizesToArray\<close>, which the classes override: the array
  \<open>target\<close> has \<open>GetCachedSize()\<close> bytes.\<close>

definition MessageLite_SerializeWithCachedSizesToArray ::
    "('m \<Rightarrow> array_output coded_out \<Rightarrow> array_output coded_out option) \<Rightarrow> byte list \<Rightarrow> 'm \<Rightarrow> byte list option" where
  "MessageLite_SerializeWithCachedSizesToArray ser target m = do {
     coded_out \<leftarrow> cw_create array_output_stream (ArrayOutputStream target (-1));
     coded_out' \<leftarrow> ser m coded_out;
     if cw_HadError coded_out' then None
     else do {
       out \<leftarrow> cw_destroy array_output_stream coded_out';
       Some (ao_data out)
     }
   }"

section \<open>The entry points over a string\<close>

definition AppendPartialToString ::
    "'m message_vtable \<Rightarrow> byte list \<Rightarrow> 'm \<Rightarrow> (bool \<times> byte list \<times> 'm) res" where
  "AppendPartialToString vt output m =
     (case vt_ByteSize vt m of
        (byte_size, m') \<Rightarrow>
          let resized = output @ replicate byte_size 0;
              bytes = vt_SerializeWithCachedSizesToArray vt m'
          in if length bytes \<noteq> byte_size then Inl Check_failed
             else Inr (True, overwrite (length output) bytes resized, m'))"

definition AppendToString ::
    "'m message_vtable \<Rightarrow> byte list \<Rightarrow> 'm \<Rightarrow> (bool \<times> byte list \<times> 'm) res" where
  "AppendToString vt output m = AppendPartialToString vt output m"

definition SerializeToString ::
    "'m message_vtable \<Rightarrow> byte list \<Rightarrow> 'm \<Rightarrow> (bool \<times> byte list \<times> 'm) res" where
  "SerializeToString vt output m = AppendToString vt [] m"

definition SerializePartialToString ::
    "'m message_vtable \<Rightarrow> byte list \<Rightarrow> 'm \<Rightarrow> (bool \<times> byte list \<times> 'm) res" where
  "SerializePartialToString vt output m = AppendPartialToString vt [] m"

definition SerializeAsString :: "'m message_vtable \<Rightarrow> 'm \<Rightarrow> (byte list \<times> 'm) res" where
  "SerializeAsString vt m =
     bind_res (AppendToString vt [] m) (\<lambda>(ok, output, m'). Inr (if ok then output else [], m'))"

definition SerializePartialAsString :: "'m message_vtable \<Rightarrow> 'm \<Rightarrow> (byte list \<times> 'm) res" where
  "SerializePartialAsString vt m =
     bind_res (AppendPartialToString vt [] m) (\<lambda>(ok, output, m'). Inr (if ok then output else [], m'))"

section \<open>A stream gets what an array gets\<close>

definition writes_array :: "'s zc_output \<Rightarrow> 's zc_sink \<Rightarrow> 'm message_vtable \<Rightarrow>
    ('m \<Rightarrow> 's coded_out \<Rightarrow> 's coded_out option) \<Rightarrow> bool" where
  "writes_array zo vw vt ser \<longleftrightarrow> (\<forall>m c. cw_ok zo vw c \<longrightarrow>
     (\<exists>c'. ser m c = Some c' \<and> cw_wrote zo vw (vt_SerializeWithCachedSizesToArray vt m) c c'))"

lemma SerializeToArrayD:
  assumes "SerializeToArray vt n m = Inr (True, Some bytes, m')"
  shows "vt_ByteSize vt m = (length bytes, m')" "vt_SerializeWithCachedSizesToArray vt m' = bytes"
  using assms by (auto simp: SerializeToArray_def SerializePartialToArray_def Let_def
      split: prod.splits if_splits)

context zero_copy_output begin

lemma message_ok:
  assumes ok: "cw_ok zo vw c" and w: "writes_array zo vw vt ser"
    and s: "SerializeToArray vt n m = Inr (True, Some bytes, m')"
  shows "\<exists>b c'. SerializePartialToCodedStream zo vt ser c m = Some (b, c', m') \<and> cw_wrote zo vw bytes c c' \<and>
    (\<not> b \<longrightarrow> cw_error c') \<and> (b \<longrightarrow> \<not> cw_error c' \<or> bytes = [])"
proof -
  note size = SerializeToArrayD(1) [OF s] and array = SerializeToArrayD(2) [OF s]
  show ?thesis
  proof (cases "cw_size c < int (length bytes) \<or> cw_buffer c = None")
    case False
    then obtain p where p: "cw_buffer c = Some p" "int (length bytes) \<le> cw_size c" by auto
    from direct_ok [OF ok p(2)] obtain c' where
      c': "cw_direct zo bytes c = Some c'" "cw_wrote zo vw bytes c c'" "cw_error c' \<longrightarrow> bytes = []" by blast
    have "SerializePartialToCodedStream zo vt ser c m = Some (True, c', m')"
      using p c'(1) size array
      by (auto simp: SerializePartialToCodedStream_def cw_GetDirectBufferForNBytesAndAdvance_def
          cw_direct_def cw_copy_def cw_Advance_def Let_def)
    then show ?thesis using c'(2,3) by blast
  next
    case True
    let ?c = "snd (cw_GetDirectBufferForNBytesAndAdvance (int (length bytes)) c)"
    have null: "fst (cw_GetDirectBufferForNBytesAndAdvance (int (length bytes)) c) = None"
      using True by (auto simp: cw_GetDirectBufferForNBytesAndAdvance_def)
    have same: "cw_wrote zo vw [] c ?c \<and> (?c = c \<or> bytes = [] \<and> cw_buffer c = None)"
    proof (cases "cw_size c < int (length bytes)")
      case True
      then show ?thesis using ok by (simp add: cw_GetDirectBufferForNBytesAndAdvance_def wrote_nothing)
    next
      case False
      then have "cw_buffer c = None" using True by simp
      moreover from this have "cw_size c = 0" using ok by (auto simp: cw_ok_def)
      ultimately have "bytes = []" "?c = c"
        using False by (auto simp: cw_GetDirectBufferForNBytesAndAdvance_def cw_Advance_def)
      then show ?thesis using ok by (simp add: wrote_nothing)
    qed
    then have ok': "cw_ok zo vw ?c" by (simp add: cw_wrote_def)
    then obtain c' where c': "ser m' ?c = Some c'" "cw_wrote zo vw bytes ?c c'"
      using w array unfolding writes_array_def by blast
    have wrote: "cw_wrote zo vw bytes c c'" using wrote_append [OF conjunct1 [OF same] c'(2)] by simp
    have "SerializePartialToCodedStream zo vt ser c m = Some (\<not> cw_error c', c', m')"
      using null c' size
      by (cases "cw_GetDirectBufferForNBytesAndAdvance (int (length bytes)) c")
        (auto simp: SerializePartialToCodedStream_def cw_HadError_def cw_wrote_def)
    then show ?thesis using wrote by blast
  qed
qed

theorem SerializeToZeroCopyStream_array:
  assumes wf: "zw_wf vw s" and w: "writes_array zo vw vt ser"
    and a: "SerializeToArray vt n m = Inr (True, Some bytes, m')"
  shows "\<exists>k s'. SerializeToZeroCopyStream zo vt ser s m = Some (k = length bytes, m', s') \<and> zw_wf vw s' \<and>
    k \<le> length bytes \<and> zw_text vw s' = zw_text vw s @ take k bytes \<and>
    (k < length bytes \<longrightarrow> zw_failed vw s')"
proof -
  from create_ok [OF wf] obtain c where c: "cw_create zo s = Some c" "cw_ok zo vw c"
    "cw_text vw c = zw_text vw s" "\<not> cw_error c" "\<not> cw_aliasing c" by blast
  from message_ok [OF c(2) w a] obtain b c' where
    b: "SerializePartialToCodedStream zo vt ser c m = Some (b, c', m')" "cw_wrote zo vw bytes c c'"
      "\<not> b \<longrightarrow> cw_error c'" "b \<longrightarrow> \<not> cw_error c' \<or> bytes = []" by blast
  then have ok: "cw_ok zo vw c'" by (simp add: cw_wrote_def)
  from destroy_ok [OF ok] obtain s' where
    d: "cw_destroy zo c' = Some s'" "zw_wf vw s'" "zw_text vw s' = cw_text vw c'"
      "zw_failed vw s' = zw_failed vw (cw_output c')" by blast
  obtain k where k: "k \<le> length bytes" "cw_text vw c' = zw_text vw s @ take k bytes"
    "\<not> cw_error c' \<longrightarrow> k = length bytes" "cw_error c' \<longrightarrow> k < length bytes"
    using b(2) c(3,4,5) unfolding cw_wrote_def by auto
  have "SerializeToZeroCopyStream zo vt ser s m = Some (b, m', s')"
    using c(1) b(1) d(1) by (simp add: SerializeToZeroCopyStream_def SerializeToCodedStream_def)
  moreover have "b = (k = length bytes)" using b(3,4) k(1,3,4) by auto
  moreover have "k < length bytes \<longrightarrow> zw_failed vw s'" using k(3) ok d(4) by (auto simp: cw_ok_def)
  ultimately show ?thesis using d(2,3) k(1,2) by (intro exI [of _ k] exI [of _ s']) simp
qed

lemma partial_to_stream:
  "SerializePartialToZeroCopyStream zo vt ser s m = SerializeToZeroCopyStream zo vt ser s m"
  by (simp add: SerializePartialToZeroCopyStream_def SerializeToZeroCopyStream_def SerializeToCodedStream_def)

text \<open>Every class of the protocol.\<close>

lemma fields_ok:
  "cw_ok zo vw c \<Longrightarrow>
     \<exists>c'. (if fs \<noteq> [] then cw_SerializeUnknownFields zo fs c else Some c) = Some c' \<and>
       cw_wrote zo vw (if fs \<noteq> [] then SerializeUnknownFieldsToArray fs else []) c c'"
  using SerializeUnknownFields_ok(1) by (auto simp: wrote_nothing)

lemma int32_ok:
  assumes "cw_ok zo vw c"
  shows "\<exists>c'. (if has then cw_WriteInt32 zo 1 v c else Some c) \<bind>
      (\<lambda>c1. if fs \<noteq> [] then cw_SerializeUnknownFields zo fs c1 else Some c1) = Some c' \<and>
    cw_wrote zo vw ((if has then WriteInt32ToArray 1 v else []) @
      (if fs \<noteq> [] then SerializeUnknownFieldsToArray fs else [])) c c'"
  by (rule wrote_bind [OF _ fields_ok]) (use assms WriteInt32_ok in \<open>auto simp: wrote_nothing\<close>)

lemma class_writes:
  "writes_array zo vw Regist_Req_vtable (Regist_Req_SerializeToStream zo)"
  "writes_array zo vw Regist_Res_vtable (Regist_Res_SerializeToStream zo)"
  "writes_array zo vw Shutdown_Req_vtable (Shutdown_Req_SerializeToStream zo)"
  "writes_array zo vw Shutdown_Res_vtable (Shutdown_Res_SerializeToStream zo)"
  using int32_ok
  by (simp_all only: writes_array_def Regist_Req_vtable_def Regist_Res_vtable_def Shutdown_Req_vtable_def
      Shutdown_Res_vtable_def message_vtable.simps Regist_Req_SerializeWithCachedSizesToArray_def
      Regist_Res_SerializeWithCachedSizesToArray_def Shutdown_Req_SerializeWithCachedSizesToArray_def
      Shutdown_Res_SerializeWithCachedSizesToArray_def Regist_Req_SerializeToStream_def
      Regist_Res_SerializeToStream_def Shutdown_Req_SerializeToStream_def Shutdown_Res_SerializeToStream_def)
    blast+

lemma empty_class_writes:
  "writes_array zo vw Regist_vtable (Regist_SerializeToStream zo)"
  "writes_array zo vw Shutdown_vtable (Shutdown_SerializeToStream zo)"
  using fields_ok
  by (simp_all only: writes_array_def Regist_vtable_def Shutdown_vtable_def message_vtable.simps
      Regist_SerializeWithCachedSizesToArray_def Shutdown_SerializeWithCachedSizesToArray_def
      Regist_SerializeToStream_def Shutdown_SerializeToStream_def) blast+

end

section \<open>Strings\<close>

lemma AppendToString_array:
  assumes "SerializeToArray vt n m = Inr (True, Some bytes, m')"
  shows "AppendToString vt output m = Inr (True, output @ bytes, m')"
    and "SerializeToString vt output m = Inr (True, bytes, m')"
    and "SerializeAsString vt m = Inr (bytes, m')"
  using SerializeToArrayD [OF assms]
  by (simp_all add: SerializeAsString_def SerializeToString_def AppendToString_def AppendPartialToString_def
      overwrite_def)

text \<open>The default \<open>SerializeWithCachedSizesToArray\<close> is what the classes override it with.\<close>

theorem MessageLite_SerializeToArray_default:
  assumes w: "writes_array array_output_stream (array_sink (length target)) vt ser"
    and len: "length target = length (vt_SerializeWithCachedSizesToArray vt m)"
  shows "MessageLite_SerializeWithCachedSizesToArray ser target m = Some (vt_SerializeWithCachedSizesToArray vt m)"
proof -
  let ?s = "ArrayOutputStream target (-1)" and ?bytes = "vt_SerializeWithCachedSizesToArray vt m"
    and ?vw = "array_sink (length target)"
  have s: "zw_wf ?vw ?s" "zw_text ?vw ?s = []"
    by (auto simp: array_sink_def ArrayOutputStream_def)
  from array_output.create_ok [OF s(1)] s(2) obtain c where
    c: "cw_create array_output_stream ?s = Some c" "cw_ok array_output_stream ?vw c"
      "cw_text ?vw c = []" "\<not> cw_error c" "\<not> cw_aliasing c" by auto
  with w obtain c' where c': "ser m c = Some c'" "cw_wrote array_output_stream ?vw ?bytes c c'"
    unfolding writes_array_def by blast
  then have ok: "cw_ok array_output_stream ?vw c'" by (simp add: cw_wrote_def)
  obtain k where k: "k \<le> length ?bytes" "cw_text ?vw c' = take k ?bytes"
    "\<not> cw_error c' \<longrightarrow> k = length ?bytes" "cw_error c' \<longrightarrow> k < length ?bytes"
    using c'(2) c(3,4,5) unfolding cw_wrote_def by auto
  from array_output.destroy_ok [OF ok] obtain a where
    a: "cw_destroy array_output_stream c' = Some a" "zw_wf ?vw a" "zw_text ?vw a = take k ?bytes"
      "zw_failed ?vw a = zw_failed ?vw (cw_output c')" using k(2) by auto
  have d: "length (ao_data a) = length ?bytes" "take (nat (ao_position a)) (ao_data a) = take k ?bytes"
    using a(2,3) len by (simp_all add: array_sink_def)
  have "\<not> cw_error c'"
  proof
    assume e: "cw_error c'"
    then have "zw_failed ?vw a" using ok a(4) by (simp add: cw_ok_def)
    then have "ao_position a = int (length (ao_data a))" by (simp add: array_sink_def)
    then have "ao_data a = take k ?bytes" using d(2) by simp
    then have "length ?bytes \<le> k" using d(1) by (metis length_take min.bounded_iff order_refl)
    then show False using k(4) e by simp
  qed
  moreover from this have "ao_data a = ?bytes" using d k(3)
    by (metis append_take_drop_id append_Nil2 append_eq_append_conv take_all order_refl length_append
        add_cancel_right_right length_0_conv)
  ultimately show ?thesis using c(1) c'(1) a(1)
    by (simp add: MessageLite_SerializeWithCachedSizesToArray_def cw_HadError_def)
qed

end
