(* ===== verification/GF_Stream.thy ===== *)
theory GF_Stream
  imports GF_WireFormat "HOL-Library.Monad_Syntax"
begin

text \<open>
  \<open>CodedInputStream\<close> over a \<open>ZeroCopyInputStream\<close>
  (\<open>src/include/google/protobuf/io/coded_stream.cc\<close>, \<open>.h\<close>, \<open>_inl.h\<close>,
  \<open>zero_copy_stream.h\<close>): the bytes come in blocks of the stream's choosing, a limit may lie
  inside a block, and the bytes not consumed are given back at the end. \<open>GF_WireFormat\<close>
  models the same class over one array.

  The stream is an argument: the locale \<open>zero_copy_input\<close> states what the comments of
  \<open>zero_copy_stream.h\<close> promise. Its lemmas describe every operation by the bytes the reader
  can still see (\<open>visible\<close>), whatever the blocks. \<open>None\<close> is a call that does not return:
  a loop that never ends or a fatal \<open>GOOGLE_CHECK\<close>; the lemmas exclude it.
\<close>

section \<open>The interface of the underlying stream\<close>

record 's zc_input =
  zc_Next :: "'s \<Rightarrow> (byte list option \<times> 's) option"
  zc_BackUp :: "int \<Rightarrow> 's \<Rightarrow> 's option"
  zc_Skip :: "int \<Rightarrow> 's \<Rightarrow> (bool \<times> 's) option"
  zc_ByteCount :: "'s \<Rightarrow> int"

text \<open>The \<open>do ... while (success && *size == 0)\<close> of \<open>NextNonEmpty\<close>.\<close>

partial_function (option) NextNonEmpty ::
    "'s zc_input \<Rightarrow> 's \<Rightarrow> (byte list option \<times> 's) option" where
  "NextNonEmpty zi input = do {
     (data, input') \<leftarrow> zc_Next zi input;
     if data = Some [] then NextNonEmpty zi input' else Some (data, input')
   }"

section \<open>The reader\<close>

text \<open>
  \<open>ci_mem\<close> are the bytes from \<open>buffer_\<close> to the end of the block, \<open>ci_size\<close> is
  \<open>buffer_end_ - buffer_\<close>; \<open>NULL\<close> is the empty block. The C++ \<open>int\<close>s are unbounded here;
  \<open>ci_ok\<close> keeps them between 0 and \<open>INT_MAX\<close>.
\<close>

datatype ci_event = Total_limit_error | Large_message_warning | Total_read_warning int

record 's coded_in =
  ci_input :: 's
  ci_mem :: "byte list"
  ci_size :: int
  ci_read :: int                 \<comment> \<open>\<open>total_bytes_read_\<close>\<close>
  ci_overflow :: int             \<comment> \<open>\<open>overflow_bytes_\<close>\<close>
  ci_last_tag :: u32
  ci_legit :: bool               \<comment> \<open>\<open>legitimate_message_end_\<close>\<close>
  ci_limit :: int                \<comment> \<open>\<open>current_limit_\<close>\<close>
  ci_after :: int                \<comment> \<open>\<open>buffer_size_after_limit_\<close>\<close>
  ci_total_limit :: int          \<comment> \<open>\<open>total_bytes_limit_\<close>\<close>
  ci_warning :: int              \<comment> \<open>\<open>total_bytes_warning_threshold_\<close>\<close>
  ci_depth :: int                \<comment> \<open>\<open>recursion_depth_\<close>\<close>
  ci_depth_limit :: int          \<comment> \<open>\<open>recursion_limit_\<close>\<close>
  ci_log :: "ci_event list"

abbreviation INT_MAX :: int where "INT_MAX \<equiv> 2147483647"

definition ci_BufferSize :: "'s coded_in \<Rightarrow> int" where
  "ci_BufferSize c = ci_size c"

definition ci_Advance :: "int \<Rightarrow> 's coded_in \<Rightarrow> 's coded_in" where
  "ci_Advance amount c = c\<lparr> ci_mem := drop (nat amount) (ci_mem c), ci_size := ci_size c - amount \<rparr>"

definition ci_CurrentPosition :: "'s coded_in \<Rightarrow> int" where
  "ci_CurrentPosition c = ci_read c - (ci_BufferSize c + ci_after c)"

text \<open>The bytes between \<open>buffer_\<close> and \<open>buffer_end_\<close>.\<close>

definition ci_buffer :: "'s coded_in \<Rightarrow> byte list" where
  "ci_buffer c = take (nat (ci_size c)) (ci_mem c)"

definition ci_closest :: "'s coded_in \<Rightarrow> int" where
  "ci_closest c = min (ci_limit c) (ci_total_limit c)"

definition ci_RecomputeBufferLimits :: "'s coded_in \<Rightarrow> 's coded_in" where
  "ci_RecomputeBufferLimits c =
     (let full = ci_size c + ci_after c; closest_limit = ci_closest c
      in if closest_limit < ci_read c
         then c\<lparr> ci_after := ci_read c - closest_limit,
                 ci_size := full - (ci_read c - closest_limit) \<rparr>
         else c\<lparr> ci_size := full, ci_after := 0 \<rparr>)"

definition ci_log_limit :: "'s coded_in \<Rightarrow> 's coded_in" where
  "ci_log_limit c =
     (if ci_total_limit c \<le> ci_read c - ci_after c \<and> ci_total_limit c \<noteq> ci_limit c
      then c\<lparr> ci_log := ci_log c @ [Total_limit_error] \<rparr> else c)"

definition ci_warn :: "'s coded_in \<Rightarrow> 's coded_in" where
  "ci_warn c =
     (if 0 \<le> ci_warning c \<and> ci_warning c \<le> ci_read c
      then c\<lparr> ci_log := ci_log c @ [Large_message_warning], ci_warning := -2 \<rparr> else c)"

text \<open>The block \<open>data\<close> becomes the buffer; the bytes beyond \<open>INT_MAX\<close> stay out of it.\<close>

definition ci_load :: "byte list \<Rightarrow> 's \<Rightarrow> 's coded_in \<Rightarrow> 's coded_in" where
  "ci_load data input' c =
     (let n = int (length data); c1 = c\<lparr> ci_input := input', ci_mem := data, ci_size := n \<rparr>
      in ci_RecomputeBufferLimits
           (if ci_read c \<le> INT_MAX - n then c1\<lparr> ci_read := ci_read c + n \<rparr>
            else let over = ci_read c - (INT_MAX - n)
                 in c1\<lparr> ci_overflow := over, ci_size := n - over, ci_read := INT_MAX \<rparr>))"

definition ci_Refresh :: "'s zc_input \<Rightarrow> 's coded_in \<Rightarrow> (bool \<times> 's coded_in) option" where
  "ci_Refresh zi c =
     (if 0 < ci_after c \<or> 0 < ci_overflow c \<or> ci_read c = ci_limit c
      then Some (False, ci_log_limit c)
      else let c1 = ci_warn c
           in do {
                (data, input') \<leftarrow> NextNonEmpty zi (ci_input c1);
                case data of
                  Some d \<Rightarrow> Some (True, ci_load d input' c1)
                | None \<Rightarrow> Some (False, c1\<lparr> ci_input := input', ci_mem := [], ci_size := 0 \<rparr>)
              })"

text \<open>The constructor over a stream, and the destructor.\<close>

definition ci_create :: "'s zc_input \<Rightarrow> 's \<Rightarrow> 's coded_in option" where
  "ci_create zi input = do {
     (ok, c) \<leftarrow> ci_Refresh zi
       \<lparr> ci_input = input, ci_mem = [], ci_size = 0, ci_read = 0, ci_overflow = 0,
         ci_last_tag = 0, ci_legit = False, ci_limit = INT_MAX, ci_after = 0,
         ci_total_limit = 67108864, ci_warning = 33554432, ci_depth = 0,
         ci_depth_limit = 100, ci_log = [] \<rparr>;
     Some c
   }"

definition ci_BackUpInputToCurrentPosition ::
    "'s zc_input \<Rightarrow> 's coded_in \<Rightarrow> 's coded_in option" where
  "ci_BackUpInputToCurrentPosition zi c =
     (let backup_bytes = ci_BufferSize c + ci_after c + ci_overflow c
      in if 0 < backup_bytes
         then do {
           input' \<leftarrow> zc_BackUp zi backup_bytes (ci_input c);
           Some (c\<lparr> ci_input := input', ci_read := ci_read c - (ci_BufferSize c + ci_after c),
                    ci_size := 0, ci_after := 0, ci_overflow := 0 \<rparr>)
         }
         else Some c)"

definition ci_destroy :: "'s zc_input \<Rightarrow> 's coded_in \<Rightarrow> ('s \<times> ci_event list) option" where
  "ci_destroy zi c = do {
     c' \<leftarrow> ci_BackUpInputToCurrentPosition zi c;
     Some (ci_input c',
           ci_log c' @ (if ci_warning c' = -2 then [Total_read_warning (ci_read c')] else []))
   }"

section \<open>Limits\<close>

definition ci_PushLimit :: "int \<Rightarrow> 's coded_in \<Rightarrow> int \<times> 's coded_in" where
  "ci_PushLimit byte_limit c =
     (let current_position = ci_CurrentPosition c; old_limit = ci_limit c;
          new_limit = (if 0 \<le> byte_limit \<and> byte_limit \<le> INT_MAX - current_position
                       then current_position + byte_limit else INT_MAX)
      in (old_limit, ci_RecomputeBufferLimits (c\<lparr> ci_limit := min new_limit old_limit \<rparr>)))"

definition ci_PopLimit :: "int \<Rightarrow> 's coded_in \<Rightarrow> 's coded_in" where
  "ci_PopLimit limit c =
     (ci_RecomputeBufferLimits (c\<lparr> ci_limit := limit \<rparr>))\<lparr> ci_legit := False \<rparr>"

definition ci_BytesUntilLimit :: "'s coded_in \<Rightarrow> int" where
  "ci_BytesUntilLimit c = (if ci_limit c = INT_MAX then -1 else ci_limit c - ci_CurrentPosition c)"

definition ci_SetTotalBytesLimit :: "int \<Rightarrow> int \<Rightarrow> 's coded_in \<Rightarrow> 's coded_in" where
  "ci_SetTotalBytesLimit limit warning_threshold c =
     ci_RecomputeBufferLimits
       (c\<lparr> ci_total_limit := max (ci_CurrentPosition c) limit,
           ci_warning := (if 0 \<le> warning_threshold then warning_threshold else -1) \<rparr>)"

definition ci_BytesUntilTotalBytesLimit :: "'s coded_in \<Rightarrow> int" where
  "ci_BytesUntilTotalBytesLimit c =
     (if ci_total_limit c = INT_MAX then -1 else ci_total_limit c - ci_CurrentPosition c)"

section \<open>Reading bytes\<close>

definition ci_Skip :: "'s zc_input \<Rightarrow> int \<Rightarrow> 's coded_in \<Rightarrow> (bool \<times> 's coded_in) option" where
  "ci_Skip zi count c =
     (if count < 0 then Some (False, c)
      else if count \<le> ci_BufferSize c then Some (True, ci_Advance count c)
      else if 0 < ci_after c then Some (False, ci_Advance (ci_BufferSize c) c)
      else let rest = count - ci_BufferSize c;
               c1 = c\<lparr> ci_mem := [], ci_size := 0 \<rparr>;
               bytes_until_limit = ci_closest c1 - ci_read c1
           in if bytes_until_limit < rest
              then if 0 < bytes_until_limit
                   then do {
                     (ok, input') \<leftarrow> zc_Skip zi bytes_until_limit (ci_input c1);
                     Some (False, c1\<lparr> ci_input := input', ci_read := ci_closest c1 \<rparr>)
                   }
                   else Some (False, c1)
              else do {
                (ok, input') \<leftarrow> zc_Skip zi rest (ci_input c1);
                Some (ok, c1\<lparr> ci_input := input', ci_read := ci_read c1 + rest \<rparr>)
              })"

definition ci_GetDirectBufferPointer ::
    "'s zc_input \<Rightarrow> 's coded_in \<Rightarrow> (byte list option \<times> 's coded_in) option" where
  "ci_GetDirectBufferPointer zi c =
     (if ci_BufferSize c = 0
      then do {
        (ok, c') \<leftarrow> ci_Refresh zi c;
        Some (if ok then Some (ci_buffer c') else None, c')
      }
      else Some (Some (ci_buffer c), c))"

text \<open>\<open>buffer\<close> are the bytes stored so far.\<close>

partial_function (option) ci_ReadRaw_loop ::
    "'s zc_input \<Rightarrow> byte list \<Rightarrow> int \<Rightarrow> 's coded_in \<Rightarrow> (bool \<times> byte list \<times> 's coded_in) option" where
  "ci_ReadRaw_loop zi buffer count c =
     (if ci_BufferSize c < count
      then do {
        let buffer' = buffer @ ci_buffer c;
        (ok, c') \<leftarrow> ci_Refresh zi (ci_Advance (ci_BufferSize c) c);
        if ok then ci_ReadRaw_loop zi buffer' (count - ci_BufferSize c) c'
        else Some (False, buffer', c')
      }
      else Some (True, buffer @ take (nat count) (ci_mem c), ci_Advance count c))"

definition ci_ReadRaw ::
    "'s zc_input \<Rightarrow> int \<Rightarrow> 's coded_in \<Rightarrow> (bool \<times> byte list \<times> 's coded_in) option" where
  "ci_ReadRaw zi count c = ci_ReadRaw_loop zi [] count c"

text \<open>\<open>ReadStringFallback\<close> clears the string and appends block by block; \<open>reserve\<close> changes
  no contents.\<close>

partial_function (option) ci_ReadString_loop ::
    "'s zc_input \<Rightarrow> byte list \<Rightarrow> int \<Rightarrow> 's coded_in \<Rightarrow> (bool \<times> byte list \<times> 's coded_in) option" where
  "ci_ReadString_loop zi str count c =
     (if ci_BufferSize c < count
      then do {
        let str' = (if ci_BufferSize c \<noteq> 0 then str @ ci_buffer c else str);
        (ok, c') \<leftarrow> ci_Refresh zi (ci_Advance (ci_BufferSize c) c);
        if ok then ci_ReadString_loop zi str' (count - ci_BufferSize c) c'
        else Some (False, str', c')
      }
      else Some (True, str @ take (nat count) (ci_mem c), ci_Advance count c))"

definition ci_ReadStringFallback ::
    "'s zc_input \<Rightarrow> int \<Rightarrow> 's coded_in \<Rightarrow> (bool \<times> byte list \<times> 's coded_in) option" where
  "ci_ReadStringFallback zi count c = ci_ReadString_loop zi [] count c"

text \<open>The second component is what the string \<open>str\<close> holds afterwards.\<close>

definition ci_ReadString ::
    "'s zc_input \<Rightarrow> byte list \<Rightarrow> int \<Rightarrow> 's coded_in \<Rightarrow> (bool \<times> byte list \<times> 's coded_in) option" where
  "ci_ReadString zi str count c =
     (if count < 0 then Some (False, str, c)
      else if count \<le> ci_BufferSize c
      then Some (True, take (nat count) (ci_mem c), if 0 < count then ci_Advance count c else c)
      else ci_ReadStringFallback zi count c)"


section \<open>Fixed-width integers\<close>

text \<open>Built with \<open>PROTOBUF_LITTLE_ENDIAN\<close>: the inline function copies when the bytes are in the
  buffer, and otherwise calls the fallback, which tests again.\<close>

definition ci_ReadLittleEndian32Fallback ::
    "'s zc_input \<Rightarrow> 's coded_in \<Rightarrow> (u32 option \<times> 's coded_in) option" where
  "ci_ReadLittleEndian32Fallback zi c =
     (if 4 \<le> ci_BufferSize c
      then Some (Some (le_word (take 4 (ci_mem c))), ci_Advance 4 c)
      else do {
        (ok, bytes, c') \<leftarrow> ci_ReadRaw zi 4 c;
        Some (if ok then Some (le_word bytes) else None, c')
      })"

definition ci_ReadLittleEndian32 ::
    "'s zc_input \<Rightarrow> 's coded_in \<Rightarrow> (u32 option \<times> 's coded_in) option" where
  "ci_ReadLittleEndian32 zi c =
     (if 4 \<le> ci_BufferSize c
      then Some (Some (le_word (take 4 (ci_mem c))), ci_Advance 4 c)
      else ci_ReadLittleEndian32Fallback zi c)"

definition ci_ReadLittleEndian64Fallback ::
    "'s zc_input \<Rightarrow> 's coded_in \<Rightarrow> (u64 option \<times> 's coded_in) option" where
  "ci_ReadLittleEndian64Fallback zi c =
     (if 8 \<le> ci_BufferSize c
      then Some (Some (le_word (take 8 (ci_mem c))), ci_Advance 8 c)
      else do {
        (ok, bytes, c') \<leftarrow> ci_ReadRaw zi 8 c;
        Some (if ok then Some (le_word bytes) else None, c')
      })"

definition ci_ReadLittleEndian64 ::
    "'s zc_input \<Rightarrow> 's coded_in \<Rightarrow> (u64 option \<times> 's coded_in) option" where
  "ci_ReadLittleEndian64 zi c =
     (if 8 \<le> ci_BufferSize c
      then Some (Some (le_word (take 8 (ci_mem c))), ci_Advance 8 c)
      else ci_ReadLittleEndian64Fallback zi c)"

section \<open>Varints\<close>

text \<open>\<open>while (buffer_ == buffer_end_) if (!Refresh()) return false;\<close>\<close>

partial_function (option) ci_fill :: "'s zc_input \<Rightarrow> 's coded_in \<Rightarrow> (bool \<times> 's coded_in) option" where
  "ci_fill zi c =
     (if ci_BufferSize c = 0
      then do {
        (ok, c') \<leftarrow> ci_Refresh zi c;
        if ok then ci_fill zi c' else Some (False, c')
      }
      else Some (True, c))"

text \<open>\<open>n\<close> is \<open>kMaxVarintBytes - count\<close>.\<close>

fun ci_ReadVarint64Slow_loop ::
    "'s zc_input \<Rightarrow> nat \<Rightarrow> nat \<Rightarrow> u64 \<Rightarrow> 's coded_in \<Rightarrow> (u64 option \<times> 's coded_in) option" where
  "ci_ReadVarint64Slow_loop zi 0 count result c = Some (None, c)"
| "ci_ReadVarint64Slow_loop zi (Suc n) count result c = do {
     (ok, c') \<leftarrow> ci_fill zi c;
     if \<not> ok then Some (None, c')
     else let b = hd (ci_mem c');
              result' = result OR push_bit (7 * count) (ucast (b AND 0x7F));
              c'' = ci_Advance 1 c'
          in if b AND 0x80 = 0 then Some (Some result', c'')
             else ci_ReadVarint64Slow_loop zi n (Suc count) result' c''
   }"

definition ci_ReadVarint64Slow ::
    "'s zc_input \<Rightarrow> 's coded_in \<Rightarrow> (u64 option \<times> 's coded_in) option" where
  "ci_ReadVarint64Slow zi c = ci_ReadVarint64Slow_loop zi 10 0 0 c"

text \<open>The buffer pointer moves to where the unrolled reader ended.\<close>

definition ci_advance_to :: "byte list \<Rightarrow> 's coded_in \<Rightarrow> 's coded_in" where
  "ci_advance_to rest c = ci_Advance (int (length (ci_buffer c)) - int (length rest)) c"

definition ci_ReadVarint64Fallback ::
    "'s zc_input \<Rightarrow> 's coded_in \<Rightarrow> (u64 option \<times> 's coded_in) option" where
  "ci_ReadVarint64Fallback zi c =
     (if safe_unrolled (ci_buffer c)
      then Some (case ReadVarint64FromArray (ci_buffer c) of
                   Vdone v rest \<Rightarrow> (Some v, ci_advance_to rest c)
                 | Vnull \<Rightarrow> (None, c)
                 | Voverrun \<Rightarrow> (None, c))
      else ci_ReadVarint64Slow zi c)"

definition ci_ReadVarint32Slow ::
    "'s zc_input \<Rightarrow> 's coded_in \<Rightarrow> (u32 option \<times> 's coded_in) option" where
  "ci_ReadVarint32Slow zi c = do {
     (result, c') \<leftarrow> ci_ReadVarint64Fallback zi c;
     Some (map_option ucast result, c')
   }"

definition ci_ReadVarint32Fallback ::
    "'s zc_input \<Rightarrow> 's coded_in \<Rightarrow> (u32 option \<times> 's coded_in) option" where
  "ci_ReadVarint32Fallback zi c =
     (if safe_unrolled (ci_buffer c)
      then Some (case ReadVarint32FromArray (ci_buffer c) of
                   Vdone v rest \<Rightarrow> (Some v, ci_advance_to rest c)
                 | Vnull \<Rightarrow> (None, c)
                 | Voverrun \<Rightarrow> (None, c))
      else ci_ReadVarint32Slow zi c)"

definition ci_ReadVarint32 ::
    "'s zc_input \<Rightarrow> 's coded_in \<Rightarrow> (u32 option \<times> 's coded_in) option" where
  "ci_ReadVarint32 zi c =
     (if 0 < ci_BufferSize c \<and> hd (ci_mem c) < 0x80
      then Some (Some (ucast (hd (ci_mem c))), ci_Advance 1 c)
      else ci_ReadVarint32Fallback zi c)"

definition ci_ReadVarint64 ::
    "'s zc_input \<Rightarrow> 's coded_in \<Rightarrow> (u64 option \<times> 's coded_in) option" where
  "ci_ReadVarint64 zi c =
     (if 0 < ci_BufferSize c \<and> hd (ci_mem c) < 0x80
      then Some (Some (ucast (hd (ci_mem c))), ci_Advance 1 c)
      else ci_ReadVarint64Fallback zi c)"

section \<open>Tags\<close>

definition ci_ReadTagSlow :: "'s zc_input \<Rightarrow> 's coded_in \<Rightarrow> (u32 \<times> 's coded_in) option" where
  "ci_ReadTagSlow zi c = do {
     (ok, c1) \<leftarrow> (if ci_BufferSize c = 0 then ci_Refresh zi c else Some (True, c));
     if \<not> ok
     then Some (0, c1\<lparr> ci_legit := (if ci_total_limit c1 \<le> ci_read c1 - ci_after c1
                                    then ci_limit c1 = ci_total_limit c1 else True) \<rparr>)
     else do {
       (result, c2) \<leftarrow> ci_ReadVarint64 zi c1;
       Some (case result of None \<Rightarrow> 0 | Some v \<Rightarrow> ucast v, c2)
     }
   }"

definition ci_ReadTagFallback :: "'s zc_input \<Rightarrow> 's coded_in \<Rightarrow> (u32 \<times> 's coded_in) option" where
  "ci_ReadTagFallback zi c =
     (if safe_unrolled (ci_buffer c)
      then Some (case ReadVarint32FromArray (ci_buffer c) of
                   Vdone tag rest \<Rightarrow> (tag, ci_advance_to rest c)
                 | Vnull \<Rightarrow> (0, c)
                 | Voverrun \<Rightarrow> (0, c))
      else if ci_BufferSize c = 0 \<and> (0 < ci_after c \<or> ci_read c = ci_limit c) \<and>
              ci_read c - ci_after c < ci_total_limit c
      then Some (0, c\<lparr> ci_legit := True \<rparr>)
      else ci_ReadTagSlow zi c)"

definition ci_ReadTag :: "'s zc_input \<Rightarrow> 's coded_in \<Rightarrow> (u32 \<times> 's coded_in) option" where
  "ci_ReadTag zi c =
     (if 0 < ci_BufferSize c \<and> hd (ci_mem c) < 0x80
      then let tag = ucast (hd (ci_mem c)) in Some (tag, ci_Advance 1 (c\<lparr> ci_last_tag := tag \<rparr>))
      else do {
        (tag, c') \<leftarrow> ci_ReadTagFallback zi c;
        Some (tag, c'\<lparr> ci_last_tag := tag \<rparr>)
      })"

definition ci_ReadTagWithCutoff ::
    "'s zc_input \<Rightarrow> u32 \<Rightarrow> 's coded_in \<Rightarrow> ((u32 \<times> bool) \<times> 's coded_in) option" where
  "ci_ReadTagWithCutoff zi cutoff c =
     (let b0 = ci_mem c ! 0; b1 = ci_mem c ! 1
      in if 0 < ci_BufferSize c \<and> 0 < sint b0
         then let tag = ucast b0
              in Some ((tag, 0x7F \<le> cutoff \<or> tag \<le> cutoff), ci_Advance 1 (c\<lparr> ci_last_tag := tag \<rparr>))
         else if 0 < ci_BufferSize c \<and> 0x80 \<le> cutoff \<and> 1 < ci_BufferSize c \<and>
                 0x80 \<le> (ucast b0 :: u32) AND NOT (ucast b1)
         then let tag = 0x80 * ucast b1 + (ucast b0 - 0x80)
              in Some ((tag, 0x3FFF \<le> cutoff \<or> tag \<le> cutoff),
                       ci_Advance 2 (c\<lparr> ci_last_tag := tag \<rparr>))
         else do {
           (tag, c') \<leftarrow> ci_ReadTagFallback zi c;
           Some ((tag, tag - 1 < cutoff), c'\<lparr> ci_last_tag := tag \<rparr>)
         })"

definition ci_ExpectTag :: "u32 \<Rightarrow> 's coded_in \<Rightarrow> bool \<times> 's coded_in" where
  "ci_ExpectTag expected c =
     (if expected < push_bit 7 1
      then if 0 < ci_BufferSize c \<and> ucast (ci_mem c ! 0) = expected
           then (True, ci_Advance 1 c) else (False, c)
      else if expected < push_bit 14 1
      then if 2 \<le> ci_BufferSize c \<and> ci_mem c ! 0 = ucast (expected OR 0x80) \<and>
              ci_mem c ! 1 = ucast (drop_bit 7 expected)
           then (True, ci_Advance 2 c) else (False, c)
      else (False, c))"

text \<open>Over an array, without a check of its length.\<close>

definition ExpectTagFromArray :: "byte list \<Rightarrow> u32 \<Rightarrow> byte list option" where
  "ExpectTagFromArray buffer expected =
     (if expected < push_bit 7 1
      then if ucast (buffer ! 0) = expected then Some (drop 1 buffer) else None
      else if expected < push_bit 14 1
      then if buffer ! 0 = ucast (expected OR 0x80) \<and> buffer ! 1 = ucast (drop_bit 7 expected)
           then Some (drop 2 buffer) else None
      else None)"

definition ci_ExpectAtEnd :: "'s coded_in \<Rightarrow> bool \<times> 's coded_in" where
  "ci_ExpectAtEnd c =
     (if ci_BufferSize c = 0 \<and> (ci_after c \<noteq> 0 \<or> ci_read c = ci_limit c)
      then (True, c\<lparr> ci_last_tag := 0, ci_legit := True \<rparr>)
      else (False, c))"

definition ci_LastTagWas :: "'s coded_in \<Rightarrow> u32 \<Rightarrow> bool" where
  "ci_LastTagWas c expected = (ci_last_tag c = expected)"

definition ci_ConsumedEntireMessage :: "'s coded_in \<Rightarrow> bool" where
  "ci_ConsumedEntireMessage c = ci_legit c"

section \<open>Recursion\<close>

definition ci_SetRecursionLimit :: "int \<Rightarrow> 's coded_in \<Rightarrow> 's coded_in" where
  "ci_SetRecursionLimit limit c = c\<lparr> ci_depth_limit := limit \<rparr>"

definition ci_IncrementRecursionDepth :: "'s coded_in \<Rightarrow> bool \<times> 's coded_in" where
  "ci_IncrementRecursionDepth c =
     (let d = ci_depth c + 1 in (d \<le> ci_depth_limit c, c\<lparr> ci_depth := d \<rparr>))"

definition ci_DecrementRecursionDepth :: "'s coded_in \<Rightarrow> 's coded_in" where
  "ci_DecrementRecursionDepth c = (if 0 < ci_depth c then c\<lparr> ci_depth := ci_depth c - 1 \<rparr> else c)"


section \<open>The contract of a stream\<close>

text \<open>What a stream is to its reader: the bytes it has yet to deliver, the bytes \<open>BackUp\<close> can
  return to it (after a \<open>Next\<close> they end with the block it delivered), its own invariant, and how many empty blocks may still come in a row.\<close>

record 's zc_view =
  zv_wf :: "'s \<Rightarrow> bool"
  zv_left :: "'s \<Rightarrow> byte list"
  zv_last :: "'s \<Rightarrow> byte list"
  zv_empties :: "'s \<Rightarrow> nat"

locale zero_copy_input =
  fixes zi :: "'s zc_input" and vw :: "'s zc_view"
  assumes next_returns: "zv_wf vw s \<Longrightarrow> \<exists>r. zc_Next zi s = Some r"
    and next_data: "zv_wf vw s \<Longrightarrow> zc_Next zi s = Some (Some d, s') \<Longrightarrow>
      zv_wf vw s' \<and> zv_left vw s = d @ zv_left vw s' \<and> (\<exists>pre. zv_last vw s' = pre @ d) \<and>
      (d = [] \<longrightarrow> zv_empties vw s' < zv_empties vw s)"
    and next_end: "zv_wf vw s \<Longrightarrow> zc_Next zi s = Some (None, s') \<Longrightarrow>
      zv_wf vw s' \<and> zv_left vw s = [] \<and> zv_left vw s' = []"
    and backup: "zv_wf vw s \<Longrightarrow> 0 < n \<Longrightarrow> nat n \<le> length (zv_last vw s) \<Longrightarrow>
      \<exists>s'. zc_BackUp zi n s = Some s' \<and> zv_wf vw s' \<and>
        zv_left vw s' = drop (length (zv_last vw s) - nat n) (zv_last vw s) @ zv_left vw s"
    and skip: "zv_wf vw s \<Longrightarrow> 0 \<le> n \<Longrightarrow>
      \<exists>b s'. zc_Skip zi n s = Some (b, s') \<and> zv_wf vw s' \<and>
        zv_left vw s' = drop (nat n) (zv_left vw s) \<and>
        (0 < n \<longrightarrow> b = (nat n \<le> length (zv_left vw s))) \<and> (\<not> b \<longrightarrow> zv_left vw s' = [])"

section \<open>What the reader can see\<close>

text \<open>\<open>ahead\<close> are the bytes from the current position on, as far as the stream goes: the end
  of the last block and what the stream still has. The limits cut them to \<open>visible\<close>.\<close>

definition ci_back :: "'s coded_in \<Rightarrow> nat" where
  "ci_back c = nat (ci_size c + ci_after c + ci_overflow c)"

definition ahead :: "'s zc_view \<Rightarrow> 's coded_in \<Rightarrow> byte list" where
  "ahead vw c =
     drop (length (zv_last vw (ci_input c)) - ci_back c) (zv_last vw (ci_input c)) @
     zv_left vw (ci_input c)"

definition visible :: "'s zc_view \<Rightarrow> 's coded_in \<Rightarrow> byte list" where
  "visible vw c = take (nat (ci_closest c - ci_CurrentPosition c)) (ahead vw c)"

text \<open>The counters agree with each other and with the block, and stay in the range of an
  \<open>int\<close>.\<close>

definition ci_ok :: "'s zc_view \<Rightarrow> 's coded_in \<Rightarrow> bool" where
  "ci_ok vw c \<longleftrightarrow>
     zv_wf vw (ci_input c) \<and> 0 \<le> ci_size c \<and> 0 \<le> ci_overflow c \<and>
     ci_size c + ci_after c \<le> ci_read c \<and> ci_read c \<le> INT_MAX \<and>
     ci_limit c \<le> INT_MAX \<and> ci_total_limit c \<le> INT_MAX \<and>
     ci_after c = max 0 (ci_read c - ci_closest c) \<and>
     (0 < ci_overflow c \<longrightarrow> ci_read c = INT_MAX) \<and>
     ci_back c \<le> length (zv_last vw (ci_input c)) \<and>
     (ci_mem c = drop (length (zv_last vw (ci_input c)) - ci_back c) (zv_last vw (ci_input c)) \<or>
      ci_mem c = [] \<and> ci_size c = 0 \<and> ci_after c = 0)"

text \<open>What reading leaves alone.\<close>

definition same_rest :: "'s coded_in \<Rightarrow> 's coded_in \<Rightarrow> bool" where
  "same_rest c c' \<longleftrightarrow>
     ci_last_tag c' = ci_last_tag c \<and> ci_legit c' = ci_legit c \<and> ci_limit c' = ci_limit c \<and>
     ci_total_limit c' = ci_total_limit c \<and> ci_depth c' = ci_depth c \<and>
     ci_depth_limit c' = ci_depth_limit c"

text \<open>The reader went over \<open>k\<close> visible bytes.\<close>

definition moved :: "'s zc_view \<Rightarrow> nat \<Rightarrow> 's coded_in \<Rightarrow> 's coded_in \<Rightarrow> bool" where
  "moved vw k c c' \<longleftrightarrow>
     ci_ok vw c' \<and> same_rest c c' \<and> k \<le> length (visible vw c) \<and>
     ci_CurrentPosition c' = ci_CurrentPosition c + int k \<and> ahead vw c' = drop k (ahead vw c)"

lemma ci_okD:
  assumes "ci_ok vw c"
  shows "zv_wf vw (ci_input c)" "0 \<le> ci_size c" "0 \<le> ci_overflow c" "0 \<le> ci_after c"
    "ci_size c + ci_after c \<le> ci_read c" "ci_read c \<le> INT_MAX" "ci_limit c \<le> INT_MAX"
    "ci_total_limit c \<le> INT_MAX" "ci_after c = max 0 (ci_read c - ci_closest c)"
    "0 < ci_overflow c \<Longrightarrow> ci_read c = INT_MAX"
    "ci_back c \<le> length (zv_last vw (ci_input c))"
  using assms by (auto simp: ci_ok_def)

lemma closest_le: "ci_ok vw c \<Longrightarrow> ci_closest c \<le> INT_MAX"
  by (auto simp: ci_ok_def ci_closest_def)

lemma length_buffer: "ci_ok vw c \<Longrightarrow> int (length (ci_buffer c)) = ci_size c"
  by (auto simp: ci_ok_def ci_buffer_def ci_back_def)

lemma buffer_Nil_iff: "ci_ok vw c \<Longrightarrow> ci_buffer c = [] \<longleftrightarrow> ci_size c = 0"
  using length_buffer [of vw c] by auto

lemma visible_split:
  assumes "ci_ok vw c"
  shows "visible vw c =
    ci_buffer c @ take (nat (ci_closest c - ci_read c)) (zv_left vw (ci_input c))"
proof -
  note ok = ci_okD [OF assms]
  let ?last = "zv_last vw (ci_input c)" and ?left = "zv_left vw (ci_input c)"
  define blk where "blk = drop (length ?last - ci_back c) ?last"
  have len: "int (length blk) = ci_size c + ci_after c + ci_overflow c"
    using ok by (simp add: blk_def ci_back_def)
  have gap: "ci_closest c - ci_CurrentPosition c = ci_size c + ci_after c + (ci_closest c - ci_read c)"
    by (simp add: ci_CurrentPosition_def ci_BufferSize_def)
  have buf: "ci_buffer c = take (nat (ci_size c)) blk"
    using assms by (auto simp: ci_ok_def ci_buffer_def blk_def)
  have ah: "ahead vw c = blk @ ?left" by (simp add: ahead_def blk_def)
  show ?thesis
  proof (cases "ci_after c = 0 \<and> ci_overflow c = 0")
    case True
    with ok have le: "ci_read c \<le> ci_closest c" by linarith
    have "nat (ci_closest c - ci_CurrentPosition c) = length blk + nat (ci_closest c - ci_read c)"
      using True len le ok(2) unfolding gap by linarith
    then show ?thesis using True len by (simp add: visible_def ah buf)
  next
    case False
    have "ci_after c + (ci_closest c - ci_read c) = 0"
      using False ok closest_le [OF assms] by linarith
    with ok have 1: "nat (ci_closest c - ci_CurrentPosition c) = nat (ci_size c)"
      and 2: "nat (ci_closest c - ci_read c) = 0" unfolding gap by linarith+
    have "nat (ci_size c) \<le> length blk" using len ok by linarith
    then show ?thesis using 2 by (simp add: visible_def ah buf 1)
  qed
qed

lemma moved_visible:
  assumes "moved vw k c c'"
  shows "visible vw c' = drop k (visible vw c)"
proof -
  have "ci_closest c' = ci_closest c" and p: "ci_CurrentPosition c' = ci_CurrentPosition c + int k"
    and a: "ahead vw c' = drop k (ahead vw c)"
    using assms by (auto simp: moved_def same_rest_def ci_closest_def)
  then have "nat (ci_closest c' - ci_CurrentPosition c')
      = nat (ci_closest c - ci_CurrentPosition c) - k" by linarith
  then show ?thesis by (simp add: visible_def a drop_take)
qed

lemma movedD:
  assumes "moved vw k c c'"
  shows "ci_ok vw c'" "same_rest c c'" "k \<le> length (visible vw c)"
    "ci_CurrentPosition c' = ci_CurrentPosition c + int k" "ahead vw c' = drop k (ahead vw c)"
  using assms by (auto simp: moved_def)

lemma same_rest_refl: "same_rest c c" by (simp add: same_rest_def)

lemma same_rest_trans: "same_rest a b \<Longrightarrow> same_rest b c \<Longrightarrow> same_rest a c"
  by (simp add: same_rest_def)

lemma moved_refl: "ci_ok vw c \<Longrightarrow> moved vw 0 c c"
  by (simp add: moved_def same_rest_refl)

lemma moved_trans:
  assumes 1: "moved vw j a b" and 2: "moved vw k b c"
  shows "moved vw (j + k) a c"
proof -
  have "k \<le> length (visible vw a) - j"
    using movedD(3) [OF 2] by (simp add: moved_visible [OF 1])
  with movedD [OF 1] movedD [OF 2] show ?thesis
    by (auto simp: moved_def add.commute intro: same_rest_trans)
qed

lemma moved_Advance:
  assumes ok: "ci_ok vw c" and k: "0 \<le> k" "k \<le> ci_size c"
  shows "moved vw (nat k) c (ci_Advance k c)"
proof -
  let ?last = "zv_last vw (ci_input c)"
  have bk: "ci_back (ci_Advance k c) = ci_back c - nat k" "nat k \<le> ci_back c"
    using k ok by (auto simp: ci_back_def ci_Advance_def ci_ok_def)
  have len: "length ?last - (ci_back c - nat k) = (length ?last - ci_back c) + nat k"
    using bk(2) ok by (simp add: ci_ok_def)
  have "ahead vw (ci_Advance k c) = drop (nat k) (ahead vw c)"
    using bk ci_okD(11) [OF ok]
    by (simp add: ahead_def len) (simp add: ci_Advance_def add.commute)
  moreover have "ci_ok vw (ci_Advance k c)"
  proof -
    have mem: "ci_mem (ci_Advance k c) = drop (length ?last - ci_back (ci_Advance k c)) ?last \<or>
        ci_mem (ci_Advance k c) = [] \<and> ci_size c - k = 0 \<and> ci_after c = 0"
      using ok k unfolding bk(1) len
      by (auto simp: ci_ok_def ci_Advance_def add.commute)
    have le: "ci_back (ci_Advance k c) \<le> length ?last" using bk(1) ci_okD(11) [OF ok] by simp
    note ci_okD [OF ok]
    then show ?thesis unfolding ci_ok_def
      using k mem le by (simp add: ci_Advance_def ci_closest_def)
  qed
  moreover have "nat k \<le> length (visible vw c)"
    using visible_split [OF ok] length_buffer [OF ok] k by auto
  ultimately show ?thesis using k
    by (simp add: moved_def same_rest_def ci_Advance_def ci_CurrentPosition_def ci_BufferSize_def)
qed

section \<open>Refilling the buffer\<close>

lemma ci_warn_same:
  "same_rest c (ci_warn c)" "ci_ok vw (ci_warn c) = ci_ok vw c" "ahead vw (ci_warn c) = ahead vw c"
  "ci_CurrentPosition (ci_warn c) = ci_CurrentPosition c" "ci_input (ci_warn c) = ci_input c"
  "ci_read (ci_warn c) = ci_read c" "ci_size (ci_warn c) = ci_size c"
  "ci_after (ci_warn c) = ci_after c" "ci_overflow (ci_warn c) = ci_overflow c"
  "ci_closest (ci_warn c) = ci_closest c"
  by (simp_all add: ci_warn_def same_rest_def ci_ok_def ahead_def ci_back_def ci_closest_def
      ci_CurrentPosition_def ci_BufferSize_def)

lemma ci_log_same:
  "same_rest c (c\<lparr> ci_log := l \<rparr>)" "ci_ok vw (c\<lparr> ci_log := l \<rparr>) = ci_ok vw c"
  "ahead vw (c\<lparr> ci_log := l \<rparr>) = ahead vw c"
  "ci_CurrentPosition (c\<lparr> ci_log := l \<rparr>) = ci_CurrentPosition c"
  by (simp_all add: same_rest_def ci_ok_def ahead_def ci_back_def ci_closest_def
      ci_CurrentPosition_def ci_BufferSize_def)

lemma ci_log_limit_moved: "ci_ok vw c \<Longrightarrow> moved vw 0 c (ci_log_limit c)"
  by (simp add: ci_log_limit_def moved_def ci_log_same same_rest_refl)

lemma ci_load_moved:
  assumes ok: "ci_ok vw c" and sz: "ci_size c = 0" "ci_after c = 0" "ci_overflow c = 0"
    and lim: "ci_read c \<noteq> ci_limit c"
    and s: "zv_wf vw s'" "zv_left vw (ci_input c) = d @ zv_left vw s'" "zv_last vw s' = pre @ d" "d \<noteq> []"
  shows "moved vw 0 c (ci_load d s' c) \<and> (0 < ci_size (ci_load d s' c) \<or> 0 < ci_after (ci_load d s' c))"
proof -
  note o = ci_okD [OF ok]
  define n where "n = int (length d)"
  have n: "0 < n" using s(4) by (simp add: n_def)
  have le: "ci_read c \<le> ci_closest c" using o(9) sz by linarith
  let ?c = "ci_load d s' c"
  obtain r over where ro: "r = min INT_MAX (ci_read c + n)" "over = max 0 (ci_read c + n - INT_MAX)"
    by blast
  have f: "ci_read ?c = r" "ci_overflow ?c = over" "ci_after ?c = max 0 (r - ci_closest c)"
    "ci_size ?c = n - over - max 0 (r - ci_closest c)" "ci_input ?c = s'" "ci_mem ?c = d"
    "same_rest c ?c"
    using sz closest_le [OF ok] n
    by (auto simp: ci_load_def n_def [symmetric] ro Let_def ci_RecomputeBufferLimits_def
        ci_closest_def same_rest_def)
  have "0 \<le> ci_read c" using o(5) sz by simp
  moreover have "ci_read c < INT_MAX" using le lim o(7) by (auto simp: ci_closest_def)
  ultimately have ar: "0 \<le> n - over - max 0 (r - ci_closest c)" "n - over \<le> r" "0 \<le> over"
    "r \<le> INT_MAX" "0 < over \<Longrightarrow> r = INT_MAX" "0 < n - over - max 0 (r - ci_closest c) \<or> r > ci_closest c"
    "r - (n - over) = ci_read c"
    using o(6) le n closest_le [OF ok] unfolding ro by linarith+
  have bk: "ci_back ?c = length d" using f by (simp add: ci_back_def n_def)
  have cl: "ci_closest ?c = ci_closest c" using f(7) by (simp add: same_rest_def ci_closest_def)
  have "ci_ok vw ?c"
    unfolding ci_ok_def bk cl f(1-6) s(3) using f(7) o(7,8) ar s(1) by (simp add: same_rest_def)
  moreover have "ahead vw ?c = ahead vw c"
  proof -
    have "ci_back c = 0" using sz by (simp add: ci_back_def)
    then show ?thesis using s by (simp add: ahead_def bk f(5))
  qed
  moreover have "ci_CurrentPosition ?c = ci_CurrentPosition c"
    using f(1,3,4) ar(7) sz by (simp add: ci_CurrentPosition_def ci_BufferSize_def)
  ultimately show ?thesis using f(3,4,7) ar(6) by (auto simp: moved_def)
qed

text \<open>\<open>ReadStringFallback\<close> is the same loop.\<close>

lemma ReadString_loop_raw:
  fixes zi :: "'s zc_input"
  assumes "ci_ReadRaw_loop zi buffer n c = Some r"
  shows "ci_ReadString_loop zi buffer n c = Some r"
proof (rule ci_ReadRaw_loop.raw_induct [OF _ assms])
  fix f and zi :: "'s zc_input" and buffer n c r
  assume IH: "\<And>zi buffer n c r. f zi buffer n c = Some r \<Longrightarrow>
      ci_ReadString_loop zi buffer n c = Some (r :: bool \<times> byte list \<times> 's coded_in)"
    and run: "(if ci_BufferSize c < n
      then do {
        let buffer' = buffer @ ci_buffer c;
        (ok, c') \<leftarrow> ci_Refresh zi (ci_Advance (ci_BufferSize c) c);
        if ok then f zi buffer' (n - ci_BufferSize c) c'
        else Some (False, buffer', c')
      }
      else Some (True, buffer @ take (nat n) (ci_mem c), ci_Advance n c)) = Some r"
  have buf: "(if ci_BufferSize c \<noteq> 0 then buffer @ ci_buffer c else buffer) = buffer @ ci_buffer c"
    by (simp add: ci_BufferSize_def ci_buffer_def)
  show "ci_ReadString_loop zi buffer n c = Some r"
  proof (cases "ci_BufferSize c < n")
    case False
    with run show ?thesis by (subst ci_ReadString_loop.simps) simp
  next
    case True
    with run obtain ok c' where
      r: "ci_Refresh zi (ci_Advance (ci_BufferSize c) c) = Some (ok, c')"
      and s: "(if ok then f zi (buffer @ ci_buffer c) (n - ci_BufferSize c) c'
        else Some (False, buffer @ ci_buffer c, c')) = Some r"
      by (auto simp: bind_eq_Some_conv Let_def)
    have "(if ok then ci_ReadString_loop zi (buffer @ ci_buffer c) (n - ci_BufferSize c) c'
        else Some (False, buffer @ ci_buffer c, c')) = Some r"
    proof (cases ok)
      case True
      with s IH show ?thesis by simp
    qed (use s in simp)
    with True r show ?thesis
      by (subst ci_ReadString_loop.simps) (simp only: buf Let_def if_True bind.bind_lunit prod.case)
  qed
qed

context zero_copy_input begin

lemma NextNonEmpty_data:
  assumes "zv_wf vw s"
  shows "(\<exists>d s'. NextNonEmpty zi s = Some (Some d, s') \<and> zv_wf vw s' \<and>
      zv_left vw s = d @ zv_left vw s' \<and> (\<exists>pre. zv_last vw s' = pre @ d) \<and> d \<noteq> []) \<or>
    (\<exists>s'. NextNonEmpty zi s = Some (None, s') \<and> zv_wf vw s' \<and>
      zv_left vw s = [] \<and> zv_left vw s' = [])"
  using assms
proof (induction "zv_empties vw s" arbitrary: s rule: less_induct)
  case less
  from next_returns [OF less.prems] obtain data s' where n: "zc_Next zi s = Some (data, s')"
    by fastforce
  show ?case
  proof (cases data)
    case None
    with next_end [OF less.prems] n show ?thesis by (simp add: NextNonEmpty.simps)
  next
    case (Some d)
    note dd = next_data [OF less.prems n [unfolded Some]]
    show ?thesis
    proof (cases "d = []")
      case True
      with dd n Some have "NextNonEmpty zi s = NextNonEmpty zi s'"
        by (subst NextNonEmpty.simps) simp
      then show ?thesis using less.hyps [of s'] dd True by simp
    next
      case False
      with dd n Some show ?thesis by (simp add: NextNonEmpty.simps)
    qed
  qed
qed

lemma Refresh_moved:
  assumes ok: "ci_ok vw c" and sz: "ci_size c = 0"
  shows "\<exists>b c'. ci_Refresh zi c = Some (b, c') \<and> moved vw 0 c c' \<and>
    (b \<longrightarrow> 0 < ci_size c' \<or> 0 < ci_after c') \<and> (\<not> b \<longrightarrow> ci_size c' = 0 \<and> visible vw c = [])"
proof (cases "0 < ci_after c \<or> 0 < ci_overflow c \<or> ci_read c = ci_limit c")
  case True
  then have "ci_closest c \<le> ci_read c"
    using ci_okD [OF ok] closest_le [OF ok] by (auto simp: ci_closest_def)
  then have "visible vw c = []"
    using visible_split [OF ok] buffer_Nil_iff [OF ok] sz by simp
  moreover have "ci_size (ci_log_limit c) = 0" using sz by (simp add: ci_log_limit_def)
  moreover have "ci_Refresh zi c = Some (False, ci_log_limit c)"
    using True by (simp add: ci_Refresh_def)
  ultimately show ?thesis using ci_log_limit_moved [OF ok] by blast
next
  case False
  let ?c = "ci_warn c"
  have w: "ci_ok vw ?c" "ci_size ?c = 0" "ci_after ?c = 0" "ci_overflow ?c = 0"
    using ok sz False ci_okD(3,4) [OF ok] by (auto simp: ci_warn_same)
  have lim: "ci_read ?c \<noteq> ci_limit ?c"
    using False ci_warn_same(1) [of c] by (simp add: ci_warn_same same_rest_def)
  have m0: "moved vw 0 c ?c" using ok by (simp add: moved_def ci_warn_same)
  consider (data) d s' pre where "NextNonEmpty zi (ci_input ?c) = Some (Some d, s')" "zv_wf vw s'"
      "zv_left vw (ci_input ?c) = d @ zv_left vw s'" "zv_last vw s' = pre @ d" "d \<noteq> []"
    | (fin) s' where "NextNonEmpty zi (ci_input ?c) = Some (None, s')" "zv_wf vw s'"
      "zv_left vw (ci_input ?c) = []" "zv_left vw s' = []"
    using NextNonEmpty_data [OF ci_okD(1) [OF w(1)]] by blast
  then show ?thesis
  proof cases
    case data
    then have "ci_Refresh zi c = Some (True, ci_load d s' ?c)"
      using False by (simp add: ci_Refresh_def Let_def)
    moreover note ci_load_moved [OF w lim data(2-5)]
    ultimately show ?thesis using moved_trans [OF m0, of 0] by auto
  next
    case fin
    let ?e = "?c\<lparr> ci_input := s', ci_mem := [], ci_size := 0 \<rparr>"
    have r: "ci_Refresh zi c = Some (False, ?e)"
      using False fin by (simp add: ci_Refresh_def Let_def)
    have z: "ci_back ?e = 0" "ci_back ?c = 0" using w by (simp_all add: ci_back_def)
    have a: "ahead vw ?c = []" "ahead vw ?e = []" using fin z by (simp_all add: ahead_def)
    have "ci_ok vw ?e" using ci_okD [OF w(1)] fin(2) w z(1)
      by (simp add: ci_ok_def) (simp add: ci_closest_def)
    then have "moved vw 0 ?c ?e"
      using a w by (simp add: moved_def same_rest_def ci_CurrentPosition_def ci_BufferSize_def)
    moreover have "visible vw c = []" using a(1) by (simp add: visible_def ci_warn_same)
    ultimately show ?thesis using r moved_trans [OF m0, of 0] by auto
  qed
qed

section \<open>The operations on the visible bytes\<close>

text \<open>A read of \<open>n\<close> bytes either finds them all, or takes what is visible and fails.\<close>

definition takes :: "nat \<Rightarrow> 's coded_in \<Rightarrow> byte list \<Rightarrow> bool \<times> byte list \<times> 's coded_in \<Rightarrow> bool" where
  "takes n c buffer r \<longleftrightarrow> (case r of (ok, out, c') \<Rightarrow>
     ok = (n \<le> length (visible vw c)) \<and> out = buffer @ take n (visible vw c) \<and>
     moved vw (min n (length (visible vw c))) c c')"

lemma moved_takes:
  assumes m: "moved vw k c c1" and t: "takes n c1 (buffer @ take k (visible vw c)) r"
  shows "takes (k + n) c buffer r"
proof -
  obtain ok out c' where r: "r = (ok, out, c')" by (cases r)
  note v = moved_visible [OF m] and k = movedD(3) [OF m]
  have "moved vw (min n (length (visible vw c1))) c1 c'"
    using t by (simp add: takes_def r)
  note * = moved_trans [OF m this]
  have "moved vw (min (k + n) (length (visible vw c))) c c'"
  proof -
    have "k + min n (length (visible vw c) - k) = min (k + n) (length (visible vw c))"
      using k by linarith
    then show ?thesis using * by (simp add: v)
  qed
  moreover have "out = buffer @ take (k + n) (visible vw c)"
    using t by (simp add: takes_def r v take_add)
  moreover have "ok = (k + n \<le> length (visible vw c))"
    using t k by (auto simp: takes_def r v)
  ultimately show ?thesis by (simp add: takes_def r)
qed

lemma ReadRaw_primed:
  assumes "ci_ok vw c" and "0 \<le> n" and "0 < ci_size c \<or> 0 < ci_after c"
  shows "\<exists>r. ci_ReadRaw_loop zi buffer n c = Some r \<and> takes (nat n) c buffer r"
  using assms
proof (induction "nat n" arbitrary: n c buffer rule: less_induct)
  case less
  note ok = less.prems(1)
  note v = visible_split [OF ok] and len = length_buffer [OF ok]
  then have nl: "nat (ci_size c) = length (ci_buffer c)" by simp
  show ?case
  proof (cases "ci_size c < n")
    case False
    then have "take (nat n) (visible vw c) = take (nat n) (ci_mem c)"
      using len by (simp add: v ci_buffer_def min_def)
    with False moved_Advance [OF ok less.prems(2)] less.prems(2) len
    show ?thesis by (subst ci_ReadRaw_loop.simps) (auto simp: ci_BufferSize_def takes_def v)
  next
    case True
    define c1 where "c1 = ci_Advance (ci_size c) c"
    have m1: "moved vw (nat (ci_size c)) c c1"
      unfolding c1_def by (rule moved_Advance [OF ok ci_okD(2) [OF ok]]) simp
    have sz1: "ci_size c1 = 0" "ci_after c1 = ci_after c" by (simp_all add: c1_def ci_Advance_def)
    from Refresh_moved [OF movedD(1) [OF m1] sz1(1)] obtain b c2 where
      r: "ci_Refresh zi c1 = Some (b, c2)" and m2: "moved vw 0 c1 c2"
      and b: "b \<longrightarrow> 0 < ci_size c2 \<or> 0 < ci_after c2" "\<not> b \<longrightarrow> visible vw c1 = []" by blast
    have m: "moved vw (nat (ci_size c)) c c2" using moved_trans [OF m1 m2] by simp
    have pre: "take (nat (ci_size c)) (visible vw c) = ci_buffer c"
      using len by (simp add: v)
    show ?thesis
    proof (cases b)
      case False
      have "visible vw c = ci_buffer c"
        using b False moved_visible [OF m1] pre by (metis append_Nil2 append_take_drop_id)
      then have "takes (nat n) c buffer (False, buffer @ ci_buffer c, c2)"
        using m [unfolded nl] len True by (auto simp: takes_def min_def)
      then show ?thesis using True r False
        by (subst ci_ReadRaw_loop.simps) (auto simp: ci_BufferSize_def c1_def [symmetric])
    next
      case b': True
      have "0 < ci_size c"
      proof (rule ccontr)
        assume "\<not> 0 < ci_size c"
        with less.prems(3) have "0 < ci_after c1" by (simp add: sz1)
        then show False using r b' by (simp add: ci_Refresh_def)
      qed
      then have "nat (n - ci_size c) < nat n" using True by simp
      then have "\<exists>r'. ci_ReadRaw_loop zi (buffer @ ci_buffer c) (n - ci_size c) c2 = Some r' \<and>
          takes (nat (n - ci_size c)) c2 (buffer @ ci_buffer c) r'"
        by (rule less.hyps) (use True b b' movedD(1) [OF m2] in auto)
      then obtain r' where
        l: "ci_ReadRaw_loop zi (buffer @ ci_buffer c) (n - ci_size c) c2 = Some r'"
        and t: "takes (nat (n - ci_size c)) c2 (buffer @ ci_buffer c) r'" by blast
      have "takes (nat (ci_size c) + nat (n - ci_size c)) c buffer r'"
        by (rule moved_takes [OF m]) (use t pre in simp)
      moreover have "nat (ci_size c) + nat (n - ci_size c) = nat n"
        using True ci_okD(2) [OF ok] by simp
      ultimately show ?thesis using True r b' l
        by (subst ci_ReadRaw_loop.simps) (auto simp: ci_BufferSize_def c1_def [symmetric])
    qed
  qed
qed

lemma ReadRaw_loop_takes:
  assumes ok: "ci_ok vw c" and n: "0 \<le> n"
  shows "\<exists>r. ci_ReadRaw_loop zi buffer n c = Some r \<and> takes (nat n) c buffer r"
proof (cases "0 < ci_size c \<or> 0 < ci_after c \<or> n = 0")
  case True
  then consider "0 < ci_size c \<or> 0 < ci_after c" | "n = 0" by blast
  then show ?thesis
  proof cases
    case 1
    then show ?thesis by (rule ReadRaw_primed [OF ok n])
  next
    case 2
    then show ?thesis using ci_okD(2) [OF ok] moved_Advance [OF ok, of 0]
      by (subst ci_ReadRaw_loop.simps) (auto simp: ci_BufferSize_def takes_def)
  qed
next
  case False
  with ok have sz: "ci_size c = 0" by (simp add: ci_ok_def)
  then have bs: "ci_BufferSize c = 0" and adv: "ci_Advance 0 c = c" and buf: "ci_buffer c = []"
    by (simp_all add: ci_Advance_def ci_buffer_def ci_BufferSize_def)
  have unf: "ci_ReadRaw_loop zi buffer n c = do {
      (ok, c') \<leftarrow> ci_Refresh zi c;
      if ok then ci_ReadRaw_loop zi buffer n c' else Some (False, buffer, c') }"
    using False n by (subst ci_ReadRaw_loop.simps) (simp add: bs adv buf cong: if_cong)
  from Refresh_moved [OF ok sz] obtain b c2 where
    r: "ci_Refresh zi c = Some (b, c2)" and m: "moved vw 0 c c2"
    and b: "b \<longrightarrow> 0 < ci_size c2 \<or> 0 < ci_after c2" "\<not> b \<longrightarrow> visible vw c = []" by blast
  show ?thesis
  proof (cases b)
    case True
    with ReadRaw_primed [OF movedD(1) [OF m] n] b obtain r' where
      "ci_ReadRaw_loop zi buffer n c2 = Some r'" "takes (nat n) c2 buffer r'" by blast
    then show ?thesis using moved_takes [OF m, of "nat n" buffer] r True by (auto simp: unf)
  next
    case f: False
    then have "takes (nat n) c buffer (False, buffer, c2)"
      using b False n m by (simp add: takes_def)
    then show ?thesis using r f by (auto simp: unf)
  qed
qed

lemma ReadRaw_takes:
  "ci_ok vw c \<Longrightarrow> 0 \<le> n \<Longrightarrow> \<exists>r. ci_ReadRaw zi n c = Some r \<and> takes (nat n) c [] r"
  unfolding ci_ReadRaw_def by (rule ReadRaw_loop_takes)

lemma ReadString_takes:
  assumes ok: "ci_ok vw c" and n: "0 \<le> n"
  shows "\<exists>r. ci_ReadString zi str n c = Some r \<and> takes (nat n) c [] r"
proof (cases "n \<le> ci_size c")
  case True
  have "take (nat n) (visible vw c) = take (nat n) (ci_mem c)"
    using True length_buffer [OF ok] n by (simp add: visible_split [OF ok] ci_buffer_def min_def)
  moreover have "nat n \<le> length (visible vw c)"
    using True length_buffer [OF ok] n by (simp add: visible_split [OF ok])
  ultimately show ?thesis
    using True n moved_Advance [OF ok n True] moved_refl [OF ok]
    by (auto simp: ci_ReadString_def ci_BufferSize_def takes_def)
next
  case False
  then have "ci_ReadString zi str n c = ci_ReadString_loop zi [] n c"
    using n by (simp add: ci_ReadString_def ci_BufferSize_def ci_ReadStringFallback_def)
  then show ?thesis using ReadRaw_loop_takes [OF ok n, of "[]"] ReadString_loop_raw by fastforce
qed

lemma fill_moved:
  assumes ok: "ci_ok vw c"
  shows "\<exists>c'. ci_fill zi c = Some (visible vw c \<noteq> [], c') \<and> moved vw 0 c c' \<and>
    (visible vw c \<noteq> [] \<longrightarrow> 0 < ci_size c')"
proof (cases "ci_size c = 0")
  case False
  then have "ci_fill zi c = Some (True, c)" "0 < ci_size c"
    using ci_okD(2) [OF ok] by (simp_all add: ci_fill.simps ci_BufferSize_def)
  then show ?thesis using moved_refl [OF ok] visible_split [OF ok] buffer_Nil_iff [OF ok] by auto
next
  case True
  have unf: "ci_fill zi c = do { (ok, c') \<leftarrow> ci_Refresh zi c;
      if ok then ci_fill zi c' else Some (False, c') }"
    using True by (subst ci_fill.simps) (simp add: ci_BufferSize_def)
  from Refresh_moved [OF ok True] obtain b c2 where
    r: "ci_Refresh zi c = Some (b, c2)" and m: "moved vw 0 c c2"
    and b: "b \<longrightarrow> 0 < ci_size c2 \<or> 0 < ci_after c2" "\<not> b \<longrightarrow> visible vw c = []" by blast
  note ok2 = movedD(1) [OF m]
  have v: "visible vw c2 = visible vw c" using moved_visible [OF m] by simp
  show ?thesis
  proof (cases "b \<and> 0 < ci_size c2")
    case True
    then have "ci_fill zi c2 = Some (True, c2)" by (simp add: ci_fill.simps ci_BufferSize_def)
    then show ?thesis
      using True r m v visible_split [OF ok2] buffer_Nil_iff [OF ok2] by (auto simp: unf)
  next
    case False
    show ?thesis
    proof (cases b)
      case b': True
      with False b ci_okD(2) [OF ok2] have z: "ci_size c2 = 0" "0 < ci_after c2" by auto
      from Refresh_moved [OF ok2 z(1)] obtain b3 c3 where
        r3: "ci_Refresh zi c2 = Some (b3, c3)" "moved vw 0 c2 c3" "\<not> b3 \<longrightarrow> visible vw c2 = []"
        by blast
      have "\<not> b3" using r3(1) z by (simp add: ci_Refresh_def)
      then have "ci_fill zi c2 = Some (False, c3)"
        using r3 z by (simp add: ci_fill.simps ci_BufferSize_def)
      then show ?thesis using r b' r3 \<open>\<not> b3\<close> v moved_trans [OF m r3(2)] by (auto simp: unf)
    next
      case False
      then show ?thesis using r b m by (auto simp: unf)
    qed
  qed
qed

end

end
