(* ===== verification/GF_StreamRead.thy ===== *)
theory GF_StreamRead
  imports GF_Stream GF_Message
begin

text \<open>
  The integer and tag readers of \<open>CodedInputStream\<close> over a stream of blocks, against the
  models of the same functions over one array: what they return depends on the visible bytes
  only, not on how the stream cuts them, and they return.
\<close>

section \<open>The varint readers on a prefix\<close>

text \<open>An unrolled reader that stays inside the buffer does the same with more bytes behind
  it.\<close>

lemma Slow_loop_suffix:
  "ReadVarint64Slow_loop n k r bs = (x, rest) \<Longrightarrow> rest = drop (length bs - length rest) bs"
proof (induction n k r bs rule: ReadVarint64Slow_loop.induct)
  case (3 n k r b bs)
  show ?case
  proof (cases "b AND 0x80 = 0")
    case False
    with 3 have "ReadVarint64Slow_loop n (Suc k) (r OR push_bit (7 * k) (ucast (b AND 0x7F))) bs = (x, rest)"
      by (simp add: Let_def)
    with 3(1) [OF refl False] ReadVarint64Slow_loop_length [OF this] show ?thesis
      by (simp add: Suc_diff_le)
  qed (use 3 in \<open>auto simp: Let_def\<close>)
qed auto

lemma Slow_suffix: "ReadVarint64Slow bs = (x, rest) \<Longrightarrow> rest = drop (length bs - length rest) bs"
  unfolding ReadVarint64Slow_def by (rule Slow_loop_suffix)

fun part_append :: "vpart \<Rightarrow> byte list \<Rightarrow> vpart" where
  "part_append (Pdone p rest) x = Pdone p (rest @ x)"
| "part_append (Pmore p rest) x = Pmore p (rest @ x)"
| "part_append Poverrun x = Poverrun"

fun read_append :: "'a vread \<Rightarrow> byte list \<Rightarrow> 'a vread" where
  "read_append (Vdone v rest) x = Vdone v (rest @ x)"
| "read_append Vnull x = Vnull"
| "read_append Voverrun x = Voverrun"

lemma rv64_part_append:
  "rv64_part n k p bs \<noteq> Poverrun \<Longrightarrow> rv64_part n k p (bs @ x) = part_append (rv64_part n k p bs) x"
  by (induction n k p bs rule: rv64_part.induct) (simp_all add: Let_def split: if_splits)

lemma FromArray64_append:
  assumes "ReadVarint64FromArray bs \<noteq> Voverrun"
  shows "ReadVarint64FromArray (bs @ x) = read_append (ReadVarint64FromArray bs) x"
  using assms unfolding ReadVarint64FromArray_def
  by (auto simp: rv64_part_append split: vpart.splits)

lemma rv32_append:
  "rv32_discard i r bs \<noteq> Voverrun \<Longrightarrow> rv32_discard i r (bs @ x) = read_append (rv32_discard i r bs) x"
  "rv32_unrolled n k r bs \<noteq> Voverrun \<Longrightarrow>
     rv32_unrolled n k r (bs @ x) = read_append (rv32_unrolled n k r bs) x"
proof -
  show d: "rv32_discard i r bs \<noteq> Voverrun \<Longrightarrow>
      rv32_discard i r (bs @ x) = read_append (rv32_discard i r bs) x" for i r bs
    by (induction i r bs rule: rv32_discard.induct) (simp_all split: if_splits)
  show "rv32_unrolled n k r bs \<noteq> Voverrun \<Longrightarrow>
      rv32_unrolled n k r (bs @ x) = read_append (rv32_unrolled n k r bs) x"
    by (induction n k r bs rule: rv32_unrolled.induct) (simp_all add: Let_def d split: if_splits)
qed

lemma FromArray32_append:
  "ReadVarint32FromArray bs \<noteq> Voverrun \<Longrightarrow>
     ReadVarint32FromArray (bs @ x) = read_append (ReadVarint32FromArray bs) x"
  by (simp add: ReadVarint32FromArray_def rv32_append)


section \<open>Reading integers\<close>

definition went :: "'s zc_view \<Rightarrow> 's coded_in \<Rightarrow> 's coded_in \<Rightarrow> bool" where
  "went vw c c' \<longleftrightarrow> (\<exists>k. moved vw k c c')"

text \<open>The call returns what the array version \<open>flat\<close> returns; after a success the same bytes
  are left.\<close>

definition reads_as :: "'s zc_view \<Rightarrow> 's coded_in \<Rightarrow> 'a option \<times> byte list \<Rightarrow>
    ('a option \<times> 's coded_in) option \<Rightarrow> bool" where
  "reads_as vw c flat r \<longleftrightarrow> (\<exists>c'. r = Some (fst flat, c') \<and> went vw c c' \<and>
     (fst flat \<noteq> None \<longrightarrow> visible vw c' = snd flat))"

definition le_array :: "nat \<Rightarrow> byte list \<Rightarrow> 'a::len word option \<times> byte list" where
  "le_array n bs = (if n \<le> length bs then (Some (le_word (take n bs)), drop n bs) else (None, []))"

lemma went_refl: "ci_ok vw c \<Longrightarrow> went vw c c"
  unfolding went_def by (blast intro: moved_refl)

lemma went_trans: "went vw a b \<Longrightarrow> went vw b c \<Longrightarrow> went vw a c"
  unfolding went_def by (blast intro: moved_trans)

lemma went_moved: "moved vw k a b \<Longrightarrow> went vw a b"
  unfolding went_def by blast

lemma went_ok: "went vw a b \<Longrightarrow> ci_ok vw b"
  unfolding went_def by (blast intro: movedD)

lemma went_same: "went vw a b \<Longrightarrow> same_rest a b"
  unfolding went_def by (blast intro: movedD)

lemma went_end:
  "went vw a b \<Longrightarrow> ci_CurrentPosition b + int (length (visible vw b)) =
     ci_CurrentPosition a + int (length (visible vw a))"
  by (auto simp: went_def moved_visible movedD)

lemma reads_as_moved:
  assumes m: "moved vw 0 c c1" and r: "reads_as vw c1 flat r"
  shows "reads_as vw c flat r"
  using r went_trans [OF went_moved [OF m]] by (auto simp: reads_as_def)

lemma moved_to:
  assumes ok: "ci_ok vw c" and rest: "rest = drop (length (ci_buffer c) - length rest) (ci_buffer c)"
    and le: "length rest \<le> length (ci_buffer c)"
  shows "moved vw (length (ci_buffer c) - length rest) c (ci_advance_to rest c)"
    and "visible vw (ci_advance_to rest c) =
      rest @ take (nat (ci_closest c - ci_read c)) (zv_left vw (ci_input c))"
proof -
  have k: "0 \<le> int (length (ci_buffer c)) - int (length rest)"
    "int (length (ci_buffer c)) - int (length rest) \<le> ci_size c"
    using le length_buffer [OF ok] by auto
  show m: "moved vw (length (ci_buffer c) - length rest) c (ci_advance_to rest c)"
  proof -
    have n: "nat (int (length (ci_buffer c)) - int (length rest)) = length (ci_buffer c) - length rest"
      by linarith
    show ?thesis using moved_Advance [OF ok k] unfolding n ci_advance_to_def .
  qed
  show "visible vw (ci_advance_to rest c) =
      rest @ take (nat (ci_closest c - ci_read c)) (zv_left vw (ci_input c))"
    using le rest by (simp add: moved_visible [OF m] visible_split [OF ok])
qed

text \<open>The common case of one byte.\<close>

lemma one_byte:
  assumes ok: "ci_ok vw c" and sz: "0 < ci_size c"
  shows "ci_buffer c = hd (ci_mem c) # drop 1 (ci_buffer c)"
    and "visible vw c = hd (ci_mem c) # visible vw (ci_Advance 1 c)"
    and "moved vw 1 c (ci_Advance 1 c)"
proof -
  have "ci_buffer c \<noteq> []" using buffer_Nil_iff [OF ok] sz by simp
  moreover from this have "ci_mem c \<noteq> []" by (auto simp: ci_buffer_def)
  moreover have "hd (ci_buffer c) = hd (ci_mem c)" using sz by (simp add: ci_buffer_def hd_take)
  ultimately show b: "ci_buffer c = hd (ci_mem c) # drop 1 (ci_buffer c)"
    by (metis drop0 drop_Suc list.collapse One_nat_def)
  show m: "moved vw 1 c (ci_Advance 1 c)" using moved_Advance [OF ok, of 1] sz by simp
  have "visible vw c = hd (ci_mem c) # tl (visible vw c)"
  proof -
    from b obtain t where "ci_buffer c = hd (ci_mem c) # t" by blast
    then show ?thesis by (simp add: visible_split [OF ok])
  qed
  then show "visible vw c = hd (ci_mem c) # visible vw (ci_Advance 1 c)"
    by (simp add: moved_visible [OF m] drop_Suc)
qed

context zero_copy_input begin

lemma Slow_loop_reads:
  assumes "ci_ok vw c"
  shows "\<exists>c'. ci_ReadVarint64Slow_loop zi n k r c =
      Some (fst (ReadVarint64Slow_loop n k r (visible vw c)), c') \<and> went vw c c' \<and>
      visible vw c' = snd (ReadVarint64Slow_loop n k r (visible vw c))"
  using assms
proof (induction n arbitrary: k r c)
  case 0
  then show ?case by (simp add: went_refl)
next
  case (Suc n)
  from fill_moved [OF Suc.prems] obtain c1 where
    f: "ci_fill zi c = Some (visible vw c \<noteq> [], c1)" and m: "moved vw 0 c c1"
    and sz: "visible vw c \<noteq> [] \<longrightarrow> 0 < ci_size c1" by blast
  have v: "visible vw c1 = visible vw c" using moved_visible [OF m] by simp
  show ?case
  proof (cases "visible vw c = []")
    case True
    with f m v show ?thesis by (auto intro: went_moved)
  next
    case False
    note ob = one_byte [OF movedD(1) [OF m] sz [rule_format, OF False]]
    let ?b = "hd (ci_mem c1)" and ?c2 = "ci_Advance 1 c1"
    have vs: "visible vw c = ?b # visible vw ?c2" using ob(2) v by simp
    have w: "went vw c ?c2" using went_trans [OF went_moved [OF m] went_moved [OF ob(3)]] .
    show ?thesis
    proof (cases "?b AND 0x80 = 0")
      case True
      then show ?thesis using f False w by (simp add: vs Let_def)
    next
      case c: False
      from Suc.IH [OF went_ok [OF w]] obtain c' where
        "ci_ReadVarint64Slow_loop zi n (Suc k) (r OR push_bit (7 * k) (ucast (?b AND 0x7F))) ?c2 =
          Some (fst (ReadVarint64Slow_loop n (Suc k) (r OR push_bit (7 * k) (ucast (?b AND 0x7F)))
            (visible vw ?c2)), c')" "went vw ?c2 c'" "visible vw c' =
          snd (ReadVarint64Slow_loop n (Suc k) (r OR push_bit (7 * k) (ucast (?b AND 0x7F)))
            (visible vw ?c2))" by blast
      then show ?thesis using f False c went_trans [OF w] by (simp add: vs Let_def)
    qed
  qed
qed

lemma Slow_reads: "ci_ok vw c \<Longrightarrow> reads_as vw c (ReadVarint64Slow (visible vw c)) (ci_ReadVarint64Slow zi c)"
  using Slow_loop_reads [of c 10 0 0] by (auto simp: reads_as_def ReadVarint64Slow_def ci_ReadVarint64Slow_def)

lemma array_reads64:
  assumes ok: "ci_ok vw c" and safe: "safe_unrolled (ci_buffer c)"
  shows "reads_as vw c (ReadVarint64 (visible vw c)) (ci_ReadVarint64Fallback zi c)"
proof -
  let ?buf = "ci_buffer c" and ?x = "take (nat (ci_closest c - ci_read c)) (zv_left vw (ci_input c))"
  note v = visible_split [OF ok]
  have no: "ReadVarint64FromArray ?buf \<noteq> Voverrun" by (rule safe_unrolled_no_overrun64 [OF safe])
  note ap = FromArray64_append [OF no, of ?x]
  show ?thesis
  proof (cases "ReadVarint64FromArray ?buf")
    case (Vdone w rest)
    have s: "ReadVarint64Slow ?buf = (Some w, rest)"
      by (rule ReadVarint64FromArray_slow(1) [OF Vdone])
    from ap Vdone have "ReadVarint64FromArray (?buf @ ?x) = Vdone w (rest @ ?x)" by simp
    then have "ReadVarint64 (visible vw c) = (Some w, rest @ ?x)"
      unfolding v ReadVarint64_slow(2) by (rule ReadVarint64FromArray_slow(1))
    moreover have "length rest \<le> length ?buf" using ReadVarint64Slow_length [OF s] by simp
    moreover note moved_to [OF ok Slow_suffix [OF s] this]
    ultimately show ?thesis using safe Vdone
      by (auto simp: reads_as_def ci_ReadVarint64Fallback_def intro: went_moved)
  next
    case Vnull
    then have "ReadVarint64FromArray (?buf @ ?x) = Vnull" using ap by simp
    then have "fst (ReadVarint64 (visible vw c)) = None"
      unfolding v ReadVarint64_slow(1) by (rule ReadVarint64FromArray_slow(2))
    then show ?thesis using safe Vnull went_refl [OF ok]
      by (simp add: reads_as_def ci_ReadVarint64Fallback_def)
  qed (use no in simp)
qed

lemma Fallback64_reads:
  assumes ok: "ci_ok vw c"
  shows "reads_as vw c (ReadVarint64 (visible vw c)) (ci_ReadVarint64Fallback zi c)"
proof (cases "safe_unrolled (ci_buffer c)")
  case False
  obtain x rest where s: "ReadVarint64Slow (visible vw c) = (x, rest)" by fastforce
  then have "fst (ReadVarint64 (visible vw c)) = x" using ReadVarint64_slow(1) by simp
  moreover have "x \<noteq> None \<longrightarrow> snd (ReadVarint64 (visible vw c)) = rest"
    using s ReadVarint64_slow(2) [of "visible vw c" "the x" rest] by auto
  ultimately show ?thesis using Slow_reads [OF ok] False s
    by (auto simp: reads_as_def ci_ReadVarint64Fallback_def)
qed (rule array_reads64 [OF ok])

lemma ReadVarint64_reads:
  assumes ok: "ci_ok vw c"
  shows "reads_as vw c (ReadVarint64 (visible vw c)) (ci_ReadVarint64 zi c)"
proof (cases "0 < ci_size c \<and> hd (ci_mem c) < 0x80")
  case True
  with one_byte [OF ok] have "visible vw c = hd (ci_mem c) # visible vw (ci_Advance 1 c)"
    "went vw c (ci_Advance 1 c)" by (auto intro: went_moved)
  with True show ?thesis
    by (simp add: reads_as_def ci_ReadVarint64_def ci_BufferSize_def ReadVarint64_def)
next
  case False
  then have "ci_ReadVarint64 zi c = ci_ReadVarint64Fallback zi c"
    by (auto simp: ci_ReadVarint64_def ci_BufferSize_def)
  then show ?thesis using Fallback64_reads [OF ok] by simp
qed

lemma ReadVarint32_none: "fst (ReadVarint64Slow bs) = None \<Longrightarrow> fst (ReadVarint32 bs) = None"
  using ReadVarint32_slow [of bs "the (fst (ReadVarint32 bs))" "snd (ReadVarint32 bs)"]
  by (cases "ReadVarint32 bs"; cases "fst (ReadVarint32 bs)") auto

lemma ReadVarint32_of_64:
  "ReadVarint32 bs = (Some v, rest) \<longleftrightarrow> (\<exists>w. ReadVarint64 bs = (Some w, rest) \<and> v = ucast w)"
  unfolding ReadVarint32_slow ReadVarint64_slow(2) ..

lemma array_reads32:
  assumes ok: "ci_ok vw c" and safe: "safe_unrolled (ci_buffer c)"
  shows "\<exists>w rest. ReadVarint32FromArray (ci_buffer c) = Vdone (ucast w) rest \<and>
      ReadVarint64Slow (visible vw c) = (Some w, visible vw (ci_advance_to rest c)) \<and>
      went vw c (ci_advance_to rest c) \<or>
    ReadVarint32FromArray (ci_buffer c) = Vnull \<and> fst (ReadVarint64Slow (visible vw c)) = None"
proof -
  let ?buf = "ci_buffer c" and ?x = "take (nat (ci_closest c - ci_read c)) (zv_left vw (ci_input c))"
  note v = visible_split [OF ok]
  have no: "ReadVarint32FromArray ?buf \<noteq> Voverrun" by (rule safe_unrolled_no_overrun32 [OF safe])
  note ap = FromArray32_append [OF no, of ?x]
  show ?thesis
  proof (cases "ReadVarint32FromArray ?buf")
    case (Vdone t rest)
    from ReadVarint32FromArray_slow(1) [OF Vdone] obtain w0 where
      s: "ReadVarint64Slow ?buf = (Some w0, rest)" by blast
    from ap Vdone have "ReadVarint32FromArray (?buf @ ?x) = Vdone t (rest @ ?x)" by simp
    from ReadVarint32FromArray_slow(1) [OF this] obtain w where
      "ReadVarint64Slow (visible vw c) = (Some w, rest @ ?x)" "ucast w = t" unfolding v by blast
    moreover have "length rest \<le> length ?buf" using ReadVarint64Slow_length [OF s] by simp
    moreover note moved_to [OF ok Slow_suffix [OF s] this]
    ultimately show ?thesis using Vdone went_moved by metis
  next
    case Vnull
    then have "ReadVarint32FromArray (?buf @ ?x) = Vnull" using ap by simp
    from ReadVarint32FromArray_slow(2) [OF this] show ?thesis using Vnull by (simp add: v)
  qed (use no in simp)
qed

lemma Fallback32_reads:
  assumes ok: "ci_ok vw c"
  shows "reads_as vw c (ReadVarint32 (visible vw c)) (ci_ReadVarint32Fallback zi c)"
proof (cases "safe_unrolled (ci_buffer c)")
  case True
  from array_reads32 [OF ok True] show ?thesis
  proof (elim exE disjE conjE)
    fix w rest
    assume a: "ReadVarint32FromArray (ci_buffer c) = Vdone (ucast w) rest"
      "ReadVarint64Slow (visible vw c) = (Some w, visible vw (ci_advance_to rest c))"
      "went vw c (ci_advance_to rest c)"
    then have "ReadVarint32 (visible vw c) = (Some (ucast w), visible vw (ci_advance_to rest c))"
      by (auto simp: ReadVarint32_slow)
    with a True show ?thesis by (simp add: reads_as_def ci_ReadVarint32Fallback_def)
  next
    assume "ReadVarint32FromArray (ci_buffer c) = Vnull"
      and "fst (ReadVarint64Slow (visible vw c)) = None"
    then show ?thesis using True ReadVarint32_none went_refl [OF ok]
      by (simp add: reads_as_def ci_ReadVarint32Fallback_def)
  qed
next
  case False
  from Fallback64_reads [OF ok] obtain c' where
    f: "ci_ReadVarint64Fallback zi c = Some (fst (ReadVarint64 (visible vw c)), c')"
      "went vw c c'" "fst (ReadVarint64 (visible vw c)) \<noteq> None \<longrightarrow>
        visible vw c' = snd (ReadVarint64 (visible vw c))" unfolding reads_as_def by blast
  obtain x rest where x: "ReadVarint64 (visible vw c) = (x, rest)" by fastforce
  have "fst (ReadVarint32 (visible vw c)) = map_option ucast x \<and>
      (x \<noteq> None \<longrightarrow> snd (ReadVarint32 (visible vw c)) = rest)"
  proof (cases x)
    case None
    then show ?thesis using x ReadVarint32_none [of "visible vw c"]
      by (metis ReadVarint64_slow(1) fst_conv option.simps(8))
  next
    case (Some w)
    then have "ReadVarint32 (visible vw c) = (Some (ucast w), rest)"
      using x by (auto simp: ReadVarint32_of_64)
    then show ?thesis using Some by simp
  qed
  then show ?thesis using False f x
    by (auto simp: reads_as_def ci_ReadVarint32Fallback_def ci_ReadVarint32Slow_def)
qed

lemma ReadVarint32_reads:
  assumes ok: "ci_ok vw c"
  shows "reads_as vw c (ReadVarint32 (visible vw c)) (ci_ReadVarint32 zi c)"
proof (cases "0 < ci_size c \<and> hd (ci_mem c) < 0x80")
  case True
  with one_byte [OF ok] have "visible vw c = hd (ci_mem c) # visible vw (ci_Advance 1 c)"
    "went vw c (ci_Advance 1 c)" by (auto intro: went_moved)
  with True show ?thesis
    by (simp add: reads_as_def ci_ReadVarint32_def ci_BufferSize_def ReadVarint32_def)
next
  case False
  then have "ci_ReadVarint32 zi c = ci_ReadVarint32Fallback zi c"
    by (auto simp: ci_ReadVarint32_def ci_BufferSize_def)
  then show ?thesis using Fallback32_reads [OF ok] by simp
qed

text \<open>The fixed-width readers.\<close>

lemma raw_reads:
  assumes ok: "ci_ok vw c" and n: "0 \<le> n"
  shows "\<exists>b out c'. ci_ReadRaw zi n c = Some (b, out, c') \<and> b = (nat n \<le> length (visible vw c)) \<and>
    out = take (nat n) (visible vw c) \<and> went vw c c' \<and> visible vw c' = drop (nat n) (visible vw c)"
proof -
  from ReadRaw_takes [OF ok n] obtain b out c' where
    r: "ci_ReadRaw zi n c = Some (b, out, c')" and t: "takes (nat n) c [] (b, out, c')" by fastforce
  then have m: "moved vw (min (nat n) (length (visible vw c))) c c'" by (simp add: takes_def)
  from r t went_moved [OF m] moved_visible [OF m] show ?thesis
    by (simp add: takes_def min_def)
qed

lemma buffered_reads:
  assumes ok: "ci_ok vw c" and n: "0 \<le> n" "n \<le> ci_size c"
  shows "take (nat n) (ci_mem c) = take (nat n) (visible vw c)" "nat n \<le> length (visible vw c)"
    "went vw c (ci_Advance n c)" "visible vw (ci_Advance n c) = drop (nat n) (visible vw c)"
proof -
  show "take (nat n) (ci_mem c) = take (nat n) (visible vw c)"
    using n length_buffer [OF ok] by (simp add: visible_split [OF ok] ci_buffer_def min_def)
  show "nat n \<le> length (visible vw c)"
    using n length_buffer [OF ok] by (simp add: visible_split [OF ok])
  note m = moved_Advance [OF ok n]
  show "went vw c (ci_Advance n c)" by (rule went_moved [OF m])
  show "visible vw (ci_Advance n c) = drop (nat n) (visible vw c)" by (rule moved_visible [OF m])
qed

lemma ReadLittleEndian32_reads:
  assumes ok: "ci_ok vw c"
  shows "reads_as vw c (le_array 4 (visible vw c)) (ci_ReadLittleEndian32 zi c)"
proof (cases "4 \<le> ci_size c")
  case True
  then show ?thesis using buffered_reads [OF ok, of 4]
    by (simp add: reads_as_def le_array_def ci_ReadLittleEndian32_def ci_BufferSize_def)
next
  case False
  then show ?thesis using raw_reads [OF ok, of 4]
    by (auto simp: reads_as_def le_array_def ci_ReadLittleEndian32_def ci_ReadLittleEndian32Fallback_def
        ci_BufferSize_def)
qed

lemma ReadLittleEndian64_reads:
  assumes ok: "ci_ok vw c"
  shows "reads_as vw c (le_array 8 (visible vw c)) (ci_ReadLittleEndian64 zi c)"
proof (cases "8 \<le> ci_size c")
  case True
  then show ?thesis using buffered_reads [OF ok, of 8]
    by (simp add: reads_as_def le_array_def ci_ReadLittleEndian64_def ci_BufferSize_def)
next
  case False
  then show ?thesis using raw_reads [OF ok, of 8]
    by (auto simp: reads_as_def le_array_def ci_ReadLittleEndian64_def ci_ReadLittleEndian64Fallback_def
        ci_BufferSize_def)
qed

lemma string_reads:
  assumes ok: "ci_ok vw c" and n: "0 \<le> n"
  shows "\<exists>b out c'. ci_ReadString zi str n c = Some (b, out, c') \<and>
    b = (nat n \<le> length (visible vw c)) \<and> out = take (nat n) (visible vw c) \<and> went vw c c' \<and>
    visible vw c' = drop (nat n) (visible vw c)"
proof -
  from ReadString_takes [OF ok n] obtain b out c' where
    r: "ci_ReadString zi str n c = Some (b, out, c')" and t: "takes (nat n) c [] (b, out, c')" by fastforce
  then have m: "moved vw (min (nat n) (length (visible vw c))) c c'" by (simp add: takes_def)
  from r t went_moved [OF m] moved_visible [OF m] show ?thesis
    by (simp add: takes_def min_def)
qed

end

text \<open>What reading a tag gives: the varint, 0 when there is none.\<close>

definition tag_of :: "byte list \<Rightarrow> u32" where
  "tag_of bs = (case fst (ReadVarint64Slow bs) of None \<Rightarrow> 0 | Some w \<Rightarrow> ucast w)"

text \<open>\<open>on_way\<close> is \<open>went\<close> for the position alone. At the end of the visible bytes the message
  may end there; a broken varint leaves that flag as it was.\<close>

definition on_way :: "'s zc_view \<Rightarrow> 's coded_in \<Rightarrow> 's coded_in \<Rightarrow> bool" where
  "on_way vw c c' \<longleftrightarrow>
     ci_ok vw c' \<and> ci_limit c' = ci_limit c \<and> ci_total_limit c' = ci_total_limit c \<and>
     (ci_legit c' \<longrightarrow> ci_legit c \<or> visible vw c' = []) \<and>
     (\<exists>k \<le> length (visible vw c). ci_CurrentPosition c' = ci_CurrentPosition c + int k \<and>
        ahead vw c' = drop k (ahead vw c))"

definition tag_left :: "'s zc_view \<Rightarrow> 's coded_in \<Rightarrow> 's coded_in \<Rightarrow> bool" where
  "tag_left vw c c' \<longleftrightarrow>
     (case ReadVarint64Slow (visible vw c) of
        (Some w, rest) \<Rightarrow> went vw c c' \<and> visible vw c' = rest
      | (None, rest) \<Rightarrow> on_way vw c c' \<and> ci_legit c' = (visible vw c = [] \<or> ci_legit c))"

text \<open>The flags are not part of the position.\<close>

lemma flag_updates [simp]:
  "ci_ok vw (c\<lparr> ci_last_tag := t \<rparr>) = ci_ok vw c" "ci_ok vw (c\<lparr> ci_legit := l \<rparr>) = ci_ok vw c"
  "ci_ok vw (c\<lparr> ci_depth := d \<rparr>) = ci_ok vw c"
  "ahead vw (c\<lparr> ci_last_tag := t \<rparr>) = ahead vw c" "ahead vw (c\<lparr> ci_legit := l \<rparr>) = ahead vw c"
  "ahead vw (c\<lparr> ci_depth := d \<rparr>) = ahead vw c"
  "ci_CurrentPosition (c\<lparr> ci_last_tag := t \<rparr>) = ci_CurrentPosition c"
  "ci_CurrentPosition (c\<lparr> ci_legit := l \<rparr>) = ci_CurrentPosition c"
  "ci_CurrentPosition (c\<lparr> ci_depth := d \<rparr>) = ci_CurrentPosition c"
  by (simp_all add: ci_ok_def ci_back_def ci_closest_def ahead_def ci_CurrentPosition_def
      ci_BufferSize_def)

lemma flag_visible [simp]:
  "visible vw (c\<lparr> ci_last_tag := t \<rparr>) = visible vw c" "visible vw (c\<lparr> ci_legit := l \<rparr>) = visible vw c"
  "visible vw (c\<lparr> ci_depth := d \<rparr>) = visible vw c"
  by (simp_all add: visible_def ci_closest_def)

lemma on_way_flags [simp]:
  "on_way vw c (c'\<lparr> ci_last_tag := t \<rparr>) = on_way vw c c'"
  "on_way vw c (c'\<lparr> ci_depth := d \<rparr>) = on_way vw c c'"
  by (simp_all add: on_way_def)

lemma on_way_legit: "on_way vw c c' \<Longrightarrow> visible vw c' = [] \<Longrightarrow> on_way vw c (c'\<lparr> ci_legit := l \<rparr>)"
  by (simp add: on_way_def)

lemma went_on_way: "went vw c c' \<Longrightarrow> on_way vw c c'"
  by (auto simp: went_def on_way_def moved_def same_rest_def)

lemma on_way_refl: "ci_ok vw c \<Longrightarrow> on_way vw c c"
  by (rule went_on_way [OF went_refl])

lemma on_way_visible:
  assumes "on_way vw a b"
  obtains k where "k \<le> length (visible vw a)" "visible vw b = drop k (visible vw a)"
    "ci_CurrentPosition b = ci_CurrentPosition a + int k" "ahead vw b = drop k (ahead vw a)"
proof -
  from assms obtain k where k: "k \<le> length (visible vw a)"
    "ci_CurrentPosition b = ci_CurrentPosition a + int k" "ahead vw b = drop k (ahead vw a)"
    and c: "ci_closest b = ci_closest a" by (auto simp: on_way_def ci_closest_def)
  have "nat (ci_closest b - ci_CurrentPosition b)
      = nat (ci_closest a - ci_CurrentPosition a) - k" using k c by linarith
  then have "visible vw b = drop k (visible vw a)"
    by (simp add: visible_def k(3) drop_take)
  with k that show thesis by blast
qed

lemma on_way_trans:
  assumes 1: "on_way vw a b" and 2: "on_way vw b c"
  shows "on_way vw a c"
proof -
  from on_way_visible [OF 1] obtain j where j: "j \<le> length (visible vw a)"
    "visible vw b = drop j (visible vw a)"
    "ci_CurrentPosition b = ci_CurrentPosition a + int j" "ahead vw b = drop j (ahead vw a)" .
  from 2 obtain k where k: "k \<le> length (visible vw b)"
    "ci_CurrentPosition c = ci_CurrentPosition b + int k" "ahead vw c = drop k (ahead vw b)"
    by (auto simp: on_way_def)
  have "j + k \<le> length (visible vw a)" using j(1,2) k(1) by simp
  moreover have "ahead vw c = drop (j + k) (ahead vw a)" using j(4) k(3) by (simp add: add.commute)
  moreover from on_way_visible [OF 2] obtain i where "visible vw c = drop i (visible vw b)" .
  ultimately show ?thesis using 1 2 j(3) k(2)
    unfolding on_way_def by (intro conjI exI [of _ "j + k"]) auto
qed

text \<open>The end of the visible bytes is not the total limit.\<close>

definition below_total :: "'s zc_view \<Rightarrow> 's coded_in \<Rightarrow> bool" where
  "below_total vw c \<longleftrightarrow> ci_CurrentPosition c + int (length (visible vw c)) < ci_total_limit c"

lemma below_flags [simp]:
  "below_total vw (c\<lparr> ci_last_tag := t \<rparr>) = below_total vw c"
  "below_total vw (c\<lparr> ci_legit := l \<rparr>) = below_total vw c"
  "below_total vw (c\<lparr> ci_depth := d \<rparr>) = below_total vw c"
  by (simp_all add: below_total_def)

lemma below_total_went: "below_total vw c \<Longrightarrow> went vw c c' \<Longrightarrow> below_total vw c'"
  using went_end [of vw c c'] went_same [of vw c c'] by (auto simp: below_total_def same_rest_def)

lemma Slow_Nil: "ReadVarint64Slow [] = (None, [])"
  by (simp add: ReadVarint64Slow_def numeral_eq_Suc)

lemma Slow_hd: "b < 0x80 \<Longrightarrow> ReadVarint64Slow (b # bs) = (Some (ucast b), bs)"
  by (rule ReadVarint64Slow_one)

context zero_copy_input begin

lemma safe_tag:
  assumes ok: "ci_ok vw c" and safe: "safe_unrolled (ci_buffer c)"
  shows "\<exists>c'. ci_ReadTagFallback zi c = Some (tag_of (visible vw c), c') \<and> tag_left vw c c'"
proof -
  have ne: "visible vw c \<noteq> []"
    using safe visible_split [OF ok] by (auto simp: safe_unrolled_def)
  from array_reads32 [OF ok safe] show ?thesis
  proof (elim exE disjE conjE)
    fix w rest
    assume "ReadVarint32FromArray (ci_buffer c) = Vdone (ucast w) rest"
      "ReadVarint64Slow (visible vw c) = (Some w, visible vw (ci_advance_to rest c))"
      "went vw c (ci_advance_to rest c)"
    then show ?thesis using safe by (simp add: ci_ReadTagFallback_def tag_of_def tag_left_def)
  next
    assume a: "ReadVarint32FromArray (ci_buffer c) = Vnull"
      "fst (ReadVarint64Slow (visible vw c)) = None"
    then show ?thesis using safe ne
      by (auto simp: ci_ReadTagFallback_def tag_of_def tag_left_def on_way_refl [OF ok]
          split: prod.splits)
  qed
qed

lemma end_tag:
  assumes ok: "ci_ok vw c" and fin: "visible vw c = []" and below: "below_total vw c"
  shows "\<exists>c'. ci_ReadTagFallback zi c = Some (0, c') \<and> on_way vw c c' \<and> ci_legit c'"
proof -
  have buf: "ci_buffer c = []" and sz: "ci_size c = 0"
    using fin visible_split [OF ok] buffer_Nil_iff [OF ok] by auto
  have ns: "\<not> safe_unrolled (ci_buffer c)" by (simp add: buf safe_unrolled_def)
  show ?thesis
  proof (cases "(0 < ci_after c \<or> ci_read c = ci_limit c) \<and> ci_read c - ci_after c < ci_total_limit c")
    case True
    then show ?thesis using ns sz on_way_legit [OF on_way_refl [OF ok] fin]
      by (simp add: ci_ReadTagFallback_def ci_BufferSize_def)
  next
    case False
    then have f: "ci_ReadTagFallback zi c = ci_ReadTagSlow zi c"
      using ns by (auto simp: ci_ReadTagFallback_def)
    from Refresh_moved [OF ok sz] obtain b c1 where
      r: "ci_Refresh zi c = Some (b, c1)" and m: "moved vw 0 c c1"
      and b: "b \<longrightarrow> 0 < ci_size c1 \<or> 0 < ci_after c1" "\<not> b \<longrightarrow> ci_size c1 = 0" by blast
    note ok1 = movedD(1) [OF m]
    have sz1: "ci_size c1 = 0"
      using fin moved_visible [OF m] visible_split [OF ok1] buffer_Nil_iff [OF ok1] by simp
    have pos: "ci_read c1 - ci_after c1 = ci_read c - ci_after c"
      using movedD(4) [OF m] sz sz1 by (simp add: ci_CurrentPosition_def ci_BufferSize_def)
    have tot: "ci_read c - ci_after c < ci_total_limit c"
      using below fin sz by (simp add: below_total_def ci_CurrentPosition_def ci_BufferSize_def)
    have same: "ci_limit c1 = ci_limit c" "ci_total_limit c1 = ci_total_limit c"
      using movedD(2) [OF m] by (auto simp: same_rest_def)
    have "\<not> b"
    proof
      assume "b"
      with b sz1 have a1: "0 < ci_after c1" by simp
      then have "ci_read c1 - ci_after c1 = ci_closest c1" using ci_okD(9) [OF ok1] by simp
      then have "ci_read c - ci_after c = ci_limit c"
        using pos tot same by (simp add: ci_closest_def min_def split: if_splits)
      moreover have "ci_after c = 0" using False tot ci_okD(4) [OF ok] by auto
      ultimately show False using False tot by simp
    qed
    then show ?thesis using f r sz pos tot same on_way_legit [OF went_on_way [OF went_moved [OF m]]]
        moved_visible [OF m] fin by (simp add: ci_ReadTagSlow_def ci_BufferSize_def)
  qed
qed

lemma slow_tag:
  assumes ok: "ci_ok vw c" and ne: "visible vw c \<noteq> []" and ns: "\<not> safe_unrolled (ci_buffer c)"
  shows "\<exists>c'. ci_ReadTagFallback zi c = Some (tag_of (visible vw c), c') \<and> tag_left vw c c'"
proof -
  have "\<not> (ci_size c = 0 \<and> (0 < ci_after c \<or> ci_read c = ci_limit c))"
  proof
    assume a: "ci_size c = 0 \<and> (0 < ci_after c \<or> ci_read c = ci_limit c)"
    then have "ci_closest c \<le> ci_read c" using ci_okD(9) [OF ok] by (auto simp: ci_closest_def)
    with a have "visible vw c = []" using visible_split [OF ok] buffer_Nil_iff [OF ok] by simp
    with ne show False ..
  qed
  then have f: "ci_ReadTagFallback zi c = ci_ReadTagSlow zi c"
    using ns by (auto simp: ci_ReadTagFallback_def ci_BufferSize_def)
  obtain c1 where r: "(if ci_BufferSize c = 0 then ci_Refresh zi c else Some (True, c)) = Some (True, c1)"
    and m: "moved vw 0 c c1"
    using Refresh_moved [OF ok] ne moved_refl [OF ok] by (cases "ci_size c = 0") (auto simp: ci_BufferSize_def)
  have v: "visible vw c1 = visible vw c" using moved_visible [OF m] by simp
  from ReadVarint64_reads [OF movedD(1) [OF m]] obtain c2 where
    q: "ci_ReadVarint64 zi c1 = Some (fst (ReadVarint64 (visible vw c)), c2)" "went vw c1 c2"
      "fst (ReadVarint64 (visible vw c)) \<noteq> None \<longrightarrow> visible vw c2 = snd (ReadVarint64 (visible vw c))"
    unfolding reads_as_def v by blast
  have w: "went vw c c2" using went_trans [OF went_moved [OF m] q(2)] .
  obtain x rest where x: "ReadVarint64Slow (visible vw c) = (x, rest)" by fastforce
  have fx: "fst (ReadVarint64 (visible vw c)) = x" using x by (simp add: ReadVarint64_slow(1))
  have "tag_left vw c c2"
  proof (cases x)
    case (Some y)
    then have "ReadVarint64 (visible vw c) = (Some y, rest)" using x by (simp add: ReadVarint64_slow(2))
    with Some x w q(3) show ?thesis by (simp add: tag_left_def)
  next
    case None
    then show ?thesis using x w ne went_same [OF w] went_on_way [OF w] by (simp add: tag_left_def same_rest_def)
  qed
  moreover have "ci_ReadTagSlow zi c = Some (tag_of (visible vw c), c2)"
    using r q(1) x fx by (simp add: ci_ReadTagSlow_def tag_of_def)
  ultimately show ?thesis using f by auto
qed

lemma ReadTagFallback_reads:
  assumes ok: "ci_ok vw c" and below: "below_total vw c"
  shows "\<exists>c'. ci_ReadTagFallback zi c = Some (tag_of (visible vw c), c') \<and> tag_left vw c c'"
proof (cases "visible vw c = []")
  case True
  from end_tag [OF ok True below] show ?thesis
    by (auto simp: True tag_of_def tag_left_def Slow_Nil)
next
  case False
  then show ?thesis using safe_tag [OF ok] slow_tag [OF ok False] by blast
qed

lemma hot_tag:
  assumes ok: "ci_ok vw c" and sz: "0 < ci_size c" and b: "hd (ci_mem c) < 0x80"
  shows "tag_of (visible vw c) = ucast (hd (ci_mem c))" and "tag_left vw c (ci_Advance 1 c)"
proof -
  note ob = one_byte [OF ok sz]
  have "ReadVarint64Slow (visible vw c) = (Some (ucast (hd (ci_mem c))), visible vw (ci_Advance 1 c))"
    by (subst ob(2)) (rule Slow_hd [OF b])
  then show "tag_of (visible vw c) = ucast (hd (ci_mem c))" "tag_left vw c (ci_Advance 1 c)"
    using went_moved [OF ob(3)] by (simp_all add: tag_of_def tag_left_def ucast_byte32)
qed

text \<open>\<open>ReadTag\<close>, and \<open>ReadTagWithCutoff\<close> with the cutoff of the generated code, up to the
  recorded tag.\<close>

lemma ReadTag_reads:
  assumes ok: "ci_ok vw c" and below: "below_total vw c"
  shows "\<exists>c'. ci_ReadTag zi c =
    Some (tag_of (visible vw c), c'\<lparr> ci_last_tag := tag_of (visible vw c) \<rparr>) \<and> tag_left vw c c'"
proof (cases "0 < ci_size c \<and> hd (ci_mem c) < 0x80")
  case True
  with hot_tag [OF ok] show ?thesis
    by (intro exI [of _ "ci_Advance 1 c"]) (simp add: ci_ReadTag_def ci_BufferSize_def ci_Advance_def Let_def)
next
  case False
  then show ?thesis using ReadTagFallback_reads [OF ok below]
    by (auto simp: ci_ReadTag_def ci_BufferSize_def)
qed

lemma ReadTagWithCutoff_reads:
  assumes ok: "ci_ok vw c" and below: "below_total vw c"
  shows "\<exists>c'. ci_ReadTagWithCutoff zi 127 c =
    Some ((tag_of (visible vw c), tag_of (visible vw c) - 1 < 127),
      c'\<lparr> ci_last_tag := tag_of (visible vw c) \<rparr>) \<and> tag_left vw c c'"
proof (cases "0 < ci_size c \<and> 0 < sint (hd (ci_mem c))")
  case True
  let ?b = "hd (ci_mem c)"
  from True have b: "?b < 0x80" "?b \<noteq> 0" by (simp_all add: sint_pos_iff)
  have "unat (ucast ?b :: u32) = unat ?b"
    using unat_less_2p [of ?b] by (simp add: unsigned_ucast_eq take_bit_nat_eq_self_iff)
  moreover from b have "unat ?b < 128" "0 < unat ?b"
    by (auto simp: word_less_nat_alt unat_gt_0)
  ultimately have "(ucast ?b :: u32) - 1 < 127"
    by (simp add: word_less_nat_alt unat_sub word_le_nat_alt)
  moreover have "ci_mem c \<noteq> []" using True one_byte(1) [OF ok] by (auto simp: ci_buffer_def)
  ultimately show ?thesis using hot_tag [OF ok] True b
    by (intro exI [of _ "ci_Advance 1 c"])
      (simp add: ci_ReadTagWithCutoff_def ci_BufferSize_def ci_Advance_def hd_conv_nth Let_def)
next
  case False
  moreover have "0 < ci_size c \<Longrightarrow> ci_mem c \<noteq> []" using one_byte(1) [OF ok] by (auto simp: ci_buffer_def)
  ultimately have "\<not> (0 < ci_size c \<and> 0 < sint (ci_mem c ! 0))" by (auto simp: hd_conv_nth)
  then show ?thesis using ReadTagFallback_reads [OF ok below]
    by (auto simp: ci_ReadTagWithCutoff_def ci_BufferSize_def Let_def)
qed

end

end
