(* ===== verification/GF_StreamSkip.thy ===== *)
theory GF_StreamSkip
  imports GF_StreamRead
begin

text \<open>
  The limits, \<open>Skip\<close> and the destructor of the reader; then \<open>SkipField\<close> and \<open>SkipMessage\<close>
  (\<open>src/include/google/protobuf/wire_format.cc\<close>) over a stream of blocks, which \<open>GF_WireFormat\<close>
  models over an array. \<open>agrees\<close> relates the reader over a stream to the reader over the array
  of its visible bytes; every step keeps it, and skipping returns the same fields.
\<close>

section \<open>Moving the limits\<close>

lemma Recompute_ok:
  assumes ok: "ci_ok vw c"
    and l: "ci_CurrentPosition c \<le> l" "l \<le> INT_MAX"
    and t: "ci_CurrentPosition c \<le> t" "t \<le> INT_MAX"
  defines "c' \<equiv> ci_RecomputeBufferLimits (c\<lparr> ci_limit := l, ci_total_limit := t \<rparr>)"
  shows "ci_ok vw c'" "ci_CurrentPosition c' = ci_CurrentPosition c" "ahead vw c' = ahead vw c"
    "ci_limit c' = l" "ci_total_limit c' = t" "ci_last_tag c' = ci_last_tag c"
    "ci_legit c' = ci_legit c" "ci_depth c' = ci_depth c" "ci_depth_limit c' = ci_depth_limit c"
    "ci_warning c' = ci_warning c"
proof -
  let ?a = "max 0 (ci_read c - min l t)"
  have f: "ci_input c' = ci_input c" "ci_mem c' = ci_mem c" "ci_read c' = ci_read c"
    "ci_overflow c' = ci_overflow c" "ci_after c' = ?a" "ci_size c' = ci_size c + ci_after c - ?a"
    "ci_closest c' = min l t"
    by (auto simp: c'_def ci_RecomputeBufferLimits_def ci_closest_def Let_def)
  show s: "ci_limit c' = l" "ci_total_limit c' = t" "ci_last_tag c' = ci_last_tag c"
    "ci_legit c' = ci_legit c" "ci_depth c' = ci_depth c" "ci_depth_limit c' = ci_depth_limit c"
    "ci_warning c' = ci_warning c"
    by (auto simp: c'_def ci_RecomputeBufferLimits_def ci_closest_def Let_def)
  have b: "ci_back c' = ci_back c" by (simp add: ci_back_def f)
  show "ci_CurrentPosition c' = ci_CurrentPosition c"
    by (simp add: ci_CurrentPosition_def ci_BufferSize_def f)
  show "ahead vw c' = ahead vw c" by (simp add: ahead_def b f)
  note o = ci_okD [OF ok]
  have p: "ci_read c - (ci_size c + ci_after c) \<le> min l t"
    using l t by (simp add: ci_CurrentPosition_def ci_BufferSize_def)
  have m: "ci_mem c = drop (length (zv_last vw (ci_input c)) - ci_back c) (zv_last vw (ci_input c)) \<or>
      ci_mem c = [] \<and> ci_size c + ci_after c - ?a = 0 \<and> ?a = 0"
    using ok p by (auto simp: ci_ok_def)
  have "0 \<le> ci_size c + ci_after c - ?a" using p o(2,4) by linarith
  with m o l t show "ci_ok vw c'" unfolding ci_ok_def b f s by simp
qed

lemma PushLimit_ok:
  fixes n :: int
  assumes ok: "ci_ok vw c"
  defines "c' \<equiv> snd (ci_PushLimit n c)"
  shows "ci_ok vw c'" "ci_CurrentPosition c' = ci_CurrentPosition c" "ahead vw c' = ahead vw c"
    "ci_total_limit c' = ci_total_limit c" "ci_last_tag c' = ci_last_tag c"
    "ci_legit c' = ci_legit c" "ci_depth c' = ci_depth c" "ci_depth_limit c' = ci_depth_limit c"
    "0 \<le> n \<Longrightarrow> ci_limit c' = min (ci_limit c) (ci_CurrentPosition c + n)"
    "0 \<le> n \<Longrightarrow> visible vw c' = take (nat n) (visible vw c)"
    "n < 0 \<Longrightarrow> visible vw c' = visible vw c"
proof -
  note o = ci_okD [OF ok]
  have p: "ci_CurrentPosition c \<le> ci_closest c"
    using o(2,9) by (simp add: ci_CurrentPosition_def ci_BufferSize_def max_def split: if_splits)
  then have pl: "ci_CurrentPosition c \<le> ci_limit c" "ci_CurrentPosition c \<le> ci_total_limit c"
    by (auto simp: ci_closest_def)
  have p0: "0 \<le> ci_CurrentPosition c" using o(5) by (simp add: ci_CurrentPosition_def ci_BufferSize_def)
  let ?new = "min (if 0 \<le> n \<and> n \<le> INT_MAX - ci_CurrentPosition c then ci_CurrentPosition c + n
    else INT_MAX) (ci_limit c)"
  have c': "c' = ci_RecomputeBufferLimits (c\<lparr> ci_limit := ?new, ci_total_limit := ci_total_limit c \<rparr>)"
    by (simp add: c'_def ci_PushLimit_def Let_def)
  have new: "ci_CurrentPosition c \<le> ?new" "?new \<le> INT_MAX" using pl o(7) by auto
  note r = Recompute_ok [OF ok new pl(2) o(8), folded c']
  show "ci_ok vw c'" "ci_CurrentPosition c' = ci_CurrentPosition c" "ahead vw c' = ahead vw c"
    "ci_total_limit c' = ci_total_limit c" "ci_last_tag c' = ci_last_tag c"
    "ci_legit c' = ci_legit c" "ci_depth c' = ci_depth c" "ci_depth_limit c' = ci_depth_limit c"
    by (fact r)+
  show lim: "0 \<le> n \<Longrightarrow> ci_limit c' = min (ci_limit c) (ci_CurrentPosition c + n)"
    unfolding r(4) using o(7) by auto
  show "0 \<le> n \<Longrightarrow> visible vw c' = take (nat n) (visible vw c)"
  proof -
    assume n: "0 \<le> n"
    have "nat (ci_closest c' - ci_CurrentPosition c)
        = min (nat n) (nat (ci_closest c - ci_CurrentPosition c))"
      using lim [OF n] r(5) n p0 by (auto simp: ci_closest_def)
    then show ?thesis by (simp add: visible_def r(2,3) min.commute)
  qed
  show "n < 0 \<Longrightarrow> visible vw c' = visible vw c"
    using o(7) by (simp add: visible_def r(2,3,4,5) ci_closest_def)
qed

context zero_copy_input begin

lemma create_ok:
  assumes "zv_wf vw s"
  shows "\<exists>c. ci_create zi s = Some c \<and> ci_ok vw c \<and> ci_CurrentPosition c = 0 \<and>
    ahead vw c = zv_left vw s \<and> ci_limit c = INT_MAX \<and> ci_total_limit c = 67108864 \<and>
    ci_last_tag c = 0 \<and> \<not> ci_legit c \<and> ci_depth c = 0 \<and> ci_depth_limit c = 100"
proof -
  let ?c = "\<lparr> ci_input = s, ci_mem = [], ci_size = 0, ci_read = 0, ci_overflow = 0,
         ci_last_tag = 0, ci_legit = False, ci_limit = INT_MAX, ci_after = 0,
         ci_total_limit = 67108864, ci_warning = 33554432, ci_depth = 0,
         ci_depth_limit = 100, ci_log = [] \<rparr>"
  have ok: "ci_ok vw ?c" using assms by (simp add: ci_ok_def ci_closest_def ci_back_def)
  from Refresh_moved [OF ok] obtain b c where
    r: "ci_Refresh zi ?c = Some (b, c)" and m: "moved vw 0 ?c c" by auto
  have "ahead vw ?c = zv_left vw s" by (simp add: ahead_def ci_back_def)
  with movedD [OF m] r show ?thesis
    by (simp add: ci_create_def same_rest_def ci_CurrentPosition_def [of ?c] ci_BufferSize_def [of ?c])
qed

lemma BackUp_ok:
  assumes ok: "ci_ok vw c"
  shows "\<exists>c'. ci_BackUpInputToCurrentPosition zi c = Some c' \<and> zv_wf vw (ci_input c') \<and>
    zv_left vw (ci_input c') = ahead vw c"
proof (cases "0 < ci_size c + ci_after c + ci_overflow c")
  case True
  from backup [OF ci_okD(1) [OF ok] True] ci_okD(11) [OF ok] obtain s' where
    "zc_BackUp zi (ci_size c + ci_after c + ci_overflow c) (ci_input c) = Some s'" "zv_wf vw s'"
    "zv_left vw s' = ahead vw c" unfolding ci_back_def ahead_def by blast
  then show ?thesis using True
    by (simp add: ci_BackUpInputToCurrentPosition_def ci_BufferSize_def Let_def)
next
  case False
  then have "ci_back c = 0" by (simp add: ci_back_def)
  then show ?thesis using False ci_okD(1) [OF ok]
    by (simp add: ci_BackUpInputToCurrentPosition_def ci_BufferSize_def Let_def ahead_def)
qed

text \<open>What the reader has not consumed goes back to the stream.\<close>

lemma destroy_ok:
  assumes "ci_ok vw c"
  shows "\<exists>s' log. ci_destroy zi c = Some (s', log) \<and> zv_wf vw s' \<and> zv_left vw s' = ahead vw c"
  using BackUp_ok [OF assms] by (auto simp: ci_destroy_def)

lemma Skip_reads:
  assumes ok: "ci_ok vw c" and n: "0 \<le> n"
  shows "\<exists>c'. ci_Skip zi n c = Some (nat n \<le> length (visible vw c), c') \<and> ci_ok vw c' \<and>
    visible vw c' = drop (nat n) (visible vw c) \<and> same_rest c c'"
proof -
  note o = ci_okD [OF ok] and v = visible_split [OF ok] and len = length_buffer [OF ok]
  consider "n \<le> ci_size c" | "ci_size c < n" "0 < ci_after c" | "ci_size c < n" "ci_after c = 0"
    using o(4) by linarith
  then show ?thesis
  proof cases
    case 1
    note m = moved_Advance [OF ok n 1]
    have "ci_Skip zi n c = Some (True, ci_Advance n c)"
      using 1 n by (simp add: ci_Skip_def ci_BufferSize_def)
    then show ?thesis using movedD [OF m] moved_visible [OF m] by simp
  next
    case 2
    note m = moved_Advance [OF ok o(2) order.refl]
    have "ci_Skip zi n c = Some (False, ci_Advance (ci_size c) c)"
      using 2 n by (simp add: ci_Skip_def ci_BufferSize_def)
    moreover have vb: "visible vw c = ci_buffer c" using 2 o(9) by (simp add: v)
    moreover have "visible vw (ci_Advance (ci_size c) c) = []"
      using moved_visible [OF m] vb len by simp
    ultimately show ?thesis using movedD [OF m] 2 len by auto
  next
    case 3
    let ?c1 = "c\<lparr> ci_mem := [], ci_size := 0 \<rparr>" and ?rest = "n - ci_size c"
    let ?left = "zv_left vw (ci_input c)"
    define until where "until = ci_closest c - ci_read c"
    have u0: "0 \<le> until" using 3 o(9) by (simp add: until_def)
    have vl: "visible vw c = ci_buffer c @ take (nat until) ?left" by (simp add: v until_def)
    have cl: "ci_closest ?c1 = ci_closest c" by (simp add: ci_closest_def)
    have bk: "ci_back ?c1 \<le> length (zv_last vw (ci_input c))"
      using o(2,11) 3 by (simp add: ci_back_def)
    have adv: "ci_ok vw (?c1\<lparr> ci_input := s', ci_read := r \<rparr>) \<and> ci_after c = 0 \<and>
        visible vw (?c1\<lparr> ci_input := s', ci_read := r \<rparr>) =
          take (nat (ci_closest c - r)) (zv_left vw s')"
      if "zv_wf vw s'" "0 \<le> r" "r \<le> ci_closest c" "ci_overflow c = 0" for s' r
    proof -
      have "ci_ok vw (?c1\<lparr> ci_input := s', ci_read := r \<rparr>)"
        using that o 3 closest_le [OF ok] by (simp add: ci_ok_def ci_closest_def ci_back_def)
      then show ?thesis using 3 by (simp add: visible_def ahead_def ci_closest_def ci_back_def
            ci_CurrentPosition_def ci_BufferSize_def that(4))
    qed
    have un: "ci_Skip zi n c = (if until < ?rest
        then if 0 < until then do {
          (ok, input') \<leftarrow> zc_Skip zi until (ci_input c);
          Some (False, ?c1\<lparr> ci_input := input', ci_read := ci_closest c \<rparr>) }
          else Some (False, ?c1)
        else do {
          (ok, input') \<leftarrow> zc_Skip zi ?rest (ci_input c);
          Some (ok, ?c1\<lparr> ci_input := input', ci_read := ci_read c + ?rest \<rparr>) })"
      using 3 n by (simp add: ci_Skip_def ci_BufferSize_def Let_def cl until_def)
    have r0: "0 \<le> ci_read c" using o(2,5) 3 by simp
    have ov: "0 < until \<Longrightarrow> ci_overflow c = 0"
      using o(3,10) closest_le [OF ok] by (cases "0 < ci_overflow c") (auto simp: until_def)
    show ?thesis
    proof (cases "0 < until")
      case False
      then have u: "until = 0" using u0 by simp
      have "ci_ok vw ?c1" using o 3 bk u ok by (simp add: ci_ok_def ci_closest_def) 
      moreover have "visible vw ?c1 = []"
        using u 3 by (simp add: visible_def ci_closest_def ci_CurrentPosition_def ci_BufferSize_def until_def)
      ultimately show ?thesis using un u 3 len vl by (auto simp: same_rest_def)
    next
      case True
      note ov0 = ov [OF True]
      show ?thesis
      proof (cases "until < ?rest")
        case lt: True
        from skip [OF o(1), of until] u0 True obtain s' where
          s: "zc_Skip zi until (ci_input c) = Some (nat until \<le> length ?left, s')" "zv_wf vw s'" by auto
        have "ci_closest c \<ge> 0" using r0 True by (simp add: until_def)
        from adv [OF s(2) this order.refl ov0] show ?thesis
          using un lt True s(1) vl len by (auto simp: same_rest_def)
      next
        case False
        have r: "0 \<le> ?rest" using 3 by simp
        from skip [OF o(1) r] 3 obtain s' where
          s: "zc_Skip zi ?rest (ci_input c) = Some (nat ?rest \<le> length ?left, s')" "zv_wf vw s'"
          "zv_left vw s' = drop (nat ?rest) ?left" by auto
        have rr: "0 \<le> ci_read c + ?rest" "ci_read c + ?rest \<le> ci_closest c"
          using False r r0 by (auto simp: until_def)
        have e: "nat n = length (ci_buffer c) + nat ?rest" using 3 len o(2) by linarith
        have e2: "nat (ci_closest c - (ci_read c + ?rest)) = nat until - nat ?rest"
          using False r by (simp add: until_def)
        have e3: "nat n \<le> length (visible vw c) \<longleftrightarrow> nat ?rest \<le> length ?left"
          using False by (auto simp: vl e)
        have e4: "drop (nat n) (visible vw c) = take (nat until - nat ?rest) (drop (nat ?rest) ?left)"
          by (simp add: vl e drop_take)
        from adv [OF s(2) rr ov0] show ?thesis
          using un False s(1,3) e2 e3 e4 by (auto simp: same_rest_def)
      qed
    qed
  qed
qed

end

section \<open>Skipping fields\<close>

text \<open>\<open>SkipField\<close> (\<open>Some tag\<close>) and \<open>SkipMessage\<close> (\<open>None\<close>) call each other; the result is the
  returned flag with the reader and the field set as the call leaves them.\<close>

partial_function (option) ci_skip :: "'s zc_input \<Rightarrow> u32 option \<Rightarrow> 's coded_in \<Rightarrow> UnknownFieldSet \<Rightarrow>
    (bool \<times> 's coded_in \<times> UnknownFieldSet) option" where
  "ci_skip zi job c ufs =
     (case job of
        None \<Rightarrow> do {
          (tag, c1) \<leftarrow> ci_ReadTag zi c;
          if tag = 0 then Some (True, c1, ufs)
          else if GetTagWireType tag = Some WIRETYPE_END_GROUP then Some (True, c1, ufs)
          else do {
            (ok, c2, ufs2) \<leftarrow> ci_skip zi (Some tag) c1 ufs;
            if ok then ci_skip zi None c2 ufs2 else Some (False, c2, ufs2)
          }
        }
      | Some tag \<Rightarrow>
          (let number = GetTagFieldNumber tag
           in case GetTagWireType tag of
             Some WIRETYPE_VARINT \<Rightarrow> do {
               (v, c1) \<leftarrow> ci_ReadVarint64 zi c;
               Some (case v of None \<Rightarrow> (False, c1, ufs)
                     | Some value \<Rightarrow> (True, c1, ufs @ [UF_varint number value]))
             }
           | Some WIRETYPE_FIXED64 \<Rightarrow> do {
               (v, c1) \<leftarrow> ci_ReadLittleEndian64 zi c;
               Some (case v of None \<Rightarrow> (False, c1, ufs)
                     | Some value \<Rightarrow> (True, c1, ufs @ [UF_fixed64 number value]))
             }
           | Some WIRETYPE_LENGTH_DELIMITED \<Rightarrow> do {
               (v, c1) \<leftarrow> ci_ReadVarint32 zi c;
               case v of None \<Rightarrow> Some (False, c1, ufs)
               | Some count \<Rightarrow> do {
                   (ok, str, c2) \<leftarrow> ci_ReadString zi [] (sint count) c1;
                   Some (ok, c2, ufs @ [UF_length_delimited number str])
                 }
             }
           | Some WIRETYPE_START_GROUP \<Rightarrow>
               (case ci_IncrementRecursionDepth c of (deeper, c1) \<Rightarrow>
                  if \<not> deeper then Some (False, c1, ufs)
                  else do {
                    (ok, c2, grp) \<leftarrow> ci_skip zi None c1 [];
                    if \<not> ok then Some (False, c2, ufs @ [UF_group number grp])
                    else let c3 = ci_DecrementRecursionDepth c2
                         in Some (ci_LastTagWas c3 (MakeTag (GetTagFieldNumber tag) WIRETYPE_END_GROUP),
                                  c3, ufs @ [UF_group number grp])
                  })
           | Some WIRETYPE_END_GROUP \<Rightarrow> Some (False, c, ufs)
           | Some WIRETYPE_FIXED32 \<Rightarrow> do {
               (v, c1) \<leftarrow> ci_ReadLittleEndian32 zi c;
               Some (case v of None \<Rightarrow> (False, c1, ufs)
                     | Some value \<Rightarrow> (True, c1, ufs @ [UF_fixed32 number value]))
             }
           | None \<Rightarrow> Some (False, c, ufs)))"

definition ci_SkipField :: "'s zc_input \<Rightarrow> 's coded_in \<Rightarrow> u32 \<Rightarrow> UnknownFieldSet \<Rightarrow>
    (bool \<times> 's coded_in \<times> UnknownFieldSet) option" where
  "ci_SkipField zi c tag ufs = ci_skip zi (Some tag) c ufs"

definition ci_SkipMessage :: "'s zc_input \<Rightarrow> 's coded_in \<Rightarrow> UnknownFieldSet \<Rightarrow>
    (bool \<times> 's coded_in \<times> UnknownFieldSet) option" where
  "ci_SkipMessage zi c ufs = ci_skip zi None c ufs"

section \<open>The reader over a stream and the reader over the array\<close>

definition agrees :: "'s zc_view \<Rightarrow> 's coded_in \<Rightarrow> cis \<Rightarrow> bool" where
  "agrees vw c f \<longleftrightarrow>
     ci_ok vw c \<and> visible vw c = cis_buf f \<and> ci_last_tag c = last_tag f \<and>
     ci_legit c = legitimate_message_end f \<and> ci_depth c = int (recursion_depth f) \<and>
     ci_depth_limit c = 100 \<and> below_total vw c \<and> cis_size f \<le> kDefaultTotalBytesLimit"

text \<open>After a failed read the two may stand at different bytes.\<close>

definition flags_agree :: "'s coded_in \<Rightarrow> cis \<Rightarrow> bool" where
  "flags_agree c f \<longleftrightarrow> ci_last_tag c = last_tag f \<and> ci_legit c = legitimate_message_end f"

lemma agrees_flags: "agrees vw c f \<Longrightarrow> flags_agree c f"
  by (simp add: agrees_def flags_agree_def)

lemma agrees_went:
  assumes a: "agrees vw c f" and w: "went vw c c'" and v: "visible vw c' = rest"
  shows "agrees vw c' (f\<lparr> cis_buf := rest \<rparr>)"
  using a went_ok [OF w] went_same [OF w] below_total_went [OF _ w] v
  by (auto simp: agrees_def same_rest_def)

lemma flags_went: "flags_agree c f \<Longrightarrow> went vw c c' \<Longrightarrow> flags_agree c' (f\<lparr> cis_buf := rest \<rparr>)"
  using went_same [of vw c c'] by (simp add: flags_agree_def same_rest_def)

lemma flags_simps [simp]:
  "flags_agree c (f\<lparr> cis_buf := b \<rparr>) = flags_agree c f"
  "flags_agree (c\<lparr> ci_depth := d \<rparr>) f = flags_agree c f"
  "flags_agree c (f\<lparr> recursion_depth := k \<rparr>) = flags_agree c f"
  by (simp_all add: flags_agree_def)

text \<open>\<open>ReadTag\<close> over the array, in the same terms.\<close>

lemma flat_tag_none:
  assumes n: "fst (ReadVarint64Slow (cis_buf f)) = None" and k: "cis_size f \<le> kDefaultTotalBytesLimit"
  shows "\<exists>f'. ReadTagFallback f = (0, f') \<and> last_tag f' = last_tag f \<and>
    legitimate_message_end f' = (cis_buf f = [] \<or> legitimate_message_end f)"
proof (cases "cis_buf f = []")
  case True
  then show ?thesis using k by (auto simp: ReadTagFallback_def ReadTagSlow_def safe_unrolled_def)
next
  case ne: False
  show ?thesis
  proof (cases "safe_unrolled (cis_buf f)")
    case True
    have "ReadVarint32FromArray (cis_buf f) \<noteq> Vdone t rest" for t rest
      using ReadVarint32FromArray_slow(1) [of "cis_buf f" t rest] n by auto
    then show ?thesis using True ne
      by (cases "ReadVarint32FromArray (cis_buf f)") (auto simp: ReadTagFallback_def)
  next
    case False
    moreover have "fst (ReadVarint64 (cis_buf f)) = None" using n by (simp add: ReadVarint64_slow(1))
    ultimately show ?thesis using ne
      by (auto simp: ReadTagFallback_def ReadTagSlow_def cis_ReadVarint64_def split: prod.splits)
  qed
qed

lemma flat_ReadTag_none:
  assumes n: "fst (ReadVarint64Slow (cis_buf f)) = None" and k: "cis_size f \<le> kDefaultTotalBytesLimit"
  shows "\<exists>f'. ReadTag f = (0, f') \<and> last_tag f' = 0 \<and>
    legitimate_message_end f' = (cis_buf f = [] \<or> legitimate_message_end f)"
proof -
  from flat_tag_none [OF assms] obtain f' where f': "ReadTagFallback f = (0, f')"
    "legitimate_message_end f' = (cis_buf f = [] \<or> legitimate_message_end f)" by blast
  have "b < 0x80 \<Longrightarrow> cis_buf f \<noteq> b # bs" for b bs
    using n Slow_hd [of b bs] by auto
  then have "ReadTag f = (0, f'\<lparr> last_tag := 0 \<rparr>)"
    using f'(1) by (auto simp: ReadTag_def split: list.splits)
  then show ?thesis using f'(2) by simp
qed

lemma flat_cutoff_none:
  assumes n: "fst (ReadVarint64Slow (cis_buf f)) = None" and k: "cis_size f \<le> kDefaultTotalBytesLimit"
  shows "\<exists>f'. ReadTagWithCutoff f 127 = ((0, False), f') \<and> last_tag f' = 0 \<and>
    legitimate_message_end f' = (cis_buf f = [] \<or> legitimate_message_end f)"
proof -
  from flat_tag_none [OF assms] obtain f' where f': "ReadTagFallback f = (0, f')"
    "legitimate_message_end f' = (cis_buf f = [] \<or> legitimate_message_end f)" by blast
  have "0 < sint b \<Longrightarrow> cis_buf f \<noteq> b # bs" for b bs
    using n Slow_hd [of b bs] by (auto simp: sint_pos_iff)
  then have "ReadTagWithCutoff f 127 = ((0, False), f'\<lparr> last_tag := 0 \<rparr>)"
    using f'(1) by (auto simp: ReadTagWithCutoff_def Let_def split: list.splits)
  then show ?thesis using f'(2) by simp
qed

context zero_copy_input begin

text \<open>One step of each kind: the same result, and agreement again where reading can go on.\<close>

lemma tag_step:
  assumes a: "agrees vw c f" and t: "tag_left vw c c1"
    and some: "\<And>w rest. ReadVarint64Slow (cis_buf f) = (Some w, rest) \<Longrightarrow>
      f' = f\<lparr> cis_buf := rest, last_tag := ucast w \<rparr>"
    and none: "fst (ReadVarint64Slow (cis_buf f)) = None \<Longrightarrow> last_tag f' = 0 \<and>
      legitimate_message_end f' = (cis_buf f = [] \<or> legitimate_message_end f)"
  defines "c' \<equiv> c1\<lparr> ci_last_tag := tag_of (cis_buf f) \<rparr>"
  shows "flags_agree c' f'" "tag_of (cis_buf f) \<noteq> 0 \<Longrightarrow> agrees vw c' f'"
    "on_way vw c c'" "last_tag f' = tag_of (cis_buf f)"
proof -
  have v: "visible vw c = cis_buf f" using a by (simp add: agrees_def)
  obtain x rest where x: "ReadVarint64Slow (cis_buf f) = (x, rest)" by fastforce
  have "flags_agree c' f' \<and> (tag_of (cis_buf f) \<noteq> 0 \<longrightarrow> agrees vw c' f') \<and> on_way vw c c' \<and>
    last_tag f' = tag_of (cis_buf f)"
  proof (cases x)
    case None
    then show ?thesis using a t none x
      by (simp add: tag_left_def v tag_of_def c'_def flags_agree_def agrees_def)
  next
    case (Some w)
    with x t have w: "went vw c c1" "visible vw c1 = rest" by (auto simp: tag_left_def v)
    from some x Some have f': "f' = f\<lparr> cis_buf := rest, last_tag := ucast w \<rparr>" by simp
    have "tag_of (cis_buf f) = ucast w" using x Some by (simp add: tag_of_def)
    moreover have "agrees vw c1 (f\<lparr> cis_buf := rest \<rparr>)" by (rule agrees_went [OF a w])
    ultimately show ?thesis using went_on_way [OF w(1)]
      by (auto simp: c'_def f' agrees_def flags_agree_def)
  qed
  then show "flags_agree c' f'" "tag_of (cis_buf f) \<noteq> 0 \<Longrightarrow> agrees vw c' f'"
    "on_way vw c c'" "last_tag f' = tag_of (cis_buf f)" by blast+
qed

lemma agrees_ok: "agrees vw c f \<Longrightarrow> ci_ok vw c" "agrees vw c f \<Longrightarrow> below_total vw c"
  "agrees vw c f \<Longrightarrow> visible vw c = cis_buf f" "agrees vw c f \<Longrightarrow> cis_size f \<le> kDefaultTotalBytesLimit"
  by (simp_all add: agrees_def)

lemma ReadTag_agrees:
  assumes a: "agrees vw c f" and r: "ReadTag f = (tag, f')"
  shows "\<exists>c'. ci_ReadTag zi c = Some (tag, c') \<and> flags_agree c' f' \<and> on_way vw c c' \<and>
    (tag \<noteq> 0 \<longrightarrow> agrees vw c' f') \<and> last_tag f' = tag"
proof -
  from ReadTag_reads [OF agrees_ok(1) [OF a] agrees_ok(2) [OF a]] obtain c1 where
    c1: "ci_ReadTag zi c = Some (tag_of (cis_buf f), c1\<lparr> ci_last_tag := tag_of (cis_buf f) \<rparr>)"
    and t: "tag_left vw c c1" unfolding agrees_ok(3) [OF a] by blast
  have some: "f' = f\<lparr> cis_buf := rest, last_tag := ucast w \<rparr> \<and> tag = ucast w"
    if "ReadVarint64Slow (cis_buf f) = (Some w, rest)" for w rest
    using ReadTag_slow [OF that] r by simp
  have none: "tag = 0 \<and> last_tag f' = 0 \<and>
      legitimate_message_end f' = (cis_buf f = [] \<or> legitimate_message_end f)"
    if "fst (ReadVarint64Slow (cis_buf f)) = None"
    using flat_ReadTag_none [OF that agrees_ok(4) [OF a]] r by auto
  have "tag = tag_of (cis_buf f)"
    using some none by (cases "ReadVarint64Slow (cis_buf f)") (auto simp: tag_of_def split: option.splits)
  with tag_step [OF a t, of f'] some none c1 show ?thesis by auto
qed

lemma Cutoff_agrees:
  assumes a: "agrees vw c f" and r: "ReadTagWithCutoff f 127 = ((tag, below), f')"
  shows "\<exists>c'. ci_ReadTagWithCutoff zi 127 c = Some ((tag, below), c') \<and> flags_agree c' f' \<and>
    on_way vw c c' \<and> (tag \<noteq> 0 \<longrightarrow> agrees vw c' f') \<and> (tag = 0 \<longrightarrow> \<not> below)"
proof -
  from ReadTagWithCutoff_reads [OF agrees_ok(1) [OF a] agrees_ok(2) [OF a]] obtain c1 where
    c1: "ci_ReadTagWithCutoff zi 127 c = Some ((tag_of (cis_buf f), tag_of (cis_buf f) - 1 < 127),
      c1\<lparr> ci_last_tag := tag_of (cis_buf f) \<rparr>)"
    and t: "tag_left vw c c1" unfolding agrees_ok(3) [OF a] by blast
  have some: "f' = f\<lparr> cis_buf := rest, last_tag := ucast w \<rparr> \<and> tag = ucast w \<and>
      below = ((ucast w :: u32) - 1 < 127)"
    if "ReadVarint64Slow (cis_buf f) = (Some w, rest)" for w rest
    using ReadTagWithCutoff_slow [OF that] r by simp
  have none: "tag = 0 \<and> \<not> below \<and> last_tag f' = 0 \<and>
      legitimate_message_end f' = (cis_buf f = [] \<or> legitimate_message_end f)"
    if "fst (ReadVarint64Slow (cis_buf f)) = None"
    using flat_cutoff_none [OF that agrees_ok(4) [OF a]] r by auto
  obtain x rest where x: "ReadVarint64Slow (cis_buf f) = (x, rest)" by fastforce
  have "tag = tag_of (cis_buf f) \<and> below = (tag_of (cis_buf f) - 1 < 127) \<and> (tag = 0 \<longrightarrow> \<not> below)"
  proof (cases x)
    case None
    with none x show ?thesis by (simp add: tag_of_def)
  next
    case (Some w)
    with some x show ?thesis by (auto simp: tag_of_def)
  qed
  with tag_step [OF a t, of f'] some none c1 show ?thesis by auto
qed

lemma lift_reads:
  assumes a: "agrees vw c f" and r: "reads_as vw c flat res"
  shows "\<exists>c'. res = Some (fst flat, c') \<and> went vw c c' \<and> flags_agree c' f \<and>
    (fst flat \<noteq> None \<longrightarrow> agrees vw c' (f\<lparr> cis_buf := snd flat \<rparr>))"
  using r agrees_went [OF a] flags_went [OF agrees_flags [OF a]] by (auto simp: reads_as_def)

lemma reads_agree:
  assumes a: "agrees vw c f"
  shows "cis_ReadVarint64 f = (v64, f') \<Longrightarrow> \<exists>c'. ci_ReadVarint64 zi c = Some (v64, c') \<and>
      went vw c c' \<and> flags_agree c' f' \<and> (v64 \<noteq> None \<longrightarrow> agrees vw c' f')"
    and "cis_ReadVarint32 f = (v32, f') \<Longrightarrow> \<exists>c'. ci_ReadVarint32 zi c = Some (v32, c') \<and>
      went vw c c' \<and> flags_agree c' f' \<and> (v32 \<noteq> None \<longrightarrow> agrees vw c' f')"
    and "ReadLittleEndian32 f = (v32, f') \<Longrightarrow> \<exists>c'. ci_ReadLittleEndian32 zi c = Some (v32, c') \<and>
      went vw c c' \<and> flags_agree c' f' \<and> (v32 \<noteq> None \<longrightarrow> agrees vw c' f')"
    and "ReadLittleEndian64 f = (v64, f') \<Longrightarrow> \<exists>c'. ci_ReadLittleEndian64 zi c = Some (v64, c') \<and>
      went vw c c' \<and> flags_agree c' f' \<and> (v64 \<noteq> None \<longrightarrow> agrees vw c' f')"
proof -
  note ok = agrees_ok(1) [OF a] and vis = agrees_ok(3) [OF a]
  show "cis_ReadVarint64 f = (v64, f') \<Longrightarrow> \<exists>c'. ci_ReadVarint64 zi c = Some (v64, c') \<and>
      went vw c c' \<and> flags_agree c' f' \<and> (v64 \<noteq> None \<longrightarrow> agrees vw c' f')"
    using lift_reads [OF a ReadVarint64_reads [OF ok]]
    by (auto simp: cis_ReadVarint64_def vis split: prod.splits)
  show "cis_ReadVarint32 f = (v32, f') \<Longrightarrow> \<exists>c'. ci_ReadVarint32 zi c = Some (v32, c') \<and>
      went vw c c' \<and> flags_agree c' f' \<and> (v32 \<noteq> None \<longrightarrow> agrees vw c' f')"
    using lift_reads [OF a ReadVarint32_reads [OF ok]]
    by (auto simp: cis_ReadVarint32_def vis split: prod.splits)
  show "ReadLittleEndian32 f = (v32, f') \<Longrightarrow> \<exists>c'. ci_ReadLittleEndian32 zi c = Some (v32, c') \<and>
      went vw c c' \<and> flags_agree c' f' \<and> (v32 \<noteq> None \<longrightarrow> agrees vw c' f')"
    using lift_reads [OF a ReadLittleEndian32_reads [OF ok]]
    by (auto simp: ReadLittleEndian32_def le_array_def vis split: if_splits)
  show "ReadLittleEndian64 f = (v64, f') \<Longrightarrow> \<exists>c'. ci_ReadLittleEndian64 zi c = Some (v64, c') \<and>
      went vw c c' \<and> flags_agree c' f' \<and> (v64 \<noteq> None \<longrightarrow> agrees vw c' f')"
    using lift_reads [OF a ReadLittleEndian64_reads [OF ok]]
    by (auto simp: ReadLittleEndian64_def le_array_def vis split: if_splits)
qed

lemma String_agrees:
  assumes a: "agrees vw c f" and r: "ReadString f count = (ok, str, f')"
  shows "\<exists>c'. ci_ReadString zi [] (sint count) c = Some (ok, str, c') \<and> went vw c c' \<and>
    flags_agree c' f' \<and> (ok \<longrightarrow> agrees vw c' f')"
proof (cases "sint count < 0")
  case True
  then show ?thesis using r agrees_flags [OF a] went_refl [OF agrees_ok(1) [OF a]]
    by (auto simp: ReadString_def ci_ReadString_def)
next
  case False
  then have u: "nat (sint count) = unat count" "0 \<le> sint count"
    using sint_lt [of count] uint_sint [of count]
    by (simp_all add: unat_eq_nat_uint take_bit_int_eq_self)
  from string_reads [OF agrees_ok(1) [OF a] u(2), unfolded u(1) agrees_ok(3) [OF a]] obtain c' where
    c': "ci_ReadString zi [] (sint count) c = Some (unat count \<le> length (cis_buf f),
      take (unat count) (cis_buf f), c')" "went vw c c'" "visible vw c' = drop (unat count) (cis_buf f)"
    by blast
  with False r agrees_went [OF a c'(2,3)] flags_went [OF agrees_flags [OF a] c'(2)] show ?thesis
    by (auto simp: ReadString_def split: if_splits)
qed

lemma Depth_agrees:
  assumes a: "agrees vw c f" and i: "IncrementRecursionDepth f = (b, f')"
  shows "\<exists>c'. ci_IncrementRecursionDepth c = (b, c') \<and> agrees vw c' f' \<and> on_way vw c c'"
  using a i on_way_refl [OF agrees_ok(1) [OF a]]
  by (auto simp: IncrementRecursionDepth_def ci_IncrementRecursionDepth_def agrees_def Let_def)

lemma Decrement_agrees:
  assumes "agrees vw c f"
  shows "agrees vw (ci_DecrementRecursionDepth c) (DecrementRecursionDepth f)"
  using assms by (auto simp: DecrementRecursionDepth_def ci_DecrementRecursionDepth_def agrees_def)

lemma Decrement_flags:
  "flags_agree (ci_DecrementRecursionDepth c) (DecrementRecursionDepth f) = flags_agree c f"
  "on_way vw a (ci_DecrementRecursionDepth c) = on_way vw a c"
  "last_tag (DecrementRecursionDepth f) = last_tag f"
  by (simp_all add: DecrementRecursionDepth_def ci_DecrementRecursionDepth_def)

lemma end_group_nonzero: "MakeTag n WIRETYPE_END_GROUP \<noteq> 0"
proof
  assume "MakeTag n WIRETYPE_END_GROUP = 0"
  then have "GetTagWireType 0 = Some WIRETYPE_END_GROUP"
    using GetTagWireType_MakeTag [of n WIRETYPE_END_GROUP] by simp
  then show False by (simp add: GetTagWireType_def)
qed

lemma group_agrees:
  assumes a: "agrees vw c f"
    and g: "GetTagWireType tag = Some WIRETYPE_START_GROUP"
    and r: "SkipField_f (Suc n) f tag ufs = Some (ok, f', ufs')"
    and IH: "\<And>f ufs ok f' ufs' c. SkipMessage_f n f ufs = Some (ok, f', ufs') \<Longrightarrow> agrees vw c f \<Longrightarrow>
      \<exists>c'. ci_skip zi None c ufs = Some (ok, c', ufs') \<and> on_way vw c c' \<and> flags_agree c' f' \<and>
        (ok \<longrightarrow> agrees vw c' f' \<or> last_tag f' = 0)"
  shows "\<exists>c'. ci_skip zi (Some tag) c ufs = Some (ok, c', ufs') \<and> on_way vw c c' \<and>
    flags_agree c' f' \<and> (ok \<longrightarrow> agrees vw c' f')"
proof -
  obtain b f1 where i: "IncrementRecursionDepth f = (b, f1)" by fastforce
  from Depth_agrees [OF a i] obtain c1 where
    c1: "ci_IncrementRecursionDepth c = (b, c1)" "agrees vw c1 f1" "on_way vw c c1" by blast
  show ?thesis
  proof (cases b)
    case False
    then show ?thesis using r i c1 g agrees_flags
      by (subst ci_skip.simps) (auto simp: Let_def)
  next
    case True
    with r i g obtain ok2 f2 grp where
      m: "SkipMessage_f n f1 [] = Some (ok2, f2, grp)"
      by (auto simp: Let_def split: option.splits)
    from IH [OF m c1(2)] obtain c2 where
      c2: "ci_skip zi None c1 [] = Some (ok2, c2, grp)" "on_way vw c1 c2" "flags_agree c2 f2"
        "ok2 \<longrightarrow> agrees vw c2 f2 \<or> last_tag f2 = 0" by blast
    have way: "on_way vw c c2" by (rule on_way_trans [OF c1(3) c2(2)])
    let ?num = "GetTagFieldNumber tag"
    have unf: "ci_skip zi (Some tag) c ufs =
      (if \<not> ok2 then Some (False, c2, ufs @ [UF_group ?num grp])
       else Some (ci_LastTagWas (ci_DecrementRecursionDepth c2) (MakeTag ?num WIRETYPE_END_GROUP),
              ci_DecrementRecursionDepth c2, ufs @ [UF_group ?num grp]))"
      using c1(1) c2(1) g True by (subst ci_skip.simps) (simp add: Let_def)
    have flat: "(if \<not> ok2 then Some (False, f2, ufs @ [UF_group ?num grp])
       else Some (LastTagWas (DecrementRecursionDepth f2) (MakeTag ?num WIRETYPE_END_GROUP),
              DecrementRecursionDepth f2, ufs @ [UF_group ?num grp])) = Some (ok, f', ufs')"
      using r m i g True by (auto simp: Let_def split: bool.splits)
    show ?thesis
    proof (cases ok2)
      case False
      then show ?thesis using unf flat c2(3) way by auto
    next
      case ok2: True
      have flags: "flags_agree (ci_DecrementRecursionDepth c2) (DecrementRecursionDepth f2)"
        using c2(3) by (simp add: Decrement_flags)
      moreover have "ok \<longrightarrow> agrees vw (ci_DecrementRecursionDepth c2) (DecrementRecursionDepth f2)"
        using c2(4) ok2 flat Decrement_agrees end_group_nonzero [of ?num]
        by (auto simp: LastTagWas_def Decrement_flags)
      ultimately show ?thesis using unf flat ok2 way
        by (auto simp: ci_LastTagWas_def LastTagWas_def flags_agree_def Decrement_flags)
    qed
  qed
qed

definition add_value :: "('v \<Rightarrow> unknown_field) \<Rightarrow> UnknownFieldSet \<Rightarrow> 'v option \<Rightarrow> 'i \<Rightarrow>
    bool \<times> 'i \<times> UnknownFieldSet" where
  "add_value mk ufs v i = (case v of None \<Rightarrow> (False, i, ufs) | Some x \<Rightarrow> (True, i, ufs @ [mk x]))"

lemma field_agrees:
  assumes a: "agrees vw c f"
    and g: "GetTagWireType tag \<noteq> Some WIRETYPE_START_GROUP"
    and r: "SkipField_f (Suc n) f tag ufs = Some (ok, f', ufs')"
  shows "\<exists>c'. ci_skip zi (Some tag) c ufs = Some (ok, c', ufs') \<and> on_way vw c c' \<and>
    flags_agree c' f' \<and> (ok \<longrightarrow> agrees vw c' f')"
proof -
  note reads = reads_agree [OF a]
  note way = went_on_way
  consider (varint) "GetTagWireType tag = Some WIRETYPE_VARINT"
    | (fixed64) "GetTagWireType tag = Some WIRETYPE_FIXED64"
    | (fixed32) "GetTagWireType tag = Some WIRETYPE_FIXED32"
    | (delimited) "GetTagWireType tag = Some WIRETYPE_LENGTH_DELIMITED"
    | (bad) "GetTagWireType tag = None \<or> GetTagWireType tag = Some WIRETYPE_END_GROUP"
  proof (cases "GetTagWireType tag")
    case (Some ty)
    with g that show thesis by (cases ty) auto
  qed (use that in blast)
  then show ?thesis
  proof cases
    case varint
    obtain v f1 where v: "cis_ReadVarint64 f = (v, f1)" by fastforce
    from reads(1) [OF v] obtain c1 where "ci_ReadVarint64 zi c = Some (v, c1)" "went vw c c1"
      "flags_agree c1 f1" "v \<noteq> None \<longrightarrow> agrees vw c1 f1" by blast
    moreover from this(1) have "ci_skip zi (Some tag) c ufs =
        Some (add_value (UF_varint (GetTagFieldNumber tag)) ufs v c1)"
      using varint by (subst ci_skip.simps) (simp add: Let_def add_value_def)
    moreover have "add_value (UF_varint (GetTagFieldNumber tag)) ufs v f1 = (ok, f', ufs')"
      using r v varint by (cases v) (simp_all add: Let_def add_value_def)
    ultimately show ?thesis using way by (cases v) (auto simp: add_value_def)
  next
    case fixed64
    obtain v f1 where v: "ReadLittleEndian64 f = (v, f1)" by fastforce
    from reads(4) [OF v] obtain c1 where "ci_ReadLittleEndian64 zi c = Some (v, c1)" "went vw c c1"
      "flags_agree c1 f1" "v \<noteq> None \<longrightarrow> agrees vw c1 f1" by blast
    moreover from this(1) have "ci_skip zi (Some tag) c ufs =
        Some (add_value (UF_fixed64 (GetTagFieldNumber tag)) ufs v c1)"
      using fixed64 by (subst ci_skip.simps) (simp add: Let_def add_value_def)
    moreover have "add_value (UF_fixed64 (GetTagFieldNumber tag)) ufs v f1 = (ok, f', ufs')"
      using r v fixed64 by (cases v) (simp_all add: Let_def add_value_def)
    ultimately show ?thesis using way by (cases v) (auto simp: add_value_def)
  next
    case fixed32
    obtain v f1 where v: "ReadLittleEndian32 f = (v, f1)" by fastforce
    from reads(3) [OF v] obtain c1 where "ci_ReadLittleEndian32 zi c = Some (v, c1)" "went vw c c1"
      "flags_agree c1 f1" "v \<noteq> None \<longrightarrow> agrees vw c1 f1" by blast
    moreover from this(1) have "ci_skip zi (Some tag) c ufs =
        Some (add_value (UF_fixed32 (GetTagFieldNumber tag)) ufs v c1)"
      using fixed32 by (subst ci_skip.simps) (simp add: Let_def add_value_def)
    moreover have "add_value (UF_fixed32 (GetTagFieldNumber tag)) ufs v f1 = (ok, f', ufs')"
      using r v fixed32 by (cases v) (simp_all add: Let_def add_value_def)
    ultimately show ?thesis using way by (cases v) (auto simp: add_value_def)
  next
    case delimited
    obtain v f1 where v: "cis_ReadVarint32 f = (v, f1)" by fastforce
    from reads(2) [OF v] obtain c1 where c1: "ci_ReadVarint32 zi c = Some (v, c1)" "went vw c c1"
      "flags_agree c1 f1" "v \<noteq> None \<longrightarrow> agrees vw c1 f1" by blast
    show ?thesis
    proof (cases v)
      case None
      then show ?thesis using r v c1 delimited way
        by (subst ci_skip.simps) (auto simp: Let_def)
    next
      case (Some count)
      obtain b str f2 where s: "ReadString f1 count = (b, str, f2)" by (metis prod_cases3)
      from String_agrees [OF _ s] c1(4) Some obtain c2 where
        c2: "ci_ReadString zi [] (sint count) c1 = Some (b, str, c2)" "went vw c1 c2"
          "flags_agree c2 f2" "b \<longrightarrow> agrees vw c2 f2" by blast
      then show ?thesis using r v s Some c1 delimited way [OF went_trans [OF c1(2) c2(2)]]
        by (subst ci_skip.simps) (auto simp: Let_def)
    qed
  next
    case bad
    then show ?thesis using r agrees_flags [OF a] on_way_refl [OF agrees_ok(1) [OF a]]
      by (subst ci_skip.simps) (auto simp: Let_def)
  qed
qed

lemma skip_agrees:
  "SkipField_f n f tag ufs = Some (ok, f', ufs') \<Longrightarrow> agrees vw c f \<Longrightarrow>
     \<exists>c'. ci_skip zi (Some tag) c ufs = Some (ok, c', ufs') \<and> on_way vw c c' \<and>
       flags_agree c' f' \<and> (ok \<longrightarrow> agrees vw c' f')"
  "SkipMessage_f n f ufs = Some (ok, f', ufs') \<Longrightarrow> agrees vw c f \<Longrightarrow>
     \<exists>c'. ci_skip zi None c ufs = Some (ok, c', ufs') \<and> on_way vw c c' \<and> flags_agree c' f' \<and>
       (ok \<longrightarrow> agrees vw c' f' \<or> last_tag f' = 0)"
proof (induction n arbitrary: f tag ufs ok f' ufs' c and f ufs ok f' ufs' c)
  case 0
  { case 1 then show ?case by simp
  next case 2 then show ?case by simp }
next
  case (Suc n)
  { case 1
    show ?case
    proof (cases "GetTagWireType tag = Some WIRETYPE_START_GROUP")
      case True
      show ?thesis by (rule group_agrees [OF 1(2) True 1(1) Suc.IH(2)])
    next
      case False
      show ?thesis by (rule field_agrees [OF 1(2) False 1(1)])
    qed
  next
    case 2
    obtain tag f1 where t: "ReadTag f = (tag, f1)" by fastforce
    from ReadTag_agrees [OF 2(2) t] obtain c1 where
      c1: "ci_ReadTag zi c = Some (tag, c1)" "flags_agree c1 f1" "on_way vw c c1"
        "tag \<noteq> 0 \<longrightarrow> agrees vw c1 f1" "last_tag f1 = tag" by blast
    show ?case
    proof (cases "tag = 0 \<or> GetTagWireType tag = Some WIRETYPE_END_GROUP")
      case True
      with 2(1) t have "ok" "f' = f1" "ufs' = ufs" by (auto split: if_splits)
      then show ?thesis using True c1
        by (subst ci_skip.simps) auto
    next
      case False
      with 2(1) t obtain ok2 f2 ufs2 where
        s: "SkipField_f n f1 tag ufs = Some (ok2, f2, ufs2)" by (auto split: option.splits)
      from Suc.IH(1) [OF s] c1(4) False obtain c2 where
        c2: "ci_skip zi (Some tag) c1 ufs = Some (ok2, c2, ufs2)" "on_way vw c1 c2"
          "flags_agree c2 f2" "ok2 \<longrightarrow> agrees vw c2 f2" by blast
      have way: "on_way vw c c2" by (rule on_way_trans [OF c1(3) c2(2)])
      have unf: "ci_skip zi None c ufs = (if ok2 then ci_skip zi None c2 ufs2 else Some (False, c2, ufs2))"
        using c1(1) c2(1) False by (subst ci_skip.simps) simp
      show ?thesis
      proof (cases ok2)
        case False
        then show ?thesis using 2(1) t s c2(3) way unf \<open>\<not> (tag = 0 \<or> _)\<close> by auto
      next
        case True
        then have "SkipMessage_f n f2 ufs2 = Some (ok, f', ufs')"
          using 2(1) t s \<open>\<not> (tag = 0 \<or> _)\<close> by auto
        from Suc.IH(2) [OF this] c2(4) True obtain c' where
          "ci_skip zi None c2 ufs2 = Some (ok, c', ufs')" "on_way vw c2 c'" "flags_agree c' f'"
          "ok \<longrightarrow> agrees vw c' f' \<or> last_tag f' = 0" by blast
        then show ?thesis using unf True on_way_trans [OF way] by auto
      qed
    qed }
qed

end

end
