(* ===== verification/GF_StreamParse.thy ===== *)
theory GF_StreamParse
  imports GF_StreamSkip GF_Regist GF_Shutdown
begin

text \<open>
  Messages over a stream of blocks: the parse loops of \<open>Regist.pb.cpp\<close> and \<open>Shutdown.pb.cpp\<close>
  and the stream entry points of \<open>src/include/google/protobuf/message_lite.cc\<close>. A message read
  through any stream that keeps the contract \<open>zero_copy_input\<close> is the one \<open>ParseFromArray\<close>
  reads from the array of the same bytes, although \<open>ExpectAtEnd\<close> may answer differently at
  the end of a block.
\<close>

section \<open>The parse loop\<close>

text \<open>How the \<open>switch\<close> of a class leaves.\<close>

datatype ('s, 'm) ci_exit =
    Ci_unusual
  | Ci_failure "'s coded_in" 'm
  | Ci_field_read "'s coded_in" 'm

partial_function (option) ci_parse_loop :: "'s zc_input \<Rightarrow>
    (u32 \<Rightarrow> 's coded_in \<Rightarrow> 'a pb_base_scheme \<Rightarrow> ('s, 'a pb_base_scheme) ci_exit option) \<Rightarrow>
    's coded_in \<Rightarrow> 'a pb_base_scheme \<Rightarrow> (bool \<times> 's coded_in \<times> 'a pb_base_scheme) option" where
  "ci_parse_loop zi switch c m = do {
     ((tag, below), c1) \<leftarrow> ci_ReadTagWithCutoff zi 127 c;
     e \<leftarrow> (if below then switch tag c1 m else Some Ci_unusual);
     case e of
       Ci_failure c2 m2 \<Rightarrow> Some (False, c2, m2)
     | Ci_field_read c2 m2 \<Rightarrow>
         (case ci_ExpectAtEnd c2 of (fin, c3) \<Rightarrow>
            if fin then Some (True, c3, m2) else ci_parse_loop zi switch c3 m2)
     | Ci_unusual \<Rightarrow>
         if tag = 0 \<or> GetTagWireType tag = Some WIRETYPE_END_GROUP then Some (True, c1, m)
         else do {
           (ok, c2, ufs) \<leftarrow> ci_SkipField zi c1 tag (unknown_fields m);
           if ok then ci_parse_loop zi switch c2 (m\<lparr> unknown_fields := ufs \<rparr>)
           else Some (False, c2, m\<lparr> unknown_fields := ufs \<rparr>)
         }
   }"

text \<open>The classes, each with its own \<open>switch\<close>.\<close>

definition Regist_Req_MergePartialFromStream :: "'s zc_input \<Rightarrow> 's coded_in \<Rightarrow> Regist_Req \<Rightarrow>
    (bool \<times> 's coded_in \<times> Regist_Req) option" where
  "Regist_Req_MergePartialFromStream zi = ci_parse_loop zi (\<lambda>tag c m.
     if GetTagFieldNumber tag = 1 then
       if tag = 8 then do {
         (v, c') \<leftarrow> ci_ReadVarint32 zi c;
         Some (case v of
             None \<Rightarrow> Ci_failure c' m
           | Some x \<Rightarrow> Ci_field_read c' (Regist_Req_set_has_my_id (m\<lparr> my_id := x \<rparr>)))
       }
       else Some Ci_unusual
     else Some Ci_unusual)"

definition Regist_Res_MergePartialFromStream :: "'s zc_input \<Rightarrow> 's coded_in \<Rightarrow> Regist_Res \<Rightarrow>
    (bool \<times> 's coded_in \<times> Regist_Res) option" where
  "Regist_Res_MergePartialFromStream zi = ci_parse_loop zi (\<lambda>tag c m.
     if GetTagFieldNumber tag = 1 then
       if tag = 8 then do {
         (v, c') \<leftarrow> ci_ReadVarint32 zi c;
         Some (case v of
             None \<Rightarrow> Ci_failure c' m
           | Some x \<Rightarrow> Ci_field_read c' (Regist_Res_set_has_code (m\<lparr> regist_code := x \<rparr>)))
       }
       else Some Ci_unusual
     else Some Ci_unusual)"

definition Regist_MergePartialFromStream :: "'s zc_input \<Rightarrow> 's coded_in \<Rightarrow> Regist \<Rightarrow>
    (bool \<times> 's coded_in \<times> Regist) option" where
  "Regist_MergePartialFromStream zi = ci_parse_loop zi (\<lambda>tag c m. Some Ci_unusual)"

definition Shutdown_Req_MergePartialFromStream :: "'s zc_input \<Rightarrow> 's coded_in \<Rightarrow> Shutdown_Req \<Rightarrow>
    (bool \<times> 's coded_in \<times> Shutdown_Req) option" where
  "Shutdown_Req_MergePartialFromStream zi = ci_parse_loop zi (\<lambda>tag c m.
     if GetTagFieldNumber tag = 1 then
       if tag = 8 then do {
         (v, c') \<leftarrow> ci_ReadVarint32 zi c;
         Some (case v of
             None \<Rightarrow> Ci_failure c' m
           | Some x \<Rightarrow> Ci_field_read c' (Shutdown_Req_set_has_code (m\<lparr> shutdown_req_code := x \<rparr>)))
       }
       else Some Ci_unusual
     else Some Ci_unusual)"

definition Shutdown_Res_MergePartialFromStream :: "'s zc_input \<Rightarrow> 's coded_in \<Rightarrow> Shutdown_Res \<Rightarrow>
    (bool \<times> 's coded_in \<times> Shutdown_Res) option" where
  "Shutdown_Res_MergePartialFromStream zi = ci_parse_loop zi (\<lambda>tag c m.
     if GetTagFieldNumber tag = 1 then
       if tag = 8 then do {
         (v, c') \<leftarrow> ci_ReadVarint32 zi c;
         Some (case v of
             None \<Rightarrow> Ci_failure c' m
           | Some x \<Rightarrow> Ci_field_read c' (Shutdown_Res_set_has_code (m\<lparr> shutdown_res_code := x \<rparr>)))
       }
       else Some Ci_unusual
     else Some Ci_unusual)"

definition Shutdown_MergePartialFromStream :: "'s zc_input \<Rightarrow> 's coded_in \<Rightarrow> Shutdown \<Rightarrow>
    (bool \<times> 's coded_in \<times> Shutdown) option" where
  "Shutdown_MergePartialFromStream zi = ci_parse_loop zi (\<lambda>tag c m. Some Ci_unusual)"

section \<open>The entry points over a stream\<close>

text \<open>\<open>merge\<close> is the virtual function \<open>MergePartialFromCodedStream\<close> on a reader over \<open>zi\<close>; the
  other virtual functions are those of the class.\<close>

definition ci_MergeFromCodedStream :: "'m message_vtable \<Rightarrow>
    ('s coded_in \<Rightarrow> 'm \<Rightarrow> (bool \<times> 's coded_in \<times> 'm) option) \<Rightarrow>
    's coded_in \<Rightarrow> 'm \<Rightarrow> (bool \<times> 's coded_in \<times> 'm) option" where
  "ci_MergeFromCodedStream vt merge c m = do {
     (ok, c', m') \<leftarrow> merge c m;
     if \<not> ok then Some (False, c', m')
     else if \<not> vt_IsInitialized vt m' then Some (False, c', m')
     else Some (True, c', m')
   }"

definition ci_ParseFromCodedStream :: "'m message_vtable \<Rightarrow>
    ('s coded_in \<Rightarrow> 'm \<Rightarrow> (bool \<times> 's coded_in \<times> 'm) option) \<Rightarrow>
    's coded_in \<Rightarrow> 'm \<Rightarrow> (bool \<times> 's coded_in \<times> 'm) option" where
  "ci_ParseFromCodedStream vt merge c m = ci_MergeFromCodedStream vt merge c (vt_Clear vt m)"

definition ci_ParsePartialFromCodedStream :: "'m message_vtable \<Rightarrow>
    ('s coded_in \<Rightarrow> 'm \<Rightarrow> (bool \<times> 's coded_in \<times> 'm) option) \<Rightarrow>
    's coded_in \<Rightarrow> 'm \<Rightarrow> (bool \<times> 's coded_in \<times> 'm) option" where
  "ci_ParsePartialFromCodedStream vt merge c m = merge c (vt_Clear vt m)"

text \<open>The decoder is a local object: it is destroyed on return, which leaves the stream at the
  reader's position.\<close>

definition ParseFromZeroCopyStream :: "'s zc_input \<Rightarrow> 'm message_vtable \<Rightarrow>
    ('s coded_in \<Rightarrow> 'm \<Rightarrow> (bool \<times> 's coded_in \<times> 'm) option) \<Rightarrow> 's \<Rightarrow> 'm \<Rightarrow>
    (bool \<times> 'm \<times> 's) option" where
  "ParseFromZeroCopyStream zi vt merge input m = do {
     decoder \<leftarrow> ci_create zi input;
     (ok, decoder', m') \<leftarrow> ci_ParseFromCodedStream vt merge decoder m;
     (input', logs) \<leftarrow> ci_destroy zi decoder';
     Some (ok \<and> ci_ConsumedEntireMessage decoder', m', input')
   }"

definition ParsePartialFromZeroCopyStream :: "'s zc_input \<Rightarrow> 'm message_vtable \<Rightarrow>
    ('s coded_in \<Rightarrow> 'm \<Rightarrow> (bool \<times> 's coded_in \<times> 'm) option) \<Rightarrow> 's \<Rightarrow> 'm \<Rightarrow>
    (bool \<times> 'm \<times> 's) option" where
  "ParsePartialFromZeroCopyStream zi vt merge input m = do {
     decoder \<leftarrow> ci_create zi input;
     (ok, decoder', m') \<leftarrow> ci_ParsePartialFromCodedStream vt merge decoder m;
     (input', logs) \<leftarrow> ci_destroy zi decoder';
     Some (ok \<and> ci_ConsumedEntireMessage decoder', m', input')
   }"

definition ParseFromBoundedZeroCopyStream :: "'s zc_input \<Rightarrow> 'm message_vtable \<Rightarrow>
    ('s coded_in \<Rightarrow> 'm \<Rightarrow> (bool \<times> 's coded_in \<times> 'm) option) \<Rightarrow> 's \<Rightarrow> int \<Rightarrow> 'm \<Rightarrow>
    (bool \<times> 'm \<times> 's) option" where
  "ParseFromBoundedZeroCopyStream zi vt merge input count m = do {
     decoder \<leftarrow> ci_create zi input;
     (ok, decoder', m') \<leftarrow> ci_ParseFromCodedStream vt merge (snd (ci_PushLimit count decoder)) m;
     (input', logs) \<leftarrow> ci_destroy zi decoder';
     Some (ok \<and> ci_ConsumedEntireMessage decoder' \<and> ci_BytesUntilLimit decoder' = 0, m', input')
   }"

definition ParsePartialFromBoundedZeroCopyStream :: "'s zc_input \<Rightarrow> 'm message_vtable \<Rightarrow>
    ('s coded_in \<Rightarrow> 'm \<Rightarrow> (bool \<times> 's coded_in \<times> 'm) option) \<Rightarrow> 's \<Rightarrow> int \<Rightarrow> 'm \<Rightarrow>
    (bool \<times> 'm \<times> 's) option" where
  "ParsePartialFromBoundedZeroCopyStream zi vt merge input count m = do {
     decoder \<leftarrow> ci_create zi input;
     (ok, decoder', m') \<leftarrow> ci_ParsePartialFromCodedStream vt merge (snd (ci_PushLimit count decoder)) m;
     (input', logs) \<leftarrow> ci_destroy zi decoder';
     Some (ok \<and> ci_ConsumedEntireMessage decoder' \<and> ci_BytesUntilLimit decoder' = 0, m', input')
   }"

section \<open>The other entry points over an array\<close>

definition ParsePartialFromCodedStream :: "'m message_vtable \<Rightarrow> cis \<Rightarrow> 'm \<Rightarrow> (bool \<times> cis \<times> 'm) res" where
  "ParsePartialFromCodedStream vt input m =
     (case vt_MergePartialFromCodedStream vt input (vt_Clear vt m) of
        None \<Rightarrow> Inl Spin | Some r \<Rightarrow> Inr r)"

definition ParsePartialFromArray :: "'m message_vtable \<Rightarrow> byte list \<Rightarrow> 'm \<Rightarrow> (bool \<times> 'm) res" where
  "ParsePartialFromArray vt data m =
     bind_res (ParsePartialFromCodedStream vt (CodedInputStream data) m)
       (\<lambda>(ok, input, m'). Inr (ok \<and> ConsumedEntireMessage input, m'))"

definition ParseFromString :: "'m message_vtable \<Rightarrow> byte list \<Rightarrow> 'm \<Rightarrow> (bool \<times> 'm) res" where
  "ParseFromString vt data m = ParseFromArray vt data m"

definition ParsePartialFromString :: "'m message_vtable \<Rightarrow> byte list \<Rightarrow> 'm \<Rightarrow> (bool \<times> 'm) res" where
  "ParsePartialFromString vt data m = ParsePartialFromArray vt data m"

section \<open>The loops agree\<close>

lemma ExpectAtEnd_visible:
  assumes ok: "ci_ok vw c" and e: "ci_ExpectAtEnd c = (True, c')"
  shows "visible vw c = []"
proof -
  have "ci_size c = 0" "ci_after c \<noteq> 0 \<or> ci_read c = ci_limit c"
    using e by (auto simp: ci_ExpectAtEnd_def ci_BufferSize_def split: if_splits)
  then have "ci_closest c \<le> ci_read c" using ci_okD(9) [OF ok] by (auto simp: ci_closest_def)
  then show ?thesis
    using visible_split [OF ok] buffer_Nil_iff [OF ok] \<open>ci_size c = 0\<close> by simp
qed

text \<open>A \<open>switch\<close> over the stream does what the one over the array does.\<close>

definition switch_agrees :: "'s zc_view \<Rightarrow> (u32 \<Rightarrow> cis \<Rightarrow> 'm \<Rightarrow> 'm switch_exit) \<Rightarrow>
    (u32 \<Rightarrow> 's coded_in \<Rightarrow> 'm \<Rightarrow> ('s, 'm) ci_exit option) \<Rightarrow> bool" where
  "switch_agrees vw flat switch \<longleftrightarrow> (\<forall>tag c f m. agrees vw c f \<longrightarrow>
     (case flat tag f m of
        Handle_unusual \<Rightarrow> switch tag c m = Some Ci_unusual
      | Failure f' m' \<Rightarrow> (\<exists>c'. switch tag c m = Some (Ci_failure c' m') \<and> on_way vw c c' \<and>
          flags_agree c' f')
      | Field_read f' m' \<Rightarrow> (\<exists>c'. switch tag c m = Some (Ci_field_read c' m') \<and> on_way vw c c' \<and>
          agrees vw c' f')))"

text \<open>\<open>merge\<close> does over the stream what the virtual function does over an array.\<close>

definition merge_agrees :: "'s zc_view \<Rightarrow> 'm message_vtable \<Rightarrow> ('s coded_in \<Rightarrow> 'm \<Rightarrow> (bool \<times> 's coded_in \<times> 'm) option) \<Rightarrow> bool" where
  "merge_agrees vw vt merge \<longleftrightarrow> (\<forall>c f m ok f' m'. agrees vw c f \<longrightarrow>
     vt_MergePartialFromCodedStream vt f m = Some (ok, f', m') \<longrightarrow>
     (\<exists>c'. merge c m = Some (ok, c', m') \<and> on_way vw c c' \<and> flags_agree c' f'))"

lemma switch_agreesD:
  assumes "switch_agrees vw flat switch" and "agrees vw c f"
  shows "flat tag f m = Handle_unusual \<Longrightarrow> switch tag c m = Some Ci_unusual"
    and "flat tag f m = Failure f' m' \<Longrightarrow> \<exists>c'. switch tag c m = Some (Ci_failure c' m') \<and>
      on_way vw c c' \<and> flags_agree c' f'"
    and "flat tag f m = Field_read f' m' \<Longrightarrow> \<exists>c'. switch tag c m = Some (Ci_field_read c' m') \<and>
      on_way vw c c' \<and> agrees vw c' f'"
proof -
  have key: "case flat tag f m of
        Handle_unusual \<Rightarrow> switch tag c m = Some Ci_unusual
      | Failure f' m' \<Rightarrow> (\<exists>c'. switch tag c m = Some (Ci_failure c' m') \<and> on_way vw c c' \<and>
          flags_agree c' f')
      | Field_read f' m' \<Rightarrow> (\<exists>c'. switch tag c m = Some (Ci_field_read c' m') \<and> on_way vw c c' \<and>
          agrees vw c' f')"
    using assms unfolding switch_agrees_def by blast
  show "flat tag f m = Handle_unusual \<Longrightarrow> switch tag c m = Some Ci_unusual"
    and "flat tag f m = Failure f' m' \<Longrightarrow> \<exists>c'. switch tag c m = Some (Ci_failure c' m') \<and>
      on_way vw c c' \<and> flags_agree c' f'"
    and "flat tag f m = Field_read f' m' \<Longrightarrow> \<exists>c'. switch tag c m = Some (Ci_field_read c' m') \<and>
      on_way vw c c' \<and> agrees vw c' f'"
    using key by simp_all
qed

context zero_copy_input begin

text \<open>At the end of the visible bytes the loop stops with the message as it is.\<close>

lemma loop_at_end:
  assumes a: "agrees vw c f" and e: "cis_buf f = []"
  shows "\<exists>c'. ci_parse_loop zi switch c m = Some (True, c', m) \<and> on_way vw c c' \<and>
    ci_last_tag c' = 0 \<and> ci_legit c'"
proof -
  have k: "cis_size f \<le> kDefaultTotalBytesLimit" using a by (simp add: agrees_def)
  from Cutoff_agrees [OF a ReadTagWithCutoff_end [OF e k]] obtain c' where
    "ci_ReadTagWithCutoff zi 127 c = Some ((0, False), c')" "on_way vw c c'"
    "flags_agree c' (f\<lparr> last_tag := 0, legitimate_message_end := True \<rparr>)" by blast
  then show ?thesis by (subst ci_parse_loop.simps) (simp add: flags_agree_def)
qed

lemma loop_agrees:
  assumes sw: "switch_agrees vw flat switch"
  shows "parse_loop flat n f m = Some (ok, f', m') \<Longrightarrow> agrees vw c f \<Longrightarrow>
    \<exists>c'. ci_parse_loop zi switch c m = Some (ok, c', m') \<and> on_way vw c c' \<and> flags_agree c' f'"
proof (induction n arbitrary: f m c)
  case (Suc n)
  obtain tag below f1 where t: "ReadTagWithCutoff f 127 = ((tag, below), f1)" by (metis prod.collapse)
  from Cutoff_agrees [OF Suc.prems(2) t] obtain c1 where
    c1: "ci_ReadTagWithCutoff zi 127 c = Some ((tag, below), c1)" "flags_agree c1 f1"
      "on_way vw c c1" "tag \<noteq> 0 \<longrightarrow> agrees vw c1 f1" "tag = 0 \<longrightarrow> \<not> below" by blast
  have unf: "ci_parse_loop zi switch c m = do {
     e \<leftarrow> (if below then switch tag c1 m else Some Ci_unusual);
     case e of
       Ci_failure c2 m2 \<Rightarrow> Some (False, c2, m2)
     | Ci_field_read c2 m2 \<Rightarrow>
         (case ci_ExpectAtEnd c2 of (fin, c3) \<Rightarrow>
            if fin then Some (True, c3, m2) else ci_parse_loop zi switch c3 m2)
     | Ci_unusual \<Rightarrow>
         if tag = 0 \<or> GetTagWireType tag = Some WIRETYPE_END_GROUP then Some (True, c1, m)
         else do {
           (ok, c2, ufs) \<leftarrow> ci_SkipField zi c1 tag (unknown_fields m);
           if ok then ci_parse_loop zi switch c2 (m\<lparr> unknown_fields := ufs \<rparr>)
           else Some (False, c2, m\<lparr> unknown_fields := ufs \<rparr>)
         } }"
    by (subst ci_parse_loop.simps) (simp add: c1(1))
  let ?x = "if below then flat tag f1 m else Handle_unusual"
  show ?case
  proof (cases ?x)
    case Handle_unusual
    then have e: "(if below then switch tag c1 m else Some Ci_unusual) = Some Ci_unusual"
      using switch_agreesD(1) [OF sw] c1(4,5) by (auto split: if_splits)
    show ?thesis
    proof (cases "tag = 0 \<or> GetTagWireType tag = Some WIRETYPE_END_GROUP")
      case True
      then have "ok" "f' = f1" "m' = m" using Suc.prems(1) t Handle_unusual by auto
      then show ?thesis using True unf e c1 by auto
    next
      case False
      with Suc.prems(1) t Handle_unusual obtain ok2 f2 ufs where
        s: "SkipField f1 tag (unknown_fields m) = Some (ok2, f2, ufs)"
        by (auto split: option.splits)
      from skip_agrees(1) [OF s [unfolded SkipField_def]] c1(4) False obtain c2 where
        c2: "ci_SkipField zi c1 tag (unknown_fields m) = Some (ok2, c2, ufs)" "on_way vw c1 c2"
          "flags_agree c2 f2" "ok2 \<longrightarrow> agrees vw c2 f2" unfolding ci_SkipField_def by blast
      note way = on_way_trans [OF c1(3) c2(2)]
      show ?thesis
      proof (cases ok2)
        case False
        with Suc.prems(1) t Handle_unusual s \<open>\<not> (tag = 0 \<or> _)\<close>
        have "\<not> ok" "f' = f2" "m' = m\<lparr> unknown_fields := ufs \<rparr>" by auto
        then show ?thesis using False unf e c2 way \<open>\<not> (tag = 0 \<or> _)\<close> by auto
      next
        case True
        with Suc.prems(1) t Handle_unusual s \<open>\<not> (tag = 0 \<or> _)\<close>
        have "parse_loop flat n f2 (m\<lparr> unknown_fields := ufs \<rparr>) = Some (ok, f', m')" by auto
        from Suc.IH [OF this] c2(4) True obtain c' where
          "ci_parse_loop zi switch c2 (m\<lparr> unknown_fields := ufs \<rparr>) = Some (ok, c', m')"
          "on_way vw c2 c'" "flags_agree c' f'" by blast
        then show ?thesis using True unf e c2 on_way_trans [OF way] \<open>\<not> (tag = 0 \<or> _)\<close> by auto
      qed
    qed
  next
    case (Failure f2 m2)
    then have b: "below" "flat tag f1 m = Failure f2 m2" by (auto split: if_splits)
    with switch_agreesD(2) [OF sw] c1(4,5) obtain c2 where
      c2: "switch tag c1 m = Some (Ci_failure c2 m2)" "on_way vw c1 c2" "flags_agree c2 f2" by blast
    have "\<not> ok" "f' = f2" "m' = m2" using Suc.prems(1) t Failure by auto
    then show ?thesis using unf b c2 on_way_trans [OF c1(3)] by auto
  next
    case (Field_read f2 m2)
    then have b: "below" "flat tag f1 m = Field_read f2 m2" by (auto split: if_splits)
    with switch_agreesD(3) [OF sw] c1(4,5) obtain c2 where
      c2: "switch tag c1 m = Some (Ci_field_read c2 m2)" "on_way vw c1 c2" "agrees vw c2 f2" by blast
    note way = on_way_trans [OF c1(3) c2(2)] and v = agrees_ok(3) [OF c2(3)]
    obtain fin c3 where x: "ci_ExpectAtEnd c2 = (fin, c3)" by fastforce
    have unf2: "ci_parse_loop zi switch c m =
        (if fin then Some (True, c3, m2) else ci_parse_loop zi switch c3 m2)"
      using unf b c2(1) x by simp
    show ?thesis
    proof (cases "cis_buf f2 = []")
      case True
      then have flat: "ok" "m' = m2" "f' = f2\<lparr> last_tag := 0, legitimate_message_end := True \<rparr>"
        using Suc.prems(1) t Field_read by (auto simp: ExpectAtEnd_def)
      show ?thesis
      proof (cases fin)
        case fin: True
        then have "c3 = c2\<lparr> ci_last_tag := 0, ci_legit := True \<rparr>"
          using x by (auto simp: ci_ExpectAtEnd_def split: if_splits)
        then show ?thesis using unf2 flat fin on_way_legit [of vw c "c2\<lparr> ci_last_tag := 0 \<rparr>"] way v True
          by (simp add: flags_agree_def)
      next
        case False
        then have "c3 = c2" using x by (auto simp: ci_ExpectAtEnd_def split: if_splits)
        with loop_at_end [OF c2(3) True, of switch m2] False unf2 flat show ?thesis
          using on_way_trans [OF way] by (auto simp: flags_agree_def)
      qed
    next
      case False
      then have "\<not> fin" using ExpectAtEnd_visible [OF agrees_ok(1) [OF c2(3)]] x v by auto
      moreover from this have "c3 = c2" using x by (auto simp: ci_ExpectAtEnd_def split: if_splits)
      moreover have "parse_loop flat n f2 m2 = Some (ok, f', m')"
        using Suc.prems(1) t Field_read False by (simp add: ExpectAtEnd_def)
      ultimately show ?thesis using Suc.IH [OF _ c2(3)] unf2 on_way_trans [OF way] by auto
    qed
  qed
qed simp

lemma loop_merge_agrees:
  assumes sw: "switch_agrees vw flat switch" and a: "agrees vw c f"
    and r: "run_parse_loop flat f m = Some (ok, f', m')"
  shows "\<exists>c'. ci_parse_loop zi switch c m = Some (ok, c', m') \<and> on_way vw c c' \<and> flags_agree c' f'"
  using loop_agrees [OF sw r [unfolded run_parse_loop_def] a] .

lemma int32_switch_agrees:
  "switch_agrees vw (int32_switch put) (\<lambda>tag c m.
     if GetTagFieldNumber tag = 1 then
       if tag = 8 then do {
         (v, c') \<leftarrow> ci_ReadVarint32 zi c;
         Some (case v of None \<Rightarrow> Ci_failure c' m | Some x \<Rightarrow> Ci_field_read c' (put x m))
       }
       else Some Ci_unusual
     else Some Ci_unusual)"
  unfolding switch_agrees_def
proof (intro allI impI)
  fix tag c f m assume a: "agrees vw c f"
  obtain v f1 where v: "cis_ReadVarint32 f = (v, f1)" by fastforce
  from reads_agree(2) [OF a v] obtain c1 where
    "ci_ReadVarint32 zi c = Some (v, c1)" "went vw c c1" "flags_agree c1 f1"
    "v \<noteq> None \<longrightarrow> agrees vw c1 f1" by blast
  then show "case int32_switch put tag f m of
        Handle_unusual \<Rightarrow> (if GetTagFieldNumber tag = 1 then
       if tag = 8 then do {
         (v, c') \<leftarrow> ci_ReadVarint32 zi c;
         Some (case v of None \<Rightarrow> Ci_failure c' m | Some x \<Rightarrow> Ci_field_read c' (put x m))
       }
       else Some Ci_unusual
     else Some Ci_unusual) = Some Ci_unusual
      | Failure f' m' \<Rightarrow> (\<exists>c'. (if GetTagFieldNumber tag = 1 then
       if tag = 8 then do {
         (v, c') \<leftarrow> ci_ReadVarint32 zi c;
         Some (case v of None \<Rightarrow> Ci_failure c' m | Some x \<Rightarrow> Ci_field_read c' (put x m))
       }
       else Some Ci_unusual
     else Some Ci_unusual) = Some (Ci_failure c' m') \<and> on_way vw c c' \<and> flags_agree c' f')
      | Field_read f' m' \<Rightarrow> (\<exists>c'. (if GetTagFieldNumber tag = 1 then
       if tag = 8 then do {
         (v, c') \<leftarrow> ci_ReadVarint32 zi c;
         Some (case v of None \<Rightarrow> Ci_failure c' m | Some x \<Rightarrow> Ci_field_read c' (put x m))
       }
       else Some Ci_unusual
     else Some Ci_unusual) = Some (Ci_field_read c' m') \<and> on_way vw c c' \<and> agrees vw c' f')"
    using v went_on_way by (cases v) (auto simp: int32_switch_def)
qed

lemma no_switch_agrees: "switch_agrees vw no_switch (\<lambda>tag c m. Some Ci_unusual)"
  by (simp add: switch_agrees_def no_switch_def)

lemma create_agrees:
  assumes wf: "zv_wf vw s" and len: "length (zv_left vw s) < 67108864"
  shows "\<exists>c. ci_create zi s = Some c \<and> agrees vw c (CodedInputStream (zv_left vw s)) \<and>
    ahead vw c = zv_left vw s \<and> \<not> ci_legit c"
proof -
  from create_ok [OF wf] obtain c where c: "ci_create zi s = Some c" "ci_ok vw c"
    "ci_CurrentPosition c = 0" "ahead vw c = zv_left vw s" "ci_limit c = INT_MAX"
    "ci_total_limit c = 67108864" "ci_last_tag c = 0" "\<not> ci_legit c" "ci_depth c = 0"
    "ci_depth_limit c = 100" by blast
  have "visible vw c = zv_left vw s"
    using len c by (simp add: visible_def ci_closest_def)
  then show ?thesis using c len
    by (simp add: agrees_def below_total_def CodedInputStream_def)
qed

lemma push_agrees:
  assumes wf: "zv_wf vw s" and n: "0 \<le> n" "n < INT_MAX"
    and len: "length (take (nat n) (zv_left vw s)) < 67108864"
  shows "\<exists>c. ci_create zi s = Some c \<and>
    agrees vw (snd (ci_PushLimit n c)) (CodedInputStream (take (nat n) (zv_left vw s))) \<and>
    ahead vw (snd (ci_PushLimit n c)) = zv_left vw s \<and> \<not> ci_legit (snd (ci_PushLimit n c)) \<and>
    ci_limit (snd (ci_PushLimit n c)) = n \<and> ci_CurrentPosition (snd (ci_PushLimit n c)) = 0"
proof -
  from create_ok [OF wf] obtain c where c: "ci_create zi s = Some c" "ci_ok vw c"
    "ci_CurrentPosition c = 0" "ahead vw c = zv_left vw s" "ci_limit c = INT_MAX"
    "ci_total_limit c = 67108864" "ci_last_tag c = 0" "\<not> ci_legit c" "ci_depth c = 0"
    "ci_depth_limit c = 100" by blast
  note p = PushLimit_ok [OF c(2), of n]
  have "visible vw c = take 67108864 (zv_left vw s)"
    using c by (simp add: visible_def ci_closest_def)
  then have v: "visible vw (snd (ci_PushLimit n c)) = take (nat n) (zv_left vw s)"
    using p(10) [OF n(1)] len by (cases "nat n \<le> 67108864") (simp_all add: min_def split: if_splits)
  then show ?thesis using c p n len
    by (simp add: agrees_def below_total_def CodedInputStream_def)
qed

text \<open>When the reader goes out of scope.\<close>

lemma destroy_way:
  assumes w: "on_way vw c c'"
  shows "\<exists>s' logs. ci_destroy zi c' = Some (s', logs) \<and> zv_wf vw s' \<and>
    (\<exists>k \<le> length (visible vw c). zv_left vw s' = drop k (ahead vw c)) \<and>
    (ci_legit c' \<longrightarrow> \<not> ci_legit c \<longrightarrow> zv_left vw s' = drop (length (visible vw c)) (ahead vw c) \<and>
       ci_CurrentPosition c' = ci_CurrentPosition c + int (length (visible vw c)))"
proof -
  from on_way_visible [OF w] obtain k where k: "k \<le> length (visible vw c)"
    "visible vw c' = drop k (visible vw c)" "ahead vw c' = drop k (ahead vw c)"
    "ci_CurrentPosition c' = ci_CurrentPosition c + int k" by metis
  have ok: "ci_ok vw c'" and l: "ci_legit c' \<longrightarrow> ci_legit c \<or> visible vw c' = []"
    using w by (auto simp: on_way_def)
  from destroy_ok [OF ok] obtain s' logs where
    d: "ci_destroy zi c' = Some (s', logs)" "zv_wf vw s'" "zv_left vw s' = ahead vw c'" by blast
  show ?thesis using d k l by (auto simp: le_antisym)
qed

lemma parse_agrees:
  assumes me: "merge_agrees vw vt merge" and a: "agrees vw c (CodedInputStream data)"
    and p: "ParseFromArray vt data m = Inr (ok, m')"
  shows "\<exists>b c'. ci_ParseFromCodedStream vt merge c m = Some (b, c', m') \<and> on_way vw c c' \<and>
    ok = (b \<and> ci_legit c')"
proof -
  from p obtain b f' where f': "ParseFromCodedStream vt (CodedInputStream data) m = Inr (b, f', m')"
    "ok = (b \<and> legitimate_message_end f')"
    by (auto simp: ParseFromArray_def ConsumedEntireMessage_def)
  obtain b1 where q: "vt_MergePartialFromCodedStream vt (CodedInputStream data) (vt_Clear vt m)
      = Some (b1, f', m')" "b = (b1 \<and> vt_IsInitialized vt m')"
  proof (cases "vt_MergePartialFromCodedStream vt (CodedInputStream data) (vt_Clear vt m)")
    case None
    with f'(1) show thesis by (simp add: ParseFromCodedStream_def MergeFromCodedStream_def)
  next
    case (Some r)
    obtain b1 f1 m1 where "r = (b1, f1, m1)" by (cases r)
    with Some f'(1) that show thesis
      by (cases b1) (auto simp: ParseFromCodedStream_def MergeFromCodedStream_def)
  qed
  from me a q(1) obtain c' where "merge c (vt_Clear vt m) = Some (b1, c', m')" "on_way vw c c'"
    "flags_agree c' f'" unfolding merge_agrees_def by blast
  then show ?thesis using q(2) f'(2)
    by (auto simp: ci_ParseFromCodedStream_def ci_MergeFromCodedStream_def flags_agree_def)
qed

theorem ParseFromZeroCopyStream_array:
  assumes wf: "zv_wf vw s" and len: "length (zv_left vw s) < 67108864" and me: "merge_agrees vw vt merge"
    and p: "ParseFromArray vt (zv_left vw s) m = Inr (ok, m')"
  shows "\<exists>s'. ParseFromZeroCopyStream zi vt merge s m = Some (ok, m', s') \<and> zv_wf vw s' \<and>
    (\<exists>k \<le> length (zv_left vw s). zv_left vw s' = drop k (zv_left vw s)) \<and>
    (ok \<longrightarrow> zv_left vw s' = [])"
proof -
  from create_agrees [OF wf len] obtain c where c: "ci_create zi s = Some c"
    "agrees vw c (CodedInputStream (zv_left vw s))" "ahead vw c = zv_left vw s" "\<not> ci_legit c" by blast
  from parse_agrees [OF me c(2) p] obtain b c' where
    b: "ci_ParseFromCodedStream vt merge c m = Some (b, c', m')" "on_way vw c c'"
      "ok = (b \<and> ci_legit c')" by blast
  have "visible vw c = zv_left vw s" using c(2) by (simp add: agrees_def CodedInputStream_def)
  with destroy_way [OF b(2)] c b show ?thesis
    by (auto simp: ParseFromZeroCopyStream_def ci_ConsumedEntireMessage_def)
qed

theorem ParseFromBoundedZeroCopyStream_array:
  assumes wf: "zv_wf vw s" and n: "0 \<le> n" "n < INT_MAX"
    and len: "length (take (nat n) (zv_left vw s)) < 67108864" and me: "merge_agrees vw vt merge"
    and p: "ParseFromArray vt (take (nat n) (zv_left vw s)) m = Inr (ok, m')"
  shows "\<exists>s'. ParseFromBoundedZeroCopyStream zi vt merge s n m =
      Some (ok \<and> nat n \<le> length (zv_left vw s), m', s') \<and> zv_wf vw s' \<and>
    (\<exists>k \<le> nat n. zv_left vw s' = drop k (zv_left vw s)) \<and>
    (ok \<longrightarrow> zv_left vw s' = drop (nat n) (zv_left vw s))"
proof -
  from push_agrees [OF wf n len] obtain c0 c where c0: "ci_create zi s = Some c0"
    and c: "c = snd (ci_PushLimit n c0)" "agrees vw c (CodedInputStream (take (nat n) (zv_left vw s)))"
      "ahead vw c = zv_left vw s" "\<not> ci_legit c" "ci_limit c = n" "ci_CurrentPosition c = 0" by blast
  from parse_agrees [OF me c(2) p] obtain b c' where
    b: "ci_ParseFromCodedStream vt merge c m = Some (b, c', m')" "on_way vw c c'"
      "ok = (b \<and> ci_legit c')" by blast
  have v: "visible vw c = take (nat n) (zv_left vw s)"
    using c(2) by (simp add: agrees_def CodedInputStream_def)
  have lim: "ci_limit c' = n" using b(2) c(5) by (simp add: on_way_def)
  from destroy_way [OF b(2)] obtain s' logs where
    d: "ci_destroy zi c' = Some (s', logs)" "zv_wf vw s'"
      "\<exists>k \<le> length (visible vw c). zv_left vw s' = drop k (ahead vw c)"
      "ci_legit c' \<longrightarrow> \<not> ci_legit c \<longrightarrow> zv_left vw s' = drop (length (visible vw c)) (ahead vw c) \<and>
       ci_CurrentPosition c' = ci_CurrentPosition c + int (length (visible vw c))" by blast
  have e: "drop (min (length (zv_left vw s)) (nat n)) (zv_left vw s) = drop (nat n) (zv_left vw s)"
    by (simp add: min_def)
  have "(b \<and> ci_legit c' \<and> ci_BytesUntilLimit c' = 0) = (ok \<and> nat n \<le> length (zv_left vw s))"
  proof (cases "b \<and> ci_legit c'")
    case True
    then have "ci_CurrentPosition c' = int (min (length (zv_left vw s)) (nat n))"
      using d(4) c(4,6) v by simp
    then have "ci_BytesUntilLimit c' = n - int (min (length (zv_left vw s)) (nat n))"
      using lim n by (simp add: ci_BytesUntilLimit_def)
    then show ?thesis using True b(3) n by auto
  qed (use b(3) in auto)
  then have "ParseFromBoundedZeroCopyStream zi vt merge s n m =
      Some (ok \<and> nat n \<le> length (zv_left vw s), m', s')"
    using c0 b(1) d(1) c(1) by (simp add: ParseFromBoundedZeroCopyStream_def ci_ConsumedEntireMessage_def)
  moreover have "\<exists>k \<le> nat n. zv_left vw s' = drop k (zv_left vw s)"
    using d(3) c(3) v by auto
  ultimately show ?thesis using d(2,4) c(3,4) b(3) v e by auto
qed

text \<open>The \<open>Partial\<close> entry points are the others for a class whose messages are always
  initialised.\<close>

abbreviation no_required :: "'m message_vtable \<Rightarrow> 'm message_vtable" where
  "no_required vt \<equiv> vt\<lparr> vt_IsInitialized := \<lambda>_. True \<rparr>"

lemma partial_streams:
  "ParsePartialFromZeroCopyStream zj vt merge s m = ParseFromZeroCopyStream zj (no_required vt) merge s m"
  "ParsePartialFromBoundedZeroCopyStream zj vt merge s n m =
     ParseFromBoundedZeroCopyStream zj (no_required vt) merge s n m"
proof -
  have "ci_ParsePartialFromCodedStream vt merge = ci_ParseFromCodedStream (no_required vt) merge"
    by (intro ext) (auto simp: ci_ParsePartialFromCodedStream_def ci_ParseFromCodedStream_def
        ci_MergeFromCodedStream_def bind_eq_Some_conv split: Option.bind_split)
  then show "ParsePartialFromZeroCopyStream zj vt merge s m =
      ParseFromZeroCopyStream zj (no_required vt) merge s m"
    and "ParsePartialFromBoundedZeroCopyStream zj vt merge s n m =
      ParseFromBoundedZeroCopyStream zj (no_required vt) merge s n m"
    by (simp_all add: ParsePartialFromZeroCopyStream_def ParseFromZeroCopyStream_def
        ParsePartialFromBoundedZeroCopyStream_def ParseFromBoundedZeroCopyStream_def)
qed

lemma partial_array: "ParsePartialFromArray vt data m = ParseFromArray (no_required vt) data m"
proof -
  have "ParsePartialFromCodedStream vt input m = ParseFromCodedStream (no_required vt) input m" for input m
    by (auto simp: ParsePartialFromCodedStream_def ParseFromCodedStream_def MergeFromCodedStream_def
        split: option.split bool.split)
  then show ?thesis by (simp add: ParsePartialFromArray_def ParseFromArray_def)
qed

lemma partial_agrees: "merge_agrees vw (no_required vt) merge = merge_agrees vw vt merge"
  by (simp add: merge_agrees_def)

theorem ParsePartialFromZeroCopyStream_array:
  assumes "zv_wf vw s" and "length (zv_left vw s) < 67108864" and "merge_agrees vw vt merge"
    and "ParsePartialFromArray vt (zv_left vw s) m = Inr (ok, m')"
  shows "\<exists>s'. ParsePartialFromZeroCopyStream zi vt merge s m = Some (ok, m', s') \<and> zv_wf vw s' \<and>
    (\<exists>k \<le> length (zv_left vw s). zv_left vw s' = drop k (zv_left vw s)) \<and>
    (ok \<longrightarrow> zv_left vw s' = [])"
  unfolding partial_streams(1)
  by (rule ParseFromZeroCopyStream_array)
    (use assms in \<open>simp_all add: partial_agrees partial_array\<close>)

text \<open>Every class of the protocol.\<close>

lemma merge_agreesI:
  assumes "vt_MergePartialFromCodedStream vt = run_parse_loop flat" and "switch_agrees vw flat switch"
  shows "merge_agrees vw vt (ci_parse_loop zi switch)"
  using loop_merge_agrees [OF assms(2)] by (auto simp: merge_agrees_def assms(1))

lemma class_merges:
  "merge_agrees vw Regist_Req_vtable (Regist_Req_MergePartialFromStream zi)"
  "merge_agrees vw Regist_Res_vtable (Regist_Res_MergePartialFromStream zi)"
  "merge_agrees vw Shutdown_Req_vtable (Shutdown_Req_MergePartialFromStream zi)"
  "merge_agrees vw Shutdown_Res_vtable (Shutdown_Res_MergePartialFromStream zi)"
  unfolding Regist_Req_MergePartialFromStream_def Regist_Res_MergePartialFromStream_def
    Shutdown_Req_MergePartialFromStream_def Shutdown_Res_MergePartialFromStream_def
  by (rule merge_agreesI [OF Regist_Req_merge int32_switch_agrees]
      merge_agreesI [OF Regist_Res_merge int32_switch_agrees]
      merge_agreesI [OF Shutdown_Req_merge int32_switch_agrees]
      merge_agreesI [OF Shutdown_Res_merge int32_switch_agrees])+

lemma empty_class_merges:
  "merge_agrees vw Regist_vtable (Regist_MergePartialFromStream zi)"
  "merge_agrees vw Shutdown_vtable (Shutdown_MergePartialFromStream zi)"
  unfolding Regist_MergePartialFromStream_def Shutdown_MergePartialFromStream_def
  by (rule merge_agreesI [OF regist.merge no_switch_agrees]
      merge_agreesI [OF shutdown.merge no_switch_agrees])+

end

end
