(* ===== verification/GF_ZeroCopy.thy ===== *)
theory GF_ZeroCopy
  imports GF_Stream
begin

text \<open>
  Input streams of \<open>src/include/google/protobuf/io/zero_copy_stream_impl_lite.cc\<close> and
  \<open>zero_copy_stream_impl.cc\<close>: an array handed out in blocks, a stream cut at a limit, and several
  streams one after the other. The first keeps the contract \<open>zero_copy_input\<close>; the others turn
  streams that keep it into one that does.

  \<open>None\<close> is a fatal \<open>GOOGLE_CHECK\<close>.
\<close>

section \<open>ArrayInputStream\<close>

record array_input =
  ai_data :: "byte list"
  ai_block_size :: int
  ai_position :: int
  ai_last :: int      \<comment> \<open>\<open>last_returned_size_\<close>\<close>

definition ArrayInputStream :: "byte list \<Rightarrow> int \<Rightarrow> array_input" where
  "ArrayInputStream data block_size =
     \<lparr> ai_data = data,
       ai_block_size = (if 0 < block_size then block_size else int (length data)),
       ai_position = 0, ai_last = 0 \<rparr>"

definition ai_Next :: "array_input \<Rightarrow> (byte list option \<times> array_input) option" where
  "ai_Next a =
     (if ai_position a < int (length (ai_data a))
      then let n = min (ai_block_size a) (int (length (ai_data a)) - ai_position a)
           in Some (Some (take (nat n) (drop (nat (ai_position a)) (ai_data a))),
                    a\<lparr> ai_last := n, ai_position := ai_position a + n \<rparr>)
      else Some (None, a\<lparr> ai_last := 0 \<rparr>))"

definition ai_BackUp :: "int \<Rightarrow> array_input \<Rightarrow> array_input option" where
  "ai_BackUp count a =
     (if 0 < ai_last a \<and> count \<le> ai_last a \<and> 0 \<le> count
      then Some (a\<lparr> ai_position := ai_position a - count, ai_last := 0 \<rparr>) else None)"

definition ai_Skip :: "int \<Rightarrow> array_input \<Rightarrow> (bool \<times> array_input) option" where
  "ai_Skip count a =
     (if count < 0 then None
      else if int (length (ai_data a)) - ai_position a < count
      then Some (False, a\<lparr> ai_last := 0, ai_position := int (length (ai_data a)) \<rparr>)
      else Some (True, a\<lparr> ai_last := 0, ai_position := ai_position a + count \<rparr>))"

definition array_stream :: "array_input zc_input" where
  "array_stream = \<lparr> zc_Next = ai_Next, zc_BackUp = ai_BackUp, zc_Skip = ai_Skip, zc_ByteCount = ai_position \<rparr>"

definition array_view :: "array_input zc_view" where
  "array_view =
     \<lparr> zv_wf = (\<lambda>a. 0 \<le> ai_last a \<and> ai_last a \<le> ai_position a \<and>
           ai_position a \<le> int (length (ai_data a)) \<and> (ai_data a \<noteq> [] \<longrightarrow> 0 < ai_block_size a)),
       zv_left = (\<lambda>a. drop (nat (ai_position a)) (ai_data a)),
       zv_last = (\<lambda>a. take (nat (ai_last a)) (drop (nat (ai_position a - ai_last a)) (ai_data a))),
       zv_empties = (\<lambda>a. 0) \<rparr>"

section \<open>LimitingInputStream\<close>

record 's limited_input =
  li_input :: 's
  li_limit :: int
  li_prior :: int     \<comment> \<open>\<open>prior_bytes_read_\<close>\<close>

definition LimitingInputStream :: "'s zc_input \<Rightarrow> 's \<Rightarrow> int \<Rightarrow> 's limited_input" where
  "LimitingInputStream zi input limit =
     \<lparr> li_input = input, li_limit = limit, li_prior = zc_ByteCount zi input \<rparr>"

definition li_destroy :: "'s zc_input \<Rightarrow> 's limited_input \<Rightarrow> 's option" where
  "li_destroy zi l =
     (if li_limit l < 0 then zc_BackUp zi (- li_limit l) (li_input l) else Some (li_input l))"

definition li_Next :: "'s zc_input \<Rightarrow> 's limited_input \<Rightarrow> (byte list option \<times> 's limited_input) option" where
  "li_Next zi l =
     (if li_limit l \<le> 0 then Some (None, l)
      else do {
        (data, input') \<leftarrow> zc_Next zi (li_input l);
        Some (case data of
            None \<Rightarrow> (None, l\<lparr> li_input := input' \<rparr>)
          | Some d \<Rightarrow>
              let limit' = li_limit l - int (length d)
              in (Some (if limit' < 0 then take (nat (int (length d) + limit')) d else d),
                  l\<lparr> li_input := input', li_limit := limit' \<rparr>))
      })"

definition li_BackUp :: "'s zc_input \<Rightarrow> int \<Rightarrow> 's limited_input \<Rightarrow> 's limited_input option" where
  "li_BackUp zi count l =
     (if li_limit l < 0
      then do {
        input' \<leftarrow> zc_BackUp zi (count - li_limit l) (li_input l);
        Some (l\<lparr> li_input := input', li_limit := count \<rparr>)
      }
      else do {
        input' \<leftarrow> zc_BackUp zi count (li_input l);
        Some (l\<lparr> li_input := input', li_limit := li_limit l + count \<rparr>)
      })"

definition li_Skip :: "'s zc_input \<Rightarrow> int \<Rightarrow> 's limited_input \<Rightarrow> (bool \<times> 's limited_input) option" where
  "li_Skip zi count l =
     (if li_limit l < count
      then if li_limit l < 0 then Some (False, l)
           else do {
             (ok, input') \<leftarrow> zc_Skip zi (li_limit l) (li_input l);
             Some (False, l\<lparr> li_input := input', li_limit := 0 \<rparr>)
           }
      else do {
        (ok, input') \<leftarrow> zc_Skip zi count (li_input l);
        Some (if ok then (True, l\<lparr> li_input := input', li_limit := li_limit l - count \<rparr>)
              else (False, l\<lparr> li_input := input' \<rparr>))
      })"

definition li_ByteCount :: "'s zc_input \<Rightarrow> 's limited_input \<Rightarrow> int" where
  "li_ByteCount zi l =
     (if li_limit l < 0 then zc_ByteCount zi (li_input l) + li_limit l - li_prior l
      else zc_ByteCount zi (li_input l) - li_prior l)"

definition limited_stream :: "'s zc_input \<Rightarrow> 's limited_input zc_input" where
  "limited_stream zi =
     \<lparr> zc_Next = li_Next zi, zc_BackUp = li_BackUp zi, zc_Skip = li_Skip zi,
       zc_ByteCount = li_ByteCount zi \<rparr>"

text \<open>A negative limit counts the bytes the underlying stream delivered beyond it.\<close>

definition limited_view :: "'s zc_view \<Rightarrow> 's limited_input zc_view" where
  "limited_view vw =
     \<lparr> zv_wf = (\<lambda>l. zv_wf vw (li_input l) \<and> nat (- li_limit l) \<le> length (zv_last vw (li_input l))),
       zv_left = (\<lambda>l. take (nat (li_limit l)) (zv_left vw (li_input l))),
       zv_last = (\<lambda>l. take (length (zv_last vw (li_input l)) - nat (- li_limit l))
         (zv_last vw (li_input l))),
       zv_empties = (\<lambda>l. zv_empties vw (li_input l)) \<rparr>"

section \<open>ConcatenatingInputStream\<close>

record 's concat_input =
  co_streams :: "'s list"
  co_retired :: int   \<comment> \<open>\<open>bytes_retired_\<close>\<close>

definition ConcatenatingInputStream :: "'s list \<Rightarrow> 's concat_input" where
  "ConcatenatingInputStream streams = \<lparr> co_streams = streams, co_retired = 0 \<rparr>"

fun co_Next_loop :: "'s zc_input \<Rightarrow> 's list \<Rightarrow> int \<Rightarrow> (byte list option \<times> 's concat_input) option" where
  "co_Next_loop zi [] retired = Some (None, \<lparr> co_streams = [], co_retired = retired \<rparr>)"
| "co_Next_loop zi (s # ss) retired = do {
     (data, s') \<leftarrow> zc_Next zi s;
     if data \<noteq> None then Some (data, \<lparr> co_streams = s' # ss, co_retired = retired \<rparr>)
     else co_Next_loop zi ss (retired + zc_ByteCount zi s')
   }"

definition co_Next :: "'s zc_input \<Rightarrow> 's concat_input \<Rightarrow> (byte list option \<times> 's concat_input) option" where
  "co_Next zi c = co_Next_loop zi (co_streams c) (co_retired c)"

text \<open>After the last stream the error is only logged.\<close>

definition co_BackUp :: "'s zc_input \<Rightarrow> int \<Rightarrow> 's concat_input \<Rightarrow> 's concat_input option" where
  "co_BackUp zi count c =
     (case co_streams c of
        s # ss \<Rightarrow> do { s' \<leftarrow> zc_BackUp zi count s; Some (c\<lparr> co_streams := s' # ss \<rparr>) }
      | [] \<Rightarrow> Some c)"

fun co_Skip_loop :: "'s zc_input \<Rightarrow> int \<Rightarrow> 's list \<Rightarrow> int \<Rightarrow> (bool \<times> 's concat_input) option" where
  "co_Skip_loop zi count [] retired = Some (False, \<lparr> co_streams = [], co_retired = retired \<rparr>)"
| "co_Skip_loop zi count (s # ss) retired =
     (let target_byte_count = zc_ByteCount zi s + count
      in do {
        (ok, s') \<leftarrow> zc_Skip zi count s;
        if ok then Some (True, \<lparr> co_streams = s' # ss, co_retired = retired \<rparr>)
        else let final_byte_count = zc_ByteCount zi s'
             in co_Skip_loop zi (target_byte_count - final_byte_count) ss (retired + final_byte_count)
      })"

definition co_Skip :: "'s zc_input \<Rightarrow> int \<Rightarrow> 's concat_input \<Rightarrow> (bool \<times> 's concat_input) option" where
  "co_Skip zi count c = co_Skip_loop zi count (co_streams c) (co_retired c)"

definition co_ByteCount :: "'s zc_input \<Rightarrow> 's concat_input \<Rightarrow> int" where
  "co_ByteCount zi c =
     (case co_streams c of [] \<Rightarrow> co_retired c | s # ss \<Rightarrow> co_retired c + zc_ByteCount zi s)"

definition concat_stream :: "'s zc_input \<Rightarrow> 's concat_input zc_input" where
  "concat_stream zi =
     \<lparr> zc_Next = co_Next zi, zc_BackUp = co_BackUp zi, zc_Skip = co_Skip zi,
       zc_ByteCount = co_ByteCount zi \<rparr>"

definition concat_view :: "'s zc_view \<Rightarrow> 's concat_input zc_view" where
  "concat_view vw =
     \<lparr> zv_wf = (\<lambda>c. \<forall>s \<in> set (co_streams c). zv_wf vw s),
       zv_left = (\<lambda>c. concat (map (zv_left vw) (co_streams c))),
       zv_last = (\<lambda>c. case co_streams c of [] \<Rightarrow> [] | s # ss \<Rightarrow> zv_last vw s),
       zv_empties = (\<lambda>c. sum_list (map (zv_empties vw) (co_streams c))) \<rparr>"

section \<open>The array\<close>

lemma tail_split:
  assumes "k \<le> length xs"
  shows "drop (k - n) xs = drop (k - n) (take k xs) @ drop k xs"
proof -
  have "drop (k - n) (take k xs @ drop k xs) = drop (k - n) (take k xs) @ drop k xs"
    using assms by (simp only: drop_append) simp
  then show ?thesis by simp
qed

interpretation array: zero_copy_input array_stream array_view
proof
  fix a assume "zv_wf array_view a"
  then have wf: "0 \<le> ai_last a" "ai_last a \<le> ai_position a"
    "ai_position a \<le> int (length (ai_data a))" "ai_data a \<noteq> [] \<Longrightarrow> 0 < ai_block_size a"
    by (auto simp: array_view_def)
  show "\<exists>r. zc_Next array_stream a = Some r" by (simp add: array_stream_def ai_Next_def Let_def)
  { fix d a' assume n: "zc_Next array_stream a = Some (Some d, a')"
    then have lt: "ai_position a < int (length (ai_data a))"
      by (auto simp: array_stream_def ai_Next_def split: if_splits)
    define k where "k = min (ai_block_size a) (int (length (ai_data a)) - ai_position a)"
    have "ai_data a \<noteq> []" using lt wf(1,2) by auto
    then have k: "0 < k" "ai_position a + k \<le> int (length (ai_data a))"
      using lt wf by (auto simp: k_def)
    have d: "d = take (nat k) (drop (nat (ai_position a)) (ai_data a))"
      "a' = a\<lparr> ai_last := k, ai_position := ai_position a + k \<rparr>"
      using n lt by (auto simp: array_stream_def ai_Next_def Let_def k_def)
    have split: "drop (nat (ai_position a)) (ai_data a)
        = d @ drop (nat (ai_position a + k)) (ai_data a)"
      using k wf by (simp add: d(1) nat_add_distrib add.commute flip: drop_drop)
    have "d \<noteq> []" using k lt wf(1,2) by (simp add: d(1))
    with split k wf d show "zv_wf array_view a' \<and> zv_left array_view a = d @ zv_left array_view a' \<and>
        (\<exists>pre. zv_last array_view a' = pre @ d) \<and>
        (d = [] \<longrightarrow> zv_empties array_view a' < zv_empties array_view a)"
      by (auto simp: array_view_def) }
  { fix a' assume n: "zc_Next array_stream a = Some (None, a')"
    then have "\<not> ai_position a < int (length (ai_data a))" "a' = a\<lparr> ai_last := 0 \<rparr>"
      by (auto simp: array_stream_def ai_Next_def Let_def split: if_splits)
    with wf show "zv_wf array_view a' \<and> zv_left array_view a = [] \<and> zv_left array_view a' = []"
      by (auto simp: array_view_def) }
  { fix n :: int assume n: "0 < n" "nat n \<le> length (zv_last array_view a)"
    then have le: "n \<le> ai_last a" using wf by (auto simp: array_view_def)
    let ?a' = "a\<lparr> ai_position := ai_position a - n, ai_last := 0 \<rparr>"
    have "zc_BackUp array_stream n a = Some ?a'"
      using n le by (simp add: array_stream_def ai_BackUp_def)
    moreover have "zv_left array_view ?a' =
        drop (length (zv_last array_view a) - nat n) (zv_last array_view a) @ zv_left array_view a"
    proof -
      let ?D = "drop (nat (ai_position a - ai_last a)) (ai_data a)"
      have len: "length (zv_last array_view a) = nat (ai_last a)"
        using wf by (simp add: array_view_def)
      have 1: "zv_left array_view a = drop (nat (ai_last a)) ?D"
        using wf by (simp add: array_view_def nat_diff_distrib)
      have 2: "zv_left array_view ?a' = drop (nat (ai_last a) - nat n) ?D"
        using wf le n by (simp add: array_view_def nat_diff_distrib)
      have "nat (ai_last a) \<le> length ?D" using wf by auto
      from tail_split [OF this, of "nat n"]
      show ?thesis unfolding 2 len 1 by (simp add: array_view_def)
    qed
    moreover have "zv_wf array_view ?a'" using wf le n by (auto simp: array_view_def)
    ultimately show "\<exists>a'. zc_BackUp array_stream n a = Some a' \<and> zv_wf array_view a' \<and>
        zv_left array_view a' =
          drop (length (zv_last array_view a) - nat n) (zv_last array_view a) @ zv_left array_view a"
      by blast }
  { fix n :: int assume n: "0 \<le> n"
    show "\<exists>b a'. zc_Skip array_stream n a = Some (b, a') \<and>
        zv_wf array_view a' \<and> zv_left array_view a' = drop (nat n) (zv_left array_view a) \<and>
        (0 < n \<longrightarrow> b = (nat n \<le> length (zv_left array_view a))) \<and>
        (\<not> b \<longrightarrow> zv_left array_view a' = [])"
    proof (cases "int (length (ai_data a)) - ai_position a < n")
      case True
      with n wf show ?thesis
        by (intro exI [of _ False] exI conjI) (auto simp: array_stream_def ai_Skip_def array_view_def)
    next
      case False
      with n wf show ?thesis
        by (intro exI [of _ True] exI conjI)
          (auto simp: array_stream_def ai_Skip_def array_view_def nat_add_distrib add.commute)
    qed }
qed

section \<open>A stream cut at a limit\<close>

lemma take_drop_tail:
  assumes "n \<le> length xs - k"
  shows "take n (drop (length xs - (n + k)) xs) = drop (length xs - k - n) (take (length xs - k) xs)"
proof -
  have "length xs - k - (length xs - k - n) = n" "length xs - (n + k) = length xs - k - n"
    using assms by linarith+
  then show ?thesis by (simp only: drop_take)
qed

context zero_copy_input begin

lemma limited: "zero_copy_input (limited_stream zi) (limited_view vw)"
proof
  fix l :: "'s limited_input" assume "zv_wf (limited_view vw) l"
  then have wf: "zv_wf vw (li_input l)" "nat (- li_limit l) \<le> length (zv_last vw (li_input l))"
    by (auto simp: limited_view_def)
  show "\<exists>r. zc_Next (limited_stream zi) l = Some r"
    using next_returns [OF wf(1)] by (auto simp: limited_stream_def li_Next_def)
  { fix d l' assume n: "zc_Next (limited_stream zi) l = Some (Some d, l')"
    then have pos: "0 < li_limit l" by (auto simp: limited_stream_def li_Next_def split: if_splits)
    obtain x s' where x: "zc_Next zi (li_input l) = Some (x, s')"
      using next_returns [OF wf(1)] by fastforce
    then obtain b where r: "zc_Next zi (li_input l) = Some (Some b, s')"
      using n pos by (cases x) (auto simp: limited_stream_def li_Next_def)
    have d: "d = (if li_limit l - int (length b) < 0 then take (nat (li_limit l)) b else b)"
        "l' = l\<lparr> li_input := s', li_limit := li_limit l - int (length b) \<rparr>"
      using n pos r by (auto simp: limited_stream_def li_Next_def Let_def)
    from next_data [OF wf(1) r] obtain pre where s': "zv_wf vw s'"
      "zv_left vw (li_input l) = b @ zv_left vw s'" "zv_last vw s' = pre @ b"
      "b = [] \<longrightarrow> zv_empties vw s' < zv_empties vw (li_input l)" by blast
    have "d = [] \<longrightarrow> b = []" using d(1) pos by (auto split: if_splits)
    then show "zv_wf (limited_view vw) l' \<and>
        zv_left (limited_view vw) l = d @ zv_left (limited_view vw) l' \<and>
        (\<exists>pre. zv_last (limited_view vw) l' = pre @ d) \<and>
        (d = [] \<longrightarrow> zv_empties (limited_view vw) l' < zv_empties (limited_view vw) l)"
      using s' pos by (auto simp: limited_view_def d nat_diff_distrib min_def) }
  { fix l' assume n: "zc_Next (limited_stream zi) l = Some (None, l')"
    show "zv_wf (limited_view vw) l' \<and> zv_left (limited_view vw) l = [] \<and> zv_left (limited_view vw) l' = []"
    proof (cases "li_limit l \<le> 0")
      case True
      with n have "l' = l" by (simp add: limited_stream_def li_Next_def)
      with True wf show ?thesis by (simp add: limited_view_def)
    next
      case False
      with n obtain s' where "zc_Next zi (li_input l) = Some (None, s')" "l' = l\<lparr> li_input := s' \<rparr>"
        by (auto simp: limited_stream_def li_Next_def Let_def bind_eq_Some_conv split: option.splits)
      with next_end [OF wf(1)] False show ?thesis by (auto simp: limited_view_def)
    qed }
  { fix n :: int assume n: "0 < n" "nat n \<le> length (zv_last (limited_view vw) l)"
    let ?last = "zv_last vw (li_input l)"
    define k where "k = nat (- li_limit l)"
    have le: "nat n \<le> length ?last - k" using n(2) by (simp add: limited_view_def k_def)
    have m: "0 < n + int k" "nat (n + int k) \<le> length ?last"
      using n(1) le wf(2) unfolding k_def by linarith+
    from backup [OF wf(1) m] obtain s' where
      b: "zc_BackUp zi (n + int k) (li_input l) = Some s'" "zv_wf vw s'"
        "zv_left vw s' = drop (length ?last - nat (n + int k)) ?last @ zv_left vw (li_input l)" by blast
    let ?l' = "l\<lparr> li_input := s', li_limit := (if li_limit l < 0 then n else li_limit l + n) \<rparr>"
    have "zc_BackUp (limited_stream zi) n l = Some ?l'"
    proof (cases "li_limit l < 0")
      case True
      then have "n + int k = n - li_limit l" by (simp add: k_def)
      then show ?thesis using b(1) True by (simp add: limited_stream_def li_BackUp_def)
    next
      case False
      then have "k = 0" by (simp add: k_def)
      then show ?thesis using b(1) False by (simp add: limited_stream_def li_BackUp_def)
    qed
    moreover have "zv_wf (limited_view vw) ?l'" using b(2) n by (simp add: limited_view_def)
    moreover have "zv_left (limited_view vw) ?l' =
        drop (length (zv_last (limited_view vw) l) - nat n) (zv_last (limited_view vw) l) @
        zv_left (limited_view vw) l"
    proof -
      have len: "length (zv_last (limited_view vw) l) = length ?last - k"
        by (simp add: limited_view_def k_def)
      have lst: "zv_last (limited_view vw) l = take (length ?last - k) ?last"
        by (simp add: limited_view_def k_def)
      have nk: "nat (n + int k) = nat n + k" using n by simp
      show ?thesis
      proof (cases "li_limit l < 0")
        case True
        have "zv_left (limited_view vw) ?l' =
            take (nat n) (drop (length ?last - (nat n + k)) ?last @ zv_left vw (li_input l))"
          using True by (simp add: limited_view_def b(3) nk)
        also have "\<dots> = take (nat n) (drop (length ?last - (nat n + k)) ?last)"
          using le by simp
        also have "\<dots> = drop (length ?last - k - nat n) (take (length ?last - k) ?last)"
          by (rule take_drop_tail [OF le])
        finally show ?thesis using True by (simp add: len lst) (simp add: limited_view_def)
      next
        case False
        then have k: "k = 0" by (simp add: k_def)
        have "nat (li_limit l + n) = nat (li_limit l) + nat n" using False n by simp
        then show ?thesis using False le n
          by (simp add: limited_view_def b(3) nk k)
      qed
    qed
    ultimately show "\<exists>l'. zc_BackUp (limited_stream zi) n l = Some l' \<and> zv_wf (limited_view vw) l' \<and>
        zv_left (limited_view vw) l' =
          drop (length (zv_last (limited_view vw) l) - nat n) (zv_last (limited_view vw) l) @
          zv_left (limited_view vw) l" by blast }
  { fix n :: int assume n: "0 \<le> n"
    let ?left = "zv_left vw (li_input l)"
    show "\<exists>b l'. zc_Skip (limited_stream zi) n l = Some (b, l') \<and> zv_wf (limited_view vw) l' \<and>
        zv_left (limited_view vw) l' = drop (nat n) (zv_left (limited_view vw) l) \<and>
        (0 < n \<longrightarrow> b = (nat n \<le> length (zv_left (limited_view vw) l))) \<and>
        (\<not> b \<longrightarrow> zv_left (limited_view vw) l' = [])"
    proof (cases "li_limit l < 0")
      case True
      then have "zc_Skip (limited_stream zi) n l = Some (False, l)"
        using n by (simp add: limited_stream_def li_Skip_def)
      then show ?thesis using n wf True by (auto simp: limited_view_def)
    next
      case pos: False
      show ?thesis
      proof (cases "li_limit l < n")
        case True
        from skip [OF wf(1), of "li_limit l"] pos obtain b s' where
          "zc_Skip zi (li_limit l) (li_input l) = Some (b, s')" "zv_wf vw s'" by auto
        moreover from this(1) have "zc_Skip (limited_stream zi) n l =
            Some (False, l\<lparr> li_input := s', li_limit := 0 \<rparr>)"
          using True pos by (simp add: limited_stream_def li_Skip_def)
        moreover have "nat (li_limit l) < nat n" using True pos by simp
        ultimately show ?thesis by (auto simp: limited_view_def)
      next
        case False
        from skip [OF wf(1) n] obtain b s' where
          s: "zc_Skip zi n (li_input l) = Some (b, s')" "zv_wf vw s'"
          "zv_left vw s' = drop (nat n) ?left" "0 < n \<longrightarrow> b = (nat n \<le> length ?left)"
          "\<not> b \<longrightarrow> zv_left vw s' = []" by blast
        let ?l' = "l\<lparr> li_input := s', li_limit := (if b then li_limit l - n else li_limit l) \<rparr>"
        have r: "zc_Skip (limited_stream zi) n l = Some (b, ?l')"
          using False s(1) by (cases b) (simp_all add: limited_stream_def li_Skip_def)
        have "zv_left (limited_view vw) ?l' = drop (nat n) (zv_left (limited_view vw) l)"
        proof (cases "b \<or> n = 0")
          case True
          then show ?thesis using s(3) n False
            by (auto simp: limited_view_def drop_take nat_diff_distrib)
        next
          case b: False
          with s(3,4) n show ?thesis by (simp add: limited_view_def)
        qed
        moreover have "zv_wf (limited_view vw) ?l'"
          using s(2) False pos n by (auto simp: limited_view_def)
        moreover have "0 < n \<longrightarrow> b = (nat n \<le> length (zv_left (limited_view vw) l))"
          using s(4) False by (auto simp: limited_view_def)
        moreover have "\<not> b \<longrightarrow> zv_left (limited_view vw) ?l' = []"
          using s(5) by (simp add: limited_view_def)
        ultimately show ?thesis using r by blast
      qed
    qed }
qed

text \<open>The destructor returns what was delivered beyond the limit.\<close>

lemma limited_destroy:
  assumes "zv_wf (limited_view vw) l"
  shows "\<exists>s'. li_destroy zi l = Some s' \<and> zv_wf vw s' \<and>
    zv_left vw s' = drop (length (zv_last vw (li_input l)) - nat (- li_limit l)) (zv_last vw (li_input l)) @
      zv_left vw (li_input l)"
proof (cases "li_limit l < 0")
  case True
  then show ?thesis using assms backup [of "li_input l" "- li_limit l"]
    by (simp add: li_destroy_def limited_view_def)
next
  case False
  then show ?thesis using assms by (simp add: li_destroy_def limited_view_def)
qed

end

section \<open>Streams that count\<close>

text \<open>\<open>ByteCount\<close> is the number of bytes delivered.\<close>

locale counted_input = zero_copy_input zi vw
  for zi :: "'s zc_input" and vw :: "'s zc_view" +
  assumes next_count: "zv_wf vw s \<Longrightarrow> zc_Next zi s = Some (r, s') \<Longrightarrow>
      zc_ByteCount zi s' + int (length (zv_left vw s')) = zc_ByteCount zi s + int (length (zv_left vw s))"
    and skip_count: "zv_wf vw s \<Longrightarrow> 0 \<le> n \<Longrightarrow> zc_Skip zi n s = Some (b, s') \<Longrightarrow>
      zc_ByteCount zi s' + int (length (zv_left vw s')) = zc_ByteCount zi s + int (length (zv_left vw s))"
    and backup_count: "zv_wf vw s \<Longrightarrow> 0 < n \<Longrightarrow> nat n \<le> length (zv_last vw s) \<Longrightarrow>
      zc_BackUp zi n s = Some s' \<Longrightarrow>
      zc_ByteCount zi s' + int (length (zv_left vw s')) = zc_ByteCount zi s + int (length (zv_left vw s))"

lemma array_count:
  "0 \<le> ai_position a \<Longrightarrow> ai_position a \<le> int (length (ai_data a)) \<Longrightarrow>
     ai_position a + int (length (zv_left array_view a)) = int (length (ai_data a))"
  by (simp add: array_view_def of_nat_diff)

lemma array_data:
  "ai_Next a = Some (r, a') \<Longrightarrow> ai_data a' = ai_data a"
  "ai_Skip n a = Some (b, a') \<Longrightarrow> ai_data a' = ai_data a"
  "ai_BackUp n a = Some a' \<Longrightarrow> ai_data a' = ai_data a"
  by (auto simp: ai_Next_def ai_Skip_def ai_BackUp_def Let_def split: if_splits)

lemma array_counts:
  assumes "zv_wf array_view a" "zv_wf array_view a'" "ai_data a' = ai_data a"
  shows "zc_ByteCount array_stream a' + int (length (zv_left array_view a')) =
    zc_ByteCount array_stream a + int (length (zv_left array_view a))"
proof -
  have "zc_ByteCount array_stream = ai_position" by (simp add: array_stream_def)
  moreover have "0 \<le> ai_position x \<and> ai_position x \<le> int (length (ai_data x))"
    if "zv_wf array_view x" for x using that by (auto simp: array_view_def)
  ultimately show ?thesis using assms array_count [of a] array_count [of a'] by metis
qed

interpretation array: counted_input array_stream array_view
proof
  fix a :: array_input assume wf: "zv_wf array_view a"
  { fix r a' assume n: "zc_Next array_stream a = Some (r, a')"
    have "zv_wf array_view a'"
      using array.next_data [OF wf] array.next_end [OF wf] n by (cases r) auto
    then show "zc_ByteCount array_stream a' + int (length (zv_left array_view a')) =
        zc_ByteCount array_stream a + int (length (zv_left array_view a))"
      using array_data(1) n by (intro array_counts [OF wf]) (simp_all add: array_stream_def) }
  { fix n b a' assume n: "0 \<le> n" "zc_Skip array_stream n a = Some (b, a')"
    have "zv_wf array_view a'" using array.skip [OF wf n(1)] n(2) by auto
    then show "zc_ByteCount array_stream a' + int (length (zv_left array_view a')) =
        zc_ByteCount array_stream a + int (length (zv_left array_view a))"
      using array_data(2) n(2) by (intro array_counts [OF wf]) (simp_all add: array_stream_def) }
  { fix n a' assume n: "0 < n" "nat n \<le> length (zv_last array_view a)" "zc_BackUp array_stream n a = Some a'"
    have "zv_wf array_view a'" using array.backup [OF wf n(1,2)] n(3) by auto
    then show "zc_ByteCount array_stream a' + int (length (zv_left array_view a')) =
        zc_ByteCount array_stream a + int (length (zv_left array_view a))"
      using array_data(3) n(3) by (intro array_counts [OF wf]) (simp_all add: array_stream_def) }
qed

section \<open>Several streams, one after the other\<close>

context counted_input begin

lemma concat_Next_loop:
  assumes "\<forall>s \<in> set ss. zv_wf vw s"
  shows "\<exists>data c. co_Next_loop zi ss k = Some (data, c) \<and> zv_wf (concat_view vw) c \<and>
    (case data of
       Some d \<Rightarrow> concat (map (zv_left vw) ss) = d @ zv_left (concat_view vw) c \<and>
         (\<exists>pre. zv_last (concat_view vw) c = pre @ d) \<and>
         (d = [] \<longrightarrow> zv_empties (concat_view vw) c < sum_list (map (zv_empties vw) ss))
     | None \<Rightarrow> concat (map (zv_left vw) ss) = [] \<and> zv_left (concat_view vw) c = [])"
  using assms
proof (induction ss arbitrary: k)
  case Nil
  then show ?case by (simp add: concat_view_def)
next
  case (Cons s ss)
  then have wf: "zv_wf vw s" "\<forall>s \<in> set ss. zv_wf vw s" by simp_all
  obtain data s' where n: "zc_Next zi s = Some (data, s')" using next_returns [OF wf(1)] by fastforce
  show ?case
  proof (cases data)
    case None
    note e = next_end [OF wf(1) n [unfolded None]]
    from Cons.IH [OF wf(2), of "k + zc_ByteCount zi s'"] obtain data2 c where
      c: "co_Next_loop zi ss (k + zc_ByteCount zi s') = Some (data2, c)" "zv_wf (concat_view vw) c"
        "case data2 of
       Some d \<Rightarrow> concat (map (zv_left vw) ss) = d @ zv_left (concat_view vw) c \<and>
         (\<exists>pre. zv_last (concat_view vw) c = pre @ d) \<and>
         (d = [] \<longrightarrow> zv_empties (concat_view vw) c < sum_list (map (zv_empties vw) ss))
     | None \<Rightarrow> concat (map (zv_left vw) ss) = [] \<and> zv_left (concat_view vw) c = []" by blast
    have "co_Next_loop zi (s # ss) k = Some (data2, c)" using n None c(1) by simp
    with c(2,3) e show ?thesis by (cases data2) auto
  next
    case (Some d)
    from next_data [OF wf(1) n [unfolded Some]] wf(2) n Some show ?thesis
      by (auto simp: concat_view_def)
  qed
qed

lemma concat_Skip_loop:
  assumes "\<forall>s \<in> set ss. zv_wf vw s" and "0 \<le> n"
  shows "\<exists>b c. co_Skip_loop zi n ss k = Some (b, c) \<and> zv_wf (concat_view vw) c \<and>
    zv_left (concat_view vw) c = drop (nat n) (concat (map (zv_left vw) ss)) \<and>
    (0 < n \<longrightarrow> b = (nat n \<le> length (concat (map (zv_left vw) ss)))) \<and>
    (\<not> b \<longrightarrow> zv_left (concat_view vw) c = [])"
  using assms
proof (induction ss arbitrary: n k)
  case Nil
  then show ?case by (auto simp: concat_view_def)
next
  case (Cons s ss)
  then have wf: "zv_wf vw s" "\<forall>s \<in> set ss. zv_wf vw s" by simp_all
  from skip [OF wf(1) Cons.prems(2)] obtain b s' where
    k: "zc_Skip zi n s = Some (b, s')" "zv_wf vw s'" "zv_left vw s' = drop (nat n) (zv_left vw s)"
      "0 < n \<longrightarrow> b = (nat n \<le> length (zv_left vw s))" "\<not> b \<longrightarrow> zv_left vw s' = []" by blast
  show ?case
  proof (cases b)
    case True
    then have "nat n \<le> length (zv_left vw s)" using k(4) Cons.prems(2) by (cases "0 < n") auto
    then show ?thesis using k True wf(2) by (auto simp: concat_view_def Let_def)
  next
    case False
    let ?m = "zc_ByteCount zi s + n - zc_ByteCount zi s'"
    have m: "?m = n - int (min (nat n) (length (zv_left vw s)))"
      using skip_count [OF wf(1) Cons.prems(2) k(1)] k(3) by simp
    then have m0: "0 \<le> ?m" using Cons.prems(2) by linarith
    from Cons.IH [OF wf(2) m0, of "k + zc_ByteCount zi s'"] obtain b2 c where
      c: "co_Skip_loop zi ?m ss (k + zc_ByteCount zi s') = Some (b2, c)" "zv_wf (concat_view vw) c"
        "zv_left (concat_view vw) c = drop (nat ?m) (concat (map (zv_left vw) ss))"
        "0 < ?m \<longrightarrow> b2 = (nat ?m \<le> length (concat (map (zv_left vw) ss)))"
        "\<not> b2 \<longrightarrow> zv_left (concat_view vw) c = []" by blast
    have r: "co_Skip_loop zi n (s # ss) k = Some (b2, c)" using k(1) False c(1) by (simp add: Let_def)
    show ?thesis
    proof (cases "0 < n")
      case True
      with k(4) False have lt: "length (zv_left vw s) < nat n" by auto
      then have nm: "nat ?m = nat n - length (zv_left vw s)" "0 < ?m" using m by auto
      have "drop (nat n) (concat (map (zv_left vw) (s # ss))) =
          drop (nat n - length (zv_left vw s)) (concat (map (zv_left vw) ss))" using lt by simp
      moreover have "nat n \<le> length (concat (map (zv_left vw) (s # ss))) \<longleftrightarrow>
          nat n - length (zv_left vw s) \<le> length (concat (map (zv_left vw) ss))" using lt by auto
      ultimately show ?thesis using r c nm by metis
    next
      case n: False
      then have n0: "n = 0" using Cons.prems(2) by simp
      then have "zv_left vw s = []" using k(3,5) \<open>\<not> b\<close> by simp
      moreover have "nat ?m = 0" using m n0 by simp
      ultimately have "zv_left (concat_view vw) c = drop (nat n) (concat (map (zv_left vw) (s # ss)))"
        using c(3) n0 by simp
      then show ?thesis using r c(2,5) n by blast
    qed
  qed
qed

lemma concatenated: "zero_copy_input (concat_stream zi) (concat_view vw)"
proof
  fix c assume "zv_wf (concat_view vw) c"
  then have wf: "\<forall>s \<in> set (co_streams c). zv_wf vw s" by (simp add: concat_view_def)
  have left: "zv_left (concat_view vw) c = concat (map (zv_left vw) (co_streams c))"
    "zv_empties (concat_view vw) c = sum_list (map (zv_empties vw) (co_streams c))"
    by (simp_all add: concat_view_def)
  have ops: "zc_Next (concat_stream zi) = co_Next zi" "zc_Skip (concat_stream zi) = co_Skip zi"
    "zc_BackUp (concat_stream zi) = co_BackUp zi" by (simp_all add: concat_stream_def)
  from concat_Next_loop [OF wf, of "co_retired c"] obtain data c1 where
    n: "co_Next zi c = Some (data, c1)" "zv_wf (concat_view vw) c1"
      "case data of
       Some d \<Rightarrow> zv_left (concat_view vw) c = d @ zv_left (concat_view vw) c1 \<and>
         (\<exists>pre. zv_last (concat_view vw) c1 = pre @ d) \<and>
         (d = [] \<longrightarrow> zv_empties (concat_view vw) c1 < zv_empties (concat_view vw) c)
     | None \<Rightarrow> zv_left (concat_view vw) c = [] \<and> zv_left (concat_view vw) c1 = []"
    unfolding co_Next_def left by blast
  show "\<exists>r. zc_Next (concat_stream zi) c = Some r" using n(1) by (simp add: ops)
  show "zv_wf (concat_view vw) c' \<and> zv_left (concat_view vw) c = d @ zv_left (concat_view vw) c' \<and>
      (\<exists>pre. zv_last (concat_view vw) c' = pre @ d) \<and>
      (d = [] \<longrightarrow> zv_empties (concat_view vw) c' < zv_empties (concat_view vw) c)"
    if "zc_Next (concat_stream zi) c = Some (Some d, c')" for d c'
    using n that by (simp add: ops)
  show "zv_wf (concat_view vw) c' \<and> zv_left (concat_view vw) c = [] \<and> zv_left (concat_view vw) c' = []"
    if "zc_Next (concat_stream zi) c = Some (None, c')" for c'
    using n that by (simp add: ops)
  show "\<exists>b c'. zc_Skip (concat_stream zi) k c = Some (b, c') \<and> zv_wf (concat_view vw) c' \<and>
      zv_left (concat_view vw) c' = drop (nat k) (zv_left (concat_view vw) c) \<and>
      (0 < k \<longrightarrow> b = (nat k \<le> length (zv_left (concat_view vw) c))) \<and>
      (\<not> b \<longrightarrow> zv_left (concat_view vw) c' = [])" if "0 \<le> k" for k :: int
    using concat_Skip_loop [OF wf that, of "co_retired c"] unfolding ops co_Skip_def left .
  show "\<exists>c'. zc_BackUp (concat_stream zi) k c = Some c' \<and> zv_wf (concat_view vw) c' \<and>
      zv_left (concat_view vw) c' =
        drop (length (zv_last (concat_view vw) c) - nat k) (zv_last (concat_view vw) c) @
        zv_left (concat_view vw) c"
    if k: "0 < k" "nat k \<le> length (zv_last (concat_view vw) c)" for k :: int
  proof (cases "co_streams c")
    case Nil
    with k show ?thesis by (simp add: concat_view_def)
  next
    case (Cons s ss)
    with wf k have "zv_wf vw s" "nat k \<le> length (zv_last vw s)" by (simp_all add: concat_view_def)
    from backup [OF this(1) k(1) this(2)] obtain s' where "zc_BackUp zi k s = Some s'" "zv_wf vw s'"
      "zv_left vw s' = drop (length (zv_last vw s) - nat k) (zv_last vw s) @ zv_left vw s" by blast
    then show ?thesis using Cons wf by (simp add: ops co_BackUp_def concat_view_def)
  qed
qed

end

end
