(* ===== verification/GF_CopyStream.thy ===== *)
theory GF_CopyStream
  imports GF_ZeroCopy
begin

text \<open>
  Input streams over a source that is read by copying
  (\<open>src/include/google/protobuf/io/zero_copy_stream_impl_lite.cc\<close>, \<open>zero_copy_stream_impl.cc\<close>):
  the buffer of \<open>CopyingInputStreamAdaptor\<close>, and the file descriptor behind \<open>FileInputStream\<close>,
  whose system calls are parameters. With a source that keeps the contract \<open>copying_source\<close> the
  adaptor keeps \<open>zero_copy_input\<close>; a descriptor that cannot seek is such a source.
\<close>

section \<open>CopyingInputStreamAdaptor\<close>

text \<open>A \<open>CopyingInputStream\<close>: \<open>Read\<close> copies at most that many bytes; none at the end, and a
  negative result (here no bytes, \<open>None\<close>) for an error. \<open>Skip\<close> returns how many it skipped.\<close>

record 'r copying_input =
  cp_Read :: "int \<Rightarrow> 'r \<Rightarrow> (byte list option \<times> 'r) option"
  cp_Skip :: "int \<Rightarrow> 'r \<Rightarrow> (int \<times> 'r) option"

text \<open>The default \<open>Skip\<close>, through a junk buffer of 4096 bytes.\<close>

partial_function (option) CopyingInputStream_Skip_loop ::
    "(int \<Rightarrow> 'r \<Rightarrow> (byte list option \<times> 'r) option) \<Rightarrow> int \<Rightarrow> int \<Rightarrow> 'r \<Rightarrow> (int \<times> 'r) option" where
  "CopyingInputStream_Skip_loop rd count skipped r =
     (if skipped < count
      then do {
        (got, r') \<leftarrow> rd (min (count - skipped) 4096) r;
        case got of
          None \<Rightarrow> Some (skipped, r')
        | Some bytes \<Rightarrow>
            if bytes = [] then Some (skipped, r')
            else CopyingInputStream_Skip_loop rd count (skipped + int (length bytes)) r'
      }
      else Some (skipped, r))"

definition CopyingInputStream_Skip ::
    "(int \<Rightarrow> 'r \<Rightarrow> (byte list option \<times> 'r) option) \<Rightarrow> int \<Rightarrow> 'r \<Rightarrow> (int \<times> 'r) option" where
  "CopyingInputStream_Skip rd count r = CopyingInputStream_Skip_loop rd count 0 r"

text \<open>\<open>ad_buffer\<close> are the \<open>buffer_used_\<close> bytes of the buffer, \<open>None\<close> when it is not
  allocated.\<close>

record 'r adaptor =
  ad_source :: 'r
  ad_failed :: bool
  ad_position :: int
  ad_buffer :: "byte list option"
  ad_buffer_size :: int
  ad_backup :: int    \<comment> \<open>\<open>backup_bytes_\<close>\<close>

definition CopyingInputStreamAdaptor :: "'r \<Rightarrow> int \<Rightarrow> 'r adaptor" where
  "CopyingInputStreamAdaptor source block_size =
     \<lparr> ad_source = source, ad_failed = False, ad_position = 0, ad_buffer = None,
       ad_buffer_size = (if 0 < block_size then block_size else 8192), ad_backup = 0 \<rparr>"

definition ad_used :: "'r adaptor \<Rightarrow> byte list" where
  "ad_used a = (case ad_buffer a of None \<Rightarrow> [] | Some b \<Rightarrow> b)"

definition ad_FreeBuffer :: "'r adaptor \<Rightarrow> 'r adaptor option" where
  "ad_FreeBuffer a = (if ad_backup a = 0 then Some (a\<lparr> ad_buffer := None \<rparr>) else None)"

definition ad_Next :: "'r copying_input \<Rightarrow> 'r adaptor \<Rightarrow> (byte list option \<times> 'r adaptor) option" where
  "ad_Next cp a =
     (if ad_failed a then Some (None, a)
      else let a1 = a\<lparr> ad_buffer := Some (ad_used a) \<rparr>
           in if 0 < ad_backup a1
              then Some (Some (drop (length (ad_used a1) - nat (ad_backup a1)) (ad_used a1)),
                         a1\<lparr> ad_backup := 0 \<rparr>)
              else do {
                (got, source') \<leftarrow> cp_Read cp (ad_buffer_size a1) (ad_source a1);
                let a2 = a1\<lparr> ad_source := source' \<rparr>;
                case got of
                  None \<Rightarrow> do {
                    a3 \<leftarrow> ad_FreeBuffer (a2\<lparr> ad_failed := True \<rparr>);
                    Some (None, a3)
                  }
                | Some bytes \<Rightarrow>
                    if bytes = [] then do { a3 \<leftarrow> ad_FreeBuffer a2; Some (None, a3) }
                    else Some (Some bytes, a2\<lparr> ad_buffer := Some bytes,
                           ad_position := ad_position a2 + int (length bytes) \<rparr>)
              })"

definition ad_BackUp :: "int \<Rightarrow> 'r adaptor \<Rightarrow> 'r adaptor option" where
  "ad_BackUp count a =
     (if ad_backup a = 0 \<and> ad_buffer a \<noteq> None \<and> count \<le> int (length (ad_used a)) \<and> 0 \<le> count
      then Some (a\<lparr> ad_backup := count \<rparr>) else None)"

definition ad_Skip :: "'r copying_input \<Rightarrow> int \<Rightarrow> 'r adaptor \<Rightarrow> (bool \<times> 'r adaptor) option" where
  "ad_Skip cp count a =
     (if count < 0 then None
      else if ad_failed a then Some (False, a)
      else if count \<le> ad_backup a then Some (True, a\<lparr> ad_backup := ad_backup a - count \<rparr>)
      else let rest = count - ad_backup a; a1 = a\<lparr> ad_backup := 0 \<rparr>
           in do {
             (skipped, source') \<leftarrow> cp_Skip cp rest (ad_source a1);
             Some (skipped = rest,
                   a1\<lparr> ad_source := source', ad_position := ad_position a1 + skipped \<rparr>)
           })"

definition ad_ByteCount :: "'r adaptor \<Rightarrow> int" where
  "ad_ByteCount a = ad_position a - ad_backup a"

definition adaptor_stream :: "'r copying_input \<Rightarrow> 'r adaptor zc_input" where
  "adaptor_stream cp =
     \<lparr> zc_Next = ad_Next cp, zc_BackUp = ad_BackUp, zc_Skip = ad_Skip cp, zc_ByteCount = ad_ByteCount \<rparr>"

text \<open>The bytes of a source up to its end or to its first error. After an error the adaptor
  delivers nothing.\<close>

definition adaptor_view :: "('r \<Rightarrow> bool) \<Rightarrow> ('r \<Rightarrow> byte list) \<Rightarrow> 'r adaptor zc_view" where
  "adaptor_view good rest =
     \<lparr> zv_wf = (\<lambda>a. good (ad_source a) \<and> 0 < ad_buffer_size a \<and> 0 \<le> ad_backup a \<and>
         ad_backup a \<le> int (length (ad_used a)) \<and>
         (ad_failed a \<longrightarrow> ad_buffer a = None \<and> rest (ad_source a) = [])),
       zv_left = (\<lambda>a. drop (length (ad_used a) - nat (ad_backup a)) (ad_used a) @ rest (ad_source a)),
       zv_last = (\<lambda>a. if ad_backup a = 0 then ad_used a else []),
       zv_empties = (\<lambda>a. 0) \<rparr>"

section \<open>CopyingFileInputStream\<close>

text \<open>The system calls on the descriptor are parameters: \<open>read\<close>, whose errors carry \<open>errno\<close>, and
  whether \<open>lseek\<close> moved the offset.\<close>

datatype read_result = Rd_bytes "byte list" | Rd_error nat

record 'f sys_calls =
  sys_read :: "int \<Rightarrow> 'f \<Rightarrow> read_result \<times> 'f"
  sys_lseek :: "int \<Rightarrow> 'f \<Rightarrow> bool \<times> 'f"

record 'f file_input =
  fi_file :: 'f
  fi_closed :: bool
  fi_errno :: nat
  fi_seek_failed :: bool

abbreviation EINTR :: nat where "EINTR \<equiv> 4"

text \<open>\<open>do ... while (result < 0 && errno == EINTR)\<close>\<close>

partial_function (option) fi_read_loop :: "'f sys_calls \<Rightarrow> int \<Rightarrow> 'f \<Rightarrow> (read_result \<times> 'f) option" where
  "fi_read_loop sys n f =
     (case sys_read sys n f of (r, f') \<Rightarrow>
        if r = Rd_error EINTR then fi_read_loop sys n f' else Some (r, f'))"

definition fi_Read :: "'f sys_calls \<Rightarrow> int \<Rightarrow> 'f file_input \<Rightarrow> (byte list option \<times> 'f file_input) option" where
  "fi_Read sys n i =
     (if fi_closed i then None
      else do {
        (r, f') \<leftarrow> fi_read_loop sys n (fi_file i);
        Some (case r of
            Rd_bytes bs \<Rightarrow> (Some bs, i\<lparr> fi_file := f' \<rparr>)
          | Rd_error e \<Rightarrow> (None, i\<lparr> fi_file := f', fi_errno := e \<rparr>))
      })"

definition fi_Skip :: "'f sys_calls \<Rightarrow> int \<Rightarrow> 'f file_input \<Rightarrow> (int \<times> 'f file_input) option" where
  "fi_Skip sys count i =
     (if fi_closed i then None
      else if \<not> fi_seek_failed i
      then (case sys_lseek sys count (fi_file i) of (sought, f') \<Rightarrow>
              if sought then Some (count, i\<lparr> fi_file := f' \<rparr>)
              else CopyingInputStream_Skip (fi_Read sys) count
                     (i\<lparr> fi_file := f', fi_seek_failed := True \<rparr>))
      else CopyingInputStream_Skip (fi_Read sys) count (i\<lparr> fi_seek_failed := True \<rparr>))"

definition file_source :: "'f sys_calls \<Rightarrow> 'f file_input copying_input" where
  "file_source sys = \<lparr> cp_Read = fi_Read sys, cp_Skip = fi_Skip sys \<rparr>"

definition FileInputStream :: "'f \<Rightarrow> int \<Rightarrow> 'f file_input adaptor" where
  "FileInputStream file block_size =
     CopyingInputStreamAdaptor
       \<lparr> fi_file = file, fi_closed = False, fi_errno = 0, fi_seek_failed = False \<rparr> block_size"

section \<open>A copying source behind a buffer\<close>

locale copying_reader =
  fixes rd :: "int \<Rightarrow> 'r \<Rightarrow> (byte list option \<times> 'r) option"
    and good :: "'r \<Rightarrow> bool" and rest :: "'r \<Rightarrow> byte list"
  assumes read_returns: "good r \<Longrightarrow> 0 < n \<Longrightarrow> \<exists>x. rd n r = Some x"
    and read_data: "good r \<Longrightarrow> 0 < n \<Longrightarrow> rd n r = Some (Some bs, r') \<Longrightarrow>
      good r' \<and> rest r = bs @ rest r' \<and> length bs \<le> nat n \<and> (bs = [] \<longrightarrow> rest r = [])"
    and read_error: "good r \<Longrightarrow> 0 < n \<Longrightarrow> rd n r = Some (None, r') \<Longrightarrow>
      good r' \<and> rest r = [] \<and> rest r' = []"
begin

text \<open>The default \<open>Skip\<close> keeps its promise over any such reader.\<close>

lemma default_Skip_loop:
  assumes "good r" and "k \<le> n"
  shows "\<exists>r'. CopyingInputStream_Skip_loop rd n k r = Some (min n (k + int (length (rest r))), r') \<and>
    good r' \<and> rest r' = drop (nat (n - k)) (rest r)"
  using assms
proof (induction "nat (n - k)" arbitrary: k r rule: less_induct)
  case less
  show ?case
  proof (cases "k < n")
    case False
    with less.prems have "k = n" by simp
    then show ?thesis using less.prems(1)
      by (subst CopyingInputStream_Skip_loop.simps) simp
  next
    case True
    then have m: "0 < min (n - k) 4096" by simp
    obtain got r1 where g: "rd (min (n - k) 4096) r = Some (got, r1)"
      using read_returns [OF less.prems(1) m] by fastforce
    show ?thesis
    proof (cases "got = None \<or> got = Some []")
      case True
      have e: "good r1 \<and> rest r = [] \<and> rest r1 = []"
        using True read_error [OF less.prems(1) m] read_data [OF less.prems(1) m] g by fastforce
      have "CopyingInputStream_Skip_loop rd n k r = Some (k, r1)"
        using g True \<open>k < n\<close> by (subst CopyingInputStream_Skip_loop.simps) auto
      then show ?thesis using e \<open>k < n\<close> by simp
    next
      case False
      then obtain bs where bs: "got = Some bs" "bs \<noteq> []" by auto
      with read_data [OF less.prems(1) m] g have d: "good r1" "rest r = bs @ rest r1"
        "length bs \<le> nat (min (n - k) 4096)" by auto
      have le: "k + int (length bs) \<le> n" using d(3) \<open>k < n\<close> by simp
      have "nat (n - (k + int (length bs))) < nat (n - k)" using bs(2) \<open>k < n\<close> by simp
      from less.hyps [OF this d(1) le] obtain r' where
        l: "CopyingInputStream_Skip_loop rd n (k + int (length bs)) r1 =
          Some (min n (k + int (length bs) + int (length (rest r1))), r')" "good r'"
          "rest r' = drop (nat (n - (k + int (length bs)))) (rest r1)" by blast
      have "CopyingInputStream_Skip_loop rd n k r =
          CopyingInputStream_Skip_loop rd n (k + int (length bs)) r1"
        using g bs \<open>k < n\<close> by (subst CopyingInputStream_Skip_loop.simps) simp
      moreover have "nat (n - k) = length bs + nat (n - (k + int (length bs)))" using le by linarith
      ultimately show ?thesis using l d(2) by (simp add: add.assoc)
    qed
  qed
qed

lemma default_Skip:
  assumes "good r" and "0 < n"
  shows "\<exists>r'. CopyingInputStream_Skip rd n r = Some (min n (int (length (rest r))), r') \<and> good r' \<and>
    rest r' = drop (nat n) (rest r)"
  using default_Skip_loop [OF assms(1), of 0 n] assms(2) by (simp add: CopyingInputStream_Skip_def)

end

locale copying_source = copying_reader "cp_Read cp" good rest
  for cp :: "'r copying_input" and good :: "'r \<Rightarrow> bool" and rest :: "'r \<Rightarrow> byte list" +
  assumes skip_source: "good r \<Longrightarrow> 0 < n \<Longrightarrow>
    \<exists>r'. cp_Skip cp n r = Some (min n (int (length (rest r))), r') \<and> good r' \<and>
      rest r' = drop (nat n) (rest r)"

lemma used_Some [simp]: "ad_used (a\<lparr> ad_buffer := Some b \<rparr>) = b"
  by (simp add: ad_used_def)

lemma used_simps [simp]:
  "ad_used (a\<lparr> ad_backup := k \<rparr>) = ad_used a" "ad_used (a\<lparr> ad_source := s \<rparr>) = ad_used a"
  "ad_used (a\<lparr> ad_position := p \<rparr>) = ad_used a" "ad_used (a\<lparr> ad_failed := f \<rparr>) = ad_used a"
  by (simp_all add: ad_used_def)

lemma used_None [simp]: "ad_buffer a = None \<Longrightarrow> ad_used a = []"
  by (simp add: ad_used_def)

context copying_source begin

text \<open>The outcomes of \<open>Next\<close>.\<close>

lemma adaptor_Next:
  assumes "zv_wf (adaptor_view good rest) a"
  obtains (failed) "ad_Next cp a = Some (None, a)" "ad_failed a"
  | (again) "ad_Next cp a = Some (Some (drop (length (ad_used a) - nat (ad_backup a)) (ad_used a)),
        a\<lparr> ad_buffer := Some (ad_used a), ad_backup := 0 \<rparr>)" "\<not> ad_failed a" "0 < ad_backup a"
  | (fresh) bs r' where "ad_Next cp a = Some (Some bs, a\<lparr> ad_source := r', ad_buffer := Some bs,
        ad_position := ad_position a + int (length bs) \<rparr>)" "\<not> ad_failed a" "ad_backup a = 0"
      "bs \<noteq> []" "good r'" "rest (ad_source a) = bs @ rest r'"
  | (fin) f r' where "ad_Next cp a = Some (None, a\<lparr> ad_source := r', ad_failed := f, ad_buffer := None \<rparr>)"
      "\<not> ad_failed a" "ad_backup a = 0" "good r'" "rest (ad_source a) = []" "rest r' = []"
proof -
  have wf: "good (ad_source a)" "0 < ad_buffer_size a" "0 \<le> ad_backup a"
    using assms by (auto simp: adaptor_view_def)
  consider "ad_failed a" | "\<not> ad_failed a" "0 < ad_backup a" | "\<not> ad_failed a" "ad_backup a = 0"
    using wf(3) by linarith
  then show thesis
  proof cases
    case 1
    then show ?thesis by (intro failed) (simp_all add: ad_Next_def)
  next
    case 2
    then show ?thesis by (intro again) (simp_all add: ad_Next_def Let_def)
  next
    case 3
    obtain got r' where g: "cp_Read cp (ad_buffer_size a) (ad_source a) = Some (got, r')"
      using read_returns [OF wf(1,2)] by fastforce
    show ?thesis
    proof (cases "got = None \<or> got = Some []")
      case True
      have e: "good r' \<and> rest (ad_source a) = [] \<and> rest r' = []"
        using True read_error [OF wf(1,2)] read_data [OF wf(1,2)] g by fastforce
      have "ad_Next cp a = Some (None,
          a\<lparr> ad_source := r', ad_failed := (got = None \<or> ad_failed a), ad_buffer := None \<rparr>)"
        using 3 g True by (auto simp: ad_Next_def ad_FreeBuffer_def Let_def)
      then show ?thesis by (rule fin) (use 3 e in simp_all)
    next
      case False
      then obtain bs where bs: "got = Some bs" "bs \<noteq> []" by auto
      have "ad_Next cp a = Some (Some bs, a\<lparr> ad_source := r', ad_buffer := Some bs,
          ad_position := ad_position a + int (length bs) \<rparr>)"
        using 3 g bs by (simp add: ad_Next_def Let_def)
      then show ?thesis by (rule fresh) (use 3 bs read_data [OF wf(1,2)] g in auto)
    qed
  qed
qed

lemma adaptor: "counted_input (adaptor_stream cp) (adaptor_view good rest)"
proof
  fix a assume v: "zv_wf (adaptor_view good rest) a"
  then have wf: "good (ad_source a)" "0 < ad_buffer_size a" "0 \<le> ad_backup a"
    "ad_backup a \<le> int (length (ad_used a))" "ad_failed a \<longrightarrow> ad_buffer a = None \<and> rest (ad_source a) = []"
    by (auto simp: adaptor_view_def)
  let ?vw = "adaptor_view good rest" and ?zi = "adaptor_stream cp"
  have ops: "zc_Next ?zi = ad_Next cp" "zc_BackUp ?zi = ad_BackUp" "zc_Skip ?zi = ad_Skip cp"
    "zc_ByteCount ?zi = ad_ByteCount" by (simp_all add: adaptor_stream_def)
  show "\<exists>r. zc_Next ?zi a = Some r" using v unfolding ops by (cases rule: adaptor_Next) auto
  show "zv_wf ?vw a' \<and> zv_left ?vw a = d @ zv_left ?vw a' \<and> (\<exists>pre. zv_last ?vw a' = pre @ d) \<and>
      (d = [] \<longrightarrow> zv_empties ?vw a' < zv_empties ?vw a)"
    if n: "zc_Next ?zi a = Some (Some d, a')" for d a'
    using v n unfolding ops
  proof (cases rule: adaptor_Next)
    case again
    then have d: "d = drop (length (ad_used a) - nat (ad_backup a)) (ad_used a)"
      "a' = a\<lparr> ad_buffer := Some (ad_used a), ad_backup := 0 \<rparr>" using n unfolding ops by auto
    have "\<exists>pre. ad_used a = pre @ d" unfolding d(1) by (metis append_take_drop_id)
    moreover have "d \<noteq> []" using again(3) wf(4) by (auto simp: d(1))
    ultimately show ?thesis using wf again d by (simp add: adaptor_view_def)
  next
    case (fresh bs r')
    then have "d = bs" "a' = a\<lparr> ad_source := r', ad_buffer := Some bs,
        ad_position := ad_position a + int (length bs) \<rparr>" using n unfolding ops by auto
    with fresh wf show ?thesis by (simp add: adaptor_view_def)
  qed (use n in \<open>simp_all add: ops\<close>)
  show "zv_wf ?vw a' \<and> zv_left ?vw a = [] \<and> zv_left ?vw a' = []"
    if n: "zc_Next ?zi a = Some (None, a')" for a'
    using v n unfolding ops
  proof (cases rule: adaptor_Next)
    case failed
    then have "a' = a" using n unfolding ops by simp
    with failed wf v show ?thesis by (simp add: adaptor_view_def)
  next
    case (fin f r')
    then have "a' = a\<lparr> ad_source := r', ad_failed := f, ad_buffer := None \<rparr>" using n unfolding ops by simp
    with fin wf show ?thesis by (simp add: adaptor_view_def)
  qed (use n in \<open>simp_all add: ops\<close>)
  show "\<exists>a'. zc_BackUp ?zi k a = Some a' \<and> zv_wf ?vw a' \<and>
      zv_left ?vw a' = drop (length (zv_last ?vw a) - nat k) (zv_last ?vw a) @ zv_left ?vw a"
    if k: "0 < k" "nat k \<le> length (zv_last ?vw a)" for k :: int
  proof -
    have b: "ad_backup a = 0" "nat k \<le> length (ad_used a)"
      using k by (auto simp: adaptor_view_def split: if_splits)
    then have "ad_buffer a \<noteq> None" using k(1) by (cases "ad_buffer a") (simp_all add: ad_used_def)
    then have "ad_BackUp k a = Some (a\<lparr> ad_backup := k \<rparr>)" using b k(1) by (simp add: ad_BackUp_def)
    then show ?thesis using b k(1) wf \<open>ad_buffer a \<noteq> None\<close> by (simp add: ops adaptor_view_def)
  qed
  have skip: "\<exists>b a'. ad_Skip cp k a = Some (b, a') \<and> zv_wf ?vw a' \<and>
      zv_left ?vw a' = drop (nat k) (zv_left ?vw a) \<and>
      (0 < k \<longrightarrow> b = (nat k \<le> length (zv_left ?vw a))) \<and> (\<not> b \<longrightarrow> zv_left ?vw a' = []) \<and>
      ad_ByteCount a' + int (length (zv_left ?vw a')) = ad_ByteCount a + int (length (zv_left ?vw a))"
    if k: "0 \<le> k" for k :: int
  proof -
    let ?U = "drop (length (ad_used a) - nat (ad_backup a)) (ad_used a)"
    have lenU: "int (length ?U) = ad_backup a" using wf(3,4) by simp
    have left: "zv_left ?vw a = ?U @ rest (ad_source a)" by (simp add: adaptor_view_def)
    consider "ad_failed a" | "\<not> ad_failed a" "k \<le> ad_backup a" | "\<not> ad_failed a" "ad_backup a < k"
      by linarith
    then show ?thesis
    proof cases
      case 1
      then have "ad_used a = []" "rest (ad_source a) = []" using wf(5) by auto
      then show ?thesis using 1 v k by (auto simp: ad_Skip_def left)
    next
      case 2
      let ?a = "a\<lparr> ad_backup := ad_backup a - k \<rparr>"
      have r: "ad_Skip cp k a = Some (True, ?a)" using 2 k by (simp add: ad_Skip_def)
      have "length (ad_used a) - nat (ad_backup a - k) = length (ad_used a) - nat (ad_backup a) + nat k"
        using 2 k wf(4) by linarith
      then have l: "zv_left ?vw ?a = drop (nat k) (zv_left ?vw a)"
        using 2 k lenU by (simp add: adaptor_view_def add.commute)
      have "nat k \<le> length (zv_left ?vw a)" using 2 k lenU unfolding left by simp
      then show ?thesis using r l 2 wf k by (auto simp: adaptor_view_def ad_ByteCount_def)
    next
      case 3
      have r0: "0 < k - ad_backup a" using 3 by simp
      from skip_source [OF wf(1) r0] obtain r' where
        s: "cp_Skip cp (k - ad_backup a) (ad_source a) =
          Some (min (k - ad_backup a) (int (length (rest (ad_source a)))), r')" "good r'"
          "rest r' = drop (nat (k - ad_backup a)) (rest (ad_source a))" by blast
      define m where "m = min (k - ad_backup a) (int (length (rest (ad_source a))))"
      let ?a = "a\<lparr> ad_backup := 0, ad_source := r', ad_position := ad_position a + m \<rparr>"
      have r: "ad_Skip cp k a = Some (m = k - ad_backup a, ?a)"
        using 3 k s(1) by (simp add: ad_Skip_def Let_def m_def)
      have nk: "nat k = length ?U + nat (k - ad_backup a)" using lenU 3 wf(3) by linarith
      have l: "zv_left ?vw ?a = drop (nat k) (zv_left ?vw a)"
        unfolding left nk by (simp add: adaptor_view_def s(3))
      have b: "(m = k - ad_backup a) = (nat k \<le> length (zv_left ?vw a))"
        unfolding left nk m_def using r0 by auto
      have c: "ad_ByteCount ?a + int (length (zv_left ?vw ?a)) =
          ad_ByteCount a + int (length (zv_left ?vw a))"
        unfolding l left nk using lenU r0 by (simp add: ad_ByteCount_def m_def) linarith
      have "zv_wf ?vw ?a" using wf s(2,3) by (auto simp: adaptor_view_def)
      moreover have "m \<noteq> k - ad_backup a \<longrightarrow> zv_left ?vw ?a = []" using b by (simp add: l)
      ultimately show ?thesis using r l b c by blast
    qed
  qed
  show "\<exists>b a'. zc_Skip ?zi k a = Some (b, a') \<and> zv_wf ?vw a' \<and>
      zv_left ?vw a' = drop (nat k) (zv_left ?vw a) \<and>
      (0 < k \<longrightarrow> b = (nat k \<le> length (zv_left ?vw a))) \<and> (\<not> b \<longrightarrow> zv_left ?vw a' = [])"
    if "0 \<le> k" for k :: int using skip [OF that] unfolding ops by blast
  show "zc_ByteCount ?zi a' + int (length (zv_left ?vw a')) =
      zc_ByteCount ?zi a + int (length (zv_left ?vw a))"
    if "0 \<le> k" "zc_Skip ?zi k a = Some (b, a')" for k b a'
    using skip [OF that(1)] that(2) unfolding ops by auto
  show "zc_ByteCount ?zi a' + int (length (zv_left ?vw a')) =
      zc_ByteCount ?zi a + int (length (zv_left ?vw a))"
    if k: "0 < k" "nat k \<le> length (zv_last ?vw a)" "zc_BackUp ?zi k a = Some a'" for k a'
    using k unfolding ops
    by (auto simp: adaptor_view_def ad_BackUp_def ad_ByteCount_def split: if_splits)
  show "zc_ByteCount ?zi a' + int (length (zv_left ?vw a')) =
      zc_ByteCount ?zi a + int (length (zv_left ?vw a))"
    if n: "zc_Next ?zi a = Some (r, a')" for r a'
    using v
  proof (cases rule: adaptor_Next)
    case again
    then show ?thesis using n wf(3,4) unfolding ops by (auto simp: adaptor_view_def ad_ByteCount_def)
  next
    case (fresh bs r')
    then show ?thesis using n unfolding ops by (auto simp: adaptor_view_def ad_ByteCount_def)
  next
    case (fin f r')
    then show ?thesis using n unfolding ops by (auto simp: adaptor_view_def ad_ByteCount_def)
  qed (use n in \<open>simp add: ops\<close>)
qed

end

section \<open>A file descriptor that cannot seek\<close>

text \<open>What \<open>read\<close> and \<open>lseek\<close> do on a pipe or a socket: a read returns a part of what is to come,
  none of it at the end; it may be interrupted a number of times; any other error is final.\<close>

locale unseekable_file =
  fixes sys :: "'f sys_calls" and ok :: "'f \<Rightarrow> bool" and to_come :: "'f \<Rightarrow> byte list"
    and interrupts :: "'f \<Rightarrow> nat"
  assumes sys_data: "ok f \<Longrightarrow> 0 < n \<Longrightarrow> sys_read sys n f = (Rd_bytes bs, f') \<Longrightarrow>
      ok f' \<and> to_come f = bs @ to_come f' \<and> length bs \<le> nat n \<and> (bs = [] \<longrightarrow> to_come f = [])"
    and sys_interrupt: "ok f \<Longrightarrow> 0 < n \<Longrightarrow> sys_read sys n f = (Rd_error EINTR, f') \<Longrightarrow>
      ok f' \<and> to_come f' = to_come f \<and> interrupts f' < interrupts f"
    and sys_error: "ok f \<Longrightarrow> 0 < n \<Longrightarrow> sys_read sys n f = (Rd_error e, f') \<Longrightarrow> e \<noteq> EINTR \<Longrightarrow>
      ok f' \<and> to_come f = [] \<and> to_come f' = []"
    and sys_no_seek: "ok f \<Longrightarrow> sys_lseek sys n f = (False, f)"
begin

lemma read_loop:
  assumes "ok f" and "0 < n"
  shows "\<exists>r f0 f'. fi_read_loop sys n f = Some (r, f') \<and> sys_read sys n f0 = (r, f') \<and> ok f0 \<and>
    to_come f0 = to_come f \<and> r \<noteq> Rd_error EINTR"
  using assms(1)
proof (induction "interrupts f" arbitrary: f rule: less_induct)
  case less
  obtain r f' where s: "sys_read sys n f = (r, f')" by fastforce
  show ?case
  proof (cases "r = Rd_error EINTR")
    case True
    from sys_interrupt [OF less.prems assms(2)] s True have
      i: "ok f'" "to_come f' = to_come f" "interrupts f' < interrupts f" by auto
    have "fi_read_loop sys n f = fi_read_loop sys n f'"
      using s True by (subst fi_read_loop.simps) simp
    then show ?thesis using less.hyps [OF i(3,1)] unfolding i(2) by simp
  next
    case False
    then have "fi_read_loop sys n f = Some (r, f')" using s by (subst fi_read_loop.simps) simp
    then show ?thesis using s less.prems False by blast
  qed
qed

lemma file_Read:
  assumes "ok (fi_file i)" and "\<not> fi_closed i" and "0 < n"
  obtains (data) bs f' where "fi_Read sys n i = Some (Some bs, i\<lparr> fi_file := f' \<rparr>)" "ok f'"
      "to_come (fi_file i) = bs @ to_come f'" "length bs \<le> nat n" "bs = [] \<Longrightarrow> to_come (fi_file i) = []"
  | (error) e f0 f' where "fi_Read sys n i = Some (None, i\<lparr> fi_file := f', fi_errno := e \<rparr>)" "ok f'"
      "to_come (fi_file i) = []" "to_come f' = []" "sys_read sys n f0 = (Rd_error e, f')" "ok f0" "e \<noteq> EINTR"
proof -
  obtain r f0 f' where l: "fi_read_loop sys n (fi_file i) = Some (r, f')" "sys_read sys n f0 = (r, f')"
    "ok f0" "to_come f0 = to_come (fi_file i)" "r \<noteq> Rd_error EINTR"
    using read_loop [OF assms(1,3)] by blast
  show thesis
  proof (cases r)
    case (Rd_bytes bs)
    then have "fi_Read sys n i = Some (Some bs, i\<lparr> fi_file := f' \<rparr>)"
      using l(1) assms(2) by (simp add: fi_Read_def)
    then show ?thesis by (rule data) (use sys_data [OF l(3) assms(3)] l(2,4) Rd_bytes in auto)
  next
    case (Rd_error e)
    then have "fi_Read sys n i = Some (None, i\<lparr> fi_file := f', fi_errno := e \<rparr>)"
      using l(1) assms(2) by (simp add: fi_Read_def)
    then show ?thesis
      by (rule error) (use sys_error [OF l(3) assms(3)] l(2,3,4,5) Rd_error in auto)
  qed
qed

lemma file_reader:
  "copying_reader (fi_Read sys) (\<lambda>i. ok (fi_file i) \<and> \<not> fi_closed i) (\<lambda>i. to_come (fi_file i))"
proof
  fix i :: "'f file_input" and n :: int assume g: "ok (fi_file i) \<and> \<not> fi_closed i" and n: "0 < n"
  then have g': "ok (fi_file i)" "\<not> fi_closed i" by simp_all
  show "\<exists>x. fi_Read sys n i = Some x" by (rule file_Read [OF g' n]) auto
  show "(ok (fi_file i') \<and> \<not> fi_closed i') \<and> to_come (fi_file i) = bs @ to_come (fi_file i') \<and>
      length bs \<le> nat n \<and> (bs = [] \<longrightarrow> to_come (fi_file i) = [])"
    if "fi_Read sys n i = Some (Some bs, i')" for bs i'
    by (rule file_Read [OF g' n]) (use that g in auto)
  show "(ok (fi_file i') \<and> \<not> fi_closed i') \<and> to_come (fi_file i) = [] \<and> to_come (fi_file i') = []"
    if "fi_Read sys n i = Some (None, i')" for i'
    by (rule file_Read [OF g' n]) (use that g in auto)
qed

text \<open>\<open>lseek\<close> fails, so \<open>Skip\<close> reads.\<close>

lemma skips:
  assumes r: "copying_reader (fi_Read sys) good rest" and g: "good i"
    and ok: "\<And>i. good i \<Longrightarrow> ok (fi_file i) \<and> \<not> fi_closed i \<and> good (i\<lparr> fi_seek_failed := True \<rparr>) \<and>
      rest (i\<lparr> fi_seek_failed := True \<rparr>) = rest i"
    and n: "0 < n"
  shows "\<exists>i'. fi_Skip sys n i = Some (min n (int (length (rest i))), i') \<and> good i' \<and>
    rest i' = drop (nat n) (rest i)"
proof -
  have "sys_lseek sys n (fi_file i) = (False, fi_file i)" using ok [OF g] sys_no_seek by simp
  then have "fi_Skip sys n i = CopyingInputStream_Skip (fi_Read sys) n (i\<lparr> fi_seek_failed := True \<rparr>)"
    using ok [OF g] by (cases "fi_seek_failed i") (simp_all add: fi_Skip_def)
  with copying_reader.default_Skip [OF r _ n, of "i\<lparr> fi_seek_failed := True \<rparr>"] ok [OF g]
  show ?thesis by simp
qed

end

lemma file_source_simps: "cp_Read (file_source sys) = fi_Read sys" "cp_Skip (file_source sys) = fi_Skip sys"
  by (simp_all add: file_source_def)

sublocale unseekable_file \<subseteq> descriptor: copying_source "file_source sys"
  "\<lambda>i. ok (fi_file i) \<and> \<not> fi_closed i" "\<lambda>i. to_come (fi_file i)"
  unfolding copying_source_def copying_source_axioms_def file_source_simps
  by (intro conjI allI impI file_reader skips [OF file_reader]) auto

text \<open>A descriptor that never fails: \<open>GetErrno\<close> stays zero.\<close>

locale quiet_file = unseekable_file sys ok to_come interrupts
  for sys :: "'f sys_calls" and ok :: "'f \<Rightarrow> bool" and to_come :: "'f \<Rightarrow> byte list"
    and interrupts :: "'f \<Rightarrow> nat" +
  assumes sys_quiet: "ok f \<Longrightarrow> 0 < n \<Longrightarrow> sys_read sys n f = (Rd_error e, f') \<Longrightarrow> e = EINTR"
begin

lemma quiet_reader:
  "copying_reader (fi_Read sys) (\<lambda>i. ok (fi_file i) \<and> \<not> fi_closed i \<and> fi_errno i = 0) (\<lambda>i. to_come (fi_file i))"
proof
  fix i :: "'f file_input" and n :: int
  assume g: "ok (fi_file i) \<and> \<not> fi_closed i \<and> fi_errno i = 0" and n: "0 < n"
  then have g': "ok (fi_file i)" "\<not> fi_closed i" by simp_all
  show "\<exists>x. fi_Read sys n i = Some x" by (rule file_Read [OF g' n]) auto
  show "(ok (fi_file i') \<and> \<not> fi_closed i' \<and> fi_errno i' = 0) \<and>
      to_come (fi_file i) = bs @ to_come (fi_file i') \<and> length bs \<le> nat n \<and> (bs = [] \<longrightarrow> to_come (fi_file i) = [])"
    if "fi_Read sys n i = Some (Some bs, i')" for bs i'
    by (rule file_Read [OF g' n]) (use that g in auto)
  show "(ok (fi_file i') \<and> \<not> fi_closed i' \<and> fi_errno i' = 0) \<and> to_come (fi_file i) = [] \<and>
      to_come (fi_file i') = []"
    if "fi_Read sys n i = Some (None, i')" for i'
    by (rule file_Read [OF g' n]) (use that sys_quiet [OF _ n] in auto)
qed

end

sublocale quiet_file \<subseteq> quiet: copying_source "file_source sys"
  "\<lambda>i. ok (fi_file i) \<and> \<not> fi_closed i \<and> fi_errno i = 0" "\<lambda>i. to_come (fi_file i)"
  unfolding copying_source_def copying_source_axioms_def file_source_simps
  by (intro conjI allI impI quiet_reader skips [OF quiet_reader]) auto

section \<open>A pipe\<close>

text \<open>A pipe that holds bytes and is closed at the other end. The script says how the next calls go:
  an interrupt, or at most so many bytes (one at least); after the script each call delivers what it
  is asked for.\<close>

datatype pipe_event = Pe_interrupt | Pe_up_to nat

record pipe_end =
  pe_bytes :: "byte list"
  pe_script :: "pipe_event list"

fun pipe_read :: "int \<Rightarrow> pipe_end \<Rightarrow> read_result \<times> pipe_end" where
  "pipe_read n p =
     (case pe_script p of
        [] \<Rightarrow> (Rd_bytes (take (nat n) (pe_bytes p)), p\<lparr> pe_bytes := drop (nat n) (pe_bytes p) \<rparr>)
      | Pe_interrupt # es \<Rightarrow> (Rd_error EINTR, p\<lparr> pe_script := es \<rparr>)
      | Pe_up_to k # es \<Rightarrow>
          (Rd_bytes (take (min (nat n) (Suc k)) (pe_bytes p)),
           p\<lparr> pe_bytes := drop (min (nat n) (Suc k)) (pe_bytes p), pe_script := es \<rparr>))"

definition pipe_calls :: "pipe_end sys_calls" where
  "pipe_calls = \<lparr> sys_read = pipe_read, sys_lseek = (\<lambda>n p. (False, p)) \<rparr>"

interpretation pipe_end: quiet_file pipe_calls "\<lambda>p. True" pe_bytes "\<lambda>p. length (pe_script p)"
proof
  fix p p' :: pipe_end and n :: int assume n: "0 < n"
  show "True \<and> pe_bytes p = bs @ pe_bytes p' \<and> length bs \<le> nat n \<and> (bs = [] \<longrightarrow> pe_bytes p = [])"
    if "sys_read pipe_calls n p = (Rd_bytes bs, p')" for bs
    using that n by (auto simp: pipe_calls_def split: list.splits pipe_event.splits)
  show "True \<and> pe_bytes p' = pe_bytes p \<and> length (pe_script p') < length (pe_script p)"
    if "sys_read pipe_calls n p = (Rd_error EINTR, p')"
    using that by (auto simp: pipe_calls_def split: list.splits pipe_event.splits)
  show "True \<and> pe_bytes p = [] \<and> pe_bytes p' = []"
    if "sys_read pipe_calls n p = (Rd_error e, p')" "e \<noteq> EINTR" for e
    using that by (auto simp: pipe_calls_def split: list.splits pipe_event.splits)
  show "e = EINTR" if "sys_read pipe_calls n p = (Rd_error e, p')" for e
    using that by (auto simp: pipe_calls_def split: list.splits pipe_event.splits)
qed (simp add: pipe_calls_def)

text \<open>Streams made of others.\<close>

interpretation array_cut: zero_copy_input "limited_stream array_stream" "limited_view array_view"
  by (rule array.limited)

interpretation array_chain: zero_copy_input "concat_stream array_stream" "concat_view array_view"
  by (rule array.concatenated)

interpretation pipe_stream: counted_input "adaptor_stream (file_source pipe_calls)"
  "adaptor_view (\<lambda>i. True \<and> \<not> fi_closed i) (\<lambda>i. pe_bytes (fi_file i))"
  by (rule pipe_end.descriptor.adaptor)

end
