(* ===== verification/GF_MessageFile.thy ===== *)
theory GF_MessageFile
  imports GF_StreamWrite GF_StreamParse GF_CopyStream
begin

text \<open>
  Messages in files and C++ streams: the entry points of \<open>src/include/google/protobuf/message.cc\<close>
  over \<open>FileInputStream\<close>, \<open>FileOutputStream\<close>, \<open>IstreamInputStream\<close> and \<open>OstreamOutputStream\<close>.
  A message written to a descriptor is read back from one; but the answer of the writer does not say
  whether anything was written, since it is given before the buffer is flushed.
\<close>

section \<open>Files\<close>

definition ParseFromFileDescriptor :: "'f sys_calls \<Rightarrow> 'm message_vtable \<Rightarrow>
    ('f file_input adaptor coded_in \<Rightarrow> 'm \<Rightarrow> (bool \<times> 'f file_input adaptor coded_in \<times> 'm) option) \<Rightarrow>
    'f \<Rightarrow> 'm \<Rightarrow> (bool \<times> 'm \<times> 'f) option" where
  "ParseFromFileDescriptor sys vt merge descriptor m = do {
     (ok, m', input) \<leftarrow> ParseFromZeroCopyStream (adaptor_stream (file_source sys)) vt merge
       (FileInputStream descriptor (-1)) m;
     Some (ok \<and> fi_errno (ad_source input) = 0, m', fi_file (ad_source input))
   }"

definition ParsePartialFromFileDescriptor :: "'f sys_calls \<Rightarrow> 'm message_vtable \<Rightarrow>
    ('f file_input adaptor coded_in \<Rightarrow> 'm \<Rightarrow> (bool \<times> 'f file_input adaptor coded_in \<times> 'm) option) \<Rightarrow>
    'f \<Rightarrow> 'm \<Rightarrow> (bool \<times> 'm \<times> 'f) option" where
  "ParsePartialFromFileDescriptor sys vt merge descriptor m = do {
     (ok, m', input) \<leftarrow> ParsePartialFromZeroCopyStream (adaptor_stream (file_source sys)) vt merge
       (FileInputStream descriptor (-1)) m;
     Some (ok \<and> fi_errno (ad_source input) = 0, m', fi_file (ad_source input))
   }"

definition SerializeToFileDescriptor :: "'f write_calls \<Rightarrow> 'm message_vtable \<Rightarrow>
    ('m \<Rightarrow> 'f file_output out_adaptor coded_out \<Rightarrow> 'f file_output out_adaptor coded_out option) \<Rightarrow>
    'f \<Rightarrow> 'm \<Rightarrow> (bool \<times> 'm \<times> 'f) option" where
  "SerializeToFileDescriptor sys vt ser descriptor m = do {
     (ok, m', output) \<leftarrow> SerializeToZeroCopyStream (adaptor_output (fo_Write sys)) vt ser
       (FileOutputStream descriptor (-1)) m;
     descriptor' \<leftarrow> FileOutputStream_destroy sys output;
     Some (ok, m', descriptor')
   }"

definition SerializePartialToFileDescriptor :: "'f write_calls \<Rightarrow> 'm message_vtable \<Rightarrow>
    ('m \<Rightarrow> 'f file_output out_adaptor coded_out \<Rightarrow> 'f file_output out_adaptor coded_out option) \<Rightarrow>
    'f \<Rightarrow> 'm \<Rightarrow> (bool \<times> 'm \<times> 'f) option" where
  "SerializePartialToFileDescriptor sys vt ser descriptor m = do {
     (ok, m', output) \<leftarrow> SerializePartialToZeroCopyStream (adaptor_output (fo_Write sys)) vt ser
       (FileOutputStream descriptor (-1)) m;
     descriptor' \<leftarrow> FileOutputStream_destroy sys output;
     Some (ok, m', descriptor')
   }"

section \<open>C++ streams\<close>

text \<open>What the adaptors use of \<open>istream\<close> (\<open>read\<close> with \<open>gcount\<close>, \<open>fail\<close>, \<open>eof\<close>) and \<open>ostream\<close>
  (\<open>write\<close>, \<open>good\<close>).\<close>

record 'i istream_ops =
  is_read :: "int \<Rightarrow> 'i \<Rightarrow> byte list \<times> 'i"
  is_fail :: "'i \<Rightarrow> bool"
  is_eof :: "'i \<Rightarrow> bool"

record 'o ostream_ops =
  os_write :: "byte list \<Rightarrow> 'o \<Rightarrow> 'o"
  os_good :: "'o \<Rightarrow> bool"

definition istream_Read :: "'i istream_ops \<Rightarrow> int \<Rightarrow> 'i \<Rightarrow> (byte list option \<times> 'i) option" where
  "istream_Read ops n i =
     (case is_read ops n i of (bytes, i') \<Rightarrow>
        Some (if bytes = [] \<and> is_fail ops i' \<and> \<not> is_eof ops i' then None else Some bytes, i'))"

definition istream_source :: "'i istream_ops \<Rightarrow> 'i copying_input" where
  "istream_source ops = \<lparr> cp_Read = istream_Read ops, cp_Skip = CopyingInputStream_Skip (istream_Read ops) \<rparr>"

definition ParseFromIstream :: "'i istream_ops \<Rightarrow> 'm message_vtable \<Rightarrow>
    ('i adaptor coded_in \<Rightarrow> 'm \<Rightarrow> (bool \<times> 'i adaptor coded_in \<times> 'm) option) \<Rightarrow>
    'i \<Rightarrow> 'm \<Rightarrow> (bool \<times> 'm \<times> 'i) option" where
  "ParseFromIstream ops vt merge input m = do {
     (ok, m', stream) \<leftarrow> ParseFromZeroCopyStream (adaptor_stream (istream_source ops)) vt merge
       (CopyingInputStreamAdaptor input (-1)) m;
     Some (ok \<and> is_eof ops (ad_source stream), m', ad_source stream)
   }"

definition ParsePartialFromIstream :: "'i istream_ops \<Rightarrow> 'm message_vtable \<Rightarrow>
    ('i adaptor coded_in \<Rightarrow> 'm \<Rightarrow> (bool \<times> 'i adaptor coded_in \<times> 'm) option) \<Rightarrow>
    'i \<Rightarrow> 'm \<Rightarrow> (bool \<times> 'm \<times> 'i) option" where
  "ParsePartialFromIstream ops vt merge input m = do {
     (ok, m', stream) \<leftarrow> ParsePartialFromZeroCopyStream (adaptor_stream (istream_source ops)) vt merge
       (CopyingInputStreamAdaptor input (-1)) m;
     Some (ok \<and> is_eof ops (ad_source stream), m', ad_source stream)
   }"

definition ostream_Write :: "'o ostream_ops \<Rightarrow> 'o copying_output" where
  "ostream_Write ops data out = (let out' = os_write ops data out in Some (os_good ops out', out'))"

definition OstreamOutputStream_destroy :: "'o ostream_ops \<Rightarrow> 'o out_adaptor \<Rightarrow> 'o option" where
  "OstreamOutputStream_destroy ops a = do {
     (ok, a1) \<leftarrow> oa_Flush (ostream_Write ops) a;
     oa_destroy (ostream_Write ops) a1
   }"

definition SerializeToOstream :: "'o ostream_ops \<Rightarrow> 'm message_vtable \<Rightarrow>
    ('m \<Rightarrow> 'o out_adaptor coded_out \<Rightarrow> 'o out_adaptor coded_out option) \<Rightarrow>
    'o \<Rightarrow> 'm \<Rightarrow> (bool \<times> 'm \<times> 'o) option" where
  "SerializeToOstream ops vt ser output m = do {
     (ok, m', stream) \<leftarrow> SerializeToZeroCopyStream (adaptor_output (ostream_Write ops)) vt ser
       (CopyingOutputStreamAdaptor output (-1)) m;
     output' \<leftarrow> OstreamOutputStream_destroy ops stream;
     if \<not> ok then Some (False, m', output') else Some (os_good ops output', m', output')
   }"

definition SerializePartialToOstream :: "'o ostream_ops \<Rightarrow> 'm message_vtable \<Rightarrow>
    ('m \<Rightarrow> 'o out_adaptor coded_out \<Rightarrow> 'o out_adaptor coded_out option) \<Rightarrow>
    'o \<Rightarrow> 'm \<Rightarrow> (bool \<times> 'm \<times> 'o) option" where
  "SerializePartialToOstream ops vt ser output m = do {
     (ok, m', stream) \<leftarrow> SerializePartialToZeroCopyStream (adaptor_output (ostream_Write ops)) vt ser
       (CopyingOutputStreamAdaptor output (-1)) m;
     output' \<leftarrow> OstreamOutputStream_destroy ops stream;
     Some (ok, m', output')
   }"

section \<open>Written and read back\<close>

context copying_sink begin

text \<open>A message through the adaptor, and the destructor of the stream.\<close>

lemma message_through_adaptor:
  assumes g: "good w" and wa: "writes_array (adaptor_output wr) (adaptor_sink good taken) vt ser"
    and s: "SerializeToArray vt n m = Inr (True, Some bytes, m')"
  shows "\<exists>a a1 w'. SerializeToZeroCopyStream (adaptor_output wr) vt ser (CopyingOutputStreamAdaptor w (-1)) m =
      Some (True, m', a) \<and> oa_Flush wr a = Some (True, a1) \<and> oa_destroy wr a1 = Some w' \<and> good w' \<and>
    taken w' = taken w @ bytes"
proof -
  let ?vw = "adaptor_sink good taken" and ?s = "CopyingOutputStreamAdaptor w (-1)"
  have wf: "zw_wf ?vw ?s" and t: "zw_text ?vw ?s = taken w"
    using g by (auto simp: adaptor_sink_def CopyingOutputStreamAdaptor_def oa_buffered_def)
  from zero_copy_output.SerializeToZeroCopyStream_array [OF adaptor wf wa s] obtain k a where
    a: "SerializeToZeroCopyStream (adaptor_output wr) vt ser ?s m = Some (k = length bytes, m', a)"
      "zw_wf ?vw a" "zw_text ?vw a = taken w @ take k bytes" "k \<le> length bytes"
      "k < length bytes \<longrightarrow> zw_failed ?vw a" unfolding t by blast
  then have k: "k = length bytes" by (simp add: adaptor_sink_def)
  from WriteBuffer_ok [OF a(2)] obtain a1 where a1: "oa_WriteBuffer wr a = Some (True, a1)" "zw_wf ?vw a1"
    "oa_used a1 = 0" "taken (oa_sink a1) = zw_text ?vw a" by blast
  from a1(2,3) have "oa_WriteBuffer wr a1 = Some (True, a1)" "good (oa_sink a1)"
    by (simp_all add: oa_WriteBuffer_def adaptor_sink_def)
  then show ?thesis using a(1,3) a1(1,4) k by (simp add: oa_Flush_def oa_destroy_def)
qed

end

context writable_file begin

theorem SerializeToFileDescriptor_ok:
  assumes "ok f" and "writes_array (adaptor_output (fo_Write sys))
      (adaptor_sink (\<lambda>o'. ok (fo_file o') \<and> \<not> fo_closed o') (\<lambda>o'. taken (fo_file o'))) vt ser"
    and "SerializeToArray vt n m = Inr (True, Some bytes, m')"
  shows "\<exists>f'. SerializeToFileDescriptor sys vt ser f m = Some (True, m', f') \<and> ok f' \<and> taken f' = taken f @ bytes"
  using descriptor.message_through_adaptor [OF _ assms(2,3), of "\<lparr> fo_file = f, fo_closed = False, fo_errno = 0 \<rparr>"] assms(1)
  by (auto simp: SerializeToFileDescriptor_def FileOutputStream_destroy_def FileOutputStream_def)

end

context quiet_file begin

theorem ParseFromFileDescriptor_ok:
  assumes f: "ok f" and len: "length (to_come f) < 67108864"
    and me: "merge_agrees (adaptor_view
      (\<lambda>i. ok (fi_file i) \<and> \<not> fi_closed i \<and> fi_errno i = 0) (\<lambda>i. to_come (fi_file i))) vt merge"
    and p: "ParseFromArray vt (to_come f) m = Inr (b, m')"
  shows "\<exists>f'. ParseFromFileDescriptor sys vt merge f m = Some (b, m', f') \<and> ok f'"
proof -
  let ?s = "FileInputStream f (-1)"
  let ?vw = "adaptor_view (\<lambda>i. ok (fi_file i) \<and> \<not> fi_closed i \<and> fi_errno i = 0) (\<lambda>i. to_come (fi_file i))"
  have wf: "zv_wf ?vw ?s" and l: "zv_left ?vw ?s = to_come f"
    using f by (auto simp: adaptor_view_def FileInputStream_def CopyingInputStreamAdaptor_def ad_used_def)
  have zi: "zero_copy_input (adaptor_stream (file_source sys)) ?vw"
    using quiet.adaptor by (rule counted_input.axioms)
  from zero_copy_input.ParseFromZeroCopyStream_array [OF zi wf _ me, of m b m'] len p obtain s' where
    "ParseFromZeroCopyStream (adaptor_stream (file_source sys)) vt merge ?s m = Some (b, m', s')"
    "zv_wf ?vw s'" unfolding l by blast
  then show ?thesis by (simp add: ParseFromFileDescriptor_def adaptor_view_def)
qed

end

text \<open>Through a pipe, however its calls cut the bytes: what is written is read back.\<close>

theorem message_through_pipes:
  assumes s: "SerializeToArray Regist_Req_vtable n m = Inr (True, Some bytes, m')"
    and len: "length bytes < 67108864"
    and p: "ParseFromArray Regist_Req_vtable bytes m0 = Inr (b, m1)"
  shows "\<exists>p' q'. SerializeToFileDescriptor pipe_sink_calls Regist_Req_vtable
      (Regist_Req_SerializeToStream (adaptor_output (fo_Write pipe_sink_calls)))
      \<lparr> ps_taken = [], ps_script = script \<rparr> m = Some (True, m', p') \<and>
    ParseFromFileDescriptor pipe_calls Regist_Req_vtable
      (Regist_Req_MergePartialFromStream (adaptor_stream (file_source pipe_calls)))
      \<lparr> pe_bytes = ps_taken p', pe_script = script' \<rparr> m0 = Some (b, m1, q')"
proof -
  from pipe_sink.SerializeToFileDescriptor_ok [OF _ pipe_output.class_writes(1) s]
  obtain p' where p': "SerializeToFileDescriptor pipe_sink_calls Regist_Req_vtable
      (Regist_Req_SerializeToStream (adaptor_output (fo_Write pipe_sink_calls)))
      \<lparr> ps_taken = [], ps_script = script \<rparr> m = Some (True, m', p')" "ps_taken p' = bytes" by force
  have zi: "zero_copy_input (adaptor_stream (file_source pipe_calls))
      (adaptor_view (\<lambda>i. True \<and> \<not> fi_closed i \<and> fi_errno i = 0) (\<lambda>i. pe_bytes (fi_file i)))"
    using pipe_end.quiet.adaptor by (rule counted_input.axioms)
  from pipe_end.ParseFromFileDescriptor_ok [OF _ _ zero_copy_input.class_merges(1) [OF zi],
      of "\<lparr> pe_bytes = bytes, pe_script = script' \<rparr>" m0 b m1] len p p' show ?thesis by auto
qed

section \<open>Answers that say nothing\<close>

text \<open>A message that fits the buffer of a new stream is put there.\<close>

lemma message_in_buffer:
  fixes w :: 'w and wr :: "'w copying_output"
  defines "s0 \<equiv> CopyingOutputStreamAdaptor w (-1)"
  assumes s: "SerializeToArray vt n m = Inr (True, Some bytes, m')" and len: "length bytes \<le> 8192"
  shows "\<exists>mem. length mem = 8192 \<and>
    SerializeToZeroCopyStream (adaptor_output wr) vt ser s0 m =
      Some (True, m', s0\<lparr> oa_memory := Some mem, oa_given := 0, oa_used := int (length bytes) \<rparr>)"
proof -
  let ?zo = "adaptor_output wr" and ?mem = "replicate 8192 (0 :: byte)"
  let ?a = "s0\<lparr> oa_memory := Some ?mem, oa_given := 0, oa_used := 8192 \<rparr>"
  let ?c = "\<lparr> cw_output = ?a, cw_buffer = Some 0, cw_size = 8192, cw_total = 8192, cw_error = False,
      cw_aliasing = False \<rparr>"
  note size = SerializeToArrayD [OF s]
  have n: "oa_Next wr s0 = Some (Some 8192, ?a)"
    by (simp add: s0_def CopyingOutputStreamAdaptor_def oa_Next_def oa_AllocateBufferIfNeeded_def)
  have c: "cw_create ?zo s0 = Some ?c"
    using n by (simp add: cw_create_def cw_Refresh_def adaptor_output_def)
  define mem where "mem = (if bytes = [] then ?mem else overwrite 0 bytes ?mem)"
  let ?a2 = "?a\<lparr> oa_memory := Some mem \<rparr>"
  let ?c2 = "?c\<lparr> cw_output := ?a2, cw_buffer := Some (length bytes), cw_size := 8192 - int (length bytes) \<rparr>"
  have "SerializePartialToCodedStream ?zo vt ser ?c m = Some (True, ?c2, m')"
    using size len
    by (simp add: SerializePartialToCodedStream_def cw_GetDirectBufferForNBytesAndAdvance_def
        cw_Advance_def Let_def adaptor_output_def oa_store_def mem_def)
  moreover have "cw_destroy ?zo ?c2 = Some (s0\<lparr> oa_memory := Some mem, oa_given := 0, oa_used := int (length bytes) \<rparr>)"
  proof (cases "length bytes = 8192")
    case True
    then show ?thesis by (simp add: cw_destroy_def)
  next
    case False
    then show ?thesis using len
      by (simp add: cw_destroy_def adaptor_output_def oa_BackUp_def s0_def CopyingOutputStreamAdaptor_def)
  qed
  moreover have "length mem = 8192" using len by (simp add: mem_def overwrite_def)
  ultimately show ?thesis using c
    by (intro exI [of _ mem]) (simp add: SerializeToZeroCopyStream_def SerializeToCodedStream_def)
qed

text \<open>A descriptor on which every write fails: a message that fits the buffer is reported as
  written.\<close>

theorem broken_descriptor_is_not_noticed:
  assumes broken: "\<And>data. sys_write sys data f = (Wr_error e, f)" and e: "e \<noteq> 4"
    and s: "SerializeToArray vt n m = Inr (True, Some bytes, m')" and len: "length bytes \<le> 8192"
  shows "SerializeToFileDescriptor sys vt ser f m = Some (True, m', f)"
proof -
  let ?o = "\<lparr> fo_file = f, fo_closed = False, fo_errno = 0 \<rparr>"
  let ?s0 = "CopyingOutputStreamAdaptor ?o (-1)"
  from message_in_buffer [OF s len, of "fo_Write sys" ser ?o] obtain mem where
    mem: "length mem = 8192" "SerializeToZeroCopyStream (adaptor_output (fo_Write sys)) vt ser ?s0 m =
      Some (True, m', ?s0\<lparr> oa_memory := Some mem, oa_given := 0, oa_used := int (length bytes) \<rparr>)" by blast
  let ?a = "?s0\<lparr> oa_memory := Some mem, oa_given := 0, oa_used := int (length bytes) \<rparr>"
  have retry: "fo_write_retry sys data f = Some (Wr_error e, f)" for data
    using broken e by (subst fo_write_retry.simps) simp
  have wr: "fo_Write sys data ?o = Some (False, ?o\<lparr> fo_errno := e \<rparr>)" if "data \<noteq> []" for data
    unfolding fo_Write_def using retry that by (subst fo_Write_loop.simps) simp
  have "FileOutputStream_destroy sys ?a = Some f"
  proof (cases "bytes = []")
    case True
    then show ?thesis
      by (simp add: FileOutputStream_destroy_def oa_Flush_def oa_destroy_def oa_WriteBuffer_def
          CopyingOutputStreamAdaptor_def)
  next
    case False
    have "oa_buffered ?a \<noteq> []" using mem(1) False by (auto simp: oa_buffered_def)
    from wr [OF this] have "fo_Write sys (oa_buffered ?a) (oa_sink ?a) = Some (False, ?o\<lparr> fo_errno := e \<rparr>)"
      by (simp add: CopyingOutputStreamAdaptor_def)
    from failing_write [of "fo_Write sys", OF this] False
    have "oa_WriteBuffer (fo_Write sys) ?a = Some (False, ?a\<lparr> oa_sink := ?o\<lparr> fo_errno := e \<rparr>,
        oa_failed := True, oa_used := 0, oa_memory := None \<rparr>)"
      by (simp add: CopyingOutputStreamAdaptor_def)
    then show ?thesis
      by (simp add: FileOutputStream_destroy_def oa_Flush_def destroy_after_error)
  qed
  then show ?thesis using mem(2) by (simp add: SerializeToFileDescriptor_def FileOutputStream_def)
qed

text \<open>The same for the next message on an adaptor whose sink has failed: nothing of it is written.\<close>

theorem error_is_forgotten:
  assumes "oa_failed a" and "oa_used a = 0" and "oa_size a = 8192"
  shows "\<exists>a'. oa_Next wr a = Some (Some 8192, a') \<and> oa_destroy wr a' = Some (oa_sink a)"
  using Next_after_error [of a wr] destroy_after_error [of _ wr] assms by fastforce

section \<open>Closing\<close>

text \<open>\<open>SetCloseOnDelete\<close> is an argument. The members of a stream are destroyed in reverse order, so an
  adaptor writes what it holds before the descriptor below it is closed. \<open>sys_close\<close> is the call of either
  side.\<close>

definition fi_Close :: "'f write_calls \<Rightarrow> 'f file_input \<Rightarrow> (bool \<times> 'f file_input) option" where
  "fi_Close sys i =
     (if fi_closed i then None
      else do {
        (r, f) \<leftarrow> close_no_eintr sys (fi_file i);
        Some (case r of
            None \<Rightarrow> (True, i\<lparr> fi_closed := True, fi_file := f \<rparr>)
          | Some e \<Rightarrow> (False, i\<lparr> fi_closed := True, fi_file := f, fi_errno := e \<rparr>))
      })"

definition FileInputStream_Close ::
    "'f write_calls \<Rightarrow> 'f file_input adaptor \<Rightarrow> (bool \<times> 'f file_input adaptor) option" where
  "FileInputStream_Close sys a = do {
     (ok, i) \<leftarrow> fi_Close sys (ad_source a);
     Some (ok, a\<lparr> ad_source := i \<rparr>)
   }"

definition fi_destroy :: "'f write_calls \<Rightarrow> bool \<Rightarrow> 'f file_input \<Rightarrow> 'f option" where
  "fi_destroy sys close_on_delete i =
     (if close_on_delete then do { (ok, i') \<leftarrow> fi_Close sys i; Some (fi_file i') }
      else Some (fi_file i))"

definition FileInputStream_destroy :: "'f write_calls \<Rightarrow> bool \<Rightarrow> 'f file_input adaptor \<Rightarrow> 'f option" where
  "FileInputStream_destroy sys close_on_delete a = fi_destroy sys close_on_delete (ad_source a)"

definition fo_destroy :: "'f write_calls \<Rightarrow> bool \<Rightarrow> 'f file_output \<Rightarrow> 'f option" where
  "fo_destroy sys close_on_delete o' =
     (if close_on_delete then do { (ok, o'') \<leftarrow> fo_Close sys o'; Some (fo_file o'') }
      else Some (fo_file o'))"

definition FileOutputStream_destroy_close ::
    "'f write_calls \<Rightarrow> bool \<Rightarrow> 'f file_output out_adaptor \<Rightarrow> 'f option" where
  "FileOutputStream_destroy_close sys close_on_delete a = do {
     (ok, a1) \<leftarrow> oa_Flush (fo_Write sys) a;
     o' \<leftarrow> oa_destroy (fo_Write sys) a1;
     fo_destroy sys close_on_delete o'
   }"

lemma destroy_keeps_open: "FileOutputStream_destroy_close sys False a = FileOutputStream_destroy sys a"
  by (simp add: FileOutputStream_destroy_close_def FileOutputStream_destroy_def fo_destroy_def)

text \<open>A descriptor whose \<open>close\<close> is interrupted finitely often is closed, and the error is kept.\<close>

lemma Close_closes:
  assumes "close_no_eintr sys (fi_file i) = Some (r, f)" and "\<not> fi_closed i"
  shows "\<exists>i'. fi_Close sys i = Some (r = None, i') \<and> fi_closed i' \<and> fi_file i' = f \<and>
    (\<forall>e. r = Some e \<longrightarrow> fi_errno i' = e)"
  using assms by (cases r) (auto simp: fi_Close_def)

text \<open>A stream that was closed by hand and is to close on deletion aborts in its destructor, in the
  check of \<open>Close\<close>; so do all other operations on it.\<close>

theorem closed_twice_aborts:
  assumes "FileInputStream_Close sys a = Some (ok, a')"
  shows "FileInputStream_destroy sys True a' = None" "FileInputStream_Close sys a' = None"
    "fi_Read calls n (ad_source a') = None" "fi_Skip calls n (ad_source a') = None"
proof -
  have "fi_closed (ad_source a')"
    using assms by (auto simp: FileInputStream_Close_def fi_Close_def bind_eq_Some_conv split: if_splits option.splits)
  then show "FileInputStream_destroy sys True a' = None" "FileInputStream_Close sys a' = None"
    "fi_Read calls n (ad_source a') = None" "fi_Skip calls n (ad_source a') = None"
    by (simp_all add: FileInputStream_destroy_def fi_destroy_def FileInputStream_Close_def fi_Close_def
        fi_Read_def fi_Skip_def)
qed

end
