(* ===== verification/GF_UnknownFields.thy ===== *)
theory GF_UnknownFields
  imports GF_WireFormat
begin

text \<open>
  \<open>UnknownFieldSet\<close> with its memory (\<open>src/include/google/protobuf/unknown_field_set.cc\<close>, \<open>.h\<close>). A
  field is a union that may hold a pointer to a string or to another set, and vectors of fields are
  copied by value; so \<open>AddField\<close> must copy what the pointer leads to, and what deletes fields must free it
  once. The other theories see a set as the list of its fields: here it is shown that the operations
  on the heap are those on lists, that copies share nothing, and that nothing leaks or is freed twice.

  Addresses are numbers that are not used again; the model of a function carries a fuel, and \<open>Spin\<close> is
  the fuel running out.
\<close>

section \<open>The heap\<close>

type_synonym addr = nat

text \<open>\<open>UnknownField\<close>: number, type and union. The \<open>field list option\<close> of a set is its member
  \<open>fields_\<close>, \<open>NULL\<close> or a vector.\<close>

datatype raw_field =
    Raw_varint u32 u64
  | Raw_fixed32 u32 u32
  | Raw_fixed64 u32 u64
  | Raw_length_delimited u32 addr
  | Raw_group u32 addr

fun raw_number :: "raw_field \<Rightarrow> u32" where
  "raw_number (Raw_varint k _) = k"
| "raw_number (Raw_fixed32 k _) = k"
| "raw_number (Raw_fixed64 k _) = k"
| "raw_number (Raw_length_delimited k _) = k"
| "raw_number (Raw_group k _) = k"

record uf_heap =
  uh_strings :: "addr \<Rightarrow> byte list option"
  uh_sets :: "addr \<Rightarrow> raw_field list option option"
  uh_next :: addr

abbreviation gone :: "addr \<Rightarrow> 'a res" where
  "gone a \<equiv> Inl (Dangling (of_nat a))"

definition new_string :: "byte list \<Rightarrow> uf_heap \<Rightarrow> addr \<times> uf_heap" where
  "new_string s h =
     (uh_next h, h\<lparr> uh_strings := (uh_strings h)(uh_next h := Some s), uh_next := Suc (uh_next h) \<rparr>)"

definition new_set :: "uf_heap \<Rightarrow> addr \<times> uf_heap" where
  "new_set h =
     (uh_next h, h\<lparr> uh_sets := (uh_sets h)(uh_next h := Some None), uh_next := Suc (uh_next h) \<rparr>)"

definition set_fields :: "addr \<Rightarrow> raw_field list option \<Rightarrow> uf_heap \<Rightarrow> uf_heap" where
  "set_fields p fs h = h\<lparr> uh_sets := (uh_sets h)(p := Some fs) \<rparr>"

section \<open>Adding and copying\<close>

definition field_count :: "addr \<Rightarrow> uf_heap \<Rightarrow> nat res" where
  "field_count p h =
     (case uh_sets h p of
        None \<Rightarrow> gone p
      | Some None \<Rightarrow> Inr 0
      | Some (Some fs) \<Rightarrow> Inr (length fs))"

definition uf_field :: "addr \<Rightarrow> nat \<Rightarrow> uf_heap \<Rightarrow> raw_field res" where
  "uf_field p index h =
     (case uh_sets h p of
        None \<Rightarrow> gone p
      | Some None \<Rightarrow> Inl Null_deref
      | Some (Some fs) \<Rightarrow> if index < length fs then Inr (fs ! index) else Inl Overrun)"

text \<open>\<open>if (fields_ == NULL) fields_ = new vector; fields_->push_back(field)\<close>.\<close>

definition push_field :: "raw_field \<Rightarrow> addr \<Rightarrow> uf_heap \<Rightarrow> uf_heap res" where
  "push_field f p h =
     (case uh_sets h p of
        None \<Rightarrow> gone p
      | Some None \<Rightarrow> Inr (set_fields p (Some [f]) h)
      | Some (Some fs) \<Rightarrow> Inr (set_fields p (Some (fs @ [f])) h))"

text \<open>A store through \<open>&(*fields_)[index]\<close>.\<close>

definition put_field :: "addr \<Rightarrow> nat \<Rightarrow> raw_field \<Rightarrow> uf_heap \<Rightarrow> uf_heap res" where
  "put_field p index f h =
     (case uh_sets h p of
        None \<Rightarrow> gone p
      | Some None \<Rightarrow> Inl Null_deref
      | Some (Some fs) \<Rightarrow>
          if index < length fs then Inr (set_fields p (Some (fs[index := f])) h) else Inl Overrun)"

definition AddVarint :: "u32 \<Rightarrow> u64 \<Rightarrow> addr \<Rightarrow> uf_heap \<Rightarrow> uf_heap res" where
  "AddVarint number value p h = push_field (Raw_varint number value) p h"

definition AddFixed32 :: "u32 \<Rightarrow> u32 \<Rightarrow> addr \<Rightarrow> uf_heap \<Rightarrow> uf_heap res" where
  "AddFixed32 number value p h = push_field (Raw_fixed32 number value) p h"

definition AddFixed64 :: "u32 \<Rightarrow> u64 \<Rightarrow> addr \<Rightarrow> uf_heap \<Rightarrow> uf_heap res" where
  "AddFixed64 number value p h = push_field (Raw_fixed64 number value) p h"

definition AddLengthDelimited :: "u32 \<Rightarrow> addr \<Rightarrow> uf_heap \<Rightarrow> (addr \<times> uf_heap) res" where
  "AddLengthDelimited number p h =
     (case new_string [] h of (a, h1) \<Rightarrow>
        bind_res (push_field (Raw_length_delimited number a) p h1) (\<lambda>h2. Inr (a, h2)))"

definition string_assign :: "addr \<Rightarrow> byte list \<Rightarrow> uf_heap \<Rightarrow> uf_heap res" where
  "string_assign a s h =
     (if uh_strings h a = None then gone a
      else Inr (h\<lparr> uh_strings := (uh_strings h)(a := Some s) \<rparr>))"

text \<open>The overload with a value.\<close>

definition AddLengthDelimited_value :: "u32 \<Rightarrow> byte list \<Rightarrow> addr \<Rightarrow> uf_heap \<Rightarrow> uf_heap res" where
  "AddLengthDelimited_value number value p h =
     bind_res (AddLengthDelimited number p h) (\<lambda>(a, h1). string_assign a value h1)"

definition AddGroup :: "u32 \<Rightarrow> addr \<Rightarrow> uf_heap \<Rightarrow> (addr \<times> uf_heap) res" where
  "AddGroup number p h =
     (case new_set h of (a, h1) \<Rightarrow>
        bind_res (push_field (Raw_group number a) p h1) (\<lambda>h2. Inr (a, h2)))"

text \<open>\<open>DeepCopy\<close> gives the field with its own copy of what it points to.\<close>

fun DeepCopy :: "nat \<Rightarrow> raw_field \<Rightarrow> uf_heap \<Rightarrow> (raw_field \<times> uf_heap) res"
and AddField :: "nat \<Rightarrow> raw_field \<Rightarrow> addr \<Rightarrow> uf_heap \<Rightarrow> uf_heap res"
and ufs_MergeFrom_loop :: "nat \<Rightarrow> nat \<Rightarrow> addr \<Rightarrow> addr \<Rightarrow> uf_heap \<Rightarrow> uf_heap res"
where
  "DeepCopy 0 f h = Inl Spin"
| "DeepCopy (Suc n) f h =
     (case f of
        Raw_length_delimited number a \<Rightarrow>
          (case uh_strings h a of
             None \<Rightarrow> gone a
           | Some s \<Rightarrow> (case new_string s h of (b, h1) \<Rightarrow> Inr (Raw_length_delimited number b, h1)))
      | Raw_group number a \<Rightarrow>
          (case new_set h of (b, h1) \<Rightarrow>
             bind_res (ufs_MergeFrom_loop n 0 a b h1) (\<lambda>h2. Inr (Raw_group number b, h2)))
      | _ \<Rightarrow> Inr (f, h))"
| "AddField 0 f p h = Inl Spin"
| "AddField (Suc n) f p h =
     bind_res (push_field f p h) (\<lambda>h1.
     bind_res (field_count p h1) (\<lambda>count.
     bind_res (DeepCopy n f h1) (\<lambda>(f', h2). put_field p (count - 1) f' h2)))"
| "ufs_MergeFrom_loop 0 i other p h = Inl Spin"
| "ufs_MergeFrom_loop (Suc n) i other p h =
     bind_res (field_count other h) (\<lambda>count.
       if i < count
       then bind_res (uf_field other i h) (\<lambda>f.
            bind_res (AddField n f p h) (ufs_MergeFrom_loop n (Suc i) other p))
       else Inr h)"

definition ufs_MergeFrom :: "nat \<Rightarrow> addr \<Rightarrow> addr \<Rightarrow> uf_heap \<Rightarrow> uf_heap res" where
  "ufs_MergeFrom n other p h = ufs_MergeFrom_loop n 0 other p h"

section \<open>Deleting\<close>

fun uf_Delete :: "nat \<Rightarrow> raw_field \<Rightarrow> uf_heap \<Rightarrow> uf_heap res"
and ufs_destroy :: "nat \<Rightarrow> addr \<Rightarrow> uf_heap \<Rightarrow> uf_heap res"
and ufs_Clear :: "nat \<Rightarrow> addr \<Rightarrow> uf_heap \<Rightarrow> uf_heap res"
and ufs_ClearFallback_loop :: "nat \<Rightarrow> nat \<Rightarrow> addr \<Rightarrow> uf_heap \<Rightarrow> uf_heap res"
where
  "uf_Delete 0 f h = Inl Spin"
| "uf_Delete (Suc n) f h =
     (case f of
        Raw_length_delimited number a \<Rightarrow>
          if uh_strings h a = None then gone a
          else Inr (h\<lparr> uh_strings := (uh_strings h)(a := None) \<rparr>)
      | Raw_group number a \<Rightarrow> ufs_destroy n a h
      | _ \<Rightarrow> Inr h)"
| "ufs_destroy 0 p h = Inl Spin"
| "ufs_destroy (Suc n) p h =
     bind_res (ufs_Clear n p h) (\<lambda>h1. Inr (h1\<lparr> uh_sets := (uh_sets h1)(p := None) \<rparr>))"
| "ufs_Clear 0 p h = Inl Spin"
| "ufs_Clear (Suc n) p h =
     (case uh_sets h p of
        None \<Rightarrow> gone p
      | Some None \<Rightarrow> Inr h
      | Some (Some fs) \<Rightarrow>
          bind_res (ufs_ClearFallback_loop n 0 p h) (\<lambda>h1. Inr (set_fields p (Some []) h1)))"
| "ufs_ClearFallback_loop 0 i p h = Inl Spin"
| "ufs_ClearFallback_loop (Suc n) i p h =
     bind_res (field_count p h) (\<lambda>count.
       if i < count
       then bind_res (uf_field p i h) (\<lambda>f.
            bind_res (uf_Delete n f h) (ufs_ClearFallback_loop n (Suc i) p))
       else Inr h)"

definition ufs_ClearAndFreeMemory :: "nat \<Rightarrow> addr \<Rightarrow> uf_heap \<Rightarrow> uf_heap res" where
  "ufs_ClearAndFreeMemory n p h =
     (case uh_sets h p of
        None \<Rightarrow> gone p
      | Some None \<Rightarrow> Inr h
      | Some (Some fs) \<Rightarrow> bind_res (ufs_Clear n p h) (\<lambda>h1. Inr (set_fields p None h1)))"

definition ufs_Swap :: "addr \<Rightarrow> addr \<Rightarrow> uf_heap \<Rightarrow> uf_heap res" where
  "ufs_Swap p q h =
     (case (uh_sets h p, uh_sets h q) of
        (Some fs, Some gs) \<Rightarrow> Inr (set_fields q fs (set_fields p gs h))
      | (None, _) \<Rightarrow> gone p
      | (Some _, None) \<Rightarrow> gone q)"

text \<open>\<open>DeleteSubrange\<close>: \<open>start\<close> and \<open>num\<close> are not negative, as its comment asks.\<close>

fun DeleteSubrange_delete :: "nat \<Rightarrow> nat \<Rightarrow> nat \<Rightarrow> nat \<Rightarrow> addr \<Rightarrow> uf_heap \<Rightarrow> uf_heap res" where
  "DeleteSubrange_delete 0 i start num p h = Inl Spin"
| "DeleteSubrange_delete (Suc n) i start num p h =
     (if i < num
      then bind_res (uf_field p (i + start) h) (\<lambda>f.
           bind_res (uf_Delete n f h) (DeleteSubrange_delete n (Suc i) start num p))
      else Inr h)"

function slide_down :: "nat \<Rightarrow> nat \<Rightarrow> 'a list \<Rightarrow> 'a list" where
  "slide_down i num fs =
     (if i < length fs then slide_down (Suc i) num (fs[i - num := fs ! i]) else fs)"
  by auto
termination by (relation "measure (\<lambda>(i, num, fs). length fs - i)") auto

declare slide_down.simps [simp del]

definition DeleteSubrange :: "nat \<Rightarrow> nat \<Rightarrow> nat \<Rightarrow> addr \<Rightarrow> uf_heap \<Rightarrow> uf_heap res" where
  "DeleteSubrange n start num p h =
     (case uh_sets h p of
        None \<Rightarrow> gone p
      | Some None \<Rightarrow> Inl Null_deref
      | Some (Some _) \<Rightarrow>
          bind_res (DeleteSubrange_delete n 0 start num p h) (\<lambda>h1.
            case uh_sets h1 p of
              Some (Some fs) \<Rightarrow>
                Inr (set_fields p (Some ((butlast ^^ num) (slide_down (start + num) num fs))) h1)
            | _ \<Rightarrow> gone p))"

text \<open>\<open>DeleteByNumber\<close>: the fields left are moved down as the loop goes, then the vector is cut.\<close>

fun DeleteByNumber_loop :: "nat \<Rightarrow> u32 \<Rightarrow> addr \<Rightarrow> nat \<Rightarrow> nat \<Rightarrow> uf_heap \<Rightarrow> (nat \<times> uf_heap) res" where
  "DeleteByNumber_loop 0 number p i left h = Inl Spin"
| "DeleteByNumber_loop (Suc n) number p i left h =
     bind_res (field_count p h) (\<lambda>count.
       if i < count
       then bind_res (uf_field p i h) (\<lambda>f.
         if raw_number f = number
         then bind_res (uf_Delete n f h) (DeleteByNumber_loop n number p (Suc i) left)
         else bind_res (if i \<noteq> left then put_field p left f h else Inr h)
                (DeleteByNumber_loop n number p (Suc i) (Suc left)))
       else Inr (left, h))"

definition DeleteByNumber :: "nat \<Rightarrow> u32 \<Rightarrow> addr \<Rightarrow> uf_heap \<Rightarrow> uf_heap res" where
  "DeleteByNumber n number p h =
     (case uh_sets h p of
        None \<Rightarrow> gone p
      | Some None \<Rightarrow> Inr h
      | Some (Some _) \<Rightarrow>
          bind_res (DeleteByNumber_loop n number p 0 0 h) (\<lambda>(left, h1).
            case uh_sets h1 p of
              Some (Some fs) \<Rightarrow> Inr (set_fields p (Some (take left fs)) h1)
            | _ \<Rightarrow> gone p))"

section \<open>What a heap holds\<close>

text \<open>\<open>field_holds h u f\<close>: \<open>f\<close> is the field \<open>u\<close>; \<open>field_owns\<close> are the objects it owns then.\<close>

fun vector :: "raw_field list option option \<Rightarrow> raw_field list" where
  "vector (Some (Some fs)) = fs"
| "vector _ = []"

fun field_holds :: "uf_heap \<Rightarrow> unknown_field \<Rightarrow> raw_field \<Rightarrow> bool"
and fields_hold :: "uf_heap \<Rightarrow> UnknownFieldSet \<Rightarrow> raw_field list \<Rightarrow> bool"
where
  "field_holds h (UF_varint k v) f \<longleftrightarrow> f = Raw_varint k v"
| "field_holds h (UF_fixed32 k v) f \<longleftrightarrow> f = Raw_fixed32 k v"
| "field_holds h (UF_fixed64 k v) f \<longleftrightarrow> f = Raw_fixed64 k v"
| "field_holds h (UF_length_delimited k s) f \<longleftrightarrow>
     (case f of Raw_length_delimited k' a \<Rightarrow> k' = k \<and> uh_strings h a = Some s | _ \<Rightarrow> False)"
| "field_holds h (UF_group k us) f \<longleftrightarrow>
     (case f of
        Raw_group k' a \<Rightarrow> k' = k \<and> uh_sets h a \<noteq> None \<and> fields_hold h us (vector (uh_sets h a))
      | _ \<Rightarrow> False)"
| "fields_hold h [] fs \<longleftrightarrow> fs = []"
| "fields_hold h (u # us) fs \<longleftrightarrow>
     (case fs of [] \<Rightarrow> False | f # gs \<Rightarrow> field_holds h u f \<and> fields_hold h us gs)"

fun field_owns :: "uf_heap \<Rightarrow> unknown_field \<Rightarrow> raw_field \<Rightarrow> addr list"
and fields_own :: "uf_heap \<Rightarrow> UnknownFieldSet \<Rightarrow> raw_field list \<Rightarrow> addr list"
where
  "field_owns h (UF_length_delimited k s) f =
     (case f of Raw_length_delimited k' a \<Rightarrow> [a] | _ \<Rightarrow> [])"
| "field_owns h (UF_group k us) f =
     (case f of Raw_group k' a \<Rightarrow> a # fields_own h us (vector (uh_sets h a)) | _ \<Rightarrow> [])"
| "field_owns h u f = []"
| "fields_own h [] fs = []"
| "fields_own h (u # us) fs =
     (case fs of [] \<Rightarrow> [] | f # gs \<Rightarrow> field_owns h u f @ fields_own h us gs)"

definition set_owns :: "uf_heap \<Rightarrow> UnknownFieldSet \<Rightarrow> addr \<Rightarrow> addr list" where
  "set_owns h us p = p # fields_own h us (vector (uh_sets h p))"

text \<open>The object at \<open>p\<close> is the set \<open>us\<close>, and owns everything it reaches once.\<close>

definition set_holds :: "uf_heap \<Rightarrow> UnknownFieldSet \<Rightarrow> addr \<Rightarrow> bool" where
  "set_holds h us p \<longleftrightarrow>
     uh_sets h p \<noteq> None \<and> fields_hold h us (vector (uh_sets h p)) \<and> distinct (set_owns h us p)"

definition in_use :: "uf_heap \<Rightarrow> addr set" where
  "in_use h = dom (uh_strings h) \<union> dom (uh_sets h)"

definition heap_ok :: "uf_heap \<Rightarrow> bool" where
  "heap_ok h \<longleftrightarrow> in_use h \<subseteq> {..<uh_next h} \<and> dom (uh_strings h) \<inter> dom (uh_sets h) = {}"

lemma heap_ok_iff:
  "heap_ok h \<longleftrightarrow> (\<forall>a. (uh_strings h a \<noteq> None \<or> uh_sets h a \<noteq> None \<longrightarrow> a < uh_next h) \<and>
     (uh_strings h a = None \<or> uh_sets h a = None))"
  by (auto simp: heap_ok_def in_use_def dom_def)

definition alike :: "addr set \<Rightarrow> uf_heap \<Rightarrow> uf_heap \<Rightarrow> bool" where
  "alike A h h' \<longleftrightarrow>
     (\<forall>a \<in> A. uh_strings h' a = uh_strings h a \<and> uh_sets h' a = uh_sets h a)"

lemma alike_subset: "alike A h h' \<Longrightarrow> B \<subseteq> A \<Longrightarrow> alike B h h'"
  by (auto simp: alike_def)

lemma alike_trans: "alike A h h' \<Longrightarrow> alike A h' h'' \<Longrightarrow> alike A h h''"
  by (auto simp: alike_def)

lemma holds_alike:
  "field_holds h u f \<Longrightarrow> alike (set (field_owns h u f)) h h' \<Longrightarrow>
     field_holds h' u f \<and> field_owns h' u f = field_owns h u f"
  "fields_hold h us fs \<Longrightarrow> alike (set (fields_own h us fs)) h h' \<Longrightarrow>
     fields_hold h' us fs \<and> fields_own h' us fs = fields_own h us fs"
proof (induction h u f and h us fs rule: field_holds_fields_hold.induct)
  case (5 h k us f)
  then show ?case by (auto simp: alike_def split: raw_field.splits)
next
  case (7 h u us fs)
  then show ?case by (cases fs) (auto simp: alike_def)
qed (auto simp: alike_def split: raw_field.splits)

lemma holds_used:
  "field_holds h u f \<Longrightarrow> set (field_owns h u f) \<subseteq> in_use h"
  "fields_hold h us fs \<Longrightarrow> set (fields_own h us fs) \<subseteq> in_use h"
proof (induction h u f and h us fs rule: field_holds_fields_hold.induct)
  case (7 h u us fs)
  then show ?case by (cases fs) auto
qed (auto simp: in_use_def split: raw_field.splits)

lemma hold_length: "fields_hold h us fs \<Longrightarrow> length fs = length us"
  by (induction us arbitrary: fs) (auto split: list.splits)

lemma hold_append:
  "fields_hold h (us @ vs) fs \<longleftrightarrow>
     fields_hold h us (take (length us) fs) \<and> fields_hold h vs (drop (length us) fs) \<and> length us \<le> length fs"
  by (induction us arbitrary: fs) (auto split: list.splits)

lemma own_none [simp]: "fields_own h us [] = []"
  by (cases us) auto

lemma own_append:
  "fields_own h (us @ vs) fs =
     fields_own h us (take (length us) fs) @ fields_own h vs (drop (length us) fs)"
  by (induction us arbitrary: fs) (auto split: list.splits)

lemma hold_snoc:
  assumes "fields_hold h us fs"
  shows "fields_hold h (us @ [u]) (fs @ [f]) \<longleftrightarrow> field_holds h u f"
    and "fields_own h (us @ [u]) (fs @ [f]) = fields_own h us fs @ field_owns h u f"
  using assms hold_length [OF assms] by (simp_all add: hold_append own_append)

lemma in_use_below: "heap_ok h \<Longrightarrow> a \<in> in_use h \<Longrightarrow> a < uh_next h"
  by (auto simp: heap_ok_def)

lemma set_holdsD:
  "set_holds h us p \<Longrightarrow> uh_sets h p \<noteq> None"
  "set_holds h us p \<Longrightarrow> fields_hold h us (vector (uh_sets h p))"
  "set_holds h us p \<Longrightarrow> distinct (fields_own h us (vector (uh_sets h p)))"
  "set_holds h us p \<Longrightarrow> p \<notin> set (fields_own h us (vector (uh_sets h p)))"
  by (auto simp: set_holds_def set_owns_def)

lemma set_holds_alike:
  "set_holds h us p \<Longrightarrow> alike (set (set_owns h us p)) h h' \<Longrightarrow>
     set_holds h' us p \<and> set_owns h' us p = set_owns h us p"
  using holds_alike(2) [of h us "vector (uh_sets h p)" h']
  by (auto simp: set_holds_def set_owns_def alike_def)

lemma set_holds_used: "set_holds h us p \<Longrightarrow> set (set_owns h us p) \<subseteq> in_use h"
  using holds_used(2) [of h us "vector (uh_sets h p)"]
  by (auto simp: set_holds_def set_owns_def in_use_def)

section \<open>Deleting frees what was owned, once\<close>

text \<open>The calls and rounds a field and a set of fields take.\<close>

fun uf_steps :: "unknown_field \<Rightarrow> nat"
and ufs_steps :: "UnknownFieldSet \<Rightarrow> nat"
where
  "uf_steps (UF_group k us) = 4 + ufs_steps us"
| "uf_steps u = 1"
| "ufs_steps [] = 1"
| "ufs_steps (u # us) = 2 + uf_steps u + ufs_steps us"

definition uf_free :: "addr set \<Rightarrow> uf_heap \<Rightarrow> uf_heap" where
  "uf_free A h = h\<lparr> uh_strings := uh_strings h |` (- A), uh_sets := uh_sets h |` (- A) \<rparr>"

lemma uf_free_simps [simp]:
  "uh_strings (uf_free A h) = uh_strings h |` (- A)" "uh_sets (uf_free A h) = uh_sets h |` (- A)"
  "uh_next (uf_free A h) = uh_next h"
  by (simp_all add: uf_free_def)

lemma uf_free_free: "uf_free B (uf_free A h) = uf_free (A \<union> B) h"
  by (rule uf_heap.equality) (auto simp: restrict_map_def fun_eq_iff)

lemma uf_free_none [simp]: "uf_free {} h = h"
  by (rule uf_heap.equality) (auto simp: restrict_map_def)

lemma in_use_free [simp]: "in_use (uf_free A h) = in_use h - A"
  by (auto simp: in_use_def restrict_map_def split: if_splits)

lemma heap_ok_free: "heap_ok h \<Longrightarrow> heap_ok (uf_free A h)"
  by (simp add: heap_ok_iff restrict_map_def)

lemma alike_free: "A \<inter> B = {} \<Longrightarrow> alike A h (uf_free B h)"
  by (auto simp: alike_def restrict_map_def)

lemma free_string:
  "heap_ok h \<Longrightarrow> uh_strings h a \<noteq> None \<Longrightarrow> h\<lparr> uh_strings := (uh_strings h)(a := None) \<rparr> = uf_free {a} h"
  by (rule uf_heap.equality)
    (auto simp: heap_ok_def restrict_map_def fun_eq_iff dom_def disjoint_iff)

lemma set_fields_simps [simp]:
  "uh_strings (set_fields p fs h) = uh_strings h" "uh_sets (set_fields p fs h) = (uh_sets h)(p := Some fs)"
  "uh_next (set_fields p fs h) = uh_next h"
  by (simp_all add: set_fields_def)

lemma field_count_vector: "uh_sets h p \<noteq> None \<Longrightarrow> field_count p h = Inr (length (vector (uh_sets h p)))"
  by (auto simp: field_count_def split: option.splits)

lemma uf_field_vector:
  "i < length (vector (uh_sets h p)) \<Longrightarrow> uf_field p i h = Inr (vector (uh_sets h p) ! i)"
  by (cases "uh_sets h p" rule: vector.cases) (auto simp: uf_field_def)

lemma clear_frees:
  assumes "uh_sets h p = Some (Some fs)" and "uh_strings h p = None"
    and "ufs_ClearFallback_loop n 0 p h = Inr (uf_free A h)" and "p \<notin> A"
  shows "ufs_Clear (Suc n) p h = Inr (set_fields p (Some []) (uf_free A h))"
    and "ufs_destroy (Suc (Suc n)) p h = Inr (uf_free (insert p A) h)"
proof -
  show c: "ufs_Clear (Suc n) p h = Inr (set_fields p (Some []) (uf_free A h))"
    using assms by simp
  have "(set_fields p (Some []) (uf_free A h))\<lparr> uh_sets := (uh_sets h |` (- A))(p := None) \<rparr> =
    uf_free (insert p A) h"
    using assms(2,4) by (intro uf_heap.equality) (auto simp: restrict_map_def)
  with c show "ufs_destroy (Suc (Suc n)) p h = Inr (uf_free (insert p A) h)"
    by (simp del: ufs_Clear.simps)
qed

lemma destroy_null:
  assumes "uh_sets h p = Some None" and "uh_strings h p = None"
  shows "ufs_Clear (Suc n) p h = Inr h" "ufs_destroy (Suc (Suc n)) p h = Inr (uf_free {p} h)"
proof -
  show "ufs_Clear (Suc n) p h = Inr h" using assms by simp
  moreover have "h\<lparr> uh_sets := (uh_sets h)(p := None) \<rparr> = uf_free {p} h"
    using assms(2) by (intro uf_heap.equality) (auto simp: restrict_map_def)
  ultimately show "ufs_destroy (Suc (Suc n)) p h = Inr (uf_free {p} h)" by (simp del: ufs_Clear.simps)
qed

lemma Delete_frees:
  "field_holds h u f \<Longrightarrow> distinct (field_owns h u f) \<Longrightarrow> heap_ok h \<Longrightarrow> uf_steps u \<le> n \<Longrightarrow>
     uf_Delete n f h = Inr (uf_free (set (field_owns h u f)) h)"
  "uh_sets h p = Some (Some fs) \<Longrightarrow> i \<le> length fs \<Longrightarrow> fields_hold h us (drop i fs) \<Longrightarrow>
     distinct (fields_own h us (drop i fs)) \<Longrightarrow> p \<notin> set (fields_own h us (drop i fs)) \<Longrightarrow>
     heap_ok h \<Longrightarrow> ufs_steps us \<le> n \<Longrightarrow>
     ufs_ClearFallback_loop n i p h = Inr (uf_free (set (fields_own h us (drop i fs))) h)"
proof (induction u and us arbitrary: n f h and n i p fs h rule: uf_steps_ufs_steps.induct)
  case (1 k us)
  from "1.prems"(1) obtain a where f: "f = Raw_group k a" "uh_sets h a \<noteq> None"
      "fields_hold h us (vector (uh_sets h a))" by (auto split: raw_field.splits)
  from "1.prems"(4) have n: "n = Suc (Suc (Suc (n - 3)))" "ufs_steps us \<le> n - 3" by auto
  have s: "uh_strings h a = None" using f(2) "1.prems"(3) by (auto simp: heap_ok_iff)
  show ?case
  proof (cases "uh_sets h a" rule: vector.cases)
    case (1 fs)
    from "1.prems"(2) f have "distinct (fields_own h us fs)" "a \<notin> set (fields_own h us fs)" by (auto simp: 1)
    with "1.IH" [OF 1, of 0 "n - 3"] f n "1.prems"(3)
    have "ufs_ClearFallback_loop (n - 3) 0 a h = Inr (uf_free (set (fields_own h us fs)) h)" by (simp add: 1)
    from clear_frees(2) [OF 1 s this \<open>a \<notin> _\<close>] show ?thesis using f by (subst n) (simp add: 1)
  qed (use f destroy_null(2) [OF _ s, of "n - 3"] in \<open>(subst n, simp)+\<close>)
next
  case 3
  then show ?case by (cases n) (auto simp: field_count_vector)
next
  case (4 u us)
  from "4.prems"(3) obtain f gs where d: "drop i fs = f # gs" "field_holds h u f" "fields_hold h us gs"
    by (auto split: list.splits)
  then have i: "i < length fs" "f = fs ! i" "gs = drop (Suc i) fs"
    by (metis drop_eq_Nil leI list.distinct(1), metis nth_via_drop, metis drop_Suc nth_via_drop tl_drop list.sel(3))
  let ?A = "set (field_owns h u f)" and ?B = "set (fields_own h us gs)" and ?h = "uf_free (set (field_owns h u f)) h"
  from "4.prems"(4,5) d have D: "distinct (field_owns h u f)" "distinct (fields_own h us gs)" "?A \<inter> ?B = {}"
    "p \<notin> ?A" "p \<notin> ?B" by auto
  from "4.prems"(7) obtain m where n: "n = Suc m" "uf_steps u \<le> m" "ufs_steps us \<le> m" by (cases n) auto
  have del: "uf_Delete m f h = Inr ?h" by (rule "4.IH"(1) [OF d(2) D(1) "4.prems"(6) n(2)])
  have "alike ?B h ?h" using D(3) by (intro alike_free) auto
  from holds_alike(2) [OF d(3) this] have g: "fields_hold ?h us gs" "fields_own ?h us gs = fields_own h us gs"
    by auto
  have p: "uh_sets ?h p = Some (Some fs)" using "4.prems"(1) D(4) by (simp add: restrict_map_def)
  have "ufs_ClearFallback_loop m (Suc i) p ?h = Inr (uf_free (set (fields_own ?h us (drop (Suc i) fs))) ?h)"
    by (rule "4.IH"(2) [OF p]) (use i g D "4.prems"(6) n(3) in \<open>auto simp: heap_ok_free\<close>)
  with del i "4.prems"(1) d g show ?case
    by (simp add: n(1) field_count_vector uf_field_vector uf_free_free)
qed (auto split: raw_field.splits simp: free_string dest!: Suc_le_D)

section \<open>Copying shares nothing\<close>

text \<open>\<open>A\<close> was allocated; what was there is as before, except for the objects \<open>B\<close>.\<close>

definition grows :: "addr set \<Rightarrow> uf_heap \<Rightarrow> uf_heap \<Rightarrow> addr set \<Rightarrow> bool" where
  "grows B h h' A \<longleftrightarrow> heap_ok h' \<and> uh_next h \<le> uh_next h' \<and> A \<inter> {..<uh_next h} = {} \<and>
     alike ({..<uh_next h} - B) h h' \<and> in_use h' = in_use h \<union> A"

lemma grows_trans:
  assumes "grows B h h' A" and "grows B h' h'' A'"
  shows "grows B h h'' (A \<union> A')"
proof -
  have "alike ({..<uh_next h} - B) h' h''"
    by (rule alike_subset [of "{..<uh_next h'} - B"]) (use assms in \<open>auto simp: grows_def\<close>)
  with assms show ?thesis by (auto simp: grows_def intro: alike_trans)
qed

lemma grows_above: "grows B h h' A \<Longrightarrow> a \<in> A \<Longrightarrow> uh_next h \<le> a \<and> a < uh_next h'"
  by (auto simp: grows_def intro: in_use_below)

lemma grows_alike: "grows B h h' A \<Longrightarrow> heap_ok h \<Longrightarrow> C \<subseteq> in_use h \<Longrightarrow> C \<inter> B = {} \<Longrightarrow> alike C h h'"
  by (auto simp: grows_def heap_ok_def intro!: alike_subset [of "{..<uh_next h} - B" h h' C])

lemma new_string_grows:
  "heap_ok h \<Longrightarrow> new_string s h = (b, h') \<Longrightarrow> uh_strings h' b = Some s \<and> grows {} h h' {b}"
  by (fastforce simp: new_string_def grows_def heap_ok_def in_use_def alike_def)

lemma new_set_grows:
  "heap_ok h \<Longrightarrow> new_set h = (b, h') \<Longrightarrow>
     uh_sets h' b = Some None \<and> uh_strings h' b = None \<and> grows {} h h' {b}"
  by (fastforce simp: new_set_def grows_def heap_ok_def in_use_def alike_def)

lemma in_use_set_fields [simp]: "uh_sets h p \<noteq> None \<Longrightarrow> in_use (set_fields p fs h) = in_use h"
  by (auto simp: in_use_def)

lemma heap_ok_set_fields: "uh_sets h p \<noteq> None \<Longrightarrow> heap_ok h \<Longrightarrow> heap_ok (set_fields p fs h)"
  by (fastforce simp: heap_ok_iff)

lemma alike_set_fields: "p \<notin> A \<Longrightarrow> alike A h (set_fields p fs h)"
  by (auto simp: alike_def)

lemma push_field_vector:
  "uh_sets h p \<noteq> None \<Longrightarrow> push_field f p h = Inr (set_fields p (Some (vector (uh_sets h p) @ [f])) h)"
  by (auto simp: push_field_def split: option.splits)

lemma set_fields_grows:
  "uh_sets h p \<noteq> None \<Longrightarrow> heap_ok h \<Longrightarrow> grows {p} h (set_fields p fs h) {}"
  by (auto simp: grows_def heap_ok_set_fields alike_def)

lemma grows_set_fields:
  assumes "grows {} (set_fields p fs h) h' A" and "uh_sets h p \<noteq> None" and "heap_ok h"
  shows "grows {p} h (set_fields p gs h') A"
proof -
  have p: "p < uh_next h" using assms(2,3) by (auto simp: heap_ok_iff)
  have "uh_sets h' p = Some fs" using assms(1) p by (auto simp: grows_def alike_def)
  with assms p show ?thesis by (auto simp: grows_def heap_ok_set_fields alike_def)
qed

lemma AddField_copies:
  assumes h: "heap_ok h" "uh_sets h p \<noteq> None" "field_holds h u f" "p \<notin> set (field_owns h u f)"
    and copy: "\<And>h'. heap_ok h' \<Longrightarrow> field_holds h' u f \<Longrightarrow> \<exists>g h''. DeepCopy n f h' = Inr (g, h'') \<and>
      field_holds h'' u g \<and> distinct (field_owns h'' u g) \<and> grows {} h' h'' (set (field_owns h'' u g))"
  shows "\<exists>g h'. AddField (Suc n) f p h = Inr h' \<and> uh_sets h' p = Some (Some (vector (uh_sets h p) @ [g])) \<and>
    field_holds h' u g \<and> distinct (field_owns h' u g) \<and> grows {p} h h' (set (field_owns h' u g))"
proof -
  let ?v = "vector (uh_sets h p)" and ?h1 = "set_fields p (Some (vector (uh_sets h p) @ [f])) h"
  have p: "p < uh_next h" using h(1,2) by (auto simp: heap_ok_iff)
  have "field_holds ?h1 u f" using holds_alike(1) [OF h(3) alike_set_fields [OF h(4)]] by auto
  with copy [OF heap_ok_set_fields [OF h(2,1)]] obtain g h2 where c: "DeepCopy n f ?h1 = Inr (g, h2)"
    "field_holds h2 u g" "distinct (field_owns h2 u g)" "grows {} ?h1 h2 (set (field_owns h2 u g))" by blast
  have f: "uh_sets h2 p = Some (Some (?v @ [f]))" using c(4) p by (auto simp: grows_def alike_def)
  let ?h3 = "set_fields p (Some (?v @ [g])) h2"
  have n: "p \<notin> set (field_owns h2 u g)" using grows_above [OF c(4), of p] p by auto
  have g: "field_holds ?h3 u g" "field_owns ?h3 u g = field_owns h2 u g"
    using holds_alike(1) [OF c(2) alike_set_fields [OF n]] by auto
  have "AddField (Suc n) f p h = Inr ?h3"
    using c(1) f h(2) by (simp add: push_field_vector field_count_def put_field_def)
  with g c(3) grows_set_fields [OF c(4) h(2,1)] show ?thesis by auto
qed

lemma DeepCopy_copies:
  "heap_ok h \<Longrightarrow> field_holds h u f \<Longrightarrow> uf_steps u \<le> n \<Longrightarrow>
     \<exists>g h'. DeepCopy n f h = Inr (g, h') \<and> field_holds h' u g \<and> distinct (field_owns h' u g) \<and>
       grows {} h h' (set (field_owns h' u g))"
  "heap_ok h \<Longrightarrow> uh_sets h a \<noteq> None \<Longrightarrow> uh_sets h p \<noteq> None \<Longrightarrow> a \<noteq> p \<Longrightarrow>
     i \<le> length (vector (uh_sets h a)) \<Longrightarrow> fields_hold h us (drop i (vector (uh_sets h a))) \<Longrightarrow>
     p \<notin> set (fields_own h us (drop i (vector (uh_sets h a)))) \<Longrightarrow> ufs_steps us \<le> n \<Longrightarrow>
     \<exists>gs h'. ufs_MergeFrom_loop n i a p h = Inr h' \<and> uh_sets h' p \<noteq> None \<and>
       vector (uh_sets h' p) = vector (uh_sets h p) @ gs \<and> fields_hold h' us gs \<and>
       distinct (fields_own h' us gs) \<and> grows {p} h h' (set (fields_own h' us gs))"
proof (induction u and us arbitrary: n f h and n i a p h rule: uf_steps_ufs_steps.induct)
  case (1 k us)
  from "1.prems"(2) obtain a where f: "f = Raw_group k a" "uh_sets h a \<noteq> None"
      "fields_hold h us (vector (uh_sets h a))" by (auto split: raw_field.splits)
  from "1.prems"(3) have n: "n = Suc (n - 1)" "ufs_steps us \<le> n - 1" by auto
  obtain b h1 where b: "new_set h = (b, h1)" by force
  note g = new_set_grows [OF "1.prems"(1) b]
  have own: "set (fields_own h us (vector (uh_sets h a))) \<subseteq> in_use h" by (rule holds_used(2) [OF f(3)])
  have a: "a \<in> in_use h" using f(2) by (auto simp: in_use_def)
  have bn: "b \<notin> in_use h" using grows_above [of _ h h1 "{b}" b] g in_use_below [OF "1.prems"(1), of b] by auto
  have al: "alike (in_use h) h h1" by (rule grows_alike [OF conjunct2 [OF conjunct2 [OF g]] "1.prems"(1)]) auto
  from a al have as: "uh_sets h1 a = uh_sets h a" by (auto simp: alike_def)
  have src: "fields_hold h1 us (vector (uh_sets h a))" "fields_own h1 us (vector (uh_sets h a)) =
      fields_own h us (vector (uh_sets h a))"
    using holds_alike(2) [OF f(3) alike_subset [OF al own]] by auto
  have "\<exists>gs h'. ufs_MergeFrom_loop (n - 1) 0 a b h1 = Inr h' \<and> uh_sets h' b \<noteq> None \<and>
       vector (uh_sets h' b) = vector (uh_sets h1 b) @ gs \<and> fields_hold h' us gs \<and>
       distinct (fields_own h' us gs) \<and> grows {b} h1 h' (set (fields_own h' us gs))"
    by (rule "1.IH") (use g as f(2) a bn own src n(2) in \<open>auto simp: grows_def\<close>)
  then obtain gs h' where r: "ufs_MergeFrom_loop (n - 1) 0 a b h1 = Inr h'" "uh_sets h' b \<noteq> None"
    "vector (uh_sets h' b) = gs" "fields_hold h' us gs" "distinct (fields_own h' us gs)"
    "grows {b} h1 h' (set (fields_own h' us gs))" using g by auto
  have b1: "b < uh_next h1" using grows_above [of _ h h1 "{b}" b] g by auto
  have bd: "b \<notin> set (fields_own h' us gs)" using grows_above [OF r(6), of b] b1 by auto
  have "grows {} h h' (insert b (set (fields_own h' us gs)))"
  proof -
    have "alike {..<uh_next h} h1 h'"
      by (rule alike_subset [of "{..<uh_next h1} - {b}"])
        (use g r(6) grows_above [of _ h h1 "{b}" b] in \<open>auto simp: grows_def\<close>)
    with g r(6) show ?thesis by (auto simp: grows_def intro: alike_trans)
  qed
  with r bd have "field_holds h' (UF_group k us) (Raw_group k b)"
    "distinct (field_owns h' (UF_group k us) (Raw_group k b))"
    "grows {} h h' (set (field_owns h' (UF_group k us) (Raw_group k b)))" by auto
  moreover have "DeepCopy n f h = Inr (Raw_group k b, h')" by (subst n(1)) (simp add: f(1) b r(1) [simplified])
  ultimately show ?case by blast
next
  case 3
  then show ?case by (cases n) (auto simp: field_count_vector grows_def alike_def)
next
  case (4 u us)
  let ?v = "vector (uh_sets h a)"
  from "4.prems"(6) obtain f fs where d: "drop i ?v = f # fs" "field_holds h u f" "fields_hold h us fs"
    by (auto split: list.splits)
  then have i: "i < length ?v" "f = ?v ! i" "fs = drop (Suc i) ?v"
    by (metis drop_eq_Nil leI list.distinct(1), metis nth_via_drop, metis drop_Suc nth_via_drop tl_drop list.sel(3))
  from "4.prems"(8) obtain m where n: "n = Suc (Suc m)" "uf_steps u \<le> m" "ufs_steps us \<le> Suc m"
    by (cases n; cases "n - 1") auto
  from "4.prems"(7) d have pn: "p \<notin> set (field_owns h u f)" "p \<notin> set (fields_own h us fs)" by auto
  obtain g h1 where c: "AddField (Suc m) f p h = Inr h1" "uh_sets h1 p = Some (Some (vector (uh_sets h p) @ [g]))"
    "field_holds h1 u g" "distinct (field_owns h1 u g)" "grows {p} h h1 (set (field_owns h1 u g))"
    using AddField_copies [OF "4.prems"(1,3) d(2) pn(1) "4.IH"(1) [OF _ _ n(2)]] by metis
  have h1: "heap_ok h1" using c(5) by (simp add: grows_def)
  have aa: "a \<in> in_use h" using "4.prems"(2) by (auto simp: in_use_def)
  have al: "alike ({a} \<union> set (fields_own h us fs)) h h1"
    by (rule grows_alike [OF c(5) "4.prems"(1)]) (use aa holds_used(2) [OF d(3)] pn "4.prems"(4) in auto)
  have as: "uh_sets h1 a = uh_sets h a" using al by (auto simp: alike_def)
  have src: "fields_hold h1 us fs" "fields_own h1 us fs = fields_own h us fs"
    using holds_alike(2) [OF d(3) alike_subset [OF al]] by auto
  have "\<exists>gs h'. ufs_MergeFrom_loop (Suc m) (Suc i) a p h1 = Inr h' \<and> uh_sets h' p \<noteq> None \<and>
       vector (uh_sets h' p) = vector (uh_sets h1 p) @ gs \<and> fields_hold h' us gs \<and>
       distinct (fields_own h' us gs) \<and> grows {p} h1 h' (set (fields_own h' us gs))"
    by (rule "4.IH"(2) [OF h1]) (use as c(2) "4.prems"(2,4) i src pn n(3) in auto)
  then obtain gs h' where r: "ufs_MergeFrom_loop (Suc m) (Suc i) a p h1 = Inr h'" "uh_sets h' p \<noteq> None"
    "vector (uh_sets h' p) = vector (uh_sets h p) @ g # gs" "fields_hold h' us gs"
    "distinct (fields_own h' us gs)" "grows {p} h1 h' (set (fields_own h' us gs))" using c(2) by auto
  have pb: "p < uh_next h" using "4.prems"(1,3) by (auto simp: heap_ok_iff)
  have "alike (set (field_owns h1 u g)) h1 h'"
    by (rule grows_alike [OF r(6) h1 holds_used(1) [OF c(3)]]) (use grows_above [OF c(5), of p] pb in auto)
  from holds_alike(1) [OF c(3) this] have fh: "field_holds h' u g" "field_owns h' u g = field_owns h1 u g" by auto
  have "set (field_owns h1 u g) \<inter> set (fields_own h' us gs) = {}"
    using grows_above [OF c(5)] grows_above [OF r(6)] by fastforce
  with fh c(4) r(4,5) grows_trans [OF c(5) r(6)] have
    "fields_hold h' (u # us) (g # gs)" "distinct (fields_own h' (u # us) (g # gs))"
    "grows {p} h h' (set (fields_own h' (u # us) (g # gs)))" by auto
  moreover have "ufs_MergeFrom_loop n i a p h = Inr h'"
    using i "4.prems"(2) c(1) r(1) by (simp add: n(1) field_count_vector uf_field_vector del: AddField.simps)
  ultimately show ?case using r(2,3) by blast
next
  case "2_4"
  from "2_4"(2) obtain k x s where f: "f = Raw_length_delimited k x" "uh_strings h x = Some s"
    by (auto split: raw_field.splits)
  obtain b h1 where b: "new_string s h = (b, h1)" by force
  from "2_4"(3) obtain m where "n = Suc m" by (cases n) auto
  with f b new_string_grows [OF "2_4"(1) b] "2_4"(2) show ?case by auto
qed (auto simp: grows_def alike_def dest!: Suc_le_D)

text \<open>\<open>MergeFrom\<close> appends copies of the fields of the other set, which it leaves as it is.\<close>

lemma MergeFrom_copies:
  assumes "heap_ok h" and p: "set_holds h us p" and q: "set_holds h vs q"
    and dis: "set (set_owns h us p) \<inter> set (set_owns h vs q) = {}" and n: "ufs_steps vs \<le> n"
  shows "\<exists>h'. ufs_MergeFrom n q p h = Inr h' \<and> heap_ok h' \<and> set_holds h' (us @ vs) p \<and> set_holds h' vs q \<and>
    set_owns h' vs q = set_owns h vs q \<and> set (set_owns h' (us @ vs) p) \<inter> set (set_owns h' vs q) = {} \<and>
    in_use h' = in_use h \<union> set (set_owns h' (us @ vs) p) \<and> alike (in_use h - {p}) h h'"
proof -
  let ?P = "vector (uh_sets h p)" and ?Q = "vector (uh_sets h q)"
  have pq: "p \<noteq> q" "p \<notin> set (fields_own h vs ?Q)" using dis by (auto simp: set_owns_def)
  obtain gs h' where r: "ufs_MergeFrom_loop n 0 q p h = Inr h'" "uh_sets h' p \<noteq> None"
    "vector (uh_sets h' p) = ?P @ gs" "fields_hold h' vs gs" "distinct (fields_own h' vs gs)"
    "grows {p} h h' (set (fields_own h' vs gs))"
    using DeepCopy_copies(2) [of h q p 0 vs n] assms(1) set_holdsD(1,2) [OF p] set_holdsD(1,2) [OF q] pq n
    by fastforce
  have P: "set (fields_own h us ?P) \<subseteq> in_use h" "p \<in> in_use h" "p \<notin> set (fields_own h us ?P)"
    using set_holds_used [OF p] set_holdsD(4) [OF p] by (auto simp: set_owns_def)
  have "alike (set (fields_own h us ?P)) h h'" using grows_alike [OF r(6) assms(1) P(1)] P(3) by auto
  from holds_alike(2) [OF set_holdsD(2) [OF p] this]
  have u: "fields_hold h' us ?P" "fields_own h' us ?P = fields_own h us ?P" by auto
  have "alike (set (set_owns h vs q)) h h'"
    by (rule grows_alike [OF r(6) assms(1) set_holds_used [OF q]]) (use pq in \<open>auto simp: set_owns_def\<close>)
  from set_holds_alike [OF q this] have q': "set_holds h' vs q" "set_owns h' vs q = set_owns h vs q" by auto
  have low: "a \<notin> set (fields_own h' vs gs)" if "a \<in> in_use h" for a
    using grows_above [OF r(6), of a] in_use_below [OF assms(1) that] by auto
  have len: "length us = length ?P" using hold_length [OF u(1)] by simp
  have o: "set_owns h' (us @ vs) p = p # fields_own h us ?P @ fields_own h' vs gs"
    by (simp add: set_owns_def r(3) own_append len u(2))
  have "set_holds h' (us @ vs) p"
    using r(2,4,5) u(1) P low set_holdsD(3) [OF p] o
    by (auto simp: set_holds_def r(3) hold_append len)
  moreover have "set (set_owns h' (us @ vs) p) \<inter> set (set_owns h' vs q) = {}"
    using dis low set_holds_used [OF q] unfolding o q'(2) by (auto simp: set_owns_def)
  moreover have "in_use h' = in_use h \<union> set (set_owns h' (us @ vs) p)"
    using r(6) P by (auto simp: o grows_def)
  moreover have "alike (in_use h - {p}) h h'" by (rule grows_alike [OF r(6) assms(1)]) auto
  ultimately show ?thesis using r(1,6) q' by (auto simp: ufs_MergeFrom_def grows_def)
qed

lemma destroy_frees:
  assumes "heap_ok h" and p: "set_holds h us p" and n: "2 + ufs_steps us \<le> n"
  shows "ufs_destroy n p h = Inr (uf_free (set (set_owns h us p)) h)"
proof -
  have s: "uh_strings h p = None" using assms(1) set_holdsD(1) [OF p] by (auto simp: heap_ok_iff)
  have n': "n = Suc (Suc (n - 2))" using n by simp
  show ?thesis
  proof (cases "uh_sets h p" rule: vector.cases)
    case (1 fs)
    have "ufs_ClearFallback_loop (n - 2) 0 p h = Inr (uf_free (set (fields_own h us fs)) h)"
      using Delete_frees(2) [OF 1, of 0 us "n - 2"] set_holdsD [OF p] assms(1) n by (simp add: 1)
    from clear_frees(2) [OF 1 s this] set_holdsD(4) [OF p] show ?thesis
      by (subst n') (simp add: 1 set_owns_def)
  next
    case "2_1"
    with set_holdsD(1) [OF p] show ?thesis by simp
  next
    case "2_2"
    from destroy_null(2) [OF this s, of "n - 2"] n' "2_2" show ?thesis by (simp add: set_owns_def)
  qed
qed

lemma Clear_empties:
  assumes "heap_ok h" and p: "set_holds h us p" and n: "1 + ufs_steps us \<le> n"
  shows "\<exists>h'. ufs_Clear n p h = Inr h' \<and> heap_ok h' \<and> set_holds h' [] p \<and>
    in_use h' = in_use h - set (fields_own h us (vector (uh_sets h p)))"
proof -
  have s: "uh_strings h p = None" using assms(1) set_holdsD(1) [OF p] by (auto simp: heap_ok_iff)
  have n': "n = Suc (n - 1)" using n by simp
  show ?thesis
  proof (cases "uh_sets h p" rule: vector.cases)
    case (1 fs)
    let ?h = "uf_free (set (fields_own h us fs)) h"
    have "ufs_ClearFallback_loop (n - 1) 0 p h = Inr ?h"
      using Delete_frees(2) [OF 1, of 0 us "n - 1"] set_holdsD [OF p] assms(1) n by (simp add: 1)
    from clear_frees(1) [OF 1 s this] set_holdsD(4) [OF p]
    have r: "ufs_Clear n p h = Inr (set_fields p (Some []) ?h)" by (subst n') (simp add: 1)
    have "uh_sets ?h p \<noteq> None" using set_holdsD(4) [OF p] 1 by (auto simp: restrict_map_def)
    with heap_ok_set_fields [OF this heap_ok_free [OF assms(1)]] show ?thesis
      by (simp add: r 1 set_holds_def set_owns_def)
  next
    case "2_1"
    with set_holdsD(1) [OF p] show ?thesis by simp
  next
    case "2_2"
    with destroy_null(1) [OF this s, of "n - 1"] p n' assms(1) set_holdsD(2) [OF p] show ?thesis
      by (cases us) (auto simp: set_holds_def set_owns_def)
  qed
qed

text \<open>A set merged into itself grows as fast as the loop reads it. (The message classes check for
  this case before.)\<close>

definition room :: "addr \<Rightarrow> uf_heap \<Rightarrow> nat" where
  "room p h = length (vector (uh_sets h p))"

lemma push_field_room:
  "push_field f q h = Inr h' \<Longrightarrow> room p h' = (if p = q then Suc (room p h) else room p h)"
  by (auto simp: push_field_def room_def split: option.splits)

lemma put_field_room: "put_field q i f h = Inr h' \<Longrightarrow> room p h' = room p h"
  by (auto simp: put_field_def room_def split: option.splits if_splits)

lemma field_count_room: "field_count p h = Inr k \<Longrightarrow> k = room p h"
  by (auto simp: field_count_def room_def split: option.splits)

lemma new_room:
  "new_set h = (b, h') \<Longrightarrow> uh_sets h (uh_next h) = None \<Longrightarrow> room p h' = room p h"
  "new_string s h = (b, h') \<Longrightarrow> room p h' = room p h"
  by (auto simp: new_set_def new_string_def room_def)

lemma fresh_next: "heap_ok h \<Longrightarrow> uh_sets h (uh_next h) = None"
  by (auto simp: heap_ok_iff)

lemma store_ok:
  "push_field f q h = Inr h' \<Longrightarrow> heap_ok h \<Longrightarrow> heap_ok h'"
  "put_field q i f h = Inr h' \<Longrightarrow> heap_ok h \<Longrightarrow> heap_ok h'"
  by (auto simp: push_field_def put_field_def heap_ok_set_fields split: option.splits if_splits)

lemma copying_room:
  "DeepCopy n f h = Inr (g, h') \<Longrightarrow> heap_ok h \<Longrightarrow> heap_ok h' \<and> room p h \<le> room p h'"
  "AddField n f q h = Inr h' \<Longrightarrow> heap_ok h \<Longrightarrow>
     heap_ok h' \<and> (if p = q then Suc (room p h) else room p h) \<le> room p h'"
  "ufs_MergeFrom_loop n i a q h = Inr h' \<Longrightarrow> heap_ok h \<Longrightarrow> heap_ok h' \<and> room p h \<le> room p h'"
proof (induction n f h and n f q h and n i a q h arbitrary: g h' and h' and h'
    rule: DeepCopy_AddField_ufs_MergeFrom_loop.induct)
  case (2 n f h)
  show ?case
  proof (cases f)
    case (Raw_length_delimited k x)
    with "2.prems" show ?thesis
      using new_string_grows [OF "2.prems"(2)] new_room(2)
      by (fastforce split: option.splits prod.splits simp: grows_def)
  next
    case (Raw_group k x)
    obtain b h1 where b: "new_set h = (b, h1)" by force
    with "2.prems"(1) Raw_group obtain h2 where l: "ufs_MergeFrom_loop n 0 x b h1 = Inr h2" "h' = h2" by auto
    have "heap_ok h1" using new_set_grows [OF "2.prems"(2) b] by (simp add: grows_def)
    with "2.IH" [OF Raw_group b [symmetric] l(1)] new_room(1) [OF b fresh_next [OF "2.prems"(2)], of p]
    show ?thesis by (simp add: l(2))
  qed (use "2.prems" in auto)
next
  case (4 n f q h)
  from "4.prems"(1) obtain h1 k g h2 where a: "push_field f q h = Inr h1" "field_count q h1 = Inr k"
    "DeepCopy n f h1 = Inr (g, h2)" "put_field q (k - 1) g h2 = Inr h'" by auto
  note ok = store_ok(1) [OF a(1) "4.prems"(2)]
  from "4.IH" [OF a(3) ok] push_field_room [OF a(1), of p] put_field_room [OF a(4), of p]
    store_ok(2) [OF a(4)] show ?case by auto
next
  case (6 n i a q h)
  show ?case
  proof (cases "field_count a h")
    case (Inr k)
    show ?thesis
    proof (cases "i < k")
      case True
      with Inr "6.prems"(1) obtain f h1 where l: "uf_field a i h = Inr f" "AddField n f q h = Inr h1"
        "ufs_MergeFrom_loop n (Suc i) a q h1 = Inr h'" by auto
      from "6.IH"(1) [OF True l(2) "6.prems"(2)] "6.IH"(2) [OF True l(3)]
      show ?thesis by (auto split: if_splits)
    qed (use "6.prems" Inr in auto)
  qed (use "6.prems" in auto)
qed auto

lemma self_merge_loop:
  "ufs_MergeFrom_loop n i p p h = Inr h' \<Longrightarrow> heap_ok h \<Longrightarrow> room p h \<le> i"
proof (induction n arbitrary: i h)
  case (Suc n)
  then obtain k where k: "field_count p h = Inr k" by (cases "field_count p h") auto
  show ?case
  proof (rule ccontr)
    assume "\<not> room p h \<le> i"
    with k field_count_room [OF k] Suc.prems(1) obtain f h1 where l: "AddField n f p h = Inr h1"
      "ufs_MergeFrom_loop n (Suc i) p p h1 = Inr h'" by auto
    from copying_room(2) [OF l(1) Suc.prems(2), of p] Suc.IH [OF l(2)] \<open>\<not> room p h \<le> i\<close>
    show False by simp
  qed
qed simp

lemma self_merge_never_returns:
  "heap_ok h \<Longrightarrow> vector (uh_sets h p) \<noteq> [] \<Longrightarrow> ufs_MergeFrom n p p h \<noteq> Inr h'"
  using self_merge_loop [of n 0 p h h'] by (auto simp: ufs_MergeFrom_def room_def)

section \<open>Deleting some fields\<close>

lemma slide_down_length [simp]: "length (slide_down i num fs) = length fs"
proof (induction i num fs rule: slide_down.induct)
  case (1 i num fs)
  then show ?case by (cases "i < length fs") (simp_all add: slide_down.simps [of i num fs])
qed

lemma slide_down_take:
  "num \<le> i \<Longrightarrow> i \<le> length fs \<Longrightarrow>
     take (length fs - num) (slide_down i num fs) = take (i - num) fs @ drop i fs"
proof (induction i num fs rule: slide_down.induct)
  case (1 i num fs)
  show ?case
  proof (cases "i < length fs")
    case True
    let ?fs = "fs[i - num := fs ! i]"
    have "take (Suc i - num) ?fs = take (i - num) fs @ [fs ! i]"
      using True "1.prems" by (simp add: Suc_diff_le take_Suc_conv_app_nth)
    moreover have "drop (Suc i) ?fs = drop (Suc i) fs" by (simp add: drop_update_cancel)
    ultimately show ?thesis
      using "1.IH" True "1.prems" by (simp add: slide_down.simps [of i num fs] Cons_nth_drop_Suc [symmetric])
  qed (use "1.prems" in \<open>simp add: slide_down.simps [of "length fs" num fs]\<close>)
qed

lemma pops: "(butlast ^^ k) xs = take (length xs - k) xs"
  by (induction k) (simp_all add: butlast_take)

lemma hold_nth:
  "fields_hold h us fs \<Longrightarrow> fs \<noteq> [] \<Longrightarrow> \<exists>u vs. us = u # vs \<and> field_holds h u (hd fs) \<and> fields_hold h vs (tl fs)"
  by (cases us) (auto split: list.splits)

lemma drop_split:
  assumes "drop i fs = f # gs"
  shows "i < length fs" "fs ! i = f" "drop (Suc i) fs = gs"
  using assms by (metis drop_eq_Nil leI list.distinct(1), metis nth_via_drop,
      metis drop_Suc nth_via_drop tl_drop list.sel(3))

text \<open>The loop that deletes a range takes the fields of \<open>vs\<close>.\<close>

lemma DeleteSubrange_delete_frees:
  "uh_sets h p = Some (Some fs) \<Longrightarrow> drop (i + start) fs = gs @ rest \<Longrightarrow> fields_hold h vs gs \<Longrightarrow>
     num = i + length gs \<Longrightarrow> distinct (fields_own h vs gs) \<Longrightarrow> p \<notin> set (fields_own h vs gs) \<Longrightarrow>
     heap_ok h \<Longrightarrow> ufs_steps vs \<le> n \<Longrightarrow>
     DeleteSubrange_delete n i start num p h = Inr (uf_free (set (fields_own h vs gs)) h)"
proof (induction vs arbitrary: n i gs h)
  case Nil
  then show ?case by (cases n) auto
next
  case (Cons v vs)
  then obtain g gs' where g: "gs = g # gs'" "field_holds h v g" "fields_hold h vs gs'" by (auto split: list.splits)
  let ?A = "set (field_owns h v g)" and ?h = "uf_free (set (field_owns h v g)) h"
  from Cons.prems(8) obtain m where n: "n = Suc m" "uf_steps v \<le> m" "ufs_steps vs \<le> m" by (cases n) auto
  have d: "distinct (field_owns h v g)" "p \<notin> ?A" "?A \<inter> set (fields_own h vs gs') = {}"
    "distinct (fields_own h vs gs')" "p \<notin> set (fields_own h vs gs')" using Cons.prems(5,6) by (auto simp: g)
  have del: "uf_Delete m g h = Inr ?h" by (rule Delete_frees(1) [OF g(2) d(1) Cons.prems(7) n(2)])
  have "alike (set (fields_own h vs gs')) h ?h" using d(3) by (intro alike_free) auto
  from holds_alike(2) [OF g(3) this] have o: "fields_hold ?h vs gs'"
    "fields_own ?h vs gs' = fields_own h vs gs'" by auto
  have dr: "drop (i + start) fs = g # gs' @ rest" using Cons.prems(2) by (simp add: g)
  have "DeleteSubrange_delete m (Suc i) start num p ?h = Inr (uf_free (set (fields_own ?h vs gs')) ?h)"
    by (rule Cons.IH) (use Cons.prems d o n drop_split [OF dr] in \<open>auto simp: g heap_ok_free restrict_map_def\<close>)
  with del Cons.prems(1,4) drop_split [OF dr] show ?case
    by (simp add: n(1) g uf_field_def o uf_free_free)
qed

lemma holds_three:
  assumes "set_holds h (us @ vs @ ws) p" and "uh_sets h p = Some (Some fs)"
  obtains as bs cs where "fs = as @ bs @ cs" "length as = length us" "length bs = length vs"
    "fields_hold h us as" "fields_hold h vs bs" "fields_hold h ws cs"
    "set_owns h (us @ vs @ ws) p = p # fields_own h us as @ fields_own h vs bs @ fields_own h ws cs"
proof
  let ?as = "take (length us) fs" and ?r = "drop (length us) fs"
  let ?bs = "take (length vs) ?r" and ?cs = "drop (length vs) ?r"
  have h: "fields_hold h us ?as" "fields_hold h vs ?bs" "fields_hold h ws ?cs"
    "length us \<le> length fs" "length vs \<le> length ?r"
    using set_holdsD(2) [OF assms(1)] by (auto simp: assms(2) hold_append)
  then show "fields_hold h us ?as" "fields_hold h vs ?bs" "fields_hold h ws ?cs" "length ?as = length us"
    "length ?bs = length vs" by auto
  show "fs = ?as @ ?bs @ ?cs" by (simp only: append_take_drop_id)
  show "set_owns h (us @ vs @ ws) p = p # fields_own h us ?as @ fields_own h vs ?bs @ fields_own h ws ?cs"
    by (simp add: set_owns_def assms(2) own_append)
qed

lemma DeleteSubrange_deletes:
  assumes "heap_ok h" and p: "set_holds h (us @ vs @ ws) p" "uh_sets h p \<noteq> Some None"
    and n: "ufs_steps vs \<le> n"
  shows "\<exists>h'. DeleteSubrange n (length us) (length vs) p h = Inr h' \<and> heap_ok h' \<and> set_holds h' (us @ ws) p \<and>
    in_use h' = in_use h - (set (set_owns h (us @ vs @ ws) p) - set (set_owns h' (us @ ws) p))"
proof -
  obtain fs where fs: "uh_sets h p = Some (Some fs)" using p(2) set_holdsD(1) [OF p(1)] by auto
  from holds_three [OF p(1) this] obtain as bs cs where a: "fs = as @ bs @ cs" "length as = length us"
    "length bs = length vs" "fields_hold h us as" "fields_hold h vs bs" "fields_hold h ws cs"
    "set_owns h (us @ vs @ ws) p = p # fields_own h us as @ fields_own h vs bs @ fields_own h ws cs" .
  let ?B = "set (fields_own h vs bs)" and ?h = "uf_free (set (fields_own h vs bs)) h"
  have d: "p \<notin> ?B" "distinct (fields_own h vs bs)" "set (fields_own h us as) \<inter> ?B = {}" "set (fields_own h ws cs) \<inter> ?B = {}"
    "distinct (p # fields_own h us as @ fields_own h ws cs)"
    using p(1) a(7) by (auto simp: set_holds_def)
  have del: "DeleteSubrange_delete n 0 (length us) (length vs) p h = Inr ?h"
    by (rule DeleteSubrange_delete_frees [OF fs, of 0 "length us" bs cs]) (use a d assms(1) n in auto)
  let ?h' = "set_fields p (Some (as @ cs)) ?h"
  have hp: "uh_sets ?h p = Some (Some fs)" using fs d(1) by (simp add: restrict_map_def)
  have "take (length fs - length vs) (slide_down (length us + length vs) (length vs) fs) = as @ cs"
    using slide_down_take [of "length vs" "length us + length vs" fs] a(1-3) by simp
  then have r: "DeleteSubrange n (length us) (length vs) p h = Inr ?h'"
    using fs hp del by (simp add: DeleteSubrange_def pops)
  have "p \<notin> set (fields_own h us as)" "p \<notin> set (fields_own h ws cs)" using d(5) by auto
  then have al: "alike (set (fields_own h us as)) h ?h'" "alike (set (fields_own h ws cs)) h ?h'"
    using d(3,4) by (auto simp: alike_def restrict_map_def)
  have o: "fields_hold ?h' us as" "fields_own ?h' us as = fields_own h us as"
    "fields_hold ?h' ws cs" "fields_own ?h' ws cs = fields_own h ws cs"
    using holds_alike(2) [OF a(4) al(1)] holds_alike(2) [OF a(6) al(2)] by auto
  have so: "set_owns ?h' (us @ ws) p = p # fields_own h us as @ fields_own h ws cs"
    using o a(2) by (simp add: set_owns_def own_append)
  have hd: "set_holds ?h' (us @ ws) p" using o a(2) d(5) unfolding set_holds_def so by (simp add: hold_append)
  have ok: "heap_ok ?h'" using hp by (intro heap_ok_set_fields heap_ok_free assms(1)) simp
  have iu: "in_use ?h' = in_use h - ?B" using in_use_set_fields [of ?h p] hp by simp
  have "in_use ?h' = in_use h - (set (set_owns h (us @ vs @ ws) p) - set (set_owns ?h' (us @ ws) p))"
    unfolding iu so a(7) using d by auto
  with r ok hd show ?thesis by blast
qed

fun uf_number :: "unknown_field \<Rightarrow> u32" where
  "uf_number (UF_varint k _) = k"
| "uf_number (UF_fixed32 k _) = k"
| "uf_number (UF_fixed64 k _) = k"
| "uf_number (UF_length_delimited k _) = k"
| "uf_number (UF_group k _) = k"

lemma raw_number_holds: "field_holds h u f \<Longrightarrow> raw_number f = uf_number u"
  by (cases u) (auto split: raw_field.splits)

text \<open>At \<open>p\<close> are the fields \<open>us\<close>, and of the objects \<open>S\<close> those they do not own are freed.\<close>

definition left_with :: "addr \<Rightarrow> UnknownFieldSet \<Rightarrow> addr set \<Rightarrow> uf_heap \<Rightarrow> nat \<Rightarrow> uf_heap \<Rightarrow> bool" where
  "left_with p us S h left h' \<longleftrightarrow> heap_ok h' \<and> (\<exists>fs. uh_sets h' p = Some (Some fs) \<and>
     fields_hold h' us (take left fs) \<and> distinct (p # fields_own h' us (take left fs)) \<and>
     set (fields_own h' us (take left fs)) \<subseteq> S \<and> in_use h' = in_use h - (S - set (fields_own h' us (take left fs))))"

lemma left_with_free:
  assumes "left_with p us S (uf_free A h) left h'" and "A \<inter> S = {}"
  shows "left_with p us (S \<union> A) h left h'"
proof -
  have "in_use h - A - (S - X) = in_use h - (S \<union> A - X)" if "X \<subseteq> S" for X using that assms(2) by auto
  with assms show ?thesis by (fastforce simp: left_with_def)
qed

text \<open>The loop of \<open>DeleteByNumber\<close> has kept \<open>ks\<close> in front and has \<open>us\<close> before it.\<close>

lemma DeleteByNumber_loop_keeps:
  "uh_sets h p = Some (Some fs) \<Longrightarrow> left \<le> i \<Longrightarrow> i \<le> length fs \<Longrightarrow> fields_hold h ks (take left fs) \<Longrightarrow>
     fields_hold h us (drop i fs) \<Longrightarrow>
     distinct (p # fields_own h ks (take left fs) @ fields_own h us (drop i fs)) \<Longrightarrow>
     heap_ok h \<Longrightarrow> ufs_steps us \<le> n \<Longrightarrow>
     \<exists>left' h'. DeleteByNumber_loop n number p i left h = Inr (left', h') \<and>
       left_with p (ks @ filter (\<lambda>u. uf_number u \<noteq> number) us)
         (set (fields_own h ks (take left fs) @ fields_own h us (drop i fs))) h left' h'"
proof (induction us arbitrary: n i left fs ks h)
  case Nil
  then show ?case by (cases n) (auto simp: field_count_def left_with_def)
next
  case (Cons u us)
  then obtain f gs where d: "drop i fs = f # gs" "field_holds h u f" "fields_hold h us gs" by (auto split: list.splits)
  note i = drop_split [OF d(1)]
  let ?K = "fields_own h ks (take left fs)" and ?F = "field_owns h u f" and ?G = "fields_own h us gs"
  from Cons.prems(8) obtain m where n: "n = Suc m" "uf_steps u \<le> m" "ufs_steps us \<le> m" by (cases n) auto
  have dd: "distinct (p # ?K @ ?F @ ?G)" using Cons.prems(6) by (simp add: d)
  show ?case
  proof (cases "uf_number u = number")
    case True
    let ?h = "uf_free (set ?F) h"
    have del: "uf_Delete m f h = Inr ?h" by (rule Delete_frees(1) [OF d(2) _ Cons.prems(7) n(2)]) (use dd in auto)
    have al: "alike (set ?K) h ?h" "alike (set ?G) h ?h" by (rule alike_free, use dd in auto)+
    from holds_alike(2) [OF Cons.prems(4) al(1)] holds_alike(2) [OF d(3) al(2)]
    have o: "fields_hold ?h ks (take left fs)" "fields_own ?h ks (take left fs) = ?K"
      "fields_hold ?h us (drop (Suc i) fs)" "fields_own ?h us (drop (Suc i) fs) = ?G" by (auto simp: i(3))
    have "uh_sets ?h p = Some (Some fs)" using Cons.prems(1) dd by (simp add: restrict_map_def)
    from Cons.IH [OF this _ _ o(1,3) _ heap_ok_free [OF Cons.prems(7)] n(3)] i(1) Cons.prems(2) dd
    obtain left' h' where r: "DeleteByNumber_loop m number p (Suc i) left ?h = Inr (left', h')"
      "left_with p (ks @ filter (\<lambda>u. uf_number u \<noteq> number) us) (set (?K @ ?G)) ?h left' h'"
      unfolding o(2,4) by auto
    have "DeleteByNumber_loop n number p i left h = Inr (left', h')"
      using Cons.prems(1) i(1,2) del r(1) True raw_number_holds [OF d(2)]
      by (simp add: n(1) field_count_def uf_field_def)
    moreover have "set (?K @ ?G) \<union> set ?F = set (?K @ fields_own h (u # us) (drop i fs))" by (auto simp: d)
    moreover have "set ?F \<inter> set (?K @ ?G) = {}" using dd by auto
    ultimately show ?thesis using left_with_free [OF r(2)] True by auto
  next
    case False
    let ?fs = "if i \<noteq> left then fs[left := f] else fs"
    let ?h = "if i \<noteq> left then set_fields p (Some (fs[left := f])) h else h"
    have v: "uh_sets ?h p = Some (Some ?fs)" "heap_ok ?h" "in_use ?h = in_use h"
      using Cons.prems(1,7) heap_ok_set_fields [of h p] by auto
    have li: "left < length fs" using i(1) Cons.prems(2) by simp
    have t: "take (Suc left) ?fs = take left fs @ [f]" "drop (Suc i) ?fs = gs"
      using li i Cons.prems(2) by (auto simp: take_Suc_conv_app_nth)
    have al: "alike A h ?h" if "p \<notin> A" for A using that by (auto simp: alike_def)
    from holds_alike(2) [OF Cons.prems(4) al] holds_alike(2) [OF d(3) al] holds_alike(1) [OF d(2) al]
    have o: "fields_hold ?h ks (take left fs)" "fields_own ?h ks (take left fs) = ?K"
      "fields_hold ?h us gs" "fields_own ?h us gs = ?G" "field_holds ?h u f" "field_owns ?h u f = ?F"
      using dd by auto
    have k: "fields_hold ?h (ks @ [u]) (take (Suc left) ?fs)" "fields_own ?h (ks @ [u]) (take (Suc left) ?fs) = ?K @ ?F"
      "fields_hold ?h us (drop (Suc i) ?fs)" "fields_own ?h us (drop (Suc i) ?fs) = ?G"
      unfolding t using o hold_snoc [OF o(1)] by simp_all
    have q: "Suc left \<le> Suc i" "Suc i \<le> length ?fs"
      "distinct (p # fields_own ?h (ks @ [u]) (take (Suc left) ?fs) @ fields_own ?h us (drop (Suc i) ?fs))"
      using i(1) Cons.prems(2) dd unfolding k(2,4) by auto
    obtain left' h' where r: "DeleteByNumber_loop m number p (Suc i) (Suc left) ?h = Inr (left', h')"
      "left_with p ((ks @ [u]) @ filter (\<lambda>u. uf_number u \<noteq> number) us) (set ((?K @ ?F) @ ?G)) ?h left' h'"
      using Cons.IH [OF v(1) q(1,2) k(1,3) q(3) v(2) n(3)] unfolding k(2,4) by blast
    have "DeleteByNumber_loop n number p i left h = Inr (left', h')"
      using Cons.prems(1) i(1,2) li r(1) False raw_number_holds [OF d(2)]
      by (simp add: n(1) field_count_def uf_field_def put_field_def split: if_splits)
    moreover have "left_with p (ks @ filter (\<lambda>u. uf_number u \<noteq> number) (u # us))
        (set (?K @ fields_own h (u # us) (drop i fs))) h left' h'"
      using r(2) v(3) False by (simp add: left_with_def d Un_assoc)
    ultimately show ?thesis by blast
  qed
qed

lemma DeleteByNumber_deletes:
  assumes "heap_ok h" and p: "set_holds h us p" and n: "ufs_steps us \<le> n"
  shows "\<exists>h'. DeleteByNumber n number p h = Inr h' \<and> heap_ok h' \<and>
    set_holds h' (filter (\<lambda>u. uf_number u \<noteq> number) us) p \<and>
    in_use h' = in_use h -
      (set (set_owns h us p) - set (set_owns h' (filter (\<lambda>u. uf_number u \<noteq> number) us) p))"
proof (cases "uh_sets h p" rule: vector.cases)
  case (1 fs)
  let ?r = "filter (\<lambda>u. uf_number u \<noteq> number) us"
  have "\<exists>left h1. DeleteByNumber_loop n number p 0 0 h = Inr (left, h1) \<and>
      left_with p ([] @ ?r) (set (fields_own h [] (take 0 fs) @ fields_own h us (drop 0 fs))) h left h1"
    by (rule DeleteByNumber_loop_keeps [OF 1]) (use set_holdsD [OF p] assms(1) n in \<open>auto simp: 1\<close>)
  then obtain left h1 where l: "DeleteByNumber_loop n number p 0 0 h = Inr (left, h1)"
    "left_with p ?r (set (fields_own h us fs)) h left h1" by auto
  from l(2) obtain gs where g: "uh_sets h1 p = Some (Some gs)" "fields_hold h1 ?r (take left gs)" "heap_ok h1"
    "distinct (p # fields_own h1 ?r (take left gs))" "set (fields_own h1 ?r (take left gs)) \<subseteq> set (fields_own h us fs)"
    "in_use h1 = in_use h - (set (fields_own h us fs) - set (fields_own h1 ?r (take left gs)))"
    unfolding left_with_def by blast
  let ?h = "set_fields p (Some (take left gs)) h1"
  have "alike (set (fields_own h1 ?r (take left gs))) h1 ?h" using g(4) by (intro alike_set_fields) simp
  from holds_alike(2) [OF g(2) this] have o: "fields_hold ?h ?r (take left gs)"
    "fields_own ?h ?r (take left gs) = fields_own h1 ?r (take left gs)" by auto
  have so: "set_owns ?h ?r p = p # fields_own h1 ?r (take left gs)" "set_owns h us p = p # fields_own h us fs"
    by (simp_all add: set_owns_def o 1)
  have hd: "set_holds ?h ?r p" using o g(4) by (simp add: set_holds_def so)
  have "p \<notin> set (fields_own h us fs)" using set_holdsD(4) [OF p] by (simp add: 1)
  then have "in_use ?h = in_use h - (set (set_owns h us p) - set (set_owns ?h ?r p))"
    using in_use_set_fields [of h1 p] g(1,6) unfolding so by auto
  moreover have "heap_ok ?h" using g(1,3) by (simp add: heap_ok_set_fields)
  moreover have "DeleteByNumber n number p h = Inr ?h" using 1 l(1) g(1) by (simp add: DeleteByNumber_def)
  ultimately show ?thesis using hd by blast
next
  case "2_1"
  with set_holdsD(1) [OF p] show ?thesis by simp
next
  case "2_2"
  with set_holdsD(2) [OF p] have "us = []" by (cases us) auto
  with "2_2" assms(1) p show ?thesis by (auto simp: DeleteByNumber_def)
qed

section \<open>The other operations\<close>

lemma push_holds:
  assumes "heap_ok h" and p: "set_holds h us p" and f: "field_holds h u f" "distinct (field_owns h u f)"
    and d: "set (field_owns h u f) \<inter> set (set_owns h us p) = {}"
  shows "\<exists>h'. push_field f p h = Inr h' \<and> heap_ok h' \<and> set_holds h' (us @ [u]) p \<and> in_use h' = in_use h \<and>
    set_owns h' (us @ [u]) p = set_owns h us p @ field_owns h u f"
proof -
  let ?v = "vector (uh_sets h p)" and ?h = "set_fields p (Some (vector (uh_sets h p) @ [f])) h"
  note P = set_holdsD [OF p]
  have al: "alike (set (fields_own h us ?v)) h ?h" "alike (set (field_owns h u f)) h ?h"
    by (rule alike_set_fields, use P d in \<open>auto simp: set_owns_def\<close>)+
  from holds_alike(2) [OF P(2) al(1)] holds_alike(1) [OF f(1) al(2)]
  have o: "fields_hold ?h us ?v" "fields_own ?h us ?v = fields_own h us ?v" "field_holds ?h u f"
    "field_owns ?h u f = field_owns h u f" by auto
  have so: "set_owns ?h (us @ [u]) p = set_owns h us p @ field_owns h u f"
    by (simp add: set_owns_def hold_snoc(2) [OF o(1)] o)
  have "set_holds ?h (us @ [u]) p"
    using p f(2) d o unfolding set_holds_def so by (auto simp: hold_snoc(1) [OF o(1)])
  with so push_field_vector [OF P(1), of f] heap_ok_set_fields [OF P(1) assms(1)]
    in_use_set_fields [OF P(1)] show ?thesis by blast
qed

lemma AddVarint_adds:
  "heap_ok h \<Longrightarrow> set_holds h us p \<Longrightarrow>
     \<exists>h'. AddVarint number v p h = Inr h' \<and> heap_ok h' \<and> set_holds h' (us @ [UF_varint number v]) p"
  "heap_ok h \<Longrightarrow> set_holds h us p \<Longrightarrow>
     \<exists>h'. AddFixed32 number w p h = Inr h' \<and> heap_ok h' \<and> set_holds h' (us @ [UF_fixed32 number w]) p"
  "heap_ok h \<Longrightarrow> set_holds h us p \<Longrightarrow>
     \<exists>h'. AddFixed64 number v p h = Inr h' \<and> heap_ok h' \<and> set_holds h' (us @ [UF_fixed64 number v]) p"
  using push_holds [of h us p "UF_varint number v" "Raw_varint number v"]
    push_holds [of h us p "UF_fixed32 number w" "Raw_fixed32 number w"]
    push_holds [of h us p "UF_fixed64 number v" "Raw_fixed64 number v"]
  by (fastforce simp: AddVarint_def AddFixed32_def AddFixed64_def)+

text \<open>A new object next to a set leaves the set alone.\<close>

lemma set_holds_grows:
  assumes "grows {} h h' A" and "heap_ok h" and "set_holds h us p"
  shows "set_holds h' us p" "set (set_owns h' us p) \<inter> A = {}"
proof -
  note u = set_holds_used [OF assms(3)]
  from set_holds_alike [OF assms(3) grows_alike [OF assms(1,2) u]]
  have o: "set_holds h' us p" "set_owns h' us p = set_owns h us p" by auto
  show "set_holds h' us p" by (rule o(1))
  show "set (set_owns h' us p) \<inter> A = {}"
    using grows_above [OF assms(1)] in_use_below [OF assms(2)] u unfolding o(2) by fastforce
qed

lemma AddLengthDelimited_adds:
  assumes "heap_ok h" and "set_holds h us p"
  shows "\<exists>a h'. AddLengthDelimited number p h = Inr (a, h') \<and> heap_ok h' \<and>
    set_holds h' (us @ [UF_length_delimited number []]) p \<and> a \<in> set (set_owns h' (us @ [UF_length_delimited number []]) p) \<and>
    uh_strings h' a = Some []"
proof -
  obtain a h1 where n: "new_string [] h = (a, h1)" by force
  note g = new_string_grows [OF assms(1) n]
  have h1: "heap_ok h1" using g by (simp add: grows_def)
  note s = set_holds_grows [OF conjunct2 [OF g] assms]
  from push_holds [OF h1 s(1), of "UF_length_delimited number []" "Raw_length_delimited number a"] g s(2)
  obtain h' where "push_field (Raw_length_delimited number a) p h1 = Inr h'" "heap_ok h'"
    "set_holds h' (us @ [UF_length_delimited number []]) p"
    "set_owns h' (us @ [UF_length_delimited number []]) p = set_owns h1 us p @ [a]" by auto
  moreover from this(1) have "uh_strings h' = uh_strings h1" by (auto simp: push_field_def split: option.splits)
  ultimately show ?thesis using g n by (auto simp: AddLengthDelimited_def)
qed

lemma AddGroup_adds:
  assumes "heap_ok h" and "set_holds h us p"
  shows "\<exists>a h'. AddGroup number p h = Inr (a, h') \<and> heap_ok h' \<and> set_holds h' (us @ [UF_group number []]) p \<and>
    a \<in> set (set_owns h' (us @ [UF_group number []]) p)"
proof -
  obtain a h1 where n: "new_set h = (a, h1)" by force
  note g = new_set_grows [OF assms(1) n]
  have h1: "heap_ok h1" using g by (simp add: grows_def)
  note s = set_holds_grows [OF conjunct2 [OF conjunct2 [OF g]] assms]
  from push_holds [OF h1 s(1), of "UF_group number []" "Raw_group number a"] g s(2)
  obtain h' where "push_field (Raw_group number a) p h1 = Inr h'" "heap_ok h'"
    "set_holds h' (us @ [UF_group number []]) p"
    "set_owns h' (us @ [UF_group number []]) p = set_owns h1 us p @ [a]" by auto
  then show ?thesis using n by (auto simp: AddGroup_def)
qed

lemma Swap_swaps:
  assumes "heap_ok h" and p: "set_holds h us p" and q: "set_holds h vs q"
    and dis: "set (set_owns h us p) \<inter> set (set_owns h vs q) = {}"
  shows "\<exists>h'. ufs_Swap p q h = Inr h' \<and> heap_ok h' \<and> set_holds h' vs p \<and> set_holds h' us q \<and>
    in_use h' = in_use h"
proof -
  from set_holdsD(1) [OF p] set_holdsD(1) [OF q] obtain fs gs where
    v: "uh_sets h p = Some fs" "uh_sets h q = Some gs" by auto
  let ?h = "set_fields q fs (set_fields p gs h)"
  let ?F = "fields_own h us (vector (Some fs))" and ?G = "fields_own h vs (vector (Some gs))"
  have d: "p \<notin> set ?F" "p \<notin> set ?G" "q \<notin> set ?F" "q \<notin> set ?G" "distinct ?F" "distinct ?G" "p \<noteq> q"
    using set_holdsD(3,4) [OF p] set_holdsD(3,4) [OF q] dis v by (auto simp: set_owns_def)
  have al: "alike (set ?F) h ?h" "alike (set ?G) h ?h" using d by (auto simp: alike_def)
  have h: "fields_hold h us (vector (Some fs))" "fields_hold h vs (vector (Some gs))"
    using set_holdsD(2) [OF p] set_holdsD(2) [OF q] by (simp_all add: v)
  from holds_alike(2) [OF h(1) al(1)] holds_alike(2) [OF h(2) al(2)] d v
  have "set_holds ?h vs p" "set_holds ?h us q" by (auto simp: set_holds_def set_owns_def)
  moreover have "heap_ok ?h" by (intro heap_ok_set_fields assms(1)) (simp_all add: v)
  moreover have "in_use ?h = in_use h" by (simp add: v)
  moreover have "ufs_Swap p q h = Inr ?h" by (simp add: ufs_Swap_def v)
  ultimately show ?thesis by blast
qed

text \<open>Two sets after a merge: deleting one leaves the other whole, and frees all it had.\<close>

lemma merged_sets_are_apart:
  assumes "heap_ok h" and p: "set_holds h us p" and q: "set_holds h vs q"
    and dis: "set (set_owns h us p) \<inter> set (set_owns h vs q) = {}"
    and n: "ufs_steps vs \<le> n" "2 + ufs_steps vs \<le> m"
  shows "\<exists>h1 h2. ufs_MergeFrom n q p h = Inr h1 \<and> ufs_destroy m q h1 = Inr h2 \<and>
    set_holds h2 (us @ vs) p \<and> in_use h2 = in_use h \<union> set (set_owns h2 (us @ vs) p) - set (set_owns h vs q)"
proof -
  from MergeFrom_copies [OF assms(1) p q dis n(1)] obtain h1 where
    m: "ufs_MergeFrom n q p h = Inr h1" "heap_ok h1" "set_holds h1 (us @ vs) p" "set_holds h1 vs q"
    "set_owns h1 vs q = set_owns h vs q" "set (set_owns h1 (us @ vs) p) \<inter> set (set_owns h1 vs q) = {}"
    "in_use h1 = in_use h \<union> set (set_owns h1 (us @ vs) p)" by blast
  let ?h2 = "uf_free (set (set_owns h1 vs q)) h1"
  note d = destroy_frees [OF m(2,4) n(2)]
  from set_holds_alike [OF m(3) alike_free [OF m(6)]]
  have o: "set_holds ?h2 (us @ vs) p" "set_owns ?h2 (us @ vs) p = set_owns h1 (us @ vs) p" by auto
  have "in_use ?h2 = in_use h \<union> set (set_owns ?h2 (us @ vs) p) - set (set_owns h vs q)"
    unfolding o(2) by (simp add: m(5,7))
  with m(1) d o(1) show ?thesis by blast
qed

end
