(* ===== verification/GF_UnknownStream.thy ===== *)
theory GF_UnknownStream
  imports GF_UnknownFields GF_StreamParse GF_ZeroCopy
begin

text \<open>
  The parsing helpers of \<open>UnknownFieldSet\<close> (\<open>src/include/google/protobuf/unknown_field_set.cc\<close>): a set
  of fields is read from any stream of blocks, and what \<open>SerializeUnknownFieldsToArray\<close> writes is read
  back. The sets are the lists of their fields; \<open>GF_UnknownFields\<close> has their memory.
\<close>

section \<open>The helpers\<close>

definition ufs_MergeFromCodedStream :: "'s zc_input \<Rightarrow> 's coded_in \<Rightarrow> UnknownFieldSet \<Rightarrow>
    (bool \<times> 's coded_in \<times> UnknownFieldSet) option" where
  "ufs_MergeFromCodedStream zi c this = do {
     (ok, c1, other) \<leftarrow> ci_SkipMessage zi c [];
     if ok \<and> ci_ConsumedEntireMessage c1
     then Some (True, c1, UnknownFieldSet_MergeFrom other this)
     else Some (False, c1, this)
   }"

definition ufs_ParseFromCodedStream :: "'s zc_input \<Rightarrow> 's coded_in \<Rightarrow> UnknownFieldSet \<Rightarrow>
    (bool \<times> 's coded_in \<times> UnknownFieldSet) option" where
  "ufs_ParseFromCodedStream zi c this = ufs_MergeFromCodedStream zi c []"

definition ufs_ParseFromZeroCopyStream :: "'s zc_input \<Rightarrow> 's \<Rightarrow> UnknownFieldSet \<Rightarrow>
    (bool \<times> UnknownFieldSet \<times> 's) option" where
  "ufs_ParseFromZeroCopyStream zi input this = do {
     c \<leftarrow> ci_create zi input;
     (ok, c1, this1) \<leftarrow> ufs_ParseFromCodedStream zi c this;
     (input1, logs) \<leftarrow> ci_destroy zi c1;
     Some (ok \<and> ci_ConsumedEntireMessage c1, this1, input1)
   }"

definition ufs_ParseFromArray :: "byte list \<Rightarrow> UnknownFieldSet \<Rightarrow> (bool \<times> UnknownFieldSet) option" where
  "ufs_ParseFromArray data this = do {
     (ok, this1, input) \<leftarrow> ufs_ParseFromZeroCopyStream array_stream (ArrayInputStream data (-1)) this;
     Some (ok, this1)
   }"

definition ufs_ParseFromString :: "byte list \<Rightarrow> UnknownFieldSet \<Rightarrow> (bool \<times> UnknownFieldSet) option" where
  "ufs_ParseFromString data this = ufs_ParseFromArray data this"

section \<open>What was written is read back\<close>

lemma SkipMessage_end:
  assumes "\<And>f. f \<in> set fs \<Longrightarrow> uf_ok (100 - recursion_depth input) f"
    and "cis_buf input = SerializeUnknownFieldsToArray fs" and "cis_size input < kDefaultTotalBytesLimit"
    and "2 * length (cis_buf input) + 1 \<le> n"
  shows "\<exists>input'. SkipMessage_f n input ufs = Some (True, input', ufs @ fs) \<and>
     legitimate_message_end input' \<and> last_tag input' = 0"
  using assms
proof (induction fs arbitrary: n input ufs)
  case Nil
  then show ?case
    by (cases n) (auto simp: ReadTag_def ReadTagFallback_def safe_unrolled_def)
next
  case (Cons f fs)
  let ?t = "uf_tag f" and ?r = "SerializeUnknownFieldsToArray fs"
  have buf: "cis_buf input = WriteTagToArray ?t @ uf_payload f @ ?r"
    using Cons.prems(2) by (simp add: Serialize_split)
  then have "ReadVarint64Slow (cis_buf input) = (Some (ucast ?t), uf_payload f @ ?r)"
    by (simp only: ReadVarint64Slow_tag append_assoc)
  note r = ReadTag_slow [OF this, simplified]
  have ok: "uf_ok (100 - recursion_depth input) f" using Cons.prems(1) by simp
  note t = uf_ok_number [OF ok]
  obtain m where n: "n = Suc m" using Cons.prems(4) by (cases n) auto
  have len: "2 * length (uf_payload f @ ?r) + 2 \<le> m"
    using Cons.prems(4) n length_WriteTagToArray_pos [of ?t] unfolding buf
    by (cases "length (WriteTagToArray ?t)") auto
  let ?i = "input\<lparr> cis_buf := uf_payload f @ ?r, last_tag := ?t \<rparr>"
  let ?j = "?i\<lparr> cis_buf := ?r, last_tag := uf_last f (last_tag ?i) \<rparr>"
  have "SkipField_f m ?i ?t ufs = Some (True, ?j, ufs @ [f])"
    using skip_writes_all [of f] ok len unfolding skip_writes_def by simp
  moreover have "\<exists>input'. SkipMessage_f m ?j (ufs @ [f]) = Some (True, input', (ufs @ [f]) @ fs) \<and>
      legitimate_message_end input' \<and> last_tag input' = 0"
    by (rule Cons.IH) (use Cons.prems(1,3) len in auto)
  ultimately show ?case using n r t by auto
qed

context zero_copy_input begin

theorem unknown_fields_read:
  assumes wf: "zv_wf vw s" and w: "zv_left vw s = SerializeUnknownFieldsToArray us"
    and ok: "\<And>u. u \<in> set us \<Longrightarrow> uf_ok 100 u" and len: "length (zv_left vw s) < 67108864"
  shows "\<exists>s'. ufs_ParseFromZeroCopyStream zi s this = Some (True, us, s') \<and> zv_wf vw s' \<and> zv_left vw s' = []"
proof -
  from create_agrees [OF wf len] obtain c where c: "ci_create zi s = Some c"
    "agrees vw c (CodedInputStream (zv_left vw s))" "ahead vw c = zv_left vw s" "\<not> ci_legit c" by blast
  let ?f = "CodedInputStream (zv_left vw s)" and ?n = "2 * length (zv_left vw s) + 1"
  have "\<exists>f'. SkipMessage_f ?n ?f [] = Some (True, f', [] @ us) \<and> legitimate_message_end f' \<and> last_tag f' = 0"
    by (rule SkipMessage_end) (use ok len in \<open>auto simp: CodedInputStream_def w\<close>)
  then obtain f' where f': "SkipMessage_f ?n ?f [] = Some (True, f', us)" "legitimate_message_end f'" by auto
  from skip_agrees(2) [OF f'(1) c(2)] obtain c' where c': "ci_skip zi None c [] = Some (True, c', us)"
    "on_way vw c c'" "flags_agree c' f'" by blast
  have l: "ci_legit c'" using c'(3) f'(2) by (simp add: flags_agree_def)
  have "visible vw c = zv_left vw s" using c(2) by (simp add: agrees_def CodedInputStream_def)
  with destroy_way [OF c'(2)] l c(3,4) obtain s' logs where
    "ci_destroy zi c' = Some (s', logs)" "zv_wf vw s'" "zv_left vw s' = []" by auto
  with c(1) c'(1) l show ?thesis
    by (simp add: ufs_ParseFromZeroCopyStream_def ufs_ParseFromCodedStream_def ufs_MergeFromCodedStream_def
        ci_SkipMessage_def ci_ConsumedEntireMessage_def UnknownFieldSet_MergeFrom_def)
qed

end

lemma unknown_fields_from_array:
  assumes "\<And>u. u \<in> set us \<Longrightarrow> uf_ok 100 u" and "length (SerializeUnknownFieldsToArray us) < 67108864"
  shows "ufs_ParseFromArray (SerializeUnknownFieldsToArray us) this = Some (True, us)"
proof -
  let ?a = "ArrayInputStream (SerializeUnknownFieldsToArray us) (-1)"
  have "zv_wf array_view ?a" "zv_left array_view ?a = SerializeUnknownFieldsToArray us"
    by (auto simp: array_view_def ArrayInputStream_def)
  moreover obtain s' where "ufs_ParseFromZeroCopyStream array_stream ?a this = Some (True, us, s')"
    using array.unknown_fields_read [OF calculation assms(1), where this = this] assms(2) calculation(2)
    by auto
  ultimately show ?thesis by (simp add: ufs_ParseFromArray_def)
qed

end
