(* ===== verification/GF_Registration.thy ===== *)
theory GF_Registration
  imports GF_Regist GF_Shutdown
begin

text \<open>
  How the generated classes register themselves: the static parts of \<open>Regist.pb.cpp\<close>,
  \<open>Shutdown.pb.cpp\<close> and \<open>define.pb.cpp\<close> (default instances, descriptors, reflection objects), the
  table of generated messages in \<open>src/include/google/protobuf/message.cc\<close>, the pool of generated files
  (\<open>descriptor.cc\<close>, here the names of its files) and the list of shutdown functions
  (\<open>stubs/common.cc\<close>, \<open>stubs/once.cc\<close>). Then the functions of the classes that take any \<open>Message\<close>.

  All of it runs in one thread, before \<open>main\<close> and after it. An object is \<open>Null\<close>, \<open>Live\<close> or
  \<open>Deleted\<close>; what is used in another state than it must be is a fault.
\<close>

section \<open>The static state\<close>

datatype gen_file = File_define | File_Regist | File_Shutdown

datatype gen_class = Class_Regist | Class_Regist_Req | Class_Regist_Res | Class_Shutdown | Class_Shutdown_Req | Class_Shutdown_Res

fun file_classes :: "gen_file \<Rightarrow> gen_class list" where
  "file_classes File_define = []"
| "file_classes File_Regist = [Class_Regist, Class_Regist_Req, Class_Regist_Res]"
| "file_classes File_Shutdown = [Class_Shutdown, Class_Shutdown_Req, Class_Shutdown_Res]"

fun class_file :: "gen_class \<Rightarrow> gen_file" where
  "class_file Class_Regist = File_Regist"
| "class_file Class_Regist_Req = File_Regist"
| "class_file Class_Regist_Res = File_Regist"
| "class_file Class_Shutdown = File_Shutdown"
| "class_file Class_Shutdown_Req = File_Shutdown"
| "class_file Class_Shutdown_Res = File_Shutdown"

datatype once_state = Once_uninitialized | Once_executing | Once_done

datatype object = Null | Live | Deleted

datatype shutdown_func = DeleteGeneratedPool | ShutdownGeneratedMessageFactory | ShutdownFile gen_file

record pb_static =
  already_here :: "gen_file \<Rightarrow> bool"
  pool_once :: once_state
  pool_files :: "gen_file list option"           \<comment> \<open>\<open>generated_database_\<close> and \<open>generated_pool_\<close>\<close>
  factory_once :: once_state
  factory :: object                              \<comment> \<open>\<open>generated_message_factory_\<close>\<close>
  file_map :: "gen_file list"
  type_map :: "gen_class list"
  default_instances :: "gen_class \<Rightarrow> object"
  assign_once :: "gen_file \<Rightarrow> once_state"
  descriptors :: "gen_class \<Rightarrow> bool"            \<comment> \<open>not \<open>NULL\<close>\<close>
  enum_descriptor :: bool
  reflections :: "gen_class \<Rightarrow> object"
  shutdown_once :: once_state
  shutdown_functions :: "shutdown_func list option"

definition pb_start :: pb_static where
  "pb_start = \<lparr> already_here = (\<lambda>f. False), pool_once = Once_uninitialized, pool_files = None,
     factory_once = Once_uninitialized, factory = Null, file_map = [], type_map = [],
     default_instances = (\<lambda>c. Null), assign_once = (\<lambda>f. Once_uninitialized), descriptors = (\<lambda>c. False),
     enum_descriptor = False, reflections = (\<lambda>c. Null), shutdown_once = Once_uninitialized,
     shutdown_functions = None \<rparr>"

text \<open>\<open>GoogleOnceInit\<close>, with the variable given by its value and its assignment. A closure that comes
  back to its own variable waits for itself.\<close>

definition GoogleOnceInit :: "(pb_static \<Rightarrow> once_state) \<Rightarrow> (once_state \<Rightarrow> pb_static \<Rightarrow> pb_static) \<Rightarrow>
    (pb_static \<Rightarrow> pb_static res) \<Rightarrow> pb_static \<Rightarrow> pb_static res" where
  "GoogleOnceInit once put_once init s =
     (case once s of
        Once_done \<Rightarrow> Inr s
      | Once_executing \<Rightarrow> Inl Spin
      | Once_uninitialized \<Rightarrow>
          bind_res (init (put_once Once_executing s)) (\<lambda>s1. Inr (put_once Once_done s1)))"

section \<open>The tables\<close>

definition InitShutdownFunctionsOnce :: "pb_static \<Rightarrow> pb_static res" where
  "InitShutdownFunctionsOnce =
     GoogleOnceInit shutdown_once (\<lambda>x s. s\<lparr> shutdown_once := x \<rparr>) (\<lambda>s. Inr (s\<lparr> shutdown_functions := Some [] \<rparr>))"

definition OnShutdown :: "shutdown_func \<Rightarrow> pb_static \<Rightarrow> pb_static res" where
  "OnShutdown func s =
     bind_res (InitShutdownFunctionsOnce s) (\<lambda>s1.
       case shutdown_functions s1 of
         None \<Rightarrow> Inl Null_deref
       | Some fs \<Rightarrow> Inr (s1\<lparr> shutdown_functions := Some (fs @ [func]) \<rparr>))"

definition InitGeneratedPoolOnce :: "pb_static \<Rightarrow> pb_static res" where
  "InitGeneratedPoolOnce =
     GoogleOnceInit pool_once (\<lambda>x s. s\<lparr> pool_once := x \<rparr>)
       (\<lambda>s. OnShutdown DeleteGeneratedPool (s\<lparr> pool_files := Some [] \<rparr>))"

text \<open>\<open>EncodedDescriptorDatabase::Add\<close> refuses a name it has.\<close>

definition InternalAddGeneratedFile :: "gen_file \<Rightarrow> pb_static \<Rightarrow> pb_static res" where
  "InternalAddGeneratedFile f s =
     bind_res (InitGeneratedPoolOnce s) (\<lambda>s1.
       case pool_files s1 of
         None \<Rightarrow> Inl Null_deref
       | Some fs \<Rightarrow>
           if f \<in> set fs then Inl Check_failed else Inr (s1\<lparr> pool_files := Some (fs @ [f]) \<rparr>))"

text \<open>\<open>generated_pool()->FindFileByName(...)\<close>.\<close>

definition find_generated_file :: "gen_file \<Rightarrow> pb_static \<Rightarrow> (bool \<times> pb_static) res" where
  "find_generated_file f s =
     bind_res (InitGeneratedPoolOnce s) (\<lambda>s1.
       case pool_files s1 of None \<Rightarrow> Inl Null_deref | Some fs \<Rightarrow> Inr (f \<in> set fs, s1))"

definition factory_singleton :: "pb_static \<Rightarrow> pb_static res" where
  "factory_singleton s =
     bind_res (GoogleOnceInit factory_once (\<lambda>x s. s\<lparr> factory_once := x \<rparr>)
       (\<lambda>s. OnShutdown ShutdownGeneratedMessageFactory (s\<lparr> factory := Live \<rparr>)) s) (\<lambda>s1.
       case factory s1 of Live \<Rightarrow> Inr s1 | Null \<Rightarrow> Inl Null_deref | Deleted \<Rightarrow> Inl (Dangling 0))"

definition InternalRegisterGeneratedFile :: "gen_file \<Rightarrow> pb_static \<Rightarrow> pb_static res" where
  "InternalRegisterGeneratedFile f s =
     bind_res (factory_singleton s) (\<lambda>s1.
       if f \<in> set (file_map s1) then Inl Check_failed else Inr (s1\<lparr> file_map := file_map s1 @ [f] \<rparr>))"

text \<open>\<open>RegisterType\<close> logs a type it has already; the prototype is the default instance of the class.\<close>

definition InternalRegisterGeneratedMessage :: "gen_class \<Rightarrow> pb_static \<Rightarrow> pb_static res" where
  "InternalRegisterGeneratedMessage c s =
     bind_res (factory_singleton s) (\<lambda>s1.
       Inr (if c \<in> set (type_map s1) then s1 else s1\<lparr> type_map := type_map s1 @ [c] \<rparr>))"

section \<open>The generated files\<close>

definition AddDesc :: "gen_file \<Rightarrow> pb_static \<Rightarrow> pb_static res" where
  "AddDesc f s =
     (if already_here s f then Inr s
      else bind_res (InternalAddGeneratedFile f (s\<lparr> already_here := (already_here s)(f := True) \<rparr>)) (\<lambda>s1.
           bind_res (InternalRegisterGeneratedFile f s1) (\<lambda>s2.
           OnShutdown (ShutdownFile f)
             (s2\<lparr> default_instances := (\<lambda>c. if class_file c = f then Live else default_instances s2 c) \<rparr>))))"

definition default_instance :: "gen_class \<Rightarrow> pb_static \<Rightarrow> (object \<times> pb_static) res" where
  "default_instance c s =
     bind_res (if default_instances s c = Null then AddDesc (class_file c) s else Inr s) (\<lambda>s1.
       if default_instances s1 c = Null then Inl Null_deref else Inr (default_instances s1 c, s1))"

text \<open>A \<open>GeneratedMessageReflection\<close> is made for each class; the factory is created if it is not
  there.\<close>

definition AssignDesc :: "gen_file \<Rightarrow> pb_static \<Rightarrow> pb_static res" where
  "AssignDesc f s =
     bind_res (AddDesc f s) (\<lambda>s1.
     bind_res (find_generated_file f s1) (\<lambda>(found, s2).
       if \<not> found then Inl Check_failed
       else if f = File_define then Inr (s2\<lparr> enum_descriptor := True \<rparr>)
       else bind_res (factory_singleton s2) (\<lambda>s3.
         Inr (s3\<lparr> descriptors := (\<lambda>c. class_file c = f \<or> descriptors s3 c),
                  reflections := (\<lambda>c. if class_file c = f then Live else reflections s3 c) \<rparr>))))"

definition AssignDescriptorsOnce :: "gen_file \<Rightarrow> pb_static \<Rightarrow> pb_static res" where
  "AssignDescriptorsOnce f =
     GoogleOnceInit (\<lambda>s. assign_once s f) (\<lambda>x s. s\<lparr> assign_once := (assign_once s)(f := x) \<rparr>) (AssignDesc f)"

definition register_class :: "gen_class \<Rightarrow> pb_static \<Rightarrow> pb_static res" where
  "register_class c s =
     bind_res (default_instance c s) (\<lambda>(prototype, s1). InternalRegisterGeneratedMessage c s1)"

definition RegisterTypes :: "gen_file \<Rightarrow> pb_static \<Rightarrow> pb_static res" where
  "RegisterTypes f s = bind_res (AssignDescriptorsOnce f s) (fold_res register_class (file_classes f))"

definition GetMetadata :: "gen_class \<Rightarrow> pb_static \<Rightarrow> (bool \<times> object \<times> pb_static) res" where
  "GetMetadata c s =
     bind_res (AssignDescriptorsOnce (class_file c) s) (\<lambda>s1. Inr (descriptors s1 c, reflections s1 c, s1))"

definition class_descriptor :: "gen_class \<Rightarrow> pb_static \<Rightarrow> (bool \<times> pb_static) res" where
  "class_descriptor c s =
     bind_res (AssignDescriptorsOnce (class_file c) s) (\<lambda>s1. Inr (descriptors s1 c, s1))"

definition MessageType_descriptor :: "pb_static \<Rightarrow> (bool \<times> pb_static) res" where
  "MessageType_descriptor s =
     bind_res (AssignDescriptorsOnce File_define s) (\<lambda>s1. Inr (enum_descriptor s1, s1))"

text \<open>\<open>generated_factory()->GetPrototype(...)\<close>, for the descriptor of a generated class; the result says
  whether there is a prototype.\<close>

definition GetPrototype :: "gen_class \<Rightarrow> pb_static \<Rightarrow> (bool \<times> pb_static) res" where
  "GetPrototype c s =
     bind_res (factory_singleton s) (\<lambda>s1.
       if c \<in> set (type_map s1) then Inr (True, s1)
       else if class_file c \<notin> set (file_map s1) then Inr (False, s1)
       else bind_res (RegisterTypes (class_file c) s1) (\<lambda>s2. Inr (c \<in> set (type_map s2), s2)))"

section \<open>The end of the library\<close>

text \<open>\<open>delete\<close> of a pointer: \<open>NULL\<close> is allowed, and the pointer keeps its value.\<close>

definition delete_object :: "object \<Rightarrow> object res" where
  "delete_object ob = (case ob of Null \<Rightarrow> Inr Null | Live \<Rightarrow> Inr Deleted | Deleted \<Rightarrow> Inl (Dangling 0))"

definition delete_generated :: "gen_class \<Rightarrow> pb_static \<Rightarrow> pb_static res" where
  "delete_generated c s =
     bind_res (delete_object (default_instances s c)) (\<lambda>d.
     bind_res (delete_object (reflections s c)) (\<lambda>r.
       Inr (s\<lparr> default_instances := (default_instances s)(c := d), reflections := (reflections s)(c := r) \<rparr>)))"

fun run_shutdown :: "shutdown_func \<Rightarrow> pb_static \<Rightarrow> pb_static res" where
  "run_shutdown DeleteGeneratedPool s = Inr (s\<lparr> pool_files := None \<rparr>)"
| "run_shutdown ShutdownGeneratedMessageFactory s =
     bind_res (delete_object (factory s)) (\<lambda>d. Inr (s\<lparr> factory := d \<rparr>))"
| "run_shutdown (ShutdownFile f) s = fold_res delete_generated (file_classes f) s"

text \<open>No shutdown function adds another, so the loop is over the list as it was.\<close>

definition ShutdownProtobufLibrary :: "pb_static \<Rightarrow> pb_static res" where
  "ShutdownProtobufLibrary s =
     bind_res (InitShutdownFunctionsOnce s) (\<lambda>s1.
       case shutdown_functions s1 of
         None \<Rightarrow> Inr s1
       | Some fs \<Rightarrow> bind_res (fold_res run_shutdown fs s1) (\<lambda>s2. Inr (s2\<lparr> shutdown_functions := None \<rparr>)))"

section \<open>What holds until the library is shut down\<close>

definition pending :: "pb_static \<Rightarrow> shutdown_func list" where
  "pending s = (case shutdown_functions s of None \<Rightarrow> [] | Some fs \<Rightarrow> fs)"

definition generated_files :: "pb_static \<Rightarrow> gen_file list" where
  "generated_files s = (case pool_files s of None \<Rightarrow> [] | Some fs \<Rightarrow> fs)"

text \<open>The descriptors of the files \<open>D\<close> are assigned, those of \<open>E\<close> are being assigned.\<close>

definition hooks_ok :: "pb_static \<Rightarrow> bool" where
  "hooks_ok s \<longleftrightarrow> (shutdown_once s = Once_uninitialized \<and> shutdown_functions s = None) \<or>
     (shutdown_once s = Once_done \<and> shutdown_functions s \<noteq> None)"

definition pool_ok :: "pb_static \<Rightarrow> bool" where
  "pool_ok s \<longleftrightarrow> (pool_once s = Once_uninitialized \<and> pool_files s = None) \<or>
     (pool_once s = Once_done \<and> pool_files s \<noteq> None)"

definition factory_ok :: "pb_static \<Rightarrow> bool" where
  "factory_ok s \<longleftrightarrow> (factory_once s = Once_uninitialized \<and> factory s = Null) \<or>
     (factory_once s = Once_done \<and> factory s = Live)"

text \<open>The files in the pool, in the table of files, with default instances, with a shutdown function.\<close>

definition static_parts :: "gen_file set \<Rightarrow> gen_file set \<Rightarrow> gen_file set \<Rightarrow> gen_file set \<Rightarrow>
    gen_file set \<Rightarrow> gen_file set \<Rightarrow> pb_static \<Rightarrow> bool" where
  "static_parts P F L H D E s \<longleftrightarrow> hooks_ok s \<and> pool_ok s \<and> factory_ok s \<and>
     set (generated_files s) = P \<and> set (file_map s) = F \<and> D \<subseteq> L \<and> D \<subseteq> H \<and>
     (\<forall>c. default_instances s c = (if class_file c \<in> L then Live else Null)) \<and>
     (\<forall>f. assign_once s f = (if f \<in> E then Once_executing else if f \<in> D then Once_done else Once_uninitialized)) \<and>
     (\<forall>c. descriptors s c = (class_file c \<in> D)) \<and> enum_descriptor s = (File_define \<in> D) \<and>
     (\<forall>c. reflections s c = (if class_file c \<in> D then Live else Null)) \<and>
     (\<forall>c \<in> set (type_map s). class_file c \<in> D) \<and>
     distinct (pending s) \<and>
     (\<forall>f. (ShutdownFile f \<in> set (pending s)) = (f \<in> H)) \<and>
     (DeleteGeneratedPool \<in> set (pending s)) = (pool_once s = Once_done) \<and>
     (ShutdownGeneratedMessageFactory \<in> set (pending s)) = (factory_once s = Once_done)"

abbreviation added :: "pb_static \<Rightarrow> gen_file set" where
  "added s \<equiv> Collect (already_here s)"

definition static_inv :: "gen_file set \<Rightarrow> gen_file set \<Rightarrow> pb_static \<Rightarrow> bool" where
  "static_inv D E s \<longleftrightarrow> static_parts (added s) (added s) (added s) (added s) D E s"

lemmas static_defs = static_parts_def hooks_ok_def pool_ok_def factory_ok_def generated_files_def pending_def

lemma start_inv: "static_inv {} {} pb_start"
  by (simp add: static_inv_def static_defs pb_start_def)

lemma OnShutdown_appends:
  "hooks_ok s \<Longrightarrow> OnShutdown func s =
     Inr (s\<lparr> shutdown_once := Once_done, shutdown_functions := Some (pending s @ [func]) \<rparr>)"
  by (auto simp: hooks_ok_def OnShutdown_def InitShutdownFunctionsOnce_def GoogleOnceInit_def pending_def)

lemma pool_init:
  assumes "static_parts P F L H D E s"
  shows "\<exists>s'. InitGeneratedPoolOnce s = Inr s' \<and> static_parts P F L H D E s' \<and>
    pool_files s' = Some (generated_files s) \<and> already_here s' = already_here s"
proof (cases "pool_once s = Once_done")
  case True
  with assms show ?thesis
    by (auto simp: InitGeneratedPoolOnce_def GoogleOnceInit_def static_parts_def pool_ok_def generated_files_def)
next
  case False
  then have "pool_once s = Once_uninitialized" "pool_files s = None" "hooks_ok s"
    using assms by (auto simp: static_parts_def pool_ok_def)
  moreover from this have "hooks_ok (s\<lparr> pool_once := Once_executing, pool_files := Some [] \<rparr>)" by (simp add: hooks_ok_def)
  ultimately show ?thesis using assms OnShutdown_appends [of "s\<lparr> pool_once := Once_executing, pool_files := Some [] \<rparr>"]
    by (auto simp: InitGeneratedPoolOnce_def GoogleOnceInit_def static_defs split: option.splits)
qed

lemma factory_init:
  assumes "static_parts P F L H D E s"
  shows "\<exists>s'. factory_singleton s = Inr s' \<and> static_parts P F L H D E s' \<and>
    already_here s' = already_here s \<and> file_map s' = file_map s \<and> type_map s' = type_map s"
proof (cases "factory_once s = Once_done")
  case True
  with assms show ?thesis by (auto simp: factory_singleton_def GoogleOnceInit_def static_parts_def factory_ok_def)
next
  case False
  then have "factory_once s = Once_uninitialized" "factory s = Null" "hooks_ok s"
    using assms by (auto simp: static_parts_def factory_ok_def)
  moreover from this have "hooks_ok (s\<lparr> factory_once := Once_executing, factory := Live \<rparr>)" by (simp add: hooks_ok_def)
  ultimately show ?thesis using assms OnShutdown_appends [of "s\<lparr> factory_once := Once_executing, factory := Live \<rparr>"]
    by (auto simp: factory_singleton_def GoogleOnceInit_def static_defs split: option.splits)
qed

text \<open>The four steps of \<open>AddDesc\<close>.\<close>

lemma file_added:
  assumes "static_parts P F L H D E s" and "f \<notin> P"
  shows "\<exists>s'. InternalAddGeneratedFile f s = Inr s' \<and> static_parts (insert f P) F L H D E s' \<and>
    already_here s' = already_here s"
proof -
  from pool_init [OF assms(1)] obtain s1 where s1: "InitGeneratedPoolOnce s = Inr s1" "static_parts P F L H D E s1"
    "pool_files s1 = Some (generated_files s)" "already_here s1 = already_here s" by blast
  have "f \<notin> set (generated_files s)" using assms by (simp add: static_parts_def)
  moreover have "static_parts (insert f P) F L H D E (s1\<lparr> pool_files := Some (generated_files s @ [f]) \<rparr>)"
    using s1(2,3) assms(1) by (auto simp: static_defs)
  ultimately show ?thesis using s1 by (simp add: InternalAddGeneratedFile_def)
qed

lemma file_registered:
  assumes "static_parts P F L H D E s" and "f \<notin> F"
  shows "\<exists>s'. InternalRegisterGeneratedFile f s = Inr s' \<and> static_parts P (insert f F) L H D E s' \<and>
    already_here s' = already_here s"
proof -
  from factory_init [OF assms(1)] obtain s1 where s1: "factory_singleton s = Inr s1" "static_parts P F L H D E s1"
    "already_here s1 = already_here s" "file_map s1 = file_map s" by blast
  have "f \<notin> set (file_map s1)" using s1(2) assms(2) by (simp add: static_parts_def)
  moreover have "static_parts P (insert f F) L H D E (s1\<lparr> file_map := file_map s1 @ [f] \<rparr>)"
    using s1(2) by (auto simp: static_defs)
  ultimately show ?thesis using s1 by (simp add: InternalRegisterGeneratedFile_def)
qed

lemma hook_added:
  assumes "static_parts P F L H D E s" and "f \<notin> H"
  shows "\<exists>s'. OnShutdown (ShutdownFile f) s = Inr s' \<and> static_parts P F L (insert f H) D E s' \<and>
    already_here s' = already_here s"
proof -
  have "hooks_ok s" using assms(1) by (simp add: static_parts_def)
  moreover have "static_parts P F L (insert f H) D E
      (s\<lparr> shutdown_once := Once_done, shutdown_functions := Some (pending s @ [ShutdownFile f]) \<rparr>)"
    using assms by (auto simp: static_parts_def hooks_ok_def pool_ok_def factory_ok_def generated_files_def
        pending_def [of "s\<lparr> shutdown_once := Once_done, shutdown_functions := _ \<rparr>"])
  ultimately show ?thesis by (simp add: OnShutdown_appends)
qed

lemma AddDesc_adds:
  assumes "static_inv D E s"
  shows "\<exists>s'. AddDesc f s = Inr s' \<and> static_inv D E s' \<and> added s' = insert f (added s)"
proof (cases "already_here s f")
  case True
  then show ?thesis using assms by (auto simp: AddDesc_def)
next
  case False
  let ?A = "added s" and ?s = "s\<lparr> already_here := (already_here s)(f := True) \<rparr>"
  have "static_parts ?A ?A ?A ?A D E ?s" using assms by (simp add: static_inv_def static_defs)
  from file_added [OF this, of f] False obtain s1 where s1: "InternalAddGeneratedFile f ?s = Inr s1"
    "static_parts (insert f ?A) ?A ?A ?A D E s1" "already_here s1 = already_here ?s" by auto
  from file_registered [OF s1(2), of f] False obtain s2 where s2: "InternalRegisterGeneratedFile f s1 = Inr s2"
    "static_parts (insert f ?A) (insert f ?A) ?A ?A D E s2" "already_here s2 = already_here ?s" using s1(3) by auto
  let ?s2 = "s2\<lparr> default_instances := (\<lambda>c. if class_file c = f then Live else default_instances s2 c) \<rparr>"
  have "static_parts (insert f ?A) (insert f ?A) (insert f ?A) ?A D E ?s2"
    using s2(2) by (auto simp: static_defs)
  from hook_added [OF this, of f] False obtain s3 where s3: "OnShutdown (ShutdownFile f) ?s2 = Inr s3"
    "static_parts (insert f ?A) (insert f ?A) (insert f ?A) (insert f ?A) D E s3"
    "already_here s3 = already_here ?s" using s2(3) by auto
  have "added s3 = insert f ?A" by (auto simp: s3(3))
  with s3(2) have "static_inv D E s3" unfolding static_inv_def by simp
  with \<open>added s3 = _\<close> s1(1) s2(1) s3(1) False show ?thesis by (simp add: AddDesc_def)
qed

lemma static_once: "static_inv D E s \<Longrightarrow> f \<notin> E \<Longrightarrow>
    static_inv D (insert f E) (s\<lparr> assign_once := (assign_once s)(f := Once_executing) \<rparr>)"
  by (auto simp: static_inv_def static_defs)

lemma static_once_done: "static_inv D (insert f E) s \<Longrightarrow> f \<in> D \<Longrightarrow> f \<notin> E \<Longrightarrow>
    static_inv D E (s\<lparr> assign_once := (assign_once s)(f := Once_done) \<rparr>)"
  by (auto simp: static_inv_def static_defs)

lemma AssignDesc_assigns:
  assumes "static_inv D E s" and "f \<in> E" and "f \<notin> D"
  shows "\<exists>s'. AssignDesc f s = Inr s' \<and> static_inv (insert f D) E s' \<and> added s' = insert f (added s)"
proof -
  from AddDesc_adds [OF assms(1), of f] obtain s1 where s1: "AddDesc f s = Inr s1" "static_inv D E s1"
    "added s1 = insert f (added s)" by blast
  let ?A = "added s1"
  from pool_init [OF s1(2) [unfolded static_inv_def]] obtain s2 where s2: "InitGeneratedPoolOnce s1 = Inr s2"
    "static_parts ?A ?A ?A ?A D E s2" "pool_files s2 = Some (generated_files s1)" "already_here s2 = already_here s1" by blast
  have "f \<in> set (generated_files s1)" using s1(2,3) by (auto simp: static_inv_def static_parts_def)
  then have found: "find_generated_file f s1 = Inr (True, s2)" using s2(1,3) by (simp add: find_generated_file_def)
  have A2: "added s2 = ?A" by (simp add: s2(4))
  show ?thesis
  proof (cases "f = File_define")
    case True
    have cf: "class_file c \<noteq> File_define" for c by (cases c) auto
    have "static_parts ?A ?A ?A ?A (insert f D) E (s2\<lparr> enum_descriptor := True \<rparr>)"
      using s2(2) s1(3) assms(2) cf True by (auto simp: static_defs)
    with s1 found A2 True show ?thesis by (simp add: AssignDesc_def static_inv_def)
  next
    case False
    from factory_init [OF s2(2)] obtain s3 where s3: "factory_singleton s2 = Inr s3" "static_parts ?A ?A ?A ?A D E s3"
      "already_here s3 = already_here s2" by blast
    have "static_parts ?A ?A ?A ?A (insert f D) E
       (s3\<lparr> descriptors := (\<lambda>c. class_file c = f \<or> descriptors s3 c),
            reflections := (\<lambda>c. if class_file c = f then Live else reflections s3 c) \<rparr>)"
      using s3(2) s1(3) assms(2) False by (auto simp: static_defs)
    with s1 found s3 s2(4) False show ?thesis by (simp add: AssignDesc_def static_inv_def)
  qed
qed

lemma AssignDescriptorsOnce_assigns:
  assumes "static_inv D E s" and "f \<notin> E"
  shows "\<exists>s'. AssignDescriptorsOnce f s = Inr s' \<and> static_inv (insert f D) E s' \<and> added s \<subseteq> added s' \<and> f \<in> added s'"
proof (cases "f \<in> D")
  case True
  moreover from this assms have "f \<in> added s" by (auto simp: static_inv_def static_parts_def)
  ultimately show ?thesis using assms
    by (auto simp: AssignDescriptorsOnce_def GoogleOnceInit_def insert_absorb static_inv_def static_parts_def)
next
  case False
  from AssignDesc_assigns [OF static_once [OF assms] _ False] obtain s1 where
    s1: "AssignDesc f (s\<lparr> assign_once := (assign_once s)(f := Once_executing) \<rparr>) = Inr s1"
      "static_inv (insert f D) (insert f E) s1" "added s1 = insert f (added s)" by auto
  from static_once_done [OF s1(2) _ assms(2)] s1 assms False show ?thesis
    by (auto simp: AssignDescriptorsOnce_def GoogleOnceInit_def static_inv_def static_parts_def)
qed

lemma default_instance_lives:
  assumes "static_inv D E s"
  shows "\<exists>s'. default_instance c s = Inr (Live, s') \<and> static_inv D E s' \<and> added s \<subseteq> added s' \<and>
    type_map s' = type_map s"
proof -
  have tm: "type_map s' = type_map s" if "AddDesc f s = Inr s'" for f s s'
    using that by (auto simp: AddDesc_def InternalAddGeneratedFile_def InternalRegisterGeneratedFile_def
        OnShutdown_def InitGeneratedPoolOnce_def InitShutdownFunctionsOnce_def factory_singleton_def GoogleOnceInit_def
        split: if_splits option.splits once_state.splits object.splits)
  show ?thesis
  proof (cases "default_instances s c = Null")
    case True
    from AddDesc_adds [OF assms, of "class_file c"] obtain s1 where s1: "AddDesc (class_file c) s = Inr s1"
      "static_inv D E s1" "added s1 = insert (class_file c) (added s)" by blast
    then have "default_instances s1 c = Live" by (auto simp: static_inv_def static_parts_def)
    with True s1 tm [OF s1(1)] show ?thesis by (auto simp: default_instance_def)
  next
    case False
    with assms show ?thesis by (auto simp: default_instance_def static_inv_def static_parts_def)
  qed
qed

lemma register_class_registers:
  assumes "static_inv D E s" and "class_file c \<in> D"
  shows "\<exists>s'. register_class c s = Inr s' \<and> static_inv D E s' \<and> set (type_map s') = insert c (set (type_map s))"
proof -
  from default_instance_lives [OF assms(1), of c] obtain s1 where s1: "default_instance c s = Inr (Live, s1)"
    "static_inv D E s1" "type_map s1 = type_map s" by blast
  from factory_init [OF s1(2) [unfolded static_inv_def]] obtain s2 where s2: "factory_singleton s1 = Inr s2"
    "static_parts (added s1) (added s1) (added s1) (added s1) D E s2" "already_here s2 = already_here s1"
    "type_map s2 = type_map s1" by blast
  let ?s = "if c \<in> set (type_map s2) then s2 else s2\<lparr> type_map := type_map s2 @ [c] \<rparr>"
  have "static_inv D E ?s" using s2(2,3) assms(2) by (auto simp: static_inv_def static_defs)
  with s1 s2 show ?thesis
    by (simp add: register_class_def InternalRegisterGeneratedMessage_def insert_absorb)
qed

lemma classes_register:
  "static_inv D E s \<Longrightarrow> \<forall>c \<in> set cs. class_file c \<in> D \<Longrightarrow>
     \<exists>s'. fold_res register_class cs s = Inr s' \<and> static_inv D E s' \<and> set (type_map s') = set cs \<union> set (type_map s)"
proof (induction cs arbitrary: s)
  case (Cons c cs)
  from Cons.prems register_class_registers [of D E s c] obtain s1 where s1: "register_class c s = Inr s1"
    "static_inv D E s1" "set (type_map s1) = insert c (set (type_map s))" by auto
  with Cons.IH [OF s1(2)] Cons.prems(2) show ?case by auto
qed simp

lemma class_in_file: "c \<in> set (file_classes f) \<longleftrightarrow> class_file c = f"
  by (cases c; cases f) auto

lemma RegisterTypes_registers:
  assumes "static_inv D E s" and "f \<notin> E"
  shows "\<exists>s'. RegisterTypes f s = Inr s' \<and> static_inv (insert f D) E s' \<and> set (file_classes f) \<subseteq> set (type_map s')"
proof -
  from AssignDescriptorsOnce_assigns [OF assms] obtain s1 where
    s1: "AssignDescriptorsOnce f s = Inr s1" "static_inv (insert f D) E s1" by blast
  from classes_register [OF s1(2), of "file_classes f"] s1(1) show ?thesis
    by (auto simp: RegisterTypes_def class_in_file)
qed

lemma GetPrototype_finds:
  assumes "static_inv D {} s"
  shows "\<exists>s'. GetPrototype c s = Inr (class_file c \<in> added s, s') \<and> (\<exists>D'. static_inv D' {} s')"
proof -
  from factory_init [OF assms [unfolded static_inv_def]] obtain s1 where s1: "factory_singleton s = Inr s1"
    "static_inv D {} s1" "already_here s1 = already_here s"
    unfolding static_inv_def by metis
  have tm: "c \<in> set (type_map s1) \<Longrightarrow> class_file c \<in> added s1" "set (file_map s1) = added s1"
    using s1(2) by (auto simp: static_inv_def static_parts_def)
  from RegisterTypes_registers [OF s1(2), of "class_file c"] obtain s2 where
    "RegisterTypes (class_file c) s1 = Inr s2" "static_inv (insert (class_file c) D) {} s2" "c \<in> set (type_map s2)"
    by (auto simp: class_in_file subset_iff)
  with s1 tm show ?thesis by (auto simp: GetPrototype_def)
qed

section \<open>Every use of the static parts, and the end\<close>

text \<open>What a program does with them: the constructors of the three files, and the functions of a
  message class and of the factory that create what is missing.\<close>

datatype static_use =
    Use_AddDesc gen_file
  | Use_default_instance gen_class
  | Use_descriptor gen_class
  | Use_GetMetadata gen_class
  | Use_MessageType
  | Use_GetPrototype gen_class

fun use_static :: "static_use \<Rightarrow> pb_static \<Rightarrow> pb_static res" where
  "use_static (Use_AddDesc f) s = AddDesc f s"
| "use_static (Use_default_instance c) s = bind_res (default_instance c s) (\<lambda>(ob, s1). Inr s1)"
| "use_static (Use_descriptor c) s = bind_res (class_descriptor c s) (\<lambda>(known, s1). Inr s1)"
| "use_static (Use_GetMetadata c) s = bind_res (GetMetadata c s) (\<lambda>(known, refl, s1). Inr s1)"
| "use_static Use_MessageType s = bind_res (MessageType_descriptor s) (\<lambda>(known, s1). Inr s1)"
| "use_static (Use_GetPrototype c) s = bind_res (GetPrototype c s) (\<lambda>(found, s1). Inr s1)"

lemma use_static_keeps:
  assumes "static_inv D {} s"
  shows "\<exists>s' D'. use_static u s = Inr s' \<and> static_inv D' {} s'"
proof (cases u)
  case (Use_AddDesc f)
  with AddDesc_adds [OF assms, of f] show ?thesis by auto
next
  case (Use_default_instance c)
  with default_instance_lives [OF assms, of c] show ?thesis by auto
next
  case (Use_descriptor c)
  with AssignDescriptorsOnce_assigns [OF assms, of "class_file c"] show ?thesis by (auto simp: class_descriptor_def)
next
  case (Use_GetMetadata c)
  with AssignDescriptorsOnce_assigns [OF assms, of "class_file c"] show ?thesis by (auto simp: GetMetadata_def)
next
  case Use_MessageType
  with AssignDescriptorsOnce_assigns [OF assms, of File_define] show ?thesis by (auto simp: MessageType_descriptor_def)
next
  case (Use_GetPrototype c)
  with GetPrototype_finds [OF assms, of c] show ?thesis by auto
qed

lemma uses_keep:
  "static_inv D {} s \<Longrightarrow> \<exists>s' D'. fold_res use_static us s = Inr s' \<and> static_inv D' {} s'"
proof (induction us arbitrary: s D)
  case (Cons u us)
  with use_static_keeps [OF Cons.prems, of u] show ?case by fastforce
qed auto

lemma GetMetadata_known:
  assumes "static_inv D {} s"
  shows "\<exists>s'. GetMetadata c s = Inr (True, Live, s')"
  using AssignDescriptorsOnce_assigns [OF assms, of "class_file c"]
  by (auto simp: GetMetadata_def static_inv_def static_parts_def)

fun freed :: "object \<Rightarrow> object" where
  "freed Null = Null"
| "freed _ = Deleted"

lemma delete_object_freed: "ob \<noteq> Deleted \<Longrightarrow> delete_object ob = Inr (freed ob)"
  by (cases ob) (auto simp: delete_object_def)

lemma ShutdownFile_frees:
  assumes "\<And>c. class_file c = f \<Longrightarrow> default_instances s c \<noteq> Deleted \<and> reflections s c \<noteq> Deleted"
  shows "run_shutdown (ShutdownFile f) s = Inr (s\<lparr>
     default_instances := (\<lambda>c. if class_file c = f then freed (default_instances s c) else default_instances s c),
     reflections := (\<lambda>c. if class_file c = f then freed (reflections s c) else reflections s c) \<rparr>)"
proof -
  have "fold_res delete_generated cs s = Inr (s\<lparr>
     default_instances := (\<lambda>c. if c \<in> set cs then freed (default_instances s c) else default_instances s c),
     reflections := (\<lambda>c. if c \<in> set cs then freed (reflections s c) else reflections s c) \<rparr>)"
    if "distinct cs" "\<forall>c \<in> set cs. default_instances s c \<noteq> Deleted \<and> reflections s c \<noteq> Deleted" for cs and s :: pb_static
    using that
  proof (induction cs arbitrary: s)
    case (Cons c cs)
    let ?s = "s\<lparr> default_instances := (default_instances s)(c := freed (default_instances s c)),
      reflections := (reflections s)(c := freed (reflections s c)) \<rparr>"
    have "delete_generated c s = Inr ?s" using Cons.prems by (simp add: delete_generated_def delete_object_freed)
    moreover have "fold_res delete_generated cs ?s = Inr (?s\<lparr>
       default_instances := (\<lambda>x. if x \<in> set cs then freed (default_instances ?s x) else default_instances ?s x),
       reflections := (\<lambda>x. if x \<in> set cs then freed (reflections ?s x) else reflections ?s x) \<rparr>)"
      by (rule Cons.IH) (use Cons.prems in auto)
    ultimately show ?case using Cons.prems(1) by (auto intro!: arg_cong [of _ _ Inr] pb_static.equality)
  qed simp
  from this [of "file_classes f" s] assms show ?thesis
    by (cases f) (simp_all add: class_in_file [symmetric] del: file_classes.simps, simp_all)
qed

definition shut_by :: "shutdown_func list \<Rightarrow> pb_static \<Rightarrow> pb_static \<Rightarrow> bool" where
  "shut_by fs s s' \<longleftrightarrow>
     (\<forall>c. default_instances s' c = (if ShutdownFile (class_file c) \<in> set fs then freed (default_instances s c)
        else default_instances s c) \<and>
      reflections s' c = (if ShutdownFile (class_file c) \<in> set fs then freed (reflections s c)
        else reflections s c)) \<and>
     factory s' = (if ShutdownGeneratedMessageFactory \<in> set fs then freed (factory s) else factory s) \<and>
     pool_files s' = (if DeleteGeneratedPool \<in> set fs then None else pool_files s) \<and>
     shutdown_once s' = shutdown_once s"

definition unfreed :: "shutdown_func list \<Rightarrow> pb_static \<Rightarrow> bool" where
  "unfreed fs s \<longleftrightarrow> distinct fs \<and>
     (\<forall>c. ShutdownFile (class_file c) \<in> set fs \<longrightarrow> default_instances s c \<noteq> Deleted \<and> reflections s c \<noteq> Deleted) \<and>
     (ShutdownGeneratedMessageFactory \<in> set fs \<longrightarrow> factory s \<noteq> Deleted)"

lemma shutdown_step:
  assumes "unfreed (x # fs) s"
  shows "\<exists>s1. run_shutdown x s = Inr s1 \<and> unfreed fs s1 \<and> (\<forall>s'. shut_by fs s1 s' \<longrightarrow> shut_by (x # fs) s s')"
proof (cases x)
  case DeleteGeneratedPool
  with assms show ?thesis by (auto simp: unfreed_def shut_by_def)
next
  case ShutdownGeneratedMessageFactory
  with assms show ?thesis by (auto simp: unfreed_def shut_by_def delete_object_freed)
next
  case (ShutdownFile f)
  with assms have "run_shutdown x s = Inr (s\<lparr>
     default_instances := (\<lambda>c. if class_file c = f then freed (default_instances s c) else default_instances s c),
     reflections := (\<lambda>c. if class_file c = f then freed (reflections s c) else reflections s c) \<rparr>)" (is "_ = Inr ?s")
    using ShutdownFile_frees [of f s] by (auto simp: unfreed_def)
  moreover have "unfreed fs ?s" using assms ShutdownFile by (auto simp: unfreed_def)
  moreover have "shut_by (x # fs) s s'" if "shut_by fs ?s s'" for s'
    using that assms ShutdownFile by (auto simp: unfreed_def shut_by_def)
  ultimately show ?thesis by blast
qed

lemma shutdown_frees:
  "unfreed fs s \<Longrightarrow> \<exists>s'. fold_res run_shutdown fs s = Inr s' \<and> shut_by fs s s'"
proof (induction fs arbitrary: s)
  case (Cons x fs)
  from shutdown_step [OF Cons.prems] obtain s1 where "run_shutdown x s = Inr s1" "unfreed fs s1"
    "\<And>s'. shut_by fs s1 s' \<Longrightarrow> shut_by (x # fs) s s'" by blast
  with Cons.IH [of s1] show ?case by auto
qed (simp add: shut_by_def)

lemma library_shuts_down:
  assumes "static_inv D {} s"
  shows "\<exists>s'. ShutdownProtobufLibrary s = Inr s' \<and> (\<forall>c. default_instances s' c \<noteq> Live \<and> reflections s' c \<noteq> Live) \<and>
    factory s' \<noteq> Live \<and> pool_files s' = None \<and> ShutdownProtobufLibrary s' = Inr s' \<and>
    (\<forall>c. class_file c \<in> added s \<longrightarrow> default_instance c s' = Inr (Deleted, s')) \<and>
    (\<forall>func. OnShutdown func s' = Inl Null_deref)"
proof -
  have "hooks_ok s" using assms by (simp add: static_inv_def static_parts_def)
  then obtain s1 where s1: "InitShutdownFunctionsOnce s = Inr s1" "static_inv D {} s1"
    "shutdown_functions s1 = Some (pending s1)" "already_here s1 = already_here s" "shutdown_once s1 = Once_done"
  proof (cases "shutdown_once s = Once_done")
    case True
    with \<open>hooks_ok s\<close> that [of s] assms show thesis
      by (auto simp: hooks_ok_def InitShutdownFunctionsOnce_def GoogleOnceInit_def pending_def)
  next
    case False
    let ?s = "s\<lparr> shutdown_once := Once_done, shutdown_functions := Some [] \<rparr>"
    have "shutdown_once s = Once_uninitialized" "shutdown_functions s = None"
      using False \<open>hooks_ok s\<close> by (auto simp: hooks_ok_def)
    moreover from this have "static_inv D {} ?s" using assms by (simp add: static_inv_def static_defs) blast
    ultimately show thesis
      by (intro that [of ?s]) (simp_all add: InitShutdownFunctionsOnce_def GoogleOnceInit_def pending_def)
  qed
  have i: "distinct (pending s1)" "\<And>f. ShutdownFile f \<in> set (pending s1) \<longleftrightarrow> f \<in> added s"
    "\<And>c. default_instances s1 c = (if class_file c \<in> added s then Live else Null)"
    "\<And>c. reflections s1 c = (if class_file c \<in> D then Live else Null)" "D \<subseteq> added s"
    "DeleteGeneratedPool \<in> set (pending s1) \<or> pool_files s1 = None"
    "factory s1 \<noteq> Deleted" "ShutdownGeneratedMessageFactory \<in> set (pending s1) \<or> factory s1 = Null"
    using s1(2,4) by (auto simp: static_inv_def static_parts_def pool_ok_def factory_ok_def)
  have "unfreed (pending s1) s1" using i(1,3,4,7) by (auto simp: unfreed_def)
  from shutdown_frees [OF this] obtain s2 where s2: "fold_res run_shutdown (pending s1) s1 = Inr s2"
    "\<And>c. default_instances s2 c = (if class_file c \<in> added s then freed (default_instances s1 c) else default_instances s1 c)"
    "\<And>c. reflections s2 c = (if class_file c \<in> added s then freed (reflections s1 c) else reflections s1 c)"
    "factory s2 = (if ShutdownGeneratedMessageFactory \<in> set (pending s1) then freed (factory s1) else factory s1)"
    "pool_files s2 = (if DeleteGeneratedPool \<in> set (pending s1) then None else pool_files s1)"
    "shutdown_once s2 = Once_done" using s1(5) unfolding shut_by_def i(2) by (elim exE conjE) (simp only: simp_thms)
  let ?s = "s2\<lparr> shutdown_functions := None \<rparr>"
  have "ShutdownProtobufLibrary s = Inr ?s" using s1(1,3) s2(1) by (simp add: ShutdownProtobufLibrary_def)
  moreover have "default_instances ?s c \<noteq> Live \<and> reflections ?s c \<noteq> Live" for c
    using i(3,4,5) by (auto simp: s2(2,3))
  moreover have "factory ?s \<noteq> Live" "pool_files ?s = None" using i(6,8) by (cases "factory s1"; auto simp: s2(4,5))+
  moreover have "ShutdownProtobufLibrary ?s = Inr ?s" "OnShutdown func ?s = Inl Null_deref" for func
    by (simp_all add: ShutdownProtobufLibrary_def OnShutdown_def InitShutdownFunctionsOnce_def GoogleOnceInit_def s2(6))
  moreover have "class_file c \<in> added s \<longrightarrow> default_instance c ?s = Inr (Deleted, ?s)" for c
    by (auto simp: default_instance_def s2(2) i(3))
  ultimately show ?thesis by blast
qed

section \<open>Functions that take any message\<close>

text \<open>A \<open>const Message&\<close>: a message of a generated class, or one of a class made at run time, with the
  generated class whose descriptor it has, if any.\<close>

datatype 'd any_message =
    Any_Regist Regist
  | Any_Regist_Req Regist_Req
  | Any_Regist_Res Regist_Res
  | Any_Shutdown Shutdown
  | Any_Shutdown_Req Shutdown_Req
  | Any_Shutdown_Res Shutdown_Res
  | Any_dynamic "gen_class option" 'd

fun any_class :: "'d any_message \<Rightarrow> gen_class option" where
  "any_class (Any_Regist m) = Some Class_Regist"
| "any_class (Any_Regist_Req m) = Some Class_Regist_Req"
| "any_class (Any_Regist_Res m) = Some Class_Regist_Res"
| "any_class (Any_Shutdown m) = Some Class_Shutdown"
| "any_class (Any_Shutdown_Req m) = Some Class_Shutdown_Req"
| "any_class (Any_Shutdown_Res m) = Some Class_Shutdown_Res"
| "any_class (Any_dynamic c d) = c"

text \<open>The checks of \<open>ReflectionOps::Merge\<close>; \<open>copied\<close> is what it does with the fields, through the
  reflection objects.\<close>

definition ReflectionOps_Merge :: "bool \<Rightarrow> gen_class option \<Rightarrow> gen_class \<Rightarrow> 'm res \<Rightarrow> 'm res" where
  "ReflectionOps_Merge same from_class to_class copied =
     (if same then Inl Check_failed
      else if from_class \<noteq> Some to_class then Inl Check_failed
      else copied)"

text \<open>The same text in each class: \<open>cast\<close> is the \<open>dynamic_cast\<close> to it, \<open>merge\<close> its own \<open>MergeFrom\<close>.\<close>

definition MergeFrom_any :: "gen_class \<Rightarrow> ('d any_message \<Rightarrow> 'm option) \<Rightarrow> (bool \<Rightarrow> 'm \<Rightarrow> 'm \<Rightarrow> 'm res) \<Rightarrow>
    ('d any_message \<Rightarrow> 'm \<Rightarrow> 'm res) \<Rightarrow> bool \<Rightarrow> 'd any_message \<Rightarrow> 'm \<Rightarrow> 'm res" where
  "MergeFrom_any cls cast merge reflect same other this =
     (if same then Inl Check_failed
      else (case cast other of
              None \<Rightarrow> ReflectionOps_Merge same (any_class other) cls (reflect other this)
            | Some source \<Rightarrow> merge False source this))"

definition CopyFrom_any :: "('m \<Rightarrow> 'm) \<Rightarrow> (bool \<Rightarrow> 'd any_message \<Rightarrow> 'm \<Rightarrow> 'm res) \<Rightarrow>
    bool \<Rightarrow> 'd any_message \<Rightarrow> 'm \<Rightarrow> 'm res" where
  "CopyFrom_any clear merge_any same other this =
     (if same then Inr this else merge_any False other (clear this))"

fun to_Regist_Req :: "'d any_message \<Rightarrow> Regist_Req option" where
  "to_Regist_Req (Any_Regist_Req m) = Some m"
| "to_Regist_Req _ = None"

definition Regist_Req_MergeFrom_Message ::
    "('d any_message \<Rightarrow> Regist_Req \<Rightarrow> Regist_Req res) \<Rightarrow> bool \<Rightarrow> 'd any_message \<Rightarrow> Regist_Req \<Rightarrow> Regist_Req res" where
  "Regist_Req_MergeFrom_Message = MergeFrom_any Class_Regist_Req to_Regist_Req Regist_Req_MergeFrom"

definition Regist_Req_CopyFrom_Message ::
    "('d any_message \<Rightarrow> Regist_Req \<Rightarrow> Regist_Req res) \<Rightarrow> bool \<Rightarrow> 'd any_message \<Rightarrow> Regist_Req \<Rightarrow> Regist_Req res" where
  "Regist_Req_CopyFrom_Message reflect = CopyFrom_any Regist_Req_Clear (Regist_Req_MergeFrom_Message reflect)"

fun to_Regist_Res :: "'d any_message \<Rightarrow> Regist_Res option" where
  "to_Regist_Res (Any_Regist_Res m) = Some m"
| "to_Regist_Res _ = None"

definition Regist_Res_MergeFrom_Message ::
    "('d any_message \<Rightarrow> Regist_Res \<Rightarrow> Regist_Res res) \<Rightarrow> bool \<Rightarrow> 'd any_message \<Rightarrow> Regist_Res \<Rightarrow> Regist_Res res" where
  "Regist_Res_MergeFrom_Message = MergeFrom_any Class_Regist_Res to_Regist_Res Regist_Res_MergeFrom"

definition Regist_Res_CopyFrom_Message ::
    "('d any_message \<Rightarrow> Regist_Res \<Rightarrow> Regist_Res res) \<Rightarrow> bool \<Rightarrow> 'd any_message \<Rightarrow> Regist_Res \<Rightarrow> Regist_Res res" where
  "Regist_Res_CopyFrom_Message reflect = CopyFrom_any Regist_Res_Clear (Regist_Res_MergeFrom_Message reflect)"

fun to_Regist :: "'d any_message \<Rightarrow> Regist option" where
  "to_Regist (Any_Regist m) = Some m"
| "to_Regist _ = None"

definition Regist_MergeFrom_Message ::
    "('d any_message \<Rightarrow> Regist \<Rightarrow> Regist res) \<Rightarrow> bool \<Rightarrow> 'd any_message \<Rightarrow> Regist \<Rightarrow> Regist res" where
  "Regist_MergeFrom_Message = MergeFrom_any Class_Regist to_Regist Regist_MergeFrom"

definition Regist_CopyFrom_Message ::
    "('d any_message \<Rightarrow> Regist \<Rightarrow> Regist res) \<Rightarrow> bool \<Rightarrow> 'd any_message \<Rightarrow> Regist \<Rightarrow> Regist res" where
  "Regist_CopyFrom_Message reflect = CopyFrom_any Regist_Clear (Regist_MergeFrom_Message reflect)"

fun to_Shutdown_Req :: "'d any_message \<Rightarrow> Shutdown_Req option" where
  "to_Shutdown_Req (Any_Shutdown_Req m) = Some m"
| "to_Shutdown_Req _ = None"

definition Shutdown_Req_MergeFrom_Message ::
    "('d any_message \<Rightarrow> Shutdown_Req \<Rightarrow> Shutdown_Req res) \<Rightarrow> bool \<Rightarrow> 'd any_message \<Rightarrow> Shutdown_Req \<Rightarrow> Shutdown_Req res" where
  "Shutdown_Req_MergeFrom_Message = MergeFrom_any Class_Shutdown_Req to_Shutdown_Req Shutdown_Req_MergeFrom"

definition Shutdown_Req_CopyFrom_Message ::
    "('d any_message \<Rightarrow> Shutdown_Req \<Rightarrow> Shutdown_Req res) \<Rightarrow> bool \<Rightarrow> 'd any_message \<Rightarrow> Shutdown_Req \<Rightarrow> Shutdown_Req res" where
  "Shutdown_Req_CopyFrom_Message reflect = CopyFrom_any Shutdown_Req_Clear (Shutdown_Req_MergeFrom_Message reflect)"

fun to_Shutdown_Res :: "'d any_message \<Rightarrow> Shutdown_Res option" where
  "to_Shutdown_Res (Any_Shutdown_Res m) = Some m"
| "to_Shutdown_Res _ = None"

definition Shutdown_Res_MergeFrom_Message ::
    "('d any_message \<Rightarrow> Shutdown_Res \<Rightarrow> Shutdown_Res res) \<Rightarrow> bool \<Rightarrow> 'd any_message \<Rightarrow> Shutdown_Res \<Rightarrow> Shutdown_Res res" where
  "Shutdown_Res_MergeFrom_Message = MergeFrom_any Class_Shutdown_Res to_Shutdown_Res Shutdown_Res_MergeFrom"

definition Shutdown_Res_CopyFrom_Message ::
    "('d any_message \<Rightarrow> Shutdown_Res \<Rightarrow> Shutdown_Res res) \<Rightarrow> bool \<Rightarrow> 'd any_message \<Rightarrow> Shutdown_Res \<Rightarrow> Shutdown_Res res" where
  "Shutdown_Res_CopyFrom_Message reflect = CopyFrom_any Shutdown_Res_Clear (Shutdown_Res_MergeFrom_Message reflect)"

fun to_Shutdown :: "'d any_message \<Rightarrow> Shutdown option" where
  "to_Shutdown (Any_Shutdown m) = Some m"
| "to_Shutdown _ = None"

definition Shutdown_MergeFrom_Message ::
    "('d any_message \<Rightarrow> Shutdown \<Rightarrow> Shutdown res) \<Rightarrow> bool \<Rightarrow> 'd any_message \<Rightarrow> Shutdown \<Rightarrow> Shutdown res" where
  "Shutdown_MergeFrom_Message = MergeFrom_any Class_Shutdown to_Shutdown Shutdown_MergeFrom"

definition Shutdown_CopyFrom_Message ::
    "('d any_message \<Rightarrow> Shutdown \<Rightarrow> Shutdown res) \<Rightarrow> bool \<Rightarrow> 'd any_message \<Rightarrow> Shutdown \<Rightarrow> Shutdown res" where
  "Shutdown_CopyFrom_Message reflect = CopyFrom_any Shutdown_Clear (Shutdown_MergeFrom_Message reflect)"

text \<open>What the classes share. A message of another generated class aborts the program; \<open>reflect\<close> matters
  for dynamic messages of the same type only.\<close>

locale generated_class =
  fixes cls :: gen_class and cast :: "'d any_message \<Rightarrow> 'm option"
    and merge :: "bool \<Rightarrow> 'm \<Rightarrow> 'm \<Rightarrow> 'm res" and clear :: "'m \<Rightarrow> 'm"
    and merge_any :: "('d any_message \<Rightarrow> 'm \<Rightarrow> 'm res) \<Rightarrow> bool \<Rightarrow> 'd any_message \<Rightarrow> 'm \<Rightarrow> 'm res"
    and copy_any :: "('d any_message \<Rightarrow> 'm \<Rightarrow> 'm res) \<Rightarrow> bool \<Rightarrow> 'd any_message \<Rightarrow> 'm \<Rightarrow> 'm res"
  assumes cast_class: "cast other = Some m \<Longrightarrow> any_class other = Some cls"
    and merge_any: "merge_any reflect = MergeFrom_any cls cast merge reflect"
    and copy_any: "copy_any reflect = CopyFrom_any clear (merge_any reflect)"
begin

lemma merge_same_class: "cast other = Some m \<Longrightarrow> merge_any reflect False other this = merge False m this"
  by (simp add: merge_any MergeFrom_any_def)

lemma merge_other_class: "any_class other \<noteq> Some cls \<Longrightarrow> merge_any reflect False other this = Inl Check_failed"
  using cast_class [of other] by (cases "cast other") (auto simp: merge_any MergeFrom_any_def ReflectionOps_Merge_def)

lemma copy_same_class: "cast other = Some m \<Longrightarrow> copy_any reflect False other this = merge False m (clear this)"
  by (simp add: copy_any CopyFrom_any_def merge_same_class)

lemma copy_other_class: "any_class other \<noteq> Some cls \<Longrightarrow> copy_any reflect False other this = Inl Check_failed"
  by (simp add: copy_any CopyFrom_any_def merge_other_class)

lemma same_object: "merge_any reflect True other this = Inl Check_failed" "copy_any reflect True other this = Inr this"
  by (simp_all add: merge_any MergeFrom_any_def copy_any CopyFrom_any_def)

end

interpretation any_Regist_Req: generated_class Class_Regist_Req to_Regist_Req Regist_Req_MergeFrom Regist_Req_Clear
    Regist_Req_MergeFrom_Message Regist_Req_CopyFrom_Message
proof unfold_locales
  show "any_class other = Some Class_Regist_Req" if "to_Regist_Req other = Some m" for other :: "'d any_message" and m
    using that by (cases other) auto
qed (simp_all add: Regist_Req_MergeFrom_Message_def Regist_Req_CopyFrom_Message_def fun_eq_iff)

interpretation any_Regist_Res: generated_class Class_Regist_Res to_Regist_Res Regist_Res_MergeFrom Regist_Res_Clear
    Regist_Res_MergeFrom_Message Regist_Res_CopyFrom_Message
proof unfold_locales
  show "any_class other = Some Class_Regist_Res" if "to_Regist_Res other = Some m" for other :: "'d any_message" and m
    using that by (cases other) auto
qed (simp_all add: Regist_Res_MergeFrom_Message_def Regist_Res_CopyFrom_Message_def fun_eq_iff)

interpretation any_Regist: generated_class Class_Regist to_Regist Regist_MergeFrom Regist_Clear
    Regist_MergeFrom_Message Regist_CopyFrom_Message
proof unfold_locales
  show "any_class other = Some Class_Regist" if "to_Regist other = Some m" for other :: "'d any_message" and m
    using that by (cases other) auto
qed (simp_all add: Regist_MergeFrom_Message_def Regist_CopyFrom_Message_def fun_eq_iff)

interpretation any_Shutdown_Req: generated_class Class_Shutdown_Req to_Shutdown_Req Shutdown_Req_MergeFrom Shutdown_Req_Clear
    Shutdown_Req_MergeFrom_Message Shutdown_Req_CopyFrom_Message
proof unfold_locales
  show "any_class other = Some Class_Shutdown_Req" if "to_Shutdown_Req other = Some m" for other :: "'d any_message" and m
    using that by (cases other) auto
qed (simp_all add: Shutdown_Req_MergeFrom_Message_def Shutdown_Req_CopyFrom_Message_def fun_eq_iff)

interpretation any_Shutdown_Res: generated_class Class_Shutdown_Res to_Shutdown_Res Shutdown_Res_MergeFrom Shutdown_Res_Clear
    Shutdown_Res_MergeFrom_Message Shutdown_Res_CopyFrom_Message
proof unfold_locales
  show "any_class other = Some Class_Shutdown_Res" if "to_Shutdown_Res other = Some m" for other :: "'d any_message" and m
    using that by (cases other) auto
qed (simp_all add: Shutdown_Res_MergeFrom_Message_def Shutdown_Res_CopyFrom_Message_def fun_eq_iff)

interpretation any_Shutdown: generated_class Class_Shutdown to_Shutdown Shutdown_MergeFrom Shutdown_Clear
    Shutdown_MergeFrom_Message Shutdown_CopyFrom_Message
proof unfold_locales
  show "any_class other = Some Class_Shutdown" if "to_Shutdown other = Some m" for other :: "'d any_message" and m
    using that by (cases other) auto
qed (simp_all add: Shutdown_MergeFrom_Message_def Shutdown_CopyFrom_Message_def fun_eq_iff)

end
