(* ===== verification/Spec2Isabelle.thy ===== *)
theory Spec2Isabelle
  imports GF_Progress GF_Locks GF_Lua GF_Data GF_Logger GF_MessageFile GF_UnknownStream GF_Registration
begin

text \<open>
  The servers of this repository (gate, game and data server) exchange protocol buffer messages
  over TCP through the network library \<open>src/src/common/net\<close>; the game server keeps its roles in
  redis, the data server writes them to MySQL. This development follows a message from the call of
  \<open>net_send\<close> to the handler of the other server, with every thread that takes part, and the
  programs around it.

  The parts and their theories.

  GF_Prelude: machine types, faults (a fault stands for undefined behaviour of C++ or for an abort),
  the result type \<open>'a res\<close> and loops that can fault. GF_StdMap: \<open>std::map\<close> as an association list in
  the order of its keys, and the container macros of \<open>common/utils\<close>.

  GF_Wire, GF_WireFormat: \<open>google/protobuf/io/coded_stream.{h,cc}\<close>, \<open>wire_format.cc\<close> and
  \<open>unknown_field_set.h\<close>, as far as a message class of the protocol uses them. The unrolled varint
  readers and writers are translated branch by branch and related to simple byte loops. The
  recursion of \<open>SkipField\<close> runs on the recursion limit of the stream, 100, as in the code, and a
  loop over tags on the bytes left, of which each round takes at least one.
  GF_Message: the entry points of \<open>message_lite.cc\<close>, and the contract of a message class as the locales
  \<open>pb_message\<close>, \<open>int32_message\<close> and \<open>empty_message\<close>, interpreted in GF_Regist and GF_Shutdown
  (\<open>Regist.pb.*\<close>, \<open>Shutdown.pb.*\<close>). GF_Protocol: message numbers, factories and the table of message processors
  (\<open>protocol.*\<close>, \<open>define.pb.*\<close>, \<open>get_msgnode\<close>, \<open>message_free\<close>, \<open>message_process\<close>).

  GF_Stream, GF_StreamRead, GF_StreamSkip: \<open>CodedInputStream\<close> over a stream of blocks
  (\<open>coded_stream.cc\<close>), whose contract in \<open>zero_copy_stream.h\<close> is the locale \<open>zero_copy_input\<close>: limits,
  raw and varint readers, tags and \<open>SkipField\<close>, each against the reader over an array. GF_StreamParse: the
  classes and the entry points over streams. GF_ZeroCopy, GF_CopyStream: the input streams of
  \<open>zero_copy_stream_impl*.cc\<close> (array, limit, concatenation; the buffer over a copying reader, files), interpreted in
  that contract. GF_OutStream, GF_OutStreams, GF_CopyOut: the same for \<open>CodedOutputStream\<close> and the output streams, with
  the locale \<open>zero_copy_output\<close>. GF_StreamWrite, GF_MessageFile: messages written to streams, strings, descriptors
  and C++ streams (\<open>message_lite.cc\<close>, \<open>message.cc\<close>). Loops over a stream are partial functions to \<open>option\<close>;
  \<open>None\<close> is a call that does not return or a fatal check, and the lemmas show that it does not occur. The reader has the
  limit of 64 MiB of the code; the counters of the writer are unbounded, so an output is below 2 GiB.
  GF_UnknownFields: the memory of \<open>UnknownFieldSet\<close>, a heap of strings and sets, on which the operations are
  shown to do what they do on lists, without sharing, leaks or double frees; their fuel is \<open>ufs_steps\<close>, the
  number of fields and groups visited. GF_UnknownStream: its parsing helpers. GF_Registration: the static parts of the
  generated files, \<open>GetPrototype\<close> and \<open>ShutdownProtobufLibrary\<close>.

  GF_NetTypes: the data of \<open>go_net.h\<close> and libevent's buffers as the record \<open>evbuffer_ops\<close> of their
  operations; \<open>evbuffer_laws\<close> states what libevent documents of them (an evbuffer is a queue of bytes).
  GF_Frame: packing and unpacking of frames (\<open>message_format\<close> and the packing loop of \<open>on_write\<close>).
  GF_Conn: the life of a connection, \<open>create_conn\<close> to \<open>conn_internal_close\<close>. GF_Worker: the callbacks
  and the phases of \<open>data_thread_worker\<close>; GF_WorkerLaws: what each phase does to the tables.
  GF_NetApi: \<open>net_init\<close>, \<open>thread_init\<close>, the accept thread, \<open>net_connect\<close>, \<open>net_send\<close>, \<open>get_net_msgs\<close>.
  The answers of the kernel (sockets, reads, writes, the clock) are arguments, records named
  \<open>..._env\<close>; what the code does that is seen outside is a list of \<open>effects\<close>.
  GF_EndToEnd: one sender and one receiver, phase after phase.

  GF_System: the threads of \<open>go_net.cpp\<close> together, as a transition system (\<open>enabled\<close>, \<open>exec\<close>,
  \<open>reachable\<close>). A step is a section the code runs under its locks, in any order; \<open>get_net_msgs\<close> and
  the accept loop are one step each. Assumed of the system: \<open>new\<close> gives addresses not in use and not
  below 2^31, descriptors are below 2^31, a pipe gives a byte only after one was written, libevent calls
  back for connections registered with it, a buffer holds less than 2^31 bytes.
  GF_SystemInv: the invariant \<open>system_ok\<close> of every reachable state, and \<open>exec_ok\<close>: a step faults only
  on a frame with a bad length. GF_Fifo: runs, and three contracts of a labelled system as locales
  (invariant, simulation, first-in first-out queues). GF_Channel, GF_Refine: the bytes that leave; the threads
  are interpreted as an implementation of abstract byte channels and as queues of bytes. GF_Inbox: the
  bytes that arrive; the threads are interpreted as queues of messages, and what the logic is given is the
  parse of what was read. GF_Link: two processes; what one logic is given is a prefix of what the
  other sent. GF_Progress: what the threads can always do; every worker can run through its loop, and messages
  can be brought from one process to the other from every state the threads can have reached.
  GF_Locks: the lock operations of every function (\<open>thread_sync.h\<close> and the sections of \<open>go_net.cpp\<close>) under
  mutexes, instruction by instruction; the discipline (a lock order, every use of data under its lock) is a
  locale and interpreted on the code, which makes the steps of GF_System atomic. Data without a lock is raced for.
  Also the start, where the accept thread waits on a condition variable for the workers.

  GF_Utils (\<open>common/utils\<close>), GF_Logger (\<open>logger.cpp\<close>, \<open>thread_uitl.cpp\<close>), GF_Redis (\<open>go_redis.*\<close>, the queues of \<open>game_redis\<close>; hiredis is the record
  \<open>redis_ops\<close>), GF_Db (\<open>go_db.*\<close>; a MySQL server is a function from queries to \<open>mysql_answer\<close>), GF_Lua
  (\<open>lua_script.*\<close>; the interpreter is \<open>lua_api\<close>). GF_Server: what the three programs share, their
  settings and the loop over the times of its passes. GF_Gate, GF_Game, GF_Data: the three
  programs, with the message handlers and the passes of their logic, over GF_NetApi; the handlers of
  the data server and its class Role, which are not in the repository, are arguments.

  What is shown: the coding layers are inverse to each other and never fault; framing is
  independent of how the bytes are cut, and faults exactly on bad lengths; the phases of a worker move every
  message once, in order, and keep their tables; the threads together keep every invariant, implement
  channels, and between two processes deliver a prefix of what was sent, all of it when drained, and can always
  get there; the locks exclude, never deadlock, and where there is none there is a race;
  a message goes through every stream as through an array, and through pipes whatever the system calls do;
  the servers route, answer and store as they are meant to, and where they do not the
  theorem states what happens instead (lost messages, leaks, use of a connection that is gone).

  Not modelled: what descriptors hold and what reflection does with them, which the servers do not use on the path
  of a message; the rest of the vendored libraries; the programs under test and tool
  directories. Memory is modelled as the table of live connections and as effects for what is deleted;
  other leaks are stated in the theorems of the operation.
\<close>

section \<open>Sample data for the instances\<close>

definition sample_procs :: msg_processers where
  "sample_procs = protocol_init []"

definition sample_node :: MsgNode where
  "sample_node = (MsgNode_ctor (0, 5, 0))\<lparr> msg_type := 20001,
     msg_data := Some (MD_Regist_Req (Regist_Req_set_my_id 300 Regist_Req_SharedCtor)) \<rparr>"

definition sample_conn :: "byte list list connection" where
  "sample_conn = new_Connection\<lparr> sfd := 8, sfd_dup_for_write := 9, read_buffer := Some [],
     write_buffer := Some [], state := CS_WAITING \<rparr>"

definition sample_bytes :: "byte list" where
  "sample_bytes = [0x21, 0x4e, 0, 0, 5, 0, 0, 0, 0, 0, 0, 0, 3, 0, 0, 0, 8, 0xac, 2]"

lemma sample_node_bytes: "frame_bytes sample_node = sample_bytes"
  by code_simp

lemma sample_node_ok: "sendable sample_procs sample_node \<and> node_ok sample_procs sample_node"
proof -
  have "map_find sample_procs 20001 = Some \<lparr> mp = Some process_Regist_req,
     nmd = Some new_Regist_req, dmd = Some delete_Regist_req \<rparr>" by code_simp
  moreover have "msg_type sample_node = 20001"
   "msg_data sample_node = Some (MD_Regist_Req (Regist_Req_set_my_id 300 Regist_Req_SharedCtor))"
    by (simp_all add: sample_node_def)
  moreover have "int32_wf (Regist_Req_set_my_id 300 Regist_Req_SharedCtor)"
    by (simp add: int32_wf_def) code_simp
  moreover have "length (MsgData_bytes (MD_Regist_Req (Regist_Req_set_my_id 300 Regist_Req_SharedCtor))) = 3"
    by code_simp
  ultimately show ?thesis by (simp add: sendable_def node_ok_def)
qed

lemma sample_procs_ok: "procs_ok sample_procs \<and> knows_shutdown sample_procs"
proof -
  have "map_find sample_procs 0 = Some \<lparr> mp = Some process_Shutdown_req,
     nmd = Some new_Shutdown_req, dmd = Some delete_Shutdown_req \<rparr>" by code_simp
  then show ?thesis
    by (simp add: knows_shutdown_def) (simp add: sample_procs_def protocol_init_ok)
qed

text \<open>A network with one worker that serves the connection at address 7, which has a message
  waiting; \<open>closed\<close> tells whether its peer is gone.\<close>

definition sample_worker :: ThreadData where
  "sample_worker = new_ThreadData\<lparr> td_event := 1, thread_connections := [(7, 7)],
     td_write_msgs := [sample_node\<lparr> msg_conn := 7 \<rparr>, sample_node\<lparr> msg_conn := 8 \<rparr>] \<rparr>"

definition sample_net :: "bool \<Rightarrow> byte list list net_state" where
  "sample_net closed =
     \<lparr> s_msg_processers = sample_procs, s_last_thread_id = 0, curr_conns = 1, reject_conns = 0,
       s_conns_map = [(8, 7)], s_connect_conns = [], s_cntor_callback = False,
       s_threads_datas = [(0, Some sample_worker)], s_set_parameters = True,
       s_net_setting = NetSetting_ctor 0, s_init_count = 1, s_main_base = 1, s_cnt = 0,
       conns = [7 \<mapsto> sample_conn\<lparr> state := (if closed then CS_CLOSE else CS_WAITING),
         close_time := 1000, conn_read_msgs := [sample_node] \<rparr>],
       effects = [] \<rparr>"

lemma sample_tables: "get_td 0 (sample_net closed) = Inr sample_worker \<and>
    tables_ok sample_worker (sample_net closed) \<and> served sample_worker = [7] \<and>
    s_msg_processers (sample_net closed) = sample_procs"
  by (auto simp: get_td_def tables_ok_def sample_net_def sample_worker_def new_ThreadData_def
      served_def sample_conn_def new_Connection_def split: if_splits)

lemma succeeds: "(case r of Inl f \<Rightarrow> False | Inr x \<Rightarrow> P x) \<Longrightarrow> \<exists>x. r = Inr x \<and> P x"
  by (cases r) auto

text \<open>The same network with nothing queued, and a server on it.\<close>

definition sample_idle :: "byte list list net_state" where
  "sample_idle = (sample_net False)\<lparr>
     conns := [7 \<mapsto> sample_conn\<lparr> td := Some 0 \<rparr>, 8 \<mapsto> sample_conn\<lparr> td := Some 0 \<rparr>],
     s_threads_datas := [(0, Some (sample_worker\<lparr> td_write_msgs := [] \<rparr>))] \<rparr>"

lemma sample_idle_tables: "get_td 0 sample_idle = Inr (sample_worker\<lparr> td_write_msgs := [] \<rparr>)"
    "tables_ok (sample_worker\<lparr> td_write_msgs := [] \<rparr>) sample_idle"
    "s_msg_processers sample_idle = sample_procs" "workers 1 sample_idle" "s_cnt sample_idle = 0"
  by (auto simp: get_td_def tables_ok_def sample_idle_def sample_net_def sample_worker_def
      new_ThreadData_def sample_conn_def new_Connection_def workers_def map_keys_def split: if_splits)

lemma sample_idle_link: "link_idle concat 0 7 sample_idle"
  unfolding link_idle_def
  by (rule exI [of _ "sample_conn\<lparr> td := Some 0 \<rparr>"],
      rule exI [of _ "sample_worker\<lparr> td_write_msgs := [] \<rparr>"], rule exI [of _ "[]"], rule exI [of _ "[]"])
     (use sample_idle_tables in \<open>auto simp: get_conn_def read_queue_def served_def sample_idle_def sample_conn_def
        new_Connection_def sample_worker_def new_ThreadData_def\<close>)

definition sample_io :: io_env where
  "sample_io = \<lparr> io_read = Read_error True, io_write = Write_error True, io_accepts = [], io_del = 0,
     io_add = 0, io_now = 1000, io_raw = (0, 0, 0) \<rparr>"


text \<open>A redis server with one role in the list, a class whose objects are one text, a database that
  accepts every statement.\<close>

definition sample_redis :: "(byte list \<Rightarrow> byte list option) redis_ops" where
  "sample_redis = map_server\<lparr> rd_command := (\<lambda>cmd r.
     (Some (if cmd = cmd_first then R_array [R_string [5]] else R_integer 1), r)) \<rparr>"

lemma cmd_distinct: "cmd_first \<noteq> cmd_del" "cmd_del \<noteq> cmd_first"
  by code_simp+

definition sample_rc :: "byte list role_class" where
  "sample_rc = \<lparr> rc_new = [], rc_parse = (\<lambda>b r. Inr (True, b)), rc_id = (\<lambda>r. r), rc_name = (\<lambda>r. r), rc_user = (\<lambda>r. r) \<rparr>"

definition sample_my :: mysql_answer where
  "sample_my = \<lparr> my_ret = 0, my_first = None, my_next = [] \<rparr>"

definition sample_ct :: "unit container" where
  "sample_ct = \<lparr> ct_has_id = True, ct_item_des = [[1] \<mapsto> CPPTYPE_INT64, [2] \<mapsto> CPPTYPE_STRING], ct_items = [] \<rparr>"


definition sample_lua :: "int lua_api" where
  "sample_lua = \<lparr> la_of_int = id, la_isnumber = (\<lambda>v. True), la_tointeger = (\<lambda>v. 3), la_isstring = (\<lambda>v. True),
     la_tostring = (\<lambda>v. []), la_global = (\<lambda>f. if f = [1] then L_function f else L_nil),
     la_call = (\<lambda>f vs. Inr (L_number 3)) \<rparr>"

definition sample_ci :: ConnInfo where
  "sample_ci = \<lparr> ci_sfd = 11, ci_event_flag = 0, ci_state = CS_WAITING, ci_peer_info = \<lparr> ip = [], port = 0 \<rparr>,
     pre_new = 0 \<rparr>"

definition sample_te :: thread_env where
  "sample_te = \<lparr> te_pipe = 0, te_fd = (3, 4), te_base = 1, te_add = 0, te_created = True \<rparr>"

text \<open>Two connections closed in the same second; two idle workers.\<close>

definition sample_closing :: "byte list list net_state" where
  "sample_closing = sample_idle\<lparr>
     conns := [7 \<mapsto> sample_conn\<lparr> state := CS_CLOSE, close_time := 1000 \<rparr>,
               8 \<mapsto> sample_conn\<lparr> state := CS_CLOSE, close_time := 1000 \<rparr>],
     s_threads_datas := [(0, Some (sample_worker\<lparr> thread_connections := [(7, 7), (8, 8)] \<rparr>))] \<rparr>"

definition sample_two :: "byte list list net_state" where
  "sample_two = sample_idle\<lparr> s_threads_datas := [(0, Some new_ThreadData), (1, Some new_ThreadData)],
     effects := [], s_net_setting := (NetSetting_ctor 0)\<lparr> net_thread_num := 2 \<rparr> \<rparr>"

definition sample_gate :: "byte list list gate_state" where
  "sample_gate = \<lparr> running = True, s_init_ok = True, s_last_frame = 0, net = sample_idle,
     s_connections_to_me = [], s_recv_msgs = [], spawned = 0,
     s_gate_config = \<lparr> server_id = 1, redis_addr = [], redis_port = 0 \<rparr>, s_server_net_ip = [], s_server_port = 0,
     s_net_thread_num = 1, s_gameser_info = \<lparr> gs_ip = [], gs_port = 0 \<rparr>, s_game_conn = 7 \<rparr>"

definition td_sends :: "'b gate_state \<Rightarrow> u64 \<Rightarrow> MsgNode list" where
  "td_sends s i = (case get_td i (net s) of Inl f \<Rightarrow> [] | Inr t \<Rightarrow> td_write_msgs t)"

definition sample_game :: "byte list list game_state" where
  "sample_game = \<lparr> running = True, s_init_ok = True, s_last_frame = 0, net = sample_idle,
     s_connections_to_me = [], s_recv_msgs = [], spawned = 0,
     s_game_config = \<lparr> gc_server_id = 1, gc_redis_addr = [], gc_port = 0 \<rparr>,
     s_game_internal_config = \<lparr> game_ip = [], game_port = 0 \<rparr>, s_dataser_info = \<lparr> ds_ip = [], ds_port = 0 \<rparr>,
     s_data_conn = 0, s_redis_list = [], s_redis_handle = True \<rparr>"


text \<open>The start with one worker, and a client that connects.\<close>

definition sample_blank :: "byte list list net_state" where
  "sample_blank = sample_idle\<lparr> conns := (\<lambda>p. None), s_conns_map := [], s_threads_datas := [],
     s_net_setting := (NetSetting_ctor 0)\<lparr> net_thread_num := 1 \<rparr> \<rparr>"

definition sample_boot :: boot_env where
  "sample_boot = \<lparr> be_base = 1,
     be_socket = \<lparr> so_socket = 5, so_getfl = 0, so_setfl = 0, so_bind = 0, so_listen = 0, so_connect = 0 \<rparr>,
     be_create = \<lparr> ce_new = 0x80000000, ce_dup = 6, ce_add_read = 0, ce_add_write = 0 \<rparr>,
     be_has_log = True, be_threads = (\<lambda>i. sample_te) \<rparr>"

definition sample_client :: "action list" where
  "sample_client =
     [Accept_ready (sample_io\<lparr> io_accepts :=
        [\<lparr> ac_sfd = 11, ac_fcntl = 0, ac_peer = \<lparr> ip = [], port = 0 \<rparr>, ac_written = 1 \<rparr>] \<rparr>) 5,
      Distribute 0, Collect 0, Connect 0 (\<lambda>ci. 1),
      Callback_of 0 (On_pipe \<lparr> ce_new = 0x80000001, ce_dup = 12, ce_add_read = 0, ce_add_write = 0 \<rparr> (Some 0x63))]"




text \<open>A message for the client, written in two parts.\<close>

definition sample_answer :: "action list" where
  "sample_answer =
     [Reap 0 (0, 0, 0), Logic_send (Some (sample_node\<lparr> msg_conn := 0x80000001 \<rparr>)), Purge 0 1000,
      Distribute 0, Collect 0, Connect 0 (\<lambda>ci. 1), Io 0 sample_io (sample_io\<lparr> io_write := Wrote 5 \<rparr>),
      Callback_of 0 (On_socket (sample_io\<lparr> io_write := Wrote 64 \<rparr>) 12 EV_WRITE 0x80000001)]"



definition sample_started :: "(bool \<times> byte list list system) res" where
  "sample_started = boot chunk_ops sample_boot sample_blank"

definition sample_served :: "((action \<times> byte list list system) list \<times> byte list list system) option" where
  "sample_served = (case sample_started of Inl f \<Rightarrow> None | Inr (ok, sy) \<Rightarrow> play chunk_ops sample_client sy)"

definition sample_answered :: "((action \<times> byte list list system) list \<times> byte list list system) option" where
  "sample_answered = (case sample_served of None \<Rightarrow> None | Some (tr, sy) \<Rightarrow> play chunk_ops sample_answer sy)"

lemma sample_started_reachable:
  "\<exists>sy. sample_started = Inr (True, sy) \<and> reachable chunk_ops 1 sy"
proof -
  have "case sample_started of Inl f \<Rightarrow> False | Inr (ok, sy) \<Rightarrow> ok" by code_simp
  then obtain sy where sy: "sample_started = Inr (True, sy)" by (auto dest!: succeeds split: prod.splits)
  moreover have "blank sample_blank"
    using sample_procs_ok sample_idle_tables(3)
    by (simp add: blank_def sample_blank_def) (simp add: sample_idle_def sample_net_def)
  ultimately have "reachable chunk_ops 1 sy"
    by (intro reachable.reachable_boot [of sample_blank 1 sample_boot])
       (simp_all add: sample_started_def sample_blank_def sample_boot_def NetSetting_ctor_def fresh_def)
  with sy show ?thesis by blast
qed

lemma sample_served_reachable:
  "\<exists>tr sy. sample_served = Some (tr, sy) \<and> reachable chunk_ops 1 sy \<and>
     channel concat (network sy) 0x80000001 = Some []"
proof -
  have "case sample_served of None \<Rightarrow> False | Some (tr, sy) \<Rightarrow> channel concat (network sy) 0x80000001 = Some []"
    by code_simp
  then obtain tr sy where sy: "sample_served = Some (tr, sy)" "channel concat (network sy) 0x80000001 = Some []"
    by (auto split: option.splits)
  from sample_started_reachable obtain sy0 where sy0: "sample_started = Inr (True, sy0)" "reachable chunk_ops 1 sy0"
    by blast
  have "play chunk_ops sample_client sy0 = Some (tr, sy)"
    using sy(1) unfolding sample_served_def sy0(1) by simp
  from run_reachable [OF play_run [OF this] sy0(2)] sy show ?thesis by blast
qed

lemma sample_answered_run:
  "\<exists>tr0 sy tr sy'. sample_served = Some (tr0, sy) \<and> sample_answered = Some (tr, sy') \<and>
     reachable chunk_ops 1 sy \<and> run chunk_ops sy tr sy' \<and> channel concat (network sy) 0x80000001 = Some [] \<and>
     list_all (\<lambda>x. is_open 0x80000001 (network (snd x))) tr \<and> is_open 0x80000001 (network sy') \<and>
     along accepted tr 0x80000001 = sample_bytes"
proof -
  from sample_served_reachable obtain tr0 sy where s: "sample_served = Some (tr0, sy)" "reachable chunk_ops 1 sy"
    "channel concat (network sy) 0x80000001 = Some []" by blast
  have "case sample_answered of None \<Rightarrow> False | Some (tr, sy) \<Rightarrow>
      list_all (\<lambda>x. is_open 0x80000001 (network (snd x))) tr \<and> is_open 0x80000001 (network sy) \<and>
      along accepted tr 0x80000001 = sample_bytes" by code_simp
  then obtain tr sy' where a: "sample_answered = Some (tr, sy')"
    "list_all (\<lambda>x. is_open 0x80000001 (network (snd x))) tr" "is_open 0x80000001 (network sy')"
    "along accepted tr 0x80000001 = sample_bytes" by (auto split: option.splits)
  have "play chunk_ops sample_answer sy = Some (tr, sy')"
    using a(1) unfolding sample_answered_def s(1) by simp
  from play_run [OF this] s a show ?thesis by blast
qed








text \<open>A registration message, and two arrays that hold its bytes.\<close>

definition sample_req :: Regist_Req where
  "sample_req = Regist_Req_set_my_id 5 Regist_Req_SharedCtor"

lemma sample_req_bytes:
  "SerializeToArray Regist_Req_vtable 2 sample_req = Inr (True, Some [8, 5], sample_req\<lparr> cached_size := 2 \<rparr>)"
  "ParseFromArray Regist_Req_vtable [8, 5] Regist_Req_SharedCtor = Inr (True, sample_req)"
  by code_simp+

definition sample_arrays :: "array_input concat_input" where
  "sample_arrays = ConcatenatingInputStream [ArrayInputStream [8] 1, ArrayInputStream [5] 1]"

lemma sample_arrays_view: "zv_wf (concat_view array_view) sample_arrays"
    "zv_left (concat_view array_view) sample_arrays = [8, 5]"
  by (simp_all add: sample_arrays_def concat_view_def array_view_def ConcatenatingInputStream_def ArrayInputStream_def)




section \<open>Threads together\<close>









text \<open>C5. What is sent on a connection is what is written to its socket. Over any run of the threads in which
  the connection stays open, in any interleaving and with any answers of the kernel: the bytes still to be
  written at first, followed by the frames of the messages \<open>net_send\<close> took for it, are the bytes written
  followed by those still to be written.\<close>

theorem connections_are_fifo:
  assumes "evbuffer_laws ops bytes" and "reachable ops n sy" and "run ops sy tr sy'"
    and "\<forall>x \<in> set tr. is_open p (network (snd x))" and "is_open p (network sy')"
    and "channel bytes (network sy) p = Some q"
  shows "\<exists>q'. channel bytes (network sy') p = Some q' \<and>
    q @ along accepted tr p = along (written_out ops) tr p @ q'"
  by (rule run_fifo [OF assms(3,2,1,4-6)])

theorem connections_are_fifo_witness:
  "\<exists>tr0 sy tr sy' q'. sample_served = Some (tr0, sy) \<and> sample_answered = Some (tr, sy') \<and>
    channel concat (network sy') 0x80000001 = Some q' \<and>
    sample_bytes = along (written_out chunk_ops) tr 0x80000001 @ q'"
proof -
  from sample_answered_run obtain tr0 sy tr sy' where a: "sample_served = Some (tr0, sy)" "sample_answered = Some (tr, sy')"
    "reachable chunk_ops 1 sy" "run chunk_ops sy tr sy'" "channel concat (network sy) 0x80000001 = Some []"
    "list_all (\<lambda>x. is_open 0x80000001 (network (snd x))) tr" "is_open 0x80000001 (network sy')"
    "along accepted tr 0x80000001 = sample_bytes" by blast
  have "\<forall>x \<in> set tr. is_open 0x80000001 (network (snd x))" using a(6) by (simp add: list_all_iff)
  from connections_are_fifo [OF chunk_ops_laws a(3,4) this a(7,5)] a(1,2,8) show ?thesis by auto
qed









section \<open>Locks\<close>



text \<open>C11. The threads never block each other for good. From every reachable state, with any locks held and
  any threads waiting, all of them can come to the end of what they are doing: a waiting thread waits for one
  that can run, since the only lock taken while another is held is that of a queue of new connections.\<close>

theorem threads_never_deadlock:
  assumes "lock_reach program s"
  shows "\<exists>s'. (\<lambda>a b. \<exists>t. lock_step program t a b)\<^sup>*\<^sup>* s s' \<and> (\<forall>t. todo s' t = [])"
  by (rule net_locks.all_can_finish [OF assms])

theorem threads_never_deadlock_witness:
  "\<exists>s s'. lock_reach program s \<and> todo s (Worker 0) = connect_locks [0] \<and>
    (\<lambda>a b. \<exists>t. lock_step program t a b)\<^sup>*\<^sup>* s s' \<and> todo s' (Worker 0) = []"
proof -
  have "program (Worker 0) (connect_locks [0])" by (rule program.intros)
  from first_begin [where prog = program, OF this] obtain s where
    "lock_reach program s" "todo s (Worker 0) = connect_locks [0]" by blast
  with threads_never_deadlock [OF this(1)] show ?thesis by blast
qed

text \<open>C12. The accept thread waits for all workers and for nothing else. It goes on only when every worker has
  registered, it never waits when all have (no wake-up is lost between its test and its wait), and from every
  state of the start it gets there once the remaining workers register.\<close>

theorem accepting_waits_for_every_worker:
  assumes "started n x"
  shows "(st_waiter x = Ready \<longrightarrow> st_left x = 0) \<and> (st_waiter x = Waits \<longrightarrow> 0 < st_left x) \<and>
    s_init_count (st_net x) = of_nat (n - st_left x) \<and> (\<exists>y. start_step\<^sup>*\<^sup>* x y \<and> st_waiter y = Ready)"
  using started_ok [OF assms] start_finishes [OF assms] by (auto simp: start_ok_def)

theorem accepting_waits_for_every_worker_witness:
  "\<exists>y. start_step\<^sup>*\<^sup>*
     \<lparr> st_net = sample_blank\<lparr> s_init_count := 0 \<rparr>, st_waiter = Checks, st_left = 1 \<rparr> y \<and> st_waiter y = Ready"
proof -
  have "started 1 \<lparr> st_net = sample_blank\<lparr> s_init_count := 0 \<rparr>, st_waiter = Checks, st_left = 1 \<rparr>"
    by (rule started.started_init) (simp_all add: sample_blank_def NetSetting_ctor_def)
  from accepting_waits_for_every_worker [OF this] show ?thesis by blast
qed

text \<open>C13. Three pieces of shared data have no lock and are raced for: \<open>get_net_msgs\<close> asks the table of a worker
  for its size while the worker inserts into it, \<open>net_send\<close> reads the worker of a connection while it is being
  set, and the accept thread counts the turn of the workers on while a worker that connects does so too.\<close>

theorem unlocked_data_is_raced_for:
  "(\<exists>s. lock_reach program s \<and> race s Logic (Worker 0) (Thread_connections 0)) \<and>
   (\<exists>s. lock_reach program s \<and> race s Logic (Worker i) (Conn_td p)) \<and>
   (\<exists>s. lock_reach program s \<and> race s Acceptor (Worker i) Last_thread_id)"
  by (intro conjI size_race td_race turn_race)

section \<open>Threads together\<close>



section \<open>Framing\<close>

text \<open>C15. The messages a connection delivers do not depend on how TCP cut the stream: two
  sequences of reads with the same bytes leave the same messages and the same incomplete rest.\<close>

theorem stream_reassembly:
  assumes "evbuffer_laws ops bytes" and "self \<noteq> NULLP" and "read_buffer conn = Some b"
    and "bytes b = []" and "length (concat chunks) < 2 ^ 31" and "concat chunks = concat chunks'"
    and "fold_res (receive ops procs raw self) chunks conn = Inr c1"
  shows "\<exists>c2. fold_res (receive ops procs raw self) chunks' conn = Inr c2 \<and>
    conn_read_msgs c2 = conn_read_msgs c1 \<and>
    bytes (the (read_buffer c2)) = bytes (the (read_buffer c1))"
proof -
  have "next_frame (bytes b) = Wait" using assms(4) by (simp add: next_frame_def)
  note all = receive_chunks [OF assms(1-3) this, where procs = procs and raw = raw]
  from all [of chunks] assms(4,5,7) obtain ms r where
    "decode procs raw self (concat chunks) = Inr (ms, r)"
    "conn_view bytes c1 = (conn_read_msgs conn @ ms, r)" by auto
  with all [of chunks'] assms(4-6) show ?thesis
    by (auto simp: conn_view_def split: sum.splits)
qed

theorem stream_reassembly_witness:
  "\<exists>c2. fold_res (receive chunk_ops [] (0, 0, 0) 7) [take 3 sample_bytes, drop 3 sample_bytes] sample_conn = Inr c2 \<and>
    conn_read_msgs c2 = [] \<and> concat (the (read_buffer c2)) = []"
proof -
  have "case fold_res (receive chunk_ops [] (0, 0, 0) 7) [sample_bytes] sample_conn of
      Inl f \<Rightarrow> False | Inr c \<Rightarrow> conn_read_msgs c = [] \<and> concat (the (read_buffer c)) = []"
    by code_simp
  then obtain c1 where c1: "fold_res (receive chunk_ops [] (0, 0, 0) 7) [sample_bytes] sample_conn = Inr c1"
    "conn_read_msgs c1 = []" "concat (the (read_buffer c1)) = []" by (auto split: sum.splits)
  from stream_reassembly [OF chunk_ops_laws _ _ _ _ _ c1(1),
      of "[]" "[take 3 sample_bytes, drop 3 sample_bytes]"] c1(2,3)
  show ?thesis by (simp add: sample_conn_def sample_bytes_def)
qed

section \<open>Streams\<close>

text \<open>C16. A message read through any \<open>ZeroCopyInputStream\<close> that keeps its contract is the one read from
  the array of the same bytes, with the same verdict, however the stream cuts them into blocks; the stream is
  left where the reader stopped, at its end if the message was accepted. This for a stream below 64 MiB.\<close>

theorem message_from_any_stream:
  assumes "zero_copy_input zi vw" and "zv_wf vw s" and "length (zv_left vw s) < 67108864"
    and "ParseFromArray Regist_Req_vtable (zv_left vw s) m = Inr (b, m')"
  shows "\<exists>s'. ParseFromZeroCopyStream zi Regist_Req_vtable (Regist_Req_MergePartialFromStream zi) s m =
      Some (b, m', s') \<and> zv_wf vw s' \<and>
    (\<exists>k \<le> length (zv_left vw s). zv_left vw s' = drop k (zv_left vw s)) \<and> (b \<longrightarrow> zv_left vw s' = [])"
  by (rule zero_copy_input.ParseFromZeroCopyStream_array
      [OF assms(1-3) zero_copy_input.class_merges(1) [OF assms(1)] assms(4)])

theorem message_from_any_stream_witness:
  "\<exists>s'. ParseFromZeroCopyStream (concat_stream array_stream) Regist_Req_vtable
      (Regist_Req_MergePartialFromStream (concat_stream array_stream)) sample_arrays Regist_Req_SharedCtor =
    Some (True, sample_req, s') \<and> zv_left (concat_view array_view) s' = []"
  using message_from_any_stream [OF array_chain.zero_copy_input_axioms sample_arrays_view(1),
      of Regist_Req_SharedCtor True sample_req] sample_req_bytes(2) by (auto simp: sample_arrays_view(2))



text \<open>C18. A message written to a descriptor is read back from one. \<open>write\<close> and \<open>read\<close> may take or give
  as few bytes as they like and be interrupted any number of times: both sides retry, the writer reports success, all
  bytes arrive and the reader accepts the message, equal up to its cached size.\<close>

theorem messages_cross_pipes:
  assumes "int32_wf m" and "SerializeToArray Regist_Req_vtable n m = Inr (True, Some bytes, m')"
    and "length bytes < 67108864"
  shows "\<exists>p' q'. SerializeToFileDescriptor pipe_sink_calls Regist_Req_vtable
      (Regist_Req_SerializeToStream (adaptor_output (fo_Write pipe_sink_calls)))
      \<lparr> ps_taken = [], ps_script = script \<rparr> m = Some (True, m', p') \<and>
    ParseFromFileDescriptor pipe_calls Regist_Req_vtable
      (Regist_Req_MergePartialFromStream (adaptor_stream (file_source pipe_calls)))
      \<lparr> pe_bytes = ps_taken p', pe_script = script' \<rparr> m0 = Some (True, m\<lparr> cached_size := cached_size m0 \<rparr>, q')"
proof -
  have b: "vt_SerializeWithCachedSizesToArray Regist_Req_vtable m = bytes"
    using SerializeToArrayD [OF assms(2)] by (metis regist_req.byte_size regist_req.serialize_cached prod.inject)
  have "length bytes \<le> kDefaultTotalBytesLimit" using assms(3) by simp
  then have "ParseFromArray Regist_Req_vtable bytes m0 = Inr (True, m\<lparr> cached_size := cached_size m0 \<rparr>)"
    using regist_req.ParseFromArray_write [OF assms(1), of m0] unfolding b by simp
  from message_through_pipes [OF assms(2,3) this] show ?thesis .
qed

theorem messages_cross_pipes_witness:
  "\<exists>p' q'. SerializeToFileDescriptor pipe_sink_calls Regist_Req_vtable
      (Regist_Req_SerializeToStream (adaptor_output (fo_Write pipe_sink_calls)))
      \<lparr> ps_taken = [], ps_script = [Se_interrupt, Se_up_to 0] \<rparr> sample_req =
        Some (True, sample_req\<lparr> cached_size := 2 \<rparr>, p') \<and>
    ParseFromFileDescriptor pipe_calls Regist_Req_vtable
      (Regist_Req_MergePartialFromStream (adaptor_stream (file_source pipe_calls)))
      \<lparr> pe_bytes = ps_taken p', pe_script = [Pe_up_to 0, Pe_interrupt] \<rparr> Regist_Req_SharedCtor =
        Some (True, sample_req, q')"
proof -
  have "int32_wf sample_req" by (simp add: int32_wf_def) code_simp
  moreover have "sample_req\<lparr> cached_size := cached_size Regist_Req_SharedCtor \<rparr> = sample_req" by code_simp
  ultimately show ?thesis
    using messages_cross_pipes [OF _ sample_req_bytes(1), of "[Se_interrupt, Se_up_to 0]"
        "[Pe_up_to 0, Pe_interrupt]" Regist_Req_SharedCtor] by simp
qed



section \<open>Messages\<close>

text \<open>C20. Serialising a message of any of the four classes into a buffer of \<open>ByteSize()\<close> bytes
  succeeds, and parsing the result into any object of the class gives the message back: every
  \<open>int32\<close> value, negative ones included, and every well-formed unknown field. Only the cached size
  stays that of the receiving object.\<close>

theorem message_roundtrip:
  assumes "MsgData_wf d" and "length (MsgData_bytes d) \<le> kDefaultTotalBytesLimit"
    and "MsgData_class d0 = MsgData_class d"
  shows "MsgData_SerializeToArray (fst (MsgData_ByteSize d)) d = Inr (True, Some (MsgData_bytes d)) \<and>
    MsgData_ParseFromArray (MsgData_bytes d) d0 = Inr (True, MsgData_set_cached (MsgData_cached d0) d)"
  using MsgData_roundtrip [OF assms] by (simp add: MsgData_ByteSize_eq MsgData_SerializeToArray_fits)

theorem message_roundtrip_witness:
  "MsgData_SerializeToArray (fst (MsgData_ByteSize (MD_Shutdown_Res (Shutdown_Res_set_code (- 2) Shutdown_Res_SharedCtor))))
      (MD_Shutdown_Res (Shutdown_Res_set_code (- 2) Shutdown_Res_SharedCtor))
    = Inr (True, Some [8, 0xfe, 0xff, 0xff, 0xff, 0xff, 0xff, 0xff, 0xff, 0xff, 1]) \<and>
   MsgData_ParseFromArray [8, 0xfe, 0xff, 0xff, 0xff, 0xff, 0xff, 0xff, 0xff, 0xff, 1]
      (MD_Shutdown_Res Shutdown_Res_SharedCtor)
    = Inr (True, MD_Shutdown_Res (Shutdown_Res_set_code (- 2) Shutdown_Res_SharedCtor))"
proof -
  let ?d = "MD_Shutdown_Res (Shutdown_Res_set_code (- 2) Shutdown_Res_SharedCtor)"
  have b: "MsgData_bytes ?d = [8, 0xfe, 0xff, 0xff, 0xff, 0xff, 0xff, 0xff, 0xff, 0xff, 1]" by code_simp
  have wf: "MsgData_wf ?d" by (simp add: int32_wf_def) code_simp
  have c: "MsgData_set_cached (MsgData_cached (MD_Shutdown_Res Shutdown_Res_SharedCtor)) ?d = ?d" by code_simp
  from message_roundtrip [OF wf, of "MD_Shutdown_Res Shutdown_Res_SharedCtor"] show ?thesis
    unfolding b c by simp
qed

text \<open>C21. Parsing terminates with a verdict on every byte sequence: the fatal checks of
  \<open>ParseFromArray\<close> are never hit and the loop over the tags, with the recursion of
  \<open>SkipField\<close> into groups, ends. The fuel of the model, linear in the input, is enough.\<close>

theorem parse_never_faults:
  "\<exists>ok d'. MsgData_ParseFromArray data d = Inr (ok, d') \<and> MsgData_class d' = MsgData_class d"
  by (rule MsgData_ParseFromArray_total)

section \<open>Unknown fields\<close>

text \<open>C22. What \<open>SerializeUnknownFieldsToArray\<close> writes is read back by \<open>UnknownFieldSet\<close> from any stream,
  however it cuts the bytes, with groups nested up to the recursion limit of 100; the fields the set had before are
  gone, and the stream is at its end.\<close>

theorem unknown_fields_roundtrip:
  assumes "zero_copy_input zi vw" and "zv_wf vw s" and "zv_left vw s = SerializeUnknownFieldsToArray us"
    and "\<forall>u \<in> set us. uf_ok 100 u" and "length (zv_left vw s) < 67108864"
  shows "\<exists>s'. ufs_ParseFromZeroCopyStream zi s old = Some (True, us, s') \<and> zv_wf vw s' \<and> zv_left vw s' = []"
  using zero_copy_input.unknown_fields_read [OF assms(1-3) _ assms(5)] assms(4) by blast

theorem unknown_fields_roundtrip_witness:
  "\<exists>s'. ufs_ParseFromZeroCopyStream (concat_stream array_stream) sample_arrays [UF_fixed32 2 9] =
    Some (True, [UF_varint 1 5], s') \<and> zv_left (concat_view array_view) s' = []"
proof -
  have "SerializeUnknownFieldsToArray [UF_varint 1 5] = [8, 5]" by code_simp
  with sample_arrays_view(2) have w: "zv_left (concat_view array_view) sample_arrays =
    SerializeUnknownFieldsToArray [UF_varint 1 5]" by simp
  have "\<forall>u \<in> set [UF_varint 1 5]. uf_ok 100 u" by (simp add: uf_number_ok_def)
  from unknown_fields_roundtrip [OF array_chain.zero_copy_input_axioms sample_arrays_view(1) w this]
  show ?thesis by (auto simp: sample_arrays_view(2))
qed



section \<open>Static registration\<close>


section \<open>Varints\<close>

text \<open>C25. Reading a varint gives back the value written and the bytes after it, for all 64-bit
  values, all 32-bit values, tags, and \<open>int32\<close> values in their sign-extended ten-byte form.\<close>

theorem varint_roundtrip:
  "ReadVarint64 (WriteVarint64ToArrayInline v @ rest) = (Some v, rest) \<and>
   ReadVarint32 (WriteVarint32ToArray w @ rest) = (Some w, rest) \<and>
   ReadVarint32 (WriteTagToArray w @ rest) = (Some w, rest) \<and>
   ReadVarint32 (WriteVarint32SignExtendedToArray w @ rest) = (Some w, rest)"
  by (simp add: ReadVarint64_write ReadVarint32_write ReadVarint32_write_tag ReadVarint32_write_int32)

section \<open>Streams\<close>

text \<open>C26. On a descriptor on which every write fails, \<open>SerializeToFileDescriptor\<close> reports success for every
  message of up to 8192 bytes and nothing is written: the bytes are still in the buffer of the stream when the
  answer is given, and the destructor drops the error of the flush.\<close>

theorem failed_write_is_reported_as_success:
  assumes "\<And>data. sys_write sys data f = (Wr_error e, f)" and "e \<noteq> 4"
    and "SerializeToArray vt n m = Inr (True, Some bytes, m')" and "length bytes \<le> 8192"
  shows "SerializeToFileDescriptor sys vt ser f m = Some (True, m', f)"
  by (rule broken_descriptor_is_not_noticed [OF assms])

theorem failed_write_is_reported_as_success_witness:
  "SerializeToFileDescriptor \<lparr> sys_write = (\<lambda>data f. (Wr_error 28, f)), sys_close = (\<lambda>f. (None, f)) \<rparr>
      Regist_Req_vtable (Regist_Req_SerializeToStream
        (adaptor_output (fo_Write \<lparr> sys_write = (\<lambda>data f. (Wr_error 28, f)), sys_close = (\<lambda>f. (None, f)) \<rparr>)))
      () sample_req = Some (True, sample_req\<lparr> cached_size := 2 \<rparr>, ())"
  by (rule failed_write_is_reported_as_success [OF _ _ sample_req_bytes(1), where e = 28]) simp_all

text \<open>C27. A reader that has come to its total bytes limit, with more of the message in the buffer, is at the
  end of a message for \<open>ExpectAtEnd\<close> but not for \<open>ReadTag\<close>. Since the generated parsers ask \<open>ExpectAtEnd\<close>
  after each field, a message cut by the limit between two fields is accepted.\<close>

theorem total_limit_is_taken_for_the_end:
  assumes "ci_size c = 0" and "0 < ci_after c" and "ci_total_limit c < ci_limit c"
    and "ci_CurrentPosition c = ci_total_limit c"
  shows "fst (ci_ExpectAtEnd c) \<and> ci_ConsumedEntireMessage (snd (ci_ExpectAtEnd c)) \<and>
    (\<exists>c'. ci_ReadTag zi c = Some (0, c') \<and> \<not> ci_ConsumedEntireMessage c')"
  using assms
  by (simp add: ci_ExpectAtEnd_def ci_BufferSize_def ci_ConsumedEntireMessage_def ci_ReadTag_def ci_buffer_def
      safe_unrolled_def ci_ReadTagFallback_def ci_ReadTagSlow_def ci_Refresh_def ci_CurrentPosition_def ci_log_limit_def)

theorem total_limit_is_taken_for_the_end_witness:
  "\<exists>c. ci_create array_stream (ArrayInputStream [8, 5, 8, 6] 4) = Some c \<and>
    (let c2 = ci_Advance 2 (ci_SetTotalBytesLimit 2 (-1) c)
     in fst (ci_ExpectAtEnd c2) \<and> ci_ConsumedEntireMessage (snd (ci_ExpectAtEnd c2)) \<and>
       (\<exists>c'. ci_ReadTag array_stream c2 = Some (0, c') \<and> \<not> ci_ConsumedEntireMessage c'))"
proof -
  let ?c = "\<lparr> ci_input = \<lparr> ai_data = [8, 5, 8, 6], ai_block_size = 4, ai_position = 4, ai_last = 4 \<rparr>,
      ci_mem = [8, 5, 8, 6], ci_size = 4, ci_read = 4, ci_overflow = 0, ci_last_tag = 0, ci_legit = False,
      ci_limit = INT_MAX, ci_after = 0, ci_total_limit = 67108864, ci_warning = 33554432, ci_depth = 0,
      ci_depth_limit = 100, ci_log = [] \<rparr>"
  have c: "ci_create array_stream (ArrayInputStream [8, 5, 8, 6] 4) = Some ?c"
    by (simp add: ci_create_def ci_Refresh_def NextNonEmpty.simps array_stream_def ai_Next_def ArrayInputStream_def
        ci_load_def ci_warn_def ci_RecomputeBufferLimits_def ci_closest_def)
  have "ci_size (ci_Advance 2 (ci_SetTotalBytesLimit 2 (-1) ?c)) = 0"
    "0 < ci_after (ci_Advance 2 (ci_SetTotalBytesLimit 2 (-1) ?c))"
    "ci_total_limit (ci_Advance 2 (ci_SetTotalBytesLimit 2 (-1) ?c)) < ci_limit (ci_Advance 2 (ci_SetTotalBytesLimit 2 (-1) ?c))"
    "ci_CurrentPosition (ci_Advance 2 (ci_SetTotalBytesLimit 2 (-1) ?c)) =
      ci_total_limit (ci_Advance 2 (ci_SetTotalBytesLimit 2 (-1) ?c))"
    by (simp_all add: ci_Advance_def ci_SetTotalBytesLimit_def ci_CurrentPosition_def ci_BufferSize_def
        ci_RecomputeBufferLimits_def ci_closest_def Let_def)
  from total_limit_is_taken_for_the_end [OF this, of array_stream] c show ?thesis by (simp add: Let_def)
qed

section \<open>Gate server\<close>

text \<open>C28. One pass of the gate routes every message received and loses none. A message of a client
  goes to the game server, marked with the client's connection; a message of the game server goes to the
  client it is marked with; each is queued on the worker that serves its target, in the order received.\<close>

theorem gate_routes_every_message:
  assumes "workers k (net s)" and "s_cnt (net s) \<noteq> 0x7FFFFFFF"
    and "ns = s_recv_msgs s @ concat (map (\<lambda>i. td_reads (net s) (of_nat i)) [0..<k])"
    and "\<And>n. n \<in> set ns \<Longrightarrow> msg_conn n \<noteq> NULLP \<and> (msg_conn n = s_game_conn s \<longrightarrow> msg_type n \<noteq> 0) \<and>
       (\<exists>i < k. worker_of (net s) (gate_target (s_game_conn s) n) = Some (of_nat i))"
  shows "\<exists>s'. gate_logic_update now delta s = Inr s' \<and> s_recv_msgs s' = [] \<and> conns (net s') = conns (net s) \<and>
    (\<forall>i < k. \<exists>t. get_td (of_nat i) (net s) = Inr t \<and>
       get_td (of_nat i) (net s') = Inr (t\<lparr> td_read_msgs := [], td_write_msgs := td_write_msgs t @
         map (gate_routed (s_game_conn s))
           (filter (\<lambda>n. worker_of (net s) (gate_target (s_game_conn s) n) = Some (of_nat i)) ns) \<rparr>))"
  using gate_logic_update_routes [OF assms] by (simp add: routed_to_def)

theorem gate_routes_every_message_witness:
  "\<exists>s'. gate_logic_update 0 0 (sample_gate\<lparr> s_recv_msgs :=
      [sample_node\<lparr> msg_conn := 8 \<rparr>, sample_node\<lparr> msg_conn := 7, cli_conn := 8 \<rparr>] \<rparr>) = Inr s' \<and>
    td_sends s' 0 = [sample_node\<lparr> cli_conn := 8, msg_conn := 7 \<rparr>, sample_node\<lparr> cli_conn := 8, msg_conn := 8 \<rparr>]"
proof -
  let ?ns = "[sample_node\<lparr> msg_conn := 8 \<rparr>, sample_node\<lparr> msg_conn := 7, cli_conn := 8 \<rparr>]"
  let ?s = "sample_gate\<lparr> s_recv_msgs := ?ns \<rparr>"
  have net: "net sample_gate = sample_idle" "s_game_conn sample_gate = 7" "s_recv_msgs sample_gate = []" by (simp_all add: sample_gate_def)
  have all: "?ns = s_recv_msgs ?s @ concat (map (\<lambda>i. td_reads (net ?s) (of_nat i)) [0..<1])"
    using sample_idle_tables(1) by (simp add: net td_reads_def sample_worker_def new_ThreadData_def)
  have w: "worker_of sample_idle 7 = Some 0" "worker_of sample_idle 8 = Some 0"
    by (simp_all add: worker_of_def get_conn_def sample_idle_def)
  have ok: "msg_conn n \<noteq> NULLP \<and> (msg_conn n = s_game_conn ?s \<longrightarrow> msg_type n \<noteq> 0) \<and>
      (\<exists>i < 1. worker_of (net ?s) (gate_target (s_game_conn ?s) n) = Some (of_nat i))" if "n \<in> set ?ns" for n
    using that w by (auto simp: net gate_target_def sample_node_def)
  have sizes: "workers 1 (net ?s)" "s_cnt (net ?s) \<noteq> 0x7FFFFFFF" using sample_idle_tables(4,5) by (simp_all add: net)
  obtain s' where s': "gate_logic_update 0 0 ?s = Inr s'"
    "\<forall>i < 1. \<exists>t. get_td (of_nat i) (net ?s) = Inr t \<and> get_td (of_nat i) (net s') = Inr (t\<lparr> td_read_msgs := [],
       td_write_msgs := td_write_msgs t @ map (gate_routed (s_game_conn ?s))
         (filter (\<lambda>n. worker_of (net ?s) (gate_target (s_game_conn ?s) n) = Some (of_nat i)) ?ns) \<rparr>)"
    using gate_routes_every_message [OF sizes all ok, of 0 0] by blast
  from s'(2) w sample_idle_tables(1) have "td_sends s' 0 = map (gate_routed 7) ?ns"
    by (simp add: net gate_target_def td_sends_def)
  with s'(1) show ?thesis by (simp add: gate_routed_def)
qed



text \<open>C30. An answer for a client that is gone crashes the gate, or worse: the gate follows the
  connection address it finds in the message, and uses the object after it was deleted.\<close>

theorem client_gone_is_used:
  assumes "msg_conn n = s_game_conn s" and "msg_conn n \<noteq> NULLP" and "msg_type n \<noteq> 0"
    and "cli_conn n \<noteq> NULLP" and "conns (net s) (cli_conn n) = None"
  shows "gate_process_msgs (n # ns) s = Inl (Dangling (cli_conn n))"
  using gate_forward_dangling [of n "s\<lparr> s_recv_msgs := ns \<rparr>"] assms by simp

theorem client_gone_is_used_witness:
  "gate_process_msgs [sample_node\<lparr> msg_conn := 7, cli_conn := 5 \<rparr>] sample_gate = Inl (Dangling 5)"
  using client_gone_is_used [of "sample_node\<lparr> msg_conn := 7, cli_conn := 5 \<rparr>" sample_gate "[]"]
  by (simp add: sample_gate_def sample_node_def sample_idle_def)



section \<open>Game server\<close>



text \<open>C33. Only gates may register with the game server. A number with the gate bit set is entered for
  the connection it came on, the first registration of a number wins; any other number gets its connection
  closed and no entry.\<close>

theorem game_accepts_gates_only:
  assumes "msg_data n = Some (MD_Regist_Req req)" and "map_ok (s_connections_to_me s)"
    and "get_conn (msg_conn n) (net s) = Inr c" and "state c \<noteq> CS_CLOSE"
  shows "\<exists>s'. game_process_Regist_req now n s = Inr s' \<and>
    (if my_id req AND 32 = 32
     then net s' = net s \<and> find_peer (sint (my_id req)) s' =
       Some (case find_peer (sint (my_id req)) s of None \<Rightarrow> msg_conn n | Some old \<Rightarrow> old)
     else s_connections_to_me s' = s_connections_to_me s \<and>
       conns (net s') = (conns (net s))(msg_conn n \<mapsto> c\<lparr> state := CS_CLOSE, close_time := now \<rparr>))"
  using process_Regist_req_gate [OF assms(1) _ assms(2), of now] process_Regist_req_other [OF assms(1) _ assms(3,4), of now]
  by (cases "my_id req AND 32 = 32") auto

theorem game_accepts_gates_only_witness:
  "(\<exists>s'. game_process_Regist_req 1000 (sample_node\<lparr> msg_conn := 7,
       msg_data := Some (MD_Regist_Req (Regist_Req_set_my_id 33 Regist_Req_SharedCtor)) \<rparr>) sample_game = Inr s' \<and>
       find_peer 33 s' = Some 7) \<and>
   (\<exists>s'. game_process_Regist_req 1000 (sample_node\<lparr> msg_conn := 7,
       msg_data := Some (MD_Regist_Req (Regist_Req_set_my_id 17 Regist_Req_SharedCtor)) \<rparr>) sample_game = Inr s' \<and>
       is_closed (net s') 7)"
proof -
  let ?n = "\<lambda>k. sample_node\<lparr> msg_conn := 7, msg_data := Some (MD_Regist_Req (Regist_Req_set_my_id k Regist_Req_SharedCtor)) \<rparr>"
  let ?c = "sample_conn\<lparr> td := Some 0 \<rparr>"
  have i: "my_id (Regist_Req_set_my_id k Regist_Req_SharedCtor) = k" for k
    by (simp add: Regist_Req_set_my_id_def Regist_Req_set_has_my_id_def)
  have c: "map_ok (s_connections_to_me sample_game)" "get_conn 7 (net sample_game) = Inr ?c" "state ?c \<noteq> CS_CLOSE"
    "find_peer 33 sample_game = None"
    by (simp_all add: sample_game_def get_conn_def sample_idle_def sample_conn_def find_peer_def)
  from game_accepts_gates_only [of "?n 33" _ sample_game ?c 1000] game_accepts_gates_only [of "?n 17" _ sample_game ?c 1000] c
  show ?thesis by (auto simp: i is_closed_def)
qed

section \<open>Worker threads\<close>

text \<open>C34. When a peer is gone the logic learns it exactly once: for each connection in the
  closing state, the worker queues one shutdown message that names it, after everything the
  connection had delivered, stops serving it and takes it out of the count. The other connections
  are not touched and the worker's tables stay in order.\<close>

theorem reaping_closed_connections:
  assumes "get_td i s = Inr t" and "tables_ok t s" and "knows_shutdown (s_msg_processers s)"
  shows "\<exists>s' t'. reap_phase raw i s = Inr s' \<and> get_td i s' = Inr t' \<and> tables_ok t' s' \<and>
    set (served t') = {p \<in> set (served t). \<not> is_closed s p} \<and>
    td_read_msgs t' = td_read_msgs t @ map (shutdown_note raw) (filter (is_closed s) (served t)) \<and>
    curr_conns s' = curr_conns s - of_nat (length (filter (is_closed s) (served t))) \<and>
    (\<forall>p. \<not> is_closed s p \<longrightarrow> conns s' p = conns s p)"
proof -
  from reap_phase_result [OF assms, of raw] obtain s' where s': "reap_phase raw i s = Inr s'"
    "get_td i s' = Inr (t\<lparr>
      td_read_msgs := td_read_msgs t @ map (shutdown_note raw) (filter (is_closed s) (served t)),
      for_delete_connections := keep_for_deletion s (filter (is_closed s) (served t)) (for_delete_connections t),
      thread_connections := fold map_erase (filter (is_closed s) (served t)) (thread_connections t) \<rparr>)"
    "reaped (filter (is_closed s) (served t)) s s'" by blast
  from reap_phase_tables [OF assms s'(1,2)] s' show ?thesis by (auto simp: reaped_def)
qed

theorem reaping_closed_connections_witness:
  "\<exists>s' t'. reap_phase (0, 0, 0) 0 (sample_net True) = Inr s' \<and> get_td 0 s' = Inr t' \<and>
    served t' = [] \<and> td_read_msgs t' = [shutdown_note (0, 0, 0) 7] \<and> curr_conns s' = 0"
proof -
  have c: "filter (is_closed (sample_net True)) [7] = [7]" "is_closed (sample_net True) 7"
    by (simp_all add: is_closed_def sample_net_def)
  have n: "curr_conns (sample_net True) = 1" "td_read_msgs sample_worker = []"
    by (simp_all add: sample_net_def sample_worker_def new_ThreadData_def)
  from sample_tables [of True] have tabs: "get_td 0 (sample_net True) = Inr sample_worker"
    "tables_ok sample_worker (sample_net True)" "served sample_worker = [7]" by auto
  have kn: "knows_shutdown (s_msg_processers (sample_net True))"
    using sample_tables [of True] sample_procs_ok by simp
  obtain s' t' where r: "reap_phase (0, 0, 0) 0 (sample_net True) = Inr s'" "get_td 0 s' = Inr t'"
    "set (served t') = {p \<in> set [7]. \<not> is_closed (sample_net True) p}"
    "td_read_msgs t' = td_read_msgs sample_worker @ map (shutdown_note (0, 0, 0)) [7]"
    "curr_conns s' = curr_conns (sample_net True) - of_nat (length [7 :: ptr])"
    using reaping_closed_connections [OF tabs(1,2) kn, of "(0, 0, 0)"]
    unfolding tabs(3) c(1) by (elim exE conjE) (rule that)
  from r(3) c(2) have "set (served t') = {}" by auto
  then have "served t' = []" by simp
  with r n show ?thesis by (intro exI [of _ s'] exI [of _ t']) simp
qed

text \<open>C35. Messages that arrive just before their connection closes are lost. A connection that is closed in
  the round in which it was read is reaped before its messages are collected: the logic gets the shutdown
  message of that connection and the messages of the other connections, but not its last messages.\<close>

theorem closing_drops_messages:
  assumes "get_td i s = Inr t" and "tables_ok t s" and "knows_shutdown (s_msg_processers s)"
  shows "\<exists>s1 s2 t2. reap_phase raw i s = Inr s1 \<and> collect_reads i s1 = Inr s2 \<and> get_td i s2 = Inr t2 \<and>
    td_read_msgs t2 = td_read_msgs t @ map (shutdown_note raw) (filter (is_closed s) (served t)) @
      concat (map (read_queue s) (filter (\<lambda>p. \<not> is_closed s p) (served t)))"
  by (rule reap_then_collect [OF assms])

theorem closing_drops_messages_witness:
  "read_queue (sample_net True) 7 = [sample_node] \<and>
   (\<exists>s1 s2 t2. reap_phase (0, 0, 0) 0 (sample_net True) = Inr s1 \<and> collect_reads 0 s1 = Inr s2 \<and>
     get_td 0 s2 = Inr t2 \<and> td_read_msgs t2 = [shutdown_note (0, 0, 0) 7])"
proof -
  have c: "is_closed (sample_net True) 7" "read_queue (sample_net True) 7 = [sample_node]"
    by (simp_all add: is_closed_def sample_net_def read_queue_def)
  have kn: "knows_shutdown (s_msg_processers (sample_net True))"
    using sample_tables [of True] sample_procs_ok by simp
  have "get_td 0 (sample_net True) = Inr sample_worker" "tables_ok sample_worker (sample_net True)"
    "served sample_worker = [7]" "td_read_msgs sample_worker = []"
    using sample_tables [of True] by (simp_all add: sample_worker_def new_ThreadData_def)
  with closing_drops_messages [OF this(1,2) kn, of "(0, 0, 0)"] c show ?thesis by simp
qed

text \<open>C36. The last phase of a round deletes exactly the connections that were closed more
  than two minutes ago. It stops at the first younger one, which is right because the table is ordered
  by closing time. No connection that is served is deleted.\<close>

theorem purge_deletes_what_expired:
  assumes "get_td i s = Inr t" and "tables_ok t s"
    and "\<And>x. x \<in> set (for_delete_connections t) \<Longrightarrow> 0 \<le> closing_time s (snd x) \<and> closing_time s (snd x) < 2 ^ 63"
  shows "\<exists>s' t'. purge_phase now i s = Inr s' \<and> get_td i s' = Inr t' \<and> tables_ok t' s' \<and>
    served t' = served t \<and>
    (\<forall>x \<in> set (for_delete_connections t). 120 < now - closing_time s (snd x) \<longrightarrow> conns s' (snd x) = None) \<and>
    (\<forall>p. (\<forall>x \<in> set (for_delete_connections t). snd x = p \<longrightarrow> now - closing_time s p \<le> 120) \<longrightarrow> conns s' p = conns s p) \<and>
    for_delete_connections t' = dropWhile (\<lambda>x. 120 < now - closing_time s (snd x)) (for_delete_connections t)"
proof -
  let ?m = "for_delete_connections t"
  have e: "expired now s = (\<lambda>x. 120 < now - closing_time s (snd x))" by (rule ext) (simp add: expired_def)
  from purge_phase_result [OF assms(1,2), of now] obtain s' where s': "purge_phase now i s = Inr s'"
    "get_td i s' = Inr (t\<lparr> for_delete_connections := dropWhile (expired now s) ?m \<rparr>)"
    "conns s' = without_conns (snd ` set (filter (expired now s) ?m)) s"
    "tables_ok (t\<lparr> for_delete_connections := dropWhile (expired now s) ?m \<rparr>) s'"
    using expired_prefix [OF assms(2,3), of now] by auto
  have "served (t\<lparr> for_delete_connections := dropWhile (expired now s) ?m \<rparr>) = served t" by (simp add: served_def)
  with s'(1,2,4) show ?thesis
    by (intro exI [of _ s'] exI [of _ "t\<lparr> for_delete_connections := dropWhile (expired now s) ?m \<rparr>"])
       (auto simp: s'(3) without_conns_def e)
qed

theorem purge_deletes_what_expired_witness:
  "\<exists>s' t'. purge_phase 2000 0 (put_td 0 (sample_worker\<lparr> thread_connections := [], for_delete_connections := [(1000, 7)] \<rparr>)
      (sample_net True)) = Inr s' \<and> get_td 0 s' = Inr t' \<and> for_delete_connections t' = [] \<and> conns s' 7 = None"
proof -
  let ?t = "sample_worker\<lparr> thread_connections := [], for_delete_connections := [(1000, 7)] \<rparr>"
  let ?s = "put_td 0 ?t (sample_net True)"
  have ok: "get_td 0 ?s = Inr ?t" "tables_ok ?t ?s" "closing_time ?s 7 = 1000"
    by (auto simp: tables_ok_def closing_time_def sample_net_def split: if_splits)
  have m: "for_delete_connections ?t = [(1000, 7)]" by simp
  from purge_deletes_what_expired [OF ok(1,2), of 2000] ok(3) show ?thesis
    unfolding m by fastforce
qed

section \<open>Message table\<close>

text \<open>C37. A message of a registered type is disposed of once, by \<open>message_free\<close> and by
  \<open>message_process\<close> after its handler ran: its data as the class it was made as, then the node.\<close>

theorem messages_are_disposed_once:
  assumes "node_ok procs n" and "procs_ok procs"
  shows "(\<exists>g d. message_free procs (Some n) = Inr [Del_data g d, Del_node n] \<and> msg_data n = Some d \<and>
      delete_class g = MsgData_class d) \<and>
    (\<exists>h g d. message_process handle procs (Some n) s =
       bind_res (handle h n s) (\<lambda>s'. Inr (s', [Del_data g d, Del_node n])) \<and>
       msg_data n = Some d \<and> delete_class g = MsgData_class d)"
  using message_free_ok [OF assms(1)] message_process_ok [OF assms, of handle s] by blast

theorem messages_are_disposed_once_witness:
  "\<exists>g d. message_free sample_procs (Some sample_node) = Inr [Del_data g d, Del_node sample_node] \<and>
     msg_data sample_node = Some d \<and> delete_class g = MsgData_class d"
  using messages_are_disposed_once [of sample_procs sample_node "\<lambda>h n s. Inr s" "()"]
    sample_node_ok sample_procs_ok by blast

section \<open>Databases\<close>



text \<open>C39. A pass of the saving thread takes the first role of the list in redis, writes it to the
  database, and removes it from the list when, and only when, the database accepted it: a role whose write
  fails stays first in the list.\<close>

theorem roles_are_saved:
  assumes "rd_command ops cmd_first r = (Some (R_array (R_string key # es)), r1)"
    and "0 \<notin> set key" and "key \<noteq> []" and "rd_get ops key r1 = (Some (R_string v), r2)"
    and "rc_parse rc v (rc_new rc) = Inr (ok, role)"
    and "my_ret (server (role_sql rc role)) = 0" and "rd_command ops cmd_del r2 = (Some (R_integer k), r3)"
  shows "save_roles_pass ops rc True server response response_del r =
      Inr (([], int_to_str k, [role_sql rc role]), r3) \<and>
    save_roles_pass ops rc True (\<lambda>q. (server q)\<lparr> my_ret := 1 \<rparr>) response response_del r =
      Inr (([], response_del, [role_sql rc role]), r2)"
proof -
  have c: "c_str cmd_first = cmd_first" "c_str key = key"
    using commands_plain assms(2) by (simp_all add: c_str_id)
  have "save_roles_pass ops rc True server response response_del r =
      Inr (([], int_to_str k, [role_sql rc role]), r3)"
    by (rule save_roles_pass_saves [OF assms(1-5) _ assms(7)]) (simp add: db_exe_def assms(6) Let_def)
  moreover have "save_roles_pass ops rc True (\<lambda>q. (server q)\<lparr> my_ret := 1 \<rparr>) response response_del r =
      Inr (([], response_del, [role_sql rc role]), r2)"
    using assms(1,3-5) by (simp add: save_roles_pass_def redis_cmd_def commands_plain c get_redis_data_def
        redis_get_data_def db_exe_def Let_def)
  ultimately show ?thesis by blast
qed

theorem roles_are_saved_witness:
  "save_roles_pass sample_redis sample_rc True (\<lambda>q. sample_my) [] [] (\<lambda>k. Some k) =
    Inr (([], int_to_str 1, [role_sql sample_rc [5]]), (\<lambda>k. Some k))"
  using roles_are_saved [of sample_redis "\<lambda>k. Some k" "[5]" "[]" "\<lambda>k. Some k" "[5]" "\<lambda>k. Some k" sample_rc True "[5]"
      "\<lambda>q. sample_my" 1 "\<lambda>k. Some k" "[]" "[]"]
  by (simp add: sample_redis_def map_server_def sample_rc_def sample_my_def cmd_distinct)

section \<open>Scripts\<close>

text \<open>C40. A call into Lua takes the stack down to where it was, whether the function returns, fails or
  gives the wrong type, and then leaves the result of the caller alone. When the function does not exist the
  message handler stays on the stack: one slot is lost each time.\<close>

theorem lua_calls_keep_the_stack:
  assumes "\<And>a. a \<in> set args \<Longrightarrow> passable a" and "\<And>k a. (k, a) \<in> set tbl \<Longrightarrow> passable a"
  shows "(\<exists>ok r. call_lua_func_int api func args ret st = Inr (ok, r,
       if is_function (la_global api func) then st else lua_traceback # st) \<and> (\<not> ok \<longrightarrow> r = ret)) \<and>
    (\<exists>ok r. call_lua_func_str api func args ret' st = Inr (ok, r,
       if is_function (la_global api func) then st else lua_traceback # st) \<and> (\<not> ok \<longrightarrow> r = ret')) \<and>
    (\<exists>ok r. call_lua_func_table api func tbl ret' st = Inr (ok, r,
       if is_function (la_global api func) then st else lua_traceback # st) \<and> (\<not> ok \<longrightarrow> r = ret'))"
proof (cases "is_function (la_global api func)")
  case True
  show ?thesis
    using call_lua_func_int_result [of args api func ret st] call_lua_func_str_result [of args api func ret' st]
      call_lua_func_table_result [of tbl api func ret' st] assms True
    by (auto split: sum.splits)
next
  case False
  then show ?thesis
    by (auto simp: call_lua_func_int_missing call_lua_func_str_missing call_lua_func_table_missing)
qed

theorem lua_calls_keep_the_stack_witness:
  "\<exists>ok r. call_lua_func_int sample_lua [1] [\<lparr> arg_type = CPPTYPE_INT32, int_val = 5, float_val = 0, bool_val = False,
      str_val = [] \<rparr>] 9 [L_nil] = Inr (ok, r, [L_nil])"
  using lua_calls_keep_the_stack [of "[\<lparr> arg_type = CPPTYPE_INT32, int_val = 5, float_val = 0, bool_val = False,
      str_val = [] \<rparr>]" "[]" sample_lua "[1]" 9 "[L_nil]" "[]"]
  by (auto simp: passable_def sample_lua_def is_function_def)

section \<open>Further facts\<close>

text \<open>Of two connections that close in the same second one is lost. The table of closed
  connections is keyed by the closing time, so the second entry replaces the first: that object is then
  served by nobody and never deleted.\<close>

theorem one_closing_second_leaks:
  assumes "get_td i s = Inr t" and "tables_ok t s" and "knows_shutdown (s_msg_processers s)"
    and "p \<in> set (served t)" and "q \<in> set (served t)" and "is_closed s p" and "is_closed s q" and "p \<noteq> q"
    and "closing_time s p = closing_time s q" and "reap_phase raw i s = Inr s'" and "get_td i s' = Inr t'"
  shows "\<exists>x \<in> {p, q}. conns s' x \<noteq> None \<and> x \<notin> set (served t') \<and> x \<notin> snd ` set (for_delete_connections t')"
  by (rule reap_phase_same_second [OF assms])

theorem one_closing_second_leaks_witness:
  "\<exists>s' t'. reap_phase (0, 0, 0) 0 sample_closing = Inr s' \<and> get_td 0 s' = Inr t' \<and>
    (\<exists>x \<in> {7, 8}. conns s' x \<noteq> None \<and> x \<notin> set (served t') \<and> x \<notin> snd ` set (for_delete_connections t'))"
proof -
  let ?t = "sample_worker\<lparr> thread_connections := [(7, 7), (8, 8)] \<rparr>"
  have t: "get_td 0 sample_closing = Inr ?t" "tables_ok ?t sample_closing"
    "7 \<in> set (served ?t)" "8 \<in> set (served ?t)" "is_closed sample_closing 7" "is_closed sample_closing 8"
    "closing_time sample_closing 7 = closing_time sample_closing 8"
    by (auto simp: get_td_def tables_ok_def sample_closing_def served_def sample_conn_def new_Connection_def
        is_closed_def closing_time_def sample_worker_def new_ThreadData_def split: if_splits)
  have kn: "knows_shutdown (s_msg_processers sample_closing)"
    using sample_procs_ok sample_idle_tables(3) by (simp add: sample_closing_def)
  from reap_phase_result [OF t(1,2) kn] obtain s' t' where
    "reap_phase (0, 0, 0) 0 sample_closing = Inr s'" "get_td 0 s' = Inr t'" by blast
  with one_closing_second_leaks [OF t(1,2) kn t(3-6) _ t(7)] show ?thesis by fastforce
qed

text \<open>A role that redis no longer has, or cannot give, is not skipped: the lookup's result is
  ignored, so a row of empty texts is written to the database and the entry is removed from the list.\<close>

theorem lost_role_overwrites:
  assumes "rd_command ops cmd_first r = (Some (R_array (R_string key # es)), r1)"
    and "0 \<notin> set key" and "key \<noteq> []" and "rd_get ops key r1 = (rep, r2)" and "rep = Some R_nil \<or> is_error rep"
    and "my_ret (server (role_sql rc (rc_new rc))) = 0" and "rd_command ops cmd_del r2 = (Some (R_integer k), r3)"
  shows "save_roles_pass ops rc True server response response_del r =
    Inr (([], int_to_str k, [role_sql rc (rc_new rc)]), r3)"
proof -
  have c: "c_str key = key" using assms(2) by (rule c_str_id)
  have "get_redis_data ops (rc_parse rc) key (rc_new rc) r1 = Inr ((True, rc_new rc), r2)"
    using assms(4,5) by (auto simp: get_redis_data_def redis_get_data_def c is_error_def
        split: option.splits reply.splits)
  then show ?thesis
    using assms(1,3,6,7) by (simp add: save_roles_pass_def redis_cmd_def commands_plain c db_exe_def Let_def)
qed

theorem lost_role_overwrites_witness:
  "save_roles_pass sample_redis sample_rc True (\<lambda>q. sample_my) [] [] (\<lambda>k. None) =
    Inr (([], int_to_str 1, [role_sql sample_rc []]), (\<lambda>k. None))"
  using lost_role_overwrites [of sample_redis "\<lambda>k. None" "[5]" "[]" "\<lambda>k. None" "Some R_nil" "\<lambda>k. None" "\<lambda>q. sample_my"
      sample_rc 1 "\<lambda>k. None" "[]" "[]"]
  by (simp add: sample_redis_def map_server_def sample_rc_def sample_my_def cmd_distinct)

text \<open>Closing a connection removes its descriptor from the table, takes it out of the count,
  leaves no event pending and closes both of its descriptors, the duplicate for writing first; the
  object itself, with its closing time, stays for the worker to delete. A connection without a
  duplicate (a listening one) gets no descriptor closed: the second test asks for the duplicate again.\<close>

theorem closing_keeps_the_books:
  assumes "conns_map_ok s" and "get_conn p s = Inr c" and "\<not> buffers_freed c"
  shows "\<exists>s' c'. conn_internal_close p s = Inr s' \<and> conns_map_ok s' \<and>
    map_find (s_conns_map s') (sfd c) = None \<and> get_conn p s' = Inr c' \<and> close_time c' = close_time c \<and>
    \<not> ev_pending (read_event c') \<and> \<not> ev_pending (write_event c') \<and>
    curr_conns s' = curr_conns s - 1 \<and>
    effects s' = effects s @
      (if sfd_dup_for_write c \<noteq> -1 then [Close (sfd_dup_for_write c), Close (sfd c)] else [])"
proof -
  have p: "p \<noteq> NULLP" using assms(2) by (auto simp: get_conn_Inr)
  from conn_internal_close_result [OF assms(2) p assms(3)] obtain s' c' where
    s': "conn_internal_close p s = Inr s'" "conns s' = (conns s)(p := Some c')"
      "close_time c' = close_time c" "\<not> ev_pending (read_event c')" "\<not> ev_pending (write_event c')"
      "curr_conns s' = curr_conns s - 1" "effects s' = effects s @
        (if sfd_dup_for_write c \<noteq> -1 then [Close (sfd_dup_for_write c), Close (sfd c)] else [])" by blast
  with conns_map_ok_close [OF assms s'(1)] p show ?thesis by (simp add: get_conn_Inr)
qed

theorem closing_keeps_the_books_witness:
  "\<exists>s' c'. conn_internal_close 7 (sample_net True) = Inr s' \<and> conns_map_ok s' \<and>
    map_find (s_conns_map s') 8 = None \<and> get_conn 7 s' = Inr c' \<and> curr_conns s' = 0 \<and>
    effects s' = [Close 9, Close 8]"
proof -
  have ok: "conns_map_ok (sample_net True)" by (simp add: conns_map_ok_def sample_net_def sample_conn_def)
  obtain c where c: "get_conn 7 (sample_net True) = Inr c" "\<not> buffers_freed c" "sfd c = 8"
    "sfd_dup_for_write c = 9"
    by (simp add: sample_net_def sample_conn_def new_Connection_def get_conn_def)
  have n: "curr_conns (sample_net True) = 1" "effects (sample_net True) = []"
    by (simp_all add: sample_net_def)
  from closing_keeps_the_books [OF ok c(1,2)] c(3,4) n show ?thesis by auto
qed

text \<open>A worker with a closed connection hangs when the shutdown request is not in the
  table of message processors: the loop skips its increment. \<open>net_init\<close> starts the workers before
  \<open>protocol_init\<close> fills the table.\<close>

theorem reaping_needs_the_shutdown_message:
  assumes "get_td i s = Inr t" and "tables_ok t s" and "p \<in> set (served t)" and "is_closed s p"
  shows "(map_find (s_msg_processers s) (get_type C_Shutdown_Req) = None \<longrightarrow> reap_phase raw i s = Inl Spin) \<and>
    (knows_shutdown (s_msg_processers s) \<longrightarrow> reap_phase raw i s \<noteq> Inl Spin)"
  using reap_phase_spins [OF assms] reap_phase_result [OF assms(1,2), of raw] by auto

theorem reaping_needs_the_shutdown_message_witness:
  "reap_phase (0, 0, 0) 0 ((sample_net True)\<lparr> s_msg_processers := [] \<rparr>) = Inl Spin"
proof -
  let ?s = "(sample_net True)\<lparr> s_msg_processers := [] \<rparr>"
  have "get_td 0 ?s = Inr sample_worker \<and> tables_ok sample_worker ?s \<and> is_closed ?s 7 \<and> 7 \<in> set (served sample_worker)"
    using sample_tables [of True] by (simp add: get_td_def tables_ok_def is_closed_def) (simp add: sample_net_def)
  then show ?thesis
    using reaping_needs_the_shutdown_message [of 0 ?s sample_worker 7 "(0, 0, 0)"] by simp
qed

text \<open>The readers that work on the buffer directly, with their shifts unrolled over three
  32-bit parts, accept and return exactly what the byte-by-byte loop does, on every input, malformed
  and truncated ones included; the 32-bit reader is its truncation.\<close>

theorem fast_reader_is_slow_reader:
  "fst (ReadVarint64 bs) = fst (ReadVarint64Slow bs) \<and>
   (ReadVarint64 bs = (Some v, rest)) = (ReadVarint64Slow bs = (Some v, rest)) \<and>
   (ReadVarint32 bs = (Some w, rest)) = (\<exists>u. ReadVarint64Slow bs = (Some u, rest) \<and> w = ucast u)"
  by (intro conjI ReadVarint64_slow ReadVarint32_slow)

text \<open>\<open>ByteSize()\<close> is the number of bytes the serialiser writes, for the message and for its
  unknown fields, so the buffer \<open>on_write\<close> allocates is filled and never overrun.\<close>

theorem byte_size_is_exact:
  "fst (MsgData_ByteSize d) = length (MsgData_bytes d) \<and>
   (MsgData_SerializeToArray n d = Inr (True, Some out) \<longrightarrow> out = MsgData_bytes d) \<and>
   ComputeUnknownFieldsSize fs = length (SerializeUnknownFieldsToArray fs)"
proof -
  have "out = MsgData_bytes d" if "MsgData_SerializeToArray n d = Inr (True, Some out)"
  proof (cases "length (MsgData_bytes d) \<le> n")
    case True
    with that show ?thesis by (simp add: MsgData_SerializeToArray_fits)
  next
    case False
    with that show ?thesis
      using shutdown_req.SerializeToArray_small shutdown_res.SerializeToArray_small
        regist_req.SerializeToArray_small regist_res.SerializeToArray_small
      by (cases d) (auto simp: not_le)
  qed
  then show ?thesis by (simp add: MsgData_ByteSize_eq ComputeUnknownFieldsSize_length)
qed

theorem byte_size_is_exact_witness:
  "fst (MsgData_ByteSize (MD_Regist_Req (Regist_Req_set_my_id 300 Regist_Req_SharedCtor))) = 3 \<and>
   MsgData_bytes (MD_Regist_Req (Regist_Req_set_my_id 300 Regist_Req_SharedCtor)) = [8, 0xac, 2]"
proof -
  let ?d = "MD_Regist_Req (Regist_Req_set_my_id 300 Regist_Req_SharedCtor)"
  have "MsgData_bytes ?d = [8, 0xac, 2]" by code_simp
  with byte_size_is_exact [of ?d 3 "[8, 0xac, 2]"] show ?thesis by simp
qed

text \<open>Skipping an unknown field records exactly the field that was written, whatever its
  wire type and however deep its groups nest (up to the recursion limit of 100), and leaves the
  stream at the byte after it.\<close>

theorem skip_field_roundtrip:
  assumes "uf_ok (100 - recursion_depth input) f" and "cis_buf input = uf_payload f @ rest"
  shows "SkipField input (uf_tag f) ufs =
    Some (True, input\<lparr> cis_buf := rest, last_tag := uf_last f (last_tag input) \<rparr>, ufs @ [f])"
  by (rule SkipField_write [OF assms])

theorem skip_field_roundtrip_witness:
  "SkipField (CodedInputStream [8, 0x96, 1, 0x24, 99]) (uf_tag (UF_group 4 [UF_varint 1 150])) [] =
    Some (True, (CodedInputStream [8, 0x96, 1, 0x24, 99])\<lparr> cis_buf := [99], last_tag := 0x24 \<rparr>,
      [UF_group 4 [UF_varint 1 150]])"
proof -
  let ?i = "CodedInputStream [8, 0x96, 1, 0x24, 99]" and ?f = "UF_group 4 [UF_varint 1 150]"
  have "uf_ok (100 - recursion_depth ?i) ?f" by code_simp
  moreover have "cis_buf ?i = uf_payload ?f @ [99]" by code_simp
  moreover have "uf_last ?f (last_tag ?i) = 0x24" by code_simp
  ultimately show ?thesis using skip_field_roundtrip [of ?i ?f "[99]" "[]"] by simp
qed

text \<open>A message stored in redis comes back: after a successful \<open>redis_set_data\<close> a lookup that redis
  answers gives the same message, for every key without a zero byte.\<close>

theorem redis_roundtrip_of_messages:
  assumes "redis_laws ops store" and "0 \<notin> set key" and "MsgData_wf pd"
    and "length (MsgData_bytes pd) \<le> kDefaultTotalBytesLimit" and "MsgData_class pd0 = MsgData_class pd"
    and "redis_set_data ops key pd r = Inr ((True, ls), r1)" and "\<not> is_error (fst (rd_get ops key r1))"
  shows "redis_get_data ops MsgData_ParseFromArray key pd0 r1 =
    Inr ((True, MsgData_set_cached (MsgData_cached pd0) pd, []), snd (rd_get ops key r1))"
  by (rule redis_roundtrip [OF assms])

theorem redis_roundtrip_of_messages_witness:
  "\<exists>ls r1. redis_set_data map_server [1, 2] (MD_Shutdown_Res (Shutdown_Res_set_code 7 Shutdown_Res_SharedCtor)) (\<lambda>k. None) =
      Inr ((True, ls), r1) \<and>
    redis_get_data map_server MsgData_ParseFromArray [1, 2] (MD_Shutdown_Res Shutdown_Res_SharedCtor) r1 =
      Inr ((True, MD_Shutdown_Res (Shutdown_Res_set_code 7 Shutdown_Res_SharedCtor), []), r1)"
proof -
  let ?d = "MD_Shutdown_Res (Shutdown_Res_set_code 7 Shutdown_Res_SharedCtor)" and ?e = "MD_Shutdown_Res Shutdown_Res_SharedCtor"
  have b: "MsgData_bytes ?d = [8, 7]" by code_simp
  have wf: "MsgData_wf ?d" by (simp add: int32_wf_def) code_simp
  have c: "MsgData_set_cached (MsgData_cached ?e) ?d = ?d" by code_simp
  let ?r = "(\<lambda>k. None)([1, 2] \<mapsto> [8, 7])"
  have set: "redis_set_data map_server [1, 2] ?d (\<lambda>k. None) = Inr ((True, [Leak_buffer [8, 7]]), ?r)"
    unfolding redis_set_data_bytes b by (simp add: map_server_def)
  have ok: "\<not> is_error (fst (rd_get map_server [1, 2] ?r))" by (simp add: map_server_def is_error_def)
  from redis_roundtrip_of_messages [OF map_server_laws _ wf _ _ set ok, of ?e] set show ?thesis
    unfolding b c by (simp add: map_server_def)
qed

text \<open>The rows of a query become messages: when every column names a field of the item class and
  the text spells a value of its type, \<open>db_get_data\<close> appends one message for each row, in order, with
  exactly those values (integers of 32 and 64 bits, booleans and texts). The result sets of further
  statements are leaked.\<close>

theorem rows_are_copied:
  assumes "my_first (server cmd) = Some \<lparr> mr_fields = cols, mr_rows = map (map (\<lambda>v. Some (val_text v))) rows \<rparr>"
    and "\<And>row. row \<in> set rows \<Longrightarrow> \<forall>(n, v) \<in> set (zip cols row). val_exact v \<and> ct_item_des d n = Some (val_type v)"
    and "ct_has_id d"
  shows "db_get_data atof True (Some cmd) server (Some d) =
    Inr (True, Some (d\<lparr> ct_items := ct_items d @ map (\<lambda>row. item_of (zip cols row) (\<lambda>n. None)) rows \<rparr>),
      List.map_filter id (my_next (server cmd)))"
  using fill_items_vals [where rows = rows and cols = cols and des = "ct_item_des d" and atof = atof and items = "ct_items d"]
    assms by (simp add: db_get_data_def Let_def spells_def)

theorem rows_are_copied_witness:
  "db_get_data (\<lambda>s. ()) True (Some []) (\<lambda>q. sample_my\<lparr> my_first :=
      Some \<lparr> mr_fields = [[1], [2]], mr_rows = [[Some (int_to_str (- 5)), Some [65]]] \<rparr> \<rparr>) (Some sample_ct) =
    Inr (True, Some (sample_ct\<lparr> ct_items := [[[1] \<mapsto> V_int64 (- 5), [2] \<mapsto> V_string [65]]] \<rparr>), [])"
  using rows_are_copied [of "\<lambda>q. sample_my\<lparr> my_first :=
      Some \<lparr> mr_fields = [[1], [2]], mr_rows = [[Some (int_to_str (- 5)), Some [65]]] \<rparr> \<rparr>" "[]" "[[1], [2]]"
      "[[V_int64 (- 5), V_string [65]]]" sample_ct "\<lambda>s. ()"]
  by (simp add: sample_my_def sample_ct_def map_filter_simps)

end
